(* ===== verification/Prelude.thy ===== *)
theory Prelude
  imports "HOL-Library.Word"
begin

text \<open>
  Shared vocabulary of the TablesOS development: machine bytes, Rust strings as lists of
  UTF-8 bytes (the type \<^typ>\<open>string\<close>, whose characters are bytes), the error type of the
  engine (\<^verbatim>\<open>tablestore/src/lib.rs\<close>), results and state-passing actions, slices of byte
  vectors and little-endian integers.

  Conventions used by every theory:
  \<^item> \<^verbatim>\<open>u64\<close>, \<^verbatim>\<open>usize\<close> and \<^verbatim>\<open>u32\<close> counters are \<^typ>\<open>nat\<close>; where the source can leave the
    range of the type the check or the truncation is written out (the workspace builds the engine
    with the \<^verbatim>\<open>dev\<close> profile, so an arithmetic overflow aborts);
  \<^item> a \<^verbatim>\<open>Result\<close> is a sum with the error on the left;
  \<^item> an action on a state returns \<^term>\<open>None\<close> when the call does not return: a panic
    (\<^verbatim>\<open>panic = "abort"\<close>), or a loop that never ends.
\<close>

section \<open>Bytes, words and errors\<close>

type_synonym byte = "8 word"
type_synonym u32 = "32 word"

datatype store_error =
    Io
  | Corrupt string
  | OutOfSpace
  | Parse string
  | NullViolation string
  | UniqueViolation string
  | ForeignKeyViolation string
  | SchemaRejected string
  | NotFound string
  | Duplicate string

type_synonym 'a result = "store_error + 'a"

named_theorems run_simps "evaluation of state-passing actions"

section \<open>Results\<close>

definition bindR :: "'e + 'a \<Rightarrow> ('a \<Rightarrow> 'e + 'b) \<Rightarrow> 'e + 'b" where
  "bindR r k = (case r of Inl e \<Rightarrow> Inl e | Inr x \<Rightarrow> k x)"

lemma bindR_simps [simp]:
  "bindR (Inl e) k = Inl e"
  "bindR (Inr x) k = k x"
  by (simp_all add: bindR_def)

lemma bindR_eq_Inr:
  "bindR r k = Inr y \<longleftrightarrow> (\<exists>x. r = Inr x \<and> k x = Inr y)"
  by (cases r) simp_all

definition ok_or :: "'e \<Rightarrow> 'a option \<Rightarrow> 'e + 'a" where
  "ok_or e x = (case x of None \<Rightarrow> Inl e | Some v \<Rightarrow> Inr v)"

lemma ok_or_simps [simp]:
  "ok_or e None = Inl e"
  "ok_or e (Some v) = Inr v"
  by (simp_all add: ok_or_def)

text \<open>Checked read of a vector element: Rust's \<^verbatim>\<open>xs.get(i)\<close>.\<close>

definition get_at :: "'a list \<Rightarrow> nat \<Rightarrow> 'a option" where
  "get_at xs i = (if i < length xs then Some (xs ! i) else None)"

lemma get_at_append_left [simp]: "i < length xs \<Longrightarrow> get_at (xs @ ys) i = Some (xs ! i)"
  by (simp add: get_at_def nth_append)

lemma get_at_Cons_length [simp]: "get_at (xs @ y # ys) (length xs) = Some y"
  by (simp add: get_at_def)

section \<open>Actions on a state\<close>

type_synonym ('s, 'a) act = "'s \<Rightarrow> ('a result \<times> 's) option"

definition returnM :: "'a \<Rightarrow> ('s, 'a) act" where
  "returnM x s = Some (Inr x, s)"

definition failM :: "store_error \<Rightarrow> ('s, 'a) act" where
  "failM e s = Some (Inl e, s)"

definition panicM :: "('s, 'a) act" where
  "panicM s = None"

definition bindM :: "('s, 'a) act \<Rightarrow> ('a \<Rightarrow> ('s, 'b) act) \<Rightarrow> ('s, 'b) act" where
  "bindM m k s = (case m s of
      None \<Rightarrow> None
    | Some (r, s') \<Rightarrow> (case r of Inl e \<Rightarrow> Some (Inl e, s') | Inr x \<Rightarrow> k x s'))"

definition assertM :: "bool \<Rightarrow> ('s, unit) act" where
  "assertM b = (if b then returnM () else panicM)"

definition liftM :: "'a result \<Rightarrow> ('s, 'a) act" where
  "liftM r s = Some (r, s)"

definition getM :: "('s \<Rightarrow> 'a) \<Rightarrow> ('s, 'a) act" where
  "getM f s = Some (Inr (f s), s)"

definition modifyM :: "('s \<Rightarrow> 's) \<Rightarrow> ('s, unit) act" where
  "modifyM f s = Some (Inr (), f s)"

fun forM :: "'x list \<Rightarrow> ('x \<Rightarrow> ('s, unit) act) \<Rightarrow> ('s, unit) act" where
  "forM [] f = returnM ()"
| "forM (x # xs) f = bindM (f x) (\<lambda>_. forM xs f)"

fun mapM :: "'x list \<Rightarrow> ('x \<Rightarrow> ('s, 'y) act) \<Rightarrow> ('s, 'y list) act" where
  "mapM [] f = returnM []"
| "mapM (x # xs) f = bindM (f x) (\<lambda>y. bindM (mapM xs f) (\<lambda>ys. returnM (y # ys)))"

text \<open>A search loop that stops at the first hit.\<close>

fun anyM :: "'x list \<Rightarrow> ('x \<Rightarrow> ('s, bool) act) \<Rightarrow> ('s, bool) act" where
  "anyM [] f = returnM False"
| "anyM (x # xs) f = bindM (f x) (\<lambda>b. if b then returnM True else anyM xs f)"

text \<open>\<^verbatim>\<open>Option::unwrap\<close>, and a Rust unsigned integer as \<^verbatim>\<open>format!\<close> prints it.\<close>

definition unwrapM :: "'a option \<Rightarrow> ('s, 'a) act" where
  "unwrapM x = (case x of None \<Rightarrow> panicM | Some v \<Rightarrow> returnM v)"

fun dec_of_nat :: "nat \<Rightarrow> string" where
  "dec_of_nat n = (if n < 10 then [char_of (48 + n)] else dec_of_nat (n div 10) @ [char_of (48 + n mod 10)])"

declare dec_of_nat.simps [simp del]

lemma run_basic [run_simps, simp]:
  "returnM x s = Some (Inr x, s)"
  "failM e s = Some (Inl e, s)"
  "panicM s = None"
  "assertM b s = (if b then Some (Inr (), s) else None)"
  "liftM r s = Some (r, s)"
  "getM f s = Some (Inr (f s), s)"
  "modifyM g s = Some (Inr (), g s)"
  by (simp_all add: returnM_def failM_def panicM_def assertM_def liftM_def getM_def modifyM_def)

lemma bindM_None [run_simps]: "m s = None \<Longrightarrow> bindM m k s = None"
  and bindM_Inl [run_simps]: "m s = Some (Inl e, s') \<Longrightarrow> bindM m k s = Some (Inl e, s')"
  and bindM_Inr [run_simps]: "m s = Some (Inr x, s') \<Longrightarrow> bindM m k s = k x s'"
  by (simp_all add: bindM_def)

lemma bindM_basic [simp]:
  "bindM (returnM x) k = k x"
  "bindM (failM e) k = failM e"
  "bindM panicM k = panicM"
  "bindM (getM f) k s = k (f s) s"
  "bindM (modifyM g) h s = h () (g s)"
  "bindM (liftM r) k s = (case r of Inl e \<Rightarrow> Some (Inl e, s) | Inr y \<Rightarrow> k y s)"
  by (simp_all add: bindM_def fun_eq_iff)

lemma bindM_eta [simp]:
  "bindM (\<lambda>s. Some (Inr x, s)) k = k x"
  "bindM (\<lambda>s. Some (Inl e, s)) k = failM e"
  by (simp_all add: bindM_def fun_eq_iff)

lemma bindM_assertM [simp]:
  "bindM (assertM b) k s = (if b then k () s else None)"
  by (simp add: bindM_def)

lemma bindM_assoc: "bindM (bindM m f) g = bindM m (\<lambda>x. bindM (f x) g)"
  by (auto simp: bindM_def fun_eq_iff split: option.splits sum.splits)

lemma bindM_eq_Some:
  "bindM m k s = Some (r, t) \<longleftrightarrow>
     (\<exists>e. m s = Some (Inl e, t) \<and> r = Inl e) \<or>
     (\<exists>x s'. m s = Some (Inr x, s') \<and> k x s' = Some (r, t))"
  by (auto simp: bindM_def split: option.splits sum.splits prod.splits)

lemma bindM_eq_Inr:
  "bindM m k s = Some (Inr y, t) \<longleftrightarrow>
     (\<exists>x s'. m s = Some (Inr x, s') \<and> k x s' = Some (Inr y, t))"
  by (auto simp: bindM_eq_Some)

lemma forM_assert_result: "forM xs (\<lambda>x. assertM (P x)) s = Some (r, t) \<longleftrightarrow> r = Inr () \<and> t = s \<and> (\<forall>x \<in> set xs. P x)"
  by (induction xs arbitrary: s) (auto simp: bindM_eq_Some)

lemma forM_append: "forM (xs @ ys) f = bindM (forM xs f) (\<lambda>_. forM ys f)"
  by (induction xs) (simp_all add: bindM_assoc)

lemma bindM_mono [partial_function_mono]:
  fixes k :: "('c \<Rightarrow> 'd option) \<Rightarrow> 'a \<Rightarrow> ('s, 'b) act"
  assumes "\<And>x s. monotone (fun_ord option_ord) option_ord (\<lambda>f. k f x s)"
  shows "monotone (fun_ord option_ord) option_ord (\<lambda>f. bindM m (k f) s)"
  unfolding monotone_def
proof (intro allI impI)
  fix f g :: "'c \<Rightarrow> 'd option"
  assume le: "fun_ord option_ord f g"
  show "option_ord (bindM m (k f) s) (bindM m (k g) s)"
  proof (cases "m s")
    case None
    then show ?thesis by (simp add: bindM_def flat_ord_def)
  next
    case (Some p)
    obtain r s' where p: "p = (r, s')" by (cases p)
    show ?thesis
    proof (cases r)
      case (Inl e)
      with Some p show ?thesis by (simp add: bindM_def flat_ord_def)
    next
      case (Inr x)
      have "option_ord (k f x s') (k g x s')"
        using assms[of x s'] le by (simp add: monotone_def)
      with Some p Inr show ?thesis by (simp add: bindM_def)
    qed
  qed
qed

section \<open>Slices\<close>

text \<open>
  \<open>slice xs a b\<close> is \<^verbatim>\<open>&xs[a..b]\<close> and \<open>splice xs off ys\<close> is
  \<^verbatim>\<open>xs[off..off + ys.len()].copy_from_slice(ys)\<close>, both for ranges inside the vector; code that
  can leave the range checks it first.
\<close>

definition slice :: "'a list \<Rightarrow> nat \<Rightarrow> nat \<Rightarrow> 'a list" where
  "slice xs a b = take (b - a) (drop a xs)"

definition splice :: "'a list \<Rightarrow> nat \<Rightarrow> 'a list \<Rightarrow> 'a list" where
  "splice xs off ys = take off xs @ ys @ drop (off + length ys) xs"

lemma length_slice [simp]: "length (slice xs a b) = min (b - a) (length xs - a)"
  by (simp add: slice_def)

lemma nth_slice [simp]: "a + i < b \<Longrightarrow> b \<le> length xs \<Longrightarrow> slice xs a b ! i = xs ! (a + i)"
  by (simp add: slice_def)

lemma length_splice [simp]:
  "off + length ys \<le> length xs \<Longrightarrow> length (splice xs off ys) = length xs"
  by (simp add: splice_def)

lemma nth_splice:
  assumes "off + length ys \<le> length xs" "i < length xs"
  shows "splice xs off ys ! i =
    (if off \<le> i \<and> i < off + length ys then ys ! (i - off) else xs ! i)"
  using assms by (auto simp: splice_def nth_append)

lemma slice_splice_same:
  assumes "off + length ys \<le> length xs"
  shows "slice (splice xs off ys) off (off + length ys) = ys"
  using assms by (simp add: slice_def splice_def)

lemma slice_splice_disjoint:
  assumes "off + length ys \<le> length xs" "b \<le> length xs" "b \<le> off \<or> off + length ys \<le> a"
  shows "slice (splice xs off ys) a b = slice xs a b"
proof (rule nth_equalityI)
  show "length (slice (splice xs off ys) a b) = length (slice xs a b)"
    using assms by simp
  fix i assume "i < length (slice (splice xs off ys) a b)"
  then have "a + i < b" using assms by simp
  then show "slice (splice xs off ys) a b ! i = slice xs a b ! i"
    using assms by (auto simp: nth_splice)
qed

lemma slice_splice_inside:
  assumes "off + length ys \<le> length xs" "off \<le> a" "a \<le> b" "b \<le> off + length ys"
  shows "slice (splice xs off ys) a b = slice ys (a - off) (b - off)"
proof (rule nth_equalityI)
  show "length (slice (splice xs off ys) a b) = length (slice ys (a - off) (b - off))"
    using assms by simp
  fix i assume "i < length (slice (splice xs off ys) a b)"
  then have "a + i < b" using assms by simp
  then show "slice (splice xs off ys) a b ! i = slice ys (a - off) (b - off) ! i"
    using assms by (auto simp: nth_splice)
qed

lemma slice_slice:
  "b \<le> length xs \<Longrightarrow> a \<le> b \<Longrightarrow> d \<le> b - a \<Longrightarrow> slice (slice xs a b) c d = slice xs (a + c) (a + d)"
  by (rule nth_equalityI) (auto simp: ac_simps)

lemma slice_full [simp]: "slice xs 0 (length xs) = xs"
  by (simp add: slice_def)

lemma slice_append_mid [simp]:
  "slice (xs @ ys @ zs) (length xs) (length xs + length ys) = ys"
  by (simp add: slice_def)

lemma slice_replicate [simp]:
  "b \<le> n \<Longrightarrow> slice (replicate n x) a b = replicate (b - a) x"
  by (simp add: slice_def)

lemma slice_append_left: "b \<le> length xs \<Longrightarrow> slice (xs @ ys) a b = slice xs a b"
  by (cases "a \<le> b") (simp_all add: slice_def)

lemma slice_append_right: "length xs \<le> a \<Longrightarrow> slice (xs @ ys) a b = slice ys (a - length xs) (b - length xs)"
  by (simp add: slice_def)

lemma slice_all: "length xs \<le> b \<Longrightarrow> slice xs 0 b = xs"
  by (simp add: slice_def)

lemma splice_adjacent:
  assumes "off + length ys + length zs \<le> length xs" "off' = off + length ys"
  shows "splice (splice xs off ys) off' zs = splice xs off (ys @ zs)"
  using assms by (cases ys) (auto simp: splice_def min_def ac_simps)

lemma slice_join: "a \<le> b \<Longrightarrow> b \<le> c \<Longrightarrow> c \<le> length xs \<Longrightarrow>
  slice xs a b @ slice xs b c = slice xs a c"
proof -
  assume le: "a \<le> b" "b \<le> c" "c \<le> length xs"
  have "slice xs a c = take ((b - a) + (c - b)) (drop a xs)"
    using le by (simp add: slice_def)
  also have "\<dots> = take (b - a) (drop a xs) @ take (c - b) (drop (b - a) (drop a xs))"
    by (rule take_add)
  also have "drop (b - a) (drop a xs) = drop b xs"
    using le by simp
  finally show ?thesis by (simp add: slice_def)
qed

lemma slice_split:
  assumes "a \<le> i" "i < b" "b \<le> length xs"
  shows "slice xs a b = slice xs a i @ xs ! i # slice xs (i + 1) b"
proof -
  have "slice xs i b = xs ! i # slice xs (i + 1) b"
    using assms by (simp add: slice_def Suc_diff_Suc take_Suc_Cons flip: Cons_nth_drop_Suc)
       (metis Suc_diff_Suc take_Suc_Cons)
  then show ?thesis using slice_join[of a i b xs] assms by simp
qed

lemma slice_update_outside: "i < a \<or> b \<le> i \<Longrightarrow> slice (xs[i := v]) a b = slice xs a b"
proof (cases "a \<le> i")
  case True
  then show "i < a \<or> b \<le> i \<Longrightarrow> ?thesis" by (auto simp: slice_def drop_update_swap)
qed (simp add: slice_def)

section \<open>Little-endian integers\<close>

definition le_bytes :: "nat \<Rightarrow> nat \<Rightarrow> byte list" where
  "le_bytes k n = map (\<lambda>i. of_nat (n div 256 ^ i)) [0..<k]"

primrec of_le :: "byte list \<Rightarrow> nat" where
  "of_le [] = 0"
| "of_le (b # bs) = unat b + 256 * of_le bs"

lemma length_le_bytes [simp]: "length (le_bytes k n) = k"
  by (simp add: le_bytes_def)

lemma le_bytes_Suc: "le_bytes (Suc k) n = of_nat n # le_bytes k (n div 256)"
proof -
  have "[0..<Suc k] = 0 # map Suc [0..<k]"
    by (simp add: map_Suc_upt upt_conv_Cons del: upt_Suc)
  then show ?thesis
    by (simp add: le_bytes_def div_mult2_eq o_def del: upt_Suc)
qed

lemma unat_of_nat_byte: "unat (of_nat n :: byte) = n mod 256"
  by (simp add: unat_of_nat)

lemma of_le_le_bytes_mod: "of_le (le_bytes k n) = n mod 256 ^ k"
proof (induction k arbitrary: n)
  case 0
  then show ?case by (simp add: le_bytes_def)
next
  case (Suc k)
  have "of_le (le_bytes (Suc k) n) = n mod 256 + 256 * ((n div 256) mod 256 ^ k)"
    by (simp add: le_bytes_Suc unat_of_nat_byte Suc.IH)
  also have "\<dots> = n mod 256 ^ Suc k"
    by (simp add: mod_mult2_eq)
  finally show ?case .
qed

lemma of_le_le_bytes: "n < 256 ^ k \<Longrightarrow> of_le (le_bytes k n) = n"
  by (simp add: of_le_le_bytes_mod)

lemma of_le_less: "of_le bs < 256 ^ length bs"
proof (induction bs)
  case (Cons b bs)
  have "unat b < 256" using unsigned_less[of b] by simp
  with Cons show ?case by simp
qed simp

lemma of_le_zeros [simp]: "of_le (replicate n 0) = 0"
  by (induction n) simp_all

lemma digits_unique:
  fixes a b c e :: nat
  shows "a < 256 \<Longrightarrow> c < 256 \<Longrightarrow> a + 256 * b = c + 256 * e \<Longrightarrow> a = c \<and> b = e"
proof -
  assume d: "a < 256" "c < 256" "a + 256 * b = c + 256 * e"
  have "a = (a + 256 * b) mod 256" using d(1) by simp
  also have "\<dots> = c" unfolding d(3) using d(2) by simp
  finally show ?thesis using d(3) by simp
qed

lemma of_le_inj: "of_le xs = of_le ys \<Longrightarrow> length xs = length ys \<Longrightarrow> xs = ys"
proof (induction xs ys rule: list_induct2')
  case (4 x xs y ys)
  have "unat x < 256" "unat y < 256" using unsigned_less[of x] unsigned_less[of y] by simp_all
  moreover have "unat x + 256 * of_le xs = unat y + 256 * of_le ys" using 4(2) by simp
  ultimately have "unat x = unat y \<and> of_le xs = of_le ys" by (rule digits_unique)
  with 4 show ?case by (simp add: unsigned_word_eqI)
qed simp_all

lemma le_bytes_inj: "le_bytes k m = le_bytes k n \<Longrightarrow> m < 256 ^ k \<Longrightarrow> n < 256 ^ k \<Longrightarrow> m = n"
  by (metis of_le_le_bytes)

section \<open>Ordered maps\<close>

text \<open>
  \<^verbatim>\<open>BTreeMap<u64, V>\<close> as the list of its entries in key order, the order in which the source
  iterates over it; \<open>map_of\<close> is \<^verbatim>\<open>get\<close> and \<open>bt_insert\<close> is \<^verbatim>\<open>insert\<close>.
\<close>

type_synonym 'v btree = "(nat \<times> 'v) list"

fun bt_insert :: "nat \<Rightarrow> 'v \<Rightarrow> 'v btree \<Rightarrow> 'v btree" where
  "bt_insert k v [] = [(k, v)]"
| "bt_insert k v ((k', v') # m) =
     (if k < k' then (k, v) # (k', v') # m
      else if k = k' then (k, v) # m
      else (k', v') # bt_insert k v m)"

definition bt_ok :: "'v btree \<Rightarrow> bool" where
  "bt_ok m = sorted_wrt (<) (map fst m)"

lemma bt_ok_Nil [simp]: "bt_ok []"
  by (simp add: bt_ok_def)

lemma map_of_bt_insert [simp]: "map_of (bt_insert k v m) = (map_of m)(k \<mapsto> v)"
  by (induction m) (auto simp: fun_eq_iff)

lemma keys_bt_insert [simp]: "fst ` set (bt_insert k v m) = insert k (fst ` set m)"
  unfolding dom_map_of_conv_image_fst[symmetric] by simp

lemma bt_insert_vals: "set (bt_insert k v m) \<subseteq> insert (k, v) (set m)"
  by (induction m) (auto split: if_splits)

lemma bt_ok_insert [simp]: "bt_ok m \<Longrightarrow> bt_ok (bt_insert k v m)"
proof (induction m)
  case (Cons e m)
  obtain k' v' where e: "e = (k', v')" by (cases e)
  have "\<forall>y \<in> set m. k' < fst y" "bt_ok m" using Cons.prems by (auto simp: bt_ok_def e)
  with Cons.IH show ?case
    using keys_bt_insert[of k v m] by (auto simp: bt_ok_def e)
qed (simp add: bt_ok_def)

lemma map_of_rev_distinct: "distinct (map fst m) \<Longrightarrow> map_of (rev m) = map_of m"
proof
  fix k assume d: "distinct (map fst m)"
  have "map_of (rev m) k = Some v \<longleftrightarrow> map_of m k = Some v" for v
    using d by (simp add: map_of_eq_Some_iff rev_map[symmetric])
  then show "map_of (rev m) k = map_of m k" by (metis not_None_eq)
qed

lemma bt_ok_distinct: "bt_ok m \<Longrightarrow> distinct (map fst m)"
  unfolding bt_ok_def by (metis strict_sorted_iff)

lemma bt_insert_entries:
  "bt_ok m \<Longrightarrow> (q, w) \<in> set (bt_insert k v m) \<longleftrightarrow> (if q = k then w = v else (q, w) \<in> set m)"
  using map_of_eq_Some_iff[OF bt_ok_distinct, of "bt_insert k v m" q w] map_of_eq_Some_iff[OF bt_ok_distinct, of m q w]
  by auto

end
