(* ===== verification/Bignum.thy ===== *)
theory Bignum
  imports Prelude
begin

text \<open>
  Unlimited integers, after \<^verbatim>\<open>tablestore/src/bignum.rs\<close>. A \<^verbatim>\<open>BigUint\<close> is its decimal
  digits, most significant first; the digits are the numbers 0 to 9, held here as \<^typ>\<open>nat\<close>.
  The lemmas relate parsing, printing, comparison, remainder, successor and predecessor to the
  number the digits denote.
\<close>

section \<open>Rust orderings\<close>

datatype ordering = Less | Equal | Greater

definition cmp :: "'a::linorder \<Rightarrow> 'a \<Rightarrow> ordering" where
  "cmp x y = (if x < y then Less else if x = y then Equal else Greater)"

definition then_ord :: "ordering \<Rightarrow> ordering \<Rightarrow> ordering" where
  "then_ord a b = (case a of Equal \<Rightarrow> b | _ \<Rightarrow> a)"

definition reverse_ord :: "ordering \<Rightarrow> ordering" where
  "reverse_ord a = (case a of Less \<Rightarrow> Greater | Equal \<Rightarrow> Equal | Greater \<Rightarrow> Less)"

text \<open>Lexicographic comparison of slices (\<^verbatim>\<open><[T] as Ord>::cmp\<close>): a proper prefix is smaller.\<close>

fun cmp_list :: "'a::linorder list \<Rightarrow> 'a list \<Rightarrow> ordering" where
  "cmp_list [] [] = Equal"
| "cmp_list [] (y # ys) = Less"
| "cmp_list (x # xs) [] = Greater"
| "cmp_list (x # xs) (y # ys) = then_ord (cmp x y) (cmp_list xs ys)"

lemma then_ord_simps [simp]:
  "then_ord Less b = Less" "then_ord Equal b = b" "then_ord Greater b = Greater"
  by (simp_all add: then_ord_def)

lemma reverse_ord_simps [simp]:
  "reverse_ord Less = Greater" "reverse_ord Equal = Equal" "reverse_ord Greater = Less"
  by (simp_all add: reverse_ord_def)

lemma cmp_simps [simp]:
  "cmp x y = Less \<longleftrightarrow> x < y"
  "cmp x y = Equal \<longleftrightarrow> x = y"
  "cmp x y = Greater \<longleftrightarrow> y < x"
  by (auto simp: cmp_def)

lemma reverse_cmp: "reverse_ord (cmp x y) = cmp y x"
  by (auto simp: cmp_def)

lemma reverse_then: "reverse_ord (then_ord a b) = then_ord (reverse_ord a) (reverse_ord b)"
  by (cases a) simp_all

lemma then_ord_eq_Equal [simp]: "then_ord a b = Equal \<longleftrightarrow> a = Equal \<and> b = Equal"
  by (cases a) simp_all

lemma cmp_list_Equal [simp]: "cmp_list xs ys = Equal \<longleftrightarrow> xs = ys"
  by (induction xs ys rule: cmp_list.induct) auto

lemma reverse_cmp_list: "reverse_ord (cmp_list xs ys) = cmp_list ys xs"
  by (induction xs ys rule: cmp_list.induct) (simp_all add: reverse_then reverse_cmp)

section \<open>Unsigned integers\<close>

datatype big_uint = BigUint (digits: "nat list")

text \<open>The number denoted by a list of decimal digits (Horner's rule).\<close>

definition dval :: "nat list \<Rightarrow> nat" where
  "dval ds = foldl (\<lambda>r d. r * 10 + d) 0 ds"

abbreviation uval :: "big_uint \<Rightarrow> nat" where
  "uval b \<equiv> dval (digits b)"

text \<open>The documented invariant: digits 0 to 9, no leading zero, empty exactly for zero.\<close>

definition canon_digits :: "nat list \<Rightarrow> bool" where
  "canon_digits ds \<longleftrightarrow> (\<forall>d \<in> set ds. d < 10) \<and> (ds = [] \<or> hd ds \<noteq> 0)"

abbreviation canon_uint :: "big_uint \<Rightarrow> bool" where
  "canon_uint b \<equiv> canon_digits (digits b)"

definition is_ascii_digit :: "char \<Rightarrow> bool" where
  "is_ascii_digit c \<longleftrightarrow> of_char CHR ''0'' \<le> (of_char c :: nat) \<and> (of_char c :: nat) \<le> of_char CHR ''9''"

definition digit_of :: "char \<Rightarrow> nat" where
  "digit_of c = of_char c - of_char CHR ''0''"

definition char_of_digit :: "nat \<Rightarrow> char" where
  "char_of_digit d = char_of (of_char CHR ''0'' + d)"

definition zero_uint :: big_uint where
  "zero_uint = BigUint []"

definition is_zero_uint :: "big_uint \<Rightarrow> bool" where
  "is_zero_uint b \<longleftrightarrow> digits b = []"

definition normalize :: "nat list \<Rightarrow> nat list" where
  "normalize ds = (let lead = length (takeWhile (\<lambda>d. d = 0) ds)
                   in if lead > 0 then drop lead ds else ds)"

text \<open>The digit loop shared by the parsers: reject at the first byte that is no ASCII digit.\<close>

fun parse_digits :: "string \<Rightarrow> nat list option" where
  "parse_digits [] = Some []"
| "parse_digits (c # cs) =
     (if \<not> is_ascii_digit c then None
      else map_option (\<lambda>ds. digit_of c # ds) (parse_digits cs))"

definition parse_uint :: "string \<Rightarrow> big_uint option" where
  "parse_uint s = (if s = [] then None
     else map_option (\<lambda>ds. BigUint (normalize ds)) (parse_digits s))"

definition from_digits :: "nat list \<Rightarrow> big_uint option" where
  "from_digits ds = (if \<exists>d \<in> set ds. d > 9 then None else Some (BigUint (normalize ds)))"

definition uint_to_dec_string :: "big_uint \<Rightarrow> string" where
  "uint_to_dec_string b = (if is_zero_uint b then ''0'' else map char_of_digit (digits b))"

text \<open>\<^verbatim>\<open>rem_u32\<close>: a zero modulus panics.\<close>

definition rem_u32 :: "big_uint \<Rightarrow> nat \<Rightarrow> nat option" where
  "rem_u32 b m = (if m = 0 then None
     else Some (foldl (\<lambda>r d. (r * 10 + d) mod m) 0 (digits b)))"

definition digit_count :: "big_uint \<Rightarrow> nat" where
  "digit_count b = length (digits b)"

fun succ_loop :: "nat list \<Rightarrow> nat \<Rightarrow> nat list" where
  "succ_loop ds 0 = 1 # ds"
| "succ_loop ds (Suc i) =
     (if ds ! i = 9 then succ_loop (ds[i := 0]) i else ds[i := ds ! i + 1])"

definition succ_uint :: "big_uint \<Rightarrow> big_uint" where
  "succ_uint b = BigUint (normalize (succ_loop (digits b) (length (digits b))))"

fun pred_loop :: "nat list \<Rightarrow> nat \<Rightarrow> nat list" where
  "pred_loop ds 0 = ds"
| "pred_loop ds (Suc i) =
     (if ds ! i = 0 then pred_loop (ds[i := 9]) i else ds[i := ds ! i - 1])"

definition pred_uint :: "big_uint \<Rightarrow> big_uint" where
  "pred_uint b = BigUint (normalize (pred_loop (digits b) (length (digits b))))"

definition cmp_uint :: "big_uint \<Rightarrow> big_uint \<Rightarrow> ordering" where
  "cmp_uint a b = (case cmp (length (digits a)) (length (digits b)) of
      Equal \<Rightarrow> cmp_list (digits a) (digits b) | ord \<Rightarrow> ord)"

section \<open>Signed integers\<close>

datatype big_int = BigInt (negative: bool) (mag: big_uint)

definition zero_int :: big_int where
  "zero_int = BigInt False zero_uint"

definition from_parts :: "bool \<Rightarrow> big_uint \<Rightarrow> big_int" where
  "from_parts neg m = BigInt (neg \<and> \<not> is_zero_uint m) m"

definition is_zero_int :: "big_int \<Rightarrow> bool" where
  "is_zero_int i \<longleftrightarrow> is_zero_uint (mag i)"

text \<open>The optional sign: \<^verbatim>\<open>match s.as_bytes().first()\<close>.\<close>

definition split_sign :: "string \<Rightarrow> bool \<times> string" where
  "split_sign s = (case s of
      c # cs \<Rightarrow> if c = CHR ''-'' then (True, cs)
               else if c = CHR ''+'' then (False, cs) else (False, s)
    | [] \<Rightarrow> (False, s))"

definition parse_int :: "string \<Rightarrow> big_int option" where
  "parse_int s = (let (neg, rest) = split_sign s
                  in map_option (from_parts neg) (parse_uint rest))"

definition int_to_dec_string :: "big_int \<Rightarrow> string" where
  "int_to_dec_string i = (if negative i then ''-'' else []) @ uint_to_dec_string (mag i)"

definition succ_int :: "big_int \<Rightarrow> big_int" where
  "succ_int i = (if negative i then from_parts True (pred_uint (mag i))
                 else from_parts False (succ_uint (mag i)))"

definition cmp_int :: "big_int \<Rightarrow> big_int \<Rightarrow> ordering" where
  "cmp_int a b = (case (negative a, negative b) of
      (False, True) \<Rightarrow> Greater
    | (True, False) \<Rightarrow> Less
    | (False, False) \<Rightarrow> cmp_uint (mag a) (mag b)
    | (True, True) \<Rightarrow> cmp_uint (mag b) (mag a))"

definition canon_int :: "big_int \<Rightarrow> bool" where
  "canon_int i \<longleftrightarrow> canon_uint (mag i) \<and> (negative i \<longrightarrow> digits (mag i) \<noteq> [])"

definition ival :: "big_int \<Rightarrow> int" where
  "ival i = (if negative i then - int (uval (mag i)) else int (uval (mag i)))"

section \<open>Digits\<close>

lemma digit_chars [simp]:
  assumes "d < 10"
  shows "is_ascii_digit (char_of_digit d)" "digit_of (char_of_digit d) = d"
  using assms by (simp_all add: is_ascii_digit_def digit_of_def char_of_digit_def)

lemma digit_of_less: "is_ascii_digit c \<Longrightarrow> digit_of c < 10"
  by (auto simp: is_ascii_digit_def digit_of_def)

lemma char_of_digit_of: "is_ascii_digit c \<Longrightarrow> char_of_digit (digit_of c) = c"
  by (simp add: is_ascii_digit_def digit_of_def char_of_digit_def)

lemma not_digit_chars [simp]:
  "\<not> is_ascii_digit CHR ''-''" "\<not> is_ascii_digit CHR ''+''" "\<not> is_ascii_digit CHR ''.''"
  "\<not> is_ascii_digit CHR '':''" "\<not> is_ascii_digit CHR ''T''" "\<not> is_ascii_digit CHR '' ''"
  "\<not> is_ascii_digit CHR ''Z''" "\<not> is_ascii_digit CHR ''z''"
  by (simp_all add: is_ascii_digit_def)

lemma digit_char_neq:
  assumes "d < 10" "\<not> is_ascii_digit c"
  shows "char_of_digit d \<noteq> c"
  using assms by auto

lemma parse_digits_eq:
  "parse_digits s = (if list_all is_ascii_digit s then Some (map digit_of s) else None)"
  by (induction s) simp_all

lemma parse_digits_print [simp]:
  assumes "\<forall>d \<in> set ds. d < 10"
  shows "parse_digits (map char_of_digit ds) = Some ds"
  using assms by (simp add: parse_digits_eq list_all_iff o_def map_idI)

lemma dval_Nil [simp]: "dval [] = 0"
  by (simp add: dval_def)

lemma dval_snoc [simp]: "dval (ds @ [d]) = dval ds * 10 + d"
  by (simp add: dval_def)

lemma dval_append: "dval (xs @ ys) = dval xs * 10 ^ length ys + dval ys"
proof (induction ys rule: rev_induct)
  case (snoc y ys)
  have "dval (xs @ ys @ [y]) = dval (xs @ ys) * 10 + y"
    using dval_snoc[of "xs @ ys" y] by simp
  then show ?case by (simp add: snoc.IH algebra_simps)
qed simp

lemma dval_Cons: "dval (d # ds) = d * 10 ^ length ds + dval ds"
  using dval_append[of "[d]" ds] by (simp add: dval_def)

lemma dval_less: "\<forall>d \<in> set ds. d < 10 \<Longrightarrow> dval ds < 10 ^ length ds"
proof (induction ds rule: rev_induct)
  case (snoc d ds)
  then show ?case by simp
qed simp

lemma dval_ge: "canon_digits ds \<Longrightarrow> ds \<noteq> [] \<Longrightarrow> 10 ^ (length ds - 1) \<le> dval ds"
  by (cases ds) (auto simp: canon_digits_def dval_Cons intro: trans_le_add1)

lemma dval_eq_0: "canon_digits ds \<Longrightarrow> dval ds = 0 \<longleftrightarrow> ds = []"
proof (cases "ds = []")
  case False
  assume "canon_digits ds"
  then have "10 ^ (length ds - 1) \<le> dval ds" using False by (rule dval_ge)
  moreover have "0 < (10::nat) ^ (length ds - 1)" by simp
  ultimately have "0 < dval ds" by linarith
  with False show ?thesis by simp
qed simp

lemma normalize_eq: "normalize ds = dropWhile (\<lambda>d. d = 0) ds"
  by (simp add: normalize_def dropWhile_eq_drop Let_def)

lemma dval_normalize [simp]: "dval (normalize ds) = dval ds"
  by (induction ds) (simp_all add: normalize_eq dval_Cons)

lemma canon_normalize:
  assumes "\<forall>d \<in> set ds. d < 10"
  shows "canon_digits (normalize ds)"
proof -
  have "dropWhile (\<lambda>d. d = 0) ds = [] \<or> hd (dropWhile (\<lambda>d. d = 0) ds) \<noteq> 0"
    using hd_dropWhile[of "\<lambda>d. d = 0" ds] by blast
  with assms show ?thesis
    unfolding canon_digits_def normalize_eq by (blast dest: set_dropWhileD)
qed

lemma normalize_canon: "canon_digits ds \<Longrightarrow> normalize ds = ds"
  by (cases ds) (auto simp: canon_digits_def normalize_eq)

text \<open>Comparing digit lists of equal length is comparing the numbers.\<close>

lemma cmp_list_dval:
  assumes "length xs = length ys" "\<forall>d \<in> set xs. d < 10" "\<forall>d \<in> set ys. d < 10"
  shows "cmp_list xs ys = cmp (dval xs) (dval ys)"
  using assms
proof (induction xs ys rule: list_induct2)
  case (Cons x xs y ys)
  let ?B = "10 ^ length xs :: nat"
  have b: "dval xs < ?B" "dval ys < ?B"
    using Cons dval_less[of xs] dval_less[of ys] by auto
  have less: "u * ?B + dval us < v * ?B + dval vs" if "u < v" "dval us < ?B" for u v us vs
  proof -
    have "(u + 1) * ?B \<le> v * ?B" using that(1) by (intro mult_le_mono1) simp
    with that(2) show ?thesis by simp
  qed
  consider "x < y" | "x = y" | "y < x" by linarith
  then show ?case
  proof cases
    case 1
    with b Cons.hyps show ?thesis
      using less[of x y xs ys] by (simp add: dval_Cons cmp_def)
  next
    case 2
    with Cons show ?thesis by (simp add: dval_Cons cmp_def)
  next
    case 3
    with b Cons.hyps show ?thesis
      using less[of y x ys xs] by (simp add: dval_Cons cmp_def)
  qed
qed (simp add: cmp_def)

lemma cmp_uint_uval:
  assumes "canon_uint a" "canon_uint b"
  shows "cmp_uint a b = cmp (uval a) (uval b)"
proof -
  have longer: "uval x < uval y"
    if "canon_uint x" "canon_uint y" "length (digits x) < length (digits y)" for x y
  proof -
    have "uval x < 10 ^ length (digits x)"
      using that(1) by (simp add: canon_digits_def dval_less)
    also have "\<dots> \<le> 10 ^ (length (digits y) - 1)"
      using that(3) by (intro power_increasing) auto
    also have "\<dots> \<le> uval y"
      using that by (intro dval_ge) auto
    finally show ?thesis .
  qed
  show ?thesis
  proof (cases "length (digits a) = length (digits b)")
    case True
    then show ?thesis
      using assms by (simp add: cmp_uint_def cmp_def cmp_list_dval canon_digits_def)
  next
    case False
    then show ?thesis
      using assms longer[of a b] longer[of b a] by (auto simp: cmp_uint_def cmp_def)
  qed
qed

lemma uval_inj: "canon_uint a \<Longrightarrow> canon_uint b \<Longrightarrow> uval a = uval b \<Longrightarrow> a = b"
proof -
  assume a: "canon_uint a" "canon_uint b" "uval a = uval b"
  then have "cmp_uint a b = Equal" by (simp add: cmp_uint_uval)
  then have "digits a = digits b"
    by (auto simp: cmp_uint_def split: ordering.splits)
  then show "a = b" by (simp add: big_uint.expand)
qed


section \<open>Remainder, successor and predecessor\<close>

lemma foldl_mod:
  fixes m :: nat
  shows "foldl (\<lambda>r d. (r * 10 + d) mod m) (a mod m) ds = foldl (\<lambda>r d. r * 10 + d) a ds mod m"
proof (induction ds arbitrary: a)
  case (Cons d ds)
  have "(a mod m * 10 + d) mod m = (a * 10 + d) mod m"
    by (metis mod_add_left_eq mod_mult_left_eq)
  then show ?case using Cons.IH[of "a * 10 + d"] by simp
qed simp

lemma rem_u32_eq: "m \<noteq> 0 \<Longrightarrow> rem_u32 b m = Some (uval b mod m)"
  using foldl_mod[of m 0 "digits b"] by (simp add: rem_u32_def dval_def)

lemma dval_update:
  "i < length ds \<Longrightarrow>
   dval (ds[i := d]) + ds ! i * 10 ^ (length ds - Suc i) = dval ds + d * 10 ^ (length ds - Suc i)"
proof (induction ds arbitrary: i)
  case (Cons x xs)
  show ?case
  proof (cases i)
    case 0
    then show ?thesis by (simp add: dval_Cons)
  next
    case (Suc j)
    with Cons show ?thesis by (simp add: dval_Cons)
  qed
qed simp

lemma digits_update: "\<forall>x \<in> set ds. x < 10 \<Longrightarrow> d < 10 \<Longrightarrow> \<forall>x \<in> set (ds[i := d]). x < (10::nat)"
  using set_update_subset_insert[of ds i d] by auto

lemma pow_step: "Suc i \<le> n \<Longrightarrow> (10::nat) ^ (n - i) = 10 * 10 ^ (n - Suc i)"
  by (metis Suc_diff_le diff_Suc_Suc power_Suc)

lemma dval_succ_loop: "i \<le> length ds \<Longrightarrow> dval (succ_loop ds i) = dval ds + 10 ^ (length ds - i)"
proof (induction ds i rule: succ_loop.induct)
  case (2 ds i)
  note upd = dval_update[of i ds 0] dval_update[of i ds "ds ! i + 1"]
  from 2 upd pow_step[of i "length ds"] show ?case by (cases "ds ! i = 9") simp_all
qed (simp add: dval_Cons)

lemma digits_succ_loop:
  "i \<le> length ds \<Longrightarrow> \<forall>x \<in> set ds. x < 10 \<Longrightarrow> \<forall>x \<in> set (succ_loop ds i). x < 10"
proof (induction ds i rule: succ_loop.induct)
  case (2 ds i)
  then have "ds ! i < 10" by simp
  show ?case
  proof (cases "ds ! i = 9")
    case True
    then have "\<forall>x \<in> set (succ_loop (ds[i := 0]) i). x < 10"
      using 2 digits_update[of ds 0 i] by simp
    with True show ?thesis by simp
  next
    case False
    with \<open>ds ! i < 10\<close> have "ds ! i + 1 < 10" by simp
    with False digits_update[OF 2(3) this] show ?thesis by simp
  qed
qed simp

lemma succ_uint_correct:
  assumes "canon_uint b"
  shows "canon_uint (succ_uint b)" "uval (succ_uint b) = uval b + 1"
proof -
  show "uval (succ_uint b) = uval b + 1"
    by (simp add: succ_uint_def dval_succ_loop)
  have "\<forall>x \<in> set (succ_loop (digits b) (length (digits b))). x < 10"
    using assms by (intro digits_succ_loop) (simp_all add: canon_digits_def)
  then show "canon_uint (succ_uint b)"
    by (simp add: succ_uint_def canon_normalize)
qed

lemma dval_pred_loop:
  "i \<le> length ds \<Longrightarrow> \<exists>j<i. ds ! j \<noteq> 0 \<Longrightarrow>
   dval (pred_loop ds i) + 10 ^ (length ds - i) = dval ds"
proof (induction ds i rule: pred_loop.induct)
  case (2 ds i)
  show ?case
  proof (cases "ds ! i = 0")
    case True
    with 2 have "\<exists>j<i. ds[i := 9] ! j \<noteq> 0"
      by (metis less_Suc_eq nth_list_update_neq)
    with 2 True have "dval (pred_loop (ds[i := 9]) i) + 10 ^ (length ds - i) = dval (ds[i := 9])"
      by simp
    with True dval_update[of i ds 9] pow_step[of i "length ds"] 2(2) show ?thesis by simp
  next
    case False
    then obtain k where k: "ds ! i = Suc k" by (cases "ds ! i") auto
    from False k dval_update[of i ds k] 2(2) show ?thesis by simp
  qed
qed simp

lemma digits_pred_loop:
  "i \<le> length ds \<Longrightarrow> \<forall>x \<in> set ds. x < 10 \<Longrightarrow> \<forall>x \<in> set (pred_loop ds i). x < 10"
proof (induction ds i rule: pred_loop.induct)
  case (2 ds i)
  then have "ds ! i < 10" by simp
  then have "ds ! i - 1 < 10" by simp
  show ?case
  proof (cases "ds ! i = 0")
    case True
    then have "\<forall>x \<in> set (pred_loop (ds[i := 9]) i). x < 10"
      using 2 digits_update[of ds 9 i] by simp
    with True show ?thesis by simp
  next
    case False
    with digits_update[OF 2(3) \<open>ds ! i - 1 < 10\<close>] show ?thesis by simp
  qed
qed simp

lemma pred_uint_correct:
  assumes "canon_uint b"
  shows "canon_uint (pred_uint b)" "uval (pred_uint b) = uval b - 1"
proof -
  have "\<forall>x \<in> set (pred_loop (digits b) (length (digits b))). x < 10"
    using assms by (intro digits_pred_loop) (simp_all add: canon_digits_def)
  then show "canon_uint (pred_uint b)"
    by (simp add: pred_uint_def canon_normalize)
  show "uval (pred_uint b) = uval b - 1"
  proof (cases "digits b")
    case Nil
    then show ?thesis by (simp add: pred_uint_def)
  next
    case (Cons d ds)
    with assms have "digits b ! 0 \<noteq> 0" "0 < length (digits b)"
      by (simp_all add: canon_digits_def)
    then have "\<exists>j<length (digits b). digits b ! j \<noteq> 0" by blast
    then have "dval (pred_loop (digits b) (length (digits b))) + 1 = uval b"
      using dval_pred_loop[of "length (digits b)" "digits b"] by simp
    then show ?thesis by (simp add: pred_uint_def)
  qed
qed

section \<open>Parsing and printing\<close>

lemma is_zero_uint_uval: "canon_uint b \<Longrightarrow> is_zero_uint b \<longleftrightarrow> uval b = 0"
  by (simp add: is_zero_uint_def dval_eq_0)

lemma parse_uint_Some:
  "parse_uint s = Some b \<longleftrightarrow>
     s \<noteq> [] \<and> list_all is_ascii_digit s \<and> b = BigUint (normalize (map digit_of s))"
  by (auto simp: parse_uint_def parse_digits_eq)

lemma canon_parse_uint: "parse_uint s = Some b \<Longrightarrow> canon_uint b"
  by (auto simp: parse_uint_Some list_all_iff digit_of_less intro!: canon_normalize)

lemma uval_parse_uint: "parse_uint s = Some b \<Longrightarrow> uval b = dval (map digit_of s)"
  by (auto simp: parse_uint_Some)

lemma uint_string_digits: "canon_uint b \<Longrightarrow> list_all is_ascii_digit (uint_to_dec_string b)"
  by (auto simp: uint_to_dec_string_def list_all_iff canon_digits_def is_ascii_digit_def[of "CHR ''0''"])

lemma uint_string_nonempty [simp]: "uint_to_dec_string b \<noteq> []"
  by (auto simp: uint_to_dec_string_def is_zero_uint_def)

lemma parse_print_uint: "canon_uint b \<Longrightarrow> parse_uint (uint_to_dec_string b) = Some b"
proof (cases "digits b = []")
  case True
  then have "b = BigUint []" by (simp add: big_uint.expand)
  then show ?thesis by (simp add: uint_to_dec_string_def is_zero_uint_def parse_uint_def
      is_ascii_digit_def digit_of_def normalize_eq)
next
  case False
  assume c: "canon_uint b"
  then have "\<forall>d \<in> set (digits b). d < 10" by (simp add: canon_digits_def)
  with False c show ?thesis
    by (simp add: uint_to_dec_string_def is_zero_uint_def parse_uint_def normalize_canon)
qed

text \<open>Leading zeros do not change what is parsed.\<close>

lemma parse_uint_zeros:
  assumes "parse_uint s = Some b"
  shows "parse_uint (replicate n CHR ''0'' @ s) = Some b"
proof -
  have "normalize (replicate n 0 @ ds) = normalize ds" for ds
    by (induction n) (simp_all add: normalize_eq)
  with assms show ?thesis
    by (auto simp: parse_uint_Some list_all_iff is_ascii_digit_def[of "CHR ''0''"] digit_of_def)
qed

lemma from_parts_simps [simp]:
  "mag (from_parts neg m) = m"
  "negative (from_parts neg m) \<longleftrightarrow> neg \<and> digits m \<noteq> []"
  by (simp_all add: from_parts_def is_zero_uint_def)

lemma canon_from_parts: "canon_uint m \<Longrightarrow> canon_int (from_parts neg m)"
  by (simp add: canon_int_def)

lemma from_parts_id: "canon_int i \<Longrightarrow> from_parts (negative i) (mag i) = i"
  by (cases i) (auto simp: canon_int_def from_parts_def is_zero_uint_def)

lemma ival_from_parts:
  "canon_uint m \<Longrightarrow> ival (from_parts neg m) = (if neg then - int (uval m) else int (uval m))"
  by (auto simp: ival_def)

lemma split_sign_digit:
  "s \<noteq> [] \<Longrightarrow> list_all is_ascii_digit s \<Longrightarrow> split_sign s = (False, s)"
  by (cases s) (auto simp: split_sign_def)

lemma canon_parse_int: "parse_int s = Some i \<Longrightarrow> canon_int i"
  by (auto simp: parse_int_def split: prod.splits intro: canon_from_parts canon_parse_uint)

lemma parse_print_int:
  assumes "canon_int i"
  shows "parse_int (int_to_dec_string i) = Some i"
proof -
  have c: "canon_uint (mag i)" using assms by (simp add: canon_int_def)
  have "split_sign (int_to_dec_string i) = (negative i, uint_to_dec_string (mag i))"
    using split_sign_digit[OF _ uint_string_digits[OF c]]
    by (cases "negative i") (simp_all add: int_to_dec_string_def split_sign_def)
  then show ?thesis
    by (simp add: parse_int_def parse_print_uint[OF c] from_parts_id[OF assms])
qed

lemma succ_int_correct:
  assumes "canon_int i"
  shows "canon_int (succ_int i)" "ival (succ_int i) = ival i + 1"
proof -
  have c: "canon_uint (mag i)" using assms by (simp add: canon_int_def)
  note sc = succ_uint_correct[OF c] pred_uint_correct[OF c]
  show "canon_int (succ_int i)"
    using sc by (simp add: succ_int_def canon_from_parts)
  have "negative i \<Longrightarrow> uval (mag i) \<noteq> 0"
    using assms c by (auto simp: canon_int_def dval_eq_0)
  then show "ival (succ_int i) = ival i + 1"
    using sc by (auto simp: succ_int_def ival_from_parts) (auto simp: ival_def)
qed

lemma cmp_int_ival:
  assumes "canon_int a" "canon_int b"
  shows "cmp_int a b = cmp (ival a) (ival b)"
proof -
  have pos: "negative x \<longrightarrow> uval (mag x) > 0" if "canon_int x" for x
    using that dval_eq_0[of "digits (mag x)"] by (auto simp: canon_int_def)
  show ?thesis
    using assms pos[OF assms(1)] pos[OF assms(2)]
    by (cases "negative a"; cases "negative b")
       (simp_all add: cmp_int_def ival_def cmp_uint_uval canon_int_def cmp_def)
qed

lemma ival_inj: "canon_int a \<Longrightarrow> canon_int b \<Longrightarrow> ival a = ival b \<Longrightarrow> a = b"
proof -
  assume c: "canon_int a" "canon_int b" "ival a = ival b"
  then have "cmp_int a b = Equal" by (simp add: cmp_int_ival)
  then have "negative a = negative b" "cmp_uint (mag a) (mag b) = Equal \<or> cmp_uint (mag b) (mag a) = Equal"
    by (auto simp: cmp_int_def split: bool.splits)
  then have "mag a = mag b"
    using c by (auto simp: cmp_uint_uval canon_int_def intro: uval_inj)
  with \<open>negative a = negative b\<close> show "a = b" by (simp add: big_int.expand)
qed


section \<open>The orders of the source as type class instances\<close>

text \<open>
  \<^verbatim>\<open>impl Ord for BigUint\<close> and \<^verbatim>\<open>impl Ord for BigInt\<close> are linear orders on all values, canonical
  or not, and agree with equality.
\<close>

lemma cmp_list_Less_trans:
  "cmp_list xs ys = Less \<Longrightarrow> cmp_list ys zs = Less \<Longrightarrow> cmp_list xs zs = Less"
proof (induction xs ys arbitrary: zs rule: cmp_list.induct)
  case (2 y ys)
  then show ?case by (cases zs) auto
next
  case (4 x xs y ys)
  show ?case
  proof (cases zs)
    case (Cons z zs')
    have "x < z \<or> x = z \<and> cmp_list xs zs' = Less"
      using 4 Cons by (auto simp: then_ord_def split: ordering.splits)
    then show ?thesis using Cons by (auto simp: then_ord_def cmp_def)
  qed (use 4 in simp)
qed auto

lemma cmp_uint_Less_trans:
  "cmp_uint a b = Less \<Longrightarrow> cmp_uint b c = Less \<Longrightarrow> cmp_uint a c = Less"
  by (auto simp: cmp_uint_def split: ordering.splits intro: cmp_list_Less_trans)

lemma cmp_uint_Equal [simp]: "cmp_uint a b = Equal \<longleftrightarrow> a = b"
  by (auto simp: cmp_uint_def big_uint.expand split: ordering.splits)

lemma cmp_uint_self [simp]: "cmp_uint a a = Equal"
  by simp

lemma cmp_uint_Greater: "cmp_uint a b = Greater \<longleftrightarrow> cmp_uint b a = Less"
proof -
  have "cmp_uint a b = reverse_ord (cmp_uint b a)"
    by (auto simp: cmp_uint_def reverse_cmp_list[of "digits b" "digits a"] cmp_def
             simp del: cmp_uint_Equal)
  then show ?thesis by (cases "cmp_uint b a") simp_all
qed

instantiation big_uint :: linorder
begin

definition less_eq_big_uint :: "big_uint \<Rightarrow> big_uint \<Rightarrow> bool" where
  "less_eq_big_uint a b \<longleftrightarrow> cmp_uint a b \<noteq> Greater"

definition less_big_uint :: "big_uint \<Rightarrow> big_uint \<Rightarrow> bool" where
  "less_big_uint a b \<longleftrightarrow> cmp_uint a b = Less"

instance
proof
  fix a b c :: big_uint
  show "a < b \<longleftrightarrow> a \<le> b \<and> \<not> b \<le> a"
    using cmp_uint_Greater[of a b] cmp_uint_Greater[of b a]
    by (auto simp: less_eq_big_uint_def less_big_uint_def)
  show "a \<le> a"
    by (simp add: less_eq_big_uint_def cmp_uint_self del: cmp_uint_Equal)
  have le: "x \<le> y \<longleftrightarrow> cmp_uint x y = Less \<or> x = y" for x y :: big_uint
    using cmp_uint_Equal[of x y] by (cases "cmp_uint x y") (auto simp: less_eq_big_uint_def)
  show "a \<le> b \<Longrightarrow> b \<le> c \<Longrightarrow> a \<le> c"
    unfolding le using cmp_uint_Less_trans by blast
  show "a \<le> b \<Longrightarrow> b \<le> a \<Longrightarrow> a = b"
    using cmp_uint_Greater[of b a] by (cases "cmp_uint a b") (auto simp: less_eq_big_uint_def)
  show "a \<le> b \<or> b \<le> a"
    using cmp_uint_Greater[of a b] by (auto simp: less_eq_big_uint_def)
qed

end

lemma cmp_uint_cmp: "cmp_uint a b = cmp a b"
  by (cases "cmp_uint a b") (auto simp: cmp_def less_big_uint_def cmp_uint_Greater)

instantiation big_int :: linorder
begin

definition less_eq_big_int :: "big_int \<Rightarrow> big_int \<Rightarrow> bool" where
  "less_eq_big_int a b \<longleftrightarrow> cmp_int a b \<noteq> Greater"

definition less_big_int :: "big_int \<Rightarrow> big_int \<Rightarrow> bool" where
  "less_big_int a b \<longleftrightarrow> cmp_int a b = Less"

instance
  by standard
     (auto simp: less_eq_big_int_def less_big_int_def cmp_int_def cmp_uint_cmp big_int.expand
           split: bool.splits)

end

lemma cmp_int_cmp: "cmp_int a b = cmp a b"
  by (cases a; cases b)
     (auto simp: cmp_def less_big_int_def cmp_int_def cmp_uint_cmp split: bool.splits)

section \<open>Properties\<close>

text \<open>Integers of any length are computed with exactly: on canonical digit strings comparison is the order of the
  integers denoted, the successor adds one, and both keep the representation canonical; printing and parsing is the identity.\<close>

theorem big_int_arithmetic:
  assumes "canon_int a" "canon_int b"
  shows "cmp_int a b = cmp (ival a) (ival b) \<and> canon_int (succ_int a) \<and> ival (succ_int a) = ival a + 1 \<and>
    parse_int (int_to_dec_string a) = Some a"
  using cmp_int_ival[OF assms] succ_int_correct[OF assms(1)] parse_print_int[OF assms(1)] by simp

theorem big_int_arithmetic_witness:
  "let a = BigInt True (BigUint [1, 0, 0]); b = BigInt False (BigUint [9, 9]) in
   cmp_int a b = cmp (ival a) (ival b) \<and> canon_int (succ_int a) \<and> ival (succ_int a) = ival a + 1 \<and>
    parse_int (int_to_dec_string a) = Some a"
  unfolding Let_def by (rule big_int_arithmetic) (simp_all add: canon_int_def canon_digits_def)

end
