(* ===== verification/Types.thy ===== *)
theory Types
  imports Prelude
begin

text \<open>
  The column types of the specification, after \<^verbatim>\<open>tablestore/src/types.rs\<close>: the fixed picker
  list, the canonical names, the stable one-byte tags of the on-disk codec and the input hints.
\<close>

datatype type =
    TInteger
  | TUnsignedInteger
  | TDecimal
  | TString
  | TDate
  | TDateTz
  | TTime
  | TDateTime
  | TDateTimeTz

definition all_types :: "type list" where
  "all_types = [TInteger, TUnsignedInteger, TDecimal, TString, TDate, TDateTz, TTime, TDateTime,
     TDateTimeTz]"

fun type_name :: "type \<Rightarrow> string" where
  "type_name TInteger = ''integer''"
| "type_name TUnsignedInteger = ''unsigned integer''"
| "type_name TDecimal = ''decimal''"
| "type_name TString = ''string''"
| "type_name TDate = ''date''"
| "type_name TDateTz = ''date tz''"
| "type_name TTime = ''time''"
| "type_name TDateTime = ''date time''"
| "type_name TDateTimeTz = ''date time tz''"

definition from_name :: "string \<Rightarrow> type option" where
  "from_name s = find (\<lambda>t. type_name t = s) all_types"

fun tag :: "type \<Rightarrow> byte" where
  "tag TInteger = 1"
| "tag TUnsignedInteger = 2"
| "tag TDecimal = 3"
| "tag TString = 4"
| "tag TDate = 5"
| "tag TDateTz = 6"
| "tag TTime = 7"
| "tag TDateTime = 8"
| "tag TDateTimeTz = 9"

definition from_tag :: "byte \<Rightarrow> type option" where
  "from_tag b = find (\<lambda>t. tag t = b) all_types"

fun input_hint :: "type \<Rightarrow> string" where
  "input_hint TInteger = ''e.g. -1234567890123456789''"
| "input_hint TUnsignedInteger = ''e.g. 1234567890123456789''"
| "input_hint TDecimal = ''e.g. -3.14159265358979''"
| "input_hint TString = ''any UTF-8 text''"
| "input_hint TDate = ''YYYY-MM-DD (year may be signed)''"
| "input_hint TDateTz = ''YYYY-MM-DD+HH:MM''"
| "input_hint TTime = ''HH:MM:SS[.fraction]''"
| "input_hint TDateTime = ''YYYY-MM-DDTHH:MM:SS[.fraction]''"
| "input_hint TDateTimeTz = ''YYYY-MM-DDTHH:MM:SS[.fraction]+HH:MM''"

lemma from_tag_tag [simp]: "from_tag (tag t) = Some t"
  by (cases t) (simp_all add: from_tag_def all_types_def)

lemma from_name_name [simp]: "from_name (type_name t) = Some t"
  by (cases t) (simp_all add: from_name_def all_types_def)

lemma from_tag_Some: "from_tag b = Some t \<longleftrightarrow> b = tag t"
proof
  assume "from_tag b = Some t"
  then show "b = tag t" by (auto simp: from_tag_def find_Some_iff)
qed simp

lemma all_types_complete: "set all_types = UNIV"
proof -
  have "t \<in> set all_types" for t by (cases t) (simp_all add: all_types_def)
  then show ?thesis by blast
qed

end
