(* ===== verification/Value.thy ===== *)
theory Value
  imports Complex_Main Bignum Types
begin

text \<open>
  Typed values, after \<^verbatim>\<open>tablestore/src/value.rs\<close>: decimals, calendar dates with unlimited years,
  times of day and fixed zone offsets, their parsers and canonical printers, and the order that
  \<^verbatim>\<open>UNIQUE\<close> and the foreign keys rest on. Strings are their UTF-8 bytes, so \<^verbatim>\<open>s.len()\<close> is
  \<^const>\<open>length\<close>, and a slice of a string is a slice of the list wherever the source has
  checked that the cut is a character boundary.
\<close>

section \<open>String splitting\<close>

text \<open>\<^verbatim>\<open>str::split_once(c)\<close>, \<^verbatim>\<open>str::split(c)\<close> and \<^verbatim>\<open>str::rsplitn(n, c)\<close> for an ASCII \<^verbatim>\<open>c\<close>.\<close>

fun split_once :: "char \<Rightarrow> string \<Rightarrow> (string \<times> string) option" where
  "split_once c [] = None"
| "split_once c (x # xs) = (if x = c then Some ([], xs)
     else map_option (\<lambda>(l, r). (x # l, r)) (split_once c xs))"

fun split_on :: "char \<Rightarrow> string \<Rightarrow> string list" where
  "split_on c [] = [[]]"
| "split_on c (x # xs) = (if x = c then [] # split_on c xs
     else (case split_on c xs of [] \<Rightarrow> [[x]] | p # ps \<Rightarrow> (x # p) # ps))"

definition rsplit_once :: "char \<Rightarrow> string \<Rightarrow> (string \<times> string) option" where
  "rsplit_once c s = map_option (\<lambda>(l, r). (rev r, rev l)) (split_once c (rev s))"

fun rsplitn :: "nat \<Rightarrow> char \<Rightarrow> string \<Rightarrow> string list" where
  "rsplitn 0 c s = []"
| "rsplitn (Suc 0) c s = [s]"
| "rsplitn (Suc (Suc n)) c s = (case rsplit_once c s of
      None \<Rightarrow> [s] | Some (l, r) \<Rightarrow> r # rsplitn (Suc n) c l)"

text \<open>\<^verbatim>\<open>str::is_char_boundary\<close>: the start, the end, or no UTF-8 continuation byte.\<close>

definition is_char_boundary :: "string \<Rightarrow> nat \<Rightarrow> bool" where
  "is_char_boundary s i \<longleftrightarrow> i = 0 \<or> i = length s \<or>
     (i < length s \<and> \<not> (128 \<le> (of_char (s ! i) :: nat) \<and> (of_char (s ! i) :: nat) < 192))"

section \<open>Decimals\<close>

datatype decimal = Decimal (dec_neg: bool) (dec_int: big_uint) (dec_frac: "nat list")

text \<open>\<^verbatim>\<open>while frac.last() == Some(&0) { frac.pop(); }\<close>\<close>

function trim_zeros :: "nat list \<Rightarrow> nat list" where
  "trim_zeros fs = (if fs \<noteq> [] \<and> last fs = 0 then trim_zeros (butlast fs) else fs)"
  by pat_completeness auto
termination
  by (relation "measure length") auto

declare trim_zeros.simps [simp del]

definition canonical_decimal :: "bool \<Rightarrow> big_uint \<Rightarrow> nat list \<Rightarrow> decimal" where
  "canonical_decimal neg i fs =
     (let fs' = trim_zeros fs
      in Decimal (neg \<and> \<not> (is_zero_uint i \<and> fs' = [])) i fs')"

definition parse_decimal :: "string \<Rightarrow> decimal option" where
  "parse_decimal s =
     (let (neg, rest) = split_sign s in
      if rest = [] then None else
      let (int_part, frac_part) = (case split_once CHR ''.'' rest of
            Some (i, f) \<Rightarrow> (i, f) | None \<Rightarrow> (rest, [])) in
      if int_part = [] \<and> frac_part = [] then None else
      Option.bind (if int_part = [] then Some zero_uint else parse_uint int_part) (\<lambda>i.
      Option.bind (parse_digits frac_part) (\<lambda>f.
      Some (canonical_decimal neg i f))))"

definition display_frac :: "nat list \<Rightarrow> string" where
  "display_frac fs = (if fs \<noteq> [] then CHR ''.'' # map char_of_digit fs else [])"

definition display_decimal :: "decimal \<Rightarrow> string" where
  "display_decimal d = (if dec_neg d then ''-'' else []) @ uint_to_dec_string (dec_int d)
     @ display_frac (dec_frac d)"

text \<open>The index loop of \<^verbatim>\<open>cmp_frac\<close>, from \<^verbatim>\<open>i\<close> to \<^verbatim>\<open>n\<close>, missing digits counting as 0.\<close>

definition digit_at :: "nat list \<Rightarrow> nat \<Rightarrow> nat" where
  "digit_at a i = (case get_at a i of Some x \<Rightarrow> x | None \<Rightarrow> 0)"

function cmp_frac_loop :: "nat list \<Rightarrow> nat list \<Rightarrow> nat \<Rightarrow> nat \<Rightarrow> ordering" where
  "cmp_frac_loop a b i n = (if i < n then
     (case cmp (digit_at a i) (digit_at b i) of
        Equal \<Rightarrow> cmp_frac_loop a b (Suc i) n | ord \<Rightarrow> ord)
     else Equal)"
  by pat_completeness auto
termination
  by (relation "measure (\<lambda>(a, b, i, n). n - i)") auto

declare cmp_frac_loop.simps [simp del]

definition cmp_frac :: "nat list \<Rightarrow> nat list \<Rightarrow> ordering" where
  "cmp_frac a b = cmp_frac_loop a b 0 (max (length a) (length b))"

definition cmp_decimal :: "decimal \<Rightarrow> decimal \<Rightarrow> ordering" where
  "cmp_decimal a b = (case (dec_neg a, dec_neg b) of
      (False, True) \<Rightarrow> Greater
    | (True, False) \<Rightarrow> Less
    | _ \<Rightarrow> let m = then_ord (cmp_uint (dec_int a) (dec_int b)) (cmp_frac (dec_frac a) (dec_frac b))
           in if dec_neg a then reverse_ord m else m)"

section \<open>Dates\<close>

datatype date = Date (year: big_int) (month: nat) (day: nat)

definition is_leap :: "big_int \<Rightarrow> bool" where
  "is_leap y \<longleftrightarrow> rem_u32 (mag y) 4 = Some 0 \<and>
     (rem_u32 (mag y) 100 \<noteq> Some 0 \<or> rem_u32 (mag y) 400 = Some 0)"

definition days_in_month :: "big_int \<Rightarrow> nat \<Rightarrow> nat" where
  "days_in_month y m =
     (if m \<in> {1, 3, 5, 7, 8, 10, 12} then 31
      else if m \<in> {4, 6, 9, 11} then 30
      else if m = 2 then (if is_leap y then 29 else 28)
      else 0)"

text \<open>Exactly \<^verbatim>\<open>width\<close> ASCII digits (the callers pass width 2, so the \<^verbatim>\<open>u32\<close> cannot overflow).\<close>

definition parse_fixed :: "string \<Rightarrow> nat \<Rightarrow> nat option" where
  "parse_fixed s width =
     (if length s \<noteq> width \<or> \<not> list_all is_ascii_digit s then None
      else Some (foldl (\<lambda>v c. v * 10 + digit_of c) 0 s))"

definition push2 :: "nat \<Rightarrow> string" where
  "push2 v = [char_of_digit (v div 10), char_of_digit (v mod 10)]"

definition parse_date :: "string \<Rightarrow> date option" where
  "parse_date s =
     (let neg = (s \<noteq> [] \<and> hd s = CHR ''-'');
          body = (if neg then tl s else s) in
      case rsplitn 3 CHR ''-'' body of
        [dd, mm, yy] \<Rightarrow>
          if yy = [] then None else
          Option.bind (parse_uint yy) (\<lambda>m. let y = from_parts neg m in
          Option.bind (parse_fixed mm 2) (\<lambda>mon.
          Option.bind (parse_fixed dd 2) (\<lambda>d.
          if mon < 1 \<or> mon > 12 then None
          else if d < 1 \<or> d > days_in_month y mon then None
          else Some (Date y mon d))))
      | _ \<Rightarrow> None)"

definition display_date :: "date \<Rightarrow> string" where
  "display_date d = (let yd = uint_to_dec_string (mag (year d)) in
     (if negative (year d) then ''-'' else [])
     @ replicate (4 - length yd) CHR ''0'' @ yd
     @ ''-'' @ push2 (month d) @ ''-'' @ push2 (day d))"

definition cmp_date :: "date \<Rightarrow> date \<Rightarrow> ordering" where
  "cmp_date a b = then_ord (then_ord (cmp_int (year a) (year b)) (cmp (month a) (month b)))
     (cmp (day a) (day b))"

section \<open>Times of day and zone offsets\<close>

datatype time_of_day = TimeOfDay (secs: nat) (time_frac: "nat list")

definition parse_time :: "string \<Rightarrow> time_of_day option" where
  "parse_time s =
     (let (hms, frac_str) = (case split_once CHR ''.'' s of
            Some (h, f) \<Rightarrow> (h, Some f) | None \<Rightarrow> (s, None)) in
      case split_on CHR '':'' hms of
        hh # mm # ss # rest \<Rightarrow>
          Option.bind (parse_fixed hh 2) (\<lambda>h.
          Option.bind (parse_fixed mm 2) (\<lambda>m.
          Option.bind (parse_fixed ss 2) (\<lambda>sec.
          if rest \<noteq> [] \<or> h > 23 \<or> m > 59 \<or> sec > 59 then None else
          Option.bind (case frac_str of None \<Rightarrow> Some []
              | Some f \<Rightarrow> if f = [] then None else map_option trim_zeros (parse_digits f)) (\<lambda>fr.
          Some (TimeOfDay (h * 3600 + m * 60 + sec) fr)))))
      | _ \<Rightarrow> None)"

text \<open>The hour is printed through \<^verbatim>\<open>as u8\<close>, which truncates.\<close>

definition display_time :: "time_of_day \<Rightarrow> string" where
  "display_time t = push2 ((secs t div 3600) mod 256) @ '':'' @ push2 ((secs t mod 3600) div 60)
     @ '':'' @ push2 (secs t mod 60) @ display_frac (time_frac t)"

definition cmp_time :: "time_of_day \<Rightarrow> time_of_day \<Rightarrow> ordering" where
  "cmp_time a b = then_ord (cmp (secs a) (secs b)) (cmp_frac (time_frac a) (time_frac b))"

definition parse_offset :: "string \<Rightarrow> int option" where
  "parse_offset s =
     (if s = ''Z'' \<or> s = ''z'' then Some 0 else
      case s of [] \<Rightarrow> None
      | c # body \<Rightarrow>
          Option.bind (if c = CHR ''+'' then Some False else if c = CHR ''-'' then Some True else None)
            (\<lambda>neg.
          Option.bind (split_once CHR '':'' body) (\<lambda>(hh, mm).
          Option.bind (parse_fixed hh 2) (\<lambda>h.
          Option.bind (parse_fixed mm 2) (\<lambda>m.
          if h > 23 \<or> m > 59 then None
          else let total = int (h * 60 + m) in Some (if neg then - total else total))))))"

definition display_offset :: "int \<Rightarrow> string" where
  "display_offset off =
     (let (sign, a) = (if off < 0 then (CHR ''-'', nat (- off)) else (CHR ''+'', nat off))
      in sign # push2 ((a div 60) mod 256) @ '':'' @ push2 (a mod 60))"

section \<open>Values\<close>

datatype val =
    VInteger big_int
  | VUnsigned big_uint
  | VDecimal decimal
  | VStr string
  | VDate date
  | VDateTz date int
  | VTime time_of_day
  | VDateTime date time_of_day
  | VDateTimeTz date time_of_day int

fun type_of :: "val \<Rightarrow> type" where
  "type_of (VInteger _) = TInteger"
| "type_of (VUnsigned _) = TUnsignedInteger"
| "type_of (VDecimal _) = TDecimal"
| "type_of (VStr _) = TString"
| "type_of (VDate _) = TDate"
| "type_of (VDateTz _ _) = TDateTz"
| "type_of (VTime _) = TTime"
| "type_of (VDateTime _ _) = TDateTime"
| "type_of (VDateTimeTz _ _ _) = TDateTimeTz"

definition split_tz :: "string \<Rightarrow> (string \<times> int) option" where
  "split_tz s =
     (if s \<noteq> [] \<and> (last s = CHR ''Z'' \<or> last s = CHR ''z'') then Some (butlast s, 0)
      else if length s \<ge> 6 then
        (let cut = length s - 6 in
         if is_char_boundary s cut then
           (let tail = drop cut s in
            if (hd tail = CHR ''+'' \<or> hd tail = CHR ''-'') \<and> tail ! 3 = CHR '':'' then
              map_option (\<lambda>off. (take cut s, off)) (parse_offset tail)
            else None)
         else None)
      else None)"

definition split_dt :: "string \<Rightarrow> (string \<times> string) option" where
  "split_dt s = (case split_once CHR ''T'' s of
      Some p \<Rightarrow> Some p | None \<Rightarrow> split_once CHR '' '' s)"

definition bad :: "string \<Rightarrow> store_error" where
  "bad t = Parse (''not a valid '' @ t)"

fun parse_value :: "type \<Rightarrow> string \<Rightarrow> val result" where
  "parse_value TInteger s = ok_or (bad ''integer'') (map_option VInteger (parse_int s))"
| "parse_value TUnsignedInteger s =
     ok_or (bad ''unsigned integer'') (map_option VUnsigned (parse_uint s))"
| "parse_value TDecimal s = ok_or (bad ''decimal'') (map_option VDecimal (parse_decimal s))"
| "parse_value TString s = Inr (VStr s)"
| "parse_value TDate s = ok_or (bad ''date'') (map_option VDate (parse_date s))"
| "parse_value TDateTz s = ok_or (bad ''date tz'')
     (Option.bind (split_tz s) (\<lambda>(d, off).
      map_option (\<lambda>dt. VDateTz dt off) (parse_date d)))"
| "parse_value TTime s = ok_or (bad ''time'') (map_option VTime (parse_time s))"
| "parse_value TDateTime s = ok_or (bad ''date time'')
     (Option.bind (split_dt s) (\<lambda>(d, t).
      Option.bind (parse_date d) (\<lambda>dv.
      map_option (VDateTime dv) (parse_time t))))"
| "parse_value TDateTimeTz s = ok_or (bad ''date time tz'')
     (Option.bind (split_tz s) (\<lambda>(dt, off).
      Option.bind (split_dt dt) (\<lambda>(d, t).
      Option.bind (parse_date d) (\<lambda>dv.
      map_option (\<lambda>tv. VDateTimeTz dv tv off) (parse_time t)))))"

fun display :: "val \<Rightarrow> string" where
  "display (VInteger v) = int_to_dec_string v"
| "display (VUnsigned v) = uint_to_dec_string v"
| "display (VDecimal v) = display_decimal v"
| "display (VStr s) = s"
| "display (VDate d) = display_date d"
| "display (VDateTz d off) = display_date d @ display_offset off"
| "display (VTime t) = display_time t"
| "display (VDateTime d t) = display_date d @ ''T'' @ display_time t"
| "display (VDateTimeTz d t off) = display_date d @ ''T'' @ display_time t @ display_offset off"

definition ord_tag :: "val \<Rightarrow> byte" where
  "ord_tag v = tag (type_of v)"

definition cmp_str :: "string \<Rightarrow> string \<Rightarrow> ordering" where
  "cmp_str a b = cmp_list (map of_char a :: nat list) (map of_char b)"

definition cmp_value :: "val \<Rightarrow> val \<Rightarrow> ordering" where
  "cmp_value v w =
     (if ord_tag v \<noteq> ord_tag w then cmp (ord_tag v) (ord_tag w) else
      case (v, w) of
        (VInteger a, VInteger b) \<Rightarrow> cmp_int a b
      | (VUnsigned a, VUnsigned b) \<Rightarrow> cmp_uint a b
      | (VDecimal a, VDecimal b) \<Rightarrow> cmp_decimal a b
      | (VStr a, VStr b) \<Rightarrow> cmp_str a b
      | (VDate a, VDate b) \<Rightarrow> cmp_date a b
      | (VDateTz a ao, VDateTz b bo) \<Rightarrow> then_ord (cmp_date a b) (cmp ao bo)
      | (VTime a, VTime b) \<Rightarrow> cmp_time a b
      | (VDateTime da ta, VDateTime db tb) \<Rightarrow> then_ord (cmp_date da db) (cmp_time ta tb)
      | (VDateTimeTz da ta oa, VDateTimeTz db tb ob) \<Rightarrow>
          then_ord (then_ord (cmp_date da db) (cmp_time ta tb)) (cmp oa ob)
      | _ \<Rightarrow> Equal)"


section \<open>Well-formed values\<close>

definition wf_frac :: "nat list \<Rightarrow> bool" where
  "wf_frac fs \<longleftrightarrow> (\<forall>d \<in> set fs. d < 10) \<and> (fs = [] \<or> last fs \<noteq> 0)"

definition wf_decimal :: "decimal \<Rightarrow> bool" where
  "wf_decimal d \<longleftrightarrow> canon_uint (dec_int d) \<and> wf_frac (dec_frac d) \<and>
     (dec_neg d \<longrightarrow> digits (dec_int d) \<noteq> [] \<or> dec_frac d \<noteq> [])"

definition wf_date :: "date \<Rightarrow> bool" where
  "wf_date d \<longleftrightarrow> canon_int (year d) \<and> 1 \<le> month d \<and> month d \<le> 12 \<and> 1 \<le> day d \<and>
     day d \<le> days_in_month (year d) (month d)"

definition wf_time :: "time_of_day \<Rightarrow> bool" where
  "wf_time t \<longleftrightarrow> secs t < 86400 \<and> wf_frac (time_frac t)"

definition wf_offset :: "int \<Rightarrow> bool" where
  "wf_offset off \<longleftrightarrow> -1440 < off \<and> off < 1440"

fun wf_value :: "val \<Rightarrow> bool" where
  "wf_value (VInteger v) = canon_int v"
| "wf_value (VUnsigned v) = canon_uint v"
| "wf_value (VDecimal v) = wf_decimal v"
| "wf_value (VStr s) = True"
| "wf_value (VDate d) = wf_date d"
| "wf_value (VDateTz d off) = (wf_date d \<and> wf_offset off)"
| "wf_value (VTime t) = wf_time t"
| "wf_value (VDateTime d t) = (wf_date d \<and> wf_time t)"
| "wf_value (VDateTimeTz d t off) = (wf_date d \<and> wf_time t \<and> wf_offset off)"

section \<open>Splitting lemmas\<close>

lemma split_once_None [simp]: "c \<notin> set s \<Longrightarrow> split_once c s = None"
  by (induction s) auto

lemma split_once_app [simp]: "c \<notin> set l \<Longrightarrow> split_once c (l @ c # r) = Some (l, r)"
  by (induction l) auto

lemma rsplit_once_app [simp]: "c \<notin> set r \<Longrightarrow> rsplit_once c (l @ c # r) = Some (l, r)"
  by (simp add: rsplit_once_def)

lemma split_on_single [simp]: "c \<notin> set s \<Longrightarrow> split_on c s = [s]"
  by (induction s) auto

lemma split_on_app [simp]: "c \<notin> set p \<Longrightarrow> split_on c (p @ c # s) = p # split_on c s"
  by (induction p) auto

section \<open>Fractions and two-digit fields\<close>

lemma trim_zeros_wf: "wf_frac fs \<Longrightarrow> trim_zeros fs = fs"
  by (subst trim_zeros.simps) (auto simp: wf_frac_def)

lemma wf_trim_zeros: "\<forall>d \<in> set fs. d < 10 \<Longrightarrow> wf_frac (trim_zeros fs)"
proof (induction fs rule: trim_zeros.induct)
  case (1 fs)
  show ?case
  proof (cases "fs \<noteq> [] \<and> last fs = 0")
    case True
    moreover have "\<forall>d \<in> set (butlast fs). d < 10"
      using 1(2) by (auto dest: in_set_butlastD)
    ultimately show ?thesis using 1(1) by (simp add: trim_zeros.simps[of fs])
  next
    case False
    then show ?thesis using 1(2) by (auto simp: trim_zeros.simps[of fs] wf_frac_def)
  qed
qed

lemma map_digit_less: "list_all is_ascii_digit s \<Longrightarrow> \<forall>d \<in> set (map digit_of s). d < 10"
  by (auto simp: list_all_iff digit_of_less)

lemma char_digit_notin:
  assumes "\<forall>d \<in> set ds. d < 10" "\<not> is_ascii_digit c"
  shows "c \<notin> set (map char_of_digit ds)"
  using assms by (auto simp: digit_char_neq)

lemma ascii_digit_notin: "list_all is_ascii_digit s \<Longrightarrow> \<not> is_ascii_digit c \<Longrightarrow> c \<notin> set s"
  by (auto simp: list_all_iff)

lemma push2_digits [simp]: "v < 100 \<Longrightarrow> list_all is_ascii_digit (push2 v)"
  by (simp add: push2_def)

lemma length_push2 [simp]: "length (push2 v) = 2"
  by (simp add: push2_def)

lemma parse_fixed_push2 [simp]: "v < 100 \<Longrightarrow> parse_fixed (push2 v) 2 = Some v"
  by (simp add: parse_fixed_def push2_def)

lemma push2_notin [simp]: "v < 100 \<Longrightarrow> \<not> is_ascii_digit c \<Longrightarrow> c \<notin> set (push2 v)"
  by (auto dest: ascii_digit_notin[OF push2_digits])

section \<open>Printing and parsing back\<close>

lemma parse_print_decimal:
  assumes "wf_decimal d"
  shows "parse_decimal (display_decimal d) = Some d"
proof -
  obtain neg i fs where d: "d = Decimal neg i fs" by (cases d)
  have c: "canon_uint i" and w: "wf_frac fs" and n: "neg \<longrightarrow> digits i \<noteq> [] \<or> fs \<noteq> []"
    using assms by (simp_all add: d wf_decimal_def)
  let ?u = "uint_to_dec_string i"
  have dig: "list_all is_ascii_digit ?u" by (rule uint_string_digits[OF c])
  have sign: "split_sign (display_decimal d) = (neg, ?u @ display_frac fs)"
    using dig uint_string_nonempty[of i]
    by (cases ?u) (auto simp: d display_decimal_def split_sign_def)
  have spl: "(case split_once CHR ''.'' (?u @ display_frac fs) of Some (i, f) \<Rightarrow> (i, f)
      | None \<Rightarrow> (?u @ display_frac fs, [])) = (?u, map char_of_digit fs)"
    using ascii_digit_notin[OF dig, of "CHR ''.''"] by (simp add: display_frac_def)
  have pd: "parse_digits (map char_of_digit fs) = Some fs"
    using w by (simp add: wf_frac_def)
  have can: "canonical_decimal neg i fs = d"
    using n by (auto simp: canonical_decimal_def trim_zeros_wf[OF w] d is_zero_uint_def)
  show ?thesis
    unfolding parse_decimal_def sign Let_def prod.case spl
    by (simp add: parse_print_uint[OF c] pd can)
qed

lemma wf_canonical_decimal:
  "canon_uint i \<Longrightarrow> \<forall>d \<in> set fs. d < 10 \<Longrightarrow> wf_decimal (canonical_decimal neg i fs)"
  by (simp add: wf_decimal_def canonical_decimal_def Let_def wf_trim_zeros is_zero_uint_def)

lemma wf_parse_decimal: "parse_decimal s = Some d \<Longrightarrow> wf_decimal d"
  by (auto simp: parse_decimal_def Let_def parse_digits_eq zero_uint_def canon_digits_def[of "[]"]
      bind_eq_Some_conv map_digit_less
      split: prod.splits if_splits option.splits intro!: wf_canonical_decimal
      dest: canon_parse_uint)

lemma days_in_month_less: "days_in_month y m < 100"
  by (simp add: days_in_month_def)

lemma display_date_parts:
  assumes "wf_date d"
  obtains yy where
    "display_date d = (if negative (year d) then ''-'' else []) @ yy @ CHR ''-'' # push2 (month d)
       @ CHR ''-'' # push2 (day d)"
    "yy \<noteq> []" "list_all is_ascii_digit yy" "parse_uint yy = Some (mag (year d))"
    "month d < 100" "day d < 100"
proof
  let ?u = "uint_to_dec_string (mag (year d))"
  let ?yy = "replicate (4 - length ?u) CHR ''0'' @ ?u"
  have c: "canon_uint (mag (year d))" using assms by (simp add: wf_date_def canon_int_def)
  show "display_date d = (if negative (year d) then ''-'' else []) @ ?yy
      @ CHR ''-'' # push2 (month d) @ CHR ''-'' # push2 (day d)"
    by (simp add: display_date_def Let_def)
  show "?yy \<noteq> []" by simp
  show "parse_uint ?yy = Some (mag (year d))"
    by (rule parse_uint_zeros[OF parse_print_uint[OF c]])
  then show "list_all is_ascii_digit ?yy" by (simp add: parse_uint_Some)
  show "month d < 100" "day d < 100"
    using assms days_in_month_less[of "year d" "month d"] by (simp_all add: wf_date_def)
qed

lemma rsplitn3:
  assumes "c \<notin> set mm" "c \<notin> set dd"
  shows "rsplitn 3 c (yy @ c # mm @ c # dd) = [dd, mm, yy]"
proof -
  have "rsplit_once c (yy @ c # mm @ c # dd) = Some (yy @ c # mm, dd)"
    using rsplit_once_app[OF assms(2), of "yy @ c # mm"] by simp
  then show ?thesis
    using assms(1) by (simp add: numeral_3_eq_3)
qed

text \<open>A date is read back from its text with any number of leading zeros in the year.\<close>

lemma parse_date_text:
  assumes "wf_date d" "yy \<noteq> []" "list_all is_ascii_digit yy" "parse_uint yy = Some (mag (year d))"
  shows "parse_date ((if negative (year d) then ''-'' else []) @ yy @ CHR ''-'' # push2 (month d) @ CHR ''-'' # push2 (day d)) = Some d"
    (is "parse_date (?sign @ ?body) = _")
proof -
  have lt: "month d < 100" "day d < 100"
    using assms(1) days_in_month_less[of "year d" "month d"] by (simp_all add: wf_date_def)
  have hd: "hd ?body \<noteq> CHR ''-''" "?body \<noteq> []"
    using assms(2,3) by (cases yy; auto)+
  have body: "(if negative (year d) then tl (?sign @ ?body) else ?sign @ ?body) = ?body"
    and neg: "(?sign @ ?body \<noteq> [] \<and> hd (?sign @ ?body) = CHR ''-'') = negative (year d)"
    using hd by simp_all
  have r: "rsplitn 3 CHR ''-'' ?body = [push2 (day d), push2 (month d), yy]"
    using lt by (intro rsplitn3) simp_all
  have fp: "from_parts (negative (year d)) (mag (year d)) = year d"
    using assms(1) by (simp add: wf_date_def from_parts_id)
  show ?thesis
    unfolding parse_date_def Let_def neg body r
    using assms(1,2,4) lt by (simp add: fp wf_date_def not_less)
qed

lemma parse_print_date:
  assumes "wf_date d"
  shows "parse_date (display_date d) = Some d"
proof -
  obtain yy where yy: "display_date d = (if negative (year d) then ''-'' else []) @ yy
       @ CHR ''-'' # push2 (month d) @ CHR ''-'' # push2 (day d)"
    "yy \<noteq> []" "list_all is_ascii_digit yy" "parse_uint yy = Some (mag (year d))"
    "month d < 100" "day d < 100"
    using display_date_parts[OF assms] .
  show ?thesis unfolding yy(1) by (rule parse_date_text[OF assms yy(2-4)])
qed

lemma wf_parse_date: "parse_date s = Some d \<Longrightarrow> wf_date d"
  by (auto simp: parse_date_def Let_def bind_eq_Some_conv wf_date_def not_less
      split: list.splits if_splits intro!: canon_from_parts dest: canon_parse_uint)

lemma display_frac_notin:
  "wf_frac fs \<Longrightarrow> \<not> is_ascii_digit c \<Longrightarrow> c \<noteq> CHR ''.'' \<Longrightarrow> c \<notin> set (display_frac fs)"
  using char_digit_notin[of fs c] by (auto simp: display_frac_def wf_frac_def)

lemma parse_print_time:
  assumes "wf_time t"
  shows "parse_time (display_time t) = Some t"
proof -
  obtain n fs where t: "t = TimeOfDay n fs" by (cases t)
  have n: "n < 86400" and w: "wf_frac fs" using assms by (simp_all add: t wf_time_def)
  have lt: "n div 3600 < 24" "n mod 3600 div 60 < 60" "n mod 60 < 60" using n by auto
  let ?hms = "push2 (n div 3600) @ CHR '':'' # push2 (n mod 3600 div 60) @ CHR '':'' # push2 (n mod 60)"
  have disp: "display_time t = ?hms @ display_frac fs"
    using lt by (simp add: t display_time_def)
  have nodot: "CHR ''.'' \<notin> set ?hms" using lt by simp
  have frac: "(case split_once CHR ''.'' (?hms @ display_frac fs) of Some (h, f) \<Rightarrow> (h, Some f)
      | None \<Rightarrow> (?hms @ display_frac fs, None)) =
      (?hms, if fs = [] then None else Some (map char_of_digit fs))"
    using split_once_app[OF nodot] split_once_None[OF nodot] by (simp add: display_frac_def)
  have colon: "split_on CHR '':'' ?hms = [push2 (n div 3600), push2 (n mod 3600 div 60), push2 (n mod 60)]"
    using lt by simp
  have fr: "(case if fs = [] then None else Some (map char_of_digit fs) of None \<Rightarrow> Some []
      | Some f \<Rightarrow> if f = [] then None else map_option trim_zeros (parse_digits f)) = Some fs"
    using w trim_zeros_wf[OF w] by (simp add: wf_frac_def)
  have total: "n div 3600 * 3600 + n mod 3600 div 60 * 60 + n mod 60 = n"
  proof -
    have "n mod 3600 mod 60 = n mod 60" by (simp add: mod_mod_cancel)
    then have "n mod 3600 div 60 * 60 + n mod 60 = n mod 3600" by (metis div_mult_mod_eq)
    then show ?thesis using div_mult_mod_eq[of n 3600] by linarith
  qed
  show ?thesis
    unfolding parse_time_def disp frac Let_def prod.case colon list.case fr
    using lt total by (simp add: t)
qed

lemma wf_parse_time: "parse_time s = Some t \<Longrightarrow> wf_time t"
  by (auto simp: parse_time_def Let_def bind_eq_Some_conv wf_time_def parse_digits_eq wf_trim_zeros
      map_digit_less wf_frac_def[of "[]"]
      split: prod.splits list.splits if_splits option.splits)

lemma parse_print_offset:
  assumes "wf_offset off"
  shows "parse_offset (display_offset off) = Some off"
proof -
  obtain sign a where sa: "display_offset off = sign # push2 (a div 60) @ CHR '':'' # push2 (a mod 60)"
    "off = (if sign = CHR ''-'' then - int a else int a)" "a < 1440"
    "sign = CHR ''+'' \<or> sign = CHR ''-''"
  proof (cases "off < 0")
    case True
    with assms show ?thesis
      by (intro that[of "CHR ''-''" "nat (- off)"]) (auto simp: display_offset_def wf_offset_def)
  next
    case False
    with assms show ?thesis
      by (intro that[of "CHR ''+''" "nat off"]) (auto simp: display_offset_def wf_offset_def)
  qed
  have lt: "a div 60 < 24" "a mod 60 < 60" using sa(3) by auto
  have split: "split_once CHR '':'' (push2 (a div 60) @ CHR '':'' # push2 (a mod 60))
     = Some (push2 (a div 60), push2 (a mod 60))"
    using lt by (intro split_once_app) simp
  have total: "int (a div 60 * 60 + a mod 60) = int a" by simp
  have "parse_offset (sign # push2 (a div 60) @ CHR '':'' # push2 (a mod 60))
      = Some (if sign = CHR ''-'' then - int a else int a)"
    using sa(4) lt unfolding parse_offset_def
    by (elim disjE) (simp_all add: split total Let_def del: of_nat_add of_nat_mult)
  then show ?thesis by (simp only: sa(1) sa(2)[symmetric])
qed

lemma wf_parse_offset: "parse_offset s = Some off \<Longrightarrow> wf_offset off"
  by (auto simp: parse_offset_def Let_def bind_eq_Some_conv wf_offset_def
      split: prod.splits list.splits if_splits)


section \<open>Whole values\<close>

lemma length_display_offset [simp]: "length (display_offset off) = 6"
  by (simp add: display_offset_def split_beta)

lemma split_tz_app:
  assumes "wf_offset off"
  shows "split_tz (s @ display_offset off) = Some (s, off)"
proof -
  obtain sign a where sa: "display_offset off = sign # push2 (a div 60) @ CHR '':'' # push2 (a mod 60)"
    "sign = CHR ''+'' \<or> sign = CHR ''-''" "a < 1440"
    using assms by (cases "off < 0") (auto simp: display_offset_def wf_offset_def)
  have last: "is_ascii_digit (last (display_offset off))"
    using sa(3) by (simp add: sa(1) push2_def)
  then have noz: "last (display_offset off) \<noteq> CHR ''Z''" "last (display_offset off) \<noteq> CHR ''z''"
    by auto
  have ne: "display_offset off \<noteq> []" by (simp add: sa(1))
  have bound: "is_char_boundary (s @ display_offset off) (length s)"
    using sa(2) by (auto simp: is_char_boundary_def nth_append sa(1))
  have colon: "display_offset off ! 3 = CHR '':''"
    by (simp add: sa(1) push2_def numeral_3_eq_3)
  have hd: "hd (display_offset off) = CHR ''+'' \<or> hd (display_offset off) = CHR ''-''"
    using sa(2) by (simp add: sa(1))
  show ?thesis
    using noz ne bound colon hd parse_print_offset[OF assms]
    by (simp add: split_tz_def Let_def)
qed

lemma display_date_notin:
  assumes "wf_date d" "\<not> is_ascii_digit c" "c \<noteq> CHR ''-''"
  shows "c \<notin> set (display_date d)"
proof -
  obtain yy where yy: "display_date d = (if negative (year d) then ''-'' else []) @ yy
       @ CHR ''-'' # push2 (month d) @ CHR ''-'' # push2 (day d)"
    "yy \<noteq> []" "list_all is_ascii_digit yy" "parse_uint yy = Some (mag (year d))"
    "month d < 100" "day d < 100"
    using display_date_parts[OF assms(1)] .
  with assms(2,3) ascii_digit_notin[OF yy(3) assms(2)] show ?thesis by simp
qed

lemma split_dt_app:
  assumes "wf_date d"
  shows "split_dt (display_date d @ CHR ''T'' # s) = Some (display_date d, s)"
  using display_date_notin[OF assms, of "CHR ''T''"] by (simp add: split_dt_def)

lemma parse_display_value: "wf_value v \<Longrightarrow> parse_value (type_of v) (display v) = Inr v"
proof (cases v)
  case (VDateTimeTz d t off)
  assume "wf_value v"
  then have "wf_date d" "wf_time t" "wf_offset off" by (simp_all add: VDateTimeTz)
  then show ?thesis
    using split_tz_app[of off "display_date d @ CHR ''T'' # display_time t"]
    by (simp add: VDateTimeTz split_dt_app parse_print_date parse_print_time)
qed (simp_all add: parse_print_int parse_print_uint parse_print_decimal parse_print_date
       parse_print_time split_tz_app split_dt_app)

lemma wf_split_tz: "split_tz s = Some (p, off) \<Longrightarrow> wf_offset off"
  by (auto simp: split_tz_def Let_def wf_offset_def[of 0] dest: wf_parse_offset split: if_splits)

lemma ok_or_eq_Inr [simp]: "ok_or e x = Inr v \<longleftrightarrow> x = Some v"
  by (cases x) simp_all

lemmas wf_parse_rules = canon_parse_int canon_parse_uint wf_parse_decimal wf_parse_date
  wf_parse_time wf_split_tz

lemma parse_value_wf: "parse_value ty s = Inr v \<Longrightarrow> wf_value v \<and> type_of v = ty"
  by (cases ty) (auto simp: bind_eq_Some_conv dest: wf_parse_rules)


section \<open>Calendar\<close>

text \<open>The Gregorian leap rule on the signed (astronomical) year.\<close>

lemma is_leap_ival: "is_leap y \<longleftrightarrow> 4 dvd ival y \<and> (\<not> 100 dvd ival y \<or> 400 dvd ival y)"
proof -
  have "(k::nat) dvd uval (mag y) \<longleftrightarrow> int k dvd ival y" for k
    by (simp add: ival_def)
  from this[of 4] this[of 100] this[of 400] show ?thesis
    by (simp add: is_leap_def rem_u32_eq dvd_eq_mod_eq_0)
qed

section \<open>The order of values\<close>

text \<open>Fractions: missing digits are zeros, so both sides are padded to a common length.\<close>

definition pad :: "nat \<Rightarrow> nat list \<Rightarrow> nat list" where
  "pad n fs = fs @ replicate (n - length fs) 0"

lemma digit_at_pad: "i < n \<Longrightarrow> length fs \<le> n \<Longrightarrow> digit_at fs i = pad n fs ! i"
  by (auto simp: digit_at_def get_at_def pad_def nth_append)

lemma length_pad [simp]: "length fs \<le> n \<Longrightarrow> length (pad n fs) = n"
  by (simp add: pad_def)

lemma cmp_frac_loop_pad:
  assumes "length a \<le> n" "length b \<le> n" "i \<le> n"
  shows "cmp_frac_loop a b i n = cmp_list (drop i (pad n a)) (drop i (pad n b))"
  using assms
proof (induction "n - i" arbitrary: i)
  case 0
  then show ?case by (subst cmp_frac_loop.simps) simp
next
  case (Suc k)
  then have i: "i < n" by simp
  have "drop i (pad n xs) = digit_at xs i # drop (Suc i) (pad n xs)" if "length xs \<le> n" for xs
    using i that by (simp add: digit_at_pad Cons_nth_drop_Suc)
  with Suc i show ?case
    by (simp add: cmp_frac_loop.simps[of a b i n] then_ord_def cmp_def)
qed

lemma cmp_frac_pad: "cmp_frac a b = cmp_list (pad (max (length a) (length b)) a) (pad (max (length a) (length b)) b)"
  by (simp add: cmp_frac_def cmp_frac_loop_pad)

definition frac_val :: "nat list \<Rightarrow> rat" where
  "frac_val fs = of_nat (dval fs) / 10 ^ length fs"

lemma dval_pad: "dval (pad n fs) = dval fs * 10 ^ (n - length fs)"
proof -
  have "dval (replicate k 0) = 0" for k by (induction k) (simp_all add: dval_Cons)
  then show ?thesis by (simp add: pad_def dval_append)
qed

lemma frac_val_pad: "length fs \<le> n \<Longrightarrow> frac_val fs = of_nat (dval (pad n fs)) / 10 ^ n"
proof -
  assume "length fs \<le> n"
  then have "(10::rat) ^ n = 10 ^ (n - length fs) * 10 ^ length fs"
    by (simp add: power_add[symmetric])
  then show ?thesis by (simp add: dval_pad frac_val_def)
qed

lemma cmp_frac_val:
  assumes "\<forall>d \<in> set a. d < 10" "\<forall>d \<in> set b. d < 10"
  shows "cmp_frac a b = cmp (frac_val a) (frac_val b)"
proof -
  let ?n = "max (length a) (length b)"
  have "cmp_frac a b = cmp (dval (pad ?n a)) (dval (pad ?n b))"
    unfolding cmp_frac_pad by (rule cmp_list_dval) (use assms in \<open>auto simp: pad_def\<close>)
  then show ?thesis
    using frac_val_pad[of a ?n] frac_val_pad[of b ?n] by (simp add: cmp_def divide_less_cancel)
qed

lemma frac_val_bounds:
  assumes "\<forall>d \<in> set fs. d < 10"
  shows "0 \<le> frac_val fs" "frac_val fs < 1"
proof -
  show "0 \<le> frac_val fs" by (simp add: frac_val_def)
  have "of_nat (dval fs) < (of_nat (10 ^ length fs) :: rat)"
    using dval_less[OF assms] by (simp only: of_nat_less_iff)
  then show "frac_val fs < 1" by (simp add: frac_val_def)
qed

text \<open>Digits in a canonical fraction are determined by its value.\<close>

lemma pad_inj:
  assumes "wf_frac a" "wf_frac b" "pad n a = pad n b" "length a \<le> n" "length b \<le> n"
  shows "a = b"
proof -
  have "length x \<le> length y" if "wf_frac x" "wf_frac y" "pad n x = pad n y" "length x \<le> n" for x y
  proof (rule ccontr)
    assume len: "\<not> length x \<le> length y"
    then have ne: "x \<noteq> []" by auto
    have "last x = pad n x ! (length x - 1)"
      using ne by (simp add: pad_def nth_append last_conv_nth)
    also have "\<dots> = pad n y ! (length x - 1)" by (simp add: that(3))
    also have "\<dots> = 0" using len that(4) by (auto simp: pad_def nth_append)
    finally show False using that(1) ne by (simp add: wf_frac_def)
  qed
  from this[of a b] this[of b a] assms have "length a = length b" by simp
  with assms(3) show ?thesis by (simp add: pad_def)
qed

lemma cmp_frac_Equal:
  assumes "wf_frac a" "wf_frac b"
  shows "cmp_frac a b = Equal \<longleftrightarrow> a = b"
  using pad_inj[OF assms, of "max (length a) (length b)"] by (auto simp: cmp_frac_pad)

definition dec_val :: "decimal \<Rightarrow> rat" where
  "dec_val d = (if dec_neg d then - 1 else 1) * (of_nat (uval (dec_int d)) + frac_val (dec_frac d))"

lemma cmp_mag_val:
  assumes "canon_uint i" "canon_uint j" "wf_frac a" "wf_frac b"
  shows "then_ord (cmp_uint i j) (cmp_frac a b) =
    cmp (of_nat (uval i) + frac_val a) (of_nat (uval j) + frac_val b)"
proof -
  have fr: "\<forall>d \<in> set a. d < 10" "\<forall>d \<in> set b. d < 10" using assms by (simp_all add: wf_frac_def)
  have step: "of_nat m + x < (of_nat n + y :: rat)" if "m < n" "x < 1" "0 \<le> y" for m n x y
  proof -
    have "of_nat m + 1 \<le> (of_nat n :: rat)" using that(1)
      by (metis Suc_leI of_nat_Suc of_nat_le_iff add.commute)
    with that(2,3) show ?thesis by linarith
  qed
  consider "uval i < uval j" | "uval i = uval j" | "uval j < uval i" by linarith
  then show ?thesis
  proof cases
    case 1
    then show ?thesis
      using step[OF 1 frac_val_bounds(2)[OF fr(1)] frac_val_bounds(1)[OF fr(2)]]
      by (simp add: cmp_uint_uval[OF assms(1,2)] cmp_def)
  next
    case 2
    then show ?thesis
      by (simp add: cmp_uint_uval[OF assms(1,2)] cmp_frac_val[OF fr]) (simp add: cmp_def)
  next
    case 3
    then show ?thesis
      using step[OF 3 frac_val_bounds(2)[OF fr(2)] frac_val_bounds(1)[OF fr(1)]]
      by (simp add: cmp_uint_uval[OF assms(1,2)] cmp_def)
  qed
qed

lemma frac_val_pos: "wf_frac fs \<Longrightarrow> fs \<noteq> [] \<Longrightarrow> 0 < frac_val fs"
  using cmp_frac_Equal[of fs "[]"] cmp_frac_val[of fs "[]"] frac_val_bounds(1)[of fs]
  by (auto simp: wf_frac_def frac_val_def[of "[]"] cmp_def split: if_splits)

lemma cmp_decimal_val:
  assumes "wf_decimal a" "wf_decimal b"
  shows "cmp_decimal a b = cmp (dec_val a) (dec_val b)"
proof -
  define m where "m d = of_nat (uval (dec_int d)) + frac_val (dec_frac d)" for d
  have c: "canon_uint (dec_int a)" "canon_uint (dec_int b)" "wf_frac (dec_frac a)" "wf_frac (dec_frac b)"
    using assms by (simp_all add: wf_decimal_def)
  have mag: "then_ord (cmp_uint (dec_int a) (dec_int b)) (cmp_frac (dec_frac a) (dec_frac b)) = cmp (m a) (m b)"
    unfolding m_def by (rule cmp_mag_val[OF c])
  have nn: "0 \<le> m d" "dec_neg d \<Longrightarrow> 0 < m d" if w: "wf_decimal d" for d
  proof -
    have f: "wf_frac (dec_frac d)" "canon_uint (dec_int d)" using w by (simp_all add: wf_decimal_def)
    then have "0 \<le> frac_val (dec_frac d)" by (intro frac_val_bounds) (simp add: wf_frac_def)
    then show "0 \<le> m d" by (simp add: m_def)
    assume "dec_neg d"
    then consider "digits (dec_int d) \<noteq> []" | "dec_frac d \<noteq> []"
      using w by (auto simp: wf_decimal_def)
    then show "0 < m d"
    proof cases
      case 1
      then have "0 < uval (dec_int d)" using dval_eq_0[OF f(2)] by simp
      with \<open>0 \<le> frac_val (dec_frac d)\<close> show ?thesis by (simp add: m_def add_pos_nonneg)
    next
      case 2
      with frac_val_pos[OF f(1)] show ?thesis by (simp add: m_def add_nonneg_pos)
    qed
  qed
  have "dec_val d = (if dec_neg d then - m d else m d)" for d by (simp add: dec_val_def m_def)
  then show ?thesis
    using nn[OF assms(1)] nn[OF assms(2)]
    by (cases "dec_neg a"; cases "dec_neg b")
       (auto simp: cmp_decimal_def mag reverse_cmp cmp_def)
qed

lemma cmp_decimal_Equal:
  assumes "wf_decimal a" "wf_decimal b"
  shows "cmp_decimal a b = Equal \<longleftrightarrow> a = b"
proof -
  have e: "cmp_frac (dec_frac a) (dec_frac b) = Equal \<longleftrightarrow> dec_frac a = dec_frac b"
    using assms by (intro cmp_frac_Equal) (simp_all add: wf_decimal_def)
  have "reverse_ord x = Equal \<longleftrightarrow> x = Equal" for x by (cases x) simp_all
  with e show ?thesis
    by (cases a; cases b) (auto simp: cmp_decimal_def Let_def split: bool.splits)
qed


section \<open>The contract of \<^verbatim>\<open>Ord\<close>\<close>

text \<open>
  What Rust requires of an \<^verbatim>\<open>Ord\<close> implementation, relative to the values the engine builds:
  comparison answers \<^verbatim>\<open>Equal\<close> exactly for equal values, is antisymmetric, and is transitive.
\<close>

locale ord_contract =
  fixes good :: "'a \<Rightarrow> bool"
    and compare :: "'a \<Rightarrow> 'a \<Rightarrow> ordering"
  assumes Equal_iff: "good a \<Longrightarrow> good b \<Longrightarrow> compare a b = Equal \<longleftrightarrow> a = b"
    and flip: "good a \<Longrightarrow> good b \<Longrightarrow> compare b a = reverse_ord (compare a b)"
    and Less_trans: "good a \<Longrightarrow> good b \<Longrightarrow> good c \<Longrightarrow> compare a b = Less \<Longrightarrow> compare b c = Less \<Longrightarrow>
          compare a c = Less"
begin

lemma refl: "good a \<Longrightarrow> compare a a = Equal"
  by (simp add: Equal_iff)

lemma Greater_iff: "good a \<Longrightarrow> good b \<Longrightarrow> compare a b = Greater \<longleftrightarrow> compare b a = Less"
  using flip[of a b] by (cases "compare a b") simp_all

lemma Greater_trans:
  "good a \<Longrightarrow> good b \<Longrightarrow> good c \<Longrightarrow> compare a b = Greater \<Longrightarrow> compare b c = Greater \<Longrightarrow> compare a c = Greater"
  using Less_trans[of c b a] by (simp add: Greater_iff)

lemma total: "good a \<Longrightarrow> good b \<Longrightarrow> a \<noteq> b \<Longrightarrow> compare a b = Less \<or> compare b a = Less"
  using flip[of a b] Equal_iff[of a b] by (cases "compare a b") simp_all

end

text \<open>A comparison computed from a key in a linear order, and lexicographic combination.\<close>

lemma ord_contract_key:
  assumes "\<And>a b. good a \<Longrightarrow> good b \<Longrightarrow> compare a b = cmp (key a) (key b)"
    and "\<And>a b. good a \<Longrightarrow> good b \<Longrightarrow> compare a b = Equal \<longleftrightarrow> a = b"
  shows "ord_contract good compare"
  by unfold_locales (use assms in \<open>auto simp: reverse_cmp\<close>)

lemma ord_contract_then:
  assumes "ord_contract good1 f1" "ord_contract good2 f2"
    and "\<And>a. good a \<Longrightarrow> good1 (p1 a) \<and> good2 (p2 a)"
    and "\<And>a b. good a \<Longrightarrow> good b \<Longrightarrow> p1 a = p1 b \<Longrightarrow> p2 a = p2 b \<Longrightarrow> a = b"
  shows "ord_contract good (\<lambda>a b. then_ord (f1 (p1 a) (p1 b)) (f2 (p2 a) (p2 b)))"
proof
  fix a b c
  assume wa: "good a" and wb: "good b"
  note e1 = ord_contract.Equal_iff[OF assms(1)] and e2 = ord_contract.Equal_iff[OF assms(2)]
  note t1 = ord_contract.Less_trans[OF assms(1)] and t2 = ord_contract.Less_trans[OF assms(2)]
  note w = assms(3)
  show "then_ord (f1 (p1 a) (p1 b)) (f2 (p2 a) (p2 b)) = Equal \<longleftrightarrow> a = b"
    using w[OF wa] w[OF wb] assms(4)[OF wa wb] e1[of "p1 a" "p1 b"] e2[of "p2 a" "p2 b"] by auto
  show "then_ord (f1 (p1 b) (p1 a)) (f2 (p2 b) (p2 a)) =
    reverse_ord (then_ord (f1 (p1 a) (p1 b)) (f2 (p2 a) (p2 b)))"
    using w[OF wa] w[OF wb] ord_contract.flip[OF assms(1), of "p1 a" "p1 b"]
      ord_contract.flip[OF assms(2), of "p2 a" "p2 b"] by (simp add: reverse_then)
  have less: "then_ord x y = Less \<longleftrightarrow> x = Less \<or> x = Equal \<and> y = Less" for x y
    by (cases x) simp_all
  assume wc: "good c"
    and l1: "then_ord (f1 (p1 a) (p1 b)) (f2 (p2 a) (p2 b)) = Less"
    and l2: "then_ord (f1 (p1 b) (p1 c)) (f2 (p2 b) (p2 c)) = Less"
  show "then_ord (f1 (p1 a) (p1 c)) (f2 (p2 a) (p2 c)) = Less"
    using l1 l2 w[OF wa] w[OF wb] w[OF wc] e1[of "p1 a" "p1 b"] e1[of "p1 b" "p1 c"]
      t1[of "p1 a" "p1 b" "p1 c"] t2[of "p2 a" "p2 b" "p2 c"]
    unfolding less by auto
qed

lemma ord_contract_cmp: "ord_contract good (cmp :: 'a::linorder \<Rightarrow> 'a \<Rightarrow> ordering)"
  by (rule ord_contract_key[where key = "\<lambda>x. x"]) simp_all

interpretation ord_uint: ord_contract "\<lambda>_. True" cmp_uint
  using ord_contract_cmp[where ?'a = big_uint] by (simp add: cmp_uint_cmp[abs_def])

interpretation ord_int: ord_contract "\<lambda>_. True" cmp_int
  using ord_contract_cmp[where ?'a = big_int] by (simp add: cmp_int_cmp[abs_def])

interpretation ord_decimal: ord_contract wf_decimal cmp_decimal
  by (rule ord_contract_key[where key = dec_val]) (fact cmp_decimal_val cmp_decimal_Equal)+

interpretation ord_frac: ord_contract wf_frac cmp_frac
  by (rule ord_contract_key[where key = frac_val])
     (rule cmp_frac_val, simp add: wf_frac_def, simp add: wf_frac_def, fact cmp_frac_Equal)

interpretation ord_time: ord_contract wf_time cmp_time
proof -
  have "ord_contract wf_time (\<lambda>a b. then_ord (cmp (secs a) (secs b)) (cmp_frac (time_frac a) (time_frac b)))"
    by (rule ord_contract_then[OF ord_contract_cmp[of "\<lambda>_. True"] ord_frac.ord_contract_axioms])
       (auto simp: wf_time_def intro: time_of_day.expand)
  then show "ord_contract wf_time cmp_time" by (simp add: cmp_time_def[abs_def])
qed

interpretation ord_date: ord_contract "\<lambda>_. True" cmp_date
proof -
  have ym: "ord_contract (\<lambda>_. True) (\<lambda>a b. then_ord (cmp_int (fst a) (fst b)) (cmp (snd a) (snd b :: nat)))"
    by (rule ord_contract_then[OF ord_int.ord_contract_axioms ord_contract_cmp[of "\<lambda>_. True"]])
       (auto intro: prod_eqI)
  have "ord_contract (\<lambda>_. True) (\<lambda>a b. then_ord ((\<lambda>a b. then_ord (cmp_int (fst a) (fst b)) (cmp (snd a) (snd b)))
     (year a, month a) (year b, month b)) (cmp (day a) (day b)))"
    by (rule ord_contract_then[OF ym ord_contract_cmp[of "\<lambda>_. True"]]) (auto intro: date.expand)
  then show "ord_contract (\<lambda>_. True) cmp_date" by (simp add: cmp_date_def[abs_def])
qed


lemma cmp_str_contract: "ord_contract (\<lambda>_. True) cmp_str"
proof -
  have inj: "map of_char a = (map of_char b :: nat list) \<longleftrightarrow> a = b" for a b :: string
    by (auto dest: map_injective[of of_char, OF _ inj_of_char] simp: inj_of_char)
  show ?thesis
    by unfold_locales
       (auto simp: cmp_str_def inj reverse_cmp_list intro: cmp_list_Less_trans)
qed

lemma cmp_value_simps [simp]:
  "cmp_value (VInteger a) (VInteger b) = cmp_int a b"
  "cmp_value (VUnsigned c) (VUnsigned d) = cmp_uint c d"
  "cmp_value (VDecimal x) (VDecimal y) = cmp_decimal x y"
  "cmp_value (VStr s) (VStr t) = cmp_str s t"
  "cmp_value (VDate p) (VDate q) = cmp_date p q"
  "cmp_value (VDateTz p ao) (VDateTz q bo) = then_ord (cmp_date p q) (cmp ao bo)"
  "cmp_value (VTime u) (VTime v) = cmp_time u v"
  "cmp_value (VDateTime p u) (VDateTime q v) = then_ord (cmp_date p q) (cmp_time u v)"
  "cmp_value (VDateTimeTz p u ao) (VDateTimeTz q v bo) =
     then_ord (then_ord (cmp_date p q) (cmp_time u v)) (cmp ao bo)"
  "type_of a' \<noteq> type_of b' \<Longrightarrow> cmp_value a' b' = cmp (tag (type_of a')) (tag (type_of b'))"
  by (auto simp: cmp_value_def ord_tag_def dest: arg_cong[where f = from_tag])


interpretation ord_str: ord_contract "\<lambda>_. True" cmp_str
  by (rule cmp_str_contract)

lemma ord_contract_pair:
  assumes "ord_contract good1 f1" "ord_contract good2 f2"
  shows "ord_contract (\<lambda>(a, b). good1 a \<and> good2 b) (\<lambda>(a, b) (c, d). then_ord (f1 a c) (f2 b d))"
proof -
  have "ord_contract (\<lambda>p. good1 (fst p) \<and> good2 (snd p))
      (\<lambda>p q. then_ord (f1 (fst p) (fst q)) (f2 (snd p) (snd q)))"
    by (rule ord_contract_then[OF assms]) (auto intro: prod_eqI)
  then show ?thesis by (simp add: split_def)
qed

interpretation ord_datetz: ord_contract "\<lambda>(_, _). True \<and> True"
  "\<lambda>(p, ao) (q, bo). then_ord (cmp_date p q) (cmp (ao :: int) bo)"
  by (rule ord_contract_pair[OF ord_date.ord_contract_axioms ord_contract_cmp])

interpretation ord_datetime: ord_contract "\<lambda>(_, u). True \<and> wf_time u"
  "\<lambda>(p, u) (q, v). then_ord (cmp_date p q) (cmp_time u v)"
  by (rule ord_contract_pair[OF ord_date.ord_contract_axioms ord_time.ord_contract_axioms])

interpretation ord_datetimetz: ord_contract "\<lambda>(du, _). (\<lambda>(_, u). True \<and> wf_time u) du \<and> True"
  "\<lambda>(du, ao) (ev, bo). then_ord ((\<lambda>(p, u) (q, v). then_ord (cmp_date p q) (cmp_time u v)) du ev)
     (cmp (ao :: int) bo)"
  by (rule ord_contract_pair[OF ord_datetime.ord_contract_axioms ord_contract_cmp])

lemma type_of_iff:
  "type_of v = TInteger \<longleftrightarrow> (\<exists>x. v = VInteger x)"
  "type_of v = TUnsignedInteger \<longleftrightarrow> (\<exists>x. v = VUnsigned x)"
  "type_of v = TDecimal \<longleftrightarrow> (\<exists>x. v = VDecimal x)"
  "type_of v = TString \<longleftrightarrow> (\<exists>x. v = VStr x)"
  "type_of v = TDate \<longleftrightarrow> (\<exists>x. v = VDate x)"
  "type_of v = TDateTz \<longleftrightarrow> (\<exists>x y. v = VDateTz x y)"
  "type_of v = TTime \<longleftrightarrow> (\<exists>x. v = VTime x)"
  "type_of v = TDateTime \<longleftrightarrow> (\<exists>x y. v = VDateTime x y)"
  "type_of v = TDateTimeTz \<longleftrightarrow> (\<exists>x y z. v = VDateTimeTz x y z)"
  by (cases v; simp)+

lemma tag_inj [simp]: "tag a = tag b \<longleftrightarrow> a = b"
  by (metis from_tag_tag option.inject)

lemma cmp_value_Equal:
  assumes "wf_value a" "wf_value b"
  shows "cmp_value a b = Equal \<longleftrightarrow> a = b"
proof (cases "type_of a = type_of b")
  case True
  with assms show ?thesis
    by (cases a; cases b)
       (simp_all add: ord_int.Equal_iff ord_uint.Equal_iff ord_decimal.Equal_iff ord_str.Equal_iff
          ord_date.Equal_iff ord_time.Equal_iff conj_assoc)
qed auto

lemma cmp_value_flip:
  assumes "wf_value a" "wf_value b"
  shows "cmp_value b a = reverse_ord (cmp_value a b)"
proof (cases "type_of a = type_of b")
  case True
  note flips = ord_int.flip[symmetric] ord_uint.flip[symmetric] ord_decimal.flip[symmetric]
    ord_str.flip[symmetric] ord_date.flip[symmetric] ord_time.flip[symmetric]
  from True assms show ?thesis
    by (cases a; cases b) (simp_all add: flips reverse_then reverse_cmp)
qed (simp add: reverse_cmp)

lemma cmp_value_Less_trans:
  assumes "wf_value a" "wf_value b" "wf_value c" "cmp_value a b = Less" "cmp_value b c = Less"
  shows "cmp_value a c = Less"
proof (cases "type_of a = type_of b \<and> type_of c = type_of b")
  case True
  note dtz = ord_datetz.Less_trans[of "(_, _)" "(_, _)" "(_, _)", simplified]
    and dt = ord_datetime.Less_trans[of "(_, _)" "(_, _)" "(_, _)", simplified]
    and dttz = ord_datetimetz.Less_trans[of "((_, _), _)" "((_, _), _)" "((_, _), _)", simplified]
  note tr = ord_int.Less_trans ord_uint.Less_trans ord_decimal.Less_trans ord_str.Less_trans
    ord_date.Less_trans ord_time.Less_trans dtz dt dttz
  have "type_of a = type_of b" "type_of c = type_of b" using True by simp_all
  then show ?thesis
    using assms by (cases b) (auto simp: type_of_iff intro: tr)
next
  case False
  then show ?thesis
    using assms(4,5) by (cases "type_of a = type_of b"; cases "type_of b = type_of c";
        cases "type_of a = type_of c") auto
qed

interpretation ord_value: ord_contract wf_value cmp_value
  by unfold_locales (fact cmp_value_Equal cmp_value_flip cmp_value_Less_trans)+

section \<open>Properties\<close>

text \<open>C28 Every value survives being shown and parsed again: for a well-formed value of any of the nine types, the text
  \<^verbatim>\<open>display\<close> produces parses, as the type of the value, to the same value.\<close>

theorem display_then_parse:
  assumes "wf_value v"
  shows "parse_value (type_of v) (display v) = Inr v"
  by (rule parse_display_value[OF assms])

theorem display_then_parse_witness:
  "let v = VDateTimeTz (Date (BigInt True (BigUint [4, 4])) 2 29) (TimeOfDay 3723 [5]) (-90) in
   parse_value (type_of v) (display v) = Inr v"
  unfolding Let_def
  by (rule display_then_parse) (simp add: wf_date_def wf_time_def wf_offset_def wf_frac_def canon_int_def
      canon_digits_def days_in_month_def is_leap_def rem_u32_def)

text \<open>C29 Parsing is typed and canonical: whatever text is accepted for a type, the value has that type and is well formed
  (no leading or trailing zeros, no negative zero, a real date), and showing it and parsing it again changes nothing.\<close>

theorem parse_canonical:
  assumes "parse_value ty s = Inr v"
  shows "type_of v = ty \<and> wf_value v \<and> parse_value ty (display v) = Inr v"
  using parse_value_wf[OF assms] parse_display_value[of v] by simp

theorem parse_canonical_witness:
  "let v = VInteger (BigInt True (BigUint [7])) in
   type_of v = TInteger \<and> wf_value v \<and> parse_value TInteger (display v) = Inr v"
proof -
  have "parse_value TInteger ''-007'' = Inr (VInteger (BigInt True (BigUint [7])))" by code_simp
  from parse_canonical[OF this] show ?thesis by simp
qed

text \<open>C30 Decimals are ordered as the numbers they denote.\<close>

theorem decimal_order_numeric:
  assumes "wf_decimal a" "wf_decimal b"
  shows "cmp_decimal a b = cmp (dec_val a) (dec_val b)"
  by (rule cmp_decimal_val[OF assms])

theorem decimal_order_numeric_witness:
  "let a = Decimal True (BigUint [1]) [2, 5]; b = Decimal True (BigUint [1]) [2] in
   cmp_decimal a b = cmp (dec_val a) (dec_val b)"
  unfolding Let_def by (rule decimal_order_numeric) (simp_all add: wf_decimal_def wf_frac_def canon_digits_def)

text \<open>The order of values meets the contract of Rust's \<^verbatim>\<open>Ord\<close>: on well-formed values it answers \<^verbatim>\<open>Equal\<close> for equal values
  only, swapping the arguments reverses the answer, and it is transitive.\<close>

theorem value_order_total:
  assumes "wf_value a" "wf_value b" "wf_value c"
  shows "(cmp_value a b = Equal \<longleftrightarrow> a = b) \<and> cmp_value b a = reverse_ord (cmp_value a b) \<and>
    (cmp_value a b = Less \<and> cmp_value b c = Less \<longrightarrow> cmp_value a c = Less)"
  using cmp_value_Equal[OF assms(1,2)] cmp_value_flip[OF assms(1,2)] cmp_value_Less_trans[OF assms] by blast

theorem value_order_total_witness:
  "let a = VStr ''a''; b = VStr ''ab''; c = VTime (TimeOfDay 0 []) in
   (cmp_value a b = Equal \<longleftrightarrow> a = b) \<and> cmp_value b a = reverse_ord (cmp_value a b) \<and>
    (cmp_value a b = Less \<and> cmp_value b c = Less \<longrightarrow> cmp_value a c = Less)"
  unfolding Let_def by (rule value_order_total) (simp_all add: wf_time_def wf_frac_def)

end
