(* ===== verification/Codec.thy ===== *)
theory Codec
  imports Value
begin

unbundle bit_operations_syntax

text \<open>
  The byte encoding of values and rows, after \<^verbatim>\<open>tablestore/src/codec.rs\<close>. The writers append to
  a vector, the readers take the buffer and a position and return the value with the advanced
  position, or the error. Memory for the decoded vectors is not modelled
  (\<^verbatim>\<open>Vec::with_capacity\<close> is only a hint here).

  The locale \<open>codec\<close> is the contract of a writer and its reader; the round trips of the whole
  rows, schemas and catalogs are proved once inside it.
\<close>

section \<open>UTF-8\<close>

text \<open>The well-formed sequences of \<^verbatim>\<open>core::str::from_utf8\<close>.\<close>

abbreviation cont_byte :: "nat \<Rightarrow> bool" where
  "cont_byte b \<equiv> 128 \<le> b \<and> b \<le> 191"

fun utf8_ok :: "nat list \<Rightarrow> bool" where
  "utf8_ok [] = True"
| "utf8_ok (a # xs) =
    (if a < 128 then utf8_ok xs
     else if 194 \<le> a \<and> a \<le> 223 then
       (case xs of b # ys \<Rightarrow> cont_byte b \<and> utf8_ok ys | _ \<Rightarrow> False)
     else if 224 \<le> a \<and> a \<le> 239 then
       (case xs of b # c # ys \<Rightarrow>
          (if a = 224 then 160 \<le> b \<and> b \<le> 191 else if a = 237 then 128 \<le> b \<and> b \<le> 159
           else cont_byte b) \<and> cont_byte c \<and> utf8_ok ys | _ \<Rightarrow> False)
     else if 240 \<le> a \<and> a \<le> 244 then
       (case xs of b # c # d # ys \<Rightarrow>
          (if a = 240 then 144 \<le> b \<and> b \<le> 191 else if a = 244 then 128 \<le> b \<and> b \<le> 143
           else cont_byte b) \<and> cont_byte c \<and> cont_byte d \<and> utf8_ok ys | _ \<Rightarrow> False)
     else False)"

definition str_bytes :: "string \<Rightarrow> byte list" where
  "str_bytes s = map (\<lambda>c. of_nat (of_char c)) s"

definition bytes_str :: "byte list \<Rightarrow> string" where
  "bytes_str bs = map (\<lambda>b. char_of (unat b)) bs"

text \<open>A Rust \<^verbatim>\<open>str\<close>: well-formed UTF-8 whose length is a \<^verbatim>\<open>usize\<close>.\<close>

definition rust_str :: "string \<Rightarrow> bool" where
  "rust_str s \<longleftrightarrow> utf8_ok (map of_char s) \<and> length s < 2 ^ 64"

section \<open>Variable-length integers and byte strings\<close>

text \<open>\<^verbatim>\<open>v & 0x7f\<close> is \<open>v mod 128\<close>, \<^verbatim>\<open>v >>= 7\<close> is \<open>v div 128\<close>.\<close>

function put_uvarint :: "byte list \<Rightarrow> nat \<Rightarrow> byte list" where
  "put_uvarint out v =
     (let b = of_nat (v mod 128); v' = v div 128 in
      if v' \<noteq> 0 then put_uvarint (out @ [b OR 128]) v' else out @ [b])"
  by pat_completeness auto
termination
  by (relation "measure snd") auto

declare put_uvarint.simps [simp del]

text \<open>The loop of \<^verbatim>\<open>get_uvarint\<close>: \<^verbatim>\<open><< shift\<close> keeps the low 64 bits.\<close>

function get_uvarint_loop :: "byte list \<Rightarrow> nat \<Rightarrow> nat \<Rightarrow> nat \<Rightarrow> store_error + nat \<times> nat" where
  "get_uvarint_loop buf pos res shift =
     (case get_at buf pos of
        None \<Rightarrow> Inl (Corrupt ''varint eof'')
      | Some b \<Rightarrow>
          if shift \<ge> 64 then Inl (Corrupt ''varint overflow'')
          else let res' = res OR take_bit 64 (push_bit shift (unat (b AND 127))) in
               if b AND 128 = 0 then Inr (res', pos + 1)
               else get_uvarint_loop buf (pos + 1) res' (shift + 7))"
  by pat_completeness auto
termination
  by (relation "measure (\<lambda>(buf, pos, res, shift). length buf - pos)")
     (auto simp: get_at_def split: if_splits)

declare get_uvarint_loop.simps [simp del]

definition get_uvarint :: "byte list \<Rightarrow> nat \<Rightarrow> store_error + nat \<times> nat" where
  "get_uvarint buf pos = get_uvarint_loop buf pos 0 0"

definition put_bytes :: "byte list \<Rightarrow> byte list \<Rightarrow> byte list" where
  "put_bytes out b = put_uvarint out (length b) @ b"

definition get_bytes :: "byte list \<Rightarrow> nat \<Rightarrow> store_error + byte list \<times> nat" where
  "get_bytes buf pos = bindR (get_uvarint buf pos) (\<lambda>(len, pos).
     if pos + len \<le> length buf then Inr (slice buf pos (pos + len), pos + len)
     else Inl (Corrupt ''bytes eof''))"

definition put_str :: "byte list \<Rightarrow> string \<Rightarrow> byte list" where
  "put_str out s = put_bytes out (str_bytes s)"

definition get_str :: "byte list \<Rightarrow> nat \<Rightarrow> store_error + string \<times> nat" where
  "get_str buf pos = bindR (get_bytes buf pos) (\<lambda>(b, pos).
     if utf8_ok (map unat b) then Inr (bytes_str b, pos) else Inl (Corrupt ''bad utf8''))"

definition get_byte :: "string \<Rightarrow> byte list \<Rightarrow> nat \<Rightarrow> store_error + byte \<times> nat" where
  "get_byte msg buf pos = bindR (ok_or (Corrupt msg) (get_at buf pos)) (\<lambda>b. Inr (b, pos + 1))"

section \<open>Cells and rows\<close>

fun put_cell :: "byte list \<Rightarrow> val option \<Rightarrow> byte list" where
  "put_cell out None = out @ [0]"
| "put_cell out (Some v) = put_str (out @ [1] @ [tag (type_of v)]) (display v)"

definition get_cell :: "byte list \<Rightarrow> nat \<Rightarrow> store_error + val option \<times> nat" where
  "get_cell buf pos =
     bindR (get_byte ''cell eof'' buf pos) (\<lambda>(present, pos).
     if present = 0 then Inr (None, pos) else
     bindR (get_byte ''cell tag eof'' buf pos) (\<lambda>(t, pos).
     bindR (ok_or (Corrupt ''bad type tag'') (from_tag t)) (\<lambda>ty.
     bindR (get_str buf pos) (\<lambda>(s, pos).
     case parse_value ty s of
       Inl _ \<Rightarrow> Inl (Corrupt ''undecodable value'')
     | Inr v \<Rightarrow> Inr (Some v, pos)))))"

text \<open>\<^verbatim>\<open>for _ in 0..n { v.push(get(buf, &mut pos)?) }\<close>\<close>

fun get_many :: "(byte list \<Rightarrow> nat \<Rightarrow> store_error + 'a \<times> nat) \<Rightarrow> nat \<Rightarrow> byte list \<Rightarrow> nat
    \<Rightarrow> store_error + 'a list \<times> nat" where
  "get_many get 0 buf pos = Inr ([], pos)"
| "get_many get (Suc n) buf pos =
     bindR (get buf pos) (\<lambda>(x, pos).
     bindR (get_many get n buf pos) (\<lambda>(xs, pos). Inr (x # xs, pos)))"

definition encode_row :: "val option list \<Rightarrow> byte list" where
  "encode_row cells = foldl put_cell (put_uvarint [] (length cells)) cells"

definition decode_row :: "byte list \<Rightarrow> store_error + val option list" where
  "decode_row buf = bindR (get_uvarint buf 0) (\<lambda>(n, pos).
     bindR (get_many get_cell n buf pos) (\<lambda>(cells, _). Inr cells))"

section \<open>The contract of a writer and its reader\<close>

locale codec =
  fixes put :: "byte list \<Rightarrow> 'a \<Rightarrow> byte list"
    and get :: "byte list \<Rightarrow> nat \<Rightarrow> store_error + 'a \<times> nat"
    and ok :: "'a \<Rightarrow> bool"
  assumes put_app: "put out x = out @ put [] x"
    and get_put: "ok x \<Longrightarrow> get (pre @ put [] x @ post) (length pre) =
      Inr (x, length pre + length (put [] x))"
begin

lemma puts_app: "foldl put out xs = out @ foldl put [] xs"
proof (induction xs arbitrary: out)
  case (Cons x xs)
  show ?case
    using Cons.IH[of "put out x"] Cons.IH[of "put [] x"] put_app[of out x] by simp
qed simp

lemma puts_Cons: "foldl put [] (x # xs) = put [] x @ foldl put [] xs"
  using puts_app[of "put [] x" xs] by simp

lemma get_puts:
  assumes "\<forall>x \<in> set xs. ok x"
  shows "get_many get (length xs) (pre @ foldl put [] xs @ post) (length pre) =
    Inr (xs, length pre + length (foldl put [] xs))"
  using assms
proof (induction xs arbitrary: pre)
  case (Cons x xs)
  have "get (pre @ put [] x @ foldl put [] xs @ post) (length pre)
      = Inr (x, length pre + length (put [] x))"
    using Cons.prems get_put[of x pre "foldl put [] xs @ post"] by simp
  moreover have "get_many get (length xs) (pre @ put [] x @ foldl put [] xs @ post)
      (length pre + length (put [] x))
      = Inr (xs, length pre + length (put [] x) + length (foldl put [] xs))"
    using Cons.IH[of "pre @ put [] x"] Cons.prems by simp
  ultimately show ?case
    unfolding puts_Cons append_assoc by simp
qed simp

end


section \<open>Round trip of the integers\<close>

lemma put_uvarint_app: "put_uvarint out v = out @ put_uvarint [] v"
proof (induction v arbitrary: out rule: less_induct)
  case (less v)
  show ?case
  proof (cases "v div 128 = 0")
    case True
    then show ?thesis by (simp add: put_uvarint.simps[of _ v])
  next
    case False
    then have lt: "v div 128 < v" by (cases "v = 0") auto
    show ?thesis
      using less[OF lt, of "out @ [of_nat (v mod 128) OR 128]"] less[OF lt, of "[of_nat (v mod 128) OR 128]"]
      by (simp add: put_uvarint.simps[of _ v] Let_def)
  qed
qed

lemma put_uvarint_step:
  "put_uvarint [] v = (if v div 128 \<noteq> 0
     then (of_nat (v mod 128) OR 128) # put_uvarint [] (v div 128) else [of_nat (v mod 128)])"
  using put_uvarint_app[of "[of_nat (v mod 128) OR 128]" "v div 128"]
  by (simp add: put_uvarint.simps[of "[]" v] Let_def)

lemma byte_low7:
  fixes b :: byte
  shows "unat (b AND 127) = unat b mod 128" "b AND 128 = 0 \<longleftrightarrow> \<not> bit b 7"
proof -
  have "b AND 127 = take_bit 7 b" by (simp add: take_bit_eq_mask mask_eq_exp_minus_1)
  then have "unat (b AND 127) = take_bit 7 (unat b)"
    by (simp only: unsigned_take_bit_eq)
  then show "unat (b AND 127) = unat b mod 128" by (simp add: take_bit_eq_mod)
  show "b AND 128 = 0 \<longleftrightarrow> \<not> bit b 7"
    using and_exp_eq_0_iff_not_bit[of b 7] by simp
qed

lemma uvarint_byte:
  assumes "x < 128"
  shows "unat ((of_nat x :: byte) AND 127) = x" "(of_nat x :: byte) AND 128 = 0"
    "unat ((of_nat x OR 128 :: byte) AND 127) = x" "(of_nat x OR 128 :: byte) AND 128 \<noteq> 0"
proof -
  have "bit (of_nat x :: byte) 7 \<longleftrightarrow> bit (unat (of_nat x :: byte)) 7"
    by (simp only: bit_unsigned_iff) simp
  also have "unat (of_nat x :: byte) = x" using assms by (simp add: unat_of_nat_byte)
  finally have nb: "\<not> bit (of_nat x :: byte) 7"
    using assms by (simp add: bit_iff_odd)
  show "unat ((of_nat x :: byte) AND 127) = x"
    using assms by (simp add: byte_low7 unat_of_nat_byte)
  show "(of_nat x :: byte) AND 128 = 0" using nb by (simp add: byte_low7)
  have b7: "bit (128 :: byte) 7" using bit_exp_iff[of 7 7, where ?'a = byte] by simp
  then show "(of_nat x OR 128 :: byte) AND 128 \<noteq> 0" by (simp add: byte_low7 bit_or_iff)
  have "(of_nat x OR 128 :: byte) AND 127 = of_nat x AND 127"
    by (simp add: bit.conj_disj_distrib2)
  then show "unat ((of_nat x OR 128 :: byte) AND 127) = x"
    using assms by (simp add: byte_low7 unat_of_nat_byte)
qed

lemma or_push_bit:
  fixes a b :: nat
  assumes "a < 2 ^ n"
  shows "a OR push_bit n b = a + 2 ^ n * b"
proof -
  have "take_bit n a = a" using assms by (simp add: take_bit_nat_eq_self)
  then have "bit a m \<Longrightarrow> m < n" for m by (metis bit_take_bit_iff)
  then have "a AND push_bit n b = 0" by (auto simp: bit_eq_iff bit_simps) (use leD in blast)
  then show ?thesis
    by (simp add: disjunctive_add_eq_or[symmetric] push_bit_eq_mult)
qed

lemma get_uvarint_loop_put:
  assumes "res < 2 ^ shift" "res + 2 ^ shift * v < 2 ^ 64" "shift < 64"
  shows "get_uvarint_loop (pre @ put_uvarint [] v @ post) (length pre) res shift =
    Inr (res + 2 ^ shift * v, length pre + length (put_uvarint [] v))"
  using assms
proof (induction v arbitrary: pre res shift rule: less_induct)
  case (less v)
  let ?m = "v mod 128" and ?d = "v div 128"
  have m: "?m < 128" by simp
  have "2 ^ shift * ?m \<le> 2 ^ shift * v" by simp
  then have small: "push_bit shift ?m < 2 ^ 64"
    using less.prems(2) unfolding push_bit_eq_mult mult.commute[of _ "2 ^ shift"] by linarith
  then have tb: "take_bit 64 (push_bit shift ?m) = push_bit shift ?m"
    by (simp add: take_bit_nat_eq_self)
  have res': "res OR take_bit 64 (push_bit shift ?m) = res + 2 ^ shift * ?m"
    using tb or_push_bit[OF less.prems(1)] by simp
  have split: "res + 2 ^ shift * v = res + 2 ^ shift * ?m + 2 ^ (shift + 7) * ?d"
    by (simp add: power_add algebra_simps flip: distrib_left)
  note bytes = uvarint_byte[OF m]
  show ?case
  proof (cases "?d = 0")
    case True
    then have put: "put_uvarint [] v = [of_nat ?m]" by (simp add: put_uvarint_step[of v])
    have v: "?m = v" using True by simp
    show ?thesis
      using less.prems(3) bytes(1,2) res'
      by (subst get_uvarint_loop.simps) (simp add: put v)
  next
    case False
    then have lt: "?d < v" by (cases "v = 0") auto
    let ?res = "res + 2 ^ shift * ?m"
    have r1: "?res < 2 ^ (shift + 7)"
    proof -
      have "?res < 2 ^ shift * (?m + 1)" using less.prems(1) by simp
      also have "\<dots> \<le> 2 ^ shift * 128" using m by (intro mult_le_mono2) simp
      finally show ?thesis by (simp add: power_add)
    qed
    have r2: "?res + 2 ^ (shift + 7) * ?d < 2 ^ 64" using less.prems(2) split by simp
    have r3: "shift + 7 < 64"
    proof (rule ccontr)
      assume "\<not> shift + 7 < 64"
      then have "(2::nat) ^ 64 \<le> 2 ^ (shift + 7)" by (intro power_increasing) auto
      also have "\<dots> \<le> 2 ^ (shift + 7) * ?d" using False by simp
      finally show False using r2 by linarith
    qed
    let ?b = "of_nat ?m OR 128 :: byte"
    have put: "put_uvarint [] v = ?b # put_uvarint [] ?d"
      using False by (simp add: put_uvarint_step[of v])
    have "get_uvarint_loop (pre @ put_uvarint [] v @ post) (length pre) res shift =
        get_uvarint_loop (pre @ put_uvarint [] v @ post) (length pre + 1) ?res (shift + 7)"
      using less.prems(3) bytes(3,4) res' by (subst get_uvarint_loop.simps) (simp add: put)
    also have "\<dots> = get_uvarint_loop ((pre @ [?b]) @ put_uvarint [] ?d @ post) (length (pre @ [?b])) ?res (shift + 7)"
      by (simp add: put)
    also have "\<dots> = Inr (?res + 2 ^ (shift + 7) * ?d, length (pre @ [?b]) + length (put_uvarint [] ?d))"
      by (rule less.IH[OF lt r1 r2 r3])
    finally show ?thesis using split by (simp add: put)
  qed
qed

interpretation uvarint: codec put_uvarint get_uvarint "\<lambda>v. v < 2 ^ 64"
proof
  show "put_uvarint out v = out @ put_uvarint [] v" for out v by (rule put_uvarint_app)
  show "get_uvarint (pre @ put_uvarint [] v @ post) (length pre) =
      Inr (v, length pre + length (put_uvarint [] v))" if "v < 2 ^ 64" for v pre post
    using get_uvarint_loop_put[of 0 0 v pre post] that by (simp add: get_uvarint_def)
qed


section \<open>Round trip of strings, cells and rows\<close>

lemma length_str_bytes [simp]: "length (str_bytes s) = length s"
  by (simp add: str_bytes_def)

lemma unat_of_char [simp]: "unat (of_nat (of_char c) :: byte) = of_char c"
  by (simp add: unat_of_nat_byte)

lemma bytes_str_str_bytes [simp]: "bytes_str (str_bytes s) = s"
  by (simp add: bytes_str_def str_bytes_def o_def)

lemma map_unat_str_bytes [simp]: "map unat (str_bytes s) = map of_char s"
  by (simp add: str_bytes_def o_def)

interpretation bytes_codec: codec put_bytes get_bytes "\<lambda>b. length b < 2 ^ 64"
proof
  show "put_bytes out b = out @ put_bytes [] b" for out b
    using uvarint.put_app[of out "length b"] by (simp add: put_bytes_def)
  show "get_bytes (pre @ put_bytes [] b @ post) (length pre) =
      Inr (b, length pre + length (put_bytes [] b))" if "length b < 2 ^ 64" for b pre post
  proof -
    let ?l = "put_uvarint [] (length b)"
    have "slice ((pre @ ?l) @ b @ post) (length (pre @ ?l)) (length (pre @ ?l) + length b) = b"
      by (rule slice_append_mid)
    then show ?thesis
      using uvarint.get_put[OF that, of pre "b @ post"] by (simp add: get_bytes_def put_bytes_def)
  qed
qed

interpretation str_codec: codec put_str get_str rust_str
proof
  show "put_str out s = out @ put_str [] s" for out s
    using bytes_codec.put_app[of out "str_bytes s"] by (simp add: put_str_def)
  show "get_str (pre @ put_str [] s @ post) (length pre) = Inr (s, length pre + length (put_str [] s))"
    if "rust_str s" for s pre post
    using that bytes_codec.get_put[of "str_bytes s" pre post]
    by (simp add: get_str_def put_str_def rust_str_def)
qed

text \<open>The canonical text of every type but \<^verbatim>\<open>string\<close> is ASCII, hence well-formed UTF-8.\<close>

lemma utf8_ascii: "\<forall>c \<in> set s. (of_char c :: nat) < 128 \<Longrightarrow> utf8_ok (map of_char s)"
  by (induction s) simp_all

definition ascii :: "string \<Rightarrow> bool" where
  "ascii s \<longleftrightarrow> (\<forall>c \<in> set s. (of_char c :: nat) < 128)"

lemma ascii_simps [simp]:
  "ascii []" "ascii (c # s) \<longleftrightarrow> (of_char c :: nat) < 128 \<and> ascii s" "ascii (s @ t) \<longleftrightarrow> ascii s \<and> ascii t"
  by (auto simp: ascii_def)

lemma ascii_digits: "list_all is_ascii_digit s \<Longrightarrow> ascii s"
  by (auto simp: ascii_def list_all_iff is_ascii_digit_def)

lemma ascii_frac: "wf_frac fs \<Longrightarrow> ascii (display_frac fs)"
  using ascii_digits[of "map char_of_digit fs"]
  by (auto simp: display_frac_def wf_frac_def list_all_iff)

lemma ascii_date: "wf_date d \<Longrightarrow> ascii (display_date d)"
  by (rule display_date_parts[of d]) (auto simp: ascii_digits)

lemma ascii_time: "wf_time t \<Longrightarrow> ascii (display_time t)"
proof -
  assume w: "wf_time t"
  have "secs t div 3600 mod 256 < 100" "secs t mod 3600 div 60 < 100" "secs t mod 60 < 100"
    using w by (auto simp: wf_time_def)
  with w show ?thesis by (simp add: display_time_def wf_time_def ascii_frac ascii_digits)
qed

lemma ascii_offset: "wf_offset off \<Longrightarrow> ascii (display_offset off)"
  by (auto simp: display_offset_def wf_offset_def intro!: ascii_digits push2_digits)

lemma ascii_uint: "canon_uint b \<Longrightarrow> ascii (uint_to_dec_string b)"
  by (rule ascii_digits[OF uint_string_digits])

lemma ascii_display: "wf_value v \<Longrightarrow> type_of v \<noteq> TString \<Longrightarrow> ascii (display v)"
  by (cases v) (auto simp: ascii_date ascii_time ascii_offset ascii_uint ascii_frac
      int_to_dec_string_def canon_int_def display_decimal_def wf_decimal_def)

text \<open>A cell the engine can hold: well formed, and its text is a Rust string.\<close>

definition wf_cell :: "val option \<Rightarrow> bool" where
  "wf_cell c = (case c of None \<Rightarrow> True | Some v \<Rightarrow> wf_value v \<and> rust_str (display v))"

lemma wf_cell_simps [simp]:
  "wf_cell None" "wf_cell (Some v) \<longleftrightarrow> wf_value v \<and> rust_str (display v)"
  by (simp_all add: wf_cell_def)

lemma wf_cell_nonstring:
  "wf_value v \<Longrightarrow> type_of v \<noteq> TString \<Longrightarrow> length (display v) < 2 ^ 64 \<Longrightarrow> wf_cell (Some v)"
  using ascii_display[of v] utf8_ascii[of "display v"] by (simp add: rust_str_def ascii_def)

interpretation cell: codec put_cell get_cell wf_cell
proof
  show app: "put_cell out c = out @ put_cell [] c" for out c
  proof (cases c)
    case (Some v)
    then show ?thesis
      using str_codec.put_app[of "out @ [1, tag (type_of v)]" "display v"]
        str_codec.put_app[of "[1, tag (type_of v)]" "display v"] by simp
  qed simp
  show "get_cell (pre @ put_cell [] c @ post) (length pre) = Inr (c, length pre + length (put_cell [] c))"
    if "wf_cell c" for c pre post
  proof (cases c)
    case None
    then show ?thesis by (simp add: get_cell_def get_byte_def)
  next
    case (Some v)
    let ?s = "put_str [] (display v)"
    have put: "put_cell [] c = 1 # tag (type_of v) # ?s"
      using str_codec.put_app[of "[1, tag (type_of v)]" "display v"] by (simp add: Some)
    have "get_str ((pre @ [1, tag (type_of v)]) @ ?s @ post) (length (pre @ [1, tag (type_of v)]))
        = Inr (display v, length (pre @ [1, tag (type_of v)]) + length ?s)"
      using that by (intro str_codec.get_put) (simp add: Some)
    then have str: "get_str (pre @ 1 # tag (type_of v) # ?s @ post) (Suc (Suc (length pre)))
        = Inr (display v, Suc (Suc (length pre + length ?s)))"
      by simp
    have tag: "get_at (pre @ 1 # tag (type_of v) # ?s @ post) (Suc (length pre)) = Some (tag (type_of v))"
      using get_at_Cons_length[of "pre @ [1]" "tag (type_of v)" "?s @ post"] by simp
    show ?thesis
      unfolding put using that str tag
      by (simp add: get_cell_def get_byte_def Some parse_display_value)
  qed
qed

lemma row_roundtrip:
  assumes "\<forall>c \<in> set cells. wf_cell c" "length cells < 2 ^ 64"
  shows "decode_row (encode_row cells) = Inr cells"
proof -
  let ?n = "put_uvarint [] (length cells)"
  have enc: "encode_row cells = ?n @ foldl put_cell [] cells"
    unfolding encode_row_def by (rule cell.puts_app)
  have "get_uvarint (encode_row cells) 0 = Inr (length cells, length ?n)"
    using uvarint.get_put[OF assms(2), of "[]"] by (simp add: enc)
  moreover have "get_many get_cell (length cells) (encode_row cells) (length ?n)
      = Inr (cells, length ?n + length (foldl put_cell [] cells))"
    using cell.get_puts[OF assms(1), of ?n "[]"] by (simp add: enc)
  ultimately show ?thesis by (simp add: decode_row_def)
qed

section \<open>Properties\<close>

text \<open>Variable-length integers: every \<^verbatim>\<open>u64\<close> written anywhere in a buffer is read back, and the cursor stands right
  behind it.\<close>

theorem varint_codec:
  assumes "v < 2 ^ 64"
  shows "get_uvarint (put_uvarint pre v @ post) (length pre) = Inr (v, length (put_uvarint pre v))"
  using uvarint.get_put[OF assms, of pre post] put_uvarint_app[of pre v] by simp

theorem varint_codec_witness:
  "get_uvarint (put_uvarint [1, 2] 18446744073709551615 @ [3]) (length [1, 2 :: byte]) =
   Inr (18446744073709551615, length (put_uvarint [1, 2] 18446744073709551615))"
  by (rule varint_codec) simp

text \<open>C31 Rows survive storage: a row of NULLs and well-formed values, of any size, is decoded from its encoding.\<close>

theorem row_codec:
  assumes "\<forall>c \<in> set cells. wf_cell c" "length cells < 2 ^ 64"
  shows "decode_row (encode_row cells) = Inr cells"
  by (rule row_roundtrip[OF assms])

theorem row_codec_witness:
  "let cells = [Some (VStr ''Ada''), None, Some (VUnsigned (BigUint [4, 2]))] in
   decode_row (encode_row cells) = Inr cells"
proof -
  have "rust_str ''Ada''" by (simp add: rust_str_def)
  moreover have "wf_cell (Some (VUnsigned (BigUint [4, 2])))"
    by (rule wf_cell_nonstring) (simp_all add: canon_digits_def uint_to_dec_string_def is_zero_uint_def)
  ultimately show ?thesis unfolding Let_def by (intro row_codec) simp_all
qed

end
