(* ===== verification/Schema.thy ===== *)
theory Schema
  imports Codec
begin

text \<open>
  Tables, columns and foreign keys, after \<^verbatim>\<open>tablestore/src/schema.rs\<close>: name lookups, the columns
  that label a referenced row, and the encoding of a schema with its two optional trailing
  blocks.
\<close>

section \<open>Data\<close>

record column =
  col_name :: string
  ty :: type
  nullable :: bool
  unique :: bool
  display_width :: "nat option"

record foreign_key =
  fk_name :: string
  from_col :: string
  to_table :: string
  to_col :: string

record table =
  table_name :: string
  columns :: "column list"
  fks :: "foreign_key list"
  ref_cols :: "string list"

text \<open>\<^verbatim>\<open>iter().position(p)\<close>\<close>

fun position :: "('a \<Rightarrow> bool) \<Rightarrow> 'a list \<Rightarrow> nat option" where
  "position p [] = None"
| "position p (x # xs) = (if p x then Some 0 else map_option Suc (position p xs))"

definition new_table :: "string \<Rightarrow> table" where
  "new_table n = \<lparr>table_name = n, columns = [], fks = [], ref_cols = []\<rparr>"

definition column_index :: "table \<Rightarrow> string \<Rightarrow> nat option" where
  "column_index t n = position (\<lambda>c. col_name c = n) (columns t)"

definition column_named :: "table \<Rightarrow> string \<Rightarrow> column option" where
  "column_named t n = find (\<lambda>c. col_name c = n) (columns t)"

definition fk_touches :: "table \<Rightarrow> string \<Rightarrow> bool" where
  "fk_touches t col \<longleftrightarrow> (\<exists>f \<in> set (fks t).
     from_col f = col \<or> (to_table f = table_name t \<and> to_col f = col))"

definition ref_col_indices :: "table \<Rightarrow> nat list" where
  "ref_col_indices t =
     (let mapped = List.map_filter (column_index t) (ref_cols t);
          uniq = map fst (filter (\<lambda>(i, c). unique c) (enumerate 0 (columns t))) in
      if ref_cols t \<noteq> [] \<and> mapped \<noteq> [] then mapped
      else if uniq \<noteq> [] then uniq
      else if columns t = [] then [] else [0])"

fun join_space :: "string list \<Rightarrow> string" where
  "join_space [] = []"
| "join_space [p] = p"
| "join_space (p # q # ps) = p @ '' '' @ join_space (q # ps)"

definition reference_label :: "table \<Rightarrow> val option list \<Rightarrow> string" where
  "reference_label t row = join_space (map (\<lambda>ci.
     col_name (columns t ! ci) @ '':'' @
     (case get_at row ci of Some (Some v) \<Rightarrow> display v | _ \<Rightarrow> ''NULL''))
     (ref_col_indices t))"

section \<open>Encoding\<close>

definition put_column :: "byte list \<Rightarrow> column \<Rightarrow> byte list" where
  "put_column out c = put_str out (col_name c) @ [tag (ty c)] @ [of_bool (nullable c)] @ [of_bool (unique c)]"

definition put_fk :: "byte list \<Rightarrow> foreign_key \<Rightarrow> byte list" where
  "put_fk out f = put_str (put_str (put_str (put_str out (fk_name f)) (from_col f)) (to_table f)) (to_col f)"

definition put_width :: "byte list \<Rightarrow> nat \<times> nat \<Rightarrow> byte list" where
  "put_width out iw = put_uvarint (put_uvarint out (fst iw)) (snd iw)"

definition widths_of :: "column list \<Rightarrow> (nat \<times> nat) list" where
  "widths_of cs = List.map_filter (\<lambda>(i, c). map_option (\<lambda>w. (i, w)) (display_width c)) (enumerate 0 cs)"

definition put_list :: "(byte list \<Rightarrow> 'a \<Rightarrow> byte list) \<Rightarrow> byte list \<Rightarrow> 'a list \<Rightarrow> byte list" where
  "put_list put out xs = foldl put (put_uvarint out (length xs)) xs"

definition encode_table :: "table \<Rightarrow> byte list" where
  "encode_table t =
     (let out = put_str [] (table_name t);
          out = put_list put_column out (columns t);
          out = put_list put_fk out (fks t);
          out = put_list put_str out (ref_cols t)
      in put_list put_width out (widths_of (columns t)))"

definition get_column :: "byte list \<Rightarrow> nat \<Rightarrow> store_error + column \<times> nat" where
  "get_column buf pos =
     bindR (get_str buf pos) (\<lambda>(n, pos).
     bindR (get_byte ''schema eof'' buf pos) (\<lambda>(tg, pos).
     bindR (ok_or (Corrupt ''schema type'') (from_tag tg)) (\<lambda>tp.
     bindR (get_byte ''schema eof'' buf pos) (\<lambda>(nl, pos).
     bindR (get_byte ''schema eof'' buf pos) (\<lambda>(uq, pos).
     Inr (\<lparr>col_name = n, ty = tp, nullable = (nl \<noteq> 0), unique = (uq \<noteq> 0), display_width = None\<rparr>, pos))))))"

definition get_fk :: "byte list \<Rightarrow> nat \<Rightarrow> store_error + foreign_key \<times> nat" where
  "get_fk buf pos =
     bindR (get_str buf pos) (\<lambda>(n, pos).
     bindR (get_str buf pos) (\<lambda>(fc, pos).
     bindR (get_str buf pos) (\<lambda>(tt, pos).
     bindR (get_str buf pos) (\<lambda>(tc, pos).
     Inr (\<lparr>fk_name = n, from_col = fc, to_table = tt, to_col = tc\<rparr>, pos)))))"

definition get_list :: "(byte list \<Rightarrow> nat \<Rightarrow> store_error + 'a \<times> nat) \<Rightarrow> byte list \<Rightarrow> nat
    \<Rightarrow> store_error + 'a list \<times> nat" where
  "get_list get buf pos = bindR (get_uvarint buf pos) (\<lambda>(n, pos). get_many get n buf pos)"

text \<open>One step of the width block; an index past the columns is skipped, the width is \<^verbatim>\<open>as u16\<close>.\<close>

definition set_width :: "column list \<Rightarrow> nat \<times> nat \<Rightarrow> column list" where
  "set_width cs iw = (if fst iw < length cs
     then cs[fst iw := (cs ! fst iw)\<lparr>display_width := Some (snd iw mod 65536)\<rparr>] else cs)"

fun get_widths :: "nat \<Rightarrow> byte list \<Rightarrow> nat \<Rightarrow> column list \<Rightarrow> store_error + column list \<times> nat" where
  "get_widths 0 buf pos cs = Inr (cs, pos)"
| "get_widths (Suc n) buf pos cs =
     bindR (get_uvarint buf pos) (\<lambda>(ci, pos).
     bindR (get_uvarint buf pos) (\<lambda>(w, pos).
     get_widths n buf pos (set_width cs (ci, w))))"

definition decode_table :: "byte list \<Rightarrow> store_error + table" where
  "decode_table buf =
     bindR (get_str buf 0) (\<lambda>(n, pos).
     bindR (get_list get_column buf pos) (\<lambda>(cs, pos).
     bindR (get_list get_fk buf pos) (\<lambda>(fs, pos).
     bindR (if pos < length buf then get_list get_str buf pos else Inr ([], pos)) (\<lambda>(rs, pos).
     bindR (if pos < length buf then
              bindR (get_uvarint buf pos) (\<lambda>(nw, pos). get_widths nw buf pos cs)
            else Inr (cs, pos)) (\<lambda>(cs, pos).
     Inr \<lparr>table_name = n, columns = cs, fks = fs, ref_cols = rs\<rparr>)))))"

section \<open>Lookups\<close>

lemma position_Some:
  "position p xs = Some i \<longleftrightarrow> i < length xs \<and> p (xs ! i) \<and> (\<forall>j<i. \<not> p (xs ! j))"
proof (induction xs arbitrary: i)
  case (Cons x xs)
  show ?case
  proof (cases i)
    case (Suc k)
    then show ?thesis using Cons.IH[of k] by (auto simp: less_Suc_eq_0_disj)
  qed auto
qed simp

lemma position_None: "position p xs = None \<longleftrightarrow> (\<forall>x \<in> set xs. \<not> p x)"
  by (induction xs) auto

lemma column_index_Some:
  "column_index t n = Some i \<Longrightarrow> i < length (columns t) \<and> col_name (columns t ! i) = n"
  by (simp add: column_index_def position_Some)

lemma find_position: "find p xs = map_option (nth xs) (position p xs)"
  by (induction xs) (auto simp: option.map_comp o_def)

lemma column_named_index: "column_named t n = map_option (nth (columns t)) (column_index t n)"
  by (simp add: column_named_def column_index_def find_position)

lemma ref_col_indices_bound: "ci \<in> set (ref_col_indices t) \<Longrightarrow> ci < length (columns t)"
  by (auto simp: ref_col_indices_def Let_def map_filter_def in_set_enumerate_eq
      dest: column_index_Some split: if_splits)

section \<open>Round trip of the schema\<close>

definition wf_column :: "column \<Rightarrow> bool" where
  "wf_column c \<longleftrightarrow> rust_str (col_name c) \<and>
     (case display_width c of None \<Rightarrow> True | Some w \<Rightarrow> w < 65536)"

definition wf_fk :: "foreign_key \<Rightarrow> bool" where
  "wf_fk f \<longleftrightarrow> rust_str (fk_name f) \<and> rust_str (from_col f) \<and> rust_str (to_table f) \<and> rust_str (to_col f)"

definition wf_table :: "table \<Rightarrow> bool" where
  "wf_table t \<longleftrightarrow> rust_str (table_name t) \<and>
     (\<forall>c \<in> set (columns t). wf_column c) \<and> length (columns t) < 2 ^ 64 \<and>
     (\<forall>f \<in> set (fks t). wf_fk f) \<and> length (fks t) < 2 ^ 64 \<and>
     (\<forall>r \<in> set (ref_cols t). rust_str r) \<and> length (ref_cols t) < 2 ^ 64"

context codec
begin

lemma put_grows: "length out \<le> length (put out x)"
  by (subst put_app) simp

lemma put_list_app: "put_list put out xs = out @ put_list put [] xs"
  unfolding put_list_def
  using puts_app[of "put_uvarint out (length xs)" xs] puts_app[of "put_uvarint [] (length xs)" xs]
    put_uvarint_app[of out "length xs"] by simp

lemma get_list_put:
  assumes "\<forall>x \<in> set xs. ok x" "length xs < 2 ^ 64"
  shows "get_list get (pre @ put_list put [] xs @ post) (length pre) =
    Inr (xs, length pre + length (put_list put [] xs))"
proof -
  let ?n = "put_uvarint [] (length xs)"
  have pl: "put_list put [] xs = ?n @ foldl put [] xs"
    unfolding put_list_def by (rule puts_app)
  have "get_uvarint (pre @ ?n @ foldl put [] xs @ post) (length pre) = Inr (length xs, length pre + length ?n)"
    by (rule uvarint.get_put[OF assms(2)])
  moreover have "get_many get (length xs) (pre @ ?n @ foldl put [] xs @ post) (length pre + length ?n)
      = Inr (xs, length pre + length ?n + length (foldl put [] xs))"
    using get_puts[OF assms(1), of "pre @ ?n" post] by simp
  ultimately show ?thesis by (simp add: get_list_def pl)
qed

end

text \<open>Reading four strings, or a string and three bytes, in sequence.\<close>

lemma get_str_at:
  assumes "rust_str s" "buf = pre @ put_str [] s @ post" "pos = length pre"
  shows "get_str buf pos = Inr (s, pos + length (put_str [] s))"
  using str_codec.get_put[OF assms(1)] assms(2,3) by simp

lemma get_byte_at:
  assumes "buf = pre @ b # post" "pos = length pre"
  shows "get_byte msg buf pos = Inr (b, pos + 1)"
  using assms by (simp add: get_byte_def)

interpretation column: codec put_column get_column "\<lambda>c. wf_column c \<and> display_width c = None"
proof
  show "put_column out c = out @ put_column [] c" for out c
    using str_codec.put_app[of out "col_name c"] by (simp add: put_column_def)
  show "get_column (pre @ put_column [] c @ post) (length pre) = Inr (c, length pre + length (put_column [] c))"
    if w: "wf_column c \<and> display_width c = None" for c pre post
  proof -
    let ?s = "put_str [] (col_name c)"
    let ?t = "tag (ty c)"
    define n :: byte where "n = of_bool (nullable c)"
    define u :: byte where "u = of_bool (unique c)"
    have nu: "(n \<noteq> 0) = nullable c" "(u \<noteq> 0) = unique c" by (simp_all add: n_def u_def)
    have put: "put_column [] c = ?s @ [?t, n, u]" by (simp add: put_column_def n_def u_def)
    let ?buf = "pre @ (?s @ [?t, n, u]) @ post" and ?p = "length pre + length ?s"
    have s: "get_str ?buf (length pre) = Inr (col_name c, ?p)"
      using w by (intro get_str_at[of _ _ _ "[?t, n, u] @ post"]) (simp_all add: wf_column_def)
    have t: "get_byte m ?buf ?p = Inr (?t, Suc ?p)" for m
      using get_byte_at[of ?buf "pre @ ?s" ?t "n # u # post"] by simp
    have n: "get_byte m ?buf (Suc ?p) = Inr (n, Suc (Suc ?p))" for m
      using get_byte_at[of ?buf "pre @ ?s @ [?t]" n "u # post"] by simp
    have u: "get_byte m ?buf (Suc (Suc ?p)) = Inr (u, Suc (Suc (Suc ?p)))" for m
      using get_byte_at[of ?buf "pre @ ?s @ [?t, n]" u post] by simp
    show ?thesis
      unfolding get_column_def put using w
      by (simp only: s t n u nu bindR_simps prod.case from_tag_tag ok_or_simps) simp
  qed
qed

interpretation fk: codec put_fk get_fk wf_fk
proof
  note app = str_codec.put_app
  show a: "put_fk out f = out @ put_fk [] f" for out f
    unfolding put_fk_def by (metis app append_assoc)
  show "get_fk (pre @ put_fk [] f @ post) (length pre) = Inr (f, length pre + length (put_fk [] f))"
    if w: "wf_fk f" for f pre post
  proof -
    let ?a = "put_str [] (fk_name f)" and ?b = "put_str [] (from_col f)"
    let ?c = "put_str [] (to_table f)" and ?d = "put_str [] (to_col f)"
    let ?buf = "pre @ put_fk [] f @ post"
    have put: "put_fk [] f = ?a @ ?b @ ?c @ ?d"
      unfolding put_fk_def by (metis app append_assoc)
    have ok: "rust_str (fk_name f)" "rust_str (from_col f)" "rust_str (to_table f)" "rust_str (to_col f)"
      using w by (simp_all add: wf_fk_def)
    have 1: "get_str ?buf (length pre) = Inr (fk_name f, length pre + length ?a)"
      by (rule get_str_at[OF ok(1)]) (simp_all add: put)
    have 2: "get_str ?buf (length pre + length ?a) = Inr (from_col f, length pre + length ?a + length ?b)"
      by (rule get_str_at[OF ok(2), of _ "pre @ ?a" "?c @ ?d @ post"]) (simp_all add: put)
    have 3: "get_str ?buf (length pre + length ?a + length ?b) =
        Inr (to_table f, length pre + length ?a + length ?b + length ?c)"
      by (rule get_str_at[OF ok(3), of _ "pre @ ?a @ ?b" "?d @ post"]) (simp_all add: put)
    have 4: "get_str ?buf (length pre + length ?a + length ?b + length ?c) =
        Inr (to_col f, length pre + length ?a + length ?b + length ?c + length ?d)"
      by (rule get_str_at[OF ok(4), of _ "pre @ ?a @ ?b @ ?c" post]) (simp_all add: put)
    show ?thesis
      unfolding get_fk_def by (simp add: 1 2 3 4) (simp add: put)
  qed
qed

definition get_width :: "byte list \<Rightarrow> nat \<Rightarrow> store_error + (nat \<times> nat) \<times> nat" where
  "get_width buf pos = bindR (get_uvarint buf pos) (\<lambda>(ci, pos).
     bindR (get_uvarint buf pos) (\<lambda>(w, pos). Inr ((ci, w), pos)))"

interpretation width: codec put_width get_width "\<lambda>(i, w). i < 2 ^ 64 \<and> w < 2 ^ 64"
proof
  show a: "put_width out iw = out @ put_width [] iw" for out iw
    unfolding put_width_def by (metis put_uvarint_app append_assoc)
  show "get_width (pre @ put_width [] iw @ post) (length pre) = Inr (iw, length pre + length (put_width [] iw))"
    if w: "case iw of (i, w) \<Rightarrow> i < 2 ^ 64 \<and> w < 2 ^ 64" for iw pre post
  proof -
    obtain i w where iw: "iw = (i, w)" by (cases iw)
    have put: "put_width [] iw = put_uvarint [] i @ put_uvarint [] w"
      by (simp add: put_width_def iw put_uvarint_app[of "put_uvarint [] i"])
    have "get_uvarint (pre @ (put_uvarint [] i @ put_uvarint [] w) @ post) (length pre) =
        Inr (i, length pre + length (put_uvarint [] i))"
      using uvarint.get_put[of i pre "put_uvarint [] w @ post"] w by (simp add: iw)
    moreover have "get_uvarint (pre @ (put_uvarint [] i @ put_uvarint [] w) @ post)
        (length pre + length (put_uvarint [] i)) =
        Inr (w, length pre + length (put_uvarint [] i) + length (put_uvarint [] w))"
      using uvarint.get_put[of w "pre @ put_uvarint [] i" post] w by (simp add: iw)
    ultimately show ?thesis unfolding get_width_def put by (simp add: iw)
  qed
qed

lemma get_widths_eq:
  "get_widths n buf pos cs = bindR (get_many get_width n buf pos) (\<lambda>(ws, pos). Inr (foldl set_width cs ws, pos))"
proof (induction n arbitrary: pos cs)
  case (Suc n)
  show ?case
    by (cases "get_uvarint buf pos")
       (auto simp: get_width_def bindR_def Suc.IH split: sum.splits)
qed simp


abbreviation no_width :: "column \<Rightarrow> column" where
  "no_width c \<equiv> c\<lparr>display_width := None\<rparr>"

lemma put_columns_no_width: "put_list put_column out cs = put_list put_column out (map no_width cs)"
proof -
  have "foldl put_column o1 cs = foldl put_column o1 (map no_width cs)" for o1
    by (induction cs arbitrary: o1) (simp_all add: put_column_def)
  then show ?thesis by (simp add: put_list_def)
qed

lemma length_set_width [simp]: "length (set_width cs iw) = length cs"
  by (simp add: set_width_def)

lemma foldl_set_width_append:
  "\<forall>(i, w) \<in> set ws. i < length cs \<Longrightarrow> foldl set_width (cs @ ds) ws = foldl set_width cs ws @ ds"
proof (induction ws arbitrary: cs)
  case (Cons iw ws)
  then have "set_width (cs @ ds) iw = set_width cs iw @ ds"
    by (cases iw) (simp add: set_width_def nth_append list_update_append)
  moreover have "\<forall>(i, w) \<in> set ws. i < length (set_width cs iw)" using Cons.prems by simp
  ultimately show ?case using Cons.IH[of "set_width cs iw"] by simp
qed simp

lemma widths_of_snoc:
  "widths_of (cs @ [c]) = widths_of cs @
     (case display_width c of None \<Rightarrow> [] | Some w \<Rightarrow> [(length cs, w)])"
  by (simp add: widths_of_def enumerate_append_eq map_filter_def split: option.split)

lemma widths_of_bound: "\<forall>(i, w) \<in> set (widths_of cs). i < length cs"
  by (induction cs rule: rev_induct)
     (auto simp: widths_of_snoc widths_of_def[of "[]"] map_filter_def split: option.splits)

lemma length_widths_of: "length (widths_of cs) \<le> length cs"
  by (induction cs rule: rev_induct)
     (auto simp: widths_of_snoc widths_of_def[of "[]"] map_filter_def split: option.splits)

lemma restore_widths:
  "\<forall>c \<in> set cs. wf_column c \<Longrightarrow> foldl set_width (map no_width cs) (widths_of cs) = cs"
proof (induction cs rule: rev_induct)
  case (snoc c cs)
  have IH: "foldl set_width (map no_width cs) (widths_of cs) = cs" using snoc by simp
  have b: "\<forall>(i, w) \<in> set (widths_of cs). i < length (map no_width cs)"
    using widths_of_bound[of cs] by simp
  have "foldl set_width (map no_width (cs @ [c])) (widths_of cs) = cs @ [no_width c]"
    using foldl_set_width_append[OF b, of "[no_width c]"] IH by simp
  moreover have "set_width (cs @ [no_width c]) (length cs, w) = cs @ [c]" if "display_width c = Some w" for w
    using snoc.prems that by (simp add: set_width_def wf_column_def)
  moreover have "no_width c = c" if "display_width c = None"
    using that by simp
  ultimately show ?case by (simp add: widths_of_snoc split: option.splits)
qed (simp add: widths_of_def map_filter_def)

lemma widths_ok:
  assumes "wf_table t"
  shows "\<forall>iw \<in> set (widths_of (columns t)). case iw of (i, w) \<Rightarrow> i < 2 ^ 64 \<and> w < 2 ^ 64"
proof -
  have "w < 65536" if "(i, w) \<in> set (widths_of (columns t))" for i w
  proof -
    from that obtain c where "c \<in> set (columns t)" "display_width c = Some w"
      by (auto simp: widths_of_def map_filter_def in_set_enumerate_eq intro: that[OF nth_mem])
    with assms show ?thesis by (auto simp: wf_table_def wf_column_def)
  qed
  with widths_of_bound[of "columns t"] assms show ?thesis
    by (fastforce simp: wf_table_def)
qed

text \<open>The three parts of a schema image; the last two are missing in older images.\<close>

definition core_part :: "table \<Rightarrow> byte list" where
  "core_part t = put_str [] (table_name t) @ put_list put_column [] (columns t) @ put_list put_fk [] (fks t)"

definition ref_part :: "table \<Rightarrow> byte list" where
  "ref_part t = put_list put_str [] (ref_cols t)"

definition width_part :: "table \<Rightarrow> byte list" where
  "width_part t = put_list put_width [] (widths_of (columns t))"

lemma encode_table_parts: "encode_table t = core_part t @ ref_part t @ width_part t"
  unfolding encode_table_def core_part_def ref_part_def width_part_def Let_def
  by (metis append_assoc column.put_list_app fk.put_list_app str_codec.put_list_app width.put_list_app)

lemma put_list_nonempty: "put_list put [] xs \<noteq> []" if "\<And>o1 x. length (put o1 x) \<ge> length o1"
proof -
  have "length o1 \<le> length (foldl put o1 xs)" for o1
    by (induction xs arbitrary: o1) (auto intro: order_trans[OF that])
  from this[of "put_uvarint [] (length xs)"] show ?thesis
    using put_uvarint_step[of "length xs"] by (auto simp: put_list_def split: if_splits)
qed

text \<open>Reading the mandatory part, with anything after it.\<close>

lemma decode_core:
  assumes "wf_table t"
  shows "decode_table (core_part t @ rest) =
     bindR (if rest \<noteq> [] then get_list get_str (core_part t @ rest) (length (core_part t))
            else Inr ([], length (core_part t))) (\<lambda>(rs, pos).
     bindR (if pos < length (core_part t @ rest) then
              bindR (get_uvarint (core_part t @ rest) pos) (\<lambda>(nw, pos).
              get_widths nw (core_part t @ rest) pos (map no_width (columns t)))
            else Inr (map no_width (columns t), pos)) (\<lambda>(cs, pos).
     Inr \<lparr>table_name = table_name t, columns = cs, fks = fks t, ref_cols = rs\<rparr>))"
proof -
  let ?a = "put_str [] (table_name t)" and ?b = "put_list put_column [] (map no_width (columns t))"
  let ?c = "put_list put_fk [] (fks t)"
  have core: "core_part t = ?a @ ?b @ ?c"
    unfolding core_part_def put_columns_no_width[of _ "columns t"] ..
  have w: "rust_str (table_name t)"
    "\<forall>c \<in> set (map no_width (columns t)). wf_column c \<and> display_width c = None"
    "length (map no_width (columns t)) < 2 ^ 64" "\<forall>f \<in> set (fks t). wf_fk f" "length (fks t) < 2 ^ 64"
    using assms by (auto simp: wf_table_def wf_column_def)
  have 1: "get_str (core_part t @ rest) 0 = Inr (table_name t, length ?a)"
    using get_str_at[OF w(1), of "core_part t @ rest" "[]" "?b @ ?c @ rest" 0] by (simp add: core)
  have 2: "get_list get_column (core_part t @ rest) (length ?a) =
      Inr (map no_width (columns t), length ?a + length ?b)"
    using column.get_list_put[OF w(2,3), of ?a "?c @ rest"] by (simp add: core)
  have 3: "get_list get_fk (core_part t @ rest) (length ?a + length ?b) = Inr (fks t, length (core_part t))"
    using fk.get_list_put[OF w(4,5), of "?a @ ?b" rest] by (simp add: core)
  show ?thesis
    unfolding decode_table_def by (simp only: 1 2 3 bindR_simps prod.case) simp
qed

lemma decode_refs:
  assumes "wf_table t"
  shows "decode_table (core_part t @ ref_part t @ rest) =
     bindR (if rest \<noteq> [] then
              bindR (get_uvarint (core_part t @ ref_part t @ rest) (length (core_part t @ ref_part t)))
              (\<lambda>(nw, pos). get_widths nw (core_part t @ ref_part t @ rest) pos (map no_width (columns t)))
            else Inr (map no_width (columns t), length (core_part t @ ref_part t))) (\<lambda>(cs, pos).
     Inr (t\<lparr>columns := cs\<rparr>))"
proof -
  have ne: "ref_part t \<noteq> []"
    unfolding ref_part_def by (rule put_list_nonempty) (rule str_codec.put_grows)
  have r: "get_list get_str (core_part t @ ref_part t @ rest) (length (core_part t)) =
      Inr (ref_cols t, length (core_part t @ ref_part t))"
    using str_codec.get_list_put[of "ref_cols t" "core_part t" rest] assms
    by (simp add: ref_part_def wf_table_def)
  have upd: "\<lparr>table_name = table_name t, columns = cs, fks = fks t, ref_cols = ref_cols t\<rparr> = t\<lparr>columns := cs\<rparr>" for cs
    by (cases t) simp
  show ?thesis
    unfolding decode_core[OF assms] using ne r by (simp add: upd)
qed

lemma schema_roundtrip: "wf_table t \<Longrightarrow> decode_table (encode_table t) = Inr t"
proof -
  assume w: "wf_table t"
  let ?pre = "core_part t @ ref_part t" and ?ws = "widths_of (columns t)"
  have ne: "width_part t \<noteq> []"
    unfolding width_part_def by (rule put_list_nonempty) (rule width.put_grows)
  have len: "length ?ws < 2 ^ 64"
    using w length_widths_of[of "columns t"] by (simp add: wf_table_def)
  have get: "get_list get_width (?pre @ width_part t) (length ?pre) = Inr (?ws, length ?pre + length (width_part t))"
    using width.get_list_put[OF widths_ok[OF w] len, of ?pre "[]"] by (simp add: width_part_def)
  have "bindR (get_uvarint (?pre @ width_part t) (length ?pre))
      (\<lambda>(nw, pos). get_widths nw (?pre @ width_part t) pos (map no_width (columns t)))
      = bindR (get_list get_width (?pre @ width_part t) (length ?pre))
        (\<lambda>(ws, pos). Inr (foldl set_width (map no_width (columns t)) ws, pos))"
    by (cases "get_uvarint (?pre @ width_part t) (length ?pre)")
       (simp_all add: get_list_def get_widths_eq split_beta)
  also have "\<dots> = Inr (columns t, length ?pre + length (width_part t))"
    using w unfolding get by (simp add: restore_widths wf_table_def)
  finally show ?thesis
    unfolding encode_table_parts decode_refs[OF w] using ne by simp
qed

lemma schema_old_images:
  assumes "wf_table t"
  shows "decode_table (core_part t) = Inr (t\<lparr>columns := map no_width (columns t), ref_cols := []\<rparr>)"
    and "decode_table (core_part t @ ref_part t) = Inr (t\<lparr>columns := map no_width (columns t)\<rparr>)"
  using decode_core[OF assms, of "[]"] decode_refs[OF assms, of "[]"] by simp_all

section \<open>Properties\<close>

text \<open>C32 Schemas survive storage, display widths and reference columns included; and the images of the two older formats,
  without the width block or without the reference columns as well, are read as the same table without them.\<close>

theorem schema_codec:
  assumes "wf_table t"
  shows "decode_table (encode_table t) = Inr t \<and>
    decode_table (core_part t @ ref_part t) = Inr (t\<lparr>columns := map no_width (columns t)\<rparr>) \<and>
    decode_table (core_part t) = Inr (t\<lparr>columns := map no_width (columns t), ref_cols := []\<rparr>)"
  using schema_roundtrip[OF assms] schema_old_images[OF assms] by simp

theorem schema_codec_witness:
  "let t = \<lparr>table_name = ''people'',
      columns = [\<lparr>col_name = ''id'', ty = TInteger, nullable = False, unique = True, display_width = Some 6\<rparr>,
                 \<lparr>col_name = ''boss'', ty = TInteger, nullable = True, unique = False, display_width = None\<rparr>],
      fks = [\<lparr>fk_name = ''boss_fk'', from_col = ''boss'', to_table = ''people'', to_col = ''id''\<rparr>],
      ref_cols = [''id'']\<rparr> in
   decode_table (encode_table t) = Inr t \<and>
    decode_table (core_part t @ ref_part t) = Inr (t\<lparr>columns := map no_width (columns t)\<rparr>) \<and>
    decode_table (core_part t) = Inr (t\<lparr>columns := map no_width (columns t), ref_cols := []\<rparr>)"
  unfolding Let_def
  by (rule schema_codec) (simp add: wf_table_def wf_column_def wf_fk_def rust_str_def)

text \<open>The columns that label a referenced row are columns of the table: the indices \<^verbatim>\<open>ref_col_indices\<close> returns are in
  range, so building a label never indexes out of the schema, and a table with a column has a label.\<close>

theorem ref_columns_in_range:
  "set (ref_col_indices t) \<subseteq> {..<length (columns t)} \<and> (ref_col_indices t = [] \<longleftrightarrow> columns t = [])"
proof -
  have "set (ref_col_indices t) \<subseteq> {..<length (columns t)}" using ref_col_indices_bound[of _ t] by auto
  moreover from this have "columns t = [] \<Longrightarrow> ref_col_indices t = []" by simp
  moreover have "ref_col_indices t = [] \<Longrightarrow> columns t = []"
    by (auto simp: ref_col_indices_def Let_def split: if_splits)
  ultimately show ?thesis by blast
qed

end
