(* ===== verification/Block.thy ===== *)
theory Block
  imports Prelude
begin

text \<open>
  The block layer: \<^verbatim>\<open>tablestore/src/block.rs\<close> and the offset adapter of
  \<^verbatim>\<open>kernel/src/install.rs\<close>.

  The trait \<^verbatim>\<open>BlockDevice\<close> is the record \<open>block_ops\<close> of its four methods over a device type;
  the engine takes such a record as an argument, as the source takes \<^verbatim>\<open>dyn BlockDevice\<close>. The two
  implementations of the source are \<open>mem_ops\<close> (the RAM disk that can lose power) and
  \<open>offset_ops\<close> (a window of another device).

  The locale \<open>block_device\<close> is the contract the journal relies on: a sector write takes effect
  while the device has power and is silently lost afterwards, a loss of power is permanent,
  and a barrier succeeds exactly while there is power. Both implementations are interpreted.
\<close>

section \<open>The trait\<close>

definition SECTOR :: nat where "SECTOR = 512"

record 'd block_ops =
  sector_count :: "'d \<Rightarrow> nat"
  read_sector :: "nat \<Rightarrow> nat \<Rightarrow> ('d, byte list) act"
  write_sector :: "nat \<Rightarrow> byte list \<Rightarrow> ('d, unit) act"
  flush :: "('d, unit) act"

text \<open>
  \<open>read_sector ops lba n\<close> is \<^verbatim>\<open>read_sector(lba, buf)\<close> with a buffer of length \<open>n\<close>; its result is the
  new content of the buffer.
\<close>

section \<open>The RAM disk\<close>

record mem_dev =
  data :: "byte list"
  sectors :: nat
  powered :: bool
  writes :: nat
  cut_after :: "nat option"

definition mem_new :: "nat \<Rightarrow> mem_dev option" where
  "mem_new n = (if n * SECTOR < 2 ^ 64 then
     Some \<lparr>data = replicate (n * SECTOR) 0, sectors = n, powered = True, writes = 0, cut_after = None\<rparr>
   else None)"

definition snapshot :: "mem_dev \<Rightarrow> byte list" where
  "snapshot d = data d"

definition from_snapshot :: "byte list \<Rightarrow> mem_dev" where
  "from_snapshot bs =
     \<lparr>data = bs, sectors = length bs div SECTOR, powered = True, writes = 0, cut_after = None\<rparr>"

definition mem_read_sector :: "nat \<Rightarrow> nat \<Rightarrow> (mem_dev, byte list) act" where
  "mem_read_sector lba n d =
     (if n \<noteq> SECTOR \<or> lba \<ge> sectors d then Some (Inl Io, d)
      else let off = lba * SECTOR in
        if off + SECTOR \<le> length (data d) then Some (Inr (slice (data d) off (off + SECTOR)), d)
        else None)"

definition mem_write_sector :: "nat \<Rightarrow> byte list \<Rightarrow> (mem_dev, unit) act" where
  "mem_write_sector lba buf d =
     (if length buf \<noteq> SECTOR \<or> lba \<ge> sectors d then Some (Inl Io, d)
      else if \<not> powered d then Some (Inr (), d)
      else let off = lba * SECTOR in
        if off + SECTOR \<le> length (data d) then
          let d = d\<lparr>data := splice (data d) off buf, writes := writes d + 1\<rparr> in
          Some (Inr (), if Some (writes d) = cut_after d then d\<lparr>powered := False\<rparr> else d)
        else None)"

definition mem_flush :: "(mem_dev, unit) act" where
  "mem_flush d = Some (if powered d then Inr () else Inl Io, d)"

definition mem_ops :: "mem_dev block_ops" where
  "mem_ops = \<lparr>sector_count = sectors, read_sector = mem_read_sector,
     write_sector = mem_write_sector, flush = mem_flush\<rparr>"

section \<open>The offset adapter\<close>

record 'd offset_dev =
  inner :: 'd
  base :: nat
  window :: nat

definition offset_new :: "'d \<Rightarrow> nat \<Rightarrow> nat \<Rightarrow> 'd offset_dev" where
  "offset_new d b n = \<lparr>inner = d, base = b, window = n\<rparr>"

definition on_inner :: "('d, 'a) act \<Rightarrow> ('d offset_dev, 'a) act" where
  "on_inner m o1 = map_option (\<lambda>(r, d). (r, o1\<lparr>inner := d\<rparr>)) (m (inner o1))"

text \<open>The sum \<^verbatim>\<open>self.base + lba\<close> is an addition of \<^verbatim>\<open>u64\<close>s, which aborts on overflow.\<close>

definition offset_read_sector :: "'d block_ops \<Rightarrow> nat \<Rightarrow> nat \<Rightarrow> ('d offset_dev, byte list) act" where
  "offset_read_sector ops lba n o1 =
     (if lba \<ge> window o1 then Some (Inl Io, o1)
      else if base o1 + lba < 2 ^ 64 then on_inner (read_sector ops (base o1 + lba) n) o1
      else None)"

definition offset_write_sector :: "'d block_ops \<Rightarrow> nat \<Rightarrow> byte list \<Rightarrow> ('d offset_dev, unit) act" where
  "offset_write_sector ops lba buf o1 =
     (if lba \<ge> window o1 then Some (Inl Io, o1)
      else if base o1 + lba < 2 ^ 64 then on_inner (write_sector ops (base o1 + lba) buf) o1
      else None)"

definition offset_flush :: "'d block_ops \<Rightarrow> ('d offset_dev, unit) act" where
  "offset_flush ops = on_inner (flush ops)"

definition offset_ops :: "'d block_ops \<Rightarrow> 'd offset_dev block_ops" where
  "offset_ops ops = \<lparr>sector_count = window, read_sector = offset_read_sector ops,
     write_sector = offset_write_sector ops, flush = offset_flush ops\<rparr>"

section \<open>The contract\<close>

text \<open>
  \<open>media d\<close> is the content of the medium by sector number, \<open>live d\<close> whether the device has
  power, \<open>good d\<close> the invariant of the device.
\<close>

type_synonym disk = "nat \<Rightarrow> byte list"

locale block_device =
  fixes ops :: "'d block_ops"
    and media :: "'d \<Rightarrow> disk"
    and live :: "'d \<Rightarrow> bool"
    and good :: "'d \<Rightarrow> bool"
  assumes count_bound: "good d \<Longrightarrow> sector_count ops d < 2 ^ 64"
    and media_length: "good d \<Longrightarrow> lba < sector_count ops d \<Longrightarrow> length (media d lba) = SECTOR"
    and read_ok: "good d \<Longrightarrow> lba < sector_count ops d \<Longrightarrow>
      read_sector ops lba SECTOR d = Some (Inr (media d lba), d)"
    and read_out: "good d \<Longrightarrow> \<not> lba < sector_count ops d \<Longrightarrow>
      read_sector ops lba SECTOR d = Some (Inl Io, d)"
    and write_ok: "good d \<Longrightarrow> lba < sector_count ops d \<Longrightarrow> length buf = SECTOR \<Longrightarrow>
      \<exists>d'. write_sector ops lba buf d = Some (Inr (), d') \<and> good d' \<and>
        sector_count ops d' = sector_count ops d \<and>
        media d' = (if live d then (media d)(lba := buf) else media d) \<and>
        (live d' \<longrightarrow> live d)"
    and write_out: "good d \<Longrightarrow> \<not> lba < sector_count ops d \<Longrightarrow> length buf = SECTOR \<Longrightarrow>
      write_sector ops lba buf d = Some (Inl Io, d)"
    and flush_ok: "good d \<Longrightarrow> flush ops d = Some (if live d then Inr () else Inl Io, d)"

section \<open>The RAM disk meets the contract\<close>

definition mem_media :: "mem_dev \<Rightarrow> disk" where
  "mem_media d i = slice (data d) (i * SECTOR) (i * SECTOR + SECTOR)"

definition mem_good :: "mem_dev \<Rightarrow> bool" where
  "mem_good d \<longleftrightarrow> sectors d = length (data d) div SECTOR \<and> sectors d < 2 ^ 64"

lemma sector_end: "i < n \<Longrightarrow> i * SECTOR + SECTOR \<le> n * SECTOR"
  by (metis Suc_leI add.commute mult_Suc mult_le_mono1)

lemma mem_media_splice:
  assumes "lba * SECTOR + SECTOR \<le> length (data d)" "length buf = SECTOR"
  shows "slice (splice (data d) (lba * SECTOR) buf) (i * SECTOR) (i * SECTOR + SECTOR) =
    (if i = lba then buf else slice (data d) (i * SECTOR) (i * SECTOR + SECTOR))"
proof (cases "i = lba")
  case True
  then show ?thesis using slice_splice_same[of "lba * SECTOR" buf "data d"] assms by simp
next
  case False
  then have sep: "i * SECTOR + SECTOR \<le> lba * SECTOR \<or> lba * SECTOR + SECTOR \<le> i * SECTOR"
    using sector_end[of i lba] sector_end[of lba i] by linarith
  have "take SECTOR (drop (i * SECTOR) (splice (data d) (lba * SECTOR) buf)) =
    take SECTOR (drop (i * SECTOR) (data d))"
  proof (rule nth_equalityI)
    show "length (take SECTOR (drop (i * SECTOR) (splice (data d) (lba * SECTOR) buf))) =
      length (take SECTOR (drop (i * SECTOR) (data d)))" using assms by simp
    fix j assume "j < length (take SECTOR (drop (i * SECTOR) (splice (data d) (lba * SECTOR) buf)))"
    then have "j < SECTOR" "i * SECTOR + j < length (data d)" using assms by auto
    then show "take SECTOR (drop (i * SECTOR) (splice (data d) (lba * SECTOR) buf)) ! j =
      take SECTOR (drop (i * SECTOR) (data d)) ! j"
      using assms sep by (auto simp: nth_splice)
  qed
  with False show ?thesis by (simp add: slice_def)
qed

lemma mem_in_range:
  "mem_good d \<Longrightarrow> lba < sectors d \<Longrightarrow> lba * SECTOR + SECTOR \<le> length (data d)"
  using sector_end[of lba "sectors d"] order_trans[OF _ div_times_less_eq_dividend[of "length (data d)" SECTOR]]
  by (simp add: mem_good_def)

text \<open>A new disk and a re-attached snapshot are good and powered; re-attaching keeps the medium.\<close>

lemma mem_new_good: "mem_new n = Some d \<Longrightarrow> mem_good d \<and> powered d \<and> sectors d = n"
  by (auto simp: mem_new_def mem_good_def SECTOR_def split: if_splits)

lemma reattach:
  assumes "mem_good d"
  shows "mem_good (from_snapshot (snapshot d)\<lparr>cut_after := c\<rparr>)"
    "sectors (from_snapshot (snapshot d)\<lparr>cut_after := c\<rparr>) = sectors d"
    "mem_media (from_snapshot (snapshot d)\<lparr>cut_after := c\<rparr>) = mem_media d"
    "powered (from_snapshot (snapshot d)\<lparr>cut_after := c\<rparr>)"
  using assms by (simp_all add: mem_good_def from_snapshot_def snapshot_def mem_media_def fun_eq_iff)

text \<open>A disk that is never cut keeps its power, and every disk its size.\<close>

lemma mem_write_uncut:
  "mem_write_sector lba buf d = Some (r, d') \<Longrightarrow> cut_after d = None \<Longrightarrow>
    cut_after d' = None \<and> powered d' = powered d \<and> length (data d') = length (data d)"
  by (auto simp: mem_write_sector_def Let_def split: if_splits)

interpretation mem: block_device mem_ops mem_media powered mem_good
proof (unfold_locales, goal_cases)
  case (1 d)
  then show ?case by (simp add: mem_ops_def mem_good_def)
next
  case (2 d lba)
  then show ?case using mem_in_range[of d lba] by (simp add: mem_ops_def mem_media_def)
next
  case (3 d lba)
  then show ?case
    using mem_in_range[of d lba] by (simp add: mem_ops_def mem_read_sector_def mem_media_def Let_def)
next
  case (4 d lba)
  then show ?case by (simp add: mem_ops_def mem_read_sector_def)
next
  case (5 d lba buf)
  then show ?case
    using mem_in_range[of d lba] mem_media_splice[of lba d buf]
    by (auto simp: mem_ops_def mem_write_sector_def mem_media_def mem_good_def Let_def fun_eq_iff)
next
  case (6 d lba buf)
  then show ?case by (simp add: mem_ops_def mem_write_sector_def)
next
  case (7 d)
  then show ?case by (simp add: mem_ops_def mem_flush_def)
qed

section \<open>The offset adapter meets the contract whenever the inner device does\<close>

definition offset_media :: "('d \<Rightarrow> disk) \<Rightarrow> 'd offset_dev \<Rightarrow> disk" where
  "offset_media m o1 i = m (inner o1) (base o1 + i)"

definition offset_good :: "'d block_ops \<Rightarrow> ('d \<Rightarrow> bool) \<Rightarrow> 'd offset_dev \<Rightarrow> bool" where
  "offset_good ops g o1 \<longleftrightarrow> g (inner o1) \<and> base o1 + window o1 \<le> sector_count ops (inner o1)"

context block_device
begin

lemma offset_block_device:
  "block_device (offset_ops ops) (offset_media media) (\<lambda>o1. live (inner o1)) (offset_good ops good)"
proof (unfold_locales, goal_cases)
  case (1 d)
  then show ?case using count_bound[of "inner d"] by (simp add: offset_ops_def offset_good_def)
next
  case (2 d lba)
  then show ?case
    using media_length[of "inner d" "base d + lba"]
    by (simp add: offset_ops_def offset_media_def offset_good_def)
next
  case (3 d lba)
  then show ?case
    using read_ok[of "inner d" "base d + lba"] count_bound[of "inner d"]
    by (simp add: offset_ops_def offset_media_def offset_good_def offset_read_sector_def on_inner_def)
next
  case (4 d lba)
  then show ?case by (simp add: offset_ops_def offset_read_sector_def)
next
  case (5 d lba buf)
  then have w: "good (inner d)" "base d + lba < sector_count ops (inner d)" "lba < window d"
    by (simp_all add: offset_ops_def offset_good_def)
  from write_ok[OF w(1,2) 5(3)] count_bound[OF w(1)] w 5(1) show ?case
    by (auto simp: offset_ops_def offset_media_def offset_good_def offset_write_sector_def
        on_inner_def fun_eq_iff)
next
  case (6 d lba buf)
  then show ?case by (simp add: offset_ops_def offset_write_sector_def)
next
  case (7 d)
  then show ?case
    using flush_ok[of "inner d"] by (simp add: offset_ops_def offset_flush_def on_inner_def offset_good_def)
qed

end

interpretation offset: block_device "offset_ops mem_ops" "offset_media mem_media" "\<lambda>o1. powered (inner o1)"
  "offset_good mem_ops mem_good"
  by (rule mem.offset_block_device)

text \<open>What the adapter is for: sectors outside the window are never touched.\<close>

lemma offset_write_frame:
  assumes "offset_good mem_ops mem_good o1" "length buf = SECTOR"
    "offset_write_sector mem_ops lba buf o1 = Some (r, o2)" "i < base o1 \<or> base o1 + window o1 \<le> i"
  shows "mem_media (inner o2) i = mem_media (inner o1) i"
proof (cases "lba < window o1")
  case True
  then have w: "mem_good (inner o1)" "base o1 + lba < sector_count mem_ops (inner o1)" "base o1 + lba < 2 ^ 64"
    using assms(1) mem.count_bound[of "inner o1"] by (auto simp: offset_good_def)
  from mem.write_ok[OF w(1,2) assms(2)] obtain d' where
    "write_sector mem_ops (base o1 + lba) buf (inner o1) = Some (Inr (), d')"
    "mem_media d' = (if powered (inner o1) then (mem_media (inner o1))(base o1 + lba := buf)
       else mem_media (inner o1))" by blast
  then show ?thesis
    using assms(3,4) True w(3) by (auto simp: offset_write_sector_def on_inner_def)
next
  case False
  then show ?thesis using assms(3) by (simp add: offset_write_sector_def)
qed

end
