(* ===== verification/Journal.thy ===== *)
theory Journal
  imports Block
begin

text \<open>
  The write-ahead log of \<^verbatim>\<open>tablestore/src/journal.rs\<close>: pages of eight sectors, CRC-32, the
  control region (a 32-byte header and an array of target page numbers) and the operations
  \<open>init\<close>, \<open>recover\<close> and \<open>commit\<close>.

  The lemmas of this theory are about the data: the rendered control region and what is read
  back from it, and the errors the checksum detects. The behaviour of the protocol under a
  loss of power is proved in the theory \<open>Journal_Crash\<close>.
\<close>

unbundle bit_operations_syntax

section \<open>Layout\<close>

definition PAGE :: nat where "PAGE = 4096"
definition PAGE_SECTORS :: nat where "PAGE_SECTORS = PAGE div SECTOR"
definition JCTRL_PAGES :: nat where "JCTRL_PAGES = 4"
definition HEADER_LEN :: nat where "HEADER_LEN = 32"
definition JCAP :: nat where "JCAP = (PAGE - HEADER_LEN) div 8 + 3 * (PAGE div 8)"
definition JDATA_START_PAGE :: nat where "JDATA_START_PAGE = 1 + JCTRL_PAGES"
definition JDATA_PAGES :: nat where "JDATA_PAGES = JCAP"
definition FIRST_DATA_PAGE :: nat where "FIRST_DATA_PAGE = JDATA_START_PAGE + JDATA_PAGES"
definition MAGIC :: nat where "MAGIC = 0x4a4c4254"
definition STATE_EMPTY :: nat where "STATE_EMPTY = 0"
definition STATE_COMMITTED :: nat where "STATE_COMMITTED = 1"

lemma SECTOR_val: "SECTOR = 512" by (simp add: SECTOR_def)
lemma PAGE_val: "PAGE = 4096" by (simp add: PAGE_def)
lemma PAGE_SECTORS_val: "PAGE_SECTORS = 8" by (simp add: PAGE_SECTORS_def PAGE_val SECTOR_val)
lemma JCAP_val: "JCAP = 2044" by (simp add: JCAP_def PAGE_val HEADER_LEN_def)
lemma JDATA_START_PAGE_val: "JDATA_START_PAGE = 5" by (simp add: JDATA_START_PAGE_def JCTRL_PAGES_def)
lemma FIRST_DATA_PAGE_val: "FIRST_DATA_PAGE = 2049"
  by (simp add: FIRST_DATA_PAGE_def JDATA_PAGES_def JCAP_val JDATA_START_PAGE_val)

lemmas layout_vals = SECTOR_val PAGE_val PAGE_SECTORS_val JCAP_val JDATA_START_PAGE_val
  FIRST_DATA_PAGE_val JCTRL_PAGES_def HEADER_LEN_def

section \<open>Pages\<close>

definition read_page :: "'d block_ops \<Rightarrow> nat \<Rightarrow> ('d, byte list) act" where
  "read_page ops page = bindM
     (mapM [0..<PAGE_SECTORS] (\<lambda>i.
        bindM (assertM (page * PAGE_SECTORS + i < 2 ^ 64)) (\<lambda>_.
        read_sector ops (page * PAGE_SECTORS + i) SECTOR)))
     (\<lambda>secs. returnM (concat secs))"

definition write_page :: "'d block_ops \<Rightarrow> nat \<Rightarrow> byte list \<Rightarrow> ('d, unit) act" where
  "write_page ops page img =
     bindM (assertM (length img = PAGE)) (\<lambda>_.
     forM [0..<PAGE_SECTORS] (\<lambda>i.
       bindM (assertM (page * PAGE_SECTORS + i < 2 ^ 64)) (\<lambda>_.
       write_sector ops (page * PAGE_SECTORS + i) (slice img (i * SECTOR) (i * SECTOR + SECTOR)))))"

section \<open>CRC-32\<close>

definition crc_step :: "u32 \<Rightarrow> u32" where
  "crc_step crc = (let mask = - (crc AND 1) in drop_bit 1 crc XOR (0xEDB88320 AND mask))"

definition crc_byte :: "u32 \<Rightarrow> byte \<Rightarrow> u32" where
  "crc_byte crc b = (crc_step ^^ 8) (crc XOR ucast b)"

definition crc32 :: "byte list \<Rightarrow> u32" where
  "crc32 bs = NOT (foldl crc_byte 0xFFFFFFFF bs)"

section \<open>Integers in a buffer\<close>

definition put_u32 :: "byte list \<Rightarrow> nat \<Rightarrow> nat \<Rightarrow> byte list" where
  "put_u32 buf off v = splice buf off (le_bytes 4 v)"

definition put_u64 :: "byte list \<Rightarrow> nat \<Rightarrow> nat \<Rightarrow> byte list" where
  "put_u64 buf off v = splice buf off (le_bytes 8 v)"

definition get_u32 :: "byte list \<Rightarrow> nat \<Rightarrow> nat" where
  "get_u32 buf off = of_le (slice buf off (off + 4))"

definition get_u64 :: "byte list \<Rightarrow> nat \<Rightarrow> nat" where
  "get_u64 buf off = of_le (slice buf off (off + 8))"

section \<open>The control region\<close>

definition crc_input :: "nat \<Rightarrow> nat list \<Rightarrow> byte list" where
  "crc_input txid es = le_bytes 8 txid @ le_bytes 8 (length es) @ concat (map (le_bytes 8) es)"

definition put_entries :: "byte list \<Rightarrow> nat list \<Rightarrow> byte list" where
  "put_entries buf es = foldl (\<lambda>b (i, e). put_u64 b (HEADER_LEN + i * 8) e) buf (enumerate 0 es)"

definition render_ctrl :: "nat list \<Rightarrow> nat \<Rightarrow> nat \<Rightarrow> byte list" where
  "render_ctrl es txid st =
     (let buf = put_entries (replicate (JCTRL_PAGES * PAGE) 0) es;
          crc = crc32 (crc_input txid es);
          buf = put_u32 buf 0 MAGIC;
          buf = put_u32 buf 4 1;
          buf = put_u32 buf 8 st;
          buf = put_u32 buf 12 (unat crc);
          buf = put_u64 buf 16 txid
      in put_u64 buf 24 (length es))"

record ctrl =
  state :: nat
  count :: nat
  entries :: "nat list"

text \<open>The part of \<^verbatim>\<open>read_ctrl\<close> after the four pages are in the buffer.\<close>

definition parse_ctrl :: "byte list \<Rightarrow> ctrl option" where
  "parse_ctrl buf =
     (if get_u32 buf 0 \<noteq> MAGIC then None
      else let st = get_u32 buf 8; stored_crc = get_u32 buf 12; txid = get_u64 buf 16; n = get_u64 buf 24 in
        if n > JCAP then None
        else let es = map (\<lambda>i. get_u64 buf (HEADER_LEN + i * 8)) [0..<n] in
          if unat (crc32 (crc_input txid es)) \<noteq> stored_crc then None
          else Some \<lparr>state = st, count = n, entries = es\<rparr>)"

definition read_ctrl :: "'d block_ops \<Rightarrow> ('d, ctrl option) act" where
  "read_ctrl ops = bindM (mapM [0..<JCTRL_PAGES] (\<lambda>p. read_page ops (1 + p)))
     (\<lambda>pgs. returnM (parse_ctrl (concat pgs)))"

definition write_ctrl :: "'d block_ops \<Rightarrow> byte list \<Rightarrow> ('d, unit) act" where
  "write_ctrl ops buf = forM [0..<JCTRL_PAGES] (\<lambda>p.
     write_page ops (1 + p) (slice buf (p * PAGE) (p * PAGE + PAGE)))"

section \<open>The protocol\<close>

definition init :: "'d block_ops \<Rightarrow> ('d, unit) act" where
  "init ops = bindM (write_ctrl ops (render_ctrl [] 0 STATE_EMPTY)) (\<lambda>_. flush ops)"

definition recover :: "'d block_ops \<Rightarrow> ('d, bool) act" where
  "recover ops = bindM (read_ctrl ops) (\<lambda>c. case c of
      None \<Rightarrow> returnM False
    | Some ctrl \<Rightarrow>
        if state ctrl \<noteq> STATE_COMMITTED then returnM False
        else
          bindM (forM (enumerate 0 (entries ctrl)) (\<lambda>(i, target).
            bindM (read_page ops (JDATA_START_PAGE + i)) (\<lambda>page. write_page ops target page))) (\<lambda>_.
          bindM (flush ops) (\<lambda>_.
          bindM (write_ctrl ops (render_ctrl (entries ctrl) 0 STATE_EMPTY)) (\<lambda>_.
          bindM (flush ops) (\<lambda>_.
          returnM True)))))"

definition commit :: "'d block_ops \<Rightarrow> nat \<Rightarrow> (nat \<times> byte list) list \<Rightarrow> ('d, unit) act" where
  "commit ops txid dirty =
     (if length dirty > JCAP then failM OutOfSpace
      else let es = map fst dirty in
        bindM (forM (enumerate 0 dirty) (\<lambda>(i, _, img). write_page ops (JDATA_START_PAGE + i) img)) (\<lambda>_.
        bindM (write_ctrl ops (render_ctrl es txid STATE_EMPTY)) (\<lambda>_.
        bindM (flush ops) (\<lambda>_.
        bindM (write_ctrl ops (render_ctrl es txid STATE_COMMITTED)) (\<lambda>_.
        bindM (flush ops) (\<lambda>_.
        bindM (forM dirty (\<lambda>(target, img). write_page ops target img)) (\<lambda>_.
        bindM (flush ops) (\<lambda>_.
        bindM (write_ctrl ops (render_ctrl es txid STATE_EMPTY)) (\<lambda>_.
        flush ops)))))))))"

section \<open>The checksum\<close>

text \<open>The top bit of the polynomial makes a step invertible: it tells the bit shifted out.\<close>

lemma xor_cancel_right:
  fixes a b c :: u32
  assumes "a XOR c = b XOR c"
  shows "a = b"
proof -
  have "a = (a XOR c) XOR c" by (simp add: xor.assoc)
  also have "\<dots> = b" unfolding assms by (simp add: xor.assoc)
  finally show ?thesis .
qed

lemma crc_step_inj: "inj crc_step"
proof (rule injI)
  fix x y :: u32
  assume eq: "crc_step x = crc_step y"
  have low: "- (z AND 1) = (if bit z 0 then - 1 else 0)" for z :: u32
    by (simp add: and_one_eq bit_0 odd_iff_mod_2_eq_one)
  have step: "crc_step z = drop_bit 1 z XOR (if bit z 0 then 0xEDB88320 else 0)" for z
    by (simp add: crc_step_def low)
  have top: "bit (crc_step z) 31 = bit z 0" for z
    using bit_imp_le_length[of z 32] by (auto simp: step bit_simps)
  have b0: "bit x 0 = bit y 0" using eq top by metis
  then have "drop_bit 1 x = drop_bit 1 y"
    using eq by (auto simp: step split: if_splits dest: xor_cancel_right)
  then have "bit x (Suc n) = bit y (Suc n)" for n
    by (metis bit_drop_bit_eq comp_def plus_1_eq_Suc)
  with b0 show "x = y"
    by (metis bit_eq_iff not0_implies_Suc)
qed

lemma crc_byte_inj:
  "crc_byte c b = crc_byte c' b \<Longrightarrow> c = c'" "crc_byte c b = crc_byte c b' \<Longrightarrow> b = b'"
proof -
  have inj8: "inj (crc_step ^^ 8)" by (rule inj_fn[OF crc_step_inj])
  show "c = c'" if "crc_byte c b = crc_byte c' b"
    using injD[OF inj8, of "c XOR ucast b" "c' XOR ucast b"] that
    by (auto simp: crc_byte_def dest: xor_cancel_right)
  show "b = b'" if "crc_byte c b = crc_byte c b'"
  proof -
    have "(ucast b :: u32) = ucast b'"
      using injD[OF inj8, of "c XOR ucast b" "c XOR ucast b'"] that
      by (metis crc_byte_def xor.commute xor_cancel_right)
    then have "(ucast (ucast b :: u32) :: byte) = ucast (ucast b' :: u32)" by simp
    then show ?thesis by (simp add: unsigned_ucast_eq take_bit_word_eq_self)
  qed
qed

lemma crc_foldl_inj: "foldl crc_byte c bs = foldl crc_byte c' bs \<Longrightarrow> c = c'"
  by (induction bs arbitrary: c c') (auto dest: crc_byte_inj(1))

lemma crc32_single_byte: "crc32 (xs @ b # ys) = crc32 (xs @ b' # ys) \<Longrightarrow> b = b'"
  by (auto simp: crc32_def dest!: crc_foldl_inj crc_byte_inj(2))

section \<open>The rendered control region\<close>

definition ctrl_header :: "nat list \<Rightarrow> nat \<Rightarrow> nat \<Rightarrow> byte list" where
  "ctrl_header es txid st = le_bytes 4 MAGIC @ le_bytes 4 1 @ le_bytes 4 st @
     le_bytes 4 (unat (crc32 (crc_input txid es))) @ le_bytes 8 txid @ le_bytes 8 (length es)"

definition ctrl_entries :: "nat list \<Rightarrow> byte list" where
  "ctrl_entries es = concat (map (le_bytes 8) es)"

lemma length_ctrl_header [simp]: "length (ctrl_header es txid st) = 32"
  by (simp add: ctrl_header_def)

lemma length_ctrl_entries [simp]: "length (ctrl_entries es) = 8 * length es"
  by (induction es) (simp_all add: ctrl_entries_def)

lemma put_entries_from:
  "HEADER_LEN + (k + length es) * 8 \<le> length buf \<Longrightarrow>
   foldl (\<lambda>b (i, e). put_u64 b (HEADER_LEN + i * 8) e) buf (enumerate k es) =
   splice buf (HEADER_LEN + k * 8) (ctrl_entries es)"
proof (induction es arbitrary: k buf)
  case Nil
  then show ?case by (simp add: ctrl_entries_def splice_def)
next
  case (Cons e es)
  have "foldl (\<lambda>b (i, e). put_u64 b (HEADER_LEN + i * 8) e) buf (enumerate k (e # es)) =
    splice (put_u64 buf (HEADER_LEN + k * 8) e) (HEADER_LEN + Suc k * 8) (ctrl_entries es)"
    using Cons by (simp add: put_u64_def)
  also have "\<dots> = splice buf (HEADER_LEN + k * 8) (le_bytes 8 e @ ctrl_entries es)"
    unfolding put_u64_def using Cons.prems by (intro splice_adjacent) simp_all
  finally show ?case by (simp add: ctrl_entries_def)
qed

lemma render_ctrl_eq:
  assumes "length es \<le> JCAP"
  shows "render_ctrl es txid st =
    ctrl_header es txid st @ ctrl_entries es @ replicate (16352 - 8 * length es) 0"
proof -
  let ?b = "splice (replicate 16384 0) 32 (ctrl_entries es)"
  have n: "length es \<le> 2044" using assms by (simp add: JCAP_val)
  have "put_entries (replicate (JCTRL_PAGES * PAGE) 0) es = ?b"
    using put_entries_from[of 0 es "replicate 16384 0"] n by (simp add: put_entries_def layout_vals)
  then have "render_ctrl es txid st = splice ?b 0 (ctrl_header es txid st)"
    using n by (simp add: render_ctrl_def Let_def put_u32_def put_u64_def splice_adjacent ctrl_header_def)
  also have "\<dots> = ctrl_header es txid st @ ctrl_entries es @ replicate (16352 - 8 * length es) 0"
    using n by (simp add: splice_def)
  finally show ?thesis .
qed

lemma length_render_ctrl: "length es \<le> JCAP \<Longrightarrow> length (render_ctrl es txid st) = 16384"
  by (simp add: render_ctrl_eq JCAP_val)

lemma render_ctrl_state:
  assumes "length es \<le> JCAP" "st < 2 ^ 32"
  shows "get_u32 (render_ctrl es txid st) 8 = st"
  using assms by (simp add: get_u32_def render_ctrl_eq ctrl_header_def slice_append_left
      slice_append_right slice_all of_le_le_bytes)

lemma get_entry:
  assumes "i < length es" "\<forall>e \<in> set es. e < 2 ^ 64"
  shows "of_le (slice (ctrl_entries es) (i * 8) (i * 8 + 8)) = es ! i"
  using assms
proof (induction es arbitrary: i)
  case (Cons e es)
  show ?case
  proof (cases i)
    case 0
    then show ?thesis using Cons.prems
      by (simp add: ctrl_entries_def slice_append_left slice_all of_le_le_bytes)
  next
    case (Suc j)
    then show ?thesis using Cons.IH[of j] Cons.prems by (simp add: ctrl_entries_def slice_append_right add.commute)
  qed
qed simp

lemma parse_render_ctrl:
  assumes "length es \<le> JCAP" "\<forall>e \<in> set es. e < 2 ^ 64" "txid < 2 ^ 64" "st < 2 ^ 32"
  shows "parse_ctrl (render_ctrl es txid st) = Some \<lparr>state = st, count = length es, entries = es\<rparr>"
proof -
  let ?b = "render_ctrl es txid st"
  note sl = get_u32_def get_u64_def render_ctrl_eq[OF assms(1)] ctrl_header_def slice_append_left
      slice_append_right slice_all of_le_le_bytes
  have n: "length es \<le> 2044" using assms(1) by (simp add: JCAP_val)
  have crc: "unat (crc32 xs) < 4294967296" for xs using unsigned_less[of "crc32 xs"] by simp
  have hdr: "get_u32 ?b 0 = MAGIC" "get_u32 ?b 8 = st" "get_u32 ?b 12 = unat (crc32 (crc_input txid es))"
    "get_u64 ?b 16 = txid" "get_u64 ?b 24 = length es"
    using assms(3,4) n crc by (simp_all add: sl MAGIC_def)
  have "get_u64 ?b (HEADER_LEN + i * 8) = es ! i" if "i < length es" for i
  proof -
    have "slice ?b (32 + i * 8) (32 + i * 8 + 8) = slice (ctrl_entries es) (i * 8) (i * 8 + 8)"
      using that by (simp add: render_ctrl_eq[OF assms(1)] slice_append_left slice_append_right add.commute)
    then show ?thesis using get_entry[OF that assms(2)] by (simp add: get_u64_def HEADER_LEN_def)
  qed
  then have "map (\<lambda>i. get_u64 ?b (HEADER_LEN + i * 8)) [0..<length es] = es"
    by (intro nth_equalityI) simp_all
  then show ?thesis using assms(1) by (simp add: parse_ctrl_def hdr Let_def)
qed

section \<open>Properties\<close>

text \<open>The checksum notices every change of a single byte.\<close>

theorem crc_detects_byte: "crc32 (xs @ b # ys) = crc32 (xs @ c # ys) \<longleftrightarrow> b = c"
  using crc32_single_byte by blast

text \<open>The control region of the journal is read back as it was rendered: state, number of entries and targets.\<close>

theorem control_codec:
  assumes "length es \<le> JCAP" "\<forall>e \<in> set es. e < 2 ^ 64" "txid < 2 ^ 64" "st < 2 ^ 32"
  shows "length (render_ctrl es txid st) = JCTRL_PAGES * PAGE \<and>
    parse_ctrl (render_ctrl es txid st) = Some \<lparr>state = st, count = length es, entries = es\<rparr>"
  using parse_render_ctrl[OF assms] length_render_ctrl[OF assms(1)] by (simp add: JCTRL_PAGES_def PAGE_val)

theorem control_codec_witness:
  "length (render_ctrl [0, 2049, 2050] 3 1) = JCTRL_PAGES * PAGE \<and>
   parse_ctrl (render_ctrl [0, 2049, 2050] 3 1) = Some \<lparr>state = 1, count = 3, entries = [0, 2049, 2050]\<rparr>"
  using control_codec[of "[0, 2049, 2050]" 3 1] by (simp add: JCAP_val)

end
