(* ===== verification/Journal_Crash.thy ===== *)
theory Journal_Crash
  imports Journal
begin

text \<open>
  Crash atomicity of the journal.

  A run of the protocol is a sequence of sector writes; a loss of power keeps a prefix of it.
  The abstract content of a volume, \<open>view\<close>, is what its pages hold once recovery has redone a
  committed transaction. The theory shows, first for disks and prefixes of write sequences and
  then for the operations of \<^verbatim>\<open>journal.rs\<close> on a device: a commit cut at any point leaves
  the old view or the new one, a recovery cut at any point keeps the view, and a complete
  recovery leaves no committed transaction behind.
\<close>

section \<open>Sequences of sector writes\<close>

type_synonym sector_write = "nat \<times> byte list"

definition apply_writes :: "disk \<Rightarrow> sector_write list \<Rightarrow> disk" where
  "apply_writes m ws = foldl (\<lambda>m (i, b). m(i := b)) m ws"

lemma apply_writes_simps [simp]:
  "apply_writes m [] = m"
  "apply_writes m (w # ws) = apply_writes (m(fst w := snd w)) ws"
  "apply_writes m (us @ vs) = apply_writes (apply_writes m us) vs"
  by (simp_all add: apply_writes_def split_beta)

lemma apply_writes_map: "apply_writes m ws s = (case map_of (rev ws) s of None \<Rightarrow> m s | Some b \<Rightarrow> b)"
  by (induction ws rule: rev_induct) (auto split: option.splits)

lemma apply_writes_frame: "s \<notin> fst ` set ws \<Longrightarrow> apply_writes m ws s = m s"
  by (induction ws rule: rev_induct) auto

lemma apply_writes_cong:
  "m s = m' s \<Longrightarrow> apply_writes m ws s = apply_writes m' ws s"
  by (simp add: apply_writes_map split: option.split)

text \<open>Redoing a whole sequence after a prefix of it: the redo is idempotent.\<close>

lemma apply_writes_redo: "apply_writes (apply_writes m (take k ws)) ws = apply_writes m ws"
proof
  fix s
  show "apply_writes (apply_writes m (take k ws)) ws s = apply_writes m ws s"
  proof (cases "map_of (rev ws) s")
    case None
    then have "s \<notin> fst ` set (take k ws)" by (auto simp: map_of_eq_None_iff dest: in_set_takeD)
    then show ?thesis by (intro apply_writes_cong apply_writes_frame)
  qed (simp add: apply_writes_map)
qed

lemma apply_writes_range:
  "apply_writes m (map (\<lambda>i. (a + i, f i)) [0..<n]) s = (if a \<le> s \<and> s < a + n then f (s - a) else m s)"
  by (induction n) auto

section \<open>Pages and the control region on a disk\<close>

definition page_at :: "disk \<Rightarrow> nat \<Rightarrow> byte list" where
  "page_at m p = concat (map (\<lambda>i. m (p * PAGE_SECTORS + i)) [0..<PAGE_SECTORS])"

definition page_writes :: "nat \<Rightarrow> byte list \<Rightarrow> sector_write list" where
  "page_writes p img =
     map (\<lambda>i. (p * PAGE_SECTORS + i, slice img (i * SECTOR) (i * SECTOR + SECTOR))) [0..<PAGE_SECTORS]"

definition image_writes :: "(nat \<times> byte list) list \<Rightarrow> sector_write list" where
  "image_writes prs = concat (map (\<lambda>(p, img). page_writes p img) prs)"

definition ctrl_at :: "disk \<Rightarrow> byte list" where
  "ctrl_at m = concat (map (\<lambda>p. page_at m (1 + p)) [0..<JCTRL_PAGES])"

definition ctrl_writes :: "byte list \<Rightarrow> sector_write list" where
  "ctrl_writes buf =
     concat (map (\<lambda>p. page_writes (1 + p) (slice buf (p * PAGE) (p * PAGE + PAGE))) [0..<JCTRL_PAGES])"

lemma concat_blocks:
  "concat (map (\<lambda>p. map (\<lambda>i. f (p * n + i)) [0..<n]) [0..<k]) = map f [0..<k * n]"
proof (induction k)
  case (Suc k)
  have "[0..<Suc k * n] = [0..<k * n] @ [k * n..<k * n + n]"
    using upt_add_eq_append[of 0 "k * n" n] by (simp add: add.commute)
  also have "[k * n..<k * n + n] = map (\<lambda>i. k * n + i) [0..<n]"
    using map_add_upt[of "k * n" n] by (simp add: add.commute)
  finally show ?case using Suc by (simp add: o_def)
qed simp

lemma concat_slices: "k * n \<le> length xs \<Longrightarrow> concat (map (\<lambda>i. slice xs (i * n) (i * n + n)) [0..<k]) = take (k * n) xs"
proof (induction k)
  case (Suc k)
  then have "slice xs 0 (k * n) @ slice xs (k * n) (k * n + n) = slice xs 0 (k * n + n)"
    by (intro slice_join) simp_all
  with Suc show ?case by (simp add: slice_def add.commute)
qed simp

lemma page_at_same: "length img = PAGE \<Longrightarrow> page_at (apply_writes m (page_writes p img)) p = img"
proof -
  assume len: "length img = PAGE"
  have "page_at (apply_writes m (page_writes p img)) p =
    concat (map (\<lambda>i. slice img (i * SECTOR) (i * SECTOR + SECTOR)) [0..<PAGE_SECTORS])"
    unfolding page_at_def page_writes_def by (intro arg_cong[of _ _ concat] map_cong refl)
      (simp add: apply_writes_range)
  also have "\<dots> = img" using len concat_slices[of PAGE_SECTORS SECTOR img] by (simp add: layout_vals)
  finally show ?thesis .
qed

lemma page_sector: "p * PAGE_SECTORS \<le> s \<Longrightarrow> s < p * PAGE_SECTORS + PAGE_SECTORS \<Longrightarrow> s div PAGE_SECTORS = p"
  by (simp add: PAGE_SECTORS_val)

lemma set_page_writes: "fst ` set (page_writes p img) = {p * PAGE_SECTORS..<p * PAGE_SECTORS + PAGE_SECTORS}"
proof -
  have "fst ` set (page_writes p img) = (\<lambda>i. p * PAGE_SECTORS + i) ` {0..<PAGE_SECTORS}"
    by (simp add: page_writes_def image_image)
  then show ?thesis by (simp add: add.commute)
qed

lemma page_at_cong: "(\<And>s. s div PAGE_SECTORS = p \<Longrightarrow> m s = m' s) \<Longrightarrow> page_at m p = page_at m' p"
  unfolding page_at_def by (intro arg_cong[of _ _ concat] map_cong refl) (simp add: PAGE_SECTORS_val)

lemma page_writes_sector: "(s, b) \<in> set (page_writes p img) \<Longrightarrow> s div PAGE_SECTORS = p"
  by (auto simp: page_writes_def PAGE_SECTORS_val)

lemma page_at_other: "q \<noteq> p \<Longrightarrow> page_at (apply_writes m (page_writes p img)) q = page_at m q"
  by (rule page_at_cong, rule apply_writes_frame) (auto simp: set_page_writes dest: page_sector)

lemma page_at_images:
  "\<forall>(p, img) \<in> set prs. length img = PAGE \<Longrightarrow>
   page_at (apply_writes m (image_writes prs)) q = (case map_of (rev prs) q of None \<Rightarrow> page_at m q | Some img \<Rightarrow> img)"
proof (induction prs rule: rev_induct)
  case (snoc pr prs)
  obtain p img where pr: "pr = (p, img)" by (cases pr)
  have step: "apply_writes m (image_writes (prs @ [pr])) =
    apply_writes (apply_writes m (image_writes prs)) (page_writes p img)"
    by (simp add: image_writes_def pr)
  show ?case using snoc unfolding step by (cases "q = p") (simp_all add: pr page_at_same page_at_other)
qed (simp add: image_writes_def)

lemma set_image_writes:
  "fst ` set (image_writes prs) = {s. s div PAGE_SECTORS \<in> fst ` set prs}"
proof -
  have "{p * PAGE_SECTORS..<p * PAGE_SECTORS + PAGE_SECTORS} = {s. s div PAGE_SECTORS = p}" for p
    by (auto simp: PAGE_SECTORS_val)
  then have "fst ` set (page_writes p img) = {s. s div PAGE_SECTORS = p}" for p img
    by (simp add: set_page_writes)
  moreover have "fst ` set (image_writes prs) = (\<Union>pr \<in> set prs. fst ` set (page_writes (fst pr) (snd pr)))"
    by (auto simp: image_writes_def split_beta)
  ultimately show ?thesis by auto
qed

lemma ctrl_writes_flat:
  assumes "length buf = 16384"
  shows "ctrl_writes buf = map (\<lambda>i. (8 + i, slice buf (i * 512) (i * 512 + 512))) [0..<32]"
proof -
  have "page_writes (1 + p) (slice buf (p * PAGE) (p * PAGE + PAGE)) =
      map (\<lambda>i. (\<lambda>j. (8 + j, slice buf (j * 512) (j * 512 + 512))) (p * 8 + i)) [0..<8]" if "p < 4" for p
    unfolding page_writes_def layout_vals using assms that
    by (intro map_cong refl) (simp add: slice_slice algebra_simps)
  then have "ctrl_writes buf = concat (map (\<lambda>p. map (\<lambda>i. (\<lambda>j. (8 + j, slice buf (j * 512) (j * 512 + 512)))
      (p * 8 + i)) [0..<8]) [0..<4])"
    unfolding ctrl_writes_def JCTRL_PAGES_def by (intro arg_cong[of _ _ concat] map_cong refl) simp
  also have "\<dots> = map (\<lambda>i. (8 + i, slice buf (i * 512) (i * 512 + 512))) [0..<4 * 8]"
    by (rule concat_blocks)
  finally show ?thesis by simp
qed

lemma ctrl_at_flat: "ctrl_at m = concat (map (\<lambda>i. m (8 + i)) [0..<32])"
proof -
  have "ctrl_at m = concat (concat (map (\<lambda>p. map (\<lambda>i. (\<lambda>j. m (8 + j)) (p * 8 + i)) [0..<8]) [0..<4]))"
    by (simp add: ctrl_at_def page_at_def layout_vals algebra_simps upt_rec[of _ 4])
  then show ?thesis unfolding concat_blocks[of "\<lambda>j. m (8 + j)" 8 4] by simp
qed

section \<open>The state of the journal on a disk\<close>

definition committed :: "disk \<Rightarrow> bool" where
  "committed m = (case parse_ctrl (ctrl_at m) of None \<Rightarrow> False | Some c \<Rightarrow> state c = STATE_COMMITTED)"

definition pending :: "disk \<Rightarrow> nat list" where
  "pending m = (if committed m then entries (the (parse_ctrl (ctrl_at m))) else [])"

definition redo_pairs :: "disk \<Rightarrow> (nat \<times> byte list) list" where
  "redo_pairs m = map (\<lambda>(i, t). (t, page_at m (JDATA_START_PAGE + i))) (enumerate 0 (pending m))"

definition view :: "disk \<Rightarrow> disk" where
  "view m = apply_writes m (image_writes (redo_pairs m))"

text \<open>Pages and sectors outside the journal.\<close>

definition home_page :: "nat \<Rightarrow> bool" where
  "home_page p \<longleftrightarrow> p = 0 \<or> FIRST_DATA_PAGE \<le> p"

definition home :: "nat \<Rightarrow> bool" where
  "home s \<longleftrightarrow> home_page (s div PAGE_SECTORS)"

definition batch_ok :: "(nat \<times> byte list) list \<Rightarrow> bool" where
  "batch_ok dirty \<longleftrightarrow> length dirty \<le> JCAP \<and>
     (\<forall>(p, img) \<in> set dirty. home_page p \<and> p < 2 ^ 64 \<and> length img = PAGE)"

lemma view_clean: "\<not> committed m \<Longrightarrow> view m = m"
  by (simp add: view_def redo_pairs_def pending_def image_writes_def)

lemma ctrl_at_cong: "(\<And>s. 8 \<le> s \<Longrightarrow> s < 40 \<Longrightarrow> m s = m' s) \<Longrightarrow> ctrl_at m = ctrl_at m'"
  unfolding ctrl_at_flat by (intro arg_cong[of _ _ concat] map_cong refl) simp

lemma committed_cong: "ctrl_at m = ctrl_at m' \<Longrightarrow> committed m = committed m'"
  by (simp add: committed_def)

lemma pending_cong: "ctrl_at m = ctrl_at m' \<Longrightarrow> pending m = pending m'"
  by (simp add: pending_def committed_def)

lemma length_pending: "length (pending m) \<le> JCAP"
  by (auto simp: pending_def committed_def parse_ctrl_def Let_def split: option.splits if_splits)

lemma home_not_journal: "home s \<Longrightarrow> \<not> (8 \<le> s \<and> s < 16392)"
  by (auto simp: home_def home_page_def layout_vals)

lemma journal_not_home: "8 \<le> s \<Longrightarrow> s < 16392 \<Longrightarrow> \<not> home s"
  using home_not_journal by blast

lemma redo_pairs_cong:
  assumes "\<And>s. 8 \<le> s \<Longrightarrow> s < 16392 \<Longrightarrow> m s = m' s"
  shows "redo_pairs m = redo_pairs m'"
proof -
  have p: "pending m = pending m'" using assms by (intro pending_cong ctrl_at_cong) simp
  have "page_at m (JDATA_START_PAGE + i) = page_at m' (JDATA_START_PAGE + i)" if "i < JCAP" for i
    using that by (intro page_at_cong assms) (auto simp: layout_vals)
  then show ?thesis
    using length_pending[of m'] unfolding redo_pairs_def p
    by (auto simp: in_set_enumerate_eq)
qed

text \<open>The header sector alone decides that nothing is committed.\<close>

lemma header_empty:
  assumes "m 8 = slice (render_ctrl es txid STATE_EMPTY) 0 512" "length es \<le> JCAP"
  shows "\<not> committed m"
proof -
  have l: "length (m 8) = 512" using assms by (simp add: length_render_ctrl)
  have "[0..<32] = 0 # [Suc 0..<32]" by (simp add: upt_rec)
  then have "ctrl_at m = m 8 @ concat (map (\<lambda>i. m (8 + i)) [Suc 0..<32])"
    by (simp add: ctrl_at_flat)
  then have "get_u32 (ctrl_at m) 8 = get_u32 (m 8) 8"
    using l by (simp add: get_u32_def slice_append_left)
  also have "\<dots> = get_u32 (render_ctrl es txid STATE_EMPTY) 8"
    using assms by (simp add: get_u32_def slice_slice length_render_ctrl)
  also have "\<dots> = STATE_EMPTY"
    using render_ctrl_state[OF assms(2)] by (simp add: STATE_EMPTY_def)
  finally show ?thesis
    by (auto simp: committed_def parse_ctrl_def Let_def STATE_EMPTY_def STATE_COMMITTED_def
        split: option.splits if_splits)
qed

text \<open>Two renderings of the same transaction differ in the header sector only.\<close>

lemma render_tail:
  assumes "length es \<le> JCAP" "1 \<le> i"
  shows "slice (render_ctrl es txid st) (i * 512) (i * 512 + 512) =
    slice (render_ctrl es txid' st') (i * 512) (i * 512 + 512)"
proof -
  have "32 \<le> i * 512" using assms(2) by simp
  then show ?thesis by (simp add: render_ctrl_eq[OF assms(1)] slice_append_right)
qed

lemma ctrl_at_render:
  assumes "length buf = 16384" "\<And>i. i < 32 \<Longrightarrow> m (8 + i) = slice buf (i * 512) (i * 512 + 512)"
  shows "ctrl_at m = buf"
proof -
  have "ctrl_at m = concat (map (\<lambda>i. slice buf (i * 512) (i * 512 + 512)) [0..<32])"
    unfolding ctrl_at_flat by (intro arg_cong[of _ _ concat] map_cong refl) (simp add: assms(2))
  also have "\<dots> = buf" using concat_slices[of 32 512 buf] assms(1) by simp
  finally show ?thesis .
qed

lemma apply_ctrl_writes:
  assumes "length es \<le> JCAP"
  shows "apply_writes m (take k (ctrl_writes (render_ctrl es txid st))) s =
    (if 8 \<le> s \<and> s < 8 + min k 32
     then slice (render_ctrl es txid st) ((s - 8) * 512) ((s - 8) * 512 + 512) else m s)"
proof -
  have "take k (ctrl_writes (render_ctrl es txid st)) =
    map (\<lambda>i. (8 + i, slice (render_ctrl es txid st) (i * 512) (i * 512 + 512))) [0..<min k 32]"
    by (simp add: ctrl_writes_flat length_render_ctrl assms take_map min_def)
  then show ?thesis by (simp only: apply_writes_range)
qed

section \<open>A commit cut at any point\<close>

definition stage_pairs :: "(nat \<times> byte list) list \<Rightarrow> (nat \<times> byte list) list" where
  "stage_pairs dirty = map (\<lambda>(i, _, img). (JDATA_START_PAGE + i, img)) (enumerate 0 dirty)"

definition commit_writes :: "nat \<Rightarrow> (nat \<times> byte list) list \<Rightarrow> sector_write list" where
  "commit_writes txid dirty = image_writes (stage_pairs dirty) @
     ctrl_writes (render_ctrl (map fst dirty) txid STATE_EMPTY) @
     ctrl_writes (render_ctrl (map fst dirty) txid STATE_COMMITTED) @
     image_writes dirty @
     ctrl_writes (render_ctrl (map fst dirty) txid STATE_EMPTY)"

lemma stage_frame:
  assumes "length dirty \<le> JCAP" "\<not> (40 \<le> s \<and> s < 16392)"
  shows "apply_writes m (take k (image_writes (stage_pairs dirty))) s = m s"
proof (rule apply_writes_frame)
  have "s div PAGE_SECTORS \<notin> fst ` set (stage_pairs dirty)"
    using assms by (auto simp: stage_pairs_def in_set_enumerate_eq layout_vals)
  then have "s \<notin> fst ` set (image_writes (stage_pairs dirty))" by (simp add: set_image_writes)
  then show "s \<notin> fst ` set (take k (image_writes (stage_pairs dirty)))" by (auto dest: in_set_takeD)
qed

lemma home_frame:
  assumes "batch_ok dirty" "\<not> home s"
  shows "apply_writes m (take k (image_writes dirty)) s = m s"
proof (rule apply_writes_frame)
  have "s \<notin> fst ` set (image_writes dirty)"
    using assms by (auto simp: set_image_writes batch_ok_def home_def)
  then show "s \<notin> fst ` set (take k (image_writes dirty))" by (auto dest: in_set_takeD)
qed

lemma ctrl_frame:
  "length es \<le> JCAP \<Longrightarrow> \<not> (8 \<le> s \<and> s < 40) \<Longrightarrow>
   apply_writes m (take k (ctrl_writes (render_ctrl es txid st))) s = m s"
  by (auto simp: apply_ctrl_writes)

lemma ctrl_home_frame:
  "length es \<le> JCAP \<Longrightarrow> home s \<Longrightarrow>
   apply_writes m (take k (ctrl_writes (render_ctrl es txid st))) s = m s"
  using home_not_journal[of s] by (intro ctrl_frame) auto

lemma staged_images:
  assumes "batch_ok dirty" "i < length dirty"
  shows "page_at (apply_writes m (image_writes (stage_pairs dirty))) (JDATA_START_PAGE + i) = snd (dirty ! i)"
proof -
  have "distinct (map fst (stage_pairs dirty))"
  proof -
    have "map fst (stage_pairs dirty) = map (\<lambda>i. JDATA_START_PAGE + i) [0..<length dirty]"
      by (rule nth_equalityI) (simp_all add: stage_pairs_def nth_enumerate_eq split_beta)
    then show ?thesis by (simp add: distinct_map)
  qed
  moreover have "(JDATA_START_PAGE + i, snd (dirty ! i)) \<in> set (stage_pairs dirty)"
  proof -
    have "stage_pairs dirty ! i = (JDATA_START_PAGE + i, snd (dirty ! i))"
      using assms(2) by (simp add: stage_pairs_def nth_enumerate_eq split_beta)
    moreover have "i < length (stage_pairs dirty)" using assms(2) by (simp add: stage_pairs_def)
    ultimately show ?thesis by (metis nth_mem)
  qed
  ultimately have "map_of (rev (stage_pairs dirty)) (JDATA_START_PAGE + i) = Some (snd (dirty ! i))"
    by (intro map_of_is_SomeI) (simp_all add: rev_map[symmetric])
  moreover have "\<forall>(p, img) \<in> set (stage_pairs dirty). length img = PAGE"
    using assms(1) by (fastforce simp: stage_pairs_def batch_ok_def in_set_enumerate_eq dest: nth_mem)
  ultimately show ?thesis by (simp add: page_at_images)
qed

lemma redo_pairs_staged:
  assumes "pending m = map fst dirty"
    "\<And>i. i < length dirty \<Longrightarrow> page_at m (JDATA_START_PAGE + i) = snd (dirty ! i)"
  shows "redo_pairs m = dirty"
  by (rule nth_equalityI) (simp_all add: redo_pairs_def assms nth_enumerate_eq)

text \<open>Up to the end of the first control write nothing is committed and the home pages are untouched.\<close>

lemma commit_cut_before:
  fixes txid :: nat
  assumes "batch_ok dirty" "\<not> committed m" "k \<le> length (image_writes (stage_pairs dirty)) + 32"
  defines "m' \<equiv> apply_writes m (take k (commit_writes txid dirty))"
  shows "\<not> committed m'" "home s \<Longrightarrow> m' s = m s"
proof -
  let ?S = "image_writes (stage_pairs dirty)"
  let ?E = "ctrl_writes (render_ctrl (map fst dirty) txid STATE_EMPTY)"
  have len: "length (map fst dirty) \<le> JCAP" using assms(1) by (simp add: batch_ok_def)
  have lenE: "length ?E = 32" by (simp add: ctrl_writes_flat length_render_ctrl[OF len])
  have m': "m' = apply_writes (apply_writes m (take k ?S)) (take (k - length ?S) ?E)"
    unfolding m'_def commit_writes_def using assms(3) lenE by simp
  show "home s \<Longrightarrow> m' s = m s"
    using home_not_journal[of s] len unfolding m' by (subst ctrl_frame) (auto simp: stage_frame)
  show "\<not> committed m'"
  proof (cases "k \<le> length ?S")
    case True
    then have "ctrl_at m' = ctrl_at m"
      unfolding m' using len by (intro ctrl_at_cong) (simp add: stage_frame)
    then show ?thesis using assms(2) committed_cong by blast
  next
    case False
    then have "m' 8 = slice (render_ctrl (map fst dirty) txid STATE_EMPTY) 0 512"
      unfolding m' using apply_ctrl_writes[OF len] by simp
    then show ?thesis by (rule header_empty[OF _ len])
  qed
qed

lemma committed_render:
  assumes "ctrl_at m = render_ctrl es txid STATE_COMMITTED"
    "length es \<le> JCAP" "\<forall>e \<in> set es. e < 2 ^ 64" "txid < 2 ^ 64"
  shows "committed m" "pending m = es"
  using parse_render_ctrl[OF assms(2-4), of STATE_COMMITTED]
  by (simp_all add: committed_def pending_def assms(1) STATE_COMMITTED_def)

text \<open>A committed transaction whose images are staged determines the view, wherever the
  installation of the home pages has got to.\<close>

lemma view_installed:
  assumes "batch_ok dirty" "txid < 2 ^ 64"
    and "ctrl_at m' = render_ctrl (map fst dirty) txid STATE_COMMITTED"
    and "\<And>i. i < length dirty \<Longrightarrow> page_at m' (JDATA_START_PAGE + i) = snd (dirty ! i)"
    and "\<And>s. home s \<Longrightarrow> m' s = apply_writes m (take j (image_writes dirty)) s"
  shows "pending m' = map fst dirty" "home s \<Longrightarrow> view m' s = apply_writes m (image_writes dirty) s"
proof -
  have "length (map fst dirty) \<le> JCAP" "\<forall>e \<in> set (map fst dirty). e < 2 ^ 64"
    using assms(1) by (auto simp: batch_ok_def)
  with committed_render[OF assms(3)] assms(2) show p: "pending m' = map fst dirty" by blast
  have "view m' = apply_writes m' (image_writes dirty)"
    unfolding view_def using redo_pairs_staged[OF p assms(4)] by simp
  then show "home s \<Longrightarrow> view m' s = apply_writes m (image_writes dirty) s"
    using assms(5) apply_writes_cong apply_writes_redo by metis
qed

lemma page_at_journal_cong:
  "(\<And>s. 40 \<le> s \<Longrightarrow> s < 16392 \<Longrightarrow> m s = m' s) \<Longrightarrow> i < JCAP \<Longrightarrow>
   page_at m (JDATA_START_PAGE + i) = page_at m' (JDATA_START_PAGE + i)"
  by (rule page_at_cong) (auto simp: layout_vals)

text \<open>The disk once the staging is complete, the header flipped and part of the home pages installed.\<close>

definition staged :: "nat \<Rightarrow> (nat \<times> byte list) list \<Rightarrow> disk \<Rightarrow> disk" where
  "staged txid dirty m = apply_writes (apply_writes m (image_writes (stage_pairs dirty)))
     (ctrl_writes (render_ctrl (map fst dirty) txid STATE_EMPTY))"

definition installing :: "nat \<Rightarrow> (nat \<times> byte list) list \<Rightarrow> disk \<Rightarrow> nat \<Rightarrow> disk" where
  "installing txid dirty m j = apply_writes
     (apply_writes (staged txid dirty m) (take j (ctrl_writes (render_ctrl (map fst dirty) txid STATE_COMMITTED))))
     (take (j - 32) (image_writes dirty))"

lemma staged_sectors:
  assumes "batch_ok dirty"
  shows "i < 32 \<Longrightarrow> staged txid dirty m (8 + i) =
      slice (render_ctrl (map fst dirty) txid STATE_EMPTY) (i * 512) (i * 512 + 512)"
    and "\<not> (8 \<le> s \<and> s < 40) \<Longrightarrow> staged txid dirty m s = apply_writes m (image_writes (stage_pairs dirty)) s"
proof -
  have len: "length (map fst dirty) \<le> JCAP" using assms by (simp add: batch_ok_def)
  have l: "take 32 (ctrl_writes (render_ctrl (map fst dirty) txid STATE_EMPTY)) =
    ctrl_writes (render_ctrl (map fst dirty) txid STATE_EMPTY)"
    by (simp add: ctrl_writes_flat length_render_ctrl[OF len])
  note w = apply_ctrl_writes[OF len, of "apply_writes m (image_writes (stage_pairs dirty))" 32 txid STATE_EMPTY,
      unfolded l]
  show "i < 32 \<Longrightarrow> staged txid dirty m (8 + i) =
      slice (render_ctrl (map fst dirty) txid STATE_EMPTY) (i * 512) (i * 512 + 512)"
    by (simp add: staged_def w)
  show "\<not> (8 \<le> s \<and> s < 40) \<Longrightarrow> staged txid dirty m s = apply_writes m (image_writes (stage_pairs dirty)) s"
    by (auto simp: staged_def w)
qed

lemma installing_state:
  assumes ok: "batch_ok dirty" and j: "1 \<le> j"
  shows "ctrl_at (installing txid dirty m j) = render_ctrl (map fst dirty) txid STATE_COMMITTED"
    and "i < length dirty \<Longrightarrow> page_at (installing txid dirty m j) (JDATA_START_PAGE + i) = snd (dirty ! i)"
    and "home s \<Longrightarrow> installing txid dirty m j s = apply_writes m (take (j - 32) (image_writes dirty)) s"
proof -
  let ?r = "render_ctrl (map fst dirty) txid STATE_COMMITTED" and ?S = "image_writes (stage_pairs dirty)"
  let ?m = "apply_writes (staged txid dirty m) (take j (ctrl_writes ?r))"
  have len: "length (map fst dirty) \<le> JCAP" using ok by (simp add: batch_ok_def)
  have journal: "installing txid dirty m j s = ?m s" if "8 \<le> s" "s < 16392" for s
    unfolding installing_def using journal_not_home[OF that] by (rule home_frame[OF ok])
  show "ctrl_at (installing txid dirty m j) = ?r"
  proof (rule ctrl_at_render[OF length_render_ctrl[OF len]])
    fix i :: nat assume i: "i < 32"
    with j journal[of "8 + i"] staged_sectors(1)[OF ok i]
      render_tail[OF len, of i txid STATE_EMPTY txid STATE_COMMITTED]
    show "installing txid dirty m j (8 + i) = slice ?r (i * 512) (i * 512 + 512)"
      by (cases "i = 0") (auto simp: apply_ctrl_writes[OF len])
  qed
  show "page_at (installing txid dirty m j) (JDATA_START_PAGE + i) = snd (dirty ! i)" if i: "i < length dirty"
  proof -
    have "installing txid dirty m j s = apply_writes m ?S s" if "40 \<le> s" "s < 16392" for s
      using that journal[of s] staged_sectors(2)[OF ok, of s] ctrl_frame[OF len, of s] by simp
    then show ?thesis
      using page_at_journal_cong[of "installing txid dirty m j" "apply_writes m ?S" i]
        staged_images[OF ok i] i len by simp
  qed
  show "home s \<Longrightarrow> installing txid dirty m j s = apply_writes m (take (j - 32) (image_writes dirty)) s"
    unfolding installing_def
  proof (rule apply_writes_cong)
    assume "home s"
    then have "\<not> (8 \<le> s \<and> s < 40)" "apply_writes m ?S s = m s"
      using home_not_journal[of s] stage_frame[of dirty s m "length ?S"] len by auto
    then show "?m s = m s" using staged_sectors(2)[OF ok, of s] by (auto simp: apply_ctrl_writes[OF len])
  qed
qed

text \<open>After the first sector of the second control write the transaction is committed, and it
  stays so until the first sector of the last one.\<close>

lemma commit_cut_after:
  fixes txid :: nat and m :: disk
  assumes ok: "batch_ok dirty" and txid: "txid < 2 ^ 64"
    and k: "length (image_writes (stage_pairs dirty)) + 32 < k"
  defines "m' \<equiv> apply_writes m (take k (commit_writes txid dirty))"
  shows "set (pending m') \<subseteq> fst ` set dirty"
    "home s \<Longrightarrow> view m' s = apply_writes m (image_writes dirty) s"
    "length (commit_writes txid dirty) \<le> k \<Longrightarrow> \<not> committed m'"
proof -
  define j where "j = k - length (image_writes (stage_pairs dirty)) - 32"
  define e where "e = j - 32 - length (image_writes dirty)"
  let ?m = "installing txid dirty m j" and ?E = "render_ctrl (map fst dirty) txid STATE_EMPTY"
  have len: "length (map fst dirty) \<le> JCAP" using ok by (simp add: batch_ok_def)
  have lenC: "length (ctrl_writes (render_ctrl (map fst dirty) txid st)) = 32" for st
    by (simp add: ctrl_writes_flat length_render_ctrl[OF len])
  have m': "m' = apply_writes ?m (take e (ctrl_writes ?E))"
    unfolding m'_def commit_writes_def installing_def staged_def j_def e_def
    using k lenC by (simp add: diff_diff_left ac_simps)
  have j: "1 \<le> j" using k by (simp add: j_def)
  note st = installing_state[OF ok j, where txid = txid and m = m]
  note inst = view_installed[OF ok txid st]
  have released: "\<not> committed m'" if "e > 0"
    by (rule header_empty[OF _ len]) (use that in \<open>simp add: m' apply_ctrl_writes[OF len]\<close>)
  show "set (pending m') \<subseteq> fst ` set dirty"
    using inst(1) released by (cases "e = 0") (auto simp: m' pending_def)
  show "view m' s = apply_writes m (image_writes dirty) s" if "home s"
  proof (cases "e = 0")
    case True
    then show ?thesis using inst(2)[OF _ _ that] by (simp add: m')
  next
    case False
    then have "view m' s = ?m s"
      using view_clean[OF released] ctrl_home_frame[OF len that] by (simp add: m')
    then show ?thesis using False st(3)[OF that] by (simp add: e_def)
  qed
  show "length (commit_writes txid dirty) \<le> k \<Longrightarrow> \<not> committed m'"
    using released lenC by (simp add: commit_writes_def j_def e_def)
qed

section \<open>A recovery cut at any point\<close>

definition recover_writes :: "disk \<Rightarrow> sector_write list" where
  "recover_writes m = (if committed m then
     image_writes (redo_pairs m) @ ctrl_writes (render_ctrl (pending m) 0 STATE_EMPTY) else [])"

lemma recover_cut:
  fixes m :: disk and k :: nat
  assumes "\<forall>p \<in> set (pending m). home_page p"
  defines "m' \<equiv> apply_writes m (take k (recover_writes m))"
  shows "home s \<Longrightarrow> view m' s = view m s" "set (pending m') \<subseteq> set (pending m)"
    "length (recover_writes m) \<le> k \<Longrightarrow> \<not> committed m'"
proof -
  let ?R = "image_writes (redo_pairs m)"
  let ?E = "ctrl_writes (render_ctrl (pending m) 0 STATE_EMPTY)"
  let ?j = "k - length ?R"
  define m1 where "m1 = apply_writes m (take k ?R)"
  note len = length_pending[of m]
  have lenE: "length ?E = 32" by (simp add: ctrl_writes_flat length_render_ctrl[OF len])
  have m': "m' = (if committed m then apply_writes m1 (take ?j ?E) else m)"
    unfolding m'_def recover_writes_def m1_def by simp
  have fst_redo: "fst ` set (redo_pairs m) = set (pending m)"
  proof -
    have "map fst (redo_pairs m) = pending m"
      by (rule nth_equalityI) (simp_all add: redo_pairs_def nth_enumerate_eq)
    then show ?thesis by (metis list.set_map)
  qed
  have frame: "m1 s = m s" if "8 \<le> s" "s < 16392" for s
    unfolding m1_def
  proof (rule apply_writes_frame)
    have "s \<notin> fst ` set ?R"
      using journal_not_home[OF that] assms(1) by (auto simp: set_image_writes fst_redo home_def)
    then show "s \<notin> fst ` set (take k ?R)" by (auto dest: in_set_takeD)
  qed
  have v1: "view m1 = view m"
  proof -
    have "redo_pairs m1 = redo_pairs m" using frame by (intro redo_pairs_cong)
    then show ?thesis by (simp add: view_def m1_def apply_writes_redo)
  qed
  have p1: "pending m1 = pending m" "committed m1 = committed m"
    using frame by (intro pending_cong committed_cong ctrl_at_cong; simp)+
  have released: "\<not> committed m'" if "committed m" "?j > 0"
  proof (rule header_empty[OF _ len])
    show "m' 8 = slice (render_ctrl (pending m) 0 STATE_EMPTY) 0 512"
      unfolding m' using that by (simp add: apply_ctrl_writes[OF len])
  qed
  show "home s \<Longrightarrow> view m' s = view m s"
  proof (cases "committed m \<and> ?j > 0")
    case True
    then have "m1 = view m" by (simp add: m1_def view_def)
    with True show "home s \<Longrightarrow> ?thesis"
      using view_clean[OF released] ctrl_home_frame[OF len] by (simp add: m')
  next
    case False
    then show "home s \<Longrightarrow> ?thesis" using v1 by (auto simp: m')
  qed
  show "set (pending m') \<subseteq> set (pending m)"
    using released p1 by (cases "committed m \<and> ?j > 0") (auto simp: m' pending_def)
  show "length (recover_writes m) \<le> k \<Longrightarrow> \<not> committed m'"
    using released lenE by (cases "committed m") (simp_all add: recover_writes_def m')
qed

section \<open>The operations on a device\<close>

lemma mapM_pure: "(\<And>x. x \<in> set xs \<Longrightarrow> f x s = Some (Inr (g x), s)) \<Longrightarrow> mapM xs f s = Some (Inr (map g xs), s)"
  by (induction xs) (simp_all add: run_simps)

lemma forM_map: "forM (map g xs) f = forM xs (\<lambda>x. f (g x))"
  by (induction xs) simp_all

text \<open>A page is on the device when its eight sectors are.\<close>

definition on_device :: "nat \<Rightarrow> nat \<Rightarrow> bool" where
  "on_device n p \<longleftrightarrow> p * PAGE_SECTORS + PAGE_SECTORS \<le> n"

definition batch_fits :: "nat \<Rightarrow> (nat \<times> byte list) list \<Rightarrow> bool" where
  "batch_fits n dirty \<longleftrightarrow> batch_ok dirty \<and> FIRST_DATA_PAGE * PAGE_SECTORS \<le> n \<and> (\<forall>(p, img) \<in> set dirty. on_device n p)"

text \<open>\<open>redo_fits n m\<close>: a committed transaction, if there is one, targets home pages of the device.\<close>

definition redo_fits :: "nat \<Rightarrow> disk \<Rightarrow> bool" where
  "redo_fits n m \<longleftrightarrow> FIRST_DATA_PAGE * PAGE_SECTORS \<le> n \<and> (\<forall>p \<in> set (pending m). home_page p \<and> on_device n p)"

text \<open>
  The abstract volume: page contents after redo. A transaction replaces the pages of its batch; of
  several images of one page the last counts.
\<close>

definition volume :: "disk \<Rightarrow> nat \<Rightarrow> byte list" where
  "volume m = page_at (view m)"

definition install :: "(nat \<times> byte list) list \<Rightarrow> (nat \<Rightarrow> byte list) \<Rightarrow> nat \<Rightarrow> byte list" where
  "install dirty v p = (case map_of (rev dirty) p of None \<Rightarrow> v p | Some img \<Rightarrow> img)"

lemma journal_on_device:
  "FIRST_DATA_PAGE * PAGE_SECTORS \<le> n \<Longrightarrow> p < FIRST_DATA_PAGE \<Longrightarrow> on_device n p"
  by (simp add: on_device_def layout_vals)

context block_device
begin

text \<open>
  \<open>performs b m d x ws\<close>: run on \<open>d\<close>, the action \<open>m\<close> puts a prefix of the writes \<open>ws\<close> on the medium;
  if the device still has power afterwards, all of them, and the result is \<open>x\<close>. With the flag \<open>b\<close>, a
  successful result implies that the device still has power.
\<close>

definition performs :: "bool \<Rightarrow> ('d, 'a) act \<Rightarrow> 'd \<Rightarrow> 'a \<Rightarrow> sector_write list \<Rightarrow> bool" where
  "performs b m d x ws \<longleftrightarrow> (\<exists>r d' k. m d = Some (r, d') \<and> good d' \<and>
     sector_count ops d' = sector_count ops d \<and> k \<le> length ws \<and>
     media d' = apply_writes (media d) (take k ws) \<and> (r = Inr x \<or> r = Inl Io) \<and>
     (live d' \<longrightarrow> live d \<and> r = Inr x \<and> k = length ws) \<and> (\<not> live d \<longrightarrow> k = 0) \<and>
     (b \<and> r = Inr x \<longrightarrow> live d'))"

lemma performs_bind:
  assumes m: "performs b m d x ws"
    and k: "\<And>d' j. good d' \<Longrightarrow> sector_count ops d' = sector_count ops d \<Longrightarrow>
      media d' = apply_writes (media d) (take j ws) \<Longrightarrow> performs c (k x) d' y vs"
  shows "performs c (bindM m k) d y (ws @ vs)"
proof -
  from m obtain r d' j where 1: "m d = Some (r, d')" "good d'" "sector_count ops d' = sector_count ops d"
    "j \<le> length ws" "media d' = apply_writes (media d) (take j ws)" "r = Inr x \<or> r = Inl Io"
    "live d' \<Longrightarrow> live d \<and> r = Inr x \<and> j = length ws" "\<not> live d \<Longrightarrow> j = 0"
    unfolding performs_def by blast
  show ?thesis
  proof (cases "r = Inr x")
    case True
    from k[OF 1(2,3,5)] obtain q d'' i where 2: "k x d' = Some (q, d'')" "good d''"
      "sector_count ops d'' = sector_count ops d'" "i \<le> length vs"
      "media d'' = apply_writes (media d') (take i vs)" "q = Inr y \<or> q = Inl Io"
      "live d'' \<Longrightarrow> live d' \<and> q = Inr y \<and> i = length vs" "\<not> live d' \<Longrightarrow> i = 0" "c \<and> q = Inr y \<Longrightarrow> live d''"
      unfolding performs_def by blast
    have run: "bindM m k d = Some (q, d'')" using 1(1) 2(1) True by (simp add: run_simps)
    have "take (j + i) (ws @ vs) = take j ws @ take i vs"
      using 1(4,7) 2(8) by (cases "live d'") auto
    then have "media d'' = apply_writes (media d) (take (j + i) (ws @ vs))"
      using 1(5) 2(5) by simp
    then show ?thesis
      unfolding performs_def using run 1 2
      by (intro exI[of _ q] exI[of _ d''] exI[of _ "j + i"]) auto
  next
    case False
    then have r: "r = Inl Io" using 1(6) by blast
    then have "\<not> live d'" using 1(7) by blast
    moreover have "bindM m k d = Some (Inl Io, d')" using 1(1) r by (simp add: run_simps)
    ultimately show ?thesis
      unfolding performs_def using 1
      by (intro exI[of _ "Inl Io"] exI[of _ d'] exI[of _ j]) auto
  qed
qed

lemma performs_return: "good d \<Longrightarrow> performs False (returnM x) d x []"
  by (simp add: performs_def)

lemma performs_map:
  assumes "performs b m d x ws"
  shows "performs b (bindM m (\<lambda>_. returnM y)) d y ws"
proof -
  from assms obtain r d' k where "m d = Some (r, d')" and rest: "good d'"
    "sector_count ops d' = sector_count ops d" "k \<le> length ws"
    "media d' = apply_writes (media d) (take k ws)" "r = Inr x \<or> r = Inl Io"
    "live d' \<Longrightarrow> live d \<and> r = Inr x \<and> k = length ws" "\<not> live d \<Longrightarrow> k = 0" "b \<and> r = Inr x \<Longrightarrow> live d'"
    unfolding performs_def by blast
  then have "bindM m (\<lambda>_. returnM y) d = Some (map_sum id (\<lambda>_. y) r, d')" by (auto simp: run_simps)
  with rest show ?thesis
    unfolding performs_def
    by (intro exI[of _ "map_sum id (\<lambda>_. y) r"] exI[of _ d'] exI[of _ k]) auto
qed

lemma performs_flush: "good d \<Longrightarrow> performs True (flush ops) d () []"
  by (simp add: performs_def flush_ok)

lemma performs_write_sector:
  assumes "good d" "lba < sector_count ops d" "length buf = SECTOR"
  shows "performs False (write_sector ops lba buf) d () [(lba, buf)]"
proof -
  from write_ok[OF assms] obtain d' where d': "write_sector ops lba buf d = Some (Inr (), d')" "good d'"
    "sector_count ops d' = sector_count ops d"
    "media d' = (if live d then (media d)(lba := buf) else media d)" "live d' \<longrightarrow> live d" by blast
  then show ?thesis
    unfolding performs_def
    by (intro exI[of _ "Inr ()"] exI[of _ d'] exI[of _ "if live d then 1 else 0"]) auto
qed

text \<open>A loop of write actions, with an invariant of the medium.\<close>

lemma performs_forM:
  assumes "good d" "Q (media d)"
    and "\<And>x d'. x \<in> set xs \<Longrightarrow> good d' \<Longrightarrow> sector_count ops d' = sector_count ops d \<Longrightarrow> Q (media d') \<Longrightarrow>
      performs False (f x) d' () (w x)"
    and "\<And>x m k. x \<in> set xs \<Longrightarrow> Q m \<Longrightarrow> Q (apply_writes m (take k (w x)))"
  shows "performs False (forM xs f) d () (concat (map w xs))"
  using assms
proof (induction xs arbitrary: d)
  case Nil
  show ?case unfolding forM.simps list.map concat.simps using Nil(1) by (rule performs_return)
next
  case (Cons x xs)
  have "performs False (f x) d () (w x)" by (rule Cons.prems(3)) (simp_all add: Cons.prems)
  then have "performs False (bindM (f x) (\<lambda>_. forM xs f)) d () (w x @ concat (map w xs))"
  proof (rule performs_bind)
    fix d' j assume d': "good d'" "sector_count ops d' = sector_count ops d"
      "media d' = apply_writes (media d) (take j (w x))"
    show "performs False (forM xs f) d' () (concat (map w xs))"
      by (rule Cons.IH) (use d' Cons.prems in auto)
  qed
  then show ?case by simp
qed

lemma read_page_ok:
  assumes "good d" "on_device (sector_count ops d) p"
  shows "read_page ops p d = Some (Inr (page_at (media d) p), d)"
proof -
  have "mapM [0..<PAGE_SECTORS] (\<lambda>i. bindM (assertM (p * PAGE_SECTORS + i < 2 ^ 64)) (\<lambda>_.
      read_sector ops (p * PAGE_SECTORS + i) SECTOR)) d =
    Some (Inr (map (\<lambda>i. media d (p * PAGE_SECTORS + i)) [0..<PAGE_SECTORS]), d)"
    using assms count_bound[OF assms(1)] by (intro mapM_pure) (simp add: on_device_def read_ok)
  then show ?thesis by (simp add: read_page_def page_at_def run_simps)
qed

lemma length_page_at:
  assumes "good d" "on_device (sector_count ops d) p"
  shows "length (page_at (media d) p) = PAGE"
proof -
  have "map (length \<circ> (\<lambda>i. media d (p * PAGE_SECTORS + i))) [0..<PAGE_SECTORS] = replicate PAGE_SECTORS SECTOR"
    using assms by (intro nth_equalityI) (simp_all add: media_length on_device_def)
  then show ?thesis by (simp add: page_at_def length_concat sum_list_replicate layout_vals)
qed

lemma performs_write_page:
  assumes "good d" "on_device (sector_count ops d) p" "length img = PAGE"
  shows "performs False (write_page ops p img) d () (page_writes p img)"
proof -
  have "performs False (forM [0..<PAGE_SECTORS] (\<lambda>i.
       bindM (assertM (p * PAGE_SECTORS + i < 2 ^ 64)) (\<lambda>_.
       write_sector ops (p * PAGE_SECTORS + i) (slice img (i * SECTOR) (i * SECTOR + SECTOR))))) d ()
     (concat (map (\<lambda>i. [(p * PAGE_SECTORS + i, slice img (i * SECTOR) (i * SECTOR + SECTOR))]) [0..<PAGE_SECTORS]))"
    (is "performs _ (forM _ ?f) _ _ (concat (map ?w _))")
  proof (rule performs_forM[where Q = "\<lambda>_. True"])
    fix i d' assume i: "i \<in> set [0..<PAGE_SECTORS]"
      and d': "good d'" "sector_count ops d' = sector_count ops d"
    then have b: "p * PAGE_SECTORS + i < sector_count ops d'" using assms(2) by (simp add: on_device_def)
    then have f: "?f i = write_sector ops (p * PAGE_SECTORS + i) (slice img (i * SECTOR) (i * SECTOR + SECTOR))"
      using count_bound[OF d'(1)] by (simp add: assertM_def)
    have "length (slice img (i * SECTOR) (i * SECTOR + SECTOR)) = SECTOR"
      using i assms(3) by (simp add: layout_vals)
    then show "performs False (?f i) d' () (?w i)"
      unfolding f by (rule performs_write_sector[OF d'(1) b])
  qed (simp_all add: assms)
  moreover have "concat (map ?w [0..<PAGE_SECTORS]) = page_writes p img"
    by (simp add: page_writes_def concat_map_singleton)
  ultimately show ?thesis using assms(3) by (simp add: write_page_def assertM_def)
qed

lemma performs_images:
  assumes "good d" "\<forall>(p, img) \<in> set prs. on_device (sector_count ops d) p \<and> length img = PAGE"
  shows "performs False (forM prs (\<lambda>(p, img). write_page ops p img)) d () (image_writes prs)"
  unfolding image_writes_def
  by (rule performs_forM[where Q = "\<lambda>_. True"]) (use assms in \<open>auto simp: performs_write_page\<close>)

lemma performs_ctrl:
  assumes "good d" "FIRST_DATA_PAGE * PAGE_SECTORS \<le> sector_count ops d" "length buf = 16384"
  shows "performs False (write_ctrl ops buf) d () (ctrl_writes buf)"
  unfolding write_ctrl_def ctrl_writes_def
proof (rule performs_forM[where Q = "\<lambda>_. True"])
  fix p d' assume p: "p \<in> set [0..<JCTRL_PAGES]"
    and d': "good d'" "sector_count ops d' = sector_count ops d"
  then show "performs False (write_page ops (1 + p) (slice buf (p * PAGE) (p * PAGE + PAGE))) d' ()
      (page_writes (1 + p) (slice buf (p * PAGE) (p * PAGE + PAGE)))"
    using assms(2,3) by (intro performs_write_page journal_on_device) (simp_all add: layout_vals)
qed (simp_all add: assms)

lemma performs_ctrl_flush:
  assumes "good d" "FIRST_DATA_PAGE * PAGE_SECTORS \<le> sector_count ops d" "length es \<le> JCAP"
  shows "performs True (bindM (write_ctrl ops (render_ctrl es txid st)) (\<lambda>_. flush ops)) d ()
    (ctrl_writes (render_ctrl es txid st))"
  using performs_bind[OF performs_ctrl[OF assms(1,2) length_render_ctrl[OF assms(3)]] performs_flush] by simp

lemma performs_flush_ctrl:
  assumes "good d" "FIRST_DATA_PAGE * PAGE_SECTORS \<le> sector_count ops d" "length es \<le> JCAP"
  shows "performs True (bindM (flush ops) (\<lambda>_. bindM (write_ctrl ops (render_ctrl es txid st)) (\<lambda>_. flush ops))) d ()
    (ctrl_writes (render_ctrl es txid st))"
proof -
  have "performs True (bindM (flush ops) (\<lambda>_. bindM (write_ctrl ops (render_ctrl es txid st)) (\<lambda>_. flush ops))) d ()
    ([] @ ctrl_writes (render_ctrl es txid st))"
    by (rule performs_bind[OF performs_flush[OF assms(1)]], rule performs_ctrl_flush) (use assms in simp_all)
  then show ?thesis by simp
qed

lemma read_ctrl_ok:
  assumes "good d" "FIRST_DATA_PAGE * PAGE_SECTORS \<le> sector_count ops d"
  shows "read_ctrl ops d = Some (Inr (parse_ctrl (ctrl_at (media d))), d)"
proof -
  have "mapM [0..<JCTRL_PAGES] (\<lambda>p. read_page ops (1 + p)) d =
    Some (Inr (map (\<lambda>p. page_at (media d) (1 + p)) [0..<JCTRL_PAGES]), d)"
    using assms by (intro mapM_pure read_page_ok journal_on_device) (simp_all add: layout_vals)
  then show ?thesis by (simp add: read_ctrl_def ctrl_at_def run_simps)
qed

text \<open>\<open>commit\<close> and \<open>recover\<close> perform the write sequences analysed above.\<close>

lemma performs_commit:
  assumes "good d" "batch_fits (sector_count ops d) dirty"
  shows "performs True (commit ops txid dirty) d () (commit_writes txid dirty)"
proof -
  let ?E = "render_ctrl (map fst dirty) txid STATE_EMPTY" and ?C = "render_ctrl (map fst dirty) txid STATE_COMMITTED"
  let ?n = "sector_count ops d"
  have fits: "FIRST_DATA_PAGE * PAGE_SECTORS \<le> ?n" "length dirty \<le> JCAP"
    "\<forall>(p, img) \<in> set dirty. on_device ?n p \<and> length img = PAGE"
    using assms(2) by (auto simp: batch_fits_def batch_ok_def)
  have stage: "\<forall>(p, img) \<in> set (stage_pairs dirty). on_device ?n p \<and> length img = PAGE"
    using fits by (fastforce simp: stage_pairs_def in_set_enumerate_eq layout_vals on_device_def dest: nth_mem)
  have eq: "commit ops txid dirty =
    bindM (forM (stage_pairs dirty) (\<lambda>(p, img). write_page ops p img)) (\<lambda>_.
    bindM (bindM (write_ctrl ops ?E) (\<lambda>_. flush ops)) (\<lambda>_.
    bindM (bindM (write_ctrl ops ?C) (\<lambda>_. flush ops)) (\<lambda>_.
    bindM (forM dirty (\<lambda>(p, img). write_page ops p img)) (\<lambda>_.
    bindM (flush ops) (\<lambda>_.
    bindM (write_ctrl ops ?E) (\<lambda>_. flush ops))))))"
    using fits(2) by (simp add: commit_def Let_def stage_pairs_def forM_map case_prod_unfold bindM_assoc)
  show ?thesis
    unfolding eq commit_writes_def
    by (rule performs_bind performs_images performs_ctrl_flush performs_flush_ctrl | simp add: assms(1) fits stage)+
qed

lemma performs_redo:
  assumes "good d" "redo_fits (sector_count ops d) (media d)"
  shows "performs False (forM (enumerate 0 (pending (media d))) (\<lambda>(i, target).
      bindM (read_page ops (JDATA_START_PAGE + i)) (\<lambda>page. write_page ops target page))) d ()
    (image_writes (redo_pairs (media d)))"
    (is "performs False (forM ?xs ?f) d () _")
proof -
  define Q where "Q = (\<lambda>m. \<forall>i < JCAP. page_at m (JDATA_START_PAGE + i) = page_at (media d) (JDATA_START_PAGE + i))"
  define w where "w = (\<lambda>(i, t). page_writes t (page_at (media d) (JDATA_START_PAGE + i)))"
  have x: "i < JCAP" "home_page t" "on_device (sector_count ops d) t"
    "on_device (sector_count ops d) (JDATA_START_PAGE + i)" if "(i, t) \<in> set ?xs" for i t
  proof -
    from that have it: "i < length (pending (media d))" "t \<in> set (pending (media d))"
      by (auto simp: in_set_enumerate_eq)
    then show i: "i < JCAP" using length_pending[of "media d"] by linarith
    show "home_page t" "on_device (sector_count ops d) t" using it assms(2) by (simp_all add: redo_fits_def)
    show "on_device (sector_count ops d) (JDATA_START_PAGE + i)"
      using assms(2) i by (intro journal_on_device) (simp_all add: redo_fits_def FIRST_DATA_PAGE_def JDATA_PAGES_def)
  qed
  have "performs False (forM ?xs ?f) d () (concat (map w ?xs))"
  proof (rule performs_forM[where Q = Q])
    show "good d" "Q (media d)" using assms by (simp_all add: Q_def)
  next
    fix it d' assume a: "it \<in> set ?xs" "good d'" "sector_count ops d' = sector_count ops d" "Q (media d')"
    obtain i t where it: "it = (i, t)" by (cases it)
    have r: "read_page ops (JDATA_START_PAGE + i) d' = Some (Inr (page_at (media d) (JDATA_START_PAGE + i)), d')"
      using read_page_ok[OF a(2)] x[of i t] a by (simp add: it Q_def)
    have "performs False (write_page ops t (page_at (media d) (JDATA_START_PAGE + i))) d' () (w it)"
      using performs_write_page[OF a(2)] length_page_at[OF assms(1)] x[of i t] a by (simp add: it w_def)
    then show "performs False (?f it) d' () (w it)"
      using r by (simp add: it performs_def run_simps)
  next
    fix it m k assume a: "it \<in> set ?xs" "Q m"
    obtain i t where it: "it = (i, t)" by (cases it)
    show "Q (apply_writes m (take k (w it)))"
      unfolding Q_def
    proof (intro allI impI)
      fix j assume j: "j < JCAP"
      have "page_at (apply_writes m (take k (w it))) (JDATA_START_PAGE + j) = page_at m (JDATA_START_PAGE + j)"
        using j x(2)[of i t] a(1)
        by (intro page_at_cong apply_writes_frame)
           (auto simp: it w_def home_page_def layout_vals dest!: in_set_takeD dest: page_writes_sector)
      then show "page_at (apply_writes m (take k (w it))) (JDATA_START_PAGE + j) =
        page_at (media d) (JDATA_START_PAGE + j)" using a(2) j by (simp add: Q_def)
    qed
  qed
  moreover have "image_writes (redo_pairs (media d)) = concat (map w ?xs)"
    by (simp add: image_writes_def redo_pairs_def w_def o_def case_prod_unfold)
  ultimately show ?thesis by simp
qed

lemma performs_recover:
  assumes "good d" "redo_fits (sector_count ops d) (media d)"
  shows "performs (committed (media d)) (recover ops) d (committed (media d)) (recover_writes (media d))"
proof (cases "committed (media d)")
  case False
  then have "recover ops d = Some (Inr False, d)"
    using read_ctrl_ok[of d] assms
    by (auto simp: recover_def committed_def run_simps redo_fits_def split: option.splits)
  with False assms(1) show ?thesis by (simp add: performs_def recover_writes_def)
next
  case True
  let ?p = "pending (media d)" and ?n = "sector_count ops d"
  have n: "FIRST_DATA_PAGE * PAGE_SECTORS \<le> ?n" using assms(2) by (simp add: redo_fits_def)
  let ?loop = "forM (enumerate 0 ?p) (\<lambda>(i, target).
      bindM (read_page ops (JDATA_START_PAGE + i)) (\<lambda>page. write_page ops target page))"
  let ?E = "render_ctrl ?p 0 STATE_EMPTY"
  have eq: "recover ops d = bindM (bindM ?loop (\<lambda>_. bindM (flush ops) (\<lambda>_.
    bindM (write_ctrl ops ?E) (\<lambda>_. flush ops)))) (\<lambda>_. returnM True) d"
    using read_ctrl_ok[OF assms(1) n] True
    by (auto simp: recover_def run_simps committed_def pending_def bindM_assoc split: option.splits)
  have "performs True (bindM ?loop (\<lambda>_. bindM (flush ops) (\<lambda>_. bindM (write_ctrl ops ?E) (\<lambda>_. flush ops)))) d ()
    (recover_writes (media d))"
    unfolding recover_writes_def using True
    by simp (intro performs_bind[OF performs_redo[OF assms]] performs_flush_ctrl, simp_all add: n length_pending)
  from performs_map[OF this, of True] show ?thesis using True eq by (simp add: performs_def)
qed

text \<open>The refinement: a commit is atomic on the volume, a recovery keeps it.\<close>

lemma commit_atomic:
  assumes "good d" "\<not> committed (media d)" "batch_fits (sector_count ops d) dirty" "txid < 2 ^ 64"
  shows "\<exists>r d'. commit ops txid dirty d = Some (r, d') \<and> good d' \<and> sector_count ops d' = sector_count ops d \<and>
    redo_fits (sector_count ops d) (media d') \<and>
    ((\<forall>p. home_page p \<longrightarrow> volume (media d') p = volume (media d) p) \<and> r \<noteq> Inr () \<or>
     (\<forall>p. home_page p \<longrightarrow> volume (media d') p = install dirty (volume (media d)) p)) \<and>
    (r = Inr () \<longrightarrow> live d' \<and> \<not> committed (media d')) \<and> (live d' \<longrightarrow> r = Inr ())"
proof -
  have ok: "batch_ok dirty" and fits: "\<forall>p \<in> fst ` set dirty. home_page p \<and> on_device (sector_count ops d) p"
    and n: "FIRST_DATA_PAGE * PAGE_SECTORS \<le> sector_count ops d"
    using assms(3) by (auto simp: batch_fits_def batch_ok_def)
  from performs_commit[OF assms(1,3), of txid] obtain r d' k where
    run: "commit ops txid dirty d = Some (r, d')" "good d'" "sector_count ops d' = sector_count ops d"
    and k: "k \<le> length (commit_writes txid dirty)" "media d' = apply_writes (media d) (take k (commit_writes txid dirty))"
    and r: "live d' \<longrightarrow> r = Inr () \<and> k = length (commit_writes txid dirty)" "r = Inr () \<longrightarrow> live d'"
    unfolding performs_def by blast
  have v: "volume (media d) p = page_at (media d) p" for p
    by (simp add: volume_def view_clean[OF assms(2)])
  show ?thesis
  proof (cases "k \<le> length (image_writes (stage_pairs dirty)) + 32")
    case True
    note b = commit_cut_before[OF ok assms(2) True, where txid = txid, folded k(2)]
    have "r \<noteq> Inr ()" using r True by (auto simp: commit_writes_def ctrl_writes_flat length_render_ctrl ok[unfolded batch_ok_def])
    moreover have "volume (media d') p = volume (media d) p" if "home_page p" for p
    proof -
      have "page_at (media d') p = page_at (media d) p"
        using b(2) that by (intro page_at_cong) (simp add: home_def)
      then show ?thesis by (simp add: v) (simp add: volume_def view_clean[OF b(1)])
    qed
    moreover have "redo_fits (sector_count ops d) (media d')" using b(1) n by (simp add: redo_fits_def pending_def)
    ultimately show ?thesis using run r by blast
  next
    case False
    then have k': "length (image_writes (stage_pairs dirty)) + 32 < k" by simp
    note a = commit_cut_after[OF ok assms(4) k', where m = "media d", folded k(2)]
    have "volume (media d') p = install dirty (volume (media d)) p" if "home_page p" for p
    proof -
      have "volume (media d') p = page_at (apply_writes (media d) (image_writes dirty)) p"
        unfolding volume_def using a(2) that by (intro page_at_cong) (simp add: home_def)
      moreover have "\<forall>(p, img) \<in> set dirty. length img = PAGE" using ok by (auto simp: batch_ok_def)
      ultimately show ?thesis using page_at_images[of dirty "media d" p] 
        by (cases "map_of (rev dirty) p") (simp_all add: install_def v)
    qed
    moreover have "redo_fits (sector_count ops d) (media d')" using a(1) fits n by (auto simp: redo_fits_def)
    moreover have "r = Inr () \<longrightarrow> \<not> committed (media d')" using a(3) r by auto
    ultimately show ?thesis using run r by blast
  qed
qed

lemma recover_keeps_volume:
  assumes "good d" "redo_fits (sector_count ops d) (media d)"
  shows "\<exists>r d'. recover ops d = Some (r, d') \<and> good d' \<and> sector_count ops d' = sector_count ops d \<and>
    redo_fits (sector_count ops d) (media d') \<and>
    (\<forall>p. home_page p \<longrightarrow> volume (media d') p = volume (media d) p) \<and>
    (live d' \<longrightarrow> live d \<and> r = Inr (committed (media d)) \<and> \<not> committed (media d'))"
proof -
  from performs_recover[OF assms] obtain r d' k where
    run: "recover ops d = Some (r, d')" "good d'" "sector_count ops d' = sector_count ops d"
    and k: "media d' = apply_writes (media d) (take k (recover_writes (media d)))"
    and r: "live d' \<longrightarrow> live d \<and> r = Inr (committed (media d)) \<and> k = length (recover_writes (media d))"
    unfolding performs_def by blast
  have home: "\<forall>p \<in> set (pending (media d)). home_page p" using assms(2) by (simp add: redo_fits_def)
  note c = recover_cut[OF home, where k = k, folded k]
  have "volume (media d') p = volume (media d) p" if "home_page p" for p
    unfolding volume_def using c(1) that by (intro page_at_cong) (simp add: home_def)
  moreover have "redo_fits (sector_count ops d) (media d')" using c(2) assms(2) by (auto simp: redo_fits_def)
  ultimately show ?thesis using run r c(3) by blast
qed

end

section \<open>Power cuts of the RAM disk\<close>

text \<open>
  \<open>reboot c d\<close>: the snapshot of \<open>d\<close> is attached again, with a power cut after \<open>c\<close> more sector
  writes if \<open>c\<close> is given, and recovered. \<open>reboots cs d\<close> does so for each of the cuts \<open>cs\<close>.
\<close>

definition reboot :: "nat option \<Rightarrow> mem_dev \<Rightarrow> (bool result \<times> mem_dev) option" where
  "reboot c d = recover mem_ops (from_snapshot (snapshot d)\<lparr>cut_after := c\<rparr>)"

fun reboots :: "nat option list \<Rightarrow> mem_dev \<Rightarrow> mem_dev option" where
  "reboots [] d = Some d"
| "reboots (c # cs) d = (case reboot c d of None \<Rightarrow> None | Some (r, d') \<Rightarrow> reboots cs d')"

text \<open>Without a cut the power stays on: an invariant of every action built from the device operations.\<close>

definition uncut :: "(mem_dev, 'a) act \<Rightarrow> bool" where
  "uncut m \<longleftrightarrow> (\<forall>d r d'. m d = Some (r, d') \<and> cut_after d = None \<longrightarrow>
    cut_after d' = None \<and> powered d' = powered d \<and> length (data d') = length (data d))"

lemma uncut_bind: "uncut m \<Longrightarrow> (\<And>x. uncut (k x)) \<Longrightarrow> uncut (bindM m k)"
  unfolding uncut_def bindM_eq_Some by (metis (no_types))

lemma uncut_basic [simp]: "uncut (returnM x)" "uncut (assertM b)" "uncut (flush mem_ops)"
  "uncut (read_sector mem_ops lba n)" "uncut (write_sector mem_ops lba buf)"
  by (auto simp: uncut_def mem_ops_def mem_flush_def mem_read_sector_def Let_def split: if_splits
      dest: mem_write_uncut)

lemma uncut_mapM: "(\<And>x. uncut (f x)) \<Longrightarrow> uncut (mapM xs f)"
  by (induction xs) (simp_all add: uncut_bind uncut_basic(1)[unfolded returnM_def] del: run_basic)

lemma uncut_forM: "(\<And>x. uncut (f x)) \<Longrightarrow> uncut (forM xs f)"
  by (induction xs) (simp_all add: uncut_bind del: run_basic)

lemma uncut_branch:
  "uncut m1 \<Longrightarrow> (\<And>x. uncut (m2 x)) \<Longrightarrow> uncut (case c of None \<Rightarrow> m1 | Some x \<Rightarrow> m2 x)"
  "(\<And>x y. uncut (m3 x y)) \<Longrightarrow> uncut (case p of (x, y) \<Rightarrow> m3 x y)"
  "uncut m4 \<Longrightarrow> uncut m5 \<Longrightarrow> uncut (if b then m4 else m5)"
  by (simp_all split: option.split prod.split)

lemma uncut_recover: "uncut (recover mem_ops)"
  unfolding recover_def read_ctrl_def write_ctrl_def read_page_def write_page_def
  by (intro uncut_bind uncut_mapM uncut_forM uncut_branch uncut_basic)

lemma reboot_volume:
  assumes "mem_good d" "redo_fits (sectors d) (mem_media d)"
  shows "\<exists>r d'. reboot c d = Some (r, d') \<and> mem_good d' \<and> sectors d' = sectors d \<and>
    redo_fits (sectors d) (mem_media d') \<and>
    (\<forall>p. home_page p \<longrightarrow> volume (mem_media d') p = volume (mem_media d) p) \<and>
    (powered d' \<longrightarrow> r = Inr (committed (mem_media d)) \<and> \<not> committed (mem_media d')) \<and>
    (c = None \<longrightarrow> powered d')"
proof -
  let ?d = "from_snapshot (snapshot d)\<lparr>cut_after := c\<rparr>"
  note re = reattach[OF assms(1), of c]
  have sc: "sector_count mem_ops d0 = sectors d0" for d0 by (simp add: mem_ops_def)
  from mem.recover_keeps_volume[of ?d] assms re obtain r d' where
    run: "recover mem_ops ?d = Some (r, d')" and rest: "mem_good d'" "sectors d' = sectors d"
    "redo_fits (sectors d) (mem_media d')"
    "\<forall>p. home_page p \<longrightarrow> volume (mem_media d') p = volume (mem_media d) p"
    "powered d' \<longrightarrow> r = Inr (committed (mem_media d)) \<and> \<not> committed (mem_media d')"
    unfolding sc by auto
  moreover have "c = None \<longrightarrow> powered d'"
    using uncut_recover run re(4) unfolding uncut_def by fastforce
  ultimately show ?thesis unfolding reboot_def by blast
qed

lemma reboots_volume:
  assumes "mem_good d" "redo_fits (sectors d) (mem_media d)"
  shows "\<exists>d'. reboots cs d = Some d' \<and> mem_good d' \<and> sectors d' = sectors d \<and>
    redo_fits (sectors d) (mem_media d') \<and>
    (\<forall>p. home_page p \<longrightarrow> volume (mem_media d') p = volume (mem_media d) p)"
  using assms
proof (induction cs arbitrary: d)
  case (Cons c cs)
  from reboot_volume[OF Cons.prems, of c] obtain r d1 where
    1: "reboot c d = Some (r, d1)" "mem_good d1" "sectors d1 = sectors d" "redo_fits (sectors d) (mem_media d1)"
    "\<forall>p. home_page p \<longrightarrow> volume (mem_media d1) p = volume (mem_media d) p" by blast
  from Cons.IH[of d1] 1 show ?case by auto
qed simp

lemma install_redo:
  assumes "mem_good d" "redo_fits (sectors d) (mem_media d)"
  shows "volume (mem_media d) p = install (redo_pairs (mem_media d)) (page_at (mem_media d)) p"
proof -
  have len: "length img = PAGE" if "(t, img) \<in> set (redo_pairs (mem_media d))" for t img
  proof -
    from that obtain i where i: "i < length (pending (mem_media d))" "img = page_at (mem_media d) (JDATA_START_PAGE + i)"
      by (auto simp: redo_pairs_def in_set_enumerate_eq)
    have "i < JCAP" using i(1) length_pending[of "mem_media d"] by simp
    then have "JDATA_START_PAGE + i < FIRST_DATA_PAGE" by (simp add: FIRST_DATA_PAGE_def JDATA_PAGES_def)
    then show ?thesis unfolding i(2) using assms journal_on_device
      by (intro mem.length_page_at) (auto simp: redo_fits_def mem_ops_def)
  qed
  then have "\<forall>(t, img) \<in> set (redo_pairs (mem_media d)). length img = PAGE" by auto
  then show ?thesis
    using page_at_images[of "redo_pairs (mem_media d)" "mem_media d" p]
    by (simp add: volume_def view_def install_def split: option.split)
qed

text \<open>Once recovered with the power on, the disk holds the redone pages, and recovering again, cut or not, changes none of them.\<close>

lemma reboot_installs:
  assumes "mem_good d" "redo_fits (sectors d) (mem_media d)"
  shows "\<exists>redo d'. reboot None d = Some (Inr redo, d') \<and> mem_good d' \<and> redo_fits (sectors d') (mem_media d') \<and> \<not> committed (mem_media d') \<and>
    (\<forall>p. home_page p \<longrightarrow> page_at (mem_media d') p = volume (mem_media d) p)"
proof -
  from reboot_volume[OF assms, of None] obtain redo d' where
    d': "reboot None d = Some (Inr redo, d')" "mem_good d'" "sectors d' = sectors d" "redo_fits (sectors d) (mem_media d')"
      "\<not> committed (mem_media d')" "\<forall>p. home_page p \<longrightarrow> volume (mem_media d') p = volume (mem_media d) p" by blast
  then have "\<forall>p. home_page p \<longrightarrow> page_at (mem_media d') p = volume (mem_media d) p"
    using view_clean[OF d'(5)] by (simp add: volume_def)
  with d' show ?thesis by auto
qed

lemma recovered_stays:
  assumes "\<not> committed (mem_media d)" "mem_good d" "redo_fits (sectors d) (mem_media d)"
  shows "\<exists>d'. reboots cuts d = Some d' \<and> mem_media d' = mem_media d"
  using assms
proof (induction cuts arbitrary: d)
  case (Cons c cuts)
  let ?d = "from_snapshot (snapshot d)\<lparr>cut_after := c\<rparr>"
  note re = reattach[OF Cons.prems(2), of c]
  have "recover mem_ops ?d = Some (Inr False, ?d)"
    using mem.read_ctrl_ok[of ?d] Cons.prems re
    by (auto simp: recover_def committed_def run_simps redo_fits_def mem_ops_def split: option.splits)
  then have "reboot c d = Some (Inr False, ?d)" by (simp add: reboot_def)
  then show ?case using Cons.IH[of ?d] Cons.prems re by simp
qed simp

section \<open>Properties\<close>

text \<open>A blank disk of \<open>n\<close> sectors which loses power after \<open>c\<close> writes; nothing is committed on it.\<close>

definition blank_disk :: "nat \<Rightarrow> nat option \<Rightarrow> mem_dev" where
  "blank_disk n c =
     \<lparr>data = replicate (n * SECTOR) 0, sectors = n, powered = True, writes = 0, cut_after = c\<rparr>"

lemma blank_sectors [simp]: "sectors (blank_disk n c) = n"
  by (simp add: blank_disk_def)

lemma blank_good: "n < 2 ^ 64 \<Longrightarrow> mem_good (blank_disk n c)"
  by (simp add: mem_good_def blank_disk_def SECTOR_def)

lemma blank_media: "i < n \<Longrightarrow> mem_media (blank_disk n c) i = replicate SECTOR 0"
  using sector_end[of i n] by (simp add: mem_media_def blank_disk_def)

lemma blank_clean:
  assumes "40 \<le> n"
  shows "\<not> committed (mem_media (blank_disk n c))"
proof -
  have "ctrl_at (mem_media (blank_disk n c)) = concat (map (\<lambda>i. replicate SECTOR 0) [0..<32])"
    unfolding ctrl_at_flat using assms by (intro arg_cong[of _ _ concat] map_cong refl blank_media) simp
  also have "\<dots> = replicate (32 * SECTOR) 0"
    by (simp add: map_replicate_const concat_replicate_trivial replicate_add[symmetric] upt_rec SECTOR_def)
  finally have "get_u32 (ctrl_at (mem_media (blank_disk n c))) 0 = 0"
    by (simp add: get_u32_def SECTOR_def of_le_zeros)
  then show ?thesis by (simp add: committed_def parse_ctrl_def MAGIC_def)
qed

text \<open>C6 The commit protocol of the journal is atomic under power loss. Run \<^verbatim>\<open>commit\<close> on a disk with no
  pending transaction, whatever its power cut is set to; attach what is left of the medium again any number
  of times, with the power failing at any point of each recovery; then recover once with the power on. Every
  page outside the journal has its old content, or every one has the content the transaction gave it. If \<^verbatim>\<open>commit\<close>
  reported success it is the new content, and the journal is empty in the end.\<close>

theorem commit_crash_atomic:
  assumes "mem_good d" "\<not> committed (mem_media d)" "batch_fits (sectors d) dirty" "txid < 2 ^ 64"
  shows "\<exists>r d1 d2 d3 redo. commit mem_ops txid dirty d = Some (r, d1) \<and> reboots cuts d1 = Some d2 \<and>
    reboot None d2 = Some (Inr redo, d3) \<and> \<not> committed (mem_media d3) \<and>
    ((\<forall>p. home_page p \<longrightarrow> page_at (mem_media d3) p = page_at (mem_media d) p) \<and> r \<noteq> Inr () \<or>
     (\<forall>p. home_page p \<longrightarrow> page_at (mem_media d3) p = install dirty (page_at (mem_media d)) p))"
proof -
  have sc: "sector_count mem_ops d0 = sectors d0" for d0 by (simp add: mem_ops_def)
  have v: "volume (mem_media x) = page_at (mem_media x)" if "\<not> committed (mem_media x)" for x
    by (simp add: volume_def view_clean[OF that])
  from mem.commit_atomic[OF assms(1,2), unfolded sc, OF assms(3,4)] obtain r d1 where
    1: "commit mem_ops txid dirty d = Some (r, d1)" "mem_good d1" "sectors d1 = sectors d"
      "redo_fits (sectors d) (mem_media d1)" and
    out: "(\<forall>p. home_page p \<longrightarrow> volume (mem_media d1) p = volume (mem_media d) p) \<and> r \<noteq> Inr () \<or>
      (\<forall>p. home_page p \<longrightarrow> volume (mem_media d1) p = install dirty (volume (mem_media d)) p)" by blast
  from reboots_volume[of d1 cuts] 1 obtain d2 where
    2: "reboots cuts d1 = Some d2" "mem_good d2" "redo_fits (sectors d2) (mem_media d2)"
      "\<forall>p. home_page p \<longrightarrow> volume (mem_media d2) p = volume (mem_media d1) p" by auto
  from reboot_volume[OF 2(2,3), of None] obtain redo d3 where
    3: "reboot None d2 = Some (Inr redo, d3)" "\<not> committed (mem_media d3)"
      "\<forall>p. home_page p \<longrightarrow> volume (mem_media d3) p = volume (mem_media d2) p" by blast
  show ?thesis
    using 1(1) 2(1,4) 3 out v[OF assms(2)] v[OF 3(2)]
    by (intro exI[of _ r] exI[of _ d1] exI[of _ d2] exI[of _ d3] exI[of _ redo]) auto
qed

theorem commit_crash_atomic_witness:
  "let d = blank_disk 20000 (Some 45); dirty = [(0, replicate PAGE 1), (2050, replicate PAGE 2)] in
   \<exists>r d1 d2 d3 redo. commit mem_ops 7 dirty d = Some (r, d1) \<and> reboots [Some 9, Some 60, None] d1 = Some d2 \<and>
    reboot None d2 = Some (Inr redo, d3) \<and> \<not> committed (mem_media d3) \<and>
    ((\<forall>p. home_page p \<longrightarrow> page_at (mem_media d3) p = page_at (mem_media d) p) \<and> r \<noteq> Inr () \<or>
     (\<forall>p. home_page p \<longrightarrow> page_at (mem_media d3) p = install dirty (page_at (mem_media d)) p))"
  unfolding Let_def
  by (rule commit_crash_atomic)
     (simp_all add: blank_good blank_clean batch_fits_def batch_ok_def home_page_def on_device_def
       layout_vals)

text \<open>A disk with a committed transaction of two pages that has not been installed.\<close>

definition pending_disk :: mem_dev where
  "pending_disk = \<lparr>data = replicate PAGE 0 @ render_ctrl [0, 2050] 7 STATE_COMMITTED @ replicate PAGE 1 @ replicate PAGE 2 @
     replicate (20000 * SECTOR - 7 * PAGE) 0, sectors = 20000, powered = True, writes = 0, cut_after = None\<rparr>"

lemma media_run:
  assumes "(off + k) * SECTOR \<le> length (data d)"
  shows "concat (map (\<lambda>i. mem_media d (off + i)) [0..<k]) = slice (data d) (off * SECTOR) ((off + k) * SECTOR)"
proof -
  have "mem_media d (off + i) = slice (drop (off * SECTOR) (data d)) (i * SECTOR) (i * SECTOR + SECTOR)" for i
    by (simp add: mem_media_def slice_def add.commute add.left_commute distrib_right)
  then have "concat (map (\<lambda>i. mem_media d (off + i)) [0..<k]) = take (k * SECTOR) (drop (off * SECTOR) (data d))"
    using concat_slices[of k SECTOR "drop (off * SECTOR) (data d)"] assms by (simp add: distrib_right)
  then show ?thesis by (simp add: slice_def distrib_right)
qed

lemma pending_disk_facts:
  "mem_good pending_disk" "ctrl_at (mem_media pending_disk) = render_ctrl [0, 2050] 7 STATE_COMMITTED"
  "page_at (mem_media pending_disk) 5 = replicate PAGE 1" "page_at (mem_media pending_disk) 6 = replicate PAGE 2"
  "page_at (mem_media pending_disk) 0 = replicate PAGE 0"
proof -
  have rl: "length (render_ctrl [0, 2050] 7 STATE_COMMITTED) = 4 * PAGE"
    by (subst length_render_ctrl) (simp_all add: JCAP_val PAGE_val)
  have l: "length (data pending_disk) = 20000 * SECTOR" by (simp add: pending_disk_def rl PAGE_val SECTOR_def)
  show "mem_good pending_disk" using l by (simp add: mem_good_def pending_disk_def SECTOR_def)
  show "ctrl_at (mem_media pending_disk) = render_ctrl [0, 2050] 7 STATE_COMMITTED"
    unfolding ctrl_at_flat using media_run[of 8 32 pending_disk] l rl
    by (simp add: pending_disk_def slice_def PAGE_val SECTOR_def)
  show "page_at (mem_media pending_disk) 5 = replicate PAGE 1" "page_at (mem_media pending_disk) 6 = replicate PAGE 2"
      "page_at (mem_media pending_disk) 0 = replicate PAGE 0"
    unfolding page_at_def using media_run[of 40 8 pending_disk] media_run[of 48 8 pending_disk] media_run[of 0 8 pending_disk] l rl
    by (simp_all add: pending_disk_def slice_def PAGE_val SECTOR_def layout_vals)
qed

text \<open>C7 Recovery is an idempotent redo. Take a disk whose pending transaction, if any, targets pages of the disk outside the
  journal. After any number of recoveries, each cut by a power failure at any point or not at all, one recovery with the power on
  installs exactly the logged images of the original disk: every page of the transaction then has on the medium itself its logged image,
  every other page outside the journal its old content, and nothing is pending any more. Recovering again, cut or not, changes nothing.\<close>

theorem recovery_idempotent:
  assumes "mem_good d" "redo_fits (sectors d) (mem_media d)"
  shows "\<exists>d1 redo d2 d3. reboots cuts d = Some d1 \<and> reboot None d1 = Some (Inr redo, d2) \<and> \<not> committed (mem_media d2) \<and>
    (\<forall>p. home_page p \<longrightarrow> page_at (mem_media d2) p = install (redo_pairs (mem_media d)) (page_at (mem_media d)) p) \<and>
    reboots again d2 = Some d3 \<and> mem_media d3 = mem_media d2"
proof -
  from reboots_volume[OF assms, of cuts] obtain d1 where
    1: "reboots cuts d = Some d1" "mem_good d1" "redo_fits (sectors d1) (mem_media d1)"
      "\<forall>p. home_page p \<longrightarrow> volume (mem_media d1) p = volume (mem_media d) p" by auto
  from reboot_installs[OF 1(2,3)] obtain redo d2 where
    2: "reboot None d1 = Some (Inr redo, d2)" "mem_good d2" "redo_fits (sectors d2) (mem_media d2)" "\<not> committed (mem_media d2)"
      "\<forall>p. home_page p \<longrightarrow> page_at (mem_media d2) p = volume (mem_media d1) p" by blast
  from recovered_stays[OF 2(4,2,3), of again] obtain d3 where "reboots again d2 = Some d3" "mem_media d3 = mem_media d2" by blast
  with 1 2 install_redo[OF assms] show ?thesis by auto
qed

theorem recovery_idempotent_witness:
  "\<exists>d1 redo d2 d3. reboots [Some 3, None, Some 1] pending_disk = Some d1 \<and> reboot None d1 = Some (Inr redo, d2) \<and>
    page_at (mem_media d2) 0 = replicate PAGE 1 \<and> page_at (mem_media d2) 2050 = replicate PAGE 2 \<and>
    page_at (mem_media pending_disk) 0 = replicate PAGE 0 \<and> reboots [Some 9] d2 = Some d3 \<and> mem_media d3 = mem_media d2"
proof -
  note f = pending_disk_facts
  have p: "pending (mem_media pending_disk) = [0, 2050]"
    by (rule committed_render(2)[OF f(2)]) (simp_all add: JCAP_val)
  then have r: "redo_pairs (mem_media pending_disk) = [(0, replicate PAGE 1), (2050, replicate PAGE 2)]"
    using f(3,4) by (simp add: redo_pairs_def layout_vals)
  have "redo_fits (sectors pending_disk) (mem_media pending_disk)"
    using p by (simp add: redo_fits_def pending_disk_def home_page_def on_device_def layout_vals)
  from recovery_idempotent[OF f(1) this, of "[Some 3, None, Some 1]" "[Some 9]"] f(5) show ?thesis
    by (auto simp: r install_def home_page_def layout_vals)
qed

end
