(* ===== verification/Pager.thy ===== *)
theory Pager
  imports Journal_Crash
begin

text \<open>
  The page layer of \<^verbatim>\<open>tablestore/src/pager.rs\<close>: the superblock, the free-list allocator, the
  write buffer of the one active transaction and the cache of clean pages.

  An operation of the source on \<^verbatim>\<open>&mut Pager<D>\<close> is an action on the record \<open>pager\<close>; the
  device operations are an argument, as in the journal. \<open>format\<close> and \<open>mount\<close> take the device
  by value and are actions on the device which return the pager.
\<close>

section \<open>The superblock\<close>

definition SB_MAGIC :: nat where "SB_MAGIC = 0x534c4254"
definition SB_VERSION :: nat where "SB_VERSION = 1"

definition zeroed_page :: "byte list" where
  "zeroed_page = replicate PAGE 0"

record superblock =
  total_pages :: nat
  hwm :: nat
  free_head :: nat
  catalog_head :: nat
  generation :: nat

definition sb_encode :: "superblock \<Rightarrow> byte list" where
  "sb_encode s =
     (let p = zeroed_page;
          p = splice p 0 (le_bytes 4 SB_MAGIC);
          p = splice p 4 (le_bytes 4 SB_VERSION);
          p = splice p 8 (le_bytes 4 PAGE);
          p = splice p 16 (le_bytes 8 (total_pages s));
          p = splice p 24 (le_bytes 8 (hwm s));
          p = splice p 32 (le_bytes 8 (free_head s));
          p = splice p 40 (le_bytes 8 (catalog_head s));
          p = splice p 48 (le_bytes 8 (generation s));
          crc = crc32 (slice p 16 56)
      in splice p 12 (le_bytes 4 (unat crc)))"

definition sb_decode :: "byte list \<Rightarrow> superblock result" where
  "sb_decode p =
     (if of_le (slice p 0 4) \<noteq> SB_MAGIC then Inl (Corrupt ''not a TablesOS volume'')
      else let crc = of_le (slice p 12 16) in
        if unat (crc32 (slice p 16 56)) \<noteq> crc then Inl (Corrupt ''superblock checksum'')
        else Inr \<lparr>total_pages = of_le (slice p 16 24), hwm = of_le (slice p 24 32),
          free_head = of_le (slice p 32 40), catalog_head = of_le (slice p 40 48),
          generation = of_le (slice p 48 56)\<rparr>)"

section \<open>The pager\<close>

definition CACHE_MAX :: nat where "CACHE_MAX = 8192"

record 'd pager =
  dev :: 'd
  sb :: superblock
  dirty :: "byte list btree"
  cache :: "byte list btree"

definition format :: "'d block_ops \<Rightarrow> ('d, 'd pager) act" where
  "format ops = bindM (getM (sector_count ops)) (\<lambda>n.
     let total = n div PAGE_SECTORS in
     if total \<le> FIRST_DATA_PAGE + 1 then failM OutOfSpace
     else
       bindM (init ops) (\<lambda>_.
       let s = \<lparr>total_pages = total, hwm = FIRST_DATA_PAGE, free_head = 0, catalog_head = 0, generation = 1\<rparr> in
       bindM (write_page ops 0 (sb_encode s)) (\<lambda>_.
       bindM (flush ops) (\<lambda>_.
       bindM (getM id) (\<lambda>d. returnM \<lparr>dev = d, sb = s, dirty = [], cache = []\<rparr>)))))"

definition mount :: "'d block_ops \<Rightarrow> ('d, 'd pager) act" where
  "mount ops =
     bindM (recover ops) (\<lambda>_.
     bindM (read_page ops 0) (\<lambda>p.
     bindM (liftM (sb_decode p)) (\<lambda>s.
     bindM (getM id) (\<lambda>d. returnM \<lparr>dev = d, sb = s, dirty = [], cache = []\<rparr>))))"

text \<open>A device action run on the device of a pager.\<close>

definition on_dev :: "('d, 'a) act \<Rightarrow> ('d pager, 'a) act" where
  "on_dev m pg = map_option (\<lambda>(r, d). (r, pg\<lparr>dev := d\<rparr>)) (m (dev pg))"

definition cache_insert :: "byte list btree \<Rightarrow> nat \<Rightarrow> byte list \<Rightarrow> byte list btree" where
  "cache_insert c p img = bt_insert p img (if length c \<ge> CACHE_MAX then [] else c)"

definition pager_read_page :: "'d block_ops \<Rightarrow> nat \<Rightarrow> ('d pager, byte list) act" where
  "pager_read_page ops page = bindM (getM id) (\<lambda>pg.
     case map_of (dirty pg) page of Some p \<Rightarrow> returnM p
     | None \<Rightarrow> case map_of (cache pg) page of Some p \<Rightarrow> returnM p
     | None \<Rightarrow>
         if page \<ge> total_pages (sb pg) then failM (Corrupt ''page out of range'')
         else
           bindM (on_dev (read_page ops page)) (\<lambda>buf.
           bindM (modifyM (\<lambda>pg. pg\<lparr>cache := cache_insert (cache pg) page buf\<rparr>)) (\<lambda>_.
           returnM buf)))"

definition pager_write_page :: "nat \<Rightarrow> byte list \<Rightarrow> ('d pager, unit) act" where
  "pager_write_page page img =
     bindM (assertM (length img = PAGE)) (\<lambda>_.
     modifyM (\<lambda>pg. pg\<lparr>dirty := bt_insert page img (dirty pg)\<rparr>))"

definition alloc_page :: "'d block_ops \<Rightarrow> ('d pager, nat) act" where
  "alloc_page ops = bindM (getM sb) (\<lambda>s.
     bindM
       (if free_head s \<noteq> 0 then
          bindM (pager_read_page ops (free_head s)) (\<lambda>img.
          bindM (modifyM (\<lambda>pg. pg\<lparr>sb := (sb pg)\<lparr>free_head := of_le (slice img 0 8)\<rparr>\<rparr>)) (\<lambda>_.
          returnM (free_head s)))
        else if hwm s < total_pages s then
          bindM (modifyM (\<lambda>pg. pg\<lparr>sb := (sb pg)\<lparr>hwm := hwm s + 1\<rparr>\<rparr>)) (\<lambda>_.
          returnM (hwm s))
        else failM OutOfSpace) (\<lambda>page.
     bindM (pager_write_page page zeroed_page) (\<lambda>_.
     returnM page)))"

definition free_page :: "nat \<Rightarrow> ('d pager, unit) act" where
  "free_page page = bindM (getM sb) (\<lambda>s.
     bindM (pager_write_page page (splice zeroed_page 0 (le_bytes 8 (free_head s)))) (\<lambda>_.
     modifyM (\<lambda>pg. pg\<lparr>sb := (sb pg)\<lparr>free_head := page\<rparr>\<rparr>)))"

text \<open>The commit of a pager; \<open>Journal.commit\<close> is the journal protocol it runs.\<close>

definition pager_commit :: "'d block_ops \<Rightarrow> ('d pager, unit) act" where
  "pager_commit ops = bindM (getM id) (\<lambda>pg.
     if dirty pg = [] then returnM ()
     else
       let txid = generation (sb pg) + 1; s = (sb pg)\<lparr>generation := txid\<rparr> in
       bindM (assertM (txid < 2 ^ 64)) (\<lambda>_.
       bindM (forM (dirty pg) (\<lambda>(p, _). assertM (p \<noteq> 0))) (\<lambda>_.
       bindM (on_dev (commit ops txid ((0, sb_encode s) # dirty pg))) (\<lambda>_.
       modifyM (\<lambda>pg. pg\<lparr>sb := s,
         cache := foldl (\<lambda>c (p, img). cache_insert c p img) (cache pg) (dirty pg), dirty := []\<rparr>)))))"

definition rollback :: "'d block_ops \<Rightarrow> ('d pager, unit) act" where
  "rollback ops =
     bindM (modifyM (\<lambda>pg. pg\<lparr>dirty := []\<rparr>)) (\<lambda>_.
     bindM (on_dev (read_page ops 0)) (\<lambda>p.
     bindM (liftM (sb_decode p)) (\<lambda>s.
     modifyM (\<lambda>pg. pg\<lparr>sb := s\<rparr>))))"

section \<open>The superblock image\<close>

definition sb_ok :: "superblock \<Rightarrow> bool" where
  "sb_ok s \<longleftrightarrow> total_pages s < 2 ^ 64 \<and> hwm s < 2 ^ 64 \<and> free_head s < 2 ^ 64 \<and>
     catalog_head s < 2 ^ 64 \<and> generation s < 2 ^ 64"

definition sb_body :: "superblock \<Rightarrow> byte list" where
  "sb_body s = le_bytes 8 (total_pages s) @ le_bytes 8 (hwm s) @ le_bytes 8 (free_head s) @
     le_bytes 8 (catalog_head s) @ le_bytes 8 (generation s)"

lemma length_sb_body [simp]: "length (sb_body s) = 40"
  by (simp add: sb_body_def)

lemma sb_encode_eq:
  "sb_encode s = le_bytes 4 SB_MAGIC @ le_bytes 4 SB_VERSION @ le_bytes 4 PAGE @
     le_bytes 4 (unat (crc32 (sb_body s))) @ sb_body s @ replicate 4040 0"
proof -
  let ?h = "le_bytes 4 SB_MAGIC @ le_bytes 4 SB_VERSION @ le_bytes 4 PAGE"
  let ?b = "splice (splice zeroed_page 0 ?h) 16 (sb_body s)"
  have z: "length zeroed_page = 4096" by (simp add: zeroed_page_def PAGE_val)
  have b: "?b = ?h @ replicate 4 0 @ sb_body s @ replicate 4040 0"
    by (simp add: splice_def zeroed_page_def PAGE_val)
  have "slice ?b 16 56 = sb_body s"
    unfolding b by (simp add: slice_append_left slice_append_right slice_all)
  then have "sb_encode s = splice ?b 12 (le_bytes 4 (unat (crc32 (sb_body s))))"
    by (simp add: sb_encode_def Let_def splice_adjacent z sb_body_def)
  also have "\<dots> = ?h @ le_bytes 4 (unat (crc32 (sb_body s))) @ sb_body s @ replicate 4040 0"
    unfolding b by (simp add: splice_def)
  finally show ?thesis by simp
qed

lemma length_sb_encode [simp]: "length (sb_encode s) = PAGE"
  by (simp add: sb_encode_eq PAGE_val)

lemma crc_bound: "unat (crc32 xs) < 4294967296"
  using unsigned_less[of "crc32 xs"] by simp

lemma sb_roundtrip: "sb_ok s \<Longrightarrow> sb_decode (sb_encode s) = Inr s"
proof -
  assume ok: "sb_ok s"
  have body: "slice (sb_encode s) 16 56 = sb_body s"
    by (simp add: sb_encode_eq slice_append_left slice_append_right slice_all)
  have sub: "slice (sb_encode s) a b = slice (sb_body s) (a - 16) (b - 16)" if "16 \<le> a" "b \<le> 56" for a b
    using that by (simp add: sb_encode_eq slice_append_left slice_append_right)
  have hdr: "of_le (slice (sb_encode s) 0 4) = SB_MAGIC"
    "of_le (slice (sb_encode s) 12 16) = unat (crc32 (sb_body s))"
    using crc_bound by (simp_all add: sb_encode_eq slice_append_left slice_append_right slice_all
        of_le_le_bytes SB_MAGIC_def)
  show ?thesis
    using ok by (simp add: sb_decode_def hdr body sub Let_def)
      (simp add: sb_body_def slice_append_left slice_append_right slice_all of_le_le_bytes sb_ok_def)
qed

text \<open>Damage of one byte of the checksum or of the fields it covers is always noticed.\<close>

lemma sb_detects_byte:
  assumes "length p = PAGE" "sb_decode p = Inr s" "12 \<le> i" "i < 56" "b \<noteq> p ! i"
  shows "\<exists>e. sb_decode (p[i := b]) = Inl (Corrupt e)"
proof -
  let ?q = "p[i := b]"
  have crc: "unat (crc32 (slice p 16 56)) = of_le (slice p 12 16)"
    using assms(2) by (simp add: sb_decode_def Let_def split: if_splits)
  have len: "length p = 4096" using assms(1) by (simp add: PAGE_val)
  have "unat (crc32 (slice ?q 16 56)) \<noteq> of_le (slice ?q 12 16)"
  proof (cases "i < 16")
    case True
    then have "slice ?q 16 56 = slice p 16 56"
      using len by (intro nth_equalityI) simp_all
    moreover have "of_le (slice ?q 12 16) \<noteq> of_le (slice p 12 16)"
    proof
      assume eq: "of_le (slice ?q 12 16) = of_le (slice p 12 16)"
      have "slice ?q 12 16 = slice p 12 16"
        by (rule of_le_inj[OF eq]) (use len in simp)
      then have "slice ?q 12 16 ! (i - 12) = slice p 12 16 ! (i - 12)" by simp
      then show False using True assms(3,5) len by simp
    qed
    ultimately show ?thesis using crc by simp
  next
    case False
    let ?xs = "slice p 16 i" and ?ys = "slice p (i + 1) 56"
    have "slice p 16 56 = ?xs @ p ! i # ?ys" "slice ?q 16 56 = ?xs @ b # ?ys"
      using False assms(4) len slice_split[of 16 i 56 p] slice_split[of 16 i 56 ?q]
      by (simp_all add: slice_update_outside)
    moreover have "slice ?q 12 16 = slice p 12 16"
      using False len by (intro nth_equalityI) simp_all
    ultimately show ?thesis using crc crc32_single_byte[of ?xs b ?ys "p ! i"] assms(5)
      by (metis unsigned_word_eqI)
  qed
  then show ?thesis by (simp add: sb_decode_def Let_def)
qed

lemma sb_decode_ok: "sb_decode p = Inr s \<Longrightarrow> sb_ok s"
proof -
  assume "sb_decode p = Inr s"
  moreover have "of_le (slice p a (a + 8)) < 2 ^ 64" for a
    using of_le_less[of "slice p a (a + 8)"]
    by (rule order_less_le_trans) (simp add: power_increasing[of _ 8 "256 :: nat", simplified])
  from this[of 16] this[of 24] this[of 32] this[of 40] this[of 48] calculation show ?thesis
    by (auto simp: sb_decode_def sb_ok_def Let_def split: if_splits)
qed

section \<open>Invariant and abstraction\<close>

text \<open>
  \<open>content media pg\<close> is what the transaction sees: its own writes over the medium. The invariant
  says in particular that the cache mirrors the medium and that the medium holds no committed
  transaction.
\<close>

definition overlay :: "byte list btree \<Rightarrow> (nat \<Rightarrow> byte list) \<Rightarrow> nat \<Rightarrow> byte list" where
  "overlay m v p = (case map_of m p of Some img \<Rightarrow> img | None \<Rightarrow> v p)"

definition content :: "('d \<Rightarrow> disk) \<Rightarrow> 'd pager \<Rightarrow> nat \<Rightarrow> byte list" where
  "content media pg = overlay (dirty pg) (page_at (media (dev pg)))"

definition data_page :: "'d pager \<Rightarrow> nat \<Rightarrow> bool" where
  "data_page pg p \<longleftrightarrow> FIRST_DATA_PAGE \<le> p \<and> p < total_pages (sb pg)"

definition pager_ok :: "'d block_ops \<Rightarrow> ('d \<Rightarrow> disk) \<Rightarrow> ('d \<Rightarrow> bool) \<Rightarrow> 'd pager \<Rightarrow> bool" where
  "pager_ok ops media good pg \<longleftrightarrow>
     good (dev pg) \<and> \<not> committed (media (dev pg)) \<and>
     total_pages (sb pg) * PAGE_SECTORS \<le> sector_count ops (dev pg) \<and>
     FIRST_DATA_PAGE < total_pages (sb pg) \<and> hwm (sb pg) \<le> total_pages (sb pg) \<and> sb_ok (sb pg) \<and>
     bt_ok (dirty pg) \<and> (\<forall>(p, img) \<in> set (dirty pg). data_page pg p \<and> length img = PAGE) \<and>
     bt_ok (cache pg) \<and> (\<forall>(p, img) \<in> set (cache pg). data_page pg p \<and> page_at (media (dev pg)) p = img)"

text \<open>
  The pages \<open>ps\<close> form the chain from \<open>h\<close>: each holds the number of the next in its first eight bytes,
  the last holds 0. The free list is such a chain, and so are the blobs and indexes of the store.
\<close>

fun linked :: "(nat \<Rightarrow> byte list) \<Rightarrow> nat \<Rightarrow> nat list \<Rightarrow> bool" where
  "linked v h [] \<longleftrightarrow> h = 0"
| "linked v h (p # ps) \<longleftrightarrow> h = p \<and> p \<noteq> 0 \<and> linked v (of_le (slice (v p) 0 8)) ps"

definition alloc_ok :: "('d \<Rightarrow> disk) \<Rightarrow> 'd pager \<Rightarrow> nat list \<Rightarrow> bool" where
  "alloc_ok media pg ps \<longleftrightarrow> linked (content media pg) (free_head (sb pg)) ps \<and> distinct ps \<and>
     (\<forall>p \<in> set ps. FIRST_DATA_PAGE \<le> p \<and> p < hwm (sb pg)) \<and> FIRST_DATA_PAGE \<le> hwm (sb pg)"

definition used :: "'d pager \<Rightarrow> nat list \<Rightarrow> nat set" where
  "used pg ps = {FIRST_DATA_PAGE..<hwm (sb pg)} - set ps"

lemma linked_cong: "(\<And>p. p \<in> set ps \<Longrightarrow> v p = v' p) \<Longrightarrow> linked v h ps = linked v' h ps"
  by (induction ps arbitrary: h) auto

lemma cache_insert_ok: "bt_ok c \<Longrightarrow> bt_ok (cache_insert c p img)"
  "set (cache_insert c p img) \<subseteq> insert (p, img) (set c)"
  using bt_insert_vals[of p img c] by (auto simp: cache_insert_def)

lemma overlay_simps [simp]:
  "overlay (bt_insert p img m) v = (overlay m v)(p := img)" "overlay [] v = v"
  by (simp_all add: overlay_def fun_eq_iff split: option.split)

text \<open>Folding a batch into the cache makes it coherent with a medium that holds the batch.\<close>

lemma cache_fold_coherent:
  "bt_ok c \<Longrightarrow> \<forall>(p, img) \<in> set m. D p \<and> f p = img \<Longrightarrow>
   \<forall>(p, img) \<in> set c. D p \<and> (p \<in> fst ` set m \<or> f p = img) \<Longrightarrow>
   bt_ok (foldl (\<lambda>c (p, img). cache_insert c p img) c m) \<and>
   (\<forall>(p, img) \<in> set (foldl (\<lambda>c (p, img). cache_insert c p img) c m). D p \<and> f p = img)"
proof (induction m arbitrary: c)
  case (Cons e m)
  obtain p img where e: "e = (p, img)" by (cases e)
  let ?c = "cache_insert c p img"
  have "(q, w) \<in> set ?c \<Longrightarrow> (if q = p then w = img else (q, w) \<in> set c)" for q w
    using bt_insert_entries[of c q w p img] bt_insert_entries[of "[]" q w p img] Cons.prems(1)
    by (auto simp: cache_insert_def split: if_splits)
  then have "\<forall>(q, w) \<in> set ?c. D q \<and> (q \<in> fst ` set m \<or> f q = w)"
    using Cons.prems(2,3) by (fastforce simp: e split: if_splits)
  then show ?case using Cons.IH[of ?c] Cons.prems cache_insert_ok(1) by (simp add: e)
qed auto

lemma forM_asserts: "\<forall>x \<in> set xs. P x \<Longrightarrow> forM xs (\<lambda>x. assertM (P x)) s = Some (Inr (), s)"
  by (induction xs) (simp_all add: run_simps)

lemma linked_upd [simp]: "p \<notin> set ps \<Longrightarrow> linked (v(p := img)) h ps = linked v h ps"
  by (rule linked_cong) auto

lemma zeroed_length [simp]: "length zeroed_page = PAGE"
  by (simp add: zeroed_page_def)

context block_device
begin

lemma ok_on_device:
  "pager_ok ops media good pg \<Longrightarrow> p < total_pages (sb pg) \<Longrightarrow> on_device (sector_count ops (dev pg)) p"
proof -
  assume a: "pager_ok ops media good pg" "p < total_pages (sb pg)"
  then have "Suc p * PAGE_SECTORS \<le> total_pages (sb pg) * PAGE_SECTORS" by (intro mult_le_mono1) simp
  with a(1) show ?thesis by (simp add: pager_ok_def on_device_def)
qed

lemma pager_read_page_ok:
  assumes "pager_ok ops media good pg" "data_page pg p"
  shows "\<exists>c. pager_read_page ops p pg = Some (Inr (content media pg p), pg\<lparr>cache := c\<rparr>) \<and>
    pager_ok ops media good (pg\<lparr>cache := c\<rparr>)"
proof (cases "map_of (dirty pg) p = None \<and> map_of (cache pg) p = None")
  case True
  let ?img = "page_at (media (dev pg)) p"
  have r: "read_page ops p (dev pg) = Some (Inr ?img, dev pg)"
    using read_page_ok ok_on_device[OF assms(1), of p] assms by (simp add: pager_ok_def data_page_def)
  have "pager_read_page ops p pg = Some (Inr (content media pg p), pg\<lparr>cache := cache_insert (cache pg) p ?img\<rparr>)"
    using True assms(2) r by (simp add: pager_read_page_def data_page_def on_dev_def content_def overlay_def bindM_def)
  moreover have "pager_ok ops media good (pg\<lparr>cache := cache_insert (cache pg) p ?img\<rparr>)"
    using assms cache_insert_ok[of "cache pg" p ?img] by (auto simp: pager_ok_def data_page_def)
  ultimately show ?thesis by blast
next
  case False
  have "map_of (cache pg) p = Some img \<Longrightarrow> img = page_at (media (dev pg)) p" for img
    using assms(1) map_of_SomeD[of "cache pg" p img] by (auto simp: pager_ok_def)
  with False have "pager_read_page ops p pg = Some (Inr (content media pg p), pg\<lparr>cache := cache pg\<rparr>)"
    by (auto simp: pager_read_page_def content_def overlay_def split: option.split)
  with assms(1) show ?thesis by (intro exI[of _ "cache pg"]) simp
qed

lemma pager_write_page_ok:
  assumes "pager_ok ops media good pg" "data_page pg p" "length img = PAGE"
  shows "pager_write_page p img pg = Some (Inr (), pg\<lparr>dirty := bt_insert p img (dirty pg)\<rparr>)"
    "pager_ok ops media good (pg\<lparr>dirty := bt_insert p img (dirty pg)\<rparr>)"
  using assms bt_insert_vals[of p img "dirty pg"]
  by (auto simp: pager_write_page_def pager_ok_def data_page_def)

text \<open>Allocation pops the free list or extends the high-water mark; it fails only on a full volume.\<close>

lemma alloc_page_ok:
  assumes ok: "pager_ok ops media good pg" and al: "alloc_ok media pg ps"
    and room: "ps \<noteq> [] \<or> hwm (sb pg) < total_pages (sb pg)"
  shows "\<exists>p pg' ps'. alloc_page ops pg = Some (Inr p, pg') \<and> pager_ok ops media good pg' \<and>
    alloc_ok media pg' ps' \<and> data_page pg p \<and> p \<notin> used pg ps \<and> used pg' ps' = insert p (used pg ps) \<and>
    content media pg' = (content media pg)(p := zeroed_page) \<and> dev pg' = dev pg \<and>
    catalog_head (sb pg') = catalog_head (sb pg) \<and> total_pages (sb pg') = total_pages (sb pg)"
proof (cases ps)
  case Nil
  let ?p = "hwm (sb pg)" and ?pg = "pg\<lparr>sb := (sb pg)\<lparr>hwm := hwm (sb pg) + 1\<rparr>\<rparr>"
  have h: "?p < total_pages (sb pg)" "free_head (sb pg) = 0" "FIRST_DATA_PAGE \<le> ?p"
    using Nil room al by (simp_all add: alloc_ok_def)
  have ok': "pager_ok ops media good ?pg"
    using ok h(1) by (auto simp: pager_ok_def data_page_def sb_ok_def)
  have w: "data_page ?pg ?p" using h by (simp add: data_page_def)
  note wr = pager_write_page_ok[OF ok' w zeroed_length]
  show ?thesis
    using wr h al Nil
    by (intro exI[of _ ?p] exI[of _ "?pg\<lparr>dirty := bt_insert ?p zeroed_page (dirty ?pg)\<rparr>"] exI[of _ ps])
       (auto simp: alloc_page_def bindM_def alloc_ok_def data_page_def used_def content_def)
next
  case (Cons p ps')
  have p: "free_head (sb pg) = p" "p \<noteq> 0" "FIRST_DATA_PAGE \<le> p" "p < hwm (sb pg)" "p \<notin> set ps'"
    "linked (content media pg) (of_le (slice (content media pg p) 0 8)) ps'"
    using al Cons by (simp_all add: alloc_ok_def)
  have pt: "p < total_pages (sb pg)" using p(4) ok by (simp add: pager_ok_def)
  from pager_read_page_ok[OF ok, of p] p pt obtain c where
    r: "pager_read_page ops p pg = Some (Inr (content media pg p), pg\<lparr>cache := c\<rparr>)"
      "pager_ok ops media good (pg\<lparr>cache := c\<rparr>)" by (auto simp: data_page_def)
  let ?n = "of_le (slice (content media pg p) 0 8)"
  let ?pg = "pg\<lparr>cache := c, sb := (sb pg)\<lparr>free_head := ?n\<rparr>\<rparr>"
  have "?n < 2 ^ 64" using of_le_less[of "slice (content media pg p) 0 8"]
    by (rule order_less_le_trans) (simp add: power_increasing[of _ 8 "256 :: nat", simplified])
  then have ok': "pager_ok ops media good ?pg" using r(2) by (auto simp: pager_ok_def sb_ok_def data_page_def)
  have w: "data_page ?pg p" using p pt by (simp add: data_page_def)
  note wr = pager_write_page_ok[OF ok' w zeroed_length]
  let ?pg' = "?pg\<lparr>dirty := bt_insert p zeroed_page (dirty ?pg)\<rparr>"
  have "alloc_page ops pg = Some (Inr p, ?pg')"
    using r(1) wr(1) p(1,2) by (simp add: alloc_page_def bindM_def)
  moreover have "linked ((content media pg)(p := zeroed_page)) ?n ps'"
    using p(5,6) by simp
  ultimately show ?thesis
    using wr(2) p pt al Cons
    by (intro exI[of _ p] exI[of _ ?pg'] exI[of _ ps']) (auto simp: alloc_ok_def data_page_def used_def content_def)
qed

lemma alloc_page_full:
  assumes "alloc_ok media pg []" "\<not> hwm (sb pg) < total_pages (sb pg)"
  shows "alloc_page ops pg = Some (Inl OutOfSpace, pg)"
  using assms by (simp add: alloc_page_def alloc_ok_def bindM_def)

text \<open>A freed page becomes the head of the free list.\<close>

lemma free_page_ok:
  assumes ok: "pager_ok ops media good pg" and al: "alloc_ok media pg ps" and p: "p \<in> used pg ps"
  shows "\<exists>pg'. free_page p pg = Some (Inr (), pg') \<and> pager_ok ops media good pg' \<and>
    alloc_ok media pg' (p # ps) \<and> used pg' (p # ps) = used pg ps - {p} \<and>
    (\<forall>q. q \<noteq> p \<longrightarrow> content media pg' q = content media pg q) \<and> dev pg' = dev pg \<and>
    catalog_head (sb pg') = catalog_head (sb pg) \<and> total_pages (sb pg') = total_pages (sb pg)"
proof -
  let ?img = "splice zeroed_page 0 (le_bytes 8 (free_head (sb pg)))"
  have p': "FIRST_DATA_PAGE \<le> p" "p < hwm (sb pg)" "p \<notin> set ps" using p by (simp_all add: used_def)
  have d: "data_page pg p" using p' ok by (simp add: data_page_def pager_ok_def)
  have len: "length ?img = PAGE" by (simp add: zeroed_page_def PAGE_val)
  note wr = pager_write_page_ok[OF ok d len]
  let ?pg = "pg\<lparr>dirty := bt_insert p ?img (dirty pg), sb := (sb pg)\<lparr>free_head := p\<rparr>\<rparr>"
  have run: "free_page p pg = Some (Inr (), ?pg)"
    using wr(1) by (simp add: free_page_def bindM_def)
  have nxt: "of_le (slice ?img 0 8) = free_head (sb pg)"
    using ok slice_splice_same[of 0 "le_bytes 8 (free_head (sb pg))" zeroed_page]
    by (simp add: of_le_le_bytes pager_ok_def sb_ok_def PAGE_val)
  have fl: "linked ((content media pg)(p := ?img)) (free_head (sb pg)) ps"
    using al p'(3) by (simp add: alloc_ok_def)
  have "pager_ok ops media good ?pg"
    using wr(2) d by (auto simp: pager_ok_def sb_ok_def data_page_def)
  moreover have "p \<noteq> 0" using p'(1) by (simp add: FIRST_DATA_PAGE_val)
  ultimately show ?thesis
    using run nxt fl al p' by (auto simp: alloc_ok_def used_def content_def)
qed

lemma pager_ok_committed:
  assumes "pager_ok ops media good pg" "good d'" "sector_count ops d' = sector_count ops (dev pg)"
    "\<not> committed (media d')" "\<And>p. FIRST_DATA_PAGE \<le> p \<Longrightarrow> page_at (media d') p = content media pg p"
    "g < 2 ^ 64"
  shows "pager_ok ops media good (pg\<lparr>dev := d', sb := (sb pg)\<lparr>generation := g\<rparr>,
     cache := foldl (\<lambda>c (p, img). cache_insert c p img) (cache pg) (dirty pg), dirty := []\<rparr>)"
proof -
  let ?c = "foldl (\<lambda>c (p, img). cache_insert c p img) (cache pg) (dirty pg)"
  have dirty: "data_page pg p \<and> page_at (media d') p = img" if "(p, img) \<in> set (dirty pg)" for p img
    using that assms(1,5) map_of_eq_Some_iff[OF bt_ok_distinct, of "dirty pg" p img]
    by (auto simp: pager_ok_def data_page_def content_def overlay_def)
  have cached: "data_page pg p \<and> (p \<in> fst ` set (dirty pg) \<or> page_at (media d') p = img)"
    if "(p, img) \<in> set (cache pg)" for p img
  proof -
    have c: "data_page pg p" "page_at (media (dev pg)) p = img" "FIRST_DATA_PAGE \<le> p"
      using that assms(1) by (auto simp: pager_ok_def data_page_def)
    show ?thesis
    proof (cases "map_of (dirty pg) p")
      case None
      then have "content media pg p = img" using c by (simp add: content_def overlay_def)
      then show ?thesis using c assms(5) by simp
    next
      case (Some img')
      then show ?thesis using c map_of_SomeD[OF Some] by force
    qed
  qed
  have "bt_ok ?c \<and> (\<forall>(p, img) \<in> set ?c. data_page pg p \<and> page_at (media d') p = img)"
  proof (rule cache_fold_coherent)
    show "bt_ok (cache pg)" using assms(1) by (simp add: pager_ok_def)
    show "\<forall>(p, img) \<in> set (dirty pg). data_page pg p \<and> page_at (media d') p = img" using dirty by blast
    show "\<forall>(p, img) \<in> set (cache pg). data_page pg p \<and> (p \<in> fst ` set (dirty pg) \<or> page_at (media d') p = img)"
      using cached by blast
  qed
  then show ?thesis using assms by (auto simp: pager_ok_def data_page_def sb_ok_def)
qed

lemma batch_fits_dirty:
  assumes "pager_ok ops media good pg" "length (dirty pg) < JCAP"
  shows "batch_fits (sector_count ops (dev pg)) ((0, sb_encode s) # dirty pg)"
proof -
  have "FIRST_DATA_PAGE * PAGE_SECTORS \<le> total_pages (sb pg) * PAGE_SECTORS"
    using assms(1) by (intro mult_le_mono1) (simp add: pager_ok_def)
  also have "\<dots> \<le> sector_count ops (dev pg)" using assms(1) by (simp add: pager_ok_def)
  finally have "FIRST_DATA_PAGE * PAGE_SECTORS \<le> sector_count ops (dev pg)" .
  moreover have "on_device (sector_count ops (dev pg)) p \<and> home_page p \<and> p < 2 ^ 64 \<and> length img = PAGE"
    if "(p, img) \<in> set (dirty pg)" for p img
    using that assms(1) ok_on_device[OF assms(1), of p]
    by (auto simp: pager_ok_def data_page_def home_page_def sb_ok_def)
  moreover have "on_device (sector_count ops (dev pg)) 0"
    using ok_on_device[OF assms(1), of 0] assms(1) by (simp add: pager_ok_def)
  ultimately show ?thesis
    using assms(2) by (auto simp: batch_fits_def batch_ok_def home_page_def)
qed

lemma install_batch:
  assumes "pager_ok ops media good pg"
  shows "install ((0, img) # dirty pg) v p = (if p = 0 then img else overlay (dirty pg) v p)"
proof -
  have "distinct (map fst ((0, img) # dirty pg))"
    using assms bt_ok_distinct by (fastforce simp: pager_ok_def data_page_def FIRST_DATA_PAGE_val)
  from map_of_rev_distinct[OF this] show ?thesis
    by (auto simp: install_def overlay_def split: option.split)
qed

lemma pager_commit_ok:
  assumes ok: "pager_ok ops media good pg" and ne: "dirty pg \<noteq> []"
    and cap: "length (dirty pg) < JCAP" and gen: "generation (sb pg) + 1 < 2 ^ 64"
  defines "s \<equiv> (sb pg)\<lparr>generation := generation (sb pg) + 1\<rparr>"
  shows "\<exists>r pg'. pager_commit ops pg = Some (r, pg') \<and> good (dev pg') \<and>
    sector_count ops (dev pg') = sector_count ops (dev pg) \<and>
    redo_fits (sector_count ops (dev pg)) (media (dev pg')) \<and>
    ((\<forall>p. home_page p \<longrightarrow> volume (media (dev pg')) p = page_at (media (dev pg)) p) \<and> r \<noteq> Inr () \<or>
     volume (media (dev pg')) 0 = sb_encode s \<and>
       (\<forall>p \<ge> FIRST_DATA_PAGE. volume (media (dev pg')) p = content media pg p)) \<and>
    (r = Inr () \<longrightarrow> pager_ok ops media good pg' \<and> dirty pg' = [] \<and> sb pg' = s \<and>
       page_at (media (dev pg')) 0 = sb_encode s \<and>
       (\<forall>p \<ge> FIRST_DATA_PAGE. content media pg' p = content media pg p)) \<and>
    (r \<noteq> Inr () \<longrightarrow> pg' = pg\<lparr>dev := dev pg'\<rparr>) \<and>
    (live (dev pg') \<longrightarrow> r = Inr ())"
proof -
  let ?b = "(0, sb_encode s) # dirty pg" and ?n = "sector_count ops (dev pg)"
  have nc: "\<not> committed (media (dev pg))" and gd: "good (dev pg)" using ok by (simp_all add: pager_ok_def)
  from commit_atomic[OF gd nc batch_fits_dirty[OF ok cap] gen, of s] obtain r d' where
    run: "commit ops (generation (sb pg) + 1) ?b (dev pg) = Some (r, d')" and d': "good d'"
      "sector_count ops d' = ?n" "redo_fits ?n (media d')"
    and vol: "(\<forall>p. home_page p \<longrightarrow> volume (media d') p = volume (media (dev pg)) p) \<and> r \<noteq> Inr () \<or>
     (\<forall>p. home_page p \<longrightarrow> volume (media d') p = install ?b (volume (media (dev pg))) p)"
    and r: "r = Inr () \<longrightarrow> live d' \<and> \<not> committed (media d')" "live d' \<longrightarrow> r = Inr ()" by blast
  define pg' where "pg' = (if r = Inr () then pg\<lparr>dev := d', sb := s,
     cache := foldl (\<lambda>c (p, img). cache_insert c p img) (cache pg) (dirty pg), dirty := []\<rparr> else pg\<lparr>dev := d'\<rparr>)"
  have nz: "\<forall>(p, img) \<in> set (dirty pg). p \<noteq> 0"
    using ok by (auto simp: pager_ok_def data_page_def FIRST_DATA_PAGE_val)
  have exec: "pager_commit ops pg = Some (r, pg')"
    using ne gen run forM_asserts[OF nz[unfolded case_prod_unfold], of pg]
    by (cases r) (simp_all add: pager_commit_def Let_def s_def bindM_def on_dev_def pg'_def case_prod_unfold)
  have dev: "dev pg' = d'" by (simp add: pg'_def)
  have v0: "volume (media (dev pg)) = page_at (media (dev pg))" by (simp add: volume_def view_clean[OF nc])
  have new: "volume (media d') 0 = sb_encode s \<and> (\<forall>p \<ge> FIRST_DATA_PAGE. volume (media d') p = content media pg p)"
    if "\<forall>p. home_page p \<longrightarrow> volume (media d') p = install ?b (volume (media (dev pg))) p"
    using that by (auto simp: install_batch[OF ok] v0 content_def home_page_def FIRST_DATA_PAGE_val)
  have fin: "pager_ok ops media good pg' \<and> dirty pg' = [] \<and> sb pg' = s \<and> page_at (media d') 0 = sb_encode s \<and>
     (\<forall>p \<ge> FIRST_DATA_PAGE. content media pg' p = content media pg p)" if "r = Inr ()"
  proof -
    have "\<not> committed (media d')" using that r by blast
    then have v': "volume (media d') = page_at (media d')" by (simp add: volume_def view_clean)
    have n: "page_at (media d') 0 = sb_encode s" "\<And>p. FIRST_DATA_PAGE \<le> p \<Longrightarrow> page_at (media d') p = content media pg p"
      using new vol that unfolding v' by auto
    show ?thesis
      using pager_ok_committed[OF ok d'(1,2) \<open>\<not> committed (media d')\<close> n(2)] n that gen
      by (simp add: pg'_def s_def content_def)
  qed
  show ?thesis
    using exec d' vol new v0 fin r by (intro exI[of _ r] exI[of _ pg']) (auto simp: dev pg'_def)
qed

text \<open>A batch that does not fit the journal is refused before anything is written.\<close>

lemma pager_commit_full:
  assumes "pager_ok ops media good pg" "JCAP \<le> length (dirty pg)" "generation (sb pg) + 1 < 2 ^ 64"
  shows "pager_commit ops pg = Some (Inl OutOfSpace, pg)"
proof -
  have nz: "\<forall>x \<in> set (dirty pg). fst x \<noteq> 0" and ne: "dirty pg \<noteq> []"
    using assms(1,2) by (auto simp: pager_ok_def data_page_def layout_vals)
  show ?thesis
    using ne assms(2,3) forM_asserts[OF nz, of pg]
    by (simp add: pager_commit_def Let_def bindM_def on_dev_def commit_def case_prod_unfold)
qed

lemma rollback_ok:
  assumes ok: "pager_ok ops media good pg" and s: "sb_decode (page_at (media (dev pg)) 0) = Inr s"
    and fit: "total_pages s = total_pages (sb pg)" "hwm s \<le> total_pages s"
  shows "rollback ops pg = Some (Inr (), pg\<lparr>dirty := [], sb := s\<rparr>)"
    "pager_ok ops media good (pg\<lparr>dirty := [], sb := s\<rparr>)"
    "content media (pg\<lparr>dirty := [], sb := s\<rparr>) = page_at (media (dev pg))"
proof -
  have "0 < total_pages (sb pg)" using ok by (simp add: pager_ok_def)
  then have "read_page ops 0 (dev pg) = Some (Inr (page_at (media (dev pg)) 0), dev pg)"
    using ok ok_on_device[OF ok] by (intro read_page_ok) (simp_all add: pager_ok_def)
  then show "rollback ops pg = Some (Inr (), pg\<lparr>dirty := [], sb := s\<rparr>)"
    using s by (simp add: rollback_def bindM_def on_dev_def)
  show "pager_ok ops media good (pg\<lparr>dirty := [], sb := s\<rparr>)"
    using ok fit sb_decode_ok[OF s] by (auto simp: pager_ok_def data_page_def)
  show "content media (pg\<lparr>dirty := [], sb := s\<rparr>) = page_at (media (dev pg))" by (simp add: content_def)
qed

text \<open>A mount shows the volume, redone if a transaction was committed.\<close>

lemma mount_ok:
  assumes "good d" "redo_fits (sector_count ops d) (media d)" "sb_decode (volume (media d) 0) = Inr s"
  shows "\<exists>r d'. mount ops d = Some (r, d') \<and> good d' \<and> sector_count ops d' = sector_count ops d \<and>
    redo_fits (sector_count ops d) (media d') \<and>
    (\<forall>p. home_page p \<longrightarrow> volume (media d') p = volume (media d) p) \<and>
    (live d' \<longrightarrow> r = Inr \<lparr>dev = d', sb = s, dirty = [], cache = []\<rparr> \<and> \<not> committed (media d') \<and>
      (\<forall>p. home_page p \<longrightarrow> page_at (media d') p = volume (media d) p))"
proof -
  from recover_keeps_volume[OF assms(1,2)] obtain r d' where run: "recover ops d = Some (r, d')"
    and d': "good d'" "sector_count ops d' = sector_count ops d" "redo_fits (sector_count ops d) (media d')"
      "\<forall>p. home_page p \<longrightarrow> volume (media d') p = volume (media d) p"
      "live d' \<longrightarrow> r = Inr (committed (media d)) \<and> \<not> committed (media d')" by blast
  have "on_device (sector_count ops d') 0"
    using assms(2) d'(2) by (intro journal_on_device) (simp_all add: redo_fits_def FIRST_DATA_PAGE_val)
  then have rd: "read_page ops 0 d' = Some (Inr (page_at (media d') 0), d')" by (rule read_page_ok[OF d'(1)])
  have vol: "page_at (media d') p = volume (media d') p" if "live d'" for p
    using d'(5) that by (simp add: volume_def view_clean)
  have h0: "home_page 0" by (simp add: home_page_def)
  obtain q where q: "mount ops d = Some (q, d')"
    "live d' \<longrightarrow> q = Inr \<lparr>dev = d', sb = s, dirty = [], cache = []\<rparr>"
  proof (cases r)
    case (Inl e)
    then have "mount ops d = Some (Inl e, d')" using run by (simp add: mount_def bindM_def)
    then show ?thesis using that d'(5) Inl by blast
  next
    case (Inr b)
    then have m: "mount ops d = bindM (liftM (sb_decode (page_at (media d') 0))) (\<lambda>s.
      bindM (getM id) (\<lambda>d. returnM \<lparr>dev = d, sb = s, dirty = [], cache = []\<rparr>)) d'"
      using run rd by (simp add: mount_def bindM_def)
    have "live d' \<longrightarrow> sb_decode (page_at (media d') 0) = Inr s" using vol d'(4) h0 assms(3) by simp
    with m show ?thesis by (cases "sb_decode (page_at (media d') 0)") (auto intro: that)
  qed
  then show ?thesis using d' vol by (intro exI[of _ q] exI[of _ d']) auto
qed

lemma format_small:
  assumes "sector_count ops d div PAGE_SECTORS \<le> FIRST_DATA_PAGE + 1"
  shows "format ops d = Some (Inl OutOfSpace, d)"
  using assms by (simp add: format_def Let_def)

lemma performs_format:
  fixes d :: 'd
  defines "s \<equiv> \<lparr>total_pages = sector_count ops d div PAGE_SECTORS, hwm = FIRST_DATA_PAGE, free_head = 0,
    catalog_head = 0, generation = 1\<rparr>"
  assumes gd: "good d" and big: "FIRST_DATA_PAGE + 1 < sector_count ops d div PAGE_SECTORS"
  shows "performs True (bindM (init ops) (\<lambda>_. bindM (write_page ops 0 (sb_encode s)) (\<lambda>_. flush ops))) d ()
    (ctrl_writes (render_ctrl [] 0 STATE_EMPTY) @ page_writes 0 (sb_encode s))"
proof -
  have n: "FIRST_DATA_PAGE * PAGE_SECTORS \<le> sector_count ops d" using big by (simp add: layout_vals)
  have "on_device (sector_count ops d) 0" by (rule journal_on_device[OF n]) (simp add: FIRST_DATA_PAGE_val)
  then have "performs False (write_page ops 0 (sb_encode s)) d1 () (page_writes 0 (sb_encode s))"
    if "good d1" "sector_count ops d1 = sector_count ops d" for d1
    using that by (intro performs_write_page) simp_all
  from performs_bind[OF this performs_flush]
  have "performs True (bindM (write_page ops 0 (sb_encode s)) (\<lambda>_. flush ops)) d1 () (page_writes 0 (sb_encode s))"
    if "good d1" "sector_count ops d1 = sector_count ops d" for d1
    using that by simp
  then show ?thesis
    unfolding init_def using performs_ctrl_flush[OF gd n, of "[]"] by (intro performs_bind) simp_all
qed

lemma format_ok:
  assumes gd: "good d" and big: "FIRST_DATA_PAGE + 1 < sector_count ops d div PAGE_SECTORS"
  shows "\<exists>r d'. format ops d = Some (r, d') \<and> good d' \<and> sector_count ops d' = sector_count ops d \<and>
    (live d' \<longrightarrow> (\<exists>pg. r = Inr pg \<and> dev pg = d' \<and> pager_ok ops media good pg \<and> alloc_ok media pg [] \<and>
       used pg [] = {} \<and> dirty pg = [] \<and> cache pg = [] \<and> catalog_head (sb pg) = 0 \<and>
       total_pages (sb pg) = sector_count ops d div PAGE_SECTORS \<and>
       page_at (media d') 0 = sb_encode (sb pg)))"
proof -
  let ?s = "\<lparr>total_pages = sector_count ops d div PAGE_SECTORS, hwm = FIRST_DATA_PAGE, free_head = 0,
    catalog_head = 0, generation = 1\<rparr>"
  let ?m = "bindM (init ops) (\<lambda>_. bindM (write_page ops 0 (sb_encode ?s)) (\<lambda>_. flush ops))"
  let ?E = "render_ctrl [] 0 STATE_EMPTY"
  from performs_format[OF gd big] obtain r d' k where
    run: "?m d = Some (r, d')" and d': "good d'" "sector_count ops d' = sector_count ops d"
    and k: "media d' = apply_writes (media d) (take k (ctrl_writes ?E @ page_writes 0 (sb_encode ?s)))"
    and r: "live d' \<longrightarrow> r = Inr () \<and> k = length (ctrl_writes ?E @ page_writes 0 (sb_encode ?s))"
    unfolding performs_def by blast
  have fmt: "format ops d = bindM ?m (\<lambda>_. bindM (getM id) (\<lambda>d. returnM \<lparr>dev = d, sb = ?s, dirty = [], cache = []\<rparr>)) d"
    using big by (simp add: format_def Let_def bindM_assoc)
  let ?pg = "\<lparr>dev = d', sb = ?s, dirty = [], cache = []\<rparr>"
  have "pager_ok ops media good ?pg \<and> page_at (media d') 0 = sb_encode ?s \<and> r = Inr ()" if "live d'"
  proof -
    have m: "media d' = apply_writes (apply_writes (media d) (ctrl_writes ?E)) (page_writes 0 (sb_encode ?s))"
      using k r that by simp
    have "media d' 8 = apply_writes (media d) (ctrl_writes ?E) 8"
      unfolding m by (rule apply_writes_frame) (simp add: set_page_writes PAGE_SECTORS_val)
    also have "\<dots> = slice ?E 0 512"
      using apply_ctrl_writes[of "[]" "media d" 32 0 STATE_EMPTY 8] by (simp add: ctrl_writes_flat length_render_ctrl)
    finally have "\<not> committed (media d')" by (rule header_empty) simp
    moreover have "page_at (media d') 0 = sb_encode ?s" unfolding m by (simp add: page_at_same)
    moreover have "sector_count ops d div PAGE_SECTORS * PAGE_SECTORS \<le> sector_count ops d" by simp
    moreover have "sector_count ops d div PAGE_SECTORS < 2 ^ 64"
      using count_bound[OF gd] div_le_dividend le_less_trans by blast
    ultimately show ?thesis using d' big r that by (simp add: pager_ok_def sb_ok_def FIRST_DATA_PAGE_val)
  qed
  moreover have "alloc_ok media ?pg []" "used ?pg [] = {}" by (simp_all add: alloc_ok_def used_def)
  ultimately show ?thesis
    using fmt run d' by (cases r) (auto simp: run_simps)
qed

end

section \<open>The pager on the RAM disk\<close>

definition attach :: "nat option \<Rightarrow> mem_dev \<Rightarrow> mem_dev" where
  "attach c d = from_snapshot (snapshot d)\<lparr>cut_after := c\<rparr>"

lemma uncut_lift: "uncut (liftM r)" "uncut (getM f)"
  by (simp_all add: uncut_def)

lemma uncut_mount: "uncut (mount mem_ops)"
  unfolding mount_def read_page_def
  by (intro uncut_bind uncut_recover uncut_mapM uncut_basic uncut_lift)

text \<open>The abstract state of a volume: superblock and data pages.\<close>

definition shows_volume :: "mem_dev pager \<Rightarrow> superblock \<Rightarrow> (nat \<Rightarrow> byte list) \<Rightarrow> bool" where
  "shows_volume pg s v \<longleftrightarrow> sb pg = s \<and> dirty pg = [] \<and> cache pg = [] \<and> \<not> committed (mem_media (dev pg)) \<and>
     (\<forall>p \<ge> FIRST_DATA_PAGE. content mem_media pg p = v p)"

lemma mount_attached:
  assumes "mem_good d" "redo_fits (sectors d) (mem_media d)" "sb_decode (volume (mem_media d) 0) = Inr s"
  shows "\<exists>pg. mount mem_ops (attach None d) = Some (Inr pg, dev pg) \<and> shows_volume pg s (volume (mem_media d))"
proof -
  note re = reattach[OF assms(1), of None, folded attach_def]
  have sc: "sector_count mem_ops d0 = sectors d0" for d0 by (simp add: mem_ops_def)
  from mem.mount_ok[of "attach None d" s] assms re obtain r d' where
    run: "mount mem_ops (attach None d) = Some (r, d')" and
    live: "powered d' \<longrightarrow> r = Inr \<lparr>dev = d', sb = s, dirty = [], cache = []\<rparr> \<and> \<not> committed (mem_media d') \<and>
      (\<forall>p. home_page p \<longrightarrow> page_at (mem_media d') p = volume (mem_media d) p)"
    unfolding sc by auto
  have "cut_after (attach None d) = None" by (simp add: attach_def)
  then have "powered d'" using uncut_mount run re(4) unfolding uncut_def by metis
  with live run show ?thesis
    by (intro exI[of _ "\<lparr>dev = d', sb = s, dirty = [], cache = []\<rparr>"])
       (simp add: shows_volume_def content_def home_page_def)
qed

lemma uncut_format: "uncut (format mem_ops)"
  unfolding format_def init_def write_ctrl_def write_page_def Let_def
  by (intro uncut_bind uncut_forM uncut_branch uncut_basic uncut_lift) (simp add: uncut_def)

text \<open>A formatted volume of 2051 pages, whose device may be set to lose power later.\<close>

lemma formatted_volume:
  "\<exists>pg. format mem_ops (blank_disk 16408 None) = Some (Inr pg, dev pg) \<and>
     pager_ok mem_ops mem_media mem_good pg \<and> alloc_ok mem_media pg [] \<and> used pg [] = {} \<and>
     dirty pg = [] \<and> cache pg = [] \<and> total_pages (sb pg) = 2051 \<and> catalog_head (sb pg) = 0 \<and>
     sb_decode (page_at (mem_media (dev pg)) 0) = Inr (sb pg) \<and> powered (dev pg) \<and> cut_after (dev pg) = None \<and>
     generation (sb pg) = 1 \<and> sectors (dev pg) = 16408 \<and> hwm (sb pg) = 2049"
proof -
  let ?d = "blank_disk 16408 None"
  have sc: "sector_count mem_ops d0 = sectors d0" for d0 by (simp add: mem_ops_def)
  from mem.format_ok[of ?d] obtain r d' where
    f: "format mem_ops ?d = Some (r, d')" "sectors d' = 16408" and
    live: "powered d' \<longrightarrow> (\<exists>pg. r = Inr pg \<and> dev pg = d' \<and> pager_ok mem_ops mem_media mem_good pg \<and>
      alloc_ok mem_media pg [] \<and> used pg [] = {} \<and> dirty pg = [] \<and> cache pg = [] \<and> catalog_head (sb pg) = 0 \<and>
      total_pages (sb pg) = 2051 \<and> page_at (mem_media d') 0 = sb_encode (sb pg))"
    by (auto simp: sc blank_good layout_vals)
  have "cut_after d' = None \<and> powered d'"
    using uncut_format f(1) unfolding uncut_def by (fastforce simp: blank_disk_def)
  with live obtain pg where pg: "r = Inr pg" "dev pg = d'" "pager_ok mem_ops mem_media mem_good pg"
      "alloc_ok mem_media pg []" "used pg [] = {}" "dirty pg = []" "cache pg = []" "catalog_head (sb pg) = 0"
      "total_pages (sb pg) = 2051" "page_at (mem_media d') 0 = sb_encode (sb pg)"
      "cut_after d' = None" "powered d'" by blast
  moreover have "generation (sb pg) = 1 \<and> hwm (sb pg) = 2049"
    using f(1) pg(1) by (auto simp: format_def Let_def bindM_eq_Some FIRST_DATA_PAGE_val split: if_splits)
  ultimately show ?thesis
    using f sb_roundtrip[of "sb pg"] by (intro exI[of _ pg]) (simp add: pager_ok_def)
qed

lemma pager_ok_cut:
  "pager_ok mem_ops mem_media mem_good pg \<Longrightarrow>
   pager_ok mem_ops mem_media mem_good (pg\<lparr>dev := (dev pg)\<lparr>cut_after := c\<rparr>\<rparr>)"
proof -
  have "mem_media ((dev pg)\<lparr>cut_after := c\<rparr>) = mem_media (dev pg)"
    by (simp add: mem_media_def fun_eq_iff)
  then show "pager_ok mem_ops mem_media mem_good pg \<Longrightarrow> ?thesis"
    by (auto simp: pager_ok_def mem_good_def mem_ops_def data_page_def)
qed

section \<open>Properties\<close>

text \<open>C4 Crash safety of a whole transaction, through the next mount. Commit the staged pages of a sound pager, with
  the device losing power at any point or not at all; recover what is left any number of times with the power
  failing at any point of each recovery; then mount. The mount succeeds and shows the volume as it was before the
  transaction, superblock included, or the volume with every staged page and the superblock of the next generation.
  If the commit reported success it is the latter.\<close>

theorem crash_then_mount:
  assumes "pager_ok mem_ops mem_media mem_good pg" "sb_decode (page_at (mem_media (dev pg)) 0) = Inr s0"
    "dirty pg \<noteq> []" "length (dirty pg) < JCAP" "generation (sb pg) + 1 < 2 ^ 64"
  shows "\<exists>r pg1 d pg2. pager_commit mem_ops pg = Some (r, pg1) \<and> reboots cuts (dev pg1) = Some d \<and>
    mount mem_ops (attach None d) = Some (Inr pg2, dev pg2) \<and>
    (shows_volume pg2 s0 (page_at (mem_media (dev pg))) \<and> r \<noteq> Inr () \<or>
     shows_volume pg2 ((sb pg)\<lparr>generation := generation (sb pg) + 1\<rparr>) (content mem_media pg))"
proof -
  let ?s = "(sb pg)\<lparr>generation := generation (sb pg) + 1\<rparr>"
  have sc: "sector_count mem_ops d0 = sectors d0" for d0 by (simp add: mem_ops_def)
  from mem.pager_commit_ok[OF assms(1,3-5), unfolded sc] obtain r pg1 where
    1: "pager_commit mem_ops pg = Some (r, pg1)" "mem_good (dev pg1)" "sectors (dev pg1) = sectors (dev pg)"
      "redo_fits (sectors (dev pg)) (mem_media (dev pg1))" and
    out: "(\<forall>p. home_page p \<longrightarrow> volume (mem_media (dev pg1)) p = page_at (mem_media (dev pg)) p) \<and> r \<noteq> Inr () \<or>
     volume (mem_media (dev pg1)) 0 = sb_encode ?s \<and>
       (\<forall>p \<ge> FIRST_DATA_PAGE. volume (mem_media (dev pg1)) p = content mem_media pg p)" by auto
  from reboots_volume[of "dev pg1" cuts] 1 obtain d where
    2: "reboots cuts (dev pg1) = Some d" "mem_good d" "redo_fits (sectors d) (mem_media d)"
      "\<And>p. home_page p \<Longrightarrow> volume (mem_media d) p = volume (mem_media (dev pg1)) p" by auto
  have h: "home_page 0" "FIRST_DATA_PAGE \<le> p \<Longrightarrow> home_page p" for p by (simp_all add: home_page_def)
  have ok: "sb_ok ?s" using assms(1,5) by (simp add: pager_ok_def sb_ok_def)
  from out show ?thesis
  proof
    assume old: "(\<forall>p. home_page p \<longrightarrow> volume (mem_media (dev pg1)) p = page_at (mem_media (dev pg)) p) \<and> r \<noteq> Inr ()"
    then have "sb_decode (volume (mem_media d) 0) = Inr s0" using 2(4) h assms(2) by simp
    from mount_attached[OF 2(2,3) this] old 1(1) 2(1,4) h show ?thesis by (fastforce simp: shows_volume_def)
  next
    assume new: "volume (mem_media (dev pg1)) 0 = sb_encode ?s \<and>
      (\<forall>p \<ge> FIRST_DATA_PAGE. volume (mem_media (dev pg1)) p = content mem_media pg p)"
    then have "sb_decode (volume (mem_media d) 0) = Inr ?s" using 2(4) h sb_roundtrip[OF ok] by simp
    from mount_attached[OF 2(2,3) this] new 1(1) 2(1,4) h show ?thesis by (fastforce simp: shows_volume_def)
  qed
qed

text \<open>The formatted volume with one staged page and a power cut after \<open>c\<close> more sector writes.\<close>

lemma staged_volume:
  "\<exists>pg. pager_ok mem_ops mem_media mem_good pg \<and> sb_decode (page_at (mem_media (dev pg)) 0) = Inr (sb pg) \<and>
     dirty pg = [(2049, zeroed_page)] \<and> generation (sb pg) = 1 \<and> cut_after (dev pg) = Some (writes (dev pg) + c)"
proof -
  from formatted_volume obtain pg where pg: "pager_ok mem_ops mem_media mem_good pg" "dirty pg = []"
    "sb_decode (page_at (mem_media (dev pg)) 0) = Inr (sb pg)" "generation (sb pg) = 1"
    "total_pages (sb pg) = 2051" by blast
  let ?pg = "pg\<lparr>dev := (dev pg)\<lparr>cut_after := Some (writes (dev pg) + c)\<rparr>\<rparr>"
  have "data_page ?pg 2049" using pg(5) by (simp add: data_page_def FIRST_DATA_PAGE_val)
  from mem.pager_write_page_ok(2)[OF pager_ok_cut[OF pg(1)] this zeroed_length] pg show ?thesis
    by (intro exI[of _ "?pg\<lparr>dirty := [(2049, zeroed_page)]\<rparr>"]) (simp add: mem_media_def[abs_def])
qed

theorem crash_then_mount_witness:
  "\<exists>pg. cut_after (dev pg) = Some (writes (dev pg) + 50) \<and> (\<exists>r pg1 d pg2. pager_commit mem_ops pg = Some (r, pg1) \<and>
    reboots [Some 5, Some 0] (dev pg1) = Some d \<and> mount mem_ops (attach None d) = Some (Inr pg2, dev pg2) \<and>
    (shows_volume pg2 (sb pg) (page_at (mem_media (dev pg))) \<and> r \<noteq> Inr () \<or>
     shows_volume pg2 ((sb pg)\<lparr>generation := generation (sb pg) + 1\<rparr>) (content mem_media pg)))"
proof -
  from staged_volume[of 50] obtain pg where
    pg: "pager_ok mem_ops mem_media mem_good pg" "sb_decode (page_at (mem_media (dev pg)) 0) = Inr (sb pg)"
      "dirty pg \<noteq> []" "length (dirty pg) < JCAP" "generation (sb pg) + 1 < 2 ^ 64"
      "cut_after (dev pg) = Some (writes (dev pg) + 50)" by (auto simp: JCAP_val)
  with crash_then_mount[OF pg(1-5), of "[Some 5, Some 0]"] show ?thesis by blast
qed

lemma format_mounts:
  assumes "mem_good d" "powered d" "cut_after d = None" "FIRST_DATA_PAGE + 1 < sectors d div PAGE_SECTORS"
  shows "\<exists>pg pg2. format mem_ops d = Some (Inr pg, dev pg) \<and> mount mem_ops (attach None (dev pg)) = Some (Inr pg2, dev pg2) \<and>
    total_pages (sb pg) = sectors d div PAGE_SECTORS \<and> catalog_head (sb pg) = 0 \<and> used pg [] = {} \<and>
    pager_ok mem_ops mem_media mem_good pg \<and> shows_volume pg2 (sb pg) (content mem_media pg)"
proof -
  have sc: "sector_count mem_ops d0 = sectors d0" for d0 by (simp add: mem_ops_def)
  from mem.format_ok[OF assms(1), unfolded sc, OF assms(4)] obtain r d' where f: "format mem_ops d = Some (r, d')"
    and n: "mem_good d'" "sectors d' = sectors d" and
    live: "powered d' \<longrightarrow> (\<exists>pg. r = Inr pg \<and> dev pg = d' \<and> pager_ok mem_ops mem_media mem_good pg \<and>
      alloc_ok mem_media pg [] \<and> used pg [] = {} \<and> dirty pg = [] \<and> cache pg = [] \<and> catalog_head (sb pg) = 0 \<and>
      total_pages (sb pg) = sectors d div PAGE_SECTORS \<and> page_at (mem_media d') 0 = sb_encode (sb pg))" by blast
  have "powered d'" using uncut_format f assms(2,3) unfolding uncut_def by blast
  with live obtain pg where pg: "r = Inr pg" "dev pg = d'" "pager_ok mem_ops mem_media mem_good pg" "dirty pg = []"
    "used pg [] = {}" "catalog_head (sb pg) = 0" "total_pages (sb pg) = sectors d div PAGE_SECTORS"
    "page_at (mem_media d') 0 = sb_encode (sb pg)" by blast
  have nc: "\<not> committed (mem_media d')" and ok: "sb_ok (sb pg)" using pg(2,3) by (auto simp: pager_ok_def)
  have v: "volume (mem_media d') = content mem_media pg"
    using pg(2,4) by (simp add: volume_def view_clean[OF nc] content_def)
  have "redo_fits (sectors d') (mem_media d')"
    using nc assms(4) n(2) by (simp add: redo_fits_def pending_def layout_vals)
  moreover have "sb_decode (volume (mem_media d') 0) = Inr (sb pg)"
    using pg(8) sb_roundtrip[OF ok] by (simp add: volume_def view_clean[OF nc])
  ultimately obtain pg2 where "mount mem_ops (attach None d') = Some (Inr pg2, dev pg2)"
      "shows_volume pg2 (sb pg) (volume (mem_media d'))"
    using mount_attached[OF n(1)] by blast
  then show ?thesis using f pg v by (intro exI[of _ pg] exI[of _ pg2]) auto
qed

text \<open>C27 Formatting a disk and mounting what is on the medium afterwards gives the formatted volume back, whatever the
  disk held before, a committed journal of an earlier volume included.\<close>

theorem format_then_mount:
  assumes "mem_good d" "powered d" "cut_after d = None" "FIRST_DATA_PAGE + 1 < sectors d div PAGE_SECTORS"
  shows "\<exists>pg pg2. format mem_ops d = Some (Inr pg, dev pg) \<and> mount mem_ops (attach None (dev pg)) = Some (Inr pg2, dev pg2) \<and>
    total_pages (sb pg) = sectors d div PAGE_SECTORS \<and> catalog_head (sb pg) = 0 \<and> used pg [] = {} \<and>
    pager_ok mem_ops mem_media mem_good pg \<and> shows_volume pg2 (sb pg) (content mem_media pg)"
  using assms by (rule format_mounts)

theorem format_then_mount_witness:
  "\<exists>pg pg2. format mem_ops (blank_disk 20000 None) = Some (Inr pg, dev pg) \<and>
    mount mem_ops (attach None (dev pg)) = Some (Inr pg2, dev pg2) \<and>
    total_pages (sb pg) = sectors (blank_disk 20000 None) div PAGE_SECTORS \<and> catalog_head (sb pg) = 0 \<and> used pg [] = {} \<and>
    pager_ok mem_ops mem_media mem_good pg \<and> shows_volume pg2 (sb pg) (content mem_media pg)"
  by (rule format_then_mount) (simp_all add: blank_good layout_vals, simp_all add: blank_disk_def)

text \<open>C18 Allocation is sound: on a sound pager whose volume is not full, \<^verbatim>\<open>alloc_page\<close> returns a data page that was not in
  use, zeroed, and the pages in use are afterwards the former ones and this one; no other page changes.\<close>

theorem alloc_page_fresh:
  assumes "pager_ok mem_ops mem_media mem_good pg" "alloc_ok mem_media pg ps"
    "ps \<noteq> [] \<or> hwm (sb pg) < total_pages (sb pg)"
  shows "\<exists>p pg' ps'. alloc_page mem_ops pg = Some (Inr p, pg') \<and> pager_ok mem_ops mem_media mem_good pg' \<and>
    alloc_ok mem_media pg' ps' \<and> data_page pg p \<and> p \<notin> used pg ps \<and> used pg' ps' = insert p (used pg ps) \<and>
    content mem_media pg' = (content mem_media pg)(p := zeroed_page)"
  using mem.alloc_page_ok[OF assms] by blast

theorem alloc_page_fresh_witness:
  "\<exists>pg. total_pages (sb pg) = 2051 \<and> (\<exists>p pg' ps'. alloc_page mem_ops pg = Some (Inr p, pg') \<and>
    pager_ok mem_ops mem_media mem_good pg' \<and> alloc_ok mem_media pg' ps' \<and> data_page pg p \<and> p \<notin> used pg [] \<and>
    used pg' ps' = insert p (used pg []) \<and> content mem_media pg' = (content mem_media pg)(p := zeroed_page))"
proof -
  from formatted_volume obtain pg where pg: "pager_ok mem_ops mem_media mem_good pg" "alloc_ok mem_media pg []"
    "total_pages (sb pg) = 2051" "hwm (sb pg) = 2049" by blast
  with alloc_page_fresh[OF pg(1,2)] show ?thesis by (intro exI[of _ pg]) simp
qed

lemma alloc_takes_head:
  "alloc_page ops pg = Some (Inr q, pg') \<Longrightarrow> free_head (sb pg) \<noteq> 0 \<Longrightarrow> q = free_head (sb pg)"
  by (auto simp: alloc_page_def bindM_eq_Some split: if_splits)

text \<open>A freed page is the next to be allocated, and the pages in use are then what they were.\<close>

theorem free_then_alloc:
  assumes "pager_ok mem_ops mem_media mem_good pg" "alloc_ok mem_media pg ps" "p \<in> used pg ps"
  shows "\<exists>pg1 pg2 ps2. free_page p pg = Some (Inr (), pg1) \<and> alloc_page mem_ops pg1 = Some (Inr p, pg2) \<and>
    alloc_ok mem_media pg2 ps2 \<and> used pg1 (p # ps) = used pg ps - {p} \<and> used pg2 ps2 = used pg ps"
proof -
  from mem.free_page_ok[OF assms] obtain pg1 where
    1: "free_page p pg = Some (Inr (), pg1)" "pager_ok mem_ops mem_media mem_good pg1" "alloc_ok mem_media pg1 (p # ps)"
      "used pg1 (p # ps) = used pg ps - {p}" by blast
  from mem.alloc_page_ok[OF 1(2,3)] obtain q pg2 ps2 where
    2: "alloc_page mem_ops pg1 = Some (Inr q, pg2)" "alloc_ok mem_media pg2 ps2"
      "used pg2 ps2 = insert q (used pg1 (p # ps))" by blast
  have "q = p" using alloc_takes_head[OF 2(1)] 1(3) by (simp add: alloc_ok_def)
  with 1 2 assms(3) show ?thesis by (intro exI[of _ pg1] exI[of _ pg2] exI[of _ ps2]) auto
qed

theorem free_then_alloc_witness:
  "\<exists>pg ps. 2049 \<in> used pg ps \<and> (\<exists>pg1 pg2 ps2. free_page 2049 pg = Some (Inr (), pg1) \<and>
    alloc_page mem_ops pg1 = Some (Inr 2049, pg2) \<and> alloc_ok mem_media pg2 ps2 \<and>
    used pg1 (2049 # ps) = used pg ps - {2049} \<and> used pg2 ps2 = used pg ps)"
proof -
  from formatted_volume obtain pg0 where pg0: "pager_ok mem_ops mem_media mem_good pg0" "alloc_ok mem_media pg0 []"
    "total_pages (sb pg0) = 2051" "hwm (sb pg0) = 2049" "used pg0 [] = {}" by blast
  from mem.alloc_page_ok[OF pg0(1,2)] pg0 obtain p pg ps where
    1: "alloc_page mem_ops pg0 = Some (Inr p, pg)" "pager_ok mem_ops mem_media mem_good pg" "alloc_ok mem_media pg ps"
      "used pg ps = {p}" by auto
  have "p = 2049"
    using 1(1) pg0(2-4) by (auto simp: alloc_page_def alloc_ok_def bindM_eq_Some pager_write_page_def)
  with 1(4) have u: "2049 \<in> used pg ps" by simp
  with free_then_alloc[OF 1(2,3) u] show ?thesis by blast
qed

text \<open>C19 Reads through the pager are coherent: after a page is staged, a read of any data page returns the staged image
  of that page and the previous content of every other one, whether it comes from the buffer, the cache or the disk;
  reading changes nothing but the cache.\<close>

theorem read_after_write:
  assumes "pager_ok mem_ops mem_media mem_good pg" "data_page pg p" "data_page pg q" "length img = PAGE"
  shows "\<exists>pg1 c. pager_write_page p img pg = Some (Inr (), pg1) \<and>
    pager_read_page mem_ops q pg1 = Some (Inr (if q = p then img else content mem_media pg q), pg1\<lparr>cache := c\<rparr>) \<and>
    pager_ok mem_ops mem_media mem_good (pg1\<lparr>cache := c\<rparr>)"
proof -
  let ?pg = "pg\<lparr>dirty := bt_insert p img (dirty pg)\<rparr>"
  note w = mem.pager_write_page_ok[OF assms(1,2,4)]
  have "content mem_media ?pg q = (if q = p then img else content mem_media pg q)" by (simp add: content_def)
  with mem.pager_read_page_ok[OF w(2), of q] assms(3) w(1) show ?thesis by (auto simp: data_page_def)
qed

theorem read_after_write_witness:
  "\<exists>pg pg1 c. pager_write_page 2049 (replicate PAGE 7) pg = Some (Inr (), pg1) \<and>
    pager_read_page mem_ops 2049 pg1 = Some (Inr (if 2049 = (2049::nat) then replicate PAGE 7 else content mem_media pg 2049), pg1\<lparr>cache := c\<rparr>) \<and>
    pager_ok mem_ops mem_media mem_good (pg1\<lparr>cache := c\<rparr>)"
proof -
  from formatted_volume obtain pg where pg: "pager_ok mem_ops mem_media mem_good pg" "total_pages (sb pg) = 2051" by blast
  then have d: "data_page pg 2049" by (simp add: data_page_def FIRST_DATA_PAGE_val)
  from read_after_write[OF pg(1) d d, of "replicate PAGE 7"] show ?thesis by auto
qed

text \<open>A rollback restores the committed state: the buffer is empty, the superblock is the one on the disk and every
  page reads as it is on the disk.\<close>

theorem rollback_restores:
  assumes "pager_ok mem_ops mem_media mem_good pg" "sb_decode (page_at (mem_media (dev pg)) 0) = Inr s"
    "total_pages s = total_pages (sb pg)" "hwm s \<le> total_pages s"
  shows "\<exists>pg'. rollback mem_ops pg = Some (Inr (), pg') \<and> pager_ok mem_ops mem_media mem_good pg' \<and> sb pg' = s \<and>
    dirty pg' = [] \<and> dev pg' = dev pg \<and> content mem_media pg' = page_at (mem_media (dev pg))"
  using mem.rollback_ok[OF assms] by auto

theorem rollback_restores_witness:
  "\<exists>pg. dirty pg = [(2049, zeroed_page)] \<and> (\<exists>pg'. rollback mem_ops pg = Some (Inr (), pg') \<and>
    pager_ok mem_ops mem_media mem_good pg' \<and> sb pg' = sb pg \<and> dirty pg' = [] \<and> dev pg' = dev pg \<and>
    content mem_media pg' = page_at (mem_media (dev pg)))"
proof -
  from staged_volume[of 0] obtain pg where
    pg: "pager_ok mem_ops mem_media mem_good pg" "sb_decode (page_at (mem_media (dev pg)) 0) = Inr (sb pg)"
      "dirty pg = [(2049, zeroed_page)]" by blast
  have "hwm (sb pg) \<le> total_pages (sb pg)" using pg(1) by (simp add: pager_ok_def)
  from rollback_restores[OF pg(1,2) _ this] pg(3) show ?thesis by auto
qed

text \<open>C33 The superblock survives its encoding, and a damaged copy is refused: changing any one byte of the checksum or of
  the fields it covers makes \<^verbatim>\<open>decode\<close> fail with \<^verbatim>\<open>Corrupt\<close>.\<close>

theorem superblock_codec:
  assumes "sb_ok s"
  shows "sb_decode (sb_encode s) = Inr s \<and>
    (\<forall>i b. 12 \<le> i \<and> i < 56 \<and> b \<noteq> sb_encode s ! i \<longrightarrow> (\<exists>e. sb_decode ((sb_encode s)[i := b]) = Inl (Corrupt e)))"
  using sb_roundtrip[OF assms] sb_detects_byte[OF length_sb_encode sb_roundtrip[OF assms]] by blast

theorem superblock_codec_witness:
  "let s = \<lparr>total_pages = 70000, hwm = 2049, free_head = 0, catalog_head = 0, generation = 5\<rparr> in
   sb_decode (sb_encode s) = Inr s \<and>
    (\<forall>i b. 12 \<le> i \<and> i < 56 \<and> b \<noteq> sb_encode s ! i \<longrightarrow> (\<exists>e. sb_decode ((sb_encode s)[i := b]) = Inl (Corrupt e)))"
  unfolding Let_def by (rule superblock_codec) (simp add: sb_ok_def)

end
