(* ===== verification/Store.thy ===== *)
theory Store
  imports Schema Pager
begin

text \<open>
  The relational layer, \<^verbatim>\<open>tablestore/src/store.rs\<close>: blob chains, the catalog, index chains of
  row heads, transactions and every operation the interface performs on tables, columns,
  foreign keys and rows.

  The source's \<^verbatim>\<open>Store\<close> is a struct with the pager as its only field, so the state of every
  action is the pager. Walks along page chains are \<^verbatim>\<open>while\<close> loops over disk pointers which end
  only if the chain is acyclic; they are partial functions whose value is \<^term>\<open>None\<close> when the walk does
  not end. \<^verbatim>\<open>Vec::with_capacity\<close> is taken to succeed.
\<close>

section \<open>Data\<close>

definition CHAIN_HDR :: nat where "CHAIN_HDR = 16"
definition CHAIN_CAP :: nat where "CHAIN_CAP = PAGE - CHAIN_HDR"
definition IDX_HDR :: nat where "IDX_HDR = 16"
definition IDX_CAP :: nat where "IDX_CAP = (PAGE - IDX_HDR) div 8"

record row_id =
  index_page :: nat
  slot :: nat

record table_info =
  info_name :: string
  info_columns :: nat
  info_rows :: nat

record cat_entry =
  cat_name :: string
  schema_head :: nat
  data_head :: nat
  row_count :: nat

type_synonym 'd store = "'d pager"
type_synonym row = "val option list"

definition rd_u64 :: "byte list \<Rightarrow> nat \<Rightarrow> nat" where
  "rd_u64 b off = of_le (slice b off (off + 8))"

definition wr_u64 :: "byte list \<Rightarrow> nat \<Rightarrow> nat \<Rightarrow> byte list" where
  "wr_u64 b off v = splice b off (le_bytes 8 v)"

text \<open>A cell of a row that may be shorter than the schema: \<^verbatim>\<open>row.get(i).cloned().flatten()\<close>.\<close>

definition cell_at :: "row \<Rightarrow> nat \<Rightarrow> val option" where
  "cell_at r i = (if i < length r then r ! i else None)"

definition quoted :: "string \<Rightarrow> string" where
  "quoted s = CHR 0x27 # s @ [CHR 0x27]"

section \<open>Opening\<close>

definition store_open :: "'d block_ops \<Rightarrow> ('d, 'd store) act" where
  "store_open ops d = map_option (\<lambda>(r, d). (case r of
      Inr p \<Rightarrow> Inr p
    | Inl e \<Rightarrow> Inl (case e of Corrupt _ \<Rightarrow> Corrupt ''uninitialised'' | _ \<Rightarrow> e), d)) (mount ops d)"

definition store_format :: "'d block_ops \<Rightarrow> ('d, 'd store) act" where
  "store_format ops = format ops"

section \<open>Blob chains\<close>

partial_function (option) read_chain_from ::
  "'d block_ops \<Rightarrow> nat \<Rightarrow> byte list \<Rightarrow> 'd store \<Rightarrow> (byte list result \<times> 'd store) option" where
  "read_chain_from ops p out s =
     (if p = 0 then Some (Inr out, s)
      else bindM (pager_read_page ops p) (\<lambda>page s.
        if rd_u64 page 8 > CHAIN_CAP then failM (Corrupt ''chain length'') s
        else read_chain_from ops (rd_u64 page 0) (out @ slice page CHAIN_HDR (CHAIN_HDR + rd_u64 page 8)) s) s)"

definition read_chain :: "'d block_ops \<Rightarrow> nat \<Rightarrow> ('d store, byte list) act" where
  "read_chain ops head = read_chain_from ops head []"

text \<open>The image of chunk \<open>i\<close> of a blob, linked to page \<open>nx\<close>.\<close>

definition chunk_image :: "byte list \<Rightarrow> nat \<Rightarrow> nat \<Rightarrow> byte list" where
  "chunk_image bytes i nx =
     (let start = i * CHAIN_CAP;
          chunk = slice bytes start (min (start + CHAIN_CAP) (length bytes));
          img = wr_u64 zeroed_page 0 nx;
          img = wr_u64 img 8 (length chunk)
      in splice img CHAIN_HDR chunk)"

definition write_chain :: "'d block_ops \<Rightarrow> byte list \<Rightarrow> ('d store, nat) act" where
  "write_chain ops bytes =
     (let nchunks = (if bytes = [] then 1 else (length bytes + CHAIN_CAP - 1) div CHAIN_CAP) in
      bindM (mapM [0..<nchunks] (\<lambda>_. alloc_page ops)) (\<lambda>pages.
      bindM (forM [0..<nchunks] (\<lambda>i.
        let nx = (if i + 1 < nchunks then pages ! (i + 1) else 0) in
        pager_write_page (pages ! i) (chunk_image bytes i nx))) (\<lambda>_.
      returnM (pages ! 0))))"

partial_function (option) free_chain ::
  "'d block_ops \<Rightarrow> nat \<Rightarrow> 'd store \<Rightarrow> (unit result \<times> 'd store) option" where
  "free_chain ops p s =
     (if p = 0 then Some (Inr (), s)
      else bindM (pager_read_page ops p) (\<lambda>page.
        bindM (free_page p) (\<lambda>_ s. free_chain ops (rd_u64 page 0) s)) s)"

section \<open>The catalog\<close>

definition put_cat :: "byte list \<Rightarrow> cat_entry \<Rightarrow> byte list" where
  "put_cat out e = put_uvarint (put_uvarint (put_uvarint (put_str out (cat_name e))
     (schema_head e)) (data_head e)) (row_count e)"

definition get_cat :: "byte list \<Rightarrow> nat \<Rightarrow> store_error + cat_entry \<times> nat" where
  "get_cat buf pos =
     bindR (get_str buf pos) (\<lambda>(n, pos).
     bindR (get_uvarint buf pos) (\<lambda>(sh, pos).
     bindR (get_uvarint buf pos) (\<lambda>(dh, pos).
     bindR (get_uvarint buf pos) (\<lambda>(rc, pos).
     Inr (\<lparr>cat_name = n, schema_head = sh, data_head = dh, row_count = rc\<rparr>, pos)))))"

definition encode_catalog :: "cat_entry list \<Rightarrow> byte list" where
  "encode_catalog cat = put_list put_cat [] cat"

definition decode_catalog :: "byte list \<Rightarrow> store_error + cat_entry list" where
  "decode_catalog bytes = bindR (get_list get_cat bytes 0) (\<lambda>(v, _). Inr v)"

definition load_catalog :: "'d block_ops \<Rightarrow> ('d store, cat_entry list) act" where
  "load_catalog ops = bindM (getM (\<lambda>s. catalog_head (sb s))) (\<lambda>head.
     if head = 0 then returnM []
     else bindM (read_chain ops head) (\<lambda>bytes. liftM (decode_catalog bytes)))"

definition store_catalog :: "'d block_ops \<Rightarrow> cat_entry list \<Rightarrow> ('d store, unit) act" where
  "store_catalog ops cat =
     bindM (getM (\<lambda>s. catalog_head (sb s))) (\<lambda>old.
     bindM (write_chain ops (encode_catalog cat)) (\<lambda>new.
     bindM (modifyM (\<lambda>s. s\<lparr>sb := (sb s)\<lparr>catalog_head := new\<rparr>\<rparr>)) (\<lambda>_.
     if old \<noteq> 0 then free_chain ops old else returnM ())))"

definition table_not_found :: "string \<Rightarrow> store_error" where
  "table_not_found name = NotFound (''table '' @ quoted name)"

definition cat_index :: "cat_entry list \<Rightarrow> string \<Rightarrow> nat result" where
  "cat_index cat name = ok_or (table_not_found name) (position (\<lambda>e. cat_name e = name) cat)"

definition schema_of :: "'d block_ops \<Rightarrow> cat_entry \<Rightarrow> ('d store, table) act" where
  "schema_of ops e = bindM (read_chain ops (schema_head e)) (\<lambda>bytes. liftM (decode_table bytes))"

section \<open>Index chains\<close>

text \<open>
  The live slots of an index page. A slot count beyond the page makes the source index out of the
  page, which aborts.
\<close>

definition page_slots :: "nat \<Rightarrow> byte list \<Rightarrow> (row_id \<times> nat) list" where
  "page_slots p page =
     map (\<lambda>s. (\<lparr>index_page = p, slot = s\<rparr>, rd_u64 page (IDX_HDR + s * 8)))
       (filter (\<lambda>s. rd_u64 page (IDX_HDR + s * 8) \<noteq> 0) [0..<rd_u64 page 8])"

partial_function (option) index_collect_from ::
  "'d block_ops \<Rightarrow> nat \<Rightarrow> (row_id \<times> nat) list \<Rightarrow> 'd store \<Rightarrow> ((row_id \<times> nat) list result \<times> 'd store) option" where
  "index_collect_from ops p out s =
     (if p = 0 then Some (Inr out, s)
      else bindM (pager_read_page ops p) (\<lambda>page.
        bindM (assertM (rd_u64 page 8 \<le> IDX_CAP)) (\<lambda>_ s.
        index_collect_from ops (rd_u64 page 0) (out @ page_slots p page) s)) s)"

definition index_collect :: "'d block_ops \<Rightarrow> nat \<Rightarrow> ('d store, (row_id \<times> nat) list) act" where
  "index_collect ops head = index_collect_from ops head []"

partial_function (option) index_append ::
  "'d block_ops \<Rightarrow> nat \<Rightarrow> nat \<Rightarrow> 'd store \<Rightarrow> (row_id result \<times> 'd store) option" where
  "index_append ops p row_head s =
     bindM (pager_read_page ops p) (\<lambda>page s.
       let nx = rd_u64 page 0; n = rd_u64 page 8 in
       if nx = 0 then
         if n < IDX_CAP then
           bindM (pager_write_page p (wr_u64 (wr_u64 page (IDX_HDR + n * 8) row_head) 8 (n + 1))) (\<lambda>_.
           returnM \<lparr>index_page = p, slot = n\<rparr>) s
         else
           bindM (alloc_page ops) (\<lambda>np.
           bindM (pager_write_page np (wr_u64 (wr_u64 zeroed_page 8 1) IDX_HDR row_head)) (\<lambda>_.
           bindM (pager_write_page p (wr_u64 page 0 np)) (\<lambda>_.
           returnM \<lparr>index_page = np, slot = 0\<rparr>))) s
       else index_append ops nx row_head s) s"

definition index_set :: "'d block_ops \<Rightarrow> nat \<Rightarrow> nat \<Rightarrow> nat \<Rightarrow> ('d store, unit) act" where
  "index_set ops ip sl v =
     bindM (pager_read_page ops ip) (\<lambda>page.
     if sl \<ge> rd_u64 page 8 then failM (NotFound ''row'')
     else
       bindM (assertM (IDX_HDR + sl * 8 + 8 \<le> length page)) (\<lambda>_.
       pager_write_page ip (wr_u64 page (IDX_HDR + sl * 8) v)))"

definition row_head_at :: "'d block_ops \<Rightarrow> row_id \<Rightarrow> ('d store, nat) act" where
  "row_head_at ops rid =
     bindM (pager_read_page ops (index_page rid)) (\<lambda>page.
     if slot rid \<ge> rd_u64 page 8 then failM (NotFound ''row'')
     else
       bindM (assertM (IDX_HDR + slot rid * 8 + 8 \<le> length page)) (\<lambda>_.
       let h = rd_u64 page (IDX_HDR + slot rid * 8) in
       if h = 0 then failM (NotFound ''row (deleted)'') else returnM h))"

definition read_row :: "'d block_ops \<Rightarrow> nat \<Rightarrow> ('d store, row) act" where
  "read_row ops head = bindM (read_chain ops head) (\<lambda>bytes. liftM (decode_row bytes))"

definition resize :: "nat \<Rightarrow> row \<Rightarrow> row" where
  "resize n cells = take n cells @ replicate (n - length cells) None"

definition decode_row_fitted :: "'d block_ops \<Rightarrow> nat \<Rightarrow> nat \<Rightarrow> ('d store, row) act" where
  "decode_row_fitted ops head ncols = bindM (read_row ops head) (\<lambda>cells. returnM (resize ncols cells))"

section \<open>Transactions\<close>

definition abort :: "'d block_ops \<Rightarrow> store_error \<Rightarrow> ('d store, 'a) act" where
  "abort ops e s = (case rollback ops s of None \<Rightarrow> None | Some (_, s') \<Rightarrow> Some (Inl e, s'))"

definition tx :: "'d block_ops \<Rightarrow> ('d store, 'a) act \<Rightarrow> ('d store, 'a) act" where
  "tx ops f s = (case f s of
      None \<Rightarrow> None
    | Some (Inr r, s') \<Rightarrow> (case pager_commit ops s' of
          None \<Rightarrow> None
        | Some (Inr _, s'') \<Rightarrow> Some (Inr r, s'')
        | Some (Inl e, s'') \<Rightarrow> abort ops e s'')
    | Some (Inl e, s') \<Rightarrow> abort ops e s')"

section \<open>Reading\<close>

definition list_tables :: "'d block_ops \<Rightarrow> ('d store, table_info list) act" where
  "list_tables ops =
     bindM (load_catalog ops) (\<lambda>cat.
     mapM cat (\<lambda>e.
       bindM (schema_of ops e) (\<lambda>t.
       returnM \<lparr>info_name = cat_name e, info_columns = length (columns t), info_rows = row_count e\<rparr>)))"

text \<open>The common start of the operations on one table: the catalog, the table's index in it and its schema.\<close>

definition with_table :: "'d block_ops \<Rightarrow> string \<Rightarrow> (cat_entry list \<Rightarrow> nat \<Rightarrow> table \<Rightarrow> ('d store, 'a) act) \<Rightarrow> ('d store, 'a) act" where
  "with_table ops name k =
     bindM (load_catalog ops) (\<lambda>cat.
     bindM (liftM (cat_index cat name)) (\<lambda>i.
     bindM (schema_of ops (cat ! i)) (\<lambda>t. k cat i t)))"

definition get_table :: "'d block_ops \<Rightarrow> string \<Rightarrow> ('d store, table) act" where
  "get_table ops name = with_table ops name (\<lambda>_ _ t. returnM t)"

definition scan :: "'d block_ops \<Rightarrow> string \<Rightarrow> ('d store, (row_id \<times> row) list) act" where
  "scan ops name = with_table ops name (\<lambda>cat i t.
     bindM (index_collect ops (data_head (cat ! i))) (\<lambda>rows.
     mapM rows (\<lambda>(id, head).
       bindM (decode_row_fitted ops head (length (columns t))) (\<lambda>r. returnM (id, r)))))"

definition get_row :: "'d block_ops \<Rightarrow> string \<Rightarrow> row_id \<Rightarrow> ('d store, row) act" where
  "get_row ops name rid = with_table ops name (\<lambda>cat i t.
     bindM (row_head_at ops rid) (\<lambda>head.
     decode_row_fitted ops head (length (columns t))))"

section \<open>Integrity\<close>

definition all_values_in :: "'d block_ops \<Rightarrow> cat_entry \<Rightarrow> nat \<Rightarrow> ('d store, val option list) act" where
  "all_values_in ops e col =
     bindM (index_collect ops (data_head e)) (\<lambda>rows.
     mapM rows (\<lambda>(_, head). bindM (read_row ops head) (\<lambda>r. returnM (cell_at r col))))"

definition check_cell :: "column \<Rightarrow> val option \<Rightarrow> unit result" where
  "check_cell c cell = (case cell of
      None \<Rightarrow> if \<not> nullable c then Inl (NullViolation (col_name c)) else Inr ()
    | Some v \<Rightarrow> if type_of v \<noteq> ty c
        then Inl (Parse (''column '' @ quoted (col_name c) @ '' expects '' @ type_name (ty c))) else Inr ())"

definition check_unique :: "'d block_ops \<Rightarrow> cat_entry \<Rightarrow> row \<Rightarrow> row_id option \<Rightarrow> nat \<times> column \<Rightarrow> ('d store, unit) act" where
  "check_unique ops e cells exclude ic = (case ic of (ci, c) \<Rightarrow>
     if \<not> unique c then returnM ()
     else case cells ! ci of
       None \<Rightarrow> returnM ()
     | Some v \<Rightarrow>
         bindM (index_collect ops (data_head e)) (\<lambda>rows.
         forM rows (\<lambda>(id, head).
           if Some id = exclude then returnM ()
           else bindM (read_row ops head) (\<lambda>other.
             if cell_at other ci = Some v then failM (UniqueViolation (col_name c)) else returnM ()))))"

definition check_fk :: "'d block_ops \<Rightarrow> cat_entry list \<Rightarrow> nat \<Rightarrow> table \<Rightarrow> row \<Rightarrow> row_id option \<Rightarrow> foreign_key \<Rightarrow> ('d store, unit) act" where
  "check_fk ops cat ti t cells exclude fk =
     bindM (liftM (ok_or (Corrupt ''fk source column'') (column_index t (from_col fk)))) (\<lambda>fi.
     case cells ! fi of
       None \<Rightarrow> returnM ()
     | Some v \<Rightarrow>
         bindM (liftM (cat_index cat (to_table fk))) (\<lambda>tj.
         bindM (schema_of ops (cat ! tj)) (\<lambda>tt.
         bindM (liftM (ok_or (Corrupt ''fk target column'') (column_index tt (to_col fk)))) (\<lambda>tcol.
         bindM (index_collect ops (data_head (cat ! tj))) (\<lambda>rows.
         bindM (anyM rows (\<lambda>(rid, head).
           if tj = ti \<and> Some rid = exclude then returnM (cell_at cells tcol = Some v)
           else bindM (read_row ops head) (\<lambda>r. returnM (cell_at r tcol = Some v)))) (\<lambda>found.
         if found then returnM () else failM (ForeignKeyViolation (fk_name fk))))))))"

definition validate :: "'d block_ops \<Rightarrow> cat_entry list \<Rightarrow> nat \<Rightarrow> table \<Rightarrow> row \<Rightarrow> row_id option \<Rightarrow> ('d store, unit) act" where
  "validate ops cat ti t cells exclude =
     (if length cells \<noteq> length (columns t) then
        failM (Parse (''row has '' @ dec_of_nat (length cells) @ '' cells, table has '' @
          dec_of_nat (length (columns t)) @ '' columns''))
      else
        bindM (forM (zip (columns t) cells) (\<lambda>(c, cell). liftM (check_cell c cell))) (\<lambda>_.
        bindM (forM (enumerate 0 (columns t)) (check_unique ops (cat ! ti) cells exclude)) (\<lambda>_.
        forM (fks t) (check_fk ops cat ti t cells exclude))))"

section \<open>Schema operations\<close>

definition create_table :: "'d block_ops \<Rightarrow> string \<Rightarrow> ('d store, unit) act" where
  "create_table ops name =
     (if name = [] then failM (SchemaRejected ''table name is empty'')
      else tx ops
        (bindM (load_catalog ops) (\<lambda>cat.
         if \<exists>e \<in> set cat. cat_name e = name then failM (Duplicate (''table '' @ quoted name))
         else
           bindM (write_chain ops (encode_table (new_table name))) (\<lambda>sh.
           bindM (write_chain ops []) (\<lambda>dh.
           store_catalog ops
             (cat @ [\<lparr>cat_name = name, schema_head = sh, data_head = dh, row_count = 0\<rparr>]))))))"

definition remove_at :: "nat \<Rightarrow> 'a list \<Rightarrow> 'a list" where
  "remove_at i xs = take i xs @ drop (Suc i) xs"

definition drop_table :: "'d block_ops \<Rightarrow> string \<Rightarrow> ('d store, unit) act" where
  "drop_table ops name = tx ops
     (bindM (load_catalog ops) (\<lambda>cat.
      bindM (liftM (cat_index cat name)) (\<lambda>i.
      bindM (forM (enumerate 0 cat) (\<lambda>(j, e).
        if j = i then returnM ()
        else bindM (schema_of ops e) (\<lambda>ot.
          if \<exists>f \<in> set (fks ot). to_table f = name
          then failM (SchemaRejected (''table '' @ quoted name @ '' is referenced by a foreign key in '' @
            quoted (cat_name e)))
          else returnM ()))) (\<lambda>_.
      bindM (index_collect ops (data_head (cat ! i))) (\<lambda>rows.
      bindM (forM rows (\<lambda>(_, head). free_chain ops head)) (\<lambda>_.
      bindM (free_chain ops (data_head (cat ! i))) (\<lambda>_.
      bindM (free_chain ops (schema_head (cat ! i))) (\<lambda>_.
      store_catalog ops (remove_at i cat)))))))))"

text \<open>
  \<^verbatim>\<open>put_schema\<close>: the closures of the source are the arguments \<open>mutate\<close> and \<open>rewrite\<close>.
\<close>

definition rewrite_row :: "'d block_ops \<Rightarrow> (row \<Rightarrow> ('d store, row) act) \<Rightarrow> row_id \<times> nat \<Rightarrow> ('d store, unit) act" where
  "rewrite_row ops f rh = (case rh of (rid, head) \<Rightarrow>
     bindM (read_row ops head) (\<lambda>cells.
     bindM (f cells) (\<lambda>cells.
     bindM (free_chain ops head) (\<lambda>_.
     bindM (write_chain ops (encode_row cells)) (\<lambda>nh.
     index_set ops (index_page rid) (slot rid) nh)))))"

definition put_schema :: "'d block_ops \<Rightarrow> string \<Rightarrow> (table \<Rightarrow> ('d store, table) act) \<Rightarrow>
    (row \<Rightarrow> ('d store, row) act) option \<Rightarrow> ('d store, unit) act" where
  "put_schema ops name mutate rewrite = tx ops
     (with_table ops name (\<lambda>cat i t.
      bindM (mutate t) (\<lambda>t.
      bindM (case rewrite of
          None \<Rightarrow> returnM ()
        | Some f \<Rightarrow> bindM (index_collect ops (data_head (cat ! i))) (\<lambda>rows. forM rows (rewrite_row ops f))) (\<lambda>_.
      bindM (write_chain ops (encode_table t)) (\<lambda>sh.
      bindM (free_chain ops (schema_head (cat ! i))) (\<lambda>_.
      store_catalog ops (cat[i := (cat ! i)\<lparr>schema_head := sh\<rparr>])))))))"

definition column_not_found :: "string \<Rightarrow> store_error" where
  "column_not_found col = NotFound (''column '' @ quoted col)"

definition add_column :: "'d block_ops \<Rightarrow> string \<Rightarrow> column \<Rightarrow> ('d store, unit) act" where
  "add_column ops name col =
     bindM (if \<not> nullable col then
         bindM (load_catalog ops) (\<lambda>cat.
         bindM (liftM (cat_index cat name)) (\<lambda>i.
         if row_count (cat ! i) > 0
         then failM (SchemaRejected ''table has rows; a new column must be nullable (existing rows receive NULL)'')
         else returnM ()))
       else returnM ()) (\<lambda>_.
     put_schema ops name
       (\<lambda>t. if column_named t (col_name col) \<noteq> None
          then failM (Duplicate (''column '' @ quoted (col_name col)))
          else returnM (t\<lparr>columns := columns t @ [col]\<rparr>))
       (Some (\<lambda>cells. returnM (cells @ [None]))))"

definition targets :: "string \<Rightarrow> string \<Rightarrow> table \<Rightarrow> bool" where
  "targets name col ot \<longleftrightarrow> (\<exists>f \<in> set (fks ot). to_table f = name \<and> to_col f = col)"

definition drop_column :: "'d block_ops \<Rightarrow> string \<Rightarrow> string \<Rightarrow> ('d store, unit) act" where
  "drop_column ops name col = with_table ops name (\<lambda>cat i t.
     bindM (liftM (ok_or (column_not_found col) (column_index t col))) (\<lambda>idx.
     if \<exists>f \<in> set (fks t). from_col f = col
     then failM (SchemaRejected (''column '' @ quoted col @ '' carries a foreign key''))
     else
       bindM (forM cat (\<lambda>e. bindM (schema_of ops e) (\<lambda>ot.
         if targets name col ot
         then failM (SchemaRejected (''column '' @ quoted col @ '' is targeted by a foreign key in '' @ quoted (cat_name e)))
         else returnM ()))) (\<lambda>_.
       put_schema ops name
         (\<lambda>t. bindM (assertM (idx < length (columns t))) (\<lambda>_.
            returnM (t\<lparr>columns := remove_at idx (columns t), ref_cols := filter (\<lambda>n. n \<noteq> col) (ref_cols t)\<rparr>)))
         (Some (\<lambda>cells. returnM (if idx < length cells then remove_at idx cells else cells))))))"

definition insert_at :: "nat \<Rightarrow> 'a \<Rightarrow> 'a list \<Rightarrow> 'a list" where
  "insert_at i x xs = take i xs @ x # drop i xs"

definition move_perm :: "nat \<Rightarrow> nat \<Rightarrow> nat \<Rightarrow> nat list" where
  "move_perm n old new = insert_at new ([0..<n] ! old) (remove_at old [0..<n])"

text \<open>The row transformation of \<^verbatim>\<open>move_column\<close>: \<^verbatim>\<open>cells[new_i] = original[old_i]\<close> along the permutation.\<close>

definition permute_row :: "nat list \<Rightarrow> nat \<Rightarrow> row \<Rightarrow> row" where
  "permute_row perm n cells = (let original = resize n cells in
     foldl (\<lambda>r (i, j). r[i := original ! j]) original (enumerate 0 perm))"

definition move_column :: "'d block_ops \<Rightarrow> string \<Rightarrow> string \<Rightarrow> nat \<Rightarrow> ('d store, unit) act" where
  "move_column ops name col new = with_table ops name (\<lambda>cat i t.
     let n = length (columns t) in
     bindM (liftM (ok_or (column_not_found col) (column_index t col))) (\<lambda>old.
     if new \<ge> n then failM (SchemaRejected (''new column index '' @ dec_of_nat new @
       '' out of range (0..'' @ dec_of_nat n @ '')''))
     else if new = old then returnM ()
     else
       put_schema ops name
         (\<lambda>t. bindM (assertM (old < length (columns t) \<and> new < length (columns t))) (\<lambda>_.
            returnM (t\<lparr>columns := insert_at new (columns t ! old) (remove_at old (columns t))\<rparr>)))
         (Some (\<lambda>cells. returnM (permute_row (move_perm n old new) n cells)))))"

text \<open>
  \<^verbatim>\<open>rename_column\<close> visits every schema: \<open>mentions\<close> is its flag \<^verbatim>\<open>changed\<close>, \<open>rename_in\<close> the schema with
  the new name.
\<close>

definition mentions :: "string \<Rightarrow> string \<Rightarrow> bool \<Rightarrow> table \<Rightarrow> bool" where
  "mentions name old owns ot \<longleftrightarrow>
     owns \<and> ((\<exists>c \<in> set (columns ot). col_name c = old) \<or> old \<in> set (ref_cols ot) \<or>
       (\<exists>f \<in> set (fks ot). from_col f = old)) \<or> targets name old ot"

definition rename_fk :: "string \<Rightarrow> string \<Rightarrow> string \<Rightarrow> bool \<Rightarrow> foreign_key \<Rightarrow> foreign_key" where
  "rename_fk name old new owns fk =
     (let fk = (if owns \<and> from_col fk = old then fk\<lparr>from_col := new\<rparr> else fk) in
      if to_table fk = name \<and> to_col fk = old then fk\<lparr>to_col := new\<rparr> else fk)"

definition rename_in :: "string \<Rightarrow> string \<Rightarrow> string \<Rightarrow> bool \<Rightarrow> table \<Rightarrow> table" where
  "rename_in name old new owns ot =
     (let ot = (if owns then ot\<lparr>
            columns := map (\<lambda>c. if col_name c = old then c\<lparr>col_name := new\<rparr> else c) (columns ot),
            ref_cols := map (\<lambda>r. if r = old then new else r) (ref_cols ot)\<rparr>
          else ot)
      in ot\<lparr>fks := map (rename_fk name old new owns) (fks ot)\<rparr>)"

definition rename_column :: "'d block_ops \<Rightarrow> string \<Rightarrow> string \<Rightarrow> string \<Rightarrow> ('d store, unit) act" where
  "rename_column ops name old new =
     (if new = [] then failM (SchemaRejected ''column name is empty'')
      else if old = new then returnM ()
      else tx ops (with_table ops name (\<lambda>cat i t.
        if column_named t old = None then failM (column_not_found old)
        else if column_named t new \<noteq> None then failM (Duplicate (''column '' @ quoted new))
        else
          bindM (mapM cat (\<lambda>e.
            bindM (schema_of ops e) (\<lambda>ot.
            let owns = (cat_name e = name) in
            if mentions name old owns ot then
              bindM (write_chain ops (encode_table (rename_in name old new owns ot))) (\<lambda>sh.
              bindM (free_chain ops (schema_head e)) (\<lambda>_.
              returnM (e\<lparr>schema_head := sh\<rparr>)))
            else returnM e))) (\<lambda>cat.
          store_catalog ops cat))))"

fun first_dup :: "val list \<Rightarrow> val option list \<Rightarrow> bool" where
  "first_dup seen [] = False"
| "first_dup seen (None # vs) = first_dup seen vs"
| "first_dup seen (Some v # vs) = (if v \<in> set seen then True else first_dup (seen @ [v]) vs)"

definition set_unique :: "'d block_ops \<Rightarrow> string \<Rightarrow> string \<Rightarrow> bool \<Rightarrow> ('d store, unit) act" where
  "set_unique ops name col uq = with_table ops name (\<lambda>cat i t.
     bindM (liftM (ok_or (column_not_found col) (column_index t col))) (\<lambda>ci.
     bindM (if \<not> uq then
         forM cat (\<lambda>ce. bindM (schema_of ops ce) (\<lambda>ot.
           if targets name col ot
           then failM (SchemaRejected (quoted col @ '' is a foreign-key target and must stay UNIQUE''))
           else returnM ()))
       else
         bindM (all_values_in ops (cat ! i) ci) (\<lambda>vals.
         if first_dup [] vals
         then failM (SchemaRejected (''column '' @ quoted col @ '' already contains duplicate values''))
         else returnM ())) (\<lambda>_.
     put_schema ops name
       (\<lambda>t. bindM (assertM (ci < length (columns t))) (\<lambda>_.
          returnM (t\<lparr>columns := (columns t)[ci := (columns t ! ci)\<lparr>unique := uq\<rparr>]\<rparr>)))
       None)))"

text \<open>The name of a new foreign key: the first of \<open>c_fk\<close>, \<open>c_fk2\<close>, \<open>c_fk3\<close>, \<open>\<dots>\<close> which is not taken.\<close>

partial_function (option) fresh_fk :: "string list \<Rightarrow> string \<Rightarrow> string \<Rightarrow> nat \<Rightarrow> string option" where
  "fresh_fk existing fc cand n =
     (if cand \<in> set existing then fresh_fk existing fc (fc @ ''_fk'' @ dec_of_nat n) (n + 1) else Some cand)"

definition add_fk :: "'d block_ops \<Rightarrow> string \<Rightarrow> string \<Rightarrow> string \<Rightarrow> string \<Rightarrow> ('d store, unit) act" where
  "add_fk ops name fc tot toc = with_table ops name (\<lambda>cat i t.
     bindM (liftM (ok_or (column_not_found fc) (column_named t fc))) (\<lambda>c.
     bindM (liftM (cat_index cat tot)) (\<lambda>j.
     bindM (schema_of ops (cat ! j)) (\<lambda>tt.
     bindM (liftM (ok_or (column_not_found (tot @ ''.'' @ toc)) (column_named tt toc))) (\<lambda>tc.
     if \<not> unique tc then failM (SchemaRejected (''foreign-key target '' @ quoted (tot @ ''.'' @ toc) @ '' must be UNIQUE''))
     else if ty c \<noteq> ty tc then failM (SchemaRejected ''foreign-key column and target must share a type'')
     else
       bindM (unwrapM (column_index tt toc)) (\<lambda>tci.
       bindM (all_values_in ops (cat ! j) tci) (\<lambda>tvals.
       bindM (unwrapM (column_index t fc)) (\<lambda>fci.
       bindM (all_values_in ops (cat ! i) fci) (\<lambda>vals.
       bindM (forM vals (\<lambda>ov. case ov of
           None \<Rightarrow> returnM ()
         | Some v \<Rightarrow> if Some v \<in> set tvals then returnM ()
             else failM (SchemaRejected (''existing value '' @ display v @ '' has no match in '' @ tot @ ''.'' @ toc)))) (\<lambda>_.
       bindM (unwrapM (fresh_fk (map fk_name (fks t)) fc (fc @ ''_fk'') 2)) (\<lambda>name_fk.
       put_schema ops name
         (\<lambda>t. returnM (t\<lparr>fks := fks t @ [\<lparr>fk_name = name_fk, from_col = fc, to_table = tot, to_col = toc\<rparr>]\<rparr>))
         None)))))))))))"

definition drop_fk :: "'d block_ops \<Rightarrow> string \<Rightarrow> string \<Rightarrow> ('d store, unit) act" where
  "drop_fk ops name fkn = put_schema ops name
     (\<lambda>t. let kept = filter (\<lambda>f. fk_name f \<noteq> fkn) (fks t) in
        if length kept = length (fks t) then failM (NotFound (''foreign key '' @ quoted fkn))
        else returnM (t\<lparr>fks := kept\<rparr>))
     None"

fun check_ref_cols :: "table \<Rightarrow> string list \<Rightarrow> string list \<Rightarrow> unit result" where
  "check_ref_cols t seen [] = Inr ()"
| "check_ref_cols t seen (c # cs) =
     (if column_named t c = None then Inl (column_not_found c)
      else if c \<in> set seen then Inl (Duplicate (''reference column '' @ quoted c))
      else check_ref_cols t (seen @ [c]) cs)"

definition set_reference_columns :: "'d block_ops \<Rightarrow> string \<Rightarrow> string list \<Rightarrow> ('d store, unit) act" where
  "set_reference_columns ops name cols = put_schema ops name
     (\<lambda>t. bindM (liftM (check_ref_cols t [] cols)) (\<lambda>_. returnM (t\<lparr>ref_cols := cols\<rparr>)))
     None"

definition set_display_width :: "'d block_ops \<Rightarrow> string \<Rightarrow> string \<Rightarrow> nat option \<Rightarrow> ('d store, unit) act" where
  "set_display_width ops name col w = put_schema ops name
     (\<lambda>t. bindM (liftM (ok_or (column_not_found col) (column_index t col))) (\<lambda>ci.
        returnM (t\<lparr>columns := (columns t)[ci := (columns t ! ci)\<lparr>display_width := w\<rparr>]\<rparr>)))
     None"

section \<open>Rows\<close>

definition insert_row :: "'d block_ops \<Rightarrow> string \<Rightarrow> row \<Rightarrow> ('d store, row_id) act" where
  "insert_row ops name cells = tx ops (with_table ops name (\<lambda>cat i t.
     bindM (validate ops cat i t cells None) (\<lambda>_.
     bindM (write_chain ops (encode_row cells)) (\<lambda>head.
     bindM (index_append ops (data_head (cat ! i)) head) (\<lambda>rid.
     bindM (assertM (row_count (cat ! i) + 1 < 2 ^ 64)) (\<lambda>_.
     bindM (store_catalog ops (cat[i := (cat ! i)\<lparr>row_count := row_count (cat ! i) + 1\<rparr>])) (\<lambda>_.
     returnM rid)))))))"

text \<open>
  The restrict rule of \<^verbatim>\<open>update\<close> and \<^verbatim>\<open>delete\<close>: refuse if a row of table \<open>j\<close>, other than the row \<open>rid\<close> of
  table \<open>i\<close> itself, holds \<open>key\<close> in column \<open>fci\<close>.
\<close>

definition refuse_references :: "'d block_ops \<Rightarrow> cat_entry list \<Rightarrow> nat \<Rightarrow> row_id \<Rightarrow> nat \<Rightarrow> nat \<Rightarrow> val \<Rightarrow> foreign_key
    \<Rightarrow> ('d store, unit) act" where
  "refuse_references ops cat i rid j fci key fk =
     bindM (index_collect ops (data_head (cat ! j))) (\<lambda>rows.
     forM rows (\<lambda>(r, rh).
       if j = i \<and> r = rid then returnM ()
       else bindM (read_row ops rh) (\<lambda>orow.
         if cell_at orow fci = Some key then failM (ForeignKeyViolation (fk_name fk)) else returnM ())))"

definition update_row :: "'d block_ops \<Rightarrow> string \<Rightarrow> row_id \<Rightarrow> row \<Rightarrow> ('d store, unit) act" where
  "update_row ops name rid cells = tx ops (with_table ops name (\<lambda>cat i t.
     bindM (validate ops cat i t cells (Some rid)) (\<lambda>_.
     bindM (row_head_at ops rid) (\<lambda>old.
     bindM (decode_row_fitted ops old (length (columns t))) (\<lambda>old_row.
     bindM (forM (enumerate 0 cat) (\<lambda>(j, e).
       bindM (schema_of ops e) (\<lambda>ot.
       forM (fks ot) (\<lambda>fk.
         if to_table fk \<noteq> name then returnM ()
         else bindM (unwrapM (column_index t (to_col fk))) (\<lambda>tci.
           case cell_at old_row tci of
             None \<Rightarrow> returnM ()
           | Some old_key \<Rightarrow>
               if cell_at cells tci = Some old_key then returnM ()
               else bindM (unwrapM (column_index ot (from_col fk))) (\<lambda>fci.
                 refuse_references ops cat i rid j fci old_key fk)))))) (\<lambda>_.
     bindM (write_chain ops (encode_row cells)) (\<lambda>new.
     bindM (index_set ops (index_page rid) (slot rid) new) (\<lambda>_.
     free_chain ops old))))))))"

definition delete_row :: "'d block_ops \<Rightarrow> string \<Rightarrow> row_id \<Rightarrow> ('d store, unit) act" where
  "delete_row ops name rid = tx ops (with_table ops name (\<lambda>cat i t.
     bindM (row_head_at ops rid) (\<lambda>head.
     bindM (decode_row_fitted ops head (length (columns t))) (\<lambda>r.
     bindM (forM (enumerate 0 cat) (\<lambda>(j, e).
       bindM (schema_of ops e) (\<lambda>ot.
       forM (fks ot) (\<lambda>fk.
         if to_table fk \<noteq> name then returnM ()
         else bindM (unwrapM (column_index t (to_col fk))) (\<lambda>tci.
           case cell_at r tci of
             None \<Rightarrow> returnM ()
           | Some key \<Rightarrow>
               bindM (unwrapM (column_index ot (from_col fk))) (\<lambda>fci.
               refuse_references ops cat i rid j fci key fk)))))) (\<lambda>_.
     bindM (free_chain ops head) (\<lambda>_.
     bindM (index_set ops (index_page rid) (slot rid) 0) (\<lambda>_.
     store_catalog ops (cat[i := (cat ! i)\<lparr>row_count := row_count (cat ! i) - 1\<rparr>]))))))))"

section \<open>Navigation\<close>

definition follow_fk :: "'d block_ops \<Rightarrow> string \<Rightarrow> row_id \<Rightarrow> string \<Rightarrow> ('d store, string \<times> (row_id \<times> row) list) act" where
  "follow_fk ops name rid fkn = with_table ops name (\<lambda>cat i t.
     bindM (liftM (ok_or (NotFound (''foreign key '' @ quoted fkn)) (find (\<lambda>f. fk_name f = fkn) (fks t)))) (\<lambda>fk.
     bindM (unwrapM (column_index t (from_col fk))) (\<lambda>fci.
     bindM (row_head_at ops rid) (\<lambda>head.
     bindM (decode_row_fitted ops head (length (columns t))) (\<lambda>r.
     case cell_at r fci of
       None \<Rightarrow> returnM (to_table fk, [])
     | Some key \<Rightarrow>
         bindM (liftM (cat_index cat (to_table fk))) (\<lambda>j.
         bindM (schema_of ops (cat ! j)) (\<lambda>tt.
         bindM (unwrapM (column_index tt (to_col fk))) (\<lambda>tci.
         bindM (index_collect ops (data_head (cat ! j))) (\<lambda>rows.
         bindM (mapM rows (\<lambda>(r, rh).
           bindM (decode_row_fitted ops rh (length (columns tt))) (\<lambda>row. returnM (r, row)))) (\<lambda>all.
         returnM (to_table fk, filter (\<lambda>(_, row). cell_at row tci = Some key) all)))))))))))"

definition referencing_rows :: "'d block_ops \<Rightarrow> string \<Rightarrow> row_id \<Rightarrow>
    ('d store, (string \<times> string \<times> row_id \<times> row) list) act" where
  "referencing_rows ops name rid = with_table ops name (\<lambda>cat i t.
     bindM (row_head_at ops rid) (\<lambda>head.
     bindM (decode_row_fitted ops head (length (columns t))) (\<lambda>r.
     bindM (mapM (enumerate 0 cat) (\<lambda>(j, e).
       bindM (schema_of ops e) (\<lambda>ot.
       bindM (mapM (fks ot) (\<lambda>fk.
         if to_table fk \<noteq> name then returnM []
         else bindM (unwrapM (column_index t (to_col fk))) (\<lambda>tci.
           case cell_at r tci of
             None \<Rightarrow> returnM []
           | Some key \<Rightarrow>
               bindM (unwrapM (column_index ot (from_col fk))) (\<lambda>fci.
               bindM (index_collect ops (data_head (cat ! j))) (\<lambda>rows.
               bindM (mapM rows (\<lambda>(q, rh).
                 bindM (decode_row_fitted ops rh (length (columns ot))) (\<lambda>orow. returnM (q, orow)))) (\<lambda>all.
               returnM (map (\<lambda>(q, orow). (cat_name e, fk_name fk, q, orow))
                 (filter (\<lambda>(_, orow). cell_at orow fci = Some key) all)))))))) (\<lambda>lists.
       returnM (concat lists))))) (\<lambda>lists.
     returnM (concat lists)))))"

definition sync :: "'d block_ops \<Rightarrow> ('d store, unit) act" where
  "sync ops = on_dev (flush ops)"

definition store_generation :: "'d store \<Rightarrow> nat" where
  "store_generation s = generation (sb s)"

end
