(* ===== verification/Store_Tx.thy ===== *)
theory Store_Tx
  imports Store
begin

text \<open>
  Transactions of the store: every action inside a transaction works on the pager's buffer and
  leaves the device alone, so an operation that fails before the journal has started leaves the
  store as it was. This holds for every operation of \<^verbatim>\<open>store.rs\<close>, on any volume, damaged ones
  included.
\<close>

named_theorems keeps "actions which only touch the pager's buffers"

section \<open>Actions that leave the device alone\<close>

definition coherent :: "'d block_ops \<Rightarrow> ('d \<Rightarrow> disk) \<Rightarrow> ('d \<Rightarrow> bool) \<Rightarrow> 'd store \<Rightarrow> bool" where
  "coherent ops media good s \<longleftrightarrow> good (dev s) \<and> total_pages (sb s) * PAGE_SECTORS \<le> sector_count ops (dev s) \<and>
     (\<forall>(p, img) \<in> set (cache s). page_at (media (dev s)) p = img)"

definition kept :: "'d block_ops \<Rightarrow> ('d \<Rightarrow> disk) \<Rightarrow> ('d \<Rightarrow> bool) \<Rightarrow> 'd store \<Rightarrow> 'd store \<Rightarrow> bool" where
  "kept ops media good s s' \<longleftrightarrow> dev s' = dev s \<and> coherent ops media good s' \<and>
     total_pages (sb s') = total_pages (sb s) \<and> generation (sb s') = generation (sb s)"

lemma kept_refl: "coherent ops media good s \<Longrightarrow> kept ops media good s s"
  by (simp add: kept_def)

lemma kept_trans: "kept ops media good s s' \<Longrightarrow> kept ops media good s' s'' \<Longrightarrow> kept ops media good s s''"
  by (simp add: kept_def)

lemma kept_coherent: "kept ops media good s s' \<Longrightarrow> coherent ops media good s'"
  by (simp add: kept_def)

definition read_kept :: "'d block_ops \<Rightarrow> ('d \<Rightarrow> disk) \<Rightarrow> ('d \<Rightarrow> bool) \<Rightarrow> 'd store \<Rightarrow> 'd store \<Rightarrow> bool" where
  "read_kept ops media good s s' \<longleftrightarrow> coherent ops media good s' \<and> (\<exists>c. s' = s\<lparr>cache := c\<rparr>)"

text \<open>
  A relation between the states before and after an action: reflexive, transitive, keeping the
  cache coherent, and including the effect of a page read. Everything that is built from reads and
  pure steps then respects it.
\<close>

locale store_relation = block_device ops media live good
  for ops :: "'d block_ops" and media live good +
  fixes R :: "'d store \<Rightarrow> 'd store \<Rightarrow> bool"
  assumes R_refl: "coherent ops media good s \<Longrightarrow> R s s"
    and R_trans: "R s s' \<Longrightarrow> R s' s'' \<Longrightarrow> R s s''"
    and R_coherent: "R s s' \<Longrightarrow> coherent ops media good s'"
    and R_read: "read_kept ops media good s s' \<Longrightarrow> R s s'"
begin

definition keeps_disk :: "('d store, 'a) act \<Rightarrow> bool" where
  "keeps_disk m \<longleftrightarrow> (\<forall>s r s'. coherent ops media good s \<and> m s = Some (r, s') \<longrightarrow> R s s')"

lemma keeps_diskD: "keeps_disk m \<Longrightarrow> coherent ops media good s \<Longrightarrow> m s = Some (r, s') \<Longrightarrow> R s s'"
  by (auto simp: keeps_disk_def)

lemma keeps_bind [keeps]: "keeps_disk m \<Longrightarrow> (\<And>x. keeps_disk (k x)) \<Longrightarrow> keeps_disk (bindM m k)"
  unfolding keeps_disk_def bindM_eq_Some by (blast intro: R_trans R_coherent)

lemma keeps_basic [keeps]:
  "keeps_disk (returnM x)" "keeps_disk (failM e)" "keeps_disk (liftM r)" "keeps_disk (getM f)"
  "keeps_disk (assertM b)" "keeps_disk panicM" "keeps_disk (unwrapM ov)"
  by (auto simp: keeps_disk_def R_refl unwrapM_def split: option.splits)

lemma keeps_branch [keeps]:
  "keeps_disk m1 \<Longrightarrow> (\<And>x. keeps_disk (m2 x)) \<Longrightarrow> keeps_disk (case c of None \<Rightarrow> m1 | Some x \<Rightarrow> m2 x)"
  "(\<And>x y. keeps_disk (m3 x y)) \<Longrightarrow> keeps_disk (case p of (x, y) \<Rightarrow> m3 x y)"
  "keeps_disk m4 \<Longrightarrow> keeps_disk m5 \<Longrightarrow> keeps_disk (if b then m4 else m5)"
  "(\<And>y. keeps_disk (m6 y)) \<Longrightarrow> keeps_disk (let y = v in m6 y)"
  by (simp_all split: option.split prod.split)

lemma keeps_forM [keeps]: "(\<And>x. keeps_disk (f x)) \<Longrightarrow> keeps_disk (forM xs f)"
  by (induction xs) (simp_all only: forM.simps keeps_bind keeps_basic)

lemma keeps_mapM [keeps]: "(\<And>x. keeps_disk (g x)) \<Longrightarrow> keeps_disk (mapM xs g)"
  by (induction xs) (simp_all only: mapM.simps keeps_bind keeps_basic)

lemma keeps_anyM [keeps]: "(\<And>x. keeps_disk (h x)) \<Longrightarrow> keeps_disk (anyM xs h)"
  by (induction xs) (simp_all only: anyM.simps keeps_bind keeps_basic keeps_branch)

lemma keeps_read_page [keeps]: "keeps_disk (pager_read_page ops p)"
  unfolding keeps_disk_def
proof (intro allI impI, elim conjE)
  fix s r s' assume c: "coherent ops media good s" and run: "pager_read_page ops p s = Some (r, s')"
  consider "s' = s" | "p < total_pages (sb s)" "map_of (dirty s) p = None" "map_of (cache s) p = None"
    using run by (auto simp: pager_read_page_def split: option.splits if_splits)
  then show "R s s'"
  proof cases
    case 1
    with c show ?thesis by (simp add: R_refl)
  next
    case 2
    then have "Suc p * PAGE_SECTORS \<le> total_pages (sb s) * PAGE_SECTORS" by (intro mult_le_mono1) simp
    then have "read_page ops p (dev s) = Some (Inr (page_at (media (dev s)) p), dev s)"
      using c by (intro read_page_ok) (simp_all add: coherent_def on_device_def)
    then have "s' = s\<lparr>cache := cache_insert (cache s) p (page_at (media (dev s)) p)\<rparr>"
      using run 2 by (simp add: pager_read_page_def on_dev_def bindM_def)
    with c show ?thesis
      using cache_insert_ok(2)[of "cache s" p "page_at (media (dev s)) p"]
      by (intro R_read) (auto simp: read_kept_def coherent_def)
  qed
qed

text \<open>Walks along chains, by induction on the computation.\<close>

lemma bindM_kept:
  assumes "bindM m k s = Some y" "keeps_disk m" "coherent ops media good s"
    and "\<And>x s' z. coherent ops media good s' \<Longrightarrow> k x s' = Some z \<Longrightarrow> R s' (snd z)"
  shows "R s (snd y)"
proof -
  obtain r t where y: "y = (r, t)" by (cases y)
  from assms(1)[unfolded y bindM_eq_Some] show ?thesis
  proof (elim disjE exE conjE)
    fix e assume "m s = Some (Inl e, t)"
    then show ?thesis using keeps_diskD[OF assms(2,3)] by (simp add: y)
  next
    fix x s' assume m: "m s = Some (Inr x, s')" and k: "k x s' = Some (r, t)"
    have 1: "R s s'" by (rule keeps_diskD[OF assms(2,3) m])
    show ?thesis using R_trans[OF 1 assms(4)[OF R_coherent[OF 1] k]] by (simp add: y)
  qed
qed

lemma keeps_read_chain_from [keeps]: "keeps_disk (read_chain_from ops p out)"
proof -
  have "ops = ops \<longrightarrow> coherent ops media good s \<longrightarrow> R s (snd y)"
    if "read_chain_from ops p out s = Some y" for s y
    using that
  proof (rule read_chain_from.raw_induct[where P = "\<lambda>ops' p out s y. ops' = ops \<longrightarrow>
      coherent ops media good s \<longrightarrow> R s (snd y)", rotated], intro impI)
    fix f ops' p out s y
    assume IH: "\<And>p out s b y. f p out s b = Some y \<Longrightarrow>
        p = ops \<longrightarrow> coherent ops media good b \<longrightarrow> R b (snd y)"
      and run: "(if p = 0 then Some (Inr out, s) else bindM (pager_read_page ops' p) (\<lambda>page s.
        if rd_u64 page 8 > CHAIN_CAP then failM (Corrupt ''chain length'') s
        else f ops' (rd_u64 page 0) (out @ slice page CHAIN_HDR (CHAIN_HDR + rd_u64 page 8)) s) s) = Some y"
      and c: "coherent ops media good s" and o: "ops' = ops"
    show "R s (snd y)"
    proof (cases "p = 0")
      case True
      with run c show ?thesis by (auto simp: R_refl)
    next
      case False
      with run[unfolded o] have "bindM (pager_read_page ops p) (\<lambda>page s.
        if rd_u64 page 8 > CHAIN_CAP then failM (Corrupt ''chain length'') s
        else f ops (rd_u64 page 0) (out @ slice page CHAIN_HDR (CHAIN_HDR + rd_u64 page 8)) s) s = Some y" by simp
      then show ?thesis
        by (rule bindM_kept) (auto intro: keeps c R_refl dest: IH split: if_splits)
    qed
  qed
  then show ?thesis by (auto simp: keeps_disk_def)
qed

lemma keeps_index_collect_from [keeps]: "keeps_disk (index_collect_from ops p out)"
proof -
  have "ops = ops \<longrightarrow> coherent ops media good s \<longrightarrow> R s (snd y)"
    if "index_collect_from ops p out s = Some y" for s y
    using that
  proof (rule index_collect_from.raw_induct[where P = "\<lambda>ops' p out s y. ops' = ops \<longrightarrow>
      coherent ops media good s \<longrightarrow> R s (snd y)", rotated], intro impI)
    fix f ops' p out s y
    assume IH: "\<And>p out s b y. f p out s b = Some y \<Longrightarrow>
        p = ops \<longrightarrow> coherent ops media good b \<longrightarrow> R b (snd y)"
      and run: "(if p = 0 then Some (Inr out, s) else bindM (pager_read_page ops' p) (\<lambda>page.
        bindM (assertM (rd_u64 page 8 \<le> IDX_CAP)) (\<lambda>_. f ops' (rd_u64 page 0) (out @ page_slots p page))) s) = Some y"
      and c: "coherent ops media good s" and o: "ops' = ops"
    show "R s (snd y)"
    proof (cases "p = 0")
      case True
      with run c show ?thesis by (auto simp: R_refl)
    next
      case False
      with run[unfolded o] have "bindM (pager_read_page ops p) (\<lambda>page.
        bindM (assertM (rd_u64 page 8 \<le> IDX_CAP)) (\<lambda>_. f ops (rd_u64 page 0) (out @ page_slots p page))) s = Some y" by simp
      then show ?thesis
        by (rule bindM_kept) (auto intro: keeps c dest: IH split: if_splits)
    qed
  qed
  then show ?thesis by (auto simp: keeps_disk_def)
qed

lemma keeps_reads [keeps]:
  "keeps_disk (read_chain ops p)" "keeps_disk (index_collect ops p)" "keeps_disk (row_head_at ops rid)"
  unfolding read_chain_def index_collect_def row_head_at_def Let_def by (intro keeps)+

lemma keeps_row_reads [keeps]:
  "keeps_disk (load_catalog ops)" "keeps_disk (schema_of ops e)" "keeps_disk (read_row ops h)"
  unfolding load_catalog_def schema_of_def read_row_def by (intro keeps)+

lemma keeps_value_reads [keeps]:
  "keeps_disk (decode_row_fitted ops h n)" "keeps_disk (all_values_in ops e i)"
  unfolding decode_row_fitted_def all_values_in_def by (intro keeps)+

lemma keeps_with_table [keeps]: "(\<And>cat i t. keeps_disk (k cat i t)) \<Longrightarrow> keeps_disk (with_table ops name k)"
  unfolding with_table_def by (intro keeps)

lemma keeps_checks [keeps]:
  "keeps_disk (check_unique ops e cells ex ic)" "keeps_disk (check_fk ops cat i t cells ex fk)"
  "keeps_disk (refuse_references ops cat i rid j fci key fk)"
  unfolding check_unique_def check_fk_def refuse_references_def by (intro keeps)+

lemma keeps_validate [keeps]: "keeps_disk (validate ops cat i t cells ex)"
  unfolding validate_def by (intro keeps)

end

sublocale block_device \<subseteq> rd: store_relation ops media live good "read_kept ops media good"
proof (unfold_locales, goal_cases)
  case (1 s)
  then show ?case by (auto simp: read_kept_def intro: exI[of _ "cache s"])
next
  case (2 s s' s'')
  then show ?case by (auto simp: read_kept_def)
qed (auto simp: read_kept_def)

sublocale block_device \<subseteq> kp: store_relation ops media live good "kept ops media good"
  by unfold_locales (auto simp: kept_def read_kept_def)

context block_device
begin

lemma keeps_modify [keeps]:
  "(\<And>s. dev (f s) = dev s \<and> cache (f s) = cache s \<and> total_pages (sb (f s)) = total_pages (sb s) \<and>
     generation (sb (f s)) = generation (sb s)) \<Longrightarrow>
   kp.keeps_disk (modifyM f)"
  by (auto simp: kp.keeps_disk_def kept_def coherent_def)

lemma keeps_pager [keeps]:
  "kp.keeps_disk (pager_write_page p img)" "kp.keeps_disk (free_page p)" "kp.keeps_disk (alloc_page ops)"
  unfolding pager_write_page_def free_page_def alloc_page_def by (intro keeps; simp)+

lemma keeps_free_chain [keeps]: "kp.keeps_disk (free_chain ops p)"
proof -
  have "ops = ops \<longrightarrow> coherent ops media good s \<longrightarrow> kept ops media good s (snd y)"
    if "free_chain ops p s = Some y" for s y
    using that
  proof (rule free_chain.raw_induct[where P = "\<lambda>ops' p s y. ops' = ops \<longrightarrow>
      coherent ops media good s \<longrightarrow> kept ops media good s (snd y)", rotated], intro impI)
    fix f ops' p s y
    assume IH: "\<And>p s b y. f p s b = Some y \<Longrightarrow>
        p = ops \<longrightarrow> coherent ops media good b \<longrightarrow> kept ops media good b (snd y)"
      and run: "(if p = 0 then Some (Inr (), s) else bindM (pager_read_page ops' p) (\<lambda>page.
        bindM (free_page p) (\<lambda>_. f ops' (rd_u64 page 0))) s) = Some y"
      and c: "coherent ops media good s" and o: "ops' = ops"
    show "kept ops media good s (snd y)"
    proof (cases "p = 0")
      case True
      with run c show ?thesis by (auto simp: kept_def)
    next
      case False
      with run[unfolded o] have "bindM (bindM (pager_read_page ops p) (\<lambda>page.
        bindM (free_page p) (\<lambda>_. returnM page))) (\<lambda>page. f ops (rd_u64 page 0)) s = Some y"
        by (simp add: bindM_assoc)
      then show ?thesis
        by (rule kp.bindM_kept) (auto intro: keeps c dest: IH)
    qed
  qed
  then show ?thesis by (auto simp: kp.keeps_disk_def)
qed

lemma keeps_index_append [keeps]: "kp.keeps_disk (index_append ops p h)"
proof -
  have "ops = ops \<longrightarrow> coherent ops media good s \<longrightarrow> kept ops media good s (snd y)"
    if "index_append ops p h s = Some y" for s y
    using that
  proof (rule index_append.raw_induct[where P = "\<lambda>ops' p h s y. ops' = ops \<longrightarrow>
      coherent ops media good s \<longrightarrow> kept ops media good s (snd y)", rotated], intro impI)
    fix f ops' p h s y
    assume IH: "\<And>p h s b y. f p h s b = Some y \<Longrightarrow>
        p = ops \<longrightarrow> coherent ops media good b \<longrightarrow> kept ops media good b (snd y)"
      and run: "bindM (pager_read_page ops' p) (\<lambda>page s.
       let nx = rd_u64 page 0; n = rd_u64 page 8 in
       if nx = 0 then
         if n < IDX_CAP then
           bindM (pager_write_page p (wr_u64 (wr_u64 page (IDX_HDR + n * 8) h) 8 (n + 1))) (\<lambda>_.
           returnM \<lparr>index_page = p, slot = n\<rparr>) s
         else
           bindM (alloc_page ops') (\<lambda>np.
           bindM (pager_write_page np (wr_u64 (wr_u64 zeroed_page 8 1) IDX_HDR h)) (\<lambda>_.
           bindM (pager_write_page p (wr_u64 page 0 np)) (\<lambda>_.
           returnM \<lparr>index_page = np, slot = 0\<rparr>))) s
       else f ops' nx h s) s = Some y"
      and c: "coherent ops media good s" and o: "ops' = ops"
    have append: "kp.keeps_disk (bindM (pager_write_page p img) (\<lambda>_. returnM (x :: row_id)))" for img x
      by (intro keeps)
    have extend: "kp.keeps_disk (bindM (alloc_page ops) (\<lambda>np. bindM (pager_write_page np img) (\<lambda>_.
        bindM (pager_write_page p (wr_u64 page 0 np)) (\<lambda>_. returnM (x np :: row_id)))))" for img page x
      by (intro keeps)
    from run[unfolded o Let_def] show "kept ops media good s (snd y)"
      by (rule kp.bindM_kept[OF _ kp.keeps_read_page c])
         (use IH append extend in \<open>auto simp: kp.keeps_disk_def simp del: run_basic split: if_splits\<close>)
  qed
  then show ?thesis by (auto simp: kp.keeps_disk_def)
qed

lemma keeps_writes [keeps]:
  "kp.keeps_disk (write_chain ops bs)" "kp.keeps_disk (index_set ops p sl v)"
  unfolding write_chain_def index_set_def Let_def by (intro keeps)+

lemma keeps_store_catalog [keeps]: "kp.keeps_disk (store_catalog ops cat)"
  unfolding store_catalog_def by (intro keeps; simp)

lemma keeps_rewrite [keeps]: "(\<And>c. kp.keeps_disk (f c)) \<Longrightarrow> kp.keeps_disk (rewrite_row ops f rh)"
  unfolding rewrite_row_def by (intro keeps)

end

section \<open>Errors of the journal\<close>

context block_device
begin

text \<open>A device operation fails with \<^const>\<open>Io\<close> only.\<close>

definition io_only :: "('d, 'a) act \<Rightarrow> bool" where
  "io_only m \<longleftrightarrow> (\<forall>d r d'. good d \<and> m d = Some (r, d') \<longrightarrow> good d' \<and> (\<forall>e. r = Inl e \<longrightarrow> e = Io))"

lemma io_only_bind: "io_only m \<Longrightarrow> (\<And>x. io_only (k x)) \<Longrightarrow> io_only (bindM m k)"
  unfolding io_only_def bindM_eq_Some by blast

lemma io_only_basic: "io_only (returnM x)" "io_only (assertM b)" "io_only (flush ops)"
  by (auto simp: io_only_def flush_ok split: if_splits)

lemma io_only_forM: "(\<And>x. x \<in> set xs \<Longrightarrow> io_only (f x)) \<Longrightarrow> io_only (forM xs f)"
  by (induction xs) (simp_all only: forM.simps io_only_bind io_only_basic list.set_intros)

lemma io_only_write_sector: "length buf = SECTOR \<Longrightarrow> io_only (write_sector ops lba buf)"
  unfolding io_only_def
proof (intro allI impI, elim conjE)
  fix d r d' assume a: "length buf = SECTOR" "good d" "write_sector ops lba buf d = Some (r, d')"
  show "good d' \<and> (\<forall>e. r = Inl e \<longrightarrow> e = Io)"
    using write_ok[OF a(2) _ a(1), of lba] write_out[OF a(2) _ a(1), of lba] a(2,3)
    by (cases "lba < sector_count ops d") auto
qed

lemma io_only_write_page: "io_only (write_page ops p img)"
proof (cases "length img = PAGE")
  case True
  then have "io_only (write_sector ops (p * PAGE_SECTORS + i) (slice img (i * SECTOR) (i * SECTOR + SECTOR)))"
    if "i < PAGE_SECTORS" for i
    using that by (intro io_only_write_sector) (simp add: layout_vals)
  then show ?thesis
    unfolding write_page_def by (intro io_only_bind io_only_basic io_only_forM) simp
next
  case False
  then show ?thesis by (simp add: write_page_def io_only_def)
qed

lemma io_only_write_ctrl: "io_only (write_ctrl ops buf)"
  unfolding write_ctrl_def by (intro io_only_forM io_only_write_page)

text \<open>A commit that fails for another reason than the device has not started.\<close>

lemma commit_early:
  assumes "good d" "commit ops txid batch d = Some (Inl e, d')" "e \<noteq> Io"
  shows "d' = d \<and> JCAP < length batch \<and> e = OutOfSpace"
proof (cases "length batch > JCAP")
  case True
  with assms(2) show ?thesis by (simp add: commit_def)
next
  case False
  have "io_only (commit ops txid batch)"
    unfolding commit_def if_not_P[OF False] Let_def case_prod_unfold
    by (intro io_only_bind io_only_basic io_only_forM io_only_write_page io_only_write_ctrl)
  with assms show ?thesis by (auto simp: io_only_def)
qed

end

section \<open>A failed operation changes nothing\<close>

text \<open>
  \<open>quiet\<close>: between two operations the buffer is empty and the superblock in memory is the one on
  the medium.
\<close>

definition quiet :: "'d block_ops \<Rightarrow> ('d \<Rightarrow> disk) \<Rightarrow> ('d \<Rightarrow> bool) \<Rightarrow> 'd store \<Rightarrow> bool" where
  "quiet ops media good s \<longleftrightarrow> coherent ops media good s \<and> dirty s = [] \<and> 0 < total_pages (sb s) \<and>
     sb_decode (page_at (media (dev s)) 0) = Inr (sb s)"

lemma quiet_read: "quiet ops media good s \<Longrightarrow> read_kept ops media good s s' \<Longrightarrow> quiet ops media good s'"
  by (auto simp: quiet_def read_kept_def)

named_theorems clean "operations whose failure changes nothing"

context block_device
begin

definition fails_clean :: "('d store, 'a) act \<Rightarrow> bool" where
  "fails_clean m \<longleftrightarrow> (\<forall>s e s'. quiet ops media good s \<and> m s = Some (Inl e, s') \<and> e \<noteq> Io \<longrightarrow>
     read_kept ops media good s s')"

lemma abort_restores:
  assumes q: "quiet ops media good s" and k: "kept ops media good s t" and run: "abort ops e t = Some (r, s')"
  shows "r = Inl e \<and> read_kept ops media good s s'"
proof -
  have d: "dev t = dev s" "coherent ops media good t" using k by (simp_all add: kept_def)
  have "1 * PAGE_SECTORS \<le> total_pages (sb s) * PAGE_SECTORS" using q by (intro mult_le_mono1) (simp add: quiet_def)
  also have "\<dots> \<le> sector_count ops (dev s)" using q by (simp add: quiet_def coherent_def)
  finally have "read_page ops 0 (dev t) = Some (Inr (page_at (media (dev t)) 0), dev t)"
    using q d by (intro read_page_ok) (simp_all add: quiet_def coherent_def on_device_def)
  then have "rollback ops t = Some (Inr (), t\<lparr>dirty := [], sb := sb s\<rparr>)"
    using q d by (simp add: rollback_def bindM_def on_dev_def quiet_def)
  then have "s' = t\<lparr>dirty := [], sb := sb s\<rparr>" "r = Inl e" using run by (simp_all add: abort_def)
  moreover have "t\<lparr>dirty := [], sb := sb s\<rparr> = s\<lparr>cache := cache t\<rparr>"
    using q d by (cases s; cases t) (simp add: quiet_def)
  ultimately show ?thesis
    using d q by (auto simp: read_kept_def coherent_def quiet_def)
qed

lemma pager_commit_early:
  assumes "coherent ops media good t" "pager_commit ops t = Some (Inl e, t')" "e \<noteq> Io"
  shows "t' = t"
proof -
  have g: "good (dev t)" using assms(1) by (simp add: coherent_def)
  from assms(2) show ?thesis
    using commit_early[OF g _ assms(3)]
    by (auto simp: pager_commit_def Let_def bindM_eq_Some on_dev_def case_prod_unfold forM_assert_result split: if_splits)
qed

lemma clean_tx [clean]:
  fixes f :: "('d store, 'a) act"
  assumes "kp.keeps_disk f"
  shows "fails_clean (tx ops f)"
  unfolding fails_clean_def
proof (intro allI impI, elim conjE)
  fix s e s' assume q: "quiet ops media good s" and run: "tx ops f s = Some (Inl e, s')" and e: "e \<noteq> Io"
  have c: "coherent ops media good s" using q by (simp add: quiet_def)
  obtain r t where f: "f s = Some (r, t)" using run by (auto simp: tx_def split: option.splits)
  have k: "kept ops media good s t" by (rule kp.keeps_diskD[OF assms c f])
  show "read_kept ops media good s s'"
  proof (cases r)
    case (Inl e')
    then show ?thesis using abort_restores[OF q k, of e' "Inl e :: 'a result" s'] run f by (simp add: tx_def)
  next
    case (Inr x)
    then obtain e' t' where pc: "pager_commit ops t = Some (Inl e', t')"
        "(abort ops e' t' :: ('a result \<times> 'd store) option) = Some (Inl e, s')"
      using run f by (auto simp: tx_def split: option.splits sum.splits)
    then have "e' = e" by (auto simp: abort_def split: option.splits)
    then have "t' = t" using pager_commit_early[OF kept_coherent[OF k] pc(1)] e by simp
    then show ?thesis using abort_restores[OF q k] pc(2) by blast
  qed
qed

lemma clean_read: "rd.keeps_disk m \<Longrightarrow> fails_clean m"
  by (auto simp: fails_clean_def rd.keeps_disk_def quiet_def)

lemma clean_bind [clean]: "rd.keeps_disk m \<Longrightarrow> (\<And>x. fails_clean (k x)) \<Longrightarrow> fails_clean (bindM m k)"
  unfolding fails_clean_def
proof (intro allI impI, elim conjE)
  fix s e s' assume m: "rd.keeps_disk m" and q: "quiet ops media good s" and e: "e \<noteq> Io"
    and k: "\<And>x. \<forall>s e s'. quiet ops media good s \<and> k x s = Some (Inl e, s') \<and> e \<noteq> Io \<longrightarrow> read_kept ops media good s s'"
    and run: "bindM m k s = Some (Inl e, s')"
  have c: "coherent ops media good s" using q by (simp add: quiet_def)
  from run[unfolded bindM_eq_Some] show "read_kept ops media good s s'"
  proof (elim disjE exE conjE)
    fix x t assume 1: "m s = Some (Inr x, t)" and 2: "k x t = Some (Inl e, s')"
    have r: "read_kept ops media good s t" by (rule rd.keeps_diskD[OF m c 1])
    show ?thesis using k quiet_read[OF q r] 2 e rd.R_trans[OF r] by blast
  qed (use rd.keeps_diskD[OF m c] in blast)
qed

lemma clean_branch [clean]:
  "fails_clean m1 \<Longrightarrow> fails_clean m2 \<Longrightarrow> fails_clean (if b then m1 else m2)"
  "fails_clean (returnM x)" "fails_clean (failM e)"
  "(\<And>y. fails_clean (m3 y)) \<Longrightarrow> fails_clean (let y = v in m3 y)"
  "(\<And>cat i t. fails_clean (m4 cat i t)) \<Longrightarrow> fails_clean (with_table ops name m4)"
  unfolding with_table_def by (intro clean keeps | simp add: clean_read[OF rd.keeps_basic(1)] clean_read[OF rd.keeps_basic(2)])+

end

section \<open>All operations\<close>

datatype operation =
    CreateTable string
  | DropTable string
  | AddColumn string column
  | DropColumn string string
  | MoveColumn string string nat
  | RenameColumn string string string
  | SetUnique string string bool
  | AddFk string string string string
  | DropFk string string
  | SetReferenceColumns string "string list"
  | SetDisplayWidth string string "nat option"
  | Insert string row
  | Update string row_id row
  | Delete string row_id

fun run_op :: "'d block_ops \<Rightarrow> operation \<Rightarrow> ('d store, row_id option) act" where
  "run_op ops (CreateTable n) = bindM (create_table ops n) (\<lambda>_. returnM None)"
| "run_op ops (DropTable n) = bindM (drop_table ops n) (\<lambda>_. returnM None)"
| "run_op ops (AddColumn n c) = bindM (add_column ops n c) (\<lambda>_. returnM None)"
| "run_op ops (DropColumn n c) = bindM (drop_column ops n c) (\<lambda>_. returnM None)"
| "run_op ops (MoveColumn n c i) = bindM (move_column ops n c i) (\<lambda>_. returnM None)"
| "run_op ops (RenameColumn n a b) = bindM (rename_column ops n a b) (\<lambda>_. returnM None)"
| "run_op ops (SetUnique n c b) = bindM (set_unique ops n c b) (\<lambda>_. returnM None)"
| "run_op ops (AddFk n c t tc) = bindM (add_fk ops n c t tc) (\<lambda>_. returnM None)"
| "run_op ops (DropFk n f) = bindM (drop_fk ops n f) (\<lambda>_. returnM None)"
| "run_op ops (SetReferenceColumns n cs) = bindM (set_reference_columns ops n cs) (\<lambda>_. returnM None)"
| "run_op ops (SetDisplayWidth n c w) = bindM (set_display_width ops n c w) (\<lambda>_. returnM None)"
| "run_op ops (Insert n cells) = bindM (insert_row ops n cells) (\<lambda>rid. returnM (Some rid))"
| "run_op ops (Update n rid cells) = bindM (update_row ops n rid cells) (\<lambda>_. returnM None)"
| "run_op ops (Delete n rid) = bindM (delete_row ops n rid) (\<lambda>_. returnM None)"

context block_device
begin

lemma clean_put_schema [clean]:
  "(\<And>t. kp.keeps_disk (mutate t)) \<Longrightarrow> fails_clean (put_schema ops name mutate None)"
  "(\<And>t. kp.keeps_disk (mutate t)) \<Longrightarrow> (\<And>r. kp.keeps_disk (f r)) \<Longrightarrow>
   fails_clean (put_schema ops name mutate (Some f))"
  unfolding put_schema_def option.case by (intro clean keeps; assumption)+

lemma clean_operations:
  "fails_clean (create_table ops n)" "fails_clean (drop_table ops n)" "fails_clean (rename_column ops n a b)"
  "fails_clean (add_column ops n col)" "fails_clean (drop_column ops n c)"
  "fails_clean (move_column ops n c i)" "fails_clean (set_unique ops n c u)" "fails_clean (add_fk ops n c m tc)"
  "fails_clean (drop_fk ops n fkn)" "fails_clean (set_reference_columns ops n cs)"
  "fails_clean (set_display_width ops n c w)"
  "fails_clean (insert_row ops n cells)" "fails_clean (update_row ops n rid cells)" "fails_clean (delete_row ops n rid)"
  unfolding create_table_def drop_table_def rename_column_def add_column_def drop_column_def move_column_def
    set_unique_def add_fk_def drop_fk_def set_reference_columns_def set_display_width_def insert_row_def
    update_row_def delete_row_def
  by (intro clean keeps)+

lemma clean_map: "fails_clean m \<Longrightarrow> fails_clean (bindM m (\<lambda>x. returnM (g x)))"
  by (auto simp: fails_clean_def bindM_eq_Some)

lemma run_op_clean: "fails_clean (run_op ops p)"
  by (cases p) (simp_all only: run_op.simps clean_map clean_operations)

end

section \<open>Properties\<close>

text \<open>C5 Every operation of the store is all or nothing in memory: if any of the fourteen mutating operations, applied
  between transactions on any volume, returns an error other than a device failure, then the device, the superblock and
  the (empty) write buffer are exactly as before; only the read cache may have grown, and it still mirrors the disk.\<close>

theorem failed_operation_changes_nothing:
  assumes "quiet mem_ops mem_media mem_good s" "run_op mem_ops opn s = Some (Inl e, s')" "e \<noteq> Io"
  shows "\<exists>c. s' = s\<lparr>cache := c\<rparr> \<and> quiet mem_ops mem_media mem_good s'"
proof -
  have "read_kept mem_ops mem_media mem_good s s'"
    using mem.run_op_clean[of opn] assms unfolding mem.fails_clean_def by blast
  with quiet_read[OF assms(1) this] show ?thesis by (auto simp: read_kept_def)
qed

lemma formatted_quiet:
  "\<exists>s. quiet mem_ops mem_media mem_good s \<and> pager_ok mem_ops mem_media mem_good s \<and> catalog_head (sb s) = 0"
proof -
  from formatted_volume obtain pg where pg: "pager_ok mem_ops mem_media mem_good pg" "dirty pg = []"
    "sb_decode (page_at (mem_media (dev pg)) 0) = Inr (sb pg)" "total_pages (sb pg) = 2051" "catalog_head (sb pg) = 0"
    "cache pg = []" by blast
  have "coherent mem_ops mem_media mem_good pg" using pg(1,6) by (simp add: coherent_def pager_ok_def)
  with pg show ?thesis by (intro exI[of _ pg]) (simp add: quiet_def)
qed

theorem failed_operation_changes_nothing_witness:
  "\<exists>s s' e. quiet mem_ops mem_media mem_good s \<and> run_op mem_ops (DropTable ''t'') s = Some (Inl e, s') \<and> e \<noteq> Io \<and>
    (\<exists>c. s' = s\<lparr>cache := c\<rparr> \<and> quiet mem_ops mem_media mem_good s')"
proof -
  from formatted_quiet obtain s where q: "quiet mem_ops mem_media mem_good s"
    and ok: "pager_ok mem_ops mem_media mem_good s" and c: "catalog_head (sb s) = 0" by blast
  have fit: "hwm (sb s) \<le> total_pages (sb s)" using ok by (simp add: pager_ok_def)
  have "sb_decode (page_at (mem_media (dev s)) 0) = Inr (sb s)" using q by (simp add: quiet_def)
  from mem.rollback_ok(1)[OF ok this refl fit]
  have run: "run_op mem_ops (DropTable ''t'') s = Some (Inl (table_not_found ''t''), s\<lparr>dirty := [], sb := sb s\<rparr>)"
    using c by (simp add: drop_table_def tx_def load_catalog_def cat_index_def bindM_def abort_def)
  have ne: "table_not_found ''t'' \<noteq> Io" by (simp add: table_not_found_def)
  from q run ne failed_operation_changes_nothing[OF q run ne] show ?thesis
    by (intro exI[of _ s] exI[of _ "s\<lparr>dirty := [], sb := sb s\<rparr>"] exI[of _ "table_not_found ''t''"] conjI)
qed

end
