(* ===== verification/Store_Chains.thy ===== *)
theory Store_Chains
  imports Store
begin

text \<open>
  Page chains of the store: a blob written by \<open>write_chain\<close> is read back by \<open>read_chain\<close>, and
  \<open>free_chain\<close> returns exactly its pages to the allocator. The proofs are for every device that
  meets the contract of the block layer, over the pager's abstraction \<open>content\<close>.
\<close>

definition chunk_of :: "byte list \<Rightarrow> byte list" where
  "chunk_of page = slice page CHAIN_HDR (CHAIN_HDR + rd_u64 page 8)"

definition chain_bytes :: "(nat \<Rightarrow> byte list) \<Rightarrow> nat list \<Rightarrow> byte list" where
  "chain_bytes v ps = concat (map (\<lambda>p. chunk_of (v p)) ps)"

text \<open>\<open>blob v h ps bs\<close>: the pages \<open>ps\<close> are the chain from \<open>h\<close> and hold the bytes \<open>bs\<close>.\<close>

definition blob :: "(nat \<Rightarrow> byte list) \<Rightarrow> nat \<Rightarrow> nat list \<Rightarrow> byte list \<Rightarrow> bool" where
  "blob v h ps bs \<longleftrightarrow> linked v h ps \<and> (\<forall>p \<in> set ps. rd_u64 (v p) 8 \<le> CHAIN_CAP) \<and> chain_bytes v ps = bs"

lemma rd_u64_0: "rd_u64 b 0 = of_le (slice b 0 8)"
  by (simp add: rd_u64_def)

lemma chain_bytes_cong: "(\<And>p. p \<in> set ps \<Longrightarrow> v p = v' p) \<Longrightarrow> chain_bytes v ps = chain_bytes v' ps"
  by (simp add: chain_bytes_def cong: map_cong)

lemma blob_cong: "(\<And>p. p \<in> set ps \<Longrightarrow> v p = v' p) \<Longrightarrow> blob v h ps bs = blob v' h ps bs"
  using linked_cong[of ps v v' h] chain_bytes_cong[of ps v v'] by (auto simp: blob_def)

section \<open>The image of a chunk\<close>

definition chunk :: "byte list \<Rightarrow> nat \<Rightarrow> byte list" where
  "chunk bytes i = take CHAIN_CAP (drop (i * CHAIN_CAP) bytes)"

lemma CHAIN_CAP_val: "CHAIN_CAP = 4080"
  by (simp add: CHAIN_CAP_def CHAIN_HDR_def PAGE_val)

lemma length_chunk: "length (chunk bytes i) \<le> CHAIN_CAP"
  by (simp add: chunk_def)

lemma chunk_image_eq:
  "chunk_image bytes i nx = le_bytes 8 nx @ le_bytes 8 (length (chunk bytes i)) @ chunk bytes i @
     replicate (CHAIN_CAP - length (chunk bytes i)) 0"
proof -
  have c: "slice bytes (i * CHAIN_CAP) (min (i * CHAIN_CAP + CHAIN_CAP) (length bytes)) = chunk bytes i"
    by (simp add: slice_def chunk_def min_def)
  let ?hdr = "le_bytes 8 nx @ le_bytes 8 (length (chunk bytes i))"
  have "chunk_image bytes i nx = splice zeroed_page 0 (?hdr @ chunk bytes i)"
    unfolding chunk_image_def Let_def c using length_chunk[of bytes i]
    by (simp add: wr_u64_def splice_adjacent PAGE_val CHAIN_HDR_def CHAIN_CAP_val)
  then show ?thesis using length_chunk[of bytes i] by (simp add: splice_def zeroed_page_def PAGE_val CHAIN_CAP_val)
qed

lemma chunk_image_fields:
  assumes "nx < 2 ^ 64"
  shows "length (chunk_image bytes i nx) = PAGE" "of_le (slice (chunk_image bytes i nx) 0 8) = nx"
    "rd_u64 (chunk_image bytes i nx) 8 \<le> CHAIN_CAP" "chunk_of (chunk_image bytes i nx) = chunk bytes i"
proof -
  have l: "length (chunk bytes i) \<le> 4080" using length_chunk[of bytes i] by (simp add: CHAIN_CAP_val)
  show "length (chunk_image bytes i nx) = PAGE" using l by (simp add: chunk_image_eq PAGE_val CHAIN_CAP_val)
  show "of_le (slice (chunk_image bytes i nx) 0 8) = nx"
    using assms by (simp add: chunk_image_eq slice_append_left slice_all of_le_le_bytes)
  have n: "rd_u64 (chunk_image bytes i nx) 8 = length (chunk bytes i)"
    using l by (simp add: rd_u64_def chunk_image_eq slice_append_left slice_append_right slice_all of_le_le_bytes)
  then show "rd_u64 (chunk_image bytes i nx) 8 \<le> CHAIN_CAP" using l by (simp add: CHAIN_CAP_val)
  show "chunk_of (chunk_image bytes i nx) = chunk bytes i"
    by (simp add: chunk_of_def n CHAIN_HDR_def) (simp add: chunk_image_eq slice_append_left slice_append_right slice_all)
qed

lemma concat_chunks: "concat (map (chunk bytes) [0..<n]) = take (n * CHAIN_CAP) bytes"
  by (induction n) (simp_all add: chunk_def take_add add.commute[of CHAIN_CAP])

lemma linked_by_index:
  assumes "ps \<noteq> []" "0 \<notin> set ps"
    "\<And>i. i < length ps \<Longrightarrow> of_le (slice (v (ps ! i)) 0 8) = (if i + 1 < length ps then ps ! (i + 1) else 0)"
  shows "linked v (ps ! 0) ps"
  using assms
proof (induction ps)
  case (Cons p ps)
  show ?case
  proof (cases ps)
    case Nil
    then show ?thesis using Cons.prems(2) Cons.prems(3)[of 0] by simp
  next
    case (Cons q qs)
    have "linked v (ps ! 0) ps"
      using Cons.prems(2) Cons.prems(3)[of "Suc _"] Cons by (intro Cons.IH) auto
    moreover have "of_le (slice (v p) 0 8) = ps ! 0" using Cons.prems(3)[of 0] Cons by simp
    ultimately show ?thesis using Cons.prems(2) by simp
  qed
qed simp

text \<open>Pages left to allocate.\<close>

definition room :: "'d pager \<Rightarrow> nat list \<Rightarrow> nat" where
  "room pg ps = total_pages (sb pg) - FIRST_DATA_PAGE - card (used pg ps)"

lemma room_free:
  assumes "alloc_ok media pg ps" "0 < room pg ps"
  shows "ps \<noteq> [] \<or> hwm (sb pg) < total_pages (sb pg)"
proof (rule ccontr)
  assume "\<not> ?thesis"
  then have "ps = []" "\<not> hwm (sb pg) < total_pages (sb pg)" by simp_all
  then show False using assms(2) by (simp add: room_def used_def)
qed

lemma finite_used: "finite (used pg ps)"
  by (simp add: used_def)

text \<open>The number of pages of a blob: an empty one takes a page too.\<close>

definition chunks :: "byte list \<Rightarrow> nat" where
  "chunks bs = (if bs = [] then 1 else (length bs + CHAIN_CAP - 1) div CHAIN_CAP)"

lemma chunks_max: "chunks bs = max 1 ((length bs + CHAIN_CAP - 1) div CHAIN_CAP)"
proof (cases bs)
  case (Cons b bs')
  then have "CHAIN_CAP div CHAIN_CAP \<le> (length bs + CHAIN_CAP - 1) div CHAIN_CAP" by (intro div_le_mono) simp
  then show ?thesis using Cons by (simp add: chunks_def CHAIN_CAP_val)
qed (simp add: chunks_def CHAIN_CAP_val)

context block_device
begin

lemma read_chain_from_ok:
  assumes "pager_ok ops media good pg" "linked (content media pg) h ps"
    "\<forall>p \<in> set ps. data_page pg p \<and> rd_u64 (content media pg p) 8 \<le> CHAIN_CAP"
  shows "\<exists>c. read_chain_from ops h out pg = Some (Inr (out @ chain_bytes (content media pg) ps), pg\<lparr>cache := c\<rparr>) \<and>
    pager_ok ops media good (pg\<lparr>cache := c\<rparr>)"
  using assms
proof (induction ps arbitrary: h out pg)
  case Nil
  then show ?case
    by (intro exI[of _ "cache pg"]) (simp add: read_chain_from.simps chain_bytes_def)
next
  case (Cons p ps)
  have p: "data_page pg p" "rd_u64 (content media pg p) 8 \<le> CHAIN_CAP" "h = p" "p \<noteq> 0"
    "linked (content media pg) (rd_u64 (content media pg p) 0) ps"
    using Cons.prems by (simp_all add: rd_u64_0)
  from pager_read_page_ok[OF Cons.prems(1) p(1)] obtain c where
    c: "pager_read_page ops p pg = Some (Inr (content media pg p), pg\<lparr>cache := c\<rparr>)"
      "pager_ok ops media good (pg\<lparr>cache := c\<rparr>)" by blast
  let ?pg = "pg\<lparr>cache := c\<rparr>"
  have same: "content media ?pg = content media pg" by (simp add: content_def)
  from Cons.IH[OF c(2), of "rd_u64 (content media pg p) 0" "out @ chunk_of (content media pg p)"] p(5) Cons.prems(3)
  obtain c' where "read_chain_from ops (rd_u64 (content media pg p) 0) (out @ chunk_of (content media pg p)) ?pg =
      Some (Inr (out @ chain_bytes (content media pg) (p # ps)), pg\<lparr>cache := c'\<rparr>)"
    "pager_ok ops media good (pg\<lparr>cache := c'\<rparr>)"
    by (auto simp: same data_page_def chain_bytes_def)
  then show ?case
    using c(1) p(2-4) by (intro exI[of _ c']) (simp add: read_chain_from.simps[of ops p] run_simps chunk_of_def)
qed

lemma read_chain_ok:
  assumes "pager_ok ops media good pg" "blob (content media pg) h ps bs" "\<forall>p \<in> set ps. data_page pg p"
  shows "\<exists>c. read_chain ops h pg = Some (Inr bs, pg\<lparr>cache := c\<rparr>) \<and> pager_ok ops media good (pg\<lparr>cache := c\<rparr>)"
  using read_chain_from_ok[OF assms(1), of h ps "[]"] assms(2,3) by (auto simp: blob_def read_chain_def)

text \<open>Allocating several pages.\<close>

lemma alloc_many:
  assumes "pager_ok ops media good pg" "alloc_ok media pg ps" "length xs \<le> room pg ps"
  shows "\<exists>qs pg' ps'. mapM xs (\<lambda>_. alloc_page ops) pg = Some (Inr qs, pg') \<and> length qs = length xs \<and>
    pager_ok ops media good pg' \<and> alloc_ok media pg' ps' \<and> distinct qs \<and>
    (\<forall>q \<in> set qs. data_page pg q \<and> q \<notin> used pg ps) \<and> used pg' ps' = used pg ps \<union> set qs \<and>
    (\<forall>q. q \<notin> set qs \<longrightarrow> content media pg' q = content media pg q) \<and> dev pg' = dev pg \<and>
    catalog_head (sb pg') = catalog_head (sb pg) \<and> total_pages (sb pg') = total_pages (sb pg)"
  using assms
proof (induction xs arbitrary: pg ps)
  case Nil
  then show ?case by (intro exI[of _ "[]"] exI[of _ pg] exI[of _ ps]) simp
next
  case (Cons x xs)
  from alloc_page_ok[OF Cons.prems(1,2)] room_free[OF Cons.prems(2)] Cons.prems(3) obtain p pg1 ps1 where
    1: "alloc_page ops pg = Some (Inr p, pg1)" "pager_ok ops media good pg1" "alloc_ok media pg1 ps1"
      "data_page pg p" "p \<notin> used pg ps" "used pg1 ps1 = Set.insert p (used pg ps)"
      "content media pg1 = (content media pg)(p := zeroed_page)" "dev pg1 = dev pg"
      "catalog_head (sb pg1) = catalog_head (sb pg)" "total_pages (sb pg1) = total_pages (sb pg)" by auto
  have "length xs \<le> room pg1 ps1" using Cons.prems(3) 1(5,6,10) finite_used[of pg ps] by (simp add: room_def)
  from Cons.IH[OF 1(2,3) this] obtain qs pg2 ps2 where
    2: "mapM xs (\<lambda>_. alloc_page ops) pg1 = Some (Inr qs, pg2)" "length qs = length xs"
      "pager_ok ops media good pg2" "alloc_ok media pg2 ps2" "distinct qs"
      "\<forall>q \<in> set qs. data_page pg1 q \<and> q \<notin> used pg1 ps1" "used pg2 ps2 = used pg1 ps1 \<union> set qs"
      "\<forall>q. q \<notin> set qs \<longrightarrow> content media pg2 q = content media pg1 q" "dev pg2 = dev pg1"
      "catalog_head (sb pg2) = catalog_head (sb pg1)" "total_pages (sb pg2) = total_pages (sb pg1)" by auto
  show ?case
    using 1 2 by (intro exI[of _ "p # qs"] exI[of _ pg2] exI[of _ ps2]) (auto simp: run_simps data_page_def)
qed

lemma write_pages:
  assumes "pager_ok ops media good pg" "distinct qs" "k \<le> length qs"
    "\<forall>q \<in> set qs. data_page pg q" "\<And>i. i < length qs \<Longrightarrow> length (img i) = PAGE"
  shows "\<exists>m. forM [0..<k] (\<lambda>i. pager_write_page (qs ! i) (img i)) pg = Some (Inr (), pg\<lparr>dirty := m\<rparr>) \<and>
    pager_ok ops media good (pg\<lparr>dirty := m\<rparr>) \<and>
    (\<forall>i < k. content media (pg\<lparr>dirty := m\<rparr>) (qs ! i) = img i) \<and>
    (\<forall>q. q \<notin> set qs \<longrightarrow> content media (pg\<lparr>dirty := m\<rparr>) q = content media pg q)"
  using assms(3)
proof (induction k)
  case 0
  then show ?case using assms(1) by (intro exI[of _ "dirty pg"]) simp
next
  case (Suc k)
  then obtain m where m: "forM [0..<k] (\<lambda>i. pager_write_page (qs ! i) (img i)) pg = Some (Inr (), pg\<lparr>dirty := m\<rparr>)"
    "pager_ok ops media good (pg\<lparr>dirty := m\<rparr>)"
    "\<forall>i < k. content media (pg\<lparr>dirty := m\<rparr>) (qs ! i) = img i"
    "\<forall>q. q \<notin> set qs \<longrightarrow> content media (pg\<lparr>dirty := m\<rparr>) q = content media pg q" by auto
  have k: "k < length qs" "qs ! k \<in> set qs" using Suc.prems by auto
  have d: "data_page (pg\<lparr>dirty := m\<rparr>) (qs ! k)" using assms(4) k by (simp add: data_page_def)
  note w = pager_write_page_ok[OF m(2) d assms(5)[OF k(1)]]
  have ne: "qs ! i \<noteq> qs ! k" if "i < k" for i using assms(2) that k(1) by (simp add: nth_eq_iff_index_eq)
  let ?pg = "pg\<lparr>dirty := bt_insert (qs ! k) (img k) m\<rparr>"
  have c: "content media ?pg = (content media (pg\<lparr>dirty := m\<rparr>))(qs ! k := img k)" by (simp add: content_def)
  show ?case
    using m w ne k unfolding upt_Suc_append[OF le0] forM_append
    by (intro exI[of _ "bt_insert (qs ! k) (img k) m"]) (auto simp: run_simps c less_Suc_eq)
qed

text \<open>Writing a blob: fresh pages, holding the bytes, nothing else changed.\<close>

lemma write_chain_ok:
  assumes ok: "pager_ok ops media good pg" and al: "alloc_ok media pg ps"
    and room: "chunks bs \<le> room pg ps"
  shows "\<exists>h pg' ps' qs. write_chain ops bs pg = Some (Inr h, pg') \<and> pager_ok ops media good pg' \<and>
    alloc_ok media pg' ps' \<and> blob (content media pg') h qs bs \<and> h \<noteq> 0 \<and> distinct qs \<and>
    (\<forall>q \<in> set qs. data_page pg q \<and> q \<notin> used pg ps) \<and> used pg' ps' = used pg ps \<union> set qs \<and>
    (\<forall>q. q \<notin> set qs \<longrightarrow> content media pg' q = content media pg q) \<and> dev pg' = dev pg \<and>
    catalog_head (sb pg') = catalog_head (sb pg) \<and> total_pages (sb pg') = total_pages (sb pg) \<and>
    length qs = chunks bs"
proof -
  define n where "n = (if bs = [] then 1 else (length bs + CHAIN_CAP - 1) div CHAIN_CAP)"
  have chunks: "chunks bs = n" by (simp add: n_def chunks_def)
  have n: "1 \<le> n" "n \<le> room pg ps" "length bs \<le> n * CHAIN_CAP"
  proof -
    show "1 \<le> n" by (cases bs) (simp_all add: n_def CHAIN_CAP_val)
    show "n \<le> room pg ps" using room by (simp add: chunks)
    have "length bs \<le> (4079 + length bs) div 4080 * 4080"
      using div_mult_mod_eq[of "4079 + length bs" 4080] mod_less_divisor[of 4080 "4079 + length bs"] by linarith
    then show "length bs \<le> n * CHAIN_CAP" by (simp add: n_def CHAIN_CAP_val)
  qed
  from alloc_many[OF ok al, of "[0..<n]"] n(2) obtain qs pg1 ps1 where
    1: "mapM [0..<n] (\<lambda>_. alloc_page ops) pg = Some (Inr qs, pg1)" "length qs = n"
      "pager_ok ops media good pg1" "alloc_ok media pg1 ps1" "distinct qs"
      "\<forall>q \<in> set qs. data_page pg q \<and> q \<notin> used pg ps" "used pg1 ps1 = used pg ps \<union> set qs"
      "\<forall>q. q \<notin> set qs \<longrightarrow> content media pg1 q = content media pg q" "dev pg1 = dev pg"
      "catalog_head (sb pg1) = catalog_head (sb pg)" "total_pages (sb pg1) = total_pages (sb pg)" by auto
  define nx where "nx i = (if i + 1 < n then qs ! (i + 1) else 0)" for i
  have q: "q \<noteq> 0 \<and> q < 2 ^ 64" if "q \<in> set qs" for q
    using that 1(6) ok by (auto simp: data_page_def pager_ok_def sb_ok_def FIRST_DATA_PAGE_val)
  have nx: "nx i < 2 ^ 64" for i using q[of "qs ! (i + 1)"] 1(2) by (simp add: nx_def)
  note img = chunk_image_fields[OF nx]
  from write_pages[OF 1(3,5), of n "\<lambda>i. chunk_image bs i (nx i)"] 1(2,6,11) img(1) obtain m where
    2: "forM [0..<n] (\<lambda>i. pager_write_page (qs ! i) (chunk_image bs i (nx i))) pg1 = Some (Inr (), pg1\<lparr>dirty := m\<rparr>)"
      "pager_ok ops media good (pg1\<lparr>dirty := m\<rparr>)"
      "\<forall>i < n. content media (pg1\<lparr>dirty := m\<rparr>) (qs ! i) = chunk_image bs i (nx i)"
      "\<forall>q. q \<notin> set qs \<longrightarrow> content media (pg1\<lparr>dirty := m\<rparr>) q = content media pg1 q"
    by (auto simp: data_page_def)
  let ?pg = "pg1\<lparr>dirty := m\<rparr>"
  have run: "write_chain ops bs pg = Some (Inr (qs ! 0), ?pg)"
    using 1(1) 2(1) by (simp add: write_chain_def Let_def n_def[symmetric] run_simps nx_def)
  have blob: "blob (content media ?pg) (qs ! 0) qs bs"
    unfolding blob_def
  proof (intro conjI ballI)
    have ne: "qs \<noteq> []" using 1(2) n(1) by auto
    then show "linked (content media ?pg) (qs ! 0) qs"
      using q 2(3) img(2) 1(2) by (intro linked_by_index) (auto simp: nx_def)
    show "rd_u64 (content media ?pg p) 8 \<le> CHAIN_CAP" if "p \<in> set qs" for p
      using that 2(3) img(3) 1(2) by (auto simp: in_set_conv_nth)
    have "chain_bytes (content media ?pg) qs = concat (map (chunk bs) [0..<n])"
      unfolding chain_bytes_def using 2(3) img(4) 1(2)
      by (intro arg_cong[of _ _ concat] nth_equalityI) simp_all
    then show "chain_bytes (content media ?pg) qs = bs" using n(3) by (simp add: concat_chunks)
  qed
  have "linked (content media ?pg) (free_head (sb pg1)) ps1 = linked (content media pg1) (free_head (sb pg1)) ps1"
    using 1(7) 2(4) by (intro linked_cong) (auto simp: used_def)
  then have "alloc_ok media ?pg ps1" using 1(4) by (simp add: alloc_ok_def)
  moreover have "qs ! 0 \<noteq> 0" using q[of "qs ! 0"] n(1) 1(2) by simp
  moreover have "used ?pg ps1 = used pg1 ps1" by (simp add: used_def)
  ultimately show ?thesis
    using run blob 1 2 by (intro exI[of _ "qs ! 0"] exI[of _ ?pg] exI[of _ ps1] exI[of _ qs]) (auto simp: chunks)
qed

text \<open>Without room, writing a blob fails before anything is lost: the caller rolls back.\<close>

lemma alloc_many_full:
  assumes "pager_ok ops media good pg" "alloc_ok media pg ps" "room pg ps < length xs"
  shows "\<exists>pg'. mapM xs (\<lambda>_. alloc_page ops) pg = Some (Inl OutOfSpace, pg') \<and> pager_ok ops media good pg'"
  using assms
proof (induction xs arbitrary: pg ps)
  case (Cons x xs)
  show ?case
  proof (cases "ps \<noteq> [] \<or> hwm (sb pg) < total_pages (sb pg)")
    case True
    from alloc_page_ok[OF Cons.prems(1,2) True] obtain p pg1 ps1 where
      1: "alloc_page ops pg = Some (Inr p, pg1)" "pager_ok ops media good pg1" "alloc_ok media pg1 ps1"
        "p \<notin> used pg ps" "used pg1 ps1 = Set.insert p (used pg ps)" "total_pages (sb pg1) = total_pages (sb pg)" by auto
    have "card (used pg1 ps1) \<le> card {FIRST_DATA_PAGE..<total_pages (sb pg1)}"
      using 1(2) by (intro card_mono) (auto simp: used_def pager_ok_def)
    moreover have "FIRST_DATA_PAGE < total_pages (sb pg1)" using 1(2) by (simp add: pager_ok_def)
    ultimately have "FIRST_DATA_PAGE + card (used pg1 ps1) \<le> total_pages (sb pg1)" by simp
    then have "room pg1 ps1 < length xs"
      using Cons.prems(3) 1(4-6) finite_used[of pg ps] by (simp add: room_def)
    from Cons.IH[OF 1(2,3) this] 1(1) show ?thesis by (auto simp: run_simps)
  next
    case False
    then have "alloc_page ops pg = Some (Inl OutOfSpace, pg)" using Cons.prems(2) by (intro alloc_page_full) auto
    then show ?thesis using Cons.prems(1) by (simp add: run_simps)
  qed
qed simp

lemma write_chain_full:
  assumes "pager_ok ops media good pg" "alloc_ok media pg ps" "room pg ps < chunks bs"
  shows "\<exists>pg'. write_chain ops bs pg = Some (Inl OutOfSpace, pg') \<and> pager_ok ops media good pg'"
proof -
  from alloc_many_full[OF assms(1,2), of "[0..<chunks bs]"] assms(3) show ?thesis
    by (auto simp: write_chain_def Let_def chunks_def run_simps)
qed

text \<open>Freeing a chain returns its pages, the last one first to be used again.\<close>

lemma free_chain_ok:
  assumes "pager_ok ops media good pg" "alloc_ok media pg ps" "linked (content media pg) h qs"
    "distinct qs" "set qs \<subseteq> used pg ps"
  shows "\<exists>pg'. free_chain ops h pg = Some (Inr (), pg') \<and> pager_ok ops media good pg' \<and>
    alloc_ok media pg' (rev qs @ ps) \<and> used pg' (rev qs @ ps) = used pg ps - set qs \<and>
    (\<forall>q. q \<notin> set qs \<longrightarrow> content media pg' q = content media pg q) \<and> dev pg' = dev pg \<and>
    catalog_head (sb pg') = catalog_head (sb pg) \<and> total_pages (sb pg') = total_pages (sb pg)"
  using assms
proof (induction qs arbitrary: h pg ps)
  case Nil
  then show ?case by (intro exI[of _ pg]) (simp add: free_chain.simps)
next
  case (Cons q qs)
  have q: "h = q" "q \<noteq> 0" "linked (content media pg) (rd_u64 (content media pg q) 0) qs" "q \<in> used pg ps"
    "q \<notin> set qs"
    using Cons.prems by (simp_all add: rd_u64_0)
  have d: "data_page pg q" using q(4) Cons.prems(1) by (simp add: used_def data_page_def pager_ok_def)
  from pager_read_page_ok[OF Cons.prems(1) d] obtain c where
    c: "pager_read_page ops q pg = Some (Inr (content media pg q), pg\<lparr>cache := c\<rparr>)"
      "pager_ok ops media good (pg\<lparr>cache := c\<rparr>)" by blast
  have same: "content media (pg\<lparr>cache := c\<rparr>) = content media pg" by (simp add: content_def)
  have al: "alloc_ok media (pg\<lparr>cache := c\<rparr>) ps" using Cons.prems(2) by (simp add: alloc_ok_def same)
  from free_page_ok[OF c(2) al, of q] q(4) obtain pg1 where
    1: "free_page q (pg\<lparr>cache := c\<rparr>) = Some (Inr (), pg1)" "pager_ok ops media good pg1"
      "alloc_ok media pg1 (q # ps)" "used pg1 (q # ps) = used pg ps - {q}"
      "\<forall>p. p \<noteq> q \<longrightarrow> content media pg1 p = content media pg p" "dev pg1 = dev pg"
      "catalog_head (sb pg1) = catalog_head (sb pg)" "total_pages (sb pg1) = total_pages (sb pg)"
    by (auto simp: used_def same)
  have "linked (content media pg1) (rd_u64 (content media pg q) 0) qs"
    using q(3,5) 1(5) linked_cong[of qs "content media pg1" "content media pg"] by metis
  from Cons.IH[OF 1(2,3) this] Cons.prems(4,5) 1(4) obtain pg2 where
    2: "free_chain ops (rd_u64 (content media pg q) 0) pg1 = Some (Inr (), pg2)" "pager_ok ops media good pg2"
      "alloc_ok media pg2 (rev qs @ q # ps)" "used pg2 (rev qs @ q # ps) = used pg1 (q # ps) - set qs"
      "\<forall>p. p \<notin> set qs \<longrightarrow> content media pg2 p = content media pg1 p" "dev pg2 = dev pg1"
      "catalog_head (sb pg2) = catalog_head (sb pg1)" "total_pages (sb pg2) = total_pages (sb pg1)" by auto
  have "free_chain ops h pg = Some (Inr (), pg2)"
    using c(1) 1(1) 2(1) q(1,2) by (simp add: free_chain.simps[of ops q] run_simps)
  then show ?case using 1 2 by (intro exI[of _ pg2]) auto
qed

end

section \<open>Properties\<close>

text \<open>C16 Blobs of any length survive storage: if the volume has room, \<^verbatim>\<open>write_chain\<close> returns the head of a chain of pages
  that were not in use, from which \<^verbatim>\<open>read_chain\<close> returns exactly the bytes written, and no page in use before has
  changed. Both calls terminate.\<close>

theorem blob_roundtrip:
  assumes "pager_ok mem_ops mem_media mem_good pg" "alloc_ok mem_media pg ps"
    "max 1 ((length bs + CHAIN_CAP - 1) div CHAIN_CAP) \<le> room pg ps"
  shows "\<exists>h pg1 ps1 c. write_chain mem_ops bs pg = Some (Inr h, pg1) \<and>
    read_chain mem_ops h pg1 = Some (Inr bs, pg1\<lparr>cache := c\<rparr>) \<and> pager_ok mem_ops mem_media mem_good pg1 \<and>
    alloc_ok mem_media pg1 ps1 \<and> used pg ps \<subseteq> used pg1 ps1 \<and>
    (\<forall>q \<in> used pg ps. content mem_media pg1 q = content mem_media pg q)"
proof -
  from mem.write_chain_ok[OF assms[folded chunks_max]] obtain h pg1 ps1 qs where
    w: "write_chain mem_ops bs pg = Some (Inr h, pg1)" "pager_ok mem_ops mem_media mem_good pg1"
      "alloc_ok mem_media pg1 ps1" "blob (content mem_media pg1) h qs bs"
      "\<forall>q \<in> set qs. data_page pg q \<and> q \<notin> used pg ps" "used pg1 ps1 = used pg ps \<union> set qs"
      "\<forall>q. q \<notin> set qs \<longrightarrow> content mem_media pg1 q = content mem_media pg q"
      "total_pages (sb pg1) = total_pages (sb pg)" by blast
  have "\<forall>q \<in> set qs. data_page pg1 q" using w(5,8) by (simp add: data_page_def)
  from mem.read_chain_ok[OF w(2,4) this] obtain c where
    "read_chain mem_ops h pg1 = Some (Inr bs, pg1\<lparr>cache := c\<rparr>)" by blast
  with w show ?thesis by (intro exI[of _ h] exI[of _ pg1] exI[of _ ps1] exI[of _ c]) auto
qed

theorem blob_roundtrip_witness:
  "\<exists>pg. total_pages (sb pg) = 2051 \<and> (\<exists>h pg1 ps1 c. write_chain mem_ops (replicate 5000 9) pg = Some (Inr h, pg1) \<and>
    read_chain mem_ops h pg1 = Some (Inr (replicate 5000 9), pg1\<lparr>cache := c\<rparr>) \<and> pager_ok mem_ops mem_media mem_good pg1 \<and>
    alloc_ok mem_media pg1 ps1 \<and> used pg [] \<subseteq> used pg1 ps1 \<and>
    (\<forall>q \<in> used pg []. content mem_media pg1 q = content mem_media pg q))"
proof -
  from formatted_volume obtain pg where pg: "pager_ok mem_ops mem_media mem_good pg" "alloc_ok mem_media pg []"
    "total_pages (sb pg) = 2051" "used pg [] = {}" by blast
  then have "max 1 ((length (replicate 5000 (9::byte)) + CHAIN_CAP - 1) div CHAIN_CAP) \<le> room pg []"
    by (simp add: room_def FIRST_DATA_PAGE_val CHAIN_CAP_val)
  from blob_roundtrip[OF pg(1,2) this] pg(3) show ?thesis by blast
qed

text \<open>C17 No page is lost: writing a blob and freeing it again leaves exactly the pages in use that were in use before,
  with their content, and the free list sound.\<close>

theorem blob_freed:
  assumes "pager_ok mem_ops mem_media mem_good pg" "alloc_ok mem_media pg ps"
    "max 1 ((length bs + CHAIN_CAP - 1) div CHAIN_CAP) \<le> room pg ps"
  shows "\<exists>h pg1 pg2 ps2. write_chain mem_ops bs pg = Some (Inr h, pg1) \<and> free_chain mem_ops h pg1 = Some (Inr (), pg2) \<and>
    pager_ok mem_ops mem_media mem_good pg2 \<and> alloc_ok mem_media pg2 ps2 \<and> used pg2 ps2 = used pg ps \<and>
    (\<forall>q \<in> used pg ps. content mem_media pg2 q = content mem_media pg q)"
proof -
  from mem.write_chain_ok[OF assms[folded chunks_max]] obtain h pg1 ps1 qs where
    w: "write_chain mem_ops bs pg = Some (Inr h, pg1)" "pager_ok mem_ops mem_media mem_good pg1"
      "alloc_ok mem_media pg1 ps1" "blob (content mem_media pg1) h qs bs" "distinct qs"
      "\<forall>q \<in> set qs. data_page pg q \<and> q \<notin> used pg ps" "used pg1 ps1 = used pg ps \<union> set qs"
      "\<forall>q. q \<notin> set qs \<longrightarrow> content mem_media pg1 q = content mem_media pg q" by blast
  have l: "linked (content mem_media pg1) h qs" and sub: "set qs \<subseteq> used pg1 ps1"
    using w(4,7) by (auto simp: blob_def)
  from mem.free_chain_ok[OF w(2,3) l w(5) sub] obtain pg2 where
    f: "free_chain mem_ops h pg1 = Some (Inr (), pg2)" "pager_ok mem_ops mem_media mem_good pg2"
      "alloc_ok mem_media pg2 (rev qs @ ps1)" "used pg2 (rev qs @ ps1) = used pg1 ps1 - set qs"
      "\<forall>q. q \<notin> set qs \<longrightarrow> content mem_media pg2 q = content mem_media pg1 q" by blast
  have "used pg1 ps1 - set qs = used pg ps" using w(6,7) by auto
  then show ?thesis
    using w f by (intro exI[of _ h] exI[of _ pg1] exI[of _ pg2] exI[of _ "rev qs @ ps1"]) auto
qed

theorem blob_freed_witness:
  "\<exists>pg. total_pages (sb pg) = 2051 \<and> (\<exists>h pg1 pg2 ps2. write_chain mem_ops [1, 2, 3] pg = Some (Inr h, pg1) \<and>
    free_chain mem_ops h pg1 = Some (Inr (), pg2) \<and> pager_ok mem_ops mem_media mem_good pg2 \<and> alloc_ok mem_media pg2 ps2 \<and>
    used pg2 ps2 = used pg [] \<and> (\<forall>q \<in> used pg []. content mem_media pg2 q = content mem_media pg q))"
proof -
  from formatted_volume obtain pg where pg: "pager_ok mem_ops mem_media mem_good pg" "alloc_ok mem_media pg []"
    "total_pages (sb pg) = 2051" "used pg [] = {}" by blast
  then have "max 1 ((length [1, 2, 3 :: byte] + CHAIN_CAP - 1) div CHAIN_CAP) \<le> room pg []"
    by (simp add: room_def FIRST_DATA_PAGE_val CHAIN_CAP_val)
  from blob_freed[OF pg(1,2) this] pg(3) show ?thesis by blast
qed

end
