(* ===== verification/Store_Schema.thy ===== *)
theory Store_Schema
  imports Store
begin

text \<open>
  The pure parts of the store's operations: the catalog's encoding, the names of new foreign keys, the
  permutation of \<open>move_column\<close>, the renaming of \<open>rename_column\<close>, the duplicate test of \<open>set_unique\<close>
  and the check of reference columns.
\<close>

section \<open>The catalog\<close>

definition wf_cat :: "cat_entry \<Rightarrow> bool" where
  "wf_cat e \<longleftrightarrow> rust_str (cat_name e) \<and> schema_head e < 2 ^ 64 \<and> data_head e < 2 ^ 64 \<and> row_count e < 2 ^ 64"

lemma get_uvarint_at:
  assumes "n < 2 ^ 64" "buf = pre @ put_uvarint [] n @ post" "pos = length pre"
  shows "get_uvarint buf pos = Inr (n, pos + length (put_uvarint [] n))"
  using uvarint.get_put[OF assms(1)] assms(2,3) by simp

interpretation cat: codec put_cat get_cat wf_cat
proof
  show "put_cat out e = out @ put_cat [] e" for out e
    unfolding put_cat_def by (metis str_codec.put_app put_uvarint_app append_assoc)
  show "get_cat (pre @ put_cat [] e @ post) (length pre) = Inr (e, length pre + length (put_cat [] e))"
    if w: "wf_cat e" for e pre post
  proof -
    let ?a = "put_str [] (cat_name e)" and ?b = "put_uvarint [] (schema_head e)"
    let ?c = "put_uvarint [] (data_head e)" and ?d = "put_uvarint [] (row_count e)"
    let ?buf = "pre @ put_cat [] e @ post"
    have put: "put_cat [] e = ?a @ ?b @ ?c @ ?d"
      unfolding put_cat_def by (metis put_uvarint_app append_assoc)
    have ok: "rust_str (cat_name e)" "schema_head e < 2 ^ 64" "data_head e < 2 ^ 64" "row_count e < 2 ^ 64"
      using w by (simp_all add: wf_cat_def)
    have 1: "get_str ?buf (length pre) = Inr (cat_name e, length pre + length ?a)"
      by (rule get_str_at[OF ok(1)]) (simp_all add: put)
    have 2: "get_uvarint ?buf (length pre + length ?a) = Inr (schema_head e, length pre + length ?a + length ?b)"
      by (rule get_uvarint_at[OF ok(2), of _ "pre @ ?a" "?c @ ?d @ post"]) (simp_all add: put)
    have 3: "get_uvarint ?buf (length pre + length ?a + length ?b) =
        Inr (data_head e, length pre + length ?a + length ?b + length ?c)"
      by (rule get_uvarint_at[OF ok(3), of _ "pre @ ?a @ ?b" "?d @ post"]) (simp_all add: put)
    have 4: "get_uvarint ?buf (length pre + length ?a + length ?b + length ?c) =
        Inr (row_count e, length pre + length ?a + length ?b + length ?c + length ?d)"
      by (rule get_uvarint_at[OF ok(4), of _ "pre @ ?a @ ?b @ ?c" post]) (simp_all add: put)
    show ?thesis
      unfolding get_cat_def by (simp add: 1 2 3 4) (simp add: put)
  qed
qed

lemma catalog_roundtrip:
  assumes "\<forall>e \<in> set cat. wf_cat e" "length cat < 2 ^ 64"
  shows "decode_catalog (encode_catalog cat) = Inr cat"
  using cat.get_list_put[OF assms, of "[]" "[]"] by (simp add: decode_catalog_def encode_catalog_def)

section \<open>Names of foreign keys\<close>

lemma digit_inj: "char_of (48 + a) = (char_of (48 + b) :: char) \<Longrightarrow> a < 10 \<Longrightarrow> b < 10 \<Longrightarrow> a = b" for a b :: nat
proof -
  assume c: "char_of (48 + a) = (char_of (48 + b) :: char)" and d: "a < 10" "b < 10"
  from c have "(of_char (char_of (48 + a) :: char) :: nat) = of_char (char_of (48 + b) :: char)" by simp
  with d show "a = b" by simp
qed

lemma dec_of_nat_nonempty: "dec_of_nat n \<noteq> []"
  by (subst dec_of_nat.simps) simp

lemma dec_of_nat_inj: "dec_of_nat m = dec_of_nat n \<Longrightarrow> m = n"
proof (induction m arbitrary: n rule: dec_of_nat.induct)
  case (1 m)
  have eq: "(if m < 10 then [char_of (48 + m)] else dec_of_nat (m div 10) @ [char_of (48 + m mod 10)]) =
    (if n < 10 then [char_of (48 + n)] else dec_of_nat (n div 10) @ [char_of (48 + n mod 10)])"
    by (rule box_equals[OF 1(2) dec_of_nat.simps dec_of_nat.simps])
  show ?case
  proof (cases "m < 10 \<or> n < 10")
    case True
    then show ?thesis
      using eq digit_inj[of m n] dec_of_nat_nonempty[of "m div 10"] dec_of_nat_nonempty[of "n div 10"]
      by (cases "m < 10"; cases "n < 10") (simp_all add: append_eq_Cons_conv Cons_eq_append_conv)
  next
    case False
    then have "dec_of_nat (m div 10) = dec_of_nat (n div 10)" "m mod 10 = n mod 10"
      using eq digit_inj[of "m mod 10" "n mod 10"] by simp_all
    then show ?thesis using 1(1)[of "n div 10"] False by (metis div_mult_mod_eq)
  qed
qed

definition fk_candidate :: "string \<Rightarrow> nat \<Rightarrow> string" where
  "fk_candidate fc n = fc @ ''_fk'' @ dec_of_nat n"

text \<open>The search for a name ends: only finitely many candidates are taken.\<close>

lemma fresh_fk_total: "\<exists>r. fresh_fk existing fc cand n = Some r \<and> r \<notin> set existing"
proof -
  let ?S = "\<lambda>n. {k. n \<le> k \<and> fk_candidate fc k \<in> set existing}"
  have "inj (fk_candidate fc)" by (rule injI) (auto simp: fk_candidate_def dest: dec_of_nat_inj)
  then have fin: "finite (?S n)" for n
    using finite_vimageI[of "set existing" "fk_candidate fc"] by (rule_tac finite_subset[rotated]) auto
  show ?thesis
  proof (induction "card (?S n)" arbitrary: cand n rule: less_induct)
    case less
    show ?case
    proof (cases "cand \<in> set existing")
      case False
      then show ?thesis by (simp add: fresh_fk.simps)
    next
      case True
      then have step: "fresh_fk existing fc cand n = fresh_fk existing fc (fk_candidate fc n) (n + 1)"
        by (subst fresh_fk.simps) (simp add: fk_candidate_def)
      show ?thesis
      proof (cases "fk_candidate fc n \<in> set existing")
        case False
        then show ?thesis by (simp add: step fresh_fk.simps[of _ _ "fk_candidate fc n"])
      next
        case True
        have "n \<in> ?S n" "n \<notin> ?S (n + 1)" "?S (n + 1) \<subseteq> ?S n" using True by auto
        then have "?S (n + 1) \<subset> ?S n" by blast
        then have "card (?S (n + 1)) < card (?S n)" by (rule psubset_card_mono[OF fin])
        from less[OF this] show ?thesis by (simp add: step)
      qed
    qed
  qed
qed

section \<open>Moving a column\<close>

lemma length_remove_at: "i < length xs \<Longrightarrow> length (remove_at i xs) = length xs - 1"
  by (simp add: remove_at_def)

lemma map_remove_at: "map f (remove_at i xs) = remove_at i (map f xs)"
  by (simp add: remove_at_def take_map drop_map)

lemma map_insert_at: "map f (insert_at i x xs) = insert_at i (f x) (map f xs)"
  by (simp add: insert_at_def take_map drop_map)

lemma fold_assign:
  "length perm \<le> length orig \<Longrightarrow>
   foldl (\<lambda>r (i, j). r[i := src ! j]) orig (enumerate 0 perm) = map ((!) src) perm @ drop (length perm) orig"
proof (induction perm rule: rev_induct)
  case (snoc j perm)
  then have "drop (length perm) orig = orig ! length perm # drop (Suc (length perm)) orig"
    by (simp add: Cons_nth_drop_Suc)
  with snoc show ?case by (simp add: enumerate_append_eq list_update_append)
qed simp

text \<open>
  The permutation applied to a row moves the cell exactly as the schema edit moves the column.
\<close>

lemma move_perm_length: "old < n \<Longrightarrow> new < n \<Longrightarrow> length (move_perm n old new) = n"
  by (simp add: move_perm_def insert_at_def remove_at_def)

lemma permute_row_moves:
  assumes "length r = n" "old < n" "new < n"
  shows "permute_row (move_perm n old new) n r = insert_at new (r ! old) (remove_at old r)"
proof -
  have "resize n r = r" using assms(1) by (simp add: resize_def)
  then have "permute_row (move_perm n old new) n r = map ((!) r) (move_perm n old new)"
    using fold_assign[of "move_perm n old new" r r] move_perm_length[OF assms(2,3)] assms(1)
    by (simp add: permute_row_def Let_def)
  also have "\<dots> = insert_at new (r ! old) (remove_at old (map ((!) r) [0..<n]))"
    unfolding move_perm_def map_insert_at map_remove_at using assms(2) by simp
  also have "map ((!) r) [0..<n] = r" using assms(1) map_nth[of r] by simp
  finally show ?thesis .
qed

section \<open>Duplicates\<close>

lemma first_dup_iff:
  "distinct seen \<Longrightarrow> first_dup seen vs \<longleftrightarrow> \<not> distinct (seen @ List.map_filter id vs)"
proof (induction seen vs rule: first_dup.induct)
  case (3 seen v vs)
  then show ?case by (auto simp: map_filter_simps)
qed (simp_all add: map_filter_simps)

lemma check_ref_cols_ok:
  "distinct seen \<Longrightarrow> check_ref_cols t seen cs = Inr () \<longleftrightarrow>
   distinct (seen @ cs) \<and> (\<forall>c \<in> set cs. column_index t c \<noteq> None)"
proof (induction t seen cs rule: check_ref_cols.induct)
  case (2 t seen c cs)
  have "column_named t c = None \<longleftrightarrow> column_index t c = None"
    by (simp add: column_named_def column_index_def find_position)
  with 2 show ?case by (auto simp: column_not_found_def)
qed simp

section \<open>Properties\<close>

text \<open>The search for the name of a new foreign key always ends, with a name that no foreign key of the table has.\<close>

theorem fk_name_fresh:
  "\<exists>r. fresh_fk existing fc (fc @ ''_fk'') 2 = Some r \<and> r \<notin> set existing"
  by (rule fresh_fk_total)

text \<open>\<^verbatim>\<open>move_column\<close> permutes the cells of a row exactly as it moves the column in the schema: the cell of the moved
  column goes to the new place and the others keep their order.\<close>

theorem move_column_rows:
  assumes "length r = n" "old < n" "new < n"
  shows "permute_row (move_perm n old new) n r = insert_at new (r ! old) (remove_at old r)"
  by (rule permute_row_moves[OF assms])

theorem move_column_rows_witness:
  "let r = [None, Some (VStr ''a''), Some (VStr ''b''), None] in
   permute_row (move_perm 4 2 0) 4 r = insert_at 0 (r ! 2) (remove_at 2 r)"
  unfolding Let_def by (rule move_column_rows) simp_all

text \<open>The test \<^verbatim>\<open>set_unique\<close> makes before it marks a column UNIQUE succeeds exactly when the non-NULL values of the
  column are pairwise different.\<close>

theorem unique_test: "first_dup [] vals \<longleftrightarrow> \<not> distinct (List.map_filter id vals)"
  using first_dup_iff[of "[]" vals] by simp

text \<open>The catalog survives its encoding.\<close>

theorem catalog_codec:
  assumes "\<forall>e \<in> set cat. wf_cat e" "length cat < 2 ^ 64"
  shows "decode_catalog (encode_catalog cat) = Inr cat"
  by (rule catalog_roundtrip[OF assms])

theorem catalog_codec_witness:
  "let cat = [\<lparr>cat_name = ''people'', schema_head = 2049, data_head = 2050, row_count = 12345678901\<rparr>] in
   decode_catalog (encode_catalog cat) = Inr cat"
  unfolding Let_def by (rule catalog_codec) (simp_all add: wf_cat_def rust_str_def)

end
