(* ===== verification/Store_Reads.thy ===== *)
theory Store_Reads
  imports Store_Tx Store_Chains Store_Schema
begin

text \<open>
  Reading actions of the store, computed: on a sound pager an action that only reads pages returns a value determined by the
  content, and changes nothing but the cache. The rules compose along the monad, so that what a whole check of the source
  returns is a function of the abstract content.
\<close>

section \<open>Pure counterparts of the loops\<close>

fun eachR :: "'x list \<Rightarrow> ('x \<Rightarrow> unit result) \<Rightarrow> unit result" where
  "eachR [] f = Inr ()"
| "eachR (x # xs) f = bindR (f x) (\<lambda>_. eachR xs f)"

lemma eachR_ok: "eachR xs f = Inr () \<longleftrightarrow> (\<forall>x \<in> set xs. f x = Inr ())"
  by (induction xs) (auto simp: bindR_def split: sum.split)

lemma eachR_cong [fundef_cong]: "xs = ys \<Longrightarrow> (\<And>x. x \<in> set ys \<Longrightarrow> f x = g x) \<Longrightarrow> eachR xs f = eachR ys g"
  by (induction ys arbitrary: xs) (auto simp: bindR_def split: sum.split)

section \<open>Actions that compute\<close>

text \<open>\<open>computes ops media good s m r\<close>: whatever sound cache \<open>s\<close> has, \<open>m\<close> returns \<open>r\<close> and changes only the cache.\<close>

definition computes :: "'d block_ops \<Rightarrow> ('d \<Rightarrow> disk) \<Rightarrow> ('d \<Rightarrow> bool) \<Rightarrow> 'd store \<Rightarrow> ('d store, 'a) act \<Rightarrow> 'a result \<Rightarrow> bool" where
  "computes ops media good s m r \<longleftrightarrow> (\<forall>c. pager_ok ops media good (s\<lparr>cache := c\<rparr>) \<longrightarrow>
     (\<exists>c'. m (s\<lparr>cache := c\<rparr>) = Some (r, s\<lparr>cache := c'\<rparr>) \<and> pager_ok ops media good (s\<lparr>cache := c'\<rparr>)))"

lemma computesD:
  assumes "computes ops media good s m r" "pager_ok ops media good s"
  obtains c where "m s = Some (r, s\<lparr>cache := c\<rparr>)" "pager_ok ops media good (s\<lparr>cache := c\<rparr>)"
  using assms unfolding computes_def by (metis pager.surjective pager.update_convs(4))

named_theorems comp "what reading actions compute"

lemma computes_basic [comp]:
  "computes ops media good s (returnM x) (Inr x)" "computes ops media good s (failM e) (Inl e)"
  "computes ops media good s (liftM r) r" "b \<Longrightarrow> computes ops media good s (assertM b) (Inr ())"
  by (auto simp: computes_def)

lemma computes_eta [comp]:
  "computes ops media good s (\<lambda>a. Some (Inr x, a)) (Inr x)" "computes ops media good s (\<lambda>a. Some (Inl e, a)) (Inl e)"
  by (auto simp: computes_def)

lemma computes_get2: "computes ops media good s (getM (\<lambda>s. f (sb s))) (Inr (f (sb s)))"
  by (auto simp: computes_def)

lemma computes_unwrap [comp]: "v = Some x \<Longrightarrow> computes ops media good s (unwrapM v) (Inr x)"
  by (simp add: unwrapM_def comp)

lemma computes_bind:
  assumes "computes ops media good s m (Inr x)" "computes ops media good s (k x) r"
  shows "computes ops media good s (bindM m k) r"
  unfolding computes_def
proof (intro allI impI)
  fix c assume "pager_ok ops media good (s\<lparr>cache := c\<rparr>)"
  with assms(1) obtain c1 where 1: "m (s\<lparr>cache := c\<rparr>) = Some (Inr x, s\<lparr>cache := c1\<rparr>)"
    "pager_ok ops media good (s\<lparr>cache := c1\<rparr>)" unfolding computes_def by blast
  with assms(2) obtain c2 where "k x (s\<lparr>cache := c1\<rparr>) = Some (r, s\<lparr>cache := c2\<rparr>)"
    "pager_ok ops media good (s\<lparr>cache := c2\<rparr>)" unfolding computes_def by blast
  with 1 show "\<exists>c'. bindM m k (s\<lparr>cache := c\<rparr>) = Some (r, s\<lparr>cache := c'\<rparr>) \<and> pager_ok ops media good (s\<lparr>cache := c'\<rparr>)"
    by (intro exI[of _ c2]) (simp add: bindM_Inr)
qed

lemma computes_bind_err:
  assumes "computes ops media good s m (Inl e)"
  shows "computes ops media good s (bindM m k) (Inl e)"
  unfolding computes_def
proof (intro allI impI)
  fix c assume "pager_ok ops media good (s\<lparr>cache := c\<rparr>)"
  with assms obtain c1 where "m (s\<lparr>cache := c\<rparr>) = Some (Inl e, s\<lparr>cache := c1\<rparr>)"
    "pager_ok ops media good (s\<lparr>cache := c1\<rparr>)" unfolding computes_def by blast
  then show "\<exists>c'. bindM m k (s\<lparr>cache := c\<rparr>) = Some (Inl e, s\<lparr>cache := c'\<rparr>) \<and> pager_ok ops media good (s\<lparr>cache := c'\<rparr>)"
    by (intro exI[of _ c1]) (simp add: bindM_Inl)
qed

lemma computes_bindR:
  assumes "computes ops media good s m r" "\<And>x. r = Inr x \<Longrightarrow> computes ops media good s (k x) (f x)"
  shows "computes ops media good s (bindM m k) (bindR r f)"
  using assms computes_bind computes_bind_err by (cases r) fastforce+

lemma computes_forM:
  "(\<And>x. x \<in> set xs \<Longrightarrow> computes ops media good s (f x) (g x)) \<Longrightarrow> computes ops media good s (forM xs f) (eachR xs g)"
  by (induction xs) (simp_all add: comp computes_bindR)

lemma computes_mapM:
  "(\<And>x. x \<in> set xs \<Longrightarrow> computes ops media good s (f x) (Inr (g x))) \<Longrightarrow> computes ops media good s (mapM xs f) (Inr (map g xs))"
proof (induction xs)
  case (Cons x xs)
  have "computes ops media good s (f x) (Inr (g x))" "computes ops media good s (mapM xs f) (Inr (map g xs))"
    using Cons by simp_all
  then show ?case by (auto intro!: computes_bind comp)
qed (simp add: comp)

lemma computes_anyM:
  "(\<And>x. x \<in> set xs \<Longrightarrow> computes ops media good s (f x) (Inr (g x))) \<Longrightarrow>
    computes ops media good s (anyM xs f) (Inr (\<exists>x \<in> set xs. g x))"
proof (induction xs)
  case (Cons x xs)
  have "computes ops media good s (f x) (Inr (g x))" "computes ops media good s (anyM xs f) (Inr (\<exists>x \<in> set xs. g x))"
    using Cons by simp_all
  then show ?case by (cases "g x") (auto intro!: computes_bind [where x = "g x"] comp)
qed (simp add: comp)

section \<open>Pages and chains\<close>

context block_device
begin

lemma computes_page [comp]: "data_page s p \<Longrightarrow> computes ops media good s (pager_read_page ops p) (Inr (content media s p))"
  unfolding computes_def
proof (intro allI impI)
  fix c assume p: "data_page s p" and ok: "pager_ok ops media good (s\<lparr>cache := c\<rparr>)"
  have "data_page (s\<lparr>cache := c\<rparr>) p" using p by (simp add: data_page_def)
  from pager_read_page_ok[OF ok this]
  show "\<exists>c'. pager_read_page ops p (s\<lparr>cache := c\<rparr>) = Some (Inr (content media s p), s\<lparr>cache := c'\<rparr>) \<and>
      pager_ok ops media good (s\<lparr>cache := c'\<rparr>)" by (auto simp: content_def)
qed

lemma computes_chain [comp]:
  assumes "blob (content media s) h ps bs" "\<forall>p \<in> set ps. data_page s p"
  shows "computes ops media good s (read_chain ops h) (Inr bs)"
  unfolding computes_def
proof (intro allI impI)
  fix c assume ok: "pager_ok ops media good (s\<lparr>cache := c\<rparr>)"
  have "blob (content media (s\<lparr>cache := c\<rparr>)) h ps bs" "\<forall>p \<in> set ps. data_page (s\<lparr>cache := c\<rparr>) p"
    using assms by (simp_all add: content_def data_page_def)
  from read_chain_ok[OF ok this]
  show "\<exists>c'. read_chain ops h (s\<lparr>cache := c\<rparr>) = Some (Inr bs, s\<lparr>cache := c'\<rparr>) \<and> pager_ok ops media good (s\<lparr>cache := c'\<rparr>)"
    by auto
qed

lemma computes_index_from:
  assumes "linked (content media s) h ps" "\<forall>p \<in> set ps. data_page s p \<and> rd_u64 (content media s p) 8 \<le> IDX_CAP"
  shows "computes ops media good s (index_collect_from ops h out)
    (Inr (out @ concat (map (\<lambda>p. page_slots p (content media s p)) ps)))"
  using assms
proof (induction ps arbitrary: h out)
  case Nil
  then show ?case by (auto simp: computes_def index_collect_from.simps)
next
  case (Cons p ps)
  have p: "h = p" "p \<noteq> 0" "linked (content media s) (rd_u64 (content media s p) 0) ps" "data_page s p"
    "rd_u64 (content media s p) 8 \<le> IDX_CAP"
    using Cons.prems by (simp_all add: rd_u64_0)
  let ?v = "content media s p"
  have "computes ops media good s (bindM (pager_read_page ops p) (\<lambda>page. bindM (assertM (rd_u64 page 8 \<le> IDX_CAP))
      (\<lambda>_. index_collect_from ops (rd_u64 page 0) (out @ page_slots p page))))
      (Inr (out @ concat (map (\<lambda>p. page_slots p (content media s p)) (p # ps))))"
    using Cons.IH[OF p(3), of "out @ page_slots p ?v"] Cons.prems(2) p(4,5)
    by (auto intro!: computes_bind [of _ _ _ _ "pager_read_page ops p"] computes_bind [of _ _ _ _ "assertM _"] comp)
  moreover have "index_collect_from ops h out = bindM (pager_read_page ops p) (\<lambda>page. bindM (assertM (rd_u64 page 8 \<le> IDX_CAP))
      (\<lambda>_. index_collect_from ops (rd_u64 page 0) (out @ page_slots p page)))"
    using p(1,2) by (intro ext) (subst index_collect_from.simps, simp)
  ultimately show ?case by simp
qed

lemma computes_index [comp]:
  assumes "linked (content media s) h ps" "\<forall>p \<in> set ps. data_page s p \<and> rd_u64 (content media s p) 8 \<le> IDX_CAP"
  shows "computes ops media good s (index_collect ops h) (Inr (concat (map (\<lambda>p. page_slots p (content media s p)) ps)))"
  using computes_index_from[OF assms, of "[]"] by (simp add: index_collect_def)

end

end
