(* ===== verification/Store_Abs.thy ===== *)
theory Store_Abs
  imports Store_Reads
begin

text \<open>
  The abstract database and how a volume stores it. A database is a list of tables, each with its schema and its rows in insertion
  order; a layout says which pages of the volume hold what. On a volume that stores a database, the reading actions of the store
  compute functions of the database: in particular the integrity checks of an insertion or an update, which are stated here once more
  on the database itself.
\<close>

section \<open>Databases\<close>

record rel =
  rel_name :: string
  rel_schema :: table
  rel_rows :: "(row_id \<times> row) list"

type_synonym database = "rel list"

definition find_table :: "database \<Rightarrow> string \<Rightarrow> nat result" where
  "find_table db name = ok_or (table_not_found name) (position (\<lambda>r. rel_name r = name) db)"

abbreviation cols :: "rel \<Rightarrow> column list" where
  "cols r \<equiv> columns (rel_schema r)"

section \<open>Layouts\<close>

text \<open>The pages of the schema, the pages of the index, and for each live row its identity, its head and its pages.\<close>

record layout =
  schema_pages :: "nat list"
  index_pages :: "nat list"
  row_slots :: "(row_id \<times> nat \<times> nat list) list"

definition live_slots :: "layout \<Rightarrow> (row_id \<times> nat) list" where
  "live_slots L = map (\<lambda>sl. (fst sl, fst (snd sl))) (row_slots L)"

definition row_chains :: "layout \<Rightarrow> nat list" where
  "row_chains L = concat (map (\<lambda>sl. snd (snd sl)) (row_slots L))"

definition pages_of :: "layout \<Rightarrow> nat list" where
  "pages_of L = schema_pages L @ index_pages L @ row_chains L"

definition all_pages :: "nat list \<Rightarrow> layout list \<Rightarrow> nat list" where
  "all_pages cps Ls = cps @ concat (map pages_of Ls)"

definition index_slots :: "(nat \<Rightarrow> byte list) \<Rightarrow> nat list \<Rightarrow> (row_id \<times> nat) list" where
  "index_slots v ips = concat (map (\<lambda>p. page_slots p (v p)) ips)"

definition wf_row :: "row \<Rightarrow> bool" where
  "wf_row r \<longleftrightarrow> (\<forall>c \<in> set r. wf_cell c) \<and> length r < 2 ^ 64"

definition row_stored :: "(nat \<Rightarrow> byte list) \<Rightarrow> row_id \<times> nat \<times> nat list \<Rightarrow> row_id \<times> row \<Rightarrow> bool" where
  "row_stored v sl ir = (case sl of (rid, h, ps) \<Rightarrow> case ir of (id', r) \<Rightarrow>
     rid = id' \<and> h \<noteq> 0 \<and> blob v h ps (encode_row r) \<and> wf_row r)"

definition table_stored :: "(nat \<Rightarrow> byte list) \<Rightarrow> cat_entry \<Rightarrow> layout \<Rightarrow> rel \<Rightarrow> bool" where
  "table_stored v e L r \<longleftrightarrow> wf_cat e \<and> cat_name e = rel_name r \<and> row_count e = length (rel_rows r) \<and>
     schema_head e \<noteq> 0 \<and> blob v (schema_head e) (schema_pages L) (encode_table (rel_schema r)) \<and> wf_table (rel_schema r) \<and>
     linked v (data_head e) (index_pages L) \<and> index_pages L \<noteq> [] \<and> (\<forall>p \<in> set (index_pages L). rd_u64 (v p) 8 \<le> IDX_CAP) \<and>
     index_slots v (index_pages L) = live_slots L \<and> list_all2 (row_stored v) (row_slots L) (rel_rows r)"

definition db_stored :: "(nat \<Rightarrow> byte list) \<Rightarrow> nat \<Rightarrow> cat_entry list \<Rightarrow> nat list \<Rightarrow> layout list \<Rightarrow> database \<Rightarrow> bool" where
  "db_stored v head cat cps Ls db \<longleftrightarrow>
     (if head = 0 then cat = [] \<and> cps = [] else blob v head cps (encode_catalog cat)) \<and>
     length cat = length db \<and> length Ls = length db \<and> (\<forall>i < length db. table_stored v (cat ! i) (Ls ! i) (db ! i)) \<and>
     distinct (all_pages cps Ls)"

text \<open>
  The state of a store between two operations of a transaction: sound pager and allocator, the database stored, and the pages in use
  are exactly the pages of the layout, so that no page is lost.
\<close>

definition stores :: "'d block_ops \<Rightarrow> ('d \<Rightarrow> disk) \<Rightarrow> ('d \<Rightarrow> bool) \<Rightarrow> 'd store \<Rightarrow> nat list \<Rightarrow> cat_entry list \<Rightarrow> nat list \<Rightarrow>
    layout list \<Rightarrow> database \<Rightarrow> bool" where
  "stores ops media good s ps cat cps Ls db \<longleftrightarrow> pager_ok ops media good s \<and> alloc_ok media s ps \<and>
     db_stored (content media s) (catalog_head (sb s)) cat cps Ls db \<and> set (all_pages cps Ls) = used s ps"

text \<open>A volume that represents a database between two operations.\<close>

definition represents :: "'d block_ops \<Rightarrow> ('d \<Rightarrow> disk) \<Rightarrow> ('d \<Rightarrow> bool) \<Rightarrow> 'd store \<Rightarrow> database \<Rightarrow> bool" where
  "represents ops media good s db \<longleftrightarrow> dirty s = [] \<and> sb_decode (page_at (media (dev s)) 0) = Inr (sb s) \<and>
     (\<exists>ps cat cps Ls. stores ops media good s ps cat cps Ls db)"

section \<open>Frames\<close>

lemma row_stored_cong: "(\<And>p. p \<in> set (snd (snd sl)) \<Longrightarrow> v p = v' p) \<Longrightarrow> row_stored v sl ir \<Longrightarrow> row_stored v' sl ir"
  using blob_cong[of "snd (snd sl)" v v'] by (auto simp: row_stored_def split: prod.splits)

lemma index_slots_cong: "(\<And>p. p \<in> set ips \<Longrightarrow> v p = v' p) \<Longrightarrow> index_slots v ips = index_slots v' ips"
  by (simp add: index_slots_def cong: map_cong)

lemma rows_stored_cong:
  assumes "list_all2 (row_stored v) sls rows" "\<And>sl p. sl \<in> set sls \<Longrightarrow> p \<in> set (snd (snd sl)) \<Longrightarrow> v p = v' p"
  shows "list_all2 (row_stored v') sls rows"
  using assms(1) by (rule list.rel_mono_strong) (blast intro: row_stored_cong assms(2))

lemma table_stored_cong:
  assumes "table_stored v e L r" "\<And>p. p \<in> set (pages_of L) \<Longrightarrow> v p = v' p"
  shows "table_stored v' e L r"
proof -
  have s: "v p = v' p" if "p \<in> set (schema_pages L)" for p using assms(2) that by (simp add: pages_of_def)
  have i: "v p = v' p" if "p \<in> set (index_pages L)" for p using assms(2) that by (simp add: pages_of_def)
  have rows: "list_all2 (row_stored v) (row_slots L) (rel_rows r)" using assms(1) by (simp add: table_stored_def)
  have "list_all2 (row_stored v') (row_slots L) (rel_rows r)"
    by (rule rows_stored_cong[OF rows], rule assms(2)) (auto simp: pages_of_def row_chains_def)
  moreover have "blob v' (schema_head e) (schema_pages L) bs = blob v (schema_head e) (schema_pages L) bs" for bs
    by (rule blob_cong) (simp add: s)
  moreover have "linked v' h (index_pages L) = linked v h (index_pages L)" for h
    by (rule linked_cong) (simp add: i)
  moreover have "index_slots v' (index_pages L) = index_slots v (index_pages L)"
    by (rule index_slots_cong) (simp add: i)
  moreover have "\<forall>p \<in> set (index_pages L). rd_u64 (v' p) 8 \<le> IDX_CAP"
  proof
    fix p assume p: "p \<in> set (index_pages L)"
    then have "rd_u64 (v p) 8 \<le> IDX_CAP" using assms(1) by (simp add: table_stored_def)
    then show "rd_u64 (v' p) 8 \<le> IDX_CAP" by (simp only: i[OF p])
  qed
  ultimately show ?thesis
    using assms(1) by (simp only: table_stored_def simp_thms)
qed

section \<open>Sizes\<close>

lemma linked_nonzero: "linked v h ps \<Longrightarrow> h \<noteq> 0 \<Longrightarrow> ps \<noteq> [] \<and> h = hd ps"
  by (cases ps) auto

lemma length_concat_nonempty: "\<forall>xs \<in> set xss. xs \<noteq> [] \<Longrightarrow> length xss \<le> length (concat xss)"
proof (induction xss)
  case (Cons xs xss)
  then have "xs \<noteq> []" "length xss \<le> length (concat xss)" by simp_all
  then show ?case by (cases xs) auto
qed simp

lemma used_bound:
  assumes "pager_ok ops media good s" "distinct xs" "set xs \<subseteq> used s ps"
  shows "length xs + FIRST_DATA_PAGE \<le> total_pages (sb s)"
proof -
  have ok: "hwm (sb s) \<le> total_pages (sb s)" "FIRST_DATA_PAGE < total_pages (sb s)" using assms(1) by (simp_all add: pager_ok_def)
  have "length xs = card (set xs)" using assms(2) by (simp add: distinct_card)
  also have "\<dots> \<le> card {FIRST_DATA_PAGE..<hwm (sb s)}"
    using assms(3) by (intro card_mono) (auto simp: used_def)
  finally show ?thesis using ok by simp
qed

lemma table_nonempty: "table_stored v e L r \<Longrightarrow> pages_of L \<noteq> []"
  by (auto simp: table_stored_def pages_of_def)

lemma rows_nonempty:
  assumes "table_stored v e L r" "sl \<in> set (row_slots L)"
  shows "snd (snd sl) \<noteq> []"
proof -
  have l: "list_all2 (row_stored v) (row_slots L) (rel_rows r)" using assms(1) by (simp add: table_stored_def)
  from assms(2) obtain k where k: "k < length (row_slots L)" "row_slots L ! k = sl" by (auto simp: in_set_conv_nth)
  have "row_stored v sl (rel_rows r ! k)" using list_all2_nthD[OF l k(1)] k(2) by simp
  then obtain h bs where "h \<noteq> 0" "blob v h (snd (snd sl)) bs" by (cases sl) (auto simp: row_stored_def split: prod.splits)
  then show ?thesis by (auto simp: blob_def)
qed

lemma rows_bound:
  assumes "table_stored v e L r"
  shows "length (rel_rows r) \<le> length (pages_of L)"
proof -
  have "length (rel_rows r) = length (row_slots L)" using assms by (auto simp: table_stored_def dest: list_all2_lengthD)
  also have "\<dots> \<le> length (row_chains L)"
  proof -
    have "xs \<noteq> []" if "xs \<in> set (map (\<lambda>sl. snd (snd sl)) (row_slots L))" for xs
      using that rows_nonempty[OF assms] by auto
    with length_concat_nonempty[of "map (\<lambda>sl. snd (snd sl)) (row_slots L)"] show ?thesis by (simp add: row_chains_def)
  qed
  finally show ?thesis by (simp add: pages_of_def)
qed

section \<open>Reading a stored database\<close>

lemma stores_pages:
  assumes "stores ops media good s ps cat cps Ls db"
  shows "p \<in> set (all_pages cps Ls) \<Longrightarrow> data_page s p"
  using assms by (auto simp: stores_def used_def data_page_def pager_ok_def)

lemma all_pages_table: "i < length Ls \<Longrightarrow> p \<in> set (pages_of (Ls ! i)) \<Longrightarrow> p \<in> set (all_pages cps Ls)"
  by (auto simp: all_pages_def)

lemma stores_table:
  assumes "stores ops media good s ps cat cps Ls db" "i < length db"
  shows "table_stored (content media s) (cat ! i) (Ls ! i) (db ! i)" "length Ls = length db" "length cat = length db"
  using assms by (simp_all add: stores_def db_stored_def)

lemma stores_lens: "stores ops media good s ps cat cps Ls db \<Longrightarrow> length cat = length db \<and> length Ls = length db"
  by (simp add: stores_def db_stored_def)

lemma stores_sizes:
  assumes "stores ops media good s ps cat cps Ls db"
  shows "length (all_pages cps Ls) + 1 < 2 ^ 64" "length db \<le> length (all_pages cps Ls)"
    "i < length db \<Longrightarrow> length (rel_rows (db ! i)) \<le> length (all_pages cps Ls)"
proof -
  have ok: "pager_ok ops media good s" and d: "distinct (all_pages cps Ls)" "set (all_pages cps Ls) \<subseteq> used s ps"
    using assms by (simp_all add: stores_def db_stored_def)
  have "total_pages (sb s) < 2 ^ 64" using ok by (simp add: pager_ok_def sb_ok_def)
  then show "length (all_pages cps Ls) + 1 < 2 ^ 64" using used_bound[OF ok d] by (simp add: FIRST_DATA_PAGE_val)
  have len: "length Ls = length db" using assms by (simp add: stores_def db_stored_def)
  have ne: "xs \<noteq> []" if xs: "xs \<in> set (map pages_of Ls)" for xs
  proof -
    obtain j where j: "j < length db" "xs = pages_of (Ls ! j)" using xs len by (auto simp: in_set_conv_nth)
    show ?thesis unfolding j(2) by (rule table_nonempty[OF stores_table(1)[OF assms j(1)]])
  qed
  show "length db \<le> length (all_pages cps Ls)"
    using length_concat_nonempty[of "map pages_of Ls"] ne len by (simp add: all_pages_def)
  show "length (rel_rows (db ! i)) \<le> length (all_pages cps Ls)" if i: "i < length db"
  proof -
    have "length (pages_of (Ls ! i)) \<in> set (map (length \<circ> pages_of) Ls)" using i len by simp
    then have "length (pages_of (Ls ! i)) \<le> length (concat (map pages_of Ls))"
      by (simp only: length_concat map_map member_le_sum_list)
    then show ?thesis using rows_bound[OF stores_table(1)[OF assms i]] by (simp add: all_pages_def)
  qed
qed

text \<open>Loops over the live slots are loops over the rows.\<close>

lemma computes_rows:
  assumes "list_all2 (\<lambda>sl ir. fst sl = fst ir \<and> computes ops media good s (read_row ops (fst (snd sl))) (Inr (snd ir))) sls rows"
  shows
    "(\<And>rid h r. computes ops media good s (read_row ops h) (Inr r) \<Longrightarrow> computes ops media good s (f (rid, h)) (g (rid, r))) \<Longrightarrow>
      computes ops media good s (forM (map (\<lambda>sl. (fst sl, fst (snd sl))) sls) f) (eachR rows g)"
    "(\<And>rid h r. computes ops media good s (read_row ops h) (Inr r) \<Longrightarrow> computes ops media good s (mf (rid, h)) (Inr (mg (rid, r)))) \<Longrightarrow>
      computes ops media good s (mapM (map (\<lambda>sl. (fst sl, fst (snd sl))) sls) mf) (Inr (map mg rows))"
    "(\<And>rid h r. computes ops media good s (read_row ops h) (Inr r) \<Longrightarrow> computes ops media good s (af (rid, h)) (Inr (ag (rid, r)))) \<Longrightarrow>
      computes ops media good s (anyM (map (\<lambda>sl. (fst sl, fst (snd sl))) sls) af) (Inr (\<exists>ir \<in> set rows. ag ir))"
  using assms
proof (induction rule: list_all2_induct)
  case (Cons sl sls ir rows)
  obtain rid h ps r where sl: "sl = (rid, h, ps)" "ir = (rid, r)" "computes ops media good s (read_row ops h) (Inr r)"
    using Cons.hyps(1) by (cases sl; cases ir) auto
  {
    case 1
    then show ?case using Cons.IH(1)[OF 1] sl by (auto intro!: computes_bindR)
  next
    case 2
    then show ?case using Cons.IH(2)[OF 2] 2[OF sl(3)] sl by (auto intro!: computes_bind comp)
  next
    case 3
    then show ?case
      using Cons.IH(3)[OF 3] 3[OF sl(3)] sl by (cases "ag ir") (auto intro!: computes_bind[where x = "ag ir"] comp)
  }
qed (simp_all add: comp)

context block_device
begin

lemma computes_catalog:
  assumes "stores ops media good s ps cat cps Ls db"
  shows "computes ops media good s (load_catalog ops) (Inr cat)"
proof -
  have d: "if catalog_head (sb s) = 0 then cat = [] \<and> cps = [] else blob (content media s) (catalog_head (sb s)) cps (encode_catalog cat)"
    "length cat = length db" using assms by (simp_all add: stores_def db_stored_def)
  have "wf_cat e" if "e \<in> set cat" for e
    using that stores_table[OF assms] by (auto simp: in_set_conv_nth table_stored_def d(2))
  moreover have "length cat < 2 ^ 64" using stores_sizes(1,2)[OF assms] d(2) by simp
  ultimately have dec: "decode_catalog (encode_catalog cat) = Inr cat" by (intro catalog_roundtrip) auto
  show ?thesis
  proof (cases "catalog_head (sb s) = 0")
    case True
    then show ?thesis using d(1) by (auto simp: load_catalog_def computes_def)
  next
    case False
    have "\<forall>p \<in> set cps. data_page s p" using stores_pages[OF assms] by (simp add: all_pages_def)
    then have c: "computes ops media good s (read_chain ops (catalog_head (sb s))) (Inr (encode_catalog cat))"
      using d(1) False by (intro computes_chain) auto
    have l: "computes ops media good s (liftM (decode_catalog (encode_catalog cat))) (Inr cat)" unfolding dec by (rule comp)
    show ?thesis unfolding load_catalog_def
      by (rule computes_bind[OF computes_get2]) (simp add: False, rule computes_bind[OF c], rule l)
  qed
qed

lemma computes_schema:
  assumes "stores ops media good s ps cat cps Ls db" "i < length db"
  shows "computes ops media good s (schema_of ops (cat ! i)) (Inr (rel_schema (db ! i)))"
proof -
  note t = stores_table[OF assms]
  have "\<forall>p \<in> set (schema_pages (Ls ! i)). data_page s p"
    using stores_pages[OF assms(1)] all_pages_table[of i Ls _ cps] assms(2) t(2) by (simp add: pages_of_def)
  then have c: "computes ops media good s (read_chain ops (schema_head (cat ! i))) (Inr (encode_table (rel_schema (db ! i))))"
    using t(1) by (intro computes_chain) (simp_all add: table_stored_def)
  have "decode_table (encode_table (rel_schema (db ! i))) = Inr (rel_schema (db ! i))"
    using t(1) by (intro schema_roundtrip) (simp add: table_stored_def)
  then show ?thesis unfolding schema_of_def by (intro computes_bind[OF c]) (simp add: comp)
qed

lemma computes_live:
  assumes "stores ops media good s ps cat cps Ls db" "i < length db"
  shows "computes ops media good s (index_collect ops (data_head (cat ! i))) (Inr (live_slots (Ls ! i)))"
proof -
  note t = stores_table[OF assms]
  have "\<forall>p \<in> set (index_pages (Ls ! i)). data_page s p"
    using stores_pages[OF assms(1)] all_pages_table[of i Ls _ cps] assms(2) t(2) by (simp add: pages_of_def)
  then have "computes ops media good s (index_collect ops (data_head (cat ! i))) (Inr (index_slots (content media s) (index_pages (Ls ! i))))"
    using t(1) unfolding index_slots_def by (intro computes_index) (simp_all add: table_stored_def)
  then show ?thesis using t(1) by (simp add: table_stored_def)
qed

lemma computes_slots:
  assumes "stores ops media good s ps cat cps Ls db" "i < length db"
  shows "list_all2 (\<lambda>sl ir. fst sl = fst ir \<and> computes ops media good s (read_row ops (fst (snd sl))) (Inr (snd ir)))
    (row_slots (Ls ! i)) (rel_rows (db ! i))"
proof -
  note t = stores_table[OF assms]
  have l: "list_all2 (row_stored (content media s)) (row_slots (Ls ! i)) (rel_rows (db ! i))"
    using t(1) by (simp add: table_stored_def)
  show ?thesis using l
  proof (rule list.rel_mono_strong)
    fix sl ir assume sl: "sl \<in> set (row_slots (Ls ! i))" and st: "row_stored (content media s) sl ir"
    obtain rid h ps r where eq: "sl = (rid, h, ps)" "ir = (rid, r)" using st by (cases sl; cases ir) (auto simp: row_stored_def)
    have "p \<in> set (pages_of (Ls ! i))" if "p \<in> set ps" for p
      using sl that eq(1) by (force simp: pages_of_def row_chains_def)
    then have "\<forall>p \<in> set ps. data_page s p"
      using stores_pages[OF assms(1)] all_pages_table[of i Ls _ cps] assms(2) t(2) by simp
    then have c: "computes ops media good s (read_chain ops h) (Inr (encode_row r))"
      using st eq by (intro computes_chain) (auto simp: row_stored_def)
    have "decode_row (encode_row r) = Inr r"
      using st eq by (intro row_roundtrip) (auto simp: row_stored_def wf_row_def)
    then have "computes ops media good s (read_row ops h) (Inr r)"
      unfolding read_row_def by (intro computes_bind[OF c]) (simp add: comp)
    then show "fst sl = fst ir \<and> computes ops media good s (read_row ops (fst (snd sl))) (Inr (snd ir))" by (simp add: eq)
  qed
qed

lemma computes_find:
  assumes "stores ops media good s ps cat cps Ls db"
  shows "cat_index cat name = find_table db name"
proof -
  have names: "map cat_name cat = map rel_name db"
    using stores_table[OF assms] by (intro nth_equalityI) (auto simp: table_stored_def stores_lens[OF assms])
  have pos: "position P (map f xs) = position (\<lambda>x. P (f x)) xs" for P and f :: "'b \<Rightarrow> 'c" and xs
    by (induction xs) simp_all
  show ?thesis unfolding cat_index_def find_table_def
    using pos[of "\<lambda>n. n = name" cat_name cat] pos[of "\<lambda>n. n = name" rel_name db] names by simp
qed

end

section \<open>The integrity checks on a database\<close>

definition unique_ok :: "(row_id \<times> row) list \<Rightarrow> row \<Rightarrow> row_id option \<Rightarrow> nat \<times> column \<Rightarrow> unit result" where
  "unique_ok rows cells ex ic = (case ic of (ci, c) \<Rightarrow>
     if \<not> unique c then Inr ()
     else case cells ! ci of None \<Rightarrow> Inr () | Some v \<Rightarrow>
       eachR rows (\<lambda>(rid, r). if Some rid = ex then Inr ()
         else if cell_at r ci = Some v then Inl (UniqueViolation (col_name c)) else Inr ()))"

definition fk_ok :: "database \<Rightarrow> nat \<Rightarrow> row \<Rightarrow> row_id option \<Rightarrow> foreign_key \<Rightarrow> unit result" where
  "fk_ok db ti cells ex fk =
     bindR (ok_or (Corrupt ''fk source column'') (column_index (rel_schema (db ! ti)) (from_col fk))) (\<lambda>fi.
     case cells ! fi of None \<Rightarrow> Inr () | Some v \<Rightarrow>
       bindR (find_table db (to_table fk)) (\<lambda>tj.
       bindR (ok_or (Corrupt ''fk target column'') (column_index (rel_schema (db ! tj)) (to_col fk))) (\<lambda>tc.
       if \<exists>(rid, r) \<in> set (rel_rows (db ! tj)).
           (if tj = ti \<and> Some rid = ex then cell_at cells tc = Some v else cell_at r tc = Some v)
       then Inr () else Inl (ForeignKeyViolation (fk_name fk)))))"

definition valid_row :: "database \<Rightarrow> nat \<Rightarrow> row \<Rightarrow> row_id option \<Rightarrow> unit result" where
  "valid_row db i cells ex =
     (if length cells \<noteq> length (cols (db ! i)) then
        Inl (Parse (''row has '' @ dec_of_nat (length cells) @ '' cells, table has '' @
          dec_of_nat (length (cols (db ! i))) @ '' columns''))
      else
        bindR (eachR (zip (cols (db ! i)) cells) (\<lambda>(c, cell). check_cell c cell)) (\<lambda>_.
        bindR (eachR (enumerate 0 (cols (db ! i))) (unique_ok (rel_rows (db ! i)) cells ex)) (\<lambda>_.
        eachR (fks (rel_schema (db ! i))) (fk_ok db i cells ex))))"

lemma position_bound: "position P xs = Some i \<Longrightarrow> i < length xs \<and> P (xs ! i)"
  by (induction xs arbitrary: i) (auto split: if_splits)

lemma find_table_bound: "find_table db name = Inr i \<Longrightarrow> i < length db \<and> rel_name (db ! i) = name"
  using position_bound[of "\<lambda>r. rel_name r = name" db i] by (cases "position (\<lambda>r. rel_name r = name) db") (simp_all add: find_table_def)

context block_device
begin

lemma computes_unique:
  assumes "stores ops media good s ps cat cps Ls db" "i < length db"
  shows "computes ops media good s (check_unique ops (cat ! i) cells ex ic) (unique_ok (rel_rows (db ! i)) cells ex ic)"
proof -
  obtain ci c where ic: "ic = (ci, c)" by (cases ic)
  note rows = computes_rows(1)[OF computes_slots[OF assms]]
  have l: "computes ops media good s (forM (live_slots (Ls ! i)) (\<lambda>(rid, head).
      if Some rid = ex then returnM () else bindM (read_row ops head) (\<lambda>other.
        if cell_at other ci = Some v then failM (UniqueViolation (col_name c)) else returnM ())))
      (eachR (rel_rows (db ! i)) (\<lambda>(rid, r). if Some rid = ex then Inr ()
         else if cell_at r ci = Some v then Inl (UniqueViolation (col_name c)) else Inr ()))" for v
    unfolding live_slots_def by (rule rows) (auto intro!: computes_bind comp)
  show ?thesis
    unfolding check_unique_def unique_ok_def ic
    by (auto intro!: comp computes_bind[OF computes_live[OF assms]] l split: option.split)
qed

lemma computes_fk:
  assumes st: "stores ops media good s ps cat cps Ls db" and i: "i < length db"
  shows "computes ops media good s (check_fk ops cat i (rel_schema (db ! i)) cells ex fk) (fk_ok db i cells ex fk)"
proof -
  have found: "computes ops media good s (bindM (index_collect ops (data_head (cat ! j))) (\<lambda>rows.
      bindM (anyM rows (\<lambda>(rid, head).
          if j = i \<and> Some rid = ex then returnM (cell_at cells tc = Some v)
          else bindM (read_row ops head) (\<lambda>r. returnM (cell_at r tc = Some v)))) (\<lambda>found.
      if found then returnM () else failM (ForeignKeyViolation (fk_name fk)))))
      (if \<exists>(rid, r) \<in> set (rel_rows (db ! j)). (if j = i \<and> Some rid = ex then cell_at cells tc = Some v else cell_at r tc = Some v)
       then Inr () else Inl (ForeignKeyViolation (fk_name fk)))" if j: "j < length db" for j tc v
  proof (rule computes_bind[OF computes_live[OF st j]])
    have "computes ops media good s (anyM (live_slots (Ls ! j)) (\<lambda>(rid, head).
          if j = i \<and> Some rid = ex then returnM (cell_at cells tc = Some v)
          else bindM (read_row ops head) (\<lambda>r. returnM (cell_at r tc = Some v))))
        (Inr (\<exists>ir \<in> set (rel_rows (db ! j)). (case ir of (rid, r) \<Rightarrow>
          if j = i \<and> Some rid = ex then cell_at cells tc = Some v else cell_at r tc = Some v)))"
      unfolding live_slots_def by (rule computes_rows(3)[OF computes_slots[OF st j]]) (auto intro!: computes_bind comp)
    then show "computes ops media good s (bindM (anyM (live_slots (Ls ! j)) (\<lambda>(rid, head).
          if j = i \<and> Some rid = ex then returnM (cell_at cells tc = Some v)
          else bindM (read_row ops head) (\<lambda>r. returnM (cell_at r tc = Some v)))) (\<lambda>found.
      if found then returnM () else failM (ForeignKeyViolation (fk_name fk))))
      (if \<exists>(rid, r) \<in> set (rel_rows (db ! j)). (if j = i \<and> Some rid = ex then cell_at cells tc = Some v else cell_at r tc = Some v)
       then Inr () else Inl (ForeignKeyViolation (fk_name fk)))"
      by (rule computes_bind) (auto intro: comp)
  qed
  show ?thesis
    unfolding check_fk_def fk_ok_def computes_find[OF st]
  proof (rule computes_bindR[OF computes_basic(3)], goal_cases)
    case (1 fi)
    show ?case
    proof (cases "cells ! fi")
      case (Some v)
      show ?thesis unfolding Some option.case
      proof (rule computes_bindR[OF computes_basic(3)], goal_cases)
        case (1 j)
        then have j: "j < length db" using find_table_bound by blast
        show ?case
          by (rule computes_bind[OF computes_schema[OF st j]], rule computes_bindR[OF computes_basic(3)], rule found[OF j])
      qed
    qed (simp add: comp)
  qed
qed

lemma computes_validate:
  assumes st: "stores ops media good s ps cat cps Ls db" and i: "i < length db"
  shows "computes ops media good s (validate ops cat i (rel_schema (db ! i)) cells ex) (valid_row db i cells ex)"
proof -
  have 1: "computes ops media good s (forM (zip (cols (db ! i)) cells) (\<lambda>(c, cell). liftM (check_cell c cell)))
      (eachR (zip (cols (db ! i)) cells) (\<lambda>(c, cell). check_cell c cell))"
    by (rule computes_forM) (auto intro: comp)
  have 2: "computes ops media good s (forM (enumerate 0 (cols (db ! i))) (check_unique ops (cat ! i) cells ex))
      (eachR (enumerate 0 (cols (db ! i))) (unique_ok (rel_rows (db ! i)) cells ex))"
    by (rule computes_forM) (rule computes_unique[OF st i])
  have 3: "computes ops media good s (forM (fks (rel_schema (db ! i))) (check_fk ops cat i (rel_schema (db ! i)) cells ex))
      (eachR (fks (rel_schema (db ! i))) (fk_ok db i cells ex))"
    by (rule computes_forM) (rule computes_fk[OF st i])
  show ?thesis unfolding validate_def valid_row_def
    by (auto intro: comp computes_bindR[OF 1] computes_bindR[OF 2] 3)
qed

lemma computes_with_table:
  assumes st: "stores ops media good s ps cat cps Ls db" and i: "find_table db name = Inr i"
    and k: "computes ops media good s (k cat i (rel_schema (db ! i))) r"
  shows "computes ops media good s (with_table ops name k) r"
proof -
  have b: "i < length db" using find_table_bound[OF i] by simp
  show ?thesis unfolding with_table_def
    by (rule computes_bind[OF computes_catalog[OF st]], unfold computes_find[OF st] i, rule computes_bind[OF computes_basic(3)],
        rule computes_bind[OF computes_schema[OF st b]], rule k)
qed

end

section \<open>Rows by identity\<close>

lemma index_slots_in:
  "(rid, h) \<in> set (index_slots v ips) \<longleftrightarrow> index_page rid \<in> set ips \<and> slot rid < rd_u64 (v (index_page rid)) 8 \<and>
     h = rd_u64 (v (index_page rid)) (IDX_HDR + slot rid * 8) \<and> h \<noteq> 0"
  by (cases rid) (auto simp: index_slots_def page_slots_def)

lemma page_slots_ids: "distinct (map fst (page_slots p page)) \<and> (\<forall>rid \<in> fst ` set (page_slots p page). index_page rid = p)"
  by (auto simp: page_slots_def o_def distinct_map inj_on_def)

lemma index_ids_distinct: "distinct ips \<Longrightarrow> distinct (map fst (index_slots v ips))"
proof (induction ips)
  case (Cons p ips)
  have "fst ` set (page_slots p (v p)) \<inter> fst ` set (index_slots v ips) = {}"
  proof (rule ccontr)
    assume "\<not> ?thesis"
    then obtain rid where rid: "rid \<in> fst ` set (page_slots p (v p))" "rid \<in> fst ` set (index_slots v ips)" by auto
    have "index_page rid = p" using rid(1) page_slots_ids by blast
    moreover have "index_page rid \<in> set ips" using rid(2) index_slots_in by force
    ultimately show False using Cons.prems by simp
  qed
  then show ?case using Cons page_slots_ids[of p "v p"] by (simp add: index_slots_def)
qed (simp add: index_slots_def)

lemma stored_ids:
  assumes "table_stored v e L r"
  shows "map fst (live_slots L) = map fst (rel_rows r)"
proof -
  have "list_all2 (row_stored v) (row_slots L) (rel_rows r)" using assms by (simp add: table_stored_def)
  then have "map fst (row_slots L) = map fst (rel_rows r)"
    by (induction rule: list_all2_induct) (auto simp: row_stored_def split: prod.splits)
  then show ?thesis by (simp add: live_slots_def o_def)
qed

lemma distinct_pages_of: "distinct (all_pages cps Ls) \<Longrightarrow> i < length Ls \<Longrightarrow> distinct (pages_of (Ls ! i))"
  by (simp add: all_pages_def distinct_concat_iff)

lemma ids_distinct:
  assumes "stores ops media good s ps cat cps Ls db" "i < length db"
  shows "distinct (map fst (rel_rows (db ! i)))"
proof -
  note t = stores_table[OF assms]
  have "distinct (pages_of (Ls ! i))" using assms t(2) by (intro distinct_pages_of) (auto simp: stores_def db_stored_def)
  then have "distinct (map fst (index_slots (content media s) (index_pages (Ls ! i))))"
    by (intro index_ids_distinct) (simp add: pages_of_def)
  then show ?thesis using t(1) stored_ids[OF t(1)] by (simp add: table_stored_def)
qed

definition row_at :: "database \<Rightarrow> nat \<Rightarrow> row_id \<Rightarrow> row option" where
  "row_at db i rid = map_of (rel_rows (db ! i)) rid"

lemma IDX_vals: "IDX_HDR = 16" "IDX_CAP = 510"
  by (simp_all add: IDX_HDR_def IDX_CAP_def PAGE_val)

context block_device
begin

lemma length_content: "pager_ok ops media good s \<Longrightarrow> data_page s p \<Longrightarrow> length (content media s p) = PAGE"
proof (cases "map_of (dirty s) p")
  case (Some img)
  assume "pager_ok ops media good s"
  then show ?thesis using map_of_SomeD[OF Some] Some by (auto simp: content_def overlay_def pager_ok_def)
next
  case None
  assume ok: "pager_ok ops media good s" and p: "data_page s p"
  have "length (page_at (media (dev s)) p) = PAGE" 
    using ok p ok_on_device[OF ok, of p] by (intro length_page_at) (simp_all add: pager_ok_def data_page_def)
  then show ?thesis using None by (simp add: content_def overlay_def)
qed

text \<open>The slot of a live row, its head and the pages of its chain.\<close>

lemma row_slot:
  assumes st: "stores ops media good s ps cat cps Ls db" and i: "i < length db" and r: "row_at db i rid = Some r"
  obtains h qs where "(rid, h, qs) \<in> set (row_slots (Ls ! i))" "h \<noteq> 0" "blob (content media s) h qs (encode_row r)"
    "computes ops media good s (row_head_at ops rid) (Inr h)" "computes ops media good s (read_row ops h) (Inr r)"
    "index_page rid \<in> set (index_pages (Ls ! i))" "slot rid < rd_u64 (content media s (index_page rid)) 8"
proof -
  note t = stores_table[OF st i]
  have "(rid, r) \<in> set (rel_rows (db ! i))" using r by (auto simp: row_at_def dest: map_of_SomeD)
  then obtain k where k: "k < length (rel_rows (db ! i))" "rel_rows (db ! i) ! k = (rid, r)" by (auto simp: in_set_conv_nth)
  have l: "list_all2 (row_stored (content media s)) (row_slots (Ls ! i)) (rel_rows (db ! i))" using t(1) by (simp add: table_stored_def)
  have kl: "k < length (row_slots (Ls ! i))" using k(1) list_all2_lengthD[OF l] by simp
  obtain rid' h qs where sl: "row_slots (Ls ! i) ! k = (rid', h, qs)" by (cases "row_slots (Ls ! i) ! k")
  have st': "rid' = rid" "h \<noteq> 0" "blob (content media s) h qs (encode_row r)"
    using list_all2_nthD[OF l kl] k(2) sl by (simp_all add: row_stored_def)
  have mem: "(rid, h, qs) \<in> set (row_slots (Ls ! i))" using kl sl st'(1) by (auto simp: in_set_conv_nth)
  then have "(rid, h) \<in> set (index_slots (content media s) (index_pages (Ls ! i)))"
    using t(1) by (force simp: table_stored_def live_slots_def)
  then have ix: "index_page rid \<in> set (index_pages (Ls ! i))" "slot rid < rd_u64 (content media s (index_page rid)) 8"
    "h = rd_u64 (content media s (index_page rid)) (IDX_HDR + slot rid * 8)" by (simp_all add: index_slots_in)
  have dp: "data_page s (index_page rid)"
    using ix(1) stores_pages[OF st] all_pages_table[of i Ls _ cps] i t(2) by (simp add: pages_of_def)
  have "rd_u64 (content media s (index_page rid)) 8 \<le> IDX_CAP" using t(1) ix(1) by (simp add: table_stored_def)
  then have len: "IDX_HDR + slot rid * 8 + 8 \<le> length (content media s (index_page rid))"
    using ix(2) length_content[OF _ dp] st by (simp add: stores_def IDX_vals PAGE_val)
  have "computes ops media good s (row_head_at ops rid) (Inr h)"
    unfolding row_head_at_def
    by (rule computes_bind[OF computes_page[OF dp]]) (use ix len st'(2) in \<open>auto simp: Let_def intro!: computes_bind[OF computes_basic(4)] comp\<close>)
  moreover have "computes ops media good s (read_row ops h) (Inr r)"
    using list_all2_nthD[OF computes_slots[OF st i] kl] k(2) sl by simp
  ultimately show thesis using that mem st'(2,3) ix(1,2) by blast
qed

text \<open>Scanning a table lists its rows.\<close>

lemma computes_scan:
  assumes st: "stores ops media good s ps cat cps Ls db" and i: "find_table db name = Inr i"
  shows "computes ops media good s (scan ops name)
    (Inr (map (\<lambda>(rid, r). (rid, resize (length (cols (db ! i))) r)) (rel_rows (db ! i))))"
proof -
  have b: "i < length db" using find_table_bound[OF i] by simp
  let ?n = "length (cols (db ! i))"
  have "computes ops media good s (mapM (live_slots (Ls ! i)) (\<lambda>(rid, head).
      bindM (decode_row_fitted ops head ?n) (\<lambda>r. returnM (rid, r)))) (Inr (map (\<lambda>(rid, r). (rid, resize ?n r)) (rel_rows (db ! i))))"
    unfolding live_slots_def decode_row_fitted_def
    by (rule computes_rows(2)[OF computes_slots[OF st b]]) (auto simp: bindM_assoc intro!: computes_bind comp)
  then show ?thesis unfolding scan_def
    by (intro computes_with_table[OF st i] computes_bind[OF computes_live[OF st b]])
qed

lemma computes_get_row:
  assumes st: "stores ops media good s ps cat cps Ls db" and i: "find_table db name = Inr i" and r: "row_at db i rid = Some r"
  shows "computes ops media good s (get_row ops name rid) (Inr (resize (length (cols (db ! i))) r))"
proof -
  have b: "i < length db" using find_table_bound[OF i] by simp
  obtain h where h: "computes ops media good s (row_head_at ops rid) (Inr h)" "computes ops media good s (read_row ops h) (Inr r)"
    using row_slot[OF st b r] by metis
  show ?thesis unfolding get_row_def decode_row_fitted_def
    by (rule computes_with_table[OF st i], rule computes_bind[OF h(1)], rule computes_bind[OF h(2)]) (rule comp)
qed

end

end
