(* ===== verification/Store_Writes.thy ===== *)
theory Store_Writes
  imports Store_Abs
begin

text \<open>
  The writing actions of the store on a sound pager: appending to an index chain, replacing or clearing a slot of it, replacing the
  catalog, and the transaction around an operation. Each is characterised on the content of the volume, with its frame: the pages it
  changes, the pages it allocates and frees, and the fact that it either succeeds or reports that the volume is full.
\<close>

section \<open>Words in pages\<close>

lemma length_wr [simp]: "off + 8 \<le> length b \<Longrightarrow> length (wr_u64 b off v) = length b"
  by (simp add: wr_u64_def)

lemma rd_wr_same: "off + 8 \<le> length b \<Longrightarrow> v < 2 ^ 64 \<Longrightarrow> rd_u64 (wr_u64 b off v) off = v"
  using slice_splice_same[of off "le_bytes 8 v" b] by (simp add: rd_u64_def wr_u64_def of_le_le_bytes)

lemma rd_wr_other:
  "off + 8 \<le> length b \<Longrightarrow> off' + 8 \<le> length b \<Longrightarrow> off' + 8 \<le> off \<or> off + 8 \<le> off' \<Longrightarrow>
    rd_u64 (wr_u64 b off v) off' = rd_u64 b off'"
  using slice_splice_disjoint[of off "le_bytes 8 v" b "off' + 8" off'] by (simp add: rd_u64_def wr_u64_def)

section \<open>Index pages\<close>

definition slot_value :: "byte list \<Rightarrow> nat \<Rightarrow> nat" where
  "slot_value page sl = rd_u64 page (IDX_HDR + sl * 8)"

lemma page_slots_values:
  "page_slots p page = map (\<lambda>sl. (\<lparr>index_page = p, slot = sl\<rparr>, slot_value page sl)) (filter (\<lambda>sl. slot_value page sl \<noteq> 0) [0..<rd_u64 page 8])"
  by (simp add: page_slots_def slot_value_def)

lemma page_append:
  assumes "length b = PAGE" "rd_u64 b 8 < IDX_CAP" "h \<noteq> 0" "h < 2 ^ 64"
  defines "b' \<equiv> wr_u64 (wr_u64 b (IDX_HDR + rd_u64 b 8 * 8) h) 8 (rd_u64 b 8 + 1)"
  shows "length b' = PAGE" "rd_u64 b' 8 = rd_u64 b 8 + 1" "rd_u64 b' 0 = rd_u64 b 0"
    "page_slots p b' = page_slots p b @ [(\<lparr>index_page = p, slot = rd_u64 b 8\<rparr>, h)]"
proof -
  let ?n = "rd_u64 b 8"
  have n: "16 + ?n * 8 + 8 \<le> length b" using assms(1,2) by (simp add: IDX_vals PAGE_val)
  have l: "length (wr_u64 b (16 + ?n * 8) h) = PAGE" using n assms(1) by simp
  show "length b' = PAGE" using l by (simp add: b'_def IDX_vals PAGE_val)
  show r8: "rd_u64 b' 8 = ?n + 1"
    unfolding b'_def IDX_vals using l n assms(1,2) by (intro rd_wr_same) (simp_all add: PAGE_val IDX_vals)
  have other: "rd_u64 b' off = rd_u64 b off" if "off + 8 \<le> 8 \<or> 16 \<le> off" "off + 8 \<le> 16 + ?n * 8" for off
    using that n l assms(1) by (simp add: b'_def IDX_vals rd_wr_other PAGE_val)
  then show "rd_u64 b' 0 = rd_u64 b 0" by simp
  have "slot_value b' ?n = h"
    using n l assms(1,4) by (simp add: slot_value_def b'_def IDX_vals rd_wr_other rd_wr_same PAGE_val)
  moreover have "slot_value b' sl = slot_value b sl" if "sl < ?n" for sl
    using that other[of "16 + sl * 8"] by (simp add: slot_value_def IDX_vals)
  then have "filter (\<lambda>sl. slot_value b' sl \<noteq> 0) [0..<?n] = filter (\<lambda>sl. slot_value b sl \<noteq> 0) [0..<?n]"
    "\<And>sl. sl \<in> set (filter (\<lambda>sl. slot_value b sl \<noteq> 0) [0..<?n]) \<Longrightarrow> slot_value b' sl = slot_value b sl"
    by (auto intro: filter_cong)
  ultimately show "page_slots p b' = page_slots p b @ [(\<lparr>index_page = p, slot = ?n\<rparr>, h)]"
    using assms(3) by (simp add: page_slots_values r8)
qed

lemma page_fresh:
  assumes "h \<noteq> 0" "h < 2 ^ 64"
  defines "b \<equiv> wr_u64 (wr_u64 zeroed_page 8 1) IDX_HDR h"
  shows "length b = PAGE" "rd_u64 b 8 = 1" "rd_u64 b 0 = 0" "page_slots p b = [(\<lparr>index_page = p, slot = 0\<rparr>, h)]"
proof -
  have z: "rd_u64 zeroed_page off = 0" if "off + 8 \<le> PAGE" for off
    using that by (simp add: rd_u64_def zeroed_page_def)
  have l: "length (wr_u64 zeroed_page 8 1) = PAGE" by (simp add: PAGE_val)
  show "length b = PAGE" using l by (simp add: b_def IDX_vals PAGE_val)
  show r: "rd_u64 b 8 = 1" using l by (simp add: b_def IDX_vals rd_wr_other rd_wr_same PAGE_val)
  show "rd_u64 b 0 = 0" using l z[of 0] by (simp add: b_def IDX_vals rd_wr_other PAGE_val)
  have "slot_value b 0 = h" using l assms by (simp add: slot_value_def b_def IDX_vals rd_wr_same PAGE_val)
  then show "page_slots p b = [(\<lparr>index_page = p, slot = 0\<rparr>, h)]" using assms(1) by (simp add: page_slots_values r)
qed

lemma page_link:
  assumes "length b = PAGE" "np < 2 ^ 64"
  shows "length (wr_u64 b 0 np) = PAGE" "rd_u64 (wr_u64 b 0 np) 8 = rd_u64 b 8" "rd_u64 (wr_u64 b 0 np) 0 = np"
    "rd_u64 b 8 \<le> IDX_CAP \<Longrightarrow> page_slots p (wr_u64 b 0 np) = page_slots p b"
proof -
  show "length (wr_u64 b 0 np) = PAGE" "rd_u64 (wr_u64 b 0 np) 0 = np"
    using assms by (simp_all add: rd_wr_same PAGE_val)
  show n: "rd_u64 (wr_u64 b 0 np) 8 = rd_u64 b 8" using assms by (simp add: rd_wr_other PAGE_val)
  assume "rd_u64 b 8 \<le> IDX_CAP"
  then have "slot_value (wr_u64 b 0 np) sl = slot_value b sl" if "sl < rd_u64 b 8" for sl
    using that assms by (simp add: slot_value_def IDX_vals rd_wr_other PAGE_val)
  then have "filter (\<lambda>sl. slot_value (wr_u64 b 0 np) sl \<noteq> 0) [0..<rd_u64 b 8] = filter (\<lambda>sl. slot_value b sl \<noteq> 0) [0..<rd_u64 b 8]"
    "\<And>sl. sl \<in> set (filter (\<lambda>sl. slot_value b sl \<noteq> 0) [0..<rd_u64 b 8]) \<Longrightarrow> slot_value (wr_u64 b 0 np) sl = slot_value b sl"
    by (auto intro: filter_cong)
  then show "page_slots p (wr_u64 b 0 np) = page_slots p b" by (simp add: page_slots_values n)
qed

text \<open>Replacing the value of a live slot, or clearing it.\<close>

definition set_slot :: "row_id \<Rightarrow> nat \<Rightarrow> (row_id \<times> nat) list \<Rightarrow> (row_id \<times> nat) list" where
  "set_slot rid v xs = (if v = 0 then filter (\<lambda>x. fst x \<noteq> rid) xs else map (\<lambda>x. if fst x = rid then (rid, v) else x) xs)"

lemma set_slot_append: "set_slot rid v (xs @ ys) = set_slot rid v xs @ set_slot rid v ys"
  by (simp add: set_slot_def)

lemma set_slot_other: "rid \<notin> fst ` set xs \<Longrightarrow> set_slot rid v xs = xs"
  by (induction xs) (auto simp: set_slot_def)

lemma page_set:
  assumes "length b = PAGE" "rd_u64 b 8 \<le> IDX_CAP" "sl < rd_u64 b 8" "v < 2 ^ 64" "slot_value b sl \<noteq> 0"
  defines "b' \<equiv> wr_u64 b (IDX_HDR + sl * 8) v"
  shows "length b' = PAGE" "rd_u64 b' 8 = rd_u64 b 8" "rd_u64 b' 0 = rd_u64 b 0"
    "page_slots p b' = set_slot \<lparr>index_page = p, slot = sl\<rparr> v (page_slots p b)"
proof -
  have fit: "16 + sl * 8 + 8 \<le> length b" using assms(1-3) by (simp add: IDX_vals PAGE_val)
  show "length b' = PAGE" using fit assms(1) by (simp add: b'_def IDX_vals)
  show n: "rd_u64 b' 8 = rd_u64 b 8" and "rd_u64 b' 0 = rd_u64 b 0"
    using fit assms(1) by (simp_all add: b'_def IDX_vals rd_wr_other PAGE_val)
  have val: "slot_value b' k = (if k = sl then v else slot_value b k)" if "k < rd_u64 b 8" for k
  proof (cases "k = sl")
    case True
    then show ?thesis using fit assms(4) by (simp add: b'_def slot_value_def IDX_vals rd_wr_same)
  next
    case False
    then have "16 + k * 8 + 8 \<le> 16 + sl * 8 \<or> 16 + sl * 8 + 8 \<le> 16 + k * 8" by linarith
    moreover have "16 + k * 8 + 8 \<le> length b" using that assms(1,2) by (simp add: IDX_vals PAGE_val)
    ultimately show ?thesis using False fit by (simp add: b'_def slot_value_def IDX_vals rd_wr_other)
  qed
  let ?f = "\<lambda>page k. (\<lparr>index_page = p, slot = k\<rparr>, slot_value page k)"
  have "map (?f b') (filter (\<lambda>k. slot_value b' k \<noteq> 0) ks) =
      set_slot \<lparr>index_page = p, slot = sl\<rparr> v (map (?f b) (filter (\<lambda>k. slot_value b k \<noteq> 0) ks))"
    if "\<forall>k \<in> set ks. k < rd_u64 b 8" for ks
    using that assms(5) by (induction ks) (auto simp: val set_slot_def)
  then show "page_slots p b' = set_slot \<lparr>index_page = p, slot = sl\<rparr> v (page_slots p b)"
    by (simp add: page_slots_values n)
qed

section \<open>Chains\<close>

lemma linked_same:
  "(\<And>p. p \<in> set ps \<Longrightarrow> rd_u64 (v' p) 0 = rd_u64 (v p) 0) \<Longrightarrow> linked v' h ps = linked v h ps"
  by (induction ps arbitrary: h) (auto simp flip: rd_u64_0)

lemma linked_extend:
  assumes "linked v h ps" "ps \<noteq> []" "np \<noteq> 0" "rd_u64 (v' (last ps)) 0 = np" "rd_u64 (v' np) 0 = 0"
    "\<And>p. p \<in> set (butlast ps) \<Longrightarrow> rd_u64 (v' p) 0 = rd_u64 (v p) 0"
  shows "linked v' h (ps @ [np])"
  using assms
proof (induction ps arbitrary: h)
  case (Cons p ps)
  show ?case
  proof (cases "ps = []")
    case True
    then show ?thesis using Cons.prems by (simp flip: rd_u64_0)
  next
    case False
    then have "linked v' (rd_u64 (v p) 0) (ps @ [np])"
      using Cons.prems by (intro Cons.IH) (auto simp: rd_u64_0)
    then show ?thesis using Cons.prems False by (simp flip: rd_u64_0)
  qed
qed simp

lemma linked_last: "linked v h ps \<Longrightarrow> ps \<noteq> [] \<Longrightarrow> rd_u64 (v (last ps)) 0 = 0 \<and> last ps \<noteq> 0"
  by (induction ps arbitrary: h) (auto simp: rd_u64_0 split: if_splits)

lemma linked_inner: "linked v h (ps @ q # qs) \<Longrightarrow> qs \<noteq> [] \<Longrightarrow> rd_u64 (v q) 0 = hd qs \<and> hd qs \<noteq> 0"
proof (induction ps arbitrary: h)
  case Nil
  then show ?case by (cases qs) (auto simp: rd_u64_0)
qed auto

lemma index_slots_append [simp]: "index_slots v (xs @ ys) = index_slots v xs @ index_slots v ys"
  by (simp add: index_slots_def)

lemma room_after:
  assumes "used s' ps' = used s ps \<union> set qs" "set qs \<inter> used s ps = {}" "distinct qs" "total_pages (sb s') = total_pages (sb s)"
  shows "room s' ps' = room s ps - length qs"
  using assms finite_used[of s ps] by (simp add: room_def card_Un_disjoint Int_commute distinct_card)

context block_device
begin

text \<open>The walk of an append ends at the last page of the chain.\<close>

lemma append_walk:
  assumes "pager_ok ops media good s" "linked (content media s) h0 ips" "ips \<noteq> []" "\<forall>p \<in> set ips. data_page s p"
  shows "\<exists>c. index_append ops h0 h s = index_append ops (last ips) h (s\<lparr>cache := c\<rparr>) \<and> pager_ok ops media good (s\<lparr>cache := c\<rparr>)"
  using assms
proof (induction ips arbitrary: h0 s)
  case (Cons p ips)
  show ?case
  proof (cases "ips = []")
    case True
    then show ?thesis using Cons.prems by (intro exI[of _ "cache s"]) simp
  next
    case False
    have p: "h0 = p" "data_page s p" using Cons.prems by simp_all
    have nx: "rd_u64 (content media s p) 0 \<noteq> 0" "linked (content media s) (rd_u64 (content media s p) 0) ips"
      using Cons.prems(2) False by (cases ips; simp add: rd_u64_0)+
    from pager_read_page_ok[OF Cons.prems(1) p(2)] obtain c where
      c: "pager_read_page ops p s = Some (Inr (content media s p), s\<lparr>cache := c\<rparr>)" "pager_ok ops media good (s\<lparr>cache := c\<rparr>)" by blast
    have same: "content media (s\<lparr>cache := c\<rparr>) = content media s" by (simp add: content_def)
    have "index_append ops h0 h s = index_append ops (rd_u64 (content media s p) 0) h (s\<lparr>cache := c\<rparr>)"
      using c(1) nx(1) p(1) by (simp add: index_append.simps[of ops p] run_simps Let_def)
    moreover from Cons.IH[OF c(2)] nx(2) False Cons.prems(4) obtain c' where
      "index_append ops (rd_u64 (content media s p) 0) h (s\<lparr>cache := c\<rparr>) = index_append ops (last ips) h (s\<lparr>cache := c'\<rparr>)"
      "pager_ok ops media good (s\<lparr>cache := c'\<rparr>)" by (auto simp: same data_page_def)
    ultimately show ?thesis using False by auto
  qed
qed simp

lemma alloc_ok_frame:
  assumes "alloc_ok media s ps" "\<And>q. q \<in> set ps \<Longrightarrow> content media s' q = content media s q" "sb s' = sb s"
  shows "alloc_ok media s' ps" "used s' ps = used s ps"
  using assms linked_cong[of ps "content media s'" "content media s"] by (simp_all add: alloc_ok_def used_def)

lemma content_write: "content media (s\<lparr>dirty := bt_insert p img (dirty s)\<rparr>) = (content media s)(p := img)"
  by (simp add: content_def)

lemma index_append_ok:
  assumes ok: "pager_ok ops media good s" and al: "alloc_ok media s ps"
    and ch: "linked (content media s) h0 ips" "ips \<noteq> []" "distinct ips" "set ips \<subseteq> used s ps"
      "\<forall>p \<in> set ips. rd_u64 (content media s p) 8 \<le> IDX_CAP"
    and h: "h \<noteq> 0" "h < 2 ^ 64"
  shows "(\<exists>rid s' ps' xs. index_append ops h0 h s = Some (Inr rid, s') \<and> pager_ok ops media good s' \<and> alloc_ok media s' ps' \<and>
      distinct xs \<and> length xs \<le> 1 \<and> set xs \<inter> used s ps = {} \<and> used s' ps' = used s ps \<union> set xs \<and>
      linked (content media s') h0 (ips @ xs) \<and> (\<forall>p \<in> set (ips @ xs). rd_u64 (content media s' p) 8 \<le> IDX_CAP) \<and>
      index_slots (content media s') (ips @ xs) = index_slots (content media s) ips @ [(rid, h)] \<and>
      (\<forall>p. p \<notin> set (ips @ xs) \<longrightarrow> content media s' p = content media s p) \<and> dev s' = dev s \<and>
      catalog_head (sb s') = catalog_head (sb s) \<and> total_pages (sb s') = total_pages (sb s)) \<or>
    room s ps = 0 \<and> (\<exists>s'. index_append ops h0 h s = Some (Inl OutOfSpace, s') \<and> pager_ok ops media good s')"
proof -
  have dp: "data_page s p" if "p \<in> used s ps" for p using that ok by (auto simp: used_def data_page_def pager_ok_def)
  obtain ips0 p where ips: "ips = ips0 @ [p]" using ch(2) by (metis append_butlast_last_id)
  obtain c where walk: "index_append ops h0 h s = index_append ops p h (s\<lparr>cache := c\<rparr>)" "pager_ok ops media good (s\<lparr>cache := c\<rparr>)"
  proof -
    have "\<forall>q \<in> set ips. data_page s q" using dp ch(4) by blast
    from append_walk[OF ok ch(1,2) this, of h] that ips show thesis by auto
  qed
  let ?s = "s\<lparr>cache := c\<rparr>" and ?b = "content media s p"
  have v: "content media ?s = content media s" by (simp add: content_def)
  have p: "p \<in> used s ps" "data_page s p" "p \<notin> set ips0" "p \<noteq> 0" using ch ips dp linked_last[OF ch(1,2)] by auto
  have nx: "rd_u64 ?b 0 = 0" using linked_last[OF ch(1,2)] ips by simp
  have len: "length ?b = PAGE" by (rule length_content[OF ok p(2)])
  have cap: "rd_u64 ?b 8 \<le> IDX_CAP" using ch(5) ips by simp
  have al0: "alloc_ok media ?s ps" "used ?s ps = used s ps" using alloc_ok_frame[OF al, of ?s] by (simp_all add: v)
  have dps: "data_page ?s p" using p(2) by (simp add: data_page_def)
  from pager_read_page_ok[OF walk(2) dps] obtain c2 where
    rd: "pager_read_page ops p ?s = Some (Inr ?b, s\<lparr>cache := c2\<rparr>)" "pager_ok ops media good (s\<lparr>cache := c2\<rparr>)" by (auto simp: v)
  let ?t = "s\<lparr>cache := c2\<rparr>"
  have vt: "content media ?t = content media s" by (simp add: content_def)
  have alt: "alloc_ok media ?t ps" "used ?t ps = used s ps" using alloc_ok_frame[OF al, of ?t] by (simp_all add: vt)
  have dpt: "data_page ?t p" using p(2) by (simp add: data_page_def)
  show ?thesis
  proof (cases "rd_u64 ?b 8 < IDX_CAP")
    case True
    define b' where "b' = wr_u64 (wr_u64 ?b (IDX_HDR + rd_u64 ?b 8 * 8) h) 8 (rd_u64 ?b 8 + 1)"
    define rid where "rid = \<lparr>index_page = p, slot = rd_u64 ?b 8\<rparr>"
    define s' where "s' = ?t\<lparr>dirty := bt_insert p b' (dirty ?t)\<rparr>"
    note a = page_append[OF len True h, folded b'_def]
    note w = pager_write_page_ok[OF rd(2) dpt a(1), folded s'_def]
    have c': "content media s' = (content media s)(p := b')" unfolding s'_def content_write vt ..
    have sb': "sb s' = sb s" "dev s' = dev s" by (simp_all add: s'_def)
    have run: "index_append ops h0 h s = Some (Inr rid, s')"
      using walk(1) rd(1) nx True w(1)
      by (simp add: index_append.simps[of ops p] run_simps Let_def rid_def flip: b'_def[unfolded Suc_eq_plus1[symmetric]])
    have fr: "alloc_ok media s' ps" "used s' ps = used s ps"
    proof -
      have "p \<notin> set ps" using p(1) by (simp add: used_def)
      then have e: "content media s' q = content media s q" if "q \<in> set ps" for q using that by (auto simp: c')
      show "alloc_ok media s' ps" "used s' ps = used s ps"
        using alloc_ok_frame[OF al e sb'(1)] by simp_all
    qed
    have "linked (content media s') h0 ips"
      using ch(1) a(3) by (subst linked_same[of ips "content media s'" "content media s"]) (auto simp: c')
    moreover have "index_slots (content media s') ips0 = index_slots (content media s) ips0"
      using p(3) by (intro index_slots_cong) (auto simp: c')
    then have "index_slots (content media s') ips = index_slots (content media s) ips @ [(rid, h)]"
      using a(4)[of p] by (simp add: ips index_slots_append) (simp add: c' index_slots_def rid_def)
    moreover have "\<forall>q \<in> set ips. rd_u64 (content media s' q) 8 \<le> IDX_CAP" using ch(5) a(2) True by (auto simp: c')
    ultimately show ?thesis
      using run w(2) fr p sb' by (intro disjI1 exI[of _ rid] exI[of _ s'] exI[of _ ps] exI[of _ "[]"]) (auto simp: c' ips)
  next
    case full: False
    show ?thesis
    proof (cases "ps \<noteq> [] \<or> hwm (sb s) < total_pages (sb s)")
      case False
      have "used s [] = {FIRST_DATA_PAGE..<hwm (sb s)}" by (simp add: used_def)
      moreover have "FIRST_DATA_PAGE \<le> hwm (sb s)" using al by (simp add: alloc_ok_def)
      ultimately have "room s ps = 0" using False by (simp add: room_def)
      moreover have "alloc_page ops ?t = Some (Inl OutOfSpace, ?t)" using False alt(1) by (intro alloc_page_full) simp_all
      then have "index_append ops h0 h s = Some (Inl OutOfSpace, ?t)"
        using walk(1) rd(1) nx full by (simp add: index_append.simps[of ops p] run_simps Let_def)
      ultimately show ?thesis using rd(2) by blast
    next
      case True
      then have "ps \<noteq> [] \<or> hwm (sb ?t) < total_pages (sb ?t)" by simp
      from alloc_page_ok[OF rd(2) alt(1) this] obtain np s1 ps1 where
        1: "alloc_page ops ?t = Some (Inr np, s1)" "pager_ok ops media good s1" "alloc_ok media s1 ps1" "data_page ?t np"
          "np \<notin> used s ps" "used s1 ps1 = Set.insert np (used s ps)" "content media s1 = (content media s)(np := zeroed_page)"
          "dev s1 = dev s" "catalog_head (sb s1) = catalog_head (sb s)" "total_pages (sb s1) = total_pages (sb s)"
        by (auto simp: vt alt(2))
      have np: "np \<noteq> 0" "np < 2 ^ 64" "np \<noteq> p" "np \<notin> set ips"
        using 1(4,5) p(1) ch(4) ok by (auto simp: data_page_def FIRST_DATA_PAGE_val pager_ok_def sb_ok_def)
      note f = page_fresh[OF h] and l = page_link[OF len np(2)]
      define f where "f = wr_u64 (wr_u64 zeroed_page 8 1) IDX_HDR h"
      define l where "l = wr_u64 ?b 0 np"
      define s2 where "s2 = s1\<lparr>dirty := bt_insert np f (dirty s1)\<rparr>"
      define s3 where "s3 = s2\<lparr>dirty := bt_insert p l (dirty s2)\<rparr>"
      define rid where "rid = \<lparr>index_page = np, slot = 0\<rparr>"
      note f = page_fresh[OF h, folded f_def] and l = page_link[OF len np(2), folded l_def]
      have d1: "data_page s1 np" using 1(4,10) by (simp add: data_page_def)
      note w1 = pager_write_page_ok[OF 1(2) d1 f(1), folded s2_def]
      have d2: "data_page s2 p" using p(2) 1(10) by (simp add: data_page_def s2_def)
      note w2 = pager_write_page_ok[OF w1(2) d2 l(1), folded s3_def]
      have c3: "content media s3 = (content media s)(np := f, p := l)"
        unfolding s3_def content_write unfolding s2_def content_write 1(7) by (simp add: fun_upd_upd)
      have sb3: "sb s3 = sb s1" "dev s3 = dev s1" by (simp_all add: s3_def s2_def)
      have run: "index_append ops h0 h s = Some (Inr rid, s3)"
        using walk(1) rd(1) nx full 1(1) w1(1) w2(1)
        by (simp add: index_append.simps[of ops p] run_simps Let_def rid_def flip: f_def[unfolded One_nat_def] l_def)
      have fr: "alloc_ok media s3 ps1" "used s3 ps1 = Set.insert np (used s ps)"
      proof -
        have "p \<in> used s1 ps1" "np \<in> used s1 ps1" using 1(6) p(1) by simp_all
        then have "q \<noteq> p \<and> q \<noteq> np" if "q \<in> set ps1" for q using that by (auto simp: used_def)
        then have e: "content media s3 q = content media s1 q" if "q \<in> set ps1" for q using that by (simp add: c3 1(7))
        show "alloc_ok media s3 ps1" "used s3 ps1 = Set.insert np (used s ps)"
          using alloc_ok_frame[OF 1(3), of s3] e 1(6) sb3(1) by simp_all
      qed
      have chain: "linked (content media s3) h0 (ips @ [np])"
        using np p(3) l(3) f(3) by (intro linked_extend[OF ch(1,2)]) (auto simp: c3 ips)
      have slots: "index_slots (content media s3) (ips @ [np]) = index_slots (content media s) ips @ [(rid, h)]"
      proof -
        have "index_slots (content media s3) ips0 = index_slots (content media s) ips0"
          using p(3) np(4) by (intro index_slots_cong) (auto simp: c3 ips)
        then show ?thesis using l(4)[OF cap] f(4) np(3) by (simp add: ips c3 index_slots_def rid_def)
      qed
      have caps: "\<forall>q \<in> set (ips @ [np]). rd_u64 (content media s3 q) 8 \<le> IDX_CAP"
        using ch(5) l(2) f(2) cap np(3) by (auto simp: c3 IDX_vals)
      have others: "\<forall>q. q \<notin> set (ips @ [np]) \<longrightarrow> content media s3 q = content media s q" by (simp add: c3 ips)
      have new: "set [np] \<inter> used s ps = {}" "used s3 ps1 = used s ps \<union> set [np]" using 1(5) fr(2) by auto
      show ?thesis
        by (intro disjI1 exI[of _ rid] exI[of _ s3] exI[of _ ps1] exI[of _ "[np]"] conjI,
            rule run, rule w2(2), rule fr(1), simp, simp, rule new(1), rule new(2), rule chain, rule caps, rule slots, rule others)
          (simp_all add: sb3 1(8-10))
    qed
  qed
qed

end

lemma bt_insert_Cons: "bt_insert p img m \<noteq> []"
  by (cases m) (auto split: if_splits)

context block_device
begin

lemma index_set_ok:
  assumes ok: "pager_ok ops media good s" and al: "alloc_ok media s ps"
    and ch: "linked (content media s) h0 ips" "distinct ips" "set ips \<subseteq> used s ps"
      "\<forall>p \<in> set ips. rd_u64 (content media s p) 8 \<le> IDX_CAP"
    and rid: "(rid, h) \<in> set (index_slots (content media s) ips)" and v: "v < 2 ^ 64"
  shows "\<exists>s'. index_set ops (index_page rid) (slot rid) v s = Some (Inr (), s') \<and> pager_ok ops media good s' \<and> alloc_ok media s' ps \<and>
      used s' ps = used s ps \<and> linked (content media s') h0 ips \<and> (\<forall>p \<in> set ips. rd_u64 (content media s' p) 8 \<le> IDX_CAP) \<and>
      index_slots (content media s') ips = set_slot rid v (index_slots (content media s) ips) \<and>
      (\<forall>p. p \<notin> set ips \<longrightarrow> content media s' p = content media s p) \<and> dev s' = dev s \<and>
      catalog_head (sb s') = catalog_head (sb s) \<and> total_pages (sb s') = total_pages (sb s) \<and> dirty s' \<noteq> []"
proof -
  define p where "p = index_page rid"
  have r: "p \<in> set ips" "slot rid < rd_u64 (content media s p) 8" "slot_value (content media s p) (slot rid) \<noteq> 0"
    "rid = \<lparr>index_page = p, slot = slot rid\<rparr>" using rid by (auto simp: index_slots_in p_def slot_value_def)
  have p: "p \<in> used s ps" using r(1) ch(3) by blast
  have dp: "data_page s p" using p ok by (auto simp: used_def data_page_def pager_ok_def)
  let ?b = "content media s p"
  have len: "length ?b = PAGE" by (rule length_content[OF ok dp])
  have cap: "rd_u64 ?b 8 \<le> IDX_CAP" using ch(4) r(1) by simp
  define b' where "b' = wr_u64 ?b (IDX_HDR + slot rid * 8) v"
  note a = page_set[OF len cap r(2) v r(3), folded b'_def]
  from pager_read_page_ok[OF ok dp] obtain c where
    rd: "pager_read_page ops p s = Some (Inr ?b, s\<lparr>cache := c\<rparr>)" "pager_ok ops media good (s\<lparr>cache := c\<rparr>)" by blast
  have dpt: "data_page (s\<lparr>cache := c\<rparr>) p" using dp by (simp add: data_page_def)
  define s' where "s' = s\<lparr>cache := c, dirty := bt_insert p b' (dirty (s\<lparr>cache := c\<rparr>))\<rparr>"
  note w = pager_write_page_ok[OF rd(2) dpt a(1), folded s'_def]
  have vt: "content media (s\<lparr>cache := c\<rparr>) = content media s" by (simp add: content_def)
  have c': "content media s' = (content media s)(p := b')" unfolding s'_def content_write vt ..
  have sb': "sb s' = sb s" "dev s' = dev s" by (simp_all add: s'_def)
  have room: "IDX_HDR + slot rid * 8 + 8 \<le> length ?b" using r(2) cap len by (simp add: IDX_vals PAGE_val)
  have run: "index_set ops (index_page rid) (slot rid) v s = Some (Inr (), s')"
    using rd(1) r(2) room w(1) by (simp add: index_set_def run_simps b'_def flip: p_def)
  have "p \<notin> set ps" using p by (simp add: used_def)
  then have e: "content media s' q = content media s q" if "q \<in> set ps" for q using that by (auto simp: c')
  note fr = alloc_ok_frame[OF al e sb'(1)]
  have chain: "linked (content media s') h0 ips"
    using ch(1) a(3) by (subst linked_same[of ips "content media s'" "content media s"]) (auto simp: c')
  have caps: "\<forall>q \<in> set ips. rd_u64 (content media s' q) 8 \<le> IDX_CAP" using ch(4) a(2) by (auto simp: c')
  have slots: "index_slots (content media s') ips = set_slot rid v (index_slots (content media s) ips)"
  proof -
    obtain xs ys where ips: "ips = xs @ p # ys" "p \<notin> set xs" "p \<notin> set ys"
      using r(1) ch(2) by (metis distinct.simps(2) distinct_append not_distinct_conv_prefix split_list_first)
    have other: "index_slots (content media s') zs = index_slots (content media s) zs"
      "set_slot rid v (index_slots (content media s) zs) = index_slots (content media s) zs" if z: "p \<notin> set zs" for zs
    proof -
      show "index_slots (content media s') zs = index_slots (content media s) zs"
        using z by (intro index_slots_cong) (auto simp: c')
      have "rid \<notin> fst ` set (index_slots (content media s) zs)" using z index_slots_in p_def by fastforce
      then show "set_slot rid v (index_slots (content media s) zs) = index_slots (content media s) zs" by (rule set_slot_other)
    qed
    have one: "index_slots f (p # zs) = page_slots p (f p) @ index_slots f zs" for f zs by (simp add: index_slots_def)
    have "page_slots p (content media s' p) = set_slot rid v (page_slots p (content media s p))"
      using a(4)[of p] unfolding r(4)[symmetric] by (simp add: c')
    then show ?thesis
      by (simp only: ips(1) index_slots_append set_slot_append one other[OF ips(2)] other[OF ips(3)])
  qed
  have d: "dirty s' \<noteq> []" by (simp add: s'_def bt_insert_Cons)
  have others: "\<forall>q. q \<notin> set ips \<longrightarrow> content media s' q = content media s q" using r(1) by (auto simp: c')
  show ?thesis
    by (intro exI[of _ s'] conjI, rule run, rule w(2), rule fr(1), assumption, rule fr(2), assumption, rule chain, rule caps,
        rule slots, rule others) (simp_all add: sb' d)
qed

text \<open>Nothing but a commit or a rollback empties the write buffer.\<close>

lemma free_chain_dirty: "free_chain ops h s = Some (r, s') \<Longrightarrow> dirty s \<noteq> [] \<Longrightarrow> dirty s' \<noteq> []"
proof -
  have "dirty s \<noteq> [] \<longrightarrow> dirty (snd y) \<noteq> []" if "free_chain ops h s = Some y" for y
    using that
  proof (rule free_chain.raw_induct[where P = "\<lambda>ops p s y. dirty s \<noteq> [] \<longrightarrow> dirty (snd y) \<noteq> []", rotated], intro impI)
    fix f and ops :: "'x block_ops" and p s y
    assume IH: "\<And>ops p s y. f ops p s = Some y \<Longrightarrow> dirty s \<noteq> [] \<longrightarrow> dirty (snd y) \<noteq> []"
      and run: "(if p = 0 then Some (Inr (), s) else bindM (pager_read_page ops p) (\<lambda>page.
        bindM (free_page p) (\<lambda>_. f ops (rd_u64 page 0))) s) = Some y"
      and d: "dirty s \<noteq> []"
    have rp: "dirty s1 = dirty s" if "pager_read_page ops p s = Some (r, s1)" for r s1
      using that by (auto simp: pager_read_page_def bindM_eq_Some on_dev_def split: option.splits if_splits)
    show "dirty (snd y) \<noteq> []"
    proof (cases "p = 0")
      case False
      then have b: "bindM (pager_read_page ops p) (\<lambda>page. bindM (free_page p) (\<lambda>_. f ops (rd_u64 page 0))) s = Some y" using run by simp
      obtain r' t where y: "y = (r', t)" by (cases y)
      have "dirty t \<noteq> []"
        using b rp d IH unfolding y bindM_eq_Some by (fastforce simp: free_page_def pager_write_page_def bindM_eq_Some bt_insert_Cons split: if_splits)
      then show ?thesis by (simp add: y)
    qed (use run d in auto)
  qed
  then show "free_chain ops h s = Some (r, s') \<Longrightarrow> dirty s \<noteq> [] \<Longrightarrow> dirty s' \<noteq> []" by fastforce
qed

lemma write_chain_dirty: "write_chain ops bs s = Some (Inr h, s') \<Longrightarrow> dirty s' \<noteq> []"
proof -
  assume run: "write_chain ops bs s = Some (Inr h, s')"
  have n: "0 < chunks bs" by (simp add: chunks_max)
  have "write_chain ops bs = bindM (mapM [0..<chunks bs] (\<lambda>_. alloc_page ops)) (\<lambda>pages.
      bindM (forM [0..<chunks bs] (\<lambda>i. pager_write_page (pages ! i)
        (chunk_image bs i (if i + 1 < chunks bs then pages ! (i + 1) else 0)))) (\<lambda>_. returnM (pages ! 0)))"
    by (simp only: write_chain_def chunks_def Let_def)
  from run[unfolded this bindM_eq_Inr] obtain pages t where
    "forM [0..<chunks bs] (\<lambda>i. pager_write_page (pages ! i) (chunk_image bs i (if i + 1 < chunks bs then pages ! (i + 1) else 0))) t =
      Some (Inr (), s')" by (auto simp: bindM_eq_Inr)
  moreover have "[0..<chunks bs] = [0..<chunks bs - 1] @ [chunks bs - 1]" using n by (metis Suc_diff_1 le0 upt_Suc_append)
  ultimately show ?thesis
    by (auto simp: forM_append bindM_eq_Some pager_write_page_def bt_insert_Cons split: if_splits)
qed

end

section \<open>The catalog and the transaction\<close>

context block_device
begin

lemma store_catalog_ok:
  assumes ok: "pager_ok ops media good s" and al: "alloc_ok media s ps"
    and old: "linked (content media s) (catalog_head (sb s)) cps" "distinct cps" "set cps \<subseteq> used s ps"
  shows "(\<exists>s' ps' qs. store_catalog ops cat s = Some (Inr (), s') \<and> pager_ok ops media good s' \<and> alloc_ok media s' ps' \<and>
      blob (content media s') (catalog_head (sb s')) qs (encode_catalog cat) \<and> catalog_head (sb s') \<noteq> 0 \<and> distinct qs \<and>
      set qs \<inter> used s ps = {} \<and> used s' ps' = used s ps - set cps \<union> set qs \<and>
      (\<forall>q. q \<notin> set qs \<and> q \<notin> set cps \<longrightarrow> content media s' q = content media s q) \<and> dev s' = dev s \<and>
      total_pages (sb s') = total_pages (sb s) \<and> dirty s' \<noteq> [] \<and> length qs = chunks (encode_catalog cat)) \<or>
    room s ps < chunks (encode_catalog cat) \<and> (\<exists>s'. store_catalog ops cat s = Some (Inl OutOfSpace, s') \<and> pager_ok ops media good s')"
proof (cases "chunks (encode_catalog cat) \<le> room s ps")
  case True
  let ?old = "catalog_head (sb s)"
  from write_chain_ok[OF ok al True] obtain h s1 ps1 qs where
    1: "write_chain ops (encode_catalog cat) s = Some (Inr h, s1)" "pager_ok ops media good s1" "alloc_ok media s1 ps1"
      "blob (content media s1) h qs (encode_catalog cat)" "h \<noteq> 0" "distinct qs" "\<forall>q \<in> set qs. data_page s q \<and> q \<notin> used s ps"
      "used s1 ps1 = used s ps \<union> set qs" "\<forall>q. q \<notin> set qs \<longrightarrow> content media s1 q = content media s q" "dev s1 = dev s"
      "total_pages (sb s1) = total_pages (sb s)" "length qs = chunks (encode_catalog cat)" by blast
  define s2 where "s2 = s1\<lparr>sb := (sb s1)\<lparr>catalog_head := h\<rparr>\<rparr>"
  have hq: "h \<in> set qs" using 1(4,5) linked_nonzero by (force simp: blob_def)
  have h64: "h < 2 ^ 64" using hq 1(7) ok by (auto simp: data_page_def pager_ok_def sb_ok_def)
  have v2: "content media s2 = content media s1" by (simp add: s2_def content_def)
  have ok2: "pager_ok ops media good s2" using 1(2) h64 by (simp add: s2_def pager_ok_def sb_ok_def data_page_def)
  have al2: "alloc_ok media s2 ps1" "used s2 ps1 = used s1 ps1" using 1(3) by (simp_all add: s2_def alloc_ok_def content_def used_def)
  have d2: "dirty s2 \<noteq> []" using write_chain_dirty[OF 1(1)] by (simp add: s2_def)
  have disj: "set qs \<inter> used s ps = {}" using 1(7) by blast
  have lk: "linked (content media s2) ?old cps"
    using old(1,3) 1(9) disj v2 linked_cong[of cps "content media s2" "content media s"] by fastforce
  have sub: "set cps \<subseteq> used s2 ps1" using old(3) al2(2) 1(8) by blast
  from free_chain_ok[OF ok2 al2(1) lk old(2) sub] obtain s3 where
    3: "free_chain ops ?old s2 = Some (Inr (), s3)" "pager_ok ops media good s3" "alloc_ok media s3 (rev cps @ ps1)"
      "used s3 (rev cps @ ps1) = used s2 ps1 - set cps" "\<forall>q. q \<notin> set cps \<longrightarrow> content media s3 q = content media s2 q"
      "dev s3 = dev s2" "catalog_head (sb s3) = catalog_head (sb s2)" "total_pages (sb s3) = total_pages (sb s2)" by blast
  have run: "store_catalog ops cat s = Some (Inr (), s3)"
  proof (cases "?old = 0")
    case True
    then have "s3 = s2" using 3(1) by (simp add: free_chain.simps)
    then show ?thesis using True 1(1) by (simp add: store_catalog_def run_simps s2_def)
  next
    case False
    then show ?thesis using 1(1) 3(1) by (simp add: store_catalog_def run_simps s2_def)
  qed
  have keep: "content media s3 q = content media s1 q" if "q \<in> set qs" for q using that 3(5) disj old(3) v2 by auto
  have "blob (content media s3) h qs (encode_catalog cat)"
    using 1(4) blob_cong[OF keep, of qs] by simp
  moreover have ch: "catalog_head (sb s3) = h" using 3(7) by (simp add: s2_def)
  moreover have "used s3 (rev cps @ ps1) = used s ps - set cps \<union> set qs" using 3(4) al2(2) 1(8) disj old(3) by auto
  moreover have "\<forall>q. q \<notin> set qs \<and> q \<notin> set cps \<longrightarrow> content media s3 q = content media s q" using 3(5) 1(9) v2 by simp
  moreover have "dev s3 = dev s" "total_pages (sb s3) = total_pages (sb s)" using 3(6,8) 1(10,11) by (simp_all add: s2_def)
  moreover have "dirty s3 \<noteq> []" by (rule free_chain_dirty[OF 3(1) d2])
  ultimately show ?thesis using run 3(2,3) 1(5,6,12) disj by metis
next
  case False
  then have "room s ps < chunks (encode_catalog cat)" by simp
  with write_chain_full[OF ok al this] show ?thesis by (auto simp: store_catalog_def run_simps)
qed

lemma represents_rolled_back:
  assumes rep: "represents ops media good s db" and t: "pager_ok ops media good t" "dev t = dev s" "total_pages (sb t) = total_pages (sb s)"
  shows "\<exists>s'. abort ops e t = Some (Inl e, s') \<and> represents ops media good s' db \<and> dev s' = dev s"
proof -
  have d: "dirty s = []" "sb_decode (page_at (media (dev s)) 0) = Inr (sb s)" using rep by (simp_all add: represents_def)
  from rep obtain ps cat cps Ls where st: "stores ops media good s ps cat cps Ls db" by (auto simp: represents_def)
  then have fit: "hwm (sb s) \<le> total_pages (sb s)" by (simp add: stores_def pager_ok_def)
  let ?s = "t\<lparr>dirty := [], sb := sb s\<rparr>"
  note rb = rollback_ok[OF t(1), of "sb s", unfolded t(2), OF d(2) t(3)[symmetric] fit]
  have v: "content media ?s = content media s" using rb(3) d(1) by (simp add: content_def t(2))
  have "stores ops media good ?s ps cat cps Ls db"
    using st rb(2) v by (simp add: stores_def alloc_ok_def used_def)
  then have "represents ops media good ?s db" using d(2) t(2) by (auto simp: represents_def)
  then show ?thesis using rb(1) t(2) by (simp add: abort_def)
qed

lemma tx_fails:
  assumes "represents ops media good s db" "f s = Some (Inl e, t)" "pager_ok ops media good t" "kept ops media good s t"
  shows "\<exists>s'. tx ops f s = Some (Inl e, s') \<and> represents ops media good s' db"
  using represents_rolled_back[OF assms(1,3), of e] assms(2,4) by (auto simp: tx_def kept_def)

lemma db_stored_cong:
  assumes "db_stored v h cat cps Ls db" "\<And>p. p \<in> set (all_pages cps Ls) \<Longrightarrow> v p = v' p"
  shows "db_stored v' h cat cps Ls db"
proof -
  have c: "v p = v' p" if "p \<in> set cps" for p using assms(2) that by (simp add: all_pages_def)
  have "table_stored v' (cat ! i) (Ls ! i) (db ! i)" if i: "i < length db" for i
  proof (rule table_stored_cong)
    show "table_stored v (cat ! i) (Ls ! i) (db ! i)" using assms(1) i by (simp add: db_stored_def)
    show "v p = v' p" if p: "p \<in> set (pages_of (Ls ! i))" for p
    proof (rule assms(2))
      have "i < length Ls" using i assms(1) by (simp add: db_stored_def)
      then show "p \<in> set (all_pages cps Ls)" using p by (rule all_pages_table)
    qed
  qed
  moreover have "blob v' h cps bs = blob v h cps bs" for bs by (rule blob_cong) (simp add: c)
  ultimately show ?thesis using assms(1) by (simp add: db_stored_def)
qed

lemma stores_committed:
  assumes st: "stores ops media good t ps cat cps Ls db" and s': "pager_ok ops media good s'"
    "sb s' = (sb t)\<lparr>generation := g\<rparr>" "\<forall>p \<ge> FIRST_DATA_PAGE. content media s' p = content media t p"
  shows "stores ops media good s' ps cat cps Ls db"
proof -
  have u: "used s' ps = used t ps" by (simp add: used_def s'(2))
  have fl: "\<forall>p \<in> set ps. FIRST_DATA_PAGE \<le> p" using st by (auto simp: stores_def alloc_ok_def)
  then have same: "content media s' p = content media t p" if "p \<in> set ps" for p using s'(3) that by blast
  have "linked (content media s') (free_head (sb t)) ps = linked (content media t) (free_head (sb t)) ps"
    by (rule linked_cong) (rule same)
  then have al: "alloc_ok media s' ps" using st by (simp add: stores_def alloc_ok_def s'(2))
  have D: "db_stored (content media t) (catalog_head (sb t)) cat cps Ls db" using st by (simp add: stores_def)
  have "db_stored (content media s') (catalog_head (sb t)) cat cps Ls db"
  proof (rule db_stored_cong[OF D])
    fix p assume "p \<in> set (all_pages cps Ls)"
    then have "FIRST_DATA_PAGE \<le> p" using stores_pages[OF st] by (simp add: data_page_def)
    then show "content media t p = content media s' p" using s'(3) by simp
  qed
  then show ?thesis using st s'(1,2) al u by (simp add: stores_def)
qed

end

end
