(* ===== verification/Store_Power.thy ===== *)
theory Store_Power
  imports Store_Writes
begin

text \<open>
  Transactions on databases, power cuts included. A medium is recoverable to a database when mounting it again yields a volume that
  represents the database; a transaction whose body leads from one database to another leaves a medium that is recoverable to one of
  the two, wherever the power fails.
\<close>

definition recoverable :: "'d block_ops \<Rightarrow> ('d \<Rightarrow> disk) \<Rightarrow> ('d \<Rightarrow> bool) \<Rightarrow> 'd \<Rightarrow> database \<Rightarrow> bool" where
  "recoverable ops media good d db \<longleftrightarrow> good d \<and> redo_fits (sector_count ops d) (media d) \<and>
     (\<exists>t ps cat cps Ls g. stores ops media good t ps cat cps Ls db \<and> sector_count ops (dev t) = sector_count ops d \<and>
        sb_decode (volume (media d) 0) = Inr ((sb t)\<lparr>generation := g\<rparr>) \<and>
        (\<forall>p \<ge> FIRST_DATA_PAGE. volume (media d) p = content media t p))"

context block_device
begin

lemma redo_fits_clean: "pager_ok ops media good t \<Longrightarrow> redo_fits (sector_count ops (dev t)) (media (dev t))"
proof -
  assume "pager_ok ops media good t"
  then have nc: "\<not> committed (media (dev t))" and f: "FIRST_DATA_PAGE < total_pages (sb t)"
    "total_pages (sb t) * PAGE_SECTORS \<le> sector_count ops (dev t)" by (simp_all add: pager_ok_def)
  have "FIRST_DATA_PAGE * PAGE_SECTORS \<le> total_pages (sb t) * PAGE_SECTORS" using f(1) by (intro mult_le_mono1) simp
  then have "FIRST_DATA_PAGE * PAGE_SECTORS \<le> sector_count ops (dev t)" using f(2) by (rule le_trans)
  then show ?thesis using nc by (simp add: redo_fits_def pending_def)
qed

lemma represents_recoverable: "represents ops media good s db \<Longrightarrow> recoverable ops media good (dev s) db"
proof -
  assume rep: "represents ops media good s db"
  then obtain ps cat cps Ls where st: "stores ops media good s ps cat cps Ls db" and d: "dirty s = []"
    "sb_decode (page_at (media (dev s)) 0) = Inr (sb s)" by (auto simp: represents_def)
  have ok: "pager_ok ops media good s" using st by (simp add: stores_def)
  then have nc: "\<not> committed (media (dev s))" and gd: "good (dev s)" by (simp_all add: pager_ok_def)
  have v: "volume (media (dev s)) = page_at (media (dev s))" by (simp add: volume_def view_clean[OF nc])
  have "content media s = page_at (media (dev s))" using d(1) by (simp add: content_def)
  then show ?thesis
    unfolding recoverable_def v using st d(2) gd redo_fits_clean[OF ok]
    by (intro conjI exI[of _ s] exI[of _ ps] exI[of _ cat] exI[of _ cps] exI[of _ Ls] exI[of _ "generation (sb s)"]) simp_all
qed

text \<open>Mounting a recoverable medium.\<close>

lemma mount_represents:
  assumes rec: "recoverable ops media good d db"
  shows "\<exists>r d'. mount ops d = Some (r, d') \<and> (live d' \<longrightarrow> (\<exists>pg. r = Inr pg \<and> dev pg = d' \<and> represents ops media good pg db))"
proof -
  from rec obtain t ps cat cps Ls g where gd: "good d" "redo_fits (sector_count ops d) (media d)"
    and st: "stores ops media good t ps cat cps Ls db" and sc: "sector_count ops (dev t) = sector_count ops d"
    and s: "sb_decode (volume (media d) 0) = Inr ((sb t)\<lparr>generation := g\<rparr>)"
    and v: "\<forall>p \<ge> FIRST_DATA_PAGE. volume (media d) p = content media t p" by (auto simp: recoverable_def)
  from mount_ok[OF gd s] obtain r d' where
    m: "mount ops d = Some (r, d')" "good d'" "sector_count ops d' = sector_count ops d"
    and lv: "live d' \<longrightarrow> r = Inr \<lparr>dev = d', sb = (sb t)\<lparr>generation := g\<rparr>, dirty = [], cache = []\<rparr> \<and> \<not> committed (media d') \<and>
      (\<forall>p. home_page p \<longrightarrow> page_at (media d') p = volume (media d) p)" by blast
  have "represents ops media good pg db" if l: "live d'" and pg: "pg = \<lparr>dev = d', sb = (sb t)\<lparr>generation := g\<rparr>, dirty = [], cache = []\<rparr>" for pg
  proof -
    note n = lv[rule_format, OF l]
    have same: "content media pg p = content media t p" if "FIRST_DATA_PAGE \<le> p" for p
      using n v that by (simp add: pg content_def home_page_def)
    have ok: "pager_ok ops media good pg"
      using st n m(2,3) sc sb_decode_ok[OF s] by (simp add: stores_def pager_ok_def pg bt_ok_def)
    have s': "sb pg = (sb t)\<lparr>generation := g\<rparr>" by (simp add: pg)
    have "stores ops media good pg ps cat cps Ls db"
      by (rule stores_committed[OF st ok s']) (use same in blast)
    moreover have "sb_decode (page_at (media (dev pg)) 0) = Inr (sb pg)" using n s by (simp add: pg home_page_def)
    ultimately show ?thesis by (auto simp: represents_def pg)
  qed
  then show ?thesis using m(1) lv by (intro exI[of _ r] exI[of _ d']) auto
qed

text \<open>
  A transaction whose body leads to a state that stores \<open>db'\<close>: if the device keeps its power, either it commits, or the journal is
  too small for the pages it has written and the volume still represents \<open>db\<close>. In every case the medium is recoverable.
\<close>

lemma tx_succeeds:
  assumes rep: "represents ops media good s db" and f: "f s = Some (Inr x, t)" and k: "kept ops media good s t" and d: "dirty t \<noteq> []"
    and st: "stores ops media good t ps cat cps Ls db'" and gen: "generation (sb s) + 1 < 2 ^ 64"
  shows "\<exists>r s'. tx ops f s = Some (r, s') \<and> (live (dev s') \<longrightarrow>
    r = Inr x \<and> represents ops media good s' db' \<and> alloc_ok media s' ps \<and> room s' ps = room t ps \<and>
      generation (sb s') = generation (sb s) + 1 \<and> total_pages (sb s') = total_pages (sb s) \<or>
    r = Inl OutOfSpace \<and> represents ops media good s' db \<and> JCAP \<le> length (dirty t)) \<and>
    (recoverable ops media good (dev s') db \<or> recoverable ops media good (dev s') db')"
proof -
  have ok: "pager_ok ops media good t" using st by (simp add: stores_def)
  have kt: "dev t = dev s" "total_pages (sb t) = total_pages (sb s)" "generation (sb t) = generation (sb s)"
    using k by (simp_all add: kept_def)
  show ?thesis
  proof (cases "length (dirty t) < JCAP")
    case False
    then have "pager_commit ops t = Some (Inl OutOfSpace, t)" using gen kt(3) by (intro pager_commit_full[OF ok]) simp_all
    with represents_rolled_back[OF rep ok kt(1,2), of OutOfSpace] represents_recoverable f False show ?thesis by (auto simp: tx_def)
  next
    case True
    let ?sb = "(sb t)\<lparr>generation := generation (sb t) + 1\<rparr>"
    from pager_commit_ok[OF ok d True] gen kt(3) obtain r s' where
      c: "pager_commit ops t = Some (r, s')" "good (dev s')" "sector_count ops (dev s') = sector_count ops (dev t)"
        "redo_fits (sector_count ops (dev t)) (media (dev s'))"
      and vol: "(\<forall>p. home_page p \<longrightarrow> volume (media (dev s')) p = page_at (media (dev t)) p) \<and> r \<noteq> Inr () \<or>
        volume (media (dev s')) 0 = sb_encode ?sb \<and> (\<forall>p \<ge> FIRST_DATA_PAGE. volume (media (dev s')) p = content media t p)"
      and ini: "r = Inr () \<Longrightarrow> pager_ok ops media good s' \<and> dirty s' = [] \<and> sb s' = ?sb \<and>
          page_at (media (dev s')) 0 = sb_encode ?sb \<and> (\<forall>p \<ge> FIRST_DATA_PAGE. content media s' p = content media t p)"
      and bad: "r \<noteq> Inr () \<Longrightarrow> s' = t\<lparr>dev := dev s'\<rparr>" and lv: "live (dev s') \<longrightarrow> r = Inr ()" by auto
    have sbt: "sb_ok ?sb" using ok gen kt(3) by (simp add: pager_ok_def sb_ok_def)
    have rec: "recoverable ops media good (dev s') db \<or> recoverable ops media good (dev s') db'"
      using vol
    proof
      assume old: "(\<forall>p. home_page p \<longrightarrow> volume (media (dev s')) p = page_at (media (dev t)) p) \<and> r \<noteq> Inr ()"
      from rep obtain ps cat cps Ls where st0: "stores ops media good s ps cat cps Ls db" and d0: "dirty s = []"
        "sb_decode (page_at (media (dev s)) 0) = Inr (sb s)" by (auto simp: represents_def)
      have "sb_decode (volume (media (dev s')) 0) = Inr ((sb s)\<lparr>generation := generation (sb s)\<rparr>)"
        using old d0(2) kt(1) by (simp add: home_page_def)
      moreover have "\<forall>p \<ge> FIRST_DATA_PAGE. volume (media (dev s')) p = content media s p"
        using old d0(1) kt(1) by (simp add: home_page_def content_def)
      ultimately show ?thesis unfolding recoverable_def using c(2-4) st0 kt(1) by (intro disjI1 conjI) (simp, simp, metis)
    next
      assume "volume (media (dev s')) 0 = sb_encode ?sb \<and> (\<forall>p \<ge> FIRST_DATA_PAGE. volume (media (dev s')) p = content media t p)"
      then show ?thesis unfolding recoverable_def using c(2-4) st sb_roundtrip[OF sbt] by (intro disjI2 conjI) (simp, simp, metis)
    qed
    show ?thesis
    proof (cases r)
      case (Inr u)
      note i = ini[unfolded Inr, simplified]
      have sts: "stores ops media good s' ps cat cps Ls db'" using i by (intro stores_committed[OF st]) auto
      then have al: "alloc_ok media s' ps" by (simp add: stores_def)
      have rm: "room s' ps = room t ps" "generation (sb s') = generation (sb s) + 1" "total_pages (sb s') = total_pages (sb s)"
        using i kt by (simp_all add: room_def used_def)
      note sts
      moreover have "sb_decode (page_at (media (dev s')) 0) = Inr (sb s')"
      proof -
        have "sb_ok (sb s')" using i unfolding pager_ok_def by blast
        moreover have "page_at (media (dev s')) 0 = sb_encode (sb s')" using i by simp
        ultimately show ?thesis by (simp only: sb_roundtrip)
      qed
      ultimately have "represents ops media good s' db'" using i by (auto simp: represents_def)
      then show ?thesis using f c(1) Inr rec al rm by (auto simp: tx_def)
    next
      case (Inl e)
      have "1 * PAGE_SECTORS \<le> total_pages (sb t) * PAGE_SECTORS"
        using ok by (intro mult_le_mono1) (simp add: pager_ok_def)
      also have "\<dots> \<le> sector_count ops (dev t)" using ok by (simp add: pager_ok_def)
      finally have "read_page ops 0 (dev s') = Some (Inr (page_at (media (dev s')) 0), dev s')"
        using c(2,3) by (intro read_page_ok) (simp_all add: on_device_def)
      then obtain e' s2 where ab: "(abort ops e s' :: ('a result \<times> 'd store) option) = Some (Inl e', s2)" "dev s2 = dev s'"
        by (cases "sb_decode (page_at (media (dev s')) 0)") (auto simp: abort_def rollback_def bindM_def on_dev_def)
      have "\<not> live (dev s')" using lv Inl by auto
      then show ?thesis using f c(1) Inl ab rec by (auto simp: tx_def)
    qed
  qed
qed

end

end
