(* ===== verification/Integrity.thy ===== *)
theory Integrity
  imports Store_Abs
begin

text \<open>
  Referential integrity of a database, and that the checks which the store makes before it inserts, updates or deletes a row are
  enough to keep it. Nothing here speaks of pages: the store's checks were computed on the database in the theory before.
\<close>

section \<open>Consistent databases\<close>

definition row_fits :: "column list \<Rightarrow> row \<Rightarrow> bool" where
  "row_fits cs r \<longleftrightarrow> length r = length cs \<and> (\<forall>ci < length cs. check_cell (cs ! ci) (r ! ci) = Inr ())"

definition unique_rows :: "column list \<Rightarrow> (row_id \<times> row) list \<Rightarrow> bool" where
  "unique_rows cs rows \<longleftrightarrow> (\<forall>ci < length cs. unique (cs ! ci) \<longrightarrow>
     (\<forall>a \<in> set rows. \<forall>b \<in> set rows. fst a \<noteq> fst b \<and> cell_at (snd a) ci \<noteq> None \<longrightarrow> cell_at (snd a) ci \<noteq> cell_at (snd b) ci))"

text \<open>The table and the column that a foreign key names.\<close>

definition fk_target :: "database \<Rightarrow> foreign_key \<Rightarrow> (nat \<times> nat) option" where
  "fk_target db fk = (case find_table db (to_table fk) of
      Inl _ \<Rightarrow> None
    | Inr j \<Rightarrow> map_option (Pair j) (column_index (rel_schema (db ! j)) (to_col fk)))"

definition fk_held :: "database \<Rightarrow> nat \<Rightarrow> foreign_key \<Rightarrow> bool" where
  "fk_held db i fk = (case column_index (rel_schema (db ! i)) (from_col fk) of
      None \<Rightarrow> False
    | Some fi \<Rightarrow> (case fk_target db fk of
          None \<Rightarrow> False
        | Some (j, tc) \<Rightarrow> unique (cols (db ! j) ! tc) \<and>
            (\<forall>a \<in> set (rel_rows (db ! i)). cell_at (snd a) fi \<noteq> None \<longrightarrow>
               (\<exists>b \<in> set (rel_rows (db ! j)). cell_at (snd b) tc = cell_at (snd a) fi))))"

definition consistent :: "database \<Rightarrow> bool" where
  "consistent db \<longleftrightarrow> distinct (map rel_name db) \<and> (\<forall>i < length db.
     distinct (map col_name (cols (db ! i))) \<and> distinct (map fst (rel_rows (db ! i))) \<and>
     (\<forall>a \<in> set (rel_rows (db ! i)). row_fits (cols (db ! i)) (snd a)) \<and>
     unique_rows (cols (db ! i)) (rel_rows (db ! i)) \<and>
     (\<forall>fk \<in> set (fks (rel_schema (db ! i))). fk_held db i fk))"

section \<open>The restrict rule on a database\<close>

definition refuse_ok :: "database \<Rightarrow> nat \<Rightarrow> row_id \<Rightarrow> nat \<Rightarrow> nat \<Rightarrow> val \<Rightarrow> foreign_key \<Rightarrow> unit result" where
  "refuse_ok db i rid j fci key fk = eachR (rel_rows (db ! j)) (\<lambda>(r, row).
     if j = i \<and> r = rid then Inr ()
     else if cell_at row fci = Some key then Inl (ForeignKeyViolation (fk_name fk)) else Inr ())"

text \<open>
  What the loops over the foreign keys of all tables return. \<open>new\<close> is the row that replaces the row \<open>rid\<close> of table \<open>i\<close>, or
  the empty row when the row is deleted. The missing columns, at which the source panics, do not occur in a consistent database.
\<close>

definition restrict_fk :: "database \<Rightarrow> nat \<Rightarrow> row_id \<Rightarrow> row \<Rightarrow> row \<Rightarrow> nat \<Rightarrow> foreign_key \<Rightarrow> unit result" where
  "restrict_fk db i rid old new j fk =
     (if to_table fk \<noteq> rel_name (db ! i) then Inr ()
      else case column_index (rel_schema (db ! i)) (to_col fk) of None \<Rightarrow> Inr () | Some tci \<Rightarrow>
        (case cell_at old tci of None \<Rightarrow> Inr () | Some key \<Rightarrow>
          if cell_at new tci = Some key then Inr ()
          else case column_index (rel_schema (db ! j)) (from_col fk) of None \<Rightarrow> Inr ()
            | Some fci \<Rightarrow> refuse_ok db i rid j fci key fk))"

definition restrict_ok :: "database \<Rightarrow> nat \<Rightarrow> row_id \<Rightarrow> row \<Rightarrow> row \<Rightarrow> unit result" where
  "restrict_ok db i rid old new =
     eachR [0..<length db] (\<lambda>j. eachR (fks (rel_schema (db ! j))) (restrict_fk db i rid old new j))"

section \<open>Replacing the rows of one table\<close>

definition with_rows :: "database \<Rightarrow> nat \<Rightarrow> (row_id \<times> row) list \<Rightarrow> database" where
  "with_rows db i rows = db[i := (db ! i)\<lparr>rel_rows := rows\<rparr>]"

lemma with_rows_sel [simp]:
  "length (with_rows db i rows) = length db"
  "rel_name (with_rows db i rows ! j) = rel_name (db ! j)" "rel_schema (with_rows db i rows ! j) = rel_schema (db ! j)"
proof -
  have "with_rows db i rows ! j = (if i = j \<and> i < length db then (db ! i)\<lparr>rel_rows := rows\<rparr> else db ! j)"
    by (cases "i < length db") (simp_all add: with_rows_def nth_list_update list_update_beyond)
  then show "rel_name (with_rows db i rows ! j) = rel_name (db ! j)" "rel_schema (with_rows db i rows ! j) = rel_schema (db ! j)" by auto
qed (simp add: with_rows_def)

lemma with_rows_rows:
  "i < length db \<Longrightarrow> rel_rows (with_rows db i rows ! j) = (if j = i then rows else rel_rows (db ! j))"
  by (simp add: with_rows_def)

lemma with_rows_names [simp]: "map rel_name (with_rows db i rows) = map rel_name db"
  by (rule nth_equalityI) simp_all

lemma position_map: "position (\<lambda>x. P (f x)) xs = position P (map f xs)"
  by (induction xs) simp_all

lemma with_rows_find [simp]: "find_table (with_rows db i rows) n = find_table db n"
  by (simp only: find_table_def position_map[of "\<lambda>m. m = n" rel_name] with_rows_names)

lemma with_rows_target [simp]: "fk_target (with_rows db i rows) fk = fk_target db fk"
  by (simp add: fk_target_def split: sum.split)

lemma fk_target_Some:
  "fk_target db fk = Some (j, tc) \<longleftrightarrow> find_table db (to_table fk) = Inr j \<and> column_index (rel_schema (db ! j)) (to_col fk) = Some tc"
  by (auto simp: fk_target_def split: sum.splits)

lemma column_index_bound: "column_index t n = Some k \<Longrightarrow> k < length (columns t)"
  using position_bound by (auto simp: column_index_def)

lemma fk_heldE:
  assumes "fk_held db i fk"
  obtains fi j tc where "column_index (rel_schema (db ! i)) (from_col fk) = Some fi" "fk_target db fk = Some (j, tc)"
    "unique (cols (db ! j) ! tc)" "\<And>a v. a \<in> set (rel_rows (db ! i)) \<Longrightarrow> cell_at (snd a) fi = Some v \<Longrightarrow>
      \<exists>b \<in> set (rel_rows (db ! j)). cell_at (snd b) tc = Some v"
proof -
  from assms obtain fi jt where 1: "column_index (rel_schema (db ! i)) (from_col fk) = Some fi" "fk_target db fk = Some jt"
    by (auto simp: fk_held_def split: option.splits)
  obtain j tc where jt: "jt = (j, tc)" by (cases jt)
  from assms 1 jt have "unique (cols (db ! j) ! tc)" and
    "\<forall>a \<in> set (rel_rows (db ! i)). cell_at (snd a) fi \<noteq> None \<longrightarrow> (\<exists>b \<in> set (rel_rows (db ! j)). cell_at (snd b) tc = cell_at (snd a) fi)"
    by (simp_all add: fk_held_def)
  then show thesis using that[OF 1(1)] 1(2) jt by force
qed

lemma fk_heldI:
  assumes "column_index (rel_schema (db ! i)) (from_col fk) = Some fi" "fk_target db fk = Some (j, tc)"
    "unique (cols (db ! j) ! tc)" "\<And>a v. a \<in> set (rel_rows (db ! i)) \<Longrightarrow> cell_at (snd a) fi = Some v \<Longrightarrow>
      \<exists>b \<in> set (rel_rows (db ! j)). cell_at (snd b) tc = Some v"
  shows "fk_held db i fk"
  using assms by (auto simp: fk_held_def)

lemma consistentD:
  assumes "consistent db" "i < length db"
  shows "distinct (map fst (rel_rows (db ! i)))" "a \<in> set (rel_rows (db ! i)) \<Longrightarrow> row_fits (cols (db ! i)) (snd a)"
    "unique_rows (cols (db ! i)) (rel_rows (db ! i))" "fk \<in> set (fks (rel_schema (db ! i))) \<Longrightarrow> fk_held db i fk" "distinct (map col_name (cols (db ! i)))"
  using assms by (simp_all add: consistent_def)

text \<open>
  A database stays consistent when one table gets new rows which are consistent among themselves, refer to rows that exist, and still
  have every value that is referred to.
\<close>

lemma with_rows_consistent:
  assumes c: "consistent db" and i: "i < length db" and ids: "distinct (map fst rows)"
    and fits: "\<And>a. a \<in> set rows \<Longrightarrow> row_fits (cols (db ! i)) (snd a)" and uniq: "unique_rows (cols (db ! i)) rows"
    and refer: "\<And>fk fi j tc a v. fk \<in> set (fks (rel_schema (db ! i))) \<Longrightarrow> column_index (rel_schema (db ! i)) (from_col fk) = Some fi \<Longrightarrow>
      fk_target db fk = Some (j, tc) \<Longrightarrow> a \<in> set rows \<Longrightarrow> cell_at (snd a) fi = Some v \<Longrightarrow>
      \<exists>b \<in> set (rel_rows (with_rows db i rows ! j)). cell_at (snd b) tc = Some v"
    and referred: "\<And>k fk fi tc a v. k < length db \<Longrightarrow> k \<noteq> i \<Longrightarrow> fk \<in> set (fks (rel_schema (db ! k))) \<Longrightarrow>
      column_index (rel_schema (db ! k)) (from_col fk) = Some fi \<Longrightarrow> fk_target db fk = Some (i, tc) \<Longrightarrow>
      a \<in> set (rel_rows (db ! k)) \<Longrightarrow> cell_at (snd a) fi = Some v \<Longrightarrow> \<exists>b \<in> set rows. cell_at (snd b) tc = Some v"
  shows "consistent (with_rows db i rows)"
proof -
  have held: "fk_held (with_rows db i rows) k fk" if k: "k < length db" and fk: "fk \<in> set (fks (rel_schema (db ! k)))" for k fk
  proof -
    from consistentD(4)[OF c k fk] obtain fi j tc where
      h: "column_index (rel_schema (db ! k)) (from_col fk) = Some fi" "fk_target db fk = Some (j, tc)" "unique (cols (db ! j) ! tc)"
        "\<And>a v. a \<in> set (rel_rows (db ! k)) \<Longrightarrow> cell_at (snd a) fi = Some v \<Longrightarrow> \<exists>b \<in> set (rel_rows (db ! j)). cell_at (snd b) tc = Some v"
      using fk_heldE by metis
    show ?thesis
    proof (rule fk_heldI)
      fix a v assume a: "a \<in> set (rel_rows (with_rows db i rows ! k))" "cell_at (snd a) fi = Some v"
      show "\<exists>b \<in> set (rel_rows (with_rows db i rows ! j)). cell_at (snd b) tc = Some v"
      proof (cases "k = i")
        case True
        then show ?thesis using refer[OF _ _ h(2)] h(1) fk a i by (simp add: with_rows_rows)
      next
        case False
        then have a': "a \<in> set (rel_rows (db ! k))" using a(1) i by (simp add: with_rows_rows)
        then show ?thesis using referred[OF k False fk h(1) _ a' a(2)] h(2) h(4)[OF a' a(2)] i by (cases "j = i") (simp_all add: with_rows_rows)
      qed
    qed (use h in simp_all)
  qed
  show ?thesis
    using c held ids fits uniq i by (simp add: consistent_def with_rows_rows)
qed

section \<open>What the checks mean\<close>

lemma if_Inr: "x = Inr () \<Longrightarrow> x = (if P then Inr () else Inl e) \<Longrightarrow> P"
  by (cases P) simp_all

lemma valid_rowD:
  assumes "valid_row db i cells ex = Inr ()"
  shows "row_fits (cols (db ! i)) cells"
    "\<And>ci rid r. ci < length (cols (db ! i)) \<Longrightarrow> unique (cols (db ! i) ! ci) \<Longrightarrow> cells ! ci \<noteq> None \<Longrightarrow>
       (rid, r) \<in> set (rel_rows (db ! i)) \<Longrightarrow> Some rid \<noteq> ex \<Longrightarrow> cell_at r ci \<noteq> cells ! ci"
    "\<And>fk fi j tc v. fk \<in> set (fks (rel_schema (db ! i))) \<Longrightarrow> column_index (rel_schema (db ! i)) (from_col fk) = Some fi \<Longrightarrow>
       fk_target db fk = Some (j, tc) \<Longrightarrow> cells ! fi = Some v \<Longrightarrow>
       \<exists>(rid, r) \<in> set (rel_rows (db ! j)). (if j = i \<and> Some rid = ex then cell_at cells tc = Some v else cell_at r tc = Some v)"
proof -
  have len: "length cells = length (cols (db ! i))" using assms by (auto simp: valid_row_def split: if_splits)
  have all: "eachR (zip (cols (db ! i)) cells) (\<lambda>(c, cell). check_cell c cell) = Inr ()"
    "eachR (enumerate 0 (cols (db ! i))) (unique_ok (rel_rows (db ! i)) cells ex) = Inr ()"
    "eachR (fks (rel_schema (db ! i))) (fk_ok db i cells ex) = Inr ()"
    using assms len by (auto simp: valid_row_def bindR_def split: sum.splits)
  show "row_fits (cols (db ! i)) cells"
    using all(1) len unfolding eachR_ok row_fits_def by (fastforce simp: set_zip)
  show "cell_at r ci \<noteq> cells ! ci"
    if "ci < length (cols (db ! i))" "unique (cols (db ! i) ! ci)" "cells ! ci \<noteq> None" "(rid, r) \<in> set (rel_rows (db ! i))" "Some rid \<noteq> ex"
    for ci rid r
  proof -
    have "(ci, cols (db ! i) ! ci) \<in> set (enumerate 0 (cols (db ! i)))" using that(1) by (simp add: in_set_enumerate_eq)
    then have u: "unique_ok (rel_rows (db ! i)) cells ex (ci, cols (db ! i) ! ci) = Inr ()" using all(2) by (simp add: eachR_ok)
    then show ?thesis using that(2-5) by (fastforce simp: unique_ok_def eachR_ok split: if_splits option.splits)
  qed
  show "\<exists>(rid, r) \<in> set (rel_rows (db ! j)). (if j = i \<and> Some rid = ex then cell_at cells tc = Some v else cell_at r tc = Some v)"
    if "fk \<in> set (fks (rel_schema (db ! i)))" "column_index (rel_schema (db ! i)) (from_col fk) = Some fi"
      "fk_target db fk = Some (j, tc)" "cells ! fi = Some v" for fk fi j tc v
  proof -
    have "fk_ok db i cells ex fk = Inr ()" using all(3) that(1) by (simp add: eachR_ok)
    moreover have "fk_ok db i cells ex fk = (if \<exists>(rid, r) \<in> set (rel_rows (db ! j)).
        (if j = i \<and> Some rid = ex then cell_at cells tc = Some v else cell_at r tc = Some v)
        then Inr () else Inl (ForeignKeyViolation (fk_name fk)))"
      using that(2-4) by (simp add: fk_ok_def ok_or_def bindR_def fk_target_Some)
    ultimately show ?thesis by (rule if_Inr)
  qed
qed

lemma restrict_okD:
  assumes ok: "restrict_ok db i rid old new = Inr ()" and j: "j < length db" "fk \<in> set (fks (rel_schema (db ! j)))"
    and cols: "column_index (rel_schema (db ! j)) (from_col fk) = Some fci" "fk_target db fk = Some (i, tci)"
    and key: "cell_at old tci = Some key" "cell_at new tci \<noteq> Some key"
    and row: "(r, row) \<in> set (rel_rows (db ! j))" "j \<noteq> i \<or> r \<noteq> rid"
  shows "cell_at row fci \<noteq> Some key"
proof -
  have "to_table fk = rel_name (db ! i)" "column_index (rel_schema (db ! i)) (to_col fk) = Some tci"
    using cols(2) find_table_bound by (fastforce simp: fk_target_Some)+
  moreover have "restrict_fk db i rid old new j fk = Inr ()" using ok j by (simp add: restrict_ok_def eachR_ok)
  ultimately show ?thesis
    using cols(1) key row by (fastforce simp: restrict_fk_def refuse_ok_def eachR_ok split: if_splits)
qed

section \<open>The operations keep a database consistent\<close>

lemma cell_at_nth: "row_fits cs r \<Longrightarrow> k < length cs \<Longrightarrow> cell_at r k = r ! k"
  by (simp add: row_fits_def cell_at_def)

lemma unique_rows_insert:
  assumes old: "unique_rows cs rows" and sub: "set rows' \<subseteq> insert (rid, r) {a \<in> set rows. fst a \<noteq> rid}"
    and fresh: "\<And>ci a. ci < length cs \<Longrightarrow> unique (cs ! ci) \<Longrightarrow> a \<in> set rows \<Longrightarrow> fst a \<noteq> rid \<Longrightarrow> cell_at r ci \<noteq> None \<Longrightarrow>
      cell_at (snd a) ci \<noteq> cell_at r ci"
  shows "unique_rows cs rows'"
  unfolding unique_rows_def
proof (intro allI impI ballI)
  fix ci a b assume ci: "ci < length cs" "unique (cs ! ci)" and ab: "a \<in> set rows'" "b \<in> set rows'"
    and d: "fst a \<noteq> fst b \<and> cell_at (snd a) ci \<noteq> None"
  have in_rows: "x = (rid, r) \<or> x \<in> set rows \<and> fst x \<noteq> rid" if "x \<in> set rows'" for x using sub that by blast
  from in_rows[OF ab(1)] in_rows[OF ab(2)] show "cell_at (snd a) ci \<noteq> cell_at (snd b) ci"
  proof (elim disjE conjE)
    assume "a = (rid, r)" "b \<in> set rows" "fst b \<noteq> rid"
    then show ?thesis using fresh[OF ci, of b] d by force
  next
    assume "b = (rid, r)" "a \<in> set rows" "fst a \<noteq> rid"
    then show ?thesis using fresh[OF ci, of a] d by force
  next
    assume "a \<in> set rows" "b \<in> set rows"
    then show ?thesis using old ci d by (simp add: unique_rows_def)
  qed (use d in simp)
qed

lemma unique_rows_subset: "unique_rows cs rows \<Longrightarrow> set rows' \<subseteq> set rows \<Longrightarrow> unique_rows cs rows'"
  unfolding unique_rows_def by blast

text \<open>The rows of the table after an insertion or an update: the valid row, and the other rows of the table.\<close>

lemma valid_row_unique:
  assumes c: "consistent db" "i < length db" and v: "valid_row db i cells ex = Inr ()"
    and sub: "set rows' \<subseteq> insert (rid, cells) {a \<in> set (rel_rows (db ! i)). fst a \<noteq> rid}" and ex: "ex = None \<or> ex = Some rid"
  shows "unique_rows (cols (db ! i)) rows'"
proof (rule unique_rows_insert[OF consistentD(3)[OF c] sub])
  fix ci a assume "ci < length (cols (db ! i))" "unique (cols (db ! i) ! ci)" "a \<in> set (rel_rows (db ! i))" "fst a \<noteq> rid"
    "cell_at cells ci \<noteq> None"
  then show "cell_at (snd a) ci \<noteq> cell_at cells ci"
    using valid_rowD(2)[OF v, of ci "fst a" "snd a"] cell_at_nth[OF valid_rowD(1)[OF v]] ex by auto
qed

theorem insert_consistent:
  assumes c: "consistent db" and i: "i < length db" and v: "valid_row db i cells None = Inr ()"
    and fresh: "rid \<notin> fst ` set (rel_rows (db ! i))"
  shows "consistent (with_rows db i (rel_rows (db ! i) @ [(rid, cells)]))"
proof (rule with_rows_consistent[OF c i])
  let ?rows = "rel_rows (db ! i) @ [(rid, cells)]"
  show "distinct (map fst ?rows)" using consistentD(1)[OF c i] fresh by simp
  show "row_fits (cols (db ! i)) (snd a)" if "a \<in> set ?rows" for a
    using that consistentD(2)[OF c i, of a] valid_rowD(1)[OF v] by auto
  show "unique_rows (cols (db ! i)) ?rows"
    by (rule valid_row_unique[OF c i v, of _ rid]) (use fresh in force, simp)
  have keep: "\<exists>b \<in> set (rel_rows (with_rows db i ?rows ! j)). cell_at (snd b) tc = Some v"
    if "\<exists>b \<in> set (rel_rows (db ! j)). cell_at (snd b) tc = Some v" for j tc v
    using that i by (auto simp: with_rows_rows)
  show "\<exists>b \<in> set (rel_rows (with_rows db i ?rows ! j)). cell_at (snd b) tc = Some w"
    if fk: "fk \<in> set (fks (rel_schema (db ! i)))" and fi: "column_index (rel_schema (db ! i)) (from_col fk) = Some fi"
      and tgt: "fk_target db fk = Some (j, tc)" and a: "a \<in> set ?rows" "cell_at (snd a) fi = Some w" for fk fi j tc a w
  proof (rule keep)
    show "\<exists>b \<in> set (rel_rows (db ! j)). cell_at (snd b) tc = Some w"
    proof (cases "a \<in> set (rel_rows (db ! i))")
      case True
      from consistentD(4)[OF c i fk] show ?thesis
        by (rule fk_heldE) (use fi tgt True a(2) in auto)
    next
      case False
      then have "cells ! fi = Some w"
        using a cell_at_nth[OF valid_rowD(1)[OF v] column_index_bound[OF fi]] by simp
      then show ?thesis using valid_rowD(3)[OF v fk fi tgt] by force
    qed
  qed
  show "\<exists>b \<in> set ?rows. cell_at (snd b) tc = Some w"
    if "k < length db" "fk \<in> set (fks (rel_schema (db ! k)))" "column_index (rel_schema (db ! k)) (from_col fk) = Some fi"
      "fk_target db fk = Some (i, tc)" "a \<in> set (rel_rows (db ! k))" "cell_at (snd a) fi = Some w" for k fk fi tc a w
    by (rule fk_heldE[OF consistentD(4)[OF c that(1,2)]]) (use that in auto)
qed

definition replaced :: "row_id \<Rightarrow> row \<Rightarrow> (row_id \<times> row) list \<Rightarrow> (row_id \<times> row) list" where
  "replaced rid cells rows = map (\<lambda>a. if fst a = rid then (rid, cells) else a) rows"

lemma in_replaced:
  assumes "rid \<in> fst ` set rows"
  shows "a \<in> set (replaced rid cells rows) \<longleftrightarrow> a = (rid, cells) \<or> a \<in> set rows \<and> fst a \<noteq> rid"
  using assms by (force simp: replaced_def)

theorem update_consistent:
  assumes c: "consistent db" and i: "i < length db" and v: "valid_row db i cells (Some rid) = Inr ()"
    and old: "row_at db i rid = Some old" and res: "restrict_ok db i rid old cells = Inr ()"
  shows "consistent (with_rows db i (replaced rid cells (rel_rows (db ! i))))"
proof (rule with_rows_consistent[OF c i])
  let ?old = "rel_rows (db ! i)"
  let ?rows = "replaced rid cells ?old"
  have mem: "(rid, old) \<in> set ?old" using old by (auto simp: row_at_def dest: map_of_SomeD)
  then have R: "a \<in> set ?rows \<longleftrightarrow> a = (rid, cells) \<or> a \<in> set ?old \<and> fst a \<noteq> rid" for a
    by (intro in_replaced) force
  have only: "r = old" if "(rid, r) \<in> set ?old" for r
    using that mem consistentD(1)[OF c i] eq_key_imp_eq_value by fast
  have "map fst ?rows = map fst ?old" by (simp add: replaced_def)
  then show "distinct (map fst ?rows)" using consistentD(1)[OF c i] by simp
  show "row_fits (cols (db ! i)) (snd a)" if "a \<in> set ?rows" for a
    using that consistentD(2)[OF c i, of a] valid_rowD(1)[OF v] R by auto
  show "unique_rows (cols (db ! i)) ?rows"
    by (rule valid_row_unique[OF c i v, of _ rid]) (use R in auto)
  text \<open>A value of table \<open>i\<close> which some other row refers to is still there.\<close>
  have kept: "\<exists>b \<in> set ?rows. cell_at (snd b) tc = Some w"
    if b: "\<exists>b \<in> set ?old. cell_at (snd b) tc = Some w" and k: "k < length db" "fk \<in> set (fks (rel_schema (db ! k)))"
      "column_index (rel_schema (db ! k)) (from_col fk) = Some fi" "fk_target db fk = Some (i, tc)"
      and a: "a \<in> set (rel_rows (db ! k))" "cell_at (snd a) fi = Some w" "k \<noteq> i \<or> fst a \<noteq> rid" for k fk fi tc a w
  proof -
    from b obtain r x where b: "(r, x) \<in> set ?old" "cell_at x tc = Some w" by auto
    show ?thesis
    proof (cases "r = rid")
      case False
      then show ?thesis using b R by force
    next
      case True
      then have "cell_at old tc = Some w" using only b by simp
      then have "cell_at cells tc = Some w"
        using restrict_okD[OF res k, of w "fst a" "snd a"] a by auto
      then show ?thesis using R by force
    qed
  qed
  show "\<exists>b \<in> set (rel_rows (with_rows db i ?rows ! j)). cell_at (snd b) tc = Some w"
    if fk: "fk \<in> set (fks (rel_schema (db ! i)))" and fi: "column_index (rel_schema (db ! i)) (from_col fk) = Some fi"
      and tgt: "fk_target db fk = Some (j, tc)" and a: "a \<in> set ?rows" "cell_at (snd a) fi = Some w" for fk fi j tc a w
  proof (cases "a = (rid, cells)")
    case True
    then have "cells ! fi = Some w" using a cell_at_nth[OF valid_rowD(1)[OF v] column_index_bound[OF fi]] by simp
    from valid_rowD(3)[OF v fk fi tgt this] obtain r x where
      x: "(r, x) \<in> set (rel_rows (db ! j))" "if j = i \<and> r = rid then cell_at cells tc = Some w else cell_at x tc = Some w"
      by auto
    then show ?thesis using i R by (cases "j = i \<and> r = rid") (force simp: with_rows_rows split: if_splits)+
  next
    case False
    then have a': "a \<in> set ?old" "fst a \<noteq> rid" using a(1) R by auto
    from consistentD(4)[OF c i fk] have "\<exists>b \<in> set (rel_rows (db ! j)). cell_at (snd b) tc = Some w"
      by (rule fk_heldE) (use fi tgt a'(1) a(2) in auto)
    then show ?thesis using kept[OF _ i fk fi _ a'(1) a(2)] a'(2) tgt i by (cases "j = i") (simp_all add: with_rows_rows)
  qed
  show "\<exists>b \<in> set ?rows. cell_at (snd b) tc = Some w"
    if k: "k < length db" "k \<noteq> i" "fk \<in> set (fks (rel_schema (db ! k)))" "column_index (rel_schema (db ! k)) (from_col fk) = Some fi"
      "fk_target db fk = Some (i, tc)" "a \<in> set (rel_rows (db ! k))" "cell_at (snd a) fi = Some w" for k fk fi tc a w
  proof (rule kept)
    show "\<exists>b \<in> set ?old. cell_at (snd b) tc = Some w"
      by (rule fk_heldE[OF consistentD(4)[OF c k(1,3)]]) (use k in auto)
  qed (use k in auto)
qed

theorem delete_consistent:
  assumes c: "consistent db" and i: "i < length db"
    and old: "row_at db i rid = Some old" and res: "restrict_ok db i rid old [] = Inr ()"
  shows "consistent (with_rows db i (filter (\<lambda>a. fst a \<noteq> rid) (rel_rows (db ! i))))"
proof (rule with_rows_consistent[OF c i])
  let ?old = "rel_rows (db ! i)"
  let ?rows = "filter (\<lambda>a. fst a \<noteq> rid) ?old"
  have mem: "(rid, old) \<in> set ?old" using old by (auto simp: row_at_def dest: map_of_SomeD)
  have only: "r = old" if "(rid, r) \<in> set ?old" for r
    using that mem consistentD(1)[OF c i] eq_key_imp_eq_value by fast
  show "distinct (map fst ?rows)" using consistentD(1)[OF c i] by (rule distinct_map_filter)
  show "row_fits (cols (db ! i)) (snd a)" if "a \<in> set ?rows" for a
    using that consistentD(2)[OF c i, of a] by simp
  show "unique_rows (cols (db ! i)) ?rows" by (rule unique_rows_subset[OF consistentD(3)[OF c i]]) auto
  have kept: "\<exists>b \<in> set ?rows. cell_at (snd b) tc = Some w"
    if b: "\<exists>b \<in> set ?old. cell_at (snd b) tc = Some w" and k: "k < length db" "fk \<in> set (fks (rel_schema (db ! k)))"
      "column_index (rel_schema (db ! k)) (from_col fk) = Some fi" "fk_target db fk = Some (i, tc)"
      and a: "a \<in> set (rel_rows (db ! k))" "cell_at (snd a) fi = Some w" "k \<noteq> i \<or> fst a \<noteq> rid" for k fk fi tc a w
  proof -
    from b obtain r x where b: "(r, x) \<in> set ?old" "cell_at x tc = Some w" by auto
    have "r \<noteq> rid"
    proof
      assume "r = rid"
      then have "cell_at old tc = Some w" using only b by simp
      moreover have "cell_at [] tc \<noteq> Some w" by (simp add: cell_at_def)
      ultimately show False using restrict_okD[OF res k, of w "fst a" "snd a"] a by auto
    qed
    then show ?thesis using b by force
  qed
  show "\<exists>b \<in> set (rel_rows (with_rows db i ?rows ! j)). cell_at (snd b) tc = Some w"
    if fk: "fk \<in> set (fks (rel_schema (db ! i)))" and fi: "column_index (rel_schema (db ! i)) (from_col fk) = Some fi"
      and tgt: "fk_target db fk = Some (j, tc)" and a: "a \<in> set ?rows" "cell_at (snd a) fi = Some w" for fk fi j tc a w
  proof -
    have a': "a \<in> set ?old" "fst a \<noteq> rid" using a(1) by simp_all
    from consistentD(4)[OF c i fk] have "\<exists>b \<in> set (rel_rows (db ! j)). cell_at (snd b) tc = Some w"
      by (rule fk_heldE) (use fi tgt a'(1) a(2) in auto)
    then show ?thesis using kept[OF _ i fk fi _ a'(1) a(2)] a'(2) tgt i by (cases "j = i") (simp_all add: with_rows_rows)
  qed
  show "\<exists>b \<in> set ?rows. cell_at (snd b) tc = Some w"
    if k: "k < length db" "k \<noteq> i" "fk \<in> set (fks (rel_schema (db ! k)))" "column_index (rel_schema (db ! k)) (from_col fk) = Some fi"
      "fk_target db fk = Some (i, tc)" "a \<in> set (rel_rows (db ! k))" "cell_at (snd a) fi = Some w" for k fk fi tc a w
  proof (rule kept)
    show "\<exists>b \<in> set ?old. cell_at (snd b) tc = Some w"
      by (rule fk_heldE[OF consistentD(4)[OF c k(1,3)]]) (use k in auto)
  qed (use k in auto)
qed

section \<open>A new table\<close>

lemma position_append: "position P xs = Some k \<Longrightarrow> position P (xs @ ys) = Some k"
  by (induction xs arbitrary: k) (auto split: if_splits)

lemma find_table_append: "find_table db n = Inr j \<Longrightarrow> find_table (db @ rs) n = Inr j"
  by (auto simp: find_table_def position_append ok_or_def split: option.splits dest: position_append)

theorem new_table_consistent:
  assumes c: "consistent db" and n: "n \<notin> rel_name ` set db"
  shows "consistent (db @ [\<lparr>rel_name = n, rel_schema = new_table n, rel_rows = []\<rparr>])"
proof -
  let ?db = "db @ [\<lparr>rel_name = n, rel_schema = new_table n, rel_rows = []\<rparr>]"
  have old: "?db ! i = db ! i" if "i < length db" for i using that by (simp add: nth_append)
  have held: "fk_held ?db i fk" if i: "i < length db" and fk: "fk \<in> set (fks (rel_schema (db ! i)))" for i fk
  proof -
    from consistentD(4)[OF c i fk] obtain fi j tc where
      h: "column_index (rel_schema (db ! i)) (from_col fk) = Some fi" "fk_target db fk = Some (j, tc)" "unique (cols (db ! j) ! tc)"
        "\<And>a v. a \<in> set (rel_rows (db ! i)) \<Longrightarrow> cell_at (snd a) fi = Some v \<Longrightarrow> \<exists>b \<in> set (rel_rows (db ! j)). cell_at (snd b) tc = Some v"
      using fk_heldE by metis
    have j: "j < length db" using h(2) find_table_bound by (auto simp: fk_target_Some)
    have "fk_target ?db fk = Some (j, tc)" using h(2) find_table_append old[OF j] by (auto simp: fk_target_Some)
    then show ?thesis using h(1,3,4) old[OF i] old[OF j] by (intro fk_heldI[where fi = fi and j = j and tc = tc]) simp_all
  qed
  show ?thesis
    unfolding consistent_def
  proof (intro conjI allI impI)
    show "distinct (map rel_name ?db)" using c n by (simp add: consistent_def)
  next
    fix i assume "i < length ?db"
    then consider "i < length db" | "i = length db" by fastforce
    then have "distinct (map col_name (cols (?db ! i))) \<and> distinct (map fst (rel_rows (?db ! i))) \<and> (\<forall>a \<in> set (rel_rows (?db ! i)). row_fits (cols (?db ! i)) (snd a)) \<and>
      unique_rows (cols (?db ! i)) (rel_rows (?db ! i)) \<and> (\<forall>fk \<in> set (fks (rel_schema (?db ! i))). fk_held ?db i fk)"
    proof cases
      case 1
      show ?thesis unfolding old[OF 1] using consistentD[OF c 1] held[OF 1] by blast
    next
      case 2
      then show ?thesis by (simp add: new_table_def unique_rows_def)
    qed
    then show "distinct (map col_name (cols (?db ! i)))" "distinct (map fst (rel_rows (?db ! i)))" "\<forall>a \<in> set (rel_rows (?db ! i)). row_fits (cols (?db ! i)) (snd a)"
      "unique_rows (cols (?db ! i)) (rel_rows (?db ! i))" "\<forall>fk \<in> set (fks (rel_schema (?db ! i))). fk_held ?db i fk"
      by blast+
  qed
qed

lemma empty_consistent: "consistent []"
  by (simp add: consistent_def)

end
