(* ===== verification/Store_Rows.thy ===== *)
theory Store_Rows
  imports Store_Power Integrity
begin

text \<open>
  The operations on rows, from the database to the volume: inserting, updating and deleting a row of a stored database stores the
  database with the row inserted, updated or deleted, and the pages in use stay exactly the pages of the layout.
\<close>

section \<open>Operations on databases\<close>

definition insert_db :: "database \<Rightarrow> nat \<Rightarrow> row_id \<Rightarrow> row \<Rightarrow> database" where
  "insert_db db i rid cells = with_rows db i (rel_rows (db ! i) @ [(rid, cells)])"

definition update_db :: "database \<Rightarrow> nat \<Rightarrow> row_id \<Rightarrow> row \<Rightarrow> database" where
  "update_db db i rid cells = with_rows db i (replaced rid cells (rel_rows (db ! i)))"

definition delete_db :: "database \<Rightarrow> nat \<Rightarrow> row_id \<Rightarrow> database" where
  "delete_db db i rid = with_rows db i (filter (\<lambda>ir. fst ir \<noteq> rid) (rel_rows (db ! i)))"

section \<open>Replacing one table of a layout\<close>

definition other_pages :: "nat \<Rightarrow> layout list \<Rightarrow> nat list" where
  "other_pages i Ls = concat (map pages_of (take i Ls)) @ concat (map pages_of (drop (Suc i) Ls))"

lemma all_pages_update:
  assumes "i < length Ls"
  shows "distinct (all_pages cps (Ls[i := L])) \<longleftrightarrow> distinct (cps @ pages_of L @ other_pages i Ls)"
    "set (all_pages cps (Ls[i := L])) = set (cps @ pages_of L @ other_pages i Ls)"
  using assms by (auto simp: all_pages_def other_pages_def upd_conv_take_nth_drop)

lemma all_pages_split:
  assumes "i < length Ls"
  shows "distinct (all_pages cps Ls) \<longleftrightarrow> distinct (cps @ pages_of (Ls ! i) @ other_pages i Ls)"
    "set (all_pages cps Ls) = set (cps @ pages_of (Ls ! i) @ other_pages i Ls)"
  using all_pages_update[OF assms, of cps "Ls ! i"] by simp_all

lemma other_pages_in: "j < length Ls \<Longrightarrow> j \<noteq> i \<Longrightarrow> p \<in> set (pages_of (Ls ! j)) \<Longrightarrow> p \<in> set (other_pages i Ls)"
proof (cases "j < i")
  case True
  assume a: "j < length Ls" "j \<noteq> i" "p \<in> set (pages_of (Ls ! j))"
  then have "Ls ! j = take i Ls ! j" "j < length (take i Ls)" using True by simp_all
  then have "Ls ! j \<in> set (take i Ls)" by (metis nth_mem)
  then show ?thesis using a(3) by (auto simp: other_pages_def)
next
  case False
  assume a: "j < length Ls" "j \<noteq> i" "p \<in> set (pages_of (Ls ! j))"
  then have "Ls ! j = drop (Suc i) Ls ! (j - Suc i)" "j - Suc i < length (drop (Suc i) Ls)" using False by auto
  then have "Ls ! j \<in> set (drop (Suc i) Ls)" by (metis nth_mem)
  then show ?thesis using a(3) by (auto simp: other_pages_def)
qed

text \<open>Every table stored, apart from the catalog.\<close>

definition tables_stored :: "(nat \<Rightarrow> byte list) \<Rightarrow> cat_entry list \<Rightarrow> layout list \<Rightarrow> database \<Rightarrow> bool" where
  "tables_stored v cat Ls db \<longleftrightarrow> length cat = length db \<and> length Ls = length db \<and>
     (\<forall>i < length db. table_stored v (cat ! i) (Ls ! i) (db ! i))"

lemma tables_stored_cong:
  assumes "tables_stored v cat Ls db" "\<And>p. p \<in> set (concat (map pages_of Ls)) \<Longrightarrow> v p = v' p"
  shows "tables_stored v' cat Ls db"
  unfolding tables_stored_def
proof (intro conjI allI impI)
  fix i assume i: "i < length db"
  then have "table_stored v (cat ! i) (Ls ! i) (db ! i)" "i < length Ls" using assms(1) by (simp_all add: tables_stored_def)
  then show "table_stored v' (cat ! i) (Ls ! i) (db ! i)"
    by (elim table_stored_cong) (rule assms(2), force)
qed (use assms(1) in \<open>simp_all add: tables_stored_def\<close>)

lemma tables_stored_update:
  assumes tabs: "tables_stored v cat Ls db" and i: "i < length db"
    and cong: "\<And>p. p \<in> set (other_pages i Ls) \<Longrightarrow> v p = v' p" and new: "table_stored v' e L r"
  shows "tables_stored v' (cat[i := e]) (Ls[i := L]) (db[i := r])"
proof -
  have len: "length cat = length db" "length Ls = length db" using tabs by (simp_all add: tables_stored_def)
  have "table_stored v' (cat[i := e] ! j) (Ls[i := L] ! j) (db[i := r] ! j)" if j: "j < length db" for j
  proof (cases "j = i")
    case False
    have "table_stored v (cat ! j) (Ls ! j) (db ! j)" using tabs j by (simp add: tables_stored_def)
    then have "table_stored v' (cat ! j) (Ls ! j) (db ! j)"
      by (rule table_stored_cong) (rule cong, rule other_pages_in[OF _ False], use j len in simp_all)
    then show ?thesis using False by simp
  qed (use new(1) j len in simp)
  then show ?thesis using len by (simp add: tables_stored_def)
qed

lemma stores_cache:
  "stores ops media good s ps cat cps Ls db \<Longrightarrow> pager_ok ops media good (s\<lparr>cache := c\<rparr>) \<Longrightarrow>
    stores ops media good (s\<lparr>cache := c\<rparr>) ps cat cps Ls db"
  by (simp add: stores_def alloc_ok_def content_def used_def)

section \<open>Replacing the catalog\<close>

context block_device
begin

text \<open>The end of every operation that changes the catalog: from stored tables to a stored database.\<close>

lemma catalog_finish:
  assumes ok: "pager_ok ops media good s" and al: "alloc_ok media s ps" and tabs: "tables_stored (content media s) cat Ls db"
    and old: "linked (content media s) (catalog_head (sb s)) cps" and dist: "distinct (all_pages cps Ls)"
    and used: "set (all_pages cps Ls) = used s ps"
  shows "(\<exists>t ps' cps'. store_catalog ops cat s = Some (Inr (), t) \<and> stores ops media good t ps' cat cps' Ls db \<and> dirty t \<noteq> [] \<and>
      room s ps \<le> room t ps' + chunks (encode_catalog cat)) \<or>
    room s ps < chunks (encode_catalog cat) \<and> (\<exists>t. store_catalog ops cat s = Some (Inl OutOfSpace, t) \<and> pager_ok ops media good t)"
proof -
  have cps: "distinct cps" "set cps \<subseteq> used s ps" using dist used by (auto simp: all_pages_def)
  from store_catalog_ok[OF ok al old cps, of cat] show ?thesis
  proof
    assume "\<exists>s' ps' qs. store_catalog ops cat s = Some (Inr (), s') \<and> pager_ok ops media good s' \<and> alloc_ok media s' ps' \<and>
      blob (content media s') (catalog_head (sb s')) qs (encode_catalog cat) \<and> catalog_head (sb s') \<noteq> 0 \<and> distinct qs \<and>
      set qs \<inter> used s ps = {} \<and> used s' ps' = used s ps - set cps \<union> set qs \<and>
      (\<forall>q. q \<notin> set qs \<and> q \<notin> set cps \<longrightarrow> content media s' q = content media s q) \<and> dev s' = dev s \<and>
      total_pages (sb s') = total_pages (sb s) \<and> dirty s' \<noteq> [] \<and> length qs = chunks (encode_catalog cat)"
    then obtain t ps' qs where
      t: "store_catalog ops cat s = Some (Inr (), t)" "pager_ok ops media good t" "alloc_ok media t ps'"
        "blob (content media t) (catalog_head (sb t)) qs (encode_catalog cat)" "catalog_head (sb t) \<noteq> 0" "distinct qs"
        "set qs \<inter> used s ps = {}" "used t ps' = used s ps - set cps \<union> set qs"
        "\<forall>q. q \<notin> set qs \<and> q \<notin> set cps \<longrightarrow> content media t q = content media s q" "dirty t \<noteq> []"
        "total_pages (sb t) = total_pages (sb s)" "length qs = chunks (encode_catalog cat)" by blast
    have "card (used t ps') \<le> card (used s ps) + card (set qs)"
    proof -
      have "card (used t ps') \<le> card (used s ps \<union> set qs)" unfolding t(8) by (rule card_mono) (auto simp: finite_used)
      then show ?thesis using card_Un_le[of "used s ps" "set qs"] by simp
    qed
    then have rm: "room s ps \<le> room t ps' + chunks (encode_catalog cat)"
      using t(11,12) distinct_card[OF t(6)] by (simp add: room_def)
    let ?P = "concat (map pages_of Ls)"
    have P: "set ?P \<subseteq> used s ps" "set ?P \<inter> set cps = {}" "distinct ?P" "used s ps = set cps \<union> set ?P"
      using dist used by (auto simp: all_pages_def)
    have tabs': "tables_stored (content media t) cat Ls db"
    proof (rule tables_stored_cong[OF tabs])
      fix p assume "p \<in> set ?P"
      then have "p \<notin> set qs \<and> p \<notin> set cps" using P(1,2) t(7) by blast
      then show "content media s p = content media t p" using t(9) by simp
    qed
    have d: "distinct (all_pages qs Ls)" unfolding all_pages_def distinct_append using t(6,7) P by blast
    have u: "set (all_pages qs Ls) = used t ps'" unfolding all_pages_def set_append t(8) P(4) using P(2) by blast
    have "db_stored (content media t) (catalog_head (sb t)) cat qs Ls db"
      using tabs' t(4,5) d by (simp add: db_stored_def tables_stored_def)
    then have "stores ops media good t ps' cat qs Ls db" using t(2,3) u by (simp add: stores_def)
    then show ?thesis using t(1,10) rm by blast
  qed simp
qed

lemma stores_parts:
  assumes "stores ops media good s ps cat cps Ls db"
  shows "pager_ok ops media good s" "alloc_ok media s ps" "tables_stored (content media s) cat Ls db"
    "linked (content media s) (catalog_head (sb s)) cps" "distinct (all_pages cps Ls)" "set (all_pages cps Ls) = used s ps"
  using assms by (auto simp: stores_def db_stored_def tables_stored_def blob_def split: if_splits)

end

section \<open>Inserting\<close>

context block_device
begin

lemma insert_body:
  assumes st: "stores ops media good s ps cat cps Ls db" and i: "i < length db" and wf: "wf_row cells"
  defines "cat' \<equiv> cat[i := (cat ! i)\<lparr>row_count := row_count (cat ! i) + 1\<rparr>]"
  defines "body \<equiv> bindM (write_chain ops (encode_row cells)) (\<lambda>head.
     bindM (index_append ops (data_head (cat ! i)) head) (\<lambda>rid.
     bindM (assertM (row_count (cat ! i) + 1 < 2 ^ 64)) (\<lambda>_.
     bindM (store_catalog ops cat') (\<lambda>_. returnM rid))))"
  shows "(\<exists>rid t ps' cps' L. body s = Some (Inr rid, t) \<and> rid \<notin> fst ` set (rel_rows (db ! i)) \<and> dirty t \<noteq> [] \<and>
      stores ops media good t ps' cat' cps' (Ls[i := L]) (insert_db db i rid cells) \<and>
      room s ps \<le> room t ps' + (chunks (encode_row cells) + 1 + chunks (encode_catalog cat'))) \<or>
    room s ps < chunks (encode_row cells) + 1 + chunks (encode_catalog cat') \<and>
      (\<exists>t. body s = Some (Inl OutOfSpace, t) \<and> pager_ok ops media good t)"
proof -
  note t = stores_table[OF st i]
  let ?L = "Ls ! i" and ?v = "content media s" and ?U = "used s ps"
  let ?ips = "index_pages ?L"
  have ok: "pager_ok ops media good s" and al: "alloc_ok media s ps" and db: "db_stored ?v (catalog_head (sb s)) cat cps Ls db"
    using st by (simp_all add: stores_def)
  have il: "i < length Ls" using i t(2) by simp
  have U: "?U = set (cps @ pages_of ?L @ other_pages i Ls)" and dist: "distinct (cps @ pages_of ?L @ other_pages i Ls)"
    using st all_pages_split[OF il, of cps] by (simp_all add: stores_def db_stored_def)
  have tab: "linked ?v (data_head (cat ! i)) ?ips" "?ips \<noteq> []" "\<forall>p \<in> set ?ips. rd_u64 (?v p) 8 \<le> IDX_CAP"
    "index_slots ?v ?ips = live_slots ?L" "list_all2 (row_stored ?v) (row_slots ?L) (rel_rows (db ! i))"
    using t(1) by (simp_all add: table_stored_def)
  have cnt: "row_count (cat ! i) + 1 < 2 ^ 64"
    using t(1) stores_sizes(1,3)[OF st] i by (fastforce simp: table_stored_def)
  show ?thesis
  proof (cases "chunks (encode_row cells) \<le> room s ps")
    case False
    then have r: "room s ps < chunks (encode_row cells)" by simp
    from write_chain_full[OF ok al r] r show ?thesis by (auto simp: body_def run_simps)
  next
    case True
    from write_chain_ok[OF ok al True] obtain h s1 ps1 qs where
      1: "write_chain ops (encode_row cells) s = Some (Inr h, s1)" "pager_ok ops media good s1" "alloc_ok media s1 ps1"
        "blob (content media s1) h qs (encode_row cells)" "h \<noteq> 0" "distinct qs" "\<forall>q \<in> set qs. data_page s q \<and> q \<notin> ?U"
        "used s1 ps1 = ?U \<union> set qs" "\<forall>q. q \<notin> set qs \<longrightarrow> content media s1 q = ?v q"
        "catalog_head (sb s1) = catalog_head (sb s)" "total_pages (sb s1) = total_pages (sb s)" "length qs = chunks (encode_row cells)"
      by blast
    have hq: "h \<in> set qs" using 1(4,5) linked_nonzero by (force simp: blob_def)
    have h64: "h < 2 ^ 64" using hq 1(7) ok by (auto simp: data_page_def pager_ok_def sb_ok_def)
    have disj1: "set qs \<inter> ?U = {}" using 1(7) by blast
    have room1: "room s1 ps1 = room s ps - chunks (encode_row cells)"
      using room_after[OF 1(8) disj1 1(6,11)] 1(12) by simp
    have ipsU: "set ?ips \<subseteq> ?U" using U by (auto simp: pages_of_def)
    have v1: "content media s1 p = ?v p" if "p \<in> ?U" for p using 1(9) disj1 that by auto
    have lk1: "linked (content media s1) (data_head (cat ! i)) ?ips"
      using tab(1) linked_cong[of ?ips "content media s1" ?v] v1 ipsU by auto
    have caps1: "\<forall>p \<in> set ?ips. rd_u64 (content media s1 p) 8 \<le> IDX_CAP" using tab(3) v1 ipsU by auto
    have sl1: "index_slots (content media s1) ?ips = live_slots ?L"
      using tab(4) index_slots_cong[of ?ips "content media s1" ?v] v1 ipsU by auto
    have dips: "distinct ?ips" using dist by (simp add: pages_of_def)
    have ips1: "set ?ips \<subseteq> used s1 ps1" using ipsU 1(8) by blast
    from index_append_ok[OF 1(2,3) lk1 tab(2) dips ips1 caps1 1(5) h64] show ?thesis
    proof (elim disjE)
      assume "room s1 ps1 = 0 \<and> (\<exists>s'. index_append ops (data_head (cat ! i)) h s1 = Some (Inl OutOfSpace, s') \<and> pager_ok ops media good s')"
      then show ?thesis using 1(1) room1 by (auto simp: body_def run_simps)
    next
      assume "\<exists>rid s' ps' xs. index_append ops (data_head (cat ! i)) h s1 = Some (Inr rid, s') \<and> pager_ok ops media good s' \<and>
        alloc_ok media s' ps' \<and> distinct xs \<and> length xs \<le> 1 \<and> set xs \<inter> used s1 ps1 = {} \<and> used s' ps' = used s1 ps1 \<union> set xs \<and>
        linked (content media s') (data_head (cat ! i)) (?ips @ xs) \<and> (\<forall>p \<in> set (?ips @ xs). rd_u64 (content media s' p) 8 \<le> IDX_CAP) \<and>
        index_slots (content media s') (?ips @ xs) = index_slots (content media s1) ?ips @ [(rid, h)] \<and>
        (\<forall>p. p \<notin> set (?ips @ xs) \<longrightarrow> content media s' p = content media s1 p) \<and> dev s' = dev s1 \<and>
        catalog_head (sb s') = catalog_head (sb s1) \<and> total_pages (sb s') = total_pages (sb s1)"
      then obtain rid s2 ps2 xs where
        2: "index_append ops (data_head (cat ! i)) h s1 = Some (Inr rid, s2)" "pager_ok ops media good s2" "alloc_ok media s2 ps2"
          "distinct xs" "length xs \<le> 1" "set xs \<inter> used s1 ps1 = {}" "used s2 ps2 = used s1 ps1 \<union> set xs"
          "linked (content media s2) (data_head (cat ! i)) (?ips @ xs)" "\<forall>p \<in> set (?ips @ xs). rd_u64 (content media s2 p) 8 \<le> IDX_CAP"
          "index_slots (content media s2) (?ips @ xs) = index_slots (content media s1) ?ips @ [(rid, h)]"
          "\<forall>p. p \<notin> set (?ips @ xs) \<longrightarrow> content media s2 p = content media s1 p"
          "catalog_head (sb s2) = catalog_head (sb s1)" "total_pages (sb s2) = total_pages (sb s1)" by blast
      have room2: "room s2 ps2 = room s ps - chunks (encode_row cells) - length xs"
        using room_after[OF 2(7,6,4,13)] room1 by simp
      let ?L' = "?L\<lparr>index_pages := ?ips @ xs, row_slots := row_slots ?L @ [(rid, h, qs)]\<rparr>"
      let ?e = "(cat ! i)\<lparr>row_count := row_count (cat ! i) + 1\<rparr>" and ?r = "(db ! i)\<lparr>rel_rows := rel_rows (db ! i) @ [(rid, cells)]\<rparr>"
      have qsx: "set qs \<inter> set (?ips @ xs) = {}" using disj1 ipsU 2(6) 1(8) by auto
      have v2: "content media s2 p = ?v p" if "p \<in> ?U" "p \<notin> set ?ips" for p
        using that 2(6,11) 1(8) v1 by auto
      have rowsP: "p \<in> ?U \<and> p \<notin> set ?ips" if "p \<in> set (schema_pages ?L) \<or> p \<in> set (row_chains ?L)" for p
        using that U dist by (auto simp: pages_of_def)
      have vs: "content media s2 p = ?v p" if "p \<in> set (schema_pages ?L)" for p using rowsP that v2 by blast
      have tab': "table_stored (content media s2) ?e ?L' ?r"
      proof -
        have "blob (content media s2) (schema_head (cat ! i)) (schema_pages ?L) bs = blob ?v (schema_head (cat ! i)) (schema_pages ?L) bs" for bs
          by (rule blob_cong) (rule vs)
        moreover have rows: "list_all2 (row_stored (content media s2)) (row_slots ?L) (rel_rows (db ! i))"
        proof (rule rows_stored_cong[OF tab(5)])
          fix sl p assume "sl \<in> set (row_slots ?L)" "p \<in> set (snd (snd sl))"
          then have "p \<in> set (row_chains ?L)" by (auto simp: row_chains_def)
          then show "?v p = content media s2 p" using rowsP v2 by metis
        qed
        moreover have one: "row_stored (content media s2) (rid, h, qs) (rid, cells)"
        proof -
          have "content media s2 p = content media s1 p" if "p \<in> set qs" for p using that qsx 2(11) by blast
          then have "blob (content media s2) h qs (encode_row cells) = blob (content media s1) h qs (encode_row cells)"
            by (rule blob_cong)
          then show ?thesis using 1(4,5) wf by (simp add: row_stored_def)
        qed
        moreover have "list_all2 (row_stored (content media s2)) (row_slots ?L @ [(rid, h, qs)]) (rel_rows (db ! i) @ [(rid, cells)])"
          by (rule list_all2_appendI[OF rows]) (simp add: one)
        ultimately show ?thesis
          using t(1) 2(8-10) sl1 tab(2) cnt by (auto simp: table_stored_def wf_cat_def live_slots_def)
      qed
      have tabs2: "tables_stored (content media s2) cat' (Ls[i := ?L']) (insert_db db i rid cells)"
        unfolding cat'_def insert_db_def with_rows_def
      proof (rule tables_stored_update[OF stores_parts(3)[OF st] i _ tab'])
        fix p assume p: "p \<in> set (other_pages i Ls)"
        then have "p \<in> ?U \<and> p \<notin> set ?ips" using U dist by (auto simp: pages_of_def)
        then show "?v p = content media s2 p" using v2 by metis
      qed
      have old: "linked (content media s2) (catalog_head (sb s2)) cps"
      proof -
        have "content media s2 p = ?v p" if "p \<in> set cps" for p
          using that U dist by (intro v2) (auto simp: pages_of_def)
        then have "linked (content media s2) (catalog_head (sb s)) cps = linked ?v (catalog_head (sb s)) cps" by (rule linked_cong)
        then show ?thesis using stores_parts(4)[OF st] 1(10) 2(12) by simp
      qed
      have pg: "set (pages_of ?L') = set (pages_of ?L) \<union> set xs \<union> set qs" by (auto simp: pages_of_def row_chains_def)
      have us: "set (all_pages cps (Ls[i := ?L'])) = used s2 ps2"
        unfolding all_pages_update(2)[OF il] set_append pg 2(7) 1(8) U by blast
      have d': "distinct (all_pages cps (Ls[i := ?L']))"
      proof -
        have "distinct (pages_of ?L')"
          using dist disj1 2(4,6) 1(6,8) U by (auto simp: pages_of_def row_chains_def)
        then show ?thesis
          unfolding all_pages_update(1)[OF il] distinct_append set_append pg
          using dist disj1 2(6) 1(8) U by auto
      qed
      have run: "body s = bindM (store_catalog ops cat') (\<lambda>_. returnM rid) s2"
        using 1(1) 2(1) cnt by (simp add: body_def run_simps)
      from catalog_finish[OF 2(2,3) tabs2 old d' us] show ?thesis
      proof (elim disjE exE conjE)
        fix u ps' cps' assume u: "store_catalog ops cat' s2 = Some (Inr (), u)" "dirty u \<noteq> []"
          "stores ops media good u ps' cat' cps' (Ls[i := ?L']) (insert_db db i rid cells)" "room s2 ps2 \<le> room u ps' + chunks (encode_catalog cat')"
        have rm: "room s ps \<le> room u ps' + (chunks (encode_row cells) + 1 + chunks (encode_catalog cat'))" using u(4) room2 2(5) by simp
        have "rid \<notin> fst ` set (rel_rows (db ! i))"
        proof -
          have ib: "i < length (insert_db db i rid cells)" using i by (simp add: insert_db_def with_rows_def)
          from ids_distinct[OF u(3) ib] i show ?thesis by (simp add: insert_db_def with_rows_def)
        qed
        moreover have "body s = Some (Inr rid, u)" using run u(1) by (simp add: run_simps)
        ultimately show ?thesis using u(2,3) rm by blast
      next
        fix u assume "room s2 ps2 < chunks (encode_catalog cat')" "store_catalog ops cat' s2 = Some (Inl OutOfSpace, u)" "pager_ok ops media good u"
        then show ?thesis using run room2 2(5) by (intro disjI2) (auto simp: run_simps)
      qed
    qed
  qed
qed

end

section \<open>Replacing and removing\<close>

lemma row_split:
  assumes l: "list_all2 (row_stored v) sls rows" and d: "distinct (map fst rows)" and r: "map_of rows rid = Some r"
  obtains A h qs B RA RB where "sls = A @ (rid, h, qs) # B" "rows = RA @ (rid, r) # RB" "list_all2 (row_stored v) A RA"
    "list_all2 (row_stored v) B RB" "row_stored v (rid, h, qs) (rid, r)" "rid \<notin> fst ` set A" "rid \<notin> fst ` set B"
    "rid \<notin> fst ` set RA" "rid \<notin> fst ` set RB"
proof -
  have "(rid, r) \<in> set rows" using r by (rule map_of_SomeD)
  then obtain RA RB where rows: "rows = RA @ (rid, r) # RB" by (meson split_list)
  from l[unfolded rows list_all2_append2] obtain A C where
    1: "sls = A @ C" "list_all2 (row_stored v) A RA" "list_all2 (row_stored v) C ((rid, r) # RB)" by blast
  from 1(3) obtain sl B where 2: "C = sl # B" "row_stored v sl (rid, r)" "list_all2 (row_stored v) B RB"
    by (auto simp: list_all2_Cons2)
  obtain h qs where 3: "sl = (rid, h, qs)" using 2(2) by (cases sl) (simp add: row_stored_def)
  have ids: "fst ` set xs = fst ` set ys" if "list_all2 (row_stored v) xs ys" for xs ys
    using that by (induction rule: list_all2_induct) (auto simp: row_stored_def split: prod.splits)
  have n: "rid \<notin> fst ` set RA" "rid \<notin> fst ` set RB" using d rows by auto
  with ids[OF 1(2)] ids[OF 2(3)] show thesis using that 1 2 3 rows by simp
qed

lemma table_replaced:
  assumes t: "table_stored v e L r" and sl: "row_slots L = A @ (rid, h, qs) # B" "rel_rows r = RA @ (rid, old) # RB"
    "list_all2 (row_stored v) A RA" "list_all2 (row_stored v) B RB" "rid \<notin> fst ` set A" "rid \<notin> fst ` set B"
    and keep: "\<And>p. p \<in> set (schema_pages L) \<Longrightarrow> v p = v' p"
      "\<And>sl p. sl \<in> set A \<union> set B \<Longrightarrow> p \<in> set (snd (snd sl)) \<Longrightarrow> v p = v' p"
    and ix: "linked v' (data_head e) (index_pages L)" "\<forall>p \<in> set (index_pages L). rd_u64 (v' p) 8 \<le> IDX_CAP"
      "index_slots v' (index_pages L) = set_slot rid x (live_slots L)"
    and new: "list_all2 (row_stored v') N NR" "map (\<lambda>sl. (fst sl, fst (snd sl))) N = (if x = 0 then [] else [(rid, x)])"
    and cnt: "length (RA @ NR @ RB) < 2 ^ 64"
  shows "table_stored v' (e\<lparr>row_count := length (RA @ NR @ RB)\<rparr>) (L\<lparr>row_slots := A @ N @ B\<rparr>) (r\<lparr>rel_rows := RA @ NR @ RB\<rparr>)"
proof -
  have schema: "blob v' (schema_head e) (schema_pages L) bs = blob v (schema_head e) (schema_pages L) bs" for bs
    by (rule blob_cong) (simp add: keep(1))
  have a: "list_all2 (row_stored v') A RA" by (rule rows_stored_cong[OF sl(3)]) (rule keep(2), blast, assumption)
  have b: "list_all2 (row_stored v') B RB" by (rule rows_stored_cong[OF sl(4)]) (rule keep(2), blast, assumption)
  have rows: "list_all2 (row_stored v') (A @ N @ B) (RA @ NR @ RB)" by (intro list_all2_appendI a b new(1))
  let ?p = "\<lambda>sl :: row_id \<times> nat \<times> nat list. (fst sl, fst (snd sl))"
  have "set_slot rid x (map ?p xs) = map ?p xs" if "rid \<notin> fst ` set xs" for xs
  proof (rule set_slot_other)
    have "fst ` set (map ?p xs) = fst ` set xs" by (simp add: image_image)
    then show "rid \<notin> fst ` set (map ?p xs)" using that by simp
  qed
  moreover have "set_slot rid x [(rid, h)] = (if x = 0 then [] else [(rid, x)])" by (simp add: set_slot_def)
  ultimately have "set_slot rid x (live_slots L) = map ?p A @ (if x = 0 then [] else [(rid, x)]) @ map ?p B"
    using sl(5,6) set_slot_append[of rid x "map ?p A" "(rid, h) # map ?p B"] set_slot_append[of rid x "[(rid, h)]" "map ?p B"]
    by (simp add: live_slots_def sl(1))
  then have live: "index_slots v' (index_pages L) = map ?p (A @ N @ B)" using ix(3) new(2) by simp
  show ?thesis
    using t schema ix(1,2) live rows cnt by (auto simp: table_stored_def wf_cat_def live_slots_def)
qed

lemma chains_split: "row_slots L = A @ (rid, h, qs) # B \<Longrightarrow>
  row_chains L = row_chains (L\<lparr>row_slots := A\<rparr>) @ qs @ row_chains (L\<lparr>row_slots := B\<rparr>)"
  by (simp add: row_chains_def)

context block_device
begin

lemma table_row_split:
  assumes st: "stores ops media good s ps cat cps Ls db" and i: "i < length db"
    and r: "row_at db i rid = Some old" and mem: "(rid, h, qs0) \<in> set (row_slots (Ls ! i))"
  obtains A B RA RB where "row_slots (Ls ! i) = A @ (rid, h, qs0) # B" "rel_rows (db ! i) = RA @ (rid, old) # RB"
    "list_all2 (row_stored (content media s)) A RA" "list_all2 (row_stored (content media s)) B RB"
    "row_stored (content media s) (rid, h, qs0) (rid, old)"
    "rid \<notin> fst ` set A" "rid \<notin> fst ` set B" "rid \<notin> fst ` set RA" "rid \<notin> fst ` set RB"
proof -
  have l: "list_all2 (row_stored (content media s)) (row_slots (Ls ! i)) (rel_rows (db ! i))"
    using stores_table(1)[OF st i] by (simp add: table_stored_def)
  obtain A h' qs' B RA RB where sp: "row_slots (Ls ! i) = A @ (rid, h', qs') # B" "rel_rows (db ! i) = RA @ (rid, old) # RB"
    "list_all2 (row_stored (content media s)) A RA" "list_all2 (row_stored (content media s)) B RB"
    "row_stored (content media s) (rid, h', qs') (rid, old)"
    "rid \<notin> fst ` set A" "rid \<notin> fst ` set B" "rid \<notin> fst ` set RA" "rid \<notin> fst ` set RB"
    by (rule row_split[OF l ids_distinct[OF st i]]) (use r in \<open>simp_all add: row_at_def\<close>)
  moreover have "h' = h \<and> qs' = qs0" using mem sp(1,6,7) by force
  ultimately show thesis using that by blast
qed

lemma update_body:
  assumes st: "stores ops media good s ps cat cps Ls db" and i: "i < length db" and wf: "wf_row cells"
    and r: "row_at db i rid = Some old" and mem: "(rid, h, qs0) \<in> set (row_slots (Ls ! i))"
  defines "body \<equiv> bindM (write_chain ops (encode_row cells)) (\<lambda>new.
     bindM (index_set ops (index_page rid) (slot rid) new) (\<lambda>_. free_chain ops h))"
  shows "(\<exists>t ps' L. body s = Some (Inr (), t) \<and> dirty t \<noteq> [] \<and> stores ops media good t ps' cat cps (Ls[i := L]) (update_db db i rid cells)) \<or>
    room s ps < chunks (encode_row cells) \<and> (\<exists>t. body s = Some (Inl OutOfSpace, t) \<and> pager_ok ops media good t)"
proof -
  note t = stores_table[OF st i]
  note parts = stores_parts[OF st]
  let ?L = "Ls ! i" and ?v = "content media s" and ?U = "used s ps"
  let ?ips = "index_pages ?L"
  have il: "i < length Ls" using i t(2) by simp
  have U: "?U = set (cps @ pages_of ?L @ other_pages i Ls)" and dist: "distinct (cps @ pages_of ?L @ other_pages i Ls)"
    using parts(5,6) all_pages_split[OF il, of cps] by simp_all
  have tab: "linked ?v (data_head (cat ! i)) ?ips" "\<forall>p \<in> set ?ips. rd_u64 (?v p) 8 \<le> IDX_CAP"
    "index_slots ?v ?ips = live_slots ?L" "list_all2 (row_stored ?v) (row_slots ?L) (rel_rows (db ! i))"
    using t(1) by (simp_all add: table_stored_def)
  obtain A B RA RB where sp: "row_slots ?L = A @ (rid, h, qs0) # B" "rel_rows (db ! i) = RA @ (rid, old) # RB"
    "list_all2 (row_stored ?v) A RA" "list_all2 (row_stored ?v) B RB" "row_stored ?v (rid, h, qs0) (rid, old)"
    "rid \<notin> fst ` set A" "rid \<notin> fst ` set B" "rid \<notin> fst ` set RA" "rid \<notin> fst ` set RB"
    by (rule table_row_split[OF st i r mem])
  let ?CA = "row_chains (?L\<lparr>row_slots := A\<rparr>)" and ?CB = "row_chains (?L\<lparr>row_slots := B\<rparr>)"
  have chains: "row_chains ?L = ?CA @ qs0 @ ?CB" by (rule chains_split[OF sp(1)])
  show ?thesis
  proof (cases "chunks (encode_row cells) \<le> room s ps")
    case False
    then have r: "room s ps < chunks (encode_row cells)" by simp
    from write_chain_full[OF parts(1,2) r] r show ?thesis by (auto simp: body_def run_simps)
  next
    case True
    from write_chain_ok[OF parts(1,2) True] obtain new s1 ps1 qs where
      1: "write_chain ops (encode_row cells) s = Some (Inr new, s1)" "pager_ok ops media good s1" "alloc_ok media s1 ps1"
        "blob (content media s1) new qs (encode_row cells)" "new \<noteq> 0" "distinct qs" "\<forall>q \<in> set qs. data_page s q \<and> q \<notin> ?U"
        "used s1 ps1 = ?U \<union> set qs" "\<forall>q. q \<notin> set qs \<longrightarrow> content media s1 q = ?v q"
        "catalog_head (sb s1) = catalog_head (sb s)" by blast
    have nq: "new \<in> set qs" using 1(4,5) linked_nonzero by (force simp: blob_def)
    have n64: "new < 2 ^ 64" using nq 1(7) parts(1) by (auto simp: data_page_def pager_ok_def sb_ok_def)
    have disj1: "set qs \<inter> ?U = {}" using 1(7) by blast
    have ipsU: "set ?ips \<subseteq> ?U" using U by (auto simp: pages_of_def)
    have v1: "content media s1 p = ?v p" if "p \<in> ?U" for p using 1(9) disj1 that by auto
    have vi: "content media s1 p = ?v p" if "p \<in> set ?ips" for p using v1 ipsU that by blast
    have lk1: "linked (content media s1) (data_head (cat ! i)) ?ips" using tab(1) linked_cong[OF vi] by simp
    have caps1: "\<forall>p \<in> set ?ips. rd_u64 (content media s1 p) 8 \<le> IDX_CAP" using tab(2) vi by simp
    have sl1: "index_slots (content media s1) ?ips = live_slots ?L" using tab(3) index_slots_cong[OF vi] by simp
    have dips: "distinct ?ips" using dist by (simp add: pages_of_def)
    have ips1: "set ?ips \<subseteq> used s1 ps1" using ipsU 1(8) by blast
    have "(rid, h) \<in> set (live_slots ?L)" using mem by (force simp: live_slots_def)
    then have mem1: "(rid, h) \<in> set (index_slots (content media s1) ?ips)" by (simp add: sl1)
    from index_set_ok[OF 1(2,3) lk1 dips ips1 caps1 mem1 n64] obtain s2 where
      2: "index_set ops (index_page rid) (slot rid) new s1 = Some (Inr (), s2)" "pager_ok ops media good s2" "alloc_ok media s2 ps1"
        "used s2 ps1 = used s1 ps1" "linked (content media s2) (data_head (cat ! i)) ?ips"
        "\<forall>p \<in> set ?ips. rd_u64 (content media s2 p) 8 \<le> IDX_CAP"
        "index_slots (content media s2) ?ips = set_slot rid new (index_slots (content media s1) ?ips)"
        "\<forall>p. p \<notin> set ?ips \<longrightarrow> content media s2 p = content media s1 p" "catalog_head (sb s2) = catalog_head (sb s1)" "dirty s2 \<noteq> []"
      by blast
    have q0: "set qs0 \<subseteq> ?U" "set qs0 \<inter> set ?ips = {}" "distinct qs0" using U dist by (auto simp: pages_of_def chains)
    have v2: "content media s2 p = ?v p" if "p \<in> ?U" "p \<notin> set ?ips" for p using 2(8) v1 that by simp
    have vq: "content media s2 p = ?v p" if "p \<in> set qs0" for p using v2 q0 that by blast
    have lk2: "linked (content media s2) h qs0" using sp(5) linked_cong[OF vq] by (simp add: row_stored_def blob_def)
    have sub2: "set qs0 \<subseteq> used s2 ps1" using q0(1) 1(8) 2(4) by blast
    from free_chain_ok[OF 2(2,3) lk2 q0(3) sub2] obtain s3 where
      3: "free_chain ops h s2 = Some (Inr (), s3)" "pager_ok ops media good s3" "alloc_ok media s3 (rev qs0 @ ps1)"
        "used s3 (rev qs0 @ ps1) = used s2 ps1 - set qs0" "\<forall>q. q \<notin> set qs0 \<longrightarrow> content media s3 q = content media s2 q"
        "catalog_head (sb s3) = catalog_head (sb s2)" by blast
    let ?N = "[(rid, new, qs)]" and ?NR = "[(rid, cells)]"
    let ?L' = "?L\<lparr>row_slots := A @ ?N @ B\<rparr>"
    have v3: "?v p = content media s3 p" if "p \<in> ?U" "p \<notin> set ?ips" "p \<notin> set qs0" for p using v2 3(5) that by simp
    have vi3: "content media s3 p = content media s2 p" if "p \<in> set ?ips" for p using 3(5) q0(2) that by blast
    have vq3: "content media s3 p = content media s1 p" if p: "p \<in> set qs" for p
    proof -
      have "p \<notin> ?U" using p disj1 by blast
      then have "p \<notin> set qs0" "p \<notin> set ?ips" using q0(1) ipsU by blast+
      then show ?thesis using 3(5) 2(8) by simp
    qed
    have inA: "p \<in> set ?CA \<union> set ?CB" if "sl \<in> set A \<union> set B" "p \<in> set (snd (snd sl))" for sl p
      using that by (auto simp: row_chains_def)
    have tab': "table_stored (content media s3) ((cat ! i)\<lparr>row_count := length (RA @ ?NR @ RB)\<rparr>) ?L' ((db ! i)\<lparr>rel_rows := RA @ ?NR @ RB\<rparr>)"
    proof (rule table_replaced[OF t(1) sp(1-4,6,7), where x = new])
      show "?v p = content media s3 p" if "p \<in> set (schema_pages ?L)" for p
        using that U dist by (intro v3) (auto simp: pages_of_def chains)
      show "?v p = content media s3 p" if "sl \<in> set A \<union> set B" "p \<in> set (snd (snd sl))" for sl p
        using inA[OF that] U dist by (intro v3) (auto simp: pages_of_def chains)
      show "linked (content media s3) (data_head (cat ! i)) ?ips" using 2(5) linked_cong[OF vi3] by simp
      show "\<forall>p \<in> set ?ips. rd_u64 (content media s3 p) 8 \<le> IDX_CAP" using 2(6) vi3 by simp
      show "index_slots (content media s3) ?ips = set_slot rid new (live_slots ?L)"
        using 2(7) sl1 index_slots_cong[OF vi3] by simp
      show "list_all2 (row_stored (content media s3)) ?N ?NR"
        using 1(4,5) wf blob_cong[OF vq3] by (simp add: row_stored_def)
      show "map (\<lambda>sl. (fst sl, fst (snd sl))) ?N = (if new = 0 then [] else [(rid, new)])" using 1(5) by simp
      show "length (RA @ ?NR @ RB) < 2 ^ 64" using stores_sizes(1,3)[OF st] i sp(2) by fastforce
    qed
    have cnt: "(cat ! i)\<lparr>row_count := length (RA @ ?NR @ RB)\<rparr> = cat ! i" using t(1) sp(2) by (simp add: table_stored_def)
    have upd: "update_db db i rid cells = db[i := (db ! i)\<lparr>rel_rows := RA @ ?NR @ RB\<rparr>]"
    proof -
      have "map (\<lambda>ir. if fst ir = rid then (rid, cells) else ir) xs = xs" if "rid \<notin> fst ` set xs" for xs
        using that by (intro map_idI) auto
      then show ?thesis using sp(8,9) by (simp add: update_db_def with_rows_def replaced_def sp(2))
    qed
    have tabs: "tables_stored (content media s3) cat (Ls[i := ?L']) (update_db db i rid cells)"
    proof -
      have "tables_stored (content media s3) (cat[i := cat ! i]) (Ls[i := ?L']) (db[i := (db ! i)\<lparr>rel_rows := RA @ ?NR @ RB\<rparr>])"
      proof (rule tables_stored_update[OF parts(3) i _ tab'[unfolded cnt]])
        fix p assume "p \<in> set (other_pages i Ls)"
        then show "?v p = content media s3 p" using U dist by (intro v3) (auto simp: pages_of_def chains)
      qed
      then show ?thesis by (simp add: upd)
    qed
    have pg: "set (pages_of ?L') = set (pages_of ?L) - set qs0 \<union> set qs"
      using dist by (auto simp: pages_of_def chains) (auto simp: row_chains_def)
    have u3: "used s3 (rev qs0 @ ps1) = ?U - set qs0 \<union> set qs" using 3(4) 2(4) 1(8) disj1 q0(1) by auto
    have us: "set (all_pages cps (Ls[i := ?L'])) = used s3 (rev qs0 @ ps1)"
      unfolding all_pages_update(2)[OF il] set_append pg u3 U using dist by (auto simp: pages_of_def chains)
    have d': "distinct (all_pages cps (Ls[i := ?L']))"
    proof -
      have "row_chains ?L' = ?CA @ qs @ ?CB" by (simp add: row_chains_def)
      then show ?thesis
        unfolding all_pages_update(1)[OF il] using dist disj1 1(6) U by (auto simp: pages_of_def chains)
    qed
    have cat3: "if catalog_head (sb s3) = 0 then cat = [] \<and> cps = [] else blob (content media s3) (catalog_head (sb s3)) cps (encode_catalog cat)"
    proof -
      have "content media s3 p = ?v p" if "p \<in> set cps" for p
        using that U dist by (intro v3[symmetric]) (auto simp: pages_of_def chains)
      then have "blob (content media s3) hd cps bs = blob ?v hd cps bs" for hd bs by (rule blob_cong)
      then show ?thesis using st 3(6) 2(9) 1(10) by (simp add: stores_def db_stored_def)
    qed
    have "stores ops media good s3 (rev qs0 @ ps1) cat cps (Ls[i := ?L']) (update_db db i rid cells)"
      using 3(2,3) tabs cat3 d' us by (simp add: stores_def db_stored_def tables_stored_def)
    moreover have "body s = Some (Inr (), s3)" using 1(1) 2(1) 3(1) by (simp add: body_def run_simps)
    moreover have "dirty s3 \<noteq> []" by (rule free_chain_dirty[OF 3(1) 2(10)])
    ultimately show ?thesis by blast
  qed
qed

lemma delete_body:
  assumes st: "stores ops media good s ps cat cps Ls db" and i: "i < length db"
    and r: "row_at db i rid = Some old" and mem: "(rid, h, qs0) \<in> set (row_slots (Ls ! i))"
  defines "cat' \<equiv> cat[i := (cat ! i)\<lparr>row_count := row_count (cat ! i) - 1\<rparr>]"
  defines "body \<equiv> bindM (free_chain ops h) (\<lambda>_.
     bindM (index_set ops (index_page rid) (slot rid) 0) (\<lambda>_. store_catalog ops cat'))"
  shows "(\<exists>t ps' cps' L. body s = Some (Inr (), t) \<and> dirty t \<noteq> [] \<and> stores ops media good t ps' cat' cps' (Ls[i := L]) (delete_db db i rid)) \<or>
    room s ps < chunks (encode_catalog cat') \<and> (\<exists>t. body s = Some (Inl OutOfSpace, t) \<and> pager_ok ops media good t)"
proof -
  note t = stores_table[OF st i]
  note parts = stores_parts[OF st]
  let ?L = "Ls ! i" and ?v = "content media s" and ?U = "used s ps"
  let ?ips = "index_pages ?L"
  have il: "i < length Ls" using i t(2) by simp
  have U: "?U = set (cps @ pages_of ?L @ other_pages i Ls)" and dist: "distinct (cps @ pages_of ?L @ other_pages i Ls)"
    using parts(5,6) all_pages_split[OF il, of cps] by simp_all
  have tab: "linked ?v (data_head (cat ! i)) ?ips" "\<forall>p \<in> set ?ips. rd_u64 (?v p) 8 \<le> IDX_CAP"
    "index_slots ?v ?ips = live_slots ?L" "list_all2 (row_stored ?v) (row_slots ?L) (rel_rows (db ! i))"
    using t(1) by (simp_all add: table_stored_def)
  obtain A B RA RB where sp: "row_slots ?L = A @ (rid, h, qs0) # B" "rel_rows (db ! i) = RA @ (rid, old) # RB"
    "list_all2 (row_stored ?v) A RA" "list_all2 (row_stored ?v) B RB" "row_stored ?v (rid, h, qs0) (rid, old)"
    "rid \<notin> fst ` set A" "rid \<notin> fst ` set B" "rid \<notin> fst ` set RA" "rid \<notin> fst ` set RB"
    by (rule table_row_split[OF st i r mem])
  let ?CA = "row_chains (?L\<lparr>row_slots := A\<rparr>)" and ?CB = "row_chains (?L\<lparr>row_slots := B\<rparr>)"
  have chains: "row_chains ?L = ?CA @ qs0 @ ?CB" by (rule chains_split[OF sp(1)])
  have q0: "set qs0 \<subseteq> ?U" "set qs0 \<inter> set ?ips = {}" "distinct qs0" "set qs0 \<inter> set cps = {}"
    using U dist by (auto simp: pages_of_def chains)
  have lk: "linked ?v h qs0" using sp(5) by (simp add: row_stored_def blob_def)
  from free_chain_ok[OF parts(1,2) lk q0(3,1)] obtain s1 where
    1: "free_chain ops h s = Some (Inr (), s1)" "pager_ok ops media good s1" "alloc_ok media s1 (rev qs0 @ ps)"
      "used s1 (rev qs0 @ ps) = ?U - set qs0" "\<forall>q. q \<notin> set qs0 \<longrightarrow> content media s1 q = ?v q"
      "catalog_head (sb s1) = catalog_head (sb s)" "total_pages (sb s1) = total_pages (sb s)" by blast
  have ipsU: "set ?ips \<subseteq> ?U" using U by (auto simp: pages_of_def)
  have vi: "content media s1 p = ?v p" if "p \<in> set ?ips" for p using 1(5) q0(2) that by blast
  have lk1: "linked (content media s1) (data_head (cat ! i)) ?ips" using tab(1) linked_cong[OF vi] by simp
  have caps1: "\<forall>p \<in> set ?ips. rd_u64 (content media s1 p) 8 \<le> IDX_CAP" using tab(2) vi by simp
  have sl1: "index_slots (content media s1) ?ips = live_slots ?L" using tab(3) index_slots_cong[OF vi] by simp
  have dips: "distinct ?ips" using dist by (simp add: pages_of_def)
  have ips1: "set ?ips \<subseteq> used s1 (rev qs0 @ ps)" unfolding 1(4) using ipsU q0(2) by blast
  have "(rid, h) \<in> set (live_slots ?L)" using mem by (force simp: live_slots_def)
  then have mem1: "(rid, h) \<in> set (index_slots (content media s1) ?ips)" by (simp add: sl1)
  have z: "(0::nat) < 2 ^ 64" by simp
  from index_set_ok[OF 1(2,3) lk1 dips ips1 caps1 mem1 z] obtain s2 where
    2: "index_set ops (index_page rid) (slot rid) 0 s1 = Some (Inr (), s2)" "pager_ok ops media good s2" "alloc_ok media s2 (rev qs0 @ ps)"
      "used s2 (rev qs0 @ ps) = used s1 (rev qs0 @ ps)" "linked (content media s2) (data_head (cat ! i)) ?ips"
      "\<forall>p \<in> set ?ips. rd_u64 (content media s2 p) 8 \<le> IDX_CAP"
      "index_slots (content media s2) ?ips = set_slot rid 0 (index_slots (content media s1) ?ips)"
      "\<forall>p. p \<notin> set ?ips \<longrightarrow> content media s2 p = content media s1 p" "catalog_head (sb s2) = catalog_head (sb s1)"
      "total_pages (sb s2) = total_pages (sb s1)"
    by blast
  let ?L' = "?L\<lparr>row_slots := A @ [] @ B\<rparr>"
  have v2: "?v p = content media s2 p" if "p \<in> ?U" "p \<notin> set ?ips" "p \<notin> set qs0" for p using 2(8) 1(5) that by simp
  have inA: "p \<in> set ?CA \<union> set ?CB" if "sl \<in> set A \<union> set B" "p \<in> set (snd (snd sl))" for sl p
    using that by (auto simp: row_chains_def)
  have tab': "table_stored (content media s2) ((cat ! i)\<lparr>row_count := length (RA @ [] @ RB)\<rparr>) ?L' ((db ! i)\<lparr>rel_rows := RA @ [] @ RB\<rparr>)"
  proof (rule table_replaced[OF t(1) sp(1-4,6,7), where x = 0])
    show "?v p = content media s2 p" if "p \<in> set (schema_pages ?L)" for p
      using that U dist by (intro v2) (auto simp: pages_of_def chains)
    show "?v p = content media s2 p" if "sl \<in> set A \<union> set B" "p \<in> set (snd (snd sl))" for sl p
      using inA[OF that] U dist by (intro v2) (auto simp: pages_of_def chains)
    show "index_slots (content media s2) ?ips = set_slot rid 0 (live_slots ?L)" using 2(7) sl1 by simp
    show "length (RA @ [] @ RB) < 2 ^ 64" using stores_sizes(1,3)[OF st] i sp(2) by fastforce
  qed (use 2(5,6) in simp_all)
  have cnt: "(cat ! i)\<lparr>row_count := length (RA @ [] @ RB)\<rparr> = (cat ! i)\<lparr>row_count := row_count (cat ! i) - 1\<rparr>"
    using t(1) sp(2) by (simp add: table_stored_def)
  have del: "delete_db db i rid = db[i := (db ! i)\<lparr>rel_rows := RA @ [] @ RB\<rparr>]"
  proof -
    have "filter (\<lambda>ir. fst ir \<noteq> rid) xs = xs" if "rid \<notin> fst ` set xs" for xs :: "(row_id \<times> row) list"
      using that by (auto simp: filter_id_conv)
    then show ?thesis using sp(8,9) by (simp add: delete_db_def with_rows_def sp(2))
  qed
  have tabs: "tables_stored (content media s2) cat' (Ls[i := ?L']) (delete_db db i rid)"
    unfolding cat'_def del
  proof (rule tables_stored_update[OF parts(3) i _ tab'[unfolded cnt]])
    fix p assume "p \<in> set (other_pages i Ls)"
    then show "?v p = content media s2 p" using U dist by (intro v2) (auto simp: pages_of_def chains)
  qed
  have pg: "set (pages_of ?L') = set (pages_of ?L) - set qs0"
    using dist by (auto simp: pages_of_def chains) (auto simp: row_chains_def)
  have us: "set (all_pages cps (Ls[i := ?L'])) = used s2 (rev qs0 @ ps)"
    unfolding all_pages_update(2)[OF il] set_append pg 2(4) 1(4) U using dist by (auto simp: pages_of_def chains)
  have d': "distinct (all_pages cps (Ls[i := ?L']))"
  proof -
    have "row_chains ?L' = ?CA @ ?CB" by (simp add: row_chains_def)
    then show ?thesis
      unfolding all_pages_update(1)[OF il] using dist U by (auto simp: pages_of_def chains)
  qed
  have old: "linked (content media s2) (catalog_head (sb s2)) cps"
  proof -
    have "?v p = content media s2 p" if "p \<in> set cps" for p
      using that U dist q0(4) by (intro v2) (auto simp: pages_of_def)
    then have "linked ?v (catalog_head (sb s)) cps = linked (content media s2) (catalog_head (sb s)) cps" by (rule linked_cong)
    then show ?thesis using parts(4) 2(9) 1(6) by simp
  qed
  have run: "body s = store_catalog ops cat' s2" using 1(1) 2(1) by (simp add: body_def run_simps)
  have "card (used s2 (rev qs0 @ ps)) \<le> card (used s ps)" using 2(4) 1(4) by (intro card_mono) (auto simp: finite_used)
  then have room: "room s ps \<le> room s2 (rev qs0 @ ps)" using 2(10) 1(7) by (simp add: room_def)
  from catalog_finish[OF 2(2,3) tabs old d' us] run room show ?thesis by auto
qed

end

section \<open>Creating a table\<close>

definition create_db :: "database \<Rightarrow> string \<Rightarrow> database" where
  "create_db db name = db @ [\<lparr>rel_name = name, rel_schema = new_table name, rel_rows = []\<rparr>]"

text \<open>The same for a table with any schema.\<close>

definition seed_db :: "database \<Rightarrow> string \<Rightarrow> table \<Rightarrow> database" where
  "seed_db db name t = db @ [\<lparr>rel_name = name, rel_schema = t, rel_rows = []\<rparr>]"

lemma empty_chain_slots:
  assumes "blob v h qs []" "length qs = 1" "\<forall>q \<in> set qs. length (v q) = PAGE"
  shows "\<exists>q. qs = [q] \<and> rd_u64 (v q) 8 = 0"
proof -
  from assms(2) obtain q where q: "qs = [q]" by (metis One_nat_def length_0_conv length_Suc_conv)
  have "rd_u64 (v q) 8 \<le> CHAIN_CAP" "chunk_of (v q) = []" using assms(1) q by (auto simp: blob_def chain_bytes_def)
  then have "rd_u64 (v q) 8 = 0" using assms(3) q by (auto simp: chunk_of_def CHAIN_CAP_val CHAIN_HDR_def PAGE_val slice_def)
  then show ?thesis using q by blast
qed

lemma tables_stored_append:
  assumes "tables_stored v cat Ls db" "table_stored v e L r"
  shows "tables_stored v (cat @ [e]) (Ls @ [L]) (db @ [r])"
  using assms by (auto simp: tables_stored_def nth_append less_Suc_eq)

context block_device
begin

lemma seed_body:
  assumes st: "stores ops media good s ps cat cps Ls db" and name: "rust_str name" and wf: "wf_table t"
  defines "cat' \<equiv> \<lambda>sh dh. cat @ [\<lparr>cat_name = name, schema_head = sh, data_head = dh, row_count = 0\<rparr>]"
  defines "body \<equiv> bindM (write_chain ops (encode_table t)) (\<lambda>sh.
     bindM (write_chain ops []) (\<lambda>dh. store_catalog ops (cat' sh dh)))"
  shows "(\<exists>sh dh u ps' cps' L. body s = Some (Inr (), u) \<and> dirty u \<noteq> [] \<and>
      stores ops media good u ps' (cat' sh dh) cps' (Ls @ [L]) (seed_db db name t) \<and> sh < 2 ^ 64 \<and> dh < 2 ^ 64 \<and>
      room s ps \<le> room u ps' + (chunks (encode_table t) + 1 + chunks (encode_catalog (cat' sh dh)))) \<or>
    (\<exists>sh dh. sh < 2 ^ 64 \<and> dh < 2 ^ 64 \<and> room s ps < chunks (encode_table t) + 1 + chunks (encode_catalog (cat' sh dh))) \<and>
      (\<exists>u. body s = Some (Inl OutOfSpace, u) \<and> pager_ok ops media good u)"
proof -
  note parts = stores_parts[OF st]
  let ?bs = "encode_table t" and ?v = "content media s" and ?U = "used s ps"
  have lens: "length cat = length db" "length Ls = length db" using stores_lens[OF st] by simp_all
  show ?thesis
  proof (cases "chunks ?bs \<le> room s ps")
    case False
    then have r: "room s ps < chunks ?bs" by simp
    from write_chain_full[OF parts(1,2) r] r show ?thesis by (intro disjI2 conjI exI[of _ 0]) (auto simp: body_def run_simps)
  next
    case True
    from write_chain_ok[OF parts(1,2) True] obtain sh s1 ps1 qs where
      1: "write_chain ops ?bs s = Some (Inr sh, s1)" "pager_ok ops media good s1" "alloc_ok media s1 ps1"
        "blob (content media s1) sh qs ?bs" "sh \<noteq> 0" "distinct qs" "\<forall>q \<in> set qs. data_page s q \<and> q \<notin> ?U"
        "used s1 ps1 = ?U \<union> set qs" "\<forall>q. q \<notin> set qs \<longrightarrow> content media s1 q = ?v q"
        "catalog_head (sb s1) = catalog_head (sb s)" "total_pages (sb s1) = total_pages (sb s)" "length qs = chunks ?bs" by blast
    have "sh \<in> set qs" using 1(4,5) linked_nonzero by (force simp: blob_def)
    then have sh: "sh < 2 ^ 64" using 1(7) parts(1) by (auto simp: data_page_def pager_ok_def sb_ok_def)
    have disj1: "set qs \<inter> ?U = {}" using 1(7) by blast
    have room1: "room s1 ps1 = room s ps - chunks ?bs" using room_after[OF 1(8) disj1 1(6,11)] 1(12) by simp
    show ?thesis
    proof (cases "chunks [] \<le> room s1 ps1")
      case False
      then have r: "room s1 ps1 < chunks []" by simp
      from write_chain_full[OF 1(2,3) r] r 1(1) room1 show ?thesis by (intro disjI2 conjI exI[of _ 0]) (auto simp: body_def run_simps chunks_def)
    next
      case True
      from write_chain_ok[OF 1(2,3) True] obtain dh s2 ps2 xs where
        2: "write_chain ops [] s1 = Some (Inr dh, s2)" "pager_ok ops media good s2" "alloc_ok media s2 ps2"
          "blob (content media s2) dh xs []" "dh \<noteq> 0" "distinct xs" "\<forall>q \<in> set xs. data_page s1 q \<and> q \<notin> used s1 ps1"
          "used s2 ps2 = used s1 ps1 \<union> set xs" "\<forall>q. q \<notin> set xs \<longrightarrow> content media s2 q = content media s1 q"
          "catalog_head (sb s2) = catalog_head (sb s1)" "total_pages (sb s2) = total_pages (sb s1)" "length xs = 1"
        by (auto simp: chunks_def)
      have "dh \<in> set xs" using 2(4,5) linked_nonzero by (force simp: blob_def)
      then have dh: "dh < 2 ^ 64" using 2(7) 1(2) by (auto simp: data_page_def pager_ok_def sb_ok_def)
      have disj2: "set xs \<inter> used s1 ps1 = {}" using 2(7) by blast
      have room2: "room s2 ps2 = room s ps - chunks ?bs - 1" using room_after[OF 2(8) disj2 2(6,11)] 2(12) room1 by simp
      have "data_page s2 q" if "q \<in> set xs" for q using 2(7,11) that by (simp add: data_page_def)
      then have "\<forall>q \<in> set xs. length (content media s2 q) = PAGE" using length_content[OF 2(2)] by blast
      from empty_chain_slots[OF 2(4,12) this] obtain q where q: "xs = [q]" "rd_u64 (content media s2 q) 8 = 0" by blast
      let ?L = "\<lparr>schema_pages = qs, index_pages = xs, row_slots = []\<rparr>"
      let ?e = "\<lparr>cat_name = name, schema_head = sh, data_head = dh, row_count = 0\<rparr>"
      let ?r = "\<lparr>rel_name = name, rel_schema = t, rel_rows = []\<rparr>"
      have vq: "content media s2 p = content media s1 p" if "p \<in> set qs" for p using that 2(9) disj2 1(8) by auto
      have v2: "content media s2 p = ?v p" if p: "p \<in> ?U" for p
      proof -
        have "p \<notin> set xs" "p \<notin> set qs" using p disj1 disj2 1(8) by blast+
        then show ?thesis using 2(9) 1(9) by simp
      qed
      have tab: "table_stored (content media s2) ?e ?L ?r"
        using wf 1(4,5) 2(4) q sh dh name blob_cong[OF vq]
        by (simp add: table_stored_def wf_cat_def blob_def live_slots_def index_slots_def page_slots_def)
      have P: "p \<in> ?U" if "p \<in> set (concat (map pages_of Ls)) \<or> p \<in> set cps" for p
        using that parts(6) by (auto simp: all_pages_def)
      have tabs: "tables_stored (content media s2) (cat' sh dh) (Ls @ [?L]) (seed_db db name t)"
        unfolding cat'_def seed_db_def
      proof (rule tables_stored_append[OF tables_stored_cong[OF parts(3)] tab])
        fix p assume "p \<in> set (concat (map pages_of Ls))"
        then show "?v p = content media s2 p" using v2 P by metis
      qed
      have old: "linked (content media s2) (catalog_head (sb s2)) cps"
      proof -
        have "content media s2 p = ?v p" if "p \<in> set cps" for p using v2 P that by blast
        then have "linked (content media s2) (catalog_head (sb s)) cps = linked ?v (catalog_head (sb s)) cps" by (rule linked_cong)
        then show ?thesis using parts(4) 1(10) 2(10) by simp
      qed
      have all: "all_pages cps (Ls @ [?L]) = all_pages cps Ls @ qs @ xs" by (simp add: all_pages_def pages_of_def row_chains_def)
      have d: "distinct (all_pages cps (Ls @ [?L]))"
        unfolding all distinct_append set_append parts(6) using parts(5) 1(6,8) 2(6) disj1 disj2 by auto
      have us: "set (all_pages cps (Ls @ [?L])) = used s2 ps2" unfolding all set_append parts(6) 2(8) 1(8) by blast
      have run: "body s = store_catalog ops (cat' sh dh) s2" using 1(1) 2(1) by (simp add: body_def run_simps)
      from catalog_finish[OF 2(2,3) tabs old d us] show ?thesis
      proof (elim disjE exE conjE)
        fix u assume "room s2 ps2 < chunks (encode_catalog (cat' sh dh))"
          "store_catalog ops (cat' sh dh) s2 = Some (Inl OutOfSpace, u)" "pager_ok ops media good u"
        then show ?thesis using run room2 sh dh by (intro disjI2 conjI exI[of _ sh] exI[of _ dh] exI[of _ u]) auto
      next
        fix u ps' cps' assume "store_catalog ops (cat' sh dh) s2 = Some (Inr (), u)" "dirty u \<noteq> []"
          "stores ops media good u ps' (cat' sh dh) cps' (Ls @ [?L]) (seed_db db name t)" "room s2 ps2 \<le> room u ps' + chunks (encode_catalog (cat' sh dh))"
        moreover from this(4) have "room s ps \<le> room u ps' + (chunks ?bs + 1 + chunks (encode_catalog (cat' sh dh)))" using room2 by simp
        ultimately show ?thesis using sh dh unfolding run by blast
      qed
    qed
  qed
qed

lemma create_body:
  assumes st: "stores ops media good s ps cat cps Ls db" and name: "rust_str name"
  defines "cat' \<equiv> \<lambda>sh dh. cat @ [\<lparr>cat_name = name, schema_head = sh, data_head = dh, row_count = 0\<rparr>]"
  defines "body \<equiv> bindM (write_chain ops (encode_table (new_table name))) (\<lambda>sh.
     bindM (write_chain ops []) (\<lambda>dh. store_catalog ops (cat' sh dh)))"
  shows "(\<exists>sh dh t ps' cps' L. body s = Some (Inr (), t) \<and> dirty t \<noteq> [] \<and>
      stores ops media good t ps' (cat' sh dh) cps' (Ls @ [L]) (create_db db name) \<and> sh < 2 ^ 64 \<and> dh < 2 ^ 64 \<and>
      room s ps \<le> room t ps' + (chunks (encode_table (new_table name)) + 1 + chunks (encode_catalog (cat' sh dh)))) \<or>
    (\<exists>sh dh. sh < 2 ^ 64 \<and> dh < 2 ^ 64 \<and> room s ps < chunks (encode_table (new_table name)) + 1 + chunks (encode_catalog (cat' sh dh))) \<and>
      (\<exists>t. body s = Some (Inl OutOfSpace, t) \<and> pager_ok ops media good t)"
proof -
  have "wf_table (new_table name)" using name by (simp add: wf_table_def new_table_def)
  from seed_body[OF st name this] show ?thesis by (simp add: body_def cat'_def seed_db_def create_db_def)
qed

end

end
