(* ===== verification/Store_Ops.thy ===== *)
theory Store_Ops
  imports Store_Rows
begin

text \<open>
  The operations of the store refine operations on databases: what \<^verbatim>\<open>insert\<close>, \<^verbatim>\<open>update\<close>,
  \<^verbatim>\<open>delete\<close> and \<^verbatim>\<open>create_table\<close> return and do is stated on the database that the volume represents.
\<close>

section \<open>Reading, then writing\<close>

text \<open>\<open>reaches ops media good s m n\<close>: with any sound cache, \<open>m\<close> runs like \<open>n\<close> from \<open>s\<close> with some sound cache.\<close>

definition reaches :: "'d block_ops \<Rightarrow> ('d \<Rightarrow> disk) \<Rightarrow> ('d \<Rightarrow> bool) \<Rightarrow> 'd store \<Rightarrow> ('d store, 'a) act \<Rightarrow> ('d store, 'a) act \<Rightarrow> bool" where
  "reaches ops media good s m n \<longleftrightarrow> (\<forall>c. pager_ok ops media good (s\<lparr>cache := c\<rparr>) \<longrightarrow>
     (\<exists>c'. m (s\<lparr>cache := c\<rparr>) = n (s\<lparr>cache := c'\<rparr>) \<and> pager_ok ops media good (s\<lparr>cache := c'\<rparr>)))"

lemma reaches_refl: "reaches ops media good s m m"
  by (auto simp: reaches_def)

lemma reaches_bind:
  assumes "computes ops media good s m (Inr x)" "reaches ops media good s (k x) n"
  shows "reaches ops media good s (bindM m k) n"
  unfolding reaches_def
proof (intro allI impI)
  fix c assume "pager_ok ops media good (s\<lparr>cache := c\<rparr>)"
  with assms(1) obtain c1 where 1: "m (s\<lparr>cache := c\<rparr>) = Some (Inr x, s\<lparr>cache := c1\<rparr>)"
    "pager_ok ops media good (s\<lparr>cache := c1\<rparr>)" unfolding computes_def by blast
  with assms(2) obtain c2 where "k x (s\<lparr>cache := c1\<rparr>) = n (s\<lparr>cache := c2\<rparr>)" "pager_ok ops media good (s\<lparr>cache := c2\<rparr>)"
    unfolding reaches_def by blast
  then show "\<exists>c'. bindM m k (s\<lparr>cache := c\<rparr>) = n (s\<lparr>cache := c'\<rparr>) \<and> pager_ok ops media good (s\<lparr>cache := c'\<rparr>)"
    using 1 by (intro exI[of _ c2]) (simp add: bindM_Inr)
qed

lemma reachesD:
  assumes "reaches ops media good s m n" "pager_ok ops media good s"
  obtains c where "m s = n (s\<lparr>cache := c\<rparr>)" "pager_ok ops media good (s\<lparr>cache := c\<rparr>)"
  using assms unfolding reaches_def by (metis pager.surjective pager.update_convs(4))

context block_device
begin

lemma reaches_with_table:
  assumes st: "stores ops media good s ps cat cps Ls db" and i: "find_table db name = Inr i"
    and k: "reaches ops media good s (k cat i (rel_schema (db ! i))) n"
  shows "reaches ops media good s (with_table ops name k) n"
proof -
  have b: "i < length db" using find_table_bound[OF i] by simp
  show ?thesis unfolding with_table_def
    by (rule reaches_bind[OF computes_catalog[OF st]], unfold computes_find[OF st] i, rule reaches_bind[OF computes_basic(3)],
        rule reaches_bind[OF computes_schema[OF st b]], rule k)
qed

lemma computes_no_table:
  assumes st: "stores ops media good s ps cat cps Ls db" and i: "find_table db name = Inl e"
  shows "computes ops media good s (with_table ops name k) (Inl e)"
  unfolding with_table_def
  by (rule computes_bind[OF computes_catalog[OF st]], unfold computes_find[OF st] i, rule computes_bind_err[OF computes_basic(3)])

lemma tx_refuses:
  assumes rep: "represents ops media good s db" and c: "computes ops media good s m (Inl e)"
  shows "\<exists>s'. tx ops m s = Some (Inl e, s') \<and> represents ops media good s' db \<and> dev s' = dev s"
proof -
  have ok: "pager_ok ops media good s" using rep by (auto simp: represents_def stores_def)
  from c ok obtain c where c: "m s = Some (Inl e, s\<lparr>cache := c\<rparr>)" "pager_ok ops media good (s\<lparr>cache := c\<rparr>)" by (rule computesD)
  have f: "dev (s\<lparr>cache := c\<rparr>) = dev s" "total_pages (sb (s\<lparr>cache := c\<rparr>)) = total_pages (sb s)" by simp_all
  from represents_rolled_back[OF rep c(2) f, of e] show ?thesis using c(1) by (auto simp: tx_def)
qed

lemma tx_writes:
  assumes rep: "represents ops media good s db" and m: "reaches ops media good s m body" and kp: "kp.keeps_disk m"
    and gen: "generation (sb s) + 1 < 2 ^ 64"
    and body: "\<And>c. pager_ok ops media good (s\<lparr>cache := c\<rparr>) \<Longrightarrow>
      (\<exists>x t ps' cat' cps' Ls'. body (s\<lparr>cache := c\<rparr>) = Some (Inr x, t) \<and> P x \<and> dirty t \<noteq> [] \<and> stores ops media good t ps' cat' cps' Ls' (db' x)) \<or>
      (\<exists>t. body (s\<lparr>cache := c\<rparr>) = Some (Inl OutOfSpace, t) \<and> pager_ok ops media good t)"
  shows "\<exists>r s'. tx ops m s = Some (r, s') \<and>
    (live (dev s') \<longrightarrow> (\<exists>x. r = Inr x \<and> P x \<and> represents ops media good s' (db' x)) \<or> r = Inl OutOfSpace \<and> represents ops media good s' db) \<and>
    (recoverable ops media good (dev s') db \<or> (\<exists>x. P x \<and> recoverable ops media good (dev s') (db' x)))"
proof -
  have ok: "pager_ok ops media good s" using rep by (auto simp: represents_def stores_def)
  have co: "coherent ops media good s" using ok by (auto simp: coherent_def pager_ok_def)
  from m ok obtain c where c: "m s = body (s\<lparr>cache := c\<rparr>)" "pager_ok ops media good (s\<lparr>cache := c\<rparr>)" by (rule reachesD)
  from body[OF c(2)] show ?thesis
  proof (elim disjE exE conjE)
    fix x t ps' cat' cps' Ls' assume t: "body (s\<lparr>cache := c\<rparr>) = Some (Inr x, t)" "P x" "dirty t \<noteq> []" "stores ops media good t ps' cat' cps' Ls' (db' x)"
    have run: "m s = Some (Inr x, t)" using c(1) t(1) by simp
    from tx_succeeds[where f = m and db' = "db' x", OF rep run kp.keeps_diskD[OF kp co run] t(3,4) gen] show ?thesis using t(2) by blast
  next
    fix t assume t: "body (s\<lparr>cache := c\<rparr>) = Some (Inl OutOfSpace, t)" "pager_ok ops media good t"
    have run: "m s = Some (Inl OutOfSpace, t)" using c(1) t(1) by simp
    have k: "kept ops media good s t" by (rule kp.keeps_diskD[OF kp co run])
    then have "dev t = dev s" "total_pages (sb t) = total_pages (sb s)" by (simp_all add: kept_def)
    from represents_rolled_back[OF rep t(2) this, of OutOfSpace] obtain s' where
      "abort ops OutOfSpace t = Some (Inl OutOfSpace :: 'a result, s')" "represents ops media good s' db" "dev s' = dev s" by blast
    then show ?thesis using run represents_recoverable[OF rep] by (auto simp: tx_def)
  qed
qed

end

section \<open>The restrict rule\<close>

lemma eachR_map: "eachR (map f xs) g = eachR xs (\<lambda>x. g (f x))"
  by (induction xs) simp_all

lemma eachR_enumerate: "eachR (enumerate 0 xs) (\<lambda>(j, e). g j) = eachR [0..<length xs] g"
proof -
  have "[0..<length xs] = map fst (enumerate 0 xs)" by simp
  then show ?thesis by (simp only: eachR_map case_prod_unfold)
qed

lemma resize_fit: "length r = n \<Longrightarrow> resize n r = r"
  by (simp add: resize_def)

lemma fk_columns:
  assumes c: "consistent db" and j: "j < length db" and fk: "fk \<in> set (fks (rel_schema (db ! j)))"
    and i: "find_table db name = Inr i" and name: "to_table fk = name"
  obtains fi tc where "column_index (rel_schema (db ! j)) (from_col fk) = Some fi" "column_index (rel_schema (db ! i)) (to_col fk) = Some tc"
proof -
  from consistentD(4)[OF c j fk] obtain fi k tc where
    "column_index (rel_schema (db ! j)) (from_col fk) = Some fi" "fk_target db fk = Some (k, tc)" using fk_heldE by metis
  then show thesis using that i name by (auto simp: fk_target_Some)
qed

context block_device
begin

lemma computes_refuse:
  assumes st: "stores ops media good s ps cat cps Ls db" and j: "j < length db"
  shows "computes ops media good s (refuse_references ops cat i rid j fci key fk) (refuse_ok db i rid j fci key fk)"
proof -
  have "computes ops media good s (forM (live_slots (Ls ! j)) (\<lambda>(r, rh).
      if j = i \<and> r = rid then returnM () else bindM (read_row ops rh) (\<lambda>orow.
        if cell_at orow fci = Some key then failM (ForeignKeyViolation (fk_name fk)) else returnM ())))
      (refuse_ok db i rid j fci key fk)"
    unfolding live_slots_def refuse_ok_def
    by (rule computes_rows(1)[OF computes_slots[OF st j]]) (auto intro!: computes_bind comp)
  then show ?thesis
    unfolding refuse_references_def by (rule computes_bind[OF computes_live[OF st j]])
qed

lemma computes_each_fk:
  assumes st: "stores ops media good s ps cat cps Ls db"
    and f: "\<And>j fk. j < length db \<Longrightarrow> fk \<in> set (fks (rel_schema (db ! j))) \<Longrightarrow>
      computes ops media good s (f j (rel_schema (db ! j)) fk) (restrict_fk db i rid old new j fk)"
  shows "computes ops media good s (forM (enumerate 0 cat) (\<lambda>(j, e).
    bindM (schema_of ops e) (\<lambda>ot. forM (fks ot) (\<lambda>fk. f j ot fk)))) (restrict_ok db i rid old new)"
proof -
  have len: "length cat = length db" using stores_lens[OF st] by simp
  have "computes ops media good s (forM (enumerate 0 cat) (\<lambda>(j, e).
      bindM (schema_of ops e) (\<lambda>ot. forM (fks ot) (\<lambda>fk. f j ot fk))))
      (eachR (enumerate 0 cat) (\<lambda>(j, e). eachR (fks (rel_schema (db ! j))) (restrict_fk db i rid old new j)))"
  proof (rule computes_forM)
    fix x assume "x \<in> set (enumerate 0 cat)"
    moreover obtain j e where "x = (j, e)" by (cases x)
    ultimately have x: "x = (j, cat ! j)" "j < length db" using len by (simp_all add: in_set_enumerate_eq)
    have "computes ops media good s (forM (fks (rel_schema (db ! j))) (f j (rel_schema (db ! j))))
        (eachR (fks (rel_schema (db ! j))) (restrict_fk db i rid old new j))"
      by (rule computes_forM) (rule f[OF x(2)])
    then have "computes ops media good s (bindM (schema_of ops (cat ! j)) (\<lambda>ot. forM (fks ot) (\<lambda>fk. f j ot fk)))
        (eachR (fks (rel_schema (db ! j))) (restrict_fk db i rid old new j))"
      by (intro computes_bind[OF computes_schema[OF st x(2)]]) simp
    then show "computes ops media good s (case x of (j, e) \<Rightarrow> bindM (schema_of ops e) (\<lambda>ot. forM (fks ot) (\<lambda>fk. f j ot fk)))
        (case x of (j, e) \<Rightarrow> eachR (fks (rel_schema (db ! j))) (restrict_fk db i rid old new j))"
      by (simp add: x(1))
  qed
  then show ?thesis by (simp only: eachR_enumerate restrict_ok_def len)
qed

end

section \<open>What the operations check\<close>

definition insert_check :: "database \<Rightarrow> string \<Rightarrow> row \<Rightarrow> nat result" where
  "insert_check db name cells =
     bindR (find_table db name) (\<lambda>i. bindR (valid_row db i cells None) (\<lambda>_. Inr i))"

definition update_check :: "database \<Rightarrow> nat \<Rightarrow> row_id \<Rightarrow> row \<Rightarrow> row \<Rightarrow> unit result" where
  "update_check db i rid old cells = bindR (valid_row db i cells (Some rid)) (\<lambda>_. restrict_ok db i rid old cells)"

lemma insert_check_bound: "insert_check db name cells = Inr i \<Longrightarrow> i < length db"
  using find_table_bound[of db name i] by (auto simp: insert_check_def bindR_def split: sum.splits)

section \<open>Insert\<close>

context block_device
begin

lemma insert_prefix:
  assumes st: "stores ops media good s ps cat cps Ls db"
  obtains m where "insert_row ops name cells = tx ops m" "kp.keeps_disk m"
    "\<And>e. insert_check db name cells = Inl e \<Longrightarrow> computes ops media good s m (Inl e)"
    "\<And>i. insert_check db name cells = Inr i \<Longrightarrow> reaches ops media good s m (bindM (write_chain ops (encode_row cells)) (\<lambda>head.
        bindM (index_append ops (data_head (cat ! i)) head) (\<lambda>rid.
        bindM (assertM (row_count (cat ! i) + 1 < 2 ^ 64)) (\<lambda>_.
        bindM (store_catalog ops (cat[i := (cat ! i)\<lparr>row_count := row_count (cat ! i) + 1\<rparr>])) (\<lambda>_. returnM rid)))))"
proof
  let ?m = "with_table ops name (\<lambda>cat i t. bindM (validate ops cat i t cells None) (\<lambda>_.
     bindM (write_chain ops (encode_row cells)) (\<lambda>head.
     bindM (index_append ops (data_head (cat ! i)) head) (\<lambda>rid.
     bindM (assertM (row_count (cat ! i) + 1 < 2 ^ 64)) (\<lambda>_.
     bindM (store_catalog ops (cat[i := (cat ! i)\<lparr>row_count := row_count (cat ! i) + 1\<rparr>])) (\<lambda>_.
     returnM rid))))))"
  show "insert_row ops name cells = tx ops ?m" by (simp only: insert_row_def)
  show "kp.keeps_disk ?m" by (intro keeps)
  show "computes ops media good s ?m (Inl e)" if "insert_check db name cells = Inl e" for e
  proof (cases "find_table db name")
    case (Inl e')
    then show ?thesis using that computes_no_table[OF st Inl] by (simp add: insert_check_def bindR_def)
  next
    case (Inr i)
    then have "valid_row db i cells None = Inl e" using that by (simp add: insert_check_def bindR_def split: sum.splits)
    then show ?thesis using computes_validate[OF st, of i cells None] find_table_bound[OF Inr]
      by (intro computes_with_table[OF st Inr] computes_bind_err) simp
  qed
  show "reaches ops media good s ?m (bindM (write_chain ops (encode_row cells)) (\<lambda>head.
        bindM (index_append ops (data_head (cat ! i)) head) (\<lambda>rid.
        bindM (assertM (row_count (cat ! i) + 1 < 2 ^ 64)) (\<lambda>_.
        bindM (store_catalog ops (cat[i := (cat ! i)\<lparr>row_count := row_count (cat ! i) + 1\<rparr>])) (\<lambda>_. returnM rid)))))"
    if c: "insert_check db name cells = Inr i" for i
  proof -
    have t: "find_table db name = Inr i" "valid_row db i cells None = Inr ()"
      using c by (auto simp: insert_check_def bindR_def split: sum.splits)
    have "computes ops media good s (validate ops cat i (rel_schema (db ! i)) cells None) (Inr ())"
      using computes_validate[OF st, of i cells None] find_table_bound[OF t(1)] t(2) by simp
    then show ?thesis by (intro reaches_with_table[OF st t(1)] reaches_bind reaches_refl)
  qed
qed

lemma insert_refines:
  assumes rep: "represents ops media good s db" and wf: "wf_row cells" and gen: "generation (sb s) + 1 < 2 ^ 64"
  shows "case insert_check db name cells of
      Inl e \<Rightarrow> \<exists>s'. insert_row ops name cells s = Some (Inl e, s') \<and> represents ops media good s' db \<and> dev s' = dev s
    | Inr i \<Rightarrow> \<exists>r s'. insert_row ops name cells s = Some (r, s') \<and>
        (live (dev s') \<longrightarrow> (\<exists>rid. r = Inr rid \<and> rid \<notin> fst ` set (rel_rows (db ! i)) \<and> represents ops media good s' (insert_db db i rid cells)) \<or>
           r = Inl OutOfSpace \<and> represents ops media good s' db) \<and>
        (recoverable ops media good (dev s') db \<or>
         (\<exists>rid. rid \<notin> fst ` set (rel_rows (db ! i)) \<and> recoverable ops media good (dev s') (insert_db db i rid cells)))"
proof -
  from rep obtain ps cat cps Ls where st: "stores ops media good s ps cat cps Ls db" by (auto simp: represents_def)
  from insert_prefix[OF st, of name cells] obtain m where op: "insert_row ops name cells = tx ops m" and kp: "kp.keeps_disk m"
    and err: "\<And>e. insert_check db name cells = Inl e \<Longrightarrow> computes ops media good s m (Inl e)"
    and m: "\<And>i. insert_check db name cells = Inr i \<Longrightarrow> reaches ops media good s m (bindM (write_chain ops (encode_row cells)) (\<lambda>head.
        bindM (index_append ops (data_head (cat ! i)) head) (\<lambda>rid.
        bindM (assertM (row_count (cat ! i) + 1 < 2 ^ 64)) (\<lambda>_.
        bindM (store_catalog ops (cat[i := (cat ! i)\<lparr>row_count := row_count (cat ! i) + 1\<rparr>])) (\<lambda>_. returnM rid)))))" by blast
  show ?thesis
  proof (cases "insert_check db name cells")
    case (Inl e)
    from tx_refuses[OF rep err[OF Inl]] show ?thesis by (simp add: op Inl)
  next
    case (Inr i)
    let ?body = "bindM (write_chain ops (encode_row cells)) (\<lambda>head.
      bindM (index_append ops (data_head (cat ! i)) head) (\<lambda>rid.
      bindM (assertM (row_count (cat ! i) + 1 < 2 ^ 64)) (\<lambda>_.
      bindM (store_catalog ops (cat[i := (cat ! i)\<lparr>row_count := row_count (cat ! i) + 1\<rparr>])) (\<lambda>_. returnM rid))))"
    have i: "i < length db" by (rule insert_check_bound[OF Inr])
    have b: "(\<exists>rid t ps' cat' cps' Ls'. ?body (s\<lparr>cache := c\<rparr>) = Some (Inr rid, t) \<and> rid \<notin> fst ` set (rel_rows (db ! i)) \<and>
        dirty t \<noteq> [] \<and> stores ops media good t ps' cat' cps' Ls' (insert_db db i rid cells)) \<or>
        (\<exists>t. ?body (s\<lparr>cache := c\<rparr>) = Some (Inl OutOfSpace, t) \<and> pager_ok ops media good t)"
      if "pager_ok ops media good (s\<lparr>cache := c\<rparr>)" for c
      using insert_body[OF stores_cache[OF st that] i wf] by blast
    from tx_writes[where P = "\<lambda>rid. rid \<notin> fst ` set (rel_rows (db ! i))" and db' = "\<lambda>rid. insert_db db i rid cells", OF rep m[OF Inr] kp gen b]
    show ?thesis by (simp add: op Inr)
  qed
qed

end

section \<open>Update\<close>

context block_device
begin

lemma update_refines:
  assumes rep: "represents ops media good s db" and c: "consistent db" and wf: "wf_row cells" and gen: "generation (sb s) + 1 < 2 ^ 64"
    and tab: "find_table db name = Inr i" and old: "row_at db i rid = Some old"
  shows "case update_check db i rid old cells of
      Inl e \<Rightarrow> \<exists>s'. update_row ops name rid cells s = Some (Inl e, s') \<and> represents ops media good s' db \<and> dev s' = dev s
    | Inr _ \<Rightarrow> \<exists>r s'. update_row ops name rid cells s = Some (r, s') \<and>
        (live (dev s') \<longrightarrow> r = Inr () \<and> represents ops media good s' (update_db db i rid cells) \<or>
           r = Inl OutOfSpace \<and> represents ops media good s' db) \<and>
        (recoverable ops media good (dev s') db \<or> recoverable ops media good (dev s') (update_db db i rid cells))"
proof -
  from rep obtain ps cat cps Ls where st: "stores ops media good s ps cat cps Ls db" by (auto simp: represents_def)
  have i: "i < length db" and name: "rel_name (db ! i) = name" using find_table_bound[OF tab] by simp_all
  let ?t = "rel_schema (db ! i)"
  let ?n = "length (columns ?t)"
  have mem: "(rid, old) \<in> set (rel_rows (db ! i))" using old by (auto simp: row_at_def dest: map_of_SomeD)
  have fit: "resize ?n old = old" using consistentD(2)[OF c i mem] by (intro resize_fit) (simp add: row_fits_def)
  from row_slot[OF st i old] obtain h qs where h: "(rid, h, qs) \<in> set (row_slots (Ls ! i))"
    "computes ops media good s (row_head_at ops rid) (Inr h)" "computes ops media good s (read_row ops h) (Inr old)" by metis
  have dec: "computes ops media good s (decode_row_fitted ops h ?n) (Inr old)"
    unfolding decode_row_fitted_def by (rule computes_bind[OF h(3)]) (simp add: fit comp)
  define refs where "refs cat t i old_row = forM (enumerate 0 cat) (\<lambda>(j, e).
     bindM (schema_of ops e) (\<lambda>ot.
     forM (fks ot) (\<lambda>fk.
       if to_table fk \<noteq> name then returnM ()
       else bindM (unwrapM (column_index t (to_col fk))) (\<lambda>tci.
         case cell_at old_row tci of
           None \<Rightarrow> returnM ()
         | Some old_key \<Rightarrow>
             if cell_at cells tci = Some old_key then returnM ()
             else bindM (unwrapM (column_index ot (from_col fk))) (\<lambda>fci.
               refuse_references ops cat i rid j fci old_key fk)))))" for cat t i old_row
  define m where "m = with_table ops name (\<lambda>cat i t. bindM (validate ops cat i t cells (Some rid)) (\<lambda>_.
     bindM (row_head_at ops rid) (\<lambda>old. bindM (decode_row_fitted ops old (length (columns t))) (\<lambda>old_row.
     bindM (refs cat t i old_row) (\<lambda>_.
     bindM (write_chain ops (encode_row cells)) (\<lambda>new.
     bindM (index_set ops (index_page rid) (slot rid) new) (\<lambda>_. free_chain ops old)))))))"
  have op: "update_row ops name rid cells = tx ops m" by (simp only: update_row_def m_def refs_def)
  have refs: "computes ops media good s (refs cat ?t i old) (restrict_ok db i rid old cells)"
    unfolding refs_def
  proof (rule computes_each_fk[OF st])
    fix j fk assume j: "j < length db" "fk \<in> set (fks (rel_schema (db ! j)))"
    show "computes ops media good s (if to_table fk \<noteq> name then returnM ()
       else bindM (unwrapM (column_index ?t (to_col fk))) (\<lambda>tci.
         case cell_at old tci of None \<Rightarrow> returnM () | Some old_key \<Rightarrow>
           if cell_at cells tci = Some old_key then returnM ()
           else bindM (unwrapM (column_index (rel_schema (db ! j)) (from_col fk))) (\<lambda>fci.
             refuse_references ops cat i rid j fci old_key fk)))
      (restrict_fk db i rid old cells j fk)"
    proof (cases "to_table fk = name")
      case True
      from fk_columns[OF c j tab True] obtain fi tc where
        fc: "column_index (rel_schema (db ! j)) (from_col fk) = Some fi" "column_index ?t (to_col fk) = Some tc" by metis
      show ?thesis
        unfolding restrict_fk_def using True name fc
        by (auto intro!: computes_bind[OF computes_unwrap] comp computes_refuse[OF st j(1)] split: option.split)
    qed (simp add: restrict_fk_def name comp)
  qed
  note val = computes_validate[OF st i, of cells "Some rid"]
  show ?thesis
  proof (cases "valid_row db i cells (Some rid)")
    case (Inl e)
    have "computes ops media good s m (Inl e)"
      unfolding m_def using val Inl by (intro computes_with_table[OF st tab] computes_bind_err) simp
    from tx_refuses[OF rep this] show ?thesis by (simp add: update_check_def bindR_def op Inl)
  next
    case v: (Inr u)
    have val': "computes ops media good s (validate ops cat i ?t cells (Some rid)) (Inr ())" using val v by simp
    show ?thesis
    proof (cases "restrict_ok db i rid old cells")
      case (Inl e)
      have "computes ops media good s m (Inl e)"
        unfolding m_def using refs Inl
        by (intro computes_with_table[OF st tab] computes_bind[OF val'] computes_bind[OF h(2)] computes_bind[OF dec] computes_bind_err) simp
      from tx_refuses[OF rep this] show ?thesis by (simp add: update_check_def bindR_def op v Inl)
    next
      case r: (Inr u')
      let ?body = "bindM (write_chain ops (encode_row cells)) (\<lambda>new.
        bindM (index_set ops (index_page rid) (slot rid) new) (\<lambda>_. free_chain ops h))"
      have refs': "computes ops media good s (refs cat ?t i old) (Inr ())" using refs r by simp
      have m: "reaches ops media good s m ?body"
        unfolding m_def
        by (intro reaches_with_table[OF st tab] reaches_bind[OF val'] reaches_bind[OF h(2)] reaches_bind[OF dec]
            reaches_bind[OF refs'] reaches_refl)
      have b: "(\<exists>x t ps' cat' cps' Ls'. ?body (s\<lparr>cache := c\<rparr>) = Some (Inr x, t) \<and> True \<and>
          dirty t \<noteq> [] \<and> stores ops media good t ps' cat' cps' Ls' (update_db db i rid cells)) \<or>
          (\<exists>t. ?body (s\<lparr>cache := c\<rparr>) = Some (Inl OutOfSpace, t) \<and> pager_ok ops media good t)"
        if "pager_ok ops media good (s\<lparr>cache := c\<rparr>)" for c
        using update_body[OF stores_cache[OF st that] i wf old h(1)] by blast
      have kp: "kp.keeps_disk m" unfolding m_def refs_def refuse_references_def by (intro keeps)
      have "update_check db i rid old cells = Inr ()" by (simp add: update_check_def bindR_def r v)
      with tx_writes[where P = "\<lambda>_. True" and db' = "\<lambda>_. update_db db i rid cells", OF rep m kp gen b]
      show ?thesis by (simp add: op)
    qed
  qed
qed

end

section \<open>Delete\<close>

context block_device
begin

lemma delete_prefix:
  assumes st: "stores ops media good s ps cat cps Ls db" and c: "consistent db"
    and tab: "find_table db name = Inr i" and old: "row_at db i rid = Some old"
  defines "cat' \<equiv> cat[i := (cat ! i)\<lparr>row_count := row_count (cat ! i) - 1\<rparr>]"
  obtains m h qs where "delete_row ops name rid = tx ops m" "kp.keeps_disk m" "(rid, h, qs) \<in> set (row_slots (Ls ! i))"
    "\<And>e. restrict_ok db i rid old [] = Inl e \<Longrightarrow> computes ops media good s m (Inl e)"
    "restrict_ok db i rid old [] = Inr () \<Longrightarrow> reaches ops media good s m (bindM (free_chain ops h) (\<lambda>_.
       bindM (index_set ops (index_page rid) (slot rid) 0) (\<lambda>_. store_catalog ops cat')))"
proof -
  have i: "i < length db" and name: "rel_name (db ! i) = name" using find_table_bound[OF tab] by simp_all
  let ?t = "rel_schema (db ! i)"
  let ?n = "length (columns ?t)"
  have mem: "(rid, old) \<in> set (rel_rows (db ! i))" using old by (auto simp: row_at_def dest: map_of_SomeD)
  have fit: "resize ?n old = old" using consistentD(2)[OF c i mem] by (intro resize_fit) (simp add: row_fits_def)
  from row_slot[OF st i old] obtain h qs where h: "(rid, h, qs) \<in> set (row_slots (Ls ! i))"
    "computes ops media good s (row_head_at ops rid) (Inr h)" "computes ops media good s (read_row ops h) (Inr old)" by metis
  have dec: "computes ops media good s (decode_row_fitted ops h ?n) (Inr old)"
    unfolding decode_row_fitted_def by (rule computes_bind[OF h(3)]) (simp add: fit comp)
  define refs where "refs cat t i r = forM (enumerate 0 cat) (\<lambda>(j, e).
     bindM (schema_of ops e) (\<lambda>ot.
     forM (fks ot) (\<lambda>fk.
       if to_table fk \<noteq> name then returnM ()
       else bindM (unwrapM (column_index t (to_col fk))) (\<lambda>tci.
         case cell_at r tci of
           None \<Rightarrow> returnM ()
         | Some key \<Rightarrow>
             bindM (unwrapM (column_index ot (from_col fk))) (\<lambda>fci.
             refuse_references ops cat i rid j fci key fk)))))" for cat t i r
  define m where "m = with_table ops name (\<lambda>cat i t.
     bindM (row_head_at ops rid) (\<lambda>head. bindM (decode_row_fitted ops head (length (columns t))) (\<lambda>r.
     bindM (refs cat t i r) (\<lambda>_.
     bindM (free_chain ops head) (\<lambda>_.
     bindM (index_set ops (index_page rid) (slot rid) 0) (\<lambda>_.
     store_catalog ops (cat[i := (cat ! i)\<lparr>row_count := row_count (cat ! i) - 1\<rparr>])))))))"
  have op: "delete_row ops name rid = tx ops m" by (simp only: delete_row_def m_def refs_def)
  have refs: "computes ops media good s (refs cat ?t i old) (restrict_ok db i rid old [])"
    unfolding refs_def
  proof (rule computes_each_fk[OF st])
    fix j fk assume j: "j < length db" "fk \<in> set (fks (rel_schema (db ! j)))"
    show "computes ops media good s (if to_table fk \<noteq> name then returnM ()
       else bindM (unwrapM (column_index ?t (to_col fk))) (\<lambda>tci.
         case cell_at old tci of None \<Rightarrow> returnM () | Some key \<Rightarrow>
           bindM (unwrapM (column_index (rel_schema (db ! j)) (from_col fk))) (\<lambda>fci.
             refuse_references ops cat i rid j fci key fk)))
      (restrict_fk db i rid old [] j fk)"
    proof (cases "to_table fk = name")
      case True
      from fk_columns[OF c j tab True] obtain fi tc where
        fc: "column_index (rel_schema (db ! j)) (from_col fk) = Some fi" "column_index ?t (to_col fk) = Some tc" by metis
      have "cell_at [] tc = None" by (simp add: cell_at_def)
      then show ?thesis
        unfolding restrict_fk_def using True name fc
        by (auto intro!: computes_bind[OF computes_unwrap] comp computes_refuse[OF st j(1)] split: option.split)
    qed (simp add: restrict_fk_def name comp)
  qed
  show thesis
  proof (rule that[OF op _ h(1)])
    show "kp.keeps_disk m" unfolding m_def refs_def refuse_references_def by (intro keeps)
    show "computes ops media good s m (Inl e)" if "restrict_ok db i rid old [] = Inl e" for e
      unfolding m_def using refs that
      by (intro computes_with_table[OF st tab] computes_bind[OF h(2)] computes_bind[OF dec] computes_bind_err) simp
    show "reaches ops media good s m (bindM (free_chain ops h) (\<lambda>_.
       bindM (index_set ops (index_page rid) (slot rid) 0) (\<lambda>_. store_catalog ops cat')))"
      if "restrict_ok db i rid old [] = Inr ()"
    proof -
      have refs': "computes ops media good s (refs cat ?t i old) (Inr ())" using refs that by simp
      show ?thesis unfolding m_def cat'_def
        by (intro reaches_with_table[OF st tab] reaches_bind[OF h(2)] reaches_bind[OF dec] reaches_bind[OF refs'] reaches_refl)
    qed
  qed
qed

lemma delete_refines:
  assumes rep: "represents ops media good s db" and c: "consistent db" and gen: "generation (sb s) + 1 < 2 ^ 64"
    and tab: "find_table db name = Inr i" and old: "row_at db i rid = Some old"
  shows "case restrict_ok db i rid old [] of
      Inl e \<Rightarrow> \<exists>s'. delete_row ops name rid s = Some (Inl e, s') \<and> represents ops media good s' db \<and> dev s' = dev s
    | Inr _ \<Rightarrow> \<exists>r s'. delete_row ops name rid s = Some (r, s') \<and>
        (live (dev s') \<longrightarrow> r = Inr () \<and> represents ops media good s' (delete_db db i rid) \<or>
           r = Inl OutOfSpace \<and> represents ops media good s' db) \<and>
        (recoverable ops media good (dev s') db \<or> recoverable ops media good (dev s') (delete_db db i rid))"
proof -
  from rep obtain ps cat cps Ls where st: "stores ops media good s ps cat cps Ls db" by (auto simp: represents_def)
  have i: "i < length db" using find_table_bound[OF tab] by simp
  from delete_prefix[OF st c tab old] obtain m h qs where op: "delete_row ops name rid = tx ops m" and kp: "kp.keeps_disk m"
    and h: "(rid, h, qs) \<in> set (row_slots (Ls ! i))"
    and err: "\<And>e. restrict_ok db i rid old [] = Inl e \<Longrightarrow> computes ops media good s m (Inl e)"
    and m: "restrict_ok db i rid old [] = Inr () \<Longrightarrow> reaches ops media good s m (bindM (free_chain ops h) (\<lambda>_.
       bindM (index_set ops (index_page rid) (slot rid) 0) (\<lambda>_.
       store_catalog ops (cat[i := (cat ! i)\<lparr>row_count := row_count (cat ! i) - 1\<rparr>]))))" by metis
  show ?thesis
  proof (cases "restrict_ok db i rid old []")
    case (Inl e)
    from tx_refuses[OF rep err[OF Inl]] show ?thesis by (simp add: op Inl)
  next
    case r: (Inr u')
    have b: "(\<exists>x t ps' cat' cps' Ls'. bindM (free_chain ops h) (\<lambda>_. bindM (index_set ops (index_page rid) (slot rid) 0) (\<lambda>_.
        store_catalog ops (cat[i := (cat ! i)\<lparr>row_count := row_count (cat ! i) - 1\<rparr>]))) (s\<lparr>cache := c\<rparr>) = Some (Inr x, t) \<and> True \<and>
        dirty t \<noteq> [] \<and> stores ops media good t ps' cat' cps' Ls' (delete_db db i rid)) \<or>
        (\<exists>t. bindM (free_chain ops h) (\<lambda>_. bindM (index_set ops (index_page rid) (slot rid) 0) (\<lambda>_.
        store_catalog ops (cat[i := (cat ! i)\<lparr>row_count := row_count (cat ! i) - 1\<rparr>]))) (s\<lparr>cache := c\<rparr>) = Some (Inl OutOfSpace, t) \<and>
        pager_ok ops media good t)"
      if "pager_ok ops media good (s\<lparr>cache := c\<rparr>)" for c
      using delete_body[OF stores_cache[OF st that] i old h] by blast
    from tx_writes[where P = "\<lambda>_. True" and db' = "\<lambda>_. delete_db db i rid", OF rep m kp gen b]
    show ?thesis using r by (simp add: op)
  qed
qed

end

section \<open>Creating a table\<close>

definition create_check :: "database \<Rightarrow> string \<Rightarrow> unit result" where
  "create_check db name =
     (if name = [] then Inl (SchemaRejected ''table name is empty'')
      else if name \<in> rel_name ` set db then Inl (Duplicate (''table '' @ quoted name)) else Inr ())"

context block_device
begin

lemma cat_names: "stores ops media good s ps cat cps Ls db \<Longrightarrow> (\<exists>e \<in> set cat. cat_name e = name) \<longleftrightarrow> name \<in> rel_name ` set db"
proof -
  assume st: "stores ops media good s ps cat cps Ls db"
  have len: "length cat = length db" using stores_lens[OF st] by simp
  have "cat_name (cat ! i) = rel_name (db ! i)" if "i < length db" for i
    using stores_table(1)[OF st that] by (simp add: table_stored_def)
  then have "map cat_name cat = map rel_name db" using len by (intro nth_equalityI) simp_all
  then have "cat_name ` set cat = rel_name ` set db" by (metis list.set_map)
  moreover have "(\<exists>e \<in> set cat. cat_name e = name) \<longleftrightarrow> name \<in> cat_name ` set cat" by (auto simp: image_iff)
  ultimately show ?thesis by simp
qed

lemma create_prefix:
  assumes st: "stores ops media good s ps cat cps Ls db" and ne: "name \<noteq> []"
  obtains m where "create_table ops name = tx ops m" "kp.keeps_disk m"
    "name \<in> rel_name ` set db \<Longrightarrow> computes ops media good s m (Inl (Duplicate (''table '' @ quoted name)))"
    "name \<notin> rel_name ` set db \<Longrightarrow> reaches ops media good s m (bindM (write_chain ops (encode_table (new_table name))) (\<lambda>sh.
      bindM (write_chain ops []) (\<lambda>dh.
      store_catalog ops (cat @ [\<lparr>cat_name = name, schema_head = sh, data_head = dh, row_count = 0\<rparr>]))))"
proof
  let ?m = "bindM (load_catalog ops) (\<lambda>cat.
     if \<exists>e \<in> set cat. cat_name e = name then failM (Duplicate (''table '' @ quoted name))
     else
       bindM (write_chain ops (encode_table (new_table name))) (\<lambda>sh.
       bindM (write_chain ops []) (\<lambda>dh.
       store_catalog ops (cat @ [\<lparr>cat_name = name, schema_head = sh, data_head = dh, row_count = 0\<rparr>]))))"
  show "create_table ops name = tx ops ?m" using ne by (simp add: create_table_def)
  show "kp.keeps_disk ?m" by (intro keeps)
  show "computes ops media good s ?m (Inl (Duplicate (''table '' @ quoted name)))" if "name \<in> rel_name ` set db"
    using cat_names[OF st, of name] that by (intro computes_bind[OF computes_catalog[OF st]]) (simp add: comp)
  show "reaches ops media good s ?m (bindM (write_chain ops (encode_table (new_table name))) (\<lambda>sh.
      bindM (write_chain ops []) (\<lambda>dh.
      store_catalog ops (cat @ [\<lparr>cat_name = name, schema_head = sh, data_head = dh, row_count = 0\<rparr>]))))" if "name \<notin> rel_name ` set db"
    using cat_names[OF st, of name] that by (intro reaches_bind[OF computes_catalog[OF st]]) (simp add: reaches_refl)
qed

lemma create_refines:
  assumes rep: "represents ops media good s db" and name: "rust_str name" and gen: "generation (sb s) + 1 < 2 ^ 64"
  shows "case create_check db name of
      Inl e \<Rightarrow> \<exists>s'. create_table ops name s = Some (Inl e, s') \<and> represents ops media good s' db \<and> dev s' = dev s
    | Inr _ \<Rightarrow> \<exists>r s'. create_table ops name s = Some (r, s') \<and>
        (live (dev s') \<longrightarrow> r = Inr () \<and> represents ops media good s' (create_db db name) \<or>
           r = Inl OutOfSpace \<and> represents ops media good s' db) \<and>
        (recoverable ops media good (dev s') db \<or> recoverable ops media good (dev s') (create_db db name))"
proof (cases "name = []")
  case True
  then show ?thesis using rep by (simp add: create_check_def create_table_def)
next
  case ne: False
  from rep obtain ps cat cps Ls where st: "stores ops media good s ps cat cps Ls db" by (auto simp: represents_def)
  from create_prefix[OF st ne] obtain m where op: "create_table ops name = tx ops m" and kp: "kp.keeps_disk m"
    and err: "name \<in> rel_name ` set db \<Longrightarrow> computes ops media good s m (Inl (Duplicate (''table '' @ quoted name)))"
    and m: "name \<notin> rel_name ` set db \<Longrightarrow> reaches ops media good s m (bindM (write_chain ops (encode_table (new_table name))) (\<lambda>sh.
      bindM (write_chain ops []) (\<lambda>dh.
      store_catalog ops (cat @ [\<lparr>cat_name = name, schema_head = sh, data_head = dh, row_count = 0\<rparr>]))))" by blast
  show ?thesis
  proof (cases "name \<in> rel_name ` set db")
    case True
    from tx_refuses[OF rep err[OF True]] show ?thesis using ne True by (simp add: create_check_def op)
  next
    case new: False
    let ?body = "bindM (write_chain ops (encode_table (new_table name))) (\<lambda>sh.
      bindM (write_chain ops []) (\<lambda>dh.
      store_catalog ops (cat @ [\<lparr>cat_name = name, schema_head = sh, data_head = dh, row_count = 0\<rparr>])))"
    have b: "(\<exists>x t ps' cat' cps' Ls'. ?body (s\<lparr>cache := c\<rparr>) = Some (Inr x, t) \<and> True \<and>
        dirty t \<noteq> [] \<and> stores ops media good t ps' cat' cps' Ls' (create_db db name)) \<or>
        (\<exists>t. ?body (s\<lparr>cache := c\<rparr>) = Some (Inl OutOfSpace, t) \<and> pager_ok ops media good t)"
      if "pager_ok ops media good (s\<lparr>cache := c\<rparr>)" for c
      using create_body[OF stores_cache[OF st that] name] by blast
    from tx_writes[where P = "\<lambda>_. True" and db' = "\<lambda>_. create_db db name", OF rep m[OF new] kp gen b]
    show ?thesis using ne new by (simp add: create_check_def op)
  qed
qed

end

end
