(* ===== verification/Store_Live.thy ===== *)
theory Store_Live
  imports Store_Ops
begin

text \<open>
  When operations succeed: on a volume with enough free pages, whose data pages fit one batch of the journal, and whose power lasts, a
  table is created and a valid row is inserted.
\<close>

section \<open>How many pages an operation needs\<close>

lemma put_uvarint_length: "v < 128 ^ n \<Longrightarrow> 0 < n \<Longrightarrow> length (put_uvarint [] v) \<le> n"
proof (induction n arbitrary: v)
  case (Suc n)
  show ?case
  proof (cases "v div 128 = 0")
    case False
    then have "0 < n" using Suc.prems(1) by (cases n) auto
    then have "length (put_uvarint [] (v div 128)) \<le> n" using Suc.prems(1) by (intro Suc.IH) (simp_all add: less_mult_imp_div_less)
    then show ?thesis using False by (subst put_uvarint_step) simp
  qed (subst put_uvarint_step, simp)
qed simp

lemma put_uvarint_64: "v < 2 ^ 64 \<Longrightarrow> length (put_uvarint [] v) \<le> 10"
  by (rule put_uvarint_length) simp_all

lemma put_cat_length: "wf_cat e \<Longrightarrow> length (put_cat out e) \<le> length out + length (cat_name e) + 40"
proof -
  assume e: "wf_cat e"
  have "length (cat_name e) < 2 ^ 64" using e by (simp add: wf_cat_def rust_str_def)
  then have "length (put_uvarint [] (length (cat_name e))) + length (put_uvarint [] (schema_head e)) +
      length (put_uvarint [] (data_head e)) + length (put_uvarint [] (row_count e)) \<le> 10 + 10 + 10 + 10"
    using e by (intro add_mono put_uvarint_64) (simp_all add: wf_cat_def)
  moreover have "put_cat out e = out @ put_uvarint [] (length (cat_name e)) @ str_bytes (cat_name e) @ put_uvarint [] (schema_head e) @
      put_uvarint [] (data_head e) @ put_uvarint [] (row_count e)"
    unfolding put_cat_def put_str_def put_bytes_def by (simp add: put_uvarint_app[of "_ @ _"] put_uvarint_app[of out] str_bytes_def)
  ultimately show ?thesis by (simp add: str_bytes_def)
qed

definition catalog_pages :: "string list \<Rightarrow> nat" where
  "catalog_pages names = 1 + (10 + sum_list (map (\<lambda>n. length n + 40) names)) div CHAIN_CAP"

lemma chunks_le: "length bs \<le> n \<Longrightarrow> chunks bs \<le> 1 + n div CHAIN_CAP"
proof -
  assume n: "length bs \<le> n"
  have "(length bs + CHAIN_CAP - 1) div CHAIN_CAP \<le> (n + CHAIN_CAP) div CHAIN_CAP" using n by (intro div_le_mono) simp
  also have "\<dots> = n div CHAIN_CAP + 1" by (simp add: CHAIN_CAP_val)
  finally show ?thesis by (simp add: chunks_max)
qed

lemma catalog_chunks:
  assumes "\<forall>e \<in> set cat. wf_cat e" "length cat < 2 ^ 64"
  shows "chunks (encode_catalog cat) \<le> catalog_pages (map cat_name cat)"
proof -
  have "length (foldl put_cat out cat) \<le> length out + sum_list (map (\<lambda>n. length n + 40) (map cat_name cat))" for out
    using assms(1)
  proof (induction cat arbitrary: out)
    case (Cons e cat)
    have "length (foldl put_cat (put_cat out e) cat) \<le> length (put_cat out e) + sum_list (map (\<lambda>n. length n + 40) (map cat_name cat))"
      using Cons by simp
    then show ?case using put_cat_length[of e out] Cons.prems by simp
  qed simp
  from this[of "put_uvarint [] (length cat)"] put_uvarint_64[OF assms(2)]
  have "length (encode_catalog cat) \<le> 10 + sum_list (map (\<lambda>n. length n + 40) (map cat_name cat))"
    by (simp add: encode_catalog_def put_list_def)
  then show ?thesis unfolding catalog_pages_def by (rule chunks_le)
qed

lemma map_update_same: "i < length xs \<Longrightarrow> f y = f (xs ! i) \<Longrightarrow> map f (xs[i := y]) = map f xs"
  by (simp add: map_update list_update_same_conv)

context block_device
begin

lemma dirty_bound: "pager_ok ops media good t \<Longrightarrow> length (dirty t) \<le> total_pages (sb t) - FIRST_DATA_PAGE"
proof -
  assume ok: "pager_ok ops media good t"
  then have "bt_ok (dirty t)" and sub: "fst ` set (dirty t) \<subseteq> {FIRST_DATA_PAGE..<total_pages (sb t)}"
    by (auto simp: pager_ok_def data_page_def)
  have "length (dirty t) = card (fst ` set (dirty t))"
    using distinct_card[OF bt_ok_distinct[OF \<open>bt_ok (dirty t)\<close>]] by simp
  also have "\<dots> \<le> card {FIRST_DATA_PAGE..<total_pages (sb t)}" by (rule card_mono[OF _ sub]) simp
  finally show ?thesis by simp
qed

text \<open>A transaction whose body cannot fail, on a volume whose data pages fit the journal.\<close>

lemma tx_writes_ok:
  assumes rep: "represents ops media good s db" and m: "reaches ops media good s m body" and kp: "kp.keeps_disk m"
    and gen: "generation (sb s) + 1 < 2 ^ 64" and fits: "total_pages (sb s) - FIRST_DATA_PAGE < JCAP"
    and body: "\<And>c. pager_ok ops media good (s\<lparr>cache := c\<rparr>) \<Longrightarrow>
      \<exists>x t ps' cat' cps' Ls'. body (s\<lparr>cache := c\<rparr>) = Some (Inr x, t) \<and> P x \<and> dirty t \<noteq> [] \<and>
        stores ops media good t ps' cat' cps' Ls' (db' x) \<and> n \<le> room t ps'"
  shows "\<exists>r s'. tx ops m s = Some (r, s') \<and> (live (dev s') \<longrightarrow> (\<exists>x. r = Inr x \<and> P x \<and> represents ops media good s' (db' x)) \<and>
    (\<exists>ps. alloc_ok media s' ps \<and> n \<le> room s' ps) \<and> generation (sb s') = generation (sb s) + 1 \<and> total_pages (sb s') = total_pages (sb s))"
proof -
  have ok: "pager_ok ops media good s" using rep by (auto simp: represents_def stores_def)
  have co: "coherent ops media good s" using ok by (auto simp: coherent_def pager_ok_def)
  from m ok obtain c where c: "m s = body (s\<lparr>cache := c\<rparr>)" "pager_ok ops media good (s\<lparr>cache := c\<rparr>)" by (rule reachesD)
  from body[OF c(2)] obtain x t ps' cat' cps' Ls' where
    t: "body (s\<lparr>cache := c\<rparr>) = Some (Inr x, t)" "P x" "dirty t \<noteq> []" "stores ops media good t ps' cat' cps' Ls' (db' x)" "n \<le> room t ps'" by blast
  have run: "m s = Some (Inr x, t)" using c(1) t(1) by simp
  note k = kp.keeps_diskD[OF kp co run]
  have "pager_ok ops media good t" using t(4) by (simp add: stores_def)
  then have "\<not> JCAP \<le> length (dirty t)" using dirty_bound[of t] fits k by (simp add: kept_def)
  with tx_succeeds[where f = m and db' = "db' x", OF rep run k t(3,4) gen] t(2,5) show ?thesis by fastforce
qed

text \<open>The free pages of a volume do not depend on the free list that the specification names.\<close>

lemma linked_unique: "linked v h ps \<Longrightarrow> linked v h qs \<Longrightarrow> ps = qs"
proof (induction ps arbitrary: h qs)
  case Nil
  then show ?case by (cases qs) auto
next
  case (Cons p ps)
  then show ?case by (cases qs) auto
qed

lemma room_of: "alloc_ok media s ps \<Longrightarrow> alloc_ok media s qs \<Longrightarrow> room s ps = room s qs"
  using linked_unique by (metis alloc_ok_def)

lemma names_of_catalog:
  assumes "stores ops media good s ps cat cps Ls db"
  shows "map cat_name cat = map rel_name db" "\<forall>e \<in> set cat. wf_cat e" "length cat < 2 ^ 64"
proof -
  have len: "length cat = length db" using stores_lens[OF assms] by simp
  have e: "cat_name (cat ! i) = rel_name (db ! i) \<and> wf_cat (cat ! i)" if "i < length db" for i
    using stores_table(1)[OF assms that] by (simp add: table_stored_def)
  then show "map cat_name cat = map rel_name db" using len by (intro nth_equalityI) simp_all
  show "\<forall>e \<in> set cat. wf_cat e" using e len by (auto simp: in_set_conv_nth)
  show "length cat < 2 ^ 64" using stores_sizes(1,2)[OF assms] len by simp
qed

lemma insert_live:
  assumes rep: "represents ops media good s db" and wf: "wf_row cells" and gen: "generation (sb s) + 1 < 2 ^ 64"
    and chk: "insert_check db name cells = Inr i" and fits: "total_pages (sb s) - FIRST_DATA_PAGE < JCAP"
    and room: "\<exists>ps. alloc_ok media s ps \<and> n + (chunks (encode_row cells) + 1 + catalog_pages (map rel_name db)) \<le> room s ps"
  shows "\<exists>r s'. insert_row ops name cells s = Some (r, s') \<and> (live (dev s') \<longrightarrow>
    (\<exists>rid. r = Inr rid \<and> rid \<notin> fst ` set (rel_rows (db ! i)) \<and> represents ops media good s' (insert_db db i rid cells)) \<and>
    (\<exists>ps. alloc_ok media s' ps \<and> n \<le> room s' ps) \<and> generation (sb s') = generation (sb s) + 1 \<and> total_pages (sb s') = total_pages (sb s))"
proof -
  from rep obtain ps cat cps Ls where st: "stores ops media good s ps cat cps Ls db" by (auto simp: represents_def)
  from insert_prefix[OF st, of name cells] obtain m where op: "insert_row ops name cells = tx ops m" and kp: "kp.keeps_disk m"
    and err: "\<And>e. insert_check db name cells = Inl e \<Longrightarrow> computes ops media good s m (Inl e)"
    and m: "\<And>i. insert_check db name cells = Inr i \<Longrightarrow> reaches ops media good s m (bindM (write_chain ops (encode_row cells)) (\<lambda>head.
        bindM (index_append ops (data_head (cat ! i)) head) (\<lambda>rid.
        bindM (assertM (row_count (cat ! i) + 1 < 2 ^ 64)) (\<lambda>_.
        bindM (store_catalog ops (cat[i := (cat ! i)\<lparr>row_count := row_count (cat ! i) + 1\<rparr>])) (\<lambda>_. returnM rid)))))" by blast
  have i: "i < length db" by (rule insert_check_bound[OF chk])
  have al: "alloc_ok media s ps" using st by (simp add: stores_def)
  let ?cat' = "cat[i := (cat ! i)\<lparr>row_count := row_count (cat ! i) + 1\<rparr>]"
  have cat': "chunks (encode_catalog ?cat') \<le> catalog_pages (map rel_name db)"
  proof -
    note n = names_of_catalog[OF st]
    have len: "length cat = length db" using stores_lens[OF st] by simp
    have "row_count (cat ! i) + 1 < 2 ^ 64"
      using stores_table(1)[OF st i] stores_sizes(1,3)[OF st] i by (fastforce simp: table_stored_def)
    moreover have "wf_cat (cat ! i)" using n(2) i len by simp
    ultimately have "\<forall>e \<in> set ?cat'. wf_cat e"
      using n(2) set_update_subset_insert[of cat i] by (fastforce simp: wf_cat_def)
    moreover have "map cat_name ?cat' = map rel_name db" using n(1) i len by (subst map_update_same) simp_all
    ultimately show ?thesis using catalog_chunks[of ?cat'] n(3) by simp
  qed
  have rm: "n + (chunks (encode_row cells) + 1 + chunks (encode_catalog ?cat')) \<le> room (s\<lparr>cache := c\<rparr>) ps" for c
    using room room_of[OF al] cat' by (fastforce simp: room_def used_def)
  have b: "\<exists>rid t ps' cat' cps' Ls'. bindM (write_chain ops (encode_row cells)) (\<lambda>head.
        bindM (index_append ops (data_head (cat ! i)) head) (\<lambda>rid.
        bindM (assertM (row_count (cat ! i) + 1 < 2 ^ 64)) (\<lambda>_.
        bindM (store_catalog ops ?cat') (\<lambda>_. returnM rid)))) (s\<lparr>cache := c\<rparr>) = Some (Inr rid, t) \<and>
      rid \<notin> fst ` set (rel_rows (db ! i)) \<and> dirty t \<noteq> [] \<and> stores ops media good t ps' cat' cps' Ls' (insert_db db i rid cells) \<and> n \<le> room t ps'"
    if "pager_ok ops media good (s\<lparr>cache := c\<rparr>)" for c
    using insert_body[OF stores_cache[OF st that] i wf] rm[of c] by (elim disjE exE conjE) (intro exI conjI, assumption+, simp_all)
  from tx_writes_ok[where P = "\<lambda>rid. rid \<notin> fst ` set (rel_rows (db ! i))" and db' = "\<lambda>rid. insert_db db i rid cells",
      OF rep m[OF chk] kp gen fits b] show ?thesis by (simp add: op)
qed

lemma delete_live:
  assumes rep: "represents ops media good s db" and c: "consistent db" and gen: "generation (sb s) + 1 < 2 ^ 64"
    and tab: "find_table db name = Inr i" and old: "row_at db i rid = Some old" and chk: "restrict_ok db i rid old [] = Inr ()"
    and fits: "total_pages (sb s) - FIRST_DATA_PAGE < JCAP"
    and room: "\<exists>ps. alloc_ok media s ps \<and> catalog_pages (map rel_name db) \<le> room s ps"
  shows "\<exists>r s'. delete_row ops name rid s = Some (r, s') \<and>
    (live (dev s') \<longrightarrow> r = Inr () \<and> represents ops media good s' (delete_db db i rid))"
proof -
  from rep obtain ps cat cps Ls where st: "stores ops media good s ps cat cps Ls db" by (auto simp: represents_def)
  have i: "i < length db" using find_table_bound[OF tab] by simp
  let ?cat' = "cat[i := (cat ! i)\<lparr>row_count := row_count (cat ! i) - 1\<rparr>]"
  from delete_prefix[OF st c tab old] obtain m h qs where op: "delete_row ops name rid = tx ops m" and kp: "kp.keeps_disk m"
    and h: "(rid, h, qs) \<in> set (row_slots (Ls ! i))"
    and m: "reaches ops media good s m (bindM (free_chain ops h) (\<lambda>_.
       bindM (index_set ops (index_page rid) (slot rid) 0) (\<lambda>_. store_catalog ops ?cat')))" using chk by metis
  have al: "alloc_ok media s ps" using st by (simp add: stores_def)
  have cat': "chunks (encode_catalog ?cat') \<le> catalog_pages (map rel_name db)"
  proof -
    note n = names_of_catalog[OF st]
    have len: "i < length cat" using stores_lens[OF st] i by simp
    have "wf_cat (cat ! i)" using n(2) len by simp
    then have "\<forall>e \<in> set ?cat'. wf_cat e" using n(2) set_update_subset_insert[of cat i] by (fastforce simp: wf_cat_def)
    moreover have "map cat_name ?cat' = map rel_name db" using n(1) len by (subst map_update_same) simp_all
    ultimately show ?thesis using catalog_chunks[of ?cat'] n(3) by simp
  qed
  have rm: "\<not> room (s\<lparr>cache := c\<rparr>) ps < chunks (encode_catalog ?cat')" for c
    using room room_of[OF al] cat' by (fastforce simp: room_def used_def)
  have b: "\<exists>x t ps' cat' cps' Ls'. bindM (free_chain ops h) (\<lambda>_.
       bindM (index_set ops (index_page rid) (slot rid) 0) (\<lambda>_. store_catalog ops ?cat')) (s\<lparr>cache := c\<rparr>) = Some (Inr x, t) \<and>
      True \<and> dirty t \<noteq> [] \<and> stores ops media good t ps' cat' cps' Ls' (delete_db db i rid) \<and> 0 \<le> room t ps'"
    if "pager_ok ops media good (s\<lparr>cache := c\<rparr>)" for c
    using delete_body[OF stores_cache[OF st that] i old h] rm[of c] le0 by blast
  from tx_writes_ok[where P = "\<lambda>_. True" and db' = "\<lambda>_. delete_db db i rid", OF rep m kp gen fits b] show ?thesis by (simp add: op) blast
qed

lemma seed_live:
  assumes rep: "represents ops media good s db" and st: "stores ops media good s ps cat cps Ls db"
    and name: "rust_str name" and wf: "wf_table sch" and gen: "generation (sb s) + 1 < 2 ^ 64"
    and fits: "total_pages (sb s) - FIRST_DATA_PAGE < JCAP"
    and room: "\<exists>ps. alloc_ok media s ps \<and> n + (chunks (encode_table sch) + 1 + catalog_pages (map rel_name db @ [name])) \<le> room s ps"
    and kp: "kp.keeps_disk m"
    and m: "reaches ops media good s m (bindM (write_chain ops (encode_table sch)) (\<lambda>sh.
      bindM (write_chain ops []) (\<lambda>dh.
      store_catalog ops (cat @ [\<lparr>cat_name = name, schema_head = sh, data_head = dh, row_count = 0\<rparr>]))))"
  shows "\<exists>r s'. tx ops m s = Some (r, s') \<and> (live (dev s') \<longrightarrow> r = Inr () \<and> represents ops media good s' (seed_db db name sch) \<and>
    (\<exists>ps. alloc_ok media s' ps \<and> n \<le> room s' ps) \<and> generation (sb s') = generation (sb s) + 1 \<and> total_pages (sb s') = total_pages (sb s))"
proof -
  have al: "alloc_ok media s ps" using st by (simp add: stores_def)
  let ?cat' = "\<lambda>sh dh. cat @ [\<lparr>cat_name = name, schema_head = sh, data_head = dh, row_count = 0\<rparr>]"
  have cat': "chunks (encode_catalog (?cat' sh dh)) \<le> catalog_pages (map rel_name db @ [name])" if h: "sh < 2 ^ 64" "dh < 2 ^ 64" for sh dh
  proof -
    note n = names_of_catalog[OF st]
    have "length (?cat' sh dh) < 2 ^ 64" using stores_sizes(1,2)[OF st] stores_lens[OF st] by simp
    moreover have "\<forall>e \<in> set (?cat' sh dh). wf_cat e" using n(2) h name by (simp add: wf_cat_def)
    ultimately show ?thesis using catalog_chunks[of "?cat' sh dh"] n(1) by simp
  qed
  have rm: "n + (chunks (encode_table sch) + 1 + chunks (encode_catalog (?cat' sh dh))) \<le> room (s\<lparr>cache := c\<rparr>) ps"
    if "sh < 2 ^ 64" "dh < 2 ^ 64" for sh dh c
    using room room_of[OF al] cat'[OF that] by (fastforce simp: room_def used_def)
  have b: "\<exists>x t ps' cat' cps' Ls'. bindM (write_chain ops (encode_table sch)) (\<lambda>sh.
      bindM (write_chain ops []) (\<lambda>dh. store_catalog ops (?cat' sh dh))) (s\<lparr>cache := c\<rparr>) = Some (Inr x, t) \<and>
      True \<and> dirty t \<noteq> [] \<and> stores ops media good t ps' cat' cps' Ls' (seed_db db name sch) \<and> n \<le> room t ps'"
    if "pager_ok ops media good (s\<lparr>cache := c\<rparr>)" for c
    using seed_body[OF stores_cache[OF st that] name wf]
  proof (elim disjE exE conjE)
    fix sh dh t ps' cps' L assume "sh < 2 ^ 64" "dh < 2 ^ 64" and rest: "bindM (write_chain ops (encode_table sch)) (\<lambda>sh.
        bindM (write_chain ops []) (\<lambda>dh. store_catalog ops (?cat' sh dh))) (s\<lparr>cache := c\<rparr>) = Some (Inr (), t)" "dirty t \<noteq> []"
      "stores ops media good t ps' (?cat' sh dh) cps' (Ls @ [L]) (seed_db db name sch)"
      "room (s\<lparr>cache := c\<rparr>) ps \<le> room t ps' + (chunks (encode_table sch) + 1 + chunks (encode_catalog (?cat' sh dh)))"
    then have "n \<le> room t ps'" using rm[of sh dh c] by simp
    with rest show ?thesis by blast
  next
    fix sh dh assume "sh < 2 ^ 64" "dh < 2 ^ 64"
      "room (s\<lparr>cache := c\<rparr>) ps < chunks (encode_table sch) + 1 + chunks (encode_catalog (?cat' sh dh))"
    then show ?thesis using rm[of sh dh c] by simp
  qed
  from tx_writes_ok[where P = "\<lambda>_. True" and db' = "\<lambda>_. seed_db db name sch", OF rep m kp gen fits b]
  show ?thesis by simp
qed

lemma seed_keeps:
  "kp.keeps_disk (bindM (write_chain ops bs) (\<lambda>sh. bindM (write_chain ops []) (\<lambda>dh. store_catalog ops (cat sh dh))))"
  by (intro keeps)

lemma create_live:
  assumes rep: "represents ops media good s db" and name: "rust_str name" and gen: "generation (sb s) + 1 < 2 ^ 64"
    and chk: "create_check db name = Inr ()" and fits: "total_pages (sb s) - FIRST_DATA_PAGE < JCAP"
    and room: "\<exists>ps. alloc_ok media s ps \<and> n + (chunks (encode_table (new_table name)) + 1 + catalog_pages (map rel_name db @ [name])) \<le> room s ps"
  shows "\<exists>r s'. create_table ops name s = Some (r, s') \<and> (live (dev s') \<longrightarrow> r = Inr () \<and> represents ops media good s' (create_db db name) \<and>
    (\<exists>ps. alloc_ok media s' ps \<and> n \<le> room s' ps) \<and> generation (sb s') = generation (sb s) + 1 \<and> total_pages (sb s') = total_pages (sb s))"
proof -
  from rep obtain ps cat cps Ls where st: "stores ops media good s ps cat cps Ls db" by (auto simp: represents_def)
  have ne: "name \<noteq> []" and new: "name \<notin> rel_name ` set db" using chk by (auto simp: create_check_def split: if_splits)
  from create_prefix[OF st ne] obtain m where op: "create_table ops name = tx ops m" and kp: "kp.keeps_disk m"
    and err: "name \<in> rel_name ` set db \<Longrightarrow> computes ops media good s m (Inl (Duplicate (''table '' @ quoted name)))"
    and m: "name \<notin> rel_name ` set db \<Longrightarrow> reaches ops media good s m (bindM (write_chain ops (encode_table (new_table name))) (\<lambda>sh.
      bindM (write_chain ops []) (\<lambda>dh.
      store_catalog ops (cat @ [\<lparr>cat_name = name, schema_head = sh, data_head = dh, row_count = 0\<rparr>]))))" by blast
  have "wf_table (new_table name)" using name by (simp add: wf_table_def new_table_def)
  from seed_live[OF rep st name this gen fits room kp m[OF new]] show ?thesis
    by (simp add: op seed_db_def create_db_def)
qed

end

section \<open>Power on the RAM disk\<close>

lemma uncut_commit: "uncut (commit mem_ops txid batch)"
  unfolding commit_def write_ctrl_def write_page_def Let_def
  by (intro uncut_bind uncut_forM uncut_branch uncut_basic) (simp add: uncut_def)

text \<open>An action of the pager which keeps the power of a disk that is never cut.\<close>

definition uncut_pager :: "(mem_dev pager, 'a) act \<Rightarrow> bool" where
  "uncut_pager m \<longleftrightarrow> (\<forall>s r s'. m s = Some (r, s') \<and> cut_after (dev s) = None \<longrightarrow>
     cut_after (dev s') = None \<and> powered (dev s') = powered (dev s))"

lemma uncut_pager_bind: "uncut_pager m \<Longrightarrow> (\<And>x. uncut_pager (k x)) \<Longrightarrow> uncut_pager (bindM m k)"
proof -
  assume m: "uncut_pager m" and k: "\<And>x. uncut_pager (k x)"
  show ?thesis
    unfolding uncut_pager_def
  proof (intro allI impI)
    fix s r s' assume run: "bindM m k s = Some (r, s') \<and> cut_after (dev s) = None"
    then consider e where "m s = Some (Inl e, s')" | x s1 where "m s = Some (Inr x, s1)" "k x s1 = Some (r, s')"
      unfolding bindM_eq_Some by blast
    then show "cut_after (dev s') = None \<and> powered (dev s') = powered (dev s)"
    proof cases
      case 1
      then show ?thesis using m run unfolding uncut_pager_def by blast
    next
      case 2
      then have "cut_after (dev s1) = None" "powered (dev s1) = powered (dev s)" using m run unfolding uncut_pager_def by blast+
      then show ?thesis using k 2(2) unfolding uncut_pager_def by metis
    qed
  qed
qed

lemma uncut_pager_basic:
  "uncut_pager (returnM x)" "uncut_pager (assertM b)" "uncut_pager (liftM v)" "uncut_pager (getM f)"
  "(\<And>s. dev (g s) = dev s) \<Longrightarrow> uncut_pager (modifyM g)"
  by (auto simp: uncut_pager_def)

lemma uncut_pager_forM: "(\<And>x. uncut_pager (f x)) \<Longrightarrow> uncut_pager (forM xs f)"
  by (induction xs) (simp_all add: uncut_pager_bind uncut_pager_basic del: run_basic)

lemma uncut_pager_dev: "uncut m \<Longrightarrow> uncut_pager (on_dev m)"
  by (auto simp: uncut_pager_def uncut_def on_dev_def split: option.splits)

lemma uncut_pager_branch:
  "uncut_pager m1 \<Longrightarrow> uncut_pager m2 \<Longrightarrow> uncut_pager (if b then m1 else m2)"
  "(\<And>x y. uncut_pager (m3 x y)) \<Longrightarrow> uncut_pager (case p of (x, y) \<Rightarrow> m3 x y)"
  by (simp_all split: prod.split)

lemma uncut_pager_commit: "uncut_pager (pager_commit mem_ops)"
  unfolding pager_commit_def Let_def
  by (intro uncut_pager_bind uncut_pager_branch uncut_pager_forM uncut_pager_dev uncut_commit uncut_pager_basic) simp

lemma uncut_pager_rollback: "uncut_pager (rollback mem_ops)"
  unfolding rollback_def read_page_def
  by (intro uncut_pager_bind uncut_pager_dev uncut_bind uncut_mapM uncut_basic uncut_pager_basic) simp_all

lemma tx_powered:
  assumes "mem.kp.keeps_disk m" "coherent mem_ops mem_media mem_good s" "tx mem_ops m s = Some (r, s')" "cut_after (dev s) = None"
  shows "cut_after (dev s') = None \<and> powered (dev s') = powered (dev s)"
proof -
  from assms(3) obtain x t where t: "m s = Some (x, t)" by (auto simp: tx_def split: option.splits)
  have d: "dev t = dev s" using mem.kp.keeps_diskD[OF assms(1,2) t] by (simp add: kept_def)
  have ab: "cut_after (dev s2) = None \<and> powered (dev s2) = powered (dev s1)"
    if "abort mem_ops e s1 = Some (r, s2)" "cut_after (dev s1) = None" for e s1 s2
    using uncut_pager_rollback that unfolding uncut_pager_def abort_def by (auto split: option.splits)
  show ?thesis
  proof (cases x)
    case (Inl e)
    then show ?thesis using assms(3,4) t d ab[of e t s'] by (simp add: tx_def)
  next
    case (Inr y)
    then obtain q u where q: "pager_commit mem_ops t = Some (q, u)" using assms(3) t by (auto simp: tx_def split: option.splits)
    then have u: "cut_after (dev u) = None" "powered (dev u) = powered (dev t)"
      using uncut_pager_commit assms(4) d unfolding uncut_pager_def by metis+
    show ?thesis
    proof (cases q)
      case (Inl e)
      then show ?thesis using assms(3) t d q u ab[of e u s'] Inr by (simp add: tx_def)
    next
      case (Inr z)
      then show ?thesis using assms(3) t d q u \<open>x = Inr y\<close> by (simp add: tx_def)
    qed
  qed
qed

text \<open>The assumptions under which operations succeed: the power lasts, the data pages fit the journal, and \<open>n\<close> pages are free.\<close>

definition pages_left :: "mem_dev store \<Rightarrow> nat \<Rightarrow> bool" where
  "pages_left s n \<longleftrightarrow> total_pages (sb s) - FIRST_DATA_PAGE < JCAP \<and> (\<exists>ps. alloc_ok mem_media s ps \<and> n \<le> room s ps)"

definition has_room :: "mem_dev store \<Rightarrow> nat \<Rightarrow> bool" where
  "has_room s n \<longleftrightarrow> powered (dev s) \<and> cut_after (dev s) = None \<and> total_pages (sb s) - FIRST_DATA_PAGE < JCAP \<and>
     (\<exists>ps. alloc_ok mem_media s ps \<and> n \<le> room s ps)"

lemma has_room_pages: "has_room s n \<longleftrightarrow> powered (dev s) \<and> cut_after (dev s) = None \<and> pages_left s n"
  by (simp add: has_room_def pages_left_def)

lemma represents_coherent: "represents mem_ops mem_media mem_good s db \<Longrightarrow> coherent mem_ops mem_media mem_good s"
  by (auto simp: represents_def stores_def coherent_def pager_ok_def)

lemma mem_insert_live:
  assumes rep: "represents mem_ops mem_media mem_good s db" and wf: "wf_row cells" and gen: "generation (sb s) + 1 < 2 ^ 64"
    and chk: "insert_check db name cells = Inr i" and room: "has_room s (n + (chunks (encode_row cells) + 1 + catalog_pages (map rel_name db)))"
  shows "\<exists>rid s'. insert_row mem_ops name cells s = Some (Inr rid, s') \<and> rid \<notin> fst ` set (rel_rows (db ! i)) \<and>
    represents mem_ops mem_media mem_good s' (insert_db db i rid cells) \<and> has_room s' n \<and> generation (sb s') = generation (sb s) + 1"
proof -
  from rep obtain ps cat cps Ls where st: "stores mem_ops mem_media mem_good s ps cat cps Ls db" by (auto simp: represents_def)
  obtain m where m: "insert_row mem_ops name cells = tx mem_ops m" "mem.kp.keeps_disk m"
    using mem.insert_prefix[OF st, of name cells] by metis
  from mem.insert_live[OF rep wf gen chk _ room[unfolded has_room_def, THEN conjunct2, THEN conjunct2, THEN conjunct2]]
    room obtain r s' where i: "insert_row mem_ops name cells s = Some (r, s')" "powered (dev s') \<longrightarrow>
      (\<exists>rid. r = Inr rid \<and> rid \<notin> fst ` set (rel_rows (db ! i)) \<and> represents mem_ops mem_media mem_good s' (insert_db db i rid cells)) \<and>
      (\<exists>ps. alloc_ok mem_media s' ps \<and> n \<le> room s' ps) \<and> generation (sb s') = generation (sb s) + 1 \<and> total_pages (sb s') = total_pages (sb s)"
    unfolding has_room_def by blast
  have "tx mem_ops m s = Some (r, s')" using i(1) m(1) by simp
  from tx_powered[OF m(2) represents_coherent[OF rep] this] room
  have "cut_after (dev s') = None" "powered (dev s')" by (simp_all add: has_room_def)
  with i room show ?thesis by (auto simp: has_room_def)
qed

lemma mem_create_live:
  assumes rep: "represents mem_ops mem_media mem_good s db" and name: "rust_str name" and gen: "generation (sb s) + 1 < 2 ^ 64"
    and chk: "create_check db name = Inr ()"
    and room: "has_room s (n + (chunks (encode_table (new_table name)) + 1 + catalog_pages (map rel_name db @ [name])))"
  shows "\<exists>s'. create_table mem_ops name s = Some (Inr (), s') \<and> represents mem_ops mem_media mem_good s' (create_db db name) \<and>
    has_room s' n \<and> generation (sb s') = generation (sb s) + 1"
proof -
  from rep obtain ps cat cps Ls where st: "stores mem_ops mem_media mem_good s ps cat cps Ls db" by (auto simp: represents_def)
  have ne: "name \<noteq> []" using chk by (auto simp: create_check_def)
  obtain m where m: "create_table mem_ops name = tx mem_ops m" "mem.kp.keeps_disk m"
    using mem.create_prefix[OF st ne] by metis
  from mem.create_live[OF rep name gen chk _ room[unfolded has_room_def, THEN conjunct2, THEN conjunct2, THEN conjunct2]]
    room obtain r s' where i: "create_table mem_ops name s = Some (r, s')" "powered (dev s') \<longrightarrow>
      r = Inr () \<and> represents mem_ops mem_media mem_good s' (create_db db name) \<and>
      (\<exists>ps. alloc_ok mem_media s' ps \<and> n \<le> room s' ps) \<and> generation (sb s') = generation (sb s) + 1 \<and> total_pages (sb s') = total_pages (sb s)"
    unfolding has_room_def by blast
  have "tx mem_ops m s = Some (r, s')" using i(1) m(1) by simp
  from tx_powered[OF m(2) represents_coherent[OF rep] this] room
  have "cut_after (dev s') = None" "powered (dev s')" by (simp_all add: has_room_def)
  with i room show ?thesis by (auto simp: has_room_def)
qed

text \<open>A volume with a further table of any schema.\<close>

lemma mem_seed_live:
  assumes rep: "represents mem_ops mem_media mem_good s db" and name: "rust_str name" and wf: "wf_table sch" and gen: "generation (sb s) + 1 < 2 ^ 64"
    and room: "has_room s (n + (chunks (encode_table sch) + 1 + catalog_pages (map rel_name db @ [name])))"
  shows "\<exists>s'. represents mem_ops mem_media mem_good s' (seed_db db name sch) \<and> has_room s' n \<and> generation (sb s') = generation (sb s) + 1"
proof -
  from rep obtain ps cat cps Ls where st: "stores mem_ops mem_media mem_good s ps cat cps Ls db" by (auto simp: represents_def)
  define m where "m = bindM (write_chain mem_ops (encode_table sch)) (\<lambda>sh. bindM (write_chain mem_ops []) (\<lambda>dh.
      store_catalog mem_ops (cat @ [\<lparr>cat_name = name, schema_head = sh, data_head = dh, row_count = 0\<rparr>])))"
  have kp: "mem.kp.keeps_disk m" unfolding m_def by (rule mem.seed_keeps)
  have m: "reaches mem_ops mem_media mem_good s m (bindM (write_chain mem_ops (encode_table sch)) (\<lambda>sh. bindM (write_chain mem_ops []) (\<lambda>dh.
      store_catalog mem_ops (cat @ [\<lparr>cat_name = name, schema_head = sh, data_head = dh, row_count = 0\<rparr>]))))"
    unfolding m_def by (rule reaches_refl)
  have r: "total_pages (sb s) - FIRST_DATA_PAGE < JCAP"
    "\<exists>ps. alloc_ok mem_media s ps \<and> n + (chunks (encode_table sch) + 1 + catalog_pages (map rel_name db @ [name])) \<le> room s ps"
    using room by (simp_all add: has_room_def)
  from mem.seed_live[OF rep st name wf gen r kp m] obtain r s' where i: "tx mem_ops m s = Some (r, s')" "powered (dev s') \<longrightarrow>
      r = Inr () \<and> represents mem_ops mem_media mem_good s' (seed_db db name sch) \<and>
      (\<exists>ps. alloc_ok mem_media s' ps \<and> n \<le> room s' ps) \<and> generation (sb s') = generation (sb s) + 1 \<and> total_pages (sb s') = total_pages (sb s)"
    by blast
  from tx_powered[OF kp represents_coherent[OF rep] i(1)] room
  have "cut_after (dev s') = None" "powered (dev s')" by (simp_all add: has_room_def)
  with i room show ?thesis by (auto simp: has_room_def)
qed

section \<open>Small volumes\<close>

text \<open>A formatted volume of 2080 pages, of which 31 are data pages; with a table \<open>t\<close> without columns; and with a row in it.\<close>

lemma represents_formatted:
  assumes "pager_ok mem_ops mem_media mem_good pg" "alloc_ok mem_media pg []" "used pg [] = {}" "dirty pg = []" "catalog_head (sb pg) = 0"
    "sb_decode (page_at (mem_media (dev pg)) 0) = Inr (sb pg)"
  shows "represents mem_ops mem_media mem_good pg []"
  unfolding represents_def stores_def db_stored_def
  using assms by (intro conjI exI[of _ "[]"]) (simp_all add: all_pages_def)

lemma format_represents:
  assumes gd: "mem_good d" and run: "format mem_ops d = Some (Inr pg, d')" and pow: "powered d'"
  shows "dev pg = d'" "represents mem_ops mem_media mem_good pg []" "alloc_ok mem_media pg []" "used pg [] = {}"
    "total_pages (sb pg) = sectors d div PAGE_SECTORS"
proof -
  have sc: "sector_count mem_ops d0 = sectors d0" for d0 by (simp add: mem_ops_def)
  have big: "FIRST_DATA_PAGE + 1 < sectors d div PAGE_SECTORS"
    using mem.format_small[of d] run by (cases "FIRST_DATA_PAGE + 1 < sectors d div PAGE_SECTORS") (simp_all add: sc)
  from mem.format_ok[OF gd, unfolded sc, OF big] run pow have
    f: "dev pg = d'" "pager_ok mem_ops mem_media mem_good pg" "alloc_ok mem_media pg []" "used pg [] = {}" "dirty pg = []"
      "catalog_head (sb pg) = 0" "page_at (mem_media d') 0 = sb_encode (sb pg)" "total_pages (sb pg) = sectors d div PAGE_SECTORS" by auto
  have "sb_ok (sb pg)" using f(2) unfolding pager_ok_def by blast
  then have "sb_decode (page_at (mem_media (dev pg)) 0) = Inr (sb pg)" using f(1,7) by (simp only: sb_roundtrip)
  then show "dev pg = d'" "represents mem_ops mem_media mem_good pg []" "alloc_ok mem_media pg []" "used pg [] = {}"
    "total_pages (sb pg) = sectors d div PAGE_SECTORS"
    using represents_formatted[OF f(2-6)] f by simp_all
qed

lemma empty_volume:
  "\<exists>d pg. mem_good d \<and> format mem_ops d = Some (Inr pg, dev pg) \<and> represents mem_ops mem_media mem_good pg [] \<and> has_room pg 31 \<and>
     generation (sb pg) = 1"
proof -
  let ?d = "blank_disk 16640 None"
  have gd: "mem_good ?d" and sc: "sectors ?d = 16640" using blank_good by (simp_all add: blank_disk_def)
  have "FIRST_DATA_PAGE + 1 < sector_count mem_ops ?d div PAGE_SECTORS" by (simp add: mem_ops_def sc layout_vals)
  from mem.format_ok[OF gd this] obtain r d' where f: "format mem_ops ?d = Some (r, d')"
    and lv: "powered d' \<longrightarrow> (\<exists>pg. r = Inr pg)" by blast
  have on: "cut_after d' = None \<and> powered d'"
    using uncut_format f unfolding uncut_def by (fastforce simp: blank_disk_def)
  with lv obtain pg where pg: "format mem_ops ?d = Some (Inr pg, d')" using f by blast
  note r = format_represents[OF gd pg on[THEN conjunct2]]
  have "has_room pg 31"
    unfolding has_room_def using on r by (intro conjI exI[of _ "[]"]) (simp_all add: room_def sc layout_vals)
  moreover have "generation (sb pg) = 1"
    using pg by (auto simp: format_def Let_def bindM_eq_Some split: if_splits)
  ultimately show ?thesis using gd pg r by blast
qed

abbreviation table_t :: "(row_id \<times> row) list \<Rightarrow> rel" where
  "table_t rows \<equiv> \<lparr>rel_name = ''t'', rel_schema = new_table ''t'', rel_rows = rows\<rparr>"

lemma table_volume:
  "\<exists>s. represents mem_ops mem_media mem_good s [table_t []] \<and> has_room s 26 \<and> generation (sb s) = 2"
proof -
  from empty_volume obtain s where s: "represents mem_ops mem_media mem_good s []" "has_room s 31" "generation (sb s) = 1" by blast
  have "chunks (encode_table (new_table ''t'')) + 1 + catalog_pages (map rel_name [] @ [''t'']) \<le> 5"
    by code_simp
  then have "has_room s (26 + (chunks (encode_table (new_table ''t'')) + 1 + catalog_pages (map rel_name [] @ [''t''])))"
    using s(2) by (auto simp: has_room_def)
  from mem_create_live[OF s(1) _ _ _ this] s(3) show ?thesis
    by (auto simp: create_check_def create_db_def rust_str_def)
qed

lemma row_volume:
  "\<exists>s rid. represents mem_ops mem_media mem_good s [table_t [(rid, [])]] \<and> has_room s 21 \<and> generation (sb s) = 3"
proof -
  from table_volume obtain s where s: "represents mem_ops mem_media mem_good s [table_t []]" "has_room s 26" "generation (sb s) = 2" by blast
  have "chunks (encode_row []) + 1 + catalog_pages (map rel_name [table_t []]) \<le> 5" by code_simp
  then have "has_room s (21 + (chunks (encode_row []) + 1 + catalog_pages (map rel_name [table_t []])))"
    using s(2) by (auto simp: has_room_def)
  from mem_insert_live[OF s(1) _ _ _ this, of "''t''" 0] s(3) show ?thesis
    by (auto simp: insert_check_def insert_db_def with_rows_def find_table_def ok_or_def bindR_def valid_row_def new_table_def wf_row_def)
qed

end
