(* ===== verification/Store_Alter.thy ===== *)
theory Store_Alter
  imports Store_Live
begin

text \<open>
  The schema operations, from the database to the volume: rewriting the rows of a table, replacing its schema, and giving back all
  pages of a table.
\<close>

section \<open>A volume whose catalog is out of date\<close>

text \<open>
  While schemas are replaced, the tables are stored as the catalog in memory says, and the old catalog still occupies its pages.
\<close>

definition uncatalogued :: "'d block_ops \<Rightarrow> ('d \<Rightarrow> disk) \<Rightarrow> ('d \<Rightarrow> bool) \<Rightarrow> 'd store \<Rightarrow> nat list \<Rightarrow> cat_entry list \<Rightarrow> nat list \<Rightarrow>
    layout list \<Rightarrow> database \<Rightarrow> bool" where
  "uncatalogued ops media good s ps cat cps Ls db \<longleftrightarrow> pager_ok ops media good s \<and> alloc_ok media s ps \<and>
     tables_stored (content media s) cat Ls db \<and> linked (content media s) (catalog_head (sb s)) cps \<and>
     distinct (all_pages cps Ls) \<and> set (all_pages cps Ls) = used s ps"

lemma stagedD:
  assumes "uncatalogued ops media good s ps cat cps Ls db"
  shows "pager_ok ops media good s" "alloc_ok media s ps" "tables_stored (content media s) cat Ls db"
    "linked (content media s) (catalog_head (sb s)) cps" "distinct (all_pages cps Ls)" "set (all_pages cps Ls) = used s ps"
  using assms by (simp_all add: uncatalogued_def)

lemma staged_table:
  "uncatalogued ops media good s ps cat cps Ls db \<Longrightarrow> i < length db \<Longrightarrow> table_stored (content media s) (cat ! i) (Ls ! i) (db ! i) \<and> i < length Ls \<and> i < length cat"
  by (simp add: uncatalogued_def tables_stored_def)

definition with_schema :: "database \<Rightarrow> nat \<Rightarrow> table \<Rightarrow> database" where
  "with_schema db i t = db[i := (db ! i)\<lparr>rel_schema := t\<rparr>]"

context block_device
begin

lemma stores_staged: "stores ops media good s ps cat cps Ls db \<Longrightarrow> uncatalogued ops media good s ps cat cps Ls db"
  using stores_parts by (simp add: uncatalogued_def)

lemma staged_finish:
  assumes "uncatalogued ops media good s ps cat cps Ls db"
  shows "(\<exists>t ps' cps'. store_catalog ops cat s = Some (Inr (), t) \<and> stores ops media good t ps' cat cps' Ls db \<and> dirty t \<noteq> []) \<or>
    (\<exists>t. store_catalog ops cat s = Some (Inl OutOfSpace, t) \<and> pager_ok ops media good t)"
  using catalog_finish[OF stagedD[OF assms]] by blast

text \<open>A new schema: written to a new chain, the old chain given back.\<close>

lemma schema_step:
  assumes sg: "uncatalogued ops media good s ps cat cps Ls db" and i: "i < length db" and wf: "wf_table t"
  defines "cat' \<equiv> \<lambda>sh. cat[i := (cat ! i)\<lparr>schema_head := sh\<rparr>]"
  shows "(\<exists>sh s1 s2 ps' L. write_chain ops (encode_table t) s = Some (Inr sh, s1) \<and>
      free_chain ops (schema_head (cat ! i)) s1 = Some (Inr (), s2) \<and>
      uncatalogued ops media good s2 ps' (cat' sh) cps (Ls[i := L]) (with_schema db i t)) \<or>
    (\<exists>s1. write_chain ops (encode_table t) s = Some (Inl OutOfSpace, s1) \<and> pager_ok ops media good s1)"
proof -
  note p = stagedD[OF sg]
  let ?L = "Ls ! i" and ?v = "content media s" and ?U = "used s ps" and ?bs = "encode_table t"
  have tb: "table_stored ?v (cat ! i) ?L (db ! i)" and il: "i < length Ls" "i < length cat" using staged_table[OF sg i] by simp_all
  have U: "?U = set (cps @ pages_of ?L @ other_pages i Ls)" and dist: "distinct (cps @ pages_of ?L @ other_pages i Ls)"
    using p(5,6) all_pages_split[OF il(1), of cps] by simp_all
  let ?sp = "schema_pages ?L"
  show ?thesis
  proof (cases "chunks ?bs \<le> room s ps")
    case False
    then have r: "room s ps < chunks ?bs" by simp
    from write_chain_full[OF p(1,2) r] show ?thesis by blast
  next
    case True
    from write_chain_ok[OF p(1,2) True] obtain sh s1 ps1 qs where
      1: "write_chain ops ?bs s = Some (Inr sh, s1)" "pager_ok ops media good s1" "alloc_ok media s1 ps1"
        "blob (content media s1) sh qs ?bs" "sh \<noteq> 0" "distinct qs" "\<forall>q \<in> set qs. data_page s q \<and> q \<notin> ?U"
        "used s1 ps1 = ?U \<union> set qs" "\<forall>q. q \<notin> set qs \<longrightarrow> content media s1 q = ?v q"
        "catalog_head (sb s1) = catalog_head (sb s)" by blast
    have "sh \<in> set qs" using 1(4,5) linked_nonzero by (force simp: blob_def)
    then have sh: "sh < 2 ^ 64" using 1(7) p(1) by (auto simp: data_page_def pager_ok_def sb_ok_def)
    have disj: "set qs \<inter> ?U = {}" using 1(7) by blast
    have spU: "set ?sp \<subseteq> ?U" "distinct ?sp" using U dist by (auto simp: pages_of_def)
    have v1: "content media s1 q = ?v q" if "q \<in> ?U" for q using 1(9) disj that by auto
    have vs: "content media s1 q = ?v q" if "q \<in> set ?sp" for q using v1 spU that by blast
    have lk: "linked (content media s1) (schema_head (cat ! i)) ?sp"
      using tb linked_cong[OF vs] by (simp add: table_stored_def blob_def)
    have sub: "set ?sp \<subseteq> used s1 ps1" using spU(1) 1(8) by blast
    from free_chain_ok[OF 1(2,3) lk spU(2) sub] obtain s2 where
      2: "free_chain ops (schema_head (cat ! i)) s1 = Some (Inr (), s2)" "pager_ok ops media good s2" "alloc_ok media s2 (rev ?sp @ ps1)"
        "used s2 (rev ?sp @ ps1) = used s1 ps1 - set ?sp" "\<forall>q. q \<notin> set ?sp \<longrightarrow> content media s2 q = content media s1 q"
        "catalog_head (sb s2) = catalog_head (sb s1)" by blast
    let ?L' = "?L\<lparr>schema_pages := qs\<rparr>"
    have v2: "?v q = content media s2 q" if "q \<in> ?U" "q \<notin> set ?sp" for q using 2(5) v1 that by simp
    have vq: "content media s2 q = content media s1 q" if "q \<in> set qs" for q using 2(5) disj spU(1) that by blast
    have rest: "q \<in> ?U \<and> q \<notin> set ?sp" if "q \<in> set (index_pages ?L) \<or> q \<in> set (row_chains ?L)" for q
      using that U dist by (auto simp: pages_of_def)
    have tab': "table_stored (content media s2) ((cat ! i)\<lparr>schema_head := sh\<rparr>) ?L' ((db ! i)\<lparr>rel_schema := t\<rparr>)"
    proof -
      have vi: "content media s2 q = ?v q" if "q \<in> set (index_pages ?L)" for q using v2 rest that by metis
      have rows: "list_all2 (row_stored (content media s2)) (row_slots ?L) (rel_rows (db ! i))"
      proof (rule rows_stored_cong)
        show "list_all2 (row_stored ?v) (row_slots ?L) (rel_rows (db ! i))" using tb by (simp add: table_stored_def)
        fix sl q assume "sl \<in> set (row_slots ?L)" "q \<in> set (snd (snd sl))"
        then have "q \<in> set (row_chains ?L)" by (auto simp: row_chains_def)
        then show "?v q = content media s2 q" using v2 rest by metis
      qed
      have "blob (content media s2) sh qs ?bs" using 1(4) blob_cong[OF vq, of qs] by simp
      moreover have "linked (content media s2) (data_head (cat ! i)) (index_pages ?L)"
        "\<forall>q \<in> set (index_pages ?L). rd_u64 (content media s2 q) 8 \<le> IDX_CAP"
        "index_slots (content media s2) (index_pages ?L) = live_slots ?L"
        using tb vi linked_cong[OF vi] index_slots_cong[OF vi] by (simp_all add: table_stored_def)
      ultimately show ?thesis using tb rows wf sh 1(5) by (auto simp: table_stored_def wf_cat_def live_slots_def)
    qed
    have "uncatalogued ops media good s2 (rev ?sp @ ps1) (cat' sh) cps (Ls[i := ?L']) (with_schema db i t)"
      unfolding uncatalogued_def
    proof (intro conjI)
      show "tables_stored (content media s2) (cat' sh) (Ls[i := ?L']) (with_schema db i t)"
        unfolding cat'_def with_schema_def
      proof (rule tables_stored_update[OF p(3) i _ tab'])
        fix q assume "q \<in> set (other_pages i Ls)"
        then have "q \<in> ?U \<and> q \<notin> set ?sp" using U dist by (auto simp: pages_of_def)
        then show "?v q = content media s2 q" using v2 by metis
      qed
      show "linked (content media s2) (catalog_head (sb s2)) cps"
      proof -
        have "?v q = content media s2 q" if "q \<in> set cps" for q using that U dist by (intro v2) (auto simp: pages_of_def)
        then have "linked ?v (catalog_head (sb s)) cps = linked (content media s2) (catalog_head (sb s)) cps" by (rule linked_cong)
        then show ?thesis using p(4) 1(10) 2(6) by simp
      qed
      show "distinct (all_pages cps (Ls[i := ?L']))"
        unfolding all_pages_update(1)[OF il(1)] using dist disj 1(6) U by (auto simp: pages_of_def row_chains_def)
      have "set (all_pages cps (Ls[i := ?L'])) = ?U - set ?sp \<union> set qs"
        unfolding all_pages_update(2)[OF il(1)] U using dist by (auto simp: pages_of_def row_chains_def)
      then show "set (all_pages cps (Ls[i := ?L'])) = used s2 (rev ?sp @ ps1)" using 2(4) 1(8) disj spU(1) by auto
    qed (use 2 in simp_all)
    then show ?thesis using 1(1) 2(1) by blast
  qed
qed

end

section \<open>Rewriting rows\<close>

definition mapped :: "row_id set \<Rightarrow> (row \<Rightarrow> row) \<Rightarrow> (row_id \<times> row) list \<Rightarrow> (row_id \<times> row) list" where
  "mapped X g rows = map (\<lambda>(rid, r). (rid, if rid \<in> X then g r else r)) rows"

lemma mapped_one: "distinct (map fst rows) \<Longrightarrow> (rid, r) \<in> set rows \<Longrightarrow> replaced rid (g r) rows = mapped {rid} g rows"
  unfolding replaced_def mapped_def
  by (rule map_cong) (use eq_key_imp_eq_value in \<open>fastforce split: prod.splits\<close>)+

lemma mapped_more: "rid \<notin> X \<Longrightarrow> mapped X g (mapped {rid} g rows) = mapped (insert rid X) g rows"
  by (auto simp: mapped_def)

lemma mapped_none [simp]: "mapped {} g rows = rows"
  by (simp add: mapped_def map_idI split: prod.splits)

lemma fst_mapped [simp]: "map fst (mapped X g rows) = map fst rows"
  by (simp add: mapped_def case_prod_unfold comp_def)

lemma mapped_all: "mapped (fst ` set rows) g rows = map (apsnd g) rows"
  by (force simp: mapped_def apsnd_def map_prod_def)

lemma with_rows_twice: "with_rows (with_rows db i rows) i rows' = with_rows db i rows'"
  by (cases "i < length db") (simp_all add: with_rows_def list_update_beyond)

context block_device
begin

lemma rewrite_step:
  assumes st: "stores ops media good s ps cat cps Ls db" and i: "i < length db" and wf: "wf_row (g old)"
    and r: "row_at db i rid = Some old" and mem: "(rid, h, qs0) \<in> set (row_slots (Ls ! i))"
  shows "(\<exists>t ps' L. rewrite_row ops (\<lambda>c. returnM (g c)) (rid, h) s = Some (Inr (), t) \<and>
      stores ops media good t ps' cat cps (Ls[i := L]) (update_db db i rid (g old)) \<and>
      (\<forall>sl \<in> set (row_slots (Ls ! i)). fst sl \<noteq> rid \<longrightarrow> sl \<in> set (row_slots L))) \<or>
    (\<exists>t. rewrite_row ops (\<lambda>c. returnM (g c)) (rid, h) s = Some (Inl OutOfSpace, t) \<and> pager_ok ops media good t)"
proof -
  note t = stores_table[OF st i]
  note parts = stores_parts[OF st]
  let ?L = "Ls ! i" and ?v = "content media s" and ?U = "used s ps" and ?cells = "g old"
  let ?ips = "index_pages ?L"
  have il: "i < length Ls" using i t(2) by simp
  have U: "?U = set (cps @ pages_of ?L @ other_pages i Ls)" and dist: "distinct (cps @ pages_of ?L @ other_pages i Ls)"
    using parts(5,6) all_pages_split[OF il, of cps] by simp_all
  have tab: "linked ?v (data_head (cat ! i)) ?ips" "\<forall>p \<in> set ?ips. rd_u64 (?v p) 8 \<le> IDX_CAP"
    "index_slots ?v ?ips = live_slots ?L"
    using t(1) by (simp_all add: table_stored_def)
  obtain A B RA RB where sp: "row_slots ?L = A @ (rid, h, qs0) # B" "rel_rows (db ! i) = RA @ (rid, old) # RB"
    "list_all2 (row_stored ?v) A RA" "list_all2 (row_stored ?v) B RB" "row_stored ?v (rid, h, qs0) (rid, old)"
    "rid \<notin> fst ` set A" "rid \<notin> fst ` set B" "rid \<notin> fst ` set RA" "rid \<notin> fst ` set RB"
    by (rule table_row_split[OF st i r mem])
  let ?CA = "row_chains (?L\<lparr>row_slots := A\<rparr>)" and ?CB = "row_chains (?L\<lparr>row_slots := B\<rparr>)"
  have chains: "row_chains ?L = ?CA @ qs0 @ ?CB" by (rule chains_split[OF sp(1)])
  have q0: "set qs0 \<subseteq> ?U" "set qs0 \<inter> set ?ips = {}" "distinct qs0" "set qs0 \<inter> set cps = {}"
    using U dist by (auto simp: pages_of_def chains)
  have ipsU: "set ?ips \<subseteq> ?U" using U by (auto simp: pages_of_def)
  have "computes ops media good s (read_row ops h) (Inr old)"
  proof -
    have "\<forall>p \<in> set qs0. data_page s p" using q0(1) stores_pages[OF st] parts(6) by blast
    moreover have "blob ?v h qs0 (encode_row old)" and dec: "decode_row (encode_row old) = Inr old"
      using sp(5) row_roundtrip[of old] by (auto simp: row_stored_def wf_row_def)
    ultimately have "computes ops media good s (read_chain ops h) (Inr (encode_row old))" by (intro computes_chain)
    moreover have "computes ops media good s (liftM (decode_row (encode_row old))) (Inr old)" unfolding dec by (rule comp)
    ultimately show ?thesis unfolding read_row_def by (rule computes_bind)
  qed
  then obtain c where 0: "read_row ops h s = Some (Inr old, s\<lparr>cache := c\<rparr>)" "pager_ok ops media good (s\<lparr>cache := c\<rparr>)"
    using parts(1) by (rule computesD)
  let ?s0 = "s\<lparr>cache := c\<rparr>"
  have s0: "content media ?s0 = ?v" "used ?s0 ps = ?U" "alloc_ok media ?s0 ps" "catalog_head (sb ?s0) = catalog_head (sb s)"
    using parts(2) by (simp_all add: content_def used_def alloc_ok_def)
  have lk: "linked (content media ?s0) h qs0" using sp(5) s0(1) by (simp add: row_stored_def blob_def)
  from free_chain_ok[OF 0(2) s0(3) lk q0(3), unfolded s0(2), OF q0(1)] obtain s1 where
    1: "free_chain ops h ?s0 = Some (Inr (), s1)" "pager_ok ops media good s1" "alloc_ok media s1 (rev qs0 @ ps)"
      "used s1 (rev qs0 @ ps) = ?U - set qs0" "\<forall>q. q \<notin> set qs0 \<longrightarrow> content media s1 q = ?v q"
      "catalog_head (sb s1) = catalog_head (sb s)" unfolding s0(1,4) by blast
  let ?U1 = "?U - set qs0"
  show ?thesis
  proof (cases "chunks (encode_row ?cells) \<le> room s1 (rev qs0 @ ps)")
    case False
    then have r: "room s1 (rev qs0 @ ps) < chunks (encode_row ?cells)" by simp
    from write_chain_full[OF 1(2,3) r] 0(1) 1(1) show ?thesis by (auto simp: rewrite_row_def run_simps)
  next
    case True
    from write_chain_ok[OF 1(2,3) True] obtain new s2 ps2 qs where
      2: "write_chain ops (encode_row ?cells) s1 = Some (Inr new, s2)" "pager_ok ops media good s2" "alloc_ok media s2 ps2"
        "blob (content media s2) new qs (encode_row ?cells)" "new \<noteq> 0" "distinct qs"
        "\<forall>q \<in> set qs. data_page s1 q \<and> q \<notin> used s1 (rev qs0 @ ps)"
        "used s2 ps2 = used s1 (rev qs0 @ ps) \<union> set qs" "\<forall>q. q \<notin> set qs \<longrightarrow> content media s2 q = content media s1 q"
        "catalog_head (sb s2) = catalog_head (sb s1)" by blast
    have "new \<in> set qs" using 2(4,5) linked_nonzero by (force simp: blob_def)
    then have n64: "new < 2 ^ 64" using 2(7) 1(2) by (auto simp: data_page_def pager_ok_def sb_ok_def)
    have disj: "set qs \<inter> ?U1 = {}" using 2(7) 1(4) by blast
    have v2: "content media s2 p = ?v p" if p: "p \<in> ?U1" for p
    proof -
      have "p \<notin> set qs" "p \<notin> set qs0" using p disj by blast+
      then show ?thesis using 2(9) 1(5) by simp
    qed
    have ips1: "set ?ips \<subseteq> ?U1" using ipsU q0(2) by blast
    have vi: "content media s2 p = ?v p" if "p \<in> set ?ips" for p using v2 ips1 that by blast
    have lk2: "linked (content media s2) (data_head (cat ! i)) ?ips" using tab(1) linked_cong[OF vi] by simp
    have caps2: "\<forall>p \<in> set ?ips. rd_u64 (content media s2 p) 8 \<le> IDX_CAP" using tab(2) vi by simp
    have sl2: "index_slots (content media s2) ?ips = live_slots ?L" using tab(3) index_slots_cong[OF vi] by simp
    have dips: "distinct ?ips" using dist by (simp add: pages_of_def)
    have ips2: "set ?ips \<subseteq> used s2 ps2" unfolding 2(8) 1(4) using ips1 by blast
    have "(rid, h) \<in> set (live_slots ?L)" using mem by (force simp: live_slots_def)
    then have mem2: "(rid, h) \<in> set (index_slots (content media s2) ?ips)" by (simp add: sl2)
    from index_set_ok[OF 2(2,3) lk2 dips ips2 caps2 mem2 n64] obtain s3 where
      3: "index_set ops (index_page rid) (slot rid) new s2 = Some (Inr (), s3)" "pager_ok ops media good s3" "alloc_ok media s3 ps2"
        "used s3 ps2 = used s2 ps2" "linked (content media s3) (data_head (cat ! i)) ?ips"
        "\<forall>p \<in> set ?ips. rd_u64 (content media s3 p) 8 \<le> IDX_CAP"
        "index_slots (content media s3) ?ips = set_slot rid new (index_slots (content media s2) ?ips)"
        "\<forall>p. p \<notin> set ?ips \<longrightarrow> content media s3 p = content media s2 p" "catalog_head (sb s3) = catalog_head (sb s2)"
      by blast
    let ?N = "[(rid, new, qs)]" and ?NR = "[(rid, ?cells)]"
    let ?L' = "?L\<lparr>row_slots := A @ ?N @ B\<rparr>"
    have v3: "?v p = content media s3 p" if "p \<in> ?U1" "p \<notin> set ?ips" for p using v2 3(8) that by simp
    have vq3: "content media s3 p = content media s2 p" if p: "p \<in> set qs" for p
    proof -
      have "p \<notin> set ?ips" using p disj ips1 by blast
      then show ?thesis using 3(8) by simp
    qed
    have inA: "p \<in> set ?CA \<union> set ?CB" if "sl \<in> set A \<union> set B" "p \<in> set (snd (snd sl))" for sl p
      using that by (auto simp: row_chains_def)
    have tab': "table_stored (content media s3) ((cat ! i)\<lparr>row_count := length (RA @ ?NR @ RB)\<rparr>) ?L' ((db ! i)\<lparr>rel_rows := RA @ ?NR @ RB\<rparr>)"
    proof (rule table_replaced[OF t(1) sp(1-4,6,7), where x = new])
      show "?v p = content media s3 p" if "p \<in> set (schema_pages ?L)" for p
        using that U dist by (intro v3) (auto simp: pages_of_def chains)
      show "?v p = content media s3 p" if "sl \<in> set A \<union> set B" "p \<in> set (snd (snd sl))" for sl p
        using inA[OF that] U dist by (intro v3) (auto simp: pages_of_def chains)
      show "index_slots (content media s3) ?ips = set_slot rid new (live_slots ?L)" using 3(7) sl2 by simp
      show "list_all2 (row_stored (content media s3)) ?N ?NR"
        using 2(4,5) wf blob_cong[OF vq3] by (simp add: row_stored_def)
      show "map (\<lambda>sl. (fst sl, fst (snd sl))) ?N = (if new = 0 then [] else [(rid, new)])" using 2(5) by simp
      show "length (RA @ ?NR @ RB) < 2 ^ 64" using stores_sizes(1,3)[OF st] i sp(2) by fastforce
    qed (use 3(5,6) in simp_all)
    have cnt: "(cat ! i)\<lparr>row_count := length (RA @ ?NR @ RB)\<rparr> = cat ! i" using t(1) sp(2) by (simp add: table_stored_def)
    have upd: "update_db db i rid ?cells = db[i := (db ! i)\<lparr>rel_rows := RA @ ?NR @ RB\<rparr>]"
    proof -
      have "map (\<lambda>ir. if fst ir = rid then (rid, ?cells) else ir) xs = xs" if "rid \<notin> fst ` set xs" for xs
        using that by (intro map_idI) auto
      then show ?thesis using sp(8,9) by (simp add: update_db_def with_rows_def replaced_def sp(2))
    qed
    have tabs: "tables_stored (content media s3) cat (Ls[i := ?L']) (update_db db i rid ?cells)"
    proof -
      have "tables_stored (content media s3) (cat[i := cat ! i]) (Ls[i := ?L']) (db[i := (db ! i)\<lparr>rel_rows := RA @ ?NR @ RB\<rparr>])"
      proof (rule tables_stored_update[OF parts(3) i _ tab'[unfolded cnt]])
        fix p assume "p \<in> set (other_pages i Ls)"
        then show "?v p = content media s3 p" using U dist by (intro v3) (auto simp: pages_of_def chains)
      qed
      then show ?thesis by (simp add: upd)
    qed
    have pg: "set (pages_of ?L') = set (pages_of ?L) - set qs0 \<union> set qs"
      using dist by (auto simp: pages_of_def chains) (auto simp: row_chains_def)
    have u3: "used s3 ps2 = ?U - set qs0 \<union> set qs" using 3(4) 2(8) 1(4) by simp
    have us: "set (all_pages cps (Ls[i := ?L'])) = used s3 ps2"
      unfolding all_pages_update(2)[OF il] set_append pg u3 U using dist by (auto simp: pages_of_def chains)
    have d': "distinct (all_pages cps (Ls[i := ?L']))"
    proof -
      have rc: "row_chains ?L' = ?CA @ qs @ ?CB" by (simp add: row_chains_def)
      have "distinct (cps @ (schema_pages ?L @ ?ips @ ?CA @ ?CB) @ other_pages i Ls)"
        using dist by (auto simp: pages_of_def chains)
      moreover have "set (cps @ (schema_pages ?L @ ?ips @ ?CA @ ?CB) @ other_pages i Ls) \<subseteq> ?U1"
        unfolding U using dist by (auto simp: pages_of_def chains)
      ultimately show ?thesis
        unfolding all_pages_update(1)[OF il] pages_of_def using disj 2(6) rc by auto
    qed
    have cat3: "if catalog_head (sb s3) = 0 then cat = [] \<and> cps = [] else blob (content media s3) (catalog_head (sb s3)) cps (encode_catalog cat)"
    proof -
      have "content media s3 p = ?v p" if "p \<in> set cps" for p
        using that U dist by (intro v3[symmetric]) (auto simp: pages_of_def chains)
      then have "blob (content media s3) hd cps bs = blob ?v hd cps bs" for hd bs by (rule blob_cong)
      then show ?thesis using st 3(9) 2(10) 1(6) by (simp add: stores_def db_stored_def)
    qed
    have "stores ops media good s3 ps2 cat cps (Ls[i := ?L']) (update_db db i rid ?cells)"
      using 3(2,3) tabs cat3 d' us by (simp add: stores_def db_stored_def tables_stored_def)
    moreover have "rewrite_row ops (\<lambda>c. returnM (g c)) (rid, h) s = Some (Inr (), s3)"
      using 0(1) 1(1) 2(1) 3(1) by (simp add: rewrite_row_def run_simps)
    moreover have "\<forall>sl \<in> set (row_slots ?L). fst sl \<noteq> rid \<longrightarrow> sl \<in> set (row_slots ?L')" using sp(1) by auto
    ultimately show ?thesis by blast
  qed
qed

text \<open>The loop over the live slots.\<close>

lemma rewrite_loop:
  assumes "stores ops media good s ps cat cps Ls db" "i < length db" "distinct (map fst xs)"
    "\<forall>(rid, h) \<in> set xs. \<exists>qs. (rid, h, qs) \<in> set (row_slots (Ls ! i))" "\<forall>a \<in> set (rel_rows (db ! i)). fst a \<in> fst ` set xs \<longrightarrow> wf_row (g (snd a))"
  shows "(\<exists>t ps' Ls'. forM xs (rewrite_row ops (\<lambda>c. returnM (g c))) s = Some (Inr (), t) \<and>
      stores ops media good t ps' cat cps Ls' (with_rows db i (mapped (fst ` set xs) g (rel_rows (db ! i))))) \<or>
    (\<exists>t. forM xs (rewrite_row ops (\<lambda>c. returnM (g c))) s = Some (Inl OutOfSpace, t) \<and> pager_ok ops media good t)"
  using assms
proof (induction xs arbitrary: s ps Ls db)
  case Nil
  then show ?case by (auto simp: with_rows_def)
next
  case (Cons x xs)
  obtain rid h where x: "x = (rid, h)" by (cases x)
  from Cons.prems(4) x obtain qs where mem: "(rid, h, qs) \<in> set (row_slots (Ls ! i))" by auto
  note t = stores_table[OF Cons.prems(1,2)]
  have l: "list_all2 (row_stored (content media s)) (row_slots (Ls ! i)) (rel_rows (db ! i))" using t(1) by (simp add: table_stored_def)
  from mem obtain k where k: "k < length (row_slots (Ls ! i))" "row_slots (Ls ! i) ! k = (rid, h, qs)" by (auto simp: in_set_conv_nth)
  define ir where "ir = rel_rows (db ! i) ! k"
  have ir: "ir \<in> set (rel_rows (db ! i))" "row_stored (content media s) (rid, h, qs) ir"
    using list_all2_nthD[OF l k(1)] k list_all2_lengthD[OF l] by (simp_all add: ir_def)
  obtain old where old: "ir = (rid, old)" using ir(2) by (cases ir) (simp add: row_stored_def)
  have d: "distinct (map fst (rel_rows (db ! i)))" by (rule ids_distinct[OF Cons.prems(1,2)])
  have r: "row_at db i rid = Some old" using ir(1) old d by (simp add: row_at_def)
  have wf: "wf_row (g old)" using Cons.prems(5) ir(1) old x by force
  let ?db = "update_db db i rid (g old)"
  have db': "?db = with_rows db i (mapped {rid} g (rel_rows (db ! i)))"
    using mapped_one[OF d, of rid old g] ir(1) old by (simp add: update_db_def)
  from rewrite_step[where g = g, OF Cons.prems(1,2) wf r mem] show ?case
  proof (elim disjE exE conjE)
    fix t assume "rewrite_row ops (\<lambda>c. returnM (g c)) (rid, h) s = Some (Inl OutOfSpace, t)" "pager_ok ops media good t"
    then show ?thesis unfolding x forM.simps by (intro disjI2) (auto simp only: bindM_Inl)
  next
    fix t ps' L assume 1: "rewrite_row ops (\<lambda>c. returnM (g c)) (rid, h) s = Some (Inr (), t)"
      "stores ops media good t ps' cat cps (Ls[i := L]) ?db" "\<forall>sl \<in> set (row_slots (Ls ! i)). fst sl \<noteq> rid \<longrightarrow> sl \<in> set (row_slots L)"
    have i': "i < length ?db" using Cons.prems(2) by (simp add: db')
    have rows': "rel_rows (?db ! i) = mapped {rid} g (rel_rows (db ! i))" using Cons.prems(2) by (simp add: db' with_rows_rows)
    have dx: "distinct (map fst xs)" "rid \<notin> fst ` set xs" using Cons.prems(3) x by auto
    have L: "Ls[i := L] ! i = L" using t(2) Cons.prems(2) by simp
    have m: "\<forall>(rid', h') \<in> set xs. \<exists>qs. (rid', h', qs) \<in> set (row_slots (Ls[i := L] ! i))"
    proof (clarify, unfold L)
      fix rid' h' assume in': "(rid', h') \<in> set xs"
      then have "rid' \<noteq> rid" using dx(2) by force
      moreover from in' Cons.prems(4) obtain qs' where "(rid', h', qs') \<in> set (row_slots (Ls ! i))" by auto
      ultimately show "\<exists>qs. (rid', h', qs) \<in> set (row_slots L)" using 1(3) by fastforce
    qed
    have w: "\<forall>a \<in> set (rel_rows (?db ! i)). fst a \<in> fst ` set xs \<longrightarrow> wf_row (g (snd a))"
    proof (intro ballI impI)
      fix a assume a: "a \<in> set (rel_rows (?db ! i))" "fst a \<in> fst ` set xs"
      then obtain b where b: "b \<in> set (rel_rows (db ! i))" "fst b = fst a" "snd a = (if fst b = rid then g (snd b) else snd b)"
        unfolding rows' mapped_def by (auto split: if_splits)
      have "fst b \<noteq> rid" using a(2) b(2) dx(2) by auto
      then show "wf_row (g (snd a))" using Cons.prems(5) b a(2) x by auto
    qed
    have fin: "with_rows ?db i (mapped (fst ` set xs) g (rel_rows (?db ! i))) = with_rows db i (mapped (fst ` set (x # xs)) g (rel_rows (db ! i)))"
      unfolding rows' using dx(2) by (simp add: db' with_rows_twice mapped_more x)
    from Cons.IH[OF 1(2) i' dx(1) m w, unfolded fin] show ?thesis
      unfolding x forM.simps bindM_Inr[where m = "rewrite_row ops (\<lambda>c. returnM (g c)) (rid, h)", OF 1(1)] .
  qed
qed

end

section \<open>Changing a schema\<close>

definition alter_db :: "database \<Rightarrow> nat \<Rightarrow> (row \<Rightarrow> row) \<Rightarrow> table \<Rightarrow> database" where
  "alter_db db i g t = with_schema (with_rows db i (map (apsnd g) (rel_rows (db ! i)))) i t"

lemma alter_db_same_rows: "alter_db db i (\<lambda>r. r) t = with_schema db i t"
  by (cases "i < length db") (simp_all add: alter_db_def with_rows_def apsnd_def map_prod_def list_update_beyond)

text \<open>The rewriting of rows, as \<^verbatim>\<open>put_schema\<close> gets it: none, or a function of the row.\<close>

definition row_change :: "(row \<Rightarrow> row) option \<Rightarrow> row \<Rightarrow> row" where
  "row_change G = (case G of None \<Rightarrow> (\<lambda>r. r) | Some g \<Rightarrow> g)"

context block_device
begin

lemma put_body:
  assumes st: "stores ops media good s ps cat cps Ls db" and i: "i < length db" and wf: "wf_table t"
    and rows: "\<forall>a \<in> set (rel_rows (db ! i)). wf_row (row_change G (snd a))"
  defines "body \<equiv> bindM (case map_option (\<lambda>g c. returnM (g c)) G of
       None \<Rightarrow> returnM ()
     | Some f \<Rightarrow> bindM (index_collect ops (data_head (cat ! i))) (\<lambda>rows. forM rows (rewrite_row ops f))) (\<lambda>_.
     bindM (write_chain ops (encode_table t)) (\<lambda>sh.
     bindM (free_chain ops (schema_head (cat ! i))) (\<lambda>_.
     store_catalog ops (cat[i := (cat ! i)\<lparr>schema_head := sh\<rparr>]))))"
  shows "(\<exists>x u ps' cat' cps' Ls'. body s = Some (Inr x, u) \<and> True \<and> dirty u \<noteq> [] \<and>
      stores ops media good u ps' cat' cps' Ls' (alter_db db i (row_change G) t)) \<or>
    (\<exists>u. body s = Some (Inl OutOfSpace, u) \<and> pager_ok ops media good u)"
proof -
  define tail where "tail = bindM (write_chain ops (encode_table t)) (\<lambda>sh.
     bindM (free_chain ops (schema_head (cat ! i))) (\<lambda>_.
     store_catalog ops (cat[i := (cat ! i)\<lparr>schema_head := sh\<rparr>])))"
  have fin: "(\<exists>x v ps' cat' cps' Ls'. tail u = Some (Inr x, v) \<and> True \<and> dirty v \<noteq> [] \<and>
        stores ops media good v ps' cat' cps' Ls' (with_schema db1 i t)) \<or>
      (\<exists>v. tail u = Some (Inl OutOfSpace, v) \<and> pager_ok ops media good v)"
    if u: "stores ops media good u ps1 cat cps Ls1 db1" and l: "i < length db1" for u ps1 Ls1 db1
  proof -
    from schema_step[OF stores_staged[OF u] l wf] show ?thesis
    proof (elim disjE exE conjE)
      fix sh s1 s2 ps' L assume 1: "write_chain ops (encode_table t) u = Some (Inr sh, s1)"
        "free_chain ops (schema_head (cat ! i)) s1 = Some (Inr (), s2)"
        "uncatalogued ops media good s2 ps' (cat[i := (cat ! i)\<lparr>schema_head := sh\<rparr>]) cps (Ls1[i := L]) (with_schema db1 i t)"
      have "tail u = store_catalog ops (cat[i := (cat ! i)\<lparr>schema_head := sh\<rparr>]) s2" using 1(1,2) by (simp add: tail_def run_simps)
      then show ?thesis using staged_finish[OF 1(3)] by fastforce
    next
      fix s1 assume "write_chain ops (encode_table t) u = Some (Inl OutOfSpace, s1)" "pager_ok ops media good s1"
      then show ?thesis by (auto simp: tail_def run_simps)
    qed
  qed
  have b: "body = bindM (case map_option (\<lambda>g c. returnM (g c)) G of None \<Rightarrow> returnM ()
     | Some f \<Rightarrow> bindM (index_collect ops (data_head (cat ! i))) (\<lambda>rows. forM rows (rewrite_row ops f))) (\<lambda>_. tail)"
    by (simp only: body_def tail_def)
  show ?thesis
  proof (cases G)
    case None
    have "with_schema db i t = alter_db db i (row_change G) t"
      by (simp add: None row_change_def alter_db_same_rows)
    moreover have "body s = tail s" by (simp add: b None run_simps)
    ultimately show ?thesis using fin[OF st i] by simp
  next
    case (Some g)
    let ?F = "rewrite_row ops (\<lambda>c. returnM (g c))" and ?xs = "live_slots (Ls ! i)"
    note t = stores_table[OF st i]
    have l: "list_all2 (row_stored (content media s)) (row_slots (Ls ! i)) (rel_rows (db ! i))" using t(1) by (simp add: table_stored_def)
    have ids: "map fst ?xs = map fst (rel_rows (db ! i))"
    proof (rule nth_equalityI)
      show "length (map fst ?xs) = length (map fst (rel_rows (db ! i)))" using list_all2_lengthD[OF l] by (simp add: live_slots_def)
      fix k assume "k < length (map fst ?xs)"
      then have k: "k < length (row_slots (Ls ! i))" by (simp add: live_slots_def)
      then show "map fst ?xs ! k = map fst (rel_rows (db ! i)) ! k"
        using list_all2_nthD[OF l k] list_all2_lengthD[OF l] by (simp add: live_slots_def row_stored_def split: prod.splits)
    qed
    then have set_ids: "fst ` set ?xs = fst ` set (rel_rows (db ! i))" by (metis list.set_map)
    have d: "distinct (map fst ?xs)" unfolding ids by (rule ids_distinct[OF st i])
    have m: "\<forall>(rid, h) \<in> set ?xs. \<exists>qs. (rid, h, qs) \<in> set (row_slots (Ls ! i))" by (force simp: live_slots_def)
    have "computes ops media good s (index_collect ops (data_head (cat ! i))) (Inr ?xs)" by (rule computes_live[OF st i])
    then obtain c where c: "index_collect ops (data_head (cat ! i)) s = Some (Inr ?xs, s\<lparr>cache := c\<rparr>)" "pager_ok ops media good (s\<lparr>cache := c\<rparr>)"
      using stores_parts(1)[OF st] by (rule computesD)
    have w: "\<forall>a \<in> set (rel_rows (db ! i)). fst a \<in> fst ` set ?xs \<longrightarrow> wf_row (g (snd a))" using rows Some by (simp add: row_change_def)
    have run: "body s = bindM (forM ?xs ?F) (\<lambda>_. tail) (s\<lparr>cache := c\<rparr>)"
      unfolding b Some option.map option.case bindM_assoc
      by (rule bindM_Inr[where m = "index_collect ops (data_head (cat ! i))", OF c(1)])
    from rewrite_loop[OF stores_cache[OF st c(2)] i d m w] show ?thesis
    proof (elim disjE exE conjE)
      fix u ps' Ls' assume 1: "forM ?xs ?F (s\<lparr>cache := c\<rparr>) = Some (Inr (), u)"
        "stores ops media good u ps' cat cps Ls' (with_rows db i (mapped (fst ` set ?xs) g (rel_rows (db ! i))))"
      have "with_schema (with_rows db i (mapped (fst ` set ?xs) g (rel_rows (db ! i)))) i t = alter_db db i (row_change G) t"
        unfolding set_ids mapped_all by (simp add: alter_db_def Some row_change_def)
      then show ?thesis using fin[OF 1(2)] i unfolding run bindM_Inr[where m = "forM ?xs ?F", OF 1(1)] by simp
    next
      fix u assume 1: "forM ?xs ?F (s\<lparr>cache := c\<rparr>) = Some (Inl OutOfSpace, u)" "pager_ok ops media good u"
      then show ?thesis unfolding run bindM_Inl[where m = "forM ?xs ?F", OF 1(1)] by blast
    qed
  qed
qed

text \<open>\<^verbatim>\<open>put_schema\<close>: the new schema that \<open>mut\<close> makes of the old one, and the rows changed along.\<close>

lemma put_schema_refines:
  assumes rep: "represents ops media good s db" and gen: "generation (sb s) + 1 < 2 ^ 64"
    and mut: "\<And>i. find_table db name = Inr i \<Longrightarrow> computes ops media good s (mutate (rel_schema (db ! i))) (mut (rel_schema (db ! i)))"
    and kp: "\<And>t. kp.keeps_disk (mutate t)"
    and wf: "\<And>i t. find_table db name = Inr i \<Longrightarrow> mut (rel_schema (db ! i)) = Inr t \<Longrightarrow>
      wf_table t \<and> (\<forall>a \<in> set (rel_rows (db ! i)). wf_row (row_change G (snd a)))"
  shows "case bindR (find_table db name) (\<lambda>i. bindR (mut (rel_schema (db ! i))) (\<lambda>t. Inr (i, t))) of
      Inl e \<Rightarrow> \<exists>s'. put_schema ops name mutate (map_option (\<lambda>g c. returnM (g c)) G) s = Some (Inl e, s') \<and>
        represents ops media good s' db \<and> dev s' = dev s
    | Inr (i, t) \<Rightarrow> \<exists>r s'. put_schema ops name mutate (map_option (\<lambda>g c. returnM (g c)) G) s = Some (r, s') \<and>
        (live (dev s') \<longrightarrow> r = Inr () \<and> represents ops media good s' (alter_db db i (row_change G) t) \<or>
           r = Inl OutOfSpace \<and> represents ops media good s' db) \<and>
        (recoverable ops media good (dev s') db \<or> recoverable ops media good (dev s') (alter_db db i (row_change G) t))"
proof -
  from rep obtain ps cat cps Ls where st: "stores ops media good s ps cat cps Ls db" by (auto simp: represents_def)
  let ?R = "map_option (\<lambda>g c. returnM (g c)) G :: (row \<Rightarrow> ('a store, row) act) option"
  define m where "m = with_table ops name (\<lambda>cat i t.
      bindM (mutate t) (\<lambda>t.
      bindM (case ?R of
          None \<Rightarrow> returnM ()
        | Some f \<Rightarrow> bindM (index_collect ops (data_head (cat ! i))) (\<lambda>rows. forM rows (rewrite_row ops f))) (\<lambda>_.
      bindM (write_chain ops (encode_table t)) (\<lambda>sh.
      bindM (free_chain ops (schema_head (cat ! i))) (\<lambda>_.
      store_catalog ops (cat[i := (cat ! i)\<lparr>schema_head := sh\<rparr>]))))))"
  have op: "put_schema ops name mutate ?R = tx ops m" by (simp only: put_schema_def m_def)
  show ?thesis
  proof (cases "find_table db name")
    case (Inl e)
    from tx_refuses[OF rep computes_no_table[OF st Inl], folded m_def] show ?thesis by (simp add: bindR_def op Inl m_def)
  next
    case (Inr i)
    then have i: "i < length db" using find_table_bound by blast
    show ?thesis
    proof (cases "mut (rel_schema (db ! i))")
      case (Inl e)
      have "computes ops media good s m (Inl e)"
        unfolding m_def using mut[OF Inr] Inl by (intro computes_with_table[OF st Inr] computes_bind_err) simp
      from tx_refuses[OF rep this] show ?thesis by (simp add: bindR_def op Inr Inl)
    next
      case t: (Inr t)
      let ?body = "bindM (case ?R of
           None \<Rightarrow> returnM ()
         | Some f \<Rightarrow> bindM (index_collect ops (data_head (cat ! i))) (\<lambda>rows. forM rows (rewrite_row ops f))) (\<lambda>_.
         bindM (write_chain ops (encode_table t)) (\<lambda>sh.
         bindM (free_chain ops (schema_head (cat ! i))) (\<lambda>_.
         store_catalog ops (cat[i := (cat ! i)\<lparr>schema_head := sh\<rparr>]))))"
      have "computes ops media good s (mutate (rel_schema (db ! i))) (Inr t)" using mut[OF Inr] t by simp
      then have m: "reaches ops media good s m ?body"
        unfolding m_def by (rule reaches_with_table[OF st Inr, OF reaches_bind[OF _ reaches_refl]])
      have b: "(\<exists>x u ps' cat' cps' Ls'. ?body (s\<lparr>cache := c\<rparr>) = Some (Inr x, u) \<and> True \<and> dirty u \<noteq> [] \<and>
          stores ops media good u ps' cat' cps' Ls' (alter_db db i (row_change G) t)) \<or>
          (\<exists>u. ?body (s\<lparr>cache := c\<rparr>) = Some (Inl OutOfSpace, u) \<and> pager_ok ops media good u)"
        if "pager_ok ops media good (s\<lparr>cache := c\<rparr>)" for c
        using put_body[where G = G, OF stores_cache[OF st that] i] wf[OF Inr t] by blast
      have "kp.keeps_disk m"
        unfolding m_def by (cases G) (simp_all only: option.map option.case, (intro keeps kp)+)
      from tx_writes[where P = "\<lambda>_. True" and db' = "\<lambda>_. alter_db db i (row_change G) t", OF rep m this gen b]
      show ?thesis by (simp add: op bindR_def Inr t)
    qed
  qed
qed

end

section \<open>Giving back a table\<close>

context block_device
begin

lemma free_many:
  assumes "pager_ok ops media good s" "alloc_ok media s ps" "\<forall>(h, qs) \<in> set chs. linked (content media s) h qs"
    "distinct (concat (map snd chs))" "set (concat (map snd chs)) \<subseteq> used s ps"
  shows "\<exists>s' ps'. forM (map fst chs) (free_chain ops) s = Some (Inr (), s') \<and> pager_ok ops media good s' \<and> alloc_ok media s' ps' \<and>
    used s' ps' = used s ps - set (concat (map snd chs)) \<and>
    (\<forall>q. q \<notin> set (concat (map snd chs)) \<longrightarrow> content media s' q = content media s q) \<and>
    catalog_head (sb s') = catalog_head (sb s) \<and> total_pages (sb s') = total_pages (sb s)"
  using assms
proof (induction chs arbitrary: s ps)
  case Nil
  then show ?case by auto
next
  case (Cons ch chs)
  obtain h qs where ch: "ch = (h, qs)" by (cases ch)
  have q: "linked (content media s) h qs" "distinct qs" "set qs \<subseteq> used s ps" "set qs \<inter> set (concat (map snd chs)) = {}"
    using Cons.prems(3-5) ch by auto
  from free_chain_ok[OF Cons.prems(1,2) q(1-3)] obtain s1 where
    1: "free_chain ops h s = Some (Inr (), s1)" "pager_ok ops media good s1" "alloc_ok media s1 (rev qs @ ps)"
      "used s1 (rev qs @ ps) = used s ps - set qs" "\<forall>q. q \<notin> set qs \<longrightarrow> content media s1 q = content media s q"
      "catalog_head (sb s1) = catalog_head (sb s)" "total_pages (sb s1) = total_pages (sb s)" by blast
  have lk: "\<forall>(h, qs) \<in> set chs. linked (content media s1) h qs"
  proof clarify
    fix h' qs' assume c: "(h', qs') \<in> set chs"
    have "content media s1 p = content media s p" if p: "p \<in> set qs'" for p
    proof -
      have "p \<in> set (concat (map snd chs))" using p c by force
      then show ?thesis using q(4) 1(5) by blast
    qed
    then have "linked (content media s1) h' qs' = linked (content media s) h' qs'" by (rule linked_cong)
    then show "linked (content media s1) h' qs'" using Cons.prems(3) c by auto
  qed
  have d: "distinct (concat (map snd chs))" "set (concat (map snd chs)) \<subseteq> used s1 (rev qs @ ps)"
    using Cons.prems(4,5) ch q(4) unfolding 1(4) by auto
  from Cons.IH[OF 1(2,3) lk d] obtain s2 ps2 where
    2: "forM (map fst chs) (free_chain ops) s1 = Some (Inr (), s2)" "pager_ok ops media good s2" "alloc_ok media s2 ps2"
      "used s2 ps2 = used s1 (rev qs @ ps) - set (concat (map snd chs))"
      "\<forall>q. q \<notin> set (concat (map snd chs)) \<longrightarrow> content media s2 q = content media s1 q"
      "catalog_head (sb s2) = catalog_head (sb s1)" "total_pages (sb s2) = total_pages (sb s1)" by blast
  have "used s2 ps2 = used s ps - set (concat (map snd (ch # chs)))" using 2(4) 1(4) ch by auto
  moreover have "\<forall>q. q \<notin> set (concat (map snd (ch # chs))) \<longrightarrow> content media s2 q = content media s q" using 2(5) 1(5) ch by simp
  moreover have "forM (map fst (ch # chs)) (free_chain ops) s = Some (Inr (), s2)" using 1(1) 2(1) ch by (simp add: run_simps)
  ultimately show ?case using 2(2,3,6,7) 1(6,7) by metis
qed

end

lemma remove_at_nth: "i < length xs \<Longrightarrow> j < length xs - 1 \<Longrightarrow> remove_at i xs ! j = xs ! (if j < i then j else Suc j)"
  by (auto simp: remove_at_def nth_append min_def)

lemma remove_at_length: "i < length xs \<Longrightarrow> length (remove_at i xs) = length xs - 1"
  by (simp add: remove_at_def)

definition drop_db :: "database \<Rightarrow> nat \<Rightarrow> database" where
  "drop_db db i = remove_at i db"

lemma tables_stored_remove:
  assumes "tables_stored v cat Ls db" "i < length db" "\<And>p. p \<in> set (other_pages i Ls) \<Longrightarrow> v p = v' p"
  shows "tables_stored v' (remove_at i cat) (remove_at i Ls) (remove_at i db)"
proof -
  have len: "length cat = length db" "length Ls = length db" using assms(1) by (simp_all add: tables_stored_def)
  have "table_stored v' (remove_at i cat ! j) (remove_at i Ls ! j) (remove_at i db ! j)" if j: "j < length db - 1" for j
  proof -
    let ?k = "if j < i then j else Suc j"
    have k: "?k < length db" "?k \<noteq> i" using j assms(2) by auto
    have "table_stored v (cat ! ?k) (Ls ! ?k) (db ! ?k)" using assms(1) k(1) by (simp add: tables_stored_def)
    then have "table_stored v' (cat ! ?k) (Ls ! ?k) (db ! ?k)"
      by (rule table_stored_cong) (rule assms(3), rule other_pages_in[OF _ k(2)], use k(1) len in simp_all)
    then show ?thesis using remove_at_nth j assms(2) len by (metis)
  qed
  then show ?thesis using len assms(2) by (simp add: tables_stored_def remove_at_length)
qed

context block_device
begin

lemma drop_body:
  assumes st: "stores ops media good s ps cat cps Ls db" and i: "i < length db"
  defines "body \<equiv> bindM (forM (live_slots (Ls ! i)) (\<lambda>(_, head). free_chain ops head)) (\<lambda>_.
     bindM (free_chain ops (data_head (cat ! i))) (\<lambda>_.
     bindM (free_chain ops (schema_head (cat ! i))) (\<lambda>_. store_catalog ops (remove_at i cat))))"
  shows "(\<exists>x t ps' cat' cps' Ls'. body s = Some (Inr x, t) \<and> True \<and> dirty t \<noteq> [] \<and> stores ops media good t ps' cat' cps' Ls' (drop_db db i)) \<or>
    (\<exists>t. body s = Some (Inl OutOfSpace, t) \<and> pager_ok ops media good t)"
proof -
  note t = stores_table[OF st i]
  note parts = stores_parts[OF st]
  let ?L = "Ls ! i" and ?v = "content media s" and ?U = "used s ps"
  have il: "i < length Ls" "i < length cat" using i t(2) stores_lens[OF st] by simp_all
  have U: "?U = set (cps @ pages_of ?L @ other_pages i Ls)" and dist: "distinct (cps @ pages_of ?L @ other_pages i Ls)"
    using parts(5,6) all_pages_split[OF il(1), of cps] by simp_all
  let ?chs = "map snd (row_slots ?L) @ [(data_head (cat ! i), index_pages ?L), (schema_head (cat ! i), schema_pages ?L)]"
  have pgs: "set (concat (map snd ?chs)) = set (pages_of ?L)" "distinct (concat (map snd ?chs)) = distinct (pages_of ?L)"
    by (auto simp: pages_of_def row_chains_def comp_def)
  have lk: "\<forall>(h, qs) \<in> set ?chs. linked ?v h qs"
  proof -
    have l: "list_all2 (row_stored ?v) (row_slots ?L) (rel_rows (db ! i))" using t(1) by (simp add: table_stored_def)
    have "linked ?v h qs" if "(rid, h, qs) \<in> set (row_slots ?L)" for rid h qs
    proof -
      from that obtain k where k: "k < length (row_slots ?L)" "row_slots ?L ! k = (rid, h, qs)" by (auto simp: in_set_conv_nth)
      show ?thesis using list_all2_nthD[OF l k(1)] k(2) by (simp add: row_stored_def blob_def split: prod.splits)
    qed
    moreover have "linked ?v (data_head (cat ! i)) (index_pages ?L)" "linked ?v (schema_head (cat ! i)) (schema_pages ?L)"
      using t(1) by (simp_all add: table_stored_def blob_def)
    ultimately show ?thesis by auto
  qed
  have d: "distinct (concat (map snd ?chs))" "set (concat (map snd ?chs)) \<subseteq> ?U" unfolding pgs using dist U by auto
  from free_many[OF parts(1,2) lk d] obtain s1 ps1 where
    1: "forM (map fst ?chs) (free_chain ops) s = Some (Inr (), s1)" "pager_ok ops media good s1" "alloc_ok media s1 ps1"
      "used s1 ps1 = ?U - set (pages_of ?L)" "\<forall>q. q \<notin> set (pages_of ?L) \<longrightarrow> content media s1 q = ?v q"
      "catalog_head (sb s1) = catalog_head (sb s)" unfolding pgs by blast
  have heads: "forM (live_slots ?L) (\<lambda>(_, head). free_chain ops head) = forM (map fst (map snd (row_slots ?L))) (free_chain ops)"
    by (simp add: live_slots_def forM_map comp_def)
  have run: "body s = store_catalog ops (remove_at i cat) s1"
  proof -
    have "body = bindM (forM (map fst ?chs) (free_chain ops)) (\<lambda>_. store_catalog ops (remove_at i cat))"
      unfolding body_def heads map_append forM_append bindM_assoc by (simp add: bindM_assoc)
    then show ?thesis using bindM_Inr[where m = "forM (map fst ?chs) (free_chain ops)", OF 1(1)] by simp
  qed
  have all: "all_pages cps (remove_at i Ls) = cps @ other_pages i Ls" by (simp add: all_pages_def other_pages_def remove_at_def)
  have "uncatalogued ops media good s1 ps1 (remove_at i cat) cps (remove_at i Ls) (drop_db db i)"
    unfolding uncatalogued_def all drop_db_def
  proof (intro conjI)
    show "tables_stored (content media s1) (remove_at i cat) (remove_at i Ls) (remove_at i db)"
    proof (rule tables_stored_remove[OF parts(3) i])
      fix p assume "p \<in> set (other_pages i Ls)"
      then have "p \<notin> set (pages_of ?L)" using dist by auto
      then show "?v p = content media s1 p" using 1(5) by simp
    qed
    show "linked (content media s1) (catalog_head (sb s1)) cps"
    proof -
      have "content media s1 p = ?v p" if p: "p \<in> set cps" for p
      proof -
        have "p \<notin> set (pages_of ?L)" using p dist by auto
        then show ?thesis using 1(5) by simp
      qed
      then have "linked (content media s1) (catalog_head (sb s)) cps = linked ?v (catalog_head (sb s)) cps" by (rule linked_cong)
      then show ?thesis using parts(4) 1(6) by simp
    qed
    show "distinct (cps @ other_pages i Ls)" using dist by auto
    show "set (cps @ other_pages i Ls) = used s1 ps1" unfolding 1(4) U using dist by auto
  qed (use 1 in simp_all)
  from staged_finish[OF this] show ?thesis unfolding run by blast
qed

end

section \<open>Renaming a column\<close>

text \<open>The new schemas of all tables: \<open>F\<close> gives the new schema of a table, or leaves it.\<close>

definition reschema :: "(rel \<Rightarrow> table option) \<Rightarrow> rel \<Rightarrow> rel" where
  "reschema F r = (case F r of None \<Rightarrow> r | Some t \<Rightarrow> r\<lparr>rel_schema := t\<rparr>)"

context block_device
begin

lemma staged_schema:
  assumes sg: "uncatalogued ops media good s ps cat cps Ls db" and i: "i < length db"
  shows "computes ops media good s (schema_of ops (cat ! i)) (Inr (rel_schema (db ! i)))"
proof -
  note t = staged_table[OF sg i]
  have "set (all_pages cps Ls) = used s ps" "pager_ok ops media good s" using stagedD[OF sg] by simp_all
  moreover have "set (schema_pages (Ls ! i)) \<subseteq> set (all_pages cps Ls)"
    using all_pages_table[of i Ls _ cps] t by (auto simp: pages_of_def)
  ultimately have "\<forall>p \<in> set (schema_pages (Ls ! i)). data_page s p" by (auto simp: used_def data_page_def pager_ok_def)
  then have c: "computes ops media good s (read_chain ops (schema_head (cat ! i))) (Inr (encode_table (rel_schema (db ! i))))"
    using t by (intro computes_chain) (simp_all add: table_stored_def)
  have "decode_table (encode_table (rel_schema (db ! i))) = Inr (rel_schema (db ! i))"
    using t by (intro schema_roundtrip) (simp add: table_stored_def)
  then show ?thesis unfolding schema_of_def by (intro computes_bind[OF c]) (simp add: comp)
qed

lemma staged_cache:
  "uncatalogued ops media good s ps cat cps Ls db \<Longrightarrow> pager_ok ops media good (s\<lparr>cache := c\<rparr>) \<Longrightarrow> uncatalogued ops media good (s\<lparr>cache := c\<rparr>) ps cat cps Ls db"
  by (simp add: uncatalogued_def alloc_ok_def content_def used_def)

lemma reschema_loop:
  assumes "uncatalogued ops media good s ps (pre @ rest) cps Ls (done' @ todo)" "length pre = length done'" "length rest = length todo"
    "\<forall>r \<in> set todo. \<forall>t. F r = Some t \<longrightarrow> wf_table t"
    and step: "\<And>e r. cat_name e = rel_name r \<Longrightarrow> P e (rel_schema r) = F r"
  shows "(\<exists>t ps' rest' Ls'. mapM rest (\<lambda>e. bindM (schema_of ops e) (\<lambda>ot. case P e ot of None \<Rightarrow> returnM e
        | Some nt \<Rightarrow> bindM (write_chain ops (encode_table nt)) (\<lambda>sh. bindM (free_chain ops (schema_head e)) (\<lambda>_.
            returnM (e\<lparr>schema_head := sh\<rparr>))))) s = Some (Inr rest', t) \<and>
      uncatalogued ops media good t ps' (pre @ rest') cps Ls' (done' @ map (reschema F) todo)) \<or>
    (\<exists>t. mapM rest (\<lambda>e. bindM (schema_of ops e) (\<lambda>ot. case P e ot of None \<Rightarrow> returnM e
        | Some nt \<Rightarrow> bindM (write_chain ops (encode_table nt)) (\<lambda>sh. bindM (free_chain ops (schema_head e)) (\<lambda>_.
            returnM (e\<lparr>schema_head := sh\<rparr>))))) s = Some (Inl OutOfSpace, t) \<and> pager_ok ops media good t)"
  using assms(1-4)
proof (induction rest arbitrary: s ps pre Ls done' todo)
  case Nil
  then show ?case by auto
next
  case (Cons e rest)
  obtain r todo' where todo: "todo = r # todo'" using Cons.prems(3) by (cases todo) auto
  let ?step = "\<lambda>e. bindM (schema_of ops e) (\<lambda>ot. case P e ot of None \<Rightarrow> returnM e
        | Some nt \<Rightarrow> bindM (write_chain ops (encode_table nt)) (\<lambda>sh. bindM (free_chain ops (schema_head e)) (\<lambda>_.
            returnM (e\<lparr>schema_head := sh\<rparr>))))"
  let ?i = "length done'" and ?cat = "pre @ e # rest" and ?db = "done' @ r # todo'"
  have i: "?i < length ?db" by simp
  have at: "?cat ! ?i = e" "?db ! ?i = r" using Cons.prems(2) nth_append_length[of pre] by simp_all
  note sg = Cons.prems(1)[unfolded todo]
  have name: "cat_name e = rel_name r" using staged_table[OF sg i] unfolding at by (simp add: table_stored_def)
  obtain c where c: "schema_of ops e s = Some (Inr (rel_schema r), s\<lparr>cache := c\<rparr>)" "pager_ok ops media good (s\<lparr>cache := c\<rparr>)"
    using staged_schema[OF sg i, unfolded at] stagedD(1)[OF sg] by (rule computesD)
  have sg': "uncatalogued ops media good (s\<lparr>cache := c\<rparr>) ps ?cat cps Ls ?db" by (rule staged_cache[OF sg c(2)])
  have st: "(\<exists>e' s2 ps2 Ls2. ?step e s = Some (Inr e', s2) \<and> uncatalogued ops media good s2 ps2 ((pre @ [e']) @ rest) cps Ls2 ((done' @ [reschema F r]) @ todo')) \<or>
      (\<exists>t. ?step e s = Some (Inl OutOfSpace, t) \<and> pager_ok ops media good t)"
  proof (cases "F r")
    case None
    have "?step e s = Some (Inr e, s\<lparr>cache := c\<rparr>)" using c(1) step[OF name] None by (simp add: bindM_def)
    moreover have "uncatalogued ops media good (s\<lparr>cache := c\<rparr>) ps ((pre @ [e]) @ rest) cps Ls ((done' @ [reschema F r]) @ todo')"
      using sg' None by (simp add: reschema_def)
    ultimately show ?thesis by blast
  next
    case (Some nt)
    have wf: "wf_table nt" using Cons.prems(4) todo Some by simp
    have upd: "?cat[?i := e\<lparr>schema_head := sh\<rparr>] = (pre @ [e\<lparr>schema_head := sh\<rparr>]) @ rest" for sh
      using Cons.prems(2) by (simp add: list_update_append)
    have dbu: "with_schema ?db ?i nt = (done' @ [reschema F r]) @ todo'" using Some by (simp add: with_schema_def reschema_def list_update_append)
    have run: "?step e s = bindM (write_chain ops (encode_table nt)) (\<lambda>sh. bindM (free_chain ops (schema_head e)) (\<lambda>_.
            returnM (e\<lparr>schema_head := sh\<rparr>))) (s\<lparr>cache := c\<rparr>)" using c(1) step[OF name] Some by (simp add: bindM_def)
    from schema_step[OF sg' i wf, unfolded at upd dbu] show ?thesis
      unfolding run by (elim disjE exE conjE) (fastforce simp: run_simps)+
  qed
  from st show ?case
  proof (elim disjE exE conjE)
    fix t assume "?step e s = Some (Inl OutOfSpace, t)" "pager_ok ops media good t"
    then show ?thesis unfolding mapM.simps by (intro disjI2) (auto simp only: bindM_Inl)
  next
    fix e' s2 ps2 Ls2 assume 1: "?step e s = Some (Inr e', s2)"
      "uncatalogued ops media good s2 ps2 ((pre @ [e']) @ rest) cps Ls2 ((done' @ [reschema F r]) @ todo')"
    have l: "length (pre @ [e']) = length (done' @ [reschema F r])" "length rest = length todo'"
      "\<forall>r \<in> set todo'. \<forall>t. F r = Some t \<longrightarrow> wf_table t" using Cons.prems(2-4) todo by simp_all
    have run: "mapM (e # rest) ?step s = bindM (mapM rest ?step) (\<lambda>es. returnM (e' # es)) s2"
      unfolding mapM.simps by (rule bindM_Inr[where m = "?step e", OF 1(1)])
    from Cons.IH[OF 1(2) l] show ?thesis
    proof (elim disjE exE conjE)
      fix t assume 2: "mapM rest ?step s2 = Some (Inl OutOfSpace, t)" "pager_ok ops media good t"
      show ?thesis unfolding run todo bindM_Inl[where m = "mapM rest ?step", OF 2(1)] using 2(2) by blast
    next
      fix t ps' rest' Ls' assume 2: "mapM rest ?step s2 = Some (Inr rest', t)"
        "uncatalogued ops media good t ps' ((pre @ [e']) @ rest') cps Ls' ((done' @ [reschema F r]) @ map (reschema F) todo')"
      have "mapM (e # rest) ?step s = Some (Inr (e' # rest'), t)"
        unfolding run bindM_Inr[where m = "mapM rest ?step", OF 2(1)] by simp
      moreover have "uncatalogued ops media good t ps' (pre @ (e' # rest')) cps Ls' (done' @ map (reschema F) (r # todo'))" using 2(2) by simp
      ultimately show ?thesis unfolding todo by blast
    qed
  qed
qed

end

end
