(* ===== verification/Integrity_Schema.thy ===== *)
theory Integrity_Schema
  imports Store_Alter
begin

text \<open>
  The schema operations on databases: what each one checks, the database it leads to, and that the database stays consistent.
\<close>

section \<open>Columns by name\<close>

lemma column_index_distinct:
  "distinct (map col_name (columns t)) \<Longrightarrow> column_index t n = Some k \<longleftrightarrow> k < length (columns t) \<and> col_name (columns t ! k) = n"
proof
  assume d: "distinct (map col_name (columns t))" and k: "k < length (columns t) \<and> col_name (columns t ! k) = n"
  then have "column_index t n \<noteq> None" using position_None[of "\<lambda>c. col_name c = n" "columns t"] by (auto simp: column_index_def)
  then obtain k' where k': "column_index t n = Some k'" by blast
  then have "k' < length (columns t)" "col_name (columns t ! k') = n" using column_index_Some by auto
  then have "k' = k" using d k nth_eq_iff_index_eq[OF d, of k' k] by simp
  then show "column_index t n = Some k" using k' by simp
qed (use column_index_Some in blast)

lemma with_schema_sel [simp]:
  "length (with_schema db i t) = length db" "rel_name (with_schema db i t ! j) = rel_name (db ! j)"
  "rel_rows (with_schema db i t ! j) = rel_rows (db ! j)"
proof -
  have "with_schema db i t ! j = (if i = j \<and> i < length db then (db ! i)\<lparr>rel_schema := t\<rparr> else db ! j)"
    by (cases "i < length db") (simp_all add: with_schema_def nth_list_update list_update_beyond)
  then show "rel_name (with_schema db i t ! j) = rel_name (db ! j)" "rel_rows (with_schema db i t ! j) = rel_rows (db ! j)" by auto
qed (simp add: with_schema_def)

lemma alter_db_sel [simp]:
  "length (alter_db db i g t) = length db" "rel_name (alter_db db i g t ! j) = rel_name (db ! j)"
  "i < length db \<Longrightarrow> rel_rows (alter_db db i g t ! j) = (if j = i then map (apsnd g) (rel_rows (db ! i)) else rel_rows (db ! j))"
  "i < length db \<Longrightarrow> rel_schema (alter_db db i g t ! j) = (if j = i then t else rel_schema (db ! j))"
  by (simp_all add: alter_db_def with_rows_rows) (simp add: with_schema_def)

lemma find_names: "map rel_name db = map rel_name db' \<Longrightarrow> find_table db n = find_table db' n"
  by (simp add: find_table_def position_map[of "\<lambda>m. m = n" rel_name])

lemma alter_db_names [simp]: "map rel_name (alter_db db i g t) = map rel_name db"
  by (rule nth_equalityI) simp_all

lemma alter_db_find [simp]: "find_table (alter_db db i g t) n = find_table db n"
  by (rule find_names) simp

section \<open>Changing one schema\<close>

text \<open>
  \<open>S\<close> are the names of columns that must survive, at a place where rows have the same cell; \<open>T\<close> those that must stay UNIQUE if they
  were. New foreign keys must hold.
\<close>

lemma alter_consistent:
  assumes c: "consistent db" and i: "i < length db" and d: "distinct (map col_name (columns t))"
    and fit: "\<And>a. a \<in> set (rel_rows (db ! i)) \<Longrightarrow> row_fits (columns t) (g (snd a))"
    and uniq: "unique_rows (columns t) (map (apsnd g) (rel_rows (db ! i)))"
    and new: "\<And>fk. fk \<in> set (fks t) \<Longrightarrow> fk \<in> set (fks (rel_schema (db ! i))) \<or> fk_held (alter_db db i g t) i fk"
    and move: "\<And>k. k < length (cols (db ! i)) \<Longrightarrow> col_name (cols (db ! i) ! k) \<in> S \<Longrightarrow> \<exists>k' < length (columns t).
      col_name (columns t ! k') = col_name (cols (db ! i) ! k) \<and>
      (\<forall>a \<in> set (rel_rows (db ! i)). cell_at (g (snd a)) k' = cell_at (snd a) k) \<and>
      (col_name (cols (db ! i) ! k) \<in> T \<longrightarrow> unique (cols (db ! i) ! k) \<longrightarrow> unique (columns t ! k'))"
    and from_S: "\<And>fk. fk \<in> set (fks t) \<Longrightarrow> from_col fk \<in> S"
    and to_T: "\<And>j fk. j < length db \<Longrightarrow> j \<noteq> i \<Longrightarrow> fk \<in> set (fks (rel_schema (db ! j))) \<Longrightarrow> to_table fk = rel_name (db ! i) \<Longrightarrow> to_col fk \<in> S \<inter> T"
    and self_T: "\<And>fk. fk \<in> set (fks t) \<Longrightarrow> to_table fk = rel_name (db ! i) \<Longrightarrow> to_col fk \<in> S \<inter> T"
  shows "consistent (alter_db db i g t)"
proof -
  let ?db = "alter_db db i g t" and ?t = "rel_schema (db ! i)"
  have moved: "\<exists>k'. column_index t n = Some k' \<and> (\<forall>a \<in> set (rel_rows (db ! i)). cell_at (g (snd a)) k' = cell_at (snd a) k) \<and>
      (n \<in> T \<longrightarrow> unique (columns ?t ! k) \<longrightarrow> unique (columns t ! k'))"
    if k: "column_index ?t n = Some k" "n \<in> S" for n k
  proof -
    have "k < length (columns ?t)" "col_name (columns ?t ! k) = n" using column_index_Some[OF k(1)] by simp_all
    with move[of k] k(2) show ?thesis unfolding column_index_distinct[OF d] by auto
  qed
  have held: "fk_held ?db k fk" if k: "k < length db" and fk: "fk \<in> set (fks (rel_schema (?db ! k)))" for k fk
  proof (cases "k = i \<and> fk \<notin> set (fks ?t)")
    case True
    then show ?thesis using new fk i by auto
  next
    case False
    then have old: "fk \<in> set (fks (rel_schema (db ! k)))" using fk i by (auto split: if_splits)
    from consistentD(4)[OF c k old] obtain fi j tc where
      h: "column_index (rel_schema (db ! k)) (from_col fk) = Some fi" "fk_target db fk = Some (j, tc)" "unique (cols (db ! j) ! tc)"
        "\<And>a v. a \<in> set (rel_rows (db ! k)) \<Longrightarrow> cell_at (snd a) fi = Some v \<Longrightarrow> \<exists>b \<in> set (rel_rows (db ! j)). cell_at (snd b) tc = Some v"
      using fk_heldE by metis
    have tgt: "find_table db (to_table fk) = Inr j" "column_index (rel_schema (db ! j)) (to_col fk) = Some tc"
      using h(2) by (simp_all add: fk_target_Some)
    have nm: "rel_name (db ! j) = to_table fk" using find_table_bound[OF tgt(1)] by simp
    obtain fi' where fi': "column_index (rel_schema (?db ! k)) (from_col fk) = Some fi'"
      "\<And>a v. a \<in> set (rel_rows (?db ! k)) \<Longrightarrow> cell_at (snd a) fi' = Some v \<Longrightarrow> \<exists>b \<in> set (rel_rows (db ! k)). cell_at (snd b) fi = Some v"
    proof (cases "k = i")
      case True
      then have "from_col fk \<in> S" using from_S fk i by simp
      from moved[OF _ this] h(1) True obtain fi' where "column_index t (from_col fk) = Some fi'"
        "\<forall>a \<in> set (rel_rows (db ! i)). cell_at (g (snd a)) fi' = cell_at (snd a) fi" by blast
      then show thesis using that[of fi'] True i by force
    next
      case False
      then show thesis using that[of fi] h(1) i by auto
    qed
    obtain tc' where tc': "column_index (rel_schema (?db ! j)) (to_col fk) = Some tc'" "unique (cols (?db ! j) ! tc')"
      "\<And>b v. b \<in> set (rel_rows (db ! j)) \<Longrightarrow> cell_at (snd b) tc = Some v \<Longrightarrow> \<exists>b' \<in> set (rel_rows (?db ! j)). cell_at (snd b') tc' = Some v"
    proof (cases "j = i")
      case True
      have "to_col fk \<in> S \<inter> T"
        using to_T[OF k _ old] self_T[of fk] fk nm True i by (cases "k = i") auto
      with moved[of "to_col fk" tc] tgt(2) True obtain tc' where "column_index t (to_col fk) = Some tc'"
        "\<forall>a \<in> set (rel_rows (db ! i)). cell_at (g (snd a)) tc' = cell_at (snd a) tc" "unique (columns ?t ! tc) \<longrightarrow> unique (columns t ! tc')" by blast
      then show thesis using that[of tc'] True i h(3) by force
    next
      case False
      then show thesis using that[of tc] tgt(2) h(3) i by auto
    qed
    show ?thesis
    proof (rule fk_heldI[OF fi'(1) _ tc'(2)])
      show "fk_target ?db fk = Some (j, tc')" using tgt(1) tc'(1) by (simp add: fk_target_Some)
      fix a v assume "a \<in> set (rel_rows (?db ! k))" "cell_at (snd a) fi' = Some v"
      then show "\<exists>b \<in> set (rel_rows (?db ! j)). cell_at (snd b) tc' = Some v" using fi'(2) h(4) tc'(3) by metis
    qed
  qed
  have tab: "distinct (map col_name (cols (?db ! k))) \<and> distinct (map fst (rel_rows (?db ! k))) \<and>
      (\<forall>a \<in> set (rel_rows (?db ! k)). row_fits (cols (?db ! k)) (snd a)) \<and> unique_rows (cols (?db ! k)) (rel_rows (?db ! k))"
    if k: "k < length db" for k
  proof (cases "k = i")
    case True
    have "map fst (map (apsnd g) (rel_rows (db ! i))) = map fst (rel_rows (db ! i))" by simp
    then show ?thesis using True i d fit uniq consistentD(1)[OF c i] by auto
  next
    case False
    then show ?thesis using consistentD(1,2,3,5)[OF c k] i by auto
  qed
  have "distinct (map rel_name ?db)" using c by (simp add: consistent_def)
  then show ?thesis unfolding consistent_def using tab held by simp
qed

section \<open>What the schema operations do to a database\<close>

definition drop_cell :: "nat \<Rightarrow> row \<Rightarrow> row" where
  "drop_cell idx cells = (if idx < length cells then remove_at idx cells else cells)"

definition no_target :: "database \<Rightarrow> string \<Rightarrow> string \<Rightarrow> (rel \<Rightarrow> string) \<Rightarrow> unit result" where
  "no_target db name col msg = eachR db (\<lambda>r. if targets name col (rel_schema r) then Inl (SchemaRejected (msg r)) else Inr ())"

lemma no_target_ok: "no_target db name col msg = Inr () \<longleftrightarrow> (\<forall>r \<in> set db. \<not> targets name col (rel_schema r))"
  by (auto simp: no_target_def eachR_ok)

text \<open>
  For every operation that changes one schema: the error, or the table that changes, the change of its rows, and its new schema.
\<close>

fun alteration :: "database \<Rightarrow> operation \<Rightarrow> (nat \<times> (row \<Rightarrow> row) option \<times> table) result" where
  "alteration db (AddColumn name col) =
     bindR (if \<not> nullable col then bindR (find_table db name) (\<lambda>i. if rel_rows (db ! i) \<noteq> []
         then Inl (SchemaRejected ''table has rows; a new column must be nullable (existing rows receive NULL)'') else Inr ())
       else Inr ()) (\<lambda>_.
     bindR (find_table db name) (\<lambda>i. let t = rel_schema (db ! i) in
     if column_named t (col_name col) \<noteq> None then Inl (Duplicate (''column '' @ quoted (col_name col)))
     else Inr (i, Some (\<lambda>cells. cells @ [None]), t\<lparr>columns := columns t @ [col]\<rparr>)))"
| "alteration db (DropColumn name col) =
     bindR (find_table db name) (\<lambda>i. let t = rel_schema (db ! i) in
     bindR (ok_or (column_not_found col) (column_index t col)) (\<lambda>idx.
     if \<exists>f \<in> set (fks t). from_col f = col then Inl (SchemaRejected (''column '' @ quoted col @ '' carries a foreign key''))
     else bindR (no_target db name col (\<lambda>r. ''column '' @ quoted col @ '' is targeted by a foreign key in '' @ quoted (rel_name r))) (\<lambda>_.
       Inr (i, Some (drop_cell idx), t\<lparr>columns := remove_at idx (columns t), ref_cols := filter (\<lambda>n. n \<noteq> col) (ref_cols t)\<rparr>))))"
| "alteration db (MoveColumn name col new) =
     bindR (find_table db name) (\<lambda>i. let t = rel_schema (db ! i); n = length (columns t) in
     bindR (ok_or (column_not_found col) (column_index t col)) (\<lambda>old.
     if new \<ge> n then Inl (SchemaRejected (''new column index '' @ dec_of_nat new @ '' out of range (0..'' @ dec_of_nat n @ '')''))
     else if new = old then Inr (i, None, t)
     else Inr (i, Some (permute_row (move_perm n old new) n),
       t\<lparr>columns := insert_at new (columns t ! old) (remove_at old (columns t))\<rparr>)))"
| "alteration db (SetUnique name col uq) =
     bindR (find_table db name) (\<lambda>i. let t = rel_schema (db ! i) in
     bindR (ok_or (column_not_found col) (column_index t col)) (\<lambda>ci.
     bindR (if \<not> uq then no_target db name col (\<lambda>_. quoted col @ '' is a foreign-key target and must stay UNIQUE'')
       else if first_dup [] (map (\<lambda>a. cell_at (snd a) ci) (rel_rows (db ! i)))
       then Inl (SchemaRejected (''column '' @ quoted col @ '' already contains duplicate values'')) else Inr ()) (\<lambda>_.
     Inr (i, None, t\<lparr>columns := (columns t)[ci := (columns t ! ci)\<lparr>unique := uq\<rparr>]\<rparr>))))"
| "alteration db (AddFk name fc tot toc) =
     bindR (find_table db name) (\<lambda>i. let t = rel_schema (db ! i) in
     bindR (ok_or (column_not_found fc) (column_named t fc)) (\<lambda>c.
     bindR (find_table db tot) (\<lambda>j. let tt = rel_schema (db ! j) in
     bindR (ok_or (column_not_found (tot @ ''.'' @ toc)) (column_named tt toc)) (\<lambda>tc.
     if \<not> unique tc then Inl (SchemaRejected (''foreign-key target '' @ quoted (tot @ ''.'' @ toc) @ '' must be UNIQUE''))
     else if ty c \<noteq> ty tc then Inl (SchemaRejected ''foreign-key column and target must share a type'')
     else case (column_index t fc, column_index tt toc, fresh_fk (map fk_name (fks t)) fc (fc @ ''_fk'') 2) of
       (Some fci, Some tci, Some name_fk) \<Rightarrow>
         bindR (eachR (map (\<lambda>a. cell_at (snd a) fci) (rel_rows (db ! i))) (\<lambda>ov. case ov of None \<Rightarrow> Inr ()
           | Some v \<Rightarrow> if Some v \<in> set (map (\<lambda>b. cell_at (snd b) tci) (rel_rows (db ! j))) then Inr ()
               else Inl (SchemaRejected (''existing value '' @ display v @ '' has no match in '' @ tot @ ''.'' @ toc)))) (\<lambda>_.
         Inr (i, None, t\<lparr>fks := fks t @ [\<lparr>fk_name = name_fk, from_col = fc, to_table = tot, to_col = toc\<rparr>]\<rparr>))
     | _ \<Rightarrow> Inl (Corrupt ''unreachable'')))))"
| "alteration db (DropFk name fkn) =
     bindR (find_table db name) (\<lambda>i. let t = rel_schema (db ! i); kept = filter (\<lambda>f. fk_name f \<noteq> fkn) (fks t) in
     if length kept = length (fks t) then Inl (NotFound (''foreign key '' @ quoted fkn)) else Inr (i, None, t\<lparr>fks := kept\<rparr>))"
| "alteration db (SetReferenceColumns name cs) =
     bindR (find_table db name) (\<lambda>i. let t = rel_schema (db ! i) in
     bindR (check_ref_cols t [] cs) (\<lambda>_. Inr (i, None, t\<lparr>ref_cols := cs\<rparr>)))"
| "alteration db (SetDisplayWidth name col w) =
     bindR (find_table db name) (\<lambda>i. let t = rel_schema (db ! i) in
     bindR (ok_or (column_not_found col) (column_index t col)) (\<lambda>ci.
     Inr (i, None, t\<lparr>columns := (columns t)[ci := (columns t ! ci)\<lparr>display_width := w\<rparr>]\<rparr>)))"
| "alteration db _ = Inl (Corrupt ''unreachable'')"

section \<open>The alterations keep a database consistent\<close>

lemma unique_rows_map:
  assumes "unique_rows cs rows" "\<And>ci. ci < length cs' \<Longrightarrow> unique (cs' ! ci) \<Longrightarrow>
      (\<exists>k < length cs. unique (cs ! k) \<and> (\<forall>a \<in> set rows. cell_at (g (snd a)) ci = cell_at (snd a) k)) \<or>
      (\<forall>a \<in> set rows. cell_at (g (snd a)) ci = None)"
  shows "unique_rows cs' (map (apsnd g) rows)"
  unfolding unique_rows_def
proof (intro allI impI ballI)
  fix ci a b assume ci: "ci < length cs'" "unique (cs' ! ci)" and ab: "a \<in> set (map (apsnd g) rows)" "b \<in> set (map (apsnd g) rows)"
    and d: "fst a \<noteq> fst b \<and> cell_at (snd a) ci \<noteq> None"
  from ab obtain a' b' where a': "a' \<in> set rows" "a = apsnd g a'" and b': "b' \<in> set rows" "b = apsnd g b'" by auto
  from assms(2)[OF ci] show "cell_at (snd a) ci \<noteq> cell_at (snd b) ci"
  proof (elim disjE exE conjE)
    fix k assume k: "k < length cs" "unique (cs ! k)" "\<forall>a \<in> set rows. cell_at (g (snd a)) ci = cell_at (snd a) k"
    have "cell_at (snd a) ci = cell_at (snd a') k" "cell_at (snd b) ci = cell_at (snd b') k" "fst a = fst a'" "fst b = fst b'"
      using k(3) a' b' by simp_all
    moreover from this have "cell_at (snd a') k \<noteq> cell_at (snd b') k"
      using assms(1) k(1,2) a'(1) b'(1) d unfolding unique_rows_def by metis
    ultimately show ?thesis by simp
  next
    assume "\<forall>a \<in> set rows. cell_at (g (snd a)) ci = None"
    then show ?thesis using a' d by simp
  qed
qed

lemma cell_at_append: "k < length r \<Longrightarrow> cell_at (r @ x) k = cell_at r k"
  by (simp add: cell_at_def nth_append)

lemma row_fits_length: "row_fits cs r \<Longrightarrow> length r = length cs"
  by (simp add: row_fits_def)

lemma column_named_None: "column_named t n = None \<longleftrightarrow> n \<notin> col_name ` set (columns t)"
  by (auto simp: column_named_def find_None_iff)

lemma add_column_consistent:
  assumes c: "consistent db" and i: "i < length db" and new: "col_name col \<notin> col_name ` set (cols (db ! i))"
    and null: "nullable col \<or> rel_rows (db ! i) = []"
  shows "consistent (alter_db db i (\<lambda>cells. cells @ [None]) ((rel_schema (db ! i))\<lparr>columns := cols (db ! i) @ [col]\<rparr>))"
proof (rule alter_consistent[OF c i, where S = UNIV and T = UNIV])
  let ?t = "(rel_schema (db ! i))\<lparr>columns := cols (db ! i) @ [col]\<rparr>"
  have len: "length (snd a) = length (cols (db ! i))" if "a \<in> set (rel_rows (db ! i))" for a
    using consistentD(2)[OF c i that] by (rule row_fits_length)
  show "distinct (map col_name (columns ?t))" using consistentD(5)[OF c i] new by auto
  show "row_fits (columns ?t) (snd a @ [None])" if a: "a \<in> set (rel_rows (db ! i))" for a
  proof -
    have "check_cell col None = Inr ()" using null a by (auto simp: check_cell_def)
    then show ?thesis using consistentD(2)[OF c i a] by (auto simp: row_fits_def nth_append less_Suc_eq)
  qed
  show "unique_rows (columns ?t) (map (apsnd (\<lambda>cells. cells @ [None])) (rel_rows (db ! i)))"
  proof (rule unique_rows_map[OF consistentD(3)[OF c i]])
    fix ci assume "ci < length (columns ?t)" "unique (columns ?t ! ci)"
    then consider "ci < length (cols (db ! i))" "unique (cols (db ! i) ! ci)" | "ci = length (cols (db ! i))"
      by (fastforce simp: nth_append less_Suc_eq)
    then show "(\<exists>k < length (cols (db ! i)). unique (cols (db ! i) ! k) \<and> (\<forall>a \<in> set (rel_rows (db ! i)). cell_at (snd a @ [None]) ci = cell_at (snd a) k)) \<or>
      (\<forall>a \<in> set (rel_rows (db ! i)). cell_at (snd a @ [None]) ci = None)"
    proof cases
      case 1
      then show ?thesis using len by (intro disjI1 exI[of _ ci]) (simp add: cell_at_append)
    next
      case 2
      then show ?thesis using len by (intro disjI2 ballI) (simp add: cell_at_def nth_append)
    qed
  qed
  show "\<exists>k' < length (columns ?t). col_name (columns ?t ! k') = col_name (cols (db ! i) ! k) \<and>
      (\<forall>a \<in> set (rel_rows (db ! i)). cell_at (snd a @ [None]) k' = cell_at (snd a) k) \<and>
      (col_name (cols (db ! i) ! k) \<in> UNIV \<longrightarrow> unique (cols (db ! i) ! k) \<longrightarrow> unique (columns ?t ! k'))"
    if "k < length (cols (db ! i))" for k
    using that len by (intro exI[of _ k]) (simp add: nth_append cell_at_append)
qed simp_all

lemma remove_at_cell:
  assumes "idx < length r" "k < length r" "k \<noteq> idx"
  shows "remove_at idx r ! (if k < idx then k else k - 1) = r ! k" "(if k < idx then k else k - 1) < length (remove_at idx r)"
  using assms by (auto simp: remove_at_def nth_append min_def)

lemma remove_at_from: "idx < length xs \<Longrightarrow> j < length xs - 1 \<Longrightarrow> remove_at idx xs ! j = xs ! (if j < idx then j else Suc j)"
  by (rule remove_at_nth)

lemma distinct_remove_at: "distinct xs \<Longrightarrow> distinct (remove_at idx xs)"
proof -
  assume d: "distinct xs"
  have "set (take idx xs) \<inter> set (drop (Suc idx) xs) = {}" using d by (simp add: set_take_disj_set_drop_if_distinct)
  then show ?thesis using d by (simp add: remove_at_def)
qed

lemma drop_column_consistent:
  assumes c: "consistent db" and i: "i < length db" and idx: "column_index (rel_schema (db ! i)) col = Some idx"
    and src: "\<forall>f \<in> set (fks (rel_schema (db ! i))). from_col f \<noteq> col"
    and tgt: "\<forall>r \<in> set db. \<not> targets (rel_name (db ! i)) col (rel_schema r)"
  shows "consistent (alter_db db i (drop_cell idx)
    ((rel_schema (db ! i))\<lparr>columns := remove_at idx (cols (db ! i)), ref_cols := rc\<rparr>))"
proof (rule alter_consistent[OF c i, where S = "- {col}" and T = "- {col}"])
  let ?cs = "cols (db ! i)"
  let ?t = "(rel_schema (db ! i))\<lparr>columns := remove_at idx ?cs, ref_cols := rc\<rparr>"
  have ix: "idx < length ?cs" "col_name (?cs ! idx) = col" using column_index_Some[OF idx] by simp_all
  have fits: "row_fits ?cs (snd a)" "length (snd a) = length ?cs" if "a \<in> set (rel_rows (db ! i))" for a
    using consistentD(2)[OF c i that] by (simp_all add: row_fits_length)
  show "distinct (map col_name (columns ?t))" using distinct_remove_at[OF consistentD(5)[OF c i]] by (simp add: map_remove_at)
  show "row_fits (columns ?t) (drop_cell idx (snd a))" if a: "a \<in> set (rel_rows (db ! i))" for a
    using fits[OF a] ix(1) by (auto simp: row_fits_def drop_cell_def remove_at_length remove_at_nth)
  have cell: "cell_at (drop_cell idx (snd a)) j = cell_at (snd a) (if j < idx then j else Suc j)"
    if "a \<in> set (rel_rows (db ! i))" "j < length ?cs - 1" for a j
    using fits[OF that(1)] that(2) ix(1) by (auto simp: drop_cell_def cell_at_def remove_at_length remove_at_nth)
  show "unique_rows (columns ?t) (map (apsnd (drop_cell idx)) (rel_rows (db ! i)))"
  proof (rule unique_rows_map[OF consistentD(3)[OF c i]], rule disjI1)
    fix ci assume ci: "ci < length (columns ?t)" "unique (columns ?t ! ci)"
    then have "ci < length ?cs - 1" using ix(1) by (simp add: remove_at_length)
    then show "\<exists>k < length ?cs. unique (?cs ! k) \<and> (\<forall>a \<in> set (rel_rows (db ! i)). cell_at (drop_cell idx (snd a)) ci = cell_at (snd a) k)"
      using ci(2) ix(1) cell by (intro exI[of _ "if ci < idx then ci else Suc ci"]) (auto simp: remove_at_nth)
  qed
  show "\<exists>k' < length (columns ?t). col_name (columns ?t ! k') = col_name (?cs ! k) \<and>
      (\<forall>a \<in> set (rel_rows (db ! i)). cell_at (drop_cell idx (snd a)) k' = cell_at (snd a) k) \<and>
      (col_name (?cs ! k) \<in> - {col} \<longrightarrow> unique (?cs ! k) \<longrightarrow> unique (columns ?t ! k'))"
    if k: "k < length ?cs" "col_name (?cs ! k) \<in> - {col}" for k
  proof -
    have ne: "k \<noteq> idx" using k(2) ix(2) by auto
    let ?k = "if k < idx then k else k - 1"
    have l: "?k < length ?cs - 1" and bk: "(if ?k < idx then ?k else Suc ?k) = k" using ne k(1) ix(1) by auto
    have "columns ?t ! ?k = ?cs ! k" using remove_at_nth[OF ix(1) l] bk by simp
    moreover have "cell_at (drop_cell idx (snd a)) ?k = cell_at (snd a) k" if "a \<in> set (rel_rows (db ! i))" for a
      using cell[OF that l] bk by simp
    ultimately show ?thesis using l ix(1) by (intro exI[of _ ?k]) (simp add: remove_at_length)
  qed
  show "to_col fk \<in> - {col} \<inter> - {col}" if "j < length db" "fk \<in> set (fks (rel_schema (db ! j)))" "to_table fk = rel_name (db ! i)" for j fk
    using tgt that by (auto simp: targets_def)
  show "to_col fk \<in> - {col} \<inter> - {col}" if "fk \<in> set (fks ?t)" "to_table fk = rel_name (db ! i)" for fk
    using tgt that i by (auto simp: targets_def)
qed (use src in auto)

text \<open>Moving an element is a permutation, the same for every list of a length.\<close>

lemma moved_perm:
  assumes "old < n" "new < n" "length xs = n"
  shows "insert_at new (xs ! old) (remove_at old xs) = map ((!) xs) (move_perm n old new)"
proof -
  have "map ((!) xs) (move_perm n old new) = insert_at new (xs ! old) (remove_at old (map ((!) xs) [0..<n]))"
    unfolding move_perm_def map_insert_at map_remove_at using assms(1) by simp
  also have "map ((!) xs) [0..<n] = xs" using assms(3) map_nth[of xs] by simp
  finally show ?thesis by simp
qed

lemma set_move_perm: "old < n \<Longrightarrow> new < n \<Longrightarrow> set (move_perm n old new) = {..<n} \<and> distinct (move_perm n old new)"
proof -
  assume o: "old < n" "new < n"
  let ?xs = "[0..<n]" and ?r = "remove_at old [0..<n]"
  have r: "set ?r = {..<n} - {old}" "distinct ?r"
  proof -
    have "?r = [0..<old] @ [Suc old..<n]" using o by (simp add: remove_at_def)
    then show "set ?r = {..<n} - {old}" "distinct ?r" using o by auto
  qed
  have "set (move_perm n old new) = insert old (set ?r)"
  proof -
    have "set (take new ?r) \<union> set (drop new ?r) = set ?r" by (metis append_take_drop_id set_append)
    then show ?thesis using o by (auto simp: move_perm_def insert_at_def)
  qed
  moreover have "distinct (move_perm n old new)"
  proof -
    have "set (take new ?r) \<inter> set (drop new ?r) = {}" using r(2) by (rule set_take_disj_set_drop_if_distinct) simp
    moreover have "old \<notin> set (take new ?r)" "old \<notin> set (drop new ?r)" using r(1) by (auto dest: in_set_takeD in_set_dropD)
    ultimately show ?thesis using r(2) o by (simp add: move_perm_def insert_at_def)
  qed
  ultimately show ?thesis using r(1) o by auto
qed

lemma move_column_consistent:
  assumes c: "consistent db" and i: "i < length db" and o: "old < length (cols (db ! i))" "new < length (cols (db ! i))"
  shows "consistent (alter_db db i (permute_row (move_perm (length (cols (db ! i))) old new) (length (cols (db ! i))))
    ((rel_schema (db ! i))\<lparr>columns := insert_at new (cols (db ! i) ! old) (remove_at old (cols (db ! i)))\<rparr>))"
proof (rule alter_consistent[OF c i, where S = UNIV and T = UNIV])
  let ?cs = "cols (db ! i)" and ?n = "length (cols (db ! i))"
  let ?p = "move_perm ?n old new"
  let ?t = "(rel_schema (db ! i))\<lparr>columns := insert_at new (?cs ! old) (remove_at old ?cs)\<rparr>"
  note sp = set_move_perm[OF o]
  have lp: "length ?p = ?n" by (rule move_perm_length[OF o])
  have cs: "columns ?t = map ((!) ?cs) ?p" using moved_perm[OF o, of ?cs] by simp
  have row: "permute_row ?p ?n (snd a) = map ((!) (snd a)) ?p" if "a \<in> set (rel_rows (db ! i))" for a
    using permute_row_moves[OF _ o] moved_perm[OF o] row_fits_length[OF consistentD(2)[OF c i that]] by simp
  have pn: "?p ! j < ?n" if "j < ?n" for j using sp lp that nth_mem[of j ?p] by simp
  have cell: "cell_at (permute_row ?p ?n (snd a)) j = cell_at (snd a) (?p ! j)" if "a \<in> set (rel_rows (db ! i))" "j < ?n" for a j
    using row[OF that(1)] that(2) lp pn[OF that(2)] row_fits_length[OF consistentD(2)[OF c i that(1)]] by (simp add: cell_at_def)
  show "distinct (map col_name (columns ?t))"
  proof -
    have "map col_name (columns ?t) = map ((!) (map col_name ?cs)) ?p" unfolding cs using pn sp by (auto simp: comp_def)
    moreover have "inj_on ((!) (map col_name ?cs)) (set ?p)"
      using consistentD(5)[OF c i] sp by (intro inj_on_nth) auto
    ultimately show ?thesis using sp by (simp add: distinct_map)
  qed
  show "row_fits (columns ?t) (permute_row ?p ?n (snd a))" if a: "a \<in> set (rel_rows (db ! i))" for a
    using consistentD(2)[OF c i a] pn unfolding row[OF a] cs by (simp add: row_fits_def lp)
  show "unique_rows (columns ?t) (map (apsnd (permute_row ?p ?n)) (rel_rows (db ! i)))"
  proof (rule unique_rows_map[OF consistentD(3)[OF c i]], rule disjI1)
    fix ci assume ci: "ci < length (columns ?t)" "unique (columns ?t ! ci)"
    then have l: "ci < ?n" by (simp add: cs lp)
    then show "\<exists>k < ?n. unique (?cs ! k) \<and> (\<forall>a \<in> set (rel_rows (db ! i)). cell_at (permute_row ?p ?n (snd a)) ci = cell_at (snd a) k)"
      using ci(2) pn[OF l] cell lp unfolding cs by (intro exI[of _ "?p ! ci"]) simp
  qed
  show "\<exists>k' < length (columns ?t). col_name (columns ?t ! k') = col_name (?cs ! k) \<and>
      (\<forall>a \<in> set (rel_rows (db ! i)). cell_at (permute_row ?p ?n (snd a)) k' = cell_at (snd a) k) \<and>
      (col_name (?cs ! k) \<in> UNIV \<longrightarrow> unique (?cs ! k) \<longrightarrow> unique (columns ?t ! k'))"
    if k: "k < ?n" for k
  proof -
    have "k \<in> set ?p" using sp k by simp
    then obtain k' where k': "k' < ?n" "?p ! k' = k" by (auto simp: in_set_conv_nth lp)
    then show ?thesis using cell lp unfolding cs by (intro exI[of _ k']) simp
  qed
qed simp_all

text \<open>Alterations that keep columns in place.\<close>

lemma same_columns_consistent:
  assumes c: "consistent db" and i: "i < length db"
    and cs: "length (columns t) = length (cols (db ! i))"
      "\<And>k. k < length (cols (db ! i)) \<Longrightarrow> col_name (columns t ! k) = col_name (cols (db ! i) ! k) \<and>
         nullable (columns t ! k) = nullable (cols (db ! i) ! k) \<and> ty (columns t ! k) = ty (cols (db ! i) ! k)"
    and uq: "\<And>k. k < length (cols (db ! i)) \<Longrightarrow> unique (columns t ! k) \<Longrightarrow> unique (cols (db ! i) ! k) \<or>
      (\<forall>a \<in> set (rel_rows (db ! i)). \<forall>b \<in> set (rel_rows (db ! i)). fst a \<noteq> fst b \<and> cell_at (snd a) k \<noteq> None \<longrightarrow> cell_at (snd a) k \<noteq> cell_at (snd b) k)"
    and keep: "\<And>k. k < length (cols (db ! i)) \<Longrightarrow> unique (cols (db ! i) ! k) \<Longrightarrow> \<not> unique (columns t ! k) \<Longrightarrow>
      (\<forall>r \<in> set db. \<not> targets (rel_name (db ! i)) (col_name (cols (db ! i) ! k)) (rel_schema r)) \<and> fks t = fks (rel_schema (db ! i))"
    and new: "\<And>fk. fk \<in> set (fks t) \<Longrightarrow> fk \<in> set (fks (rel_schema (db ! i))) \<or> fk_held (with_schema db i t) i fk"
  shows "consistent (alter_db db i (\<lambda>r. r) t)"
proof (rule alter_consistent[OF c i, where S = UNIV and T = "{n. \<forall>k. k < length (cols (db ! i)) \<and> col_name (cols (db ! i) ! k) = n \<and>
    unique (cols (db ! i) ! k) \<longrightarrow> unique (columns t ! k)}"])
  let ?cs = "cols (db ! i)"
  have names: "map col_name (columns t) = map col_name ?cs" by (rule nth_equalityI) (use cs in simp_all)
  show "distinct (map col_name (columns t))" unfolding names by (rule consistentD(5)[OF c i])
  have chk: "check_cell (columns t ! k) x = Inr () \<longleftrightarrow> check_cell (?cs ! k) x = Inr ()" if "k < length ?cs" for k x
    using cs(2)[OF that] by (cases x) (auto simp: check_cell_def)
  show "row_fits (columns t) (snd a)" if "a \<in> set (rel_rows (db ! i))" for a
    using consistentD(2)[OF c i that] chk cs(1) by (simp add: row_fits_def)
  have "map (apsnd (\<lambda>r. r)) (rel_rows (db ! i)) = rel_rows (db ! i)" by (simp add: apsnd_def map_prod_def)
  moreover have "unique_rows (columns t) (rel_rows (db ! i))"
    using consistentD(3)[OF c i] uq unfolding unique_rows_def cs(1) by meson
  ultimately show "unique_rows (columns t) (map (apsnd (\<lambda>r. r)) (rel_rows (db ! i)))" by simp
  show "fk \<in> set (fks (rel_schema (db ! i))) \<or> fk_held (alter_db db i (\<lambda>r. r) t) i fk" if "fk \<in> set (fks t)" for fk
    using new[OF that] by (simp add: alter_db_same_rows)
  show "\<exists>k' < length (columns t). col_name (columns t ! k') = col_name (?cs ! k) \<and>
      (\<forall>a \<in> set (rel_rows (db ! i)). cell_at (snd a) k' = cell_at (snd a) k) \<and>
      (col_name (?cs ! k) \<in> {n. \<forall>k. k < length ?cs \<and> col_name (?cs ! k) = n \<and> unique (?cs ! k) \<longrightarrow> unique (columns t ! k)} \<longrightarrow>
        unique (?cs ! k) \<longrightarrow> unique (columns t ! k'))" if "k < length ?cs" for k
    using that cs by (intro exI[of _ k]) auto
  show "to_col fk \<in> UNIV \<inter> {n. \<forall>k. k < length ?cs \<and> col_name (?cs ! k) = n \<and> unique (?cs ! k) \<longrightarrow> unique (columns t ! k)}"
    if j: "j < length db" "fk \<in> set (fks (rel_schema (db ! j)))" "to_table fk = rel_name (db ! i)" for j fk
    using keep j by (fastforce simp: targets_def)
  show "to_col fk \<in> UNIV \<inter> {n. \<forall>k. k < length ?cs \<and> col_name (?cs ! k) = n \<and> unique (?cs ! k) \<longrightarrow> unique (columns t ! k)}"
    if f: "fk \<in> set (fks t)" "to_table fk = rel_name (db ! i)" for fk
    using keep f i by (fastforce simp: targets_def)
qed simp_all

lemma distinct_values:
  assumes "distinct (List.map_filter id (map f xs))" "a \<in> set xs" "b \<in> set xs" "a \<noteq> b" "f a \<noteq> None"
  shows "f a \<noteq> f b"
  using assms
proof (induction xs)
  case (Cons x xs)
  have m: "v \<in> set (List.map_filter id (map f xs)) \<longleftrightarrow> (\<exists>y \<in> set xs. f y = Some v)" for v
    by (induction xs) (auto simp: List.map_filter_def)
  have c: "List.map_filter id (map f (x # xs)) = (case f x of None \<Rightarrow> List.map_filter id (map f xs) | Some v \<Rightarrow> v # List.map_filter id (map f xs))"
    by (auto simp: List.map_filter_def split: option.splits)
  have d: "distinct (List.map_filter id (map f xs))" "f x = Some v \<Longrightarrow> y \<in> set xs \<Longrightarrow> f y \<noteq> Some v" for v y
    using Cons.prems(1) m[of v] unfolding c by (auto split: option.splits)
  show ?case
  proof (cases "a \<in> set xs \<and> b \<in> set xs")
    case True
    then show ?thesis using Cons.IH d(1) Cons.prems(4,5) by blast
  next
    case False
    then have "x = a \<and> b \<in> set xs \<or> x = b \<and> a \<in> set xs" using Cons.prems(2-4) by auto
    then show ?thesis using d(2) Cons.prems(5) by fastforce
  qed
qed simp

lemma set_unique_consistent:
  assumes c: "consistent db" and i: "i < length db" and ci: "column_index (rel_schema (db ! i)) col = Some ci"
    and chk: "if uq then \<not> first_dup [] (map (\<lambda>a. cell_at (snd a) ci) (rel_rows (db ! i)))
      else \<forall>r \<in> set db. \<not> targets (rel_name (db ! i)) col (rel_schema r)"
  shows "consistent (alter_db db i (\<lambda>r. r) ((rel_schema (db ! i))\<lparr>columns := (cols (db ! i))[ci := (cols (db ! i) ! ci)\<lparr>unique := uq\<rparr>]\<rparr>))"
proof (rule same_columns_consistent[OF c i])
  let ?cs = "cols (db ! i)" and ?rows = "rel_rows (db ! i)"
  let ?t = "(rel_schema (db ! i))\<lparr>columns := ?cs[ci := (?cs ! ci)\<lparr>unique := uq\<rparr>]\<rparr>"
  have ix: "ci < length ?cs" "col_name (?cs ! ci) = col" using column_index_Some[OF ci] by simp_all
  show "col_name (columns ?t ! k) = col_name (?cs ! k) \<and> nullable (columns ?t ! k) = nullable (?cs ! k) \<and> ty (columns ?t ! k) = ty (?cs ! k)"
    if "k < length ?cs" for k
    using that by (cases "k = ci") simp_all
  show "unique (?cs ! k) \<or> (\<forall>a \<in> set ?rows. \<forall>b \<in> set ?rows. fst a \<noteq> fst b \<and> cell_at (snd a) k \<noteq> None \<longrightarrow> cell_at (snd a) k \<noteq> cell_at (snd b) k)"
    if k: "k < length ?cs" "unique (columns ?t ! k)" for k
  proof (cases "k = ci")
    case True
    then have uq: "uq" using k ix by simp
    let ?vs = "map (\<lambda>a. cell_at (snd a) ci) ?rows"
    have "distinct (List.map_filter id ?vs)" using chk uq first_dup_iff[of "[]" ?vs] by simp
    then have "cell_at (snd a) ci \<noteq> cell_at (snd b) ci"
      if ab: "a \<in> set ?rows" "b \<in> set ?rows" "fst a \<noteq> fst b" "cell_at (snd a) ci \<noteq> None" for a b
      using distinct_values[of "\<lambda>a. cell_at (snd a) ci" ?rows a b] ab by auto
    then show ?thesis using True by blast
  qed (use k in simp)
  show "(\<forall>r \<in> set db. \<not> targets (rel_name (db ! i)) (col_name (?cs ! k)) (rel_schema r)) \<and> fks ?t = fks (rel_schema (db ! i))"
    if k: "k < length ?cs" "unique (?cs ! k)" "\<not> unique (columns ?t ! k)" for k
  proof -
    have "k = ci" using k by (cases "k = ci") simp_all
    moreover have "\<not> uq" using k ix \<open>k = ci\<close> by auto
    ultimately show ?thesis using chk ix by simp
  qed
qed simp_all

lemma add_fk_consistent:
  assumes c: "consistent db" and i: "i < length db" and fci: "column_index (rel_schema (db ! i)) fc = Some fci"
    and j: "find_table db tot = Inr j" and tci: "column_index (rel_schema (db ! j)) toc = Some tci" and uq: "unique (cols (db ! j) ! tci)"
    and vals: "\<forall>a \<in> set (rel_rows (db ! i)). cell_at (snd a) fci \<noteq> None \<longrightarrow> (\<exists>b \<in> set (rel_rows (db ! j)). cell_at (snd b) tci = cell_at (snd a) fci)"
  shows "consistent (alter_db db i (\<lambda>r. r) ((rel_schema (db ! i))\<lparr>fks := fks (rel_schema (db ! i)) @
    [\<lparr>fk_name = n, from_col = fc, to_table = tot, to_col = toc\<rparr>]\<rparr>))"
proof (rule same_columns_consistent[OF c i])
  let ?fk = "\<lparr>fk_name = n, from_col = fc, to_table = tot, to_col = toc\<rparr>"
  let ?t = "(rel_schema (db ! i))\<lparr>fks := fks (rel_schema (db ! i)) @ [?fk]\<rparr>"
  have sch: "columns (rel_schema (with_schema db i ?t ! k)) = columns (rel_schema (db ! k))" for k
    by (cases "k = i"; cases "i < length db") (simp_all add: with_schema_def list_update_beyond)
  have ci: "column_index (rel_schema (with_schema db i ?t ! k)) m = column_index (rel_schema (db ! k)) m" for k m
    by (simp add: column_index_def sch)
  have ft: "find_table (with_schema db i ?t) m = find_table db m" for m
    by (rule find_names) (rule nth_equalityI, simp_all)
  show "fk \<in> set (fks (rel_schema (db ! i))) \<or> fk_held (with_schema db i ?t) i fk" if "fk \<in> set (fks ?t)" for fk
  proof (cases "fk \<in> set (fks (rel_schema (db ! i)))")
    case False
    then have fk: "fk = ?fk" using that by simp
    have "fk_held (with_schema db i ?t) i ?fk"
    proof (rule fk_heldI[where fi = fci and j = j and tc = tci])
      show "fk_target (with_schema db i ?t) ?fk = Some (j, tci)" using j tci by (simp add: fk_target_Some ft ci)
      show "column_index (rel_schema (with_schema db i ?t ! i)) (from_col ?fk) = Some fci" using fci by (simp add: ci)
      show "unique (cols (with_schema db i ?t ! j) ! tci)" using uq by (simp add: sch)
      fix a v assume a: "a \<in> set (rel_rows (with_schema db i ?t ! i))" "cell_at (snd a) fci = Some v"
      then have "\<exists>b \<in> set (rel_rows (db ! j)). cell_at (snd b) tci = cell_at (snd a) fci" using bspec[OF vals, of a] by simp
      then show "\<exists>b \<in> set (rel_rows (with_schema db i ?t ! j)). cell_at (snd b) tci = Some v" using a(2) by simp
    qed
    then show ?thesis using fk by simp
  qed simp
qed simp_all

lemma fewer_fks_consistent:
  assumes c: "consistent db" and i: "i < length db" and t: "columns t = cols (db ! i)" "set (fks t) \<subseteq> set (fks (rel_schema (db ! i)))"
  shows "consistent (alter_db db i (\<lambda>r. r) t)"
  by (rule same_columns_consistent[OF c i]) (use t in auto)

lemma set_width_consistent:
  assumes c: "consistent db" and i: "i < length db" and ci: "ci < length (cols (db ! i))"
  shows "consistent (alter_db db i (\<lambda>r. r)
    ((rel_schema (db ! i))\<lparr>columns := (cols (db ! i))[ci := (cols (db ! i) ! ci)\<lparr>display_width := w\<rparr>]\<rparr>))"
proof (rule same_columns_consistent[OF c i])
  let ?cs = "cols (db ! i)"
  have e: "?cs[ci := (?cs ! ci)\<lparr>display_width := w\<rparr>] ! k = (if k = ci then (?cs ! k)\<lparr>display_width := w\<rparr> else ?cs ! k)"
    if "k < length ?cs" for k using that by (cases "k = ci") simp_all
  let ?t = "(rel_schema (db ! i))\<lparr>columns := ?cs[ci := (?cs ! ci)\<lparr>display_width := w\<rparr>]\<rparr>"
  show "col_name (columns ?t ! k) = col_name (?cs ! k) \<and> nullable (columns ?t ! k) = nullable (?cs ! k) \<and> ty (columns ?t ! k) = ty (?cs ! k)"
    if "k < length ?cs" for k using e[OF that] by simp
  show "unique (?cs ! k) \<or> (\<forall>a \<in> set (rel_rows (db ! i)). \<forall>b \<in> set (rel_rows (db ! i)). fst a \<noteq> fst b \<and> cell_at (snd a) k \<noteq> None \<longrightarrow>
      cell_at (snd a) k \<noteq> cell_at (snd b) k)" if "k < length ?cs" "unique (columns ?t ! k)" for k
    using e[OF that(1)] that(2) by (cases "k = ci") simp_all
  show "(\<forall>r \<in> set db. \<not> targets (rel_name (db ! i)) (col_name (?cs ! k)) (rel_schema r)) \<and> fks ?t = fks (rel_schema (db ! i))"
    if "k < length ?cs" "unique (?cs ! k)" "\<not> unique (columns ?t ! k)" for k
    using e[OF that(1)] that(2,3) by (cases "k = ci") simp_all
qed simp_all

text \<open>All of them.\<close>

lemma alteration_bound: "alteration db opn = Inr (i, G, t) \<Longrightarrow> i < length db"
  using find_table_bound
  by (cases "(db, opn)" rule: alteration.cases) (fastforce simp: bindR_def Let_def split: sum.splits if_splits option.splits)+

lemma bindR_InrE:
  assumes "bindR r k = Inr y"
  obtains x where "r = Inr x" "k x = Inr y"
  using assms by (cases r) (auto simp: bindR_def)

lemma ok_or_Inr: "ok_or e x = Inr y \<longleftrightarrow> x = Some y"
  by (cases x) (simp_all add: ok_or_def)

lemma column_index_named: "column_named t n = Some c \<Longrightarrow> column_index t n = Some k \<Longrightarrow> c = columns t ! k"
  by (simp add: column_named_def column_index_def find_position)

lemma eachR_in: "eachR xs f = Inr () \<Longrightarrow> x \<in> set xs \<Longrightarrow> f x = Inr ()"
  by (simp add: eachR_ok)

lemma alteration_consistent:
  assumes alt: "alteration db opn = Inr (i, G, t)" and c: "consistent db"
  shows "consistent (alter_db db i (row_change G) t)"
proof -
  have i: "i < length db" by (rule alteration_bound[OF alt])
  have nm: "rel_name (db ! i) = n" if "find_table db n = Inr i" for n using find_table_bound[OF that] by simp
  show ?thesis
  proof (cases "(db, opn)" rule: alteration.cases)
    case (1 db' name col)
    then have "find_table db name = Inr i" "t = (rel_schema (db ! i))\<lparr>columns := cols (db ! i) @ [col]\<rparr>" "G = Some (\<lambda>cells. cells @ [None])"
      "column_named (rel_schema (db ! i)) (col_name col) = None" "nullable col \<or> rel_rows (db ! i) = []"
      using alt by (auto simp: Let_def elim!: bindR_InrE split: if_splits)
    then show ?thesis using add_column_consistent[OF c i, of col] by (simp add: row_change_def column_named_None)
  next
    case (2 db' name col)
    then obtain idx where "find_table db name = Inr i" "column_index (rel_schema (db ! i)) col = Some idx"
      "t = (rel_schema (db ! i))\<lparr>columns := remove_at idx (cols (db ! i)), ref_cols := filter (\<lambda>n. n \<noteq> col) (ref_cols (rel_schema (db ! i)))\<rparr>"
      "G = Some (drop_cell idx)" "\<forall>f \<in> set (fks (rel_schema (db ! i))). from_col f \<noteq> col" "\<forall>r \<in> set db. \<not> targets name col (rel_schema r)"
      using alt by (auto simp: Let_def ok_or_Inr no_target_ok elim!: bindR_InrE split: if_splits)
    then show ?thesis using drop_column_consistent[OF c i, of col idx] nm by (simp add: row_change_def)
  next
    case (3 db' name col new)
    let ?n = "length (cols (db ! i))"
    from 3 obtain old where o: "find_table db name = Inr i" "column_index (rel_schema (db ! i)) col = Some old" "new < ?n"
      "new = old \<and> G = None \<and> t = rel_schema (db ! i) \<or> G = Some (permute_row (move_perm ?n old new) ?n) \<and>
        t = (rel_schema (db ! i))\<lparr>columns := insert_at new (cols (db ! i) ! old) (remove_at old (cols (db ! i)))\<rparr>"
      using alt by (auto simp: Let_def ok_or_Inr elim!: bindR_InrE split: if_splits)
    have "old < ?n" using column_index_Some[OF o(2)] by simp
    from o(4) show ?thesis
    proof (elim disjE conjE)
      assume "G = None" "t = rel_schema (db ! i)"
      then show ?thesis using fewer_fks_consistent[OF c i, of t] by (simp add: row_change_def)
    qed (use move_column_consistent[OF c i \<open>old < ?n\<close> o(3)] in \<open>simp add: row_change_def\<close>)
  next
    case (4 db' name col uq)
    then obtain ci where "find_table db name = Inr i" "column_index (rel_schema (db ! i)) col = Some ci" "G = None"
      "t = (rel_schema (db ! i))\<lparr>columns := (cols (db ! i))[ci := (cols (db ! i) ! ci)\<lparr>unique := uq\<rparr>]\<rparr>"
      "if uq then \<not> first_dup [] (map (\<lambda>a. cell_at (snd a) ci) (rel_rows (db ! i))) else \<forall>r \<in> set db. \<not> targets name col (rel_schema r)"
      using alt by (auto simp: Let_def ok_or_Inr no_target_ok elim!: bindR_InrE split: if_splits)
    then show ?thesis using set_unique_consistent[OF c i, of col ci uq] nm by (simp add: row_change_def)
  next
    case (5 db' name fc tot toc)
    let ?t = "rel_schema (db ! i)"
    from 5 obtain j tc fci tci n where a: "find_table db tot = Inr j" "column_named (rel_schema (db ! j)) toc = Some tc" "unique tc"
      "column_index ?t fc = Some fci" "column_index (rel_schema (db ! j)) toc = Some tci" "G = None"
      "t = ?t\<lparr>fks := fks ?t @ [\<lparr>fk_name = n, from_col = fc, to_table = tot, to_col = toc\<rparr>]\<rparr>"
      "eachR (map (\<lambda>a. cell_at (snd a) fci) (rel_rows (db ! i))) (\<lambda>ov. case ov of None \<Rightarrow> Inr ()
           | Some v \<Rightarrow> if Some v \<in> set (map (\<lambda>b. cell_at (snd b) tci) (rel_rows (db ! j))) then Inr ()
               else Inl (SchemaRejected (''existing value '' @ display v @ '' has no match in '' @ tot @ ''.'' @ toc))) = Inr ()"
      using alt by (auto simp: Let_def ok_or_Inr elim!: bindR_InrE split: if_splits option.splits)
    have "unique (cols (db ! j) ! tci)" using column_index_named[OF a(2,5)] a(3) by simp
    moreover have "\<exists>b \<in> set (rel_rows (db ! j)). cell_at (snd b) tci = cell_at (snd r) fci"
      if r: "r \<in> set (rel_rows (db ! i))" "cell_at (snd r) fci \<noteq> None" for r
    proof -
      from r(2) obtain v where v: "cell_at (snd r) fci = Some v" by blast
      have "Some v \<in> set (map (\<lambda>a. cell_at (snd a) fci) (rel_rows (db ! i)))" using r(1) v[symmetric] by auto
      from eachR_in[OF a(8) this] have "Some v \<in> (\<lambda>b. cell_at (snd b) tci) ` set (rel_rows (db ! j))" by (simp split: if_splits)
      then show ?thesis using v by (elim imageE) (intro bexI, simp_all)
    qed
    ultimately show ?thesis using add_fk_consistent[OF c i a(4,1,5), of n] unfolding a(6,7) row_change_def by simp
  next
    case (6 db' name fkn)
    then have "G = None" "t = (rel_schema (db ! i))\<lparr>fks := filter (\<lambda>f. fk_name f \<noteq> fkn) (fks (rel_schema (db ! i)))\<rparr>"
      using alt by (auto simp: Let_def elim!: bindR_InrE split: if_splits)
    then show ?thesis using fewer_fks_consistent[OF c i, of t] by (simp add: row_change_def)
  next
    case (7 db' name cs)
    then have "G = None" "t = (rel_schema (db ! i))\<lparr>ref_cols := cs\<rparr>" using alt by (auto simp: Let_def elim!: bindR_InrE)
    then show ?thesis using fewer_fks_consistent[OF c i, of t] by (simp add: row_change_def)
  next
    case (8 db' name col w)
    then obtain ci where "column_index (rel_schema (db ! i)) col = Some ci" "G = None"
      "t = (rel_schema (db ! i))\<lparr>columns := (cols (db ! i))[ci := (cols (db ! i) ! ci)\<lparr>display_width := w\<rparr>]\<rparr>"
      using alt by (auto simp: Let_def ok_or_Inr elim!: bindR_InrE)
    then show ?thesis using set_width_consistent[OF c i, of ci w] column_index_Some by (fastforce simp: row_change_def)
  qed (use alt in simp_all)
qed

section \<open>Dropping a table\<close>

lemma find_table_distinct:
  "distinct (map rel_name db) \<Longrightarrow> find_table db n = Inr j \<longleftrightarrow> j < length db \<and> rel_name (db ! j) = n"
proof
  assume d: "distinct (map rel_name db)" and j: "j < length db \<and> rel_name (db ! j) = n"
  show "find_table db n = Inr j"
  proof (cases "find_table db n")
    case (Inl e)
    then have "position (\<lambda>r. rel_name r = n) db = None" by (simp add: find_table_def ok_or_def split: option.splits)
    then show ?thesis using j position_None[of "\<lambda>r. rel_name r = n" db] nth_mem[of j db] by auto
  next
    case (Inr k)
    then have "k < length db" "rel_name (db ! k) = n" using find_table_bound by blast+
    then show ?thesis using j Inr nth_eq_iff_index_eq[OF d, of k j] by simp
  qed
qed (use find_table_bound in blast)

definition drop_check :: "database \<Rightarrow> string \<Rightarrow> nat result" where
  "drop_check db name = bindR (find_table db name) (\<lambda>i.
     bindR (eachR (enumerate 0 db) (\<lambda>(j, r).
       if j = i then Inr ()
       else if \<exists>f \<in> set (fks (rel_schema r)). to_table f = name
       then Inl (SchemaRejected (''table '' @ quoted name @ '' is referenced by a foreign key in '' @ quoted (rel_name r)))
       else Inr ())) (\<lambda>_. Inr i))"

lemma drop_checkD:
  assumes "drop_check db name = Inr i"
  shows "find_table db name = Inr i" "j < length db \<Longrightarrow> j \<noteq> i \<Longrightarrow> f \<in> set (fks (rel_schema (db ! j))) \<Longrightarrow> to_table f \<noteq> name"
proof -
  from assms have f: "find_table db name = Inr i" and e: "eachR (enumerate 0 db) (\<lambda>(j, r).
       if j = i then Inr ()
       else if \<exists>f \<in> set (fks (rel_schema r)). to_table f = name
       then Inl (SchemaRejected (''table '' @ quoted name @ '' is referenced by a foreign key in '' @ quoted (rel_name r)))
       else Inr ()) = Inr ()" by (auto simp: drop_check_def elim!: bindR_InrE)
  show "find_table db name = Inr i" by (rule f)
  assume j: "j < length db" "j \<noteq> i" "f \<in> set (fks (rel_schema (db ! j)))"
  have "(j, db ! j) \<in> set (enumerate 0 db)" using j(1) by (force simp: in_set_enumerate_eq)
  from eachR_in[OF e this] show "to_table f \<noteq> name" using j by (auto split: if_splits)
qed

lemma drop_consistent:
  assumes c: "consistent db" and i: "i < length db"
    and free: "\<And>j f. j < length db \<Longrightarrow> j \<noteq> i \<Longrightarrow> f \<in> set (fks (rel_schema (db ! j))) \<Longrightarrow> to_table f \<noteq> rel_name (db ! i)"
  shows "consistent (drop_db db i)"
proof -
  let ?old = "\<lambda>j. if j < i then j else Suc j" and ?new = "\<lambda>j. if j < i then j else j - 1"
  have len: "length (drop_db db i) = length db - 1" using i by (simp add: drop_db_def remove_at_length)
  have nth: "drop_db db i ! j = db ! ?old j \<and> ?old j < length db \<and> ?old j \<noteq> i" if "j < length db - 1" for j
    using that i by (auto simp: drop_db_def remove_at_nth)
  have names: "distinct (map rel_name db)" using c by (simp add: consistent_def)
  have names': "distinct (map rel_name (drop_db db i))"
    using distinct_remove_at[OF names] by (simp add: drop_db_def map_remove_at)
  have moved: "drop_db db i ! ?new j = db ! j \<and> ?new j < length db - 1" if "j < length db" "j \<noteq> i" for j
    using that i by (auto simp: drop_db_def remove_at_nth)
  have held: "fk_held (drop_db db i) k fk" if k: "k < length db - 1" and fk: "fk \<in> set (fks (rel_schema (drop_db db i ! k)))" for k fk
  proof -
    note o = nth[OF k]
    from o fk have fk': "fk \<in> set (fks (rel_schema (db ! ?old k)))" by simp
    from consistentD(4)[OF c _ fk'] o obtain fi j tc where
      h: "column_index (rel_schema (db ! ?old k)) (from_col fk) = Some fi" "fk_target db fk = Some (j, tc)" "unique (cols (db ! j) ! tc)"
        "\<And>a v. a \<in> set (rel_rows (db ! ?old k)) \<Longrightarrow> cell_at (snd a) fi = Some v \<Longrightarrow> \<exists>b \<in> set (rel_rows (db ! j)). cell_at (snd b) tc = Some v"
      using fk_heldE by metis
    have j: "j < length db" "rel_name (db ! j) = to_table fk" "column_index (rel_schema (db ! j)) (to_col fk) = Some tc"
      using h(2) find_table_distinct[OF names] by (auto simp: fk_target_Some)
    have ji: "j \<noteq> i" using free[of "?old k" fk] o fk' j(2) by auto
    note b = moved[OF j(1) ji]
    have ft: "find_table (drop_db db i) (to_table fk) = Inr (?new j)" unfolding find_table_distinct[OF names'] len using b j(2) by simp
    show ?thesis
    proof (rule fk_heldI)
      show "column_index (rel_schema (drop_db db i ! k)) (from_col fk) = Some fi" using h(1) o by simp
      show "fk_target (drop_db db i) fk = Some (?new j, tc)" using ft b j(3) by (simp add: fk_target_Some)
      show "unique (cols (drop_db db i ! ?new j) ! tc)" using b h(3) by simp
      fix a v assume "a \<in> set (rel_rows (drop_db db i ! k))" "cell_at (snd a) fi = Some v"
      then show "\<exists>b \<in> set (rel_rows (drop_db db i ! ?new j)). cell_at (snd b) tc = Some v" using h(4)[of a v] o b by simp
    qed
  qed
  have tab: "distinct (map col_name (cols (drop_db db i ! k))) \<and> distinct (map fst (rel_rows (drop_db db i ! k))) \<and>
      (\<forall>a \<in> set (rel_rows (drop_db db i ! k)). row_fits (cols (drop_db db i ! k)) (snd a)) \<and>
      unique_rows (cols (drop_db db i ! k)) (rel_rows (drop_db db i ! k))" if "k < length db - 1" for k
    using nth[OF that] consistentD(1,2,3,5)[OF c, of "?old k"] by metis
  show ?thesis unfolding consistent_def len using names' tab held by simp
qed

section \<open>Renaming a column\<close>

definition renaming :: "string \<Rightarrow> string \<Rightarrow> string \<Rightarrow> rel \<Rightarrow> table option" where
  "renaming name old new r = (if mentions name old (rel_name r = name) (rel_schema r)
     then Some (rename_in name old new (rel_name r = name) (rel_schema r)) else None)"

definition rename_db :: "database \<Rightarrow> string \<Rightarrow> string \<Rightarrow> string \<Rightarrow> database" where
  "rename_db db name old new = map (reschema (renaming name old new)) db"

definition rename_check :: "database \<Rightarrow> string \<Rightarrow> string \<Rightarrow> string \<Rightarrow> unit result" where
  "rename_check db name old new = bindR (find_table db name) (\<lambda>i. let t = rel_schema (db ! i) in
     if column_named t old = None then Inl (column_not_found old)
     else if column_named t new \<noteq> None then Inl (Duplicate (''column '' @ quoted new)) else Inr ())"

lemma rename_in_same:
  assumes "\<not> mentions name old owns t"
  shows "rename_in name old new owns t = t"
proof -
  have "map (rename_fk name old new owns) (fks t) = fks t"
    using assms by (intro map_idI) (auto simp: mentions_def targets_def rename_fk_def Let_def)
  moreover have "owns \<Longrightarrow> map (\<lambda>c. if col_name c = old then c\<lparr>col_name := new\<rparr> else c) (columns t) = columns t"
    using assms by (intro map_idI) (auto simp: mentions_def)
  moreover have "owns \<Longrightarrow> map (\<lambda>r. if r = old then new else r) (ref_cols t) = ref_cols t"
    using assms by (intro map_idI) (auto simp: mentions_def)
  ultimately show ?thesis by (cases owns) (simp_all add: rename_in_def)
qed

lemma reschema_renaming:
  "reschema (renaming name old new) r = r\<lparr>rel_schema := rename_in name old new (rel_name r = name) (rel_schema r)\<rparr>"
  using rename_in_same[of name old "rel_name r = name" "rel_schema r" new] by (simp add: reschema_def renaming_def)

lemma rename_consistent:
  assumes c: "consistent db" and chk: "rename_check db name old new = Inr ()"
  shows "consistent (rename_db db name old new)"
proof -
  let ?db = "rename_db db name old new"
  define own where "own k \<longleftrightarrow> rel_name (db ! k) = name" for k
  define ren where "ren k n = (if own k \<and> n = old then new else n)" for k n
  have at: "rel_name (?db ! k) = rel_name (db ! k)" "rel_rows (?db ! k) = rel_rows (db ! k)"
    "rel_schema (?db ! k) = rename_in name old new (own k) (rel_schema (db ! k))" if "k < length db" for k
    using that by (simp_all add: rename_db_def reschema_renaming own_def)
  have len: "length ?db = length db" by (simp add: rename_db_def)
  have names: "distinct (map rel_name db)" using c by (simp add: consistent_def)
  have nm: "map rel_name ?db = map rel_name db" by (rule nth_equalityI) (simp_all add: len at)
  have fresh: "new \<notin> col_name ` set (cols (db ! k))" if "k < length db" "own k" for k
  proof -
    have "find_table db name = Inr k" using that find_table_distinct[OF names] by (simp add: own_def)
    then show ?thesis using chk by (auto simp: rename_check_def Let_def column_named_None[symmetric] bindR_def split: if_splits)
  qed
  have col: "length (cols (?db ! k)) = length (cols (db ! k)) \<and> (\<forall>x < length (cols (db ! k)).
      col_name (cols (?db ! k) ! x) = ren k (col_name (cols (db ! k) ! x)) \<and> unique (cols (?db ! k) ! x) = unique (cols (db ! k) ! x) \<and>
      nullable (cols (?db ! k) ! x) = nullable (cols (db ! k) ! x) \<and> ty (cols (?db ! k) ! x) = ty (cols (db ! k) ! x))" if "k < length db" for k
    unfolding at(3)[OF that] by (simp add: rename_in_def Let_def ren_def)
  have mc: "map col_name (cols (?db ! k)) = map (ren k) (map col_name (cols (db ! k)))" if "k < length db" for k
    using col[OF that] by (intro nth_equalityI) simp_all
  have dist: "distinct (map col_name (cols (?db ! k)))" if k: "k < length db" for k
    unfolding mc[OF k] distinct_map using consistentD(5)[OF c k] fresh[OF k]
    by (auto simp: inj_on_def ren_def distinct_map split: if_splits)
  have ix: "column_index (rel_schema (?db ! k)) (ren k n) = Some x" if k: "k < length db" and n: "column_index (rel_schema (db ! k)) n = Some x" for k n x
    unfolding column_index_distinct[OF dist[OF k]] using column_index_Some[OF n] col[OF k] by simp
  have held: "fk_held ?db k fk" if k: "k < length db" and fk: "fk \<in> set (fks (rel_schema (?db ! k)))" for k fk
  proof -
    have "fks (rel_schema (?db ! k)) = map (rename_fk name old new (own k)) (fks (rel_schema (db ! k)))"
      unfolding at(3)[OF k] by (simp add: rename_in_def Let_def)
    then obtain f where f: "f \<in> set (fks (rel_schema (db ! k)))" "fk = rename_fk name old new (own k) f" using fk by auto
    have fk_cols: "from_col fk = ren k (from_col f)" "to_table fk = to_table f"
      "to_col fk = (if to_table f = name \<and> to_col f = old then new else to_col f)"
      unfolding f(2) rename_fk_def Let_def ren_def by (auto split: if_splits)
    from consistentD(4)[OF c k f(1)] obtain fi j tc where
      h: "column_index (rel_schema (db ! k)) (from_col f) = Some fi" "fk_target db f = Some (j, tc)" "unique (cols (db ! j) ! tc)"
        "\<And>a v. a \<in> set (rel_rows (db ! k)) \<Longrightarrow> cell_at (snd a) fi = Some v \<Longrightarrow> \<exists>b \<in> set (rel_rows (db ! j)). cell_at (snd b) tc = Some v"
      using fk_heldE by metis
    have tgt: "find_table db (to_table f) = Inr j" "column_index (rel_schema (db ! j)) (to_col f) = Some tc"
      using h(2) by (simp_all add: fk_target_Some)
    have j: "j < length db" "rel_name (db ! j) = to_table f" using find_table_bound[OF tgt(1)] by simp_all
    have tc: "tc < length (cols (db ! j))" by (rule column_index_bound[OF tgt(2)])
    show ?thesis
    proof (rule fk_heldI)
      show "column_index (rel_schema (?db ! k)) (from_col fk) = Some fi" unfolding fk_cols by (rule ix[OF k h(1)])
      have "to_col fk = ren j (to_col f)" unfolding fk_cols ren_def own_def j(2) by simp
      then show "fk_target ?db fk = Some (j, tc)"
        using ix[OF j(1) tgt(2)] tgt(1) find_names[OF nm] fk_cols(2) by (simp add: fk_target_Some)
      show "unique (cols (?db ! j) ! tc)" using col[OF j(1)] tc h(3) by simp
      fix a v assume "a \<in> set (rel_rows (?db ! k))" "cell_at (snd a) fi = Some v"
      then show "\<exists>b \<in> set (rel_rows (?db ! j)). cell_at (snd b) tc = Some v" using h(4) at(2) k j(1) by simp
    qed
  qed
  have fits: "row_fits (cols (?db ! k)) r = row_fits (cols (db ! k)) r" "unique_rows (cols (?db ! k)) rows = unique_rows (cols (db ! k)) rows"
    if k: "k < length db" for k r rows
  proof -
    have "check_cell (cols (?db ! k) ! x) v = Inr () \<longleftrightarrow> check_cell (cols (db ! k) ! x) v = Inr ()" if "x < length (cols (db ! k))" for x v
      using col[OF k] that by (cases v) (auto simp: check_cell_def)
    then show "row_fits (cols (?db ! k)) r = row_fits (cols (db ! k)) r" using col[OF k] by (auto simp: row_fits_def)
    show "unique_rows (cols (?db ! k)) rows = unique_rows (cols (db ! k)) rows" using col[OF k] by (auto simp: unique_rows_def)
  qed
  have tab: "distinct (map col_name (cols (?db ! k))) \<and> distinct (map fst (rel_rows (?db ! k))) \<and>
      (\<forall>a \<in> set (rel_rows (?db ! k)). row_fits (cols (?db ! k)) (snd a)) \<and> unique_rows (cols (?db ! k)) (rel_rows (?db ! k))" if k: "k < length db" for k
    unfolding fits[OF k] at(2)[OF k] using dist[OF k] consistentD(1,2,3)[OF c k] by simp
  show ?thesis unfolding consistent_def len nm using names tab held by simp
qed

end
