(* ===== verification/Schema_Ops.thy ===== *)
theory Schema_Ops
  imports Integrity_Schema
begin

text \<open>
  The schema operations of the store, refined: each reads, may refuse, and else changes one schema with \<^verbatim>\<open>put_schema\<close>, gives back a table
  or renames a column in all schemas; the volume then represents the database that the operation leads to.
\<close>

section \<open>Reading, then changing one schema\<close>

definition altered :: "'d block_ops \<Rightarrow> ('d \<Rightarrow> disk) \<Rightarrow> ('d \<Rightarrow> bool) \<Rightarrow> ('d \<Rightarrow> bool) \<Rightarrow> 'd \<Rightarrow> database \<Rightarrow>
    (unit result \<times> 'd store) option \<Rightarrow> (nat \<times> (row \<Rightarrow> row) option \<times> table) result \<Rightarrow> bool" where
  "altered ops media good pw d db out res \<longleftrightarrow> (case res of
      Inl e \<Rightarrow> \<exists>s'. out = Some (Inl e, s') \<and> represents ops media good s' db \<and> dev s' = d
    | Inr (i, G, t) \<Rightarrow> \<exists>r s'. out = Some (r, s') \<and>
        (pw (dev s') \<longrightarrow> r = Inr () \<and> represents ops media good s' (alter_db db i (row_change G) t) \<or>
           r = Inl OutOfSpace \<and> represents ops media good s' db) \<and>
        (recoverable ops media good (dev s') db \<or> recoverable ops media good (dev s') (alter_db db i (row_change G) t)))"

definition alters :: "'d block_ops \<Rightarrow> ('d \<Rightarrow> disk) \<Rightarrow> ('d \<Rightarrow> bool) \<Rightarrow> ('d \<Rightarrow> bool) \<Rightarrow> 'd store \<Rightarrow> database \<Rightarrow>
    ('d store, unit) act \<Rightarrow> (nat \<times> (row \<Rightarrow> row) option \<times> table) result \<Rightarrow> bool" where
  "alters ops media good pw s db m res \<longleftrightarrow> (\<forall>c. pager_ok ops media good (s\<lparr>cache := c\<rparr>) \<longrightarrow>
     altered ops media good pw (dev s) db (m (s\<lparr>cache := c\<rparr>)) res)"

lemma computes_cache: "computes ops media good (s\<lparr>cache := c\<rparr>) m r = computes ops media good s m r"
  by (simp add: computes_def)

context block_device
begin

lemma represents_cache: "represents ops media good s db \<Longrightarrow> pager_ok ops media good (s\<lparr>cache := c\<rparr>) \<Longrightarrow> represents ops media good (s\<lparr>cache := c\<rparr>) db"
  unfolding represents_def using stores_cache by fastforce

lemma alters_refuse:
  assumes rep: "represents ops media good s db" and c: "computes ops media good s m (Inl e)"
  shows "alters ops media good live s db m (Inl e)"
  unfolding alters_def
proof (intro allI impI)
  fix c0 assume "pager_ok ops media good (s\<lparr>cache := c0\<rparr>)"
  with c obtain c1 where "m (s\<lparr>cache := c0\<rparr>) = Some (Inl e, s\<lparr>cache := c1\<rparr>)" "pager_ok ops media good (s\<lparr>cache := c1\<rparr>)"
    unfolding computes_def by blast
  then show "altered ops media good live (dev s) db (m (s\<lparr>cache := c0\<rparr>)) (Inl e)" using represents_cache[OF rep] by (simp add: altered_def)
qed

lemma alters_bind:
  assumes m: "computes ops media good s m (Inr x)" and k: "alters ops media good live s db (k x) res"
  shows "alters ops media good live s db (bindM m k) res"
  unfolding alters_def
proof (intro allI impI)
  fix c assume "pager_ok ops media good (s\<lparr>cache := c\<rparr>)"
  with m obtain c1 where 1: "m (s\<lparr>cache := c\<rparr>) = Some (Inr x, s\<lparr>cache := c1\<rparr>)" "pager_ok ops media good (s\<lparr>cache := c1\<rparr>)"
    unfolding computes_def by blast
  from 1(2) k show "altered ops media good live (dev s) db (bindM m k (s\<lparr>cache := c\<rparr>)) res"
    unfolding bindM_Inr[where m = m, OF 1(1)] by (simp add: alters_def)
qed

lemma alters_bindR:
  assumes rep: "represents ops media good s db" and m: "computes ops media good s m r"
    and k: "\<And>x. r = Inr x \<Longrightarrow> alters ops media good live s db (k x) (f x)"
  shows "alters ops media good live s db (bindM m k) (bindR r f)"
proof (cases r)
  case (Inl e)
  then have "computes ops media good s (bindM m k) (Inl e)" using m by (simp add: computes_bind_err)
  then show ?thesis using alters_refuse[OF rep] Inl by (simp add: bindR_def)
next
  case (Inr x)
  have "alters ops media good live s db (bindM m k) (f x)" by (rule alters_bind) (use m k Inr in simp_all)
  then show ?thesis using Inr by (simp add: bindR_def)
qed

lemma alters_nothing:
  assumes rep: "represents ops media good s db" and same: "alter_db db i (row_change G) t = db"
  shows "alters ops media good live s db (returnM ()) (Inr (i, G, t))"
  unfolding alters_def altered_def
  using represents_cache[OF rep] represents_recoverable[OF rep] same by simp

lemma alters_with_table:
  assumes rep: "represents ops media good s db" and st: "stores ops media good s ps cat cps Ls db"
    and k: "\<And>i. find_table db name = Inr i \<Longrightarrow> i < length db \<Longrightarrow> alters ops media good live s db (k cat i (rel_schema (db ! i))) (f i)"
  shows "alters ops media good live s db (with_table ops name k) (bindR (find_table db name) f)"
proof (cases "find_table db name")
  case (Inl e)
  then show ?thesis using alters_refuse[OF rep computes_no_table[OF st Inl]] by (simp add: bindR_def)
next
  case (Inr i)
  have b: "i < length db" using find_table_bound[OF Inr] by simp
  show ?thesis unfolding with_table_def Inr
    by (rule alters_bind[OF computes_catalog[OF st]], unfold computes_find[OF st] Inr, rule alters_bind[OF computes_basic(3)],
        rule alters_bind[OF computes_schema[OF st b]]) (use k[OF Inr b] in \<open>simp add: bindR_def\<close>)
qed

text \<open>A whole \<^verbatim>\<open>put_schema\<close>, and one whose table and new schema are known.\<close>

lemma alters_put:
  assumes rep: "represents ops media good s db" and gen: "generation (sb s) + 1 < 2 ^ 64"
    and mut: "\<And>i. find_table db name = Inr i \<Longrightarrow> computes ops media good s (mutate (rel_schema (db ! i))) (mut (rel_schema (db ! i)))"
    and kp: "\<And>t. kp.keeps_disk (mutate t)"
    and wf: "\<And>i t. find_table db name = Inr i \<Longrightarrow> mut (rel_schema (db ! i)) = Inr t \<Longrightarrow>
      wf_table t \<and> (\<forall>a \<in> set (rel_rows (db ! i)). wf_row (row_change G (snd a)))"
    and R: "R = map_option (\<lambda>g c. returnM (g c)) G"
  shows "alters ops media good live s db (put_schema ops name mutate R)
    (bindR (find_table db name) (\<lambda>i. bindR (mut (rel_schema (db ! i))) (\<lambda>t. Inr (i, G, t))))"
  unfolding alters_def
proof (intro allI impI)
  fix c assume "pager_ok ops media good (s\<lparr>cache := c\<rparr>)"
  then have rep': "represents ops media good (s\<lparr>cache := c\<rparr>) db" by (rule represents_cache[OF rep])
  have gen': "generation (sb (s\<lparr>cache := c\<rparr>)) + 1 < 2 ^ 64" using gen by simp
  have mut': "\<And>i. find_table db name = Inr i \<Longrightarrow> computes ops media good (s\<lparr>cache := c\<rparr>) (mutate (rel_schema (db ! i))) (mut (rel_schema (db ! i)))"
    using mut by (simp add: computes_cache)
  have wf': "\<And>i t. find_table db name = Inr i \<Longrightarrow> mut (rel_schema (db ! i)) = Inr t \<Longrightarrow>
      wf_table t \<and> (\<forall>a \<in> set (rel_rows (db ! i)). wf_row (row_change G (snd a)))" by (rule wf)
  let ?out = "put_schema ops name mutate R (s\<lparr>cache := c\<rparr>)"
  have p: "case bindR (find_table db name) (\<lambda>i. bindR (mut (rel_schema (db ! i))) (\<lambda>t. Inr (i, t))) of
      Inl e \<Rightarrow> \<exists>s'. ?out = Some (Inl e, s') \<and> represents ops media good s' db \<and> dev s' = dev (s\<lparr>cache := c\<rparr>)
    | Inr (i, t) \<Rightarrow> \<exists>r s'. ?out = Some (r, s') \<and>
        (live (dev s') \<longrightarrow> r = Inr () \<and> represents ops media good s' (alter_db db i (row_change G) t) \<or>
           r = Inl OutOfSpace \<and> represents ops media good s' db) \<and>
        (recoverable ops media good (dev s') db \<or> recoverable ops media good (dev s') (alter_db db i (row_change G) t))"
    unfolding R by (rule put_schema_refines[OF rep' gen']) (use mut' kp wf' in blast)+
  show "altered ops media good live (dev s) db (put_schema ops name mutate R (s\<lparr>cache := c\<rparr>))
      (bindR (find_table db name) (\<lambda>i. bindR (mut (rel_schema (db ! i))) (\<lambda>t. Inr (i, G, t))))"
  proof (cases "find_table db name")
    case (Inl e)
    show ?thesis using p unfolding Inl by (simp add: altered_def bindR_def)
  next
    case (Inr i)
    show ?thesis using p unfolding Inr by (cases "mut (rel_schema (db ! i))") (simp_all add: altered_def bindR_def)
  qed
qed

lemma alters_put_at:
  assumes rep: "represents ops media good s db" and gen: "generation (sb s) + 1 < 2 ^ 64"
    and i: "find_table db name = Inr i" and mut: "computes ops media good s (mutate (rel_schema (db ! i))) (Inr t)"
    and kp: "\<And>t. kp.keeps_disk (mutate t)"
    and wf: "wf_table t \<and> (\<forall>a \<in> set (rel_rows (db ! i)). wf_row (row_change G (snd a)))"
    and R: "R = map_option (\<lambda>g c. returnM (g c)) G"
  shows "alters ops media good live s db (put_schema ops name mutate R) (Inr (i, G, t))"
proof -
  have "alters ops media good live s db (put_schema ops name mutate R)
      (bindR (find_table db name) (\<lambda>i. bindR (Inr t) (\<lambda>t. Inr (i, G, t))))"
    by (rule alters_put[where mut = "\<lambda>_. Inr t", OF rep gen _ kp _ R]) (use i mut wf in auto)
  then show ?thesis using i by (simp add: bindR_def)
qed

end

section \<open>What the operations read\<close>

context block_device
begin

lemma computes_values:
  assumes st: "stores ops media good s ps cat cps Ls db" and i: "i < length db"
  shows "computes ops media good s (all_values_in ops (cat ! i) ci) (Inr (map (\<lambda>a. cell_at (snd a) ci) (rel_rows (db ! i))))"
  unfolding all_values_in_def
proof (rule computes_bind[OF computes_live[OF st i]])
  show "computes ops media good s (mapM (live_slots (Ls ! i)) (\<lambda>(_, head). bindM (read_row ops head) (\<lambda>r. returnM (cell_at r ci))))
      (Inr (map (\<lambda>a. cell_at (snd a) ci) (rel_rows (db ! i))))"
    unfolding live_slots_def by (rule computes_rows(2)[OF computes_slots[OF st i]]) (auto intro!: computes_bind comp)
qed

lemma eachR_nth: "eachR xs f = eachR [0..<length xs] (\<lambda>j. f (xs ! j))"
proof -
  have "xs = map ((!) xs) [0..<length xs]" by (simp add: map_nth)
  then show ?thesis using eachR_map[of "(!) xs" "[0..<length xs]" f] by simp
qed

lemma cat_names: "stores ops media good s ps cat cps Ls db \<Longrightarrow> j < length db \<Longrightarrow> cat_name (cat ! j) = rel_name (db ! j) \<and> row_count (cat ! j) = length (rel_rows (db ! j))"
  using stores_table(1) by (fastforce simp: table_stored_def)

text \<open>A loop over the catalog that looks at all schemas.\<close>

lemma computes_each_schema:
  assumes st: "stores ops media good s ps cat cps Ls db"
    and f: "\<And>j. j < length db \<Longrightarrow> computes ops media good s (f (cat ! j) (rel_schema (db ! j))) (g (db ! j))"
  shows "computes ops media good s (forM cat (\<lambda>e. bindM (schema_of ops e) (f e))) (eachR db g)"
proof -
  have len: "length cat = length db" using stores_lens[OF st] by simp
  have "computes ops media good s (forM (map ((!) cat) [0..<length cat]) (\<lambda>e. bindM (schema_of ops e) (f e))) (eachR [0..<length cat] (\<lambda>j. g (db ! j)))"
    unfolding forM_map
  proof (rule computes_forM)
    fix j assume "j \<in> set [0..<length cat]"
    then have j: "j < length db" using len by simp
    show "computes ops media good s (bindM (schema_of ops (cat ! j)) (f (cat ! j))) (g (db ! j))"
      by (rule computes_bind[OF computes_schema[OF st j]]) (rule f[OF j])
  qed
  then show ?thesis unfolding map_nth by (simp only: len eachR_nth[of db])
qed

lemma computes_no_target:
  assumes st: "stores ops media good s ps cat cps Ls db"
    and m: "\<And>j. j < length db \<Longrightarrow> msg (cat ! j) = msg' (db ! j)"
  shows "computes ops media good s (forM cat (\<lambda>e. bindM (schema_of ops e) (\<lambda>ot.
      if targets name col ot then failM (SchemaRejected (msg e)) else returnM ()))) (no_target db name col msg')"
  unfolding no_target_def by (rule computes_each_schema[OF st]) (auto simp: m intro: comp)

end

section \<open>The operations on one schema\<close>

text \<open>
  \<open>sound_alteration db opn\<close>: the schema and the rows that the operation makes are values of the source's types (strings of bytes, lengths and
  widths in range).
\<close>

definition sound_alteration :: "database \<Rightarrow> operation \<Rightarrow> bool" where
  "sound_alteration db opn = (case alteration db opn of
      Inl _ \<Rightarrow> True
    | Inr (i, G, t) \<Rightarrow> wf_table t \<and> (\<forall>a \<in> set (rel_rows (db ! i)). wf_row (row_change G (snd a))))"

lemma sound_alterationD: "sound_alteration db opn \<Longrightarrow> alteration db opn = Inr (i, G, t) \<Longrightarrow>
    wf_table t \<and> (\<forall>a \<in> set (rel_rows (db ! i)). wf_row (row_change G (snd a)))"
  by (simp add: sound_alteration_def)

context block_device
begin

lemma drop_fk_alters:
  assumes rep: "represents ops media good s db" and gen: "generation (sb s) + 1 < 2 ^ 64" and ok: "sound_alteration db (DropFk name fkn)"
  shows "alters ops media good live s db (drop_fk ops name fkn) (alteration db (DropFk name fkn))"
proof -
  define mut where "mut t = (if length (filter (\<lambda>f. fk_name f \<noteq> fkn) (fks t)) = length (fks t)
      then Inl (NotFound (''foreign key '' @ quoted fkn)) else Inr (t\<lparr>fks := filter (\<lambda>f. fk_name f \<noteq> fkn) (fks t)\<rparr>))" for t :: table
  have a: "alteration db (DropFk name fkn) = bindR (find_table db name) (\<lambda>i. bindR (mut (rel_schema (db ! i))) (\<lambda>t. Inr (i, None, t)))"
    by (auto simp: mut_def Let_def bindR_def split: sum.split)
  show ?thesis unfolding a drop_fk_def
  proof (rule alters_put[OF rep gen])
    show "wf_table t \<and> (\<forall>r \<in> set (rel_rows (db ! i)). wf_row (row_change None (snd r)))"
      if "find_table db name = Inr i" "mut (rel_schema (db ! i)) = Inr t" for i t
      by (rule sound_alterationD[OF ok]) (unfold a, use that in \<open>simp add: bindR_def\<close>)
  qed (auto simp: mut_def Let_def intro: comp keeps)
qed

lemma set_reference_columns_alters:
  assumes rep: "represents ops media good s db" and gen: "generation (sb s) + 1 < 2 ^ 64" and ok: "sound_alteration db (SetReferenceColumns name cs)"
  shows "alters ops media good live s db (set_reference_columns ops name cs) (alteration db (SetReferenceColumns name cs))"
proof -
  define mut where "mut t = bindR (check_ref_cols t [] cs) (\<lambda>_. Inr (t\<lparr>ref_cols := cs\<rparr>))" for t :: table
  have a: "alteration db (SetReferenceColumns name cs) = bindR (find_table db name) (\<lambda>i. bindR (mut (rel_schema (db ! i))) (\<lambda>t. Inr (i, None, t)))"
    unfolding alteration.simps mut_def Let_def by (auto simp: bindR_def split: sum.split)
  show ?thesis unfolding a set_reference_columns_def
  proof (rule alters_put[OF rep gen])
    show "wf_table t \<and> (\<forall>r \<in> set (rel_rows (db ! i)). wf_row (row_change None (snd r)))"
      if "find_table db name = Inr i" "mut (rel_schema (db ! i)) = Inr t" for i t
      by (rule sound_alterationD[OF ok]) (unfold a, use that in \<open>simp add: bindR_def\<close>)
  qed (unfold mut_def, (intro computes_bindR comp)[1], (intro keeps)[1], simp)
qed

lemma set_display_width_alters:
  assumes rep: "represents ops media good s db" and gen: "generation (sb s) + 1 < 2 ^ 64" and ok: "sound_alteration db (SetDisplayWidth name col w)"
  shows "alters ops media good live s db (set_display_width ops name col w) (alteration db (SetDisplayWidth name col w))"
proof -
  define mut where "mut t = bindR (ok_or (column_not_found col) (column_index t col)) (\<lambda>ci.
      Inr (t\<lparr>columns := (columns t)[ci := (columns t ! ci)\<lparr>display_width := w\<rparr>]\<rparr>))" for t :: table
  have a: "alteration db (SetDisplayWidth name col w) = bindR (find_table db name) (\<lambda>i. bindR (mut (rel_schema (db ! i))) (\<lambda>t. Inr (i, None, t)))"
    unfolding alteration.simps mut_def Let_def by (auto simp: bindR_def split: sum.split)
  show ?thesis unfolding a set_display_width_def
  proof (rule alters_put[OF rep gen])
    show "wf_table t \<and> (\<forall>r \<in> set (rel_rows (db ! i)). wf_row (row_change None (snd r)))"
      if "find_table db name = Inr i" "mut (rel_schema (db ! i)) = Inr t" for i t
      by (rule sound_alterationD[OF ok]) (unfold a, use that in \<open>simp add: bindR_def\<close>)
  qed (unfold mut_def, (intro computes_bindR comp)[1], (intro keeps)[1], simp)
qed

lemma set_unique_alters:
  assumes rep: "represents ops media good s db" and gen: "generation (sb s) + 1 < 2 ^ 64" and ok: "sound_alteration db (SetUnique name col uq)"
  shows "alters ops media good live s db (set_unique ops name col uq) (alteration db (SetUnique name col uq))"
proof -
  from rep obtain ps cat cps Ls where st: "stores ops media good s ps cat cps Ls db" by (auto simp: represents_def)
  show ?thesis unfolding set_unique_def alteration.simps Let_def
  proof (rule alters_with_table[OF rep st], rule alters_bindR[OF rep computes_basic(3)], rule alters_bindR[OF rep], goal_cases)
    case (1 i ci)
    have "computes ops media good s (bindM (all_values_in ops (cat ! i) ci) (\<lambda>vals. if first_dup [] vals
          then failM (SchemaRejected (''column '' @ quoted col @ '' already contains duplicate values'')) else returnM ()))
        (if first_dup [] (map (\<lambda>a. cell_at (snd a) ci) (rel_rows (db ! i)))
          then Inl (SchemaRejected (''column '' @ quoted col @ '' already contains duplicate values'')) else Inr ())"
      by (rule computes_bind[OF computes_values[OF st 1(2)]]) (auto intro: comp)
    then show ?case using computes_no_target[OF st, of "\<lambda>_. quoted col @ '' is a foreign-key target and must stay UNIQUE''"
        "\<lambda>_. quoted col @ '' is a foreign-key target and must stay UNIQUE''" name col] by simp
  next
    case (2 i ci x)
    then have ci: "ci < length (cols (db ! i))" using column_index_bound by (simp add: ok_or_Inr)
    show ?case
    proof (rule alters_put_at[OF rep gen 2(1)])
      show "wf_table ((rel_schema (db ! i))\<lparr>columns := (cols (db ! i))[ci := (cols (db ! i) ! ci)\<lparr>unique := uq\<rparr>]\<rparr>) \<and>
          (\<forall>a \<in> set (rel_rows (db ! i)). wf_row (row_change None (snd a)))"
        by (rule sound_alterationD[OF ok]) (use 2 in \<open>simp add: Let_def bindR_def\<close>)
    qed (auto simp: ci intro!: computes_bind comp keeps)
  qed
qed

lemma move_column_alters:
  assumes rep: "represents ops media good s db" and gen: "generation (sb s) + 1 < 2 ^ 64" and ok: "sound_alteration db (MoveColumn name col new)"
  shows "alters ops media good live s db (move_column ops name col new) (alteration db (MoveColumn name col new))"
proof -
  from rep obtain ps cat cps Ls where st: "stores ops media good s ps cat cps Ls db" by (auto simp: represents_def)
  show ?thesis unfolding move_column_def alteration.simps Let_def
  proof (rule alters_with_table[OF rep st], rule alters_bindR[OF rep computes_basic(3)], goal_cases)
    case (1 i old)
    let ?n = "length (cols (db ! i))"
    have old: "old < ?n" using 1 column_index_bound by (simp add: ok_or_Inr)
    have put: "alters ops media good live s db (put_schema ops name
         (\<lambda>t. bindM (assertM (old < length (columns t) \<and> new < length (columns t))) (\<lambda>_.
            returnM (t\<lparr>columns := insert_at new (columns t ! old) (remove_at old (columns t))\<rparr>)))
         (Some (\<lambda>cells. returnM (permute_row (move_perm ?n old new) ?n cells))))
       (Inr (i, Some (permute_row (move_perm ?n old new) ?n),
         (rel_schema (db ! i))\<lparr>columns := insert_at new (cols (db ! i) ! old) (remove_at old (cols (db ! i)))\<rparr>))"
      if n: "new < ?n" "new \<noteq> old"
    proof (rule alters_put_at[OF rep gen 1(1)])
      show "wf_table ((rel_schema (db ! i))\<lparr>columns := insert_at new (cols (db ! i) ! old) (remove_at old (cols (db ! i)))\<rparr>) \<and>
          (\<forall>a \<in> set (rel_rows (db ! i)). wf_row (row_change (Some (permute_row (move_perm ?n old new) ?n)) (snd a)))"
        by (rule sound_alterationD[OF ok]) (use 1 n in \<open>simp add: Let_def bindR_def\<close>)
    qed (auto simp: old n intro!: computes_bind comp keeps)
    have "alter_db db i (row_change None) (rel_schema (db ! i)) = db"
      using 1(2) by (simp add: row_change_def alter_db_same_rows with_schema_def)
    then have "alters ops media good live s db (returnM ()) (Inr (i, None, rel_schema (db ! i)))" by (rule alters_nothing[OF rep])
    with put alters_refuse[OF rep computes_basic(2)] show ?case by simp
  qed
qed

end

context block_device
begin

lemma add_column_alters:
  assumes rep: "represents ops media good s db" and gen: "generation (sb s) + 1 < 2 ^ 64" and ok: "sound_alteration db (AddColumn name col)"
  shows "alters ops media good live s db (add_column ops name col) (alteration db (AddColumn name col))"
proof -
  from rep obtain ps cat cps Ls where st: "stores ops media good s ps cat cps Ls db" by (auto simp: represents_def)
  define mut where "mut t = (if column_named t (col_name col) \<noteq> None then Inl (Duplicate (''column '' @ quoted (col_name col)))
      else Inr (t\<lparr>columns := columns t @ [col]\<rparr>))" for t :: table
  let ?msg = "''table has rows; a new column must be nullable (existing rows receive NULL)''"
  let ?pre = "if \<not> nullable col then bindR (find_table db name) (\<lambda>i. if rel_rows (db ! i) \<noteq> [] then Inl (SchemaRejected ?msg) else Inr ()) else Inr ()"
  have a: "alteration db (AddColumn name col) = bindR ?pre (\<lambda>_. bindR (find_table db name) (\<lambda>i. bindR (mut (rel_schema (db ! i))) (\<lambda>t.
      Inr (i, Some (\<lambda>cells. cells @ [None]), t))))"
    by (simp add: mut_def Let_def bindR_def split: sum.split)
  show ?thesis unfolding a add_column_def
  proof (rule alters_bindR[OF rep], goal_cases)
    case 1
    have "computes ops media good s (bindM (load_catalog ops) (\<lambda>cat. bindM (liftM (cat_index cat name)) (\<lambda>i.
         if row_count (cat ! i) > 0 then failM (SchemaRejected ?msg) else returnM ())))
       (bindR (find_table db name) (\<lambda>i. if rel_rows (db ! i) \<noteq> [] then Inl (SchemaRejected ?msg) else Inr ()))"
    proof (rule computes_bind[OF computes_catalog[OF st]], unfold computes_find[OF st], rule computes_bindR[OF computes_basic(3)])
      fix i assume "find_table db name = Inr i"
      then have "row_count (cat ! i) = length (rel_rows (db ! i))" using find_table_bound cat_names[OF st] by blast
      then show "computes ops media good s (if row_count (cat ! i) > 0 then failM (SchemaRejected ?msg) else returnM ())
          (if rel_rows (db ! i) \<noteq> [] then Inl (SchemaRejected ?msg) else Inr ())" by (auto intro: comp)
    qed
    then show ?case by (simp add: computes_basic(1))
  next
    case (2 x)
    show ?case
    proof (rule alters_put[OF rep gen])
      show "wf_table t \<and> (\<forall>r \<in> set (rel_rows (db ! i)). wf_row (row_change (Some (\<lambda>cells. cells @ [None])) (snd r)))"
        if "find_table db name = Inr i" "mut (rel_schema (db ! i)) = Inr t" for i t
        by (rule sound_alterationD[OF ok]) (unfold a 2, use that in \<open>simp add: bindR_def\<close>)
    qed (unfold mut_def, (auto intro: comp)[1], (intro keeps)[1], simp only: option.map)
  qed
qed

lemma drop_column_alters:
  assumes rep: "represents ops media good s db" and gen: "generation (sb s) + 1 < 2 ^ 64" and ok: "sound_alteration db (DropColumn name col)"
  shows "alters ops media good live s db (drop_column ops name col) (alteration db (DropColumn name col))"
proof -
  from rep obtain ps cat cps Ls where st: "stores ops media good s ps cat cps Ls db" by (auto simp: represents_def)
  show ?thesis unfolding drop_column_def alteration.simps Let_def
  proof (rule alters_with_table[OF rep st], rule alters_bindR[OF rep computes_basic(3)], goal_cases)
    case (1 i idx)
    have idx: "idx < length (cols (db ! i))" using 1 column_index_bound by (simp add: ok_or_Inr)
    let ?t = "(rel_schema (db ! i))\<lparr>columns := remove_at idx (cols (db ! i)), ref_cols := filter (\<lambda>n. n \<noteq> col) (ref_cols (rel_schema (db ! i)))\<rparr>"
    let ?put = "put_schema ops name
         (\<lambda>t. bindM (assertM (idx < length (columns t))) (\<lambda>_.
            returnM (t\<lparr>columns := remove_at idx (columns t), ref_cols := filter (\<lambda>n. n \<noteq> col) (ref_cols t)\<rparr>)))
         (Some (\<lambda>cells. returnM (if idx < length cells then remove_at idx cells else cells)))"
    let ?msg = "\<lambda>r. ''column '' @ quoted col @ '' is targeted by a foreign key in '' @ quoted (rel_name r)"
    have put: "alters ops media good live s db ?put (Inr (i, Some (drop_cell idx), ?t))"
      if own: "\<not> (\<exists>f \<in> set (fks (rel_schema (db ! i))). from_col f = col)" and tg: "no_target db name col ?msg = Inr ()"
    proof (rule alters_put_at[OF rep gen 1(1)])
      show "wf_table ?t \<and> (\<forall>a \<in> set (rel_rows (db ! i)). wf_row (row_change (Some (drop_cell idx)) (snd a)))"
        by (rule sound_alterationD[OF ok]) (use 1 own tg in \<open>simp add: Let_def bindR_def\<close>)
    qed (auto simp: idx drop_cell_def fun_eq_iff intro!: computes_bind comp keeps)
    have fm: "computes ops media good s (forM cat (\<lambda>e. bindM (schema_of ops e) (\<lambda>ot. if targets name col ot
        then failM (SchemaRejected (''column '' @ quoted col @ '' is targeted by a foreign key in '' @ quoted (cat_name e))) else returnM ())))
        (no_target db name col ?msg)"
      by (rule computes_no_target[OF st]) (simp add: cat_names[OF st])
    have "alters ops media good live s db (bindM (forM cat (\<lambda>e. bindM (schema_of ops e) (\<lambda>ot. if targets name col ot
        then failM (SchemaRejected (''column '' @ quoted col @ '' is targeted by a foreign key in '' @ quoted (cat_name e))) else returnM ())))
        (\<lambda>_. ?put)) (bindR (no_target db name col ?msg) (\<lambda>_. Inr (i, Some (drop_cell idx), ?t)))"
      if own: "\<not> (\<exists>f \<in> set (fks (rel_schema (db ! i))). from_col f = col)"
      by (rule alters_bindR[OF rep fm put[OF own]]) simp
    then show ?case using alters_refuse[OF rep computes_basic(2)] by (simp split del: if_split cong: if_cong) (simp split: if_split)
  qed
qed

lemma add_fk_alters:
  assumes rep: "represents ops media good s db" and gen: "generation (sb s) + 1 < 2 ^ 64" and ok: "sound_alteration db (AddFk name fc tot toc)"
  shows "alters ops media good live s db (add_fk ops name fc tot toc) (alteration db (AddFk name fc tot toc))"
proof -
  from rep obtain ps cat cps Ls where st: "stores ops media good s ps cat cps Ls db" by (auto simp: represents_def)
  show ?thesis unfolding add_fk_def alteration.simps Let_def computes_find[OF st]
  proof (rule alters_with_table[OF rep st], rule alters_bindR[OF rep computes_basic(3)], unfold computes_find[OF st],
      rule alters_bindR[OF rep computes_basic(3)], goal_cases)
    case (1 i c j)
    note 0 = this
    let ?t = "rel_schema (db ! i)" and ?tt = "rel_schema (db ! j)"
    have j: "j < length db" using find_table_bound[OF 1(4)] by simp
    show ?case
    proof (rule alters_bind[OF computes_schema[OF st j]], rule alters_bindR[OF rep computes_basic(3)], goal_cases)
      case (1 tc)
      have c: "column_named ?t fc = Some c" "column_named ?tt toc = Some tc" using 0(3) 1 by (simp_all add: ok_or_Inr)
      obtain fci where fci: "column_index ?t fc = Some fci" using c(1) by (auto simp: column_named_def column_index_def find_position)
      obtain tci where tci: "column_index ?tt toc = Some tci" using c(2) by (auto simp: column_named_def column_index_def find_position)
      obtain nm where nm: "fresh_fk (map fk_name (fks ?t)) fc (fc @ ''_fk'') 2 = Some nm" using fresh_fk_total by blast
      let ?vals = "map (\<lambda>a. cell_at (snd a) fci) (rel_rows (db ! i))" and ?tvals = "map (\<lambda>b. cell_at (snd b) tci) (rel_rows (db ! j))"
      let ?new = "?t\<lparr>fks := fks ?t @ [\<lparr>fk_name = nm, from_col = fc, to_table = tot, to_col = toc\<rparr>]\<rparr>"
      let ?put = "put_schema ops name (\<lambda>t. returnM (t\<lparr>fks := fks t @ [\<lparr>fk_name = nm, from_col = fc, to_table = tot, to_col = toc\<rparr>]\<rparr>)) None"
      let ?err = "\<lambda>v. SchemaRejected (''existing value '' @ display v @ '' has no match in '' @ tot @ ''.'' @ toc)"
      let ?res = "eachR ?vals (\<lambda>ov. case ov of None \<Rightarrow> Inr () | Some v \<Rightarrow> if Some v \<in> set ?tvals then Inr () else Inl (?err v))"
      have put: "alters ops media good live s db ?put (Inr (i, None, ?new))"
        if u: "unique tc" "ty c = ty tc" "?res = Inr ()"
      proof (rule alters_put_at[OF rep gen 0(1)])
        show "wf_table ?new \<and> (\<forall>a \<in> set (rel_rows (db ! i)). wf_row (row_change None (snd a)))"
        proof (rule sound_alterationD[OF ok])
          have "alteration db (AddFk name fc tot toc) = bindR ?res (\<lambda>_. Inr (i, None, ?new))"
            using 0 1 u(1,2) fci tci nm by (simp add: Let_def bindR_def)
          then show "alteration db (AddFk name fc tot toc) = Inr (i, None, ?new)" unfolding u(3) by (simp add: bindR_def)
        qed
      qed (auto intro!: comp keeps)
      have chk: "computes ops media good s (forM ?vals (\<lambda>ov. case ov of None \<Rightarrow> returnM ()
         | Some v \<Rightarrow> if Some v \<in> set ?tvals then returnM () else failM (?err v))) ?res"
        by (rule computes_forM) (auto intro: comp split: option.split)
      have all: "alters ops media good live s db
         (bindM (unwrapM (column_index ?tt toc)) (\<lambda>tci.
          bindM (all_values_in ops (cat ! j) tci) (\<lambda>tvals.
          bindM (unwrapM (column_index ?t fc)) (\<lambda>fci.
          bindM (all_values_in ops (cat ! i) fci) (\<lambda>vals.
          bindM (forM vals (\<lambda>ov. case ov of None \<Rightarrow> returnM () | Some v \<Rightarrow> if Some v \<in> set tvals then returnM () else failM (?err v))) (\<lambda>_.
          bindM (unwrapM (fresh_fk (map fk_name (fks ?t)) fc (fc @ ''_fk'') 2)) (\<lambda>name_fk.
          put_schema ops name (\<lambda>t. returnM (t\<lparr>fks := fks t @ [\<lparr>fk_name = name_fk, from_col = fc, to_table = tot, to_col = toc\<rparr>]\<rparr>)) None)))))))
         (bindR ?res (\<lambda>_. Inr (i, None, ?new)))" if u: "unique tc" "ty c = ty tc"
      proof (rule alters_bind[OF computes_unwrap[OF tci]], rule alters_bind[OF computes_values[OF st j]],
          rule alters_bind[OF computes_unwrap[OF fci]], rule alters_bind[OF computes_values[OF st 0(2)]],
          rule alters_bindR[OF rep chk], rule alters_bind[OF computes_unwrap[OF nm]])
        fix x assume "?res = Inr x"
        then show "alters ops media good live s db ?put (Inr (i, None, ?new))" using put[OF u] by simp
      qed
      show ?case
      proof (cases "\<not> unique tc \<or> ty c \<noteq> ty tc")
        case True
        then show ?thesis using alters_refuse[OF rep computes_basic(2)] by auto
      next
        case False
        then show ?thesis using all fci tci nm by simp
      qed
    qed
  qed
qed

end

section \<open>Dropping a table\<close>

context block_device
begin

lemma drop_refines:
  assumes rep: "represents ops media good s db" and gen: "generation (sb s) + 1 < 2 ^ 64"
  shows "case drop_check db name of
      Inl e \<Rightarrow> \<exists>s'. drop_table ops name s = Some (Inl e, s') \<and> represents ops media good s' db \<and> dev s' = dev s
    | Inr i \<Rightarrow> \<exists>r s'. drop_table ops name s = Some (r, s') \<and>
        (live (dev s') \<longrightarrow> r = Inr () \<and> represents ops media good s' (drop_db db i) \<or> r = Inl OutOfSpace \<and> represents ops media good s' db) \<and>
        (recoverable ops media good (dev s') db \<or> recoverable ops media good (dev s') (drop_db db i))"
proof -
  from rep obtain ps cat cps Ls where st: "stores ops media good s ps cat cps Ls db" by (auto simp: represents_def)
  have len: "length cat = length db" using stores_lens[OF st] by simp
  let ?body = "\<lambda>cat i rows. bindM (forM rows (\<lambda>(_, head). free_chain ops head)) (\<lambda>_.
      bindM (free_chain ops (data_head (cat ! i))) (\<lambda>_.
      bindM (free_chain ops (schema_head (cat ! i))) (\<lambda>_. store_catalog ops (remove_at i cat))))"
  let ?chk = "\<lambda>cat i. forM (enumerate 0 cat) (\<lambda>(j, e).
        if j = i then returnM ()
        else bindM (schema_of ops e) (\<lambda>ot.
          if \<exists>f \<in> set (fks ot). to_table f = name
          then failM (SchemaRejected (''table '' @ quoted name @ '' is referenced by a foreign key in '' @ quoted (cat_name e)))
          else returnM ()))"
  let ?res = "\<lambda>i. eachR (enumerate 0 db) (\<lambda>(j, r).
       if j = i then Inr ()
       else if \<exists>f \<in> set (fks (rel_schema r)). to_table f = name
       then Inl (SchemaRejected (''table '' @ quoted name @ '' is referenced by a foreign key in '' @ quoted (rel_name r)))
       else Inr ())"
  define m where "m = bindM (load_catalog ops) (\<lambda>cat. bindM (liftM (cat_index cat name)) (\<lambda>i.
      bindM (?chk cat i) (\<lambda>_. bindM (index_collect ops (data_head (cat ! i))) (?body cat i))))"
  have op: "drop_table ops name = tx ops m" by (simp only: drop_table_def m_def)
  have chk: "computes ops media good s (?chk cat i) (?res i)" for i
  proof -
    let ?g = "\<lambda>j. if j = i then Inr () else if \<exists>f \<in> set (fks (rel_schema (db ! j))). to_table f = name
       then Inl (SchemaRejected (''table '' @ quoted name @ '' is referenced by a foreign key in '' @ quoted (rel_name (db ! j)))) else Inr ()"
    have "computes ops media good s (?chk cat i) (eachR (enumerate 0 cat) (\<lambda>(j, e). ?g j))"
    proof (rule computes_forM)
      fix x assume "x \<in> set (enumerate 0 cat)"
      moreover obtain j e where "x = (j, e)" by (cases x)
      ultimately have x: "x = (j, cat ! j)" "j < length db" using len by (simp_all add: in_set_enumerate_eq)
      then show "computes ops media good s (case x of (j, e) \<Rightarrow> if j = i then returnM () else bindM (schema_of ops e) (\<lambda>ot.
          if \<exists>f \<in> set (fks ot). to_table f = name
          then failM (SchemaRejected (''table '' @ quoted name @ '' is referenced by a foreign key in '' @ quoted (cat_name e)))
          else returnM ())) (case x of (j, e) \<Rightarrow> ?g j)"
        using cat_names[OF st x(2)] by (auto intro!: comp computes_bind[OF computes_schema[OF st x(2)]])
    qed
    moreover have "?res i = eachR [0..<length db] ?g"
    proof -
      have "?res i = eachR (enumerate 0 db) (\<lambda>(j, r). ?g j)"
        by (rule eachR_cong) (auto simp: in_set_enumerate_eq)
      then show ?thesis by (simp only: eachR_enumerate)
    qed
    ultimately show ?thesis by (simp only: eachR_enumerate len)
  qed
  have c: "drop_check db name = bindR (find_table db name) (\<lambda>i. bindR (?res i) (\<lambda>_. Inr i))" by (simp only: drop_check_def)
  show ?thesis
  proof (cases "drop_check db name")
    case (Inl e)
    have "computes ops media good s m (Inl e)" unfolding m_def
    proof (rule computes_bind[OF computes_catalog[OF st]], unfold computes_find[OF st], cases "find_table db name")
      fix e' assume f: "find_table db name = Inl e'"
      then have "e' = e" using Inl by (simp add: c bindR_def)
      then show "computes ops media good s (bindM (liftM (find_table db name)) (\<lambda>i. bindM (?chk cat i) (\<lambda>_.
          bindM (index_collect ops (data_head (cat ! i))) (?body cat i)))) (Inl e)"
        using f by (intro computes_bind_err) (simp add: computes_basic(3))
    next
      fix i assume f: "find_table db name = Inr i"
      then have "?res i = Inl e" using Inl by (simp add: c bindR_def split: sum.splits)
      then have "computes ops media good s (?chk cat i) (Inl e)" using chk[of i] by simp
      then have "computes ops media good s (bindM (?chk cat i) (\<lambda>_. bindM (index_collect ops (data_head (cat ! i))) (?body cat i))) (Inl e)"
        by (rule computes_bind_err)
      then show "computes ops media good s (bindM (liftM (find_table db name)) (\<lambda>i. bindM (?chk cat i) (\<lambda>_.
          bindM (index_collect ops (data_head (cat ! i))) (?body cat i)))) (Inl e)"
        unfolding f by (rule computes_bind[OF computes_basic(3)])
    qed
    from tx_refuses[OF rep this] Inl show ?thesis by (simp add: op)
  next
    case (Inr i)
    then have f: "find_table db name = Inr i" by (rule drop_checkD)
    then have i: "i < length db" using find_table_bound by blast
    have r: "?res i = Inr ()" using Inr f by (auto simp: c bindR_def split: sum.splits)
    have m: "reaches ops media good s m (?body cat i (live_slots (Ls ! i)))" unfolding m_def
      by (rule reaches_bind[OF computes_catalog[OF st]], unfold computes_find[OF st] f, rule reaches_bind[OF computes_basic(3)],
          rule reaches_bind[OF chk[of i, unfolded r]], rule reaches_bind[OF computes_live[OF st i]], rule reaches_refl)
    have "kp.keeps_disk m" unfolding m_def by (intro keeps)
    from tx_writes[where P = "\<lambda>_. True" and db' = "\<lambda>_. drop_db db i", OF rep m this gen drop_body[OF stores_cache[OF st] i]] Inr
    show ?thesis by (simp add: op)
  qed
qed

end

section \<open>Renaming a column\<close>

lemma wf_rename: "wf_table t \<Longrightarrow> rust_str new \<Longrightarrow> wf_table (rename_in name old new owns t)"
  by (auto simp: wf_table_def rename_in_def rename_fk_def wf_column_def wf_fk_def Let_def)

definition rename_outcome :: "database \<Rightarrow> string \<Rightarrow> string \<Rightarrow> string \<Rightarrow> database result" where
  "rename_outcome db name old new =
     (if new = [] then Inl (SchemaRejected ''column name is empty'')
      else if old = new then Inr db
      else bindR (rename_check db name old new) (\<lambda>_. Inr (rename_db db name old new)))"

context block_device
begin

lemma rename_body:
  assumes st: "stores ops media good s ps cat cps Ls db" and new: "rust_str new"
  fixes name old :: string
  defines "body \<equiv> bindM (mapM cat (\<lambda>e. bindM (schema_of ops e) (\<lambda>ot. let owns = (cat_name e = name) in
            if mentions name old owns ot then
              bindM (write_chain ops (encode_table (rename_in name old new owns ot))) (\<lambda>sh.
              bindM (free_chain ops (schema_head e)) (\<lambda>_. returnM (e\<lparr>schema_head := sh\<rparr>)))
            else returnM e))) (\<lambda>cat. store_catalog ops cat)"
  shows "(\<exists>x t ps' cat' cps' Ls'. body s = Some (Inr x, t) \<and> True \<and> dirty t \<noteq> [] \<and>
      stores ops media good t ps' cat' cps' Ls' (rename_db db name old new)) \<or>
    (\<exists>t. body s = Some (Inl OutOfSpace, t) \<and> pager_ok ops media good t)"
proof -
  define P where "P e ot = (if mentions name old (cat_name e = name) ot then Some (rename_in name old new (cat_name e = name) ot) else None)"
    for e :: cat_entry and ot
  let ?loop = "mapM cat (\<lambda>e. bindM (schema_of ops e) (\<lambda>ot. case P e ot of None \<Rightarrow> returnM e
        | Some nt \<Rightarrow> bindM (write_chain ops (encode_table nt)) (\<lambda>sh. bindM (free_chain ops (schema_head e)) (\<lambda>_.
            returnM (e\<lparr>schema_head := sh\<rparr>)))))"
  have "(let owns = (cat_name e = name) in if mentions name old owns ot then
              bindM (write_chain ops (encode_table (rename_in name old new owns ot))) (\<lambda>sh.
              bindM (free_chain ops (schema_head e)) (\<lambda>_. returnM (e\<lparr>schema_head := sh\<rparr>)))
            else returnM e) = (case P e ot of None \<Rightarrow> returnM e
        | Some nt \<Rightarrow> bindM (write_chain ops (encode_table nt)) (\<lambda>sh. bindM (free_chain ops (schema_head e)) (\<lambda>_.
            returnM (e\<lparr>schema_head := sh\<rparr>))))" for e ot
    by (simp add: P_def Let_def)
  then have body: "body = bindM ?loop (\<lambda>cat. store_catalog ops cat)" by (simp only: body_def)
  have wf: "\<forall>r \<in> set db. \<forall>t. renaming name old new r = Some t \<longrightarrow> wf_table t"
  proof (intro ballI allI impI)
    fix r t assume r: "r \<in> set db" "renaming name old new r = Some t"
    then obtain i where "i < length db" "db ! i = r" by (auto simp: in_set_conv_nth)
    then have "wf_table (rel_schema r)" using stores_table(1)[OF st] by (auto simp: table_stored_def)
    then show "wf_table t" using r(2) wf_rename[OF _ new] by (auto simp: renaming_def split: if_splits)
  qed
  have P: "P e (rel_schema r) = renaming name old new r" if "cat_name e = rel_name r" for e r
    using that by (simp add: P_def renaming_def)
  have sg: "uncatalogued ops media good s ps ([] @ cat) cps Ls ([] @ db)" using stores_staged[OF st] by simp
  have "length cat = length db" using stores_lens[OF st] by simp
  have l0: "length ([] :: cat_entry list) = length ([] :: database)" by simp
  show ?thesis
  proof (rule disjE[OF reschema_loop[where P = P and F = "renaming name old new", OF sg l0 \<open>length cat = length db\<close> wf]], rule P, assumption,
      elim exE conjE)
    fix t ps' rest' Ls' assume 1: "?loop s = Some (Inr rest', t)"
      "uncatalogued ops media good t ps' ([] @ rest') cps Ls' ([] @ map (reschema (renaming name old new)) db)"
    have run: "body s = store_catalog ops rest' t" unfolding body by (rule bindM_Inr[where m = ?loop, OF 1(1)])
    have "uncatalogued ops media good t ps' rest' cps Ls' (rename_db db name old new)" using 1(2) by (simp add: rename_db_def)
    from staged_finish[OF this] show ?thesis unfolding run by blast
  next
    assume "\<exists>t. ?loop s = Some (Inl OutOfSpace, t) \<and> pager_ok ops media good t"
    then obtain t where 1: "?loop s = Some (Inl OutOfSpace, t)" "pager_ok ops media good t" by blast
    then show ?thesis unfolding body bindM_Inl[where m = ?loop, OF 1(1)] by blast
  qed
qed

lemma rename_refines:
  assumes rep: "represents ops media good s db" and gen: "generation (sb s) + 1 < 2 ^ 64" and new: "rust_str new"
  shows "case rename_outcome db name old new of
      Inl e \<Rightarrow> \<exists>s'. rename_column ops name old new s = Some (Inl e, s') \<and> represents ops media good s' db \<and> dev s' = dev s
    | Inr db' \<Rightarrow> \<exists>r s'. rename_column ops name old new s = Some (r, s') \<and>
        (live (dev s') \<longrightarrow> r = Inr () \<and> represents ops media good s' db' \<or> r = Inl OutOfSpace \<and> represents ops media good s' db) \<and>
        (recoverable ops media good (dev s') db \<or> recoverable ops media good (dev s') db')"
proof -
  from rep obtain ps cat cps Ls where st: "stores ops media good s ps cat cps Ls db" by (auto simp: represents_def)
  consider "new = []" | "new \<noteq> []" "old = new" | "new \<noteq> []" "old \<noteq> new" by blast
  then show ?thesis
  proof cases
    case 1
    then show ?thesis using rep by (simp add: rename_outcome_def rename_column_def)
  next
    case 2
    then show ?thesis using rep represents_recoverable[OF rep] by (simp add: rename_outcome_def rename_column_def)
  next
    case 3
    let ?loop = "\<lambda>cat. bindM (mapM cat (\<lambda>e. bindM (schema_of ops e) (\<lambda>ot. let owns = (cat_name e = name) in
            if mentions name old owns ot then
              bindM (write_chain ops (encode_table (rename_in name old new owns ot))) (\<lambda>sh.
              bindM (free_chain ops (schema_head e)) (\<lambda>_. returnM (e\<lparr>schema_head := sh\<rparr>)))
            else returnM e))) (\<lambda>cat. store_catalog ops cat)"
    define m where "m = with_table ops name (\<lambda>cat i t.
        if column_named t old = None then failM (column_not_found old)
        else if column_named t new \<noteq> None then failM (Duplicate (''column '' @ quoted new)) else ?loop cat)"
    have op: "rename_column ops name old new = tx ops m" using 3 by (simp only: rename_column_def m_def if_False)
    have out: "rename_outcome db name old new = bindR (rename_check db name old new) (\<lambda>_. Inr (rename_db db name old new))"
      using 3 by (simp add: rename_outcome_def)
    show ?thesis
    proof (cases "rename_check db name old new")
      case (Inl e)
      have "computes ops media good s m (Inl e)"
      proof (cases "find_table db name")
        case (Inl e')
        then show ?thesis using computes_no_table[OF st Inl] \<open>rename_check db name old new = Inl e\<close>
          by (simp add: m_def rename_check_def bindR_def)
      next
        case (Inr i)
        show ?thesis unfolding m_def
          by (rule computes_with_table[OF st Inr]) (use \<open>rename_check db name old new = Inl e\<close> Inr in
            \<open>auto simp: rename_check_def bindR_def Let_def intro: comp split: if_splits\<close>)
      qed
      from tx_refuses[OF rep this] show ?thesis by (simp add: op out Inl bindR_def)
    next
      case (Inr u)
      then obtain i where i: "find_table db name = Inr i" "column_named (rel_schema (db ! i)) old \<noteq> None" "column_named (rel_schema (db ! i)) new = None"
        by (auto simp: rename_check_def bindR_def Let_def split: sum.splits if_splits)
      have m: "reaches ops media good s m (?loop cat)" unfolding m_def
        by (rule reaches_with_table[OF st i(1)]) (simp only: i(2,3) if_False not_True_eq_False simp_thms reaches_refl)
      have "kp.keeps_disk m" unfolding m_def by (intro keeps)
      from tx_writes[where P = "\<lambda>_. True" and db' = "\<lambda>_. rename_db db name old new", OF rep m this gen rename_body[OF stores_cache[OF st] new]]
      show ?thesis by (simp add: op out Inr bindR_def)
    qed
  qed
qed

end

section \<open>All of them\<close>

context block_device
begin

lemma alters_run:
  assumes "represents ops media good s db" "alters ops media good live s db m res"
  shows "altered ops media good live (dev s) db (m s) res"
proof -
  have "pager_ok ops media good (s\<lparr>cache := cache s\<rparr>)" using assms(1) by (auto simp: represents_def stores_def)
  then show ?thesis using assms(2) unfolding alters_def by fastforce
qed

end

end
