(* ===== verification/Store_Refine.thy ===== *)
theory Store_Refine
  imports Schema_Ops
begin

text \<open>
  The store as a database: the steps that operations may make on databases, the invariant they keep, and the simulation of these steps
  by the store on the RAM disk, with and without power cuts.
\<close>

section \<open>Steps of a database\<close>

inductive db_step :: "database \<Rightarrow> operation \<Rightarrow> database \<Rightarrow> bool" where
  step_create: "create_check db name = Inr () \<Longrightarrow> db_step db (CreateTable name) (create_db db name)"
| step_insert: "insert_check db name cells = Inr i \<Longrightarrow> rid \<notin> fst ` set (rel_rows (db ! i)) \<Longrightarrow>
    db_step db (Insert name cells) (insert_db db i rid cells)"
| step_update: "find_table db name = Inr i \<Longrightarrow> row_at db i rid = Some old \<Longrightarrow> update_check db i rid old cells = Inr () \<Longrightarrow>
    db_step db (Update name rid cells) (update_db db i rid cells)"
| step_delete: "find_table db name = Inr i \<Longrightarrow> row_at db i rid = Some old \<Longrightarrow> restrict_ok db i rid old [] = Inr () \<Longrightarrow>
    db_step db (Delete name rid) (delete_db db i rid)"
| step_alter: "alteration db opn = Inr (i, G, t) \<Longrightarrow> db_step db opn (alter_db db i (row_change G) t)"
| step_drop: "drop_check db name = Inr i \<Longrightarrow> db_step db (DropTable name) (drop_db db i)"
| step_rename: "rename_outcome db name old new = Inr db' \<Longrightarrow> db_step db (RenameColumn name old new) db'"

inductive_cases db_stepE: "db_step db opn db'"

lemma insert_checkD: "insert_check db name cells = Inr i \<Longrightarrow> find_table db name = Inr i \<and> valid_row db i cells None = Inr ()"
  by (auto simp: insert_check_def bindR_def split: sum.splits)

lemma db_step_consistent: "db_step db opn db' \<Longrightarrow> consistent db \<Longrightarrow> consistent db'"
proof (induction rule: db_step.induct)
  case (step_create db name)
  then show ?case
    by (auto simp: create_db_def create_check_def split: if_splits intro!: new_table_consistent)
next
  case (step_insert db name cells i rid)
  then show ?case
    using insert_checkD[OF step_insert(1)] find_table_bound[of db name i] unfolding insert_db_def
    by (intro insert_consistent) simp_all
next
  case (step_update db name i rid old cells)
  then show ?case
    using find_table_bound[of db name i] unfolding update_db_def
    by (intro update_consistent[where old = old]) (auto simp: update_check_def bindR_def split: sum.splits)
next
  case (step_delete db name i rid old)
  then show ?case
    using find_table_bound[of db name i] unfolding delete_db_def by (intro delete_consistent[where old = old]) simp_all
next
  case (step_alter db opn i G t)
  then show ?case by (rule alteration_consistent)
next
  case (step_drop db name i)
  then show ?case
    using drop_checkD[OF step_drop(1)] find_table_bound[of db name i] by (intro drop_consistent) simp_all
next
  case (step_rename db name old new db')
  then show ?case
    using rename_consistent[of db name old new] by (auto simp: rename_outcome_def bindR_def split: if_splits sum.splits)
qed

inductive reachable :: "database \<Rightarrow> bool" where
  reach_empty: "reachable []"
| reach_step: "reachable db \<Longrightarrow> db_step db opn db' \<Longrightarrow> reachable db'"

lemma reachable_keeps: "reachable db \<Longrightarrow> consistent db"
  by (induction rule: reachable.induct) (auto simp: empty_consistent intro: db_step_consistent)

text \<open>The foreign keys of a table have different names; so they stay, because \<^verbatim>\<open>add_fk\<close> makes a new one.\<close>

definition named_fks :: "database \<Rightarrow> bool" where
  "named_fks db \<longleftrightarrow> (\<forall>r \<in> set db. distinct (map fk_name (fks (rel_schema r))))"

lemma alteration_named:
  assumes "alteration db opn = Inr (i, G, t)" "distinct (map fk_name (fks (rel_schema (db ! i))))"
  shows "distinct (map fk_name (fks t))"
proof (cases opn)
  case (AddFk name fc tot toc)
  obtain nm where nm: "fresh_fk (map fk_name (fks (rel_schema (db ! i)))) fc (fc @ ''_fk'') 2 = Some nm"
    "nm \<notin> set (map fk_name (fks (rel_schema (db ! i))))" using fresh_fk_total by blast
  have "fks t = fks (rel_schema (db ! i)) @ [\<lparr>fk_name = nm, from_col = fc, to_table = tot, to_col = toc\<rparr>]"
    using assms(1) nm(1) unfolding AddFk by (auto simp: bindR_def Let_def split: sum.splits option.splits if_splits)
  then show ?thesis using assms(2) nm(2) by simp
next
  case (DropFk name fkn)
  then show ?thesis using assms
    by (auto simp: bindR_def Let_def distinct_map inj_on_def split: sum.splits if_splits)
qed (use assms in \<open>auto simp: bindR_def Let_def split: sum.splits option.splits if_splits\<close>)

lemma with_rows_named: "named_fks db \<Longrightarrow> named_fks (with_rows db i rows)"
  by (cases "i < length db") (auto simp: named_fks_def with_rows_def list_update_beyond dest!: set_update_subset_insert[THEN subsetD])

lemma db_step_named: "db_step db opn db' \<Longrightarrow> named_fks db \<Longrightarrow> named_fks db'"
proof (induction rule: db_step.induct)
  case (step_create db name)
  then show ?case by (simp add: named_fks_def create_db_def new_table_def)
next
  case (step_alter db opn i G t)
  then show ?case
    using alteration_named[OF step_alter.hyps] with_rows_named[OF step_alter.prems, of i]
    by (cases "i < length db")
      (auto simp: named_fks_def alter_db_def with_schema_def list_update_beyond dest!: set_update_subset_insert[THEN subsetD])
next
  case (step_drop db name i)
  then show ?case by (auto simp: named_fks_def drop_db_def remove_at_def dest: in_set_takeD in_set_dropD)
next
  case (step_rename db name old new db')
  have "fk_name (rename_fk name old new b f) = fk_name f" for b f by (simp add: rename_fk_def Let_def)
  then have "map fk_name (fks (rename_in name old new b t)) = map fk_name (fks t)" for b t by (simp add: rename_in_def Let_def)
  then have "map fk_name (fks (rel_schema (reschema (renaming name old new) r))) = map fk_name (fks (rel_schema r))" for r
    by (simp add: reschema_renaming)
  then show ?case using step_rename
    by (auto simp: named_fks_def rename_outcome_def rename_db_def bindR_def split: if_splits sum.splits)
qed (auto simp: insert_db_def update_db_def delete_db_def intro: with_rows_named)

lemma reachable_named: "reachable db \<Longrightarrow> named_fks db"
  by (induction rule: reachable.induct) (auto simp: named_fks_def[of "[]"] intro: db_step_named)

text \<open>A table whose second column refers to its first, and two rows in it.\<close>

abbreviation "tree_t cs ks rows \<equiv> \<lparr>rel_name = ''t'', rel_schema = \<lparr>table_name = ''t'', columns = cs, fks = ks, ref_cols = []\<rparr>, rel_rows = rows\<rparr>"
abbreviation "key_col \<equiv> \<lparr>col_name = ''k'', ty = TString, nullable = False, unique = True, display_width = None\<rparr>"
abbreviation "parent_col \<equiv> \<lparr>col_name = ''p'', ty = TString, nullable = True, unique = False, display_width = None\<rparr>"
abbreviation "parent_fk \<equiv> \<lparr>fk_name = ''p_fk'', from_col = ''p'', to_table = ''t'', to_col = ''k''\<rparr>"

section \<open>What an operation can be asked\<close>

text \<open>
  What the following theorems assume of an operation on a database: names, rows and new schemas are values of the source's types, and the
  rows to update or delete exist.
\<close>

fun op_ready :: "database \<Rightarrow> operation \<Rightarrow> bool" where
  "op_ready db (CreateTable name) \<longleftrightarrow> rust_str name"
| "op_ready db (Insert name cells) \<longleftrightarrow> wf_row cells"
| "op_ready db (Update name rid cells) \<longleftrightarrow> wf_row cells \<and> (\<exists>i < length db. find_table db name = Inr i \<and> row_at db i rid \<noteq> None)"
| "op_ready db (Delete name rid) \<longleftrightarrow> (\<exists>i < length db. find_table db name = Inr i \<and> row_at db i rid \<noteq> None)"
| "op_ready db (DropTable name) \<longleftrightarrow> True"
| "op_ready db (RenameColumn name old new) \<longleftrightarrow> rust_str new"
| "op_ready db opn \<longleftrightarrow> sound_alteration db opn"

text \<open>
  What the rules of the database say to an operation: an error, or the answers it may give, each with the database that it leaves. Only the
  identity of an inserted row is open. Of rows that do not exist nothing is said.
\<close>

fun verdict :: "database \<Rightarrow> operation \<Rightarrow> (row_id option \<times> database) set result" where
  "verdict db (CreateTable name) = bindR (create_check db name) (\<lambda>_. Inr {(None, create_db db name)})"
| "verdict db (Insert name cells) =
     bindR (insert_check db name cells) (\<lambda>i. Inr {(Some rid, insert_db db i rid cells) | rid. rid \<notin> fst ` set (rel_rows (db ! i))})"
| "verdict db (Update name rid cells) = bindR (find_table db name) (\<lambda>i. case row_at db i rid of None \<Rightarrow> Inr UNIV
     | Some old \<Rightarrow> bindR (update_check db i rid old cells) (\<lambda>_. Inr {(None, update_db db i rid cells)}))"
| "verdict db (Delete name rid) = bindR (find_table db name) (\<lambda>i. case row_at db i rid of None \<Rightarrow> Inr UNIV
     | Some old \<Rightarrow> bindR (restrict_ok db i rid old []) (\<lambda>_. Inr {(None, delete_db db i rid)}))"
| "verdict db (DropTable name) = bindR (drop_check db name) (\<lambda>i. Inr {(None, drop_db db i)})"
| "verdict db (RenameColumn name old new) = bindR (rename_outcome db name old new) (\<lambda>db'. Inr {(None, db')})"
| "verdict db opn = bindR (alteration db opn) (\<lambda>(i, G, t). Inr {(None, alter_db db i (row_change G) t)})"

lemma verdict_step:
  assumes "op_ready db opn" "verdict db opn = Inr V" "(x, db') \<in> V"
  shows "db_step db opn db'"
  using assms
proof (cases opn)
  case (Update name rid cells)
  then obtain i old where t: "find_table db name = Inr i" "row_at db i rid = Some old" using assms(1) by auto
  then show ?thesis using assms(2,3) unfolding Update
    by (auto simp: bindR_def split: sum.splits intro: step_update[OF t])
next
  case (Delete name rid)
  then obtain i old where t: "find_table db name = Inr i" "row_at db i rid = Some old" using assms(1) by auto
  then show ?thesis using assms(2,3) unfolding Delete
    by (auto simp: bindR_def split: sum.splits intro: step_delete[OF t])
qed (auto simp: bindR_def split: sum.splits intro: step_create step_insert step_drop step_rename step_alter)

context block_device
begin

text \<open>
  The answer of an operation to its verdict: it is refused with the error and nothing changes, or it gives one of the answers, unless the
  volume or the journal is full; a power cut leaves the old database or one of the new ones.
\<close>

definition answered :: "'d store \<Rightarrow> database \<Rightarrow> ('a \<times> database) set result \<Rightarrow> ('a result \<times> 'd store) option \<Rightarrow> bool" where
  "answered s db V out \<longleftrightarrow> (case V of
      Inl e \<Rightarrow> \<exists>s'. out = Some (Inl e, s') \<and> represents ops media good s' db \<and> dev s' = dev s
    | Inr A \<Rightarrow> \<exists>r s'. out = Some (r, s') \<and>
        (live (dev s') \<longrightarrow> (\<exists>(x, db') \<in> A. r = Inr x \<and> represents ops media good s' db') \<or> r = Inl OutOfSpace \<and> represents ops media good s' db) \<and>
        (\<exists>db'. (db' = db \<or> db' \<in> snd ` A) \<and> recoverable ops media good (dev s') db'))"

lemma answered_many:
  assumes "case chk of
      Inl e \<Rightarrow> \<exists>s'. m s = Some (Inl e, s') \<and> represents ops media good s' db \<and> dev s' = dev s
    | Inr i \<Rightarrow> \<exists>r s'. m s = Some (r, s') \<and>
        (live (dev s') \<longrightarrow> (\<exists>y. r = Inr y \<and> P i y \<and> represents ops media good s' (f i y)) \<or> r = Inl OutOfSpace \<and> represents ops media good s' db) \<and>
        (recoverable ops media good (dev s') db \<or> (\<exists>y. P i y \<and> recoverable ops media good (dev s') (f i y)))"
    and "run_op ops opn = bindM m (\<lambda>y. returnM (g y))" "V = bindR chk (\<lambda>i. Inr {(g y, f i y) | y. P i y})"
  shows "answered s db V (run_op ops opn s)"
proof (cases chk)
  case (Inl e)
  then show ?thesis using assms by (auto simp: answered_def bindM_def bindR_def)
next
  case (Inr i)
  then obtain r s' where o: "m s = Some (r, s')"
    "live (dev s') \<longrightarrow> (\<exists>y. r = Inr y \<and> P i y \<and> represents ops media good s' (f i y)) \<or> r = Inl OutOfSpace \<and> represents ops media good s' db"
    "recoverable ops media good (dev s') db \<or> (\<exists>y. P i y \<and> recoverable ops media good (dev s') (f i y))" using assms(1) by auto
  have run: "run_op ops opn s = Some (map_sum (\<lambda>e. e) g r, s')" using o(1) assms(2) by (cases r) (simp_all add: bindM_def returnM_def)
  have V: "V = Inr {(g y, f i y) | y. P i y}" using Inr assms(3) by (simp add: bindR_def)
  show ?thesis unfolding answered_def V sum.case run
    by (intro exI[of _ "map_sum (\<lambda>e. e) g r"] exI[of _ s'] conjI) (use o(2,3) in \<open>auto 4 4 simp: image_iff\<close>)
qed

lemma answered_one:
  assumes "case chk of
      Inl e \<Rightarrow> \<exists>s'. m s = Some (Inl e, s') \<and> represents ops media good s' db \<and> dev s' = dev s
    | Inr i \<Rightarrow> \<exists>r s'. m s = Some (r, s') \<and>
        (live (dev s') \<longrightarrow> r = Inr () \<and> represents ops media good s' (f i) \<or> r = Inl OutOfSpace \<and> represents ops media good s' db) \<and>
        (recoverable ops media good (dev s') db \<or> recoverable ops media good (dev s') (f i))"
    and "run_op ops opn = bindM m (\<lambda>y. returnM None)" "V = bindR chk (\<lambda>i. Inr {(None, f i)})"
  shows "answered s db V (run_op ops opn s)"
  by (rule answered_many[where chk = chk and m = m and P = "\<lambda>_ _. True" and f = "\<lambda>i _. f i" and g = "\<lambda>_. None"])
    (use assms in \<open>auto split: sum.splits\<close>)

lemma answered_alters:
  assumes rep: "represents ops media good s db" and al: "alters ops media good live s db m (alteration db opn)"
    and run: "run_op ops opn = bindM m (\<lambda>x. returnM None)"
    and V: "verdict db opn = bindR (alteration db opn) (\<lambda>(i, G, t). Inr {(None, alter_db db i (row_change G) t)})"
  shows "answered s db (verdict db opn) (run_op ops opn s)"
  by (rule answered_one[where chk = "alteration db opn" and m = m and f = "\<lambda>(i, G, t). alter_db db i (row_change G) t"])
    (use alters_run[OF rep al] run V in \<open>auto simp: altered_def split_beta split: sum.splits\<close>)

lemma run_op_answered:
  assumes rep: "represents ops media good s db" and c: "consistent db" and gen: "generation (sb s) + 1 < 2 ^ 64"
    and rd: "op_ready db opn"
  shows "answered s db (verdict db opn) (run_op ops opn s)"
  using rd
proof (cases opn)
  case (CreateTable name)
  then have name: "rust_str name" using rd by simp
  show ?thesis unfolding CreateTable
    by (rule answered_one[where m = "create_table ops name" and f = "\<lambda>_. create_db db name"]) (rule create_refines[OF rep name gen], simp_all)
next
  case (Insert name cells)
  then have cells: "wf_row cells" using rd by simp
  show ?thesis unfolding Insert
    by (rule answered_many[where m = "insert_row ops name cells" and f = "\<lambda>i rid. insert_db db i rid cells"
        and P = "\<lambda>i rid. rid \<notin> fst ` set (rel_rows (db ! i))"]) (rule insert_refines[OF rep cells gen], simp_all)
next
  case (Update name rid cells)
  then obtain i old where t: "find_table db name = Inr i" "row_at db i rid = Some old" and cells: "wf_row cells" using rd by auto
  show ?thesis unfolding Update
    by (rule answered_one[where m = "update_row ops name rid cells" and f = "\<lambda>_. update_db db i rid cells"])
      (rule update_refines[OF rep c cells gen t], simp_all add: t bindR_def[of "Inr _"])
next
  case (Delete name rid)
  then obtain i old where t: "find_table db name = Inr i" "row_at db i rid = Some old" using rd by auto
  show ?thesis unfolding Delete
    by (rule answered_one[where m = "delete_row ops name rid" and f = "\<lambda>_. delete_db db i rid"])
      (rule delete_refines[OF rep c gen t], simp_all add: t bindR_def[of "Inr _"])
next
  case (DropTable name)
  show ?thesis unfolding DropTable
    by (rule answered_one[where m = "drop_table ops name" and f = "\<lambda>i. drop_db db i"]) (rule drop_refines[OF rep gen], simp_all)
next
  case (RenameColumn name old new)
  then have new: "rust_str new" using rd by simp
  show ?thesis unfolding RenameColumn
    by (rule answered_one[where m = "rename_column ops name old new" and f = "\<lambda>db'. db'"]) (rule rename_refines[OF rep gen new], simp_all)
next
  case (AddColumn name col)
  show ?thesis using rd unfolding AddColumn by (intro answered_alters[OF rep add_column_alters[OF rep gen]]) simp_all
next
  case (DropColumn name col)
  show ?thesis using rd unfolding DropColumn by (intro answered_alters[OF rep drop_column_alters[OF rep gen]]) simp_all
next
  case (MoveColumn name col new)
  show ?thesis using rd unfolding MoveColumn by (intro answered_alters[OF rep move_column_alters[OF rep gen]]) simp_all
next
  case (SetUnique name col u)
  show ?thesis using rd unfolding SetUnique by (intro answered_alters[OF rep set_unique_alters[OF rep gen]]) simp_all
next
  case (AddFk name fc tot toc)
  show ?thesis using rd unfolding AddFk by (intro answered_alters[OF rep add_fk_alters[OF rep gen]]) simp_all
next
  case (DropFk name fkn)
  show ?thesis using rd unfolding DropFk by (intro answered_alters[OF rep drop_fk_alters[OF rep gen]]) simp_all
next
  case (SetReferenceColumns name cs)
  show ?thesis using rd unfolding SetReferenceColumns by (intro answered_alters[OF rep set_reference_columns_alters[OF rep gen]]) simp_all
next
  case (SetDisplayWidth name col w)
  show ?thesis using rd unfolding SetDisplayWidth by (intro answered_alters[OF rep set_display_width_alters[OF rep gen]]) simp_all
qed

text \<open>In terms of steps: an operation is refused, or it makes a step of the database; a power cut leaves the one or the other.\<close>

definition outcome :: "'d store \<Rightarrow> database \<Rightarrow> operation \<Rightarrow> ('r result \<times> 'd store) option \<Rightarrow> bool" where
  "outcome s db opn out \<longleftrightarrow> (\<exists>r s'. out = Some (r, s') \<and>
     (live (dev s') \<longrightarrow> (\<exists>x db'. r = Inr x \<and> db_step db opn db' \<and> represents ops media good s' db') \<or>
        (\<exists>e. r = Inl e \<and> represents ops media good s' db \<and> (e \<noteq> Io \<or> dev s' = dev s))) \<and>
     (\<exists>db'. (db' = db \<or> db_step db opn db') \<and> recoverable ops media good (dev s') db'))"

lemma run_op_outcome:
  assumes "represents ops media good s db" "consistent db" "generation (sb s) + 1 < 2 ^ 64" "op_ready db opn"
  shows "outcome s db opn (run_op ops opn s)"
proof (cases "verdict db opn")
  case (Inl e)
  with run_op_answered[OF assms] obtain s' where "run_op ops opn s = Some (Inl e, s')" "represents ops media good s' db" "dev s' = dev s"
    by (auto simp: answered_def)
  then show ?thesis using represents_recoverable by (fastforce simp: outcome_def)
next
  case (Inr A)
  have st: "(x, db') \<in> A \<Longrightarrow> db_step db opn db'" for x db' by (rule verdict_step[OF assms(4) Inr])
  from run_op_answered[OF assms] Inr obtain r s' where o: "run_op ops opn s = Some (r, s')"
    "live (dev s') \<longrightarrow> (\<exists>(x, db') \<in> A. r = Inr x \<and> represents ops media good s' db') \<or> r = Inl OutOfSpace \<and> represents ops media good s' db"
    "\<exists>db'. (db' = db \<or> db' \<in> snd ` A) \<and> recoverable ops media good (dev s') db'" by (auto simp: answered_def)
  show ?thesis unfolding outcome_def
    by (intro exI[of _ r] exI[of _ s'] conjI o(1)) (use o(2,3) st in \<open>fastforce+\<close>)
qed

end

section \<open>On the RAM disk\<close>

lemma mem_mount_represents:
  assumes "recoverable mem_ops mem_media mem_good d db"
  shows "\<exists>pg. mount mem_ops (attach None d) = Some (Inr pg, dev pg) \<and> represents mem_ops mem_media mem_good pg db"
proof -
  have gd: "mem_good d" using assms by (simp add: recoverable_def)
  note re = reattach[OF gd, of None, folded attach_def]
  have "recoverable mem_ops mem_media mem_good (attach None d) db"
    using assms re by (simp add: recoverable_def mem_ops_def)
  from mem.mount_represents[OF this] obtain r d' where m: "mount mem_ops (attach None d) = Some (r, d')"
    "powered d' \<longrightarrow> (\<exists>pg. r = Inr pg \<and> dev pg = d' \<and> represents mem_ops mem_media mem_good pg db)" by blast
  have "cut_after (attach None d) = None" by (simp add: attach_def)
  then have "powered d'" using uncut_mount m(1) re(4) unfolding uncut_def by metis
  with m show ?thesis by blast
qed

text \<open>C1 The store implements the database. On a volume that represents a consistent database, every one of the fourteen
  operations on tables, columns, foreign keys and rows returns, and while the power lasts either it succeeds, the step is one the database
  allows and the volume represents the new database, which is consistent again, or it fails and the volume represents the old one.\<close>

theorem store_refines_database:
  assumes "represents mem_ops mem_media mem_good s db" "consistent db" "op_ready db opn" "generation (sb s) + 1 < 2 ^ 64"
  shows "\<exists>r s'. run_op mem_ops opn s = Some (r, s') \<and> (powered (dev s') \<longrightarrow>
    (\<exists>x db'. r = Inr x \<and> db_step db opn db' \<and> consistent db' \<and> represents mem_ops mem_media mem_good s' db') \<or>
    (\<exists>e. r = Inl e \<and> represents mem_ops mem_media mem_good s' db))"
  using mem.run_op_outcome[OF assms(1,2,4,3)] db_step_consistent[OF _ assms(2)] unfolding mem.outcome_def by blast

theorem store_refines_database_witness:
  "\<exists>s rid. represents mem_ops mem_media mem_good s [table_t [(rid, [])]] \<and> powered (dev s) \<and>
    (\<exists>r s'. run_op mem_ops (Delete ''t'' rid) s = Some (r, s') \<and> (powered (dev s') \<longrightarrow>
      (\<exists>x db'. r = Inr x \<and> db_step [table_t [(rid, [])]] (Delete ''t'' rid) db' \<and> consistent db' \<and>
         represents mem_ops mem_media mem_good s' db') \<or>
      (\<exists>e. r = Inl e \<and> represents mem_ops mem_media mem_good s' [table_t [(rid, [])]])))"
proof -
  from row_volume obtain s rid where s: "represents mem_ops mem_media mem_good s [table_t [(rid, [])]]" "has_room s 21"
    "generation (sb s) = 3" by blast
  have "consistent [table_t [(rid, [])]]" by (simp add: consistent_def row_fits_def unique_rows_def new_table_def)
  moreover have "op_ready [table_t [(rid, [])]] (Delete ''t'' rid)" by (simp add: find_table_def ok_or_def row_at_def)
  moreover have "generation (sb s) + 1 < 2 ^ 64" using s(3) by simp
  ultimately show ?thesis
    using store_refines_database[OF s(1), of "Delete ''t'' rid"] s(1,2) unfolding has_room_def by blast
qed

section \<open>Histories\<close>

text \<open>
  Every state of a store, and every medium without power, that a history of operations, power cuts and mounts can lead to. An operation
  or a mount may lose power after any number of sector writes: \<open>cut_after\<close> of the device is arbitrary.
\<close>

inductive mounted :: "mem_dev store \<Rightarrow> bool" and unplugged :: "mem_dev \<Rightarrow> bool" where
  after_format: "mem_good d \<Longrightarrow> format mem_ops d = Some (Inr pg, d') \<Longrightarrow> powered d' \<Longrightarrow> mounted pg"
| after_operation: "mounted s \<Longrightarrow> (\<And>db. represents mem_ops mem_media mem_good s db \<Longrightarrow> op_ready db opn) \<Longrightarrow>
    generation (sb s) + 1 < 2 ^ 64 \<Longrightarrow> run_op mem_ops opn s = Some (r, s') \<Longrightarrow> powered (dev s') \<Longrightarrow> mounted s'"
| cut_operation: "mounted s \<Longrightarrow> (\<And>db. represents mem_ops mem_media mem_good s db \<Longrightarrow> op_ready db opn) \<Longrightarrow>
    generation (sb s) + 1 < 2 ^ 64 \<Longrightarrow> run_op mem_ops opn s = Some (r, s') \<Longrightarrow> unplugged (dev s')"
| cut_mount: "unplugged d \<Longrightarrow> mount mem_ops (attach c d) = Some (r, d') \<Longrightarrow> unplugged d'"
| after_mount: "unplugged d \<Longrightarrow> mount mem_ops (attach c d) = Some (Inr pg, d') \<Longrightarrow> powered d' \<Longrightarrow> mounted pg"

lemma recoverable_attach:
  assumes "recoverable mem_ops mem_media mem_good d db"
  shows "recoverable mem_ops mem_media mem_good (attach c d) db"
proof -
  have gd: "mem_good d" using assms by (simp add: recoverable_def)
  show ?thesis using assms reattach[OF gd, of c, folded attach_def] by (simp add: recoverable_def mem_ops_def)
qed

lemma mount_recoverable:
  assumes rec: "recoverable mem_ops mem_media mem_good d db" and run: "mount mem_ops d = Some (r, d')"
  shows "recoverable mem_ops mem_media mem_good d' db"
proof -
  from rec obtain t ps cat cps Ls g where gd: "mem_good d" "redo_fits (sector_count mem_ops d) (mem_media d)"
    and st: "stores mem_ops mem_media mem_good t ps cat cps Ls db" and sc: "sector_count mem_ops (dev t) = sector_count mem_ops d"
    and s: "sb_decode (volume (mem_media d) 0) = Inr ((sb t)\<lparr>generation := g\<rparr>)"
    and v: "\<forall>p \<ge> FIRST_DATA_PAGE. volume (mem_media d) p = content mem_media t p" by (auto simp: recoverable_def)
  from mem.mount_ok[OF gd s] run have m: "mem_good d'" "sector_count mem_ops d' = sector_count mem_ops d"
    "redo_fits (sector_count mem_ops d) (mem_media d')" "\<forall>p. home_page p \<longrightarrow> volume (mem_media d') p = volume (mem_media d) p" by auto
  then show ?thesis unfolding recoverable_def using st sc s v
    by (intro conjI exI[of _ t] exI[of _ ps] exI[of _ cat] exI[of _ cps] exI[of _ Ls] exI[of _ g]) (simp_all add: home_page_def)
qed

lemma history:
  shows "mounted s \<Longrightarrow> \<exists>db. reachable db \<and> represents mem_ops mem_media mem_good s db"
    and "unplugged d \<Longrightarrow> \<exists>db. reachable db \<and> recoverable mem_ops mem_media mem_good d db"
proof (induction rule: mounted_unplugged.inducts)
  case (after_format d pg d')
  then show ?case using format_represents(2) reach_empty by blast
next
  case (after_operation s opn r s')
  then obtain db where db: "reachable db" "represents mem_ops mem_media mem_good s db" by blast
  from mem.run_op_outcome[OF db(2) reachable_keeps[OF db(1)] after_operation.hyps(3) after_operation.hyps(2)[OF db(2)]] after_operation.hyps(4,5) show ?case
    using db reach_step[OF db(1)] unfolding mem.outcome_def by fastforce
next
  case (cut_operation s opn r s')
  then obtain db where db: "reachable db" "represents mem_ops mem_media mem_good s db" by blast
  from mem.run_op_outcome[OF db(2) reachable_keeps[OF db(1)] cut_operation.hyps(3) cut_operation.hyps(2)[OF db(2)]] cut_operation.hyps(4) show ?case
    using db reach_step[OF db(1)] unfolding mem.outcome_def by fastforce
next
  case (cut_mount d c r d')
  then show ?case using mount_recoverable recoverable_attach by blast
next
  case (after_mount d c pg d')
  then obtain db where db: "reachable db" "recoverable mem_ops mem_media mem_good d db" by blast
  from mem.mount_represents[OF recoverable_attach[OF db(2), of c]] after_mount.hyps(2,3) have "represents mem_ops mem_media mem_good pg db" by auto
  with db(1) show ?case by blast
qed

text \<open>A mounted store never has two foreign keys of one table with the same name.\<close>

lemma history_named: "mounted s \<Longrightarrow> \<exists>db. represents mem_ops mem_media mem_good s db \<and> consistent db \<and> named_fks db"
  using history(1) reachable_keeps reachable_named by blast

text \<open>C2 Whatever the history of a volume is (a format, then any number of operations on tables, columns, keys and rows, each
  of them with the power failing after any sector write, and any number of mounts, which may lose power as well), a store that is mounted
  represents a database that is consistent: no half-done operation, no dangling reference and no duplicate key is ever seen.\<close>

theorem history_consistent:
  assumes "mounted s"
  shows "\<exists>db. represents mem_ops mem_media mem_good s db \<and> consistent db"
  using history(1)[OF assms] reachable_keeps by blast

theorem history_consistent_witness:
  "\<exists>s. mounted s \<and> has_room s 31 \<and> (\<exists>db. represents mem_ops mem_media mem_good s db \<and> consistent db)"
proof -
  from empty_volume obtain d s where f: "mem_good d" "format mem_ops d = Some (Inr s, dev s)" "has_room s 31" by blast
  have "mounted s" using after_format[OF f(1,2)] f(3) by (simp add: has_room_def)
  with history_consistent[OF this] f(3) show ?thesis by blast
qed

text \<open>C3 An operation is atomic under power cuts at the level of the database: wherever the power fails, mounting the medium again
  gives a volume which represents either the database before the operation or a database that one step of the operation allows, and in
  both cases a consistent one.\<close>

theorem operation_survives_power_cut:
  assumes "represents mem_ops mem_media mem_good s db" "consistent db" "op_ready db opn" "generation (sb s) + 1 < 2 ^ 64"
  shows "\<exists>r s' pg db'. run_op mem_ops opn s = Some (r, s') \<and> mount mem_ops (attach None (dev s')) = Some (Inr pg, dev pg) \<and>
    (db' = db \<or> db_step db opn db') \<and> consistent db' \<and> represents mem_ops mem_media mem_good pg db'"
proof -
  from mem.run_op_outcome[OF assms(1,2,4,3)] obtain r s' db' where o: "run_op mem_ops opn s = Some (r, s')"
    "db' = db \<or> db_step db opn db'" "recoverable mem_ops mem_media mem_good (dev s') db'" unfolding mem.outcome_def by blast
  have "consistent db'" using o(2) db_step_consistent assms(2) by blast
  with o mem_mount_represents[OF o(3)] show ?thesis by blast
qed

theorem operation_survives_power_cut_witness:
  "\<exists>s. represents mem_ops mem_media mem_good s [table_t []] \<and> (\<exists>r s' pg db'. run_op mem_ops (Insert ''t'' []) s = Some (r, s') \<and>
    mount mem_ops (attach None (dev s')) = Some (Inr pg, dev pg) \<and> (db' = [table_t []] \<or> db_step [table_t []] (Insert ''t'' []) db') \<and>
    consistent db' \<and> represents mem_ops mem_media mem_good pg db')"
proof -
  from table_volume obtain s where s: "represents mem_ops mem_media mem_good s [table_t []]" "generation (sb s) = 2" by blast
  have "consistent [table_t []]" by (simp add: consistent_def unique_rows_def new_table_def)
  moreover have "op_ready [table_t []] (Insert ''t'' [])" by (simp add: wf_row_def)
  moreover have "generation (sb s) + 1 < 2 ^ 64" using s(2) by simp
  ultimately show ?thesis using operation_survives_power_cut[OF s(1)] s(1) by blast
qed

text \<open>A volume with a tree: a table whose second column refers to its first, and a row that refers to another.\<close>

abbreviation "tree_db ra rb \<equiv> [tree_t [key_col, parent_col] [parent_fk] [(ra, [Some (VStr ''a''), None]), (rb, [Some (VStr ''b''), Some (VStr ''a'')])]]"

lemma tree_checks:
  "find_table [tree_t cs ks rows] ''t'' = Inr 0"
  "insert_check [tree_t [key_col, parent_col] [parent_fk] []] ''t'' [Some (VStr ''a''), None] = Inr 0"
  "insert_check [tree_t [key_col, parent_col] [parent_fk] [(ra, [Some (VStr ''a''), None])]] ''t'' [Some (VStr ''b''), Some (VStr ''a'')] = Inr 0"
  by (simp_all add: insert_check_def find_table_def ok_or_def bindR_def valid_row_def check_cell_def unique_ok_def fk_ok_def column_index_def
    cell_at_def)

lemma tree_consistent: "ra \<noteq> rb \<Longrightarrow> consistent (tree_db ra rb) \<and> named_fks (tree_db ra rb)"
  by (auto simp: consistent_def named_fks_def row_fits_def unique_rows_def fk_held_def fk_target_def tree_checks(1) column_index_def cell_at_def
    check_cell_def less_Suc_eq)

lemma tree_volume:
  "\<exists>s ra rb. represents mem_ops mem_media mem_good s (tree_db ra rb) \<and> ra \<noteq> rb \<and> has_room s 16 \<and> generation (sb s) = 4"
proof -
  let ?sch = "\<lparr>table_name = ''t'', columns = [key_col, parent_col], fks = [parent_fk], ref_cols = []\<rparr>"
  from empty_volume obtain s0 where s0: "represents mem_ops mem_media mem_good s0 []" "has_room s0 31" "generation (sb s0) = 1" by blast
  have room: "has_room s n \<Longrightarrow> k \<le> n - m \<Longrightarrow> m \<le> n \<Longrightarrow> has_room s (m + k)" for s :: "mem_dev store" and k m n by (auto simp: has_room_def)
  have "chunks (encode_table ?sch) + 1 + catalog_pages (map rel_name [] @ [''t'']) \<le> 31 - 26" by code_simp
  note r1 = room[OF s0(2) this]
  have wf: "wf_table ?sch" by (simp add: wf_table_def wf_column_def wf_fk_def rust_str_def)
  obtain s1 where s1: "represents mem_ops mem_media mem_good s1 [tree_t [key_col, parent_col] [parent_fk] []]" "has_room s1 26" "generation (sb s1) = 2"
    using mem_seed_live[OF s0(1) _ wf _ r1] s0(3) by (auto simp: seed_db_def rust_str_def)
  have row: "wf_row [Some (VStr ''a''), None]" "wf_row [Some (VStr ''b''), Some (VStr ''a'')]" by (simp_all add: wf_row_def rust_str_def)
  have "chunks (encode_row [Some (VStr ''a''), None]) + 1 + catalog_pages [''t''] \<le> 26 - 21" by code_simp
  then have "has_room s1 (21 + (chunks (encode_row [Some (VStr ''a''), None]) + 1 +
      catalog_pages (map rel_name [tree_t [key_col, parent_col] [parent_fk] []])))" by (intro room[OF s1(2)]) simp_all
  from mem_insert_live[OF s1(1) row(1) _ tree_checks(2) this] s1(3) obtain s2 ra where
    s2: "represents mem_ops mem_media mem_good s2 [tree_t [key_col, parent_col] [parent_fk] [(ra, [Some (VStr ''a''), None])]]"
    "has_room s2 21" "generation (sb s2) = 3" by (auto simp: insert_db_def with_rows_def)
  have "chunks (encode_row [Some (VStr ''b''), Some (VStr ''a'')]) + 1 + catalog_pages [''t''] \<le> 21 - 16" by code_simp
  then have "has_room s2 (16 + (chunks (encode_row [Some (VStr ''b''), Some (VStr ''a'')]) + 1 +
      catalog_pages (map rel_name [tree_t [key_col, parent_col] [parent_fk] [(ra, [Some (VStr ''a''), None])]])))" by (intro room[OF s2(2)]) simp_all
  from mem_insert_live[OF s2(1) row(2) _ tree_checks(3) this] s2(3) show ?thesis
    by (fastforce simp: insert_db_def with_rows_def)
qed

section \<open>Answers\<close>





text \<open>C9 What a deletion answers: the foreign-key violation that the restrict rule finds in the database, with nothing changed; and
  otherwise the row is gone and no other row has changed. Only where the new catalog does not fit the free pages, or the data pages do not
  fit the journal, may it report a full volume instead, with the database unchanged: with room left a deletion never fails.\<close>

theorem delete_answers:
  assumes "represents mem_ops mem_media mem_good s db" "consistent db" "generation (sb s) + 1 < 2 ^ 64"
    "find_table db name = Inr i" "row_at db i rid = Some old"
  shows "case restrict_ok db i rid old [] of
      Inl e \<Rightarrow> \<exists>s'. delete_row mem_ops name rid s = Some (Inl e, s') \<and> represents mem_ops mem_media mem_good s' db \<and> dev s' = dev s
    | Inr _ \<Rightarrow> \<exists>r s'. delete_row mem_ops name rid s = Some (r, s') \<and> (powered (dev s') \<longrightarrow>
        r = Inr () \<and> represents mem_ops mem_media mem_good s'
          (db[i := (db ! i)\<lparr>rel_rows := filter (\<lambda>ir. fst ir \<noteq> rid) (rel_rows (db ! i))\<rparr>]) \<or>
        r = Inl OutOfSpace \<and> represents mem_ops mem_media mem_good s' db \<and> \<not> pages_left s (catalog_pages (map rel_name db)))"
proof (cases "pages_left s (catalog_pages (map rel_name db)) \<and> restrict_ok db i rid old [] = Inr ()")
  case True
  then show ?thesis using mem.delete_live[OF assms] unfolding pages_left_def delete_db_def with_rows_def by fastforce
next
  case False
  then show ?thesis using mem.delete_refines[OF assms] unfolding delete_db_def with_rows_def by (auto split: sum.splits)
qed

theorem delete_answers_witness:
  "\<exists>s rid r s'. represents mem_ops mem_media mem_good s [table_t [(rid, [])]] \<and> delete_row mem_ops ''t'' rid s = Some (r, s') \<and>
     (powered (dev s') \<longrightarrow> r = Inr () \<and> represents mem_ops mem_media mem_good s' [table_t []])"
proof -
  from row_volume obtain s rid where s: "represents mem_ops mem_media mem_good s [table_t [(rid, [])]]" "has_room s 21" "generation (sb s) = 3" by blast
  have c: "consistent [table_t [(rid, [])]]" by (simp add: consistent_def row_fits_def unique_rows_def new_table_def)
  have g: "generation (sb s) + 1 < 2 ^ 64" using s(3) by simp
  have t: "find_table [table_t [(rid, [])]] ''t'' = Inr 0" "row_at [table_t [(rid, [])]] 0 rid = Some []"
    by (simp_all add: find_table_def ok_or_def row_at_def)
  have r: "restrict_ok [table_t [(rid, [])]] 0 rid [] [] = Inr ()" by (simp add: restrict_ok_def new_table_def)
  have "catalog_pages (map rel_name [table_t [(rid, [])]]) \<le> 21" by code_simp
  then have "pages_left s (catalog_pages (map rel_name [table_t [(rid, [])]]))" using s(2) by (auto simp: has_room_def pages_left_def)
  with delete_answers[OF s(1) c g t] r s(1) show ?thesis by fastforce
qed

text \<open>C10 Reading answers from the database: \<^verbatim>\<open>scan\<close> lists the rows of a table with their identities in insertion order,
  \<^verbatim>\<open>get\<close> returns the row with an identity, and neither changes anything but the cache.\<close>

theorem reads_answer:
  assumes "represents mem_ops mem_media mem_good s db" "consistent db" "find_table db name = Inr i" "row_at db i rid = Some r"
  shows "\<exists>c c'. scan mem_ops name s = Some (Inr (rel_rows (db ! i)), s\<lparr>cache := c\<rparr>) \<and>
    get_row mem_ops name rid s = Some (Inr r, s\<lparr>cache := c'\<rparr>)"
proof -
  from assms(1) obtain ps cat cps Ls where st: "stores mem_ops mem_media mem_good s ps cat cps Ls db" by (auto simp: represents_def)
  have ok: "pager_ok mem_ops mem_media mem_good s" using st by (simp add: stores_def)
  have i: "i < length db" using find_table_bound[OF assms(3)] by simp
  have fit: "resize (length (cols (db ! i))) (snd a) = snd a" if "a \<in> set (rel_rows (db ! i))" for a
    using consistentD(2)[OF assms(2) i that] by (intro resize_fit) (simp add: row_fits_def)
  have rows: "map (\<lambda>(rid, r). (rid, resize (length (cols (db ! i))) r)) (rel_rows (db ! i)) = rel_rows (db ! i)"
    using fit by (intro map_idI) auto
  have "(rid, r) \<in> set (rel_rows (db ! i))" using assms(4) by (auto simp: row_at_def dest: map_of_SomeD)
  then have r: "resize (length (cols (db ! i))) r = r" using fit by fastforce
  from computesD[OF mem.computes_scan[OF st assms(3), unfolded rows] ok] computesD[OF mem.computes_get_row[OF st assms(3,4), unfolded r] ok]
  show ?thesis by metis
qed

theorem reads_answer_witness:
  "\<exists>s rid c c'. represents mem_ops mem_media mem_good s [table_t [(rid, [])]] \<and>
    scan mem_ops ''t'' s = Some (Inr [(rid, [])], s\<lparr>cache := c\<rparr>) \<and> get_row mem_ops ''t'' rid s = Some (Inr [], s\<lparr>cache := c'\<rparr>)"
proof -
  from row_volume obtain s rid where s: "represents mem_ops mem_media mem_good s [table_t [(rid, [])]]" by blast
  have c: "consistent [table_t [(rid, [])]]" by (simp add: consistent_def row_fits_def unique_rows_def new_table_def)
  have t: "find_table [table_t [(rid, [])]] ''t'' = Inr 0" "row_at [table_t [(rid, [])]] 0 rid = Some []"
    by (simp_all add: find_table_def ok_or_def row_at_def)
  from reads_answer[OF s c t] s show ?thesis by auto
qed

section \<open>Success\<close>

text \<open>C11 An insertion succeeds when it can: if the row passes the checks, the power lasts, the data pages of the volume fit the
  journal, and the pages for the row, one index page and a new catalog are free, then \<^verbatim>\<open>insert\<close> returns the identity of
  the new row, and the volume represents the database with the row.\<close>

theorem insert_succeeds:
  assumes "represents mem_ops mem_media mem_good s db" "wf_row cells" "generation (sb s) + 1 < 2 ^ 64"
    "insert_check db name cells = Inr i" "has_room s (n + (chunks (encode_row cells) + 1 + catalog_pages (map rel_name db)))"
  shows "\<exists>rid s'. insert_row mem_ops name cells s = Some (Inr rid, s') \<and> rid \<notin> fst ` set (rel_rows (db ! i)) \<and>
    represents mem_ops mem_media mem_good s' (insert_db db i rid cells) \<and> has_room s' n"
  using mem_insert_live[OF assms] by blast

theorem insert_succeeds_witness:
  "\<exists>s rid s'. represents mem_ops mem_media mem_good s [table_t []] \<and> insert_row mem_ops ''t'' [] s = Some (Inr rid, s') \<and>
    represents mem_ops mem_media mem_good s' [table_t [(rid, [])]]"
proof -
  from table_volume obtain s where s: "represents mem_ops mem_media mem_good s [table_t []]" "has_room s 26" "generation (sb s) = 2" by blast
  have "chunks (encode_row []) + 1 + catalog_pages (map rel_name [table_t []]) \<le> 5" by code_simp
  then have r: "has_room s (21 + (chunks (encode_row []) + 1 + catalog_pages (map rel_name [table_t []])))"
    using s(2) by (auto simp: has_room_def)
  have c: "insert_check [table_t []] ''t'' [] = Inr 0"
    by (simp add: insert_check_def find_table_def ok_or_def bindR_def valid_row_def new_table_def)
  have g: "wf_row []" "generation (sb s) + 1 < 2 ^ 64" using s(3) by (simp_all add: wf_row_def)
  from insert_succeeds[OF s(1) g c r] s(1) show ?thesis by (auto simp: insert_db_def with_rows_def)
qed

end
