(* ===== verification/Ports.thy ===== *)
theory Ports
  imports Prelude "HOL-Library.State_Monad"
begin

text \<open>
  The I/O ports of the machine, as the drivers of \<^verbatim>\<open>kernel/src\<close> use them. The hardware behind the ports is not part
  of the program: it is a parameter, a record \<^verbatim>\<open>bus\<close> of functions on a hardware state of any type, which answer a read
  and react to a write. A driver is a program of the library's state monad over that hardware state together with
  the sequence of port writes made so far; what a driver asks of the hardware is read off that sequence.
\<close>

section \<open>Ports\<close>

type_synonym u16 = "16 word"

record 'h bus =
  in8 :: "nat \<Rightarrow> 'h \<Rightarrow> byte \<times> 'h"
  in16 :: "nat \<Rightarrow> 'h \<Rightarrow> u16 \<times> 'h"
  in32 :: "nat \<Rightarrow> 'h \<Rightarrow> u32 \<times> 'h"
  out8 :: "nat \<Rightarrow> byte \<Rightarrow> 'h \<Rightarrow> 'h"
  out16 :: "nat \<Rightarrow> u16 \<Rightarrow> 'h \<Rightarrow> 'h"
  out32 :: "nat \<Rightarrow> u32 \<Rightarrow> 'h \<Rightarrow> 'h"

datatype port_write =
    Out8 nat byte
  | Out16 nat u16
  | Out32 nat u32

type_synonym 'h wires = "'h \<times> port_write list"
type_synonym ('h, 'a) io = "('h wires, 'a) state"

definition inb :: "'h bus \<Rightarrow> nat \<Rightarrow> ('h, byte) io" where
  "inb B p = State (\<lambda>(h, tr). let (v, h') = in8 B p h in (v, h', tr))"

definition inw :: "'h bus \<Rightarrow> nat \<Rightarrow> ('h, u16) io" where
  "inw B p = State (\<lambda>(h, tr). let (v, h') = in16 B p h in (v, h', tr))"

definition inl :: "'h bus \<Rightarrow> nat \<Rightarrow> ('h, u32) io" where
  "inl B p = State (\<lambda>(h, tr). let (v, h') = in32 B p h in (v, h', tr))"

definition outb :: "'h bus \<Rightarrow> nat \<Rightarrow> byte \<Rightarrow> ('h, unit) io" where
  "outb B p v = State (\<lambda>(h, tr). ((), out8 B p v h, tr @ [Out8 p v]))"

definition outw :: "'h bus \<Rightarrow> nat \<Rightarrow> u16 \<Rightarrow> ('h, unit) io" where
  "outw B p v = State (\<lambda>(h, tr). ((), out16 B p v h, tr @ [Out16 p v]))"

definition outl :: "'h bus \<Rightarrow> nat \<Rightarrow> u32 \<Rightarrow> ('h, unit) io" where
  "outl B p v = State (\<lambda>(h, tr). ((), out32 B p v h, tr @ [Out32 p v]))"

text \<open>A loop that runs an action a fixed number of times, and one that runs it over a list.\<close>

fun times :: "nat \<Rightarrow> ('h, 'a) io \<Rightarrow> ('h, 'a list) io" where
  "times 0 a = State_Monad.return []"
| "times (Suc n) a = do { x \<leftarrow> a; xs \<leftarrow> times n a; State_Monad.return (x # xs) }"

fun each :: "'x list \<Rightarrow> ('x \<Rightarrow> ('h, unit) io) \<Rightarrow> ('h, unit) io" where
  "each [] a = State_Monad.return ()"
| "each (x # xs) a = do { a x; each xs a }"

section \<open>The writes of a driver\<close>

text \<open>
  \<^verbatim>\<open>emits P m\<close>: whatever the hardware answers, \<^verbatim>\<open>m\<close> appends to the trace a sequence of writes that satisfies \<^verbatim>\<open>P\<close>
  for the result it returns. The rules follow the structure of the program.
\<close>

definition emits :: "('a \<Rightarrow> port_write list \<Rightarrow> bool) \<Rightarrow> ('h, 'a) io \<Rightarrow> bool" where
  "emits P m \<longleftrightarrow> (\<forall>h tr x h' tr'. run_state m (h, tr) = (x, h', tr') \<longrightarrow> (\<exists>ws. tr' = tr @ ws \<and> P x ws))"

named_theorems emits_rules "rules for the writes of a driver"

lemma emitsI:
  assumes "\<And>h tr. \<exists>x h' ws. run_state m (h, tr) = (x, h', tr @ ws) \<and> P x ws"
  shows "emits P m"
  using assms unfolding emits_def by (metis prod.inject)

lemma emitsE:
  assumes "emits P m"
  obtains x h' ws where "run_state m (h, tr) = (x, h', tr @ ws)" "P x ws"
proof -
  obtain x h' tr' where run: "run_state m (h, tr) = (x, h', tr')" using prod_cases3 by blast
  with assms obtain ws where "tr' = tr @ ws" "P x ws" unfolding emits_def by blast
  with run that show thesis by blast
qed

lemma emits_mono:
  assumes "emits P m" "\<And>x ws. P x ws \<Longrightarrow> Q x ws"
  shows "emits Q m"
  using assms unfolding emits_def by blast

lemma emits_return [emits_rules]: "emits (\<lambda>y ws. y = x \<and> ws = []) (State_Monad.return x)"
  by (rule emitsI) simp

lemma emits_in [emits_rules]:
  "emits (\<lambda>_ ws. ws = []) (inb B p)" "emits (\<lambda>_ ws. ws = []) (inw B p)" "emits (\<lambda>_ ws. ws = []) (inl B p)"
  by (rule emitsI; simp add: inb_def inw_def inl_def split: prod.splits)+

lemma emits_out [emits_rules]:
  "emits (\<lambda>_ ws. ws = [Out8 p v8]) (outb B p v8)"
  "emits (\<lambda>_ ws. ws = [Out16 p v16]) (outw B p v16)"
  "emits (\<lambda>_ ws. ws = [Out32 p v32]) (outl B p v32)"
  by (rule emitsI; simp add: outb_def outw_def outl_def)+

lemma emits_bind:
  assumes "emits P m" and "\<And>x. emits (Q x) (k x)"
    and "\<And>x y us vs. P x us \<Longrightarrow> Q x y vs \<Longrightarrow> R y (us @ vs)"
  shows "emits R (m \<bind> k)"
proof (rule emitsI)
  fix h tr
  from assms(1) obtain x h1 us where m: "run_state m (h, tr) = (x, h1, tr @ us)" "P x us" by (rule emitsE)
  from assms(2) [of x] obtain y h2 vs where k: "run_state (k x) (h1, tr @ us) = (y, h2, (tr @ us) @ vs)" "Q x y vs"
    by (rule emitsE)
  show "\<exists>y h' ws. run_state (m \<bind> k) (h, tr) = (y, h', tr @ ws) \<and> R y ws"
    using m k assms(3) by auto
qed

text \<open>The two shapes that occur in straight-line driver code: a read, and a write, before the rest.\<close>

lemma emits_after_read:
  assumes "emits (\<lambda>_ ws. ws = []) m" "\<And>x. emits R (k x)"
  shows "emits R (m \<bind> k)"
  by (rule emits_bind [OF assms]) simp

lemma emits_after_write:
  assumes "emits (\<lambda>_ ws. ws = us) m" "\<And>x. emits (\<lambda>y ws. R y (us @ ws)) (k x)"
  shows "emits R (m \<bind> k)"
  by (rule emits_bind [OF assms]) simp

lemma emits_times [emits_rules]:
  assumes "emits (\<lambda>_ ws. ws = []) a"
  shows "emits (\<lambda>xs ws. ws = [] \<and> length xs = n) (times n a)"
proof (induction n)
  case 0
  show ?case by (auto intro: emits_mono [OF emits_return])
next
  case (Suc n)
  have "emits (\<lambda>ys ws. ws = [] \<and> length ys = Suc n) (times n a \<bind> (\<lambda>xs. State_Monad.return (x # xs)))" for x
    by (rule emits_bind [OF Suc emits_return]) auto
  then show ?case by (simp add: emits_after_read [OF assms])
qed

lemma emits_each:
  assumes "\<And>x. emits (\<lambda>_ ws. ws = [f x]) (a x)"
  shows "emits (\<lambda>_ ws. ws = map f xs) (each xs a)"
proof (induction xs)
  case Nil
  show ?case by (auto intro: emits_mono [OF emits_return])
next
  case (Cons x xs)
  show ?case by simp (rule emits_bind [OF assms Cons], simp)
qed

text \<open>A channel with nothing on it: every read returns ones.\<close>

definition floating :: "unit bus" where
  "floating = \<lparr>in8 = (\<lambda>p h. (0xFF, h)), in16 = (\<lambda>p h. (0xFFFF, h)), in32 = (\<lambda>p h. (0xFFFFFFFF, h)),
    out8 = (\<lambda>p v h. h), out16 = (\<lambda>p v h. h), out32 = (\<lambda>p v h. h)\<rparr>"

text \<open>Every write of a program meets a condition.\<close>

lemma emits_all_bind:
  assumes "emits (\<lambda>_. list_all P) m" "\<And>x. emits (\<lambda>_. list_all P) (k x)"
  shows "emits (\<lambda>_. list_all P) (m \<bind> k)"
  by (rule emits_bind [OF assms]) simp

lemma emits_all_return: "emits (\<lambda>_. list_all P) (State_Monad.return x)"
  by (auto intro: emits_mono [OF emits_return])

lemma emits_all_in:
  "emits (\<lambda>_. list_all P) (inb B p)" "emits (\<lambda>_. list_all P) (inw B p)" "emits (\<lambda>_. list_all P) (inl B p)"
  by (auto intro: emits_mono [OF emits_in(1)] emits_mono [OF emits_in(2)] emits_mono [OF emits_in(3)])

lemma emits_all_out:
  "P (Out8 p v8) \<Longrightarrow> emits (\<lambda>_. list_all P) (outb B p v8)"
  "P (Out16 p v16) \<Longrightarrow> emits (\<lambda>_. list_all P) (outw B p v16)"
  "P (Out32 p v32) \<Longrightarrow> emits (\<lambda>_. list_all P) (outl B p v32)"
  by (auto intro: emits_mono [OF emits_out(1)] emits_mono [OF emits_out(2)] emits_mono [OF emits_out(3)])

lemma emits_all_times:
  assumes "emits (\<lambda>_. list_all P) a"
  shows "emits (\<lambda>_. list_all P) (times n a)"
  by (induction n) (auto intro!: emits_all_bind assms emits_all_return)

lemmas emits_all = emits_all_bind emits_all_return emits_all_in emits_all_out emits_all_times

lemma emits_if: "(c \<Longrightarrow> emits P m) \<Longrightarrow> (\<not> c \<Longrightarrow> emits P n) \<Longrightarrow> emits P (if c then m else n)"
  by simp

end
