(* ===== verification/Input.thy ===== *)
theory Input
  imports Ports "HOL-Library.Sublist"
begin

text \<open>
  Keyboard and mouse, \<^verbatim>\<open>kernel/src/ps2.rs\<close>. The interrupt handlers feed raw bytes to two decoders, the
  USB poll loop feeds pointer deltas, and all of them push decoded events into one ring of 512 slots, which
  the user interface drains.

  The ring, the keyboard state and the mouse state are the three statics of the module; every access to them
  masks interrupts, so each entry point is one atomic step and the interleaving of producers and consumer is a
  list of \<^verbatim>\<open>input_action\<close>s. An operation returns \<^term>\<open>None\<close> where the Rust code panics (an \<^verbatim>\<open>i32\<close>
  overflow, or \<^verbatim>\<open>clamp\<close> with an empty range). The handshake that switches the mouse on is a program over the
  ports of the controller.

  The queue contract is the locale \<^verbatim>\<open>event_queue\<close>; the ring is its interpretation.
\<close>

unbundle bit_operations_syntax

section \<open>Events and the ring\<close>

datatype key =
    Char char
  | Enter
  | Esc
  | Backspace
  | Tab
  | Up
  | Down
  | Left
  | Right
  | Home
  | End
  | Delete
  | PageUp
  | PageDown

datatype event =
    Key key
  | MouseMove nat nat
  | Click nat nat
  | RightClick

definition QUEUE_CAP :: nat where
  "QUEUE_CAP = 512"

record event_ring =
  ring_buf :: "event list"
  ring_head :: nat
  ring_len :: nat

definition ring_new :: event_ring where
  "ring_new = \<lparr>ring_buf = replicate QUEUE_CAP (MouseMove 0 0), ring_head = 0, ring_len = 0\<rparr>"

definition ring_push :: "event_ring \<Rightarrow> event \<Rightarrow> event_ring" where
  "ring_push r e =
    (if ring_len r = QUEUE_CAP then r
     else let tail = (ring_head r + ring_len r) mod QUEUE_CAP in
       r\<lparr>ring_buf := (ring_buf r)[tail := e], ring_len := ring_len r + 1\<rparr>)"

definition ring_pop :: "event_ring \<Rightarrow> event option \<times> event_ring" where
  "ring_pop r =
    (if ring_len r = 0 then (None, r)
     else (Some (ring_buf r ! ring_head r),
           r\<lparr>ring_head := (ring_head r + 1) mod QUEUE_CAP, ring_len := ring_len r - 1\<rparr>))"

section \<open>The statics\<close>

record kbd =
  shift :: bool
  extended :: bool

record mouse_state =
  packet :: "byte list"
  idx :: nat
  mouse_x :: int
  mouse_y :: int
  max_x :: int
  max_y :: int
  left_was_down :: bool
  right_was_down :: bool

record input =
  QUEUE :: event_ring
  KBD :: kbd
  MOUSE :: mouse_state

definition input_new :: input where
  "input_new =
    \<lparr>QUEUE = ring_new,
     KBD = \<lparr>shift = False, extended = False\<rparr>,
     MOUSE = \<lparr>packet = [0, 0, 0], idx = 0, mouse_x = 0, mouse_y = 0, max_x = 1023, max_y = 767,
              left_was_down = False, right_was_down = False\<rparr>\<rparr>"

definition push_event :: "event \<Rightarrow> input \<Rightarrow> input" where
  "push_event e s = s\<lparr>QUEUE := ring_push (QUEUE s) e\<rparr>"

definition poll :: "input \<Rightarrow> event option \<times> input" where
  "poll s = (let (e, r) = ring_pop (QUEUE s) in (e, s\<lparr>QUEUE := r\<rparr>))"

text \<open>Rust's \<^verbatim>\<open>usize as i32\<close>, \<^verbatim>\<open>i32 as usize\<close>, checked \<^verbatim>\<open>i32\<close> results, division by two and \<^verbatim>\<open>clamp\<close>.\<close>

definition as_i32 :: "nat \<Rightarrow> int" where
  "as_i32 n = sint (word_of_nat n :: 32 word)"

definition as_usize :: "int \<Rightarrow> nat" where
  "as_usize i = nat (i mod 2 ^ 64)"

definition in_i32 :: "int \<Rightarrow> int option" where
  "in_i32 i = (if - (2 ^ 31) \<le> i \<and> i < 2 ^ 31 then Some i else None)"

definition half_i32 :: "int \<Rightarrow> int" where
  "half_i32 i = (if 0 \<le> i then i div 2 else - (- i div 2))"

definition clamp :: "int \<Rightarrow> int \<Rightarrow> int \<Rightarrow> int option" where
  "clamp v lo hi = (if lo \<le> hi then Some (max lo (min hi v)) else None)"

definition set_bounds :: "nat \<Rightarrow> nat \<Rightarrow> input \<Rightarrow> input option" where
  "set_bounds w h s =
    (case in_i32 (as_i32 w - 1) of None \<Rightarrow> None | Some mx \<Rightarrow>
     case in_i32 (as_i32 h - 1) of None \<Rightarrow> None | Some my \<Rightarrow>
       Some (s\<lparr>MOUSE := (MOUSE s)\<lparr>max_x := mx, max_y := my,
                                 mouse_x := half_i32 mx, mouse_y := half_i32 my\<rparr>\<rparr>))"

definition mouse_pos :: "input \<Rightarrow> nat \<times> nat" where
  "mouse_pos s = (as_usize (mouse_x (MOUSE s)), as_usize (mouse_y (MOUSE s)))"

section \<open>The keyboard, scancode set 1\<close>

definition LOW :: string where
  "LOW = CHR 0x00 # CHR 0x00 # ''1234567890-='' @ CHR 0x00 # CHR 0x00 # ''qwertyuiop[]''
    @ CHR 0x00 # CHR 0x00 # ''asdfghjkl;'' @ CHR 0x27 # CHR 0x60 # CHR 0x00 # CHR 0x5C # ''zxcvbnm,./''"

definition UP :: string where
  "UP = CHR 0x00 # CHR 0x00 # ''!@#$%^&*()_+'' @ CHR 0x00 # CHR 0x00 # ''QWERTYUIOP{}''
    @ CHR 0x00 # CHR 0x00 # ''ASDFGHJKL:'' @ CHR 0x22 # CHR 0x7E # CHR 0x00 # ''|ZXCVBNM<>?''"

definition scancode_char :: "byte \<Rightarrow> bool \<Rightarrow> char option" where
  "scancode_char code sh =
    (if code = 0x39 then Some (CHR 0x20)
     else let tbl = (if sh then UP else LOW); i = unat code in
       if i < length tbl \<and> tbl ! i \<noteq> CHR 0x00 then Some (tbl ! i) else None)"

text \<open>The two \<^verbatim>\<open>match\<close>es of the handler; \<^term>\<open>None\<close> is the arm that returns without an event.\<close>

definition extended_key :: "byte \<Rightarrow> key option" where
  "extended_key mk =
    (if mk = 0x48 then Some Up else if mk = 0x50 then Some Down
     else if mk = 0x4B then Some Left else if mk = 0x4D then Some Right
     else if mk = 0x47 then Some Home else if mk = 0x4F then Some End
     else if mk = 0x53 then Some Delete else if mk = 0x49 then Some PageUp
     else if mk = 0x51 then Some PageDown else None)"

definition plain_key :: "byte \<Rightarrow> bool \<Rightarrow> key option" where
  "plain_key mk sh =
    (if mk = 0x1C then Some Enter else if mk = 0x01 then Some Esc
     else if mk = 0x0E then Some Backspace else if mk = 0x0F then Some Tab
     else map_option Char (scancode_char mk sh))"

definition on_keyboard_byte :: "byte \<Rightarrow> input \<Rightarrow> input" where
  "on_keyboard_byte code s =
    (if code = 0xE0 then s\<lparr>KBD := (KBD s)\<lparr>extended := True\<rparr>\<rparr>
     else
       let released = (code AND 0x80 \<noteq> 0);
           mk = code AND 0x7F;
           ext = extended (KBD s);
           s = s\<lparr>KBD := (KBD s)\<lparr>extended := False\<rparr>\<rparr> in
       if mk = 0x2A \<or> mk = 0x36 then s\<lparr>KBD := (KBD s)\<lparr>shift := \<not> released\<rparr>\<rparr>
       else if released then s
       else
         let sh = shift (KBD s) in
         if ext then
           (case extended_key mk of None \<Rightarrow> s | Some k \<Rightarrow> push_event (Key k) s)
         else
           (case plain_key mk sh of None \<Rightarrow> s | Some k \<Rightarrow> push_event (Key k) s))"

section \<open>The mouse\<close>

definition apply_motion :: "int \<Rightarrow> int \<Rightarrow> bool \<Rightarrow> bool \<Rightarrow> input \<Rightarrow> input option" where
  "apply_motion dx dy_down left right s =
    (let m = MOUSE s in
     case in_i32 (mouse_x m + dx) of None \<Rightarrow> None | Some x1 \<Rightarrow>
     case clamp x1 0 (max_x m) of None \<Rightarrow> None | Some x \<Rightarrow>
     case in_i32 (mouse_y m + dy_down) of None \<Rightarrow> None | Some y1 \<Rightarrow>
     case clamp y1 0 (max_y m) of None \<Rightarrow> None | Some y \<Rightarrow>
       let left_edge = (left \<and> \<not> left_was_down m);
           right_edge = (right \<and> \<not> right_was_down m);
           s = s\<lparr>MOUSE := m\<lparr>mouse_x := x, mouse_y := y,
                             left_was_down := left, right_was_down := right\<rparr>\<rparr>;
           s = push_event (MouseMove (as_usize x) (as_usize y)) s;
           s = (if left_edge then push_event (Click (as_usize x) (as_usize y)) s else s)
       in Some (if right_edge then push_event RightClick s else s))"

definition on_mouse_byte :: "byte \<Rightarrow> input \<Rightarrow> input option" where
  "on_mouse_byte b s =
    (let m = MOUSE s in
     if idx m = 0 \<and> b AND 0x08 = 0 then Some s
     else if length (packet m) \<le> idx m then None
     else
       let m = m\<lparr>packet := (packet m)[idx m := b], idx := idx m + 1\<rparr> in
       if idx m < 3 then Some (s\<lparr>MOUSE := m\<rparr>)
       else
         let m = m\<lparr>idx := 0\<rparr>;
             flags = packet m ! 0;
             dx = uint (packet m ! 1) - (if flags AND 0x10 \<noteq> 0 then 256 else 0);
             dy = uint (packet m ! 2) - (if flags AND 0x20 \<noteq> 0 then 256 else 0);
             (dx, dy) = (if flags AND 0xC0 \<noteq> 0 then (0, 0) else (dx, dy))
         in apply_motion dx (- dy) (flags AND 0x01 \<noteq> 0) (flags AND 0x02 \<noteq> 0) (s\<lparr>MOUSE := m\<rparr>))"

definition feed_mouse_delta :: "int \<Rightarrow> int \<Rightarrow> bool \<Rightarrow> bool \<Rightarrow> input \<Rightarrow> input option" where
  "feed_mouse_delta dx dy left right s = apply_motion dx dy left right s"


section \<open>Switching the mouse on\<close>

text \<open>The two waits give up after 100\,000 polls of the status port, the bound of their recursion.\<close>

fun wait_write :: "'h bus \<Rightarrow> nat \<Rightarrow> ('h, unit) io" where
  "wait_write B 0 = State_Monad.return ()"
| "wait_write B (Suc n) = do {
    s \<leftarrow> inb B 0x64;
    if s AND 0x02 = 0 then State_Monad.return () else wait_write B n }"

fun wait_read :: "'h bus \<Rightarrow> nat \<Rightarrow> ('h, unit) io" where
  "wait_read B 0 = State_Monad.return ()"
| "wait_read B (Suc n) = do {
    s \<leftarrow> inb B 0x64;
    if s AND 0x01 \<noteq> 0 then State_Monad.return () else wait_read B n }"

definition cmd :: "'h bus \<Rightarrow> byte \<Rightarrow> ('h, unit) io" where
  "cmd B b = do { wait_write B 100000; outb B 0x64 b }"

definition write_aux :: "'h bus \<Rightarrow> byte \<Rightarrow> ('h, byte) io" where
  "write_aux B b = do {
    cmd B 0xD4;
    wait_write B 100000;
    outb B 0x60 b;
    wait_read B 100000;
    inb B 0x60 }"

definition init_mouse :: "'h bus \<Rightarrow> ('h, unit) io" where
  "init_mouse B = do {
    cmd B 0xA8;
    cmd B 0x20;
    wait_read B 100000;
    cfg \<leftarrow> inb B 0x60;
    let cfg = (cfg OR 0x02) AND NOT 0x20;
    cmd B 0x60;
    wait_write B 100000;
    outb B 0x60 cfg;
    write_aux B 0xF6;
    write_aux B 0xF4;
    State_Monad.return () }"

lemma emits_waits: "emits (\<lambda>_ ws. ws = []) (wait_write B n)" "emits (\<lambda>_ ws. ws = []) (wait_read B n)"
  by (induction n) (auto intro!: emits_after_read [OF emits_in(1)] intro: emits_mono [OF emits_return])

lemma emits_cmd: "emits (\<lambda>_ ws. ws = [Out8 0x64 b]) (cmd B b)"
  unfolding cmd_def by (rule emits_after_read [OF emits_waits(1)]) (rule emits_out)

lemma emits_write_aux: "emits (\<lambda>_ ws. ws = [Out8 0x64 0xD4, Out8 0x60 b]) (write_aux B b)"
  unfolding write_aux_def
  by (rule emits_after_write [OF emits_cmd] emits_after_read [OF emits_waits(1)] emits_after_write [OF emits_out(1)]
      emits_after_read [OF emits_waits(2)])+ (auto intro: emits_mono [OF emits_in(1)])

text \<open>The handshake sends the controller exactly this sequence: enable the port, read and write back its configuration with
  the mouse interrupt on and the mouse clock enabled, then defaults and streaming.\<close>

lemma init_mouse_sequence:
  "emits (\<lambda>_ ws. \<exists>cfg. ws = [Out8 0x64 0xA8, Out8 0x64 0x20, Out8 0x64 0x60, Out8 0x60 ((cfg OR 0x02) AND NOT 0x20),
    Out8 0x64 0xD4, Out8 0x60 0xF6, Out8 0x64 0xD4, Out8 0x60 0xF4]) (init_mouse B)"
  unfolding init_mouse_def Let_def
  by (rule emits_after_write [OF emits_cmd] emits_after_read [OF emits_waits(2)] emits_after_read [OF emits_in(1)]
      emits_after_read [OF emits_waits(1)] emits_after_write [OF emits_out(1)] emits_after_write [OF emits_write_aux])+
    (auto intro: emits_mono [OF emits_return])

section \<open>The contract of the event queue\<close>

text \<open>A bounded first-in first-out queue: a push is ignored when the queue is full, a pop takes the oldest event.\<close>

locale event_queue =
  fixes push :: "'q \<Rightarrow> 'e \<Rightarrow> 'q"
    and pop :: "'q \<Rightarrow> 'e option \<times> 'q"
    and contents :: "'q \<Rightarrow> 'e list"
    and invar :: "'q \<Rightarrow> bool"
    and cap :: nat
  assumes invar_push: "invar q \<Longrightarrow> invar (push q e)"
    and push_contents: "invar q \<Longrightarrow> contents (push q e) = (if length (contents q) < cap then contents q @ [e] else contents q)"
    and bounded: "invar q \<Longrightarrow> length (contents q) \<le> cap"
    and pop_empty: "invar q \<Longrightarrow> contents q = [] \<Longrightarrow> pop q = (None, q)"
    and pop_first: "invar q \<Longrightarrow> contents q = e # es \<Longrightarrow> \<exists>q'. pop q = (Some e, q') \<and> invar q' \<and> contents q' = es"
begin

lemma pushes:
  assumes "invar q"
  shows "invar (foldl push q es) \<and>
    contents (foldl push q es) = contents q @ take (cap - length (contents q)) es"
  using assms
proof (induction es arbitrary: q)
  case Nil
  then show ?case by simp
next
  case (Cons e es)
  then have "invar (push q e)" by (simp add: invar_push)
  from Cons.IH [OF this] show ?case
    using Cons.prems bounded [OF Cons.prems]
    by (cases "cap - length (contents q)") (auto simp: push_contents Suc_diff_Suc [symmetric] diff_Suc split: nat.splits)
qed

end

definition ring_list :: "event_ring \<Rightarrow> event list" where
  "ring_list r = map (\<lambda>i. ring_buf r ! ((ring_head r + i) mod QUEUE_CAP)) [0..<ring_len r]"

definition ring_ok :: "event_ring \<Rightarrow> bool" where
  "ring_ok r \<longleftrightarrow> length (ring_buf r) = QUEUE_CAP \<and> ring_head r < QUEUE_CAP \<and> ring_len r \<le> QUEUE_CAP"

lemma ring_slots_differ:
  assumes "i < len" "len < n"
  shows "(h + i) mod n \<noteq> (h + len) mod (n :: nat)"
proof
  assume "(h + i) mod n = (h + len) mod n"
  then have "n dvd (h + len) - (h + i)"
    using mod_eq_dvd_iff_nat [of "h + i" "h + len" n] assms by simp
  then have "n dvd len - i" by (simp only: diff_add_inverse add_diff_cancel_left)
  then show False using assms by (auto dest: dvd_imp_le)
qed

lemma ring_push_ok:
  "ring_ok r \<Longrightarrow> ring_ok (ring_push r e)"
  by (auto simp: ring_ok_def ring_push_def Let_def)

lemma ring_push_list:
  assumes "ring_ok r"
  shows "ring_list (ring_push r e) = (if length (ring_list r) < QUEUE_CAP then ring_list r @ [e] else ring_list r)"
proof (cases "ring_len r = QUEUE_CAP")
  case True
  then show ?thesis by (simp add: ring_push_def ring_list_def)
next
  case False
  then have less: "ring_len r < QUEUE_CAP" using assms by (simp add: ring_ok_def)
  then have "(ring_head r + ring_len r) mod QUEUE_CAP < length (ring_buf r)"
    using assms by (simp add: ring_ok_def QUEUE_CAP_def)
  then show ?thesis
    using less ring_slots_differ [OF _ less, of _ "ring_head r"] False
    by (fastforce simp: ring_push_def ring_list_def Let_def nth_list_update)
qed

lemma ring_pop_list:
  assumes "ring_ok r" "ring_list r = e # es"
  shows "\<exists>r'. ring_pop r = (Some e, r') \<and> ring_ok r' \<and> ring_list r' = es"
proof -
  from assms obtain n where n: "ring_len r = Suc n"
    by (cases "ring_len r") (auto simp: ring_list_def)
  have "e = ring_buf r ! ring_head r"
    and es: "es = map (\<lambda>i. ring_buf r ! ((ring_head r + i) mod QUEUE_CAP)) [1..<Suc n]"
    using assms n by (auto simp: ring_list_def ring_ok_def upt_conv_Cons simp del: upt_Suc)
  moreover have "map (\<lambda>i. ring_buf r ! ((Suc (ring_head r) mod QUEUE_CAP + i) mod QUEUE_CAP)) [0..<n] = es"
    unfolding es by (intro nth_equalityI) (auto simp: mod_add_left_eq simp del: upt_Suc)
  ultimately show ?thesis using assms n
    by (auto simp: ring_pop_def ring_ok_def ring_list_def QUEUE_CAP_def)
qed

interpretation ring: event_queue ring_push ring_pop ring_list ring_ok QUEUE_CAP
proof unfold_locales
  fix r :: event_ring and e and es
  assume ok: "ring_ok r"
  show "ring_ok (ring_push r e)" using ok by (rule ring_push_ok)
  show "ring_list (ring_push r e) = (if length (ring_list r) < QUEUE_CAP then ring_list r @ [e] else ring_list r)"
    using ok by (rule ring_push_list)
  show "length (ring_list r) \<le> QUEUE_CAP" using ok by (simp add: ring_ok_def ring_list_def)
  show "ring_list r = [] \<Longrightarrow> ring_pop r = (None, r)" by (simp add: ring_list_def ring_pop_def)
  show "ring_list r = e # es \<Longrightarrow> \<exists>r'. ring_pop r = (Some e, r') \<and> ring_ok r' \<and> ring_list r' = es"
    using ok by (rule ring_pop_list)
qed

section \<open>Interleavings of producers and consumer\<close>

datatype input_action =
    Keyboard_byte byte
  | Mouse_byte byte
  | Usb_delta int int bool bool
  | Poll

definition input_step :: "input_action \<Rightarrow> input \<Rightarrow> (event option \<times> input) option" where
  "input_step a s = (case a of
      Keyboard_byte b \<Rightarrow> Some (None, on_keyboard_byte b s)
    | Mouse_byte b \<Rightarrow> map_option (Pair None) (on_mouse_byte b s)
    | Usb_delta dx dy l r \<Rightarrow> map_option (Pair None) (feed_mouse_delta dx dy l r s)
    | Poll \<Rightarrow> Some (poll s))"

text \<open>The events the polls of an interleaving deliver, and the state it ends in.\<close>

fun run_input :: "input_action list \<Rightarrow> input \<Rightarrow> (event list \<times> input) option" where
  "run_input [] s = Some ([], s)"
| "run_input (a # as) s = (case input_step a s of None \<Rightarrow> None | Some (e, s') \<Rightarrow>
    map_option (\<lambda>(es, t). ((case e of None \<Rightarrow> es | Some e \<Rightarrow> e # es), t)) (run_input as s'))"

text \<open>The events an action asks to push. They depend on the decoders only, never on the queue.\<close>

definition key_events :: "byte \<Rightarrow> kbd \<Rightarrow> event list" where
  "key_events code k =
    (let mk = code AND 0x7F in
     if code = 0xE0 \<or> mk = 0x2A \<or> mk = 0x36 \<or> code AND 0x80 \<noteq> 0 then []
     else case (if extended k then extended_key mk else plain_key mk (shift k)) of
       None \<Rightarrow> [] | Some e \<Rightarrow> [Key e])"

definition motion_events :: "bool \<Rightarrow> bool \<Rightarrow> mouse_state \<Rightarrow> mouse_state \<Rightarrow> event list" where
  "motion_events l r m m' =
    (let x = as_usize (mouse_x m'); y = as_usize (mouse_y m') in
     MouseMove x y # (if l \<and> \<not> left_was_down m then [Click x y] else [])
       @ (if r \<and> \<not> right_was_down m then [RightClick] else []))"

text \<open>The events of one action, read off the state before and after it.\<close>

definition emitted :: "input_action \<Rightarrow> input \<Rightarrow> input \<Rightarrow> event list" where
  "emitted a s s' = (case a of
      Keyboard_byte b \<Rightarrow> key_events b (KBD s)
    | Mouse_byte b \<Rightarrow>
        if idx (MOUSE s) = 2
        then let f = packet (MOUSE s) ! 0 in motion_events (f AND 1 \<noteq> 0) (f AND 2 \<noteq> 0) (MOUSE s) (MOUSE s')
        else []
    | Usb_delta dx dy l r \<Rightarrow> motion_events l r (MOUSE s) (MOUSE s')
    | Poll \<Rightarrow> [])"

fun produced :: "input_action list \<Rightarrow> input \<Rightarrow> event list" where
  "produced [] s = []"
| "produced (a # as) s = (case input_step a s of None \<Rightarrow> [] | Some (e, s') \<Rightarrow>
    emitted a s s' @ produced as s')"

definition mouse_ok :: "mouse_state \<Rightarrow> bool" where
  "mouse_ok m \<longleftrightarrow> length (packet m) = 3 \<and> idx m < 3 \<and> 0 \<le> mouse_x m \<and> mouse_x m \<le> max_x m \<and>
    0 \<le> mouse_y m \<and> mouse_y m \<le> max_y m \<and> max_x m < 2 ^ 30 \<and> max_y m < 2 ^ 30"

definition input_ok :: "input \<Rightarrow> bool" where
  "input_ok s \<longleftrightarrow> ring_ok (QUEUE s) \<and> mouse_ok (MOUSE s)"

text \<open>Deltas of the USB mouse are bytes; a bound of \<open>2\<^sup>30\<close> keeps every sum in \<^verbatim>\<open>i32\<close>.\<close>

fun sane :: "input_action \<Rightarrow> bool" where
  "sane (Usb_delta dx dy l r) \<longleftrightarrow> \<bar>dx\<bar> < 2 ^ 30 \<and> \<bar>dy\<bar> < 2 ^ 30"
| "sane a \<longleftrightarrow> True"

lemma foldl_push_event:
  "foldl (\<lambda>s e. push_event e s) s es = s\<lparr>QUEUE := foldl ring_push (QUEUE s) es\<rparr>"
  by (induction es arbitrary: s) (simp_all add: push_event_def)

lemma in_i32_eq [simp]: "- (2 ^ 31) \<le> i \<Longrightarrow> i < 2 ^ 31 \<Longrightarrow> in_i32 i = Some i"
  by (simp add: in_i32_def)

definition moved :: "int \<Rightarrow> int \<Rightarrow> bool \<Rightarrow> bool \<Rightarrow> mouse_state \<Rightarrow> mouse_state" where
  "moved dx dy l r m = m\<lparr>mouse_x := max 0 (min (max_x m) (mouse_x m + dx)),
    mouse_y := max 0 (min (max_y m) (mouse_y m + dy)), left_was_down := l, right_was_down := r\<rparr>"

lemma moved_ok: "mouse_ok m \<Longrightarrow> mouse_ok (moved dx dy l r m)"
  by (auto simp: mouse_ok_def moved_def)

lemma apply_motion_result:
  assumes "mouse_ok (MOUSE s)" "\<bar>dx\<bar> < 2 ^ 30" "\<bar>dy\<bar> < 2 ^ 30"
  shows "apply_motion dx dy l r s = Some (s\<lparr>MOUSE := moved dx dy l r (MOUSE s),
    QUEUE := foldl ring_push (QUEUE s) (motion_events l r (MOUSE s) (moved dx dy l r (MOUSE s)))\<rparr>)"
proof -
  have "- (2 ^ 31) \<le> mouse_x (MOUSE s) + dx" "mouse_x (MOUSE s) + dx < 2 ^ 31"
    "- (2 ^ 31) \<le> mouse_y (MOUSE s) + dy" "mouse_y (MOUSE s) + dy < 2 ^ 31"
    "0 \<le> max_x (MOUSE s)" "0 \<le> max_y (MOUSE s)"
    using assms by (auto simp: mouse_ok_def)
  then show ?thesis
    by (simp add: apply_motion_def clamp_def motion_events_def push_event_def moved_def Let_def)
qed

definition key_state :: "byte \<Rightarrow> kbd \<Rightarrow> kbd" where
  "key_state code k =
    (if code = 0xE0 then k\<lparr>extended := True\<rparr>
     else if code AND 0x7F = 0x2A \<or> code AND 0x7F = 0x36
     then \<lparr>shift = (code AND 0x80 = 0), extended = False\<rparr>
     else k\<lparr>extended := False\<rparr>)"

lemma on_keyboard_byte_result:
  "on_keyboard_byte b s =
    s\<lparr>KBD := key_state b (KBD s), QUEUE := foldl ring_push (QUEUE s) (key_events b (KBD s))\<rparr>"
  by (cases "b = 0xE0")
    (simp_all add: on_keyboard_byte_def key_events_def key_state_def push_event_def Let_def split: option.splits)

lemma packet_deltas:
  fixes b :: byte
  shows "\<bar>uint b - (if c then 256 else 0)\<bar> < 2 ^ 30"
proof -
  have "\<bar>i - (if c then 256 else 0)\<bar> < 2 ^ 30" if "0 \<le> i" "i < 256" for i :: int
    using that by auto
  from this [of "uint b"] show ?thesis using uint_lt2p [of b] by simp
qed

lemma on_mouse_byte_result:
  assumes ok: "mouse_ok (MOUSE s)"
  shows "\<exists>m. on_mouse_byte b s =
      Some (s\<lparr>MOUSE := m, QUEUE := foldl ring_push (QUEUE s) (emitted (Mouse_byte b) s (s\<lparr>MOUSE := m\<rparr>))\<rparr>) \<and> mouse_ok m"
proof (cases "idx (MOUSE s) = 2")
  case True
  define m where "m = (MOUSE s)\<lparr>packet := (packet (MOUSE s))[2 := b], idx := 0\<rparr>"
  define f where "f = packet (MOUSE s) ! 0"
  define dx where "dx = (if f AND 0xC0 \<noteq> 0 then 0 else uint (packet (MOUSE s) ! 1) - (if f AND 0x10 \<noteq> 0 then 256 else 0))"
  define dy where "dy = (if f AND 0xC0 \<noteq> 0 then 0 else uint b - (if f AND 0x20 \<noteq> 0 then 256 else 0))"
  have m: "mouse_ok m" using ok by (simp add: mouse_ok_def m_def)
  have "on_mouse_byte b s = apply_motion dx (- dy) (f AND 1 \<noteq> 0) (f AND 2 \<noteq> 0) (s\<lparr>MOUSE := m\<rparr>)"
    using True ok by (simp add: on_mouse_byte_def mouse_ok_def Let_def m_def f_def dx_def dy_def)
  also have "\<dots> = Some (s\<lparr>MOUSE := moved dx (- dy) (f AND 1 \<noteq> 0) (f AND 2 \<noteq> 0) m,
      QUEUE := foldl ring_push (QUEUE s) (motion_events (f AND 1 \<noteq> 0) (f AND 2 \<noteq> 0) m
        (moved dx (- dy) (f AND 1 \<noteq> 0) (f AND 2 \<noteq> 0) m))\<rparr>)"
    using m packet_deltas [of "packet (MOUSE s) ! 1"] packet_deltas [of b]
    by (subst apply_motion_result) (auto simp: dx_def dy_def abs_minus_commute)
  finally show ?thesis using True moved_ok [OF m, of dx "- dy" "f AND 1 \<noteq> 0" "f AND 2 \<noteq> 0"]
    by (auto simp: emitted_def motion_events_def f_def m_def Let_def)
next
  case False
  then show ?thesis using ok
    by (auto simp: on_mouse_byte_def mouse_ok_def emitted_def Let_def intro: exI [of _ "MOUSE s"])
qed

lemma input_step_result:
  assumes "input_ok s" "sane a"
  shows "\<exists>e s'. input_step a s = Some (e, s') \<and> input_ok s' \<and>
    (case e of None \<Rightarrow> ring_list (QUEUE s') = ring_list (QUEUE s) @
        take (QUEUE_CAP - length (ring_list (QUEUE s))) (emitted a s s')
     | Some x \<Rightarrow> x # ring_list (QUEUE s') = ring_list (QUEUE s) \<and> emitted a s s' = [])"
proof (cases a)
  case (Keyboard_byte b)
  then show ?thesis using assms ring.pushes [of "QUEUE s"]
    by (simp add: input_step_def on_keyboard_byte_result input_ok_def emitted_def)
next
  case (Mouse_byte b)
  from assms on_mouse_byte_result [of s b] obtain m where m: "mouse_ok m"
    and step: "on_mouse_byte b s = Some (s\<lparr>MOUSE := m,
      QUEUE := foldl ring_push (QUEUE s) (emitted (Mouse_byte b) s (s\<lparr>MOUSE := m\<rparr>))\<rparr>)"
    by (auto simp: input_ok_def)
  have "emitted (Mouse_byte b) s (s\<lparr>MOUSE := m, QUEUE := q\<rparr>) = emitted (Mouse_byte b) s (s\<lparr>MOUSE := m\<rparr>)" for q
    by (simp add: emitted_def)
  then show ?thesis using assms m ring.pushes [of "QUEUE s"]
    by (simp add: input_step_def step input_ok_def Mouse_byte)
next
  case (Usb_delta dx dy l r)
  then show ?thesis using assms ring.pushes [of "QUEUE s"]
    by (simp add: input_step_def feed_mouse_delta_def apply_motion_result input_ok_def emitted_def moved_ok)
next
  case Poll
  show ?thesis
  proof (cases "ring_list (QUEUE s)")
    case Nil
    then show ?thesis using assms Poll ring.pop_empty [of "QUEUE s"]
      by (simp add: input_step_def poll_def input_ok_def emitted_def)
  next
    case (Cons e es)
    then show ?thesis using assms Poll ring.pop_first [of "QUEUE s" e es]
      by (auto simp: input_step_def poll_def input_ok_def emitted_def)
  qed
qed

lemma run_input_fifo:
  assumes "input_ok s" "\<forall>a \<in> set as. sane a"
  shows "\<exists>out s'. run_input as s = Some (out, s') \<and> input_ok s' \<and>
    subseq (out @ ring_list (QUEUE s')) (ring_list (QUEUE s) @ produced as s) \<and>
    (length (ring_list (QUEUE s) @ produced as s) \<le> QUEUE_CAP \<longrightarrow>
      out @ ring_list (QUEUE s') = ring_list (QUEUE s) @ produced as s)"
  using assms
proof (induction as arbitrary: s)
  case Nil
  then show ?case by simp
next
  case (Cons a as)
  from input_step_result [of s a] Cons.prems obtain e t where step: "input_step a s = Some (e, t)"
    and t: "input_ok t" and e: "case e of None \<Rightarrow> ring_list (QUEUE t) = ring_list (QUEUE s) @
        take (QUEUE_CAP - length (ring_list (QUEUE s))) (emitted a s t)
     | Some x \<Rightarrow> x # ring_list (QUEUE t) = ring_list (QUEUE s) \<and> emitted a s t = []" by auto
  from Cons.IH [OF t] Cons.prems obtain out s' where run: "run_input as t = Some (out, s')" "input_ok s'"
    and sub: "subseq (out @ ring_list (QUEUE s')) (ring_list (QUEUE t) @ produced as t)"
    and all: "length (ring_list (QUEUE t) @ produced as t) \<le> QUEUE_CAP \<Longrightarrow>
      out @ ring_list (QUEUE s') = ring_list (QUEUE t) @ produced as t" by auto
  show ?case
  proof (cases e)
    case None
    have "subseq (ring_list (QUEUE t) @ produced as t) (ring_list (QUEUE s) @ emitted a s t @ produced as t)"
      using e None by (simp add: subseq_append_le_same_iff list_emb_append_mono take_is_prefix prefix_imp_subseq)
    with sub have "subseq (out @ ring_list (QUEUE s')) (ring_list (QUEUE s) @ emitted a s t @ produced as t)"
      by (rule subseq_order.trans)
    then show ?thesis using run step e None all by auto
  next
    case (Some x)
    have "subseq (x # out @ ring_list (QUEUE s')) (x # ring_list (QUEUE t) @ produced as t)"
      using sub by simp
    moreover have "ring_list (QUEUE s) = x # ring_list (QUEUE t)" "emitted a s t = []" using e Some by auto
    ultimately show ?thesis using run step Some all by simp
  qed
qed

lemma input_new_ok: "input_ok input_new"
  by (simp add: input_ok_def ring_ok_def mouse_ok_def input_new_def ring_new_def QUEUE_CAP_def)

lemma as_i32_small: "n < 2 ^ 31 \<Longrightarrow> as_i32 n = int n"
  by (simp add: as_i32_def signed_of_nat signed_take_bit_int_eq_self)

lemma set_bounds_result:
  assumes "0 < w" "w \<le> 2 ^ 30" "0 < h" "h \<le> 2 ^ 30" "input_ok s"
  shows "\<exists>s'. set_bounds w h s = Some s' \<and> input_ok s' \<and> max_x (MOUSE s') = int w - 1 \<and> max_y (MOUSE s') = int h - 1
    \<and> mouse_pos s' = ((w - 1) div 2, (h - 1) div 2)"
proof -
  have "(int n - 1) div 2 mod 2 ^ 64 = int ((n - 1) div 2)" if "0 < n" "n \<le> 2 ^ 30" for n :: nat
  proof -
    have "(int n - 1) div 2 = int ((n - 1) div 2)" using that by (simp add: zdiv_int of_nat_diff)
    then show ?thesis using that by simp
  qed
  moreover have "(n - 1) div 2 < n" if "0 < n" for n :: nat using that by linarith
  ultimately show ?thesis using assms
    by (simp add: set_bounds_def as_i32_small mouse_pos_def as_usize_def half_i32_def input_ok_def mouse_ok_def)
qed

section \<open>Typing and pointing\<close>

definition printable :: "char \<Rightarrow> bool" where
  "printable c \<longleftrightarrow> 32 \<le> (of_char c :: nat) \<and> of_char c < (127 :: nat)"

lemma table_entries:
  "list_all (\<lambda>c. c = CHR 0x00 \<or> printable c) LOW" "list_all (\<lambda>c. c = CHR 0x00 \<or> printable c) UP"
  by (simp_all add: LOW_def UP_def printable_def)

lemma table_length [simp]: "length LOW = 54" "length UP = 54"
  by (simp_all add: LOW_def UP_def)

lemma table_complete: "list_all (\<lambda>n. char_of n \<in> set LOW \<union> set UP) [33..<127 :: nat]"
  unfolding LOW_def UP_def by code_simp

lemma table_keys:
  "list_all (\<lambda>n. LOW ! n = CHR 0x00 \<and> UP ! n = CHR 0x00) [1, 14, 15, 28, 42]"
  by (simp add: LOW_def UP_def)

text \<open>The scancodes of the tables are make codes, and setting bit 7 gives their break codes.\<close>

lemma make_codes:
  "list_all (\<lambda>n. let code = word_of_nat n :: byte in code AND 0x7F = code \<and> code AND 0x80 = 0 \<and> unat code = n \<and>
    code \<noteq> 0x39 \<and> code \<noteq> 0xE0 \<and> code \<noteq> 0x36 \<and> (code OR 0x80) AND 0x7F = code \<and> (code OR 0x80) AND 0x80 \<noteq> 0 \<and>
    (code OR 0x80) \<noteq> 0xE0) [0..<54]"
  by code_simp

lemma scancode_char_printable:
  assumes "scancode_char code sh = Some c"
  shows "printable c"
proof (cases "code = 0x39")
  case True
  then show ?thesis using assms by (auto simp: scancode_char_def printable_def)
next
  case False
  define tbl where "tbl = (if sh then UP else LOW)"
  have "list_all (\<lambda>c. c = CHR 0x00 \<or> printable c) tbl" using table_entries by (simp add: tbl_def)
  moreover have res: "(if unat code < length tbl \<and> tbl ! unat code \<noteq> CHR 0x00 then Some (tbl ! unat code) else None) = Some c"
    using assms False by (simp only: scancode_char_def Let_def tbl_def [symmetric] if_False)
  ultimately have "tbl ! unat code = CHR 0x00 \<or> printable (tbl ! unat code)"
    by (simp only: list_all_length split: if_split_asm) (blast, simp)
  then show ?thesis using res by (simp split: if_split_asm)
qed

lemma char_has_code:
  assumes "printable c" "c \<noteq> CHR 0x20"
  obtains n sh where "n < 54" "(if sh then UP else LOW) ! n = c"
proof -
  have "(of_char c :: nat) \<noteq> of_char (CHR 0x20)" using assms(2) by (simp only: of_char_eq_iff not_False_eq_True)
  then have "of_char c \<noteq> (32 :: nat)" by simp
  then have "of_char c \<in> set [33..<127 :: nat]" using assms(1)
    by (simp only: set_upt atLeastLessThan_iff printable_def) auto
  with table_complete have "char_of (of_char c :: nat) \<in> set LOW \<union> set UP" by (simp only: list_all_iff)
  then show thesis using that [of _ False] that [of _ True] by (auto simp: in_set_conv_nth)
qed

text \<open>The bytes the keyboard sends when the key of a table entry is pressed and released, with a shift key held
  around it or not.\<close>

definition keystroke :: "byte \<Rightarrow> bool \<Rightarrow> byte list" where
  "keystroke code sh = (if sh then [0x2A] else []) @ [code, code OR 0x80] @ (if sh then [0xAA] else [])"

definition at_rest :: kbd where
  "at_rest = \<lparr>shift = False, extended = False\<rparr>"

text \<open>A code is the make code of a character key.\<close>

definition char_code :: "byte \<Rightarrow> bool" where
  "char_code code \<longleftrightarrow> code AND 0x7F = code \<and> code AND 0x80 = 0 \<and> code \<notin> {0xE0, 0x2A, 0x36, 0x1C, 0x01, 0x0E, 0x0F} \<and>
    (code OR 0x80) AND 0x7F = code \<and> (code OR 0x80) AND 0x80 \<noteq> 0 \<and> code OR 0x80 \<noteq> 0xE0"

lemma keystroke_types:
  assumes "char_code code" "scancode_char code sh = Some c" "KBD s = at_rest"
  shows "fold on_keyboard_byte (keystroke code sh) s = push_event (Key (Char c)) s"
  using assms
  by (cases sh) (simp_all add: keystroke_def char_code_def on_keyboard_byte_result key_state_def key_events_def
      at_rest_def plain_key_def push_event_def Let_def)

lemma table_char_code:
  assumes n: "n < 54" and c: "(if sh then UP else LOW) ! n = c" "c \<noteq> CHR 0x00"
  shows "char_code (word_of_nat n)" "scancode_char (word_of_nat n) sh = Some c"
proof -
  have facts: "let code = word_of_nat n :: byte in code AND 0x7F = code \<and> code AND 0x80 = 0 \<and> unat code = n \<and>
    code \<noteq> 0x39 \<and> code \<noteq> 0xE0 \<and> code \<noteq> 0x36 \<and> (code OR 0x80) AND 0x7F = code \<and> (code OR 0x80) AND 0x80 \<noteq> 0 \<and>
    (code OR 0x80) \<noteq> 0xE0"
    using make_codes n by (simp only: list_all_iff) auto
  have "n \<notin> {1, 14, 15, 28, 42}" using table_keys c by (cases sh) auto
  moreover have "unat (word_of_nat n :: byte) = n" using facts by (simp add: Let_def)
  ultimately have "(word_of_nat n :: byte) \<notin> {0x1C, 0x01, 0x0E, 0x0F, 0x2A}" by auto
  then show "char_code (word_of_nat n)" using facts by (simp add: char_code_def Let_def)
  show "scancode_char (word_of_nat n) sh = Some c"
    using facts n c by (simp add: scancode_char_def Let_def)
qed

lemma printable_has_keystroke:
  assumes "printable c"
  shows "\<exists>code sh. char_code code \<and> scancode_char code sh = Some c"
proof (cases "c = CHR 0x20")
  case True
  have "char_code 0x39" by (simp add: char_code_def)
  moreover have "scancode_char 0x39 False = Some c" using True by (simp add: scancode_char_def)
  ultimately show ?thesis by blast
next
  case False
  with assms obtain n sh where "n < 54" "(if sh then UP else LOW) ! n = c" by (rule char_has_code)
  moreover have "c \<noteq> CHR 0x00" using assms by (auto simp: printable_def)
  ultimately show ?thesis using table_char_code by blast
qed

text \<open>The three bytes a PS/2 mouse sends for a move, with the two overflow bits.\<close>

definition mouse_packet :: "int \<Rightarrow> int \<Rightarrow> bool \<Rightarrow> bool \<Rightarrow> bool \<Rightarrow> bool \<Rightarrow> byte list" where
  "mouse_packet dx dy l r xo yo =
    [8 OR (if l then 1 else 0) OR (if r then 2 else 0) OR (if dx < 0 then 0x10 else 0) OR (if dy < 0 then 0x20 else 0)
       OR (if xo then 0x40 else 0) OR (if yo then 0x80 else 0), word_of_int dx, word_of_int dy]"

lemma mouse_flags:
  fixes l r sx sy xo yo :: bool
  defines "f \<equiv> 8 OR (if l then 1 else 0) OR (if r then 2 else 0) OR (if sx then 0x10 else 0) OR (if sy then 0x20 else 0)
       OR (if xo then 0x40 else 0) OR (if yo then 0x80 else 0) :: byte"
  shows "f AND 8 \<noteq> 0" "f AND 1 \<noteq> 0 \<longleftrightarrow> l" "f AND 2 \<noteq> 0 \<longleftrightarrow> r" "f AND 0x10 \<noteq> 0 \<longleftrightarrow> sx" "f AND 0x20 \<noteq> 0 \<longleftrightarrow> sy"
    "f AND 0xC0 \<noteq> 0 \<longleftrightarrow> xo \<or> yo"
  unfolding f_def by (cases l; cases r; cases sx; cases sy; cases xo; cases yo; simp)+

lemma delta_decodes:
  assumes "-256 \<le> e" "e < 256"
  shows "uint (word_of_int e :: byte) - (if e < 0 then 256 else 0) = e"
proof -
  have "e mod 256 = (if e < 0 then e + 256 else e)"
    using assms mod_pos_pos_trivial [of "e + 256" 256] mod_pos_pos_trivial [of e 256] by auto
  then show ?thesis by (simp add: uint_word_of_int)
qed

lemma mouse_packet_result:
  assumes ok: "mouse_ok (MOUSE s)" and i: "idx (MOUSE s) = 0"
    and d: "-256 \<le> dx" "dx < 256" "-256 \<le> dy" "dy < 256"
  shows "\<exists>s'. (case mouse_packet dx dy l r xo yo of [a, b, c] \<Rightarrow>
      Option.bind (Option.bind (on_mouse_byte a s) (on_mouse_byte b)) (on_mouse_byte c) | _ \<Rightarrow> None) = Some s' \<and>
    MOUSE s' = moved (if xo \<or> yo then 0 else dx) (if xo \<or> yo then 0 else - dy) l r
      ((MOUSE s)\<lparr>packet := mouse_packet dx dy l r xo yo\<rparr>)"
proof -
  obtain f where p: "mouse_packet dx dy l r xo yo = [f, word_of_int dx, word_of_int dy]"
    and f: "f AND 8 \<noteq> 0" "f AND 1 \<noteq> 0 \<longleftrightarrow> l" "f AND 2 \<noteq> 0 \<longleftrightarrow> r" "f AND 0x10 \<noteq> 0 \<longleftrightarrow> dx < 0"
      "f AND 0x20 \<noteq> 0 \<longleftrightarrow> dy < 0" "f AND 0xC0 \<noteq> 0 \<longleftrightarrow> xo \<or> yo"
    using mouse_flags [of l r "dx < 0" "dy < 0" xo yo] unfolding mouse_packet_def by blast
  obtain p0 p1 p2 where pk: "packet (MOUSE s) = [p0, p1, p2]"
    using ok by (auto simp: mouse_ok_def length_Suc_conv numeral_3_eq_3)
  define m where "m = (MOUSE s)\<lparr>packet := mouse_packet dx dy l r xo yo\<rparr>"
  have m: "mouse_ok m" using ok by (simp add: mouse_ok_def m_def p)
  have ap: "apply_motion (if xo \<or> yo then 0 else dx) (if xo \<or> yo then 0 else - dy) l r (s\<lparr>MOUSE := m\<rparr>) =
    Some (s\<lparr>MOUSE := moved (if xo \<or> yo then 0 else dx) (if xo \<or> yo then 0 else - dy) l r m,
      QUEUE := foldl ring_push (QUEUE s) (motion_events l r m
        (moved (if xo \<or> yo then 0 else dx) (if xo \<or> yo then 0 else - dy) l r m))\<rparr>)"
    using m d by (subst apply_motion_result) auto
  have m2: "(MOUSE s)\<lparr>packet := [f, word_of_int dx, word_of_int dy], idx := 0\<rparr> = m"
    using i by (cases "MOUSE s") (simp add: m_def p)
  have "Option.bind (Option.bind (on_mouse_byte f s) (on_mouse_byte (word_of_int dx))) (on_mouse_byte (word_of_int dy)) =
    apply_motion (if xo \<or> yo then 0 else dx) (if xo \<or> yo then 0 else - dy) l r
      (s\<lparr>MOUSE := (MOUSE s)\<lparr>packet := [f, word_of_int dx, word_of_int dy], idx := 0\<rparr>\<rparr>)"
    using f i delta_decodes [OF d(1,2)] delta_decodes [OF d(3,4)]
    by (simp add: on_mouse_byte_def pk Let_def)
  then show ?thesis using ap unfolding m2 by (simp add: p m_def [unfolded p])
qed

section \<open>Properties\<close>

text \<open>C22 Input is a first-in first-out stream under every interleaving. Start in any sound state and let keyboard bytes, mouse
  bytes, USB deltas and polls of the user interface come in any order: nothing panics, the pointer stays on the
  screen and the ring stays sound, and the events delivered, followed by those still queued, are the ones that were queued or decoded,
  in that order, with nothing invented or duplicated; none is missing unless more than 512 were pending.\<close>

theorem input_fifo:
  assumes "input_ok s" "\<forall>a \<in> set as. sane a"
  shows "\<exists>out s'. run_input as s = Some (out, s') \<and> input_ok s' \<and>
    subseq (out @ ring_list (QUEUE s')) (ring_list (QUEUE s) @ produced as s) \<and>
    (length (ring_list (QUEUE s) @ produced as s) \<le> QUEUE_CAP \<longrightarrow>
      out @ ring_list (QUEUE s') = ring_list (QUEUE s) @ produced as s)"
  using assms by (rule run_input_fifo)

theorem input_fifo_witness:
  "\<exists>out s'. run_input [Keyboard_byte 0x1E, Mouse_byte 9, Poll, Mouse_byte 5, Usb_delta 3 4 False True, Mouse_byte 2, Poll] input_new
      = Some (out, s') \<and> input_ok s' \<and>
    subseq (out @ ring_list (QUEUE s')) (ring_list (QUEUE input_new) @
      produced [Keyboard_byte 0x1E, Mouse_byte 9, Poll, Mouse_byte 5, Usb_delta 3 4 False True, Mouse_byte 2, Poll] input_new)"
  using input_fifo [of input_new "[Keyboard_byte 0x1E, Mouse_byte 9, Poll, Mouse_byte 5, Usb_delta 3 4 False True, Mouse_byte 2, Poll]"]
    input_new_ok by auto

text \<open>Exactly the printable ASCII characters can be typed: each of them has a keystroke (a press and a release of one key, with
  the shift key held or not) that enqueues that character and nothing else and leaves the keyboard as it was, and no
  scancode decodes to any other character.\<close>

theorem printable_typeable:
  assumes "KBD s = at_rest"
  shows "(printable c \<longleftrightarrow> (\<exists>code sh. scancode_char code sh = Some c)) \<and>
    (printable c \<longrightarrow> (\<exists>code sh. fold on_keyboard_byte (keystroke code sh) s = push_event (Key (Char c)) s))"
  using printable_has_keystroke [of c] scancode_char_printable [of _ _ c] keystroke_types [OF _ _ assms, of _ _ c]
  by blast

theorem printable_typeable_witness:
  "\<exists>code sh. fold on_keyboard_byte (keystroke code sh) input_new = push_event (Key (Char (CHR ''A''))) input_new"
proof -
  have "KBD input_new = at_rest" by (simp add: input_new_def at_rest_def)
  moreover have "printable (CHR ''A'')" by (simp add: printable_def)
  ultimately show ?thesis using printable_typeable [of input_new "CHR ''A''"] by blast
qed

text \<open>The mouse protocol is decoded exactly. From a packet boundary, the three bytes of a packet for a move of \<open>dx\<close> to the right and
  \<open>dy\<close> up, both nine-bit signed, move the pointer by that much, clamped to the screen, and record the buttons. When either
  overflow bit is set, the motion of both axes is dropped.\<close>

theorem mouse_packet_decoded:
  assumes "mouse_ok (MOUSE s)" "idx (MOUSE s) = 0" "-256 \<le> dx" "dx < 256" "-256 \<le> dy" "dy < 256"
  shows "\<exists>s'. (case mouse_packet dx dy l r xo yo of [a, b, c] \<Rightarrow>
      Option.bind (Option.bind (on_mouse_byte a s) (on_mouse_byte b)) (on_mouse_byte c) | _ \<Rightarrow> None) = Some s' \<and>
    MOUSE s' = moved (if xo \<or> yo then 0 else dx) (if xo \<or> yo then 0 else - dy) l r
      ((MOUSE s)\<lparr>packet := mouse_packet dx dy l r xo yo\<rparr>)"
  using assms by (rule mouse_packet_result)

theorem mouse_packet_decoded_witness:
  "\<exists>s'. (case mouse_packet 7 (-3) True False False False of [a, b, c] \<Rightarrow>
      Option.bind (Option.bind (on_mouse_byte a input_new) (on_mouse_byte b)) (on_mouse_byte c) | _ \<Rightarrow> None) = Some s' \<and>
    mouse_x (MOUSE s') = 7 \<and> mouse_y (MOUSE s') = 3 \<and> left_was_down (MOUSE s')"
proof -
  have "mouse_ok (MOUSE input_new)" "idx (MOUSE input_new) = 0"
    using input_new_ok by (simp_all add: input_ok_def input_new_def)
  from mouse_packet_decoded [OF this, of 7 "-3" True False False False]
  show ?thesis by (auto simp: moved_def input_new_def)
qed

end
