(* ===== verification/Text_Edit.thy ===== *)
theory Text_Edit
  imports Codec Input
begin

text \<open>
  The single-line text editing and text layout of the user interface, \<^verbatim>\<open>kernel/src/ui.rs\<close>. A Rust string is its list of UTF-8
  bytes, as everywhere in this development; a character is the group of bytes that encodes it, and a caret counts characters.
  \<^verbatim>\<open>String::insert\<close> and \<^verbatim>\<open>String::remove\<close> panic off a character boundary: the operations return \<^term>\<open>None\<close> then.

  The locale \<open>line_editor\<close> is what the screens with a text field (prompt, row editor, value builder) rely on: each operation acts on
  the characters left and right of the caret. It is interpreted for the functions of the source.
\<close>

section \<open>The characters of a string\<close>

definition is_cont :: "char \<Rightarrow> bool" where
  "is_cont b \<longleftrightarrow> cont_byte (of_char b)"

function chars_of :: "string \<Rightarrow> string list" where
  "chars_of [] = []"
| "chars_of (b # s) = (b # takeWhile is_cont s) # chars_of (dropWhile is_cont s)"
  by pat_completeness auto
termination by (relation "measure length") (simp_all add: length_dropWhile_le le_imp_less_Suc)

definition char_count :: "string \<Rightarrow> nat" where
  "char_count s = length (chars_of s)"

text \<open>The offsets that \<^verbatim>\<open>char_indices\<close> yields, and \<^verbatim>\<open>is_char_boundary\<close>.\<close>

definition char_starts :: "string \<Rightarrow> nat list" where
  "char_starts s = filter (\<lambda>i. \<not> is_cont (s ! i)) [0..<length s]"

definition boundary :: "string \<Rightarrow> nat \<Rightarrow> bool" where
  "boundary s i \<longleftrightarrow> i = 0 \<or> i = length s \<or> i < length s \<and> \<not> is_cont (s ! i)"

definition str_insert :: "string \<Rightarrow> nat \<Rightarrow> string \<Rightarrow> string option" where
  "str_insert s i c = (if boundary s i then Some (take i s @ c @ drop i s) else None)"

definition str_remove :: "string \<Rightarrow> nat \<Rightarrow> string option" where
  "str_remove s i = (if boundary s i \<and> i < length s then Some (take i s @ drop (i + length (hd (chars_of (drop i s)))) s) else None)"

section \<open>Editing at a caret\<close>

definition byte_of :: "string \<Rightarrow> nat \<Rightarrow> nat" where
  "byte_of s k = (if k < length (char_starts s) then char_starts s ! k else length s)"

type_synonym text_state = "string \<times> nat"

definition ce_insert :: "string \<Rightarrow> text_state \<Rightarrow> text_state option" where
  "ce_insert c st = (case st of (s, caret) \<Rightarrow>
     let p = min caret (char_count s) in
     map_option (\<lambda>s'. (s', p + 1)) (str_insert s (byte_of s p) c))"

definition ce_backspace :: "text_state \<Rightarrow> text_state option" where
  "ce_backspace st = (case st of (s, caret) \<Rightarrow>
     let p = min caret (char_count s) in
     if 0 < p then map_option (\<lambda>s'. (s', p - 1)) (str_remove s (byte_of s (p - 1))) else Some (s, caret))"

definition ce_delete :: "text_state \<Rightarrow> text_state option" where
  "ce_delete st = (case st of (s, caret) \<Rightarrow>
     let n = char_count s; p = min caret n in
     if p < n then map_option (\<lambda>s'. (s', p)) (str_remove s (byte_of s p)) else Some (s, caret))"

definition ce_left :: "text_state \<Rightarrow> text_state" where
  "ce_left st = (case st of (s, caret) \<Rightarrow> (s, min caret (char_count s) - 1))"

definition ce_right :: "text_state \<Rightarrow> text_state" where
  "ce_right st = (case st of (s, caret) \<Rightarrow> (s, min (caret + 1) (char_count s)))"

text \<open>The keys of a text field, as the input prompt handles them; every other key leaves the field alone.\<close>

fun text_key :: "key \<Rightarrow> text_state \<Rightarrow> text_state option" where
  "text_key key.Left st = Some (ce_left st)"
| "text_key key.Right st = Some (ce_right st)"
| "text_key Home st = Some (fst st, 0)"
| "text_key End st = Some (fst st, char_count (fst st))"
| "text_key Backspace st = ce_backspace st"
| "text_key Delete st = ce_delete st"
| "text_key (Char c) st = ce_insert [c] st"
| "text_key _ st = Some st"

section \<open>Strings are lists of characters\<close>

definition is_char :: "string \<Rightarrow> bool" where
  "is_char c \<longleftrightarrow> c \<noteq> [] \<and> \<not> is_cont (hd c) \<and> list_all is_cont (tl c)"

definition starts :: "string \<Rightarrow> bool" where
  "starts s \<longleftrightarrow> s = [] \<or> \<not> is_cont (hd s)"

lemma starts_simps [simp]: "starts []" "starts (b # s) \<longleftrightarrow> \<not> is_cont b"
  by (simp_all add: starts_def)

lemma starts_dropWhile [simp]: "starts (dropWhile is_cont s)"
  using hd_dropWhile[of is_cont s] by (cases "dropWhile is_cont s = []") (simp_all add: starts_def)

lemma concat_chars_of [simp]: "concat (chars_of s) = s"
  by (induction s rule: chars_of.induct) simp_all

lemma chars_of_is_char: "starts s \<Longrightarrow> list_all is_char (chars_of s)"
proof (induction s rule: chars_of.induct)
  case (2 b s)
  have "list_all is_cont (takeWhile is_cont s)" by (auto simp: list_all_iff dest: set_takeWhileD)
  with 2 show ?case by (simp add: is_char_def)
qed simp

lemma chars_of_append: "starts t \<Longrightarrow> chars_of (s @ t) = chars_of s @ chars_of t"
proof (induction s rule: chars_of.induct)
  case (2 b s)
  show ?case
  proof (cases "\<forall>x \<in> set s. is_cont x")
    case True
    then have "takeWhile is_cont (s @ t) = s" "dropWhile is_cont (s @ t) = t"
      using 2(2) by (cases t; simp add: takeWhile_append2 dropWhile_append2)+
    moreover have "takeWhile is_cont s = s" "dropWhile is_cont s = []" using True by (simp_all add: takeWhile_eq_all_conv)
    ultimately show ?thesis by (simp only: append_Cons chars_of.simps append_Nil)
  next
    case False
    then obtain x where "x \<in> set s" "\<not> is_cont x" by blast
    with 2 show ?thesis by (simp add: takeWhile_append1 dropWhile_append1)
  qed
qed simp

lemma chars_of_one: "is_char c \<Longrightarrow> chars_of c = [c]"
proof -
  assume "is_char c"
  then obtain b cs where c: "c = b # cs" "list_all is_cont cs" by (cases c) (auto simp: is_char_def)
  then have "takeWhile is_cont cs = cs" "dropWhile is_cont cs = []" by (simp_all add: list_all_iff takeWhile_eq_all_conv)
  then show ?thesis unfolding c(1) by (simp only: chars_of.simps)
qed

lemma starts_char: "is_char c \<Longrightarrow> starts (c @ s)"
  by (cases c) (simp_all add: is_char_def)

lemma starts_concat: "list_all is_char cs \<Longrightarrow> starts (concat cs)"
  by (cases cs) (simp_all add: starts_char)

lemma chars_of_concat: "list_all is_char cs \<Longrightarrow> chars_of (concat cs) = cs"
  by (induction cs) (simp_all add: chars_of_append starts_concat chars_of_one)

text \<open>The start offsets are the lengths of the prefixes of the character list.\<close>

lemma upt_split: "[0..<a + b] = [0..<a] @ map ((+) a) [0..<b]"
  by (induction b) simp_all

lemma upt_0_Suc: "[0..<Suc n] = 0 # map Suc [0..<n]"
  by (simp add: map_Suc_upt upt_conv_Cons del: upt_Suc)

lemma char_starts_append:
  "char_starts (s @ t) = char_starts s @ map ((+) (length s)) (char_starts t)"
proof -
  have "filter (\<lambda>i. \<not> is_cont ((s @ t) ! i)) (map ((+) (length s)) xs) = map ((+) (length s)) (filter (\<lambda>i. \<not> is_cont (t ! i)) xs)" for xs
    by (induction xs) (simp_all add: nth_append)
  moreover have "filter (\<lambda>i. \<not> is_cont ((s @ t) ! i)) [0..<length s] = filter (\<lambda>i. \<not> is_cont (s ! i)) [0..<length s]"
    by (rule filter_cong) (simp_all add: nth_append)
  ultimately show ?thesis by (simp add: char_starts_def upt_split)
qed

lemma char_starts_one: "is_char c \<Longrightarrow> char_starts c = [0]"
proof -
  assume "is_char c"
  then obtain b cs where c: "c = b # cs" "\<not> is_cont b" "\<forall>i < length cs. is_cont (cs ! i)"
    by (cases c) (auto simp: is_char_def list_all_length)
  then show ?thesis by (simp add: char_starts_def upt_0_Suc filter_map o_def filter_empty_conv del: upt_Suc)
qed

lemma char_starts_concat:
  "list_all is_char cs \<Longrightarrow> char_starts (concat cs) = map (\<lambda>i. length (concat (take i cs))) [0..<length cs]"
proof (induction cs)
  case (Cons c cs)
  then show ?case by (simp add: char_starts_append char_starts_one upt_0_Suc o_def del: upt_Suc)
qed (simp add: char_starts_def)

lemma byte_of_concat: "list_all is_char cs \<Longrightarrow> byte_of (concat cs) i = length (concat (take i cs))"
  by (simp add: byte_of_def char_starts_concat)

lemma boundary_concat: "list_all is_char cs \<Longrightarrow> boundary (concat cs) (length (concat (take i cs)))"
proof (cases "i < length cs")
  case True
  assume cs: "list_all is_char cs"
  then have s: "starts (concat (drop i cs))" by (intro starts_concat) (auto simp: list_all_iff dest: in_set_dropD)
  have split: "concat cs = concat (take i cs) @ concat (drop i cs)" by (metis append_take_drop_id concat_append)
  show ?thesis
  proof (cases "concat (drop i cs)")
    case Nil
    then show ?thesis unfolding split by (simp add: boundary_def)
  next
    case (Cons b bs)
    then have "\<not> is_cont b" using s by simp
    then show ?thesis unfolding split Cons boundary_def by (simp add: nth_append)
  qed
qed (simp add: boundary_def)

section \<open>Each operation on the character list\<close>

lemma insert_chars:
  assumes "list_all is_char cs"
  shows "str_insert (concat cs) (byte_of (concat cs) i) c = Some (concat (take i cs @ c # drop i cs))"
proof -
  have split: "concat cs = concat (take i cs) @ concat (drop i cs)" by (metis append_take_drop_id concat_append)
  have "take (length (concat (take i cs))) (concat cs) = concat (take i cs)" "drop (length (concat (take i cs))) (concat cs) = concat (drop i cs)"
    unfolding split by simp_all
  then show ?thesis using boundary_concat[OF assms] by (simp add: str_insert_def byte_of_concat[OF assms])
qed

lemma remove_chars:
  assumes "list_all is_char cs" "i < length cs"
  shows "str_remove (concat cs) (byte_of (concat cs) i) = Some (concat (take i cs @ drop (Suc i) cs))"
proof -
  let ?a = "concat (take i cs)"
  let ?b = "concat (drop (Suc i) cs)"
  have cs: "cs = take i cs @ cs ! i # drop (Suc i) cs" using id_take_nth_drop[OF assms(2)] .
  then have split: "concat cs = ?a @ cs ! i @ ?b" by (metis concat.simps(2) concat_append)
  have c: "is_char (cs ! i)" using assms by (simp add: list_all_length)
  then have "cs ! i \<noteq> []" by (auto simp: is_char_def)
  have "list_all is_char (drop (Suc i) cs)" using assms(1) by (auto simp: list_all_iff dest: in_set_dropD)
  then have "chars_of (cs ! i @ ?b) = cs ! i # drop (Suc i) cs"
    using c by (simp add: chars_of_append starts_concat chars_of_one chars_of_concat)
  then have "str_remove (?a @ cs ! i @ ?b) (length ?a) = Some (?a @ ?b)"
    using boundary_concat[OF assms(1), of i, unfolded split] \<open>cs ! i \<noteq> []\<close> by (simp add: str_remove_def)
  then show ?thesis unfolding byte_of_concat[OF assms(1)] by (simp only: split concat_append)
qed

section \<open>The contract of a line editor\<close>

text \<open>What a text field promises: its state stands for the characters left and right of the caret.\<close>

datatype 'c edit = Ins 'c | Del_left | Del_right | Go_left | Go_right | Go_home | Go_end

type_synonym 'c line = "'c list \<times> 'c list"

fun edit_line :: "'c edit \<Rightarrow> 'c line \<Rightarrow> 'c line" where
  "edit_line (Ins c) (l, r) = (l @ [c], r)"
| "edit_line Del_left (l, r) = (butlast l, r)"
| "edit_line Del_right (l, r) = (l, tl r)"
| "edit_line Go_left (l, r) = (if l = [] then ([], r) else (butlast l, last l # r))"
| "edit_line Go_right (l, r) = (case r of [] \<Rightarrow> (l, []) | c # r' \<Rightarrow> (l @ [c], r'))"
| "edit_line Go_home (l, r) = ([], l @ r)"
| "edit_line Go_end (l, r) = (l @ r, [])"

fun all_steps :: "('e \<Rightarrow> 's \<Rightarrow> 's option) \<Rightarrow> 'e list \<Rightarrow> 's \<Rightarrow> 's option" where
  "all_steps f [] st = Some st"
| "all_steps f (e # es) st = (case f e st of None \<Rightarrow> None | Some st' \<Rightarrow> all_steps f es st')"

lemma all_steps_append: "all_steps f (es @ es') st = (case all_steps f es st of None \<Rightarrow> None | Some st' \<Rightarrow> all_steps f es' st')"
  by (induction es arbitrary: st) (auto split: option.splits)

lemma line_typed: "fold edit_line (map Ins cs) (l, r) = (l @ cs, r)"
  by (induction cs arbitrary: l) simp_all

lemma line_erased: "(edit_line Del_left ^^ length cs) (l @ cs, r) = (l, r)"
  by (induction cs rule: rev_induct) (simp_all add: butlast_append funpow_swap1)

locale line_editor =
  fixes step :: "'c edit \<Rightarrow> 's \<Rightarrow> 's option" and view :: "'s \<Rightarrow> 'c line" and valid :: "'s \<Rightarrow> bool" and ok :: "'c \<Rightarrow> bool"
  assumes step: "\<lbrakk>valid st; \<And>c. e = Ins c \<Longrightarrow> ok c\<rbrakk> \<Longrightarrow> \<exists>st'. step e st = Some st' \<and> valid st' \<and> view st' = edit_line e (view st)"
begin

lemma edits:
  assumes "valid st" "\<forall>c. Ins c \<in> set es \<longrightarrow> ok c"
  shows "\<exists>st'. all_steps step es st = Some st' \<and> valid st' \<and> view st' = fold edit_line es (view st)"
  using assms
proof (induction es arbitrary: st)
  case (Cons e es)
  obtain st1 where 1: "step e st = Some st1" "valid st1" "view st1 = edit_line e (view st)"
    using step[of st e] Cons.prems by auto
  show ?case using Cons.IH[OF 1(2)] Cons.prems(2) 1 by auto
qed simp

text \<open>Typing shows up before the caret, and as many presses of backspace take it away again.\<close>

lemma typed:
  assumes "valid st" "list_all ok cs"
  shows "\<exists>st'. all_steps step (map Ins cs) st = Some st' \<and> valid st' \<and> view st' = (fst (view st) @ cs, snd (view st))"
proof -
  have "\<forall>c. Ins c \<in> set (map Ins cs) \<longrightarrow> ok c" using assms(2) by (auto simp: list_all_iff)
  from edits[OF assms(1) this] show ?thesis by (cases "view st") (simp add: line_typed)
qed

lemma typed_erased:
  assumes "valid st" "list_all ok cs"
  shows "\<exists>st'. all_steps step (map Ins cs @ replicate (length cs) Del_left) st = Some st' \<and> valid st' \<and> view st' = view st"
proof -
  have "\<forall>c. Ins c \<in> set (map Ins cs @ replicate (length cs) Del_left) \<longrightarrow> ok c" using assms(2) by (auto simp: list_all_iff)
  from edits[OF assms(1) this] show ?thesis by (cases "view st") (simp add: line_typed line_erased)
qed

end

section \<open>Valid UTF-8 is a list of valid characters\<close>

definition utf8_char :: "string \<Rightarrow> bool" where
  "utf8_char c \<longleftrightarrow> is_char c \<and> utf8_ok (map of_char c)"

text \<open>The byte patterns of one character.\<close>

fun one_char :: "nat list \<Rightarrow> bool" where
  "one_char [a] \<longleftrightarrow> a < 128"
| "one_char [a, b] \<longleftrightarrow> 194 \<le> a \<and> a \<le> 223 \<and> cont_byte b"
| "one_char [a, b, c] \<longleftrightarrow> 224 \<le> a \<and> a \<le> 239 \<and>
     (if a = 224 then 160 \<le> b \<and> b \<le> 191 else if a = 237 then 128 \<le> b \<and> b \<le> 159 else cont_byte b) \<and> cont_byte c"
| "one_char [a, b, c, d] \<longleftrightarrow> 240 \<le> a \<and> a \<le> 244 \<and>
     (if a = 240 then 144 \<le> b \<and> b \<le> 191 else if a = 244 then 128 \<le> b \<and> b \<le> 143 else cont_byte b) \<and> cont_byte c \<and> cont_byte d"
| "one_char _ \<longleftrightarrow> False"

lemma one_char_then: "one_char c \<Longrightarrow> utf8_ok (c @ r) \<longleftrightarrow> utf8_ok r"
  by (cases c rule: one_char.cases) auto

lemma one_char_first:
  assumes "utf8_ok (a # xs)"
  shows "\<exists>c r. a # xs = c @ r \<and> one_char c"
proof -
  have "\<exists>c r. a # xs = c @ r \<and> one_char c" if "one_char (a # ys)" "xs = ys @ zs" for ys zs
    using that by (intro exI[of _ "a # ys"] exI[of _ zs]) simp
  note this[of "[]" xs] this[of "[hd xs]" "tl xs"] this[of "[hd xs, hd (tl xs)]" "tl (tl xs)"]
    this[of "[hd xs, hd (tl xs), hd (tl (tl xs))]" "tl (tl (tl xs))"]
  then show ?thesis using assms by (simp split: if_splits list.splits)
qed

lemma utf8_ok_append: "utf8_ok a \<Longrightarrow> utf8_ok b \<Longrightarrow> utf8_ok (a @ b)"
proof (induction "length a" arbitrary: a rule: less_induct)
  case less
  show ?case
  proof (cases a)
    case (Cons x xs)
    then obtain c r where a: "a = c @ r" "one_char c" using one_char_first less.prems(1) by blast
    moreover from a(2) have "c \<noteq> []" by auto
    ultimately show ?thesis using less.hyps[of r] less.prems by (simp add: one_char_then)
  qed (simp add: less.prems)
qed

lemma utf8_ok_concat: "list_all utf8_char cs \<Longrightarrow> utf8_ok (map of_char (concat cs))"
  by (induction cs) (auto simp: utf8_char_def utf8_ok_append)

lemma one_char_utf8: "one_char (map of_char c) \<Longrightarrow> utf8_char c"
proof -
  assume o: "one_char (map of_char c)"
  then have "utf8_ok (map of_char c)" using one_char_then[OF o, of "[]"] by simp
  moreover have "is_char c" using o by (cases "map of_char c :: nat list" rule: one_char.cases) (auto simp: is_char_def is_cont_def split: if_splits)
  ultimately show ?thesis by (simp add: utf8_char_def)
qed

lemma utf8_chars:
  assumes "utf8_ok (map of_char s)"
  shows "list_all utf8_char (chars_of s) \<and> starts s"
  using assms
proof (induction "length s" arbitrary: s rule: less_induct)
  case less
  show ?case
  proof (cases s)
    case (Cons x xs)
    then obtain c r where s: "map of_char s = c @ r" "one_char c" 
      using one_char_first[of "of_char x" "map of_char xs"] less.prems by auto
    then obtain c' t where c: "s = c' @ t" "map of_char c' = c" "map of_char t = r" by (auto simp: map_eq_append_conv)
    have "c' \<noteq> []" using s(2) c(2) by auto
    moreover have "utf8_ok (map of_char t)" using less.prems one_char_then[OF s(2), of r] unfolding s(1) c(3) by blast
    ultimately have t: "list_all utf8_char (chars_of t)" "starts t" using less.hyps[of t] c(1) by auto
    have u: "utf8_char c'" using one_char_utf8 s(2) c(2) by blast
    then have "is_char c'" by (simp add: utf8_char_def)
    then show ?thesis using u t unfolding c(1) by (simp add: chars_of_append chars_of_one starts_char)
  qed simp
qed

section \<open>The text fields of the interface\<close>

fun text_step :: "string edit \<Rightarrow> text_state \<Rightarrow> text_state option" where
  "text_step (Ins c) st = ce_insert c st"
| "text_step Del_left st = ce_backspace st"
| "text_step Del_right st = ce_delete st"
| "text_step Go_left st = Some (ce_left st)"
| "text_step Go_right st = Some (ce_right st)"
| "text_step Go_home st = Some (fst st, 0)"
| "text_step Go_end st = Some (fst st, char_count (fst st))"

fun text_view :: "text_state \<Rightarrow> string line" where
  "text_view (s, caret) = (take caret (chars_of s), drop caret (chars_of s))"

fun valid_text :: "text_state \<Rightarrow> bool" where
  "valid_text (s, caret) \<longleftrightarrow> utf8_ok (map of_char s) \<and> caret \<le> char_count s"

lemma is_char_list: "list_all utf8_char cs \<Longrightarrow> list_all is_char cs"
  by (auto simp: list_all_iff utf8_char_def)

text \<open>A valid field is a character list and a caret inside it.\<close>

lemma valid_textE:
  assumes "valid_text st"
  obtains cs i where "st = (concat cs, i)" "list_all utf8_char cs" "chars_of (concat cs) = cs" "char_count (concat cs) = length cs" "i \<le> length cs"
    "text_view st = (take i cs, drop i cs)"
proof -
  obtain s i where st: "st = (s, i)" by (cases st)
  then have u: "list_all utf8_char (chars_of s)" using assms utf8_chars by simp
  show thesis by (rule that[of "chars_of s" i]) (use st assms u in \<open>simp_all add: char_count_def\<close>)
qed

lemma valid_text_chars:
  assumes "list_all utf8_char cs" "i \<le> length cs"
  shows "valid_text (concat cs, i) \<and> text_view (concat cs, i) = (take i cs, drop i cs)"
  using assms by (simp add: utf8_ok_concat char_count_def chars_of_concat[OF is_char_list])

lemma butlast_take_caret: "i \<le> length cs \<Longrightarrow> 0 < i \<Longrightarrow> butlast (take i cs) = take (i - 1) cs"
  by (simp add: butlast_take)

lemma last_take_caret: "i \<le> length cs \<Longrightarrow> 0 < i \<Longrightarrow> last (take i cs) # drop i cs = drop (i - 1) cs"
proof -
  assume i: "i \<le> length cs" "0 < i"
  then have "last (take i cs) = cs ! (i - 1)" by (subst last_conv_nth) (auto simp: min_def)
  then show ?thesis using Cons_nth_drop_Suc[of "i - 1" cs] i by simp
qed

lemma text_step_edits:
  assumes st: "valid_text st" and ok: "\<And>c. e = Ins c \<Longrightarrow> utf8_char c"
  shows "\<exists>st'. text_step e st = Some st' \<and> valid_text st' \<and> text_view st' = edit_line e (text_view st)"
proof -
  obtain cs i where cs: "st = (concat cs, i)" "list_all utf8_char cs" "chars_of (concat cs) = cs" "char_count (concat cs) = length cs"
    "i \<le> length cs" "text_view st = (take i cs, drop i cs)" using valid_textE[OF st] .
  note ch = is_char_list[OF cs(2)]
  have go: "\<exists>st'. Some (concat cs', j) = Some st' \<and> valid_text st' \<and> text_view st' = lr"
    if "list_all utf8_char cs'" "j \<le> length cs'" "(take j cs', drop j cs') = lr" for cs' j lr
    using valid_text_chars[OF that(1,2)] that(3) by metis
  have sub: "list_all utf8_char (take k cs)" "list_all utf8_char (drop k cs)" for k
    using cs(2) by (auto simp: list_all_iff dest: in_set_takeD in_set_dropD)
  show ?thesis
  proof (cases e)
    case (Ins c)
    then have "text_step e st = Some (concat (take i cs @ c # drop i cs), i + 1)"
      using cs insert_chars[OF ch, of i c] by (simp add: ce_insert_def Let_def)
    then show ?thesis using go[of "take i cs @ c # drop i cs" "i + 1" "edit_line e (text_view st)"] Ins ok sub cs(5,6) by simp
  next
    case Del_left
    show ?thesis
    proof (cases "0 < i")
      case True
      then have "cs \<noteq> []" using cs(5) by auto
      then have "text_step e st = Some (concat (take (i - 1) cs @ drop i cs), i - 1)"
        using True Del_left cs remove_chars[OF ch, of "i - 1"] by (simp add: ce_backspace_def Let_def)
      then show ?thesis
        using go[of "take (i - 1) cs @ drop i cs" "i - 1" "edit_line e (text_view st)"] Del_left sub cs(5,6) True
        by (simp add: butlast_take_caret)
    next
      case False
      then show ?thesis using Del_left cs st by (simp add: ce_backspace_def)
    qed
  next
    case Del_right
    show ?thesis
    proof (cases "i < length cs")
      case True
      then have "text_step e st = Some (concat (take i cs @ drop (Suc i) cs), i)"
        using Del_right cs remove_chars[OF ch, of i] by (simp add: ce_delete_def Let_def)
      moreover have "tl (drop i cs) = drop (Suc i) cs" by (simp add: drop_Suc tl_drop)
      ultimately show ?thesis
        using go[of "take i cs @ drop (Suc i) cs" i "edit_line e (text_view st)"] Del_right sub cs(5,6) by simp
    next
      case False
      then show ?thesis using Del_right cs st by (simp add: ce_delete_def)
    qed
  next
    case Go_left
    have "edit_line e (text_view st) = (take (i - 1) cs, drop (i - 1) cs)"
    proof (cases "0 < i")
      case True
      then have "cs \<noteq> []" using cs(5) by auto
      then show ?thesis using True Go_left cs(5,6) by (simp add: butlast_take_caret last_take_caret)
    next
      case False
      then show ?thesis using Go_left cs(6) by simp
    qed
    moreover have "text_step e st = Some (concat cs, i - 1)" using Go_left cs by (simp add: ce_left_def)
    ultimately show ?thesis using go[OF cs(2), of "i - 1"] cs(5) by simp
  next
    case Go_right
    show ?thesis
      using go[of cs "min (i + 1) (length cs)" "edit_line e (text_view st)"] Go_right cs
      by (cases "i < length cs") (simp_all add: ce_right_def Cons_nth_drop_Suc[symmetric] take_Suc_conv_app_nth)
  next
    case Go_home
    then show ?thesis using go[of cs 0 "edit_line e (text_view st)"] cs by simp
  next
    case Go_end
    then show ?thesis using go[of cs "length cs" "edit_line e (text_view st)"] cs by simp
  qed
qed

interpretation text_field: line_editor text_step text_view valid_text utf8_char
  by unfold_locales (rule text_step_edits)

text \<open>The edit a key stands for, and the keys that the keyboard driver can send.\<close>

fun edit_of :: "key \<Rightarrow> string edit option" where
  "edit_of key.Left = Some Go_left"
| "edit_of key.Right = Some Go_right"
| "edit_of Home = Some Go_home"
| "edit_of End = Some Go_end"
| "edit_of Backspace = Some Del_left"
| "edit_of Delete = Some Del_right"
| "edit_of (Char c) = Some (Ins [c])"
| "edit_of _ = None"

fun ascii_key :: "key \<Rightarrow> bool" where
  "ascii_key (Char c) \<longleftrightarrow> (of_char c :: nat) < 128"
| "ascii_key _ \<longleftrightarrow> True"

lemma text_key_edit: "text_key k st = (case edit_of k of None \<Rightarrow> Some st | Some e \<Rightarrow> text_step e st)"
  by (cases k) simp_all

lemma text_keys_edits: "all_steps text_key ks st = all_steps text_step (List.map_filter edit_of ks) st"
  by (induction ks arbitrary: st) (auto simp: text_key_edit List.map_filter_simps split: option.splits)

lemma ascii_utf8_char: "(of_char c :: nat) < 128 \<Longrightarrow> utf8_char [c]"
  by (simp add: utf8_char_def is_char_def is_cont_def)

lemma ascii_edits: "list_all ascii_key ks \<Longrightarrow> Ins c \<in> set (List.map_filter edit_of ks) \<Longrightarrow> utf8_char c"
proof (induction ks)
  case (Cons k ks)
  then show ?case by (cases k) (auto simp: List.map_filter_simps ascii_utf8_char)
qed (simp add: List.map_filter_simps)

text \<open>C36 Typing in a text field never panics and never cuts a character: whatever keys are pressed, in a field whose text is valid UTF-8,
  the text stays valid UTF-8, the caret stays inside it, and the characters left and right of the caret are what a line editor on
  lists of characters makes of the same keys.\<close>

theorem text_field_edits:
  assumes "valid_text (s, caret)" "list_all ascii_key ks"
  shows "\<exists>s' caret'. all_steps text_key ks (s, caret) = Some (s', caret') \<and> valid_text (s', caret') \<and>
    (take caret' (chars_of s'), drop caret' (chars_of s')) =
      fold edit_line (List.map_filter edit_of ks) (take caret (chars_of s), drop caret (chars_of s))"
  using text_field.edits[OF assms(1), of "List.map_filter edit_of ks"] ascii_edits[OF assms(2)]
  by (auto simp: text_keys_edits)

theorem text_field_edits_witness:
  "\<exists>s' caret'. all_steps text_key [Backspace, Char (CHR ''o''), Home, Delete] (''z'' @ [CHR 0xC3, CHR 0xBC, CHR ''x''], 2) = Some (s', caret') \<and>
     valid_text (s', caret') \<and> (take caret' (chars_of s'), drop caret' (chars_of s')) = ([], [''o'', ''x''])"
proof -
  have v: "valid_text (''z'' @ [CHR 0xC3, CHR 0xBC, CHR ''x''], 2)" by (simp add: char_count_def is_cont_def)
  have k: "list_all ascii_key [Backspace, Char (CHR ''o''), Home, Delete]" by simp
  show ?thesis using text_field_edits[OF v k] by (simp add: is_cont_def List.map_filter_simps)
qed

text \<open>Typing a text and erasing it again leaves the field as it was.\<close>

lemma typed_then_erased:
  assumes "valid_text (s, caret)" "\<forall>c \<in> set t. (of_char c :: nat) < 128"
  shows "\<exists>s' caret'. all_steps text_key (map Char t @ replicate (length t) Backspace) (s, caret) = Some (s', caret') \<and> s' = s \<and> caret' = caret"
proof -
  have m: "List.map_filter edit_of (map Char t @ replicate (length t) Backspace) =
      map Ins (map (\<lambda>c. [c]) t) @ replicate (length (map (\<lambda>c. [c]) t)) Del_left"
    by (simp add: List.map_filter_def o_def filter_replicate)
  have "list_all utf8_char (map (\<lambda>c. [c]) t)" using assms(2) by (auto simp: list_all_iff ascii_utf8_char)
  from text_field.typed_erased[OF assms(1) this] obtain s' caret' where
    r: "all_steps text_key (map Char t @ replicate (length t) Backspace) (s, caret) = Some (s', caret')" "valid_text (s', caret')"
      "take caret' (chars_of s') = take caret (chars_of s)" "drop caret' (chars_of s') = drop caret (chars_of s)"
    by (auto simp: text_keys_edits m)
  have "chars_of s' = chars_of s" using r(3,4) by (metis append_take_drop_id)
  then have "s' = s" by (metis concat_chars_of)
  moreover have "caret' = caret" using r(2,3) assms(1) \<open>s' = s\<close>
    by (metis char_count_def length_take min_absorb2 valid_text.simps)
  ultimately show ?thesis using r(1) by blast
qed

end
