(* ===== verification/Clock.thy ===== *)
theory Clock
  imports Ports
begin

text \<open>
  The wall clock, \<^verbatim>\<open>kernel/src/rtc.rs\<close>: reading the CMOS registers through the ports 0x70 and 0x71, waiting for an update in
  progress, accepting only two equal snapshots in a row, and normalising BCD and 12-hour values. The chip behind
  the ports is the parameter \<^verbatim>\<open>bus\<close>. The loops are bounded in the source (100\,000 polls, 10 attempts); the bound is
  the argument the recursion runs on.
\<close>

unbundle bit_operations_syntax

section \<open>Registers\<close>

definition ADDR :: nat where
  "ADDR = 0x70"

definition DATA :: nat where
  "DATA = 0x71"

record rtc =
  year :: nat
  month :: byte
  day :: byte
  hour :: byte
  minute :: byte
  second :: byte

record raw =
  raw_second :: byte
  raw_minute :: byte
  raw_hour :: byte
  raw_day :: byte
  raw_month :: byte
  raw_year :: byte
  raw_century :: byte
  status_b :: byte

definition read_reg :: "'h bus \<Rightarrow> byte \<Rightarrow> ('h, byte) io" where
  "read_reg B reg = do { outb B ADDR (reg OR 0x80); inb B DATA }"

definition update_in_progress :: "'h bus \<Rightarrow> ('h, bool) io" where
  "update_in_progress B = do { a \<leftarrow> read_reg B 0x0A; State_Monad.return (a AND 0x80 \<noteq> 0) }"

fun await_update :: "'h bus \<Rightarrow> nat \<Rightarrow> ('h, unit) io" where
  "await_update B 0 = State_Monad.return ()"
| "await_update B (Suc n) = do {
    busy \<leftarrow> update_in_progress B;
    if \<not> busy then State_Monad.return () else await_update B n }"

definition read_raw :: "'h bus \<Rightarrow> ('h, raw) io" where
  "read_raw B = do {
    await_update B 100000;
    s \<leftarrow> read_reg B 0x00;
    m \<leftarrow> read_reg B 0x02;
    h \<leftarrow> read_reg B 0x04;
    d \<leftarrow> read_reg B 0x07;
    mo \<leftarrow> read_reg B 0x08;
    y \<leftarrow> read_reg B 0x09;
    c \<leftarrow> read_reg B 0x32;
    b \<leftarrow> read_reg B 0x0B;
    State_Monad.return \<lparr>raw_second = s, raw_minute = m, raw_hour = h, raw_day = d, raw_month = mo,
      raw_year = y, raw_century = c, status_b = b\<rparr> }"

section \<open>Normalisation\<close>

definition bcd :: "byte \<Rightarrow> byte" where
  "bcd v = (v AND 0x0F) + drop_bit 4 v * 10"

definition translate :: "raw \<Rightarrow> rtc" where
  "translate r =
    (let bcd_mode = (status_b r AND 0x04 = 0);
         h24 = (status_b r AND 0x02 \<noteq> 0);
         pm = (raw_hour r AND 0x80 \<noteq> 0);
         rh = raw_hour r AND 0x7F;
         (s, mi, h, d, mo, y, c) =
           (if bcd_mode then
              (bcd (raw_second r), bcd (raw_minute r), bcd rh, bcd (raw_day r), bcd (raw_month r),
               bcd (raw_year r), bcd (raw_century r))
            else
              (raw_second r, raw_minute r, rh, raw_day r, raw_month r, raw_year r, raw_century r));
         h = (if h24 then h else let h = h mod 12 in if pm then h + 12 else h);
         full = (if 19 \<le> c \<and> c \<le> 99 then unat c * 100 + unat y else 2000 + unat y)
     in \<lparr>year = full, month = mo, day = d, hour = h, minute = mi, second = s\<rparr>)"

fun settle :: "'h bus \<Rightarrow> nat \<Rightarrow> raw \<Rightarrow> ('h, rtc option) io" where
  "settle B 0 prev = State_Monad.return None"
| "settle B (Suc n) prev = do {
    cur \<leftarrow> read_raw B;
    if cur = prev then State_Monad.return (Some (translate cur)) else settle B n cur }"

definition now :: "'h bus \<Rightarrow> ('h, rtc option) io" where
  "now B = do { prev \<leftarrow> read_raw B; settle B 10 prev }"

section \<open>What the registers of a clock hold\<close>

text \<open>The documented encodings: BCD or binary, and in 12-hour mode the hours 12, 1, ..., 11 with bit 7 set after noon.\<close>

definition encode_field :: "bool \<Rightarrow> nat \<Rightarrow> byte" where
  "encode_field b n = word_of_nat (if b then n div 10 * 16 + n mod 10 else n)"

definition encode_hour :: "bool \<Rightarrow> bool \<Rightarrow> nat \<Rightarrow> byte" where
  "encode_hour b h24 h =
    (if h24 then encode_field b h
     else encode_field b (if h mod 12 = 0 then 12 else h mod 12) OR (if 12 \<le> h then 0x80 else 0))"

definition registers :: "bool \<Rightarrow> bool \<Rightarrow> rtc \<Rightarrow> raw" where
  "registers b h24 t =
    \<lparr>raw_second = encode_field b (unat (second t)), raw_minute = encode_field b (unat (minute t)),
     raw_hour = encode_hour b h24 (unat (hour t)), raw_day = encode_field b (unat (day t)),
     raw_month = encode_field b (unat (month t)), raw_year = encode_field b (year t mod 100),
     raw_century = encode_field b (year t div 100),
     status_b = (if b then 0 else 4) OR (if h24 then 2 else 0)\<rparr>"

definition civil :: "rtc \<Rightarrow> bool" where
  "civil t \<longleftrightarrow> 1900 \<le> year t \<and> year t < 10000 \<and> month t \<in> {1..12} \<and> day t \<in> {1..31} \<and> hour t < 24 \<and>
    minute t < 60 \<and> second t < 60"

lemma bcd_encode: "list_all (\<lambda>n. bcd (encode_field True n) = word_of_nat n) [0..<100]"
  by code_simp

lemma bcd_field: "n < 100 \<Longrightarrow> bcd (encode_field True n) = word_of_nat n"
  using bcd_encode by (simp only: list_all_iff) auto

text \<open>The hour \<^verbatim>\<open>translate\<close> reads out of a register.\<close>

definition decode_hour :: "bool \<Rightarrow> bool \<Rightarrow> byte \<Rightarrow> byte" where
  "decode_hour b h24 r =
    (let h = (if b then bcd (r AND 0x7F) else r AND 0x7F) in
     if h24 then h else if r AND 0x80 \<noteq> 0 then h mod 12 + 12 else h mod 12)"

lemma hour_decodes:
  "list_all (\<lambda>n. decode_hour True True (encode_hour True True n) = word_of_nat n \<and>
    decode_hour True False (encode_hour True False n) = word_of_nat n \<and>
    decode_hour False True (encode_hour False True n) = word_of_nat n \<and>
    decode_hour False False (encode_hour False False n) = word_of_nat n) [0..<24]"
  by code_simp

lemma hour_field:
  assumes "n < 24"
  shows "decode_hour b h24 (encode_hour b h24 n) = word_of_nat n"
proof -
  have "n \<in> set [0..<24]" using assms by (simp only: set_upt atLeastLessThan_iff) simp
  from bspec [OF hour_decodes [unfolded list_all_iff] this] show ?thesis
    by (cases b; cases h24) simp_all
qed

lemma decode_field:
  "n < 100 \<Longrightarrow> (if b then bcd (encode_field b n) else encode_field b n) = word_of_nat n"
  by (cases b) (simp_all add: bcd_field, simp add: encode_field_def)

lemma status_modes:
  "((if b then 0 else 4) OR (if h24 then 2 else 0) :: byte) AND 4 = 0 \<longleftrightarrow> b"
  "((if b then 0 else 4) OR (if h24 then 2 else 0) :: byte) AND 2 \<noteq> 0 \<longleftrightarrow> h24"
  by (cases b; cases h24; simp)+

lemma translate_registers:
  assumes "civil t"
  shows "translate (registers b h24 t) = t"
proof -
  have bounds: "unat (second t) < 100" "unat (minute t) < 100" "unat (day t) < 100" "unat (month t) < 100"
    "unat (hour t) < 24" "year t mod 100 < 100" "year t div 100 < 100" "19 \<le> year t div 100"
    using assms by (auto simp: civil_def word_less_nat_alt word_le_nat_alt)
  have cent: "unat (word_of_nat (year t div 100) :: byte) = year t div 100"
    "unat (word_of_nat (year t mod 100) :: byte) = year t mod 100"
    using bounds by (simp_all add: unat_of_nat)
  show ?thesis
    using decode_field [OF bounds(1), of b] decode_field [OF bounds(2), of b] decode_field [OF bounds(3), of b]
      decode_field [OF bounds(4), of b] decode_field [OF bounds(6), of b] decode_field [OF bounds(7), of b]
      hour_field [OF bounds(5), of b h24] bounds cent
    by (cases b; cases h24) (simp_all add: translate_def registers_def status_modes decode_hour_def Let_def
      word_le_nat_alt)
qed

section \<open>Reading a settled clock\<close>

text \<open>The chip: writing a register number to port 0x70 (with bit 7 set) selects it, reading port 0x71 returns it.
  \<^verbatim>\<open>S\<close> is the set of states in which the registers hold \<^verbatim>\<open>rf\<close>.\<close>

definition presents :: "'h bus \<Rightarrow> (byte \<Rightarrow> byte) \<Rightarrow> 'h set \<Rightarrow> bool" where
  "presents B rf S \<longleftrightarrow>
    (\<forall>h \<in> S. \<forall>r. \<exists>h' \<in> S. in8 B 0x71 (out8 B 0x70 (r OR 0x80) h) = (rf r, h'))"

definition holds :: "(byte \<Rightarrow> byte) \<Rightarrow> raw \<Rightarrow> bool" where
  "holds rf r \<longleftrightarrow> rf 0x00 = raw_second r \<and> rf 0x02 = raw_minute r \<and> rf 0x04 = raw_hour r \<and> rf 0x07 = raw_day r \<and>
    rf 0x08 = raw_month r \<and> rf 0x09 = raw_year r \<and> rf 0x32 = raw_century r \<and> rf 0x0B = status_b r \<and>
    rf 0x0A AND 0x80 = 0"

definition yields :: "('h, 'a) io \<Rightarrow> 'h set \<Rightarrow> 'a \<Rightarrow> bool" where
  "yields m S x \<longleftrightarrow> (\<forall>h \<in> S. \<forall>tr. \<exists>h' \<in> S. \<exists>tr'. run_state m (h, tr) = (x, h', tr'))"

lemma yields_return: "yields (State_Monad.return x) S x"
  by (auto simp: yields_def)

lemma yields_bind:
  assumes "yields m S x" "yields (k x) S y"
  shows "yields (m \<bind> k) S y"
  unfolding yields_def
proof (intro ballI allI)
  fix h tr assume "h \<in> S"
  with assms(1) obtain h1 tr1 where "h1 \<in> S" "run_state m (h, tr) = (x, h1, tr1)" unfolding yields_def by blast
  moreover from assms(2) \<open>h1 \<in> S\<close> obtain h2 tr2 where "h2 \<in> S" "run_state (k x) (h1, tr1) = (y, h2, tr2)"
    unfolding yields_def by blast
  ultimately show "\<exists>h' \<in> S. \<exists>tr'. run_state (m \<bind> k) (h, tr) = (y, h', tr')" by auto
qed

lemma yields_read_reg:
  assumes "presents B rf S"
  shows "yields (read_reg B r) S (rf r)"
  unfolding yields_def
proof (intro ballI allI)
  fix h tr assume "h \<in> S"
  with assms obtain h' where "h' \<in> S" "in8 B 0x71 (out8 B 0x70 (r OR 0x80) h) = (rf r, h')"
    unfolding presents_def by blast
  then show "\<exists>h' \<in> S. \<exists>tr'. run_state (read_reg B r) (h, tr) = (rf r, h', tr')"
    by (auto simp: read_reg_def inb_def outb_def ADDR_def DATA_def)
qed

lemma yields_read_raw:
  assumes p: "presents B rf S" and r: "holds rf r"
  shows "yields (read_raw B) S r"
proof -
  have "yields (update_in_progress B) S False"
    unfolding update_in_progress_def
    by (rule yields_bind [OF yields_read_reg [OF p]]) (use r in \<open>simp add: holds_def yields_return\<close>)
  then have "yields (await_update B (Suc n)) S ()" for n
    by simp (rule yields_bind, assumption, simp add: yields_return)
  moreover have "(100000 :: nat) = Suc 99999" by simp
  ultimately have wait: "yields (await_update B 100000) S ()" by metis
  have ret: "yields (State_Monad.return \<lparr>raw_second = rf 0x00, raw_minute = rf 0x02, raw_hour = rf 0x04, raw_day = rf 0x07,
      raw_month = rf 0x08, raw_year = rf 0x09, raw_century = rf 0x32, status_b = rf 0x0B\<rparr>) S r"
    using r by (cases r) (simp add: holds_def yields_return)
  show ?thesis unfolding read_raw_def
    by (rule yields_bind [OF wait] yields_bind [OF yields_read_reg [OF p]] ret)+
qed

lemma yields_now:
  assumes "presents B rf S" "holds rf r"
  shows "yields (now B) S (Some (translate r))"
proof -
  note raw = yields_read_raw [OF assms]
  have "yields (settle B (Suc 9) r) S (Some (translate r))"
    unfolding settle.simps by (rule yields_bind [OF raw]) (simp add: yields_return)
  moreover have "(10 :: nat) = Suc 9" by simp
  ultimately show ?thesis unfolding now_def by (metis yields_bind [OF raw])
qed

section \<open>Properties\<close>

text \<open>A chip that keeps its registers: the state is the selected register.\<close>

definition cmos :: "(byte \<Rightarrow> byte) \<Rightarrow> byte bus" where
  "cmos rf = \<lparr>in8 = (\<lambda>p h. (rf h, h)), in16 = (\<lambda>p h. (0, h)), in32 = (\<lambda>p h. (0, h)),
    out8 = (\<lambda>p v h. v AND 0x7F), out16 = (\<lambda>p v h. h), out32 = (\<lambda>p v h. h)\<rparr>"

definition cmos_file :: "raw \<Rightarrow> byte \<Rightarrow> byte" where
  "cmos_file r a = (if a = 0x00 then raw_second r else if a = 0x02 then raw_minute r else if a = 0x04 then raw_hour r
    else if a = 0x07 then raw_day r else if a = 0x08 then raw_month r else if a = 0x09 then raw_year r
    else if a = 0x32 then raw_century r else if a = 0x0B then status_b r else 0)"

text \<open>C34 The clock is read correctly in every mode. If the CMOS chip keeps the registers of a civil time between 1900 and 9999, in BCD
  or binary and in 12- or 24-hour form, and is not in the middle of an update, then \<^verbatim>\<open>now\<close> returns exactly that time.\<close>

theorem clock_reads_time:
  assumes "presents B rf S" "holds rf (registers b h24 t)" "civil t" "h \<in> S"
  shows "fst (run_state (now B) (h, tr)) = Some t"
  using yields_now [OF assms(1,2)] assms(4) unfolding translate_registers [OF assms(3)] yields_def
  by (metis fst_conv)

theorem clock_reads_time_witness:
  "fst (run_state (now (cmos (cmos_file (registers True False
      \<lparr>year = 2024, month = 2, day = 29, hour = 0, minute = 59, second = 7\<rparr>)))) (0, [])) =
    Some \<lparr>year = 2024, month = 2, day = 29, hour = 0, minute = 59, second = 7\<rparr>"
proof -
  let ?t = "\<lparr>year = 2024, month = 2, day = 29, hour = 0, minute = 59, second = 7\<rparr> :: rtc"
  let ?rf = "\<lambda>r. cmos_file (registers True False ?t) (r AND 0x7F)"
  have mask: "(r OR 0x80) AND 0x7F = r AND 0x7F" for r :: byte
    by (simp add: bit.conj_disj_distrib2)
  have "presents (cmos (cmos_file (registers True False ?t))) ?rf UNIV"
    by (simp add: presents_def cmos_def mask)
  moreover have "holds ?rf (registers True False ?t)"
    by (simp add: holds_def cmos_file_def)
  moreover have "civil ?t" by (simp add: civil_def)
  ultimately show ?thesis by (rule clock_reads_time) simp
qed

end
