(* ===== verification/Field_Builder.thy ===== *)
theory Field_Builder
  imports Text_Edit Clock
begin

text \<open>
  The value builder of the user interface, \<^verbatim>\<open>FieldBuilder\<close> in \<^verbatim>\<open>kernel/src/ui.rs\<close>: it splits a value into labelled parts (sign, digits,
  calendar and clock components), lets the keys edit one part at a time, and composes the text that is parsed back into a value.
  The clock reading of \<open>[n]\<close> and the driver's last error message are arguments.
\<close>

section \<open>Parts\<close>

datatype part_id =
    Year | Month | Day | Hour | Minute | Second | Frac | OffSign | OffHour | OffMin
  | Sign | IntDigits | DecFrac
  | Text

record part_field =
  part_id :: part_id
  part_label :: string
  part_buf :: string
  part_neg :: bool
  part_caret :: nat

definition max_digits :: "part_id \<Rightarrow> nat" where
  "max_digits i = (if i \<in> {Month, Day, Hour, Minute, Second, OffHour, OffMin} then 2 else 2 ^ 64 - 1)"

definition is_sign :: "part_id \<Rightarrow> bool" where
  "is_sign i \<longleftrightarrow> i \<in> {OffSign, Sign}"

definition is_text :: "part_id \<Rightarrow> bool" where
  "is_text i \<longleftrightarrow> i = Text"

record field_builder =
  fb_field :: nat
  fb_col :: string
  fb_ty :: type
  fb_parts :: "part_field list"
  fb_focus :: nat
  fb_error :: "string option"
  fb_next :: "string option"

definition is_datetime :: "type \<Rightarrow> bool" where
  "is_datetime ty \<longleftrightarrow> ty \<in> {TDate, TDateTz, TTime, TDateTime, TDateTimeTz}"

definition split_number :: "string \<Rightarrow> bool \<times> string \<times> string" where
  "split_number s =
    (let (neg, rest) = (case s of [] \<Rightarrow> (False, s) | c # cs \<Rightarrow> if c = CHR ''-'' then (True, cs) else if c = CHR ''+'' then (False, cs) else (False, s))
     in case split_once CHR ''.'' rest of Some (i, fr) \<Rightarrow> (neg, i, fr) | None \<Rightarrow> (neg, rest, []))"

text \<open>The three closures of \<^verbatim>\<open>FieldBuilder::new\<close> and its match on the type.\<close>

definition date_parts :: "(part_id \<times> string) list" where
  "date_parts = [(Year, ''Year''), (Month, ''Month''), (Day, ''Day'')]"

definition time_parts :: "(part_id \<times> string) list" where
  "time_parts = [(Hour, ''Hour''), (Minute, ''Minute''), (Second, ''Second''), (Frac, ''Sub-second'')]"

definition off_parts :: "(part_id \<times> string) list" where
  "off_parts = [(OffSign, ''Zone sign''), (OffHour, ''Zone hour''), (OffMin, ''Zone min'')]"

fun layout :: "type \<Rightarrow> (part_id \<times> string) list" where
  "layout TInteger = [(Sign, ''Sign''), (IntDigits, ''Digits'')]"
| "layout TUnsignedInteger = [(IntDigits, ''Digits'')]"
| "layout TDecimal = [(Sign, ''Sign''), (IntDigits, ''Integer part''), (DecFrac, ''Fraction'')]"
| "layout TString = [(Text, ''Text'')]"
| "layout TDate = date_parts"
| "layout TDateTz = date_parts @ off_parts"
| "layout TTime = time_parts"
| "layout TDateTime = date_parts @ time_parts"
| "layout TDateTimeTz = date_parts @ time_parts @ off_parts"

definition empty_part :: "part_id \<times> string \<Rightarrow> part_field" where
  "empty_part p = (case p of (i, l) \<Rightarrow> \<lparr>part_id = i, part_label = l, part_buf = [], part_neg = False, part_caret = 0\<rparr>)"

definition fb_new :: "nat \<Rightarrow> string \<Rightarrow> type \<Rightarrow> field_builder" where
  "fb_new fi col ty = \<lparr>fb_field = fi, fb_col = col, fb_ty = ty, fb_parts = map empty_part (layout ty), fb_focus = 0, fb_error = None, fb_next = None\<rparr>"

section \<open>Focus positions\<close>

definition has_now :: "field_builder \<Rightarrow> bool" where
  "has_now b \<longleftrightarrow> is_datetime (fb_ty b)"

definition has_next :: "field_builder \<Rightarrow> bool" where
  "has_next b \<longleftrightarrow> fb_next b \<noteq> None"

definition now_index :: "field_builder \<Rightarrow> nat option" where
  "now_index b = (if has_now b then Some (length (fb_parts b)) else None)"

definition next_index :: "field_builder \<Rightarrow> nat option" where
  "next_index b = (if has_next b then Some (length (fb_parts b) + of_bool (has_now b)) else None)"

definition ok_index :: "field_builder \<Rightarrow> nat" where
  "ok_index b = length (fb_parts b) + of_bool (has_now b) + of_bool (has_next b)"

definition cancel_index :: "field_builder \<Rightarrow> nat" where
  "cancel_index b = ok_index b + 1"

definition fb_total :: "field_builder \<Rightarrow> nat" where
  "fb_total b = cancel_index b + 1"

section \<open>Reading and writing parts\<close>

fun set_part :: "part_id \<Rightarrow> string \<Rightarrow> bool \<Rightarrow> part_field list \<Rightarrow> part_field list" where
  "set_part i buf neg [] = []"
| "set_part i buf neg (f # fs) =
     (if part_id f = i then f\<lparr>part_caret := char_count buf, part_buf := buf, part_neg := neg\<rparr> # fs else f # set_part i buf neg fs)"

definition fb_set :: "part_id \<Rightarrow> string \<Rightarrow> bool \<Rightarrow> field_builder \<Rightarrow> field_builder" where
  "fb_set i buf neg b = b\<lparr>fb_parts := set_part i buf neg (fb_parts b)\<rparr>"

definition fb_get :: "field_builder \<Rightarrow> part_id \<Rightarrow> part_field option" where
  "fb_get b i = List.find (\<lambda>f. part_id f = i) (fb_parts b)"

text \<open>\<^verbatim>\<open>{:02}\<close> of a \<^verbatim>\<open>u8\<close>, and padding by the length in bytes.\<close>

definition num2 :: "nat \<Rightarrow> string" where
  "num2 v = (if v < 10 then ''0'' @ dec_of_nat v else dec_of_nat v)"

definition pad2 :: "string \<Rightarrow> string" where
  "pad2 s = (if length s = 0 then ''00'' else if length s = 1 then ''0'' @ s else s)"

definition set_date :: "date \<Rightarrow> field_builder \<Rightarrow> field_builder" where
  "set_date d b = fb_set Day (num2 (Value.day d)) False (fb_set Month (num2 (Value.month d)) False
     (fb_set Year (uint_to_dec_string (mag (Value.year d))) (negative (Value.year d)) b))"

text \<open>The hour is converted with \<^verbatim>\<open>as u8\<close>.\<close>

definition set_time :: "time_of_day \<Rightarrow> field_builder \<Rightarrow> field_builder" where
  "set_time t b = fb_set Frac (map char_of_digit (time_frac t)) False (fb_set Second (num2 (secs t mod 60)) False
     (fb_set Minute (num2 (secs t mod 3600 div 60)) False (fb_set Hour (num2 (secs t div 3600 mod 256)) False b)))"

definition set_off :: "int \<Rightarrow> field_builder \<Rightarrow> field_builder" where
  "set_off off b = (let a = nat \<bar>off\<bar> in
     fb_set OffMin (num2 (a mod 60)) False (fb_set OffHour (num2 (a div 60 mod 256)) False (fb_set OffSign [] (off < 0) b)))"

definition set_number :: "string \<Rightarrow> field_builder \<Rightarrow> field_builder" where
  "set_number s b = (case split_number s of (neg, i, fr) \<Rightarrow>
     fb_set DecFrac fr False (fb_set IntDigits i False (fb_set Sign [] neg b)))"

fun load_from :: "val \<Rightarrow> field_builder \<Rightarrow> field_builder" where
  "load_from (VStr s) b = fb_set Text s False b"
| "load_from (VDate d) b = set_date d b"
| "load_from (VDateTz d off) b = set_off off (set_date d b)"
| "load_from (VTime t) b = set_time t b"
| "load_from (VDateTime d t) b = set_time t (set_date d b)"
| "load_from (VDateTimeTz d t off) b = set_off off (set_time t (set_date d b))"
| "load_from v b = set_number (display v) b"

definition fill_now :: "rtc option \<Rightarrow> field_builder \<Rightarrow> field_builder \<times> bool" where
  "fill_now clock b = (case clock of
      None \<Rightarrow> (b, False)
    | Some n \<Rightarrow>
        (fb_set OffMin (num2 0) False (fb_set OffHour (num2 0) False (fb_set OffSign [] False (fb_set Frac [] False
         (fb_set Second (num2 (unat (rtc.second n))) False (fb_set Minute (num2 (unat (rtc.minute n))) False
         (fb_set Hour (num2 (unat (rtc.hour n))) False (fb_set Day (num2 (unat (rtc.day n))) False
         (fb_set Month (num2 (unat (rtc.month n))) False (fb_set Year (dec_of_nat (rtc.year n)) False b))))))))), True))"

definition fill_next :: "field_builder \<Rightarrow> field_builder \<times> bool" where
  "fill_next b = (case fb_next b of
      None \<Rightarrow> (b, False)
    | Some t \<Rightarrow> (case split_number t of (neg, i, fr) \<Rightarrow> (fb_set IntDigits i False (fb_set Sign [] neg b), True)))"

section \<open>Composing the text\<close>

definition neg_of :: "field_builder \<Rightarrow> part_id \<Rightarrow> bool" where
  "neg_of b i = (case fb_get b i of None \<Rightarrow> False | Some f \<Rightarrow> part_neg f)"

definition buf_of :: "field_builder \<Rightarrow> part_id \<Rightarrow> string" where
  "buf_of b i = (case fb_get b i of None \<Rightarrow> [] | Some f \<Rightarrow> part_buf f)"

definition compose_date :: "field_builder \<Rightarrow> string" where
  "compose_date b = (if neg_of b Year then ''-'' else []) @ buf_of b Year @ ''-'' @ pad2 (buf_of b Month) @ ''-'' @ pad2 (buf_of b Day)"

definition compose_frac :: "string \<Rightarrow> string" where
  "compose_frac fr = (if fr \<noteq> [] then ''.'' @ fr else [])"

definition compose_time :: "field_builder \<Rightarrow> string" where
  "compose_time b = pad2 (buf_of b Hour) @ '':'' @ pad2 (buf_of b Minute) @ '':'' @ pad2 (buf_of b Second) @ compose_frac (buf_of b Frac)"

definition compose_off :: "field_builder \<Rightarrow> string" where
  "compose_off b = (if neg_of b OffSign then ''-'' else ''+'') @ pad2 (buf_of b OffHour) @ '':'' @ pad2 (buf_of b OffMin)"

definition compose_sign :: "field_builder \<Rightarrow> string" where
  "compose_sign b = (if neg_of b Sign then ''-'' else [])"

definition compose :: "field_builder \<Rightarrow> string" where
  "compose b = (case fb_ty b of
      TInteger \<Rightarrow> compose_sign b @ buf_of b IntDigits
    | TUnsignedInteger \<Rightarrow> buf_of b IntDigits
    | TDecimal \<Rightarrow> compose_sign b @ buf_of b IntDigits @ compose_frac (buf_of b DecFrac)
    | TString \<Rightarrow> buf_of b Text
    | TDate \<Rightarrow> compose_date b
    | TDateTz \<Rightarrow> compose_date b @ compose_off b
    | TTime \<Rightarrow> compose_time b
    | TDateTime \<Rightarrow> compose_date b @ ''T'' @ compose_time b
    | TDateTimeTz \<Rightarrow> compose_date b @ ''T'' @ compose_time b @ compose_off b)"

section \<open>Keys\<close>

definition describe :: "string option \<Rightarrow> store_error \<Rightarrow> string" where
  "describe last_msc e = (case e of
      Io \<Rightarrow> (case last_msc of Some detail \<Rightarrow> ''I/O error: '' @ detail | None \<Rightarrow> ''I/O error'')
    | Corrupt m \<Rightarrow> ''corrupt store: '' @ m
    | OutOfSpace \<Rightarrow> ''out of space (or transaction too large)''
    | Parse m \<Rightarrow> m
    | NullViolation column \<Rightarrow> [CHR 39] @ column @ [CHR 39] @ '' must not be NULL''
    | UniqueViolation column \<Rightarrow> [CHR 39] @ column @ [CHR 39] @ '' must be unique''
    | ForeignKeyViolation fk \<Rightarrow> ''foreign key '' @ [CHR 39] @ fk @ [CHR 39] @ '': no matching referenced row''
    | SchemaRejected m \<Rightarrow> m
    | NotFound m \<Rightarrow> ''not found: '' @ m
    | Duplicate m \<Rightarrow> ''already exists: '' @ m)"

datatype want = No_want | Want_cancel | Want_now | Want_next | Want_commit

text \<open>A text operation on the part that has the focus.\<close>

definition on_part :: "(part_field \<Rightarrow> part_field option) \<Rightarrow> field_builder \<Rightarrow> (field_builder \<times> want) option" where
  "on_part f b = map_option (\<lambda>p. (b\<lparr>fb_parts := (fb_parts b)[fb_focus b := p]\<rparr>, No_want)) (f (fb_parts b ! fb_focus b))"

definition edit_buf :: "(text_state \<Rightarrow> text_state option) \<Rightarrow> part_field \<Rightarrow> part_field option" where
  "edit_buf g f = map_option (\<lambda>(s, c). f\<lparr>part_buf := s, part_caret := c\<rparr>) (g (part_buf f, part_caret f))"

definition type_char :: "char \<Rightarrow> part_field \<Rightarrow> part_field option" where
  "type_char c f =
    (if is_sign (part_id f) then
       Some (if c = CHR ''+'' then f\<lparr>part_neg := False\<rparr> else if c = CHR ''-'' then f\<lparr>part_neg := True\<rparr> else f)
     else if part_id f = Year \<and> (c = CHR ''-'' \<or> c = CHR ''+'') then Some (f\<lparr>part_neg := (c = CHR ''-'')\<rparr>)
     else if is_text (part_id f) then edit_buf (ce_insert [c]) f
     else if is_ascii_digit c \<and> char_count (part_buf f) < max_digits (part_id f) then edit_buf (ce_insert [c]) f
     else Some f)"

definition arrow :: "(text_state \<Rightarrow> text_state) \<Rightarrow> part_field \<Rightarrow> part_field option" where
  "arrow g f = (if is_sign (part_id f) then Some (f\<lparr>part_neg := \<not> part_neg f\<rparr>) else edit_buf (Some \<circ> g) f)"

definition enter_key :: "field_builder \<Rightarrow> want" where
  "enter_key b =
    (if now_index b = Some (fb_focus b) then Want_now
     else if next_index b = Some (fb_focus b) then Want_next
     else if fb_focus b = cancel_index b then Want_cancel
     else Want_commit)"

definition key_builder :: "key \<Rightarrow> field_builder \<Rightarrow> (field_builder \<times> want) option" where
  "key_builder k b =
    (let nf = length (fb_parts b); n = fb_total b; typed = (\<lambda>f. if fb_focus b < nf then on_part f b else Some (b, No_want)) in
     case k of
       Esc \<Rightarrow> Some (b, Want_cancel)
     | Tab \<Rightarrow> Some (b\<lparr>fb_focus := (fb_focus b + 1) mod n\<rparr>, No_want)
     | Down \<Rightarrow> Some (b\<lparr>fb_focus := (fb_focus b + 1) mod n\<rparr>, No_want)
     | Up \<Rightarrow> Some (b\<lparr>fb_focus := (fb_focus b + n - 1) mod n\<rparr>, No_want)
     | key.Left \<Rightarrow> typed (arrow ce_left)
     | key.Right \<Rightarrow> typed (arrow ce_right)
     | Home \<Rightarrow> typed (\<lambda>f. Some (f\<lparr>part_caret := 0\<rparr>))
     | End \<Rightarrow> typed (\<lambda>f. Some (f\<lparr>part_caret := char_count (part_buf f)\<rparr>))
     | Backspace \<Rightarrow> typed (edit_buf ce_backspace)
     | Delete \<Rightarrow> typed (edit_buf ce_delete)
     | Char c \<Rightarrow>
         if (c = CHR ''n'' \<or> c = CHR ''N'') \<and> has_now b then Some (b, Want_now)
         else if (c = CHR ''n'' \<or> c = CHR ''N'') \<and> has_next b then Some (b, Want_next)
         else typed (type_char c)
     | Enter \<Rightarrow> Some (b, enter_key b)
     | _ \<Rightarrow> Some (b, No_want))"

text \<open>What the key leads to: the builder stays open, is closed, or the text goes to the field of the row editor below it.\<close>

datatype builder_outcome = Stay field_builder | Closed | Wrote nat string

definition commit_builder :: "string option \<Rightarrow> field_builder \<Rightarrow> builder_outcome" where
  "commit_builder last_msc b = (case parse_value (fb_ty b) (compose b) of
      Inr v \<Rightarrow> Wrote (fb_field b) (display v)
    | Inl e \<Rightarrow> Stay (b\<lparr>fb_error := Some (describe last_msc e)\<rparr>))"

definition builder_key :: "string option \<Rightarrow> rtc option \<Rightarrow> key \<Rightarrow> field_builder \<Rightarrow> builder_outcome option" where
  "builder_key last_msc clock k b = map_option (\<lambda>(b', w). case w of
      No_want \<Rightarrow> Stay b'
    | Want_cancel \<Rightarrow> Closed
    | Want_now \<Rightarrow> (let (b'', filled) = fill_now clock b' in Stay (if filled then b''\<lparr>fb_error := None\<rparr> else b''))
    | Want_next \<Rightarrow> (let (b'', filled) = fill_next b' in Stay (if filled then b''\<lparr>fb_error := None\<rparr> else b''))
    | Want_commit \<Rightarrow> commit_builder last_msc b') (key_builder k b)"

section \<open>A value survives the builder\<close>

lemma num2_push2: "v < 100 \<Longrightarrow> num2 v = push2 v"
proof -
  assume v: "v < 100"
  have one: "d < 10 \<Longrightarrow> dec_of_nat d = [char_of_digit d]" for d
    by (simp add: dec_of_nat.simps[of d] char_of_digit_def)
  show ?thesis
  proof (cases "v < 10")
    case True
    moreover have "char_of_digit 0 = CHR ''0''" unfolding char_of_digit_def add_0_right by (rule char_of_char)
    ultimately show ?thesis using one by (simp add: num2_def push2_def)
  next
    case False
    then have "dec_of_nat v = dec_of_nat (v div 10) @ [char_of_digit (v mod 10)]"
      by (subst dec_of_nat.simps) (simp add: char_of_digit_def)
    then show ?thesis using v False one[of "v div 10"] by (simp add: num2_def push2_def)
  qed
qed

lemma pad2_push2 [simp]: "pad2 (push2 v) = push2 v"
  by (simp add: pad2_def)

lemma split_number_signed:
  assumes "list_all is_ascii_digit u" "u \<noteq> []"
  shows "split_number ((if neg then ''-'' else []) @ u @ (if fs \<noteq> [] then CHR ''.'' # fs else [])) = (neg, u, fs)"
proof -
  have dot: "CHR ''.'' \<notin> set u" by (rule ascii_digit_notin[OF assms(1)]) (simp add: is_ascii_digit_def)
  obtain c cs where u: "u = c # cs" using assms(2) by (cases u) auto
  then have "c \<noteq> CHR ''-''" "c \<noteq> CHR ''+''" using assms(1) by (auto simp: is_ascii_digit_def)
  then show ?thesis using dot split_once_app[OF dot] split_once_None[OF dot] unfolding u
    by (cases neg; cases "fs = []") (simp_all add: split_number_def)
qed

lemmas builder_simps = fb_new_def empty_part_def fb_set_def fb_get_def neg_of_def buf_of_def

lemma compose_number:
  "compose (set_number (display (VInteger i)) (fb_new fi col TInteger)) = display (VInteger i)" if "canon_int i" for i
proof -
  have u: "list_all is_ascii_digit (uint_to_dec_string (mag i))" using that by (intro uint_string_digits) (simp add: canon_int_def)
  show ?thesis using split_number_signed[OF u uint_string_nonempty, of "negative i" "[]"]
    by (simp add: builder_simps compose_def compose_sign_def set_number_def int_to_dec_string_def)
qed

lemma compose_unsigned:
  assumes "canon_uint u"
  shows "compose (set_number (display (VUnsigned u)) (fb_new fi col TUnsignedInteger)) = display (VUnsigned u)"
  using split_number_signed[OF uint_string_digits[OF assms] uint_string_nonempty, of False "[]"]
  by (simp add: builder_simps compose_def set_number_def)

lemma compose_decimal:
  assumes "wf_decimal d"
  shows "compose (set_number (display (VDecimal d)) (fb_new fi col TDecimal)) = display (VDecimal d)"
proof -
  have "list_all is_ascii_digit (uint_to_dec_string (dec_int d))" using assms by (intro uint_string_digits) (simp add: wf_decimal_def)
  from split_number_signed[OF this uint_string_nonempty, of "dec_neg d" "map char_of_digit (dec_frac d)"]
  show ?thesis
    by (simp add: builder_simps compose_def compose_sign_def set_number_def display_decimal_def display_frac_def compose_frac_def)
qed

text \<open>The text of a date in the builder has no leading zeros in the year.\<close>

definition date_text :: "date \<Rightarrow> string" where
  "date_text d = (if negative (Value.year d) then ''-'' else []) @ uint_to_dec_string (mag (Value.year d)) @ CHR ''-'' # push2 (Value.month d) @ CHR ''-'' # push2 (Value.day d)"

lemma wf_date_small: "wf_date d \<Longrightarrow> Value.month d < 100 \<and> Value.day d < 100"
  using days_in_month_less[of "Value.year d" "Value.month d"] by (simp add: wf_date_def)

lemma parse_date_text': "wf_date d \<Longrightarrow> parse_date (date_text d) = Some d"
  unfolding date_text_def
  by (rule parse_date_text) (auto simp: wf_date_def canon_int_def intro: uint_string_digits parse_print_uint)

lemma date_text_notin:
  assumes "wf_date d" "\<not> is_ascii_digit c" "c \<noteq> CHR ''-''"
  shows "c \<notin> set (date_text d)"
proof -
  have "list_all is_ascii_digit (uint_to_dec_string (mag (Value.year d)))" using assms(1) by (intro uint_string_digits) (simp add: wf_date_def canon_int_def)
  then show ?thesis using assms wf_date_small[OF assms(1)] ascii_digit_notin[OF _ assms(2)] by (simp add: date_text_def)
qed

lemma wf_time_small: "wf_time t \<Longrightarrow> secs t div 3600 < 24 \<and> secs t mod 3600 div 60 < 60 \<and> secs t mod 60 < 60"
  by (auto simp: wf_time_def)

lemma wf_offset_small: "wf_offset off \<Longrightarrow> nat \<bar>off\<bar> div 60 < 24 \<and> nat \<bar>off\<bar> mod 60 < 60"
  by (auto simp: wf_offset_def)

lemma display_offset_parts: "wf_offset off \<Longrightarrow> display_offset off =
    (if off < 0 then ''-'' else ''+'') @ push2 (nat \<bar>off\<bar> div 60) @ '':'' @ push2 (nat \<bar>off\<bar> mod 60)"
  by (auto simp: display_offset_def wf_offset_def)

lemmas compose_parts = compose_def compose_date_def compose_time_def compose_off_def compose_frac_def set_date_def set_time_def set_off_def
  date_parts_def time_parts_def off_parts_def

lemma compose_loaded:
  assumes "wf_value v"
  shows "compose (load_from v (fb_new fi col (type_of v))) = (case v of
      VDate d \<Rightarrow> date_text d | VDateTz d off \<Rightarrow> date_text d @ display_offset off
    | VDateTime d t \<Rightarrow> date_text d @ CHR ''T'' # display_time t
    | VDateTimeTz d t off \<Rightarrow> (date_text d @ CHR ''T'' # display_time t) @ display_offset off
    | _ \<Rightarrow> display v)"
proof (cases v)
  case (VDate d)
  then show ?thesis using assms wf_date_small[of d] by (simp add: builder_simps compose_parts num2_push2 date_text_def)
next
  case (VDateTz d off)
  then show ?thesis using assms wf_date_small[of d] wf_offset_small[of off] display_offset_parts[of off]
    by (simp add: builder_simps compose_parts num2_push2 date_text_def Let_def)
next
  case (VTime t)
  then show ?thesis using assms wf_time_small[of t]
    by (simp add: builder_simps compose_parts num2_push2 display_time_def display_frac_def)
next
  case (VDateTime d t)
  then show ?thesis using assms wf_date_small[of d] wf_time_small[of t]
    by (simp add: builder_simps compose_parts num2_push2 date_text_def display_time_def display_frac_def)
next
  case (VDateTimeTz d t off)
  then show ?thesis using assms wf_date_small[of d] wf_time_small[of t] wf_offset_small[of off] display_offset_parts[of off]
    by (simp add: builder_simps compose_parts num2_push2 date_text_def display_time_def display_frac_def Let_def)
qed (use assms in \<open>simp_all add: compose_number compose_unsigned compose_decimal del: display.simps\<close>,
     simp_all add: builder_simps compose_parts)

text \<open>C39 Opening the value builder on a value and accepting it at once writes the value back: for every well-formed value of every type, the
  parts it is split into compose to a text that is parsed to the same value, whose canonical text goes to the field.\<close>

theorem builder_roundtrip:
  assumes "wf_value v"
  shows "commit_builder last_msc (load_from v (fb_new fi col (type_of v))) = Wrote fi (display v)"
proof -
  have ty: "fb_ty (load_from v (fb_new fi col ty)) = ty" "fb_field (load_from v (fb_new fi col ty)) = fi" for ty
    by (cases v; simp add: set_date_def set_time_def set_off_def set_number_def fb_set_def fb_new_def Let_def split: prod.split)+
  have dt: "split_dt (date_text d @ CHR ''T'' # s) = Some (date_text d, s)" if "wf_date d" for d s
    using date_text_notin[OF that, of "CHR ''T''"] by (simp add: split_dt_def is_ascii_digit_def)
  have "parse_value (type_of v) (compose (load_from v (fb_new fi col (type_of v)))) = Inr v"
    unfolding compose_loaded[OF assms]
  proof (cases v)
    case (VDateTimeTz d t off)
    then show "parse_value (type_of v) (case v of
        VDate d \<Rightarrow> date_text d | VDateTz d off \<Rightarrow> date_text d @ display_offset off
      | VDateTime d t \<Rightarrow> date_text d @ CHR ''T'' # display_time t
      | VDateTimeTz d t off \<Rightarrow> (date_text d @ CHR ''T'' # display_time t) @ display_offset off
      | _ \<Rightarrow> display v) = Inr v"
      using assms split_tz_app[of off "date_text d @ CHR ''T'' # display_time t"] by (simp add: parse_date_text' parse_print_time dt)
  qed (use assms parse_display_value[OF assms] in \<open>simp_all add: parse_date_text' parse_print_time split_tz_app dt\<close>)
  then show ?thesis by (simp add: commit_builder_def ty)
qed

section \<open>The keys keep the builder well-formed\<close>

definition good_buf :: "part_id \<Rightarrow> string \<Rightarrow> bool" where
  "good_buf i s \<longleftrightarrow> utf8_ok (map of_char s) \<and> (is_sign i \<longrightarrow> s = []) \<and>
     (\<not> is_text i \<longrightarrow> list_all is_ascii_digit s \<and> (max_digits i = 2 \<longrightarrow> length s \<le> 2))"

definition part_ok :: "part_field \<Rightarrow> bool" where
  "part_ok f \<longleftrightarrow> good_buf (part_id f) (part_buf f) \<and> part_caret f \<le> char_count (part_buf f)"

text \<open>The key that \<open>[n]\<close> offers is the text of an integer.\<close>

definition next_ok :: "type \<Rightarrow> string option \<Rightarrow> bool" where
  "next_ok ty n \<longleftrightarrow> (\<forall>t. n = Some t \<longrightarrow> (\<exists>v. wf_value v \<and> type_of v = ty \<and> ty \<in> {TInteger, TUnsignedInteger} \<and> t = display v))"

definition fb_ok :: "field_builder \<Rightarrow> bool" where
  "fb_ok b \<longleftrightarrow> map part_id (fb_parts b) = map fst (layout (fb_ty b)) \<and> list_all part_ok (fb_parts b) \<and> fb_focus b < fb_total b \<and>
     next_ok (fb_ty b) (fb_next b)"

lemma ascii_digit_char: "is_ascii_digit c \<Longrightarrow> (of_char c :: nat) < 128"
  by (simp add: is_ascii_digit_def)

lemma utf8_digits: "list_all is_ascii_digit s \<Longrightarrow> utf8_ok (map of_char s)"
  by (auto intro!: utf8_ascii dest: ascii_digit_char simp: list_all_iff)

lemma chars_of_ascii: "\<forall>c \<in> set s. (of_char c :: nat) < 128 \<Longrightarrow> chars_of s = map (\<lambda>c. [c]) s"
proof -
  assume "\<forall>c \<in> set s. (of_char c :: nat) < 128"
  then have "list_all is_char (map (\<lambda>c. [c]) s)" by (auto simp: list_all_iff is_char_def is_cont_def)
  from chars_of_concat[OF this] show ?thesis by simp
qed

lemma char_count_digits: "list_all is_ascii_digit s \<Longrightarrow> char_count s = length s"
  by (subst char_count_def, subst chars_of_ascii) (auto simp: list_all_iff dest: ascii_digit_char)

text \<open>An edit other than an insertion takes characters away or none.\<close>

lemma edit_line_sub:
  assumes "edit_line e (l, r) = (l', r')" "\<And>c. e \<noteq> Ins c"
  shows "set (l' @ r') \<subseteq> set (l @ r) \<and> length (l' @ r') \<le> length (l @ r)"
  using assms by (cases e; cases "l = []"; cases r) (auto dest: in_set_butlastD split: if_splits list.splits)

lemma text_step_sub:
  assumes "valid_text st" "\<And>c. e \<noteq> Ins c"
  shows "\<exists>s' i'. text_step e st = Some (s', i') \<and> valid_text (s', i') \<and> set (chars_of s') \<subseteq> set (chars_of (fst st)) \<and>
    char_count s' \<le> char_count (fst st)"
proof -
  obtain s i where st: "st = (s, i)" by (cases st)
  obtain s' i' where r: "text_step e st = Some (s', i')" "valid_text (s', i')" "text_view (s', i') = edit_line e (text_view st)"
    using text_step_edits[OF assms(1), of e] assms(2) by auto
  have "edit_line e (take i (chars_of s), drop i (chars_of s)) = (take i' (chars_of s'), drop i' (chars_of s'))" using r(3) st by simp
  from edit_line_sub[OF this assms(2)] show ?thesis using r(1,2) st by (simp add: char_count_def)
qed

lemma good_buf_sub:
  assumes "good_buf i s" "utf8_ok (map of_char s')" "set (chars_of s') \<subseteq> set (chars_of s)" "char_count s' \<le> char_count s"
  shows "good_buf i s'"
proof -
  have sub: "set s' \<subseteq> set s" using assms(3) concat_chars_of[of s] concat_chars_of[of s'] by (metis (no_types, lifting) set_concat Union_mono image_mono)
  have "s' = []" if "s = []" using sub that by simp
  moreover have "list_all is_ascii_digit s'" if "list_all is_ascii_digit s" using sub that by (auto simp: list_all_iff)
  ultimately show ?thesis using assms char_count_digits[of s] char_count_digits[of s'] by (auto simp: good_buf_def)
qed

lemma edit_buf_ok:
  assumes "part_ok f" "\<And>c. e \<noteq> Ins c"
  shows "\<exists>f'. edit_buf (text_step e) f = Some f' \<and> part_ok f' \<and> part_id f' = part_id f"
proof -
  have "valid_text (part_buf f, part_caret f)" using assms(1) by (simp add: part_ok_def good_buf_def)
  from text_step_sub[OF this assms(2)] obtain s' i' where r: "text_step e (part_buf f, part_caret f) = Some (s', i')" "valid_text (s', i')"
    "set (chars_of s') \<subseteq> set (chars_of (part_buf f))" "char_count s' \<le> char_count (part_buf f)" by auto
  then have "good_buf (part_id f) s'" using assms(1) good_buf_sub[of "part_id f" "part_buf f" s'] by (simp add: part_ok_def)
  then show ?thesis using r by (simp add: edit_buf_def part_ok_def)
qed

lemma insert_ok:
  assumes "part_ok f" "(of_char c :: nat) < 128" "\<not> is_sign (part_id f)"
    "\<not> is_text (part_id f) \<Longrightarrow> is_ascii_digit c \<and> char_count (part_buf f) < max_digits (part_id f)"
  shows "\<exists>f'. edit_buf (ce_insert [c]) f = Some f' \<and> part_ok f' \<and> part_id f' = part_id f"
proof -
  let ?s = "part_buf f" and ?i = "part_caret f"
  have v: "valid_text (?s, ?i)" using assms(1) by (simp add: part_ok_def good_buf_def)
  obtain s' i' where r: "ce_insert [c] (?s, ?i) = Some (s', i')" "valid_text (s', i')"
    "text_view (s', i') = edit_line (Ins [c]) (text_view (?s, ?i))"
    using text_step_edits[OF v, of "Ins [c]"] ascii_utf8_char[OF assms(2)] by auto
  then have "take i' (chars_of s') @ drop i' (chars_of s') = (take ?i (chars_of ?s) @ [[c]]) @ drop ?i (chars_of ?s)"
    by (metis edit_line.simps(1) fst_conv snd_conv text_view.simps)
  then have cs: "chars_of s' = take ?i (chars_of ?s) @ [c] # drop ?i (chars_of ?s)" by simp
  have set: "set s' = insert c (set ?s)"
  proof -
    have "set (concat (xs @ y # ys)) = set y \<union> set (concat (xs @ ys))" for xs y and ys :: "string list" by auto
    from this[of "take ?i (chars_of ?s)" "[c]" "drop ?i (chars_of ?s)", folded cs]
    show ?thesis by (simp only: append_take_drop_id concat_chars_of) simp
  qed
  have count: "char_count s' = Suc (char_count ?s)" using v by (simp add: char_count_def cs)
  have "list_all is_ascii_digit s' \<and> (max_digits (part_id f) = 2 \<longrightarrow> length s' \<le> 2)" if "\<not> is_text (part_id f)"
  proof -
    have d: "list_all is_ascii_digit s'" using set assms(1,4) that by (auto simp: list_all_iff part_ok_def good_buf_def)
    then show ?thesis using count char_count_digits[OF d] assms(4)[OF that] by auto
  qed
  then have "good_buf (part_id f) s'" using r(2) assms(3) by (simp add: good_buf_def)
  then show ?thesis using r by (simp add: edit_buf_def part_ok_def)
qed

lemma part_fields_ok: "part_ok (f\<lparr>part_neg := n\<rparr>) \<longleftrightarrow> part_ok f" "part_ok f \<Longrightarrow> part_ok (f\<lparr>part_caret := 0\<rparr>)"
  "part_ok f \<Longrightarrow> part_ok (f\<lparr>part_caret := char_count (part_buf f)\<rparr>)"
  by (simp_all add: part_ok_def)

lemma type_char_ok:
  assumes "part_ok f" "(of_char c :: nat) < 128"
  shows "\<exists>f'. type_char c f = Some f' \<and> part_ok f' \<and> part_id f' = part_id f"
  using assms insert_ok[OF assms] by (auto simp: type_char_def part_fields_ok)

lemma arrow_ok:
  assumes "part_ok f"
  shows "\<exists>f'. arrow ce_left f = Some f' \<and> part_ok f' \<and> part_id f' = part_id f"
    "\<exists>f'. arrow ce_right f = Some f' \<and> part_ok f' \<and> part_id f' = part_id f"
proof -
  have "Some \<circ> ce_left = text_step Go_left" "Some \<circ> ce_right = text_step Go_right" by (simp_all add: fun_eq_iff)
  then show "\<exists>f'. arrow ce_left f = Some f' \<and> part_ok f' \<and> part_id f' = part_id f"
    "\<exists>f'. arrow ce_right f = Some f' \<and> part_ok f' \<and> part_id f' = part_id f"
    using edit_buf_ok[OF assms, of Go_left] edit_buf_ok[OF assms, of Go_right] assms by (auto simp: arrow_def part_fields_ok)
qed

lemma erase_ok:
  assumes "part_ok f"
  shows "\<exists>f'. edit_buf ce_backspace f = Some f' \<and> part_ok f' \<and> part_id f' = part_id f"
    "\<exists>f'. edit_buf ce_delete f = Some f' \<and> part_ok f' \<and> part_id f' = part_id f"
proof -
  have "ce_backspace = text_step Del_left" "ce_delete = text_step Del_right" by (simp_all add: fun_eq_iff)
  then show "\<exists>f'. edit_buf ce_backspace f = Some f' \<and> part_ok f' \<and> part_id f' = part_id f"
    "\<exists>f'. edit_buf ce_delete f = Some f' \<and> part_ok f' \<and> part_id f' = part_id f"
    using edit_buf_ok[OF assms, of Del_left] edit_buf_ok[OF assms, of Del_right] by auto
qed

text \<open>Everything but the parts, the focus and the message is kept; the parts change inside.\<close>

definition same_form :: "field_builder \<Rightarrow> field_builder \<Rightarrow> bool" where
  "same_form b b' \<longleftrightarrow> fb_ok b' \<and> fb_ty b' = fb_ty b \<and> fb_field b' = fb_field b"

lemma fb_total_cong: "length (fb_parts b') = length (fb_parts b) \<Longrightarrow> fb_ty b' = fb_ty b \<Longrightarrow> fb_next b' = fb_next b \<Longrightarrow> fb_total b' = fb_total b"
  by (simp add: fb_total_def cancel_index_def ok_index_def has_now_def has_next_def)

lemma on_part_ok:
  assumes "fb_ok b" "fb_focus b < length (fb_parts b)" "\<And>f. part_ok f \<Longrightarrow> \<exists>f'. g f = Some f' \<and> part_ok f' \<and> part_id f' = part_id f"
  shows "\<exists>b'. on_part g b = Some (b', No_want) \<and> same_form b b'"
proof -
  let ?f = "fb_parts b ! fb_focus b"
  have "part_ok ?f" using assms(1,2) by (simp add: fb_ok_def list_all_length)
  then obtain f' where f': "g ?f = Some f'" "part_ok f'" "part_id f' = part_id ?f" using assms(3) by blast
  let ?b = "b\<lparr>fb_parts := (fb_parts b)[fb_focus b := f']\<rparr>"
  have "map part_id (fb_parts ?b) = map part_id (fb_parts b)"
    using assms(2) f'(3) by (simp add: map_update list_update_same_conv)
  moreover have "list_all part_ok (fb_parts ?b)" using assms(1) f'(2) by (auto simp: fb_ok_def list_all_iff dest: set_update_subset_insert[THEN subsetD])
  moreover have "fb_total ?b = fb_total b" by (rule fb_total_cong) simp_all
  ultimately have "same_form b ?b" using assms(1) by (simp add: same_form_def fb_ok_def)
  then show ?thesis using f'(1) by (simp add: on_part_def)
qed

lemma same_form_focus: "fb_ok b \<Longrightarrow> same_form b (b\<lparr>fb_focus := n mod fb_total b\<rparr>)"
proof -
  have "fb_total (b\<lparr>fb_focus := n mod fb_total b\<rparr>) = fb_total b" by (rule fb_total_cong) simp_all
  moreover have "0 < fb_total b" by (simp add: fb_total_def)
  ultimately show "fb_ok b \<Longrightarrow> ?thesis" by (simp add: same_form_def fb_ok_def)
qed

lemma same_form_refl: "fb_ok b \<Longrightarrow> same_form b b"
  by (simp add: same_form_def)

lemma key_builder_ok:
  assumes b: "fb_ok b" and k: "ascii_key k"
  shows "\<exists>b' w. key_builder k b = Some (b', w) \<and> same_form b b'"
proof -
  have typed: "\<exists>b' w. (if fb_focus b < length (fb_parts b) then on_part g b else Some (b, No_want)) = Some (b', w) \<and> same_form b b'"
    if "\<And>f. part_ok f \<Longrightarrow> \<exists>f'. g f = Some f' \<and> part_ok f' \<and> part_id f' = part_id f" for g
    using on_part_ok[OF b _ that] same_form_refl[OF b] by (cases "fb_focus b < length (fb_parts b)") auto
  show ?thesis
  proof (cases k)
    case (Char c)
    then have c: "(of_char c :: nat) < 128" using k by simp
    show ?thesis
      using typed[OF type_char_ok[OF _ c]] same_form_refl[OF b] unfolding Char key_builder_def Let_def key.case
      by (cases "(c = CHR ''n'' \<or> c = CHR ''N'') \<and> has_now b"; cases "(c = CHR ''n'' \<or> c = CHR ''N'') \<and> has_next b") (simp_all only: if_True if_False, auto)
  next
    case Left
    show ?thesis unfolding Left key_builder_def Let_def key.case by (rule typed) (rule arrow_ok)
  next
    case Right
    show ?thesis unfolding Right key_builder_def Let_def key.case by (rule typed) (rule arrow_ok)
  next
    case Home
    show ?thesis unfolding Home key_builder_def Let_def key.case by (rule typed) (simp add: part_fields_ok)
  next
    case End
    show ?thesis unfolding End key_builder_def Let_def key.case by (rule typed) (simp add: part_fields_ok)
  next
    case Backspace
    show ?thesis unfolding Backspace key_builder_def Let_def key.case by (rule typed) (rule erase_ok)
  next
    case Delete
    show ?thesis unfolding Delete key_builder_def Let_def key.case by (rule typed) (rule erase_ok)
  qed (use b in \<open>simp_all add: key_builder_def Let_def same_form_refl same_form_focus\<close>)
qed

section \<open>Filling in\<close>

lemma set_part_ok:
  assumes "good_buf i s" "list_all part_ok fs"
  shows "list_all part_ok (set_part i s neg fs) \<and> map part_id (set_part i s neg fs) = map part_id fs"
  using assms by (induction fs) (auto simp: part_ok_def)

lemma same_form_set: "same_form b b' \<Longrightarrow> good_buf i s \<Longrightarrow> same_form b (fb_set i s neg b')"
proof -
  assume a: "same_form b b'" "good_buf i s"
  have p: "list_all part_ok (set_part i s neg (fb_parts b')) \<and> map part_id (set_part i s neg (fb_parts b')) = map part_id (fb_parts b')"
    using a by (intro set_part_ok) (simp_all add: same_form_def fb_ok_def)
  then have "length (set_part i s neg (fb_parts b')) = length (fb_parts b')" by (metis length_map)
  then have "fb_total (fb_set i s neg b') = fb_total b'" by (intro fb_total_cong) (simp_all add: fb_set_def)
  with a p show ?thesis by (auto simp: same_form_def fb_ok_def fb_set_def)
qed

lemma good_nil: "good_buf i []"
  by (simp add: good_buf_def)

lemma good_digits: "list_all is_ascii_digit s \<Longrightarrow> \<not> is_sign i \<Longrightarrow> (max_digits i = 2 \<Longrightarrow> length s \<le> 2) \<Longrightarrow> good_buf i s"
  by (simp add: good_buf_def utf8_digits)

lemma good_num2: "v < 100 \<Longrightarrow> \<not> is_sign i \<Longrightarrow> good_buf i (num2 v)"
  by (rule good_digits) (simp_all add: num2_push2)

lemma dec_of_nat_digits: "list_all is_ascii_digit (dec_of_nat n)"
proof (induction n rule: dec_of_nat.induct)
  case (1 n)
  have d: "is_ascii_digit (char_of (48 + d))" if "d < 10" for d :: nat
    using that by (simp add: is_ascii_digit_def)
  show ?case using 1 d[of n] d[of "n mod 10"] by (subst dec_of_nat.simps) simp
qed

lemma good_int: "list_all is_ascii_digit s \<Longrightarrow> good_buf IntDigits s" "list_all is_ascii_digit s \<Longrightarrow> good_buf DecFrac s"
    "list_all is_ascii_digit s \<Longrightarrow> good_buf Frac s" "list_all is_ascii_digit s \<Longrightarrow> good_buf Year s"
  by (auto intro!: good_digits simp: is_sign_def max_digits_def)

lemma fill_now_ok:
  assumes "fb_ok b" "\<And>t. clock = Some t \<Longrightarrow> civil t"
  shows "same_form b (fst (fill_now clock b))"
proof (cases clock)
  case None
  then show ?thesis using assms(1) by (simp add: fill_now_def same_form_refl)
next
  case (Some t)
  have c: "unat (rtc.second t) < 100" "unat (rtc.minute t) < 100" "unat (rtc.hour t) < 100" "unat (rtc.day t) < 100" "unat (rtc.month t) < 100"
    using assms(2)[OF Some] by (auto simp: civil_def word_less_nat_alt word_le_nat_alt)
  show ?thesis unfolding fill_now_def Some option.case fst_conv
    by (intro same_form_set same_form_refl assms(1) good_num2 good_nil good_int dec_of_nat_digits c) (simp_all add: is_sign_def)
qed

lemma display_int_digits:
  assumes "wf_value v" "type_of v \<in> {TInteger, TUnsignedInteger}"
  obtains neg u where "split_number (display v) = (neg, u, [])" "list_all is_ascii_digit u"
proof (cases v)
  case (VInteger i)
  have u: "list_all is_ascii_digit (uint_to_dec_string (mag i))" using assms VInteger by (intro uint_string_digits) (simp add: canon_int_def)
  then show ?thesis using that split_number_signed[OF u uint_string_nonempty, of "negative i" "[]"]
    by (simp add: VInteger int_to_dec_string_def)
next
  case (VUnsigned n)
  have u: "list_all is_ascii_digit (uint_to_dec_string n)" using assms VUnsigned by (intro uint_string_digits) simp
  show ?thesis
    by (rule that[of False "uint_to_dec_string n"])
      (use u split_number_signed[OF u uint_string_nonempty, of False "[]"] in \<open>simp_all add: VUnsigned\<close>)
qed (use assms in simp_all)

lemma fill_next_ok:
  assumes "fb_ok b"
  shows "same_form b (fst (fill_next b))"
proof (cases "fb_next b")
  case None
  then show ?thesis using assms by (simp add: fill_next_def same_form_refl)
next
  case (Some t)
  then obtain v where "wf_value v" "type_of v \<in> {TInteger, TUnsignedInteger}" "t = display v" using assms by (auto simp: fb_ok_def next_ok_def)
  then obtain neg u where "split_number t = (neg, u, [])" "list_all is_ascii_digit u" using display_int_digits by metis
  then show ?thesis unfolding fill_next_def Some by (simp add: same_form_set same_form_refl[OF assms] good_nil good_int)
qed

lemma same_form_error: "same_form b b' \<Longrightarrow> same_form b (b'\<lparr>fb_error := e\<rparr>)"
proof -
  have "fb_total (b'\<lparr>fb_error := e\<rparr>) = fb_total b'" by (rule fb_total_cong) simp_all
  then show "same_form b b' \<Longrightarrow> ?thesis" by (auto simp: same_form_def fb_ok_def)
qed

lemma fb_new_ok: "fb_ok (fb_new fi col ty)"
proof -
  have "part_ok (empty_part p)" for p by (simp add: part_ok_def empty_part_def good_nil split: prod.split)
  then show ?thesis
    by (simp add: fb_ok_def next_ok_def fb_new_def empty_part_def fb_total_def cancel_index_def o_def split_beta list_all_iff)
qed

text \<open>What the row editor opens: a fresh builder, loaded from the text of the field if that parses, with a key to offer or none.\<close>

lemma load_from_ok:
  assumes "wf_value v" "type_of v \<noteq> TString"
  shows "same_form b b' \<Longrightarrow> same_form b (load_from v b')"
proof -
  assume s: "same_form b b'"
  have date: "same_form b (set_date d b')" if "wf_date d" "same_form b b'" for d b'
  proof -
    have "list_all is_ascii_digit (uint_to_dec_string (mag (Value.year d)))" using that(1) by (intro uint_string_digits) (simp add: wf_date_def canon_int_def)
    then show ?thesis using wf_date_small[OF that(1)] unfolding set_date_def
      by (intro same_form_set that(2) good_num2 good_int) (simp_all add: is_sign_def)
  qed
  have time: "same_form b (set_time t b')" if "wf_time t" "same_form b b'" for t b'
  proof -
    have "list_all is_ascii_digit (map char_of_digit (time_frac t))" using that(1) by (auto simp: wf_time_def wf_frac_def list_all_iff)
    then show ?thesis using wf_time_small[OF that(1)] unfolding set_time_def
      by (intro same_form_set that(2) good_num2 good_int) (simp_all add: is_sign_def)
  qed
  have off: "same_form b (set_off z b')" if "wf_offset z" "same_form b b'" for z b'
    using wf_offset_small[OF that(1)] unfolding set_off_def Let_def
    by (intro same_form_set that(2) good_num2 good_nil) (simp_all add: is_sign_def)
  have number: "same_form b (set_number w b')" if "split_number w = (neg, u, fs)" "list_all is_ascii_digit u" "list_all is_ascii_digit fs" for w neg u fs
    unfolding set_number_def that(1) prod.case by (intro same_form_set s good_int good_nil that)
  show ?thesis
  proof (cases v)
    case (VInteger i)
    have t: "type_of v \<in> {TInteger, TUnsignedInteger}" by (simp add: VInteger)
    obtain neg u where "split_number (display v) = (neg, u, [])" "list_all is_ascii_digit u" using display_int_digits[OF assms(1) t] .
    then show ?thesis using number[of "display v" neg u "[]"] by (simp add: VInteger)
  next
    case (VUnsigned n)
    have t: "type_of v \<in> {TInteger, TUnsignedInteger}" by (simp add: VUnsigned)
    obtain neg u where "split_number (display v) = (neg, u, [])" "list_all is_ascii_digit u" using display_int_digits[OF assms(1) t] .
    then show ?thesis using number[of "display v" neg u "[]"] by (simp add: VUnsigned)
  next
    case (VDecimal d)
    have u: "list_all is_ascii_digit (uint_to_dec_string (dec_int d))" using assms(1) VDecimal by (intro uint_string_digits) (simp add: wf_decimal_def)
    have "list_all is_ascii_digit (map char_of_digit (dec_frac d))" using assms(1) VDecimal by (auto simp: wf_decimal_def wf_frac_def list_all_iff)
    moreover have "split_number (display v) = (dec_neg d, uint_to_dec_string (dec_int d), map char_of_digit (dec_frac d))"
      using split_number_signed[OF u uint_string_nonempty, of "dec_neg d" "map char_of_digit (dec_frac d)"]
      by (simp add: VDecimal display_decimal_def display_frac_def)
    ultimately show ?thesis using number u by (simp add: VDecimal)
  qed (use assms s in \<open>auto intro!: date time off\<close>)
qed

text \<open>C40 The value builder never panics and never writes anything but a value of its column: from a well-formed builder, whatever key is
  pressed, it stays open well-formed (its parts those of the type, digits in the numeric ones, two at most in the clock ones, the
  caret inside the text, the focus on a part or a button), is closed, or writes to its own field the canonical text of a
  well-formed value of the column's type. A fresh builder, or one loaded from a value, is well-formed.\<close>

theorem builder_keys:
  assumes "fb_ok b" "ascii_key k" "\<forall>t. clock = Some t \<longrightarrow> civil t"
  shows "(case builder_key last_msc clock k b of
      None \<Rightarrow> False
    | Some (Stay b') \<Rightarrow> fb_ok b' \<and> fb_ty b' = fb_ty b \<and> fb_field b' = fb_field b
    | Some Closed \<Rightarrow> True
    | Some (Wrote fi t) \<Rightarrow> fi = fb_field b \<and> (\<exists>v. wf_value v \<and> type_of v = fb_ty b \<and> t = display v)) \<and>
    fb_ok (fb_new fi col ty) \<and> (\<forall>v. wf_value v \<and> type_of v \<noteq> TString \<longrightarrow> fb_ok (load_from v (fb_new fi col (type_of v))))"
proof -
  obtain b' w where b': "key_builder k b = Some (b', w)" "same_form b b'" using key_builder_ok[OF assms(1,2)] by blast
  have ok: "fb_ok b'" "fb_ty b' = fb_ty b" "fb_field b' = fb_field b" using b'(2) by (simp_all add: same_form_def)
  have commit: "case commit_builder last_msc b' of Stay b'' \<Rightarrow> same_form b b'' | Closed \<Rightarrow> True
      | Wrote fi t \<Rightarrow> fi = fb_field b \<and> (\<exists>v. wf_value v \<and> type_of v = fb_ty b \<and> t = display v)"
    using ok same_form_error[OF b'(2)] parse_value_wf[of "fb_ty b'" "compose b'"]
    by (cases "parse_value (fb_ty b') (compose b')") (auto simp: commit_builder_def)
  have trans: "same_form b' x \<Longrightarrow> same_form b x" for x using b'(2) by (simp add: same_form_def)
  have "same_form b (fst (fill_now clock b'))" "same_form b (fst (fill_next b'))"
    using fill_now_ok[OF ok(1), of clock] fill_next_ok[OF ok(1)] assms(3) trans by blast+
  then have fill: "\<And>b'' x. fill_now clock b' = (b'', x) \<Longrightarrow> same_form b b''" "\<And>b'' x. fill_next b' = (b'', x) \<Longrightarrow> same_form b b''" by simp_all
  have loaded: "\<forall>v. wf_value v \<and> type_of v \<noteq> TString \<longrightarrow> fb_ok (load_from v (fb_new fi col (type_of v)))"
    using load_from_ok[OF _ _ same_form_refl[OF fb_new_ok]] by (auto simp: same_form_def)
  have "case builder_key last_msc clock k b of None \<Rightarrow> False | Some (Stay b') \<Rightarrow> same_form b b' | Some Closed \<Rightarrow> True
    | Some (Wrote fi t) \<Rightarrow> fi = fb_field b \<and> (\<exists>v. wf_value v \<and> type_of v = fb_ty b \<and> t = display v)"
    using b' commit fill by (cases w) (auto simp: builder_key_def same_form_error split: prod.split)
  then show ?thesis using loaded fb_new_ok
    by (auto simp: same_form_def split: option.splits builder_outcome.splits)
qed

theorem builder_keys_witness:
  "\<exists>b'. builder_key None None (Char (CHR ''7'')) (fb_new 0 ''n'' TUnsignedInteger) = Some (Stay b') \<and> fb_ok b'"
proof -
  have a: "ascii_key (Char (CHR ''7''))" "\<forall>t. (None :: rtc option) = Some t \<longrightarrow> civil t" by simp_all
  have "\<exists>b'. builder_key None None (Char (CHR ''7'')) (fb_new 0 ''n'' TUnsignedInteger) = Some (Stay b')"
    by (simp add: builder_key_def key_builder_def fb_new_def empty_part_def has_now_def has_next_def is_datetime_def on_part_def type_char_def
        is_sign_def is_text_def is_ascii_digit_def char_count_def max_digits_def edit_buf_def ce_insert_def str_insert_def boundary_def
        byte_of_def char_starts_def Let_def)
  then show ?thesis using builder_keys[OF fb_new_ok[of 0 "''n''" TUnsignedInteger] a, where last_msc = None and fi = 0 and col = "''n''" and ty = TUnsignedInteger] by auto
qed

theorem builder_roundtrip_witness:
  "commit_builder None (load_from (VDate (Date (BigInt True (BigUint [4, 4])) 3 15)) (fb_new 2 ''born'' TDate)) =
    Wrote 2 (display (VDate (Date (BigInt True (BigUint [4, 4])) 3 15)))"
proof -
  have "wf_value (VDate (Date (BigInt True (BigUint [4, 4])) 3 15))" by (simp add: wf_date_def canon_int_def canon_digits_def days_in_month_def)
  from builder_roundtrip[OF this, of None 2 "''born''"] show ?thesis by simp
qed

end
