(* ===== verification/Table_View.thy ===== *)
theory Table_View
  imports Store_Refine Field_Builder
begin

text \<open>
  The rows of a table as the user interface shows and edits them, \<^verbatim>\<open>kernel/src/ui.rs\<close>: the filtered and sorted rows of the table
  browser, the next free key of a UNIQUE column, and the row editor's way from a stored row to text fields and back. The functions read
  the store through its operations; an error they swallow (\<^verbatim>\<open>unwrap_or_default\<close>, \<^verbatim>\<open>.ok()\<close>) is caught by \<open>tryM\<close>.
\<close>

section \<open>Reading with errors as values\<close>

definition tryM :: "('s, 'a) act \<Rightarrow> ('s, 'a result) act" where
  "tryM m s = (case m s of None \<Rightarrow> None | Some (r, s') \<Rightarrow> Some (Inr r, s'))"

definition or_default :: "'a \<Rightarrow> 'a result \<Rightarrow> 'a" where
  "or_default d r = (case r of Inr x \<Rightarrow> x | Inl _ \<Rightarrow> d)"

lemma or_default_simps [simp]: "or_default d (Inr x) = x" "or_default d (Inl e) = d"
  by (simp_all add: or_default_def)

lemma computes_try [comp]: "computes ops media good s m r \<Longrightarrow> computes ops media good s (tryM m) (Inr r)"
  by (fastforce simp: computes_def tryM_def)

section \<open>The rows of the browser\<close>

text \<open>\<^verbatim>\<open>slice::sort_by\<close> is a stable sort: equal rows keep their order.\<close>

fun insert_by :: "('a \<Rightarrow> 'a \<Rightarrow> ordering) \<Rightarrow> 'a \<Rightarrow> 'a list \<Rightarrow> 'a list" where
  "insert_by c x [] = [x]"
| "insert_by c x (y # ys) = (if c x y = Greater then y # insert_by c x ys else x # y # ys)"

definition sort_by :: "('a \<Rightarrow> 'a \<Rightarrow> ordering) \<Rightarrow> 'a list \<Rightarrow> 'a list" where
  "sort_by c xs = foldr (insert_by c) xs []"

text \<open>NULLs last in either direction, otherwise the order of values.\<close>

definition cell_order :: "nat \<Rightarrow> bool \<Rightarrow> row_id \<times> row \<Rightarrow> row_id \<times> row \<Rightarrow> ordering" where
  "cell_order ci asc a b = (case (cell_at (snd a) ci, cell_at (snd b) ci) of
      (Some x, Some y) \<Rightarrow> if asc then cmp_value x y else cmp_value y x
    | (Some _, None) \<Rightarrow> Less
    | (None, Some _) \<Rightarrow> Greater
    | (None, None) \<Rightarrow> Equal)"

type_synonym row_filter = "(string \<times> val) option"
type_synonym row_sort = "(nat \<times> bool) option"
type_synonym id_rows = "(row_id \<times> row) list"

definition sorted_rows :: "row_sort \<Rightarrow> id_rows \<Rightarrow> id_rows" where
  "sorted_rows so rows = (case so of None \<Rightarrow> rows | Some (ci, asc) \<Rightarrow> sort_by (cell_order ci asc) rows)"

definition filtered_rows :: "table \<Rightarrow> string \<times> val \<Rightarrow> id_rows \<Rightarrow> id_rows" where
  "filtered_rows t f rows = (case column_index t (fst f) of
      None \<Rightarrow> rows
    | Some ci \<Rightarrow> filter (\<lambda>(_, r). cell_at r ci = Some (snd f)) rows)"

definition browser_rows :: "'d block_ops \<Rightarrow> string \<Rightarrow> row_filter \<Rightarrow> row_sort \<Rightarrow> ('d store, id_rows) act" where
  "browser_rows ops name f so =
     bindM (tryM (scan ops name)) (\<lambda>r. let rows = or_default [] r in
     bindM (case f of
         None \<Rightarrow> returnM rows
       | Some cv \<Rightarrow> bindM (tryM (get_table ops name)) (\<lambda>t. returnM (case t of Inl _ \<Rightarrow> rows | Inr t \<Rightarrow> filtered_rows t cv rows))) (\<lambda>rows.
     returnM (sorted_rows so rows)))"

section \<open>The next key of a UNIQUE column\<close>

definition max_value :: "val list \<Rightarrow> val option" where
  "max_value vs = (case vs of [] \<Rightarrow> None | v # vs \<Rightarrow> Some (foldl (\<lambda>m x. if cmp_value m x = Greater then m else x) v vs))"

definition next_key :: "val list \<Rightarrow> string" where
  "next_key vs = (case max_value vs of
      Some (VUnsigned u) \<Rightarrow> display (VUnsigned (succ_uint u))
    | Some (VInteger i) \<Rightarrow> display (VInteger (succ_int i))
    | _ \<Rightarrow> ''1'')"

definition next_unique_value :: "'d block_ops \<Rightarrow> string \<Rightarrow> nat \<Rightarrow> type \<Rightarrow> ('d store, string option) act" where
  "next_unique_value ops name col kty =
     (if kty \<noteq> TInteger \<and> kty \<noteq> TUnsignedInteger then returnM None
      else bindM (tryM (scan ops name)) (\<lambda>r. returnM (case r of
          Inl _ \<Rightarrow> None
        | Inr rows \<Rightarrow> Some (next_key (List.map_filter (\<lambda>ir. cell_at (snd ir) col) rows)))))"

section \<open>The row editor\<close>

record field =
  fld_value :: string
  fld_null :: bool
  fld_caret :: nat

record editor =
  ed_table :: string
  ed_id :: "row_id option"
  ed_cols :: "column list"
  ed_fields :: "field list"
  ed_focus :: nat
  ed_error :: "(nat \<times> string) option"

definition new_field :: "column \<Rightarrow> val option option \<Rightarrow> field" where
  "new_field c cell = (let (v, n) = (case cell of
      Some (Some x) \<Rightarrow> (display x, False)
    | Some None \<Rightarrow> ([], True)
    | None \<Rightarrow> ([], nullable c)) in \<lparr>fld_value = v, fld_null = n, fld_caret = char_count v\<rparr>)"

definition new_editor :: "string \<Rightarrow> row_id option \<Rightarrow> table \<Rightarrow> row option \<Rightarrow> editor" where
  "new_editor name rid t existing =
     \<lparr>ed_table = name, ed_id = rid, ed_cols = columns t,
      ed_fields = map (\<lambda>(ci, c). new_field c (Option.bind existing (\<lambda>r. get_at r ci))) (enumerate 0 (columns t)),
      ed_focus = 0, ed_error = None\<rparr>"

text \<open>\<^verbatim>\<open>open_editor\<close>; the error of a missing table is reported by the caller.\<close>

definition open_editor :: "'d block_ops \<Rightarrow> string \<Rightarrow> row_id option \<Rightarrow> ('d store, editor) act" where
  "open_editor ops name rid =
     bindM (get_table ops name) (\<lambda>t.
     bindM (case rid of None \<Rightarrow> returnM None | Some i \<Rightarrow> bindM (tryM (get_row ops name i)) (\<lambda>r. returnM (case r of Inl _ \<Rightarrow> None | Inr x \<Rightarrow> Some x)))
       (\<lambda>existing. returnM (new_editor name rid t existing)))"

text \<open>
  The cells that the fields denote, or the position and message of the first bad field. \<^verbatim>\<open>ed.fields[i]\<close> panics when there are fewer fields
  than columns.
\<close>

fun editor_cells :: "string option \<Rightarrow> nat \<Rightarrow> column list \<Rightarrow> field list \<Rightarrow> ((nat \<times> string) + row) option" where
  "editor_cells msc i [] fs = Some (Inr [])"
| "editor_cells msc i (c # cs) [] = None"
| "editor_cells msc i (c # cs) (f # fs) =
     (case if fld_null f then (if nullable c then Inr None else Inl (i, ''NOT NULL''))
        else (case parse_value (ty c) (fld_value f) of
            Inr v \<Rightarrow> Inr (Some v)
          | Inl (Parse m) \<Rightarrow> Inl (i, m)
          | Inl e \<Rightarrow> Inl (i, describe msc e)) of
        Inl e \<Rightarrow> Some (Inl e)
      | Inr cell \<Rightarrow> map_option (map_sum id ((#) cell)) (editor_cells msc (Suc i) cs fs))"

definition column_for_error :: "column list \<Rightarrow> foreign_key list \<Rightarrow> store_error \<Rightarrow> nat" where
  "column_for_error cs fk_list e =
    (let name = (case e of
         NullViolation column \<Rightarrow> Some column
       | UniqueViolation column \<Rightarrow> Some column
       | ForeignKeyViolation fk \<Rightarrow> map_option from_col (find (\<lambda>f. fk_name f = fk) fk_list)
       | _ \<Rightarrow> None)
     in case Option.bind name (\<lambda>n. position (\<lambda>c. col_name c = n) cs) of None \<Rightarrow> 0 | Some i \<Rightarrow> i)"

definition edit_field :: "(text_state \<Rightarrow> text_state option) \<Rightarrow> field \<Rightarrow> field option" where
  "edit_field g f = map_option (\<lambda>(s, c). f\<lparr>fld_value := s, fld_caret := c\<rparr>) (g (fld_value f, fld_caret f))"

end
