(* ===== verification/Text_Layout.thy ===== *)
theory Text_Layout
  imports Text_Edit
begin

text \<open>
  How the user interface lays text out, \<^verbatim>\<open>kernel/src/ui.rs\<close>: the window of a field around its caret, cells of a fixed width, wrapped
  text, and the bars of key hints, which are packed into lines between their options and in which a click finds the key it names.
\<close>

section \<open>Fields, cells and chunks\<close>

definition field_view :: "string \<Rightarrow> nat \<Rightarrow> nat \<Rightarrow> string \<times> nat" where
  "field_view s caret width =
     (let cs = chars_of s; n = length cs; c = min caret n;
          start = (if width < c then c - width else 0);
          stop = min (start + width) n
      in (concat (take (stop - start) (drop start cs)), c - start))"

definition ELLIPSIS :: string where
  "ELLIPSIS = [CHR 0xE2, CHR 0x80, CHR 0xA6]"

definition trunc :: "string \<Rightarrow> nat \<Rightarrow> string" where
  "trunc s n = (if char_count s \<le> n then s else concat (take (n - 1) (chars_of s)) @ ELLIPSIS)"

definition cell_pad :: "string \<Rightarrow> nat \<Rightarrow> string" where
  "cell_pad s content_w = (let out = trunc s content_w in out @ replicate (content_w + 1 - char_count out) (CHR '' ''))"

text \<open>\<^verbatim>\<open>chunks\<close> panics for a chunk size of zero.\<close>

function char_chunks :: "nat \<Rightarrow> 'a list \<Rightarrow> 'a list list" where
  "char_chunks n xs = (if xs = [] \<or> n = 0 then [] else take n xs # char_chunks n (drop n xs))"
  by pat_completeness auto
termination by (relation "measure (\<lambda>(n, xs). length xs)") auto

declare char_chunks.simps [simp del]

lemma char_chunks_Nil [simp]: "char_chunks n [] = []"
  by (simp add: char_chunks.simps)

definition wrap :: "string \<Rightarrow> nat \<Rightarrow> string list option" where
  "wrap s n = (if chars_of s = [] then Some [[]] else if n = 0 then None else Some (map concat (char_chunks n (chars_of s))))"

section \<open>Bars of key hints\<close>

fun split_loop :: "string list \<Rightarrow> string list \<Rightarrow> string \<Rightarrow> nat \<Rightarrow> string list" where
  "split_loop [] segs cur spaces = (if cur \<noteq> [] then segs @ [cur] else segs)"
| "split_loop (ch # chs) segs cur spaces =
     (if ch = '' '' then split_loop chs segs cur (spaces + 1)
      else if 2 \<le> spaces then
        (if cur \<noteq> [] then split_loop chs (segs @ [cur]) ch 0 else split_loop chs segs (cur @ ch) 0)
      else if spaces = 1 \<and> cur \<noteq> [] then split_loop chs segs (cur @ '' '' @ ch) 0
      else split_loop chs segs (cur @ ch) 0)"

definition split_options :: "string \<Rightarrow> string list" where
  "split_options s = split_loop (chars_of s) [] [] 0"

fun pack_loop :: "nat \<Rightarrow> string list \<Rightarrow> string list \<Rightarrow> string \<Rightarrow> string list" where
  "pack_loop m [] ls cur = (let ls' = (if cur \<noteq> [] then ls @ [cur] else ls) in if ls' = [] then [[]] else ls')"
| "pack_loop m (seg # segs) ls cur =
     (if cur = [] then pack_loop m segs ls seg
      else if char_count cur + 2 + char_count seg \<le> m then pack_loop m segs ls (cur @ ''  '' @ seg)
      else pack_loop m segs (ls @ [cur]) seg)"

definition wrap_options :: "string \<Rightarrow> nat \<Rightarrow> string list" where
  "wrap_options s max_cols = pack_loop max_cols (split_options s) [] []"

section \<open>Windows and cells\<close>

lemma char_count_concat: "list_all is_char cs \<Longrightarrow> char_count (concat cs) = length cs"
  by (simp add: char_count_def chars_of_concat)

lemma list_all_take_drop: "list_all P xs \<Longrightarrow> list_all P (take n xs)" "list_all P xs \<Longrightarrow> list_all P (drop n xs)"
  by (auto simp: list_all_iff dest: in_set_takeD in_set_dropD)

lemma is_char_chars: "utf8_ok (map of_char s) \<Longrightarrow> list_all is_char (chars_of s)"
  using utf8_chars is_char_list by blast

lemma take_window: "take (min (a + w) (length xs) - a) (drop a xs) = take w (drop a xs)"
  by (cases "a + w \<le> length xs") simp_all

text \<open>The window that is drawn of a text field shows the characters around the caret: it is a run of at most \<open>width\<close> characters of the
  text, the caret's column lies in it or just past its right edge, and the characters left of that column are the ones left of
  the caret; the window is as wide as it can be.\<close>

theorem field_view_window:
  assumes "utf8_ok (map of_char s)" "field_view s caret width = (v, col)"
  shows "\<exists>start. chars_of v = take width (drop start (chars_of s)) \<and> start + col = min caret (char_count s) \<and>
    col \<le> char_count v \<and> char_count v \<le> width \<and>
    take col (chars_of v) = drop start (take (min caret (char_count s)) (chars_of s)) \<and>
    (char_count v < width \<longrightarrow> v = s)"
proof -
  let ?cs = "chars_of s"
  let ?c = "min caret (length ?cs)"
  let ?start = "if width < ?c then ?c - width else 0"
  have ch: "list_all is_char ?cs" using is_char_chars[OF assms(1)] .
  have "field_view s caret width = (concat (take width (drop ?start ?cs)), ?c - ?start)"
    unfolding field_view_def Let_def take_window ..
  then have v: "v = concat (take width (drop ?start ?cs))" and col: "col = ?c - ?start" using assms(2) by simp_all
  have cv: "chars_of v = take width (drop ?start ?cs)"
    unfolding v by (rule chars_of_concat) (rule list_all_take_drop list_all_take_drop(2) ch)+
  have "col \<le> length (chars_of v)" unfolding cv col by (cases "width < ?c") auto
  moreover have "take col (chars_of v) = drop ?start (take ?c ?cs)"
    unfolding cv col by (cases "width < ?c") (auto simp: take_drop)
  moreover have "v = s" if "length (chars_of v) < width"
  proof -
    have "\<not> width < ?c" using that unfolding cv by (auto simp: min_def split: if_splits)
    then have z: "?start = 0" by (rule if_not_P)
    show ?thesis using that cv v unfolding z by simp
  qed
  moreover have "?start + col = ?c" using col by auto
  moreover have "length (chars_of v) \<le> width" unfolding cv by simp
  ultimately show ?thesis using cv unfolding char_count_def by blast
qed

theorem field_view_window_witness:
  "\<exists>start. chars_of ''efgh'' = take 4 (drop start (chars_of ''abcdefghij'')) \<and> start + 4 = min 8 (char_count ''abcdefghij'') \<and>
    4 \<le> char_count ''efgh'' \<and> char_count ''efgh'' \<le> 4 \<and>
    take 4 (chars_of ''efgh'') = drop start (take (min 8 (char_count ''abcdefghij'')) (chars_of ''abcdefghij'')) \<and>
    (char_count ''efgh'' < 4 \<longrightarrow> ''efgh'' = ''abcdefghij'')"
proof -
  have "utf8_ok (map of_char ''abcdefghij'')" by simp
  moreover have "field_view ''abcdefghij'' 8 4 = (''efgh'', 4)" by (simp add: field_view_def is_cont_def)
  ultimately show ?thesis by (rule field_view_window)
qed

lemma is_char_ellipsis: "is_char ELLIPSIS"
  by (simp add: ELLIPSIS_def is_char_def is_cont_def)

lemma chars_of_spaces: "chars_of (replicate n (CHR '' '')) = replicate n '' ''"
proof -
  have "concat (replicate n '' '') = replicate n (CHR '' '')" by (induction n) simp_all
  moreover have "list_all is_char (replicate n '' '')" by (auto simp: list_all_iff is_char_def is_cont_def)
  ultimately show ?thesis using chars_of_concat by metis
qed

lemma starts_spaces: "starts (replicate n (CHR '' ''))"
  by (cases n) (simp_all add: is_cont_def)

lemma trunc_chars:
  assumes "utf8_ok (map of_char s)"
  shows "chars_of (trunc s n) = (if char_count s \<le> n then chars_of s else take (n - 1) (chars_of s) @ [ELLIPSIS])"
proof -
  have ch: "list_all is_char (take k (chars_of s))" for k by (intro list_all_take_drop is_char_chars assms)
  have "starts ELLIPSIS" using starts_char[OF is_char_ellipsis, of "[]"] by simp
  then show ?thesis using chars_of_concat[OF ch] by (simp add: trunc_def chars_of_append chars_of_one is_char_ellipsis)
qed

text \<open>A cell of the table browser is exactly one column wider than its content, and cuts only what does not fit.\<close>

lemma cell_pad_width:
  assumes "utf8_ok (map of_char s)" "0 < w"
  shows "char_count (cell_pad s w) = w + 1" "char_count s \<le> w \<Longrightarrow> cell_pad s w = s @ replicate (w + 1 - char_count s) (CHR '' '')"
proof -
  have "length (chars_of (trunc s w)) \<le> w" using assms(2) by (auto simp: trunc_chars[OF assms(1)] char_count_def)
  then show "char_count (cell_pad s w) = w + 1"
    by (simp add: cell_pad_def Let_def char_count_def chars_of_append starts_spaces chars_of_spaces)
qed (simp add: cell_pad_def trunc_def)

lemma char_chunks_step: "xs \<noteq> [] \<Longrightarrow> 0 < n \<Longrightarrow> char_chunks n xs = take n xs # char_chunks n (drop n xs)"
  by (subst char_chunks.simps) simp

lemma concat_char_chunks: "0 < n \<Longrightarrow> concat (char_chunks n xs) = xs"
  by (induction n xs rule: char_chunks.induct) (case_tac "xs = []"; simp add: char_chunks_step)

lemma char_chunks_short: "c \<in> set (char_chunks n xs) \<Longrightarrow> c \<noteq> [] \<and> length c \<le> n"
proof (induction n xs rule: char_chunks.induct)
  case (1 n xs)
  then have "xs \<noteq> []" "0 < n" by (auto simp: char_chunks.simps[of n xs] split: if_splits)
  then show ?case using 1 by (auto simp: char_chunks_step)
qed

lemma char_chunks_full: "c \<in> set (butlast (char_chunks n xs)) \<Longrightarrow> length c = n"
proof (induction n xs rule: char_chunks.induct)
  case (1 n xs)
  then have p: "xs \<noteq> []" "0 < n" by (auto simp: char_chunks.simps[of n xs] split: if_splits)
  have "n \<le> length xs" if "char_chunks n (drop n xs) \<noteq> []" using that by (cases "n \<le> length xs") simp_all
  then show ?case using 1 p by (auto simp: char_chunks_step split: if_splits)
qed

lemma char_chunks_parts:
  assumes "0 < n"
  shows "concat (char_chunks n xs) = xs \<and> (\<forall>c \<in> set (char_chunks n xs). c \<noteq> [] \<and> length c \<le> n) \<and> (\<forall>c \<in> set (butlast (char_chunks n xs)). length c = n)"
  using concat_char_chunks[OF assms] char_chunks_short char_chunks_full by blast

text \<open>Wrapped text is the text, in lines that fill the width.\<close>

lemma wrap_lines:
  assumes "utf8_ok (map of_char s)" "0 < n"
  obtains ls where "wrap s n = Some ls" "concat ls = s" "ls \<noteq> []" "\<forall>l \<in> set ls. char_count l \<le> n" "\<forall>l \<in> set (butlast ls). char_count l = n"
proof (cases "chars_of s = []")
  case True
  then have "s = []" by (cases s) simp_all
  then show ?thesis using that[of "[[]]"] by (simp add: wrap_def char_count_def)
next
  case False
  let ?css = "char_chunks n (chars_of s)"
  note p = char_chunks_parts[OF assms(2), of "chars_of s"]
  have "list_all is_char cs" if "cs \<in> set ?css" for cs
  proof -
    have "set cs \<subseteq> set (concat ?css)" using that by auto
    then show ?thesis using p is_char_chars[OF assms(1)] by (auto simp: list_all_iff)
  qed
  then have n: "char_count (concat cs) = length cs" if "cs \<in> set ?css" for cs using that char_count_concat by blast
  have "concat (map concat css) = concat (concat css)" for css :: "string list list" by (induction css) simp_all
  then have "concat (map concat ?css) = s" using p by simp
  moreover have "?css \<noteq> []" using False p by fastforce
  moreover have "\<forall>l \<in> set (map concat ?css). char_count l \<le> n" using n p by simp
  moreover have "\<forall>l \<in> set (butlast (map concat ?css)). char_count l = n"
  proof -
    have "char_count (concat cs) = n" if "cs \<in> set (butlast ?css)" for cs using n[OF in_set_butlastD[OF that]] p that by simp
    then show ?thesis by (auto simp: map_butlast[symmetric])
  qed
  ultimately show ?thesis using that[of "map concat ?css"] False assms(2) by (simp add: wrap_def)
qed

section \<open>Options\<close>

text \<open>An option of a bar: it neither starts nor ends with a space and has no two spaces in a row.\<close>

abbreviation space :: string where "space \<equiv> '' ''"

fun no_gap :: "string list \<Rightarrow> bool" where
  "no_gap (a # b # cs) \<longleftrightarrow> \<not> (a = space \<and> b = space) \<and> no_gap (b # cs)"
| "no_gap _ \<longleftrightarrow> True"

definition is_option :: "string list \<Rightarrow> bool" where
  "is_option cs \<longleftrightarrow> cs \<noteq> [] \<and> list_all is_char cs \<and> hd cs \<noteq> space \<and> last cs \<noteq> space \<and> no_gap cs"

lemma no_gap_snoc: "no_gap (cs @ [c]) \<longleftrightarrow> no_gap cs \<and> (cs = [] \<or> \<not> (last cs = space \<and> c = space))"
  by (induction cs rule: no_gap.induct) auto

lemma is_option_one: "is_char c \<Longrightarrow> c \<noteq> space \<Longrightarrow> is_option [c]"
  by (simp add: is_option_def)

lemma is_char_space: "is_char space"
  by (simp add: is_char_def is_cont_def)

lemma is_option_snoc:
  assumes "is_option cs" "is_char c" "c \<noteq> space"
  shows "is_option (cs @ [c])" "is_option (cs @ [space, c])"
proof -
  show "is_option (cs @ [c])" using assms by (simp add: is_option_def no_gap_snoc)
  have "no_gap ((cs @ [space]) @ [c])" using assms unfolding no_gap_snoc[of "cs @ [space]"] by (simp add: is_option_def no_gap_snoc)
  then show "is_option (cs @ [space, c])" using assms is_char_space by (simp add: is_option_def)
qed

lemma concat_is_chars: "list_all is_char cs \<Longrightarrow> concat cs = [] \<longleftrightarrow> cs = []"
  by (cases cs) (auto simp: is_char_def)

lemma option_text: "is_option os \<Longrightarrow> concat os \<noteq> []"
  using concat_is_chars[of os] unfolding is_option_def by blast

lemma split_loop_options:
  assumes "list_all is_char chs" "cur = [] \<or> is_option cur" "list_all is_option segs"
  shows "\<exists>os. split_loop chs (map concat segs) (concat cur) k = map concat os \<and> list_all is_option os \<and>
    filter (\<lambda>c. c \<noteq> space) (concat os) = filter (\<lambda>c. c \<noteq> space) (concat segs @ cur @ chs)"
  using assms
proof (induction chs arbitrary: segs cur k)
  case Nil
  have "concat cur = [] \<longleftrightarrow> cur = []" using Nil option_text[of cur] by fastforce
  then show ?case using Nil
    by (cases "cur = []") (auto intro: exI[of _ "segs @ [cur]"] exI[of _ segs])
next
  case (Cons ch chs)
  have ne: "concat cur = [] \<longleftrightarrow> cur = []" using Cons.prems option_text[of cur] by fastforce
  have ch: "is_char ch" "list_all is_char chs" using Cons.prems by simp_all
  show ?case
  proof (cases "ch = space")
    case True
    then show ?thesis using Cons.IH[OF ch(2) Cons.prems(2,3), of "k + 1"] by simp
  next
    case False
    note one = is_option_one[OF ch(1) False]
    show ?thesis
    proof (cases "cur = []")
      case True
      then show ?thesis using Cons.IH[OF ch(2) _ Cons.prems(3), of "[ch]" 0] one False by simp
    next
      case cur: False
      then have opt: "is_option cur" using Cons.prems by blast
      consider "2 \<le> k" | "k = 1" | "k = 0" by linarith
      then show ?thesis
      proof cases
        case 1
        then show ?thesis using Cons.IH[OF ch(2), of "[ch]" "segs @ [cur]" 0] one opt Cons.prems(3) False cur ne by simp
      next
        case 2
        then show ?thesis using Cons.IH[OF ch(2) _ Cons.prems(3), of "cur @ [space, ch]" 0] is_option_snoc(2)[OF opt ch(1) False] False cur ne by simp
      next
        case 3
        then show ?thesis using Cons.IH[OF ch(2) _ Cons.prems(3), of "cur @ [ch]" 0] is_option_snoc(1)[OF opt ch(1) False] False cur ne by simp
      qed
    qed
  qed
qed

lemma split_options_options:
  assumes "utf8_ok (map of_char s)"
  obtains os where "split_options s = map concat os" "list_all is_option os"
    "filter (\<lambda>c. c \<noteq> space) (concat os) = filter (\<lambda>c. c \<noteq> space) (chars_of s)"
  using split_loop_options[OF is_char_chars[OF assms], of "[]" "[]" 0] by (auto simp: split_options_def)

text \<open>Options joined with two spaces are found again.\<close>

fun join_chars :: "string list list \<Rightarrow> string list" where
  "join_chars [] = []"
| "join_chars [os] = os"
| "join_chars (os # oss) = os @ [space, space] @ join_chars oss"

fun join_options :: "string list \<Rightarrow> string" where
  "join_options [] = []"
| "join_options [os] = os"
| "join_options (os # oss) = os @ ''  '' @ join_options oss"

lemma join_options_concat: "join_options (map concat oss) = concat (join_chars oss)"
  by (induction oss rule: join_chars.induct) simp_all

lemma join_chars_Cons: "oss \<noteq> [] \<Longrightarrow> join_chars (os # oss) = os @ [space, space] @ join_chars oss"
  by (cases oss) simp_all

lemma join_chars_snoc: "oss \<noteq> [] \<Longrightarrow> join_chars (oss @ [os]) = join_chars oss @ [space, space] @ os"
  by (induction oss rule: join_chars.induct) (auto simp: join_chars_Cons)

lemma is_char_join: "list_all is_option oss \<Longrightarrow> list_all is_char (join_chars oss)"
  by (induction oss rule: join_chars.induct) (auto simp: is_option_def is_char_space)

lemma split_loop_inside:
  assumes "no_gap (replicate k space @ cs)" "k \<le> 1" "cs \<noteq> []" "last cs \<noteq> space" "list_all is_char cs" "cur \<noteq> []"
  shows "split_loop (cs @ rest) segs cur k = split_loop rest segs (cur @ concat (replicate k space) @ concat cs) 0"
  using assms
proof (induction cs arbitrary: k cur)
  case (Cons c cs)
  consider "k = 0" | "k = 1" using Cons.prems(2) by linarith
  then show ?case
  proof cases
    case 1
    have ng: "no_gap cs" using Cons.prems(1) 1 by (cases cs) auto
    show ?thesis
    proof (cases "c = space")
      case True
      then have "cs \<noteq> []" using Cons.prems(4) by auto
      then show ?thesis using Cons.IH[of 1 cur] Cons.prems 1 True by simp
    next
      case False
      then show ?thesis
        using Cons.IH[of 0 "cur @ c"] Cons.prems 1 ng by (cases "cs = []") simp_all
    qed
  next
    case 2
    then have c: "c \<noteq> space" using Cons.prems(1) by (cases cs) auto
    have ng: "no_gap cs" using Cons.prems(1) 2 by (cases cs) auto
    show ?thesis
      using Cons.IH[of 0 "cur @ space @ c"] Cons.prems 2 ng c by (cases "cs = []") simp_all
  qed
qed simp

lemma split_loop_option:
  assumes "is_option os" "cur = [] \<or> 2 \<le> k"
  shows "split_loop (os @ rest) segs cur k = split_loop rest (if cur = [] then segs else segs @ [cur]) (concat os) 0"
proof -
  obtain c cs where os: "os = c # cs" "c \<noteq> space" "is_char c" using assms(1) by (cases os) (auto simp: is_option_def)
  have "split_loop (os @ rest) segs cur k = split_loop (cs @ rest) (if cur = [] then segs else segs @ [cur]) c 0"
    using os(1,2) assms(2) by auto
  also have "\<dots> = split_loop rest (if cur = [] then segs else segs @ [cur]) (concat os) 0"
  proof (cases "cs = []")
    case False
    have "no_gap cs" using assms(1) os(1) by (cases cs) (auto simp: is_option_def)
    then show ?thesis
      using split_loop_inside[of 0 cs c rest "if cur = [] then segs else segs @ [cur]"] assms(1) os False
      by (auto simp: is_option_def is_char_def)
  qed (simp add: os(1))
  finally show ?thesis .
qed

lemma split_loop_join:
  assumes "list_all is_option oss" "oss \<noteq> []" "cur = [] \<or> 2 \<le> k"
  shows "split_loop (join_chars oss) segs cur k = (if cur = [] then segs else segs @ [cur]) @ map concat oss"
  using assms
proof (induction oss arbitrary: segs cur k)
  case (Cons os oss)
  have os: "is_option os" "concat os \<noteq> []" using Cons.prems(1) option_text by simp_all
  show ?case
  proof (cases "oss = []")
    case True
    then show ?thesis using split_loop_option[OF os(1) Cons.prems(3), of "[]" segs] os(2) by simp
  next
    case False
    have "split_loop (join_chars (os # oss)) segs cur k =
        split_loop (join_chars oss) (if cur = [] then segs else segs @ [cur]) (concat os) 2"
      using split_loop_option[OF os(1) Cons.prems(3), of "[space, space] @ join_chars oss" segs] by (simp add: join_chars_Cons[OF False] numeral_2_eq_2)
    then show ?thesis using Cons.IH[of "concat os" 2] Cons.prems(1) False os(2) by simp
  qed
qed simp

lemma split_join: "list_all is_option oss \<Longrightarrow> split_options (concat (join_chars oss)) = map concat oss"
  by (cases "oss = []") (simp_all add: split_options_def chars_of_concat is_char_join split_loop_join)

section \<open>Packing options into lines\<close>

fun greedy :: "nat \<Rightarrow> string list list \<Rightarrow> string list list \<Rightarrow> string list list list" where
  "greedy m g [] = [g]"
| "greedy m g (os # oss) =
     (if length (join_chars g) + 2 + length os \<le> m then greedy m (g @ [os]) oss else g # greedy m [os] oss)"

lemma pack_loop_greedy:
  assumes "list_all is_option (g @ oss)" "g \<noteq> []"
  shows "pack_loop m (map concat oss) ls (concat (join_chars g)) = ls @ map (concat \<circ> join_chars) (greedy m g oss)"
  using assms
proof (induction oss arbitrary: g ls)
  case Nil
  have "join_chars g \<noteq> []" using Nil by (cases g rule: join_chars.cases) (auto simp: is_option_def)
  then have "concat (join_chars g) \<noteq> []" using concat_is_chars is_char_join Nil.prems(1) by simp
  then show ?case by (simp del: concat_eq_Nil_conv)
next
  case (Cons os oss)
  have "join_chars g \<noteq> []" using Cons.prems by (cases g rule: join_chars.cases) (auto simp: is_option_def)
  moreover have ch: "list_all is_char (join_chars g)" using is_char_join Cons.prems(1) by simp
  ultimately have ne: "concat (join_chars g) \<noteq> []" using concat_is_chars by simp
  have w: "char_count (concat (join_chars g)) = length (join_chars g)" "char_count (concat os) = length os"
    using ch Cons.prems(1) by (simp_all add: char_count_concat is_option_def)
  have j: "concat (join_chars g) @ ''  '' @ concat os = concat (join_chars (g @ [os]))" by (simp add: join_chars_snoc Cons.prems(2))
  show ?case
  proof (cases "length (join_chars g) + 2 + length os \<le> m")
    case True
    then show ?thesis using Cons.IH[of "g @ [os]" ls] Cons.prems(1) ne w unfolding j[symmetric]
      by (simp del: concat_eq_Nil_conv)
  next
    case False
    then show ?thesis using Cons.IH[of "[os]" "ls @ [concat (join_chars g)]"] Cons.prems(1) ne w by (simp del: concat_eq_Nil_conv)
  qed
qed

lemma wrap_options_greedy:
  assumes "utf8_ok (map of_char s)" "split_options s = map concat oss" "list_all is_option oss"
  shows "wrap_options s m = (case oss of [] \<Rightarrow> [[]] | os # oss' \<Rightarrow> map (concat \<circ> join_chars) (greedy m [os] oss'))"
proof (cases oss)
  case Nil
  then show ?thesis using assms(2) by (simp add: wrap_options_def)
next
  case (Cons os oss')
  then show ?thesis using assms(2,3) pack_loop_greedy[of "[os]" oss' m "[]"] by (simp add: wrap_options_def)
qed

lemma concat_greedy: "concat (greedy m g oss) = g @ oss"
  by (induction m g oss rule: greedy.induct) simp_all

lemma set_group: "g \<in> set gs \<Longrightarrow> concat gs = xs \<Longrightarrow> set g \<subseteq> set xs"
  by auto

lemma greedy_fits:
  assumes "g \<noteq> []" "length (join_chars g) \<le> m \<or> length g = 1" "ls \<in> set (greedy m g oss)"
  shows "ls \<noteq> [] \<and> (length (join_chars ls) \<le> m \<or> length ls = 1)"
  using assms
proof (induction m g oss rule: greedy.induct)
  case (2 m g os oss)
  then show ?case by (cases "length (join_chars g) + 2 + length os \<le> m") (auto simp: join_chars_snoc)
qed simp

text \<open>The number of lines that packing needs, from a line that is \<open>w\<close> wide; starting wider needs no fewer and at most one more.\<close>

fun lines_needed :: "nat \<Rightarrow> nat \<Rightarrow> nat list \<Rightarrow> nat" where
  "lines_needed m w [] = 1"
| "lines_needed m w (n # ns) = (if w + 2 + n \<le> m then lines_needed m (w + 2 + n) ns else Suc (lines_needed m n ns))"

lemma length_greedy: "g \<noteq> [] \<Longrightarrow> length (greedy m g oss) = lines_needed m (length (join_chars g)) (map length oss)"
  by (induction m g oss rule: greedy.induct) (simp_all add: join_chars_snoc)

lemma lines_needed_mono:
  "w \<le> w' \<Longrightarrow> lines_needed m w ns \<le> lines_needed m w' ns" "lines_needed m w' ns \<le> Suc (lines_needed m w ns)"
proof (induction ns arbitrary: w w')
  case (Cons n ns)
  {
    case 1
    then show ?case using Cons.IH(1)[of "w + 2 + n" "w' + 2 + n"] Cons.IH(2)[of "w + 2 + n" n] by simp
  next
    case 2
    show ?case using Cons.IH(1)[of n "w + 2 + n"] Cons.IH(2)[of "w' + 2 + n" "w + 2 + n"] Cons.IH(2)[of "w' + 2 + n" n] by auto
  }
qed simp_all

lemma lines_needed_fit:
  "length (join_chars (g @ ns)) \<le> m \<Longrightarrow> g \<noteq> [] \<Longrightarrow>
    lines_needed m (length (join_chars g)) (map length ns @ rest) = lines_needed m (length (join_chars (g @ ns))) rest"
proof (induction ns arbitrary: g)
  case (Cons n ns)
  have "length (join_chars (g @ [n])) \<le> length (join_chars ((g @ [n]) @ ns))" for ns
    by (induction ns rule: rev_induct) (simp_all add: join_chars_snoc append_assoc[symmetric] del: append_assoc)
  from this[of ns] show ?case using Cons.IH[of "g @ [n]"] Cons.prems by (simp add: join_chars_snoc)
qed simp

lemma greedy_fewest:
  assumes "os # oss = concat gs" "\<And>g. g \<in> set gs \<Longrightarrow> g \<noteq> [] \<and> (length (join_chars g) \<le> m \<or> length g = 1)"
  shows "lines_needed m (length os) (map length oss) \<le> length gs"
  using assms
proof (induction gs arbitrary: os oss)
  case (Cons g gs)
  obtain g' where g: "g = os # g'" "oss = g' @ concat gs" using Cons.prems(1,2) by (cases g) auto
  have fit: "lines_needed m (length os) (map length oss) = lines_needed m (length (join_chars g)) (map length (concat gs))"
  proof (cases "g' = []")
    case False
    then have "length (join_chars ([os] @ g')) \<le> m" using Cons.prems(2)[of g] g(1) by simp
    from lines_needed_fit[OF this] show ?thesis using g by simp
  qed (simp add: g)
  show ?case
  proof (cases "concat gs")
    case Nil
    show ?thesis unfolding fit Nil by simp
  next
    case c: (Cons o2 oss2)
    have "lines_needed m (length o2) (map length oss2) \<le> length gs" using Cons.IH[of o2 oss2] Cons.prems(2) c by simp
    moreover have "lines_needed m w (map length (o2 # oss2)) \<le> Suc (lines_needed m (length o2) (map length oss2))" for w
      using lines_needed_mono(2)[of m "w + 2 + length o2" "map length oss2" "length o2"] by simp
    ultimately show ?thesis using fit c by (metis Suc_le_mono le_trans length_Cons)
  qed
qed simp

lemma wrap_options_lines:
  assumes "utf8_ok (map of_char s)"
  shows "concat (map split_options (wrap_options s m)) = split_options s"
    "\<forall>l \<in> set (wrap_options s m). char_count l \<le> m \<or> l \<in> set (split_options s)"
    "\<forall>gs. concat gs = split_options s \<and> gs \<noteq> [] \<and> (\<forall>g \<in> set gs. g \<noteq> [] \<and> (char_count (join_options g) \<le> m \<or> length g = 1)) \<longrightarrow>
       length (wrap_options s m) \<le> length gs"
proof -
  obtain oss where oss: "split_options s = map concat oss" "list_all is_option oss" using split_options_options[OF assms] by blast
  note w = wrap_options_greedy[OF assms oss, of m]
  have ch: "is_option os \<Longrightarrow> char_count (concat os) = length os" for os by (simp add: is_option_def char_count_concat)
  show "concat (map split_options (wrap_options s m)) = split_options s"
  proof (cases oss)
    case Nil
    then show ?thesis using w oss by (simp add: split_options_def)
  next
    case (Cons os oss')
    have "list_all is_option g" if "g \<in> set (greedy m [os] oss')" for g
      using set_group[OF that concat_greedy] oss(2) unfolding Cons by (auto simp: list_all_iff)
    then have "concat (map split_options (wrap_options s m)) = concat (map (map concat) (greedy m [os] oss'))"
      unfolding w Cons by (auto simp: split_join intro: arg_cong[of _ _ concat])
    also have "\<dots> = map concat (concat (greedy m [os] oss'))" by (simp add: map_concat)
    finally show ?thesis using oss(1) Cons by (simp add: concat_greedy)
  qed
  show "\<forall>l \<in> set (wrap_options s m). char_count l \<le> m \<or> l \<in> set (split_options s)"
  proof (cases oss)
    case Nil
    then show ?thesis using w by (simp add: char_count_def)
  next
    case (Cons os oss')
    show ?thesis
    proof
      fix l assume "l \<in> set (wrap_options s m)"
      then obtain g where g: "g \<in> set (greedy m [os] oss')" "l = concat (join_chars g)" unfolding w Cons by auto
      then have fit: "g \<noteq> [] \<and> (length (join_chars g) \<le> m \<or> length g = 1)" by (intro greedy_fits) auto
      have opts: "set g \<subseteq> set oss" using set_group[OF g(1) concat_greedy] unfolding Cons by simp
      then have "list_all is_char (join_chars g)" using oss(2) by (intro is_char_join) (auto simp: list_all_iff)
      then have "char_count l = length (join_chars g)" unfolding g(2) by (rule char_count_concat)
      moreover have "l \<in> set (split_options s)" if one: "length g = 1"
      proof -
        obtain x where "g = [x]" using one by (cases g) auto
        then show ?thesis using opts g(2) oss(1) by simp
      qed
      ultimately show "char_count l \<le> m \<or> l \<in> set (split_options s)" using fit by auto
    qed
  qed
  show "\<forall>gs. concat gs = split_options s \<and> gs \<noteq> [] \<and> (\<forall>g \<in> set gs. g \<noteq> [] \<and> (char_count (join_options g) \<le> m \<or> length g = 1)) \<longrightarrow>
       length (wrap_options s m) \<le> length gs"
  proof (intro allI impI, elim conjE)
    fix gs assume gs: "concat gs = split_options s" "gs \<noteq> []" "\<forall>g \<in> set gs. g \<noteq> [] \<and> (char_count (join_options g) \<le> m \<or> length g = 1)"
    show "length (wrap_options s m) \<le> length gs"
    proof (cases oss)
      case Nil
      then show ?thesis using w gs(2) by (cases gs) simp_all
    next
      case (Cons os oss')
      let ?gs = "map (map chars_of) gs"
      have inv: "chars_of (concat x) = x" if "x \<in> set oss" for x
        using that oss(2) by (auto simp: list_all_iff is_option_def intro!: chars_of_concat)
      then have "map chars_of (map concat oss) = oss" by (simp add: map_idI)
      then have cat: "concat ?gs = os # oss'" using gs(1) oss(1) Cons by (metis map_concat)
      have opts: "list_all is_option (map chars_of g)" if "g \<in> set gs" for g
        using set_group[OF _ cat, of "map chars_of g"] that oss(2) unfolding Cons by (auto simp: list_all_iff)
      have "g' \<noteq> [] \<and> (length (join_chars g') \<le> m \<or> length g' = 1)" if g': "g' \<in> set ?gs" for g'
      proof -
        obtain g where g: "g \<in> set gs" "g' = map chars_of g" using g' by auto
        have "join_options g = concat (join_chars g')" using join_options_concat[of g'] unfolding g(2) by (simp add: o_def)
        moreover have "list_all is_char (join_chars g')" using opts[OF g(1)] is_char_join g(2) by simp
        ultimately have "char_count (join_options g) = length (join_chars g')" by (simp add: char_count_concat)
        then show ?thesis using gs(3) g by auto
      qed
      from greedy_fewest[OF cat[symmetric] this]
      show ?thesis unfolding w Cons by (simp add: length_greedy)
    qed
  qed
qed

text \<open>C37 A bar of key hints that is too wide is broken only between its options and into as few lines as possible: the lines hold the
  options of the bar in order, none of them cut; a line is no wider than the screen unless it is one option; and no other way to
  put the options on such lines uses fewer of them.\<close>

theorem wrap_options_optimal:
  assumes "utf8_ok (map of_char s)"
  shows "concat (map split_options (wrap_options s m)) = split_options s \<and>
    (\<forall>l \<in> set (wrap_options s m). char_count l \<le> m \<or> l \<in> set (split_options s)) \<and>
    (\<forall>gs. concat gs = split_options s \<and> gs \<noteq> [] \<and> (\<forall>g \<in> set gs. g \<noteq> [] \<and> (char_count (join_options g) \<le> m \<or> length g = 1)) \<longrightarrow>
       length (wrap_options s m) \<le> length gs)"
  using wrap_options_lines[OF assms] by blast

theorem wrap_options_optimal_witness:
  "concat (map split_options (wrap_options ''[n]ew  [d]rop it  [q]uit'' 12)) = [''[n]ew'', ''[d]rop it'', ''[q]uit''] \<and>
   length (wrap_options ''[n]ew  [d]rop it  [q]uit'' 12) \<le> 3"
proof -
  have u: "utf8_ok (map of_char ''[n]ew  [d]rop it  [q]uit'')" by simp
  have s: "split_options ''[n]ew  [d]rop it  [q]uit'' = [''[n]ew'', ''[d]rop it'', ''[q]uit'']" by (simp add: split_options_def is_cont_def)
  from wrap_options_optimal[OF u, of 12, unfolded s] show ?thesis
    by (auto dest!: spec[of _ "[[''[n]ew''], [''[d]rop it''], [''[q]uit'']]"] simp: char_count_def is_cont_def)
qed

section \<open>Clicking on key hints\<close>

text \<open>A key named by a hint: one the keyboard driver knows, or a character outside ASCII.\<close>

datatype hot_key = Press key | Press_char string

abbreviation ARROW_UP :: string where "ARROW_UP \<equiv> [CHR 0xE2, CHR 0x86, CHR 0x91]"
abbreviation ARROW_DOWN :: string where "ARROW_DOWN \<equiv> [CHR 0xE2, CHR 0x86, CHR 0x93]"
abbreviation ARROW_LEFT :: string where "ARROW_LEFT \<equiv> [CHR 0xE2, CHR 0x86, CHR 0x90]"
abbreviation ARROW_RIGHT :: string where "ARROW_RIGHT \<equiv> [CHR 0xE2, CHR 0x86, CHR 0x92]"

definition key_for_token :: "string \<Rightarrow> hot_key option" where
  "key_for_token tok =
    (if tok = ''Enter'' \<or> tok = ''Enter/Space'' then Some (Press Enter)
     else if tok = ''Esc'' then Some (Press Esc)
     else if tok = ''Del'' then Some (Press Delete)
     else if tok = ''Tab'' then Some (Press Tab)
     else if tok = ''PgDn'' then Some (Press PageDown)
     else if tok = ''PgUp'' then Some (Press PageUp)
     else if tok = ''Space'' then Some (Press (Char (CHR '' '')))
     else if tok = ARROW_RIGHT then Some (Press key.Right)
     else if tok = ARROW_LEFT then Some (Press key.Left)
     else if tok = ARROW_UP then Some (Press Up)
     else if tok = ARROW_DOWN then Some (Press Down)
     else case chars_of tok of
       [c] \<Rightarrow> Some (if length c = 1 then Press (Char (hd c)) else Press_char c)
     | _ \<Rightarrow> None)"

text \<open>The scan from column \<open>i\<close>: \<open>used\<close> is the token with its closing bracket, \<open>hot\<close> the rest of the word after it.\<close>

function shortcut_loop :: "nat \<Rightarrow> nat \<Rightarrow> string list \<Rightarrow> hot_key option" where
  "shortcut_loop cc i [] = None"
| "shortcut_loop cc i (c # rs) =
    (if c \<noteq> ''['' then shortcut_loop cc (i + 1) rs
     else let tok = takeWhile (\<lambda>x. x \<noteq> '']'') rs;
              used = min (length tok + 1) (length rs);
              hot = takeWhile (\<lambda>x. x \<noteq> '' '') (drop used rs);
              stop = i + 1 + used + length hot
          in if i \<le> cc \<and> cc < stop then key_for_token (concat tok)
             else shortcut_loop cc stop (drop (used + length hot) rs))"
  by pat_completeness auto
termination by (relation "measure (\<lambda>(cc, i, rs). length rs)") auto

definition shortcut_at :: "string \<Rightarrow> nat \<Rightarrow> hot_key option" where
  "shortcut_at s cc = shortcut_loop cc 0 (chars_of s)"

lemma shortcut_loop_past: "cc < i \<Longrightarrow> shortcut_loop cc i rs = None"
  by (induction cc i rs rule: shortcut_loop.induct) (auto simp: Let_def)

lemma shortcut_loop_bracket:
  assumes "c = ''[''" "tok = takeWhile (\<lambda>x. x \<noteq> '']'') rs" "used = min (length tok + 1) (length rs)"
    "hot = takeWhile (\<lambda>x. x \<noteq> '' '') (drop used rs)" "stop = i + 1 + used + length hot"
  shows "shortcut_loop cc i (c # rs) = (if i \<le> cc \<and> cc < stop then key_for_token (concat tok) else shortcut_loop cc stop (drop (used + length hot) rs))"
  unfolding assms(2-5) shortcut_loop.simps(2) Let_def using assms(1) by simp

lemma shortcut_loop_shift: "shortcut_loop (cc + d) (i + d) rs = shortcut_loop cc i rs"
proof (induction cc i rs rule: shortcut_loop.induct)
  case (2 cc i c rs)
  show ?case
  proof (cases "c = ''[''")
    case True
    define tok where "tok = takeWhile (\<lambda>x. x \<noteq> '']'') rs"
    define used where "used = min (length tok + 1) (length rs)"
    define hot where "hot = takeWhile (\<lambda>x. x \<noteq> '' '') (drop used rs)"
    define stop where "stop = i + 1 + used + length hot"
    have two: "\<not> (i \<le> cc \<and> cc < stop) \<Longrightarrow> shortcut_loop (cc + d) (stop + d) (drop (used + length hot) rs) = shortcut_loop cc stop (drop (used + length hot) rs)"
      using 2(2)[OF _ tok_def used_def hot_def stop_def] True by blast
    show ?thesis using shortcut_loop_bracket[OF True tok_def used_def hot_def stop_def]
        shortcut_loop_bracket[OF True tok_def used_def hot_def, of "stop + d" "i + d" "cc + d"] two by (auto simp: stop_def)
  next
    case False
    then show ?thesis using 2(1) by simp
  qed
qed simp

text \<open>An option whose brackets are closed inside it.\<close>

fun closed :: "string list \<Rightarrow> bool" where
  "closed [] \<longleftrightarrow> True"
| "closed (c # cs) \<longleftrightarrow> (c = ''['' \<longrightarrow> '']'' \<in> set cs) \<and> closed cs"

lemma closed_drop: "closed cs \<Longrightarrow> closed (drop n cs)"
  by (induction cs arbitrary: n) (auto simp: drop_Cons' split: if_splits)

lemma shortcut_loop_option:
  assumes "closed os" "rest = [] \<or> hd rest = space"
  shows "shortcut_loop cc i (os @ rest) = (if i + length os \<le> cc then shortcut_loop cc (i + length os) rest else shortcut_loop cc i os)"
  using assms(1)
proof (induction "length os" arbitrary: os i rule: less_induct)
  case less
  show ?case
  proof (cases os)
    case Nil
    then show ?thesis using shortcut_loop_past by simp
  next
    case (Cons c cs)
    show ?thesis
    proof (cases "c = ''[''")
      case False
      then show ?thesis using less.hyps[of cs "i + 1"] less.prems Cons by simp
    next
      case True
      let ?tok = "takeWhile (\<lambda>x. x \<noteq> '']'') cs"
      let ?used = "length ?tok + 1"
      have br: "'']'' \<in> set cs" using less.prems Cons True by simp
      then have tok: "takeWhile (\<lambda>x. x \<noteq> '']'') (cs @ rest) = ?tok" by (intro takeWhile_append1) auto
      have "dropWhile (\<lambda>x. x \<noteq> '']'') cs \<noteq> []" using br by (auto simp: dropWhile_eq_Nil_conv)
      then have "length ?tok < length cs" by (metis length_append length_greater_0_conv less_add_same_cancel1 takeWhile_dropWhile_id)
      then have used: "min ?used (length cs) = ?used" "min ?used (length (cs @ rest)) = ?used" "?used \<le> length cs" by auto
      let ?hot = "takeWhile (\<lambda>x. x \<noteq> '' '') (drop ?used cs)"
      have hot: "takeWhile (\<lambda>x. x \<noteq> '' '') (drop ?used (cs @ rest)) = ?hot"
      proof (cases "\<forall>x \<in> set (drop ?used cs). x \<noteq> '' ''")
        case True
        then have "takeWhile (\<lambda>x. x \<noteq> '' '') (drop ?used cs @ rest) = drop ?used cs @ takeWhile (\<lambda>x. x \<noteq> '' '') rest"
          by (intro takeWhile_append2) auto
        moreover have "takeWhile (\<lambda>x. x \<noteq> '' '') rest = []" using assms(2) by (cases rest) auto
        moreover have "?hot = drop ?used cs" using True by (simp only: takeWhile_eq_all_conv)
        ultimately show ?thesis using used(3) by (simp only: drop_append) simp
      next
        case False
        then show ?thesis using used(3) by (simp add: takeWhile_append1)
      qed
      let ?stop = "i + 1 + ?used + length ?hot"
      let ?cs = "drop (?used + length ?hot) cs"
      have len: "?used + length ?hot \<le> length cs"
        using used(3) length_takeWhile_le[of "\<lambda>x. x \<noteq> '' ''" "drop ?used cs"] by (simp only: length_drop)
      have both: "shortcut_loop cc i (os @ rest) = (if i \<le> cc \<and> cc < ?stop then key_for_token (concat ?tok) else shortcut_loop cc ?stop (?cs @ rest))"
        using shortcut_loop_bracket[OF True tok[symmetric] used(2)[symmetric] hot[symmetric] refl, of cc i] Cons len by simp
      have one: "shortcut_loop cc i os = (if i \<le> cc \<and> cc < ?stop then key_for_token (concat ?tok) else shortcut_loop cc ?stop ?cs)"
        using shortcut_loop_bracket[OF True refl used(1)[symmetric] refl refl, of cc i] Cons by simp
      have sum: "?stop + length ?cs = i + length os" using len Cons by simp
      have le: "?stop \<le> i + length os" using len Cons by simp
      have IH: "shortcut_loop cc ?stop (?cs @ rest) =
          (if ?stop + length ?cs \<le> cc then shortcut_loop cc (?stop + length ?cs) rest else shortcut_loop cc ?stop ?cs)"
        using less.prems Cons by (intro less.hyps closed_drop) auto
      show ?thesis unfolding both one IH[unfolded sum] using le by (cases "i \<le> cc \<and> cc < ?stop") (simp_all only: if_P if_not_P if_True if_False, auto)
    qed
  qed
qed

text \<open>The column where an option of a line starts.\<close>

fun option_col :: "string list \<Rightarrow> nat \<Rightarrow> nat" where
  "option_col (os # oss) (Suc k) = char_count os + 2 + option_col oss k"
| "option_col _ _ = 0"

lemma shortcut_loop_join:
  assumes "list_all closed oss" "list_all is_option oss" "k < length oss" "j < length (oss ! k)"
  shows "shortcut_loop (i + option_col (map concat oss) k + j) i (join_chars oss) = shortcut_loop j 0 (oss ! k)"
  using assms
proof (induction oss arbitrary: i k)
  case (Cons os oss)
  have n: "char_count (concat os) = length os" using Cons.prems(2) by (simp add: is_option_def char_count_concat)
  define rest where "rest = (if oss = [] then [] else [space, space] @ join_chars oss)"
  have join: "join_chars (os # oss) = os @ rest" by (cases oss) (simp_all add: rest_def)
  have step: "shortcut_loop cc i (join_chars (os # oss)) =
      (if i + length os \<le> cc then shortcut_loop cc (i + length os) rest else shortcut_loop cc i os)" for cc
    unfolding join using Cons.prems(1) by (intro shortcut_loop_option) (auto simp: rest_def)
  show ?case
  proof (cases k)
    case 0
    have "shortcut_loop (j + i) (0 + i) os = shortcut_loop j 0 os" by (rule shortcut_loop_shift)
    with 0 Cons.prems(4) show ?thesis unfolding step by (simp add: add.commute)
  next
    case (Suc k')
    then have ne: "oss \<noteq> []" using Cons.prems(3) by auto
    have "shortcut_loop cc (i + length os) rest = shortcut_loop cc (i + length os + 2) (join_chars oss)" for cc
      using ne by (simp add: rest_def)
    then show ?thesis
      using Cons.IH[of k' "i + length os + 2"] Cons.prems Suc n unfolding step by (simp add: algebra_simps)
  qed
qed simp

text \<open>Wrapping a bar of key hints does not move its shortcuts: a click on any character of an option in a line of the wrapped bar
  resolves to the key that the option alone resolves to, provided that the brackets of each option are closed inside it.\<close>

theorem wrapped_clicks:
  assumes "utf8_ok (map of_char s)" "\<forall>t \<in> set (split_options s). closed (chars_of t)"
    "l \<in> set (wrap_options s m)" "k < length (split_options l)" "j < char_count (split_options l ! k)"
  shows "split_options l ! k \<in> set (split_options s) \<and>
    shortcut_at l (option_col (split_options l) k + j) = shortcut_at (split_options l ! k) j"
proof -
  obtain oss where oss: "split_options s = map concat oss" "list_all is_option oss" using split_options_options[OF assms(1)] by blast
  have inv: "chars_of (concat x) = x" if "is_option x" for x using that by (simp add: is_option_def chars_of_concat)
  show ?thesis
  proof (cases oss)
    case Nil
    then have "l = []" using assms(3) wrap_options_greedy[OF assms(1) oss, of m] by simp
    then show ?thesis using assms(4) by (simp add: split_options_def)
  next
    case (Cons os oss')
    then obtain g where g: "g \<in> set (greedy m [os] oss')" "l = concat (join_chars g)"
      using assms(3) wrap_options_greedy[OF assms(1) oss, of m] by auto
    have sub: "set g \<subseteq> set oss" using set_group[OF g(1) concat_greedy] unfolding Cons by simp
    then have opts: "list_all is_option g" using oss(2) by (auto simp: list_all_iff)
    then have sp: "split_options l = map concat g" unfolding g(2) by (rule split_join)
    have cl: "list_all closed g" using sub opts assms(2) oss(1) inv by (fastforce simp: list_all_iff)
    have k: "k < length g" "is_option (g ! k)" using assms(4) sp opts by (simp_all add: list_all_length)
    have "j < length (g ! k)" using assms(5) sp k by (simp add: char_count_def inv)
    from shortcut_loop_join[OF cl opts k(1) this, of 0]
    have "shortcut_at l (option_col (split_options l) k + j) = shortcut_at (split_options l ! k) j"
      using k sp is_char_join[OF opts] unfolding g(2) by (simp add: shortcut_at_def chars_of_concat inv)
    moreover have "split_options l ! k \<in> set (split_options s)" using sp k(1) sub oss(1) by (auto dest: nth_mem)
    ultimately show ?thesis by blast
  qed
qed

theorem wrapped_clicks_witness:
  "shortcut_at ''[n]ew  [d]rop it'' (option_col [''[n]ew'', ''[d]rop it''] 1 + 2) = shortcut_at ''[d]rop it'' 2"
proof -
  let ?s = "''[n]ew  [d]rop it  [q]uit''"
  have u: "utf8_ok (map of_char ?s)" by simp
  have c: "\<forall>t \<in> set (split_options ?s). closed (chars_of t)" by (simp add: split_options_def is_cont_def)
  have l: "''[n]ew  [d]rop it'' \<in> set (wrap_options ?s 17)" by (simp add: wrap_options_def split_options_def is_cont_def char_count_def)
  have t: "split_options ''[n]ew  [d]rop it'' = [''[n]ew'', ''[d]rop it'']" by (simp add: split_options_def is_cont_def)
  have k: "1 < length (split_options ''[n]ew  [d]rop it'')" unfolding t by simp
  have j: "2 < char_count (split_options ''[n]ew  [d]rop it'' ! 1)" unfolding t by (simp add: char_count_def is_cont_def)
  show ?thesis using wrapped_clicks[OF u c l k j] unfolding t by simp
qed

section \<open>Frames\<close>

type_synonym rgb = "byte \<times> byte \<times> byte"

datatype line_kind = Normal | Dim | Selected | Error | Accent

datatype hit = No_hit | Focus nat | Activate nat | Shortcuts

record text_line =
  line_text :: string
  line_kind :: line_kind
  line_hit :: hit

record frame =
  frame_title :: string
  frame_bg :: rgb
  frame_body :: "text_line list"
  frame_status :: string
  cell_hls :: "(nat \<times> nat \<times> nat \<times> rgb) list"
  frame_cursor :: "(nat \<times> nat) option"

definition line :: "string \<Rightarrow> line_kind \<Rightarrow> text_line" where
  "line t kind = \<lparr>line_text = t, line_kind = kind, line_hit = No_hit\<rparr>"

definition with_hit :: "text_line \<Rightarrow> hit \<Rightarrow> text_line" where
  "with_hit l h = l\<lparr>line_hit := h\<rparr>"

text \<open>The loop over the body: the new lines, and how many lines were inserted before each old one.\<close>

fun reflow :: "nat \<Rightarrow> text_line list \<Rightarrow> nat \<Rightarrow> text_line list \<times> nat list" where
  "reflow m [] acc = ([], [])"
| "reflow m (l # ls) acc =
     (if line_hit l = Shortcuts then
        let cs = wrap_options (line_text l) m;
            (body, extra) = reflow m ls (acc + (length cs - 1))
        in (map (\<lambda>c. with_hit (line c (line_kind l)) Shortcuts) cs @ body, acc # extra)
      else let (body, extra) = reflow m ls acc in (l # body, acc # extra))"

definition shift_line :: "nat list \<Rightarrow> nat \<Rightarrow> nat" where
  "shift_line extra li = li + (if li < length extra then extra ! li else if extra = [] then 0 else last extra)"

definition wrap_shortcut_bars :: "frame \<Rightarrow> nat \<Rightarrow> frame" where
  "wrap_shortcut_bars f max_cols =
    (if max_cols = 0 \<or> \<not> (\<exists>l \<in> set (frame_body f). line_hit l = Shortcuts \<and> max_cols < char_count (line_text l)) then f
     else let (body, extra) = reflow max_cols (frame_body f) 0 in
       f\<lparr>cell_hls := map (\<lambda>(li, x, w, c). (shift_line extra li, x, w, c)) (cell_hls f),
         frame_cursor := map_option (\<lambda>(cl, cc). (shift_line extra cl, cc)) (frame_cursor f),
         frame_body := body\<rparr>)"

text \<open>The lines that stand for one line of the body.\<close>

definition lines_of :: "nat \<Rightarrow> text_line \<Rightarrow> text_line list" where
  "lines_of m l = (if line_hit l = Shortcuts then map (\<lambda>c. with_hit (line c (line_kind l)) Shortcuts) (wrap_options (line_text l) m) else [l])"

lemma pack_loop_nonempty: "pack_loop m segs ls cur \<noteq> []"
  by (induction m segs ls cur rule: pack_loop.induct) (simp_all add: Let_def)

lemma lines_of_nonempty: "lines_of m l \<noteq> []"
  by (simp add: lines_of_def wrap_options_def pack_loop_nonempty)

lemma reflow_lines:
  "fst (reflow m ls acc) = concat (map (lines_of m) ls) \<and> length (snd (reflow m ls acc)) = length ls \<and>
    (\<forall>i < length ls. i + snd (reflow m ls acc) ! i = acc + length (concat (map (lines_of m) (take i ls))))"
proof (induction m ls acc rule: reflow.induct)
  case (2 m l ls acc)
  let ?acc = "acc + (length (lines_of m l) - 1)"
  obtain body extra where r: "reflow m ls ?acc = (body, extra)" by force
  have IH: "body = concat (map (lines_of m) ls) \<and> length extra = length ls \<and>
      (\<forall>i < length ls. i + extra ! i = ?acc + length (concat (map (lines_of m) (take i ls))))"
    using 2 r by (cases "line_hit l = Shortcuts") (simp_all add: lines_of_def[of m l])
  have step: "reflow m (l # ls) acc = (lines_of m l @ body, acc # extra)"
    using r by (cases "line_hit l = Shortcuts") (simp_all add: lines_of_def[of m l])
  have "0 < length (lines_of m l)" using lines_of_nonempty by simp
  then have "i + (acc # extra) ! i = acc + length (concat (map (lines_of m) (take i (l # ls))))" if "i < length (l # ls)" for i
    using IH that by (cases i) auto
  then show ?case unfolding step using IH by simp
qed simp

lemma reflow_shift:
  assumes "reflow m ls 0 = (body, extra)" "i < length ls"
  shows "shift_line extra i = length (concat (take i (map (lines_of m) ls)))"
  using reflow_lines[of m ls 0] assms by (simp add: shift_line_def take_map)

text \<open>
  The lines that a line of the body may become: a bar becomes one or more bars of the same kind that together have its options in
  order, each of which fits or is a single option; any other line stays.
\<close>

definition wrapped :: "nat \<Rightarrow> text_line \<Rightarrow> text_line list \<Rightarrow> bool" where
  "wrapped m l ls \<longleftrightarrow>
    (if line_hit l = Shortcuts then
       ls \<noteq> [] \<and> concat (map (\<lambda>l'. split_options (line_text l')) ls) = split_options (line_text l) \<and>
       (\<forall>l' \<in> set ls. line_hit l' = Shortcuts \<and> line_kind l' = line_kind l \<and>
          (char_count (line_text l') \<le> m \<or> line_text l' \<in> set (split_options (line_text l))))
     else ls = [l])"

lemma lines_of_wrapped: "utf8_ok (map of_char (line_text l)) \<Longrightarrow> wrapped m l (lines_of m l)"
  using wrap_options_lines(1,2)[of "line_text l" m] lines_of_nonempty[of m l]
  by (auto simp: wrapped_def lines_of_def line_def with_hit_def o_def)

lemma same_wrapped: "char_count (line_text l) \<le> m \<or> line_hit l \<noteq> Shortcuts \<Longrightarrow> wrapped m l [l]"
  by (auto simp: wrapped_def)

text \<open>C38 Fitting a frame to the screen: every bar of key hints becomes one or more bars, each still a bar that reacts to clicks and of the
  same kind, with all its options in order, each no wider than the screen unless it is a single option; every other line stays, in
  order; each highlighted cell and the text cursor move with their line; title, background and status stay.\<close>

theorem wrap_shortcut_bars_fit:
  assumes "0 < m" "\<forall>l \<in> set (frame_body f). utf8_ok (map of_char (line_text l))" "f' = wrap_shortcut_bars f m"
  shows "\<exists>blocks. frame_body f' = concat blocks \<and> length blocks = length (frame_body f) \<and>
    (\<forall>i < length blocks. wrapped m (frame_body f ! i) (blocks ! i)) \<and>
    length (cell_hls f') = length (cell_hls f) \<and>
    (\<forall>k < length (cell_hls f). \<forall>li x. cell_hls f ! k = (li, x) \<and> li < length blocks \<longrightarrow>
       cell_hls f' ! k = (length (concat (take li blocks)), x)) \<and>
    (\<forall>cl cc. frame_cursor f = Some (cl, cc) \<and> cl < length blocks \<longrightarrow> frame_cursor f' = Some (length (concat (take cl blocks)), cc)) \<and>
    (frame_cursor f = None \<longrightarrow> frame_cursor f' = None) \<and>
    frame_title f' = frame_title f \<and> frame_bg f' = frame_bg f \<and> frame_status f' = frame_status f"
proof (cases "\<exists>l \<in> set (frame_body f). line_hit l = Shortcuts \<and> m < char_count (line_text l)")
  case False
  then have f': "f' = f" using assms(3) by (simp add: wrap_shortcut_bars_def)
  have one: "concat (map (\<lambda>l. [l]) ls) = ls" for ls :: "text_line list" by (induction ls) simp_all
  have "wrapped m l [l]" if "l \<in> set (frame_body f)" for l using False that by (intro same_wrapped) (auto simp: not_less)
  then show ?thesis unfolding f' by (intro exI[of _ "map (\<lambda>l. [l]) (frame_body f)"]) (simp add: one take_map)
next
  case True
  obtain body extra where r: "reflow m (frame_body f) 0 = (body, extra)" by force
  have f': "f' = f\<lparr>cell_hls := map (\<lambda>(li, x, w, c). (shift_line extra li, x, w, c)) (cell_hls f),
      frame_cursor := map_option (\<lambda>(cl, cc). (shift_line extra cl, cc)) (frame_cursor f), frame_body := body\<rparr>"
    using True assms(1,3) r by (auto simp: wrap_shortcut_bars_def)
  have body: "body = concat (map (lines_of m) (frame_body f))" using reflow_lines[of m "frame_body f" 0] r by simp
  show ?thesis unfolding f' body
    by (intro exI[of _ "map (lines_of m) (frame_body f)"]) (use assms(2) lines_of_wrapped reflow_shift[OF r] in \<open>simp add: split_beta\<close>)
qed

theorem wrap_shortcut_bars_fit_witness:
  "\<exists>blocks. frame_body (wrap_shortcut_bars \<lparr>frame_title = [], frame_bg = (0, 0, 0),
      frame_body = [\<lparr>line_text = ''[a]dd  [b]ye'', line_kind = Dim, line_hit = Shortcuts\<rparr>,
        \<lparr>line_text = ''row'', line_kind = Selected, line_hit = Focus 0\<rparr>],
      frame_status = [], cell_hls = [(1, 0, 3, (9, 9, 9))], frame_cursor = None\<rparr> 6) = concat blocks \<and> length blocks = 2 \<and>
    wrapped 6 \<lparr>line_text = ''[a]dd  [b]ye'', line_kind = Dim, line_hit = Shortcuts\<rparr> (blocks ! 0) \<and>
    cell_hls (wrap_shortcut_bars \<lparr>frame_title = [], frame_bg = (0, 0, 0),
      frame_body = [\<lparr>line_text = ''[a]dd  [b]ye'', line_kind = Dim, line_hit = Shortcuts\<rparr>,
        \<lparr>line_text = ''row'', line_kind = Selected, line_hit = Focus 0\<rparr>],
      frame_status = [], cell_hls = [(1, 0, 3, (9, 9, 9))], frame_cursor = None\<rparr> 6) = [(length (blocks ! 0), 0, 3, (9, 9, 9))]"
proof -
  let ?f = "\<lparr>frame_title = [], frame_bg = (0, 0, 0),
      frame_body = [\<lparr>line_text = ''[a]dd  [b]ye'', line_kind = Dim, line_hit = Shortcuts\<rparr>,
        \<lparr>line_text = ''row'', line_kind = Selected, line_hit = Focus 0\<rparr>],
      frame_status = [], cell_hls = [(1, 0, 3, (9, 9, 9))], frame_cursor = None\<rparr> :: frame"
  have "0 < (6 :: nat)" "\<forall>l \<in> set (frame_body ?f). utf8_ok (map of_char (line_text l))" by simp_all
  from wrap_shortcut_bars_fit[OF this refl] obtain blocks where b: "frame_body (wrap_shortcut_bars ?f 6) = concat blocks"
    "length blocks = 2" "\<forall>i < length blocks. wrapped 6 (frame_body ?f ! i) (blocks ! i)"
    "length (cell_hls (wrap_shortcut_bars ?f 6)) = 1" "cell_hls (wrap_shortcut_bars ?f 6) ! 0 = (length (concat (take 1 blocks)), 0, 3, (9, 9, 9))"
    by auto
  from b(2) obtain b0 b1 where "blocks = [b0, b1]" by (auto simp: length_Suc_conv numeral_2_eq_2)
  moreover have "cell_hls (wrap_shortcut_bars ?f 6) = [cell_hls (wrap_shortcut_bars ?f 6) ! 0]"
    using b(4) by (cases "cell_hls (wrap_shortcut_bars ?f 6)") simp_all
  ultimately show ?thesis using b(1,2,5) b(3)[rule_format, of 0] by (intro exI[of _ blocks]) simp
qed

end
