(* ===== verification/Ata.thy ===== *)
theory Ata
  imports Ports Block
begin

text \<open>
  The IDE disk driver, \<^verbatim>\<open>kernel/src/ata.rs\<close>: the driver bound to the boot disk (probe, read, write, flush, all by polled
  port I/O), the read-only enumeration of the four IDE slots, and the decoding of what it finds (IDENTIFY
  strings, boot sectors, sizes). The disk behind the ports is the parameter \<^verbatim>\<open>bus\<close>. The status polls give up after
  ten million (or half a million) spins; that bound is the argument their recursion runs on, so every operation is total.

  \<^verbatim>\<open>self.base + lba\<close> is a sum of \<^verbatim>\<open>u64\<close>s; it cannot overflow, since \<^verbatim>\<open>probe\<close> makes \<^verbatim>\<open>sectors\<close> the rest of a disk of at most
  \<open>2\<^sup>32\<close> sectors after \<^verbatim>\<open>base\<close> and an access needs \<^verbatim>\<open>lba < sectors\<close>.
\<close>

unbundle bit_operations_syntax

section \<open>The bound driver\<close>

definition BASE :: nat where "BASE = 0x1F0"
definition CTRL :: nat where "CTRL = 0x3F6"
definition DRIVE_MASTER_LBA :: byte where "DRIVE_MASTER_LBA = 0xE0"
definition ST_BSY :: byte where "ST_BSY = 0x80"
definition ST_DRDY :: byte where "ST_DRDY = 0x40"
definition ST_DRQ :: byte where "ST_DRQ = 0x08"
definition ST_ERR :: byte where "ST_ERR = 0x01"

record ata =
  ata_base :: nat
  ata_sectors :: nat

text \<open>The registers of a channel: data, error, sector count, the three low address bytes, drive, status and command.\<close>

fun ata_poll_loop :: "'h bus \<Rightarrow> nat \<Rightarrow> ('h, unit result) io" where
  "ata_poll_loop B 0 = State_Monad.return (Inl Io)"
| "ata_poll_loop B (Suc n) = do {
    s \<leftarrow> inb B (BASE + 7);
    if s AND ST_ERR \<noteq> 0 then do { inb B (BASE + 1); State_Monad.return (Inl Io) }
    else if s AND ST_BSY = 0 \<and> s AND ST_DRQ \<noteq> 0 then State_Monad.return (Inr ())
    else if s AND ST_BSY = 0 \<and> s AND ST_DRDY \<noteq> 0 then State_Monad.return (Inr ())
    else ata_poll_loop B n }"

definition ata_poll :: "'h bus \<Rightarrow> ('h, unit result) io" where
  "ata_poll B = do { times 4 (inb B (BASE + 7)); ata_poll_loop B 10000001 }"

text \<open>\<^verbatim>\<open>x as u8\<close> of a shifted address.\<close>

definition lba_byte :: "nat \<Rightarrow> nat \<Rightarrow> byte" where
  "lba_byte lba k = word_of_nat (lba div 2 ^ k)"

definition select :: "'h bus \<Rightarrow> nat \<Rightarrow> byte \<Rightarrow> ('h, unit) io" where
  "select B lba count = do {
    outb B (BASE + 6) (DRIVE_MASTER_LBA OR (lba_byte lba 24 AND 0x0F));
    times 4 (inb B (BASE + 7));
    outb B (BASE + 2) count;
    outb B (BASE + 3) (lba_byte lba 0);
    outb B (BASE + 4) (lba_byte lba 8);
    outb B (BASE + 5) (lba_byte lba 16) }"

definition id_sectors28 :: "u16 list \<Rightarrow> nat" where
  "id_sectors28 w = unat (w ! 60) + unat (w ! 61) * 2 ^ 16"

definition probe :: "'h bus \<Rightarrow> nat \<Rightarrow> ('h, ata option) io" where
  "probe B b = do {
    outb B CTRL 0x00;
    outb B (BASE + 6) DRIVE_MASTER_LBA;
    times 4 (inb B (BASE + 7));
    outb B (BASE + 2) 0;
    outb B (BASE + 3) 0;
    outb B (BASE + 4) 0;
    outb B (BASE + 5) 0;
    outb B (BASE + 7) 0xEC;
    s \<leftarrow> inb B (BASE + 7);
    if s = 0 then State_Monad.return None
    else do {
      r \<leftarrow> ata_poll B;
      case r of Inl e \<Rightarrow> State_Monad.return None
      | Inr _ \<Rightarrow> do {
          w \<leftarrow> times 256 (inw B BASE);
          State_Monad.return (Some \<lparr>ata_base = b, ata_sectors = id_sectors28 w - b\<rparr>) } } }"

text \<open>A data word holds the two bytes of a chunk, low byte first.\<close>

definition word_bytes :: "u16 \<Rightarrow> byte list" where
  "word_bytes w = [ucast w, ucast (drop_bit 8 w)]"

fun byte_words :: "byte list \<Rightarrow> u16 list" where
  "byte_words (a # b # bs) = (ucast a OR push_bit 8 (ucast b)) # byte_words bs"
| "byte_words _ = []"

text \<open>\<^verbatim>\<open>chunks_exact(2)\<close> of a buffer of \<open>n\<close> bytes has \<open>n div 2\<close> chunks.\<close>

definition read_data :: "'h bus \<Rightarrow> nat \<Rightarrow> nat \<Rightarrow> ('h, byte list) io" where
  "read_data B p n = do { ws \<leftarrow> times (n div 2) (inw B p); State_Monad.return (concat (map word_bytes ws)) }"

definition read_boot_sector :: "'h bus \<Rightarrow> nat \<Rightarrow> ('h, byte list result) io" where
  "read_boot_sector B n =
    (if n \<noteq> SECTOR then State_Monad.return (Inl Io)
     else do {
       select B 0 1;
       outb B (BASE + 7) 0x20;
       r \<leftarrow> ata_poll B;
       case r of Inl e \<Rightarrow> State_Monad.return (Inl e)
       | Inr _ \<Rightarrow> do { bs \<leftarrow> read_data B BASE n; State_Monad.return (Inr bs) } })"

definition ata_read_sector :: "'h bus \<Rightarrow> ata \<Rightarrow> nat \<Rightarrow> nat \<Rightarrow> ('h, byte list result) io" where
  "ata_read_sector B a lba n =
    (if n \<noteq> SECTOR \<or> ata_sectors a \<le> lba then State_Monad.return (Inl Io)
     else do {
       select B (ata_base a + lba) 1;
       outb B (BASE + 7) 0x20;
       r \<leftarrow> ata_poll B;
       case r of Inl e \<Rightarrow> State_Monad.return (Inl e)
       | Inr _ \<Rightarrow> do { bs \<leftarrow> read_data B BASE n; State_Monad.return (Inr bs) } })"

fun flush_loop :: "'h bus \<Rightarrow> nat \<Rightarrow> ('h, unit result) io" where
  "flush_loop B 0 = State_Monad.return (Inl Io)"
| "flush_loop B (Suc n) = do {
    s \<leftarrow> inb B (BASE + 7);
    if s AND ST_BSY = 0
    then (if s AND ST_ERR \<noteq> 0 then State_Monad.return (Inl Io) else State_Monad.return (Inr ()))
    else flush_loop B n }"

definition ata_flush :: "'h bus \<Rightarrow> ('h, unit result) io" where
  "ata_flush B = do { outb B (BASE + 7) 0xE7; flush_loop B 10000001 }"

definition ata_write_sector :: "'h bus \<Rightarrow> ata \<Rightarrow> nat \<Rightarrow> byte list \<Rightarrow> ('h, unit result) io" where
  "ata_write_sector B a lba buf =
    (if length buf \<noteq> SECTOR \<or> ata_sectors a \<le> lba then State_Monad.return (Inl Io)
     else do {
       select B (ata_base a + lba) 1;
       outb B (BASE + 7) 0x30;
       r \<leftarrow> ata_poll B;
       case r of Inl e \<Rightarrow> State_Monad.return (Inl e)
       | Inr _ \<Rightarrow> do { each (byte_words buf) (outw B BASE); ata_flush B } })"

section \<open>Enumeration of the IDE slots\<close>

definition SECONDARY_BASE :: nat where "SECONDARY_BASE = 0x170"
definition SECONDARY_CTRL :: nat where "SECONDARY_CTRL = 0x376"
definition SLOT_POLL_LIMIT :: nat where "SLOT_POLL_LIMIT = 500000"

record partition =
  bootable :: bool
  type_byte :: byte
  start_lba :: nat
  part_sectors :: nat

record boot_header =
  version :: nat
  data_loc_lba :: nat
  stage2_lba :: nat
  stage2_sectors :: nat
  kernel_lba :: nat
  kernel_sectors :: nat
  kernel_load :: nat
  kernel_entry :: nat
  sys_guid :: "byte list"

datatype mbr_info =
    TablesOs boot_header
  | Partitioned "partition list"
  | Blank
  | Unknown
  | Unreadable

record drive_info =
  slot :: string
  present :: bool
  model :: string
  serial :: string
  firmware :: string
  lba28_sectors :: nat
  lba48_sectors :: nat
  boot_sig_ok :: bool
  mbr :: mbr_info
  booted :: bool

text \<open>The wait for data of the two enumeration routines; \<^term>\<open>True\<close> when the device is ready.\<close>

fun slot_poll :: "'h bus \<Rightarrow> nat \<Rightarrow> nat \<Rightarrow> ('h, bool) io" where
  "slot_poll B p 0 = State_Monad.return False"
| "slot_poll B p (Suc n) = do {
    s \<leftarrow> inb B (p + 7);
    if s = 0xFF then State_Monad.return False
    else if s AND ST_ERR \<noteq> 0 then do { inb B (p + 1); State_Monad.return False }
    else if s AND ST_BSY = 0 \<and> s AND ST_DRQ \<noteq> 0 then State_Monad.return True
    else slot_poll B p n }"

definition identify_slot :: "'h bus \<Rightarrow> nat \<Rightarrow> nat \<Rightarrow> bool \<Rightarrow> ('h, u16 list option) io" where
  "identify_slot B p ctrl slave = do {
    outb B ctrl 0x00;
    outb B (p + 6) (if slave then 0xB0 else 0xA0);
    times 4 (inb B (p + 7));
    s \<leftarrow> inb B (p + 7);
    if s = 0xFF then State_Monad.return None
    else do {
      outb B (p + 2) 0;
      outb B (p + 3) 0;
      outb B (p + 4) 0;
      outb B (p + 5) 0;
      outb B (p + 7) 0xEC;
      s \<leftarrow> inb B (p + 7);
      if s = 0 then State_Monad.return None
      else do {
        ready \<leftarrow> slot_poll B p (SLOT_POLL_LIMIT + 1);
        if \<not> ready then State_Monad.return None
        else do { w \<leftarrow> times 256 (inw B p); State_Monad.return (Some w) } } } }"

definition read_sector_at :: "'h bus \<Rightarrow> nat \<Rightarrow> bool \<Rightarrow> nat \<Rightarrow> ('h, byte list option) io" where
  "read_sector_at B p slave lba = do {
    outb B (p + 6) ((if slave then 0xF0 else 0xE0) OR (lba_byte lba 24 AND 0x0F));
    times 4 (inb B (p + 7));
    outb B (p + 2) 1;
    outb B (p + 3) (lba_byte lba 0);
    outb B (p + 4) (lba_byte lba 8);
    outb B (p + 5) (lba_byte lba 16);
    outb B (p + 7) 0x20;
    ready \<leftarrow> slot_poll B p (SLOT_POLL_LIMIT + 1);
    if \<not> ready then State_Monad.return None
    else do { bs \<leftarrow> read_data B p SECTOR; State_Monad.return (Some bs) } }"

section \<open>Decoding\<close>

text \<open>Trailing blanks are dropped, bytes that are not printable ASCII skipped.\<close>

definition id_chars :: "u16 \<Rightarrow> string" where
  "id_chars w = map (\<lambda>b. char_of (unat b)) (filter (\<lambda>b. 0x20 \<le> b \<and> b \<le> 0x7E) [ucast (drop_bit 8 w) :: byte, ucast w])"

definition read_id_string :: "u16 list \<Rightarrow> nat \<Rightarrow> nat \<Rightarrow> string" where
  "read_id_string w start n =
    rev (dropWhile (\<lambda>c. c = CHR '' '') (rev (concat (map id_chars (slice w start (start + n))))))"

definition le_at :: "byte list \<Rightarrow> nat \<Rightarrow> nat \<Rightarrow> nat" where
  "le_at s off k = of_le (slice s off (off + k))"

definition MBR_MAGIC :: "byte list" where
  "MBR_MAGIC = map (\<lambda>c. word_of_nat (of_char c)) ''TBLSBOOT''"

definition parse_partition :: "byte list \<Rightarrow> nat \<Rightarrow> partition option" where
  "parse_partition s i =
    (let off = 0x1BE + i * 16; ty = s ! (off + 4) in
     if ty = 0 then None
     else Some \<lparr>bootable = (s ! off = 0x80), type_byte = ty, start_lba = le_at s (off + 8) 4,
                part_sectors = le_at s (off + 12) 4\<rparr>)"

definition parse_header :: "byte list \<Rightarrow> boot_header" where
  "parse_header s =
    \<lparr>version = le_at s 0x1B8 2, data_loc_lba = le_at s 0x1BC 8, stage2_lba = le_at s 0x1C4 4,
     stage2_sectors = le_at s 0x1C8 2, kernel_lba = le_at s 0x1CC 4, kernel_sectors = le_at s 0x1D0 4,
     kernel_load = le_at s 0x1D4 4, kernel_entry = le_at s 0x1D8 4, sys_guid = slice s 0x1DC 0x1EC\<rparr>"

definition parse_mbr :: "byte list \<Rightarrow> mbr_info" where
  "parse_mbr s =
    (if length s < 512 then Unreadable
     else
       let boot_sig = (s ! 510 = 0x55 \<and> s ! 511 = 0xAA) in
       if slice s 0x1B0 0x1B8 = MBR_MAGIC \<and> boot_sig then TablesOs (parse_header s)
       else if \<not> boot_sig then (if list_all (\<lambda>b. b = 0) s then Blank else Unknown)
       else
         let parts = List.map_filter (parse_partition s) [0..<4] in
         if parts = [] then Unknown else Partitioned parts)"

definition id_sectors48 :: "u16 list \<Rightarrow> nat" where
  "id_sectors48 w = unat (w ! 100) + unat (w ! 101) * 2 ^ 16 + unat (w ! 102) * 2 ^ 32 + unat (w ! 103) * 2 ^ 48"

definition probe_one :: "'h bus \<Rightarrow> nat \<Rightarrow> nat \<Rightarrow> bool \<Rightarrow> string \<Rightarrow> byte list \<Rightarrow> ('h, drive_info) io" where
  "probe_one B p ctrl slave name booted_guid = do {
    ident \<leftarrow> identify_slot B p ctrl slave;
    case ident of
      None \<Rightarrow> State_Monad.return \<lparr>slot = name, present = False, model = [], serial = [], firmware = [],
        lba28_sectors = 0, lba48_sectors = 0, boot_sig_ok = False, mbr = Unknown, booted = False\<rparr>
    | Some w \<Rightarrow> do {
        sec0 \<leftarrow> read_sector_at B p slave 0;
        let (m, sig) = (case sec0 of
            Some s \<Rightarrow> (parse_mbr s, s ! 510 = 0x55 \<and> s ! 511 = 0xAA)
          | None \<Rightarrow> (Unreadable, False));
        State_Monad.return \<lparr>slot = name, present = True, model = read_id_string w 27 20,
          serial = read_id_string w 10 10, firmware = read_id_string w 23 4,
          lba28_sectors = id_sectors28 w, lba48_sectors = id_sectors48 w, boot_sig_ok = sig, mbr = m,
          booted = (case m of TablesOs hdr \<Rightarrow> sys_guid hdr = booted_guid | _ \<Rightarrow> False)\<rparr> } }"

fun collect :: "('h, 'a) io list \<Rightarrow> ('h, 'a list) io" where
  "collect [] = State_Monad.return []"
| "collect (a # as) = do { x \<leftarrow> a; xs \<leftarrow> collect as; State_Monad.return (x # xs) }"

definition enumerate_drives :: "'h bus \<Rightarrow> byte list \<Rightarrow> ('h, drive_info list) io" where
  "enumerate_drives B g = collect
    [probe_one B BASE CTRL False ''primary master'' g,
     probe_one B BASE CTRL True ''primary slave'' g,
     probe_one B SECONDARY_BASE SECONDARY_CTRL False ''secondary master'' g,
     probe_one B SECONDARY_BASE SECONDARY_CTRL True ''secondary slave'' g]"

definition partition_type_name :: "byte \<Rightarrow> string" where
  "partition_type_name t = (case map_of
    [(0x01, ''FAT12''), (0x04, ''FAT16 <32M''), (0x05, ''Extended (CHS)''), (0x06, ''FAT16''),
     (0x07, ''NTFS/exFAT''), (0x0B, ''FAT32 (CHS)''), (0x0C, ''FAT32 (LBA)''), (0x0E, ''FAT16 (LBA)''),
     (0x0F, ''Extended (LBA)''), (0x11, ''Hidden FAT12''), (0x16, ''Hidden FAT16''), (0x17, ''Hidden NTFS''),
     (0x1B, ''Hidden FAT32''), (0x82, ''Linux swap''), (0x83, ''Linux''), (0x85, ''Linux extended''),
     (0x8E, ''Linux LVM''), (0xA5, ''FreeBSD''), (0xA8, ''macOS UFS''), (0xAF, ''macOS HFS+''),
     (0xEE, ''GPT protective''), (0xEF, ''EFI System''), (0xFD, ''Linux RAID'')] t of
    Some s \<Rightarrow> s | None \<Rightarrow> ''unknown'')"

text \<open>\<^verbatim>\<open>saturating_mul\<close> on \<^verbatim>\<open>u64\<close>, and the two-digit form of \<^verbatim>\<open>format!\<close>.\<close>

definition saturating_mul :: "nat \<Rightarrow> nat \<Rightarrow> nat" where
  "saturating_mul a b = min (a * b) (2 ^ 64 - 1)"

definition two_digits :: "nat \<Rightarrow> string" where
  "two_digits n = (if n < 10 then ''0'' else []) @ dec_of_nat n"

definition human_size_sectors :: "nat \<Rightarrow> string" where
  "human_size_sectors n =
    (let bytes = saturating_mul n SECTOR in
     if 2 ^ 30 \<le> bytes then
       let k = saturating_mul bytes 100 div 2 ^ 30 in dec_of_nat (k div 100) @ ''.'' @ two_digits (k mod 100) @ '' GiB''
     else if 2 ^ 20 \<le> bytes then
       let k = saturating_mul bytes 100 div 2 ^ 20 in dec_of_nat (k div 100) @ ''.'' @ two_digits (k mod 100) @ '' MiB''
     else if 2 ^ 10 \<le> bytes then dec_of_nat (bytes div 2 ^ 10) @ '' KiB''
     else dec_of_nat bytes @ '' B'')"

definition hex_digit :: "nat \<Rightarrow> char" where
  "hex_digit n = (if n < 10 then char_of (48 + n) else char_of (55 + n))"

definition hex_byte :: "byte \<Rightarrow> string" where
  "hex_byte b = [hex_digit (unat b div 16), hex_digit (unat b mod 16)]"

definition fmt_guid :: "byte list \<Rightarrow> string" where
  "fmt_guid g = concat (map (\<lambda>(i, b). (if i = 8 then '' '' else []) @ hex_byte b) (List.enumerate 0 g))"

section \<open>What the driver asks of the disk\<close>

text \<open>
  The commands of a sequence of port writes, as the disk on the primary channel sees them: the command byte with the
  28-bit address in the drive and address registers at that moment.
\<close>

record task_file =
  tf_drive :: byte
  tf_lba0 :: byte
  tf_lba1 :: byte
  tf_lba2 :: byte

definition tf_lba :: "task_file \<Rightarrow> nat" where
  "tf_lba t = unat (tf_lba0 t) + unat (tf_lba1 t) * 2 ^ 8 + unat (tf_lba2 t) * 2 ^ 16 + unat (tf_drive t AND 0x0F) * 2 ^ 24"

fun commands :: "task_file \<Rightarrow> port_write list \<Rightarrow> (byte \<times> nat) list" where
  "commands t [] = []"
| "commands t (Out8 p v # ws) =
    (if p = 0x1F6 then commands (t\<lparr>tf_drive := v\<rparr>) ws
     else if p = 0x1F3 then commands (t\<lparr>tf_lba0 := v\<rparr>) ws
     else if p = 0x1F4 then commands (t\<lparr>tf_lba1 := v\<rparr>) ws
     else if p = 0x1F5 then commands (t\<lparr>tf_lba2 := v\<rparr>) ws
     else if p = 0x1F7 then (v, tf_lba t) # commands t ws
     else commands t ws)"
| "commands t (w # ws) = commands t ws"

text \<open>The words put on the data port.\<close>

fun data_words :: "port_write list \<Rightarrow> u16 list" where
  "data_words [] = []"
| "data_words (Out16 p v # ws) = (if p = 0x1F0 then v # data_words ws else data_words ws)"
| "data_words (w # ws) = data_words ws"

definition select_writes :: "nat \<Rightarrow> byte \<Rightarrow> port_write list" where
  "select_writes lba count =
    [Out8 0x1F6 (DRIVE_MASTER_LBA OR (lba_byte lba 24 AND 0x0F)), Out8 0x1F2 count, Out8 0x1F3 (lba_byte lba 0),
     Out8 0x1F4 (lba_byte lba 8), Out8 0x1F5 (lba_byte lba 16)]"

lemma quiet_times: "emits (\<lambda>_ ws. ws = []) (times n (inb B p))" "emits (\<lambda>_ ws. ws = []) (times n (inw B p))"
  by (rule emits_mono [OF emits_times], simp_all add: emits_rules)+

lemma emits_select: "emits (\<lambda>_ ws. ws = select_writes lba count) (select B lba count)"
  unfolding select_def select_writes_def BASE_def
  by (rule emits_after_write [OF emits_out(1)] emits_after_read [OF quiet_times(1)])+
    (auto intro: emits_mono [OF emits_out(1)])

lemma emits_poll: "emits (\<lambda>_ ws. ws = []) (ata_poll B)"
proof -
  have "emits (\<lambda>_ ws. ws = []) (ata_poll_loop B n)" for n
    by (induction n) (auto intro!: emits_after_read [OF emits_in(1)] intro: emits_mono [OF emits_return])
  then show ?thesis unfolding ata_poll_def by (intro emits_after_read [OF quiet_times(1)])
qed

lemma emits_flush: "emits (\<lambda>_ ws. ws = [Out8 0x1F7 0xE7]) (ata_flush B)"
proof -
  have "emits (\<lambda>_ ws. ws = []) (flush_loop B n)" for n
    by (induction n) (auto intro!: emits_after_read [OF emits_in(1)] intro: emits_mono [OF emits_return])
  then show ?thesis unfolding ata_flush_def BASE_def
    by (intro emits_bind [OF emits_out(1)]) (assumption, simp)
qed

lemma emits_read_data: "emits (\<lambda>_ ws. ws = []) (read_data B p n)"
  unfolding read_data_def
  by (rule emits_after_read [OF quiet_times(2)]) (auto intro: emits_mono [OF emits_return])

lemma and_low_nibble: "unat (x AND 0x0F :: byte) = unat x mod 16"
proof -
  have "(0x0F :: byte) = mask 4" by (simp add: mask_numeral)
  then have "x AND 0x0F = take_bit 4 x" by (simp add: take_bit_eq_mask)
  then show ?thesis by (simp add: unsigned_take_bit_eq take_bit_nat_def)
qed

lemma drive_nibble: "(DRIVE_MASTER_LBA OR x) AND 0x0F = x AND 0x0F"
  by (simp add: DRIVE_MASTER_LBA_def bit.conj_disj_distrib2)

lemma unat_lba_byte: "unat (lba_byte lba k) = lba div 2 ^ k mod 256"
  by (simp add: lba_byte_def unat_of_nat)

lemma lba28: "(n :: nat) mod 256 + n div 2 ^ 8 mod 256 * 2 ^ 8 + n div 2 ^ 16 mod 256 * 2 ^ 16 + n div 2 ^ 24 mod 16 * 2 ^ 24 = n mod 2 ^ 28"
proof -
  have "n mod (2 ^ 24 * 16) = 2 ^ 24 * (n div 2 ^ 24 mod 16) + n mod 2 ^ 24" by (rule mod_mult2_eq)
  moreover have "n mod (2 ^ 16 * 256) = 2 ^ 16 * (n div 2 ^ 16 mod 256) + n mod 2 ^ 16" by (rule mod_mult2_eq)
  moreover have "n mod (2 ^ 8 * 256) = 2 ^ 8 * (n div 2 ^ 8 mod 256) + n mod 2 ^ 8" by (rule mod_mult2_eq)
  ultimately show ?thesis by simp
qed

lemma commands_select:
  "\<exists>t'. tf_lba t' = lba mod 2 ^ 28 \<and>
    (\<forall>c ws. commands t (select_writes lba count @ Out8 0x1F7 c # ws) = (c, lba mod 2 ^ 28) # commands t' ws)"
proof -
  have d: "unat ((DRIVE_MASTER_LBA OR (lba_byte lba 24 AND 0x0F)) AND 0x0F) = lba div 2 ^ 24 mod 16"
    unfolding drive_nibble and.assoc and.idem and_low_nibble unat_lba_byte by (simp add: mod_mod_cancel)
  have "tf_lba (t\<lparr>tf_drive := DRIVE_MASTER_LBA OR (lba_byte lba 24 AND 0x0F), tf_lba0 := lba_byte lba 0,
    tf_lba1 := lba_byte lba 8, tf_lba2 := lba_byte lba 16\<rparr>) = lba mod 2 ^ 28"
    using lba28 [of lba] by (simp add: tf_lba_def d [simplified] unat_lba_byte)
  then show ?thesis by (intro exI conjI, assumption) (simp add: select_writes_def)
qed

lemma commands_words: "commands t (map (Out16 p) xs @ ws) = commands t ws"
  by (induction xs) auto

lemma data_words_map: "data_words (map (Out16 0x1F0) xs @ ws) = xs @ data_words ws"
  by (induction xs) auto

lemma data_words_select: "data_words (select_writes lba c @ ws) = data_words ws"
  by (simp add: select_writes_def)

lemma emits_read_sector:
  "emits (\<lambda>r ws. (if n \<noteq> SECTOR \<or> ata_sectors a \<le> lba then r = Inl Io \<and> ws = []
     else ws = select_writes (ata_base a + lba) 1 @ [Out8 0x1F7 0x20])) (ata_read_sector B a lba n)"
proof (cases "n \<noteq> SECTOR \<or> ata_sectors a \<le> lba")
  case True
  then show ?thesis by (auto simp: ata_read_sector_def intro: emits_mono [OF emits_return])
next
  case False
  have tail: "emits (\<lambda>_ ws. ws = []) (ata_poll B \<bind> (\<lambda>r. case r of Inl e \<Rightarrow> State_Monad.return (Inl e)
       | Inr _ \<Rightarrow> read_data B BASE n \<bind> (\<lambda>bs. State_Monad.return (Inr bs))))"
    by (rule emits_after_read [OF emits_poll])
      (auto intro!: emits_after_read [OF emits_read_data] intro: emits_mono [OF emits_return] split: sum.splits)
  have "emits (\<lambda>_ ws. ws = select_writes (ata_base a + lba) 1 @ [Out8 0x1F7 0x20])
    (select B (ata_base a + lba) 1 \<bind> (\<lambda>_. outb B (BASE + 7) 0x20 \<bind> (\<lambda>_. ata_poll B \<bind>
      (\<lambda>r. case r of Inl e \<Rightarrow> State_Monad.return (Inl e)
       | Inr _ \<Rightarrow> read_data B BASE n \<bind> (\<lambda>bs. State_Monad.return (Inr bs))))))"
    by (rule emits_after_write [OF emits_select], rule emits_bind [OF emits_out(1) tail]) (simp add: BASE_def)
  then show ?thesis using False unfolding ata_read_sector_def by auto
qed

lemma emits_write_sector:
  "emits (\<lambda>r ws. (if length buf \<noteq> SECTOR \<or> ata_sectors a \<le> lba then r = Inl Io \<and> ws = []
     else \<exists>rest. ws = select_writes (ata_base a + lba) 1 @ Out8 0x1F7 0x30 # rest \<and>
       (rest = [] \<and> r \<noteq> Inr () \<or> rest = map (Out16 0x1F0) (byte_words buf) @ [Out8 0x1F7 0xE7]))) (ata_write_sector B a lba buf)"
proof (cases "length buf \<noteq> SECTOR \<or> ata_sectors a \<le> lba")
  case True
  then show ?thesis by (auto simp: ata_write_sector_def intro: emits_mono [OF emits_return])
next
  case False
  let ?P = "\<lambda>r ws. ws = [] \<and> r \<noteq> Inr () \<or> ws = map (Out16 0x1F0) (byte_words buf) @ [Out8 0x1F7 0xE7]"
  have words: "emits (\<lambda>_ ws. ws = map (Out16 0x1F0) xs) (each xs (outw B BASE))" for xs
    by (rule emits_each) (simp add: emits_out BASE_def)
  have "emits ?P (each (byte_words buf) (outw B BASE) \<bind> (\<lambda>_. ata_flush B))"
    by (rule emits_bind [OF words emits_flush]) simp
  then have tail: "emits ?P (ata_poll B \<bind> (\<lambda>r. case r of Inl e \<Rightarrow> State_Monad.return (Inl e)
       | Inr _ \<Rightarrow> each (byte_words buf) (outw B BASE) \<bind> (\<lambda>_. ata_flush B)))"
    by (intro emits_after_read [OF emits_poll]) (auto intro: emits_mono [OF emits_return] split: sum.splits)
  have "emits (\<lambda>r ws. \<exists>rest. ws = select_writes (ata_base a + lba) 1 @ Out8 0x1F7 0x30 # rest \<and> ?P r rest)
    (select B (ata_base a + lba) 1 \<bind> (\<lambda>_. outb B (BASE + 7) 0x30 \<bind> (\<lambda>_. ata_poll B \<bind>
      (\<lambda>r. case r of Inl e \<Rightarrow> State_Monad.return (Inl e)
       | Inr _ \<Rightarrow> each (byte_words buf) (outw B BASE) \<bind> (\<lambda>_. ata_flush B)))))"
    by (rule emits_after_write [OF emits_select], rule emits_bind [OF emits_out(1) tail]) (simp add: BASE_def)
  then show ?thesis using False by (simp add: ata_write_sector_def)
qed

lemma word_bytes_pair: "word_bytes (ucast a OR push_bit 8 (ucast b)) = [a, b]"
proof -
  have "ucast (ucast a OR push_bit 8 (ucast b) :: u16) = a"
    by (rule bit_eqI) (auto simp: bit_simps)
  moreover have "ucast (drop_bit 8 (ucast a OR push_bit 8 (ucast b) :: u16)) = b"
    by (rule bit_eqI) (auto simp: bit_simps dest: bit_imp_le_length)
  ultimately show ?thesis by (simp add: word_bytes_def)
qed

lemma byte_words_bytes: "even (length buf) \<Longrightarrow> concat (map word_bytes (byte_words buf)) = buf"
  by (induction buf rule: byte_words.induct) (simp_all add: word_bytes_pair)

text \<open>The writes of a routine that only reads the disk: no data word, and no command but IDENTIFY and READ.\<close>

fun harmless :: "port_write \<Rightarrow> bool" where
  "harmless (Out8 p v) \<longleftrightarrow> (p = BASE + 7 \<or> p = SECONDARY_BASE + 7 \<longrightarrow> v = 0xEC \<or> v = 0x20)"
| "harmless w \<longleftrightarrow> False"

lemma slot_poll_harmless: "emits (\<lambda>_. list_all harmless) (slot_poll B p n)"
  by (induction n) (auto intro!: emits_all)

lemma read_data_harmless: "emits (\<lambda>_. list_all harmless) (read_data B p n)"
  unfolding read_data_def by (intro emits_all)

lemma probe_one_harmless:
  assumes "(p, c) \<in> {(BASE, CTRL), (SECONDARY_BASE, SECONDARY_CTRL)}"
  shows "emits (\<lambda>_. list_all harmless) (probe_one B p c slave name g)"
proof -
  have ports: "harmless (Out8 c 0)" "\<And>k v. k < 7 \<Longrightarrow> harmless (Out8 (p + k) v)" "harmless (Out8 (p + 7) 0xEC)"
    "harmless (Out8 (p + 7) 0x20)"
    using assms by (auto simp: BASE_def CTRL_def SECONDARY_BASE_def SECONDARY_CTRL_def)
  have "emits (\<lambda>_. list_all harmless) (identify_slot B p c slave)"
    unfolding identify_slot_def
    by (intro emits_all ports slot_poll_harmless emits_if) simp_all
  moreover have "emits (\<lambda>_. list_all harmless) (read_sector_at B p slave 0)"
    unfolding read_sector_at_def
    by (intro emits_all ports slot_poll_harmless read_data_harmless emits_if) simp_all
  ultimately show ?thesis
    unfolding probe_one_def by (auto intro!: emits_all split: option.splits prod.splits)
qed

section \<open>Properties\<close>

text \<open>C23 The disk driver never leaves the volume, whatever the hardware answers. For a volume that ends within the \<open>2\<^sup>28\<close> sectors
  of LBA28, a read issues at most one command, READ of the sector \<^verbatim>\<open>base + lba\<close>; a write issues WRITE of that sector, and,
  if the disk accepts it, sends exactly the bytes of the buffer and then a cache flush. An address outside the volume gives an
  error and touches no port. So the boot sector and the kernel in front of the volume cannot be reached.\<close>

theorem driver_stays_in_volume:
  assumes "ata_base a + ata_sectors a \<le> 2 ^ 28"
  shows "emits (\<lambda>r ws. if n = SECTOR \<and> lba < ata_sectors a then commands t ws = [(0x20, ata_base a + lba)] \<and> data_words ws = []
      else r = Inl Io \<and> ws = []) (ata_read_sector B a lba n) \<and>
    emits (\<lambda>r ws. if length buf = SECTOR \<and> lba < ata_sectors a
      then commands t ws = [(0x30, ata_base a + lba)] \<and> data_words ws = [] \<and> r \<noteq> Inr () \<or>
        commands t ws = [(0x30, ata_base a + lba), (0xE7, ata_base a + lba)] \<and>
        concat (map word_bytes (data_words ws)) = buf
      else r = Inl Io \<and> ws = []) (ata_write_sector B a lba buf)"
proof -
  obtain t' where t': "tf_lba t' = (ata_base a + lba) mod 2 ^ 28"
    "commands t (select_writes (ata_base a + lba) 1 @ Out8 0x1F7 c # ws) = (c, (ata_base a + lba) mod 2 ^ 28) # commands t' ws"
    for c ws using commands_select [of "ata_base a + lba" t 1] by auto
  have even: "length buf = SECTOR \<Longrightarrow> even (length buf)" by (simp add: SECTOR_def)
  show ?thesis
  proof (intro conjI, goal_cases)
    case 1
    show ?case using assms t'
      by (intro emits_mono [OF emits_read_sector]) (auto simp: data_words_select split: if_splits)
  next
    case 2
    show ?case using assms t' byte_words_bytes [OF even]
      by (intro emits_mono [OF emits_write_sector])
        (auto simp: data_words_select data_words_map commands_words split: if_splits)
  qed
qed

theorem driver_stays_in_volume_witness:
  "emits (\<lambda>r ws. commands \<lparr>tf_drive = 0, tf_lba0 = 0, tf_lba1 = 0, tf_lba2 = 0\<rparr> ws = [(0x20, 4099)] \<and> data_words ws = [])
    (ata_read_sector floating \<lparr>ata_base = 4096, ata_sectors = 100\<rparr> 3 SECTOR)"
  using driver_stays_in_volume [of "\<lparr>ata_base = 4096, ata_sectors = 100\<rparr>" SECTOR 3
      "\<lparr>tf_drive = 0, tf_lba0 = 0, tf_lba1 = 0, tf_lba2 = 0\<rparr>" floating "[]"] by simp

text \<open>The drive enumeration is read-only: whatever is attached to the four IDE slots, listing the drives sends no data word and no
  command other than IDENTIFY and READ SECTORS.\<close>

theorem enumeration_read_only:
  "emits (\<lambda>_ ws. list_all harmless ws) (enumerate_drives B g)"
  unfolding enumerate_drives_def collect.simps
  by (intro emits_all_bind emits_all_return probe_one_harmless) simp_all

end
