(* ===== verification/Pci.thy ===== *)
theory Pci
  imports Ports
begin

text \<open>
  PCI configuration space, \<^verbatim>\<open>kernel/src/pci.rs\<close>: the address/data port pair, the scan of all buses, the decoding of base address
  registers, and the update of a device's command register. The devices behind the ports are the parameter \<^verbatim>\<open>bus\<close>.
\<close>

unbundle bit_operations_syntax

section \<open>Reading configuration space\<close>

definition CONFIG_ADDR :: nat where
  "CONFIG_ADDR = 0xCF8"

definition CONFIG_DATA :: nat where
  "CONFIG_DATA = 0xCFC"

record pci_device =
  pci_bus :: byte
  pci_slot :: byte
  pci_func :: byte
  vendor :: u16
  device_id :: u16
  revision :: byte
  prog_if :: byte
  sub_class :: byte
  pci_class :: byte
  header_type :: byte
  bars :: "u32 list"
  irq_line :: byte
  irq_pin :: byte

definition config_addr :: "byte \<Rightarrow> byte \<Rightarrow> byte \<Rightarrow> byte \<Rightarrow> u32" where
  "config_addr b s f off = 0x80000000 OR push_bit 16 (ucast b) OR push_bit 11 (ucast s) OR push_bit 8 (ucast f) OR (ucast off AND 0xFC)"

definition read32 :: "'h bus \<Rightarrow> byte \<Rightarrow> byte \<Rightarrow> byte \<Rightarrow> byte \<Rightarrow> ('h, u32) io" where
  "read32 B b s f off = do { outl B CONFIG_ADDR (config_addr b s f off); inl B CONFIG_DATA }"

text \<open>The registers of one function, once the five groups of registers are read.\<close>

definition header_byte :: "u32 \<Rightarrow> byte" where
  "header_byte h = ucast (drop_bit 16 h)"

definition make_device :: "byte \<Rightarrow> byte \<Rightarrow> byte \<Rightarrow> u32 \<Rightarrow> u32 \<Rightarrow> u32 \<Rightarrow> u32 list \<Rightarrow> u32 \<Rightarrow> pci_device" where
  "make_device b s f v_d cls h bs irq = \<lparr>pci_bus = b, pci_slot = s, pci_func = f, vendor = ucast v_d, device_id = ucast (drop_bit 16 v_d),
     revision = ucast cls, prog_if = ucast (drop_bit 8 cls), sub_class = ucast (drop_bit 16 cls), pci_class = ucast (drop_bit 24 cls),
     header_type = header_byte h, bars = bs, irq_line = ucast irq, irq_pin = ucast (drop_bit 8 irq)\<rparr>"

definition bar_offset :: "nat \<Rightarrow> byte" where
  "bar_offset i = 0x10 + of_nat i * 4"

text \<open>A loop that reads something for every element of a list.\<close>

fun gather :: "('x \<Rightarrow> ('h, 'a) io) \<Rightarrow> 'x list \<Rightarrow> ('h, 'a list) io" where
  "gather f [] = State_Monad.return []"
| "gather f (x # xs) = do { y \<leftarrow> f x; ys \<leftarrow> gather f xs; State_Monad.return (y # ys) }"

definition read_one :: "'h bus \<Rightarrow> byte \<Rightarrow> byte \<Rightarrow> byte \<Rightarrow> ('h, pci_device option) io" where
  "read_one B b s f = do {
     v_d \<leftarrow> read32 B b s f 0x00;
     if (ucast v_d :: u16) = 0xFFFF then State_Monad.return None
     else do {
       cls \<leftarrow> read32 B b s f 0x08;
       h \<leftarrow> read32 B b s f 0x0C;
       bs \<leftarrow> (if header_byte h AND 0x7F = 0 then gather (\<lambda>i. read32 B b s f (bar_offset i)) [0..<6]
              else State_Monad.return (replicate 6 0));
       irq \<leftarrow> read32 B b s f 0x3C;
       State_Monad.return (Some (make_device b s f v_d cls h bs irq)) } }"

definition multifunction :: "pci_device \<Rightarrow> bool" where
  "multifunction d \<longleftrightarrow> header_type d AND 0x80 \<noteq> 0"

definition scan_slot :: "'h bus \<Rightarrow> nat \<times> nat \<Rightarrow> ('h, pci_device list) io" where
  "scan_slot B bs = (case bs of (b, s) \<Rightarrow> do {
     d0 \<leftarrow> read_one B (of_nat b) (of_nat s) 0;
     case d0 of
       None \<Rightarrow> State_Monad.return []
     | Some d \<Rightarrow>
         if multifunction d then do {
           ds \<leftarrow> gather (\<lambda>f. read_one B (of_nat b) (of_nat s) (of_nat f)) [1..<8];
           State_Monad.return (d # concat (map (\<lambda>x. case x of None \<Rightarrow> [] | Some y \<Rightarrow> [y]) ds)) }
         else State_Monad.return [d] })"

definition pci_enumerate :: "'h bus \<Rightarrow> ('h, pci_device list) io" where
  "pci_enumerate B = do {
     dss \<leftarrow> gather (scan_slot B) (List.product [0..<256] [0..<32]);
     State_Monad.return (concat dss) }"

section \<open>Names and base addresses\<close>

definition class_name :: "byte \<Rightarrow> byte \<Rightarrow> byte \<Rightarrow> string" where
  "class_name c s p = (
     if c = 0x00 then ''Unclassified''
     else if c = 0x01 then
       (if s = 0x00 then ''SCSI controller'' else if s = 0x01 then ''IDE controller'' else if s = 0x04 then ''RAID controller''
        else if s = 0x05 then ''ATA controller'' else if s = 0x06 then (if p = 0x01 then ''SATA AHCI'' else ''SATA controller'')
        else if s = 0x08 then (if p = 0x02 then ''NVMe controller'' else ''NVM controller'') else ''Mass-storage controller'')
     else if c = 0x02 then ''Network controller''
     else if c = 0x03 then ''Display controller''
     else if c = 0x04 then ''Multimedia controller''
     else if c = 0x05 then ''Memory controller''
     else if c = 0x06 then
       (if s = 0x00 then ''Host bridge'' else if s = 0x01 then ''ISA bridge'' else if s = 0x04 then ''PCI-to-PCI bridge'' else ''Bridge'')
     else if c = 0x07 then ''Communication controller''
     else if c = 0x08 then ''Generic system peripheral''
     else if c = 0x09 then ''Input device''
     else if c = 0x0B then ''Processor''
     else if c = 0x0C then
       (if s = 0x03 then
          (if p = 0x00 then ''USB UHCI (USB 1.x)'' else if p = 0x10 then ''USB OHCI (USB 1.x)'' else if p = 0x20 then ''USB EHCI (USB 2.0)''
           else if p = 0x30 then ''USB xHCI (USB 3.x)'' else if p = 0x40 then ''USB4 controller''
           else if p = 0xFE then ''USB device (not host)'' else ''USB controller'')
        else if s = 0x05 then ''SMBus controller'' else ''Serial bus controller'')
     else ''(other)'')"

definition vendor_name :: "u16 \<Rightarrow> string" where
  "vendor_name v = (
     if v = 0x1022 then ''AMD'' else if v = 0x10DE then ''NVIDIA'' else if v = 0x10EC then ''Realtek''
     else if v = 0x1234 then ''QEMU std VGA'' else if v = 0x14E4 then ''Broadcom'' else if v = 0x15AD then ''VMware''
     else if v = 0x1AF4 then ''Red Hat (virtio)'' else if v = 0x1B36 then ''Red Hat (QEMU)'' else if v = 0x8086 then ''Intel''
     else ''(unknown vendor)'')"

definition is_usb_host :: "pci_device \<Rightarrow> bool" where
  "is_usb_host d \<longleftrightarrow> pci_class d = 0x0C \<and> sub_class d = 0x03"

definition is_mass_storage :: "pci_device \<Rightarrow> bool" where
  "is_mass_storage d \<longleftrightarrow> pci_class d = 0x01"

text \<open>Indexing past the registers gives no address; the high half of a 64-bit address that would lie past them is zero.\<close>

definition bar_address :: "pci_device \<Rightarrow> nat \<Rightarrow> 64 word" where
  "bar_address d i =
     (if length (bars d) \<le> i then 0
      else let b0 = bars d ! i in
        if b0 = 0 \<or> b0 = 0xFFFFFFFF then 0
        else if b0 AND 1 \<noteq> 0 then 0
        else let lo = ucast (b0 AND NOT 0xF) in
          if drop_bit 1 b0 AND 0x3 = 0x2
          then lo OR push_bit 32 (ucast (if i + 1 < length (bars d) then bars d ! (i + 1) else 0))
          else lo)"

section \<open>The command register\<close>

definition modify_command :: "'h bus \<Rightarrow> byte \<Rightarrow> byte \<Rightarrow> byte \<Rightarrow> u16 \<Rightarrow> u16 \<Rightarrow> ('h, u16) io" where
  "modify_command B b s f on off = do {
     v \<leftarrow> read32 B b s f 0x04;
     outl B CONFIG_ADDR (config_addr b s f 0x04);
     outl B CONFIG_DATA ((v AND 0xFFFF0000) OR ucast ((ucast v AND NOT off) OR on));
     State_Monad.return (ucast v) }"

definition enable_mmio_and_bus_master :: "'h bus \<Rightarrow> pci_device \<Rightarrow> ('h, u16) io" where
  "enable_mmio_and_bus_master B d = modify_command B (pci_bus d) (pci_slot d) (pci_func d) 0x0006 0x0000"

section \<open>Scanning only reads\<close>

text \<open>A write that selects a register: to the address port, with the enable bit, of an aligned offset.\<close>

fun selects_register :: "port_write \<Rightarrow> bool" where
  "selects_register (Out32 p v) \<longleftrightarrow> p = CONFIG_ADDR \<and> bit v 31 \<and> v AND 3 = 0 \<and> v AND 0x7F000000 = 0"
| "selects_register _ \<longleftrightarrow> False"

lemma config_addr_bit:
  "bit (config_addr b s f off) n \<longleftrightarrow> n < 32 \<and> (n = 31 \<or> 16 \<le> n \<and> bit b (n - 16) \<or> 11 \<le> n \<and> bit s (n - 11) \<or>
     8 \<le> n \<and> bit f (n - 8) \<or> 2 \<le> n \<and> n < 8 \<and> bit off n)"
proof -
  have c: "(0x80000000 :: u32) = push_bit 31 1" "(0xFC :: u32) = push_bit 2 (mask 6)" by (simp_all add: mask_eq_exp_minus_1)
  have 1: "bit (push_bit 31 1 :: u32) n \<longleftrightarrow> n = 31"
    by (auto simp only: bit_push_bit_iff bit_1_iff possible_bit_word len_num1 len_bit0 len_bit1)
  have p: "bit (push_bit k (ucast x) :: u32) n \<longleftrightarrow> n < 32 \<and> k \<le> n \<and> bit x (n - k)" for k and x :: byte
    by (auto simp: bit_push_bit_iff bit_ucast_iff)
  have q: "bit (ucast off AND push_bit 2 (mask 6) :: u32) n \<longleftrightarrow> 2 \<le> n \<and> n < 8 \<and> bit off n"
    by (auto simp add: bit_push_bit_iff bit_ucast_iff bit_mask_iff bit_and_iff simp del: push_bit_numeral_minus_1 dest: bit_imp_le_length)
  show ?thesis unfolding config_addr_def c bit_or_iff 1 p q by auto
qed

lemma config_addr_selects: "selects_register (Out32 CONFIG_ADDR (config_addr b s f off))"
proof -
  have c: "(3 :: u32) = mask 2" "(0x7F000000 :: u32) = push_bit 24 (mask 7)" by (simp_all add: mask_eq_exp_minus_1)
  have b: "bit b n \<Longrightarrow> n < 8" "bit s n \<Longrightarrow> n < 8" "bit f n \<Longrightarrow> n < 8" for n using bit_imp_le_length[of _ n] by fastforce+
  have "config_addr b s f off AND 3 = 0" unfolding c
    by (rule bit_word_eqI) (simp only: bit_and_iff config_addr_bit bit_mask_iff possible_bit_word, auto)
  moreover have "config_addr b s f off AND 0x7F000000 = 0" unfolding c
    by (rule bit_word_eqI)
      (simp only: bit_and_iff config_addr_bit bit_push_bit_iff bit_mask_iff possible_bit_word, auto dest: b)
  ultimately show ?thesis by (simp add: config_addr_bit)
qed

lemma emits_gather:
  assumes "\<And>x. emits (\<lambda>_. list_all P) (f x)"
  shows "emits (\<lambda>_. list_all P) (gather f xs)"
  by (induction xs) (auto intro!: emits_all_bind assms emits_all_return)

lemma emits_read32: "emits (\<lambda>_. list_all selects_register) (read32 B b s f off)"
  unfolding read32_def by (intro emits_all) (rule config_addr_selects)

lemma emits_read_one: "emits (\<lambda>_. list_all selects_register) (read_one B b s f)"
  unfolding read_one_def by (intro emits_all emits_if emits_read32 emits_gather)

lemma emits_scan_slot: "emits (\<lambda>_. list_all selects_register) (scan_slot B bs)"
proof -
  have "emits (\<lambda>_. list_all selects_register) (case d0 of None \<Rightarrow> State_Monad.return []
     | Some d \<Rightarrow> if multifunction d then do { ds \<leftarrow> gather (\<lambda>f. read_one B b s (of_nat f)) [1..<8];
           State_Monad.return (d # concat (map (\<lambda>x. case x of None \<Rightarrow> [] | Some y \<Rightarrow> [y]) ds)) }
         else State_Monad.return [d])" for d0 b s
    by (cases d0) (auto intro!: emits_all emits_gather emits_read_one)
  then show ?thesis by (auto simp: scan_slot_def intro!: emits_all_bind emits_read_one split: prod.split)
qed

text \<open>Listing the PCI devices cannot change them: whatever the hardware answers, the scan of all buses writes nothing but the
  address port, always with the enable bit, a register offset that is a multiple of four and the reserved bits clear.\<close>

theorem pci_enumerate_only_reads:
  "emits (\<lambda>_ ws. list_all selects_register ws) (pci_enumerate B)"
  unfolding pci_enumerate_def by (intro emits_all emits_gather emits_scan_slot)

section \<open>The scan finds every function\<close>

text \<open>
  The hardware, by the layout of the PCI specification: every function has 256 bytes of registers. A write to port \<open>0xCF8\<close>
  latches an address: bit 31 enables, bits 16 to 23 are the bus, 11 to 15 the slot, 8 to 10 the function and 2 to 7 the register. A read
  of port \<open>0xCFC\<close> gives the four bytes there, the lowest first.
\<close>

type_synonym space = "nat \<Rightarrow> nat \<Rightarrow> nat \<Rightarrow> nat \<Rightarrow> byte"

definition dword :: "(nat \<Rightarrow> byte) \<Rightarrow> nat \<Rightarrow> u32" where
  "dword c r = of_nat (unat (c r) + 2 ^ 8 * unat (c (r + 1)) + 2 ^ 16 * unat (c (r + 2)) + 2 ^ 24 * unat (c (r + 3)))"

definition latched :: "space \<Rightarrow> nat \<Rightarrow> u32" where
  "latched sp a = (if a < 2 ^ 31 then 0xFFFFFFFF
     else dword (sp (a div 2 ^ 16 mod 256) (a div 2 ^ 11 mod 32) (a div 2 ^ 8 mod 8)) (a mod 256 div 4 * 4))"

definition config_bus :: "space \<Rightarrow> u32 bus" where
  "config_bus sp = \<lparr>in8 = (\<lambda>p h. (0xFF, h)), in16 = (\<lambda>p h. (0xFFFF, h)),
     in32 = (\<lambda>p h. (if p = 0xCFC then latched sp (unat h) else 0xFFFFFFFF, h)),
     out8 = (\<lambda>p v h. h), out16 = (\<lambda>p v h. h), out32 = (\<lambda>p v h. if p = 0xCF8 then v else h)\<rparr>"

text \<open>What there is at a place: nothing, when the vendor reads as all ones, or a device, each field at its offset in the registers.\<close>

definition device_at :: "space \<Rightarrow> nat \<Rightarrow> nat \<Rightarrow> nat \<Rightarrow> pci_device option" where
  "device_at sp b s f = (let c = sp b s f in
     if c 0 = 255 \<and> c 1 = 255 then None
     else Some \<lparr>pci_bus = of_nat b, pci_slot = of_nat s, pci_func = of_nat f,
       vendor = of_nat (unat (c 0) + 256 * unat (c 1)), device_id = of_nat (unat (c 2) + 256 * unat (c 3)),
       revision = c 8, prog_if = c 9, sub_class = c 10, pci_class = c 11, header_type = c 14,
       bars = (if unat (c 14) mod 128 = 0 then map (dword c) [16, 20, 24, 28, 32, 36] else [0, 0, 0, 0, 0, 0]),
       irq_line = c 60, irq_pin = c 61\<rparr>)"

text \<open>The highest bit of the header type of function 0 says that there are others.\<close>

definition functions_of :: "space \<Rightarrow> nat \<times> nat \<Rightarrow> pci_device list" where
  "functions_of sp bs = (case bs of (b, s) \<Rightarrow> (case device_at sp b s 0 of
      None \<Rightarrow> []
    | Some d \<Rightarrow> d # (if 128 \<le> unat (sp b s 0 14) then List.map_filter (device_at sp b s) [1, 2, 3, 4, 5, 6, 7] else [])))"

lemma byte_bounds: "unat (x :: byte) < 256"
  using unsigned_less[of x] by simp

lemma unat_small: "n < 2 ^ 32 \<Longrightarrow> unat (of_nat n :: u32) = n"
  by (simp add: unat_of_nat)

lemma unat_dword:
  "unat (dword c r) = unat (c r) + 2 ^ 8 * unat (c (r + 1)) + 2 ^ 16 * unat (c (r + 2)) + 2 ^ 24 * unat (c (r + 3))"
  unfolding dword_def by (rule unat_small)
    (use byte_bounds[of "c r"] byte_bounds[of "c (r + 1)"] byte_bounds[of "c (r + 2)"] byte_bounds[of "c (r + 3)"] in simp)

lemma unat_byte_of: "unat (ucast (drop_bit k w) :: byte) = unat w div 2 ^ k mod 256" for w :: u32
  by (simp add: unsigned_ucast_eq unat_drop_bit_eq take_bit_eq_mod) (simp add: drop_bit_eq_div)

lemma unat_and_mask: "unat (x AND mask n) = unat x mod 2 ^ n" for x :: byte
  unfolding take_bit_eq_mask[symmetric] unsigned_take_bit_eq by (rule take_bit_eq_mod)

lemma base_256:
  fixes b0 b1 b2 b3 :: nat
  assumes "b0 < 256" "b1 < 256" "b2 < 256" "b3 < 256"
  shows "(b0 + 256 * b1 + 65536 * b2 + 16777216 * b3) mod 256 = b0" "(b0 + 256 * b1 + 65536 * b2 + 16777216 * b3) div 256 mod 256 = b1"
    "(b0 + 256 * b1 + 65536 * b2 + 16777216 * b3) div 65536 mod 256 = b2" "(b0 + 256 * b1 + 65536 * b2 + 16777216 * b3) div 16777216 mod 256 = b3"
proof -
  have step: "(x + 256 * y) mod 256 = x" "(x + 256 * y) div 256 = y" if "x < 256" for x y :: nat using that by simp_all
  have e: "b0 + 256 * b1 + 65536 * b2 + 16777216 * b3 = b0 + 256 * (b1 + 256 * (b2 + 256 * b3))" by simp
  have d: "n div 65536 = n div 256 div 256" "n div 16777216 = n div 256 div 256 div 256" for n :: nat by (simp_all flip: div_mult2_eq)
  show "(b0 + 256 * b1 + 65536 * b2 + 16777216 * b3) mod 256 = b0" "(b0 + 256 * b1 + 65536 * b2 + 16777216 * b3) div 256 mod 256 = b1"
    "(b0 + 256 * b1 + 65536 * b2 + 16777216 * b3) div 65536 mod 256 = b2" "(b0 + 256 * b1 + 65536 * b2 + 16777216 * b3) div 16777216 mod 256 = b3"
    unfolding e d by (simp_all only: step assms mod_less)
qed

lemma dword_byte:
  "(ucast (dword c r) :: byte) = c r" "(ucast (drop_bit 8 (dword c r)) :: byte) = c (r + 1)"
  "(ucast (drop_bit 16 (dword c r)) :: byte) = c (r + 2)" "(ucast (drop_bit 24 (dword c r)) :: byte) = c (r + 3)"
proof -
  note b = base_256[OF byte_bounds[of "c r"] byte_bounds[of "c (r + 1)"] byte_bounds[of "c (r + 2)"] byte_bounds[of "c (r + 3)"]]
  have u: "unat (ucast (drop_bit k (dword c r)) :: byte) =
      (unat (c r) + 256 * unat (c (r + 1)) + 65536 * unat (c (r + 2)) + 16777216 * unat (c (r + 3))) div 2 ^ k mod 256" for k
    by (simp only: unat_byte_of unat_dword) simp
  show "(ucast (dword c r) :: byte) = c r" using u[of 0] b(1) by (simp add: word_unat_eq_iff)
  show "(ucast (drop_bit 8 (dword c r)) :: byte) = c (r + 1)" using u[of 8] b(2) by (simp add: word_unat_eq_iff)
  show "(ucast (drop_bit 16 (dword c r)) :: byte) = c (r + 2)" using u[of 16] b(3) by (simp add: word_unat_eq_iff)
  show "(ucast (drop_bit 24 (dword c r)) :: byte) = c (r + 3)" using u[of 24] b(4) by (simp add: word_unat_eq_iff)
qed

lemma unat_dword_half:
  "unat (ucast (dword c r) :: u16) = unat (c r) + 256 * unat (c (r + 1))"
  "unat (ucast (drop_bit 16 (dword c r)) :: u16) = unat (c (r + 2)) + 256 * unat (c (r + 3))"
proof -
  have h: "unat (ucast (drop_bit k w) :: u16) = unat w div 2 ^ k mod 65536" for k and w :: u32
    by (simp add: unsigned_ucast_eq unat_drop_bit_eq take_bit_eq_mod) (simp add: drop_bit_eq_div)
  have e: "unat (dword c r) = (unat (c r) + 256 * unat (c (r + 1))) + 65536 * (unat (c (r + 2)) + 256 * unat (c (r + 3)))"
    by (simp add: unat_dword)
  have l: "unat (c q) + 256 * unat (c (q + 1)) < 65536" for q
    using byte_bounds[of "c q"] byte_bounds[of "c (q + 1)"] by simp
  have step: "(x + 65536 * y) mod 65536 = x" "(x + 65536 * y) div 65536 = y" if "x < 65536" for x y :: nat using that by simp_all
  show "unat (ucast (dword c r) :: u16) = unat (c r) + 256 * unat (c (r + 1))"
  proof -
    have "unat (ucast (dword c r) :: u16) = unat (dword c r) mod 65536" using h[of 0 "dword c r"] by simp
    also have "\<dots> = unat (c r) + 256 * unat (c (r + 1))" unfolding e by (rule step(1)[OF l])
    finally show ?thesis .
  qed
  show "unat (ucast (drop_bit 16 (dword c r)) :: u16) = unat (c (r + 2)) + 256 * unat (c (r + 3))"
  proof -
    have "unat (ucast (drop_bit 16 (dword c r)) :: u16) = unat (dword c r) div 65536 mod 65536" using h[of 16 "dword c r"] by simp
    also have "\<dots> = unat (c (r + 2)) + 256 * unat (c (r + 3))" unfolding e step(2)[OF l[of r]]
      by (rule mod_less) (use byte_bounds[of "c (r + 2)"] byte_bounds[of "c (r + 3)"] in simp)
    finally show ?thesis .
  qed
qed

lemma dword_half:
  "(ucast (dword c r) :: u16) = of_nat (unat (c r) + 256 * unat (c (r + 1)))"
  "(ucast (drop_bit 16 (dword c r)) :: u16) = of_nat (unat (c (r + 2)) + 256 * unat (c (r + 3)))"
  unfolding unat_dword_half[symmetric] by simp_all

lemma small_bits: "uint x < 2 ^ n \<Longrightarrow> bit (x :: byte) k \<Longrightarrow> k < n"
proof -
  assume x: "uint x < 2 ^ n" "bit x k"
  then have "bit (x AND mask n) k" by (simp add: mask_eq_iff[THEN iffD2])
  then show "k < n" by (simp only: bit_and_iff bit_mask_iff)
qed

lemma config_addr_decode:
  assumes "s < 32" "f < 8"
  shows "ucast (drop_bit 16 (config_addr b s f off)) = b" "ucast (drop_bit 11 (config_addr b s f off)) AND 31 = s"
    "ucast (drop_bit 8 (config_addr b s f off)) AND 7 = f" "(ucast (config_addr b s f off) :: byte) = off AND 0xFC"
proof -
  have s: "bit s k \<Longrightarrow> k < 5" for k using small_bits[of s 5 k] assms(1) by (simp add: word_less_def)
  have f: "bit f k \<Longrightarrow> k < 3" for k using small_bits[of f 3 k] assms(2) by (simp add: word_less_def)
  have b: "bit b k \<Longrightarrow> k < 8" for k using bit_imp_le_length[of b k] by simp
  have m: "(31 :: byte) = mask 5" "(7 :: byte) = mask 3" "(0xFC :: byte) = push_bit 2 (mask 6)"
    by (simp_all add: mask_eq_exp_minus_1)
  note d = bit_and_iff bit_ucast_iff bit_drop_bit_eq bit_push_bit_iff bit_mask_iff possible_bit_word config_addr_bit o_def
  show "ucast (drop_bit 16 (config_addr b s f off)) = b"
    by (rule bit_word_eqI) (simp only: d, auto dest: s f b)
  show "ucast (drop_bit 11 (config_addr b s f off)) AND 31 = s" unfolding m
    by (rule bit_word_eqI) (simp only: d, auto dest: s f b)
  show "ucast (drop_bit 8 (config_addr b s f off)) AND 7 = f" unfolding m
    by (rule bit_word_eqI) (simp only: d, auto dest: s f b)
  show "(ucast (config_addr b s f off) :: byte) = off AND 0xFC" unfolding m
    by (rule bit_word_eqI) (simp only: d, auto dest: s f b)
qed

lemma latched_config:
  assumes "s < 32" "f < 8" "b < 256" "unat off = r" "r mod 4 = 0"
  shows "latched sp (unat (config_addr (of_nat b) (of_nat s) (of_nat f) off)) = dword (sp b s f) r"
proof -
  let ?a = "config_addr (of_nat b) (of_nat s) (of_nat f) off"
  have u: "unat (of_nat b :: byte) = b" "unat (of_nat s :: byte) = s" "unat (of_nat f :: byte) = f" using assms(1-3) by (simp_all add: unat_of_nat)
  have sf: "(of_nat s :: byte) < 32" "(of_nat f :: byte) < 8" using assms(1,2) u by (simp_all add: word_less_nat_alt)
  note d = config_addr_decode[OF sf, of "of_nat b" off]
  have m: "unat (x AND 31) = unat x mod 32" "unat (x AND 7) = unat x mod 8" "unat (x AND 0xFC) = unat x div 4 * 4" for x :: byte
  proof -
    have c: "(31 :: byte) = mask 5" "(7 :: byte) = mask 3" by (simp_all add: mask_eq_exp_minus_1)
    show "unat (x AND 31) = unat x mod 32" "unat (x AND 7) = unat x mod 8"
      unfolding c unat_and_mask by simp_all
    have "x AND 0xFC = push_bit 2 (drop_bit 2 x)"
    proof (rule bit_word_eqI)
      fix n assume "n < LENGTH(8)"
      have c: "(0xFC :: byte) = push_bit 2 (mask 6)" by (simp add: mask_eq_exp_minus_1)
      have n: "2 \<le> n \<Longrightarrow> Suc (Suc (n - 2)) = n" by simp
      show "bit (x AND 0xFC) n \<longleftrightarrow> bit (push_bit 2 (drop_bit 2 x)) n" unfolding c using \<open>n < LENGTH(8)\<close>
        by (simp only: bit_and_iff bit_push_bit_iff bit_mask_iff bit_drop_bit_eq o_def possible_bit_word len_bit0 len_num1) (auto simp: n)
    qed
    moreover have "unat (push_bit 2 (drop_bit 2 x)) = unat x div 4 * 4"
    proof -
      have "unat x div 4 * 4 < 256" using byte_bounds[of x] by simp
      then show ?thesis by (simp add: push_bit_eq_mult unat_word_ariths unat_drop_bit_eq) (simp add: drop_bit_eq_div mult.commute)
    qed
    ultimately show "unat (x AND 0xFC) = unat x div 4 * 4" by simp
  qed
  have "unat ?a div 2 ^ 16 mod 256 = b" using arg_cong[OF d(1), of unat] u by (simp add: unat_byte_of)
  moreover have "unat ?a div 2 ^ 11 mod 32 = s" using arg_cong[OF d(2), of unat] u unfolding m unat_byte_of by (simp add: mod_mod_cancel)
  moreover have "unat ?a div 2 ^ 8 mod 8 = f" using arg_cong[OF d(3), of unat] u unfolding m unat_byte_of by (simp add: mod_mod_cancel)
  moreover have "unat ?a mod 256 div 4 * 4 = r"
  proof -
    have "unat ?a mod 256 = unat off div 4 * 4" using arg_cong[OF d(4), of unat] unat_byte_of[of 0 ?a] unfolding m by simp
    then show ?thesis using assms(4,5) by (simp add: mod_0_imp_dvd)
  qed
  moreover have "2 ^ 31 \<le> unat ?a"
  proof -
    have "bit (unat ?a) 31" using config_addr_bit[of "of_nat b" "of_nat s" "of_nat f" off 31] by (simp add: bit_unsigned_iff)
    then have "odd (unat ?a div 2 ^ 31)" by (simp add: bit_iff_odd)
    then show ?thesis by (cases "unat ?a < 2 ^ 31") simp_all
  qed
  ultimately show ?thesis by (simp add: latched_def)
qed

lemma run_read32:
  assumes "s < 32" "f < 8" "b < 256" "unat off = r" "r mod 4 = 0"
  shows "\<exists>h' tr'. run_state (read32 (config_bus sp) (of_nat b) (of_nat s) (of_nat f) off) (h, tr) = (dword (sp b s f) r, h', tr')"
  using latched_config[OF assms]
  by (simp add: read32_def outl_def inl_def config_bus_def CONFIG_ADDR_def CONFIG_DATA_def)

lemma run_gather:
  assumes "\<And>x h tr. x \<in> set xs \<Longrightarrow> \<exists>h' tr'. run_state (f x) (h, tr) = (g x, h', tr')"
  shows "\<exists>h' tr'. run_state (gather f xs) (h, tr) = (map g xs, h', tr')"
  using assms
proof (induction xs arbitrary: h tr)
  case (Cons x xs)
  obtain h1 tr1 where 1: "run_state (f x) (h, tr) = (g x, h1, tr1)" using Cons.prems[of x] by fastforce
  obtain h2 tr2 where "run_state (gather f xs) (h1, tr1) = (map g xs, h2, tr2)" using Cons.IH[of h1 tr1] Cons.prems by fastforce
  with 1 show ?case by simp
qed simp

lemma in_map_filter: "d \<in> set (List.map_filter g xs) \<longleftrightarrow> (\<exists>x \<in> set xs. g x = Some d)"
  by (induction xs) (auto simp: List.map_filter_def split: option.splits)

lemma run_then: "run_state m st = (x, st') \<Longrightarrow> run_state (m \<bind> k) st = run_state (k x) st'"
  by simp

lemma bar_offsets: "i < 6 \<Longrightarrow> unat (bar_offset i) = 16 + 4 * i"
  by (simp add: bar_offset_def unat_word_ariths unat_of_nat)

lemma bar_registers: "map (\<lambda>i. dword c (16 + 4 * i)) [0..<6] = map (dword c) [16, 20, 24, 28, 32, 36]"
  by (simp add: upt_rec)

lemma no_vendor: "(ucast (dword c 0) :: u16) = 0xFFFF \<longleftrightarrow> c 0 = 255 \<and> c 1 = 255"
proof -
  have "(ucast (dword c 0) :: u16) = 0xFFFF \<longleftrightarrow> unat (c 0) + 256 * unat (c 1) = 65535"
    unfolding word_unat_eq_iff unat_dword_half by simp
  also have "\<dots> \<longleftrightarrow> unat (c 0) = 255 \<and> unat (c 1) = 255"
  proof -
    have "x + 256 * y = 65535 \<longleftrightarrow> x = 255 \<and> y = 255" if "x < 256" for x y :: nat
    proof
      assume e: "x + 256 * y = 65535"
      have "(x + 256 * y) div 256 = y" "(x + 256 * y) mod 256 = x" using that by simp_all
      then show "x = 255 \<and> y = 255" unfolding e by simp
    qed simp
    then show ?thesis using byte_bounds[of "c 0"] by blast
  qed
  finally show ?thesis by (simp add: word_unat_eq_iff)
qed

lemma normal_header: "header_byte (dword c 12) AND 0x7F = 0 \<longleftrightarrow> unat (c 14) mod 128 = 0"
proof -
  have "(0x7F :: byte) = mask 7" by (simp add: mask_eq_exp_minus_1)
  then have "unat (c 14 AND 0x7F) = unat (c 14) mod 128" using unat_and_mask[of "c 14" 7] by simp
  then show ?thesis by (simp add: header_byte_def dword_byte word_unat_eq_iff)
qed

lemma device_at_registers:
  "device_at sp b s f = (if (ucast (dword (sp b s f) 0) :: u16) = 0xFFFF then None
     else Some (make_device (of_nat b) (of_nat s) (of_nat f) (dword (sp b s f) 0) (dword (sp b s f) 8) (dword (sp b s f) 12)
       (if header_byte (dword (sp b s f) 12) AND 0x7F = 0 then map (\<lambda>i. dword (sp b s f) (16 + 4 * i)) [0..<6] else replicate 6 0)
       (dword (sp b s f) 60)))"
proof -
  have z: "replicate 6 (0 :: u32) = [0, 0, 0, 0, 0, 0]" by (simp add: numeral_eq_Suc)
  show ?thesis unfolding device_at_def Let_def no_vendor normal_header bar_registers z
    by (simp add: make_device_def header_byte_def dword_byte dword_half[of _ 0, unfolded add_0])
qed

lemma multifunction_bit: "device_at sp b s 0 = Some d \<Longrightarrow> multifunction d \<longleftrightarrow> 128 \<le> unat (sp b s 0 14)"
proof -
  assume "device_at sp b s 0 = Some d"
  then have "header_type d = sp b s 0 14" by (auto simp: device_at_def Let_def split: if_splits)
  moreover have "x AND 0x80 \<noteq> 0 \<longleftrightarrow> 128 \<le> unat x" for x :: byte
  proof -
    have "(0x80 :: byte) = push_bit 7 1" by simp
    then have "x AND 0x80 \<noteq> 0 \<longleftrightarrow> bit x 7" by (simp add: bit_iff_and_push_bit_not_eq_0)
    also have "\<dots> \<longleftrightarrow> bit (unat x) 7" by (simp add: bit_unsigned_iff)
    also have "\<dots> \<longleftrightarrow> odd (unat x div 128)" by (simp add: bit_iff_odd)
    also have "\<dots> \<longleftrightarrow> 128 \<le> unat x"
    proof (cases "128 \<le> unat x")
      case True
      then have "unat x div 128 = 1" using byte_bounds[of x] by (intro div_nat_eqI) simp_all
      then show ?thesis using True by simp
    qed simp
    finally show ?thesis .
  qed
  ultimately show ?thesis by (simp add: multifunction_def)
qed

lemma run_read_one:
  assumes "s < 32" "f < 8" "b < 256"
  shows "\<exists>h' tr'. run_state (read_one (config_bus sp) (of_nat b) (of_nat s) (of_nat f)) (h, tr) = (device_at sp b s f, h', tr')"
proof -
  let ?B = "config_bus sp" and ?c = "dword (sp b s f)"
  note rd = run_read32[OF assms, where sp = sp]
  obtain h1 tr1 where 1: "run_state (read32 ?B (of_nat b) (of_nat s) (of_nat f) 0) (h, tr) = (?c 0, h1, tr1)" using rd[of 0 0 h tr] by auto
  show ?thesis
  proof (cases "(ucast (?c 0) :: u16) = 0xFFFF")
    case True
    then show ?thesis using 1 by (simp add: read_one_def device_at_registers)
  next
    case False
    obtain h2 tr2 where 2: "run_state (read32 ?B (of_nat b) (of_nat s) (of_nat f) 0x08) (h1, tr1) = (?c 8, h2, tr2)" using rd[of 8 8 h1 tr1] by auto
    obtain h3 tr3 where 3: "run_state (read32 ?B (of_nat b) (of_nat s) (of_nat f) 0x0C) (h2, tr2) = (?c 12, h3, tr3)" using rd[of 12 12 h2 tr2] by auto
    let ?bs = "if header_byte (?c 12) AND 0x7F = 0 then map (\<lambda>i. ?c (16 + 4 * i)) [0..<6] else replicate 6 0"
    let ?rd = "\<lambda>i. read32 ?B (of_nat b) (of_nat s) (of_nat f) (bar_offset i)"
    have "\<exists>h' tr'. run_state (?rd i) (h, tr) = (?c (16 + 4 * i), h', tr')" if "i < 6" for i h tr
      by (rule rd[OF bar_offsets[OF that]]) presburger
    then have "\<exists>h' tr'. run_state (gather ?rd [0..<6]) (h3, tr3) = (map (\<lambda>i. ?c (16 + 4 * i)) [0..<6], h', tr')"
      by (intro run_gather) simp
    then have "\<exists>h' tr'. run_state (if header_byte (?c 12) AND 0x7F = 0 then gather ?rd [0..<6]
        else State_Monad.return (replicate 6 0)) (h3, tr3) = (?bs, h', tr')"
      by (cases "header_byte (?c 12) AND 0x7F = 0") (simp_all only: if_True if_False State_Monad.run_state_return prod.inject simp_thms ex_simps)
    then obtain h4 tr4 where 4: "run_state (if header_byte (?c 12) AND 0x7F = 0 then gather ?rd [0..<6]
        else State_Monad.return (replicate 6 0)) (h3, tr3) = (?bs, h4, tr4)" by blast
    obtain h5 tr5 where 5: "run_state (read32 ?B (of_nat b) (of_nat s) (of_nat f) 0x3C) (h4, tr4) = (?c 60, h5, tr5)" using rd[of 60 60 h4 tr4] by auto
    have "run_state (read_one ?B (of_nat b) (of_nat s) (of_nat f)) (h, tr) = run_state (if (ucast (?c 0) :: u16) = 0xFFFF then State_Monad.return None
        else do {
          cls \<leftarrow> read32 ?B (of_nat b) (of_nat s) (of_nat f) 0x08;
          h \<leftarrow> read32 ?B (of_nat b) (of_nat s) (of_nat f) 0x0C;
          bs \<leftarrow> (if header_byte h AND 0x7F = 0 then gather ?rd [0..<6] else State_Monad.return (replicate 6 0));
          irq \<leftarrow> read32 ?B (of_nat b) (of_nat s) (of_nat f) 0x3C;
          State_Monad.return (Some (make_device (of_nat b) (of_nat s) (of_nat f) (?c 0) cls h bs irq)) }) (h1, tr1)"
      unfolding read_one_def by (rule run_then[OF 1])
    also have "\<dots> = run_state (State_Monad.return (Some (make_device (of_nat b) (of_nat s) (of_nat f) (?c 0) (?c 8) (?c 12) ?bs (?c 60)))) (h5, tr5)"
      unfolding if_not_P[OF False] run_then[OF 2] run_then[OF 3] run_then[OF 4] run_then[OF 5] ..
    also have "\<dots> = (device_at sp b s f, h5, tr5)"
      unfolding device_at_registers if_not_P[OF False] by (rule State_Monad.run_state_return)
    finally show ?thesis by blast
  qed
qed

lemma run_scan_slot:
  assumes "b < 256" "s < 32"
  shows "\<exists>h' tr'. run_state (scan_slot (config_bus sp) (b, s)) (h, tr) = (functions_of sp (b, s), h', tr')"
proof -
  have rd: "f < 8 \<Longrightarrow> \<exists>h' tr'. run_state (read_one (config_bus sp) (of_nat b) (of_nat s) (of_nat f)) (h, tr) = (device_at sp b s f, h', tr')" for f h tr
    by (rule run_read_one[OF assms(2) _ assms(1)])
  obtain h1 tr1 where 1: "run_state (read_one (config_bus sp) (of_nat b) (of_nat s) 0) (h, tr) = (device_at sp b s 0, h1, tr1)"
    using rd[of 0 h tr] by auto
  have "\<exists>h' tr'. run_state (gather (\<lambda>f. read_one (config_bus sp) (of_nat b) (of_nat s) (of_nat f)) [1..<8]) (h1, tr1) =
      (map (device_at sp b s) [1..<8], h', tr')" by (rule run_gather) (use rd in simp)
  then obtain h2 tr2 where 2: "run_state (gather (\<lambda>f. read_one (config_bus sp) (of_nat b) (of_nat s) (of_nat f)) [1..<8]) (h1, tr1) =
      (map (device_at sp b s) [1..<8], h2, tr2)" by blast
  have mf: "concat (map (\<lambda>x. case x of None \<Rightarrow> [] | Some y \<Rightarrow> [y]) (map g xs)) = List.map_filter g xs" for g :: "nat \<Rightarrow> pci_device option" and xs
    by (induction xs) (auto simp: List.map_filter_def split: option.split)
  have l: "[1..<8] = [1, 2, 3, 4, 5, 6, 7]" by (simp add: upt_rec)
  show ?thesis
  proof (cases "device_at sp b s 0")
    case None
    then show ?thesis using 1 by (simp add: scan_slot_def functions_of_def)
  next
    case (Some d)
    then show ?thesis using 1 2 mf multifunction_bit[OF Some] unfolding functions_of_def l[symmetric]
      by (auto simp: scan_slot_def simp del: upt_Suc)
  qed
qed

text \<open>C35 Listing the PCI devices is complete and decodes them rightly: on hardware that follows the specification the scan returns, for
  every bus and slot in order, the device at function 0 and, when the highest bit of its header type is set, the devices at the functions
  1 to 7; a device is listed exactly if it is there and can be found, with vendor, device, class, base addresses and interrupt taken from
  the bytes at their documented offsets.\<close>

theorem pci_enumerate_finds:
  "\<exists>h' tr'. run_state (pci_enumerate (config_bus sp)) (h, tr) = (concat (map (functions_of sp) (List.product [0..<256] [0..<32])), h', tr') \<and>
     (\<forall>d. d \<in> set (concat (map (functions_of sp) (List.product [0..<256] [0..<32]))) \<longleftrightarrow>
        (\<exists>b s f. b < 256 \<and> s < 32 \<and> f < 8 \<and> device_at sp b s f = Some d \<and>
           device_at sp b s 0 \<noteq> None \<and> (f = 0 \<or> 128 \<le> unat (sp b s 0 14))))"
proof -
  have "\<exists>h' tr'. run_state (scan_slot (config_bus sp) x) (h, tr) = (functions_of sp x, h', tr')"
    if "x \<in> set (List.product [0..<256] [0..<32])" for x h tr
    using that run_scan_slot[of "fst x" "snd x" sp h tr] by auto
  then obtain h' tr' where 1: "run_state (gather (scan_slot (config_bus sp)) (List.product [0..<256] [0..<32])) (h, tr) =
      (map (functions_of sp) (List.product [0..<256] [0..<32]), h', tr')" using run_gather by metis
  then have run: "run_state (pci_enumerate (config_bus sp)) (h, tr) = (concat (map (functions_of sp) (List.product [0..<256] [0..<32])), h', tr')"
    by (simp add: pci_enumerate_def del: upt_Suc)
  have fs: "f \<in> set [1, 2, 3, 4, 5, 6, 7] \<longleftrightarrow> 0 < f \<and> f < 8" for f :: nat by auto
  have mem: "d \<in> set (functions_of sp (b, s)) \<longleftrightarrow> (\<exists>f < 8. device_at sp b s f = Some d \<and>
      device_at sp b s 0 \<noteq> None \<and> (f = 0 \<or> 128 \<le> unat (sp b s 0 14)))" for d b s
  proof (cases "device_at sp b s 0")
    case (Some d0)
    have f: "d \<in> set (List.map_filter (device_at sp b s) [1, 2, 3, 4, 5, 6, 7]) \<longleftrightarrow> (\<exists>f. 0 < f \<and> f < 8 \<and> device_at sp b s f = Some d)"
      unfolding in_map_filter Bex_def fs by blast
    have "(\<exists>f < 8. P f \<and> (f = 0 \<or> R)) \<longleftrightarrow> P 0 \<or> R \<and> (\<exists>f. 0 < f \<and> f < 8 \<and> P f)" for P :: "nat \<Rightarrow> bool" and R
      by (metis gr0I zero_less_numeral)
    from this[of "\<lambda>f. device_at sp b s f = Some d" "128 \<le> unat (sp b s 0 14)"] f
    show ?thesis using Some by (simp add: functions_of_def eq_commute[of d] del: List.map_filter_simps)
  qed (simp add: functions_of_def)
  have "d \<in> set (concat (map (functions_of sp) (List.product [0..<256] [0..<32]))) \<longleftrightarrow> (\<exists>b s. b < 256 \<and> s < 32 \<and> d \<in> set (functions_of sp (b, s)))" for d
    by (fastforce simp del: upt_Suc)
  then show ?thesis using run unfolding mem by blast
qed

section \<open>Enabling a device\<close>

lemma run_read32_exact:
  assumes "s < 32" "f < 8" "b < 256" "unat off = r" "r mod 4 = 0"
  shows "run_state (read32 (config_bus sp) (of_nat b) (of_nat s) (of_nat f) off) (h, tr) = (dword (sp b s f) r,
    config_addr (of_nat b) (of_nat s) (of_nat f) off, tr @ [Out32 0xCF8 (config_addr (of_nat b) (of_nat s) (of_nat f) off)])"
  using latched_config[OF assms]
  by (simp add: read32_def outl_def inl_def config_bus_def CONFIG_ADDR_def CONFIG_DATA_def)

text \<open>Enabling a controller sets the memory and bus-master bits of its command register and keeps the other bits of it; the function
  returns the old value. The upper half of the word it writes is the status register as it was read, whose error bits are cleared
  by writing ones: they are acknowledged unseen.\<close>

theorem enable_writes_command:
  fixes sp :: space
  assumes "pci_slot d < 32" "pci_func d < 8"
  defines "v \<equiv> dword (sp (unat (pci_bus d)) (unat (pci_slot d)) (unat (pci_func d))) 4" and "a \<equiv> config_addr (pci_bus d) (pci_slot d) (pci_func d) 0x04"
  shows "run_state (enable_mmio_and_bus_master (config_bus sp) d) (h, tr) =
    (ucast v, a, tr @ [Out32 CONFIG_ADDR a, Out32 CONFIG_ADDR a, Out32 CONFIG_DATA (v OR 0x0006)])"
proof -
  have w: "(v AND 0xFFFF0000) OR ucast ((ucast v AND NOT (0x0000 :: u16)) OR 0x0006) = v OR 0x0006"
  proof (rule bit_word_eqI)
    fix n assume n: "n < LENGTH(32)"
    have c: "(0xFFFF0000 :: u32) = push_bit 16 (mask 16)" "(0x0006 :: u32) = push_bit 1 (mask 2)" "(0x0006 :: u16) = push_bit 1 (mask 2)"
      by (simp_all add: mask_eq_exp_minus_1)
    show "bit ((v AND 0xFFFF0000) OR ucast ((ucast v AND NOT (0x0000 :: u16)) OR 0x0006)) n = bit (v OR 0x0006) n"
      unfolding c using n
      by (simp only: bit_or_iff bit_and_iff bit_ucast_iff bit_push_bit_iff bit_mask_iff bit_not_iff possible_bit_word len_bit0 len_bit1 len_num1 bit_0_eq) auto
  qed
  show ?thesis
    using run_read32_exact[of "unat (pci_slot d)" "unat (pci_func d)" "unat (pci_bus d)" "0x04" 4 sp h tr] w assms(1,2) byte_bounds[of "pci_bus d"]
    by (simp add: enable_mmio_and_bus_master_def modify_command_def outl_def config_bus_def v_def a_def CONFIG_ADDR_def CONFIG_DATA_def word_less_nat_alt)
qed

end
