(* ===== verification/Screens.thy ===== *)
theory Screens
  imports Table_View Text_Layout Ata Pci
begin

text \<open>
  The state of the user interface, \<^verbatim>\<open>kernel/src/ui.rs\<close>: the stack of screens, the action a modal screen carries, the cache of decoded
  rows and the click targets of the frame on display. The stack is a list with the screen on top first. A handler is an action on this
  state; the store is asked through \<open>ask\<close>, which hands its error on as a value.

  What the handlers learn from hardware other than the disk (drives, PCI devices, USB controller, clock, size of the screen) is the record
  \<open>hardware\<close> of the answers during one key press. The xHCI register file is reduced to the four fields that the handlers print.
\<close>

section \<open>Actions and screens\<close>

datatype action =
    Act_CreateTable
  | Act_Shutdown
  | Act_DeleteRow string row_id
  | Act_DropTable string
  | Act_DropColumn string string
  | Act_DropFk string
  | Act_AddColPickType string string
  | Act_RenameColumn string string
  | Act_SetDisplayWidth string string
  | Act_AddFkPickFrom string
  | Act_AddFkPickToTable string string
  | Act_AddFkPickToCol string string string
  | Act_CreateOs nat string

record browser =
  br_table :: string
  br_row :: nat
  br_col :: nat
  br_top :: nat
  br_filter :: row_filter
  br_sort :: row_sort

record prompt =
  pr_title :: string
  pr_buf :: string
  pr_caret :: nat
  pr_action :: action

record pick =
  pk_title :: string
  pk_options :: "string list"
  pk_sel :: nat
  pk_action :: action

record fk_pick =
  fp_field :: nat
  fp_from_col :: string
  fp_to_table :: string
  fp_to_col :: string
  fp_rows :: "(row_id \<times> string) list"
  fp_sel :: nat
  fp_top :: nat

record xhci_info =
  hci_version :: nat
  max_slots :: nat
  max_ports :: nat
  mfindex :: nat

record write_test =
  wt_slot :: nat
  wt_ok :: bool
  wt_message :: string

record install_report =
  ir_mount_ok :: bool
  ir_message :: string

datatype screen =
    TableList nat
  | Browser browser
  | RowView string row_id nat
  | Editor editor
  | Builder field_builder
  | Schema string nat
  | RefCols string "string list" nat
  | Prompt prompt
  | Pick pick
  | Confirm string action
  | Drives "drive_info list" nat nat
  | PciList "pci_device list" nat nat
  | Xhci xhci_info pci_device
  | CreateOsPick "(nat \<times> drive_info) list" nat
  | InstallResult install_report
  | About nat
  | FkPick fk_pick

datatype nav = Nav_None | Nav_Pop | Nav_Push screen | Nav_PopToList

record row_cache =
  rc_table :: string
  rc_filter :: row_filter
  rc_sort :: row_sort
  rc_generation :: nat
  rc_rows :: id_rows

record 'd app =
  app_store :: "'d store"
  stack :: "screen list"
  status :: string
  last_usb_test :: "write_test option"
  hitmap :: "(hit \<times> string) list"
  row_cache :: "row_cache option"
  cursor_on :: bool
  last_blink :: nat
  switched_off :: bool

text \<open>\<open>switched_off\<close> records that \<^verbatim>\<open>shutdown\<close> was called, from which there is no return.\<close>

definition app_start :: "'d store \<Rightarrow> nat \<Rightarrow> 'd app" where
  "app_start s ticks = \<lparr>app_store = s, stack = [TableList 0], status = ''TablesOS ready'', last_usb_test = None, hitmap = [],
     row_cache = None, cursor_on = True, last_blink = ticks, switched_off = False\<rparr>"

record hardware =
  hw_height :: "nat option"
  hw_clock :: "rtc option"
  hw_msc_error :: "string option"
  hw_about :: nat
  hw_ide :: "drive_info list"
  hw_usb :: "drive_info list"
  hw_usb_slots :: "(nat \<times> drive_info) list"
  hw_pci :: "pci_device list"
  hw_inspect :: "pci_device \<Rightarrow> xhci_info option"
  hw_bring_up :: "string + unit"
  hw_slot_ids :: "string + nat list"
  hw_addressed :: "string + bool list"
  hw_configured :: "string + bool list"
  hw_endpoints :: "string + (nat \<times> nat) list"
  hw_probes :: "string + bool list"
  hw_msc :: "(nat \<times> (nat \<times> nat) option) list"
  hw_write_test :: "nat \<Rightarrow> write_test"
  hw_install :: "nat \<Rightarrow> install_report"
  hw_delay :: nat
  hw_tsc :: nat

section \<open>Geometry\<close>

definition CELL_W :: nat where "CELL_W = 8 * 2"
definition CELL_H :: nat where "CELL_H = 8 * 2"
definition EMBLEM_PX :: nat where "EMBLEM_PX = 16 * 2"
definition TOPBAR_H :: nat where "TOPBAR_H = 2 * CELL_H + 8"
definition BOTBAR_H :: nat where "BOTBAR_H = CELL_H + 12"
definition PANEL_X :: nat where "PANEL_X = CELL_W div 2"
definition PANEL_Y :: nat where "PANEL_Y = TOPBAR_H + 6"
definition BODY_X :: nat where "BODY_X = PANEL_X + 14"
definition BODY_TOP :: nat where "BODY_TOP = PANEL_Y + EMBLEM_PX + 8"

definition visible_rows :: "hardware \<Rightarrow> nat" where
  "visible_rows hw = (case hw_height hw of
      None \<Rightarrow> 20
    | Some h \<Rightarrow> (h - (BOTBAR_H + EMBLEM_PX + 8) - BODY_TOP) div CELL_H - 2)"

definition pci_visible_rows :: "hardware \<Rightarrow> nat" where
  "pci_visible_rows hw = (case hw_height hw of None \<Rightarrow> 15 | Some h \<Rightarrow> h div CELL_H - 16)"

section \<open>Acting on the state\<close>

definition ask :: "('d store, 'a) act \<Rightarrow> ('d app, 'a result) act" where
  "ask m a = (case m (app_store a) of None \<Rightarrow> None | Some (r, s) \<Rightarrow> Some (Inr r, a\<lparr>app_store := s\<rparr>))"

definition say :: "string \<Rightarrow> ('d app, unit) act" where
  "say t = modifyM (\<lambda>a. a\<lparr>status := t\<rparr>)"

definition report :: "hardware \<Rightarrow> store_error \<Rightarrow> ('d app, unit) act" where
  "report hw e = say (describe (hw_msc_error hw) e)"

definition top_screen :: "('d app, screen) act" where
  "top_screen = bindM (getM stack) (\<lambda>st. case st of [] \<Rightarrow> panicM | s # _ \<Rightarrow> returnM s)"

definition put_top :: "screen \<Rightarrow> ('d app, unit) act" where
  "put_top s = bindM (getM stack) (\<lambda>st. case st of [] \<Rightarrow> panicM | _ # r \<Rightarrow> modifyM (\<lambda>a. a\<lparr>stack := s # r\<rparr>))"

definition push_screen :: "screen \<Rightarrow> ('d app, unit) act" where
  "push_screen s = modifyM (\<lambda>a. a\<lparr>stack := s # stack a\<rparr>)"

definition pop_screen :: "('d app, unit) act" where
  "pop_screen = modifyM (\<lambda>a. a\<lparr>stack := (if 1 < length (stack a) then tl (stack a) else stack a)\<rparr>)"

text \<open>\<^verbatim>\<open>while !matches!(self.top(), Screen::List { .. }) { self.pop(); }\<close>: without a table list at the bottom the loop does not end.\<close>

fun pop_to_list :: "screen list \<Rightarrow> screen list option" where
  "pop_to_list (TableList n # r) = Some (TableList n # r)"
| "pop_to_list (_ # s # r) = pop_to_list (s # r)"
| "pop_to_list _ = None"

definition back_to_list :: "('d app, unit) act" where
  "back_to_list = bindM (getM stack) (\<lambda>st. bindM (unwrapM (pop_to_list st)) (\<lambda>st'. modifyM (\<lambda>a. a\<lparr>stack := st'\<rparr>)))"

text \<open>An operation of the store whose success is announced and whose error is shown.\<close>

definition attempt :: "hardware \<Rightarrow> ('d store, 'a) act \<Rightarrow> ('d app, unit) act \<Rightarrow> ('d app, unit) act" where
  "attempt hw m k = bindM (ask m) (\<lambda>r. case r of Inr _ \<Rightarrow> k | Inl e \<Rightarrow> report hw e)"

section \<open>Rows through the cache\<close>

definition cache_fits :: "string \<Rightarrow> row_filter \<Rightarrow> row_sort \<Rightarrow> nat \<Rightarrow> row_cache option \<Rightarrow> id_rows option" where
  "cache_fits name f so g rc = (case rc of
      None \<Rightarrow> None
    | Some c \<Rightarrow> if rc_table c = name \<and> rc_filter c = f \<and> rc_sort c = so \<and> rc_generation c = g then Some (rc_rows c) else None)"

definition cached_rows :: "'d block_ops \<Rightarrow> string \<Rightarrow> row_filter \<Rightarrow> row_sort \<Rightarrow> ('d app, id_rows) act" where
  "cached_rows ops name f so =
     bindM (getM (\<lambda>a. store_generation (app_store a))) (\<lambda>g.
     bindM (getM row_cache) (\<lambda>rc.
     case cache_fits name f so g rc of
       Some rows \<Rightarrow> returnM rows
     | None \<Rightarrow>
         bindM (ask (browser_rows ops name f so)) (\<lambda>r. let rows = or_default [] r in
         bindM (modifyM (\<lambda>a. a\<lparr>row_cache := Some \<lparr>rc_table = name, rc_filter = f, rc_sort = so, rc_generation = g, rc_rows = rows\<rparr>\<rparr>)) (\<lambda>_.
         returnM rows))))"

section \<open>Where a row leads\<close>

type_synonym nav_target = "string \<times> string \<times> string \<times> val"

text \<open>The outgoing foreign key \<open>fk\<close> of row \<open>r\<close>, labelled with the row it refers to, if it holds a value.\<close>

definition outgoing :: "'d block_ops \<Rightarrow> string \<Rightarrow> row_id \<Rightarrow> table \<Rightarrow> row \<Rightarrow> foreign_key \<Rightarrow> ('d store, nav_target list) act" where
  "outgoing ops name rid t r fk = (case Option.bind (column_index t (from_col fk)) (cell_at r) of
      None \<Rightarrow> returnM []
    | Some v \<Rightarrow>
        let plain = ARROW_RIGHT @ '' follow '' @ fk_name fk @ '' to '' @ to_table fk in
        bindM (tryM (follow_fk ops name rid (fk_name fk))) (\<lambda>followed.
        bindM (case followed of
            Inr (target, (_, trow) # _) \<Rightarrow> bindM (tryM (get_table ops target)) (\<lambda>tt. returnM (case tt of
                Inr tt \<Rightarrow> ARROW_RIGHT @ '' '' @ target @ '': '' @ reference_label tt trow
              | Inl _ \<Rightarrow> plain))
          | _ \<Rightarrow> returnM plain) (\<lambda>label.
        returnM [(label, to_table fk, to_col fk, v)])))"

definition incoming :: "'d block_ops \<Rightarrow> string \<Rightarrow> row_id \<Rightarrow> string \<times> string \<times> row_id \<times> row \<Rightarrow> ('d store, nav_target list) act" where
  "incoming ops name rid ref = (case ref of (tbl, fkname, _, r) \<Rightarrow>
     bindM (tryM (get_table ops tbl)) (\<lambda>ot.
     bindM (tryM (get_table ops name)) (\<lambda>t.
     case (ot, t) of
       (Inr ot, Inr _) \<Rightarrow> (case find (\<lambda>f. fk_name f = fkname) (fks ot) of
           None \<Rightarrow> returnM []
         | Some fk \<Rightarrow> bindM (tryM (get_row ops name rid)) (\<lambda>srow. case srow of
             Inl _ \<Rightarrow> returnM []
           | Inr srow \<Rightarrow> bindM (tryM (get_table ops name)) (\<lambda>t. returnM (case t of
               Inl _ \<Rightarrow> []
             | Inr t \<Rightarrow> (case Option.bind (column_index t (to_col fk)) (cell_at srow) of
                 None \<Rightarrow> []
               | Some v \<Rightarrow> [(ARROW_LEFT @ '' '' @ tbl @ '': '' @ reference_label ot r, tbl, from_col fk, v)])))))
     | _ \<Rightarrow> returnM [])))"

definition nav_targets :: "'d block_ops \<Rightarrow> string \<Rightarrow> row_id \<Rightarrow> ('d store, nav_target list) act" where
  "nav_targets ops name rid =
     bindM (tryM (get_table ops name)) (\<lambda>t.
     bindM (case t of
         Inl _ \<Rightarrow> returnM []
       | Inr t \<Rightarrow> bindM (tryM (get_row ops name rid)) (\<lambda>r. case r of
           Inl _ \<Rightarrow> returnM []
         | Inr r \<Rightarrow> bindM (mapM (fks t) (outgoing ops name rid t r)) (\<lambda>outs. returnM (concat outs)))) (\<lambda>out.
     bindM (tryM (referencing_rows ops name rid)) (\<lambda>refs. case refs of
         Inl _ \<Rightarrow> returnM out
       | Inr refs \<Rightarrow> bindM (mapM refs (incoming ops name rid)) (\<lambda>ins. returnM (out @ concat ins)))))"

end
