(* ===== verification/App.thy ===== *)
theory App
  imports Screens
begin

text \<open>
  The handlers of the user interface, \<^verbatim>\<open>kernel/src/ui.rs\<close>: what a key does on each screen, how a modal screen resolves, the row
  editor with its value builder and foreign-key picker, the pointer, and one turn of the main loop. \<open>dispatch_*\<close> are the arms of
  \<^verbatim>\<open>App::dispatch\<close>; a key that no guard accepts leaves the screen as it is.
\<close>

abbreviation MINUS :: string where "MINUS \<equiv> [CHR 0xE2, CHR 0x80, CHR 0x94]"
abbreviation apo :: string where "apo \<equiv> [CHR 39]"

section \<open>The table list\<close>

definition new_browser :: "string \<Rightarrow> row_filter \<Rightarrow> screen" where
  "new_browser name f = Browser \<lparr>br_table = name, br_row = 0, br_col = 0, br_top = 0, br_filter = f, br_sort = None\<rparr>"

definition new_prompt :: "string \<Rightarrow> string \<Rightarrow> action \<Rightarrow> screen" where
  "new_prompt title buf act = Prompt \<lparr>pr_title = title, pr_buf = buf, pr_caret = char_count buf, pr_action = act\<rparr>"

definition new_pick :: "string \<Rightarrow> string list \<Rightarrow> action \<Rightarrow> screen" where
  "new_pick title opts act = Pick \<lparr>pk_title = title, pk_options = opts, pk_sel = 0, pk_action = act\<rparr>"

definition install_targets :: "hardware \<Rightarrow> (nat \<times> drive_info) list" where
  "install_targets hw = filter (\<lambda>(_, d). \<not> booted d) (hw_usb_slots hw)"

definition dispatch_list :: "hardware \<Rightarrow> 'd block_ops \<Rightarrow> nat \<Rightarrow> key \<Rightarrow> ('d app, screen \<times> nav) act" where
  "dispatch_list hw ops sel0 k =
     bindM (ask (list_tables ops)) (\<lambda>r.
     let tables = or_default [] r; sel = min sel0 (length tables - 1);
         stay = (\<lambda>s. returnM (TableList s, Nav_None)); go = (\<lambda>s. returnM (TableList sel, Nav_Push s)) in
     case k of
       Up \<Rightarrow> stay (if 0 < sel then sel - 1 else sel)
     | Down \<Rightarrow> stay (if sel + 1 < length tables then sel + 1 else sel)
     | Enter \<Rightarrow> if tables \<noteq> [] then go (new_browser (info_name (tables ! sel)) None) else stay sel
     | Char c \<Rightarrow>
         if c = CHR ''c'' \<or> c = CHR ''C'' then go (new_prompt ''New table name'' [] Act_CreateTable)
         else if c = CHR ''s'' \<or> c = CHR ''S'' then go (Confirm ''Shut down the computer?'' Act_Shutdown)
         else if c = CHR ''d'' \<or> c = CHR ''D'' then
           bindM (say (''enumerated '' @ dec_of_nat (length (hw_ide hw)) @ '' IDE slot(s); '' @ dec_of_nat (length (hw_usb hw)) @
             '' USB drive(s) via autopilot'')) (\<lambda>_. go (Drives (hw_ide hw @ hw_usb hw) 0 0))
         else if c = CHR ''p'' \<or> c = CHR ''P'' then
           bindM (say (''found '' @ dec_of_nat (length (hw_pci hw)) @ '' PCI device(s)'')) (\<lambda>_. go (PciList (hw_pci hw) 0 0))
         else if c = CHR ''a'' \<or> c = CHR ''A'' then go (About 0)
         else if c = CHR ''n'' \<or> c = CHR ''N'' then
           (if install_targets hw = [] then
              bindM (say (''no eligible USB target drives '' @ MINUS @ '' plug one in and press [d] to refresh'')) (\<lambda>_. stay sel)
            else
              bindM (say (''select a target drive ('' @ dec_of_nat (length (install_targets hw)) @ '' candidate(s))'')) (\<lambda>_.
              go (CreateOsPick (install_targets hw) 0)))
         else stay sel
     | _ \<Rightarrow> stay sel)"

section \<open>The table browser\<close>

definition next_sort :: "nat \<Rightarrow> row_sort \<Rightarrow> row_sort" where
  "next_sort col so = (case so of
      Some (c, asc) \<Rightarrow> if c = col then (if asc then Some (col, False) else None) else Some (col, True)
    | None \<Rightarrow> Some (col, True))"

definition sort_message :: "row_sort \<Rightarrow> string" where
  "sort_message so = (case so of
      Some (_, True) \<Rightarrow> ''sorted '' @ ARROW_UP @ '' on current column''
    | Some (_, False) \<Rightarrow> ''sorted '' @ ARROW_DOWN @ '' on current column''
    | None \<Rightarrow> ''sort cleared'')"

text \<open>Keep the cursor inside the window of \<open>vis\<close> rows that starts at \<open>br_top\<close>.\<close>

definition scroll :: "nat \<Rightarrow> browser \<Rightarrow> browser" where
  "scroll vis b =
    (let top1 = (if br_row b < br_top b then br_row b else br_top b);
         top2 = (if top1 + vis \<le> br_row b then br_row b + 1 - vis else top1)
     in b\<lparr>br_top := top2\<rparr>)"

definition open_row :: "hardware \<Rightarrow> 'd block_ops \<Rightarrow> string \<Rightarrow> row_id option \<Rightarrow> ('d app, nav) act" where
  "open_row hw ops name rid = bindM (ask (open_editor ops name rid)) (\<lambda>r. case r of
      Inr ed \<Rightarrow> returnM (Nav_Push (Editor ed))
    | Inl e \<Rightarrow> bindM (report hw e) (\<lambda>_. returnM Nav_None))"

definition resort :: "'d block_ops \<Rightarrow> browser \<Rightarrow> ('d app, browser) act" where
  "resort ops b =
     bindM (cached_rows ops (br_table b) (br_filter b) (br_sort b)) (\<lambda>rows.
     let so = next_sort (br_col b) (br_sort b) in
     bindM (case get_at rows (br_row b) of
         None \<Rightarrow> returnM (b\<lparr>br_sort := so\<rparr>)
       | Some (rid, _) \<Rightarrow> bindM (cached_rows ops (br_table b) (br_filter b) so) (\<lambda>rows'.
           returnM (case position (\<lambda>ir. fst ir = rid) rows' of
               None \<Rightarrow> b\<lparr>br_sort := so\<rparr>
             | Some p \<Rightarrow> b\<lparr>br_sort := so, br_row := p\<rparr>))) (\<lambda>b'.
     bindM (say (sort_message so)) (\<lambda>_. returnM b')))"

definition row_under :: "'d block_ops \<Rightarrow> browser \<Rightarrow> ('d app, row_id) act" where
  "row_under ops b =
     bindM (cached_rows ops (br_table b) (br_filter b) (br_sort b)) (\<lambda>rows.
     unwrapM (map_option fst (get_at rows (br_row b))))"

definition dispatch_browser :: "hardware \<Rightarrow> 'd block_ops \<Rightarrow> browser \<Rightarrow> key \<Rightarrow> ('d app, screen \<times> nav) act" where
  "dispatch_browser hw ops b0 k =
     bindM (ask (get_table ops (br_table b0))) (\<lambda>t.
     let ncols = or_default 0 (map_sum id (\<lambda>t. length (columns t)) t) in
     bindM (cached_rows ops (br_table b0) (br_filter b0) (br_sort b0)) (\<lambda>rows.
     let nrows = length rows; vis = visible_rows hw;
         b = b0\<lparr>br_row := min (br_row b0) (nrows - 1), br_col := min (br_col b0) (ncols - 1)\<rparr>;
         name = br_table b; row = br_row b; col = br_col b;
         stay = (\<lambda>b. returnM (Browser (scroll vis b), Nav_None)); go = (\<lambda>n. returnM (Browser (scroll vis b), n)) in
     case k of
       Up \<Rightarrow> stay (if 0 < row then b\<lparr>br_row := row - 1\<rparr> else b)
     | Down \<Rightarrow> stay (if row + 1 < nrows then b\<lparr>br_row := row + 1\<rparr> else b)
     | key.Left \<Rightarrow> stay (if 0 < col then b\<lparr>br_col := col - 1\<rparr> else b)
     | key.Right \<Rightarrow> stay (if col + 1 < ncols then b\<lparr>br_col := col + 1\<rparr> else b)
     | PageUp \<Rightarrow> stay (b\<lparr>br_row := row - vis\<rparr>)
     | PageDown \<Rightarrow> stay (b\<lparr>br_row := min (row + vis) (nrows - 1)\<rparr>)
     | Esc \<Rightarrow> go Nav_Pop
     | Enter \<Rightarrow> if 0 < nrows then bindM (row_under ops b) (\<lambda>rid. go (Nav_Push (RowView name rid 0))) else stay b
     | Char c \<Rightarrow>
         if c = CHR ''o'' \<and> 0 < ncols then bindM (resort ops b) stay
         else if c = CHR ''i'' then bindM (open_row hw ops name None) go
         else if c = CHR ''u'' \<and> 0 < nrows then bindM (row_under ops b) (\<lambda>rid. bindM (open_row hw ops name (Some rid)) go)
         else if c = CHR ''d'' \<and> 0 < nrows then bindM (row_under ops b) (\<lambda>rid.
           go (Nav_Push (Confirm (''Delete the selected row from '' @ apo @ name @ apo @ ''?'') (Act_DeleteRow name rid))))
         else if c = CHR ''s'' then go (Nav_Push (Schema name 0))
         else stay b
     | _ \<Rightarrow> stay b))"

section \<open>The row view\<close>

definition dispatch_rowview :: "'d block_ops \<Rightarrow> string \<Rightarrow> row_id \<Rightarrow> nat \<Rightarrow> key \<Rightarrow> ('d app, screen \<times> nav) act" where
  "dispatch_rowview ops name rid sel0 k =
     bindM (ask (nav_targets ops name rid)) (\<lambda>r.
     let navs = or_default [] r; sel = min sel0 (length navs - 1);
         stay = (\<lambda>s. returnM (RowView name rid s, Nav_None)) in
     case k of
       Esc \<Rightarrow> returnM (RowView name rid sel, Nav_Pop)
     | Up \<Rightarrow> stay (if 0 < sel then sel - 1 else sel)
     | Down \<Rightarrow> stay (if sel + 1 < length navs then sel + 1 else sel)
     | Enter \<Rightarrow> if navs \<noteq> [] then (case navs ! sel of (_, tbl, col, v) \<Rightarrow>
           returnM (RowView name rid sel, Nav_Push (new_browser tbl (Some (col, v))))) else stay sel
     | _ \<Rightarrow> stay sel)"

section \<open>The schema editor\<close>

definition pick_columns :: "'d block_ops \<Rightarrow> string \<Rightarrow> string \<Rightarrow> action \<Rightarrow> ('d app, screen) act" where
  "pick_columns ops name title act =
     bindM (ask (get_table ops name)) (\<lambda>t.
     returnM (new_pick title (or_default [] (map_sum id (\<lambda>t. map col_name (columns t)) t)) act))"

definition dispatch_schema :: "hardware \<Rightarrow> 'd block_ops \<Rightarrow> string \<Rightarrow> nat \<Rightarrow> key \<Rightarrow> ('d app, screen \<times> nav) act" where
  "dispatch_schema hw ops name sel0 k =
     bindM (ask (get_table ops name)) (\<lambda>t.
     let cs = or_default [] (map_sum id columns t); n = length cs; sel = min sel0 (n - 1); c = cs ! sel;
         stay = (\<lambda>s. returnM (Schema name s, Nav_None)); go = (\<lambda>s. returnM (Schema name sel, Nav_Push s)) in
     case k of
       Esc \<Rightarrow> returnM (Schema name sel, Nav_Pop)
     | Up \<Rightarrow> stay (if 0 < sel then sel - 1 else sel)
     | Down \<Rightarrow> stay (if sel + 1 < n then sel + 1 else sel)
     | Char ch \<Rightarrow>
         if ch = CHR ''a'' then go (new_prompt ''New column name'' [] (Act_AddColPickType name []))
         else if ch = CHR ''x'' \<and> 0 < n then
           go (Confirm (''Drop column '' @ apo @ col_name c @ apo @ ''?'') (Act_DropColumn name (col_name c)))
         else if ch = CHR ''r'' \<and> 0 < n then
           go (new_prompt (''Rename column '' @ apo @ col_name c @ apo @ '' to'') (col_name c) (Act_RenameColumn name (col_name c)))
         else if ch = CHR ''w'' \<and> 0 < n then
           go (new_prompt (''Browser width for '' @ apo @ col_name c @ apo @ '' (blank = default)'')
             (case display_width c of None \<Rightarrow> [] | Some w \<Rightarrow> dec_of_nat w) (Act_SetDisplayWidth name (col_name c)))
         else if ch = CHR ''u'' \<and> 0 < n then
           bindM (attempt hw (set_unique ops name (col_name c) (\<not> unique c)) (say ''UNIQUE toggled'')) (\<lambda>_. stay sel)
         else if ch = CHR '','' \<and> 2 \<le> n \<and> 0 < sel then
           bindM (ask (move_column ops name (col_name c) (sel - 1))) (\<lambda>r. case r of
             Inr _ \<Rightarrow> bindM (say (''moved '' @ apo @ col_name c @ apo @ '' up'')) (\<lambda>_. stay (sel - 1))
           | Inl e \<Rightarrow> bindM (report hw e) (\<lambda>_. stay sel))
         else if ch = CHR ''.'' \<and> 2 \<le> n \<and> sel + 1 < n then
           bindM (ask (move_column ops name (col_name c) (sel + 1))) (\<lambda>r. case r of
             Inr _ \<Rightarrow> bindM (say (''moved '' @ apo @ col_name c @ apo @ '' down'')) (\<lambda>_. stay (sel + 1))
           | Inl e \<Rightarrow> bindM (report hw e) (\<lambda>_. stay sel))
         else if ch = CHR ''k'' then
           bindM (pick_columns ops name ''Foreign key: pick source column'' (Act_AddFkPickFrom name)) go
         else if ch = CHR ''K'' then
           (let fk_names = or_default [] (map_sum id (\<lambda>t. map fk_name (fks t)) t) in
            if fk_names \<noteq> [] then go (new_pick ''Drop which foreign key?'' fk_names (Act_DropFk name)) else stay sel)
         else if ch = CHR ''D'' then
           go (Confirm (''Drop the WHOLE table '' @ apo @ name @ apo @ '' and all its rows?'') (Act_DropTable name))
         else if ch = CHR ''R'' then go (RefCols name (or_default [] (map_sum id ref_cols t)) 0)
         else stay sel
     | _ \<Rightarrow> stay sel)"

section \<open>The reference columns\<close>

definition swap_at :: "nat \<Rightarrow> nat \<Rightarrow> 'a list \<Rightarrow> 'a list" where
  "swap_at i j xs = xs[i := xs ! j, j := xs ! i]"

text \<open>The new label order, if the key changes it.\<close>

definition reorder :: "key \<Rightarrow> string \<Rightarrow> string list \<Rightarrow> string list option" where
  "reorder k name labels =
    (let p = position (\<lambda>x. x = name) labels in
     case k of
       Enter \<Rightarrow> Some (case p of Some i \<Rightarrow> remove_at i labels | None \<Rightarrow> labels @ [name])
     | Char c \<Rightarrow>
         if c = CHR '' '' then Some (case p of Some i \<Rightarrow> remove_at i labels | None \<Rightarrow> labels @ [name])
         else if c = CHR '','' then (case p of Some i \<Rightarrow> if 0 < i then Some (swap_at i (i - 1) labels) else None | None \<Rightarrow> None)
         else if c = CHR ''.'' then
           (case p of Some i \<Rightarrow> if i + 1 < length labels then Some (swap_at i (i + 1) labels) else None | None \<Rightarrow> None)
         else None
     | _ \<Rightarrow> None)"

definition dispatch_refcols :: "hardware \<Rightarrow> 'd block_ops \<Rightarrow> string \<Rightarrow> string list \<Rightarrow> nat \<Rightarrow> key \<Rightarrow> ('d app, screen \<times> nav) act" where
  "dispatch_refcols hw ops name labels sel0 k =
     bindM (ask (get_table ops name)) (\<lambda>t.
     let cs = or_default [] (map_sum id (\<lambda>t. map col_name (columns t)) t); n = length cs;
         sel = (if 0 < n then min sel0 (n - 1) else sel0);
         changed = (if k = Char (CHR ''c'') then (if labels \<noteq> [] then Some [] else None)
           else if 0 < n then reorder k (cs ! sel) labels else None) in
     case changed of
       Some labels' \<Rightarrow>
         bindM (attempt hw (set_reference_columns ops name labels')
           (say (if labels' = [] then ''reference columns cleared (auto)'' else ''reference label: '' @ join_space labels')))
           (\<lambda>_. returnM (RefCols name labels' sel, Nav_None))
     | None \<Rightarrow> (case k of
         Esc \<Rightarrow> returnM (RefCols name labels sel, Nav_Pop)
       | Up \<Rightarrow> returnM (RefCols name labels (if 0 < sel then sel - 1 else sel), Nav_None)
       | Down \<Rightarrow> returnM (RefCols name labels (if sel + 1 < n then sel + 1 else sel), Nav_None)
       | _ \<Rightarrow> returnM (RefCols name labels sel, Nav_None)))"

section \<open>The diagnostic screens\<close>

definition dispatch_drives :: "hardware \<Rightarrow> drive_info list \<Rightarrow> nat \<Rightarrow> nat \<Rightarrow> key \<Rightarrow> ('d app, screen \<times> nav) act" where
  "dispatch_drives hw ds sel0 tp k =
    (let n = length ds; sel = (if n \<le> sel0 then n - 1 else sel0);
         show_at = (\<lambda>ds s. returnM (Drives ds s (if s < tp then s else tp), Nav_None)) in
     case k of
       Esc \<Rightarrow> returnM (Drives ds sel (if sel < tp then sel else tp), Nav_Pop)
     | Up \<Rightarrow> show_at ds (if 0 < sel then sel - 1 else sel)
     | Down \<Rightarrow> show_at ds (if sel + 1 < n then sel + 1 else sel)
     | Char c \<Rightarrow>
         if c = CHR ''r'' \<or> c = CHR ''R'' then
           (let ds' = hw_ide hw @ hw_usb hw in
            bindM (say (''re-enumerated drives ('' @ dec_of_nat (length (filter present ds')) @ '' present of '' @ dec_of_nat (length ds') @
              ''; was '' @ dec_of_nat (length (filter present ds)) @ '' of '' @ dec_of_nat n @ '')'')) (\<lambda>_. show_at ds' sel))
         else show_at ds sel
     | _ \<Rightarrow> show_at ds sel)"

definition version_string :: "nat \<Rightarrow> string" where
  "version_string v = dec_of_nat (v div 256) @ ''.'' @ [hex_digit (v mod 256 div 16), hex_digit (v mod 16)]"

definition dispatch_pci :: "hardware \<Rightarrow> pci_device list \<Rightarrow> nat \<Rightarrow> nat \<Rightarrow> key \<Rightarrow> ('d app, screen \<times> nav) act" where
  "dispatch_pci hw ds sel0 tp k =
    (let n = length ds; sel = (if n \<le> sel0 then n - 1 else sel0); vis = pci_visible_rows hw;
         window = (\<lambda>ds s. let top1 = (if s < tp then s else tp) in PciList ds s (if top1 + vis \<le> s then s + 1 - vis else top1));
         stay = (\<lambda>s. returnM (window ds s, Nav_None)) in
     case k of
       Esc \<Rightarrow> returnM (window ds sel, Nav_Pop)
     | Up \<Rightarrow> stay (if 0 < sel then sel - 1 else sel)
     | Down \<Rightarrow> stay (if sel + 1 < n then sel + 1 else sel)
     | PageUp \<Rightarrow> stay (sel - 10)
     | PageDown \<Rightarrow> stay (min (sel + 10) (n - 1))
     | Enter \<Rightarrow>
         if ds = [] then stay sel
         else let d = ds ! sel in
           if pci_class d = 0x0C \<and> sub_class d = 0x03 \<and> prog_if d = 0x30 then
             (case hw_inspect hw d of
                Some info \<Rightarrow>
                  bindM (say (''xHCI '' @ version_string (hci_version info) @ '' '' @ MINUS @ '' '' @ dec_of_nat (max_slots info) @ '' slots, '' @
                    dec_of_nat (max_ports info) @ '' ports'')) (\<lambda>_. returnM (window ds sel, Nav_Push (Xhci info d)))
              | None \<Rightarrow> bindM (say ''xHCI inspection failed (BAR unassigned or > 4 GiB)'') (\<lambda>_. stay sel))
           else bindM (say ''Enter only inspects xHCI controllers for now'') (\<lambda>_. stay sel)
     | Char c \<Rightarrow>
         if c = CHR ''r'' \<or> c = CHR ''R'' then
           bindM (say (''re-enumerated PCI ('' @ dec_of_nat (length (hw_pci hw)) @ '' devices)'')) (\<lambda>_. returnM (window (hw_pci hw) sel, Nav_None))
         else if c = CHR ''t'' \<or> c = CHR ''T'' then
           bindM (say (''delay_ms(1000) ran for '' @ dec_of_nat (hw_delay hw div max (hw_tsc hw) 1) @ '' '' @ [CHR 0xC2, CHR 0xB5] @ ''s (TSC: '' @
             dec_of_nat (hw_tsc hw) @ '' ticks/'' @ [CHR 0xC2, CHR 0xB5] @ ''s)'')) (\<lambda>_. stay sel)
         else stay sel
     | _ \<Rightarrow> stay sel)"

definition disk_state :: "mbr_info \<Rightarrow> string" where
  "disk_state m = (case m of
      TablesOs _ \<Rightarrow> ''an existing TablesOS volume''
    | Partitioned _ \<Rightarrow> ''an existing partition table''
    | Blank \<Rightarrow> ''(empty disk)''
    | _ \<Rightarrow> ''an unrecognised layout'')"

definition dispatch_os_pick :: "(nat \<times> drive_info) list \<Rightarrow> nat \<Rightarrow> key \<Rightarrow> ('d app, screen \<times> nav) act" where
  "dispatch_os_pick cs sel0 k =
    (let n = length cs; sel = (if n \<le> sel0 then n - 1 else sel0); stay = (\<lambda>s. returnM (CreateOsPick cs s, Nav_None)) in
     case k of
       Esc \<Rightarrow> returnM (CreateOsPick cs sel, Nav_Pop)
     | Up \<Rightarrow> stay (if 0 < sel then sel - 1 else sel)
     | Down \<Rightarrow> stay (if sel + 1 < n then sel + 1 else sel)
     | Enter \<Rightarrow> if cs = [] then stay sel
         else (case cs ! sel of (slot_id, d) \<Rightarrow> returnM (CreateOsPick cs sel, Nav_Push (Confirm
           (''Overwrite '' @ drive_info.slot d @ '' ('' @ dec_of_nat (lba28_sectors d div 2048) @ '' MiB) '' @ MINUS @ '' currently '' @
             disk_state (mbr d) @ '' '' @ MINUS @ '' with a fresh TablesOS image?'')
           (Act_CreateOs slot_id (drive_info.slot d)))))
     | _ \<Rightarrow> stay sel)"

definition dispatch_about :: "hardware \<Rightarrow> nat \<Rightarrow> key \<Rightarrow> ('d app, screen \<times> nav) act" where
  "dispatch_about hw tp k =
    (let max_top = hw_about hw - max (visible_rows hw) 1; stay = (\<lambda>t. returnM (About t, Nav_None)) in
     case k of
       Esc \<Rightarrow> returnM (About tp, Nav_Pop)
     | Up \<Rightarrow> stay (tp - 1)
     | Down \<Rightarrow> stay (if tp < max_top then tp + 1 else tp)
     | PageUp \<Rightarrow> stay (tp - 10)
     | PageDown \<Rightarrow> stay (min (tp + 10) max_top)
     | _ \<Rightarrow> stay tp)"

text \<open>The commands of the xHCI screen: the registers are read again after some of them, and the outcome is reported.\<close>

definition reread :: "hardware \<Rightarrow> pci_device \<Rightarrow> xhci_info \<Rightarrow> xhci_info" where
  "reread hw d info = (case hw_inspect hw d of Some fresh \<Rightarrow> fresh | None \<Rightarrow> info)"

definition writable_msc :: "hardware \<Rightarrow> nat option" where
  "writable_msc hw = map_option fst (find (\<lambda>(_, cap). case cap of Some (bs, blocks) \<Rightarrow> bs = 512 \<and> 1 < blocks | None \<Rightarrow> False) (hw_msc hw))"

definition dispatch_xhci :: "hardware \<Rightarrow> xhci_info \<Rightarrow> pci_device \<Rightarrow> key \<Rightarrow> ('d app, screen \<times> nav) act" where
  "dispatch_xhci hw info d k =
    (let keep = returnM (Xhci info d, Nav_None); fresh = reread hw d info; refreshed = returnM (Xhci fresh d, Nav_None);
         told = (\<lambda>t. bindM (say t) (\<lambda>_. keep)); retold = (\<lambda>t. bindM (say t) (\<lambda>_. refreshed));
         count = (\<lambda>bs. dec_of_nat (length (filter id bs))) in
     case k of
       Esc \<Rightarrow> returnM (Xhci info d, Nav_Pop)
     | Char c \<Rightarrow>
         if c = CHR ''r'' \<or> c = CHR ''R'' then
           (if hw_inspect hw d = None then told ''xHCI re-read failed''
            else retold (''xHCI registers re-read; MFINDEX='' @ dec_of_nat (mfindex fresh)))
         else if c = CHR ''b'' \<or> c = CHR ''B'' then (case hw_bring_up hw of
             Inr _ \<Rightarrow> retold (''xHCI brought up '' @ MINUS @ '' controller running, MFINDEX='' @ dec_of_nat (mfindex fresh))
           | Inl e \<Rightarrow> retold (''xHCI bring-up failed: '' @ e))
         else if c = CHR ''e'' \<or> c = CHR ''E'' then (case hw_slot_ids hw of
             Inr ids \<Rightarrow> retold (''port scan complete '' @ MINUS @ '' '' @ dec_of_nat (length ids) @ '' connected, '' @
               dec_of_nat (length (filter (\<lambda>i. i \<noteq> 0) ids)) @ '' slot(s) assigned'')
           | Inl e \<Rightarrow> told (''port enumeration failed: '' @ e))
         else if c = CHR ''a'' \<or> c = CHR ''A'' then (case hw_addressed hw of
             Inr bs \<Rightarrow> told (''addressed '' @ dec_of_nat (length bs) @ '' slot(s); fetched '' @ count bs @ '' descriptor(s)'')
           | Inl e \<Rightarrow> told (''Address Device failed: '' @ e))
         else if c = CHR ''c'' \<or> c = CHR ''C'' then (case hw_configured hw of
             Inr bs \<Rightarrow> told (''fetched '' @ count bs @ '' configuration descriptor(s)'')
           | Inl e \<Rightarrow> told (''Get Configuration failed: '' @ e))
         else if c = CHR ''g'' \<or> c = CHR ''G'' then (case hw_endpoints hw of
             Inr es \<Rightarrow> told (''Configure Endpoint + SET_CONFIGURATION on '' @ dec_of_nat (length (filter (\<lambda>(cc, _). cc = 1) es)) @
               '' device(s); '' @ dec_of_nat (sum_list (map snd es)) @ '' endpoint(s) wired'')
           | Inl e \<Rightarrow> told (''Configure Endpoint failed: '' @ e))
         else if c = CHR ''m'' \<or> c = CHR ''M'' then (case hw_probes hw of
             Inr bs \<Rightarrow> told (''MSC probe: '' @ dec_of_nat (length bs) @ '' device(s); '' @ count bs @ '' with capacity'')
           | Inl e \<Rightarrow> told (''MSC probe failed: '' @ e))
         else if c = CHR ''w'' \<or> c = CHR ''W'' then (case writable_msc hw of
             Some slot_id \<Rightarrow> (let r = hw_write_test hw slot_id in
               bindM (modifyM (\<lambda>a. a\<lparr>last_usb_test := Some r\<rparr>)) (\<lambda>_.
               told (if wt_ok r then ''USB BlockDevice write/read OK on slot '' @ dec_of_nat (wt_slot r)
                 else ''USB BlockDevice write test failed: '' @ wt_message r)))
           | None \<Rightarrow> told (''no MSC device with 512-byte sectors available '' @ MINUS @ '' run [m] first''))
         else keep
     | _ \<Rightarrow> keep)"

section \<open>The foreign-key picker\<close>

text \<open>The value goes to the nearest row editor on the stack.\<close>

fun edit_nearest :: "(editor \<Rightarrow> editor option) \<Rightarrow> screen list \<Rightarrow> screen list option" where
  "edit_nearest f [] = None"
| "edit_nearest f (Editor ed # r) = map_option (\<lambda>ed'. Editor ed' # r) (f ed)"
| "edit_nearest f (s # r) = map_option ((#) s) (edit_nearest f r)"

definition fill_field :: "nat \<Rightarrow> string \<Rightarrow> editor \<Rightarrow> editor option" where
  "fill_field i t ed = (if i < length (ed_fields ed)
     then Some (ed\<lparr>ed_fields := (ed_fields ed)[i := \<lparr>fld_value = t, fld_null = False, fld_caret = char_count t\<rparr>], ed_error := None, ed_focus := i\<rparr>)
     else None)"

definition fk_select :: "'d block_ops \<Rightarrow> nat \<Rightarrow> row_id \<Rightarrow> string \<Rightarrow> string \<Rightarrow> ('d app, bool) act" where
  "fk_select ops i rid tname col =
     bindM (ask (get_table ops tname)) (\<lambda>t. case t of
       Inl _ \<Rightarrow> bindM (say (''could not load '' @ apo @ tname @ apo)) (\<lambda>_. returnM False)
     | Inr t \<Rightarrow> (case column_index t col of
         None \<Rightarrow> bindM (say (''column '' @ apo @ col @ apo @ '' not found in '' @ apo @ tname @ apo)) (\<lambda>_. returnM False)
       | Some ci \<Rightarrow> bindM (ask (get_row ops tname rid)) (\<lambda>r. case r of
           Inl _ \<Rightarrow> bindM (say ''could not load selected row'') (\<lambda>_. returnM False)
         | Inr r \<Rightarrow> (case get_at r ci of
             Some (Some v) \<Rightarrow> bindM (getM stack) (\<lambda>st. case edit_nearest (fill_field i (display v)) st of
                 None \<Rightarrow> returnM False
               | Some st' \<Rightarrow> bindM (modifyM (\<lambda>a. a\<lparr>stack := st'\<rparr>)) (\<lambda>_. returnM True))
           | Some None \<Rightarrow> bindM (say ''selected row has NULL in the target column'') (\<lambda>_. returnM False)
           | None \<Rightarrow> bindM (say ''column index out of range'') (\<lambda>_. returnM False)))))"

definition dispatch_fk_pick :: "hardware \<Rightarrow> 'd block_ops \<Rightarrow> fk_pick \<Rightarrow> key \<Rightarrow> ('d app, screen \<times> nav) act" where
  "dispatch_fk_pick hw ops p0 k =
    (let rows = fp_rows p0; n = length rows; vis = max (visible_rows hw) 1;
         p = (if n \<le> fp_sel p0 then p0\<lparr>fp_sel := n - 1\<rparr> else p0); sel = fp_sel p; tp = fp_top p;
         stay = (\<lambda>p. returnM (FkPick p, Nav_None)) in
     case k of
       Esc \<Rightarrow> returnM (FkPick p, Nav_Pop)
     | Up \<Rightarrow> stay (if 0 < sel then p\<lparr>fp_sel := sel - 1, fp_top := (if sel - 1 < tp then sel - 1 else tp)\<rparr> else p)
     | Down \<Rightarrow> stay (if sel + 1 < n then p\<lparr>fp_sel := sel + 1, fp_top := (if tp + vis \<le> sel + 1 then sel + 1 - vis + 1 else tp)\<rparr> else p)
     | PageUp \<Rightarrow> stay (p\<lparr>fp_sel := sel - vis, fp_top := tp - vis\<rparr>)
     | PageDown \<Rightarrow> stay (p\<lparr>fp_sel := min (sel + vis) (n - 1), fp_top := min (tp + vis) (n - vis)\<rparr>)
     | Enter \<Rightarrow> if rows = [] then stay p
         else bindM (fk_select ops (fp_field p) (fst (rows ! sel)) (fp_to_table p) (fp_to_col p)) (\<lambda>filled.
           returnM (FkPick p, if filled then Nav_Pop else Nav_None))
     | _ \<Rightarrow> stay p)"

section \<open>Dispatch\<close>

definition dispatch :: "hardware \<Rightarrow> 'd block_ops \<Rightarrow> screen \<Rightarrow> key \<Rightarrow> ('d app, screen \<times> nav) act" where
  "dispatch hw ops scr k = (case scr of
      TableList sel \<Rightarrow> dispatch_list hw ops sel k
    | Browser b \<Rightarrow> dispatch_browser hw ops b k
    | RowView name rid sel \<Rightarrow> dispatch_rowview ops name rid sel k
    | Schema name sel \<Rightarrow> dispatch_schema hw ops name sel k
    | RefCols name labels sel \<Rightarrow> dispatch_refcols hw ops name labels sel k
    | Drives ds sel tp \<Rightarrow> dispatch_drives hw ds sel tp k
    | PciList ds sel tp \<Rightarrow> dispatch_pci hw ds sel tp k
    | CreateOsPick cs sel \<Rightarrow> dispatch_os_pick cs sel k
    | FkPick p \<Rightarrow> dispatch_fk_pick hw ops p k
    | InstallResult r \<Rightarrow> returnM (scr, if k = Esc \<or> k = Enter then Nav_PopToList else Nav_None)
    | About tp \<Rightarrow> dispatch_about hw tp k
    | Xhci info d \<Rightarrow> dispatch_xhci hw info d k
    | _ \<Rightarrow> returnM (scr, Nav_None))"

definition navigate :: "nav \<Rightarrow> ('d app, unit) act" where
  "navigate n = (case n of
      Nav_None \<Rightarrow> returnM ()
    | Nav_Push s \<Rightarrow> push_screen s
    | Nav_Pop \<Rightarrow> bindM (say []) (\<lambda>_. pop_screen)
    | Nav_PopToList \<Rightarrow> bindM (say []) (\<lambda>_. back_to_list))"

text \<open>A screen without a key handler of its own is taken off the stack while it is dispatched, with a table list in its place.\<close>

definition key_dispatch :: "hardware \<Rightarrow> 'd block_ops \<Rightarrow> screen \<Rightarrow> key \<Rightarrow> ('d app, unit) act" where
  "key_dispatch hw ops scr k =
     bindM (put_top (TableList 0)) (\<lambda>_.
     bindM (dispatch hw ops scr k) (\<lambda>(restored, n).
     bindM (put_top restored) (\<lambda>_. navigate n)))"

section \<open>Modal screens\<close>

text \<open>\<^verbatim>\<open>str::trim\<close>: the characters of Unicode's White_Space property, in UTF-8.\<close>

definition white_char :: "string \<Rightarrow> bool" where
  "white_char c \<longleftrightarrow> map of_char c \<in> set ([[32], [0xC2, 0x85], [0xC2, 0xA0], [0xE1, 0x9A, 0x80], [0xE2, 0x80, 0xA8], [0xE2, 0x80, 0xA9],
      [0xE2, 0x80, 0xAF], [0xE2, 0x81, 0x9F], [0xE3, 0x80, 0x80]] @
      map (\<lambda>n. [n]) [9..<14] @ map (\<lambda>n. [0xE2, 0x80, n]) [0x80..<0x8B] :: nat list list)"

definition trim :: "string \<Rightarrow> string" where
  "trim s = concat (rev (dropWhile white_char (rev (dropWhile white_char (chars_of s)))))"

text \<open>\<^verbatim>\<open>str::parse::<u32>\<close>.\<close>

definition parse_u32 :: "string \<Rightarrow> nat option" where
  "parse_u32 s =
    (let ds = (case s of c # cs \<Rightarrow> if c = CHR ''+'' then cs else s | [] \<Rightarrow> s); n = foldl (\<lambda>n c. n * 10 + (of_char c - 48)) 0 ds in
     if ds \<noteq> [] \<and> list_all is_ascii_digit ds \<and> n < 2 ^ 32 then Some n else None)"

definition MIN_COL_W :: nat where "MIN_COL_W = 1"
definition MAX_COL_W :: nat where "MAX_COL_W = 120"

text \<open>The width that the prompt asks for: \<^term>\<open>Some None\<close> clears it.\<close>

definition entered_width :: "string \<Rightarrow> nat option option" where
  "entered_width s = (if trim s = [] then Some None else map_option (\<lambda>w. Some (min (max w MIN_COL_W) MAX_COL_W)) (parse_u32 (trim s)))"

definition resolve_prompt :: "hardware \<Rightarrow> 'd block_ops \<Rightarrow> action \<Rightarrow> string \<Rightarrow> ('d app, unit) act" where
  "resolve_prompt hw ops act s = (case act of
      Act_CreateTable \<Rightarrow> attempt hw (create_table ops s)
        (bindM (say (''created table '' @ apo @ s @ apo)) (\<lambda>_. push_screen (Schema s 0)))
    | Act_AddColPickType name _ \<Rightarrow>
        if s = [] then say ''column name required''
        else push_screen (new_pick (''Type for column '' @ apo @ s @ apo) (map type_name all_types) (Act_AddColPickType name s))
    | Act_RenameColumn name old \<Rightarrow>
        if s = [] then say ''column name required''
        else attempt hw (rename_column ops name old s) (say (''renamed '' @ apo @ old @ apo @ '' to '' @ apo @ s @ apo))
    | Act_SetDisplayWidth name col \<Rightarrow> (case entered_width s of
        None \<Rightarrow> say ''width must be a whole number (blank to clear)''
      | Some w \<Rightarrow> attempt hw (set_display_width ops name col w)
          (say (case w of
              Some n \<Rightarrow> apo @ col @ apo @ '' browser width set to '' @ dec_of_nat n
            | None \<Rightarrow> apo @ col @ apo @ '' browser width reset to default'')))
    | _ \<Rightarrow> returnM ())"

definition added_column :: "string \<Rightarrow> string \<Rightarrow> column" where
  "added_column name choice = \<lparr>col_name = name, ty = (case from_name choice of Some t \<Rightarrow> t | None \<Rightarrow> TString), nullable = True, unique = False,
     display_width = None\<rparr>"

definition resolve_pick :: "hardware \<Rightarrow> 'd block_ops \<Rightarrow> action \<Rightarrow> string \<Rightarrow> ('d app, unit) act" where
  "resolve_pick hw ops act choice = (case act of
      Act_AddColPickType name col \<Rightarrow> attempt hw (add_column ops name (added_column col choice)) (say ''column added (nullable)'')
    | Act_AddFkPickFrom name \<Rightarrow> bindM (ask (list_tables ops)) (\<lambda>r.
        push_screen (new_pick ''Foreign key: target table'' (map info_name (or_default [] r)) (Act_AddFkPickToTable name choice)))
    | Act_AddFkPickToTable name from \<Rightarrow> bindM (ask (get_table ops choice)) (\<lambda>t.
        let cs = or_default [] (map_sum id (\<lambda>t. map col_name (filter unique (columns t))) t) in
        if cs = [] then say (apo @ choice @ apo @ '' has no UNIQUE column to target'')
        else push_screen (new_pick (''UNIQUE column in '' @ apo @ choice @ apo) cs (Act_AddFkPickToCol name from choice)))
    | Act_AddFkPickToCol name from target \<Rightarrow> attempt hw (add_fk ops name from target choice) (say ''foreign key added'')
    | Act_DropFk name \<Rightarrow> attempt hw (drop_fk ops name choice) (say ''foreign key dropped'')
    | _ \<Rightarrow> returnM ())"

definition resolve_confirm :: "hardware \<Rightarrow> 'd block_ops \<Rightarrow> action \<Rightarrow> ('d app, unit) act" where
  "resolve_confirm hw ops act = (case act of
      Act_Shutdown \<Rightarrow> modifyM (\<lambda>a. a\<lparr>switched_off := True\<rparr>)
    | Act_DeleteRow name rid \<Rightarrow> attempt hw (delete_row ops name rid) (say ''row deleted'')
    | Act_DropTable name \<Rightarrow> attempt hw (drop_table ops name) (bindM (say (''dropped table '' @ apo @ name @ apo)) (\<lambda>_. back_to_list))
    | Act_DropColumn name col \<Rightarrow> attempt hw (drop_column ops name col) (say (''dropped column '' @ apo @ col @ apo))
    | Act_CreateOs slot_id label \<Rightarrow>
        (let r = hw_install hw slot_id in
         bindM (say (if ir_mount_ok r then ''install OK '' @ MINUS @ '' slot '' @ dec_of_nat slot_id @ '' ready to boot''
           else ''install failed: '' @ ir_message r)) (\<lambda>_.
         bindM back_to_list (\<lambda>_. push_screen (InstallResult r))))
    | _ \<Rightarrow> returnM ())"

definition key_prompt :: "hardware \<Rightarrow> 'd block_ops \<Rightarrow> prompt \<Rightarrow> key \<Rightarrow> ('d app, unit) act" where
  "key_prompt hw ops p k = (case k of
      Esc \<Rightarrow> pop_screen
    | Enter \<Rightarrow> bindM pop_screen (\<lambda>_. resolve_prompt hw ops (pr_action p) (pr_buf p))
    | _ \<Rightarrow> bindM (unwrapM (text_key k (pr_buf p, pr_caret p))) (\<lambda>(s, c). put_top (Prompt (p\<lparr>pr_buf := s, pr_caret := c\<rparr>))))"

definition key_pick :: "hardware \<Rightarrow> 'd block_ops \<Rightarrow> pick \<Rightarrow> key \<Rightarrow> ('d app, unit) act" where
  "key_pick hw ops p k =
    (let sel = pk_sel p; opts = pk_options p in
     case k of
       Esc \<Rightarrow> pop_screen
     | Up \<Rightarrow> put_top (Pick (if 0 < sel then p\<lparr>pk_sel := sel - 1\<rparr> else p))
     | Down \<Rightarrow> put_top (Pick (if sel + 1 < length opts then p\<lparr>pk_sel := sel + 1\<rparr> else p))
     | Enter \<Rightarrow> if opts \<noteq> [] then bindM (unwrapM (get_at opts sel)) (\<lambda>choice. bindM pop_screen (\<lambda>_. resolve_pick hw ops (pk_action p) choice))
         else returnM ()
     | _ \<Rightarrow> returnM ())"

definition key_confirm :: "hardware \<Rightarrow> 'd block_ops \<Rightarrow> action \<Rightarrow> key \<Rightarrow> ('d app, unit) act" where
  "key_confirm hw ops act k = (case k of
      Enter \<Rightarrow> bindM pop_screen (\<lambda>_. resolve_confirm hw ops act)
    | Esc \<Rightarrow> pop_screen
    | _ \<Rightarrow> returnM ())"

section \<open>The row editor\<close>

definition commit_editor :: "hardware \<Rightarrow> 'd block_ops \<Rightarrow> editor \<Rightarrow> ('d app, unit) act" where
  "commit_editor hw ops ed0 =
     bindM (put_top (TableList 0)) (\<lambda>_.
     bindM (unwrapM (editor_cells (hw_msc_error hw) 0 (ed_cols ed0) (ed_fields ed0))) (\<lambda>r.
     let ed = ed0\<lparr>ed_error := None\<rparr> in
     case r of
       Inl e \<Rightarrow> put_top (Editor (ed\<lparr>ed_error := Some e\<rparr>))
     | Inr cells \<Rightarrow>
         bindM (ask (case ed_id ed of
             Some rid \<Rightarrow> update_row ops (ed_table ed) rid cells
           | None \<Rightarrow> bindM (insert_row ops (ed_table ed) cells) (\<lambda>_. returnM ()))) (\<lambda>res. case res of
           Inr _ \<Rightarrow> bindM (say ''saved'') (\<lambda>_. bindM (put_top (TableList 0)) (\<lambda>_. pop_screen))
         | Inl e \<Rightarrow> bindM (ask (get_table ops (ed_table ed))) (\<lambda>t.
             let i = column_for_error (ed_cols ed) (or_default [] (map_sum id fks t)) e in
             put_top (Editor (ed\<lparr>ed_error := Some (i, describe (hw_msc_error hw) e)\<rparr>))))))"

definition open_fk_picker :: "hardware \<Rightarrow> 'd block_ops \<Rightarrow> nat \<Rightarrow> string \<Rightarrow> string \<Rightarrow> string \<Rightarrow> ('d app, unit) act" where
  "open_fk_picker hw ops i from target col =
     bindM (ask (scan ops target)) (\<lambda>rows. case rows of
       Inl e \<Rightarrow> report hw e
     | Inr rows \<Rightarrow> bindM (ask (get_table ops target)) (\<lambda>t. case t of
         Inl e \<Rightarrow> report hw e
       | Inr t \<Rightarrow>
           if rows = [] then say (''no rows in '' @ apo @ target @ apo @ '' to pick from'')
           else push_screen (FkPick \<lparr>fp_field = i, fp_from_col = from, fp_to_table = target, fp_to_col = col,
             fp_rows = map (\<lambda>(rid, r). (rid, reference_label t r)) rows, fp_sel = 0, fp_top = 0\<rparr>)))"

text \<open>The builder starts from the text of the field when that parses.\<close>

definition seeded_builder :: "nat \<Rightarrow> column \<Rightarrow> field \<Rightarrow> field_builder" where
  "seeded_builder i c f =
    (let b = fb_new i (col_name c) (ty c) in
     if \<not> fld_null f \<and> fld_value f \<noteq> [] then (case parse_value (ty c) (fld_value f) of Inr v \<Rightarrow> load_from v b | Inl _ \<Rightarrow> b) else b)"

definition open_builder :: "hardware \<Rightarrow> 'd block_ops \<Rightarrow> editor \<Rightarrow> nat \<Rightarrow> ('d app, unit) act" where
  "open_builder hw ops ed i =
     bindM (unwrapM (get_at (ed_cols ed) i)) (\<lambda>c.
     bindM (ask (get_table ops (ed_table ed))) (\<lambda>t.
     case find (\<lambda>fk. from_col fk = col_name c) (or_default [] (map_sum id fks t)) of
       Some fk \<Rightarrow> open_fk_picker hw ops i (col_name c) (to_table fk) (to_col fk)
     | None \<Rightarrow>
         bindM (unwrapM (get_at (ed_fields ed) i)) (\<lambda>f.
         bindM (if ed_id ed = None \<and> unique c then ask (next_unique_value ops (ed_table ed) i (ty c)) else returnM (Inr None)) (\<lambda>n.
         push_screen (Builder ((seeded_builder i c f)\<lparr>fb_next := or_default None n\<rparr>))))))"

definition on_field :: "editor \<Rightarrow> bool" where
  "on_field ed \<longleftrightarrow> ed_focus ed < length (ed_cols ed)"

text \<open>An edit of the field that has the focus; \<open>reset\<close> clears its NULL mark first.\<close>

definition edit_focused :: "bool \<Rightarrow> (text_state \<Rightarrow> text_state option) \<Rightarrow> editor \<Rightarrow> ('d app, unit) act" where
  "edit_focused reset g ed =
    (if on_field ed then
       bindM (unwrapM (get_at (ed_fields ed) (ed_focus ed))) (\<lambda>f.
       bindM (unwrapM (edit_field g (if reset then f\<lparr>fld_null := False\<rparr> else f))) (\<lambda>f'.
       put_top (Editor (ed\<lparr>ed_fields := (ed_fields ed)[ed_focus ed := f']\<rparr>))))
     else returnM ())"

definition toggle_null :: "editor \<Rightarrow> ('d app, unit) act" where
  "toggle_null ed =
    (if on_field ed \<and> nullable (ed_cols ed ! ed_focus ed) then
       bindM (unwrapM (get_at (ed_fields ed) (ed_focus ed))) (\<lambda>f.
       put_top (Editor (ed\<lparr>ed_fields := (ed_fields ed)[ed_focus ed := f\<lparr>fld_null := \<not> fld_null f\<rparr>]\<rparr>)))
     else returnM ())"

definition key_editor :: "hardware \<Rightarrow> 'd block_ops \<Rightarrow> editor \<Rightarrow> key \<Rightarrow> ('d app, unit) act" where
  "key_editor hw ops ed k =
    (let nf = length (ed_cols ed); focus_on = (\<lambda>i. put_top (Editor (ed\<lparr>ed_focus := i\<rparr>))) in
     case k of
       Esc \<Rightarrow> pop_screen
     | Tab \<Rightarrow> focus_on ((ed_focus ed + 1) mod (nf + 2))
     | Down \<Rightarrow> focus_on ((ed_focus ed + 1) mod (nf + 2))
     | Up \<Rightarrow> focus_on ((ed_focus ed + nf + 1) mod (nf + 2))
     | key.Left \<Rightarrow> edit_focused False (Some \<circ> ce_left) ed
     | key.Right \<Rightarrow> edit_focused False (Some \<circ> ce_right) ed
     | Home \<Rightarrow> edit_focused False (\<lambda>(s, _). Some (s, 0)) ed
     | End \<Rightarrow> edit_focused False (\<lambda>(s, _). Some (s, char_count s)) ed
     | Delete \<Rightarrow> toggle_null ed
     | PageDown \<Rightarrow> if on_field ed then open_builder hw ops ed (ed_focus ed) else returnM ()
     | Backspace \<Rightarrow> edit_focused True ce_backspace ed
     | Char c \<Rightarrow> edit_focused True (ce_insert [c]) ed
     | Enter \<Rightarrow> if ed_focus ed = nf + 1 then pop_screen else commit_editor hw ops ed
     | _ \<Rightarrow> returnM ())"

section \<open>The value builder on the stack\<close>

definition fill_editor :: "nat \<Rightarrow> string \<Rightarrow> screen \<Rightarrow> screen" where
  "fill_editor i t s = (case s of
      Editor ed \<Rightarrow> Editor (case fill_field i t ed of Some ed' \<Rightarrow> ed' | None \<Rightarrow> ed\<lparr>ed_error := None, ed_focus := i\<rparr>)
    | _ \<Rightarrow> s)"

definition accept_builder :: "hardware \<Rightarrow> field_builder \<Rightarrow> ('d app, unit) act" where
  "accept_builder hw b =
     bindM (put_top (TableList 0)) (\<lambda>_.
     case commit_builder (hw_msc_error hw) b of
       Wrote i t \<Rightarrow> bindM pop_screen (\<lambda>_. bindM top_screen (\<lambda>s. bindM (put_top (fill_editor i t s)) (\<lambda>_. say ''value set from fields'')))
     | Stay b' \<Rightarrow> put_top (Builder b')
     | Closed \<Rightarrow> returnM ())"

definition key_value_builder :: "hardware \<Rightarrow> field_builder \<Rightarrow> key \<Rightarrow> ('d app, unit) act" where
  "key_value_builder hw b k =
     bindM (unwrapM (key_builder k b)) (\<lambda>(b', w).
     bindM (put_top (Builder b')) (\<lambda>_.
     case w of
       No_want \<Rightarrow> returnM ()
     | Want_cancel \<Rightarrow> pop_screen
     | Want_now \<Rightarrow> (case fill_now (hw_clock hw) b' of (b'', filled) \<Rightarrow>
         if filled then bindM (put_top (Builder (b''\<lparr>fb_error := None\<rparr>))) (\<lambda>_. say ''filled current date/time'')
         else say (''RTC unavailable '' @ MINUS @ '' enter the value manually''))
     | Want_next \<Rightarrow> (case fill_next b' of (b'', filled) \<Rightarrow>
         if filled then bindM (put_top (Builder (b''\<lparr>fb_error := None\<rparr>))) (\<lambda>_. say ''filled next unique value (max+1)'')
         else returnM ())
     | Want_commit \<Rightarrow> accept_builder hw b'))"

section \<open>Events\<close>

definition on_key :: "hardware \<Rightarrow> 'd block_ops \<Rightarrow> key \<Rightarrow> ('d app, unit) act" where
  "on_key hw ops k = bindM top_screen (\<lambda>s. case s of
      Prompt p \<Rightarrow> key_prompt hw ops p k
    | Pick p \<Rightarrow> key_pick hw ops p k
    | Confirm _ act \<Rightarrow> key_confirm hw ops act k
    | Editor ed \<Rightarrow> key_editor hw ops ed k
    | Builder b \<Rightarrow> key_value_builder hw b k
    | _ \<Rightarrow> key_dispatch hw ops s k)"

definition move_cursor :: "nat \<Rightarrow> screen \<Rightarrow> screen" where
  "move_cursor i s = (case s of
      TableList _ \<Rightarrow> TableList i
    | Browser b \<Rightarrow> Browser (b\<lparr>br_row := i\<rparr>)
    | RowView name rid _ \<Rightarrow> RowView name rid i
    | Schema name _ \<Rightarrow> Schema name i
    | RefCols name labels _ \<Rightarrow> RefCols name labels i
    | Pick p \<Rightarrow> Pick (p\<lparr>pk_sel := i\<rparr>)
    | Drives ds _ tp \<Rightarrow> Drives ds i tp
    | PciList ds _ tp \<Rightarrow> PciList ds i tp
    | CreateOsPick cs _ \<Rightarrow> CreateOsPick cs i
    | FkPick p \<Rightarrow> FkPick (p\<lparr>fp_sel := i\<rparr>)
    | Editor ed \<Rightarrow> Editor (ed\<lparr>ed_focus := i\<rparr>)
    | Builder b \<Rightarrow> Builder (b\<lparr>fb_focus := i\<rparr>)
    | _ \<Rightarrow> s)"

definition set_cursor :: "nat \<Rightarrow> ('d app, unit) act" where
  "set_cursor i = bindM top_screen (\<lambda>s. put_top (move_cursor i s))"

text \<open>
  The line under the pointer decides. Key hints are made of ASCII, so a hint for another character does not arise and is left out.
\<close>

definition on_click :: "hardware \<Rightarrow> 'd block_ops \<Rightarrow> nat \<Rightarrow> nat \<Rightarrow> ('d app, unit) act" where
  "on_click hw ops x y =
    (if y < BODY_TOP then returnM ()
     else bindM (getM hitmap) (\<lambda>hm. case get_at hm ((y - BODY_TOP) div CELL_H) of
       None \<Rightarrow> returnM ()
     | Some (h, s) \<Rightarrow> (case h of
         No_hit \<Rightarrow> returnM ()
       | Focus i \<Rightarrow> set_cursor i
       | Activate i \<Rightarrow> bindM (set_cursor i) (\<lambda>_. on_key hw ops Enter)
       | Shortcuts \<Rightarrow> if x < BODY_X then returnM ()
           else (case shortcut_at s ((x - BODY_X) div CELL_W) of
               Some (Press k) \<Rightarrow> on_key hw ops k
             | _ \<Rightarrow> returnM ()))))"

definition on_right_click :: "hardware \<Rightarrow> 'd block_ops \<Rightarrow> ('d app, unit) act" where
  "on_right_click hw ops = on_key hw ops Esc"

definition has_text_cursor :: "screen list \<Rightarrow> bool" where
  "has_text_cursor st = (case st of
      Editor ed # _ \<Rightarrow> ed_focus ed < length (ed_cols ed)
    | Builder b # _ \<Rightarrow> fb_focus b < length (fb_parts b)
    | Prompt _ # _ \<Rightarrow> True
    | _ \<Rightarrow> False)"

section \<open>One turn of the main loop\<close>

definition BLINK_TICKS :: nat where "BLINK_TICKS = 9"

text \<open>What an event asks for besides its effect: a repaint, and the solid caret.\<close>

definition on_event :: "hardware \<Rightarrow> 'd block_ops \<Rightarrow> event \<Rightarrow> ('d app, bool \<times> bool) act" where
  "on_event hw ops e = (case e of
      MouseMove _ _ \<Rightarrow> returnM (False, False)
    | Click x y \<Rightarrow> bindM (on_click hw ops x y) (\<lambda>_. returnM (True, True))
    | RightClick \<Rightarrow> bindM (on_right_click hw ops) (\<lambda>_. returnM (True, False))
    | Key k \<Rightarrow> bindM (on_key hw ops k) (\<lambda>_. returnM (True, True)))"

text \<open>The events are drained in order; after a shutdown none is handled.\<close>

fun drain :: "hardware \<Rightarrow> 'd block_ops \<Rightarrow> event list \<Rightarrow> bool \<times> bool \<Rightarrow> ('d app, bool \<times> bool) act" where
  "drain hw ops [] w = returnM w"
| "drain hw ops (e # es) w =
     bindM (getM switched_off) (\<lambda>off. if off then returnM w
     else bindM (on_event hw ops e) (\<lambda>w'. drain hw ops es (fst w \<or> fst w', snd w \<or> snd w')))"

text \<open>
  A turn: drain the events, restart the blinking after typing or clicking, else flip the caret when its half-period is over. The result
  says whether the frame is drawn again. \<open>ticks\<close> and the caret's time stamp are 64-bit counters: their difference wraps around.
\<close>

definition turn :: "hardware \<Rightarrow> 'd block_ops \<Rightarrow> nat \<Rightarrow> event list \<Rightarrow> ('d app, bool) act" where
  "turn hw ops ticks es =
     bindM (drain hw ops es (False, False)) (\<lambda>(repaint, interacted).
     bindM (if interacted then modifyM (\<lambda>a. a\<lparr>cursor_on := True, last_blink := ticks\<rparr>) else returnM ()) (\<lambda>_.
     bindM (getM (\<lambda>a. (has_text_cursor (stack a), last_blink a))) (\<lambda>(text_focus, stamp).
     if \<not> repaint \<and> text_focus \<and> BLINK_TICKS \<le> (ticks + 2 ^ 64 - stamp) mod 2 ^ 64 then
       bindM (modifyM (\<lambda>a. a\<lparr>last_blink := ticks, cursor_on := \<not> cursor_on a\<rparr>)) (\<lambda>_. returnM True)
     else returnM repaint)))"

end
