(* ===== verification/Store_Volume.thy ===== *)
theory Store_Volume
  imports Store_Refine
begin

text \<open>
  The store as its clients use it: what the remaining reading operations answer on a volume that represents a consistent database, that a
  volume represents one database only, and that an operation which succeeds without a new generation has changed nothing. The last
  section sums up, for a RAM disk whose power lasts, what a client may rely on.
\<close>

section \<open>What the reading operations answer\<close>

definition follow_answer :: "database \<Rightarrow> nat \<Rightarrow> row \<Rightarrow> string \<Rightarrow> (string \<times> (row_id \<times> row) list) result" where
  "follow_answer db i r fkn = (case find (\<lambda>f. fk_name f = fkn) (fks (rel_schema (db ! i))) of
      None \<Rightarrow> Inl (NotFound (''foreign key '' @ quoted fkn))
    | Some fk \<Rightarrow> Inr (to_table fk, case Option.bind (column_index (rel_schema (db ! i)) (from_col fk)) (cell_at r) of
        None \<Rightarrow> []
      | Some key \<Rightarrow> (case fk_target db fk of
          None \<Rightarrow> []
        | Some (j, tc) \<Rightarrow> filter (\<lambda>(_, row). cell_at row tc = Some key) (rel_rows (db ! j)))))"

text \<open>The rows of table \<open>j\<close> that refer to row \<open>r\<close> of table \<open>i\<close> by the foreign key \<open>fk\<close>.\<close>

definition referring :: "database \<Rightarrow> nat \<Rightarrow> row \<Rightarrow> nat \<Rightarrow> foreign_key \<Rightarrow> (string \<times> string \<times> row_id \<times> row) list" where
  "referring db i r j fk = (if to_table fk \<noteq> rel_name (db ! i) then []
     else case (column_index (rel_schema (db ! i)) (to_col fk), column_index (rel_schema (db ! j)) (from_col fk)) of
       (Some tci, Some fci) \<Rightarrow> (case cell_at r tci of
           None \<Rightarrow> []
         | Some key \<Rightarrow> map (\<lambda>(q, orow). (rel_name (db ! j), fk_name fk, q, orow))
             (filter (\<lambda>(_, orow). cell_at orow fci = Some key) (rel_rows (db ! j))))
     | _ \<Rightarrow> [])"

definition referrers :: "database \<Rightarrow> nat \<Rightarrow> row \<Rightarrow> (string \<times> string \<times> row_id \<times> row) list" where
  "referrers db i r = concat (map (\<lambda>j. concat (map (referring db i r j) (fks (rel_schema (db ! j))))) [0..<length db])"

lemma computes_mapM2:
  "list_all2 (\<lambda>x y. computes ops media good s (f x) (Inr (g y))) xs ys \<Longrightarrow> computes ops media good s (mapM xs f) (Inr (map g ys))"
proof (induction rule: list_all2_induct)
  case (Cons x xs y ys)
  then show ?case by (auto intro!: computes_bind[where x = "g y"] computes_bind[where x = "map g ys"] comp)
qed (simp add: comp)

context block_device
begin

lemma computes_list_tables:
  assumes st: "stores ops media good s ps cat cps Ls db"
  shows "computes ops media good s (list_tables ops)
    (Inr (map (\<lambda>r. \<lparr>info_name = rel_name r, info_columns = length (cols r), info_rows = length (rel_rows r)\<rparr>) db))"
proof -
  have "list_all2 (\<lambda>e r. computes ops media good s (bindM (schema_of ops e) (\<lambda>t.
      returnM \<lparr>info_name = cat_name e, info_columns = length (columns t), info_rows = row_count e\<rparr>))
      (Inr \<lparr>info_name = rel_name r, info_columns = length (cols r), info_rows = length (rel_rows r)\<rparr>)) cat db"
  proof (intro list_all2_all_nthI)
    show "length cat = length db" using stores_lens[OF st] by simp
    fix i assume "i < length cat"
    then have i: "i < length db" using stores_lens[OF st] by simp
    have n: "cat_name (cat ! i) = rel_name (db ! i)" "row_count (cat ! i) = length (rel_rows (db ! i))"
      using stores_table(1)[OF st i] by (simp_all add: table_stored_def)
    show "computes ops media good s (bindM (schema_of ops (cat ! i)) (\<lambda>t.
        returnM \<lparr>info_name = cat_name (cat ! i), info_columns = length (columns t), info_rows = row_count (cat ! i)\<rparr>))
        (Inr \<lparr>info_name = rel_name (db ! i), info_columns = length (cols (db ! i)), info_rows = length (rel_rows (db ! i))\<rparr>)"
      unfolding n by (rule computes_bind[OF computes_schema[OF st i]]) (rule comp)
  qed
  from computes_mapM2[OF this] show ?thesis unfolding list_tables_def
    by (intro computes_bind[OF computes_catalog[OF st]]) simp
qed

lemma computes_get_table:
  assumes st: "stores ops media good s ps cat cps Ls db"
  shows "computes ops media good s (get_table ops name) (bindR (find_table db name) (\<lambda>i. Inr (rel_schema (db ! i))))"
proof (cases "find_table db name")
  case (Inl e)
  then show ?thesis using computes_no_table[OF st Inl] by (simp add: get_table_def bindR_def)
next
  case (Inr i)
  then show ?thesis unfolding get_table_def by (intro computes_with_table[OF st Inr]) (simp add: bindR_def comp)
qed

lemma resize_rows:
  assumes "consistent db" "i < length db"
  shows "map (\<lambda>(rid, r). (rid, resize (length (cols (db ! i))) r)) (rel_rows (db ! i)) = rel_rows (db ! i)"
proof (intro map_idI)
  fix a assume "a \<in> set (rel_rows (db ! i))"
  then have "resize (length (cols (db ! i))) (snd a) = snd a"
    using consistentD(2)[OF assms] by (intro resize_fit) (simp add: row_fits_def)
  then show "(case a of (rid, r) \<Rightarrow> (rid, resize (length (cols (db ! i))) r)) = a" by (cases a) simp
qed

lemma computes_all_rows:
  assumes st: "stores ops media good s ps cat cps Ls db" and c: "consistent db" and i: "i < length db"
  shows "computes ops media good s (bindM (index_collect ops (data_head (cat ! i))) (\<lambda>rows. mapM rows (\<lambda>(rid, head).
      bindM (decode_row_fitted ops head (length (cols (db ! i)))) (\<lambda>r. returnM (rid, r))))) (Inr (rel_rows (db ! i)))"
proof -
  have "computes ops media good s (mapM (live_slots (Ls ! i)) (\<lambda>(rid, head).
      bindM (decode_row_fitted ops head (length (cols (db ! i)))) (\<lambda>r. returnM (rid, r))))
      (Inr (map (\<lambda>(rid, r). (rid, resize (length (cols (db ! i))) r)) (rel_rows (db ! i))))"
    unfolding live_slots_def decode_row_fitted_def
    by (rule computes_rows(2)[OF computes_slots[OF st i]]) (auto simp: bindM_assoc intro!: computes_bind comp)
  then show ?thesis unfolding resize_rows[OF c i] by (rule computes_bind[OF computes_live[OF st i]])
qed

lemma computes_the_row:
  assumes st: "stores ops media good s ps cat cps Ls db" and c: "consistent db" and i: "i < length db" and r: "row_at db i rid = Some r"
    and k: "computes ops media good s (k r) y"
  shows "computes ops media good s (bindM (row_head_at ops rid) (\<lambda>head. bindM (decode_row_fitted ops head (length (cols (db ! i)))) k)) y"
proof -
  obtain h where h: "computes ops media good s (row_head_at ops rid) (Inr h)" "computes ops media good s (read_row ops h) (Inr r)"
    using row_slot[OF st i r] by metis
  have "(rid, r) \<in> set (rel_rows (db ! i))" using r by (auto simp: row_at_def dest: map_of_SomeD)
  then have "resize (length (cols (db ! i))) r = r" using consistentD(2)[OF c i] by (intro resize_fit) (force simp: row_fits_def)
  then have "computes ops media good s (decode_row_fitted ops h (length (cols (db ! i)))) (Inr r)"
    unfolding decode_row_fitted_def by (intro computes_bind[OF h(2)]) (simp add: comp)
  then show ?thesis by (rule computes_bind[OF h(1) computes_bind]) (rule k)
qed

lemma computes_follow:
  assumes st: "stores ops media good s ps cat cps Ls db" and c: "consistent db" and n: "find_table db name = Inr i"
    and r: "row_at db i rid = Some r"
  shows "computes ops media good s (follow_fk ops name rid fkn) (follow_answer db i r fkn)"
  unfolding follow_fk_def
proof (rule computes_with_table[OF st n])
  have i: "i < length db" using find_table_bound[OF n] by simp
  let ?t = "rel_schema (db ! i)"
  show "computes ops media good s (bindM (liftM (ok_or (NotFound (''foreign key '' @ quoted fkn)) (find (\<lambda>f. fk_name f = fkn) (fks ?t)))) (\<lambda>fk.
     bindM (unwrapM (column_index ?t (from_col fk))) (\<lambda>fci.
     bindM (row_head_at ops rid) (\<lambda>head.
     bindM (decode_row_fitted ops head (length (columns ?t))) (\<lambda>r.
     case cell_at r fci of
       None \<Rightarrow> returnM (to_table fk, [])
     | Some key \<Rightarrow>
         bindM (liftM (cat_index cat (to_table fk))) (\<lambda>j.
         bindM (schema_of ops (cat ! j)) (\<lambda>tt.
         bindM (unwrapM (column_index tt (to_col fk))) (\<lambda>tci.
         bindM (index_collect ops (data_head (cat ! j))) (\<lambda>rows.
         bindM (mapM rows (\<lambda>(r, rh).
           bindM (decode_row_fitted ops rh (length (columns tt))) (\<lambda>row. returnM (r, row)))) (\<lambda>all.
         returnM (to_table fk, filter (\<lambda>(_, row). cell_at row tci = Some key) all))))))))))) (follow_answer db i r fkn)"
  proof (cases "find (\<lambda>f. fk_name f = fkn) (fks ?t)")
    case None
    then show ?thesis by (auto simp: follow_answer_def intro!: computes_bind_err comp)
  next
    case (Some fk)
    then have "fk \<in> set (fks ?t)" by (auto simp: find_Some_iff in_set_conv_nth)
    then have "fk_held db i fk" by (rule consistentD(4)[OF c i])
    then obtain fci j tc where f: "column_index ?t (from_col fk) = Some fci" "fk_target db fk = Some (j, tc)" by (rule fk_heldE)
    then have tgt: "find_table db (to_table fk) = Inr j" "column_index (rel_schema (db ! j)) (to_col fk) = Some tc" by (simp_all add: fk_target_Some)
    then have j: "j < length db" using find_table_bound by blast
    have rest: "computes ops media good s (bindM (liftM (cat_index cat (to_table fk))) (\<lambda>j.
         bindM (schema_of ops (cat ! j)) (\<lambda>tt.
         bindM (unwrapM (column_index tt (to_col fk))) (\<lambda>tci.
         bindM (index_collect ops (data_head (cat ! j))) (\<lambda>rows.
         bindM (mapM rows (\<lambda>(r, rh).
           bindM (decode_row_fitted ops rh (length (columns tt))) (\<lambda>row. returnM (r, row)))) (\<lambda>all.
         returnM (to_table fk, filter (\<lambda>(_, row). cell_at row tci = Some key) all)))))))
        (Inr (to_table fk, filter (\<lambda>(_, row). cell_at row tc = Some key) (rel_rows (db ! j))))" for key
      unfolding computes_find[OF st] tgt(1) bindM_assoc[symmetric]
      by (rule computes_bind[OF _ comp(1)] computes_bind[OF computes_basic(3)] computes_bind[OF computes_schema[OF st j]]
          computes_bind[OF computes_unwrap[OF tgt(2)]] computes_all_rows[OF st c j])+
    show ?thesis unfolding Some ok_or_simps
      by (rule computes_bind[OF computes_basic(3)], rule computes_bind[OF computes_unwrap[OF f(1)]], rule computes_the_row[OF st c i r])
        (auto simp: follow_answer_def Some f rest comp split: option.split)
  qed
qed

lemma computes_referencing:
  assumes st: "stores ops media good s ps cat cps Ls db" and c: "consistent db" and n: "find_table db name = Inr i"
    and r: "row_at db i rid = Some r"
  shows "computes ops media good s (referencing_rows ops name rid) (Inr (referrers db i r))"
proof -
  have i: "i < length db" and name: "name = rel_name (db ! i)" using find_table_bound[OF n] by simp_all
  let ?t = "rel_schema (db ! i)"
  define f where "f t r j e ot fk = (if to_table fk \<noteq> name then returnM []
         else bindM (unwrapM (column_index t (to_col fk))) (\<lambda>tci.
           case cell_at r tci of
             None \<Rightarrow> returnM []
           | Some key \<Rightarrow>
               bindM (unwrapM (column_index ot (from_col fk))) (\<lambda>fci.
               bindM (index_collect ops (data_head (cat ! j))) (\<lambda>rows.
               bindM (mapM rows (\<lambda>(q, rh).
                 bindM (decode_row_fitted ops rh (length (columns ot))) (\<lambda>orow. returnM (q, orow)))) (\<lambda>all.
               returnM (map (\<lambda>(q, orow). (cat_name e, fk_name fk, q, orow))
                 (filter (\<lambda>(_, orow). cell_at orow fci = Some key) all)))))))" for t ot :: table and r j and e :: cat_entry and fk :: foreign_key
  have f: "computes ops media good s (f ?t r j (cat ! j) (rel_schema (db ! j)) fk) (Inr (referring db i r j fk))"
    if j: "j < length db" and fk: "fk \<in> set (fks (rel_schema (db ! j)))" for j fk
  proof (cases "to_table fk = name")
    case True
    have cn: "cat_name (cat ! j) = rel_name (db ! j)" using stores_table(1)[OF st j] by (simp add: table_stored_def)
    obtain fci tci where k: "column_index (rel_schema (db ! j)) (from_col fk) = Some fci" "column_index ?t (to_col fk) = Some tci"
      using fk_columns[OF c j fk n True] by blast
    have rest: "computes ops media good s (bindM (index_collect ops (data_head (cat ! j))) (\<lambda>rows.
               bindM (mapM rows (\<lambda>(q, rh).
                 bindM (decode_row_fitted ops rh (length (cols (db ! j)))) (\<lambda>orow. returnM (q, orow)))) (\<lambda>all.
               returnM (map (\<lambda>(q, orow). (rel_name (db ! j), fk_name fk, q, orow))
                 (filter (\<lambda>(_, orow). cell_at orow fci = Some key) all)))))
      (Inr (map (\<lambda>(q, orow). (rel_name (db ! j), fk_name fk, q, orow)) (filter (\<lambda>(_, orow). cell_at orow fci = Some key) (rel_rows (db ! j)))))" for key
      unfolding bindM_assoc[symmetric] by (rule computes_bind[OF computes_all_rows[OF st c j] comp(1)])
    have t: "\<not> to_table fk \<noteq> name" "\<not> to_table fk \<noteq> rel_name (db ! i)" using True name by simp_all
    show ?thesis unfolding f_def referring_def if_not_P[OF t(1)] if_not_P[OF t(2)] cn k prod.case option.case
      by (rule computes_bind[OF computes_unwrap[OF refl]], cases "cell_at r tci", simp_all only: option.case comp)
        (rule computes_bind[OF computes_unwrap[OF refl]], rule rest)
  qed (simp add: f_def referring_def name comp)
  have one: "computes ops media good s (bindM (schema_of ops (cat ! j)) (\<lambda>ot. bindM (mapM (fks ot) (f ?t r j (cat ! j) ot)) (\<lambda>lists. returnM (concat lists))))
      (Inr (concat (map (referring db i r j) (fks (rel_schema (db ! j))))))" if j: "j < length db" for j
    by (rule computes_bind[OF computes_schema[OF st j]], rule computes_bind[OF computes_mapM comp(1)]) (rule f[OF j])
  have all: "computes ops media good s (mapM (enumerate 0 cat) (\<lambda>(j, e). bindM (schema_of ops e) (\<lambda>ot.
      bindM (mapM (fks ot) (f ?t r j e ot)) (\<lambda>lists. returnM (concat lists)))))
    (Inr (map (\<lambda>j. concat (map (referring db i r j) (fks (rel_schema (db ! j))))) [0..<length db]))"
    using stores_lens[OF st] one by (intro computes_mapM2 list_all2_all_nthI) (simp_all add: nth_enumerate_eq)
  show ?thesis unfolding referencing_rows_def
    by (intro computes_with_table[OF st n] computes_the_row[OF st c i r])
      (fold f_def, unfold referrers_def, rule computes_bind[OF all comp(1)])
qed

section \<open>A volume represents one database\<close>

lemma computes_functional: "computes ops media good s m r \<Longrightarrow> computes ops media good s m r' \<Longrightarrow> pager_ok ops media good s \<Longrightarrow> r = r'"
  by (metis computesD option.inject prod.inject)

lemma stores_functional:
  assumes a: "stores ops media good s ps cat cps Ls db" and b: "stores ops media good s ps' cat' cps' Ls' db'"
  shows "db = db'"
proof -
  have ok: "pager_ok ops media good s" using a by (simp add: stores_def)
  have cat: "cat' = cat" using computes_functional[OF computes_catalog[OF b] computes_catalog[OF a] ok] by simp
  have all: "computes ops media good s (bindM (index_collect ops (data_head (c ! i))) (\<lambda>rows. mapM rows (\<lambda>(rid, h).
      bindM (read_row ops h) (\<lambda>r. returnM (rid, r))))) (Inr (rel_rows (d ! i)))"
    if "stores ops media good s q c cq M d" "i < length d" for q c cq M d i
  proof -
    have "computes ops media good s (mapM (live_slots (M ! i)) (\<lambda>(rid, h). bindM (read_row ops h) (\<lambda>r. returnM (rid, r)))) (Inr (map id (rel_rows (d ! i))))"
      unfolding live_slots_def by (rule computes_rows(2)[OF computes_slots[OF that]]) (auto intro!: computes_bind comp)
    then show ?thesis by (intro computes_bind[OF computes_live[OF that]]) simp
  qed
  show ?thesis
  proof (rule nth_equalityI)
    show "length db = length db'" using stores_lens[OF a] stores_lens[OF b] cat by simp
    fix i assume "i < length db"
    then have i: "i < length db" "i < length db'" using stores_lens[OF a] stores_lens[OF b] cat by simp_all
    have "rel_name (db ! i) = rel_name (db' ! i)"
      using stores_table(1)[OF a i(1)] stores_table(1)[OF b i(2)] cat by (simp add: table_stored_def)
    moreover have "rel_schema (db ! i) = rel_schema (db' ! i)"
      using computes_functional[OF computes_schema[OF a i(1)] computes_schema[OF b i(2), unfolded cat] ok] by simp
    moreover have "rel_rows (db ! i) = rel_rows (db' ! i)"
      using computes_functional[OF all[OF a i(1)] all[OF b i(2), unfolded cat] ok] by simp
    ultimately show "db ! i = db' ! i" by simp
  qed
qed

lemma represents_functional:
  assumes a: "represents ops media good s db" and b: "represents ops media good (s\<lparr>cache := c\<rparr>) db'"
  shows "db = db'"
proof -
  from a obtain ps cat cps Ls where 1: "stores ops media good s ps cat cps Ls db" by (auto simp: represents_def)
  from b obtain ps' cat' cps' Ls' where 2: "stores ops media good (s\<lparr>cache := c\<rparr>) ps' cat' cps' Ls' db'" by (auto simp: represents_def)
  have "pager_ok ops media good ((s\<lparr>cache := c\<rparr>)\<lparr>cache := cache s\<rparr>)" using 1 by (simp add: stores_def)
  from stores_cache[OF 2 this] have "stores ops media good s ps' cat' cps' Ls' db'" by simp
  with 1 show ?thesis by (rule stores_functional)
qed

text \<open>Two states on the same medium without unwritten pages have the same superblock.\<close>

lemma represents_same_medium:
  assumes "represents ops media good s db" "represents ops media good s' db'" "dev s' = dev s"
  shows "db' = db \<and> sb s' = sb s"
proof -
  have "sb s' = sb s" "dirty s' = dirty s" using assms by (simp_all add: represents_def)
  then have "s' = s\<lparr>cache := cache s'\<rparr>" using assms(3) by (cases s; cases s') simp
  then show ?thesis using represents_functional[OF assms(1), of "cache s'" db'] assms(2) \<open>sb s' = sb s\<close> by simp
qed

end

section \<open>Success makes a new generation\<close>

text \<open>On a RAM disk that is never cut an operation keeps the power, and if it succeeds, it has made a new generation or not touched the disk.\<close>

definition steady :: "(mem_dev store, 'a) act \<Rightarrow> bool" where
  "steady m \<longleftrightarrow> (\<forall>s r s'. coherent mem_ops mem_media mem_good s \<and> cut_after (dev s) = None \<and> m s = Some (r, s') \<longrightarrow>
     cut_after (dev s') = None \<and> powered (dev s') = powered (dev s) \<and>
     (\<forall>x. r = Inr x \<longrightarrow> generation (sb s') = generation (sb s) + 1 \<or> dev s' = dev s))"

named_theorems steadies "operations that keep the power"

lemma steady_tx [steadies]:
  assumes "mem.kp.keeps_disk f"
  shows "steady (tx mem_ops f)"
  unfolding steady_def
proof (intro allI impI, elim conjE)
  fix s r s' assume c: "coherent mem_ops mem_media mem_good s" and p: "cut_after (dev s) = None" and run: "tx mem_ops f s = Some (r, s')"
  have "generation (sb s') = generation (sb s) + 1 \<or> dev s' = dev s" if r: "r = Inr x" for x
  proof -
    obtain t where t: "f s = Some (Inr x, t)" "pager_commit mem_ops t = Some (Inr (), s')"
      using run r by (auto simp: tx_def abort_def split: option.splits sum.splits prod.splits)
    have k: "dev t = dev s" "generation (sb t) = generation (sb s)" using mem.kp.keeps_diskD[OF assms c t(1)] by (simp_all add: kept_def)
    show ?thesis using t(2) k by (auto simp: pager_commit_def Let_def bindM_eq_Some on_dev_def modifyM_def returnM_def getM_def case_prod_unfold
        forM_assert_result split: if_splits option.splits sum.splits)
  qed
  then show "cut_after (dev s') = None \<and> powered (dev s') = powered (dev s) \<and>
     (\<forall>x. r = Inr x \<longrightarrow> generation (sb s') = generation (sb s) + 1 \<or> dev s' = dev s)"
    using tx_powered[OF assms c run p] by blast
qed

lemma steady_read: "mem.rd.keeps_disk m \<Longrightarrow> steady m"
  unfolding steady_def mem.rd.keeps_disk_def read_kept_def by fastforce

lemma steady_bind [steadies]:
  assumes m: "mem.rd.keeps_disk m" and k: "\<And>x. steady (k x)"
  shows "steady (bindM m k)"
  unfolding steady_def
proof (intro allI impI, elim conjE)
  fix s r s' assume c: "coherent mem_ops mem_media mem_good s" and p: "cut_after (dev s) = None" and run: "bindM m k s = Some (r, s')"
  from run[unfolded bindM_eq_Some] show "cut_after (dev s') = None \<and> powered (dev s') = powered (dev s) \<and>
     (\<forall>x. r = Inr x \<longrightarrow> generation (sb s') = generation (sb s) + 1 \<or> dev s' = dev s)"
  proof (elim disjE exE conjE)
    fix x t assume 1: "m s = Some (Inr x, t)" and 2: "k x t = Some (r, s')"
    have t: "read_kept mem_ops mem_media mem_good s t" by (rule mem.rd.keeps_diskD[OF m c 1])
    then have "dev t = dev s" "sb t = sb s" "coherent mem_ops mem_media mem_good t" by (auto simp: read_kept_def)
    then show ?thesis using k[of x, unfolded steady_def, rule_format, of t r s'] p 2 by simp
  next
    fix e assume 1: "m s = Some (Inl e, s')" and 2: "r = Inl e"
    have "read_kept mem_ops mem_media mem_good s s'" by (rule mem.rd.keeps_diskD[OF m c 1])
    then show ?thesis using p 2 by (auto simp: read_kept_def)
  qed
qed

lemma steady_branch [steadies]:
  "steady m1 \<Longrightarrow> steady m2 \<Longrightarrow> steady (if b then m1 else m2)"
  "steady (returnM x)" "steady (failM e)"
  "(\<And>y. steady (m3 y)) \<Longrightarrow> steady (let y = v in m3 y)"
  "(\<And>cat i t. steady (m4 cat i t)) \<Longrightarrow> steady (with_table mem_ops name m4)"
  unfolding with_table_def
  by (intro steadies keeps | simp add: steady_read[OF mem.rd.keeps_basic(1)] steady_read[OF mem.rd.keeps_basic(2)])+

lemma steady_put_schema [steadies]:
  "(\<And>t. mem.kp.keeps_disk (mutate t)) \<Longrightarrow> steady (put_schema mem_ops name mutate None)"
  "(\<And>t. mem.kp.keeps_disk (mutate t)) \<Longrightarrow> (\<And>r. mem.kp.keeps_disk (f r)) \<Longrightarrow> steady (put_schema mem_ops name mutate (Some f))"
  unfolding put_schema_def option.case by (intro steadies keeps; assumption)+

lemma steady_operations:
  "steady (create_table mem_ops n)" "steady (drop_table mem_ops n)" "steady (rename_column mem_ops n a b)"
  "steady (add_column mem_ops n col)" "steady (drop_column mem_ops n c)"
  "steady (move_column mem_ops n c i)" "steady (set_unique mem_ops n c u)" "steady (add_fk mem_ops n c m tc)"
  "steady (drop_fk mem_ops n fkn)" "steady (set_reference_columns mem_ops n cs)"
  "steady (set_display_width mem_ops n c w)"
  "steady (insert_row mem_ops n cells)" "steady (update_row mem_ops n rid cells)" "steady (delete_row mem_ops n rid)"
  unfolding create_table_def drop_table_def rename_column_def add_column_def drop_column_def move_column_def
    set_unique_def add_fk_def drop_fk_def set_reference_columns_def set_display_width_def insert_row_def
    update_row_def delete_row_def
  by (intro steadies keeps)+

lemma steady_map: "steady m \<Longrightarrow> steady (bindM m (\<lambda>x. returnM (g x)))"
  unfolding steady_def bindM_eq_Some by (force simp: returnM_def)

lemma steady_run: "steady (run_op mem_ops opn)"
  by (cases opn) (simp_all only: run_op.simps steady_map steady_operations)

section \<open>What a client relies on\<close>

text \<open>\<open>holds s db\<close>: the store is mounted on a RAM disk whose power lasts, and its volume represents the consistent database \<open>db\<close>.\<close>

definition holds :: "mem_dev store \<Rightarrow> database \<Rightarrow> bool" where
  "holds s db \<longleftrightarrow> represents mem_ops mem_media mem_good s db \<and> consistent db \<and> powered (dev s) \<and> cut_after (dev s) = None"

lemma holds_quiet: "holds s db \<Longrightarrow> quiet mem_ops mem_media mem_good s"
  by (auto simp: holds_def represents_def stores_def quiet_def coherent_def pager_ok_def)

text \<open>An operation makes a step of the database and a new generation, or leaves the database and the generation as they are.\<close>

lemma holds_op:
  assumes h: "holds s db" and rd: "op_ready db opn" and gen: "generation (sb s) + 1 < 2 ^ 64"
  obtains r s' where "run_op mem_ops opn s = Some (r, s')"
    "(\<exists>x db'. r = Inr x \<and> db_step db opn db' \<and> holds s' db' \<and>
        (generation (sb s') = generation (sb s) + 1 \<or> db' = db \<and> generation (sb s') = generation (sb s))) \<or>
     (\<exists>e. r = Inl e \<and> holds s' db \<and> generation (sb s') = generation (sb s))"
proof -
  have rep: "represents mem_ops mem_media mem_good s db" and c: "consistent db" and p: "powered (dev s)" "cut_after (dev s) = None"
    using h by (simp_all add: holds_def)
  have co: "coherent mem_ops mem_media mem_good s" by (rule represents_coherent[OF rep])
  from mem.run_op_outcome[OF rep c gen rd] obtain r s' where run: "run_op mem_ops opn s = Some (r, s')"
    and out: "powered (dev s') \<longrightarrow> (\<exists>x db'. r = Inr x \<and> db_step db opn db' \<and> represents mem_ops mem_media mem_good s' db') \<or>
        (\<exists>e. r = Inl e \<and> represents mem_ops mem_media mem_good s' db \<and> (e \<noteq> Io \<or> dev s' = dev s))"
    unfolding mem.outcome_def by blast
  have st: "cut_after (dev s') = None \<and> powered (dev s') = powered (dev s) \<and>
     (\<forall>x. r = Inr x \<longrightarrow> generation (sb s') = generation (sb s) + 1 \<or> dev s' = dev s)"
    using steady_run[of opn] co p(2) run unfolding steady_def by blast
  then have pw: "powered (dev s')" using p(1) by simp
  show thesis
  proof (rule that[OF run])
    from out pw consider x db' where "r = Inr x" "db_step db opn db'" "represents mem_ops mem_media mem_good s' db'"
      | e where "r = Inl e" "represents mem_ops mem_media mem_good s' db" "e \<noteq> Io \<or> dev s' = dev s" by blast
    then show "(\<exists>x db'. r = Inr x \<and> db_step db opn db' \<and> holds s' db' \<and>
          (generation (sb s') = generation (sb s) + 1 \<or> db' = db \<and> generation (sb s') = generation (sb s))) \<or>
        (\<exists>e. r = Inl e \<and> holds s' db \<and> generation (sb s') = generation (sb s))"
    proof cases
      case 1
      have "holds s' db'" using 1 db_step_consistent[OF 1(2) c] pw st by (simp add: holds_def)
      moreover have "generation (sb s') = generation (sb s) + 1 \<or> db' = db \<and> generation (sb s') = generation (sb s)"
        using st 1(1) mem.represents_same_medium[OF rep 1(3)] by auto
      ultimately show ?thesis using 1 by blast
    next
      case 2
      have "sb s' = sb s" if "e \<noteq> Io"
        using mem.run_op_clean[of opn] holds_quiet[OF h] run 2(1) that unfolding mem.fails_clean_def read_kept_def by fastforce
      then have "sb s' = sb s" using 2(3) mem.represents_same_medium[OF rep 2(2)] by blast
      moreover have "holds s' db" using 2 c pw st by (simp add: holds_def)
      ultimately show ?thesis using 2 by auto
    qed
  qed
qed

text \<open>A reading action answers \<open>r\<close> on every volume that holds \<open>db\<close>, and changes nothing but the cache.\<close>

definition answers :: "(mem_dev store, 'a) act \<Rightarrow> database \<Rightarrow> 'a result \<Rightarrow> bool" where
  "answers m db r \<longleftrightarrow> (\<forall>s. holds s db \<longrightarrow> (\<exists>c. m s = Some (r, s\<lparr>cache := c\<rparr>) \<and> holds (s\<lparr>cache := c\<rparr>) db))"

lemma answersD: "answers m db r \<Longrightarrow> holds s db \<Longrightarrow> \<exists>c. m s = Some (r, s\<lparr>cache := c\<rparr>) \<and> holds (s\<lparr>cache := c\<rparr>) db"
  by (simp add: answers_def)

lemma answersI:
  assumes "\<And>s ps cat cps Ls. stores mem_ops mem_media mem_good s ps cat cps Ls db \<Longrightarrow> consistent db \<Longrightarrow> computes mem_ops mem_media mem_good s m r"
  shows "answers m db r"
  unfolding answers_def
proof (intro allI impI)
  fix s assume h: "holds s db"
  then obtain ps cat cps Ls where st: "stores mem_ops mem_media mem_good s ps cat cps Ls db" by (auto simp: holds_def represents_def)
  then have ok: "pager_ok mem_ops mem_media mem_good s" by (simp add: stores_def)
  obtain c where c: "m s = Some (r, s\<lparr>cache := c\<rparr>)" "pager_ok mem_ops mem_media mem_good (s\<lparr>cache := c\<rparr>)"
    using computesD[OF assms[OF st] ok] h by (auto simp: holds_def)
  have "stores mem_ops mem_media mem_good (s\<lparr>cache := c\<rparr>) ps cat cps Ls db" by (rule stores_cache[OF st c(2)])
  then have "holds (s\<lparr>cache := c\<rparr>) db" using h by (auto simp: holds_def represents_def)
  with c(1) show "\<exists>c. m s = Some (r, s\<lparr>cache := c\<rparr>) \<and> holds (s\<lparr>cache := c\<rparr>) db" by blast
qed

named_theorems answering "answers of reading actions"

lemma answers_return [answering]: "answers (returnM x) db (Inr x)"
  by (rule answersI) (rule comp)

lemma answers_bind:
  assumes "answers m db (Inr x)" "answers (k x) db r"
  shows "answers (bindM m k) db r"
  unfolding answers_def
proof (intro allI impI)
  fix s assume "holds s db"
  with assms(1) obtain c where c: "m s = Some (Inr x, s\<lparr>cache := c\<rparr>)" "holds (s\<lparr>cache := c\<rparr>) db" unfolding answers_def by blast
  with assms(2) obtain d where "k x (s\<lparr>cache := c\<rparr>) = Some (r, s\<lparr>cache := d\<rparr>)" "holds (s\<lparr>cache := d\<rparr>) db" unfolding answers_def by fastforce
  with c show "\<exists>c. bindM m k s = Some (r, s\<lparr>cache := c\<rparr>) \<and> holds (s\<lparr>cache := c\<rparr>) db" by (auto simp: bindM_def)
qed

lemma answers_bindR: "answers m db r \<Longrightarrow> (\<And>x. r = Inr x \<Longrightarrow> answers (k x) db (f x)) \<Longrightarrow> answers (bindM m k) db (bindR r f)"
proof (cases r)
  case (Inl e)
  assume a: "answers m db r"
  show ?thesis unfolding answers_def
  proof (intro allI impI)
    fix s assume "holds s db"
    with a obtain c where "m s = Some (Inl e, s\<lparr>cache := c\<rparr>)" "holds (s\<lparr>cache := c\<rparr>) db" unfolding answers_def Inl by blast
    then show "\<exists>c. bindM m k s = Some (bindR r f, s\<lparr>cache := c\<rparr>) \<and> holds (s\<lparr>cache := c\<rparr>) db" by (auto simp: bindM_def bindR_def Inl)
  qed
next
  case (Inr x)
  assume "answers m db r" "\<And>x. r = Inr x \<Longrightarrow> answers (k x) db (f x)"
  then show ?thesis using answers_bind[of m db x k] by (simp add: Inr bindR_def)
qed

lemma answers_mapM: "(\<And>x. x \<in> set xs \<Longrightarrow> answers (f x) db (Inr (g x))) \<Longrightarrow> answers (mapM xs f) db (Inr (map g xs))"
  by (induction xs) (auto intro!: answering answers_bind)

definition table_of :: "database \<Rightarrow> string \<Rightarrow> table result" where
  "table_of db name = bindR (find_table db name) (\<lambda>i. Inr (rel_schema (db ! i)))"

definition rows_of :: "database \<Rightarrow> string \<Rightarrow> (row_id \<times> row) list result" where
  "rows_of db name = bindR (find_table db name) (\<lambda>i. Inr (rel_rows (db ! i)))"

definition live_row :: "database \<Rightarrow> string \<Rightarrow> row_id \<Rightarrow> bool" where
  "live_row db name rid \<longleftrightarrow> (\<exists>i < length db. find_table db name = Inr i \<and> row_at db i rid \<noteq> None)"

lemma answers_tables [answering]:
  "answers (list_tables mem_ops) db (Inr (map (\<lambda>r. \<lparr>info_name = rel_name r, info_columns = length (cols r), info_rows = length (rel_rows r)\<rparr>) db))"
  "answers (get_table mem_ops name) db (table_of db name)"
  unfolding table_of_def by (rule answersI, erule mem.computes_list_tables, rule answersI, erule mem.computes_get_table)

lemma answers_scan [answering]: "answers (scan mem_ops name) db (rows_of db name)"
proof (rule answersI)
  fix s ps cat cps Ls assume st: "stores mem_ops mem_media mem_good s ps cat cps Ls db" and c: "consistent db"
  show "computes mem_ops mem_media mem_good s (scan mem_ops name) (rows_of db name)"
  proof (cases "find_table db name")
    case (Inl e)
    then show ?thesis using mem.computes_no_table[OF st Inl] by (simp add: scan_def rows_of_def bindR_def)
  next
    case (Inr i)
    then show ?thesis using mem.computes_scan[OF st Inr] mem.resize_rows[OF c, of i] find_table_bound[OF Inr] by (simp add: rows_of_def bindR_def)
  qed
qed

lemma answers_row:
  assumes "find_table db name = Inr i" "row_at db i rid = Some r"
  shows "answers (get_row mem_ops name rid) db (Inr r)" "answers (follow_fk mem_ops name rid fkn) db (follow_answer db i r fkn)"
    "answers (referencing_rows mem_ops name rid) db (Inr (referrers db i r))"
proof -
  have i: "i < length db" using find_table_bound[OF assms(1)] by simp
  show "answers (get_row mem_ops name rid) db (Inr r)"
  proof (rule answersI)
    fix s ps cat cps Ls assume st: "stores mem_ops mem_media mem_good s ps cat cps Ls db" and c: "consistent db"
    have "(rid, r) \<in> set (rel_rows (db ! i))" using assms(2) by (auto simp: row_at_def dest: map_of_SomeD)
    then have "resize (length (cols (db ! i))) r = r" using consistentD(2)[OF c i] by (intro resize_fit) (force simp: row_fits_def)
    then show "computes mem_ops mem_media mem_good s (get_row mem_ops name rid) (Inr r)" using mem.computes_get_row[OF st assms] by simp
  qed
  show "answers (follow_fk mem_ops name rid fkn) db (follow_answer db i r fkn)"
    by (rule answersI) (rule mem.computes_follow[OF _ _ assms])
  show "answers (referencing_rows mem_ops name rid) db (Inr (referrers db i r))"
    by (rule answersI) (rule mem.computes_referencing[OF _ _ assms])
qed

end
