(* ===== verification/Op_Ready.thy ===== *)
theory Op_Ready
  imports Store_Volume Text_Edit
begin

text \<open>
  What the operations of a client make of names and rows: a volume that holds a database stores well-formed schemas and rows only, and
  from those every operation makes well-formed ones, provided its own arguments are and the numbers of columns and keys, and the
  lengths of names, stay far from the range of the counters.
\<close>

section \<open>Sizes\<close>

definition sizes_ok :: "database \<Rightarrow> bool" where
  "sizes_ok db \<longleftrightarrow> (\<forall>r \<in> set db. length (cols r) < 2 ^ 62 \<and> length (fks (rel_schema r)) < 2 ^ 62 \<and>
     (\<forall>c \<in> set (cols r). length (col_name c) < 2 ^ 62))"

lemma sizes_okD:
  assumes "sizes_ok db" "find_table db name = Inr i"
  shows "length (cols (db ! i)) < 2 ^ 62" "length (fks (rel_schema (db ! i))) < 2 ^ 62"
    "c \<in> set (cols (db ! i)) \<Longrightarrow> length (col_name c) < 2 ^ 62"
  using assms find_table_bound[OF assms(2)] by (auto simp: sizes_ok_def)

section \<open>What a volume holds is well formed\<close>

lemma holds_table:
  assumes h: "holds s db" and n: "find_table db name = Inr i"
  shows "wf_table (rel_schema (db ! i))" "rust_str (rel_name (db ! i))" "a \<in> set (rel_rows (db ! i)) \<Longrightarrow> wf_row (snd a)"
    "a \<in> set (rel_rows (db ! i)) \<Longrightarrow> length (snd a) = length (cols (db ! i))"
proof -
  from h obtain ps cat cps Ls where st: "stores mem_ops mem_media mem_good s ps cat cps Ls db" by (auto simp: holds_def represents_def)
  have i: "i < length db" using find_table_bound[OF n] by simp
  note t = stores_table(1)[OF st i]
  show "wf_table (rel_schema (db ! i))" "rust_str (rel_name (db ! i))" using t by (auto simp: table_stored_def wf_cat_def)
  have l: "list_all2 (row_stored (content mem_media s)) (row_slots (Ls ! i)) (rel_rows (db ! i))" using t by (simp add: table_stored_def)
  show "wf_row (snd a)" if "a \<in> set (rel_rows (db ! i))"
  proof -
    from that obtain k where k: "k < length (rel_rows (db ! i))" "rel_rows (db ! i) ! k = a" by (auto simp: in_set_conv_nth)
    show ?thesis using list_all2_nthD2[OF l k(1)] k(2) by (auto simp: row_stored_def split: prod.splits)
  qed
  show "length (snd a) = length (cols (db ! i))" if "a \<in> set (rel_rows (db ! i))"
    using consistentD(2)[OF _ i that] h by (simp add: holds_def row_fits_def)
qed

lemma wf_tableD:
  assumes "wf_table t"
  shows "c \<in> set (columns t) \<Longrightarrow> wf_column c" "c \<in> set (columns t) \<Longrightarrow> rust_str (col_name c)" "f \<in> set (fks t) \<Longrightarrow> wf_fk f"
    "rust_str (table_name t)"
  using assms by (auto simp: wf_table_def wf_column_def)

section \<open>Names of foreign keys\<close>

lemma fresh_fk_candidate:
  assumes "fresh_fk existing fc cand n = Some r"
  shows "cand \<notin> set existing \<and> r = cand \<or>
    cand \<in> set existing \<and> (\<exists>m \<ge> n. r = fk_candidate fc m \<and> fk_candidate fc ` {n..<m} \<subseteq> set existing)"
proof (rule fresh_fk.raw_induct[OF _ assms])
  fix f existing fc cand n r
  assume IH: "\<And>existing fc cand n r. f existing fc cand n = Some r \<Longrightarrow> cand \<notin> set existing \<and> r = cand \<or>
      cand \<in> set existing \<and> (\<exists>m \<ge> n. r = fk_candidate fc m \<and> fk_candidate fc ` {n..<m} \<subseteq> set existing)"
    and run: "(if cand \<in> set existing then f existing fc (fc @ ''_fk'' @ dec_of_nat n) (n + 1) else Some cand) = Some r"
  show "cand \<notin> set existing \<and> r = cand \<or>
      cand \<in> set existing \<and> (\<exists>m \<ge> n. r = fk_candidate fc m \<and> fk_candidate fc ` {n..<m} \<subseteq> set existing)"
  proof (cases "cand \<in> set existing")
    case True
    then have "f existing fc (fk_candidate fc n) (n + 1) = Some r" using run by (simp add: fk_candidate_def)
    from IH[OF this] show ?thesis
    proof (elim disjE exE conjE)
      assume "r = fk_candidate fc n"
      then show ?thesis using True by (intro disjI2 conjI exI[of _ n]) simp_all
    next
      fix m assume m: "fk_candidate fc n \<in> set existing" "n + 1 \<le> m" "r = fk_candidate fc m" "fk_candidate fc ` {n + 1..<m} \<subseteq> set existing"
      then have "{n..<m} = insert n {n + 1..<m}" by auto
      then show ?thesis using True m by (intro disjI2 conjI exI[of _ m]) simp_all
    qed
  qed (use run in simp)
qed

lemma length_dec_of_nat: "length (dec_of_nat n) \<le> n + 1"
proof (induction n rule: dec_of_nat.induct)
  case (1 n)
  then show ?case by (cases "n < 10") (auto simp: dec_of_nat.simps[of n])
qed

lemma fresh_fk_length:
  assumes "fresh_fk existing fc (fc @ ''_fk'') 2 = Some r"
  shows "length r \<le> length fc + length existing + 6"
  using fresh_fk_candidate[OF assms]
proof (elim disjE conjE exE)
  fix m assume m: "2 \<le> m" "r = fk_candidate fc m" "fk_candidate fc ` {2..<m} \<subseteq> set existing"
  have "inj (fk_candidate fc)" by (rule injI) (auto simp: fk_candidate_def dest: dec_of_nat_inj)
  then have "m - 2 = card (fk_candidate fc ` {2..<m})" by (subst card_image) (auto intro: inj_on_subset)
  also have "\<dots> \<le> card (set existing)" by (rule card_mono[OF _ m(3)]) simp
  also have "\<dots> \<le> length existing" by (rule card_length)
  finally show ?thesis using length_dec_of_nat[of m] m(1,2) by (simp add: fk_candidate_def)
qed simp

lemma ascii_dec: "\<forall>c \<in> set (dec_of_nat n). (of_char c :: nat) < 128"
proof (induction n rule: dec_of_nat.induct)
  case (1 n)
  have d: "(of_char (char_of (48 + d) :: char) :: nat) < 128" if "d < 10" for d :: nat using that by simp
  show ?case using 1 d[of n] d[of "n mod 10"] by (subst dec_of_nat.simps) simp
qed

lemma rust_str_append: "rust_str a \<Longrightarrow> rust_str b \<Longrightarrow> length a + length b < 2 ^ 64 \<Longrightarrow> rust_str (a @ b)"
  by (simp add: rust_str_def utf8_ok_append)

lemma rust_str_ascii: "\<forall>c \<in> set s. (of_char c :: nat) < 128 \<Longrightarrow> length s < 2 ^ 64 \<Longrightarrow> rust_str s"
  by (simp add: rust_str_def utf8_ascii)

lemma fresh_fk_str:
  assumes "fresh_fk existing fc (fc @ ''_fk'') 2 = Some r" "rust_str fc" "length fc < 2 ^ 62" "length existing < 2 ^ 62"
  shows "rust_str r"
proof -
  have len: "length r \<le> length fc + length existing + 6" by (rule fresh_fk_length[OF assms(1)])
  obtain t where t: "r = fc @ t" "\<forall>c \<in> set t. (of_char c :: nat) < 128"
    using fresh_fk_candidate[OF assms(1)]
  proof (elim disjE conjE exE)
    fix m assume "r = fk_candidate fc m"
    then show thesis using ascii_dec[of m] by (intro that[of "''_fk'' @ dec_of_nat m"]) (auto simp: fk_candidate_def)
  qed (use that[of "''_fk''"] in auto)
  have "rust_str t" using t len assms(3,4) by (intro rust_str_ascii) simp_all
  then show ?thesis unfolding t(1) using len t(1) assms by (intro rust_str_append) simp_all
qed

section \<open>Every operation is ready\<close>

lemma ok_or_eq: "ok_or e x = Inr y \<longleftrightarrow> x = Some y"
  by (simp add: ok_or_def split: option.split)

lemma set_remove_at: "set (remove_at i xs) \<subseteq> set xs"
  by (auto simp: remove_at_def dest: in_set_takeD in_set_dropD)

lemma set_insert_at: "set (insert_at i x xs) \<subseteq> insert x (set xs)"
  by (auto simp: insert_at_def dest: in_set_takeD in_set_dropD)

lemma wf_row_subset: "wf_row r \<Longrightarrow> set r' \<subseteq> insert None (set r) \<Longrightarrow> length r' < 2 ^ 64 \<Longrightarrow> wf_row r'"
  unfolding wf_row_def by (metis insertE subsetD wf_cell_simps(1))

lemma wf_table_change:
  assumes "wf_table t" "length cs < 2 ^ 64" "\<forall>c \<in> set cs. wf_column c" "length ks < 2 ^ 64" "\<forall>f \<in> set ks. wf_fk f"
    "length rs < 2 ^ 64" "\<forall>r \<in> set rs. rust_str r"
  shows "wf_table (t\<lparr>columns := cs, fks := ks, ref_cols := rs\<rparr>)"
  using assms by (simp add: wf_table_def)

lemma alteration_ready:
  assumes "\<And>i G t. alteration db opn = Inr (i, G, t) \<Longrightarrow> wf_table t \<and> (\<forall>a \<in> set (rel_rows (db ! i)). wf_row (row_change G (snd a)))"
    and "op_ready db opn = sound_alteration db opn"
  shows "op_ready db opn"
  unfolding assms(2) sound_alteration_def using assms(1) by (auto split: sum.split prod.split)

lemma alteration_cases:
  assumes "alteration db opn = Inr (i, G, t)" "opn \<in> {AddColumn name col, DropColumn name cn, MoveColumn name cn k, SetUnique name cn u,
      AddFk name fc tot toc, DropFk name fkn, SetReferenceColumns name cs, SetDisplayWidth name cn w}"
  shows "find_table db name = Inr i"
  using assms by (cases "find_table db name") (auto simp: bindR_def Let_def split: if_splits sum.splits option.splits)

lemma ready_add_column:
  assumes h: "holds s db" and z: "sizes_ok db" and c: "rust_str (col_name col)" "display_width col = None"
  shows "op_ready db (AddColumn name col)"
proof (rule alteration_ready)
  fix i G t assume a: "alteration db (AddColumn name col) = Inr (i, G, t)"
  have n: "find_table db name = Inr i" by (rule alteration_cases[OF a]) simp
  have t: "G = Some (\<lambda>cells. cells @ [None])" "t = (rel_schema (db ! i))\<lparr>columns := cols (db ! i) @ [col]\<rparr>"
    using a by (auto simp: n bindR_def Let_def split: if_splits sum.splits)
  have "wf_row (snd r @ [None])" if "r \<in> set (rel_rows (db ! i))" for r
    using holds_table(3,4)[OF h n that] sizes_okD(1)[OF z n] by (auto intro: wf_row_subset)
  moreover have "wf_table t" using holds_table(1)[OF h n] sizes_okD(1)[OF z n] c by (auto simp: t wf_table_def wf_column_def)
  ultimately show "wf_table t \<and> (\<forall>a \<in> set (rel_rows (db ! i)). wf_row (row_change G (snd a)))" by (simp add: t(1) row_change_def)
qed simp

lemma ready_drop_column:
  assumes h: "holds s db"
  shows "op_ready db (DropColumn name col)"
proof (rule alteration_ready)
  fix i G t assume a: "alteration db (DropColumn name col) = Inr (i, G, t)"
  have n: "find_table db name = Inr i" by (rule alteration_cases[OF a]) simp
  obtain k where t: "G = Some (drop_cell k)" "t = (rel_schema (db ! i))\<lparr>columns := remove_at k (cols (db ! i)),
      ref_cols := filter (\<lambda>n. n \<noteq> col) (ref_cols (rel_schema (db ! i)))\<rparr>"
  proof -
    obtain k where "column_index (rel_schema (db ! i)) col = Some k"
      "Inr (i, Some (drop_cell k), (rel_schema (db ! i))\<lparr>columns := remove_at k (cols (db ! i)),
        ref_cols := filter (\<lambda>n. n \<noteq> col) (ref_cols (rel_schema (db ! i)))\<rparr>) = (Inr (i, G, t) :: (nat \<times> (row \<Rightarrow> row) option \<times> table) result)"
      using a unfolding alteration.simps n bindR_simps Let_def bindR_eq_Inr ok_or_eq
      by (elim exE conjE, split if_split_asm) (simp, unfold bindR_eq_Inr, blast)
    then show thesis by (intro that[of k]) auto
  qed
  have short: "length (remove_at k xs) \<le> length xs" for xs :: "'x list" by (simp add: remove_at_def)
  have "wf_row (drop_cell k (snd r))" if "r \<in> set (rel_rows (db ! i))" for r
  proof (rule wf_row_subset)
    show wr: "wf_row (snd r)" by (rule holds_table(3)[OF h n that])
    show "set (drop_cell k (snd r)) \<subseteq> insert None (set (snd r))" using set_remove_at[of k "snd r"] by (auto simp: drop_cell_def)
    have "length (drop_cell k (snd r)) \<le> length (snd r)" using short[of "snd r"] by (simp add: drop_cell_def)
    also have "\<dots> < 2 ^ 64" using wr by (simp add: wf_row_def)
    finally show "length (drop_cell k (snd r)) < 2 ^ 64" .
  qed
  moreover have "length (filter (\<lambda>n. n \<noteq> col) (ref_cols (rel_schema (db ! i)))) < 2 ^ 64"
    using holds_table(1)[OF h n] by (intro le_less_trans[OF length_filter_le]) (simp add: wf_table_def)
  then have "wf_table t"
    using holds_table(1)[OF h n] set_remove_at[of k "cols (db ! i)"] short[of "cols (db ! i)"] unfolding t(2) wf_table_def by auto
  ultimately show "wf_table t \<and> (\<forall>a \<in> set (rel_rows (db ! i)). wf_row (row_change G (snd a)))" by (simp add: t(1) row_change_def)
qed simp

lemma ready_move_column:
  assumes h: "holds s db"
  shows "op_ready db (MoveColumn name col new)"
proof (rule alteration_ready)
  fix i G t assume a: "alteration db (MoveColumn name col new) = Inr (i, G, t)"
  have n: "find_table db name = Inr i" by (rule alteration_cases[OF a]) simp
  let ?n = "length (cols (db ! i))"
  obtain k where k: "column_index (rel_schema (db ! i)) col = Some k" "new < ?n"
    "G = None \<and> t = rel_schema (db ! i) \<or> G = Some (permute_row (move_perm ?n k new) ?n) \<and>
       t = (rel_schema (db ! i))\<lparr>columns := insert_at new (cols (db ! i) ! k) (remove_at k (cols (db ! i)))\<rparr>"
  proof -
    obtain k where k: "column_index (rel_schema (db ! i)) col = Some k" "\<not> ?n \<le> new"
      "(if new = k then Inr (i, None, rel_schema (db ! i)) else Inr (i, Some (permute_row (move_perm ?n k new) ?n),
          (rel_schema (db ! i))\<lparr>columns := insert_at new (cols (db ! i) ! k) (remove_at k (cols (db ! i)))\<rparr>))
        = (Inr (i, G, t) :: (nat \<times> (row \<Rightarrow> row) option \<times> table) result)"
      using a unfolding alteration.simps n bindR_simps Let_def bindR_eq_Inr ok_or_eq
      by (elim exE conjE, split if_split_asm) (simp, blast)
    then show thesis using that[of k] by (cases "new = k") simp_all
  qed
  have b: "k < ?n" using column_index_Some[OF k(1)] by simp
  have wf: "wf_row (permute_row (move_perm ?n k new) ?n (snd r))" if r: "r \<in> set (rel_rows (db ! i))" for r
  proof -
    have l: "length (snd r) = ?n" by (rule holds_table(4)[OF h n r])
    have sub: "set (insert_at new (snd r ! k) (remove_at k (snd r))) \<subseteq> insert None (set (snd r))"
      using set_insert_at[of new "snd r ! k" "remove_at k (snd r)"] set_remove_at[of k "snd r"] b l by auto
    have len: "length (insert_at new (snd r ! k) (remove_at k (snd r))) = ?n"
      using b k(2) l by (simp add: insert_at_def remove_at_def)
    have wr: "wf_row (snd r)" by (rule holds_table(3)[OF h n r])
    then have "?n < 2 ^ 64" using l by (simp add: wf_row_def)
    then show ?thesis unfolding permute_row_moves[OF l b k(2)] by (intro wf_row_subset[OF wr sub]) (simp only: len)
  qed
  have "wf_table ((rel_schema (db ! i))\<lparr>columns := insert_at new (cols (db ! i) ! k) (remove_at k (cols (db ! i)))\<rparr>)"
  proof -
    have "set (insert_at new (cols (db ! i) ! k) (remove_at k (cols (db ! i)))) \<subseteq> set (cols (db ! i))"
      using set_insert_at[of new "cols (db ! i) ! k" "remove_at k (cols (db ! i))"] set_remove_at[of k "cols (db ! i)"] b by auto
    moreover have "length (insert_at new (cols (db ! i) ! k) (remove_at k (cols (db ! i)))) = ?n"
      using b k(2) by (simp add: insert_at_def remove_at_def)
    ultimately show ?thesis using holds_table(1)[OF h n] by (auto simp: wf_table_def)
  qed
  then show "wf_table t \<and> (\<forall>a \<in> set (rel_rows (db ! i)). wf_row (row_change G (snd a)))"
    using k(3) wf holds_table(1,3)[OF h n] by (auto simp: row_change_def)
qed simp

lemma wf_update_column:
  assumes "wf_table t" "\<And>c. wf_column c \<Longrightarrow> wf_column (f c)" "k < length (columns t)"
  shows "wf_table (t\<lparr>columns := (columns t)[k := f (columns t ! k)]\<rparr>)"
  using assms by (auto simp: wf_table_def dest!: set_update_subset_insert[THEN subsetD])

lemma ready_schema_only:
  assumes h: "holds s db" and n: "find_table db name = Inr i" and w: "wf_table t"
  shows "wf_table t \<and> (\<forall>a \<in> set (rel_rows (db ! i)). wf_row (row_change None (snd a)))"
  using holds_table(3)[OF h n] w by (simp add: row_change_def)

lemma ready_set_unique:
  assumes h: "holds s db"
  shows "op_ready db (SetUnique name col u)"
proof (rule alteration_ready)
  fix i G t assume a: "alteration db (SetUnique name col u) = Inr (i, G, t)"
  have n: "find_table db name = Inr i" by (rule alteration_cases[OF a]) simp
  obtain k where k: "column_index (rel_schema (db ! i)) col = Some k" "G = None"
    "t = (rel_schema (db ! i))\<lparr>columns := (cols (db ! i))[k := (cols (db ! i) ! k)\<lparr>unique := u\<rparr>]\<rparr>"
    using a by (cases "column_index (rel_schema (db ! i)) col") (auto simp: n bindR_def Let_def split: if_splits sum.splits)
  have "wf_table t" unfolding k(3)
    by (rule wf_update_column[OF holds_table(1)[OF h n]]) (use column_index_Some[OF k(1)] in \<open>auto simp: wf_column_def\<close>)
  then show "wf_table t \<and> (\<forall>a \<in> set (rel_rows (db ! i)). wf_row (row_change G (snd a)))"
    unfolding k(2) by (rule ready_schema_only[OF h n])
qed simp

lemma ready_set_width:
  assumes h: "holds s db" and w: "\<And>n. w = Some n \<Longrightarrow> n < 65536"
  shows "op_ready db (SetDisplayWidth name col w)"
proof (rule alteration_ready)
  fix i G t assume a: "alteration db (SetDisplayWidth name col w) = Inr (i, G, t)"
  have n: "find_table db name = Inr i" by (rule alteration_cases[OF a]) simp
  obtain k where k: "column_index (rel_schema (db ! i)) col = Some k" "G = None"
    "t = (rel_schema (db ! i))\<lparr>columns := (cols (db ! i))[k := (cols (db ! i) ! k)\<lparr>display_width := w\<rparr>]\<rparr>"
    using a by (cases "column_index (rel_schema (db ! i)) col") (auto simp: n bindR_def Let_def)
  have "wf_table t" unfolding k(3)
    by (rule wf_update_column[OF holds_table(1)[OF h n]])
      (use column_index_Some[OF k(1)] w in \<open>auto simp: wf_column_def split: option.splits\<close>)
  then show "wf_table t \<and> (\<forall>a \<in> set (rel_rows (db ! i)). wf_row (row_change G (snd a)))"
    unfolding k(2) by (rule ready_schema_only[OF h n])
qed simp

lemma ready_drop_fk:
  assumes h: "holds s db"
  shows "op_ready db (DropFk name fkn)"
proof (rule alteration_ready)
  fix i G t assume a: "alteration db (DropFk name fkn) = Inr (i, G, t)"
  have n: "find_table db name = Inr i" by (rule alteration_cases[OF a]) simp
  have k: "G = None" "t = (rel_schema (db ! i))\<lparr>fks := filter (\<lambda>f. fk_name f \<noteq> fkn) (fks (rel_schema (db ! i)))\<rparr>"
    using a by (auto simp: n bindR_def Let_def split: if_splits)
  have "length (filter (\<lambda>f. fk_name f \<noteq> fkn) (fks (rel_schema (db ! i)))) < 2 ^ 64"
    using holds_table(1)[OF h n] by (intro le_less_trans[OF length_filter_le]) (simp add: wf_table_def)
  then have "wf_table t" unfolding k(2) using holds_table(1)[OF h n] by (simp add: wf_table_def)
  then show "wf_table t \<and> (\<forall>a \<in> set (rel_rows (db ! i)). wf_row (row_change G (snd a)))"
    unfolding k(1) by (rule ready_schema_only[OF h n])
qed simp

lemma ready_set_refs:
  assumes h: "holds s db" and z: "sizes_ok db"
  shows "op_ready db (SetReferenceColumns name cs)"
proof (rule alteration_ready)
  fix i G t assume a: "alteration db (SetReferenceColumns name cs) = Inr (i, G, t)"
  have n: "find_table db name = Inr i" by (rule alteration_cases[OF a]) simp
  have k: "G = None" "t = (rel_schema (db ! i))\<lparr>ref_cols := cs\<rparr>" "check_ref_cols (rel_schema (db ! i)) [] cs = Inr ()"
    using a by (auto simp: n bindR_def Let_def split: sum.splits)
  have "distinct cs" and sub: "\<And>c. c \<in> set cs \<Longrightarrow> column_index (rel_schema (db ! i)) c \<noteq> None"
    using check_ref_cols_ok[of "[]" "rel_schema (db ! i)" cs] k(3) by auto
  have names: "c \<in> col_name ` set (cols (db ! i))" if "c \<in> set cs" for c
    using sub[OF that] column_index_Some[of "rel_schema (db ! i)" c] by (metis not_None_eq image_eqI nth_mem)
  then have "card (set cs) \<le> card (col_name ` set (cols (db ! i)))" by (intro card_mono) auto
  also have "\<dots> \<le> length (cols (db ! i))" by (metis card_length length_map set_map)
  finally have "length cs \<le> length (cols (db ! i))" using distinct_card[OF \<open>distinct cs\<close>] by simp
  moreover have "rust_str c" if "c \<in> set cs" for c
    using names[OF that] wf_tableD(2)[OF holds_table(1)[OF h n]] by auto
  ultimately have "wf_table t" unfolding k(2) using holds_table(1)[OF h n] by (auto simp: wf_table_def)
  then show "wf_table t \<and> (\<forall>a \<in> set (rel_rows (db ! i)). wf_row (row_change G (snd a)))"
    unfolding k(1) by (rule ready_schema_only[OF h n])
qed simp

lemma ready_add_fk:
  assumes h: "holds s db" and z: "sizes_ok db"
  shows "op_ready db (AddFk name fc tot toc)"
proof (rule alteration_ready)
  fix i G t assume a: "alteration db (AddFk name fc tot toc) = Inr (i, G, t)"
  have n: "find_table db name = Inr i" by (rule alteration_cases[OF a]) simp
  obtain c j tc nm where k: "column_named (rel_schema (db ! i)) fc = Some c" "find_table db tot = Inr j"
    "column_named (rel_schema (db ! j)) toc = Some tc" "fresh_fk (map fk_name (fks (rel_schema (db ! i)))) fc (fc @ ''_fk'') 2 = Some nm"
    "G = None" "t = (rel_schema (db ! i))\<lparr>fks := fks (rel_schema (db ! i)) @ [\<lparr>fk_name = nm, from_col = fc, to_table = tot, to_col = toc\<rparr>]\<rparr>"
    using a by (cases "column_named (rel_schema (db ! i)) fc"; cases "find_table db tot")
      (auto simp: n bindR_def ok_or_def Let_def split: if_splits sum.splits option.splits)
  have c: "c \<in> set (cols (db ! i))" "col_name c = fc" "tc \<in> set (cols (db ! j))" "col_name tc = toc"
    using k(1,3) by (auto simp: column_named_def find_Some_iff in_set_conv_nth)
  have "rust_str fc" "rust_str toc" using wf_tableD(2)[OF holds_table(1)[OF h n] c(1)] wf_tableD(2)[OF holds_table(1)[OF h k(2)] c(3)] c by simp_all
  moreover have "rust_str tot" using holds_table(2)[OF h k(2)] find_table_bound[OF k(2)] by simp
  moreover have "rust_str nm"
    using fresh_fk_str[OF k(4)] \<open>rust_str fc\<close> sizes_okD(2)[OF z n] sizes_okD(3)[OF z n c(1)] c(2) by simp
  ultimately have "wf_table t" unfolding k(6) using holds_table(1)[OF h n] sizes_okD(2)[OF z n] by (auto simp: wf_table_def wf_fk_def)
  then show "wf_table t \<and> (\<forall>a \<in> set (rel_rows (db ! i)). wf_row (row_change G (snd a)))"
    unfolding k(5) by (rule ready_schema_only[OF h n])
qed simp

lemma ready_row:
  assumes "live_row db name rid"
  shows "op_ready db (operation.Delete name rid)" "wf_row cells \<Longrightarrow> op_ready db (Update name rid cells)"
  using assms by (auto simp: live_row_def)

end
