(* ===== verification/View_Answers.thy ===== *)
theory View_Answers
  imports App Op_Ready "HOL-Library.Multiset"
begin

text \<open>
  What the user interface reads from a volume that holds a database: the rows of the browser, the next key of a UNIQUE column, the row
  editor's content and the links of the row view, each as a function of the database. The sorting of the browser is a stable sort, and
  on a consistent database every link leads to the rows it names.
\<close>

section \<open>Stable sorting\<close>

text \<open>A preorder as the comparisons of \<^verbatim>\<open>sort_by\<close> state it.\<close>

locale preorder_contract =
  fixes good :: "'a \<Rightarrow> bool" and c :: "'a \<Rightarrow> 'a \<Rightarrow> ordering"
  assumes c_flip: "good x \<Longrightarrow> good y \<Longrightarrow> c x y = Greater \<Longrightarrow> c y x = Less"
    and c_trans: "good x \<Longrightarrow> good y \<Longrightarrow> good z \<Longrightarrow> c x y \<noteq> Greater \<Longrightarrow> c y z \<noteq> Greater \<Longrightarrow> c x z \<noteq> Greater"
begin

lemma insert_sorted:
  "list_all good (x # xs) \<Longrightarrow> sorted_wrt (\<lambda>a b. c a b \<noteq> Greater) xs \<Longrightarrow> sorted_wrt (\<lambda>a b. c a b \<noteq> Greater) (insert_by c x xs)"
proof (induction xs)
  case (Cons y ys)
  have set: "set (insert_by c x ys) = insert x (set ys)" for ys by (induction ys) auto
  show ?case
  proof (cases "c x y = Greater")
    case True
    then have "c y x = Less" using c_flip Cons.prems(1) by simp
    then show ?thesis using Cons True by (simp add: set)
  next
    case False
    then have "c x z \<noteq> Greater" if "z \<in> set ys" for z
      using c_trans[of x y z] Cons.prems that by (auto simp: list_all_iff)
    then show ?thesis using Cons.prems False by simp
  qed
qed simp

lemma sort_sorted: "list_all good xs \<Longrightarrow> sorted_wrt (\<lambda>a b. c a b \<noteq> Greater) (sort_by c xs)"
proof (induction xs)
  case (Cons x xs)
  have "set (sort_by c xs) = set xs" for xs
  proof (induction xs)
    case (Cons a as)
    have "set (insert_by c a ys) = insert a (set ys)" for ys by (induction ys) auto
    then show ?case using Cons by (simp add: sort_by_def)
  qed (simp add: sort_by_def)
  then show ?case using Cons insert_sorted[of x "sort_by c xs"] by (simp add: sort_by_def list_all_iff)
qed (simp add: sort_by_def)

end

lemma mset_sort_by: "mset (sort_by c xs) = mset xs"
proof -
  have "mset (insert_by c x ys) = add_mset x (mset ys)" for x ys by (induction ys) auto
  then show ?thesis by (induction xs) (simp_all add: sort_by_def)
qed

lemma set_sort_by [simp]: "set (sort_by c xs) = set xs"
  by (metis mset_sort_by set_mset_mset)

text \<open>Rows that the order does not tell apart keep their places.\<close>

lemma insert_by_stable: "(\<And>y. y \<in> set ys \<Longrightarrow> P y \<Longrightarrow> P x \<Longrightarrow> c x y \<noteq> Greater) \<Longrightarrow> filter P (insert_by c x ys) = filter P (x # ys)"
  by (induction ys) auto

lemma sort_by_stable:
  assumes "\<And>x y. x \<in> set xs \<Longrightarrow> y \<in> set xs \<Longrightarrow> P x \<Longrightarrow> P y \<Longrightarrow> c x y \<noteq> Greater"
  shows "filter P (sort_by c xs) = filter P xs"
  using assms
proof (induction xs)
  case (Cons x xs)
  have "filter P (sort_by c (x # xs)) = filter P (x # sort_by c xs)"
    unfolding sort_by_def foldr.simps o_apply
    by (rule insert_by_stable) (use Cons.prems set_sort_by[of c xs] in \<open>auto simp: sort_by_def\<close>)
  then show ?case using Cons by simp
qed (simp add: sort_by_def)

text \<open>The order of the cells in a column: values that are well formed and of one type, and NULL after them.\<close>

definition cell_good :: "nat \<Rightarrow> row_id \<times> row \<Rightarrow> bool" where
  "cell_good ci a \<longleftrightarrow> (\<forall>v. cell_at (snd a) ci = Some v \<longrightarrow> wf_value v)"

lemma value_order:
  assumes "wf_value x" "wf_value y"
  shows "cmp_value x y = Greater \<longleftrightarrow> cmp_value y x = Less" "cmp_value x y = Equal \<longleftrightarrow> x = y"
    "wf_value z \<Longrightarrow> cmp_value x y \<noteq> Greater \<Longrightarrow> cmp_value y z \<noteq> Greater \<Longrightarrow> cmp_value x z \<noteq> Greater"
proof -
  show gr: "cmp_value x y = Greater \<longleftrightarrow> cmp_value y x = Less" by (rule ord_value.Greater_iff[OF assms])
  show eq: "cmp_value x y = Equal \<longleftrightarrow> x = y" by (rule ord_value.Equal_iff[OF assms])
  assume z: "wf_value z" and le: "cmp_value x y \<noteq> Greater" "cmp_value y z \<noteq> Greater"
  show "cmp_value x z \<noteq> Greater"
  proof (cases "x = y \<or> y = z")
    case False
    then have "cmp_value x y = Less" "cmp_value y z = Less"
      using le eq ord_value.Equal_iff[OF assms(2) z] by (cases "cmp_value x y"; cases "cmp_value y z"; simp)+
    then show ?thesis using ord_value.Less_trans[OF assms z] by simp
  qed (use le in auto)
qed

interpretation cells: preorder_contract "cell_good ci" "cell_order ci asc"
proof
  fix x y z :: "row_id \<times> row" assume good: "cell_good ci x" "cell_good ci y"
  show "cell_order ci asc x y = Greater \<Longrightarrow> cell_order ci asc y x = Less"
    using good value_order(1) by (auto simp: cell_order_def cell_good_def split: option.splits if_splits)
  assume z: "cell_good ci z" and le: "cell_order ci asc x y \<noteq> Greater" "cell_order ci asc y z \<noteq> Greater"
  show "cell_order ci asc x z \<noteq> Greater"
  proof (cases "cell_at (snd x) ci"; cases "cell_at (snd y) ci"; cases "cell_at (snd z) ci")
    fix u v w assume c: "cell_at (snd x) ci = Some u" "cell_at (snd y) ci = Some v" "cell_at (snd z) ci = Some w"
    then have "wf_value u" "wf_value v" "wf_value w" using good z by (simp_all add: cell_good_def)
    then show ?thesis using le value_order(3)[of u v w] value_order(3)[of w v u] by (simp add: cell_order_def c split: if_splits)
  qed (use le in \<open>simp_all add: cell_order_def\<close>)
qed

section \<open>The rows of the browser\<close>

definition browse :: "database \<Rightarrow> string \<Rightarrow> row_filter \<Rightarrow> row_sort \<Rightarrow> id_rows" where
  "browse db name f so = (let rows = or_default [] (rows_of db name) in
     sorted_rows so (case f of None \<Rightarrow> rows | Some cv \<Rightarrow> (case table_of db name of Inl _ \<Rightarrow> rows | Inr t \<Rightarrow> filtered_rows t cv rows)))"

lemma answers_try [answering]: "answers m db r \<Longrightarrow> answers (tryM m) db (Inr r)"
  by (fastforce simp: answers_def tryM_def)

lemma answers_browser [answering]: "answers (browser_rows mem_ops name f so) db (Inr (browse db name f so))"
proof -
  have inner: "answers (case f of None \<Rightarrow> returnM rows
      | Some cv \<Rightarrow> bindM (tryM (get_table mem_ops name)) (\<lambda>t. returnM (case t of Inl _ \<Rightarrow> rows | Inr t \<Rightarrow> filtered_rows t cv rows))) db
    (Inr (case f of None \<Rightarrow> rows | Some cv \<Rightarrow> (case table_of db name of Inl _ \<Rightarrow> rows | Inr t \<Rightarrow> filtered_rows t cv rows)))" for rows
    by (cases f) (auto intro!: answers_bind[OF answers_try[OF answers_tables(2)]] answering)
  show ?thesis unfolding browser_rows_def browse_def Let_def
    by (rule answers_bind[OF answers_try[OF answers_scan]], rule answers_bind[OF inner], rule answers_return)
qed

lemma set_browse: "set (browse db name f so) \<subseteq> set (or_default [] (rows_of db name))"
  by (auto simp: browse_def sorted_rows_def filtered_rows_def Let_def split: option.splits sum.splits)

lemma row_at_rows:
  assumes "consistent db" "find_table db name = Inr i"
  shows "row_at db i rid = Some r \<longleftrightarrow> (rid, r) \<in> set (rel_rows (db ! i))"
proof -
  have "distinct (map fst (rel_rows (db ! i)))" by (rule consistentD(1)[OF assms(1)]) (use find_table_bound[OF assms(2)] in simp)
  then show ?thesis by (simp add: row_at_def)
qed

lemma browse_row:
  assumes "consistent db" "(rid, r) \<in> set (browse db name f so)"
  obtains i where "find_table db name = Inr i" "row_at db i rid = Some r"
proof -
  have "(rid, r) \<in> set (or_default [] (rows_of db name))" using assms(2) set_browse by blast
  then obtain i where "find_table db name = Inr i" "(rid, r) \<in> set (rel_rows (db ! i))"
    by (auto simp: rows_of_def bindR_def split: sum.splits)
  then show thesis using that row_at_rows[OF assms(1)] by metis
qed

lemma browse_live: "consistent db \<Longrightarrow> ir \<in> set (browse db name f so) \<Longrightarrow> live_row db name (fst ir)"
  by (cases ir) (auto elim!: browse_row simp: live_row_def find_table_bound)

section \<open>The row editor\<close>

definition edited :: "database \<Rightarrow> string \<Rightarrow> row_id option \<Rightarrow> editor result" where
  "edited db name rid = bindR (table_of db name) (\<lambda>t. Inr (new_editor name rid t
     (Option.bind rid (\<lambda>q. Option.bind (case find_table db name of Inr i \<Rightarrow> Some i | Inl _ \<Rightarrow> None) (\<lambda>i. row_at db i q)))))"

lemma answers_editor:
  assumes "\<And>q. rid = Some q \<Longrightarrow> live_row db name q"
  shows "answers (open_editor mem_ops name rid) db (edited db name rid)"
  unfolding open_editor_def edited_def
proof (rule answers_bindR[OF answers_tables(2)])
  fix t assume t: "table_of db name = Inr t"
  let ?row = "Option.bind rid (\<lambda>q. Option.bind (case find_table db name of Inr i \<Rightarrow> Some i | Inl _ \<Rightarrow> None) (\<lambda>i. row_at db i q))"
  have "answers (case rid of None \<Rightarrow> returnM None
      | Some i \<Rightarrow> bindM (tryM (get_row mem_ops name i)) (\<lambda>r. returnM (case r of Inl _ \<Rightarrow> None | Inr x \<Rightarrow> Some x))) db (Inr ?row)"
  proof (cases rid)
    case (Some q)
    with assms obtain i r where "find_table db name = Inr i" "row_at db i q = Some r" by (auto simp: live_row_def)
    then show ?thesis by (auto simp: Some intro!: answers_bind[OF answers_try[OF answers_row(1)]] answering)
  qed (simp add: answering)
  then show "answers (bindM (case rid of None \<Rightarrow> returnM None
      | Some i \<Rightarrow> bindM (tryM (get_row mem_ops name i)) (\<lambda>r. returnM (case r of Inl _ \<Rightarrow> None | Inr x \<Rightarrow> Some x)))
      (\<lambda>existing. returnM (new_editor name rid t existing))) db (Inr (new_editor name rid t ?row))"
    by (rule answers_bind) (rule answers_return)
qed

section \<open>The next key\<close>

definition next_unique :: "database \<Rightarrow> string \<Rightarrow> nat \<Rightarrow> type \<Rightarrow> string option" where
  "next_unique db name ci kty = (if kty \<noteq> TInteger \<and> kty \<noteq> TUnsignedInteger then None
     else case rows_of db name of Inl _ \<Rightarrow> None | Inr rows \<Rightarrow> Some (next_key (List.map_filter (\<lambda>ir. cell_at (snd ir) ci) rows)))"

lemma answers_next [answering]: "answers (next_unique_value mem_ops name ci kty) db (Inr (next_unique db name ci kty))"
  unfolding next_unique_value_def next_unique_def
  by (auto intro!: answers_bind[OF answers_try[OF answers_scan]] answering)

section \<open>The links of a row\<close>

definition out_link :: "database \<Rightarrow> nat \<Rightarrow> row \<Rightarrow> foreign_key \<Rightarrow> nav_target list" where
  "out_link db i r fk = (case Option.bind (column_index (rel_schema (db ! i)) (from_col fk)) (cell_at r) of
      None \<Rightarrow> []
    | Some v \<Rightarrow> let plain = ARROW_RIGHT @ '' follow '' @ fk_name fk @ '' to '' @ to_table fk in
        [(case follow_answer db i r (fk_name fk) of
            Inr (target, (_, trow) # _) \<Rightarrow> (case table_of db target of
                Inr tt \<Rightarrow> ARROW_RIGHT @ '' '' @ target @ '': '' @ reference_label tt trow
              | Inl _ \<Rightarrow> plain)
          | _ \<Rightarrow> plain, to_table fk, to_col fk, v)])"

definition in_link :: "database \<Rightarrow> nat \<Rightarrow> row \<Rightarrow> string \<times> string \<times> row_id \<times> row \<Rightarrow> nav_target list" where
  "in_link db i r ref = (case ref of (tbl, fkname, _, orow) \<Rightarrow> (case table_of db tbl of
      Inl _ \<Rightarrow> []
    | Inr ot \<Rightarrow> (case find (\<lambda>f. fk_name f = fkname) (fks ot) of
        None \<Rightarrow> []
      | Some fk \<Rightarrow> (case Option.bind (column_index (rel_schema (db ! i)) (to_col fk)) (cell_at r) of
          None \<Rightarrow> []
        | Some v \<Rightarrow> [(ARROW_LEFT @ '' '' @ tbl @ '': '' @ reference_label ot orow, tbl, from_col fk, v)]))))"

definition links :: "database \<Rightarrow> nat \<Rightarrow> row \<Rightarrow> nav_target list" where
  "links db i r = concat (map (out_link db i r) (fks (rel_schema (db ! i)))) @ concat (map (in_link db i r) (referrers db i r))"

lemma answers_outgoing:
  assumes n: "find_table db name = Inr i" and r: "row_at db i rid = Some r"
  shows "answers (outgoing mem_ops name rid (rel_schema (db ! i)) r fk) db (Inr (out_link db i r fk))"
proof (cases "Option.bind (column_index (rel_schema (db ! i)) (from_col fk)) (cell_at r)")
  case (Some v)
  let ?plain = "ARROW_RIGHT @ '' follow '' @ fk_name fk @ '' to '' @ to_table fk"
  let ?label = "case follow_answer db i r (fk_name fk) of
      Inr (target, (_, trow) # _) \<Rightarrow> (case table_of db target of Inr tt \<Rightarrow> ARROW_RIGHT @ '' '' @ target @ '': '' @ reference_label tt trow | Inl _ \<Rightarrow> ?plain)
    | _ \<Rightarrow> ?plain"
  have label: "answers (case follow_answer db i r (fk_name fk) of
      Inr (target, (_, trow) # _) \<Rightarrow> bindM (tryM (get_table mem_ops target)) (\<lambda>tt. returnM (case tt of
        Inr tt \<Rightarrow> ARROW_RIGHT @ '' '' @ target @ '': '' @ reference_label tt trow | Inl _ \<Rightarrow> ?plain))
    | _ \<Rightarrow> returnM ?plain) db (Inr ?label)"
  proof -
    have get: "answers (bindM (tryM (get_table mem_ops target)) (\<lambda>tt. returnM (f tt))) db (Inr (f (table_of db target)))" for target and f :: "table result \<Rightarrow> string"
      by (rule answers_bind[OF answers_try[OF answers_tables(2)]]) (rule answers_return)
    show ?thesis
    proof (cases "follow_answer db i r (fk_name fk)")
      case (Inr p)
      obtain target rows where p: "p = (target, rows)" by (cases p)
      show ?thesis
      proof (cases rows)
        case (Cons a rows')
        obtain q trow where a: "a = (q, trow)" by (cases a)
        show ?thesis unfolding Inr p Cons a sum.case prod.case list.case by (rule get)
      qed (simp only: Inr p sum.case prod.case list.case answers_return)
    qed (simp only: sum.case answers_return)
  qed
  show ?thesis unfolding outgoing_def out_link_def Some option.case Let_def
    by (rule answers_bind[OF answers_try[OF answers_row(2)[OF n r]]], rule answers_bind[OF label], rule answers_return)
qed (simp add: outgoing_def out_link_def answers_return)

lemma answers_incoming:
  assumes n: "find_table db name = Inr i" and r: "row_at db i rid = Some r"
  shows "answers (incoming mem_ops name rid ref) db (Inr (in_link db i r ref))"
proof -
  obtain tbl fkname q orow where ref: "ref = (tbl, fkname, q, orow)" by (cases ref)
  have t: "table_of db name = Inr (rel_schema (db ! i))" by (simp add: table_of_def n bindR_def)
  note tab = answers_try[OF answers_tables(2)] and row = answers_try[OF answers_row(1)[OF n r]]
  show ?thesis
  proof (cases "table_of db tbl")
    case (Inl e)
    show ?thesis unfolding incoming_def ref prod.case
      by (rule answers_bind[OF tab], rule answers_bind[OF tab]) (simp add: Inl t in_link_def answers_return)
  next
    case (Inr ot)
    show ?thesis
    proof (cases "find (\<lambda>f. fk_name f = fkname) (fks ot)")
      case None
      show ?thesis unfolding incoming_def ref prod.case
        by (rule answers_bind[OF tab], rule answers_bind[OF tab]) (simp add: Inr None t in_link_def answers_return)
    next
      case (Some fk)
      have "answers (bindM (tryM (get_row mem_ops name rid)) (\<lambda>srow. case srow of Inl _ \<Rightarrow> returnM []
          | Inr srow \<Rightarrow> bindM (tryM (get_table mem_ops name)) (\<lambda>t. returnM (case t of Inl _ \<Rightarrow> []
            | Inr t \<Rightarrow> (case Option.bind (column_index t (to_col fk)) (cell_at srow) of None \<Rightarrow> []
              | Some v \<Rightarrow> [(ARROW_LEFT @ '' '' @ tbl @ '': '' @ reference_label ot orow, tbl, from_col fk, v)])))))
          db (Inr (in_link db i r ref))"
        by (rule answers_bind[OF row], unfold sum.case, rule answers_bind[OF tab])
          (simp only: t sum.case ref in_link_def prod.case Inr Some option.case answers_return)
      then show ?thesis unfolding incoming_def ref prod.case
        by (intro answers_bind[OF tab]) (simp only: Inr Some t sum.case prod.case option.case)
    qed
  qed
qed

lemma answers_nav:
  assumes n: "find_table db name = Inr i" and r: "row_at db i rid = Some r"
  shows "answers (nav_targets mem_ops name rid) db (Inr (links db i r))"
proof -
  have t: "table_of db name = Inr (rel_schema (db ! i))" by (simp add: table_of_def n bindR_def)
  note row = answers_try[OF answers_row(1)[OF n r]] and refs = answers_try[OF answers_row(3)[OF n r]]
  have out: "answers (bindM (tryM (get_row mem_ops name rid)) (\<lambda>x. case x of Inl _ \<Rightarrow> returnM []
      | Inr y \<Rightarrow> bindM (mapM (fks (rel_schema (db ! i))) (outgoing mem_ops name rid (rel_schema (db ! i)) y)) (\<lambda>outs. returnM (concat outs)))) db
      (Inr (concat (map (out_link db i r) (fks (rel_schema (db ! i))))))"
    by (rule answers_bind[OF row], unfold sum.case, rule answers_bind[OF answers_mapM[OF answers_outgoing[OF n r]]], rule answers_return)
  show ?thesis unfolding nav_targets_def links_def
    by (rule answers_bind[OF answers_try[OF answers_tables(2)]], unfold t sum.case, rule answers_bind[OF out], rule answers_bind[OF refs],
        unfold sum.case, rule answers_bind[OF answers_mapM[OF answers_incoming[OF n r]]], rule answers_return)
qed

end
