(* ===== verification/Ui_Rules.thy ===== *)
theory Ui_Rules
  imports View_Answers
begin

text \<open>
  Rules for running the handlers of the user interface over a volume that holds a database. \<open>runs m a Q\<close> says that \<open>m\<close>, started in \<open>a\<close>,
  returns (it does not panic and raises no error) with a result and a state that satisfy \<open>Q\<close>. \<open>sees\<close> is what every handler keeps: the
  volume holds a database, and the row cache is either outdated or right.
\<close>

section \<open>Running an action\<close>

definition runs :: "('s, 'a) act \<Rightarrow> 's \<Rightarrow> ('a \<Rightarrow> 's \<Rightarrow> bool) \<Rightarrow> bool" where
  "runs m a Q \<longleftrightarrow> (\<exists>x a'. m a = Some (Inr x, a') \<and> Q x a')"

lemma runs_bind [simp]: "runs (bindM m k) a Q \<longleftrightarrow> runs m a (\<lambda>x a'. runs (k x) a' Q)"
  by (auto simp: runs_def bindM_eq_Inr)

lemma runs_basic [simp]:
  "runs (returnM x) a Q \<longleftrightarrow> Q x a" "runs (modifyM g) a R \<longleftrightarrow> R () (g a)" "runs (getM f) a S \<longleftrightarrow> S (f a) a"
  "runs (unwrapM ov) a T \<longleftrightarrow> (\<exists>v. ov = Some v \<and> T v a)" "\<not> runs panicM a U"
  by (auto simp: runs_def unwrapM_def split: option.split)

lemma runs_mono: "runs m a Q \<Longrightarrow> (\<And>x a'. Q x a' \<Longrightarrow> R x a') \<Longrightarrow> runs m a R"
  by (auto simp: runs_def)

section \<open>What handlers keep\<close>

definition sees :: "database \<Rightarrow> nat \<Rightarrow> screen list \<Rightarrow> mem_dev app \<Rightarrow> bool" where
  "sees db g st a \<longleftrightarrow> holds (app_store a) db \<and> generation (sb (app_store a)) = g \<and> stack a = st \<and>
     (\<forall>c. row_cache a = Some c \<longrightarrow> rc_generation c \<le> g \<and>
        (rc_generation c = g \<longrightarrow> rc_rows c = browse db (rc_table c) (rc_filter c) (rc_sort c)))"

lemma sees_update:
  "sees db g st a \<Longrightarrow> sees db g st (a\<lparr>status := t\<rparr>)" "sees db g st a \<Longrightarrow> sees db g st' (a\<lparr>stack := st'\<rparr>)"
  "sees db g st a \<Longrightarrow> sees db g st (a\<lparr>last_usb_test := w\<rparr>)" "sees db g st a \<Longrightarrow> sees db g st (a\<lparr>switched_off := b\<rparr>)"
  by (simp_all add: sees_def)

lemma sees_consistent: "sees db g st a \<Longrightarrow> consistent db"
  by (simp add: sees_def holds_def)

lemma runs_say: "sees db g st a \<Longrightarrow> (\<And>a'. sees db g st a' \<Longrightarrow> Q () a') \<Longrightarrow> runs (say t) a Q"
  by (simp add: say_def sees_update)

lemma runs_report: "sees db g st a \<Longrightarrow> (\<And>a'. sees db g st a' \<Longrightarrow> Q () a') \<Longrightarrow> runs (report hw e) a Q"
  unfolding report_def by (rule runs_say)

lemma runs_ask:
  assumes s: "sees db g st a" and m: "answers m db r" and k: "\<And>a'. sees db g st a' \<Longrightarrow> Q r a'"
  shows "runs (ask m) a Q"
proof -
  from s have "holds (app_store a) db" by (simp add: sees_def)
  from answersD[OF m this] obtain c where c: "m (app_store a) = Some (r, (app_store a)\<lparr>cache := c\<rparr>)" "holds ((app_store a)\<lparr>cache := c\<rparr>) db" by blast
  then have "sees db g st (a\<lparr>app_store := (app_store a)\<lparr>cache := c\<rparr>\<rparr>)" using s by (simp add: sees_def)
  from k[OF this] show ?thesis by (simp add: runs_def ask_def c(1))
qed

text \<open>The browser's rows, through the cache or not, are those of the database.\<close>

lemma runs_cached:
  assumes s: "sees db g st a" and k: "\<And>a'. sees db g st a' \<Longrightarrow> Q (browse db name f so) a'"
  shows "runs (cached_rows mem_ops name f so) a Q"
proof (cases "cache_fits name f so g (row_cache a)")
  case (Some rows)
  then obtain c where "row_cache a = Some c" "rc_table c = name" "rc_filter c = f" "rc_sort c = so" "rc_generation c = g" "rows = rc_rows c"
    by (auto simp: cache_fits_def split: option.splits if_splits)
  then have "rows = browse db name f so" using s by (auto simp: sees_def)
  then show ?thesis using s k[OF s] Some by (simp add: cached_rows_def store_generation_def sees_def)
next
  case None
  have g: "store_generation (app_store a) = g" using s by (simp add: store_generation_def sees_def)
  have "sees db g st (a'\<lparr>row_cache := Some \<lparr>rc_table = name, rc_filter = f, rc_sort = so, rc_generation = g, rc_rows = browse db name f so\<rparr>\<rparr>)"
    if "sees db g st a'" for a' using that by (simp add: sees_def)
  then show ?thesis unfolding cached_rows_def using None g k
    by (auto simp: Let_def intro!: runs_ask[OF s answers_browser])
qed

section \<open>Operations\<close>

text \<open>A handler changes the database by at most one step.\<close>

definition at_most_a_step :: "database \<Rightarrow> database \<Rightarrow> bool" where
  "at_most_a_step db db' \<longleftrightarrow> db' = db \<or> (\<exists>opn. db_step db opn db')"

lemma at_most_refl [simp]: "at_most_a_step db db"
  by (simp add: at_most_a_step_def)

lemma runs_operation:
  assumes s: "sees db g st a" and rd: "op_ready db opn" and gen: "g + 1 < 2 ^ 64"
    and run: "bindM (run_op mem_ops opn) (\<lambda>_. returnM ()) = bindM m (\<lambda>_. returnM ())"
    and k: "\<And>r db' g' a'. sees db' g' st a' \<Longrightarrow> at_most_a_step db db' \<Longrightarrow> (\<And>e. r = Inl e \<Longrightarrow> db' = db \<and> g' = g) \<Longrightarrow> Q r a'"
  shows "runs (ask m) a Q"
proof -
  have h: "holds (app_store a) db" and g: "generation (sb (app_store a)) = g" and st: "stack a = st"
    and c: "\<And>c. row_cache a = Some c \<Longrightarrow> rc_generation c \<le> g \<and> (rc_generation c = g \<longrightarrow> rc_rows c = browse db (rc_table c) (rc_filter c) (rc_sort c))"
    using s by (auto simp: sees_def)
  from holds_op[OF h rd] gen g obtain r s' where r: "run_op mem_ops opn (app_store a) = Some (r, s')" and out:
    "(\<exists>x db'. r = Inr x \<and> db_step db opn db' \<and> holds s' db' \<and>
        (generation (sb s') = g + 1 \<or> db' = db \<and> generation (sb s') = g)) \<or>
     (\<exists>e. r = Inl e \<and> holds s' db \<and> generation (sb s') = g)" by metis
  have "bindM m (\<lambda>_. returnM ()) (app_store a) = Some (map_sum id (\<lambda>_. ()) r, s')"
    using fun_cong[OF run, of "app_store a"] r by (cases r) (simp_all add: bindM_def returnM_def)
  then obtain r0 where r0: "m (app_store a) = Some (r0, s')" "map_sum id (\<lambda>_. ()) r0 = map_sum id (\<lambda>_. ()) r"
    unfolding bindM_eq_Some by (fastforce simp: returnM_def)
  let ?a = "a\<lparr>app_store := s'\<rparr>"
  from out obtain db' g' where "sees db' g' st ?a" "at_most_a_step db db'" "\<And>e. r0 = Inl e \<Longrightarrow> db' = db \<and> g' = g"
  proof (elim disjE exE conjE)
    fix x db' assume o: "r = Inr x" "db_step db opn db'" "holds s' db'" "generation (sb s') = g + 1"
    have "sees db' (g + 1) st ?a" using o c st by (auto simp: sees_def)
    moreover have "r0 \<noteq> Inl e" for e using r0(2) o(1) by auto
    ultimately show thesis using that[of db' "g + 1"] o(2) unfolding at_most_a_step_def by blast
  next
    fix x db' assume "r = Inr x" "holds s' db'" "db' = db" "generation (sb s') = g"
    then show thesis using that[of db g] c st by (auto simp: sees_def)
  next
    fix e assume "r = Inl e" "holds s' db" "generation (sb s') = g"
    then show thesis using that[of db g] c st by (auto simp: sees_def)
  qed
  from k[OF this] show ?thesis by (simp add: runs_def ask_def r0(1))
qed

end
