(* ===== verification/Value_Sizes.thy ===== *)
theory Value_Sizes
  imports Value
begin

text \<open>
  The canonical text of a value is not much longer than the text it was parsed from: a sign, leading zeros of a year, a zone written
  out. Hence a text that fits the memory gives a cell that fits it.
\<close>

lemma split_once_length: "split_once c s = Some (a, b) \<Longrightarrow> length a + length b < length s"
  by (induction s arbitrary: a) (auto split: if_splits)

lemma rsplitn_length: "x \<in> set (rsplitn n c s) \<Longrightarrow> length x \<le> length s"
proof (induction n c s arbitrary: x rule: rsplitn.induct)
  case (3 n c s)
  show ?case
  proof (cases "rsplit_once c s")
    case (Some lr)
    obtain l r where lr: "lr = (l, r)" by (cases lr)
    then have "length l + length r < length s" using Some by (auto simp: rsplit_once_def dest: split_once_length)
    moreover have "x \<in> set (rsplitn (Suc n) c l) \<Longrightarrow> length x \<le> length l" using 3(1)[OF Some lr[symmetric]] .
    moreover have "x = r \<or> x \<in> set (rsplitn (Suc n) c l)" using 3(2) by (simp add: Some lr)
    ultimately show ?thesis by force
  qed (use 3(2) in simp)
qed simp_all

lemma uint_length: "parse_uint s = Some b \<Longrightarrow> length (uint_to_dec_string b) \<le> length s"
  using length_dropWhile_le[of "\<lambda>d. d = 0" "map digit_of s"]
  by (cases s) (auto simp: parse_uint_Some uint_to_dec_string_def normalize_eq)

lemma digits_length: "parse_digits s = Some ds \<Longrightarrow> length ds = length s"
  by (auto simp: parse_digits_eq split: if_splits)

lemma trim_zeros_length: "length (trim_zeros fs) \<le> length fs"
proof (induction fs rule: trim_zeros.induct)
  case (1 fs)
  show ?case
  proof (cases "fs \<noteq> [] \<and> last fs = 0")
    case True
    then have "length (trim_zeros fs) = length (trim_zeros (butlast fs))" by (subst trim_zeros.simps) simp
    also have "\<dots> \<le> length fs - 1" using 1[OF True] by simp
    finally show ?thesis by simp
  qed (auto simp: trim_zeros.simps[of fs])
qed

lemma frac_length: "length (display_frac fs) \<le> length fs + 1"
  by (simp add: display_frac_def)

lemma int_length: "parse_int s = Some i \<Longrightarrow> length (int_to_dec_string i) \<le> length s + 1"
proof -
  assume "parse_int s = Some i"
  then obtain neg rest b where p: "split_sign s = (neg, rest)" "parse_uint rest = Some b" "i = from_parts neg b"
    by (auto simp: parse_int_def split: prod.splits)
  have "length rest \<le> length s" using p(1) by (auto simp: split_sign_def split: list.splits if_splits)
  moreover have "mag i = b" by (simp add: p(3) from_parts_def)
  ultimately show "length (int_to_dec_string i) \<le> length s + 1" using uint_length[OF p(2)] by (simp add: int_to_dec_string_def)
qed

lemma date_length: "parse_date s = Some d \<Longrightarrow> length (display_date d) \<le> length s + 11"
proof -
  assume a: "parse_date s = Some d"
  define body where "body = (if s \<noteq> [] \<and> hd s = CHR ''-'' then tl s else s)"
  from a obtain dd mm yy m where p: "rsplitn 3 CHR ''-'' body = [dd, mm, yy]" "parse_uint yy = Some m" "mag (year d) = m"
    unfolding parse_date_def Let_def body_def
    by (auto simp: bind_eq_Some_conv from_parts_def split: list.splits if_splits)
  have "length yy \<le> length body" by (rule rsplitn_length[of _ 3 "CHR ''-''"]) (simp add: p(1))
  also have "\<dots> \<le> length s" by (simp add: body_def)
  finally show ?thesis using uint_length[OF p(2)] by (simp add: display_date_def Let_def push2_def p(3)) arith
qed

lemma time_length: "parse_time s = Some t \<Longrightarrow> length (display_time t) \<le> length s + 9"
proof -
  assume a: "parse_time s = Some t"
  have "length (time_frac t) \<le> length s"
  proof (cases "split_once CHR ''.'' s")
    case None
    then have "time_frac t = []" using a by (auto simp: parse_time_def bind_eq_Some_conv split: list.splits if_splits)
    then show ?thesis by simp
  next
    case (Some hf)
    obtain h f where hf: "hf = (h, f)" by (cases hf)
    then obtain ds where "parse_digits f = Some ds" "time_frac t = trim_zeros ds"
      using a Some by (auto simp: parse_time_def bind_eq_Some_conv split: list.splits if_splits)
    then show ?thesis using split_once_length[of "CHR ''.''" s h f] digits_length[of f ds] trim_zeros_length[of ds] Some hf by simp
  qed
  then show ?thesis using frac_length[of "time_frac t"] by (simp add: display_time_def push2_def)
qed

lemma decimal_length: "parse_decimal s = Some d \<Longrightarrow> length (display_decimal d) \<le> length s + 3"
proof -
  assume a: "parse_decimal s = Some d"
  obtain neg rest where sg: "split_sign s = (neg, rest)" by (cases "split_sign s")
  have l: "length rest \<le> length s" using sg by (auto simp: split_sign_def split: list.splits if_splits)
  obtain ip fp where sp: "(case split_once CHR ''.'' rest of Some (i, f) \<Rightarrow> (i, f) | None \<Rightarrow> (rest, [])) = (ip, fp)" by fastforce
  have parts: "length ip + length fp \<le> length rest" using sp split_once_length[of "CHR ''.''" rest] by (fastforce split: option.splits)
  from a obtain i f where d: "(if ip = [] then Some zero_uint else parse_uint ip) = Some i" "parse_digits fp = Some f" "d = canonical_decimal neg i f"
    unfolding parse_decimal_def sg prod.case Let_def sp by (auto simp: bind_eq_Some_conv split: if_splits)
  have "length (uint_to_dec_string i) \<le> length ip + 1"
    using d(1) uint_length[of ip i] by (auto simp: zero_uint_def uint_to_dec_string_def is_zero_uint_def split: if_splits)
  moreover have "length (dec_frac d) \<le> length fp" "dec_int d = i"
    using trim_zeros_length[of f] digits_length[OF d(2)] by (simp_all add: d(3) canonical_decimal_def Let_def)
  ultimately show ?thesis using parts l frac_length[of "dec_frac d"] by (simp add: display_decimal_def)
qed

lemma tz_length: "split_tz s = Some (d, off) \<Longrightarrow> length d \<le> length s"
  by (auto simp: split_tz_def Let_def split: if_splits)

lemma dt_length: "split_dt s = Some (d, t) \<Longrightarrow> length d + length t < length s"
  by (auto simp: split_dt_def split: option.splits dest: split_once_length)

lemma offset_length: "length (display_offset off) = 6"
  by (simp add: display_offset_def push2_def Let_def split: prod.split)

lemma value_length: "parse_value kty s = Inr v \<Longrightarrow> length (display v) \<le> length s + 40"
proof (cases kty)
  case TDateTimeTz
  assume a: "parse_value kty s = Inr v"
  then obtain dt off d t dv tv where p: "split_tz s = Some (dt, off)" "split_dt dt = Some (d, t)" "parse_date d = Some dv" "parse_time t = Some tv"
    "v = VDateTimeTz dv tv off" using TDateTimeTz by (auto simp: ok_or_def bind_eq_Some_conv split: option.splits)
  show ?thesis using tz_length[OF p(1)] dt_length[OF p(2)] date_length[OF p(3)] time_length[OF p(4)] by (simp add: p(5) offset_length)
next
  case TDateTime
  assume a: "parse_value kty s = Inr v"
  then obtain d t dv tv where p: "split_dt s = Some (d, t)" "parse_date d = Some dv" "parse_time t = Some tv" "v = VDateTime dv tv"
    using TDateTime by (auto simp: ok_or_def bind_eq_Some_conv split: option.splits)
  show ?thesis using dt_length[OF p(1)] date_length[OF p(2)] time_length[OF p(3)] by (simp add: p(4))
next
  case TDateTz
  assume a: "parse_value kty s = Inr v"
  then obtain d off dv where p: "split_tz s = Some (d, off)" "parse_date d = Some dv" "v = VDateTz dv off"
    using TDateTz by (auto simp: ok_or_def bind_eq_Some_conv split: option.splits)
  show ?thesis using tz_length[OF p(1)] date_length[OF p(2)] by (simp add: p(3) offset_length)
qed (auto simp: ok_or_def split: option.splits dest: int_length uint_length decimal_length date_length time_length)

end
