(* ===== verification/Ui_Safe.thy ===== *)
theory Ui_Safe
  imports Ui_Rules Value_Sizes
begin

text \<open>
  The well-formedness of the user interface and that every key keeps it. At the bottom of the stack is the table list; above it are
  screens that only show something; on top there may be one modal screen, or a row editor with a value builder or a foreign-key picker.
  Prompts and fields hold valid text; the table and the row that an editor, a confirmation or a picker is about exist.
\<close>

section \<open>Well-formed stacks\<close>

fun stable :: "screen \<Rightarrow> bool" where
  "stable (Prompt _) = False"
| "stable (Pick _) = False"
| "stable (Confirm _ _) = False"
| "stable (Editor _) = False"
| "stable (Builder _) = False"
| "stable (FkPick _) = False"
| "stable _ = True"

fun is_list :: "screen \<Rightarrow> bool" where
  "is_list (TableList _) = True"
| "is_list _ = False"

definition base_ok :: "screen list \<Rightarrow> bool" where
  "base_ok st \<longleftrightarrow> st \<noteq> [] \<and> list_all stable st \<and> is_list (last st)"

lemma base_ok_Cons [simp]: "\<not> base_ok []" "base_ok (s # r) \<longleftrightarrow> stable s \<and> (is_list s \<and> r = [] \<or> base_ok r)"
  by (auto simp: base_ok_def)

definition prompt_ok :: "prompt \<Rightarrow> bool" where
  "prompt_ok p \<longleftrightarrow> valid_text (pr_buf p, pr_caret p)"

definition pick_ok :: "pick \<Rightarrow> bool" where
  "pick_ok p \<longleftrightarrow> (pk_options p = [] \<or> pk_sel p < length (pk_options p)) \<and>
     (\<forall>name col. pk_action p = Act_AddColPickType name col \<longrightarrow> utf8_ok (map of_char col))"

definition confirm_ok :: "database \<Rightarrow> action \<Rightarrow> bool" where
  "confirm_ok db act \<longleftrightarrow> (\<forall>name rid. act = Act_DeleteRow name rid \<longrightarrow> live_row db name rid)"

definition field_ok :: "field \<Rightarrow> bool" where
  "field_ok f \<longleftrightarrow> valid_text (fld_value f, fld_caret f)"

definition editor_ok :: "database \<Rightarrow> editor \<Rightarrow> bool" where
  "editor_ok db ed \<longleftrightarrow> (\<exists>i. find_table db (ed_table ed) = Inr i \<and> ed_cols ed = cols (db ! i)) \<and>
     (\<forall>rid. ed_id ed = Some rid \<longrightarrow> live_row db (ed_table ed) rid) \<and>
     length (ed_fields ed) = length (ed_cols ed) \<and> list_all field_ok (ed_fields ed) \<and> ed_focus ed \<le> length (ed_cols ed) + 1"

definition builder_ok :: "editor \<Rightarrow> field_builder \<Rightarrow> bool" where
  "builder_ok ed b \<longleftrightarrow> fb_ok b \<and> fb_field b < length (ed_cols ed) \<and> fb_ty b = ty (ed_cols ed ! fb_field b)"

definition picker_ok :: "database \<Rightarrow> editor \<Rightarrow> fk_pick \<Rightarrow> bool" where
  "picker_ok db ed p \<longleftrightarrow> fp_field p < length (ed_cols ed) \<and> (\<forall>ir \<in> set (fp_rows p). live_row db (fp_to_table p) (fst ir))"

definition stack_ok :: "database \<Rightarrow> screen list \<Rightarrow> bool" where
  "stack_ok db st = (case st of
      Prompt p # r \<Rightarrow> prompt_ok p \<and> base_ok r
    | Pick p # r \<Rightarrow> pick_ok p \<and> base_ok r
    | Confirm _ act # r \<Rightarrow> confirm_ok db act \<and> base_ok r
    | Editor ed # r \<Rightarrow> editor_ok db ed \<and> base_ok r
    | Builder b # Editor ed # r \<Rightarrow> builder_ok ed b \<and> editor_ok db ed \<and> base_ok r
    | FkPick p # Editor ed # r \<Rightarrow> picker_ok db ed p \<and> editor_ok db ed \<and> base_ok r
    | _ \<Rightarrow> base_ok st)"

lemma stack_ok_simps [simp]:
  "stack_ok db (Prompt p # r) \<longleftrightarrow> prompt_ok p \<and> base_ok r" "stack_ok db (Pick q # r) \<longleftrightarrow> pick_ok q \<and> base_ok r"
  "stack_ok db (Confirm m act # r) \<longleftrightarrow> confirm_ok db act \<and> base_ok r" "stack_ok db (Editor ed # r) \<longleftrightarrow> editor_ok db ed \<and> base_ok r"
  "stack_ok db (Builder b # Editor ed # r) \<longleftrightarrow> builder_ok ed b \<and> editor_ok db ed \<and> base_ok r"
  "stack_ok db (FkPick k # Editor ed # r) \<longleftrightarrow> picker_ok db ed k \<and> editor_ok db ed \<and> base_ok r"
  by (simp_all add: stack_ok_def)

lemma stack_ok_stable [simp]: "stable s \<Longrightarrow> stack_ok db (s # r) \<longleftrightarrow> base_ok (s # r)"
  by (cases s) (simp_all add: stack_ok_def)

lemma base_stack: "base_ok r \<Longrightarrow> stack_ok db r"
  by (cases r) auto

lemma stack_okE:
  assumes "stack_ok db (s # r)"
  obtains "stable s" "base_ok (s # r)"
    | p where "s = Prompt p" "prompt_ok p" "base_ok r" | q where "s = Pick q" "pick_ok q" "base_ok r"
    | m act where "s = Confirm m act" "confirm_ok db act" "base_ok r" | ed where "s = Editor ed" "editor_ok db ed" "base_ok r"
    | b ed r' where "s = Builder b" "r = Editor ed # r'" "builder_ok ed b" "editor_ok db ed" "base_ok r'"
    | k ed r' where "s = FkPick k" "r = Editor ed # r'" "picker_ok db ed k" "editor_ok db ed" "base_ok r'"
  using assms by (cases s) (auto simp: stack_ok_def split: list.splits screen.splits)

lemma pop_to_list_base: "base_ok st \<Longrightarrow> \<exists>st'. pop_to_list st = Some st' \<and> base_ok st'"
  by (induction st rule: pop_to_list.induct) auto

definition ui_ok :: "database \<Rightarrow> mem_dev app \<Rightarrow> bool" where
  "ui_ok db a \<longleftrightarrow> sees db (generation (sb (app_store a))) (stack a) a \<and> stack_ok db (stack a)"

lemma sees_ui_ok: "sees db g st a \<Longrightarrow> stack_ok db st \<Longrightarrow> ui_ok db a"
  by (auto simp: ui_ok_def sees_def)

section \<open>The end of a handler\<close>

definition well :: "database \<Rightarrow> 'x \<Rightarrow> mem_dev app \<Rightarrow> bool" where
  "well db x a \<longleftrightarrow> (\<exists>db'. at_most_a_step db db' \<and> ui_ok db' a)"

lemma wellI: "sees db' g' st a \<Longrightarrow> stack_ok db' st \<Longrightarrow> at_most_a_step db db' \<Longrightarrow> well db x a"
  unfolding well_def using sees_ui_ok by blast

definition nav_stack :: "nav \<Rightarrow> screen list \<Rightarrow> screen list option" where
  "nav_stack n st = (case n of Nav_None \<Rightarrow> Some st | Nav_Push s \<Rightarrow> Some (s # st)
     | Nav_Pop \<Rightarrow> Some (if 1 < length st then tl st else st) | Nav_PopToList \<Rightarrow> pop_to_list st)"

definition lands :: "database \<Rightarrow> screen \<times> nav \<Rightarrow> mem_dev app \<Rightarrow> bool" where
  "lands db sn a \<longleftrightarrow> (\<exists>db' g' r st. sees db' g' (TableList 0 # r) a \<and> at_most_a_step db db' \<and>
     nav_stack (snd sn) (fst sn # r) = Some st \<and> stack_ok db' st)"

lemma landsI: "sees db' g' (TableList 0 # r) a \<Longrightarrow> nav_stack n (s # r) = Some st \<Longrightarrow> stack_ok db' st \<Longrightarrow> at_most_a_step db db' \<Longrightarrow> lands db (s, n) a"
  unfolding lands_def by auto

lemma lands_simps:
  assumes "sees db g (TableList 0 # r) a"
  shows "stack_ok db (s # r) \<Longrightarrow> lands db (s, Nav_None) a" "stack_ok db (s' # s # r) \<Longrightarrow> lands db (s, Nav_Push s') a"
    "base_ok (s # r) \<Longrightarrow> lands db (s, Nav_Pop) a" "base_ok (s # r) \<Longrightarrow> lands db (s, Nav_PopToList) a"
proof -
  show "stack_ok db (s # r) \<Longrightarrow> lands db (s, Nav_None) a" "stack_ok db (s' # s # r) \<Longrightarrow> lands db (s, Nav_Push s') a"
    using assms by (auto intro!: landsI simp: nav_stack_def)
  assume b: "base_ok (s # r)"
  then show "lands db (s, Nav_Pop) a"
    by (cases "r = []") (auto intro!: landsI[OF assms] base_stack simp: nav_stack_def)
  from pop_to_list_base[OF b] show "lands db (s, Nav_PopToList) a"
    by (auto intro!: landsI[OF assms] base_stack simp: nav_stack_def)
qed

lemma runs_navigate:
  assumes s: "sees db' g' (s # r) a" and n: "nav_stack n (s # r) = Some st" and st: "stack_ok db' st" and db: "at_most_a_step db db'"
  shows "runs (navigate n) a (well db)"
proof (cases n)
  case Nav_Pop
  then show ?thesis using n st s by (auto simp: navigate_def nav_stack_def pop_screen_def say_def sees_def intro!: wellI[OF _ st db])
next
  case Nav_PopToList
  then show ?thesis using n st s
    by (auto simp: navigate_def nav_stack_def back_to_list_def say_def sees_def intro!: wellI[OF _ st db])
qed (use n st s in \<open>auto simp: navigate_def nav_stack_def push_screen_def sees_def intro!: wellI[OF _ st db]\<close>)

lemma runs_key_dispatch:
  assumes s: "sees db g (scr # r) a" and d: "\<And>a'. sees db g (TableList 0 # r) a' \<Longrightarrow> runs (dispatch hw mem_ops scr k) a' (lands db)"
  shows "runs (key_dispatch hw mem_ops scr k) a (well db)"
proof -
  have a: "stack a = scr # r" "sees db g (TableList 0 # r) (a\<lparr>stack := TableList 0 # r\<rparr>)" using s by (simp_all add: sees_def)
  have end_: "runs (put_top scr') a' (\<lambda>_ a''. runs (navigate n) a'' (well db))" if "lands db (scr', n) a'" for scr' n a'
  proof -
    from that obtain db' g' r' st where l: "sees db' g' (TableList 0 # r') a'" "at_most_a_step db db'"
      "nav_stack n (scr' # r') = Some st" "stack_ok db' st" by (auto simp: lands_def)
    then have "sees db' g' (scr' # r') (a'\<lparr>stack := scr' # r'\<rparr>)" "stack a' = TableList 0 # r'" by (simp_all add: sees_def)
    then show ?thesis using runs_navigate[OF _ l(3,4,2)] by (simp add: put_top_def)
  qed
  show ?thesis unfolding key_dispatch_def put_top_def using a runs_mono[OF d[OF a(2)] end_]
    by (simp add: case_prod_beta put_top_def)
qed

section \<open>Screens that show something\<close>

lemma field_texts [simp]: "valid_text ([], 0)" "valid_text (s, char_count s) \<longleftrightarrow> utf8_ok (map of_char s)"
  by (simp_all add: char_count_def)

declare dec_of_nat.simps [simp del]

lemma char_count_nil [simp]: "char_count [] = 0"
  by (simp add: char_count_def)

named_theorems screen_simps "opening screens"

lemmas [screen_simps] = new_browser_def new_prompt_def new_pick_def prompt_ok_def pick_ok_def confirm_ok_def

text \<open>Rules by the form of the action; they leave messages alone.\<close>

lemma running:
  "runs m a (\<lambda>x a'. runs (k x) a' Q) \<Longrightarrow> runs (bindM m k) a Q"
  "Q x a \<Longrightarrow> runs (returnM x) a Q"
  "(b \<Longrightarrow> runs m1 a Q) \<Longrightarrow> (\<not> b \<Longrightarrow> runs m2 a Q) \<Longrightarrow> runs (if b then m1 else m2) a Q"
  "(ov = None \<Longrightarrow> runs m1 a Q) \<Longrightarrow> (\<And>v. ov = Some v \<Longrightarrow> runs (n1 v) a Q) \<Longrightarrow> runs (case ov of None \<Rightarrow> m1 | Some v \<Rightarrow> n1 v) a Q"
  "(\<And>e. z = Inl e \<Longrightarrow> runs (n2 e) a Q) \<Longrightarrow> (\<And>y. z = Inr y \<Longrightarrow> runs (n3 y) a Q) \<Longrightarrow> runs (case z of Inl e \<Rightarrow> n2 e | Inr y \<Rightarrow> n3 y) a Q"
  "(\<And>u v. p = (u, v) \<Longrightarrow> runs (n4 u v) a Q) \<Longrightarrow> runs (case p of (u, v) \<Rightarrow> n4 u v) a Q"
  by (simp_all split: option.split sum.split prod.split)

lemma lands_list:
  assumes s: "sees db g (TableList 0 # r) a" and b: "r = [] \<or> base_ok r"
  shows "runs (dispatch_list hw mem_ops sel k) a (lands db)"
  unfolding dispatch_list_def runs_bind Let_def
  by (rule runs_ask[OF s answers_tables(1)], cases k; simp only: key.case)
    (intro running runs_say lands_simps | assumption | simp add: b screen_simps)+

lemma lands_rowview:
  assumes s: "sees db g (TableList 0 # r) a" and b: "base_ok r" and l: "live_row db name rid"
  shows "runs (dispatch_rowview mem_ops name rid sel k) a (lands db)"
proof -
  from l obtain i x where "find_table db name = Inr i" "row_at db i rid = Some x" by (auto simp: live_row_def)
  note nav = answers_nav[OF this]
  show ?thesis unfolding dispatch_rowview_def runs_bind Let_def
    by (rule runs_ask[OF s nav], cases k) (auto simp: b screen_simps split: prod.split intro!: lands_simps)
qed

lemma lands_drives:
  assumes s: "sees db g (TableList 0 # r) a" and b: "base_ok r"
  shows "runs (dispatch_drives hw ds sel tp k) a (lands db)"
  unfolding dispatch_drives_def Let_def
  by (cases k) (auto simp: b intro!: runs_say[OF s] lands_simps[OF s] intro: lands_simps)

lemma lands_pci:
  assumes s: "sees db g (TableList 0 # r) a" and b: "base_ok r"
  shows "runs (dispatch_pci hw ds sel tp k) a (lands db)"
  unfolding dispatch_pci_def Let_def
  by (cases k; simp only: key.case) (intro running runs_say lands_simps | assumption | rule s | simp add: b)+

lemma lands_os_pick:
  assumes s: "sees db g (TableList 0 # r) a" and b: "base_ok r"
  shows "runs (dispatch_os_pick cs sel k) a (lands db)"
  unfolding dispatch_os_pick_def Let_def
  by (cases k) (auto simp: b screen_simps split: prod.split intro!: lands_simps[OF s])

lemma lands_about:
  assumes s: "sees db g (TableList 0 # r) a" and b: "base_ok r"
  shows "runs (dispatch_about hw tp k) a (lands db)"
  unfolding dispatch_about_def Let_def by (cases k) (auto simp: b intro!: lands_simps[OF s])

lemma lands_xhci:
  assumes s: "sees db g (TableList 0 # r) a" and b: "base_ok r"
  shows "runs (dispatch_xhci hw info d k) a (lands db)"
proof -
  have test: "runs (modifyM (\<lambda>a. a\<lparr>last_usb_test := w\<rparr>)) a Q" if "\<And>a'. sees db g (TableList 0 # r) a' \<Longrightarrow> Q () a'" for w Q
    using that[OF sees_update(3)[OF s]] by simp
  show ?thesis unfolding dispatch_xhci_def Let_def
    by (cases k; simp only: key.case) (intro running runs_say test lands_simps | assumption | rule s | simp add: b)+
qed

section \<open>The browser\<close>

lemma holds_utf8:
  assumes h: "holds s db" and n: "find_table db name = Inr i"
  shows "(rid, r) \<in> set (rel_rows (db ! i)) \<Longrightarrow> Some v \<in> set r \<Longrightarrow> wf_value v \<and> utf8_ok (map of_char (display v))"
    "c \<in> set (cols (db ! i)) \<Longrightarrow> utf8_ok (map of_char (col_name c))"
proof -
  assume "(rid, r) \<in> set (rel_rows (db ! i))" "Some v \<in> set r"
  then have "wf_cell (Some v)" using holds_table(3)[OF h n, of "(rid, r)"] by (auto simp: wf_row_def)
  then show "wf_value v \<and> utf8_ok (map of_char (display v))" by (simp add: rust_str_def)
next
  assume "c \<in> set (cols (db ! i))"
  then show "utf8_ok (map of_char (col_name c))" using wf_tableD(2)[OF holds_table(1)[OF h n]] by (simp add: rust_str_def)
qed

lemma new_field_ok: "(\<And>v. cell = Some (Some v) \<Longrightarrow> utf8_ok (map of_char (display v))) \<Longrightarrow> field_ok (new_field c cell)"
  by (simp add: field_ok_def new_field_def split: option.split)

lemma edited_ok:
  assumes h: "holds s db" and l: "\<And>q. rid = Some q \<Longrightarrow> live_row db name q" and e: "edited db name rid = Inr ed"
  shows "editor_ok db ed"
proof -
  from e obtain i where n: "find_table db name = Inr i"
    and ed: "ed = new_editor name rid (rel_schema (db ! i)) (Option.bind rid (row_at db i))"
    by (auto simp: edited_def table_of_def bindR_def split: sum.splits)
  have fields: "field_ok (new_field c (Option.bind (Option.bind rid (row_at db i)) (\<lambda>r. get_at r k)))" for c k
  proof (rule new_field_ok)
    fix v assume "Option.bind (Option.bind rid (row_at db i)) (\<lambda>r. get_at r k) = Some (Some v)"
    then obtain q r where r: "row_at db i q = Some r" "get_at r k = Some (Some v)" by (auto simp: bind_eq_Some_conv)
    then have "Some v \<in> set r" "(q, r) \<in> set (rel_rows (db ! i))"
      by (auto simp: get_at_def row_at_def in_set_conv_nth split: if_splits dest: map_of_SomeD)
    then show "utf8_ok (map of_char (display v))" using holds_utf8(1)[OF h n] by blast
  qed
  show ?thesis using n l fields by (auto simp: editor_ok_def ed new_editor_def list_all_iff)
qed

lemma runs_open_row:
  assumes s: "sees db g st a" and l: "\<And>q. rid = Some q \<Longrightarrow> live_row db name q"
    and k: "\<And>a' ed. sees db g st a' \<Longrightarrow> editor_ok db ed \<Longrightarrow> Q (Nav_Push (Editor ed)) a'" "\<And>a'. sees db g st a' \<Longrightarrow> Q Nav_None a'"
  shows "runs (open_row hw mem_ops name rid) a Q"
proof -
  have h: "holds (app_store a) db" using s by (simp add: sees_def)
  show ?thesis unfolding open_row_def runs_bind
    by (rule runs_ask[OF s answers_editor[OF l]], assumption)
      (auto split: sum.split intro!: k runs_report edited_ok[OF h l])
qed

lemma runs_row_under:
  assumes s: "sees db g st a" and n: "br_row b < length (browse db (br_table b) (br_filter b) (br_sort b))"
    and k: "\<And>a' rid. sees db g st a' \<Longrightarrow> live_row db (br_table b) rid \<Longrightarrow> Q rid a'"
  shows "runs (row_under mem_ops b) a Q"
proof -
  have "live_row db (br_table b) (fst (browse db (br_table b) (br_filter b) (br_sort b) ! br_row b))"
    by (rule browse_live[OF sees_consistent[OF s]]) (rule nth_mem[OF n])
  then show ?thesis unfolding row_under_def runs_bind by (intro runs_cached[OF s]) (simp add: get_at_def n k)
qed

lemma runs_resort:
  assumes s: "sees db g st a" and k: "\<And>a' b'. sees db g st a' \<Longrightarrow> Q b' a'"
  shows "runs (resort mem_ops b) a Q"
  unfolding resort_def runs_bind Let_def
  by (rule runs_cached[OF s]) (auto split: option.split intro!: runs_cached runs_say k)

lemma clamp_less: "xs \<noteq> [] \<Longrightarrow> min i (length xs - Suc 0) < length xs"
  by (cases xs) auto

lemma lands_browser:
  assumes s: "sees db g (TableList 0 # r) a" and b: "base_ok r"
  shows "runs (dispatch_browser hw mem_ops br k) a (lands db)"
  unfolding dispatch_browser_def runs_bind Let_def
  apply (rule runs_ask[OF s answers_tables(2)], rule runs_cached, assumption)
  apply (cases k; simp only: key.case)
  apply ((rule running) | (rule runs_resort, assumption) | (rule runs_open_row, assumption) | (rule runs_row_under, assumption) |
      (rule lands_simps, assumption) | (simp add: b screen_simps clamp_less))+
  done

section \<open>Screens that change the schema\<close>

lemma runs_attempt:
  fixes m :: "(mem_dev store, 'a) act"
  assumes s: "sees db g st a" and rd: "op_ready db opn" and gen: "g + 1 < 2 ^ 64"
    and run: "bindM (run_op mem_ops opn) (\<lambda>_. returnM ()) = bindM m (\<lambda>_. returnM ())"
    and k: "\<And>db' g' a'. sees db' g' st a' \<Longrightarrow> at_most_a_step db db' \<Longrightarrow> runs k a' Q" "\<And>a'. sees db g st a' \<Longrightarrow> Q () a'"
  shows "runs (attempt hw m k) a Q"
  unfolding attempt_def runs_bind
proof (rule runs_operation[OF s rd gen run])
  fix r :: "'a result" and db' g' a' assume r: "sees db' g' st a'" "at_most_a_step db db'" "\<And>e. r = Inl e \<Longrightarrow> db' = db \<and> g' = g"
  show "runs (case r of Inl e \<Rightarrow> report hw e | Inr _ \<Rightarrow> k) a' Q"
  proof (cases r)
    case (Inl e)
    then have "sees db g st a'" using r by blast
    then show ?thesis unfolding Inl sum.case by (rule runs_report) (rule k(2))
  qed (simp add: k(1)[OF r(1,2)])
qed

lemma runs_asked_op:
  fixes m :: "(mem_dev store, 'a) act"
  assumes s: "sees db g st a" and rd: "op_ready db opn" and gen: "g + 1 < 2 ^ 64"
    and run: "bindM (run_op mem_ops opn) (\<lambda>_. returnM ()) = bindM m (\<lambda>_. returnM ())"
    and k: "\<And>x db' g' a'. sees db' g' st a' \<Longrightarrow> at_most_a_step db db' \<Longrightarrow> Q (Inr x) a'" "\<And>e a'. sees db g st a' \<Longrightarrow> Q (Inl e) a'"
  shows "runs (ask m) a Q"
proof (rule runs_operation[OF s rd gen run])
  fix r :: "'a result" and db' g' a' assume r: "sees db' g' st a'" "at_most_a_step db db'" "\<And>e. r = Inl e \<Longrightarrow> db' = db \<and> g' = g"
  then show "Q r a'" using k by (cases r) auto
qed

lemma lands_step:
  assumes "sees db' g' (TableList 0 # r) a" "at_most_a_step db db'"
  shows "stack_ok db' (s # r) \<Longrightarrow> lands db (s, Nav_None) a"
  using assms by (auto intro!: landsI simp: nav_stack_def)

lemma run_is:
  "bindM (run_op ops (CreateTable n)) (\<lambda>_. returnM ()) = bindM (create_table ops n) (\<lambda>_. returnM ())"
  "bindM (run_op ops (DropTable n)) (\<lambda>_. returnM ()) = bindM (drop_table ops n) (\<lambda>_. returnM ())"
  "bindM (run_op ops (AddColumn n c)) (\<lambda>_. returnM ()) = bindM (add_column ops n c) (\<lambda>_. returnM ())"
  "bindM (run_op ops (DropColumn n c0)) (\<lambda>_. returnM ()) = bindM (drop_column ops n c0) (\<lambda>_. returnM ())"
  "bindM (run_op ops (MoveColumn n c0 i)) (\<lambda>_. returnM ()) = bindM (move_column ops n c0 i) (\<lambda>_. returnM ())"
  "bindM (run_op ops (RenameColumn n c0 c1)) (\<lambda>_. returnM ()) = bindM (rename_column ops n c0 c1) (\<lambda>_. returnM ())"
  "bindM (run_op ops (SetUnique n c0 u)) (\<lambda>_. returnM ()) = bindM (set_unique ops n c0 u) (\<lambda>_. returnM ())"
  "bindM (run_op ops (AddFk n c0 m c1)) (\<lambda>_. returnM ()) = bindM (add_fk ops n c0 m c1) (\<lambda>_. returnM ())"
  "bindM (run_op ops (DropFk n f)) (\<lambda>_. returnM ()) = bindM (drop_fk ops n f) (\<lambda>_. returnM ())"
  "bindM (run_op ops (SetReferenceColumns n cs)) (\<lambda>_. returnM ()) = bindM (set_reference_columns ops n cs) (\<lambda>_. returnM ())"
  "bindM (run_op ops (SetDisplayWidth n c0 w)) (\<lambda>_. returnM ()) = bindM (set_display_width ops n c0 w) (\<lambda>_. returnM ())"
  "bindM (run_op ops (Insert n cells)) (\<lambda>_. returnM ()) = bindM (bindM (insert_row ops n cells) (\<lambda>_. returnM ())) (\<lambda>_. returnM ())"
  "bindM (run_op ops (Update n rid cells)) (\<lambda>_. returnM ()) = bindM (update_row ops n rid cells) (\<lambda>_. returnM ())"
  "bindM (run_op ops (operation.Delete n rid)) (\<lambda>_. returnM ()) = bindM (delete_row ops n rid) (\<lambda>_. returnM ())"
  by (simp_all only: run_op.simps bindM_assoc bindM_basic(1))

text \<open>The limits of the machine: generations and sizes of schemas stay within their counters.\<close>

definition roomy :: "database \<Rightarrow> nat \<Rightarrow> bool" where
  "roomy db g \<longleftrightarrow> g + 1 < 2 ^ 64 \<and> sizes_ok db"

lemma dec_utf8 [simp]: "utf8_ok (map of_char (dec_of_nat n))"
  by (rule utf8_ascii) (rule ascii_dec)

lemma lands_schema:
  assumes s: "sees db g (TableList 0 # r) a" and b: "base_ok r" and m: "roomy db g"
  shows "runs (dispatch_schema hw mem_ops name sel k) a (lands db)"
proof -
  have h: "holds (app_store a) db" using s by (simp add: sees_def)
  have gen: "g + 1 < 2 ^ 64" using m by (simp add: roomy_def)
  have cols: "utf8_ok (map of_char (col_name (cs ! i)))"
    if "cs = or_default [] (map_sum id columns (table_of db name))" "i < length cs" for cs i
    using that holds_utf8(2)[OF h] by (cases "find_table db name") (auto simp: table_of_def bindR_def)
  show ?thesis unfolding dispatch_schema_def runs_bind Let_def pick_columns_def
    apply (rule runs_ask[OF s answers_tables(2)])
    apply (cases k; simp only: key.case)
    apply ((rule running) | (rule runs_attempt[OF _ ready_set_unique[OF h] gen run_is(7)], assumption) | (rule lands_step, assumption, assumption) |
      (rule runs_asked_op[OF _ ready_move_column[OF h] gen run_is(5)], assumption) | (rule runs_say, assumption) | (rule runs_report, assumption) |
      (rule runs_ask[OF _ answers_tables(2)], assumption) |
      (rule lands_simps, assumption) | (simp add: b screen_simps cols clamp_less split: option.split))+
    done
qed

lemma lands_refcols:
  assumes s: "sees db g (TableList 0 # r) a" and b: "base_ok r" and m: "roomy db g"
  shows "runs (dispatch_refcols hw mem_ops name labels sel k) a (lands db)"
proof -
  have h: "holds (app_store a) db" using s by (simp add: sees_def)
  have gen: "g + 1 < 2 ^ 64" "sizes_ok db" using m by (simp_all add: roomy_def)
  show ?thesis unfolding dispatch_refcols_def runs_bind Let_def
    apply (rule runs_ask[OF s answers_tables(2)])
    apply (rule running(4))
     apply (cases k; simp only: key.case)
    apply ((rule running) | (rule runs_attempt[OF _ ready_set_refs[OF h gen(2)] gen(1) run_is(10)], assumption) | (rule lands_step, assumption, assumption) |
      (rule runs_say, assumption) | (rule lands_simps, assumption) | (simp add: b))+
    done
qed

section \<open>The foreign-key picker\<close>

lemma fill_field_ok:
  assumes e: "editor_ok db ed" and t: "utf8_ok (map of_char t)" and i: "i < length (ed_cols ed)"
  obtains ed' where "fill_field i t ed = Some ed'" "editor_ok db ed'" "ed_cols ed' = ed_cols ed"
proof -
  let ?ed = "ed\<lparr>ed_fields := (ed_fields ed)[i := \<lparr>fld_value = t, fld_null = False, fld_caret = char_count t\<rparr>], ed_error := None, ed_focus := i\<rparr>"
  have "list_all field_ok ((ed_fields ed)[i := \<lparr>fld_value = t, fld_null = False, fld_caret = char_count t\<rparr>])"
    using e t by (auto simp: editor_ok_def list_all_iff field_ok_def dest!: set_update_subset_insert[THEN subsetD])
  then have "editor_ok db ?ed" using e i by (auto simp: editor_ok_def)
  moreover have "fill_field i t ed = Some ?ed" using e i by (simp add: fill_field_def editor_ok_def)
  ultimately show thesis by (intro that[of ?ed]) simp_all
qed

lemma runs_fk_select:
  assumes s: "sees db g (TableList 0 # Editor ed # r) a" and e: "editor_ok db ed" "i < length (ed_cols ed)" and l: "live_row db tname rid"
    and k: "\<And>a'. sees db g (TableList 0 # Editor ed # r) a' \<Longrightarrow> Q False a'"
      "\<And>ed' a'. editor_ok db ed' \<Longrightarrow> ed_cols ed' = ed_cols ed \<Longrightarrow> sees db g (TableList 0 # Editor ed' # r) a' \<Longrightarrow> Q True a'"
  shows "runs (fk_select mem_ops i rid tname col) a Q"
proof -
  have h: "holds (app_store a) db" using s by (simp add: sees_def)
  from l obtain j x where n: "find_table db tname = Inr j" "row_at db j rid = Some x" by (auto simp: live_row_def)
  have x: "(rid, x) \<in> set (rel_rows (db ! j))" using n row_at_rows[OF sees_consistent[OF s]] by simp
  have fill: "runs (bindM (getM stack) (\<lambda>st. case edit_nearest (fill_field i (display v)) st of
      None \<Rightarrow> returnM False | Some st' \<Rightarrow> bindM (modifyM (\<lambda>a. a\<lparr>stack := st'\<rparr>)) (\<lambda>_. returnM True))) a' Q"
    if a': "sees db g (TableList 0 # Editor ed # r) a'" and v: "get_at x c = Some (Some v)" for a' v c
  proof -
    have "Some v \<in> set x" using v by (auto simp: get_at_def in_set_conv_nth split: if_splits)
    then have "utf8_ok (map of_char (display v))" using holds_utf8(1)[OF h n(1) x] by blast
    from fill_field_ok[OF e(1) this e(2)] obtain ed' where ed': "fill_field i (display v) ed = Some ed'" "editor_ok db ed'" "ed_cols ed' = ed_cols ed" by blast
    have st: "stack a' = TableList 0 # Editor ed # r" using a' by (simp add: sees_def)
    show ?thesis using k(2)[OF ed'(2,3) sees_update(2)[OF a']] by (simp add: st ed'(1))
  qed
  show ?thesis unfolding fk_select_def
    apply (rule running(1), rule runs_ask[OF s answers_tables(2)])
    apply ((rule running(2-5)) | (rule runs_say, assumption) | (rule runs_ask[OF _ answers_row(1)[OF n]], assumption) |
      (rule fill, assumption, simp) | (rule k(1), assumption) | (rule running(1)))+
    done
qed

lemma lands_fk_pick:
  assumes s: "sees db g (TableList 0 # Editor ed # r) a" and b: "base_ok r" and e: "editor_ok db ed" and p: "picker_ok db ed p"
  shows "runs (dispatch_fk_pick hw mem_ops p k) a (lands db)"
proof -
  have moved: "lands db (FkPick (p\<lparr>fp_sel := i, fp_top := t\<rparr>), Nav_None) a" for i t
    using b e p by (auto intro!: landsI[OF s] simp: nav_stack_def picker_ok_def)
  have stay: "lands db (FkPick (p\<lparr>fp_sel := i\<rparr>), n) a" if "n \<in> {Nav_None, Nav_Pop}" for i n
    using that b e p by (auto intro!: landsI[OF s] simp: nav_stack_def picker_ok_def)
  have same: "lands db (FkPick p, n) a" if "n \<in> {Nav_None, Nav_Pop}" for n
    using that b e p by (auto intro!: landsI[OF s] simp: nav_stack_def)
  have filled: "runs (fk_select mem_ops (fp_field p) (fst (fp_rows p ! i)) (fp_to_table p) (fp_to_col p)) a
      (\<lambda>filled a'. lands db (FkPick (p\<lparr>fp_sel := j\<rparr>), if filled then Nav_Pop else Nav_None) a' \<and>
        lands db (FkPick p, if filled then Nav_Pop else Nav_None) a')" if "i < length (fp_rows p)" for i j
  proof (rule runs_fk_select[OF s e])
    show "fp_field p < length (ed_cols ed)" "live_row db (fp_to_table p) (fst (fp_rows p ! i))"
      using p nth_mem[OF that] by (simp_all add: picker_ok_def)
  qed (use b e p in \<open>auto intro!: landsI simp: nav_stack_def picker_ok_def\<close>)
  show ?thesis unfolding dispatch_fk_pick_def Let_def
    apply (cases k; simp only: key.case)
    apply (auto simp: moved stay same intro!: runs_mono[OF filled])
    done
qed

section \<open>Moving on the stack\<close>

lemma runs_pop:
  assumes "sees db g (s # r) a" "r \<noteq> []" "\<And>a'. sees db g r a' \<Longrightarrow> Q () a'"
  shows "runs pop_screen a Q"
proof -
  have "stack a = s # r" using assms(1) by (simp add: sees_def)
  then show ?thesis using assms(2) assms(3)[OF sees_update(2)[OF assms(1)]] by (simp add: pop_screen_def)
qed

lemma runs_push: "sees db g st a \<Longrightarrow> (\<And>a'. sees db g (s # st) a' \<Longrightarrow> Q () a') \<Longrightarrow> runs (push_screen s) a Q"
  using sees_update(2)[of db g st a "s # st"] by (simp add: push_screen_def) (metis sees_def)

lemma runs_put:
  assumes "sees db g (s # r) a" "\<And>a'. sees db g (s' # r) a' \<Longrightarrow> Q () a'"
  shows "runs (put_top s') a Q"
proof -
  have "stack a = s # r" using assms(1) by (simp add: sees_def)
  then show ?thesis using assms(2)[OF sees_update(2)[OF assms(1)]] by (simp add: put_top_def)
qed

lemma runs_back:
  assumes s: "sees db g st a" and b: "base_ok st" and k: "\<And>st' a'. base_ok st' \<Longrightarrow> sees db g st' a' \<Longrightarrow> Q () a'"
  shows "runs back_to_list a Q"
proof -
  obtain st' where st': "pop_to_list st = Some st'" "base_ok st'" using pop_to_list_base[OF b] by blast
  have "stack a = st" using s by (simp add: sees_def)
  then show ?thesis using k[OF st'(2) sees_update(2)[OF s]] by (simp add: back_to_list_def st'(1))
qed

lemma base_nonempty: "base_ok r \<Longrightarrow> r \<noteq> []"
  by auto

lemma well_base: "sees db' g' r a \<Longrightarrow> at_most_a_step db db' \<Longrightarrow> base_ok r \<Longrightarrow> well db x a"
  by (rule wellI[OF _ base_stack])

lemma well_same: "sees db g st a \<Longrightarrow> stack_ok db st \<Longrightarrow> well db x a"
  by (rule wellI[OF _ _ at_most_refl])

section \<open>Prompts, pickers and confirmations\<close>

lemma runs_resolve_prompt:
  assumes s: "sees db g r a" and b: "base_ok r" and t: "rust_str t" and m: "roomy db g"
  shows "runs (resolve_prompt hw mem_ops act t) a (well db)"
proof -
  have h: "holds (app_store a) db" and gen: "g + 1 < 2 ^ 64" using s m by (simp_all add: sees_def roomy_def)
  have pick: "stack_ok db (Pick \<lparr>pk_title = x, pk_options = o', pk_sel = 0, pk_action = Act_AddColPickType n t\<rparr> # r)" for x o' n
    using b t by (simp add: pick_ok_def rust_str_def)
  have width: "op_ready db (SetDisplayWidth n c w)" if "entered_width t = Some w" for n c w
  proof (rule ready_set_width[OF h])
    show "k < 65536" if "w = Some k" for k
      using \<open>entered_width t = Some w\<close> that by (auto simp: entered_width_def MAX_COL_W_def split: if_splits)
  qed
  have create: "op_ready db (CreateTable t)" and rename: "op_ready db (RenameColumn n c t)" for n c using t by simp_all
  show ?thesis unfolding resolve_prompt_def new_pick_def
    apply (cases act; simp only: action.case)
    apply ((rule running) | (rule runs_attempt[OF s create gen run_is(1)]) | (rule runs_attempt[OF s rename gen run_is(6)]) |
      (rule runs_attempt[OF s width gen run_is(11)], assumption) | (rule runs_say[OF s]) | (rule runs_push[OF s]) | (rule runs_say, assumption) |
      (rule runs_push, assumption) | (rule wellI, assumption, simp add: b, assumption) | (rule well_base, assumption, assumption, rule b) |
      (rule well_same, assumption, rule pick) | (rule well_same, assumption, rule base_stack[OF b]) | (rule well_same[OF s base_stack[OF b]]))+
    done
qed

lemma runs_resolve_pick:
  assumes s: "sees db g r a" and b: "base_ok r" and c: "\<And>name col. act = Act_AddColPickType name col \<Longrightarrow> rust_str col" and m: "roomy db g"
  shows "runs (resolve_pick hw mem_ops act choice) a (well db)"
proof -
  have h: "holds (app_store a) db" and gen: "g + 1 < 2 ^ 64" "sizes_ok db" using s m by (simp_all add: sees_def roomy_def)
  have add: "op_ready db (AddColumn name (added_column col choice))" if "act = Act_AddColPickType name col" for name col
    by (rule ready_add_column[OF h gen(2)]) (use c[OF that] in \<open>simp_all add: added_column_def\<close>)
  have pick: "stack_ok db (Pick \<lparr>pk_title = x, pk_options = o', pk_sel = 0, pk_action = q\<rparr> # r)" if "\<And>n c. q \<noteq> Act_AddColPickType n c" for x o' q
    using b that by (simp add: pick_ok_def)
  show ?thesis unfolding resolve_pick_def new_pick_def Let_def
    apply (cases act; simp only: action.case)
    apply ((rule running) | (rule runs_attempt[OF s add gen(1) run_is(3)], assumption) | (rule runs_attempt[OF s ready_add_fk[OF h gen(2)] gen(1) run_is(8)]) |
      (rule runs_attempt[OF s ready_drop_fk[OF h] gen(1) run_is(9)]) | (rule runs_ask[OF s answers_tables(1)]) | (rule runs_ask[OF s answers_tables(2)]) |
      (rule runs_say, assumption) | (rule runs_push, assumption) | (rule well_base, assumption, assumption, rule b) |
      (rule well_same, assumption, rule base_stack[OF b]) | (rule well_same, assumption, rule pick, simp) | (rule well_same[OF s base_stack[OF b]]))+
    done
qed

lemma runs_resolve_confirm:
  assumes s: "sees db g r a" and b: "base_ok r" and c: "confirm_ok db act" and m: "roomy db g"
  shows "runs (resolve_confirm hw mem_ops act) a (well db)"
proof -
  have h: "holds (app_store a) db" and gen: "g + 1 < 2 ^ 64" using s m by (simp_all add: sees_def roomy_def)
  have del: "op_ready db (operation.Delete name rid)" if "act = Act_DeleteRow name rid" for name rid
    by (rule ready_row(1)) (use c that in \<open>simp add: confirm_ok_def\<close>)
  have drop: "op_ready db (DropTable name)" for name by simp
  have off: "runs (modifyM (\<lambda>a. a\<lparr>switched_off := True\<rparr>)) a (well db)" using well_same[OF sees_update(4)[OF s] base_stack[OF b]] by simp
  have result: "stack_ok db (InstallResult x # st)" if "base_ok st" for x st using that by simp
  show ?thesis unfolding resolve_confirm_def Let_def
    apply (cases act; simp only: action.case)
    apply ((rule off) | (rule running) | (rule runs_attempt[OF s del gen run_is(14)], assumption) | (rule runs_attempt[OF s drop gen run_is(2)]) |
      (rule runs_attempt[OF s ready_drop_column[OF h] gen run_is(4)]) | (rule runs_say[OF s]) | (rule runs_say, assumption) |
      (rule runs_back, assumption, rule b) | (rule runs_push, assumption) | (rule well_base, assumption, assumption, assumption) |
      (rule well_base, assumption, assumption, rule b) | (rule well_same, assumption, rule result, assumption) |
      (rule well_same, assumption, rule base_stack[OF b]) | (rule well_same[OF s base_stack[OF b]]))+
    done
qed

lemma text_key_ok: "valid_text st \<Longrightarrow> ascii_key k \<Longrightarrow> \<exists>st'. text_key k st = Some st' \<and> valid_text st'"
proof (cases "edit_of k")
  case (Some e)
  assume v: "valid_text st" and k: "ascii_key k"
  have "utf8_char c" if "e = Ins c" for c using k Some that by (cases k) (auto simp: ascii_utf8_char)
  from text_step_edits[where e = e, OF v this] show ?thesis by (auto simp: text_key_edit Some simp del: valid_text.simps)
qed (simp add: text_key_edit)

lemma runs_text_key:
  assumes v: "valid_text st" "ascii_key k" and k: "\<And>t c. valid_text (t, c) \<Longrightarrow> Q (t, c) a"
  shows "runs (unwrapM (text_key k st)) a Q"
  using text_key_ok[OF v] k by auto

lemma runs_key_prompt:
  assumes s: "sees db g (Prompt p # r) a" and p: "prompt_ok p" and b: "base_ok r" and k: "ascii_key k" and m: "roomy db g"
    and l: "length (pr_buf p) < 2 ^ 64"
  shows "runs (key_prompt hw mem_ops p k) a (well db)"
proof -
  have v: "valid_text (pr_buf p, pr_caret p)" using p by (simp add: prompt_ok_def)
  then have t: "rust_str (pr_buf p)" using l by (simp add: rust_str_def)
  have typed: "stack_ok db (Prompt (p\<lparr>pr_buf := t, pr_caret := c\<rparr>) # r)" if "valid_text (t, c)" for t c
    using that b by (simp add: prompt_ok_def)
  have ne: "r \<noteq> []" using b by auto
  show ?thesis unfolding key_prompt_def
    apply (cases k; simp only: key.case)
    apply ((rule running(1,6)) | (rule runs_pop[OF s ne]) | (rule runs_text_key[OF v], (use k in simp)[1]) | (rule runs_put[OF s]) |
      (rule runs_resolve_prompt[OF _ b t m], assumption) | (rule well_same, assumption, rule typed, simp) | (rule well_same, assumption, rule base_stack[OF b]))+
    done
qed

lemma runs_key_pick:
  assumes s: "sees db g (Pick p # r) a" and p: "pick_ok p" and b: "base_ok r" and m: "roomy db g"
    and l: "\<And>name col. pk_action p = Act_AddColPickType name col \<Longrightarrow> length col < 2 ^ 64"
  shows "runs (key_pick hw mem_ops p k) a (well db)"
proof -
  have ne: "r \<noteq> []" using b by auto
  have same: "well db x a" for x by (rule well_same[OF s]) (use p b in simp)
  have moved: "runs (put_top (Pick (p\<lparr>pk_sel := i\<rparr>))) a (well db)" if "pk_options p = [] \<or> i < length (pk_options p)" for i
    by (rule runs_put[OF s], rule well_same, assumption) (use p b that in \<open>simp add: pick_ok_def\<close>)
  have stay: "runs (put_top (Pick p)) a (well db)" by (rule runs_put[OF s], rule well_same, assumption) (use p b in simp)
  have esc: "runs pop_screen a (well db)" by (rule runs_pop[OF s ne], rule well_same, assumption, rule base_stack[OF b])
  have chosen: "runs pop_screen a (\<lambda>x a'. runs (resolve_pick hw mem_ops (pk_action p) choice) a' (well db))" for choice
    by (rule runs_pop[OF s ne], rule runs_resolve_pick[OF _ b _ m], assumption) (use p l in \<open>auto simp: pick_ok_def rust_str_def\<close>)
  have sel: "pk_options p \<noteq> [] \<Longrightarrow> get_at (pk_options p) (pk_sel p) \<noteq> None" using p by (auto simp: pick_ok_def get_at_def)
  show ?thesis
  proof (cases k)
    case Up
    have "pk_options p = [] \<or> pk_sel p - 1 < length (pk_options p)" using p by (auto simp: pick_ok_def)
    then show ?thesis using stay moved by (simp add: key_pick_def Let_def Up)
  qed (use sel in \<open>auto simp: key_pick_def Let_def same stay moved esc chosen\<close>)
qed

lemma runs_key_confirm:
  assumes s: "sees db g (Confirm t act # r) a" and c: "confirm_ok db act" and b: "base_ok r" and m: "roomy db g"
  shows "runs (key_confirm hw mem_ops act k) a (well db)"
proof -
  have ne: "r \<noteq> []" using b by auto
  have same: "well db x a" for x by (rule well_same[OF s]) (use c b in simp)
  have esc: "runs pop_screen a (well db)" by (rule runs_pop[OF s ne], rule well_same, assumption, rule base_stack[OF b])
  have yes: "runs pop_screen a (\<lambda>x a'. runs (resolve_confirm hw mem_ops act) a' (well db))"
    by (rule runs_pop[OF s ne], rule runs_resolve_confirm[OF _ b c m])
  show ?thesis unfolding key_confirm_def by (cases k) (simp_all add: same esc yes)
qed

end
