(* ===== verification/Ui_Edit.thy ===== *)
theory Ui_Edit
  imports Ui_Safe
begin

text \<open>
  The row editor, its value builder and its picker over a volume that holds a database: what is committed is well formed, and every key
  keeps the fields valid.
\<close>

section \<open>Values from fields\<close>

lemma display_utf8: "wf_value v \<Longrightarrow> type_of v \<noteq> TString \<Longrightarrow> utf8_ok (map of_char (display v))"
  using ascii_display[of v] utf8_ascii[of "display v"] by (simp add: ascii_def)

lemma parsed_cell:
  assumes p: "parse_value kty s = Inr v" and s: "utf8_ok (map of_char s)"
  shows "wf_value v" "type_of v = kty" "utf8_ok (map of_char (display v))"
proof -
  show v: "wf_value v" "type_of v = kty" using parse_value_wf[OF p] by simp_all
  show "utf8_ok (map of_char (display v))"
  proof (cases "kty = TString")
    case True
    then show ?thesis using p s by auto
  qed (use display_utf8 v in simp)
qed

definition field_short :: "field \<Rightarrow> bool" where
  "field_short f \<longleftrightarrow> length (fld_value f) < 2 ^ 60"

lemma editor_cells_ok:
  assumes "length fs = length cs" "list_all field_ok fs" "list_all field_short fs"
  shows "(\<exists>e. editor_cells msc i cs fs = Some (Inl e)) \<or>
    (\<exists>row. editor_cells msc i cs fs = Some (Inr row) \<and> length row = length cs \<and> (\<forall>c \<in> set row. wf_cell c))"
  using assms
proof (induction cs arbitrary: i fs)
  case (Cons c cs)
  then obtain f fs' where f: "fs = f # fs'" "field_ok f" "field_short f" and rest: "length fs' = length cs" "list_all field_ok fs'" "list_all field_short fs'"
    by (cases fs) auto
  have cell: "wf_cell (Some v)" if "parse_value (ty c) (fld_value f) = Inr v" for v
  proof -
    have u: "utf8_ok (map of_char (fld_value f))" using f(2) by (simp add: field_ok_def)
    have "length (display v) < 2 ^ 64" using value_length[OF that] f(3) by (simp add: field_short_def)
    then show ?thesis using parsed_cell[OF that u] by (simp add: rust_str_def)
  qed
  from Cons.IH[OF rest, of "Suc i"] show ?case
    using cell by (auto simp: f(1) split: sum.split store_error.split)
qed simp

section \<open>Committing a row\<close>

lemma ready_commit:
  assumes e: "editor_ok db ed" and z: "sizes_ok db" and r: "length row = length (ed_cols ed)" "\<forall>c \<in> set row. wf_cell c"
  shows "wf_row row" "ed_id ed = Some rid \<Longrightarrow> op_ready db (Update (ed_table ed) rid row)" "op_ready db (Insert (ed_table ed) row)"
proof -
  from e obtain i where i: "find_table db (ed_table ed) = Inr i" "ed_cols ed = cols (db ! i)" by (auto simp: editor_ok_def)
  show w: "wf_row row" using r sizes_okD(1)[OF z i(1)] i(2) by (simp add: wf_row_def)
  then show "op_ready db (Insert (ed_table ed) row)" by simp
  show "op_ready db (Update (ed_table ed) rid row)" if "ed_id ed = Some rid"
    by (rule ready_row(2)[OF _ w]) (use e that in \<open>simp add: editor_ok_def\<close>)
qed

lemma runs_commit_editor:
  assumes s: "sees db g (Editor ed # r) a" and e: "editor_ok db ed" and b: "base_ok r" and m: "roomy db g" and l: "list_all field_short (ed_fields ed)"
  shows "runs (commit_editor hw mem_ops ed) a (well db)"
proof -
  have gen: "g + 1 < 2 ^ 64" "sizes_ok db" using m by (simp_all add: roomy_def)
  have ne: "r \<noteq> []" using b by auto
  have keep: "stack_ok db (Editor (ed\<lparr>ed_error := x\<rparr>) # r)" for x using e b by (simp add: editor_ok_def)
  let ?cells = "editor_cells (hw_msc_error hw) 0 (ed_cols ed) (ed_fields ed)"
  have cells: "(\<exists>x. ?cells = Some (Inl x)) \<or> (\<exists>row. ?cells = Some (Inr row) \<and> length row = length (ed_cols ed) \<and> (\<forall>c \<in> set row. wf_cell c))"
    by (rule editor_cells_ok) (use e l in \<open>simp_all add: editor_ok_def\<close>)
  have saved: "runs (ask (case ed_id ed of Some rid \<Rightarrow> update_row mem_ops (ed_table ed) rid row
      | None \<Rightarrow> bindM (insert_row mem_ops (ed_table ed) row) (\<lambda>_. returnM ()))) a' Q"
    if row: "length row = length (ed_cols ed)" "\<forall>c \<in> set row. wf_cell c" and a': "sees db g (TableList 0 # r) a'"
      and k: "\<And>x db' g' a''. sees db' g' (TableList 0 # r) a'' \<Longrightarrow> at_most_a_step db db' \<Longrightarrow> Q (Inr x) a''"
        "\<And>err a''. sees db g (TableList 0 # r) a'' \<Longrightarrow> Q (Inl err) a''" for row a' Q
  proof (cases "ed_id ed")
    case None
    then show ?thesis using runs_asked_op[OF a' ready_commit(3)[OF e gen(2) row] gen(1) run_is(12)] k by simp
  next
    case (Some rid)
    then show ?thesis using runs_asked_op[OF a' ready_commit(2)[OF e gen(2) row Some] gen(1) run_is(13)] k by simp
  qed
  from cells show ?thesis
  proof (elim disjE exE conjE)
    fix x assume x: "?cells = Some (Inl x)"
    show ?thesis unfolding commit_editor_def runs_bind
      by (rule runs_put[OF s]) (auto simp: x Let_def intro!: runs_put well_same[OF _ keep])
  next
    fix row assume row: "?cells = Some (Inr row)" "length row = length (ed_cols ed)" "\<forall>c \<in> set row. wf_cell c"
    have id: "ed_id (ed\<lparr>ed_error := None\<rparr>) = ed_id ed" "ed_table (ed\<lparr>ed_error := None\<rparr>) = ed_table ed" by simp_all
    show ?thesis unfolding commit_editor_def runs_bind
      apply (rule runs_put[OF s])
      apply (simp only: row(1) runs_basic option.inject ex_simps simp_thms Let_def sum.case id runs_bind)
      apply (rule saved[OF row(2,3)], assumption)
       apply (simp only: sum.case runs_bind)
       apply (rule runs_say, assumption, rule runs_put, assumption, rule runs_pop, assumption, rule ne, rule well_base, assumption, assumption, rule b)
      apply (simp only: sum.case runs_bind)
      apply (rule runs_ask[OF _ answers_tables(2)], assumption)
      apply (rule runs_put, assumption, rule well_same, assumption)
      apply (use keep in simp)
      done
  qed
qed

section \<open>Opening the value builder and the picker\<close>

lemma text_good: "utf8_ok (map of_char s) \<Longrightarrow> good_buf Text s"
  by (simp add: good_buf_def is_sign_def is_text_def)

lemma seeded_ok:
  assumes "field_ok f"
  shows "same_form (fb_new i (col_name c) (ty c)) (seeded_builder i c f)"
proof -
  have new: "same_form (fb_new i (col_name c) (ty c)) (fb_new i (col_name c) (ty c))" by (rule same_form_refl[OF fb_new_ok])
  have "same_form (fb_new i (col_name c) (ty c)) (load_from v (fb_new i (col_name c) (ty c)))"
    if p: "parse_value (ty c) (fld_value f) = Inr v" for v
  proof (cases "ty c = TString")
    case True
    then have "v = VStr (fld_value f)" using p by simp
    then show ?thesis using same_form_set[OF new text_good[of "fld_value f"]] assms by (simp add: field_ok_def)
  next
    case False
    then show ?thesis using load_from_ok[OF _ _ new] parse_value_wf[OF p] by simp
  qed
  then show ?thesis using new by (simp add: seeded_builder_def Let_def split: sum.split)
qed

lemma load_focus: "fb_focus (load_from v b) = fb_focus b"
  by (cases v) (simp_all add: set_date_def set_time_def set_off_def set_number_def fb_set_def Let_def split: prod.split)

lemma offer_ok: "same_form b b' \<Longrightarrow> next_ok (fb_ty b) n \<Longrightarrow> fb_focus b' = 0 \<Longrightarrow> same_form b (b'\<lparr>fb_next := n\<rparr>)"
  by (simp add: same_form_def fb_ok_def fb_total_def)

lemma max_value_in: "max_value vs = Some v \<Longrightarrow> v \<in> set vs"
proof -
  have "foldl (\<lambda>m x. if cmp_value m x = Greater then m else x) u us \<in> insert u (set us)" for u us
    by (induction us arbitrary: u) auto
  then show "max_value vs = Some v \<Longrightarrow> v \<in> set vs" by (auto simp: max_value_def split: list.splits)
qed

lemma next_key_value:
  assumes vs: "\<forall>v \<in> set vs. wf_value v \<and> type_of v = kty" and t: "kty = TInteger \<or> kty = TUnsignedInteger"
  shows "\<exists>v. wf_value v \<and> type_of v = kty \<and> next_key vs = display v"
proof (cases "max_value vs")
  case None
  have one: "''1'' = display (VUnsigned (BigUint [1]))" "''1'' = display (VInteger (BigInt False (BigUint [1])))"
    by code_simp+
  have "wf_value (VUnsigned (BigUint [1]))" "wf_value (VInteger (BigInt False (BigUint [1])))"
    by (simp_all add: canon_digits_def canon_int_def is_zero_uint_def)
  then show ?thesis using t one None by (fastforce simp: next_key_def)
next
  case (Some v)
  then have v: "wf_value v" "type_of v = kty" using vs max_value_in by blast+
  show ?thesis
  proof (cases v)
    case (VInteger i)
    then show ?thesis using v succ_int_correct(1)[of i] by (intro exI[of _ "VInteger (succ_int i)"]) (simp add: next_key_def Some)
  next
    case (VUnsigned u)
    then show ?thesis using v succ_uint_correct(1)[of u] by (intro exI[of _ "VUnsigned (succ_uint u)"]) (simp add: next_key_def Some)
  qed (use v t in auto)
qed

lemma typed_cells:
  assumes h: "holds s db" and n: "find_table db name = Inr i" and ci: "ci < length (cols (db ! i))"
    and a: "a \<in> set (rel_rows (db ! i))" "cell_at (snd a) ci = Some v"
  shows "wf_value v \<and> type_of v = ty (cols (db ! i) ! ci)"
proof -
  have c: "consistent db" using h by (simp add: holds_def)
  have i: "i < length db" using find_table_bound[OF n] by simp
  have f: "row_fits (cols (db ! i)) (snd a)" by (rule consistentD(2)[OF c i a(1)])
  then have "check_cell (cols (db ! i) ! ci) (snd a ! ci) = Inr ()" "snd a ! ci = Some v" "Some v \<in> set (snd a)"
    using ci a(2) by (auto simp: row_fits_def cell_at_def in_set_conv_nth split: if_splits)
  then show ?thesis using holds_utf8(1)[OF h n, of "fst a" "snd a" v] a(1) by (auto simp: check_cell_def split: if_splits)
qed

lemma next_unique_ok:
  assumes h: "holds s db" and n: "find_table db name = Inr i" and ci: "ci < length (cols (db ! i))"
  shows "next_ok (ty (cols (db ! i) ! ci)) (next_unique db name ci (ty (cols (db ! i) ! ci)))"
proof (cases "ty (cols (db ! i) ! ci) = TInteger \<or> ty (cols (db ! i) ! ci) = TUnsignedInteger")
  case True
  let ?vs = "List.map_filter (\<lambda>ir. cell_at (snd ir) ci) (rel_rows (db ! i))"
  have "\<forall>v \<in> set ?vs. wf_value v \<and> type_of v = ty (cols (db ! i) ! ci)"
    using typed_cells[OF h n ci] by (auto simp: List.map_filter_def)
  from next_key_value[OF this True] show ?thesis
    using True by (auto simp: next_ok_def next_unique_def rows_of_def n bindR_def)
qed (simp add: next_ok_def next_unique_def)

lemma builder_opened:
  assumes h: "holds s db" and e: "editor_ok db ed" and i: "i < length (ed_cols ed)"
    and n: "n = None \<or> n = next_unique db (ed_table ed) i (ty (ed_cols ed ! i))"
  shows "builder_ok ed ((seeded_builder i (ed_cols ed ! i) (ed_fields ed ! i))\<lparr>fb_next := n\<rparr>)"
proof -
  let ?c = "ed_cols ed ! i" and ?f = "ed_fields ed ! i"
  let ?b = "fb_new i (col_name ?c) (ty ?c)"
  from e obtain j where j: "find_table db (ed_table ed) = Inr j" "ed_cols ed = cols (db ! j)" by (auto simp: editor_ok_def)
  have "field_ok ?f" using e i by (simp add: editor_ok_def list_all_length)
  then have sd: "same_form ?b (seeded_builder i ?c ?f)" by (rule seeded_ok)
  have nk: "next_ok (ty ?c) n" using n next_unique_ok[OF h j(1), of i] i j(2) by (auto simp: next_ok_def[of _ None])
  have "fb_focus (seeded_builder i ?c ?f) = 0" by (simp add: seeded_builder_def Let_def load_focus fb_new_def split: sum.split)
  from offer_ok[OF sd _ this, of n] nk have "same_form ?b ((seeded_builder i ?c ?f)\<lparr>fb_next := n\<rparr>)" by (simp add: fb_new_def)
  then show ?thesis using i by (simp add: builder_ok_def same_form_def fb_new_def)
qed

lemma runs_open_fk_picker:
  assumes s: "sees db g (Editor ed # r) a" and e: "editor_ok db ed" and b: "base_ok r" and i: "i < length (ed_cols ed)"
  shows "runs (open_fk_picker hw mem_ops i from target col) a (well db)"
proof -
  have same: "stack_ok db (Editor ed # r)" using e b by simp
  have live: "live_row db target (fst ir)" if "rows_of db target = Inr rows" "ir \<in> set rows" for rows ir
  proof -
    from that(1) obtain j where j: "find_table db target = Inr j" "rows = rel_rows (db ! j)" by (auto simp: rows_of_def bindR_def split: sum.splits)
    then have "row_at db j (fst ir) = Some (snd ir)" using row_at_rows[OF sees_consistent[OF s] j(1)] that(2) by simp
    then show ?thesis using j(1) find_table_bound[OF j(1)] by (auto simp: live_row_def)
  qed
  show ?thesis unfolding open_fk_picker_def runs_bind
    apply (rule runs_ask[OF s answers_scan])
    apply (rule running(5), rule runs_report, assumption, rule well_same, assumption, rule same)
    apply (rule running(1), rule runs_ask[OF _ answers_tables(2)], assumption)
    apply (rule running(5), rule runs_report, assumption, rule well_same, assumption, rule same)
    apply (rule running(3), rule runs_say, assumption, rule well_same, assumption, rule same)
    apply (rule runs_push, assumption, rule well_same, assumption)
    apply (use e b i live in \<open>auto simp: picker_ok_def\<close>)
    done
qed

lemma runs_open_builder:
  assumes s: "sees db g (Editor ed # r) a" and e: "editor_ok db ed" and b: "base_ok r" and i: "i < length (ed_cols ed)"
  shows "runs (open_builder hw mem_ops ed i) a (well db)"
proof -
  have h: "holds (app_store a) db" using s by (simp add: sees_def)
  have at: "get_at (ed_cols ed) i = Some (ed_cols ed ! i)" "get_at (ed_fields ed) i = Some (ed_fields ed ! i)"
    using i e by (simp_all add: get_at_def editor_ok_def)
  have opened: "stack_ok db (Builder ((seeded_builder i (ed_cols ed ! i) (ed_fields ed ! i))\<lparr>fb_next := n\<rparr>) # Editor ed # r)"
    if "n = None \<or> n = next_unique db (ed_table ed) i (ty (ed_cols ed ! i))" for n using builder_opened[OF h e i that] e b by simp
  have push: "runs (push_screen (Builder ((seeded_builder i (ed_cols ed ! i) (ed_fields ed ! i))\<lparr>fb_next := or_default None n\<rparr>))) a' (well db)"
    if "sees db g (Editor ed # r) a'" "n = Inr None \<or> n = Inr (next_unique db (ed_table ed) i (ty (ed_cols ed ! i)))" for n a'
    by (rule runs_push[OF that(1)], rule well_same, assumption, rule opened) (use that(2) in auto)
  show ?thesis unfolding open_builder_def runs_bind runs_basic at option.inject ex_simps simp_thms
    apply (rule runs_ask[OF s answers_tables(2)])
    apply (rule running(4))
     apply (simp only: runs_bind runs_basic option.inject at ex_simps simp_thms)
     apply (rule running(3), rule runs_ask[OF _ answers_next], assumption, rule push, assumption, simp)
     apply (rule running(2), rule push, assumption, simp)
    apply (rule runs_open_fk_picker[OF _ e b i], assumption)
    done
qed

section \<open>Keys of the row editor\<close>

lemma put_field_ok:
  assumes e: "editor_ok db ed" and f: "field_ok f"
  shows "editor_ok db (ed\<lparr>ed_fields := (ed_fields ed)[i := f]\<rparr>)"
  using e f by (auto simp: editor_ok_def list_all_iff dest!: set_update_subset_insert[THEN subsetD])

lemma runs_edit_focused:
  assumes s: "sees db g (Editor ed # r) a" and e: "editor_ok db ed" and b: "base_ok r"
    and g: "\<And>st. valid_text st \<Longrightarrow> \<exists>st'. edit st = Some st' \<and> valid_text st'"
  shows "runs (edit_focused reset edit ed) a (well db)"
proof (cases "on_field ed")
  case False
  then show ?thesis using well_same[OF s] e b by (simp add: edit_focused_def)
next
  case True
  let ?i = "ed_focus ed" and ?f = "ed_fields ed ! ed_focus ed"
  have i: "?i < length (ed_fields ed)" using True e by (simp add: on_field_def editor_ok_def)
  then have f: "valid_text (fld_value ?f, fld_caret ?f)" using e by (simp add: editor_ok_def list_all_length field_ok_def)
  let ?f1 = "if reset then ?f\<lparr>fld_null := False\<rparr> else ?f"
  have "fld_value ?f1 = fld_value ?f" "fld_caret ?f1 = fld_caret ?f" by simp_all
  with g[OF f] obtain t c where tc: "edit (fld_value ?f1, fld_caret ?f1) = Some (t, c)" "valid_text (t, c)" by (metis surj_pair)
  let ?f' = "?f1\<lparr>fld_value := t, fld_caret := c\<rparr>"
  have put: "runs (put_top (Editor (ed\<lparr>ed_fields := (ed_fields ed)[?i := ?f']\<rparr>))) a (well db)"
    by (rule runs_put[OF s], rule well_same, assumption) (use put_field_ok[OF e, of ?f' ?i] tc(2) b in \<open>simp add: field_ok_def\<close>)
  have "edit_field edit ?f1 = Some ?f'" by (simp add: edit_field_def tc(1))
  then show ?thesis using True i put by (simp add: edit_focused_def get_at_def)
qed

lemma runs_toggle_null:
  assumes s: "sees db g (Editor ed # r) a" and e: "editor_ok db ed" and b: "base_ok r"
  shows "runs (toggle_null ed) a (well db)"
proof (cases "on_field ed \<and> nullable (ed_cols ed ! ed_focus ed)")
  case False
  then show ?thesis using well_same[OF s] e b by (auto simp: toggle_null_def)
next
  case True
  have i: "ed_focus ed < length (ed_fields ed)" using True e by (simp add: on_field_def editor_ok_def)
  then have "field_ok ((ed_fields ed ! ed_focus ed)\<lparr>fld_null := n\<rparr>)" for n using e by (simp add: editor_ok_def list_all_length field_ok_def)
  then have "runs (put_top (Editor (ed\<lparr>ed_fields := (ed_fields ed)[ed_focus ed := (ed_fields ed ! ed_focus ed)\<lparr>fld_null := n\<rparr>]\<rparr>))) a (well db)" for n
    by (intro runs_put[OF s] well_same) (assumption, use put_field_ok[OF e] b in simp)
  then show ?thesis using True i by (simp add: toggle_null_def get_at_def)
qed

lemma runs_key_editor:
  assumes s: "sees db g (Editor ed # r) a" and e: "editor_ok db ed" and b: "base_ok r" and k: "ascii_key k" and m: "roomy db g"
    and l: "list_all field_short (ed_fields ed)"
  shows "runs (key_editor hw mem_ops ed k) a (well db)"
proof -
  have ne: "r \<noteq> []" using b by auto
  have esc: "runs pop_screen a (well db)" by (rule runs_pop[OF s ne], rule well_same, assumption, rule base_stack[OF b])
  have same: "well db x a" for x by (rule well_same[OF s]) (use e b in simp)
  have focus: "runs (put_top (Editor (ed\<lparr>ed_focus := i mod (length (ed_cols ed) + 2)\<rparr>))) a (well db)" for i
    by (rule runs_put[OF s], rule well_same, assumption)
      (use e b mod_less_divisor[of "length (ed_cols ed) + 2" i] in \<open>auto simp: editor_ok_def less_Suc_eq_le simp del: mod_less_divisor\<close>)
  have typing: "\<exists>st'. text_key k st = Some st' \<and> valid_text st'" if "valid_text st" for st by (rule text_key_ok[OF that k])
  have move: "(\<exists>st'. (Some \<circ> ce_left) st = Some st' \<and> valid_text st') \<and> (\<exists>st'. (Some \<circ> ce_right) st = Some st' \<and> valid_text st')"
    if "valid_text st" for st using text_key_ok[OF that, of key.Left] text_key_ok[OF that, of key.Right] by simp
  have jump: "(\<exists>st'. (\<lambda>(s, _). Some (s, 0)) st = Some st' \<and> valid_text st') \<and> (\<exists>st'. (\<lambda>(s, _). Some (s, char_count s)) st = Some st' \<and> valid_text st')"
    if "valid_text st" for st using that by (cases st) auto
  note edit = runs_edit_focused[OF s e b]
  have build: "runs (open_builder hw mem_ops ed (ed_focus ed)) a (well db)" if "on_field ed"
    by (rule runs_open_builder[OF s e b]) (use that in \<open>simp add: on_field_def\<close>)
  show ?thesis unfolding key_editor_def Let_def
  proof (cases k; simp only: key.case)
    case Up
    show "runs (put_top (Editor (ed\<lparr>ed_focus := (ed_focus ed + length (ed_cols ed) + 1) mod (length (ed_cols ed) + 2)\<rparr>))) a (well db)"
      by (rule focus)
  next
    case Enter
    show "runs (if ed_focus ed = length (ed_cols ed) + 1 then pop_screen else commit_editor hw mem_ops ed) a (well db)"
      using esc runs_commit_editor[OF s e b m l] by simp
  next
    case (Char c)
    show "runs (edit_focused True (ce_insert [c]) ed) a (well db)" by (rule edit) (use typing Char in simp)
  next
    case Backspace
    show "runs (edit_focused True ce_backspace ed) a (well db)" by (rule edit) (use typing Backspace in simp)
  next
    case Left
    show "runs (edit_focused False (Some \<circ> ce_left) ed) a (well db)" by (rule edit) (use move in blast)
  next
    case Right
    show "runs (edit_focused False (Some \<circ> ce_right) ed) a (well db)" by (rule edit) (use move in blast)
  qed (use esc same focus build runs_toggle_null[OF s e b] edit move jump in \<open>auto simp: comp_def\<close>)
qed

section \<open>Keys of the value builder\<close>

lemma compose_utf8:
  assumes "fb_ok b" "fb_ty b = TString"
  shows "utf8_ok (map of_char (compose b))"
proof -
  have "\<forall>f\<in>set (fb_parts b). utf8_ok (map of_char (part_buf f))"
    using assms(1) by (simp add: fb_ok_def list_all_iff part_ok_def good_buf_def)
  then have "utf8_ok (map of_char (buf_of b i))" for i
    by (auto simp: buf_of_def fb_get_def find_Some_iff split: option.split)
  then show ?thesis using assms(2) by (simp add: compose_def)
qed

lemma runs_accept_builder:
  assumes s: "sees db g (Builder b # Editor ed # r) a" and w: "builder_ok ed b" "editor_ok db ed" "base_ok r"
  shows "runs (accept_builder hw b) a (well db)"
proof (cases "parse_value (fb_ty b) (compose b)")
  case (Inl err)
  have "builder_ok ed (b\<lparr>fb_error := x\<rparr>)" for x
    using same_form_error[OF same_form_refl, of b x] w(1) by (auto simp: builder_ok_def same_form_def)
  then show ?thesis unfolding accept_builder_def runs_bind commit_builder_def Inl sum.case builder_outcome.case
    by (intro runs_put[OF s] runs_put well_same) (assumption, assumption, use w in simp)
next
  case (Inr v)
  have v: "wf_value v" "type_of v = fb_ty b" using parse_value_wf[OF Inr] by simp_all
  have u: "utf8_ok (map of_char (display v))"
  proof (cases "fb_ty b = TString")
    case True
    then show ?thesis using Inr compose_utf8[of b] w(1) by (auto simp: builder_ok_def)
  qed (use display_utf8 v in simp)
  obtain ed' where ed': "fill_field (fb_field b) (display v) ed = Some ed'" "editor_ok db ed'" "ed_cols ed' = ed_cols ed"
    using fill_field_ok[OF w(2) u] w(1) by (auto simp: builder_ok_def)
  have top: "runs top_screen a' Q" if "sees db g (Editor ed # r) a'" "Q (Editor ed) a'" for a' Q
    using that by (simp add: top_screen_def sees_def)
  show ?thesis unfolding accept_builder_def runs_bind commit_builder_def Inr sum.case builder_outcome.case
    apply (rule runs_put[OF s])
    apply (rule runs_pop, assumption, simp)
    apply (rule top, assumption)
    apply (rule runs_put, assumption, rule runs_say, assumption, rule well_same, assumption)
    apply (use ed' w(3) in \<open>simp add: fill_editor_def\<close>)
    done
qed

lemma runs_key_builder:
  assumes s: "sees db g (Builder b # Editor ed # r) a" and w: "builder_ok ed b" "editor_ok db ed" "base_ok r" and k: "ascii_key k"
    and c: "\<forall>t. hw_clock hw = Some t \<longrightarrow> civil t"
  shows "runs (key_value_builder hw b k) a (well db)"
proof -
  have b: "fb_ok b" using w(1) by (simp add: builder_ok_def)
  obtain b' want where key: "key_builder k b = Some (b', want)" "same_form b b'" using key_builder_ok[OF b k] by blast
  have form: "builder_ok ed b''" if "same_form b b''" for b'' using that w(1) by (auto simp: builder_ok_def same_form_def)
  have b': "fb_ok b'" using key(2) by (simp add: same_form_def)
  have trans: "same_form b b''" if "same_form b' b''" for b'' using that key(2) by (simp add: same_form_def)
  have still: "stack_ok db (Builder b'' # Editor ed # r)" if "same_form b b''" for b'' using form[OF that] w by simp
  have now: "same_form b (fst (fill_now (hw_clock hw) b'))" by (rule trans, rule fill_now_ok[OF b']) (use c in blast)
  have nxt: "same_form b (fst (fill_next b'))" by (rule trans, rule fill_next_ok[OF b'])
  show ?thesis unfolding key_value_builder_def runs_bind key(1) runs_basic option.inject ex_simps simp_thms prod.case
  proof (rule runs_put[OF s])
    fix a' assume a': "sees db g (Builder b' # Editor ed # r) a'"
    show "runs (case want of No_want \<Rightarrow> returnM () | Want_cancel \<Rightarrow> pop_screen
      | Want_now \<Rightarrow> (case fill_now (hw_clock hw) b' of (b'', filled) \<Rightarrow>
          if filled then bindM (put_top (Builder (b''\<lparr>fb_error := None\<rparr>))) (\<lambda>_. say ''filled current date/time'')
          else say (''RTC unavailable '' @ MINUS @ '' enter the value manually''))
      | Want_next \<Rightarrow> (case fill_next b' of (b'', filled) \<Rightarrow>
          if filled then bindM (put_top (Builder (b''\<lparr>fb_error := None\<rparr>))) (\<lambda>_. say ''filled next unique value (max+1)'')
          else returnM ())
      | Want_commit \<Rightarrow> accept_builder hw b') a' (well db)"
    proof (cases want; simp only: want.case)
      case No_want
      show "runs (returnM ()) a' (well db)" using well_same[OF a' still[OF key(2)]] by simp
    next
      case Want_cancel
      show "runs pop_screen a' (well db)" by (rule runs_pop[OF a'], simp, rule well_same, assumption) (use w in simp)
    next
      case Want_commit
      show "runs (accept_builder hw b') a' (well db)" by (rule runs_accept_builder[OF a' form[OF key(2)] w(2,3)])
    next
      case Want_now
      obtain b'' filled where f: "fill_now (hw_clock hw) b' = (b'', filled)" by (cases "fill_now (hw_clock hw) b'")
      have "same_form b (b''\<lparr>fb_error := None\<rparr>)" using same_form_error now by (simp add: f)
      then show "runs (case fill_now (hw_clock hw) b' of (b'', filled) \<Rightarrow>
          if filled then bindM (put_top (Builder (b''\<lparr>fb_error := None\<rparr>))) (\<lambda>_. say ''filled current date/time'')
          else say (''RTC unavailable '' @ MINUS @ '' enter the value manually'')) a' (well db)"
        unfolding f prod.case
        by (intro running(1,3) runs_put[OF a'] runs_say[OF a']) (rule runs_say, assumption, rule well_same, assumption, erule still, rule well_same, assumption, rule still[OF key(2)])
    next
      case Want_next
      obtain b'' filled where f: "fill_next b' = (b'', filled)" by (cases "fill_next b'")
      have "same_form b (b''\<lparr>fb_error := None\<rparr>)" using same_form_error nxt by (simp add: f)
      then show "runs (case fill_next b' of (b'', filled) \<Rightarrow>
          if filled then bindM (put_top (Builder (b''\<lparr>fb_error := None\<rparr>))) (\<lambda>_. say ''filled next unique value (max+1)'')
          else returnM ()) a' (well db)"
        unfolding f prod.case
        by (intro running(1,2,3) runs_put[OF a']) (rule runs_say, assumption, rule well_same, assumption, erule still, rule well_same[OF a' still[OF key(2)]])
    qed
  qed
qed

end
