(* ===== verification/Row_Links.thy ===== *)
theory Row_Links
  imports View_Answers
begin

text \<open>
  The links of the row view on a consistent database: each leads to rows of the table it names, an outgoing one to exactly the row that
  its foreign key refers to, and every row that refers to the one on display is reached.
\<close>

definition cell_in :: "table \<Rightarrow> string \<Rightarrow> row \<Rightarrow> val option" where
  "cell_in t col r = Option.bind (column_index t col) (cell_at r)"

lemma table_of_nth: "consistent db \<Longrightarrow> j < length db \<Longrightarrow> find_table db (rel_name (db ! j)) = Inr j"
  by (simp add: find_table_distinct consistent_def)

lemma browse_filter:
  assumes "find_table db tbl = Inr j" "column_index (rel_schema (db ! j)) col = Some ci"
  shows "browse db tbl (Some (col, v)) None = filter (\<lambda>(_, r). cell_at r ci = Some v) (rel_rows (db ! j))"
  by (simp add: browse_def rows_of_def table_of_def bindR_def assms sorted_rows_def filtered_rows_def)

lemma filter_single: "distinct xs \<Longrightarrow> b \<in> set xs \<Longrightarrow> filter (\<lambda>a. a = b) xs = [b]"
  by (induction xs) (auto simp: filter_empty_conv)

lemma find_named: "distinct (map f xs) \<Longrightarrow> x \<in> set xs \<Longrightarrow> find (\<lambda>y. f y = f x) xs = Some x"
  by (induction xs) (auto simp: image_iff)

lemma unique_hit:
  assumes c: "consistent db" and j: "j < length db" and tc: "tc < length (cols (db ! j))" "unique (cols (db ! j) ! tc)"
    and b: "b \<in> set (rel_rows (db ! j))" "cell_at (snd b) tc = Some v"
  shows "filter (\<lambda>(_, r). cell_at r tc = Some v) (rel_rows (db ! j)) = [b]"
proof -
  have same: "a = b" if a: "a \<in> set (rel_rows (db ! j))" "cell_at (snd a) tc = Some v" for a
  proof -
    have "fst a = fst b" using consistentD(3)[OF c j, unfolded unique_rows_def, rule_format, OF tc a(1) b(1)] a(2) b(2) by auto
    then show ?thesis using consistentD(1)[OF c j] a(1) b(1) by (intro inj_onD[of fst "set (rel_rows (db ! j))"]) (simp_all add: distinct_map)
  qed
  have "filter (\<lambda>(_, r). cell_at r tc = Some v) (rel_rows (db ! j)) = filter (\<lambda>a. a = b) (rel_rows (db ! j))"
  proof (rule filter_cong[OF refl])
    fix a assume "a \<in> set (rel_rows (db ! j))"
    then show "(case a of (_, r) \<Rightarrow> cell_at r tc = Some v) \<longleftrightarrow> a = b" using same[of a] b(2) by (cases a) auto
  qed
  also have "\<dots> = [b]" by (rule filter_single[OF _ b(1)]) (use consistentD(1)[OF c j] in \<open>simp add: distinct_map\<close>)
  finally show ?thesis .
qed

lemma outgoing_lead:
  assumes c: "consistent db" and i: "i < length db" and fk: "fk \<in> set (fks (rel_schema (db ! i)))"
    and r: "(rid, r) \<in> set (rel_rows (db ! i))" and v: "cell_in (rel_schema (db ! i)) (from_col fk) r = Some v"
  shows "\<exists>label. (label, to_table fk, to_col fk, v) \<in> set (out_link db i r fk)" "\<exists>p. browse db (to_table fk) (Some (to_col fk, v)) None = [p]"
proof -
  show "\<exists>label. (label, to_table fk, to_col fk, v) \<in> set (out_link db i r fk)" using v by (simp add: out_link_def cell_in_def Let_def)
  from consistentD(4)[OF c i fk] obtain fi j tc where t: "column_index (rel_schema (db ! i)) (from_col fk) = Some fi"
    "fk_target db fk = Some (j, tc)" "unique (cols (db ! j) ! tc)" and held: "\<And>a v. a \<in> set (rel_rows (db ! i)) \<Longrightarrow>
      cell_at (snd a) fi = Some v \<Longrightarrow> \<exists>b \<in> set (rel_rows (db ! j)). cell_at (snd b) tc = Some v" by (rule fk_heldE) blast
  have n: "find_table db (to_table fk) = Inr j" "column_index (rel_schema (db ! j)) (to_col fk) = Some tc"
    using t(2) by (simp_all add: fk_target_Some)
  from held[OF r, of v] v t(1) obtain b where "b \<in> set (rel_rows (db ! j))" "cell_at (snd b) tc = Some v" by (auto simp: cell_in_def)
  from unique_hit[OF c _ column_index_bound[OF n(2)] t(3) this] show "\<exists>p. browse db (to_table fk) (Some (to_col fk, v)) None = [p]"
    using find_table_bound[OF n(1)] by (simp add: browse_filter[OF n])
qed

lemma out_link_shape: "l \<in> set (out_link db i r fk) \<Longrightarrow> \<exists>v. snd l = (to_table fk, to_col fk, v) \<and> cell_in (rel_schema (db ! i)) (from_col fk) r = Some v"
  by (auto simp: out_link_def cell_in_def Let_def split: option.splits)

lemma referring_iff:
  assumes "j < length db"
  shows "ref \<in> set (referring db i r j fk) \<longleftrightarrow> (\<exists>q orow v. ref = (rel_name (db ! j), fk_name fk, q, orow) \<and> to_table fk = rel_name (db ! i) \<and>
    (q, orow) \<in> set (rel_rows (db ! j)) \<and> cell_in (rel_schema (db ! i)) (to_col fk) r = Some v \<and>
    cell_in (rel_schema (db ! j)) (from_col fk) orow = Some v)"
  by (cases "column_index (rel_schema (db ! i)) (to_col fk)"; cases "column_index (rel_schema (db ! j)) (from_col fk)")
    (auto simp: referring_def cell_in_def eq_commute[of "Some x" "cell_at r y" for x y] split: option.split)

lemma in_link_of:
  assumes c: "consistent db" and d: "named_fks db" and j: "j < length db" and fk: "fk \<in> set (fks (rel_schema (db ! j)))"
    and v: "cell_in (rel_schema (db ! i)) (to_col fk) r = Some v"
  shows "\<exists>label. in_link db i r (rel_name (db ! j), fk_name fk, q, orow) = [(label, rel_name (db ! j), from_col fk, v)]"
proof -
  have "distinct (map fk_name (fks (rel_schema (db ! j))))" using d j by (simp add: named_fks_def)
  then have "find (\<lambda>f. fk_name f = fk_name fk) (fks (rel_schema (db ! j))) = Some fk"
    by (rule find_named) (rule fk)
  then show ?thesis using v table_of_nth[OF c j] by (simp add: in_link_def table_of_def bindR_def cell_in_def)
qed

lemma incoming_lead:
  assumes c: "consistent db" and d: "named_fks db" and i: "i < length db" and j: "j < length db"
    and fk: "fk \<in> set (fks (rel_schema (db ! j)))" "to_table fk = rel_name (db ! i)" and o: "(q, orow) \<in> set (rel_rows (db ! j))"
    and v: "cell_in (rel_schema (db ! i)) (to_col fk) r = Some v" "cell_in (rel_schema (db ! j)) (from_col fk) orow = Some v"
  shows "\<exists>label. (label, rel_name (db ! j), from_col fk, v) \<in> set (concat (map (in_link db i r) (referrers db i r)))"
    "(q, orow) \<in> set (browse db (rel_name (db ! j)) (Some (from_col fk, v)) None)"
proof -
  have "(rel_name (db ! j), fk_name fk, q, orow) \<in> set (referring db i r j fk)" using fk o v j by (simp add: referring_iff)
  then have "(rel_name (db ! j), fk_name fk, q, orow) \<in> set (referrers db i r)" using j fk(1) by (auto simp: referrers_def)
  with in_link_of[OF c d j fk(1) v(1), of q orow]
  show "\<exists>label. (label, rel_name (db ! j), from_col fk, v) \<in> set (concat (map (in_link db i r) (referrers db i r)))"
    by (auto intro!: bexI[of _ "(rel_name (db ! j), fk_name fk, q, orow)"])
  obtain ci where ci: "column_index (rel_schema (db ! j)) (from_col fk) = Some ci" using v(2) by (auto simp: cell_in_def bind_eq_Some_conv)
  then show "(q, orow) \<in> set (browse db (rel_name (db ! j)) (Some (from_col fk, v)) None)"
    using o v(2) by (simp add: browse_filter[OF table_of_nth[OF c j]] cell_in_def)
qed

lemma links_lead:
  assumes c: "consistent db" and d: "named_fks db" and i: "i < length db" and r: "(rid, r) \<in> set (rel_rows (db ! i))"
    and l: "(label, tbl, col, v) \<in> set (links db i r)"
  shows "browse db tbl (Some (col, v)) None \<noteq> []"
proof -
  from l consider fk where "fk \<in> set (fks (rel_schema (db ! i)))" "(label, tbl, col, v) \<in> set (out_link db i r fk)"
    | ref where "ref \<in> set (referrers db i r)" "(label, tbl, col, v) \<in> set (in_link db i r ref)" by (auto simp: links_def)
  then show ?thesis
  proof cases
    case 1
    from out_link_shape[OF 1(2)] outgoing_lead(2)[OF c i 1(1) r] show ?thesis by fastforce
  next
    case 2
    from 2(1) obtain j fk where j: "j < length db" "fk \<in> set (fks (rel_schema (db ! j)))" "ref \<in> set (referring db i r j fk)"
      by (auto simp: referrers_def)
    from j(3) obtain q orow w where o: "ref = (rel_name (db ! j), fk_name fk, q, orow)" "to_table fk = rel_name (db ! i)"
      "(q, orow) \<in> set (rel_rows (db ! j))" "cell_in (rel_schema (db ! i)) (to_col fk) r = Some w"
      "cell_in (rel_schema (db ! j)) (from_col fk) orow = Some w" unfolding referring_iff[OF j(1)] by blast
    from in_link_of[OF c d j(1,2) o(4)] obtain label' where
      "in_link db i r (rel_name (db ! j), fk_name fk, q, orow) = [(label', rel_name (db ! j), from_col fk, w)]" by blast
    then have "tbl = rel_name (db ! j)" "col = from_col fk" "v = w" using 2(2) by (simp_all add: o(1))
    then show ?thesis using incoming_lead(2)[OF c d i j(1,2) o(2,3,4,5)] by auto
  qed
qed

text \<open>C15 From the view of a row the user reaches exactly its relatives: on a volume that holds a consistent database the row view offers,
  for every foreign key with a value, a link whose browser shows exactly the one row referred to; for every row of any table that refers
  to this one, a link whose browser shows that row; and no link leads to an empty list. The store is only read. The foreign keys of a
  table must have different names, since the links look them up by name: every step of the database keeps that
  (\<open>db_step_named\<close>), so every mounted store has it (\<open>history_named\<close>).\<close>

theorem row_links:
  assumes h: "holds s db" and d: "named_fks db" and n: "find_table db name = Inr i" and r: "row_at db i rid = Some r"
  shows "\<exists>navs c. nav_targets mem_ops name rid s = Some (Inr navs, s\<lparr>cache := c\<rparr>) \<and>
    (\<forall>fk \<in> set (fks (rel_schema (db ! i))). \<forall>v. cell_in (rel_schema (db ! i)) (from_col fk) r = Some v \<longrightarrow>
       (\<exists>label. (label, to_table fk, to_col fk, v) \<in> set navs) \<and> (\<exists>p. browse db (to_table fk) (Some (to_col fk, v)) None = [p])) \<and>
    (\<forall>j < length db. \<forall>fk \<in> set (fks (rel_schema (db ! j))). \<forall>(q, orow) \<in> set (rel_rows (db ! j)). \<forall>v. to_table fk = name \<and>
       cell_in (rel_schema (db ! i)) (to_col fk) r = Some v \<and> cell_in (rel_schema (db ! j)) (from_col fk) orow = Some v \<longrightarrow>
       (\<exists>label. (label, rel_name (db ! j), from_col fk, v) \<in> set navs) \<and>
       (q, orow) \<in> set (browse db (rel_name (db ! j)) (Some (from_col fk, v)) None)) \<and>
    (\<forall>(label, tbl, col, v) \<in> set navs. browse db tbl (Some (col, v)) None \<noteq> [])"
proof -
  have c: "consistent db" using h by (simp add: holds_def)
  have i: "i < length db" "rel_name (db ! i) = name" using find_table_bound[OF n] by simp_all
  have rr: "(rid, r) \<in> set (rel_rows (db ! i))" using r row_at_rows[OF c n] by simp
  obtain k where k: "nav_targets mem_ops name rid s = Some (Inr (links db i r), s\<lparr>cache := k\<rparr>)" using answersD[OF answers_nav[OF n r] h] by blast
  have out: "\<exists>label. (label, to_table fk, to_col fk, v) \<in> set (links db i r)"
    if "fk \<in> set (fks (rel_schema (db ! i)))" "cell_in (rel_schema (db ! i)) (from_col fk) r = Some v" for fk v
    using outgoing_lead(1)[OF c i(1) that(1) rr that(2)] that(1) by (auto simp: links_def)
  have inc: "\<exists>label. (label, rel_name (db ! j), from_col fk, v) \<in> set (links db i r)"
    if "j < length db" "fk \<in> set (fks (rel_schema (db ! j)))" "to_table fk = name" "(q, orow) \<in> set (rel_rows (db ! j))"
      "cell_in (rel_schema (db ! i)) (to_col fk) r = Some v" "cell_in (rel_schema (db ! j)) (from_col fk) orow = Some v" for j fk q orow v
    using incoming_lead(1)[OF c d i(1) that(1,2) _ that(4,5,6)] that(3) i(2) by (simp add: links_def) blast
  show ?thesis
  proof (intro exI[of _ "links db i r"] exI[of _ k] conjI k)
    show "\<forall>(label, tbl, col, v) \<in> set (links db i r). browse db tbl (Some (col, v)) None \<noteq> []"
      using links_lead[OF c d i(1) rr] by blast
    show "\<forall>fk \<in> set (fks (rel_schema (db ! i))). \<forall>v. cell_in (rel_schema (db ! i)) (from_col fk) r = Some v \<longrightarrow>
       (\<exists>label. (label, to_table fk, to_col fk, v) \<in> set (links db i r)) \<and> (\<exists>p. browse db (to_table fk) (Some (to_col fk, v)) None = [p])"
      using out outgoing_lead(2)[OF c i(1) _ rr] by blast
    show "\<forall>j < length db. \<forall>fk \<in> set (fks (rel_schema (db ! j))). \<forall>(q, orow) \<in> set (rel_rows (db ! j)). \<forall>v. to_table fk = name \<and>
       cell_in (rel_schema (db ! i)) (to_col fk) r = Some v \<and> cell_in (rel_schema (db ! j)) (from_col fk) orow = Some v \<longrightarrow>
       (\<exists>label. (label, rel_name (db ! j), from_col fk, v) \<in> set (links db i r)) \<and>
       (q, orow) \<in> set (browse db (rel_name (db ! j)) (Some (from_col fk, v)) None)"
    proof (intro allI impI ballI, clarify)
      fix j fk q orow v assume a: "j < length db" "fk \<in> set (fks (rel_schema (db ! j)))" "(q, orow) \<in> set (rel_rows (db ! j))" "name = to_table fk"
        "cell_in (rel_schema (db ! i)) (to_col fk) r = Some v" "cell_in (rel_schema (db ! j)) (from_col fk) orow = Some v"
      show "(\<exists>label. (label, rel_name (db ! j), from_col fk, v) \<in> set (links db i r)) \<and>
          (q, orow) \<in> set (browse db (rel_name (db ! j)) (Some (from_col fk, v)) None)"
        using inc[OF a(1,2) _ a(3,5,6)] incoming_lead(2)[OF c d i(1) a(1,2) _ a(3,5,6)] a(4) i(2) by simp
    qed
  qed
qed

text \<open>In a table that refers to itself, the row below links to the row above and back.\<close>

theorem row_links_witness:
  "\<exists>s ra rb up down c c'. holds s (tree_db ra rb) \<and> ra \<noteq> rb \<and>
    nav_targets mem_ops ''t'' rb s = Some (Inr up, s\<lparr>cache := c\<rparr>) \<and> (\<exists>label. (label, ''t'', ''k'', VStr ''a'') \<in> set up) \<and>
    (\<exists>p. browse (tree_db ra rb) ''t'' (Some (''k'', VStr ''a'')) None = [p]) \<and>
    nav_targets mem_ops ''t'' ra s = Some (Inr down, s\<lparr>cache := c'\<rparr>) \<and> (\<exists>label. (label, ''t'', ''p'', VStr ''a'') \<in> set down) \<and>
    (rb, [Some (VStr ''b''), Some (VStr ''a'')]) \<in> set (browse (tree_db ra rb) ''t'' (Some (''p'', VStr ''a'')) None)"
proof -
  from tree_volume obtain s ra rb where s: "represents mem_ops mem_media mem_good s (tree_db ra rb)" "ra \<noteq> rb" "has_room s 16" by blast
  note c = tree_consistent[OF s(2)]
  have h: "holds s (tree_db ra rb)" using s(1,3) c by (simp add: holds_def has_room_def)
  have rows: "row_at (tree_db ra rb) 0 rb = Some [Some (VStr ''b''), Some (VStr ''a'')]" "row_at (tree_db ra rb) 0 ra = Some [Some (VStr ''a''), None]"
    using s(2) by (simp_all add: row_at_def)
  from row_links[OF h c[THEN conjunct2] tree_checks(1) rows(1)] obtain up k where
    up: "nav_targets mem_ops ''t'' rb s = Some (Inr up, s\<lparr>cache := k\<rparr>)" "\<exists>label. (label, ''t'', ''k'', VStr ''a'') \<in> set up"
      "\<exists>p. browse (tree_db ra rb) ''t'' (Some (''k'', VStr ''a'')) None = [p]"
    by (auto simp: cell_in_def column_index_def cell_at_def)
  from row_links[OF h c[THEN conjunct2] tree_checks(1) rows(2)] obtain down k' where
    down: "nav_targets mem_ops ''t'' ra s = Some (Inr down, s\<lparr>cache := k'\<rparr>)" "\<exists>label. (label, ''t'', ''p'', VStr ''a'') \<in> set down"
      "(rb, [Some (VStr ''b''), Some (VStr ''a'')]) \<in> set (browse (tree_db ra rb) ''t'' (Some (''p'', VStr ''a'')) None)"
    by (auto simp: cell_in_def column_index_def cell_at_def)
  from h s(2) up down show ?thesis by blast
qed

end
