(* ===== verification/Ui_Keys.thy ===== *)
theory Ui_Keys
  imports Ui_Edit Row_Links
begin

text \<open>
  The key handler keeps the interface well formed: from the screen shown at start, every key press returns, changes the database by at
  most one operation and ends in a well-formed stack of screens over a volume that holds the new database.
\<close>

section \<open>Bounds of one key press\<close>

text \<open>
  What 64-bit arithmetic and the memory allow: another generation, tables and names that can be stored, and the text of one prompt or field.
  The clock reads a civil time, and a row view shows a row that is still there.
\<close>

definition within_limits :: "hardware \<Rightarrow> database \<Rightarrow> mem_dev app \<Rightarrow> bool" where
  "within_limits hw db a \<longleftrightarrow> roomy db (generation (sb (app_store a))) \<and> (\<forall>t. hw_clock hw = Some t \<longrightarrow> civil t) \<and>
     (case stack a of
       Prompt p # _ \<Rightarrow> length (pr_buf p) < 2 ^ 64
     | Pick p # _ \<Rightarrow> (\<forall>name col. pk_action p = Act_AddColPickType name col \<longrightarrow> length col < 2 ^ 64)
     | Editor ed # _ \<Rightarrow> list_all field_short (ed_fields ed)
     | RowView name rid _ # _ \<Rightarrow> live_row db name rid
     | _ \<Rightarrow> True)"

section \<open>Every key\<close>

lemma ui_start: "holds s db \<Longrightarrow> ui_ok db (app_start s ticks)"
  by (simp add: ui_ok_def sees_def app_start_def stack_ok_def)

lemma lands_result:
  assumes s: "sees db g (TableList 0 # r) a" and b: "base_ok r"
  shows "runs (returnM (InstallResult x, if k = Esc \<or> k = Enter then Nav_PopToList else Nav_None)) a (lands db)"
  by (auto simp: b intro!: lands_simps[OF s])

lemma runs_stable:
  assumes s: "sees db g (scr # r) a" and st: "stable scr" and b: "base_ok (scr # r)" and m: "roomy db g"
    and l: "\<And>name rid sel. scr = RowView name rid sel \<Longrightarrow> live_row db name rid"
  shows "runs (key_dispatch hw mem_ops scr k) a (well db)"
proof (rule runs_key_dispatch[OF s])
  fix a' assume a': "sees db g (TableList 0 # r) a'"
  note land = lands_list[OF a'] lands_browser[OF a'] lands_rowview[OF a'] lands_schema[OF a'] lands_refcols[OF a'] lands_drives[OF a']
    lands_pci[OF a'] lands_os_pick[OF a'] lands_about[OF a'] lands_xhci[OF a'] lands_result[OF a']
  show "runs (dispatch hw mem_ops scr k) a' (lands db)"
    unfolding dispatch_def
    by (cases scr; simp only: screen.case) (use st b m l in \<open>auto intro!: land simp del: runs_basic split del: if_split\<close>)
qed

lemma runs_on_key:
  assumes u: "ui_ok db a" and k: "ascii_key k" and w: "within_limits hw db a"
  shows "runs (on_key hw mem_ops k) a (well db)"
proof -
  let ?g = "generation (sb (app_store a))"
  from u have see: "sees db ?g (stack a) a" and st: "stack_ok db (stack a)" by (simp_all add: ui_ok_def)
  from w have m: "roomy db ?g" and c: "\<forall>t. hw_clock hw = Some t \<longrightarrow> civil t" by (simp_all add: within_limits_def)
  obtain scr r where sr: "stack a = scr # r" using st by (cases "stack a") (auto simp: stack_ok_def)
  note s = see[unfolded sr]
  have "runs (case scr of Prompt p \<Rightarrow> key_prompt hw mem_ops p k | Pick p \<Rightarrow> key_pick hw mem_ops p k
      | Confirm _ act \<Rightarrow> key_confirm hw mem_ops act k | Editor ed \<Rightarrow> key_editor hw mem_ops ed k
      | Builder b \<Rightarrow> key_value_builder hw b k | _ \<Rightarrow> key_dispatch hw mem_ops scr k) a (well db)"
    using st[unfolded sr]
  proof (cases rule: stack_okE)
    case 1
    have "runs (key_dispatch hw mem_ops scr k) a (well db)"
      by (rule runs_stable[OF s 1 m]) (use w in \<open>simp add: within_limits_def sr\<close>)
    then show ?thesis using 1(1) by (cases scr) simp_all
  next
    case (2 p)
    then show ?thesis using runs_key_prompt[OF _ 2(2,3) k m] s w by (simp add: within_limits_def sr)
  next
    case (3 q)
    then show ?thesis using runs_key_pick[OF _ 3(2,3) m] s w by (simp add: within_limits_def sr)
  next
    case (4 t act)
    then show ?thesis using runs_key_confirm[OF _ 4(2,3) m] s by simp
  next
    case (5 ed)
    then show ?thesis using runs_key_editor[OF _ 5(2,3) k m] s w by (simp add: within_limits_def sr)
  next
    case (6 b ed r')
    then show ?thesis using runs_key_builder[OF _ 6(3,4,5) k c] s by simp
  next
    case (7 p ed r')
    have "runs (key_dispatch hw mem_ops (FkPick p) k) a (well db)"
      by (rule runs_key_dispatch[OF s[unfolded 7(1)]]) (use 7 lands_fk_pick in \<open>auto simp: dispatch_def\<close>)
    then show ?thesis using 7(1) by simp
  qed
  then show ?thesis by (simp add: on_key_def top_screen_def sr)
qed

section \<open>The rows of the browser\<close>

definition shown :: "database \<Rightarrow> nat \<Rightarrow> row_filter \<Rightarrow> row_id \<times> row \<Rightarrow> bool" where
  "shown db i f ir \<longleftrightarrow> (\<forall>col v ci. f = Some (col, v) \<longrightarrow> column_index (rel_schema (db ! i)) col = Some ci \<longrightarrow> cell_at (snd ir) ci = Some v)"

text \<open>Values in the chosen direction, NULLs after them in both directions.\<close>

definition in_order :: "nat \<Rightarrow> bool \<Rightarrow> row_id \<times> row \<Rightarrow> row_id \<times> row \<Rightarrow> bool" where
  "in_order ci asc x y \<longleftrightarrow> (case (cell_at (snd x) ci, cell_at (snd y) ci) of
      (Some u, Some v) \<Rightarrow> if asc then cmp_value u v \<noteq> Greater else cmp_value v u \<noteq> Greater
    | (None, Some _) \<Rightarrow> False
    | (_, None) \<Rightarrow> True)"

lemma order_in: "cell_order ci asc x y \<noteq> Greater \<longleftrightarrow> in_order ci asc x y"
  by (simp add: cell_order_def in_order_def split: option.split)

lemma browse_shown:
  assumes "find_table db name = Inr i"
  shows "browse db name f so = sorted_rows so (filter (shown db i f) (rel_rows (db ! i)))"
proof -
  have "filter (shown db i f) (rel_rows (db ! i)) = (case f of None \<Rightarrow> rel_rows (db ! i) | Some cv \<Rightarrow> filtered_rows (rel_schema (db ! i)) cv (rel_rows (db ! i)))"
    by (cases f; cases "column_index (rel_schema (db ! i)) (fst (the f))")
      (auto simp: shown_def filtered_rows_def split: option.split intro!: filter_cong filter_True)
  moreover have "rows_of db name = Inr (rel_rows (db ! i))" "table_of db name = Inr (rel_schema (db ! i))"
    by (simp_all add: rows_of_def table_of_def assms bindR_def)
  ultimately show ?thesis by (cases f) (simp_all add: browse_def)
qed

lemma browse_sorted:
  assumes h: "holds s db" and n: "find_table db name = Inr i"
  shows "sorted_wrt (in_order ci asc) (browse db name f (Some (ci, asc)))"
    "filter (\<lambda>ir. cell_at (snd ir) ci = v) (browse db name f (Some (ci, asc))) =
       filter (\<lambda>ir. shown db i f ir \<and> cell_at (snd ir) ci = v) (rel_rows (db ! i))"
proof -
  let ?rows = "filter (shown db i f) (rel_rows (db ! i))"
  have "cell_good ci ir" if "ir \<in> set (rel_rows (db ! i))" for ir
    using holds_table(3)[OF h n that] by (auto simp: cell_good_def cell_at_def wf_row_def split: if_splits dest!: bspec[OF _ nth_mem])
  then have "list_all (cell_good ci) ?rows" by (simp add: list_all_iff)
  from cells.sort_sorted[OF this, of asc] show "sorted_wrt (in_order ci asc) (browse db name f (Some (ci, asc)))"
    by (simp add: browse_shown[OF n] sorted_rows_def order_in)
  have "cell_order ci asc x y \<noteq> Greater" if "x \<in> set ?rows" "cell_at (snd x) ci = v" "cell_at (snd y) ci = v" for x y
  proof (cases v)
    case (Some u)
    have "cell_good ci x" using \<open>list_all (cell_good ci) ?rows\<close> that(1) unfolding list_all_iff by blast
    then have "wf_value u" using that Some by (simp add: cell_good_def)
    then show ?thesis using value_order(2)[of u u] that Some by (simp add: cell_order_def)
  qed (use that in \<open>simp add: cell_order_def\<close>)
  then have "filter (\<lambda>ir. cell_at (snd ir) ci = v) (sort_by (cell_order ci asc) ?rows) = filter (\<lambda>ir. cell_at (snd ir) ci = v) ?rows"
    by (intro sort_by_stable) blast
  then show "filter (\<lambda>ir. cell_at (snd ir) ci = v) (browse db name f (Some (ci, asc))) =
       filter (\<lambda>ir. shown db i f ir \<and> cell_at (snd ir) ci = v) (rel_rows (db ! i))"
    by (simp add: browse_shown[OF n] sorted_rows_def conj_commute)
qed

text \<open>C14 The browser shows the right rows, whether they come from its cache or from the volume: exactly the rows of the table that match
  the filter, each once; unsorted in the order of the table; sorted by the cells of the chosen column with NULLs at the end, rows with equal
  cells keeping their order.\<close>

theorem browser_shows:
  assumes u: "ui_ok db a" and n: "find_table db name = Inr i"
  shows "\<exists>rows a'. cached_rows mem_ops name f so a = Some (Inr rows, a') \<and> ui_ok db a' \<and>
    mset rows = mset (filter (shown db i f) (rel_rows (db ! i))) \<and>
    (case so of
       None \<Rightarrow> rows = filter (shown db i f) (rel_rows (db ! i))
     | Some (ci, asc) \<Rightarrow> sorted_wrt (in_order ci asc) rows \<and>
         (\<forall>v. filter (\<lambda>ir. cell_at (snd ir) ci = v) rows =
            filter (\<lambda>ir. shown db i f ir \<and> cell_at (snd ir) ci = v) (rel_rows (db ! i))))"
proof -
  from u have s: "sees db (generation (sb (app_store a))) (stack a) a" and st: "stack_ok db (stack a)" by (simp_all add: ui_ok_def)
  have h: "holds (app_store a) db" using s by (simp add: sees_def)
  have "runs (cached_rows mem_ops name f so) a (\<lambda>rows a'. rows = browse db name f so \<and> ui_ok db a')"
    by (rule runs_cached[OF s]) (use sees_ui_ok[OF _ st] in simp)
  then obtain a' where a': "cached_rows mem_ops name f so a = Some (Inr (browse db name f so), a')" "ui_ok db a'" by (auto simp: runs_def)
  have "mset (browse db name f so) = mset (filter (shown db i f) (rel_rows (db ! i)))"
    by (simp add: browse_shown[OF n] sorted_rows_def mset_sort_by split: option.split)
  moreover have "browse db name f None = filter (shown db i f) (rel_rows (db ! i))"
    by (simp add: browse_shown[OF n] sorted_rows_def)
  ultimately show ?thesis using a' browse_sorted[OF h n] by (auto split: option.split)
qed

section \<open>A click past the options\<close>

text \<open>A click that the last drawn frame resolves to an option beyond the picker's last stops the program.\<close>

lemma activate_past_options:
  assumes "stack a = Pick p # r" "pk_options p \<noteq> []" "length (pk_options p) \<le> i"
  shows "bindM (set_cursor i) (\<lambda>_. on_key hw ops Enter) a = None"
  using assms by (simp add: set_cursor_def top_screen_def put_top_def move_cursor_def on_key_def key_pick_def get_at_def
      bindM_def getM_def modifyM_def unwrapM_def panicM_def returnM_def)

section \<open>The key handler\<close>

text \<open>C13 No key brings the user interface down or the database out of its rules. On a well-formed screen stack over a volume that holds a
  database, every key of the keyboard is handled without a panic and without an error that escapes; the database changes by at most one
  operation (a step of the relational model) or not at all; and the stack, the row cache and the volume are well formed again. The start
  screen is well formed (\<open>ui_start\<close>), so this holds along every session of keys within the limits.\<close>

theorem ui_keys_safe:
  assumes u: "ui_ok db a" and k: "ascii_key k" and w: "within_limits hw db a"
  shows "\<exists>a' db'. on_key hw mem_ops k a = Some (Inr (), a') \<and> at_most_a_step db db' \<and> ui_ok db' a'"
  using runs_on_key[OF u k w] by (auto simp: runs_def well_def)

section \<open>Witnesses\<close>

definition quiet_hardware :: hardware where
  "quiet_hardware = \<lparr>hw_height = Some 600, hw_clock = None, hw_msc_error = None, hw_about = 0, hw_ide = [], hw_usb = [], hw_usb_slots = [],
     hw_pci = [], hw_inspect = (\<lambda>_. None), hw_bring_up = Inl [], hw_slot_ids = Inl [], hw_addressed = Inl [], hw_configured = Inl [],
     hw_endpoints = Inl [], hw_probes = Inl [], hw_msc = [], hw_write_test = (\<lambda>n. \<lparr>wt_slot = n, wt_ok = False, wt_message = []\<rparr>),
     hw_install = (\<lambda>_. \<lparr>ir_mount_ok = False, ir_message = []\<rparr>), hw_delay = 0, hw_tsc = 0\<rparr>"

lemma held_row:
  "\<exists>s rid. holds s [table_t [(rid, [])]] \<and> generation (sb s) = 3"
proof -
  from row_volume obtain s rid where s: "represents mem_ops mem_media mem_good s [table_t [(rid, [])]]" "has_room s 21" "generation (sb s) = 3" by blast
  moreover have "consistent [table_t [(rid, [])]]" by (simp add: consistent_def row_fits_def unique_rows_def new_table_def)
  ultimately show ?thesis by (auto simp: holds_def has_room_def)
qed

lemma row_of_t: "find_table [table_t [(rid, [])]] ''t'' = Inr 0" "row_at [table_t [(rid, [])]] 0 rid = Some []"
  by (simp_all add: find_table_def ok_or_def row_at_def)

lemma asked_ok:
  assumes h: "holds s [table_t [(rid, [])]]"
  shows "ui_ok [table_t [(rid, [])]] ((app_start s 0)\<lparr>stack := [Confirm ''?'' (Act_DeleteRow ''t'' rid), new_browser ''t'' None, TableList 0]\<rparr>)"
  using h row_of_t by (simp add: ui_ok_def sees_def app_start_def new_browser_def confirm_ok_def live_row_def)

theorem ui_keys_safe_witness:
  "\<exists>s rid a' db'. holds s [table_t [(rid, [])]] \<and>
    on_key quiet_hardware mem_ops Enter ((app_start s 0)\<lparr>stack := [Confirm ''?'' (Act_DeleteRow ''t'' rid), new_browser ''t'' None, TableList 0]\<rparr>) =
      Some (Inr (), a') \<and> at_most_a_step [table_t [(rid, [])]] db' \<and> ui_ok db' a'"
proof -
  from held_row obtain s rid where s: "holds s [table_t [(rid, [])]]" "generation (sb s) = 3" by blast
  have "within_limits quiet_hardware [table_t [(rid, [])]]
      ((app_start s 0)\<lparr>stack := [Confirm ''?'' (Act_DeleteRow ''t'' rid), new_browser ''t'' None, TableList 0]\<rparr>)"
    using s(2) by (simp add: within_limits_def roomy_def app_start_def quiet_hardware_def sizes_ok_def new_table_def)
  from ui_keys_safe[OF asked_ok[OF s(1)] _ this, of Enter] s(1) show ?thesis by (simp only: ascii_key.simps) blast
qed

theorem browser_shows_witness:
  "\<exists>s rid rows a'. holds s [table_t [(rid, [])]] \<and>
    cached_rows mem_ops ''t'' None (Some (0, True)) (app_start s 0) = Some (Inr rows, a') \<and> mset rows = {#(rid, [])#}"
proof -
  from held_row obtain s rid where s: "holds s [table_t [(rid, [])]]" by blast
  from browser_shows[OF ui_start[OF s] row_of_t(1), of None "Some (0, True)" 0] s show ?thesis by (fastforce simp: shown_def)
qed

end
