(* ===== verification/Acpi.thy ===== *)
theory Acpi
  imports Ports
begin

text \<open>
  Powering the machine off, \<^verbatim>\<open>kernel/src/acpi.rs\<close>: finding the ACPI tables in physical memory, decoding the few fields needed,
  and the writes to the power-management ports. Memory is a parameter, a function from physical addresses to bytes, of
  which the boot loader maps the first 4 GiB; a read outside them is a page fault, \<^term>\<open>None\<close>. The scans of memory end because the
  address grows towards a bound; their termination is proved. The busy waits between port reads have no effect the
  model can see and are left out, as are the diagnostics on the serial line.
\<close>

unbundle bit_operations_syntax

section \<open>Physical memory\<close>

type_synonym memory = "nat \<Rightarrow> byte"

definition PHYS_LIMIT :: nat where "PHYS_LIMIT = 2 ^ 32"

definition readable :: "nat \<Rightarrow> nat \<Rightarrow> bool" where
  "readable pa len \<longleftrightarrow> pa \<noteq> 0 \<and> pa + len < 2 ^ 64 \<and> pa + len \<le> PHYS_LIMIT"

text \<open>A read of \<open>k\<close> bytes, little-endian, at any alignment.\<close>

definition fetch :: "memory \<Rightarrow> nat \<Rightarrow> nat \<Rightarrow> nat option" where
  "fetch M k pa = (if pa + k \<le> PHYS_LIMIT then Some (of_le (map M [pa..<pa + k])) else None)"

definition rd_u8 :: "memory \<Rightarrow> nat \<Rightarrow> byte option" where
  "rd_u8 M pa = (if pa + 1 \<le> PHYS_LIMIT then Some (M pa) else None)"

definition rd_u16 :: "memory \<Rightarrow> nat \<Rightarrow> nat option" where "rd_u16 M pa = fetch M 2 pa"
definition rd_u32 :: "memory \<Rightarrow> nat \<Rightarrow> nat option" where "rd_u32 M pa = fetch M 4 pa"
definition rd_u64m :: "memory \<Rightarrow> nat \<Rightarrow> nat option" where "rd_u64m M pa = fetch M 8 pa"

fun sum_bytes :: "memory \<Rightarrow> nat \<Rightarrow> nat \<Rightarrow> byte \<Rightarrow> byte option" where
  "sum_bytes M pa 0 acc = Some acc"
| "sum_bytes M pa (Suc n) acc = do { b \<leftarrow> rd_u8 M pa; sum_bytes M (pa + 1) n (acc + b) }"

definition checksum_ok :: "memory \<Rightarrow> nat \<Rightarrow> nat \<Rightarrow> bool option" where
  "checksum_ok M pa len =
    (if \<not> readable pa len then Some False else do { s \<leftarrow> sum_bytes M pa len 0; Some (s = 0) })"

definition bytes_of :: "string \<Rightarrow> byte list" where
  "bytes_of s = map (\<lambda>c. word_of_nat (of_char c)) s"

fun matches :: "memory \<Rightarrow> nat \<Rightarrow> byte list \<Rightarrow> bool option" where
  "matches M pa [] = Some True"
| "matches M pa (x # xs) = do { b \<leftarrow> rd_u8 M pa; if b = x then matches M (pa + 1) xs else Some False }"

section \<open>Finding the tables\<close>

definition RSDP_SIG :: "byte list" where "RSDP_SIG = bytes_of ''RSD PTR ''"

function scan_rsdp_from :: "memory \<Rightarrow> nat \<Rightarrow> nat \<Rightarrow> nat option option" where
  "scan_rsdp_from M pa stop =
    (if \<not> pa + 20 \<le> stop then Some None
     else do {
       sig \<leftarrow> matches M pa RSDP_SIG;
       ok \<leftarrow> (if sig then checksum_ok M pa 20 else Some False);
       if ok then Some (Some pa) else scan_rsdp_from M (pa + 16) stop })"
  by pat_completeness auto
termination by (relation "measure (\<lambda>(M, pa, stop). stop - pa)") auto

declare scan_rsdp_from.simps [simp del]

definition scan_rsdp :: "memory \<Rightarrow> nat \<Rightarrow> nat \<Rightarrow> nat option option" where
  "scan_rsdp M start stop = scan_rsdp_from M (start div 16 * 16) stop"

definition find_rsdp :: "memory \<Rightarrow> nat option option" where
  "find_rsdp M = do {
    seg \<leftarrow> rd_u16 M 0x40E;
    let ebda = seg * 16;
    r \<leftarrow> (if 0x400 \<le> ebda \<and> ebda < 0xA0000 then scan_rsdp M ebda (ebda + 0x400) else Some None);
    case r of Some p \<Rightarrow> Some (Some p) | None \<Rightarrow> scan_rsdp M 0xE0000 0x100000 }"

text \<open>The loop over the entries of the root table, calling the closure on each readable one; the closure's captured
  variables are the state \<open>s\<close>.\<close>

fun sdt_loop :: "memory \<Rightarrow> nat \<Rightarrow> nat \<Rightarrow> nat \<Rightarrow> nat \<Rightarrow> (byte list \<Rightarrow> nat \<Rightarrow> 's \<Rightarrow> 's option) \<Rightarrow> 's \<Rightarrow> 's option" where
  "sdt_loop M root esz i 0 f s = Some s"
| "sdt_loop M root esz i (Suc n) f s = do {
    let ent = root + 36 + i * esz;
    tbl \<leftarrow> (if esz = 8 then rd_u64m M ent else rd_u32 M ent);
    if \<not> readable tbl 36 then sdt_loop M root esz (i + 1) n f s
    else do {
      a \<leftarrow> rd_u8 M tbl;
      b \<leftarrow> rd_u8 M (tbl + 1);
      c \<leftarrow> rd_u8 M (tbl + 2);
      d \<leftarrow> rd_u8 M (tbl + 3);
      s \<leftarrow> f [a, b, c, d] tbl s;
      sdt_loop M root esz (i + 1) n f s } }"

definition root_table :: "memory \<Rightarrow> nat \<Rightarrow> (nat \<times> nat) option" where
  "root_table M rsdp = do {
    revision \<leftarrow> rd_u8 M (rsdp + 15);
    if 2 \<le> revision then do {
      xsdt \<leftarrow> rd_u64m M (rsdp + 24);
      if readable xsdt 36 then Some (xsdt, 8)
      else do { r \<leftarrow> rd_u32 M (rsdp + 16); Some (r, 4) } }
    else do { r \<leftarrow> rd_u32 M (rsdp + 16); Some (r, 4) } }"

definition for_each_sdt :: "memory \<Rightarrow> (byte list \<Rightarrow> nat \<Rightarrow> 's \<Rightarrow> 's option) \<Rightarrow> 's \<Rightarrow> 's option" where
  "for_each_sdt M f s = do {
    found \<leftarrow> find_rsdp M;
    case found of None \<Rightarrow> Some s
    | Some rsdp \<Rightarrow> do {
        (root, esz) \<leftarrow> root_table M rsdp;
        len \<leftarrow> (if readable root 36 then rd_u32 M (root + 4) else Some 0);
        if len < 36 \<or> \<not> readable root len then Some s
        else sdt_loop M root esz 0 (min ((len - 36) div esz) 1024) f s } }"

section \<open>The fields\<close>

record fadt =
  smi_cmd :: nat
  acpi_enable :: byte
  pm1a_cnt :: nat
  pm1b_cnt :: nat
  dsdt :: nat

definition gas_io_port :: "memory \<Rightarrow> nat \<Rightarrow> nat option option" where
  "gas_io_port M pa = do {
    space \<leftarrow> rd_u8 M pa;
    addr \<leftarrow> rd_u64m M (pa + 4);
    Some (if space = 1 \<and> addr \<noteq> 0 \<and> addr \<le> 0xFFFF then Some addr else None) }"

definition parse_fadt :: "memory \<Rightarrow> nat \<Rightarrow> fadt option" where
  "parse_fadt M pa = do {
    len \<leftarrow> rd_u32 M (pa + 4);
    smi \<leftarrow> rd_u32 M (pa + 48);
    en \<leftarrow> rd_u8 M (pa + 52);
    a \<leftarrow> rd_u32 M (pa + 64);
    b \<leftarrow> rd_u32 M (pa + 68);
    d \<leftarrow> rd_u32 M (pa + 40);
    d \<leftarrow> (if 148 \<le> len then do { x \<leftarrow> rd_u64m M (pa + 140); Some (if readable x 36 then x else d) } else Some d);
    a \<leftarrow> (if 184 \<le> len then do { p \<leftarrow> gas_io_port M (pa + 172); Some (case p of Some p \<Rightarrow> p | None \<Rightarrow> a) } else Some a);
    b \<leftarrow> (if 196 \<le> len then do { p \<leftarrow> gas_io_port M (pa + 184); Some (case p of Some p \<Rightarrow> p | None \<Rightarrow> b) } else Some b);
    Some \<lparr>smi_cmd = smi, acpi_enable = en, pm1a_cnt = a, pm1b_cnt = b, dsdt = d\<rparr> }"

text \<open>One small AML integer: its value, and the address behind it.\<close>

definition read_aml_byte :: "memory \<Rightarrow> nat \<Rightarrow> nat \<Rightarrow> (byte option \<times> nat) option" where
  "read_aml_byte M q stop =
    (if stop \<le> q then Some (None, q)
     else do {
       b \<leftarrow> rd_u8 M q;
       let q = (if b = 0x0A then q + 1 else q);
       if stop \<le> q then Some (None, q)
       else do { v \<leftarrow> rd_u8 M q; Some (Some v, q + 1) } })"

definition parse_s5_package :: "memory \<Rightarrow> nat \<Rightarrow> nat \<Rightarrow> (byte \<times> byte) option option" where
  "parse_s5_package M q stop =
    (if stop \<le> q then Some None
     else do {
       lead \<leftarrow> rd_u8 M q;
       let q = q + unat (drop_bit 6 lead) + 2;
       (a, q) \<leftarrow> read_aml_byte M q stop;
       case a of None \<Rightarrow> Some None
       | Some a \<Rightarrow> do {
           (b, q) \<leftarrow> read_aml_byte M q stop;
           Some (Some (a, case b of Some b \<Rightarrow> b | None \<Rightarrow> 0)) } })"

definition name_ok :: "memory \<Rightarrow> nat \<Rightarrow> nat \<Rightarrow> bool option" where
  "name_ok M table p = do {
    b1 \<leftarrow> rd_u8 M (p - 1);
    b2 \<leftarrow> (if table + 2 \<le> p then rd_u8 M (p - 2) else Some 0);
    Some (b1 = 0x08 \<or> b1 = 0x5C \<and> b2 = 0x08) }"

definition pkg_op :: "memory \<Rightarrow> nat \<Rightarrow> nat \<Rightarrow> bool option" where
  "pkg_op M p stop = (if p + 4 < stop then do { b \<leftarrow> rd_u8 M (p + 4); Some (b = 0x12) } else Some False)"

function find_s5_from :: "memory \<Rightarrow> nat \<Rightarrow> nat \<Rightarrow> nat \<Rightarrow> (byte \<times> byte) option option" where
  "find_s5_from M table p stop =
    (if \<not> p + 4 \<le> stop then Some None
     else do {
       is_s5 \<leftarrow> matches M p (bytes_of ''_S5_'');
       hit \<leftarrow> (if is_s5 then do { n \<leftarrow> name_ok M table p; k \<leftarrow> pkg_op M p stop; Some (n \<and> k) } else Some False);
       if hit then parse_s5_package M (p + 5) stop
       else find_s5_from M table (p + 1) stop })"
  by pat_completeness auto
termination by (relation "measure (\<lambda>(M, table, p, stop). stop - p)") auto

declare find_s5_from.simps [simp del]

definition find_s5 :: "memory \<Rightarrow> nat \<Rightarrow> (byte \<times> byte) option option" where
  "find_s5 M table =
    (if \<not> readable table 36 then Some None
     else do {
       len \<leftarrow> rd_u32 M (table + 4);
       if len < 36 \<or> \<not> readable table len then Some None
       else find_s5_from M table (table + 36) (table + len) })"

section \<open>Power-off\<close>

definition SLP_EN :: u16 where "SLP_EN = push_bit 13 1"
definition SCI_EN :: u16 where "SCI_EN = 1"

fun await_sci :: "'h bus \<Rightarrow> nat \<Rightarrow> nat \<Rightarrow> ('h, unit) io" where
  "await_sci B p 0 = State_Monad.return ()"
| "await_sci B p (Suc n) = do {
    v \<leftarrow> inw B p;
    if v AND SCI_EN = 0 then await_sci B p n else State_Monad.return () }"

definition enable_acpi :: "'h bus \<Rightarrow> fadt \<Rightarrow> ('h, unit) io" where
  "enable_acpi B f =
    (if pm1a_cnt f = 0 \<or> 0xFFFF < pm1a_cnt f then State_Monad.return ()
     else do {
       v \<leftarrow> inw B (pm1a_cnt f);
       if v AND SCI_EN \<noteq> 0 then State_Monad.return ()
       else if smi_cmd f = 0 \<or> 0xFFFF < smi_cmd f \<or> acpi_enable f = 0 then State_Monad.return ()
       else do { outb B (smi_cmd f) (acpi_enable f); await_sci B (pm1a_cnt f) 300 } })"

text \<open>The closure \<^verbatim>\<open>poweroff\<close> passes to the table walk: the FADT seen last and up to eight SSDTs.\<close>

definition note_table :: "memory \<Rightarrow> byte list \<Rightarrow> nat \<Rightarrow> fadt option \<times> nat list \<Rightarrow> (fadt option \<times> nat list) option" where
  "note_table M sig addr s =
    (if sig = bytes_of ''FACP'' then do { f \<leftarrow> parse_fadt M addr; Some (Some f, snd s) }
     else if sig = bytes_of ''SSDT'' \<and> length (snd s) < 8 then Some (fst s, snd s @ [addr])
     else Some s)"

fun first_s5 :: "memory \<Rightarrow> nat list \<Rightarrow> (byte \<times> byte) option option" where
  "first_s5 M [] = Some None"
| "first_s5 M (t # ts) = do {
    r \<leftarrow> find_s5 M t;
    case r of None \<Rightarrow> first_s5 M ts | Some v \<Rightarrow> Some (Some v) }"

definition discover :: "memory \<Rightarrow> (string + fadt \<times> byte \<times> byte) option" where
  "discover M = do {
    (f, ssdts) \<leftarrow> for_each_sdt M (note_table M) (None, []);
    case f of None \<Rightarrow> Some (Inl ''no FADT'')
    | Some f \<Rightarrow> do {
        s5 \<leftarrow> first_s5 M (dsdt f # ssdts);
        case s5 of None \<Rightarrow> Some (Inl ''no _S5_'')
        | Some (a, b) \<Rightarrow> Some (Inr (f, a, b)) } }"

definition sleep_value :: "byte \<Rightarrow> u16" where
  "sleep_value t = push_bit 10 (ucast t AND 7) OR SLP_EN"

definition sleep_writes :: "'h bus \<Rightarrow> fadt \<Rightarrow> byte \<Rightarrow> byte \<Rightarrow> ('h, unit) io" where
  "sleep_writes B f a b = do {
    outw B (pm1a_cnt f) (sleep_value a);
    if pm1b_cnt f \<noteq> 0 \<and> pm1b_cnt f \<le> 0xFFFF then outw B (pm1b_cnt f) (sleep_value b)
    else State_Monad.return () }"

definition poweroff :: "'h bus \<Rightarrow> memory \<Rightarrow> ('h, string) io option" where
  "poweroff B M = do {
    d \<leftarrow> discover M;
    case d of Inl msg \<Rightarrow> Some (State_Monad.return msg)
    | Inr (f, a, b) \<Rightarrow>
        if pm1a_cnt f = 0 \<or> 0xFFFF < pm1a_cnt f then Some (State_Monad.return ''no PM1a port'')
        else Some (do { enable_acpi B f; sleep_writes B f a b; State_Monad.return ''PM1 write ignored'' }) }"

section \<open>No page faults in the scans\<close>

lemma rd_u8_some: "pa + 1 \<le> PHYS_LIMIT \<Longrightarrow> rd_u8 M pa = Some (M pa)"
  by (simp add: rd_u8_def)

lemma fetch_some: "pa + k \<le> PHYS_LIMIT \<Longrightarrow> \<exists>v < 256 ^ k. fetch M k pa = Some v"
  using of_le_less [of "map M [pa..<pa + k]"] by (auto simp: fetch_def)

lemma matches_some: "pa + length xs \<le> PHYS_LIMIT \<Longrightarrow> matches M pa xs = Some (map M [pa..<pa + length xs] = xs)"
proof (induction xs arbitrary: pa)
  case (Cons x xs)
  then show ?case by (auto simp: rd_u8_some upt_conv_Cons simp del: upt_Suc)
qed simp

lemma sum_bytes_some: "pa + n \<le> PHYS_LIMIT \<Longrightarrow> \<exists>s. sum_bytes M pa n acc = Some s"
  by (induction n arbitrary: pa acc) (simp_all add: rd_u8_some)

lemma checksum_some: "\<exists>b. checksum_ok M pa len = Some b"
  using sum_bytes_some [of pa len M 0] by (auto simp: checksum_ok_def readable_def)

lemma scan_rsdp_from_some:
  "stop \<le> PHYS_LIMIT \<Longrightarrow> \<exists>r. scan_rsdp_from M pa stop = Some r \<and> (\<forall>p. r = Some p \<longrightarrow> p + 20 \<le> stop)"
proof (induction M pa stop rule: scan_rsdp_from.induct)
  case (1 M pa stop)
  show ?case
  proof (cases "pa + 20 \<le> stop")
    case True
    have len: "length RSDP_SIG = 8" by (simp add: RSDP_SIG_def bytes_of_def)
    have m: "matches M pa RSDP_SIG = Some (map M [pa..<pa + 8] = RSDP_SIG)"
      using matches_some [of pa RSDP_SIG M] True 1(2) len by simp
    obtain c where c: "checksum_ok M pa 20 = Some c" using checksum_some by blast
    let ?ok = "map M [pa..<pa + 8] = RSDP_SIG \<and> c"
    have step: "scan_rsdp_from M pa stop = (if ?ok then Some (Some pa) else scan_rsdp_from M (pa + 16) stop)"
      using True m c by (subst scan_rsdp_from.simps) auto
    show ?thesis
    proof (cases ?ok)
      case False
      have "\<exists>r. scan_rsdp_from M (pa + 16) stop = Some r \<and> (\<forall>p. r = Some p \<longrightarrow> p + 20 \<le> stop)"
        using True False m c 1(2) by (intro 1(1) [of "map M [pa..<pa + 8] = RSDP_SIG" ?ok]) auto
      then show ?thesis using step False by auto
    qed (use step True in auto)
  qed (subst scan_rsdp_from.simps, simp)
qed

lemma scan_rsdp_some: "stop \<le> PHYS_LIMIT \<Longrightarrow> \<exists>r. scan_rsdp M pa stop = Some r \<and> (\<forall>p. r = Some p \<longrightarrow> p + 20 \<le> stop)"
  unfolding scan_rsdp_def by (rule scan_rsdp_from_some)

lemma find_rsdp_some: "\<exists>r. find_rsdp M = Some r \<and> (\<forall>p. r = Some p \<longrightarrow> p + 20 \<le> 0x100000)"
proof -
  obtain seg where seg: "rd_u16 M 0x40E = Some seg"
    using fetch_some [of "0x40E" 2 M] by (auto simp: rd_u16_def PHYS_LIMIT_def)
  obtain r2 where r2: "scan_rsdp M 0xE0000 0x100000 = Some r2" "\<And>p. r2 = Some p \<Longrightarrow> p + 20 \<le> 0x100000"
    using scan_rsdp_some [of "0x100000" M "0xE0000"] by (auto simp: PHYS_LIMIT_def)
  show ?thesis
  proof (cases "0x400 \<le> seg * 16 \<and> seg * 16 < 0xA0000")
    case True
    then have "seg * 16 + 0x400 \<le> PHYS_LIMIT" by (simp add: PHYS_LIMIT_def)
    from scan_rsdp_some [OF this] obtain r1 where r1: "scan_rsdp M (seg * 16) (seg * 16 + 0x400) = Some r1"
      "\<And>p. r1 = Some p \<Longrightarrow> p + 20 \<le> seg * 16 + 0x400" by blast
    show ?thesis
    proof (cases r1)
      case None
      then show ?thesis using r1(1) r2 seg True by (simp add: find_rsdp_def Let_def)
    next
      case (Some p)
      then have "p + 20 \<le> 0x100000" using r1(2) [OF Some] True by linarith
      then show ?thesis using r1(1) Some seg True by (simp add: find_rsdp_def Let_def)
    qed
  next
    case False
    then show ?thesis using r2 seg by (auto simp: find_rsdp_def Let_def)
  qed
qed

lemma root_table_some:
  assumes "p + 32 \<le> PHYS_LIMIT"
  shows "\<exists>root esz. root_table M p = Some (root, esz) \<and> esz \<in> {4, 8}"
proof -
  have "\<exists>r. rd_u32 M (p + 16) = Some r" "\<exists>r. rd_u64m M (p + 24) = Some r"
    using fetch_some [of "p + 16" 4 M] fetch_some [of "p + 24" 8 M] assms by (auto simp: rd_u32_def rd_u64m_def)
  then show ?thesis using assms by (auto simp: root_table_def rd_u8_some)
qed

lemma sdt_loop_some:
  assumes "root + 36 + (i + n) * esz \<le> PHYS_LIMIT" "esz \<in> {4, 8}"
    and "\<And>t s. readable t 36 \<Longrightarrow> \<exists>s'. f [M t, M (t + 1), M (t + 2), M (t + 3)] t s = Some s'"
  shows "\<exists>s'. sdt_loop M root esz i n f s = Some s'"
  using assms(1)
proof (induction n arbitrary: i s)
  case (Suc n)
  have ent: "root + 36 + i * esz + esz \<le> PHYS_LIMIT" using Suc.prems by (simp add: algebra_simps)
  obtain tbl where tbl: "(if esz = 8 then rd_u64m M (root + 36 + i * esz) else rd_u32 M (root + 36 + i * esz)) = Some tbl"
    using fetch_some [of "root + 36 + i * esz" 8 M] fetch_some [of "root + 36 + i * esz" 4 M] ent assms(2)
    by (auto simp: rd_u64m_def rd_u32_def)
  have rest: "\<exists>s'. sdt_loop M root esz (i + 1) n f s = Some s'" for s
    using Suc.IH [of "i + 1" s] Suc.prems by (simp add: algebra_simps)
  show ?case
  proof (cases "readable tbl 36")
    case True
    then have "tbl + 4 \<le> PHYS_LIMIT" by (simp add: readable_def)
    moreover obtain s' where "f [M tbl, M (tbl + 1), M (tbl + 2), M (tbl + 3)] tbl s = Some s'"
      using assms(3) [OF True] by blast
    ultimately show ?thesis using tbl True rest [of s'] by (simp add: rd_u8_some Let_def)
  next
    case False
    then show ?thesis using tbl rest by (simp add: Let_def)
  qed
qed simp

lemma for_each_sdt_some:
  assumes "\<And>t s. readable t 36 \<Longrightarrow> \<exists>s'. f [M t, M (t + 1), M (t + 2), M (t + 3)] t s = Some s'"
  shows "\<exists>s'. for_each_sdt M f s = Some s'"
proof -
  obtain r where r: "find_rsdp M = Some r" "\<And>p. r = Some p \<Longrightarrow> p + 20 \<le> 0x100000" using find_rsdp_some by blast
  show ?thesis
  proof (cases r)
    case (Some p)
    then have "p + 32 \<le> PHYS_LIMIT" using r(2) by (force simp: PHYS_LIMIT_def)
    from root_table_some [OF this, of M] obtain root esz where root: "root_table M p = Some (root, esz)" "esz \<in> {4, 8}" by blast
    obtain len where len: "(if readable root 36 then rd_u32 M (root + 4) else Some 0) = Some len"
      using fetch_some [of "root + 4" 4 M] by (cases "readable root 36") (auto simp: readable_def rd_u32_def)
    show ?thesis
    proof (cases "len < 36 \<or> \<not> readable root len")
      case False
      let ?n = "min ((len - 36) div esz) 1024"
      have "?n * esz \<le> (len - 36) div esz * esz" using root(2) by auto
      also have "\<dots> \<le> len - 36" by (rule div_times_less_eq_dividend)
      finally have "root + 36 + (0 + ?n) * esz \<le> PHYS_LIMIT" using False by (auto simp: readable_def)
      from sdt_loop_some [where f = f and M = M and s = s, OF this root(2) assms] show ?thesis
        using r Some root(1) len False by (simp add: for_each_sdt_def)
    qed (use r Some root(1) len in \<open>simp add: for_each_sdt_def\<close>)
  qed (use r in \<open>simp add: for_each_sdt_def\<close>)
qed

lemma read_aml_some: "stop \<le> PHYS_LIMIT \<Longrightarrow> \<exists>v q'. read_aml_byte M q stop = Some (v, q')"
  by (auto simp: read_aml_byte_def rd_u8_some Let_def)

lemma parse_s5_some:
  assumes "stop \<le> PHYS_LIMIT"
  shows "\<exists>r. parse_s5_package M q stop = Some r"
proof (cases "stop \<le> q")
  case False
  obtain v q' where v: "read_aml_byte M (q + unat (drop_bit 6 (M q)) + 2) stop = Some (v, q')"
    using read_aml_some [OF assms] by blast
  obtain w q'' where "read_aml_byte M q' stop = Some (w, q'')" using read_aml_some [OF assms] by blast
  then show ?thesis using False assms v by (cases v) (auto simp: parse_s5_package_def rd_u8_some Let_def)
qed (simp add: parse_s5_package_def)

lemma find_s5_from_some:
  "stop \<le> PHYS_LIMIT \<Longrightarrow> \<exists>r. find_s5_from M table p stop = Some r"
proof (induction M table p stop rule: find_s5_from.induct)
  case (1 M table p stop)
  show ?case
  proof (cases "p + 4 \<le> stop")
    case True
    have len: "length (bytes_of ''_S5_'') = 4" by (simp add: bytes_of_def)
    obtain m where m: "matches M p (bytes_of ''_S5_'') = Some m"
      using matches_some [of p "bytes_of ''_S5_''" M] True 1(2) len by auto
    have "\<exists>n. name_ok M table p = Some n" "\<exists>k. pkg_op M p stop = Some k"
      using True 1(2) by (auto simp: name_ok_def pkg_op_def rd_u8_some)
    then obtain hit where hit: "(if m then do { n \<leftarrow> name_ok M table p; k \<leftarrow> pkg_op M p stop; Some (n \<and> k) } else Some False) = Some hit"
      by (cases m) auto
    show ?thesis
    proof (cases hit)
      case False
      have "\<exists>r. find_s5_from M table (p + 1) stop = Some r" using 1(1) [OF _ _ _ False 1(2)] True m hit by blast
      then show ?thesis using True m hit False by (subst find_s5_from.simps) auto
    next
      case True2: True
      then show ?thesis using True m hit parse_s5_some [OF 1(2)] by (subst find_s5_from.simps) auto
    qed
  qed (subst find_s5_from.simps, simp)
qed

lemma find_s5_some: "\<exists>r. find_s5 M table = Some r"
proof (cases "readable table 36")
  case True
  then obtain len where len: "rd_u32 M (table + 4) = Some len"
    using fetch_some [of "table + 4" 4 M] by (auto simp: readable_def rd_u32_def)
  show ?thesis
  proof (cases "readable table len")
    case True
    then have "table + len \<le> PHYS_LIMIT" by (simp add: readable_def)
    from find_s5_from_some [OF this] show ?thesis using len \<open>readable table 36\<close> by (auto simp: find_s5_def)
  qed (use len True in \<open>simp add: find_s5_def\<close>)
qed (simp add: find_s5_def)

lemma parse_fadt_some: "pa + 196 \<le> PHYS_LIMIT \<Longrightarrow> \<exists>f. parse_fadt M pa = Some f"
proof -
  assume pa: "pa + 196 \<le> PHYS_LIMIT"
  have u32: "\<exists>v. rd_u32 M (pa + k) = Some v" if "k \<le> 68" for k
    using fetch_some [of "pa + k" 4 M] pa that by (auto simp: rd_u32_def)
  have x: "\<exists>v. rd_u64m M (pa + 140) = Some v"
    using fetch_some [of "pa + 140" 8 M] pa by (auto simp: rd_u64m_def)
  have gas: "\<exists>v. gas_io_port M (pa + k) = Some v" if "k + 12 \<le> 196" for k
    using fetch_some [of "pa + k + 4" 8 M] pa that by (auto simp: gas_io_port_def rd_u8_some rd_u64m_def)
  show ?thesis
    using u32 [of 4] u32 [of 48] u32 [of 64] u32 [of 68] u32 [of 40] x gas [of 172] gas [of 184] pa
    by (auto simp: parse_fadt_def rd_u8_some)
qed

text \<open>The walk checks 36 bytes of a table before it hands it to \<^verbatim>\<open>parse_fadt\<close>, which reads at least 72.\<close>

lemma fadt_read_past_window:
  "PHYS_LIMIT < pa + 72 \<Longrightarrow> parse_fadt M pa = None"
  by (auto simp: parse_fadt_def rd_u32_def fetch_def Option.bind_eq_None_conv)

lemma find_s5_skip:
  assumes "p + n + 4 \<le> stop" "stop \<le> PHYS_LIMIT" "\<And>i. i < n \<Longrightarrow> M (p + i) \<noteq> 0x5F"
  shows "find_s5_from M table p stop = find_s5_from M table (p + n) stop"
  using assms
proof (induction n arbitrary: p)
  case (Suc n)
  have "M p \<noteq> 0x5F" using Suc.prems(3) [of 0] by simp
  then have "matches M p (bytes_of ''_S5_'') = Some False"
    using Suc.prems by (simp add: bytes_of_def rd_u8_some)
  then have "find_s5_from M table p stop = find_s5_from M table (p + 1) stop"
    using Suc.prems(1) by (subst find_s5_from.simps) simp
  also have "\<dots> = find_s5_from M table (p + 1 + n) stop"
    using Suc.prems Suc.prems(3) [of "Suc _"] by (intro Suc.IH) auto
  finally show ?case by simp
qed simp

text \<open>The AML encoding of the package: one length byte, the element count, and two integers, each bare or with a byte prefix.\<close>

definition aml_int :: "bool \<Rightarrow> byte \<Rightarrow> byte list" where
  "aml_int prefixed v = (if prefixed then [0x0A, v] else [v])"

definition s5_package :: "byte \<Rightarrow> byte \<Rightarrow> byte list \<Rightarrow> byte list \<Rightarrow> byte list" where
  "s5_package lead n ea eb = 0x08 # bytes_of ''_S5_'' @ [0x12, lead, n] @ ea @ eb"

lemma read_aml_int:
  assumes "\<And>i. i < length (aml_int pf v) \<Longrightarrow> M (q + i) = aml_int pf v ! i" "q + length (aml_int pf v) \<le> stop"
    "stop \<le> PHYS_LIMIT" "pf \<or> v \<noteq> 0x0A"
  shows "read_aml_byte M q stop = Some (Some v, q + length (aml_int pf v))"
proof (cases pf)
  case True
  then show ?thesis using assms(1) [of 0] assms(1) [of 1] assms(2,3)
    by (simp add: aml_int_def read_aml_byte_def rd_u8_some Let_def)
next
  case False
  then show ?thesis using assms(1) [of 0] assms(2-)
    by (simp add: aml_int_def read_aml_byte_def rd_u8_some Let_def)
qed

text \<open>Memory holds a byte string at an address.\<close>

definition holds_at :: "memory \<Rightarrow> nat \<Rightarrow> byte list \<Rightarrow> bool" where
  "holds_at M pa bs \<longleftrightarrow> (\<forall>i < length bs. M (pa + i) = bs ! i)"

lemma holds_at_nth: "holds_at M pa bs \<Longrightarrow> i < length bs \<Longrightarrow> M (pa + i) = bs ! i"
  by (simp add: holds_at_def)

lemma holds_at_Nil [simp]: "holds_at M pa []"
  by (simp add: holds_at_def)

lemma holds_at_Cons: "holds_at M pa (x # xs) \<longleftrightarrow> M pa = x \<and> holds_at M (pa + 1) xs"
  by (auto simp: holds_at_def less_Suc_eq_0_disj)

lemma holds_at_append: "holds_at M pa (xs @ ys) \<longleftrightarrow> holds_at M pa xs \<and> holds_at M (pa + length xs) ys"
proof (induction xs arbitrary: pa)
  case Nil
  show ?case by (simp add: holds_at_def)
next
  case (Cons x xs)
  then show ?case by (simp add: holds_at_Cons)
qed

lemma matches_holds: "pa + length xs \<le> PHYS_LIMIT \<Longrightarrow> holds_at M pa xs \<Longrightarrow> matches M pa xs = Some True"
  by (induction xs arbitrary: pa) (simp_all add: holds_at_Cons rd_u8_some)

lemma parse_s5_found:
  assumes "holds_at M q ([lead, n] @ aml_int pa a @ aml_int pb b)" "drop_bit 6 lead = 0"
    "q + 2 + length (aml_int pa a) + length (aml_int pb b) \<le> stop" "stop \<le> PHYS_LIMIT"
    "pa \<or> a \<noteq> 0x0A" "pb \<or> b \<noteq> 0x0A"
  shows "parse_s5_package M q stop = Some (Some (a, b))"
proof -
  have h: "M q = lead" "holds_at M (q + 2) (aml_int pa a)" "holds_at M (q + 2 + length (aml_int pa a)) (aml_int pb b)"
    using assms(1) by (auto simp: holds_at_append holds_at_Cons)
  have "read_aml_byte M (q + 2) stop = Some (Some a, q + 2 + length (aml_int pa a))"
    using holds_at_nth [OF h(2)] assms by (intro read_aml_int) auto
  moreover have "read_aml_byte M (q + 2 + length (aml_int pa a)) stop
      = Some (Some b, q + 2 + length (aml_int pa a) + length (aml_int pb b))"
    using holds_at_nth [OF h(3)] assms by (intro read_aml_int) auto
  ultimately show ?thesis
    using assms h(1) by (simp add: parse_s5_package_def rd_u8_some Let_def)
qed

lemma find_s5_found:
  assumes body: "holds_at M p (pre @ s5_package lead n (aml_int pa a) (aml_int pb b))"
    and pre: "0x5F \<notin> set pre" and p: "table < p" and lead: "drop_bit 6 lead = 0"
    and stop: "p + length pre + length (s5_package lead n (aml_int pa a) (aml_int pb b)) \<le> stop" "stop \<le> PHYS_LIMIT"
    and vals: "pa \<or> a \<noteq> 0x0A" "pb \<or> b \<noteq> 0x0A"
  shows "find_s5_from M table p stop = Some (Some (a, b))"
proof -
  let ?h = "p + length pre + 1"
  have h: "holds_at M p pre" "M (p + length pre) = 0x08" "holds_at M ?h (bytes_of ''_S5_'')" "M (?h + 4) = 0x12"
    "holds_at M (?h + 5) ([lead, n] @ aml_int pa a @ aml_int pb b)"
    using body by (auto simp: s5_package_def holds_at_append holds_at_Cons bytes_of_def eval_nat_numeral)
  have len: "length (s5_package lead n (aml_int pa a) (aml_int pb b)) = 8 + length (aml_int pa a) + length (aml_int pb b)"
    "1 \<le> length (aml_int pa a)" by (simp_all add: s5_package_def bytes_of_def aml_int_def)
  have "M (p + i) \<noteq> 0x5F" if "i < length pre + 1" for i
    using that holds_at_nth [OF h(1), of i] h(2) pre nth_mem [of i pre] by (cases "i < length pre") (metis, simp add: less_Suc_eq)
  then have "find_s5_from M table p stop = find_s5_from M table ?h stop"
    using find_s5_skip [of p "length pre + 1" stop M table] stop len by (simp add: algebra_simps)
  also have "\<dots> = parse_s5_package M (?h + 5) stop"
  proof -
    have "matches M ?h (bytes_of ''_S5_'') = Some True"
      using h(3) stop len by (intro matches_holds) (auto simp: bytes_of_def)
    moreover have "name_ok M table ?h = Some True"
      using h(2) stop len p by (auto simp: name_ok_def rd_u8_some)
    moreover have "pkg_op M ?h stop = Some True"
      using h(4) stop len by (auto simp: pkg_op_def rd_u8_some)
    ultimately show ?thesis using stop len by (subst find_s5_from.simps) simp
  qed
  also have "\<dots> = Some (Some (a, b))"
    using h(5) lead stop len vals by (intro parse_s5_found) auto
  finally show ?thesis .
qed

lemma emits_await_sci: "emits (\<lambda>_ ws. ws = []) (await_sci B p n)"
  by (induction n) (auto intro!: emits_after_read [OF emits_in(2)] intro: emits_mono [OF emits_return])

lemma emits_enable_acpi: "emits (\<lambda>_ ws. ws = [] \<or> ws = [Out8 (smi_cmd f) (acpi_enable f)]) (enable_acpi B f)"
proof -
  have "emits (\<lambda>_ ws. ws = [Out8 (smi_cmd f) (acpi_enable f)])
      (outb B (smi_cmd f) (acpi_enable f) \<bind> (\<lambda>_. await_sci B (pm1a_cnt f) 300))"
    by (rule emits_bind [OF emits_out(1) emits_await_sci]) simp
  then show ?thesis
    unfolding enable_acpi_def
    by (intro emits_if emits_after_read [OF emits_in(2)]) (auto intro: emits_mono [OF emits_return] elim: emits_mono)
qed

lemma emits_sleep:
  "emits (\<lambda>_ ws. ws = Out16 (pm1a_cnt f) (sleep_value a) #
      (if pm1b_cnt f \<noteq> 0 \<and> pm1b_cnt f \<le> 0xFFFF then [Out16 (pm1b_cnt f) (sleep_value b)] else [])) (sleep_writes B f a b)"
  unfolding sleep_writes_def
  by (rule emits_after_write [OF emits_out(2)])
    (auto intro: emits_mono [OF emits_return] emits_mono [OF emits_out(2)])

lemma sleep_value_bits: "uint (sleep_value t) = uint t mod 8 * 2 ^ 10 + 2 ^ 13"
proof -
  define x :: u16 where "x = ucast t AND 7"
  have "(7 :: u16) = mask 3" by (simp add: mask_numeral)
  then have "x = take_bit 3 (ucast t)" by (simp add: x_def take_bit_eq_mask)
  moreover have "uint (ucast t :: u16) = uint t" by transfer simp
  ultimately have ux: "uint x = uint t mod 8" by (simp only: unsigned_take_bit_eq) (simp add: take_bit_eq_mod)
  then have "uint x \<in> {0..<8}" by simp
  then have "x \<in> word_of_int ` {0..<8}" by (metis image_eqI word_of_int_uint)
  moreover have "{0..<8 :: int} = {0, 1, 2, 3, 4, 5, 6, 7}" by auto
  ultimately have "x \<in> {0, 1, 2, 3, 4, 5, 6, 7}" by auto
  then have "uint (push_bit 10 x OR SLP_EN) = uint x * 2 ^ 10 + 2 ^ 13" by (auto simp: SLP_EN_def)
  then show ?thesis by (simp add: sleep_value_def x_def [symmetric] ux)
qed

section \<open>Properties\<close>

text \<open>C25 The search for the power-off data never faults. Whatever physical memory holds, the search for the RSDP, the walk over the root table
  and the scans for the sleep values stay inside the 4 GiB that are mapped, and end; the one exception is the FADT itself: provided no
  table with its signature starts in the last 196 mapped bytes, \<^verbatim>\<open>poweroff\<close> reaches its port writes or reports what is missing.\<close>

theorem acpi_discovery_safe:
  assumes "\<And>t. holds_at M t (bytes_of ''FACP'') \<Longrightarrow> t + 196 \<le> PHYS_LIMIT"
  shows "\<exists>d. discover M = Some d"
proof -
  have "\<exists>s'. note_table M [M t, M (t + 1), M (t + 2), M (t + 3)] t s = Some s'" for t s
  proof -
    have "[M t, M (t + 1), M (t + 2), M (t + 3)] = bytes_of ''FACP'' \<Longrightarrow> t + 196 \<le> PHYS_LIMIT"
      using assms [of t] by (auto simp: bytes_of_def holds_at_Cons eval_nat_numeral)
    then show ?thesis using parse_fadt_some [of t M] by (auto simp: note_table_def)
  qed
  from for_each_sdt_some [of "note_table M" M "(None, [])", OF this] obtain f ss
    where walk: "for_each_sdt M (note_table M) (None, []) = Some (f, ss)" by auto
  have "\<exists>r. first_s5 M ts = Some r" for ts
  proof (induction ts)
    case (Cons t ts)
    obtain r where "find_s5 M t = Some r" using find_s5_some by blast
    then show ?case using Cons by (cases r) simp_all
  qed simp
  note s5 = this
  show ?thesis
  proof (cases f)
    case (Some g)
    obtain r where "first_s5 M (dsdt g # ss) = Some r" using s5 by blast
    then show ?thesis using walk Some by (cases r) (auto simp: discover_def simp del: first_s5.simps)
  qed (use walk in \<open>simp add: discover_def\<close>)
qed

theorem acpi_discovery_safe_witness:
  "\<exists>d. discover (\<lambda>_. 0) = Some d"
  by (rule acpi_discovery_safe) (simp add: bytes_of_def holds_at_Cons)

text \<open>The sleep values are found. A DSDT or SSDT in mapped memory whose body holds, after bytes without an underscore, the package \<^verbatim>\<open>_S5_\<close>
  with a one-byte length and two integers, each bare or with a byte prefix, gives exactly those two integers.\<close>

theorem s5_values_found:
  assumes "holds_at M (t + 36) (pre @ s5_package lead n (aml_int pa a) (aml_int pb b))" "0x5F \<notin> set pre"
    and "drop_bit 6 lead = 0" "pa \<or> a \<noteq> 0x0A" "pb \<or> b \<noteq> 0x0A"
    and "rd_u32 M (t + 4) = Some len" "readable t len"
    and "36 + length pre + length (s5_package lead n (aml_int pa a) (aml_int pb b)) \<le> len"
  shows "find_s5 M t = Some (Some (a, b))"
proof -
  have "readable t 36" "36 \<le> len" using assms(7,8) by (auto simp: readable_def)
  moreover have "find_s5_from M t (t + 36) (t + len) = Some (Some (a, b))"
    using assms by (intro find_s5_found) (auto simp: readable_def)
  ultimately show ?thesis using assms(6,7) by (simp add: find_s5_def)
qed

definition demo_dsdt :: memory where
  "demo_dsdt pa = (let bs = [68, 83, 68, 84, 50, 0, 0, 0] @ replicate 28 0 @ [0x10] @
      s5_package 6 4 (aml_int True 5) (aml_int False 0) @ [0, 0] in
    if 4096 \<le> pa \<and> pa < 4096 + length bs then bs ! (pa - 4096) else 0)"

theorem s5_values_found_witness: "find_s5 demo_dsdt 4096 = Some (Some (5, 0))"
proof (rule s5_values_found [where pre = "[0x10]" and lead = 6 and n = 4 and pa = True and pb = False and len = 50])
  show "holds_at demo_dsdt (4096 + 36) ([0x10] @ s5_package 6 4 (aml_int True 5) (aml_int False 0))"
    by (simp add: holds_at_Cons s5_package_def aml_int_def bytes_of_def demo_dsdt_def nth_append)
  show "rd_u32 demo_dsdt (4096 + 4) = Some 50"
    by (simp add: rd_u32_def fetch_def PHYS_LIMIT_def demo_dsdt_def nth_append upt_rec s5_package_def aml_int_def bytes_of_def)
qed (simp_all add: readable_def PHYS_LIMIT_def s5_package_def aml_int_def bytes_of_def)

text \<open>C26 Power-off touches only the power-management ports. When the tables name a usable PM1a port, whatever the chipset answers,
  \<^verbatim>\<open>poweroff\<close> writes at most the ACPI-enable byte to the SMI port and then the sleep request to PM1a, and to PM1b when there is one: the three bits of
  the sleep type with SLP\_EN, and no other bit.\<close>

theorem poweroff_writes:
  assumes "discover M = Some (Inr (f, a, b))" "0 < pm1a_cnt f" "pm1a_cnt f \<le> 0xFFFF"
  shows "\<exists>m. poweroff B M = Some m \<and> emits (\<lambda>_ ws. \<exists>pre.
      ws = pre @ Out16 (pm1a_cnt f) (sleep_value a) #
        (if pm1b_cnt f \<noteq> 0 \<and> pm1b_cnt f \<le> 0xFFFF then [Out16 (pm1b_cnt f) (sleep_value b)] else []) \<and>
      (pre = [] \<or> pre = [Out8 (smi_cmd f) (acpi_enable f)])) m \<and>
    uint (sleep_value a) = uint a mod 8 * 2 ^ 10 + 2 ^ 13"
proof -
  define sl where "sl = Out16 (pm1a_cnt f) (sleep_value a) #
    (if pm1b_cnt f \<noteq> 0 \<and> pm1b_cnt f \<le> 0xFFFF then [Out16 (pm1b_cnt f) (sleep_value b)] else [])"
  have "emits (\<lambda>_ ws. ws = sl) (sleep_writes B f a b \<bind> (\<lambda>_. State_Monad.return ''PM1 write ignored''))"
    unfolding sl_def by (rule emits_bind [OF emits_sleep emits_return]) simp
  then have "emits (\<lambda>_ ws. \<exists>pre. ws = pre @ sl \<and> (pre = [] \<or> pre = [Out8 (smi_cmd f) (acpi_enable f)]))
    (enable_acpi B f \<bind> (\<lambda>_. sleep_writes B f a b \<bind> (\<lambda>_. State_Monad.return ''PM1 write ignored'')))"
    by (rule emits_bind [OF emits_enable_acpi]) auto
  then show ?thesis using assms sleep_value_bits [of a] by (simp add: poweroff_def sl_def)
qed

text \<open>A small machine: the RSDP in the EBDA, an RSDT with one entry, a FADT and a DSDT.\<close>

definition demo_memory :: memory where
  "demo_memory pa =
    (if pa = 0x40E then 0x80
     else if pa < 0x800 then 0
     else if pa < 0x900 then (let bs = RSDP_SIG @ [216] @ replicate 6 0 @ [0, 0, 9, 0, 0] in if pa < 0x814 then bs ! (pa - 0x800) else 0)
     else if pa < 0xA00 then (let bs = [82, 83, 68, 84, 40, 0, 0, 0] @ replicate 28 0 @ [0, 10, 0, 0] in
       if pa < 0x928 then bs ! (pa - 0x900) else 0)
     else if pa < 0xB00 then (let bs = bytes_of ''FACP'' @ [116, 0, 0, 0] @ replicate 32 0 @
         [0, 11, 0, 0, 0, 0, 0, 0, 0xB2, 0, 0, 0, 0xA0] @ replicate 11 0 @ [4, 6, 0, 0, 0, 0, 0, 0] in
       if pa < 0xA48 then bs ! (pa - 0xA00) else 0)
     else demo_dsdt (pa - 0xB00 + 4096))"

definition demo_fadt :: fadt where
  "demo_fadt = \<lparr>smi_cmd = 0xB2, acpi_enable = 0xA0, pm1a_cnt = 0x604, pm1b_cnt = 0, dsdt = 0xB00\<rparr>"

lemma sum_bytes_numeral:
  "sum_bytes M pa (numeral k) acc = do { b \<leftarrow> rd_u8 M pa; sum_bytes M (pa + 1) (pred_numeral k) (acc + b) }"
  by (simp add: numeral_eq_Suc)

lemma demo_rsdp: "find_rsdp demo_memory = Some (Some 0x800)"
proof -
  have "rd_u16 demo_memory 0x40E = Some 0x80"
    by (simp add: rd_u16_def fetch_def PHYS_LIMIT_def demo_memory_def upt_rec)
  moreover have "matches demo_memory 0x800 RSDP_SIG = Some True"
    by (rule matches_holds) (simp_all add: RSDP_SIG_def bytes_of_def PHYS_LIMIT_def holds_at_Cons demo_memory_def nth_append)
  moreover have "checksum_ok demo_memory 0x800 20 = Some True"
    by (simp add: checksum_ok_def readable_def PHYS_LIMIT_def sum_bytes_numeral rd_u8_def demo_memory_def RSDP_SIG_def bytes_of_def nth_append)
  ultimately show ?thesis
    by (simp add: find_rsdp_def scan_rsdp_def scan_rsdp_from.simps)
qed

lemma demo_tables: "for_each_sdt demo_memory (note_table demo_memory) (None, []) = Some (Some demo_fadt, [])"
proof -
  have root: "root_table demo_memory 0x800 = Some (0x900, 4)"
    by (simp add: root_table_def rd_u8_def rd_u32_def fetch_def PHYS_LIMIT_def demo_memory_def upt_rec RSDP_SIG_def bytes_of_def nth_append)
  have len: "rd_u32 demo_memory 0x904 = Some 40" "rd_u32 demo_memory 0x924 = Some 0xA00"
    by (simp_all add: rd_u32_def fetch_def PHYS_LIMIT_def demo_memory_def upt_rec nth_append)
  have fadt: "parse_fadt demo_memory 0xA00 = Some demo_fadt"
    by (simp add: parse_fadt_def rd_u8_def rd_u32_def fetch_def PHYS_LIMIT_def demo_memory_def upt_rec bytes_of_def nth_append demo_fadt_def)
  have sig: "[demo_memory 0xA00, demo_memory 0xA01, demo_memory 0xA02, demo_memory 0xA03] = bytes_of ''FACP''"
    by (simp add: demo_memory_def bytes_of_def)
  have "note_table demo_memory [demo_memory 0xA00, demo_memory 0xA01, demo_memory 0xA02, demo_memory 0xA03] 0xA00 (None, []) =
    Some (Some demo_fadt, [])" unfolding sig by (simp add: note_table_def fadt)
  then show ?thesis using demo_rsdp root len
    by (simp add: for_each_sdt_def readable_def PHYS_LIMIT_def rd_u8_def)
qed

lemma demo_s5: "find_s5 demo_memory 0xB00 = Some (Some (5, 0))"
proof -
  have body: "holds_at demo_memory 0xB24 ([0x10] @ s5_package 6 4 (aml_int True 5) (aml_int False 0))"
    by (simp add: holds_at_Cons s5_package_def aml_int_def bytes_of_def demo_memory_def demo_dsdt_def nth_append)
  have "find_s5_from demo_memory 0xB00 0xB24 0xB32 = Some (Some (5, 0))"
    by (rule find_s5_found [OF body]) (simp_all add: PHYS_LIMIT_def s5_package_def aml_int_def bytes_of_def)
  moreover have "rd_u32 demo_memory 0xB04 = Some 50"
    by (simp add: rd_u32_def fetch_def PHYS_LIMIT_def demo_memory_def demo_dsdt_def nth_append upt_rec s5_package_def aml_int_def bytes_of_def)
  ultimately show ?thesis by (simp add: find_s5_def readable_def PHYS_LIMIT_def)
qed

theorem poweroff_writes_witness:
  "\<exists>m. poweroff floating demo_memory = Some m \<and> emits (\<lambda>_ ws. \<exists>pre. ws = pre @ [Out16 0x604 (sleep_value 5)] \<and>
      (pre = [] \<or> pre = [Out8 0xB2 0xA0])) m \<and> uint (sleep_value 5) = 0x3400"
proof -
  have "discover demo_memory = Some (Inr (demo_fadt, 5, 0))"
    using demo_s5 by (simp add: discover_def demo_tables) (simp add: demo_fadt_def)
  from poweroff_writes [OF this, of floating] show ?thesis by (simp add: demo_fadt_def)
qed

end
