(* ===== verification/Boot_Image.thy ===== *)
theory Boot_Image
  imports Ata Store
begin

text \<open>
  The image builder, \<^verbatim>\<open>src/main.rs\<close> of the workspace root: the layout of the bootable device (boot sector with its
  header, second stage, kernel, volume). The assembled boot stages and the flattened kernel are byte strings the builder
  is given, and the volume is a snapshot of a RAM disk formatted by the engine; the optional test data is an action on the
  fresh store. Assertions and \<^verbatim>\<open>expect\<close>s that fail are \<^term>\<open>None\<close>. Running the tools
  and the emulator is not modelled.
\<close>

unbundle bit_operations_syntax

definition STAGE2_LBA :: nat where "STAGE2_LBA = 1"
definition STAGE2_MAX_SECTORS :: nat where "STAGE2_MAX_SECTORS = 63"
definition KERNEL_LBA :: nat where "KERNEL_LBA = 64"
definition KERNEL_LOAD :: nat where "KERNEL_LOAD = 0x00200000"
definition IMG_SECTORS :: nat where "IMG_SECTORS = 131072"

definition H_DATA_LBA :: nat where "H_DATA_LBA = 0x1BC"
definition H_S2_LBA :: nat where "H_S2_LBA = 0x1C4"
definition H_S2_SECS :: nat where "H_S2_SECS = 0x1C8"
definition H_K_LBA :: nat where "H_K_LBA = 0x1CC"
definition H_K_SECS :: nat where "H_K_SECS = 0x1D0"
definition H_K_LOAD :: nat where "H_K_LOAD = 0x1D4"
definition H_K_ENTRY :: nat where "H_K_ENTRY = 0x1D8"
definition H_SYS_GUID :: nat where "H_SYS_GUID = 0x1DC"

definition sectors_of :: "nat \<Rightarrow> nat" where
  "sectors_of len = (len + SECTOR - 1) div SECTOR mod 2 ^ 32"

definition align_up :: "nat \<Rightarrow> nat \<Rightarrow> nat" where
  "align_up v a = (v + a - 1) div a * a"

text \<open>\<^verbatim>\<open>put_u16\<close>, \<^verbatim>\<open>put_u32\<close> and \<^verbatim>\<open>put_u64\<close> differ in the width only.\<close>

definition put_le :: "nat \<Rightarrow> byte list \<Rightarrow> nat \<Rightarrow> nat \<Rightarrow> byte list" where
  "put_le k b off v = splice b off (le_bytes k v)"

text \<open>The generator behind \<^verbatim>\<open>random_guid\<close>: splitmix64, from a seed mixed of the clock, the process and an address.\<close>

definition splitmix :: "64 word \<Rightarrow> 64 word \<times> 64 word" where
  "splitmix s =
    (let s = s + 0x9E3779B97F4A7C15;
         z = (s XOR drop_bit 30 s) * 0xBF58476D1CE4E5B9;
         z = (z XOR drop_bit 27 z) * 0x94D049BB133111EB
     in (z XOR drop_bit 31 z, s))"

definition random_guid :: "64 word \<Rightarrow> byte list" where
  "random_guid s = (let (a, s) = splitmix s; (b, s) = splitmix s in le_bytes 8 (unat a) @ le_bytes 8 (unat b))"

definition data_start :: "nat \<Rightarrow> nat" where
  "data_start k_secs = align_up (KERNEL_LBA + k_secs) 2048"

definition put_header :: "byte list \<Rightarrow> nat \<Rightarrow> nat \<Rightarrow> nat \<Rightarrow> byte list \<Rightarrow> byte list" where
  "put_header img data_lba s2_secs k_secs guid =
    (let img = put_le 8 img H_DATA_LBA data_lba;
         img = put_le 4 img H_S2_LBA STAGE2_LBA;
         img = put_le 2 img H_S2_SECS s2_secs;
         img = put_le 4 img H_K_LBA KERNEL_LBA;
         img = put_le 4 img H_K_SECS k_secs;
         img = put_le 4 img H_K_LOAD KERNEL_LOAD;
         img = put_le 4 img H_K_ENTRY KERNEL_LOAD
     in splice img H_SYS_GUID guid)"

definition build_volume :: "nat \<Rightarrow> (mem_dev store, unit) act \<Rightarrow> byte list option" where
  "build_volume n fill =
    (case mem_new n of None \<Rightarrow> None | Some d \<Rightarrow>
     case store_format mem_ops d of
       Some (Inr st, _) \<Rightarrow> (case fill st of Some (Inr _, st) \<Rightarrow> Some (snapshot (dev st)) | _ \<Rightarrow> None)
     | _ \<Rightarrow> None)"

definition build_image :: "byte list \<Rightarrow> byte list \<Rightarrow> byte list \<Rightarrow> byte list \<Rightarrow> (mem_dev store, unit) act \<Rightarrow> byte list option" where
  "build_image stage1 stage2 krn guid fill =
    (if length stage1 \<noteq> SECTOR then None
     else let s2_secs = sectors_of (length stage2) in
     if \<not> s2_secs \<le> STAGE2_MAX_SECTORS then None
     else let k_secs = sectors_of (length krn); data_lba = data_start k_secs in
     if \<not> data_lba + 4096 < IMG_SECTORS then None
     else
       let img = replicate (IMG_SECTORS * SECTOR) 0;
           img = splice img 0 stage1;
           img = put_header img data_lba s2_secs k_secs guid;
           s2_off = STAGE2_LBA * SECTOR; k_off = KERNEL_LBA * SECTOR in
       if \<not> (s2_off + length stage2 \<le> length img \<and> k_off + length krn \<le> length img) then None
       else
         let img = splice img s2_off stage2;
             img = splice img k_off krn;
             voff = data_lba * SECTOR in
         case build_volume (IMG_SECTORS - data_lba) fill of None \<Rightarrow> None
         | Some vol \<Rightarrow>
             if length vol \<noteq> length img - voff then None
             else Some (splice img voff vol))"

section \<open>Reading the layout back\<close>

lemma le_at_splice_other:
  "off + length ys \<le> length xs \<Longrightarrow> a + k \<le> length xs \<Longrightarrow> a + k \<le> off \<or> off + length ys \<le> a \<Longrightarrow>
    le_at (splice xs off ys) a k = le_at xs a k"
  by (simp add: le_at_def slice_splice_disjoint)

lemma length_put_le [simp]: "off + k \<le> length xs \<Longrightarrow> length (put_le k xs off v) = length xs"
  by (simp add: put_le_def)

lemma le_at_put_same: "off + k \<le> length xs \<Longrightarrow> v < 256 ^ k \<Longrightarrow> le_at (put_le k xs off v) off k = v"
  using slice_splice_same [of off "le_bytes k v" xs] by (simp add: le_at_def put_le_def of_le_le_bytes)

lemma le_at_put_other:
  "off + k \<le> length xs \<Longrightarrow> a + j \<le> length xs \<Longrightarrow> a + j \<le> off \<or> off + k \<le> a \<Longrightarrow>
    le_at (put_le k xs off v) a j = le_at xs a j"
  by (simp add: put_le_def le_at_splice_other)

lemma slice_put_other:
  "off + k \<le> length xs \<Longrightarrow> b \<le> length xs \<Longrightarrow> b \<le> off \<or> off + k \<le> a \<Longrightarrow>
    slice (put_le k xs off v) a b = slice xs a b"
  by (simp add: put_le_def slice_splice_disjoint)

lemmas header_offsets = H_DATA_LBA_def H_S2_LBA_def H_S2_SECS_def H_K_LBA_def H_K_SECS_def H_K_LOAD_def
  H_K_ENTRY_def H_SYS_GUID_def STAGE2_LBA_def KERNEL_LBA_def KERNEL_LOAD_def

lemma header_read_back:
  assumes "512 \<le> length img" "length guid = 16" "d < 2 ^ 64" "s2 < 2 ^ 16" "k < 2 ^ 32"
  defines "out \<equiv> put_header img d s2 k guid"
  shows "length out = length img"
    and "parse_header out = \<lparr>version = le_at img 0x1B8 2, data_loc_lba = d, stage2_lba = 1, stage2_sectors = s2,
      kernel_lba = 64, kernel_sectors = k, kernel_load = 0x200000, kernel_entry = 0x200000, sys_guid = guid\<rparr>"
    and "a \<le> b \<Longrightarrow> b \<le> 0x1BC \<or> 0x1EC \<le> a \<and> b \<le> length img \<Longrightarrow> slice out a b = slice img a b"
proof -
  show "length out = length img" using assms by (simp add: put_header_def header_offsets Let_def)
  show "parse_header out = \<lparr>version = le_at img 0x1B8 2, data_loc_lba = d, stage2_lba = 1, stage2_sectors = s2,
      kernel_lba = 64, kernel_sectors = k, kernel_load = 0x200000, kernel_entry = 0x200000, sys_guid = guid\<rparr>"
    using assms slice_splice_same [of 476 guid]
    by (simp add: parse_header_def put_header_def header_offsets Let_def le_at_put_same le_at_put_other le_at_splice_other)
  show "a \<le> b \<Longrightarrow> b \<le> 0x1BC \<or> 0x1EC \<le> a \<and> b \<le> length img \<Longrightarrow> slice out a b = slice img a b"
    using assms
    by (auto simp: put_header_def header_offsets Let_def slice_splice_disjoint slice_put_other)
qed

lemma sectors_of_bound: "len \<le> sectors_of len * SECTOR \<or> 2 ^ 32 * SECTOR < len + SECTOR"
proof (cases "(len + SECTOR - 1) div SECTOR < 2 ^ 32")
  case True
  then have "sectors_of len = (len + 511) div 512" by (simp add: sectors_of_def SECTOR_def)
  then show ?thesis by (simp add: SECTOR_def) linarith
next
  case False
  then show ?thesis by (simp add: SECTOR_def) linarith
qed

lemma data_start_bound: "KERNEL_LBA + k \<le> data_start k" "2048 dvd data_start k"
proof -
  have "v \<le> (v + 2047) div 2048 * 2048" for v :: nat by linarith
  from this [of "KERNEL_LBA + k"] show "KERNEL_LBA + k \<le> data_start k"
    by (simp add: data_start_def align_up_def)
  show "2048 dvd data_start k" by (simp add: data_start_def align_up_def)
qed

text \<open>The boot sector the assembler produces: the magic and the signature are in place.\<close>

definition boot_stage :: "byte list \<Rightarrow> bool" where
  "boot_stage s \<longleftrightarrow> length s = SECTOR \<and> slice s 0x1B0 0x1B8 = MBR_MAGIC \<and> s ! 510 = 0x55 \<and> s ! 511 = 0xAA"

lemma slice_nth_eq:
  assumes "slice xs a b = slice ys a b" "a \<le> i" "i < b" "b \<le> length xs" "b \<le> length ys"
  shows "xs ! i = ys ! i"
proof -
  have "slice xs a b ! (i - a) = slice ys a b ! (i - a)" using assms(1) by simp
  then show ?thesis using assms(2-) by simp
qed

lemma parse_header_sector:
  assumes "512 \<le> length x"
  shows "parse_header (slice x 0 512) = parse_header x"
  using assms by (simp add: parse_header_def le_at_def slice_slice)

lemma parse_mbr_boot_stage:
  assumes "512 \<le> length x" "boot_stage s" "slice x 0x1B0 0x1B8 = slice s 0x1B0 0x1B8" "slice x 510 512 = slice s 510 512"
  shows "parse_mbr (slice x 0 512) = TablesOs (parse_header x)"
proof -
  have "slice x 0 512 ! 510 = s ! 510" "slice x 0 512 ! 511 = s ! 511"
    using slice_nth_eq [OF assms(4), of 510] slice_nth_eq [OF assms(4), of 511] assms(1,2)
    by (simp_all add: boot_stage_def SECTOR_def)
  then show ?thesis using assms
    by (simp add: parse_mbr_def boot_stage_def slice_slice parse_header_sector Let_def)
qed

text \<open>Without test data the volume is a freshly formatted one, of the size asked for, and the engine mounts it.\<close>

lemma build_volume_fresh:
  assumes "FIRST_DATA_PAGE + 1 < n div PAGE_SECTORS" "n * SECTOR < 2 ^ 64"
  shows "\<exists>vol pg. build_volume n (returnM ()) = Some vol \<and> length vol = n * SECTOR \<and>
    store_open mem_ops (from_snapshot vol) = Some (Inr pg, dev pg) \<and> total_pages (sb pg) = n div PAGE_SECTORS \<and> catalog_head (sb pg) = 0"
proof -
  define d where "d = blank_disk n None"
  have d: "mem_new n = Some d" "mem_good d" "powered d" "cut_after d = None" "sectors d = n" "length (data d) = n * SECTOR"
    using assms(2) by (auto simp: d_def mem_new_def blank_disk_def mem_good_def SECTOR_def)
  from format_mounts [OF d(2-4)] assms(1) d(5) obtain pg pg2 where pg: "format mem_ops d = Some (Inr pg, dev pg)"
    "mount mem_ops (attach None (dev pg)) = Some (Inr pg2, dev pg2)" "total_pages (sb pg) = n div PAGE_SECTORS"
    "catalog_head (sb pg) = 0" "shows_volume pg2 (sb pg) (content mem_media pg)" by auto
  have "length (data (dev pg)) = n * SECTOR"
    using uncut_format pg(1) d(4,6) unfolding uncut_def by metis
  moreover have "attach None (dev pg) = from_snapshot (snapshot (dev pg))"
    by (simp add: attach_def from_snapshot_def)
  moreover have "build_volume n (returnM ()) = Some (snapshot (dev pg))"
    using d(1) pg(1) by (simp add: build_volume_def store_format_def)
  moreover have "sb pg2 = sb pg" using pg(5) by (simp add: shows_volume_def)
  ultimately show ?thesis using pg(2-4) by (auto simp: store_open_def snapshot_def)
qed

lemma build_volume_room:
  assumes "build_volume n fill = Some vol"
  shows "FIRST_DATA_PAGE + 1 < n div PAGE_SECTORS" "n * SECTOR < 2 ^ 64"
  using assms
  by (auto simp: build_volume_def mem_new_def store_format_def format_def mem_ops_def bindM_def Let_def not_le
      split: option.splits sum.splits if_splits prod.splits)

section \<open>Properties\<close>

text \<open>C24 The image is laid out as its header says. If the builder accepts its inputs, the boot sector of the image
  parses, with the kernel's own parser, to a header that names the true positions; and at those positions lie, untouched by each
  other, the second stage, the kernel and the volume, which starts on a megabyte boundary after the kernel and fills the rest of the device.
  Without test data, the engine opens that volume and finds no table.\<close>

theorem image_matches_header:
  assumes img: "build_image stage1 stage2 krn guid fill = Some img"
    and s1: "boot_stage stage1" and g: "length guid = 16"
  defines "d \<equiv> data_start (sectors_of (length krn))"
  shows "parse_mbr (slice img 0 SECTOR) = TablesOs
      \<lparr>version = le_at stage1 0x1B8 2, data_loc_lba = d, stage2_lba = 1, stage2_sectors = sectors_of (length stage2),
       kernel_lba = 64, kernel_sectors = sectors_of (length krn), kernel_load = 0x200000, kernel_entry = 0x200000,
       sys_guid = guid\<rparr> \<and>
    slice img (1 * SECTOR) (1 * SECTOR + length stage2) = stage2 \<and>
    slice img (64 * SECTOR) (64 * SECTOR + length krn) = krn \<and>
    64 * SECTOR + length krn \<le> d * SECTOR \<and> 2048 dvd d \<and>
    build_volume (IMG_SECTORS - d) fill = Some (slice img (d * SECTOR) (IMG_SECTORS * SECTOR)) \<and>
    (fill = returnM () \<longrightarrow> (\<exists>pg. store_open mem_ops (from_snapshot (slice img (d * SECTOR) (IMG_SECTORS * SECTOR)))
      = Some (Inr pg, dev pg) \<and> catalog_head (sb pg) = 0))"
proof -
  define k where "k = sectors_of (length krn)"
  define s2 where "s2 = sectors_of (length stage2)"
  define i1 where "i1 = splice (replicate (IMG_SECTORS * SECTOR) 0) 0 stage1"
  define i2 where "i2 = put_header i1 d s2 k guid"
  define i3 where "i3 = splice i2 SECTOR stage2"
  define i4 where "i4 = splice i3 (64 * SECTOR) krn"
  have len1: "length i1 = IMG_SECTORS * SECTOR" using s1 by (simp add: i1_def boot_stage_def IMG_SECTORS_def SECTOR_def)
  obtain vol where ok: "s2 \<le> 63" "d + 4096 < IMG_SECTORS" "SECTOR + length stage2 \<le> length i2" "64 * SECTOR + length krn \<le> length i2"
    "img = splice i4 (d * SECTOR) vol" "length vol = length i4 - d * SECTOR" "build_volume (IMG_SECTORS - d) fill = Some vol"
    using img s1 unfolding build_image_def Let_def i4_def i3_def i2_def i1_def d_def k_def s2_def
    by (auto simp: boot_stage_def STAGE2_MAX_SECTORS_def STAGE2_LBA_def KERNEL_LBA_def split: if_splits option.splits)
  have hdr: "length i2 = IMG_SECTORS * SECTOR"
    "parse_header i2 = \<lparr>version = le_at i1 0x1B8 2, data_loc_lba = d, stage2_lba = 1, stage2_sectors = s2,
      kernel_lba = 64, kernel_sectors = k, kernel_load = 0x200000, kernel_entry = 0x200000, sys_guid = guid\<rparr>"
    and keep: "\<And>a b. a \<le> b \<Longrightarrow> b \<le> 0x1BC \<or> 0x1EC \<le> a \<and> b \<le> length i1 \<Longrightarrow> slice i2 a b = slice i1 a b"
    using header_read_back [of i1 guid d s2 k] len1 g ok
    by (simp_all add: IMG_SECTORS_def SECTOR_def i2_def k_def sectors_of_def)
  have small: "length stage2 \<le> 63 * SECTOR" "length krn \<le> k * SECTOR"
    using sectors_of_bound [of "length stage2"] sectors_of_bound [of "length krn"] ok(1,3,4) hdr(1)
    by (auto simp: s2_def k_def IMG_SECTORS_def SECTOR_def)
  have order: "64 * SECTOR + length krn \<le> d * SECTOR" "d * SECTOR \<le> IMG_SECTORS * SECTOR"
    using small(2) data_start_bound(1) [of k] ok(2) by (simp_all add: d_def k_def KERNEL_LBA_def SECTOR_def IMG_SECTORS_def)
  have len: "length i3 = IMG_SECTORS * SECTOR" "length i4 = IMG_SECTORS * SECTOR"
    using ok hdr(1) by (simp_all add: i3_def i4_def)
  note disjoint = slice_splice_disjoint
  have low: "slice img a b = slice i3 a b" if "b \<le> 64 * SECTOR" for a b
    unfolding ok(5) i4_def using that ok(4,6) len hdr(1) order
    by (simp add: disjoint SECTOR_def IMG_SECTORS_def)
  have sector: "slice img 0 512 = slice i2 0 512"
    using low [of 512 0] ok(3) hdr(1) by (simp add: i3_def disjoint SECTOR_def IMG_SECTORS_def)
  have "parse_mbr (slice i2 0 512) = TablesOs (parse_header i2)"
  proof (rule parse_mbr_boot_stage [OF _ s1])
    show "512 \<le> length i2" using hdr(1) by (simp add: IMG_SECTORS_def SECTOR_def)
    show "slice i2 0x1B0 0x1B8 = slice stage1 0x1B0 0x1B8" "slice i2 510 512 = slice stage1 510 512"
      using keep s1 len1 by (simp_all add: i1_def boot_stage_def slice_splice_inside SECTOR_def IMG_SECTORS_def)
  qed
  moreover have "le_at i1 0x1B8 2 = le_at stage1 0x1B8 2"
    using s1 by (simp add: le_at_def i1_def boot_stage_def slice_splice_inside SECTOR_def IMG_SECTORS_def)
  moreover have "slice img SECTOR (SECTOR + length stage2) = stage2"
    using low [of "SECTOR + length stage2" SECTOR] small ok(3) by (simp add: i3_def slice_splice_same)
  moreover have "slice img (64 * SECTOR) (64 * SECTOR + length krn) = krn"
  proof -
    have "slice img (64 * SECTOR) (64 * SECTOR + length krn) = slice i4 (64 * SECTOR) (64 * SECTOR + length krn)"
      unfolding ok(5) using ok(6) len order by (intro disjoint) (auto intro: order_trans)
    then show ?thesis using ok(4) len hdr(1) slice_splice_same [of "64 * SECTOR" krn i3] by (simp add: i4_def)
  qed
  moreover have "slice img (d * SECTOR) (IMG_SECTORS * SECTOR) = vol"
    unfolding ok(5) using ok(6) len order slice_splice_same [of "d * SECTOR" vol i4] by simp
  moreover have "\<exists>pg. store_open mem_ops (from_snapshot vol) = Some (Inr pg, dev pg) \<and> catalog_head (sb pg) = 0" if "fill = returnM ()"
    using build_volume_fresh [OF build_volume_room [OF ok(7)]] ok(7) that by auto
  ultimately show ?thesis
    using sector hdr(2) order data_start_bound(2) ok(7) by (simp add: SECTOR_def s2_def k_def d_def)
qed

definition demo_stage1 :: "byte list" where
  "demo_stage1 = replicate 432 0x90 @ MBR_MAGIC @ [1, 0] @ replicate 68 0 @ [0x55, 0xAA]"

theorem image_matches_header_witness:
  "\<exists>img. build_image demo_stage1 [0xF4] [0xEB, 0xFE] (replicate 16 7) (returnM ()) = Some img \<and>
    slice img (64 * SECTOR) (64 * SECTOR + 2) = [0xEB, 0xFE]"
proof -
  have len: "length demo_stage1 = 512" by (simp add: demo_stage1_def MBR_MAGIC_def)
  have s1: "boot_stage demo_stage1"
    using len by (simp add: boot_stage_def demo_stage1_def MBR_MAGIC_def SECTOR_def slice_def nth_append)
  have d: "sectors_of (Suc (Suc 0)) = Suc 0" "sectors_of (Suc 0) = Suc 0" "data_start (Suc 0) = 2048"
    by (simp_all add: data_start_def sectors_of_def align_up_def SECTOR_def KERNEL_LBA_def)
  have hl: "length (put_header (splice (replicate (IMG_SECTORS * SECTOR) 0) 0 demo_stage1) 2048 1 1 (replicate 16 7)) = 67108864"
    by (subst header_read_back(1)) (simp_all add: len IMG_SECTORS_def SECTOR_def)
  obtain vol where "build_volume 129024 (returnM ()) = Some vol" "length vol = 129024 * SECTOR"
    using build_volume_fresh [of 129024] by (auto simp: layout_vals SECTOR_def)
  then have "build_image demo_stage1 [0xF4] [0xEB, 0xFE] (replicate 16 7) (returnM ()) \<noteq> None"
    using len hl by (simp add: build_image_def Let_def d STAGE2_MAX_SECTORS_def STAGE2_LBA_def KERNEL_LBA_def
        SECTOR_def IMG_SECTORS_def)
  then obtain img where img: "build_image demo_stage1 [0xF4] [0xEB, 0xFE] (replicate 16 7) (returnM ()) = Some img"
    by blast
  from image_matches_header [OF img s1] img show ?thesis by simp
qed

end
