(* ===== verification/Inflate.thy ===== *)
theory Inflate
  imports Prelude
begin

text \<open>
  The DEFLATE decompressor of the PNG decoder, the first half of \<^verbatim>\<open>pngdec/src/lib.rs\<close>: the bit reader, canonical Huffman
  tables, the code-length tables of dynamic blocks, literal and match decoding, stored blocks, and the loop over blocks.

  Code lengths, symbols and counters are \<^typ>\<open>nat\<close>: every value stays far below the width of its Rust type. The loops of the
  source that run until the input is used up are recursions on the number of unread bits, and their termination is proved.
\<close>

section \<open>Errors\<close>

datatype png_error =
    Signature
  | Truncated
  | BadChunk
  | Unsupported
  | Inflate
  | Dimensions

section \<open>The bit reader\<close>

record bit_reader =
  br_data :: "byte list"
  br_pos :: nat
  bitbuf :: nat
  bitcnt :: nat

definition br_new :: "byte list \<Rightarrow> bit_reader" where
  "br_new d = \<lparr>br_data = d, br_pos = 0, bitbuf = 0, bitcnt = 0\<rparr>"

definition refill :: "bit_reader \<Rightarrow> png_error + bit_reader" where
  "refill r =
    (if bitcnt r = 0 then
       if length (br_data r) \<le> br_pos r then Inl Inflate
       else Inr (r\<lparr>bitbuf := unat (br_data r ! br_pos r), br_pos := br_pos r + 1, bitcnt := 8\<rparr>)
     else Inr r)"

definition rd_bit :: "bit_reader \<Rightarrow> png_error + nat \<times> bit_reader" where
  "rd_bit r = (case refill r of
      Inl e \<Rightarrow> Inl e
    | Inr r \<Rightarrow> Inr (bitbuf r mod 2, r\<lparr>bitbuf := bitbuf r div 2, bitcnt := bitcnt r - 1\<rparr>))"

fun rd_bits_from :: "nat \<Rightarrow> nat \<Rightarrow> nat \<Rightarrow> bit_reader \<Rightarrow> png_error + nat \<times> bit_reader" where
  "rd_bits_from i 0 v r = Inr (v, r)"
| "rd_bits_from i (Suc n) v r = (case rd_bit r of
      Inl e \<Rightarrow> Inl e
    | Inr (b, r) \<Rightarrow> rd_bits_from (i + 1) n (v + b * 2 ^ i) r)"

definition rd_bits :: "nat \<Rightarrow> bit_reader \<Rightarrow> png_error + nat \<times> bit_reader" where
  "rd_bits n r = rd_bits_from 0 n 0 r"

definition align :: "bit_reader \<Rightarrow> bit_reader" where
  "align r = r\<lparr>bitcnt := 0\<rparr>"

section \<open>Huffman tables\<close>

record huffman =
  counts :: "nat list"
  symbols :: "nat list"

text \<open>Lengths above 15 would index out of \<^verbatim>\<open>counts\<close>; no caller passes one (they are three-bit fields, symbols up to 15, or constants).\<close>

definition count_lengths :: "nat list \<Rightarrow> nat list" where
  "count_lengths ls = (foldl (\<lambda>c l. c[l := c ! l + 1]) (replicate 16 0) ls)[0 := 0]"

fun offsets_loop :: "nat list \<Rightarrow> nat list \<Rightarrow> nat \<Rightarrow> nat list \<Rightarrow> nat list" where
  "offsets_loop c offs acc [] = offs"
| "offsets_loop c offs acc (i # is) = offsets_loop c (offs[i := acc]) (acc + c ! i) is"

definition place :: "nat list \<times> nat list \<Rightarrow> nat \<times> nat \<Rightarrow> nat list \<times> nat list" where
  "place st sl =
    (case st of (offs, syms) \<Rightarrow> case sl of (sy, l) \<Rightarrow>
       if l \<noteq> 0 then (offs[l := offs ! l + 1], syms[offs ! l := sy]) else (offs, syms))"

definition build :: "nat list \<Rightarrow> huffman" where
  "build ls =
    (let c = count_lengths ls;
         offs = offsets_loop c (replicate 16 0) 0 [1..<16];
         (_, syms) = foldl place (offs, replicate (length ls) 0) (enumerate 0 ls)
     in \<lparr>counts = c, symbols = syms\<rparr>)"

text \<open>The loop over the lengths 1 to 15; \<open>code\<close> is even before the next bit is put in, so \<^verbatim>\<open>|=\<close> is an addition.\<close>

fun decode_loop :: "huffman \<Rightarrow> nat list \<Rightarrow> int \<Rightarrow> int \<Rightarrow> int \<Rightarrow> bit_reader \<Rightarrow> png_error + nat \<times> bit_reader" where
  "decode_loop h [] code first index r = Inl Inflate"
| "decode_loop h (len # lens) code first index r = (case rd_bit r of
      Inl e \<Rightarrow> Inl e
    | Inr (b, r) \<Rightarrow>
        let code = code + int b; count = int (counts h ! len) in
        if code - first < count then
          (let i = index + (code - first) in
           if 0 \<le> i \<and> nat i < length (symbols h) then Inr (symbols h ! nat i, r) else Inl Inflate)
        else decode_loop h lens (code * 2) ((first + count) * 2) (index + count) r)"

definition decode :: "huffman \<Rightarrow> bit_reader \<Rightarrow> png_error + nat \<times> bit_reader" where
  "decode h r = decode_loop h [1..<16] 0 0 0 r"

definition LEN_BASE :: "nat list" where
  "LEN_BASE = [3, 4, 5, 6, 7, 8, 9, 10, 11, 13, 15, 17, 19, 23, 27, 31, 35, 43, 51, 59, 67, 83, 99, 115, 131,
    163, 195, 227, 258]"

definition LEN_EXTRA :: "nat list" where
  "LEN_EXTRA = [0, 0, 0, 0, 0, 0, 0, 0, 1, 1, 1, 1, 2, 2, 2, 2, 3, 3, 3, 3, 4, 4, 4, 4, 5, 5, 5, 5, 0]"

definition DIST_BASE :: "nat list" where
  "DIST_BASE = [1, 2, 3, 4, 5, 7, 9, 13, 17, 25, 33, 49, 65, 97, 129, 193, 257, 385, 513, 769, 1025, 1537,
    2049, 3073, 4097, 6145, 8193, 12289, 16385, 24577]"

definition DIST_EXTRA :: "nat list" where
  "DIST_EXTRA = [0, 0, 0, 0, 1, 1, 2, 2, 3, 3, 4, 4, 5, 5, 6, 6, 7, 7, 8, 8, 9, 9, 10, 10, 11, 11, 12, 12, 13, 13]"

definition fixed_lengths :: "nat list" where
  "fixed_lengths = map (\<lambda>i. if i \<le> 143 then 8 else if i \<le> 255 then 9 else if i \<le> 279 then 7 else 8) [0..<288]"

definition fixed_lit :: huffman where
  "fixed_lit = build fixed_lengths"

definition fixed_dist :: huffman where
  "fixed_dist = build (replicate 32 5)"

section \<open>Unread bits\<close>

definition unread :: "bit_reader \<Rightarrow> nat" where
  "unread r = bitcnt r + 8 * (length (br_data r) - br_pos r)"

lemma rd_bit_unread: "rd_bit r = Inr (b, r') \<Longrightarrow> unread r' < unread r \<and> br_data r' = br_data r"
  by (auto simp: rd_bit_def refill_def unread_def split: if_splits)

lemma rd_bits_from_unread: "rd_bits_from i n v r = Inr (w, r') \<Longrightarrow> unread r' \<le> unread r \<and> br_data r' = br_data r"
proof (induction n arbitrary: i v r)
  case (Suc n)
  then obtain b r1 where "rd_bit r = Inr (b, r1)" "rd_bits_from (i + 1) n (v + b * 2 ^ i) r1 = Inr (w, r')"
    by (auto split: sum.splits)
  with Suc.IH [OF this(2)] rd_bit_unread [OF this(1)] show ?case by simp
qed simp

lemma rd_bits_unread: "rd_bits n r = Inr (w, r') \<Longrightarrow> unread r' \<le> unread r"
  by (simp add: rd_bits_def rd_bits_from_unread)

lemma decode_loop_unread:
  "decode_loop h lens code first index r = Inr (s, r') \<Longrightarrow> unread r' < unread r"
proof (induction lens arbitrary: code first index r)
  case (Cons len lens)
  from Cons.prems obtain b r1 where b: "rd_bit r = Inr (b, r1)" by (auto split: sum.splits)
  note less = rd_bit_unread [OF b]
  show ?case
  proof (cases "code + int b - first < int (counts h ! len)")
    case True
    then show ?thesis using Cons.prems b less by (auto simp: Let_def split: if_splits)
  next
    case False
    then have "unread r' < unread r1" using Cons.prems b by (intro Cons.IH) (simp add: Let_def)
    then show ?thesis using less by simp
  qed
qed simp

lemma decode_unread: "decode h r = Inr (s, r') \<Longrightarrow> unread r' < unread r"
  unfolding decode_def by (rule decode_loop_unread)

section \<open>Dynamic tables\<close>

definition ORDER :: "nat list" where
  "ORDER = [16, 17, 18, 0, 8, 7, 9, 6, 10, 5, 11, 4, 12, 3, 13, 2, 14, 1, 15]"

fun read_cl :: "nat list \<Rightarrow> nat list \<Rightarrow> bit_reader \<Rightarrow> png_error + nat list \<times> bit_reader" where
  "read_cl [] cl r = Inr (cl, r)"
| "read_cl (i # is) cl r = (case rd_bits 3 r of Inl e \<Rightarrow> Inl e | Inr (v, r) \<Rightarrow> read_cl is (cl[i := v]) r)"

fun repeat_length :: "nat \<Rightarrow> nat \<Rightarrow> nat \<Rightarrow> nat list \<Rightarrow> nat \<Rightarrow> png_error + nat list \<times> nat" where
  "repeat_length tot v 0 lens i = Inr (lens, i)"
| "repeat_length tot v (Suc rep) lens i =
    (if tot \<le> i then Inl Inflate else repeat_length tot v rep (lens[i := v]) (i + 1))"

text \<open>One symbol of the code-length code: what it repeats, and how many extra bits give the count above the base.\<close>

function read_lengths :: "huffman \<Rightarrow> nat \<Rightarrow> nat list \<Rightarrow> nat \<Rightarrow> bit_reader \<Rightarrow> png_error + nat list \<times> bit_reader" where
  "read_lengths h tot lens i r =
    (if \<not> i < tot then Inr (lens, r)
     else case decode h r of Inl e \<Rightarrow> Inl e
     | Inr (s, r1) \<Rightarrow>
         if s \<le> 15 then read_lengths h tot (lens[i := s]) (i + 1) r1
         else if s = 16 then
           (if i = 0 then Inl Inflate
            else case rd_bits 2 r1 of Inl e \<Rightarrow> Inl e
            | Inr (n, r2) \<Rightarrow> (case repeat_length tot (lens ! (i - 1)) (3 + n) lens i of Inl e \<Rightarrow> Inl e
              | Inr (lens, i) \<Rightarrow> read_lengths h tot lens i r2))
         else if s = 17 then
           (case rd_bits 3 r1 of Inl e \<Rightarrow> Inl e
            | Inr (n, r2) \<Rightarrow> (case repeat_length tot 0 (3 + n) lens i of Inl e \<Rightarrow> Inl e
              | Inr (lens, i) \<Rightarrow> read_lengths h tot lens i r2))
         else if s = 18 then
           (case rd_bits 7 r1 of Inl e \<Rightarrow> Inl e
            | Inr (n, r2) \<Rightarrow> (case repeat_length tot 0 (11 + n) lens i of Inl e \<Rightarrow> Inl e
              | Inr (lens, i) \<Rightarrow> read_lengths h tot lens i r2))
         else Inl Inflate)"
  by pat_completeness auto
termination
  by (relation "measure (\<lambda>(h, tot, lens, i, r). unread r)")
    (auto dest!: decode_unread rd_bits_unread)

declare read_lengths.simps [simp del]

definition read_dynamic :: "bit_reader \<Rightarrow> png_error + (huffman \<times> huffman) \<times> bit_reader" where
  "read_dynamic r =
    (case rd_bits 5 r of Inl e \<Rightarrow> Inl e | Inr (hlit, r) \<Rightarrow>
     case rd_bits 5 r of Inl e \<Rightarrow> Inl e | Inr (hdist, r) \<Rightarrow>
     case rd_bits 4 r of Inl e \<Rightarrow> Inl e | Inr (hclen, r) \<Rightarrow>
       let hlit = hlit + 257; hdist = hdist + 1; hclen = hclen + 4 in
     case read_cl (take hclen ORDER) (replicate 19 0) r of Inl e \<Rightarrow> Inl e | Inr (cl, r) \<Rightarrow>
     case read_lengths (build cl) (hlit + hdist) (replicate (hlit + hdist) 0) 0 r of Inl e \<Rightarrow> Inl e
     | Inr (lens, r) \<Rightarrow> Inr ((build (take hlit lens), build (drop hlit lens)), r))"

section \<open>Blocks\<close>

fun copy_loop :: "nat \<Rightarrow> nat \<Rightarrow> nat \<Rightarrow> byte list \<Rightarrow> byte list" where
  "copy_loop start k 0 out = out"
| "copy_loop start k (Suc n) out = copy_loop start (k + 1) n (out @ [out ! (start + k)])"

text \<open>The match arm: the length of symbol \<open>s\<close>, then the distance, then the copy.\<close>

definition do_match :: "nat \<Rightarrow> huffman \<Rightarrow> byte list \<Rightarrow> bit_reader \<Rightarrow> png_error + byte list \<times> bit_reader" where
  "do_match s dist out r =
    (if length LEN_BASE \<le> s then Inl Inflate
     else case rd_bits (LEN_EXTRA ! s) r of Inl e \<Rightarrow> Inl e | Inr (x, r) \<Rightarrow>
       let len = LEN_BASE ! s + x in
     case decode dist r of Inl e \<Rightarrow> Inl e | Inr (ds, r) \<Rightarrow>
     if length DIST_BASE \<le> ds then Inl Inflate
     else case rd_bits (DIST_EXTRA ! ds) r of Inl e \<Rightarrow> Inl e | Inr (y, r) \<Rightarrow>
       let distance = DIST_BASE ! ds + y in
     if distance = 0 \<or> length out < distance then Inl Inflate
     else Inr (copy_loop (length out - distance) 0 len out, r))"

lemma do_match_unread: "do_match s dist out r = Inr (out', r') \<Longrightarrow> unread r' < unread r"
  by (auto simp: do_match_def Let_def split: if_splits sum.splits dest!: rd_bits_unread decode_unread)

function inflate_block :: "bit_reader \<Rightarrow> byte list \<Rightarrow> huffman \<Rightarrow> huffman \<Rightarrow> png_error + byte list \<times> bit_reader" where
  "inflate_block r out lit dist =
    (case decode lit r of Inl e \<Rightarrow> Inl e
     | Inr (s, r1) \<Rightarrow>
         if s = 256 then Inr (out, r1)
         else if s < 256 then inflate_block r1 (out @ [word_of_nat s]) lit dist
         else case do_match (s - 257) dist out r1 of Inl e \<Rightarrow> Inl e
         | Inr (out, r2) \<Rightarrow> inflate_block r2 out lit dist)"
  by pat_completeness auto
termination
  by (relation "measure (\<lambda>(r, out, lit, dist). unread r)") (auto dest!: decode_unread do_match_unread)

declare inflate_block.simps [simp del]

lemma inflate_block_unread: "inflate_block r out lit dist = Inr (out', r') \<Longrightarrow> unread r' < unread r"
proof (induction r out lit dist arbitrary: out' r' rule: inflate_block.induct)
  case (1 r out lit dist)
  note unfold = 1(3) [unfolded inflate_block.simps [of r]]
  then obtain s r1 where s: "decode lit r = Inr (s, r1)" by (auto split: sum.splits)
  note less = decode_unread [OF s]
  consider "s = 256" | "s < 256" | "s > 256" by linarith
  then show ?case
  proof cases
    case 2
    then have "unread r' < unread r1" using 1(1) [OF s refl] unfold s by simp
    then show ?thesis using less by simp
  next
    case 3
    then obtain o2 r2 where m: "do_match (s - 257) dist out r1 = Inr (o2, r2)" "inflate_block r2 o2 lit dist = Inr (out', r')"
      using unfold s by (auto split: sum.splits)
    then have "unread r' < unread r2" using 1(2) [OF s refl _ _ m(1) refl] 3 by simp
    then show ?thesis using less do_match_unread [OF m(1)] by simp
  qed (use unfold s less in auto)
qed

lemma read_cl_unread: "read_cl is cl r = Inr (cl', r') \<Longrightarrow> unread r' \<le> unread r"
proof (induction "is" arbitrary: cl r)
  case (Cons i "is")
  then obtain v r1 where "rd_bits 3 r = Inr (v, r1)" "read_cl is (cl[i := v]) r1 = Inr (cl', r')"
    by (auto split: sum.splits)
  with Cons.IH [OF this(2)] rd_bits_unread [OF this(1)] show ?case by simp
qed simp

text \<open>Every branch of the loop over the code lengths goes on with fewer unread bits.\<close>

lemma read_lengths_step:
  assumes "read_lengths h tot lens i r = Inr (lens', r')" "i < tot"
  obtains lens2 i2 r2 where "unread r2 < unread r" "read_lengths h tot lens2 i2 r2 = Inr (lens', r')"
proof -
  note run = assms(1) [unfolded read_lengths.simps [of h tot lens i r]]
  from run assms(2) obtain s r1 where s: "decode h r = Inr (s, r1)" by (auto split: sum.splits)
  note less = decode_unread [OF s]
  have "\<exists>lens2 i2 r2. unread r2 \<le> unread r1 \<and> read_lengths h tot lens2 i2 r2 = Inr (lens', r')"
    using run assms(2) s by (auto split: if_splits sum.splits) (blast dest: rd_bits_unread)+
  with less that show thesis by (meson le_less_trans)
qed

lemma read_lengths_unread: "read_lengths h tot lens i r = Inr (lens', r') \<Longrightarrow> unread r' \<le> unread r"
proof (induction "unread r" arbitrary: lens i r rule: less_induct)
  case less
  show ?case
  proof (cases "i < tot")
    case True
    with less.prems obtain lens2 i2 r2 where "unread r2 < unread r" "read_lengths h tot lens2 i2 r2 = Inr (lens', r')"
      by (rule read_lengths_step)
    with less.hyps show ?thesis by fastforce
  qed (use less.prems in \<open>simp add: read_lengths.simps [of h tot lens i r]\<close>)
qed

lemma read_dynamic_unread:
  assumes "read_dynamic r = Inr (hs, r')"
  shows "unread r' \<le> unread r"
proof -
  from assms obtain a r1 b r2 c r3 cl r4 t l where "rd_bits 5 r = Inr (a, r1)" "rd_bits 5 r1 = Inr (b, r2)"
    "rd_bits 4 r2 = Inr (c, r3)" "read_cl (take (c + 4) ORDER) (replicate 19 0) r3 = Inr (cl, r4)"
    "read_lengths (build cl) t (replicate t 0) 0 r4 = Inr (l, r')"
    by (auto simp: read_dynamic_def Let_def split: sum.splits)
  then show ?thesis using rd_bits_unread read_cl_unread read_lengths_unread by (meson order_trans)
qed

section \<open>The loop over blocks\<close>

definition stored_block :: "byte list \<Rightarrow> bit_reader \<Rightarrow> png_error + byte list \<times> bit_reader" where
  "stored_block out r =
    (let r = align r; d = br_data r; p = br_pos r in
     if length d < p + 4 then Inl Inflate
     else
       let len = unat (d ! p) + unat (d ! (p + 1)) * 2 ^ 8; p = p + 4 in
       if length d < p + len then Inl Inflate
       else Inr (out @ slice d p (p + len), r\<lparr>br_pos := p + len\<rparr>))"

definition one_block :: "nat \<Rightarrow> byte list \<Rightarrow> bit_reader \<Rightarrow> png_error + byte list \<times> bit_reader" where
  "one_block btype out r =
    (if btype = 0 then stored_block out r
     else if btype = 1 then inflate_block r out fixed_lit fixed_dist
     else if btype = 2 then
       (case read_dynamic r of Inl e \<Rightarrow> Inl e
        | Inr ((lit, dist), r) \<Rightarrow> inflate_block r out lit dist)
     else Inl Inflate)"

lemma one_block_unread: "one_block t out r = Inr (out', r') \<Longrightarrow> unread r' \<le> unread r"
  by (auto simp: one_block_def stored_block_def align_def unread_def [of "_\<lparr>br_pos := _\<rparr>"] unread_def [of r] Let_def
      split: if_splits sum.splits dest!: inflate_block_unread read_dynamic_unread)

function inflate_loop :: "bit_reader \<Rightarrow> byte list \<Rightarrow> png_error + byte list" where
  "inflate_loop r out =
    (case rd_bit r of Inl e \<Rightarrow> Inl e | Inr (bfinal, r1) \<Rightarrow>
     case rd_bits 2 r1 of Inl e \<Rightarrow> Inl e | Inr (btype, r2) \<Rightarrow>
     case one_block btype out r2 of Inl e \<Rightarrow> Inl e | Inr (out, r3) \<Rightarrow>
     if bfinal = 1 then Inr out else inflate_loop r3 out)"
  by pat_completeness auto
termination
  by (relation "measure (\<lambda>(r, out). unread r)") (auto dest!: rd_bit_unread rd_bits_unread one_block_unread)

declare inflate_loop.simps [simp del]

definition inflate :: "byte list \<Rightarrow> png_error + byte list" where
  "inflate d = inflate_loop (br_new d) []"

end
