(* ===== verification/Inflate_Correct.thy ===== *)
theory Inflate_Correct
  imports Inflate
begin

text \<open>
  Correctness of the decompressor. The bit reader is abstracted to the list of bits it has still to deliver; the canonical Huffman
  code of RFC 1951 is stated as a reference, with the code of a symbol computed from the code lengths alone, and the table-driven
  decoder is proved to invert it. On top of that, blocks of literals and matches decode to the expansion of their tokens, and stored
  blocks to their bytes.
\<close>

section \<open>The bits to come\<close>

text \<open>Numbers as bits, least significant first (fields, bytes) and most significant first (Huffman codes).\<close>

fun lsb :: "nat \<Rightarrow> nat \<Rightarrow> bool list" where
  "lsb 0 v = []"
| "lsb (Suc n) v = odd v # lsb n (v div 2)"

fun msb :: "nat \<Rightarrow> nat \<Rightarrow> bool list" where
  "msb 0 v = []"
| "msb (Suc n) v = odd (v div 2 ^ n) # msb n v"

definition byte_bits :: "byte \<Rightarrow> bool list" where
  "byte_bits b = lsb 8 (unat b)"

definition stream :: "bit_reader \<Rightarrow> bool list" where
  "stream r = lsb (bitcnt r) (bitbuf r) @ concat (map byte_bits (drop (br_pos r) (br_data r)))"

lemma length_lsb [simp]: "length (lsb n v) = n"
  by (induction n arbitrary: v) simp_all

lemma lsb_eq_Nil [simp]: "lsb n v = [] \<longleftrightarrow> n = 0"
  by (cases n) simp_all

lemma length_stream: "br_pos r \<le> length (br_data r) \<Longrightarrow> length (stream r) = unread r"
  by (simp add: stream_def unread_def byte_bits_def length_concat o_def sum_list_triv)

lemma rd_bit_stream:
  "rd_bit r = (case stream r of [] \<Rightarrow> Inl Inflate
    | b # bs \<Rightarrow> Inr (of_bool b, snd (projr (rd_bit r))))"
  "stream r = b # bs \<Longrightarrow> stream (snd (projr (rd_bit r))) = bs"
proof -
  have "(case stream r of [] \<Rightarrow> rd_bit r = Inl Inflate
    | b # bs \<Rightarrow> \<exists>r'. rd_bit r = Inr (of_bool b, r') \<and> stream r' = bs)"
  proof (cases "bitcnt r")
    case 0
    show ?thesis
    proof (cases "br_pos r < length (br_data r)")
      case True
      have "drop (br_pos r) (br_data r) = br_data r ! br_pos r # drop (Suc (br_pos r)) (br_data r)"
        using True by (simp add: Cons_nth_drop_Suc)
      moreover have "lsb 8 v = odd v # lsb 7 (v div 2)" for v by (simp add: numeral_eq_Suc)
      ultimately show ?thesis using 0 True
        by (simp add: stream_def byte_bits_def rd_bit_def refill_def mod_2_eq_odd)
    next
      case False
      then show ?thesis using 0 by (simp add: stream_def rd_bit_def refill_def)
    qed
  next
    case (Suc n)
    then show ?thesis by (simp add: stream_def rd_bit_def refill_def mod_2_eq_odd)
  qed
  then show "rd_bit r = (case stream r of [] \<Rightarrow> Inl Inflate | b # bs \<Rightarrow> Inr (of_bool b, snd (projr (rd_bit r))))"
    "stream r = b # bs \<Longrightarrow> stream (snd (projr (rd_bit r))) = bs"
    by (auto split: list.splits)
qed

lemma rd_bit_Cons:
  assumes "stream r = b # bs"
  obtains r' where "rd_bit r = Inr (of_bool b, r')" "stream r' = bs"
  using rd_bit_stream [of r] assms by (metis list.simps(5) snd_conv sum.sel(2))

fun num :: "bool list \<Rightarrow> nat" where
  "num [] = 0"
| "num (b # bs) = of_bool b + 2 * num bs"

lemma num_lsb: "num (lsb n v) = v mod 2 ^ n"
proof (induction n arbitrary: v)
  case (Suc n)
  have "v mod 2 ^ Suc n = v mod 2 + 2 * (v div 2 mod 2 ^ n)" using mod_mult2_eq [of v 2 "2 ^ n"] by simp
  then show ?case using Suc by (simp add: mod_2_eq_odd)
qed simp

lemma rd_bits_from_stream:
  assumes "stream r = bs @ rest"
  shows "\<exists>r'. rd_bits_from i (length bs) v r = Inr (v + num bs * 2 ^ i, r') \<and> stream r' = rest"
  using assms
proof (induction bs arbitrary: i v r)
  case (Cons b bs)
  then obtain r1 where r1: "rd_bit r = Inr (of_bool b, r1)" "stream r1 = bs @ rest" by (auto elim: rd_bit_Cons)
  from Cons.IH [OF r1(2), of "i + 1" "v + of_bool b * 2 ^ i"] show ?case using r1(1) by (simp add: algebra_simps)
qed simp

lemma rd_bits_stream:
  assumes "stream r = lsb n v @ rest" "v < 2 ^ n"
  obtains r' where "rd_bits n r = Inr (v, r')" "stream r' = rest"
  using rd_bits_from_stream [OF assms(1), of 0 0] assms(2) by (auto simp: rd_bits_def num_lsb)

section \<open>Canonical Huffman codes\<close>

definition cnt :: "nat list \<Rightarrow> nat \<Rightarrow> nat" where
  "cnt ls l = (if l = 0 then 0 else count_list ls l)"

fun first_code :: "nat list \<Rightarrow> nat \<Rightarrow> nat" where
  "first_code ls 0 = 0"
| "first_code ls (Suc l) = (first_code ls l + cnt ls l) * 2"

definition idx_of :: "nat list \<Rightarrow> nat \<Rightarrow> nat" where
  "idx_of ls l = length (filter (\<lambda>x. 0 < x \<and> x < l) ls)"

definition rank :: "nat list \<Rightarrow> nat \<Rightarrow> nat" where
  "rank ls s = count_list (take s ls) (ls ! s)"

definition code_of :: "nat list \<Rightarrow> nat \<Rightarrow> nat" where
  "code_of ls s = first_code ls (ls ! s) + rank ls s"

text \<open>The bits of a symbol, and the symbols that have a code.\<close>

definition codeword :: "nat list \<Rightarrow> nat \<Rightarrow> bool list" where
  "codeword ls s = msb (ls ! s) (code_of ls s)"

definition coded :: "nat list \<Rightarrow> nat \<Rightarrow> bool" where
  "coded ls s \<longleftrightarrow> s < length ls \<and> 0 < ls ! s \<and> ls ! s \<le> 15 \<and> code_of ls s < 2 ^ (ls ! s)"

lemma idx_Suc: "idx_of ls (Suc l) = idx_of ls l + cnt ls l"
  by (induction ls) (auto simp: idx_of_def cnt_def)

lemma idx_0 [simp]: "idx_of ls 0 = 0" "idx_of ls (Suc 0) = 0"
  by (auto simp: idx_of_def filter_empty_conv)

lemma idx_mono: "l \<le> m \<Longrightarrow> idx_of ls l \<le> idx_of ls m"
  by (induction m) (auto simp: idx_Suc le_Suc_eq)

lemma idx_bound: "idx_of ls l \<le> length ls"
  by (simp add: idx_of_def)

lemma count_split:
  assumes "s < length xs"
  shows "count_list xs (xs ! s) = count_list (take s xs) (xs ! s) + Suc (count_list (drop (Suc s) xs) (xs ! s))"
proof -
  have "count_list xs v = count_list (take s xs) v + count_list (drop s xs) v" for v
    using count_list_append [of "take s xs" "drop s xs" v] by simp
  moreover have "drop s xs = xs ! s # drop (Suc s) xs" using assms by (rule Cons_nth_drop_Suc [symmetric])
  ultimately show ?thesis by simp
qed

lemma rank_less: "s < length ls \<Longrightarrow> 0 < ls ! s \<Longrightarrow> rank ls s < cnt ls (ls ! s)"
  using count_split [of s ls] by (simp add: rank_def cnt_def)

lemma rank_mono: "j < k \<Longrightarrow> k < length ls \<Longrightarrow> ls ! j = ls ! k \<Longrightarrow> rank ls j < rank ls k"
  using count_split [of j "take k ls"] by (simp add: rank_def min_def)

text \<open>Where a symbol is placed in the table.\<close>

definition slot_of :: "nat list \<Rightarrow> nat \<Rightarrow> nat" where
  "slot_of ls s = idx_of ls (ls ! s) + rank ls s"

lemma slot_bound:
  assumes "s < length ls" "0 < ls ! s"
  shows "slot_of ls s < idx_of ls (Suc (ls ! s))"
  using rank_less [OF assms] by (simp add: slot_of_def idx_Suc)

lemma slot_inj:
  assumes "j < k" "k < length ls" "0 < ls ! j" "0 < ls ! k"
  shows "slot_of ls j \<noteq> slot_of ls k"
proof (cases "ls ! j = ls ! k")
  case True
  then show ?thesis using rank_mono [OF assms(1,2)] by (simp add: slot_of_def)
next
  case False
  have "slot_of ls x < slot_of ls y" if "x < length ls" "0 < ls ! x" "ls ! x < ls ! y" for x y
    using slot_bound [OF that(1,2)] idx_mono [of "Suc (ls ! x)" "ls ! y" ls] that(3) by (simp add: slot_of_def)
  then show ?thesis using assms False by (metis less_trans linorder_neqE_nat nat_neq_iff)
qed

section \<open>The tables\<close>

lemma count_fold:
  "length (foldl (\<lambda>c l. c[l := c ! l + 1]) c0 ls) = length c0"
  "k < length c0 \<Longrightarrow> foldl (\<lambda>c l. c[l := c ! l + 1]) c0 ls ! k = c0 ! k + count_list ls k"
proof (induction ls arbitrary: c0)
  case (Cons l ls)
  { case 1 show ?case using Cons.IH(1) by simp }
  { case 2 then show ?case using Cons.IH(2) by (auto simp: nth_list_update) }
qed simp_all

lemma count_lengths_nth: "l < 16 \<Longrightarrow> count_lengths ls ! l = cnt ls l"
  using count_fold(2) [of l "replicate 16 0" ls] count_fold(1) [of "replicate 16 0" ls] by (simp add: count_lengths_def cnt_def nth_list_update)

lemma offsets_loop_nth:
  assumes "i \<le> n" "n \<le> length offs" "j < length offs"
  shows "offsets_loop c offs acc [i..<n] ! j = (if i \<le> j \<and> j < n then acc + (\<Sum>m = i..<j. c ! m) else offs ! j)"
  using assms
proof (induction "n - i" arbitrary: i offs acc)
  case (Suc d)
  then have less: "i < n" by simp
  have "offsets_loop c offs acc [i..<n] = offsets_loop c (offs[i := acc]) (acc + c ! i) [Suc i..<n]"
    using less by (simp add: upt_conv_Cons)
  also have "\<dots> ! j = (if Suc i \<le> j \<and> j < n then acc + c ! i + (\<Sum>m = Suc i..<j. c ! m) else (offs[i := acc]) ! j)"
    using Suc.hyps(2) Suc.prems less by (intro Suc.hyps(1)) auto
  finally show ?case using Suc.prems less
    by (cases "j = i") (auto simp: sum.atLeast_Suc_lessThan nth_list_update)
qed simp

lemma idx_sum: "1 \<le> l \<Longrightarrow> l \<le> 16 \<Longrightarrow> (\<Sum>m = 1..<l. count_lengths ls ! m) = idx_of ls l"
proof (induction l)
  case (Suc l)
  show ?case
  proof (cases "l = 0")
    case False
    then show ?thesis using Suc by (simp add: idx_Suc count_lengths_nth)
  qed simp
qed simp

lemma offsets_nth:
  assumes "1 \<le> l" "l < 16"
  shows "offsets_loop (count_lengths ls) (replicate 16 0) 0 [1..<16] ! l = idx_of ls l"
  using offsets_loop_nth [of 1 16 "replicate 16 0" l "count_lengths ls" 0] assms idx_sum [of l ls] by simp

lemma offsets_length [simp]: "length (offsets_loop c offs acc is) = length offs"
  by (induction c offs acc "is" rule: offsets_loop.induct) simp_all

text \<open>The placement loop, after a prefix \<open>xs\<close> of the lengths.\<close>

lemma place_prefix:
  assumes "ls = xs @ ys" "list_all (\<lambda>l. l \<le> 15) ls" "length offs = 16" "length syms = length ls"
    "\<And>l. 1 \<le> l \<Longrightarrow> l < 16 \<Longrightarrow> offs ! l = idx_of ls l"
  defines "st \<equiv> foldl place (offs, syms) (enumerate 0 xs)"
  shows "length (fst st) = 16 \<and> length (snd st) = length ls \<and>
    (\<forall>l. 1 \<le> l \<and> l < 16 \<longrightarrow> fst st ! l = idx_of ls l + count_list xs l) \<and>
    (\<forall>j < length xs. 0 < xs ! j \<longrightarrow> snd st ! slot_of ls j = j)"
  using assms(1) unfolding st_def
proof (induction xs arbitrary: ys rule: rev_induct)
  case Nil
  then show ?case using assms(3-5) by simp
next
  case (snoc l xs)
  let ?k = "length xs"
  obtain o1 s1 where st: "foldl place (offs, syms) (enumerate 0 xs) = (o1, s1)" by fastforce
  have IH: "length o1 = 16" "length s1 = length ls" "\<And>m. 1 \<le> m \<Longrightarrow> m < 16 \<Longrightarrow> o1 ! m = idx_of ls m + count_list xs m"
    "\<And>j. j < ?k \<Longrightarrow> 0 < xs ! j \<Longrightarrow> s1 ! slot_of ls j = j"
    using snoc.IH [of "l # ys"] snoc.prems st by auto
  have k: "?k < length ls" "ls ! ?k = l" "take ?k ls = xs" and pre: "\<And>j. j < ?k \<Longrightarrow> ls ! j = xs ! j"
    using snoc.prems by (simp_all add: nth_append)
  have l15: "l \<le> 15" using assms(2) snoc.prems by (simp add: list_all_iff)
  have run: "foldl place (offs, syms) (enumerate 0 (xs @ [l])) = place (o1, s1) (?k, l)"
    by (simp add: enumerate_append_eq st)
  show ?case
  proof (cases "l = 0")
    case True
    then show ?thesis unfolding run using IH pre by (auto simp: place_def nth_append less_Suc_eq)
  next
    case False
    have slot: "o1 ! l = slot_of ls ?k" using IH(3) [of l] False l15 k by (simp add: slot_of_def rank_def)
    have "slot_of ls ?k < length ls" using slot_bound [of ?k ls] idx_bound [of ls "Suc l"] k False by simp
    moreover have "slot_of ls j \<noteq> slot_of ls ?k" if "j < ?k" "0 < xs ! j" for j
      using slot_inj [OF that(1) k(1)] that pre k(2) False by simp
    ultimately show ?thesis unfolding run using IH slot False l15
      by (auto simp: place_def nth_append nth_list_update less_Suc_eq) (metis gr0I)
  qed
qed

lemma build_table:
  assumes "list_all (\<lambda>l. l \<le> 15) ls"
  shows "counts (build ls) = count_lengths ls" "length (symbols (build ls)) = length ls"
    "s < length ls \<Longrightarrow> 0 < ls ! s \<Longrightarrow> symbols (build ls) ! slot_of ls s = s"
  using place_prefix [of ls ls "[]" "offsets_loop (count_lengths ls) (replicate 16 0) 0 [1..<16]" "replicate (length ls) 0"]
    assms offsets_nth
  by (auto simp: build_def Let_def split: prod.splits)

section \<open>Decoding\<close>

lemma first_code_grows: "j < l \<Longrightarrow> (first_code ls j + cnt ls j) * 2 ^ (l - j) \<le> first_code ls l"
proof (induction l)
  case (Suc l)
  show ?case
  proof (cases "j = l")
    case False
    then have "(first_code ls j + cnt ls j) * 2 ^ (l - j) \<le> first_code ls l" using Suc by simp
    moreover have "Suc l - j = Suc (l - j)" using Suc.prems by simp
    ultimately show ?thesis by simp
  qed simp
qed simp

lemma decode_loop_code:
  assumes tab: "\<And>m. 1 \<le> m \<Longrightarrow> m < 16 \<Longrightarrow> counts h ! m = cnt ls m"
    and sym: "idx_of ls l + (c - first_code ls l) < length (symbols h)" "symbols h ! (idx_of ls l + (c - first_code ls l)) = s"
    and c: "first_code ls l \<le> c" "c < first_code ls l + cnt ls l" and l: "l \<le> 15"
    and k: "k < l" and str: "stream r = msb (l - k) c @ rest"
  shows "\<exists>r'. decode_loop h [Suc k..<16] (int (2 * (c div 2 ^ (l - k)))) (int (first_code ls (Suc k))) (int (idx_of ls (Suc k))) r
    = Inr (s, r') \<and> stream r' = rest"
  using k str
proof (induction "l - k" arbitrary: k r)
  case (Suc d)
  let ?b = "odd (c div 2 ^ d)"
  have d: "l - k = Suc d" "l - Suc k = d" using Suc.hyps(2) by simp_all
  obtain r1 where r1: "rd_bit r = Inr (of_bool ?b, r1)" "stream r1 = msb d c @ rest"
    using Suc.prems(2) d by (auto elim: rd_bit_Cons)
  have half: "2 * (c div 2 ^ Suc d) + of_bool ?b = c div 2 ^ d"
    using div_mult2_eq [of c "2 ^ d" 2] by (simp add: mult.commute)
  have code: "int (2 * (c div 2 ^ Suc d)) + int (of_bool ?b) = int (c div 2 ^ d)"
    using half by (metis of_nat_add)
  have lens: "[Suc k..<16] = Suc k # [Suc (Suc k)..<16]" using Suc.prems(1) l by (simp add: upt_conv_Cons)
  have cn: "counts h ! Suc k = cnt ls (Suc k)" using tab Suc.prems(1) l by simp
  have step: "decode_loop h [Suc k..<16] (int (2 * (c div 2 ^ (l - k)))) (int (first_code ls (Suc k))) (int (idx_of ls (Suc k))) r =
    (let i = int (idx_of ls (Suc k)) + (int (c div 2 ^ d) - int (first_code ls (Suc k))) in
     if int (c div 2 ^ d) - int (first_code ls (Suc k)) < int (cnt ls (Suc k)) then
       (if 0 \<le> i \<and> nat i < length (symbols h) then Inr (symbols h ! nat i, r1) else Inl Inflate)
     else decode_loop h [Suc (Suc k)..<16] (int (c div 2 ^ d) * 2) ((int (first_code ls (Suc k)) + int (cnt ls (Suc k))) * 2)
       (int (idx_of ls (Suc k)) + int (cnt ls (Suc k))) r1)"
    unfolding lens decode_loop.simps r1(1) d(1) Let_def sum.case prod.case code cn by simp
  show ?case
  proof (cases "Suc k = l")
    case True
    then have "d = 0" using d by simp
    then show ?thesis using True step sym c r1(2) by (simp add: Let_def of_nat_diff nat_add_distrib)
        (simp add: nat_diff_distrib' add.commute of_nat_diff)
  next
    case False
    then have less: "Suc k < l" using Suc.prems(1) by simp
    have "first_code ls (Suc k) + cnt ls (Suc k) \<le> c div 2 ^ d"
    proof -
      have "(first_code ls (Suc k) + cnt ls (Suc k)) * 2 ^ d \<le> c"
        using first_code_grows [OF less, of ls] c(1) d by simp
      then show ?thesis by (simp add: less_eq_div_iff_mult_less_eq)
    qed
    then have "\<not> int (c div 2 ^ d) - int (first_code ls (Suc k)) < int (cnt ls (Suc k))" by linarith
    then have "decode_loop h [Suc k..<16] (int (2 * (c div 2 ^ (l - k)))) (int (first_code ls (Suc k))) (int (idx_of ls (Suc k))) r =
      decode_loop h [Suc (Suc k)..<16] (int (2 * (c div 2 ^ (l - Suc k)))) (int (first_code ls (Suc (Suc k)))) (int (idx_of ls (Suc (Suc k)))) r1"
      using step d by (simp add: Let_def idx_Suc mult.commute)
    with Suc.hyps(1) [of "Suc k" r1] d less r1(2) show ?thesis by simp
  qed
qed simp

lemma decode_codeword:
  assumes ls: "list_all (\<lambda>l. l \<le> 15) ls" and s: "coded ls s" and str: "stream r = codeword ls s @ rest"
  obtains r' where "decode (build ls) r = Inr (s, r')" "stream r' = rest"
proof -
  let ?l = "ls ! s"
  have c: "s < length ls" "0 < ?l" "?l \<le> 15" "code_of ls s < 2 ^ ?l" using s by (simp_all add: coded_def)
  have slot: "idx_of ls ?l + (code_of ls s - first_code ls ?l) = slot_of ls s" by (simp add: code_of_def slot_of_def)
  have "slot_of ls s < length ls" using slot_bound [OF c(1,2)] idx_bound [of ls "Suc ?l"] by simp
  then have "\<exists>r'. decode_loop (build ls) [Suc 0..<16] (int (2 * (code_of ls s div 2 ^ (?l - 0)))) (int (first_code ls (Suc 0)))
      (int (idx_of ls (Suc 0))) r = Inr (s, r') \<and> stream r' = rest"
    using c rank_less [OF c(1,2)] build_table [OF ls] str slot
    by (intro decode_loop_code [where ls = ls and l = ?l]) (simp_all add: count_lengths_nth code_of_def codeword_def)
  then show thesis using that c(4) by (auto simp: decode_def cnt_def)
qed

section \<open>Matches\<close>

text \<open>The reference: a match of length \<open>n\<close> and distance \<open>d\<close> repeats the last \<open>d\<close> bytes of the output periodically.\<close>

definition copied :: "byte list \<Rightarrow> nat \<Rightarrow> nat \<Rightarrow> byte list" where
  "copied out d n = out @ map (\<lambda>k. out ! (length out - d + k mod d)) [0..<n]"

lemma copied_nth:
  assumes "0 < d" "d \<le> length out" "k \<le> n"
  shows "copied out d n ! (length out - d + k) = out ! (length out - d + k mod d)"
proof (cases "k < d")
  case True
  then have "length out - d + k < length out" using assms(2) by linarith
  then show ?thesis using True by (simp add: copied_def nth_append)
next
  case False
  then have "length out - d + k = length out + (k - d)" "k - d < n" using assms by simp_all
  then show ?thesis using False assms by (simp add: copied_def nth_append le_mod_geq)
qed

lemma copy_loop_eq:
  assumes "0 < d" "d \<le> length out"
  shows "copy_loop (length out - d) 0 n out = copied out d n"
proof -
  have "copy_loop (length out - d) k n (copied out d k) = copied out d (k + n)" for k
  proof (induction n arbitrary: k)
    case (Suc n)
    have "copied out d k @ [copied out d k ! (length out - d + k)] = copied out d (Suc k)"
      using copied_nth [OF assms, of k k] by (simp add: copied_def)
    then show ?case using Suc [of "k + 1"] by simp
  qed simp
  from this [of 0] show ?thesis by (simp add: copied_def)
qed

section \<open>Blocks of tokens\<close>

text \<open>
  What a compressor puts into a block: a literal byte, or a match given by its length symbol with extra bits and its distance symbol
  with extra bits. \<^verbatim>\<open>expand\<close> is the meaning of a list of tokens, \<^verbatim>\<open>token_bits\<close> its encoding under two lists of code lengths.
\<close>

datatype token =
    Literal byte
  | Match nat nat nat nat

definition match_len :: "nat \<Rightarrow> nat \<Rightarrow> nat" where
  "match_len s x = LEN_BASE ! s + x"

definition match_dist :: "nat \<Rightarrow> nat \<Rightarrow> nat" where
  "match_dist ds y = DIST_BASE ! ds + y"

fun expand_token :: "byte list \<Rightarrow> token \<Rightarrow> byte list" where
  "expand_token out (Literal b) = out @ [b]"
| "expand_token out (Match s x ds y) = copied out (match_dist ds y) (match_len s x)"

definition expand :: "byte list \<Rightarrow> token list \<Rightarrow> byte list" where
  "expand out ts = foldl expand_token out ts"

fun token_bits :: "nat list \<Rightarrow> nat list \<Rightarrow> token \<Rightarrow> bool list" where
  "token_bits ll dl (Literal b) = codeword ll (unat b)"
| "token_bits ll dl (Match s x ds y) =
    codeword ll (257 + s) @ lsb (LEN_EXTRA ! s) x @ codeword dl ds @ lsb (DIST_EXTRA ! ds) y"

text \<open>A token is legal after \<open>n\<close> bytes of output: its symbols have codes, its extra bits fit, its distance reaches back into the output.\<close>

fun legal :: "nat list \<Rightarrow> nat list \<Rightarrow> nat \<Rightarrow> token \<Rightarrow> bool" where
  "legal ll dl n (Literal b) \<longleftrightarrow> coded ll (unat b)"
| "legal ll dl n (Match s x ds y) \<longleftrightarrow> s < 29 \<and> x < 2 ^ (LEN_EXTRA ! s) \<and> coded ll (257 + s) \<and>
    ds < 30 \<and> y < 2 ^ (DIST_EXTRA ! ds) \<and> coded dl ds \<and> match_dist ds y \<le> n"

fun legals :: "nat list \<Rightarrow> nat list \<Rightarrow> byte list \<Rightarrow> token list \<Rightarrow> bool" where
  "legals ll dl out [] \<longleftrightarrow> coded ll 256"
| "legals ll dl out (t # ts) \<longleftrightarrow> legal ll dl (length out) t \<and> legals ll dl (expand_token out t) ts"

definition block_bits :: "nat list \<Rightarrow> nat list \<Rightarrow> token list \<Rightarrow> bool list" where
  "block_bits ll dl ts = concat (map (token_bits ll dl) ts) @ codeword ll 256"

lemma dist_base_pos: "ds < 30 \<Longrightarrow> 0 < DIST_BASE ! ds"
proof -
  have "list_all (\<lambda>x. 0 < x) DIST_BASE" by (simp add: DIST_BASE_def)
  moreover have "length DIST_BASE = 30" by (simp add: DIST_BASE_def)
  ultimately show "ds < 30 \<Longrightarrow> 0 < DIST_BASE ! ds" by (simp add: list_all_length)
qed

lemma do_match_token:
  assumes dl: "list_all (\<lambda>l. l \<le> 15) dl" and t: "legal ll dl (length out) (Match s x ds y)"
    and str: "stream r = lsb (LEN_EXTRA ! s) x @ codeword dl ds @ lsb (DIST_EXTRA ! ds) y @ rest"
  obtains r' where "do_match s (build dl) out r = Inr (expand_token out (Match s x ds y), r')" "stream r' = rest"
proof -
  have t': "s < 29" "x < 2 ^ (LEN_EXTRA ! s)" "ds < 30" "y < 2 ^ (DIST_EXTRA ! ds)" "coded dl ds" "match_dist ds y \<le> length out"
    using t by simp_all
  have lens: "length LEN_BASE = 29" "length DIST_BASE = 30" by (simp_all add: LEN_BASE_def DIST_BASE_def)
  obtain r1 where r1: "rd_bits (LEN_EXTRA ! s) r = Inr (x, r1)" "stream r1 = codeword dl ds @ lsb (DIST_EXTRA ! ds) y @ rest"
    using str t'(2) by (rule rd_bits_stream)
  obtain r2 where r2: "decode (build dl) r1 = Inr (ds, r2)" "stream r2 = lsb (DIST_EXTRA ! ds) y @ rest"
    using dl t'(5) r1(2) by (rule decode_codeword)
  obtain r3 where r3: "rd_bits (DIST_EXTRA ! ds) r2 = Inr (y, r3)" "stream r3 = rest"
    using r2(2) t'(4) by (rule rd_bits_stream)
  have "0 < match_dist ds y" using dist_base_pos [OF t'(3)] by (simp add: match_dist_def)
  then have "do_match s (build dl) out r = Inr (expand_token out (Match s x ds y), r3)"
    using t' lens r1(1) r2(1) r3(1) copy_loop_eq [of "match_dist ds y" out "match_len s x"]
    by (simp add: do_match_def Let_def match_dist_def match_len_def)
  then show thesis using r3(2) by (rule that)
qed

lemma inflate_block_tokens:
  assumes ll: "list_all (\<lambda>l. l \<le> 15) ll" and dl: "list_all (\<lambda>l. l \<le> 15) dl"
    and "legals ll dl out ts" "stream r = block_bits ll dl ts @ rest"
  shows "\<exists>r'. inflate_block r out (build ll) (build dl) = Inr (expand out ts, r') \<and> stream r' = rest"
  using assms(3,4)
proof (induction ts arbitrary: out r)
  case Nil
  then obtain r1 where "decode (build ll) r = Inr (256, r1)" "stream r1 = rest"
    using decode_codeword [OF ll, of 256 r rest] by (auto simp: block_bits_def)
  then show ?case by (simp add: inflate_block.simps [of r] expand_def)
next
  case (Cons t ts)
  show ?case
  proof (cases t)
    case (Literal b)
    have "stream r = codeword ll (unat b) @ block_bits ll dl ts @ rest" "coded ll (unat b)"
      using Cons.prems Literal by (simp_all add: block_bits_def)
    then obtain r1 where r1: "decode (build ll) r = Inr (unat b, r1)" "stream r1 = block_bits ll dl ts @ rest"
      using decode_codeword [OF ll] by blast
    have "unat b < 256" using unsigned_less [of b] by simp
    then have "inflate_block r out (build ll) (build dl) = inflate_block r1 (out @ [b]) (build ll) (build dl)"
      using r1(1) by (simp add: inflate_block.simps [of r])
    then show ?thesis using Cons.IH [of "out @ [b]" r1] Cons.prems r1(2) Literal by (simp add: expand_def)
  next
    case (Match s x ds y)
    have "stream r = codeword ll (257 + s) @ lsb (LEN_EXTRA ! s) x @ codeword dl ds @ lsb (DIST_EXTRA ! ds) y @ block_bits ll dl ts @ rest"
      "coded ll (257 + s)" using Cons.prems Match by (simp_all add: block_bits_def)
    then obtain r1 where r1: "decode (build ll) r = Inr (257 + s, r1)"
      "stream r1 = lsb (LEN_EXTRA ! s) x @ codeword dl ds @ lsb (DIST_EXTRA ! ds) y @ block_bits ll dl ts @ rest"
      using decode_codeword [OF ll] by blast
    have "legal ll dl (length out) (Match s x ds y)" using Cons.prems Match by simp
    then obtain r2 where r2: "do_match s (build dl) out r1 = Inr (expand_token out t, r2)" "stream r2 = block_bits ll dl ts @ rest"
      using do_match_token [OF dl _ r1(2)] Match by blast
    have "inflate_block r out (build ll) (build dl) = inflate_block r2 (expand_token out t) (build ll) (build dl)"
      using r1(1) r2(1) by (simp add: inflate_block.simps [of r])
    then show ?thesis using Cons.IH [of "expand_token out t" r2] Cons.prems r2(2) by (simp add: expand_def)
  qed
qed

section \<open>Stored blocks\<close>

lemma rd_bit_cnt: "rd_bit r = Inr (b, r') \<Longrightarrow> bitcnt r \<le> 8 \<Longrightarrow> bitcnt r' < 8"
  by (auto simp: rd_bit_def refill_def split: if_splits)

lemma rd_bits_cnt: "rd_bits_from i n v r = Inr (w, r') \<Longrightarrow> bitcnt r < 8 \<Longrightarrow> bitcnt r' < 8"
proof (induction n arbitrary: i v r)
  case (Suc n)
  then obtain b r1 where "rd_bit r = Inr (b, r1)" "rd_bits_from (i + 1) n (v + b * 2 ^ i) r1 = Inr (w, r')"
    by (auto split: sum.splits)
  then show ?case using Suc.IH rd_bit_cnt [of r b r1] Suc.prems(2) by simp
qed simp

lemma lsb_inj: "lsb n v = lsb n w \<Longrightarrow> v < 2 ^ n \<Longrightarrow> w < 2 ^ n \<Longrightarrow> v = w"
  by (metis num_lsb mod_less)

lemma length_byte_bits [simp]: "length (byte_bits b) = 8"
  by (simp add: byte_bits_def)

lemma byte_bits_inj: "byte_bits x = byte_bits y \<Longrightarrow> x = y"
proof -
  assume eq: "byte_bits x = byte_bits y"
  have less: "unat v < 2 ^ 8" for v :: byte using unsigned_less [of v] by simp
  from eq have "unat x = unat y" unfolding byte_bits_def by (rule lsb_inj [OF _ less less])
  then show ?thesis by (rule unsigned_word_eqI)
qed

lemma bytes_inj: "concat (map byte_bits xs) = concat (map byte_bits ys) \<Longrightarrow> xs = ys"
proof (induction xs ys rule: list_induct2')
  case (4 x xs y ys)
  then have "byte_bits x = byte_bits y" "concat (map byte_bits xs) = concat (map byte_bits ys)" by simp_all
  with 4(1) byte_bits_inj show ?case by blast
next
  case (2 x xs)
  then have "length (byte_bits x) = 0" by simp
  then show ?case by (simp only: length_byte_bits)
next
  case (3 y ys)
  then have "length (byte_bits y) = 0" by simp
  then show ?case by (simp only: length_byte_bits)
qed simp

lemma length_bytes: "length (concat (map byte_bits xs)) = 8 * length xs"
  by (simp add: length_concat o_def sum_list_triv)

text \<open>After the padding, the reader stands at the first whole byte.\<close>

lemma align_stream:
  assumes "stream r = pad @ concat (map byte_bits bs)" "length pad < 8" "bitcnt r < 8"
  shows "drop (br_pos r) (br_data r) = bs"
proof -
  let ?n = "length (drop (br_pos r) (br_data r))"
  have "bitcnt r + 8 * ?n = length pad + 8 * length bs"
    using arg_cong [OF assms(1), of length] by (simp add: stream_def length_bytes del: length_drop)
  then have "bitcnt r mod 8 = length pad mod 8" by (metis mod_mult_self2)
  then have "bitcnt r = length pad" using assms(2,3) by simp
  then show ?thesis using assms(1) bytes_inj by (auto simp: stream_def)
qed

lemma stored_block_bytes:
  assumes "stream r = pad @ concat (map byte_bits (le_bytes 2 (length d) @ n @ d @ bs))" "length pad < 8" "bitcnt r < 8"
    "length d < 2 ^ 16" "length n = 2"
  shows "\<exists>r'. stored_block out r = Inr (out @ d, r') \<and> stream r' = concat (map byte_bits bs)"
proof -
  let ?D = "br_data r" and ?p = "br_pos r"
  have rest: "drop ?p ?D = le_bytes 2 (length d) @ n @ d @ bs" using assms(1-3) by (rule align_stream)
  have len: "length ?D = ?p + 4 + length d + length bs"
    using arg_cong [OF rest, of length] assms(5) by (simp add: le_bytes_def)
  have "unat (?D ! ?p) + unat (?D ! (?p + 1)) * 2 ^ 8 = length d"
  proof -
    have "le_bytes 2 (length d) = [of_nat (length d), of_nat (length d div 256)]" by (simp add: numeral_2_eq_2 le_bytes_Suc le_bytes_def)
    then have "?D ! ?p = of_nat (length d)" "?D ! (?p + 1) = of_nat (length d div 256)"
      using arg_cong [OF rest, of "\<lambda>l. l ! 0"] arg_cong [OF rest, of "\<lambda>l. l ! 1"] len by simp_all
    then show ?thesis using assms(4) by (simp add: unat_of_nat)
  qed
  moreover have d: "drop (?p + 4) ?D = d @ bs"
    using arg_cong [OF rest, of "drop 4"] assms(5) by (simp add: add.commute)
  moreover have "drop (?p + 4 + length d) ?D = bs"
    using arg_cong [OF d, of "drop (length d)"] by (simp add: add.commute)
  ultimately show ?thesis using len
    by (simp add: stored_block_def Let_def align_def slice_def stream_def)
qed

section \<open>Dynamic tables\<close>

text \<open>The run-length coding of the code lengths: a length, a repetition of the previous one, or a short or long run of zeros.\<close>

datatype len_token =
    Len nat
  | Again nat
  | Zeros nat
  | ManyZeros nat

fun len_run :: "nat list \<Rightarrow> len_token \<Rightarrow> nat list" where
  "len_run acc (Len l) = [l]"
| "len_run acc (Again n) = replicate (3 + n) (last acc)"
| "len_run acc (Zeros n) = replicate (3 + n) 0"
| "len_run acc (ManyZeros n) = replicate (11 + n) 0"

fun len_bits :: "nat list \<Rightarrow> len_token \<Rightarrow> bool list" where
  "len_bits cl (Len l) = codeword cl l"
| "len_bits cl (Again n) = codeword cl 16 @ lsb 2 n"
| "len_bits cl (Zeros n) = codeword cl 17 @ lsb 3 n"
| "len_bits cl (ManyZeros n) = codeword cl 18 @ lsb 7 n"

fun len_legal :: "nat list \<Rightarrow> nat list \<Rightarrow> len_token \<Rightarrow> bool" where
  "len_legal cl acc (Len l) \<longleftrightarrow> l \<le> 15 \<and> coded cl l"
| "len_legal cl acc (Again n) \<longleftrightarrow> n < 4 \<and> acc \<noteq> [] \<and> coded cl 16"
| "len_legal cl acc (Zeros n) \<longleftrightarrow> n < 8 \<and> coded cl 17"
| "len_legal cl acc (ManyZeros n) \<longleftrightarrow> n < 128 \<and> coded cl 18"

text \<open>\<^verbatim>\<open>lens_code cl acc bits lens\<close>: after the lengths \<open>acc\<close>, the bits complete them to \<open>lens\<close>.\<close>

inductive lens_code :: "nat list \<Rightarrow> nat list \<Rightarrow> bool list \<Rightarrow> nat list \<Rightarrow> bool" where
  finished: "lens_code cl acc [] acc"
| further: "len_legal cl acc t \<Longrightarrow> lens_code cl (acc @ len_run acc t) bits lens \<Longrightarrow>
    lens_code cl acc (len_bits cl t @ bits) lens"

lemma lens_code_prefix: "lens_code cl acc bits lens \<Longrightarrow> length acc \<le> length lens"
  by (induction rule: lens_code.induct) auto

lemma lens_code_bound: "lens_code cl acc bits lens \<Longrightarrow> list_all (\<lambda>l. l \<le> 15) acc \<Longrightarrow> list_all (\<lambda>l. l \<le> 15) lens"
proof (induction rule: lens_code.induct)
  case (further cl acc t bits lens)
  have "list_all (\<lambda>l. l \<le> 15) (len_run acc t)"
    using further.hyps(1) further.prems by (cases t) (auto simp: list_all_iff)
  then show ?case using further by simp
qed

lemma repeat_length_run:
  assumes "length acc + n \<le> tot"
  shows "repeat_length tot v n (acc @ replicate (tot - length acc) 0) (length acc) =
    Inr ((acc @ replicate n v) @ replicate (tot - length (acc @ replicate n v)) 0, length (acc @ replicate n v))"
  using assms
proof (induction n arbitrary: acc)
  case (Suc n)
  have "replicate (tot - length acc) 0 = (0 :: nat) # replicate (tot - Suc (length acc)) 0"
    using Suc.prems by (simp flip: replicate_Suc add: Suc_diff_Suc)
  then have "(acc @ replicate (tot - length acc) 0)[length acc := v] = (acc @ [v]) @ replicate (tot - length (acc @ [v])) 0"
    by (simp add: list_update_append)
  then show ?case using Suc.IH [of "acc @ [v]"] Suc.prems by (simp add: replicate_app_Cons_same)
qed simp

lemma update_next:
  "length acc < tot \<Longrightarrow> (acc @ replicate (tot - length acc) 0)[length acc := v] = (acc @ [v]) @ replicate (tot - Suc (length acc)) 0"
  by (simp add: list_update_append Suc_diff_Suc flip: replicate_Suc)
    (metis Suc_diff_Suc list_update_code(2) replicate_Suc)

lemma read_lengths_code:
  assumes cl: "list_all (\<lambda>l. l \<le> 15) cl" and "lens_code cl acc bits lens" "stream r = bits @ rest"
  shows "\<exists>r'. read_lengths (build cl) (length lens) (acc @ replicate (length lens - length acc) 0) (length acc) r = Inr (lens, r')
    \<and> stream r' = rest"
  using assms(2,1,3)
proof (induction arbitrary: r rule: lens_code.induct)
  case (finished cl acc)
  then show ?case by (simp add: read_lengths.simps)
next
  case (further cl acc t bits lens)
  let ?tot = "length lens"
  have room: "length acc + length (len_run acc t) \<le> ?tot" using lens_code_prefix [OF further.hyps(2)] by simp
  have less: "length acc < ?tot" using room by (cases t) simp_all
  have IH: "\<exists>r'. read_lengths (build cl) ?tot ((acc @ len_run acc t) @ replicate (?tot - length (acc @ len_run acc t)) 0)
      (length (acc @ len_run acc t)) r2 = Inr (lens, r') \<and> stream r' = rest" if "stream r2 = bits @ rest" for r2
    using further.IH [OF further.prems(1) that] .
  have rep: "n < 2 ^ k \<Longrightarrow> coded cl s \<Longrightarrow> stream r = codeword cl s @ lsb k n @ bits @ rest \<Longrightarrow>
    \<exists>r1 r2. decode (build cl) r = Inr (s, r1) \<and> rd_bits k r1 = Inr (n, r2) \<and> stream r2 = bits @ rest" for n k s
    by (metis decode_codeword [OF further.prems(1)] rd_bits_stream)
  show ?case
  proof (cases t)
    case (Len l)
    then obtain r1 where r1: "decode (build cl) r = Inr (l, r1)" "stream r1 = bits @ rest"
      using further.hyps(1) further.prems decode_codeword [OF further.prems(1), of l r "bits @ rest"] by auto
    then show ?thesis using IH [OF r1(2)] Len less further.hyps(1)
      by (subst read_lengths.simps) (simp add: update_next)
  next
    case (Again n)
    then obtain r1 r2 where r: "decode (build cl) r = Inr (16, r1)" "rd_bits 2 r1 = Inr (n, r2)" "stream r2 = bits @ rest"
      using rep [of n 2 16] further.hyps(1) further.prems(2) by auto
    have "(acc @ replicate (?tot - length acc) 0) ! (length acc - 1) = last acc"
      using Again further.hyps(1) by (simp add: nth_append last_conv_nth)
    then show ?thesis using IH [OF r(3)] Again less further.hyps(1) r repeat_length_run [of acc "3 + n" ?tot "last acc"] room
      by (subst read_lengths.simps) simp
  next
    case (Zeros n)
    then obtain r1 r2 where r: "decode (build cl) r = Inr (17, r1)" "rd_bits 3 r1 = Inr (n, r2)" "stream r2 = bits @ rest"
      using rep [of n 3 17] further.hyps(1) further.prems(2) by auto
    then show ?thesis using IH [OF r(3)] Zeros less r repeat_length_run [of acc "3 + n" ?tot 0] room
      by (subst read_lengths.simps) simp
  next
    case (ManyZeros n)
    then obtain r1 r2 where r: "decode (build cl) r = Inr (18, r1)" "rd_bits 7 r1 = Inr (n, r2)" "stream r2 = bits @ rest"
      using rep [of n 7 18] further.hyps(1) further.prems(2) by auto
    then show ?thesis using IH [OF r(3)] ManyZeros less r repeat_length_run [of acc "11 + n" ?tot 0] room
      by (subst read_lengths.simps) simp
  qed
qed

section \<open>The reader between blocks\<close>

text \<open>Every operation that reads leaves fewer than eight bits buffered, so that dropping them drops exactly the padding.\<close>

named_theorems reader_cnt \<open>operations keep fewer than eight buffered bits\<close>

declare rd_bit_cnt [reader_cnt]

lemma rd_bits_cnt8 [reader_cnt]: "rd_bits n r = Inr (v, r') \<Longrightarrow> bitcnt r < 8 \<Longrightarrow> bitcnt r' < 8"
  unfolding rd_bits_def by (rule rd_bits_cnt)

lemma decode_loop_cnt:
  "decode_loop h lens code first index r = Inr (s, r') \<Longrightarrow> bitcnt r < 8 \<Longrightarrow> bitcnt r' < 8"
proof (induction lens arbitrary: code first index r)
  case (Cons len lens)
  from Cons.prems obtain b r1 where b: "rd_bit r = Inr (b, r1)" by (auto split: sum.splits)
  with Cons.prems(2) have "bitcnt r1 < 8" by (simp add: rd_bit_cnt)
  then show ?case using Cons.prems b by (auto simp: Let_def split: if_splits dest: Cons.IH)
qed simp

lemma decode_cnt [reader_cnt]: "decode h r = Inr (s, r') \<Longrightarrow> bitcnt r < 8 \<Longrightarrow> bitcnt r' < 8"
  unfolding decode_def by (rule decode_loop_cnt)

lemma read_cl_cnt [reader_cnt]: "read_cl is cl r = Inr (cl', r') \<Longrightarrow> bitcnt r < 8 \<Longrightarrow> bitcnt r' < 8"
  by (induction "is" arbitrary: cl r) (auto split: sum.splits dest!: reader_cnt)

lemma do_match_cnt [reader_cnt]: "do_match s dist out r = Inr (out', r') \<Longrightarrow> bitcnt r < 8 \<Longrightarrow> bitcnt r' < 8"
  by (auto simp: do_match_def Let_def split: if_splits sum.splits dest!: reader_cnt)

lemma inflate_block_cnt [reader_cnt]:
  "inflate_block r out lit dist = Inr (out', r') \<Longrightarrow> bitcnt r < 8 \<Longrightarrow> bitcnt r' < 8"
proof (induction r out lit dist arbitrary: out' r' rule: inflate_block.induct)
  case (1 r out lit dist)
  note run = 1(3) [unfolded inflate_block.simps [of r]]
  then obtain s r1 where s: "decode lit r = Inr (s, r1)" by (auto split: sum.splits)
  note r1 = decode_cnt [OF s 1(4)]
  consider "s = 256" | "s < 256" | "s > 256" by linarith
  then show ?case
  proof cases
    case 2
    then show ?thesis using 1(1) [OF s refl] run s r1 by simp
  next
    case 3
    then obtain o2 r2 where m: "do_match (s - 257) dist out r1 = Inr (o2, r2)" "inflate_block r2 o2 lit dist = Inr (out', r')"
      using run s by (auto split: sum.splits)
    then show ?thesis using 1(2) [OF s refl _ _ m(1) refl] 3 do_match_cnt [OF m(1) r1] by simp
  qed (use run s r1 in auto)
qed

lemma read_lengths_cnt [reader_cnt]:
  "read_lengths h tot lens i r = Inr (lens', r') \<Longrightarrow> bitcnt r < 8 \<Longrightarrow> bitcnt r' < 8"
proof (induction "unread r" arbitrary: lens i r rule: less_induct)
  case less
  show ?case
  proof (cases "i < tot")
    case True
    note run = less.prems(1) [unfolded read_lengths.simps [of h tot lens i r]]
    from run True obtain s r1 where s: "decode h r = Inr (s, r1)" by (auto split: sum.splits)
    note fewer = decode_unread [OF s] and r1 = decode_cnt [OF s less.prems(2)]
    obtain lens2 i2 r2 where "unread r2 \<le> unread r1" "bitcnt r2 < 8" "read_lengths h tot lens2 i2 r2 = Inr (lens', r')"
      using run True s r1 by (auto split: if_splits sum.splits) (blast dest: rd_bits_unread rd_bits_cnt8)+
    then show ?thesis using less.hyps fewer by (meson le_less_trans)
  qed (use less.prems in \<open>simp add: read_lengths.simps [of h tot lens i r]\<close>)
qed

lemma read_dynamic_cnt [reader_cnt]: "read_dynamic r = Inr (hs, r') \<Longrightarrow> bitcnt r < 8 \<Longrightarrow> bitcnt r' < 8"
  by (auto simp: read_dynamic_def Let_def split: sum.splits dest!: reader_cnt)

lemma one_block_cnt [reader_cnt]: "one_block t out r = Inr (out', r') \<Longrightarrow> bitcnt r < 8 \<Longrightarrow> bitcnt r' < 8"
  by (auto simp: one_block_def stored_block_def align_def Let_def split: if_splits sum.splits dest!: reader_cnt)

section \<open>The header of a dynamic block\<close>

inductive dynamic_header :: "bool list \<Rightarrow> nat list \<Rightarrow> nat list \<Rightarrow> bool" where
  dynamic_header: "257 \<le> length ll \<Longrightarrow> length ll \<le> 288 \<Longrightarrow> 1 \<le> length dl \<Longrightarrow> length dl \<le> 32 \<Longrightarrow> 4 \<le> n \<Longrightarrow> n \<le> 19 \<Longrightarrow>
    length cl = 19 \<Longrightarrow> list_all (\<lambda>l. l < 8) cl \<Longrightarrow> list_all (\<lambda>i. i \<in> set (take n ORDER) \<or> cl ! i = 0) [0..<19] \<Longrightarrow>
    lens_code cl [] code (ll @ dl) \<Longrightarrow>
    dynamic_header (lsb 5 (length ll - 257) @ lsb 5 (length dl - 1) @ lsb 4 (n - 4) @
      concat (map (\<lambda>i. lsb 3 (cl ! i)) (take n ORDER)) @ code) ll dl"

lemma read_cl_stream:
  assumes "stream r = concat (map (\<lambda>i. lsb 3 (cl ! i)) is) @ rest" "\<forall>i \<in> set is. cl ! i < 8"
  shows "\<exists>r'. read_cl is acc r = Inr (foldl (\<lambda>a i. a[i := cl ! i]) acc is, r') \<and> stream r' = rest"
  using assms
proof (induction "is" arbitrary: acc r)
  case (Cons i "is")
  obtain r1 where "rd_bits 3 r = Inr (cl ! i, r1)" "stream r1 = concat (map (\<lambda>i. lsb 3 (cl ! i)) is) @ rest"
    by (rule rd_bits_stream [of r 3 "cl ! i"]) (use Cons.prems in auto)
  then show ?case using Cons.IH [of r1] Cons.prems by simp
qed simp

lemma foldl_update:
  "length (foldl (\<lambda>a i. a[i := c ! i]) acc is) = length acc"
  "i < length acc \<Longrightarrow> foldl (\<lambda>a i. a[i := c ! i]) acc is ! i = (if i \<in> set is then c ! i else acc ! i)"
  by (induction "is" arbitrary: acc) (auto simp: nth_list_update)

lemma read_dynamic_header:
  assumes "dynamic_header hdr ll dl" "stream r = hdr @ rest"
  shows "\<exists>r'. read_dynamic r = Inr ((build ll, build dl), r') \<and> stream r' = rest"
  using assms
proof (induction rule: dynamic_header.induct)
  case (dynamic_header ll dl n cl code)
  note d = dynamic_header
  let ?cls = "concat (map (\<lambda>i. lsb 3 (cl ! i)) (take n ORDER))"
  obtain r1 where r1: "rd_bits 5 r = Inr (length ll - 257, r1)"
    "stream r1 = lsb 5 (length dl - 1) @ lsb 4 (n - 4) @ ?cls @ code @ rest"
    by (rule rd_bits_stream [of r 5 "length ll - 257"]) (use d in auto)
  obtain r2 where r2: "rd_bits 5 r1 = Inr (length dl - 1, r2)" "stream r2 = lsb 4 (n - 4) @ ?cls @ code @ rest"
    by (rule rd_bits_stream [OF r1(2)]) (use d in auto)
  obtain r3 where r3: "rd_bits 4 r2 = Inr (n - 4, r3)" "stream r3 = ?cls @ code @ rest"
    by (rule rd_bits_stream [OF r2(2)]) (use d in auto)
  have ord: "i < 19" if "i \<in> set (take n ORDER)" for i
    using in_set_takeD [OF that] by (auto simp: ORDER_def)
  then have "\<forall>i \<in> set (take n ORDER). cl ! i < 8" using d(7,8) by (simp add: list_all_length)
  then obtain r4 where r4: "read_cl (take n ORDER) (replicate 19 0) r3 =
      Inr (foldl (\<lambda>a i. a[i := cl ! i]) (replicate 19 0) (take n ORDER), r4)" "stream r4 = code @ rest"
    using read_cl_stream [OF r3(2)] by blast
  have "foldl (\<lambda>a i. a[i := cl ! i]) (replicate 19 0) (take n ORDER) = cl"
    using d(7,9) by (intro nth_equalityI) (auto simp: foldl_update list_all_iff)
  moreover have "list_all (\<lambda>l. l \<le> 15) cl" using d(8) by (auto simp: list_all_iff)
  then obtain r5 where r5: "read_lengths (build cl) (length (ll @ dl)) (replicate (length (ll @ dl)) 0) 0 r4 = Inr (ll @ dl, r5)"
    "stream r5 = rest" using read_lengths_code [OF _ d(10) r4(2)] by auto
  moreover have "length ll - 257 + 257 = length ll" "length dl - 1 + 1 = length dl" "n - 4 + 4 = n" using d by simp_all
  ultimately show ?case using r1(1) r2(1) r3(1) r4(1) r5 by (simp add: read_dynamic_def Let_def del: One_nat_def add_Suc_right)
qed

lemma dynamic_header_lens: "dynamic_header hdr ll dl \<Longrightarrow> list_all (\<lambda>l. l \<le> 15) ll \<and> list_all (\<lambda>l. l \<le> 15) dl"
  by (induction rule: dynamic_header.induct) (auto dest: lens_code_bound)

section \<open>The format\<close>

text \<open>
  \<^verbatim>\<open>block out t bits rest out'\<close>: the bits of a block of type \<open>t\<close> that extends the output \<open>out\<close> to \<open>out'\<close> and is followed by
  \<open>rest\<close>. A stored block starts at the next byte boundary, so that what follows it is a sequence of whole bytes; its second
  length field is not restricted. \<^verbatim>\<open>deflate out bits res\<close>: the blocks of a stream.
\<close>

inductive block :: "byte list \<Rightarrow> nat \<Rightarrow> bool list \<Rightarrow> bool list \<Rightarrow> byte list \<Rightarrow> bool" where
  stored: "length pad < 8 \<Longrightarrow> length d < 2 ^ 16 \<Longrightarrow> length nlen = 2 \<Longrightarrow>
    block out 0 (pad @ concat (map byte_bits (le_bytes 2 (length d) @ nlen @ d))) (concat (map byte_bits bs)) (out @ d)"
| fixed: "legals fixed_lengths (replicate 32 5) out ts \<Longrightarrow>
    block out 1 (block_bits fixed_lengths (replicate 32 5) ts) rest (expand out ts)"
| dynamic: "dynamic_header hdr ll dl \<Longrightarrow> legals ll dl out ts \<Longrightarrow>
    block out 2 (hdr @ block_bits ll dl ts) rest (expand out ts)"

inductive deflate :: "byte list \<Rightarrow> bool list \<Rightarrow> byte list \<Rightarrow> bool" where
  final: "block out t bits rest out' \<Longrightarrow> deflate out (True # lsb 2 t @ bits @ rest) out'"
| more: "block out t bits rest out' \<Longrightarrow> deflate out' rest res \<Longrightarrow> deflate out (False # lsb 2 t @ bits @ rest) res"

lemma fixed_lengths_bound: "list_all (\<lambda>l. l \<le> 15) fixed_lengths"
  by (auto simp: fixed_lengths_def list_all_iff)

lemma one_block_format:
  assumes "block out t bits rest out'" "stream r = bits @ rest" "bitcnt r < 8"
  shows "\<exists>r'. one_block t out r = Inr (out', r') \<and> stream r' = rest"
  using assms
proof (induction rule: block.induct)
  case (stored pad d nlen out bs)
  then show ?case using stored_block_bytes [of r pad d nlen bs out] by (simp add: one_block_def)
next
  case (fixed out ts rest)
  have "list_all (\<lambda>l. l \<le> 15) (replicate 32 (5 :: nat))" by (simp add: list_all_iff)
  then show ?case
    using inflate_block_tokens [OF fixed_lengths_bound _ fixed.hyps fixed.prems(1)]
    by (simp add: one_block_def fixed_lit_def fixed_dist_def)
next
  case (dynamic hdr ll dl out ts rest)
  then obtain r1 where "read_dynamic r = Inr ((build ll, build dl), r1)" "stream r1 = block_bits ll dl ts @ rest"
    using read_dynamic_header [of hdr ll dl r "block_bits ll dl ts @ rest"] by auto
  then show ?case using dynamic_header_lens [OF dynamic(1)] inflate_block_tokens [of ll dl out ts r1 rest] dynamic(2)
    by (simp add: one_block_def)
qed

lemma block_type: "block out t bits rest out' \<Longrightarrow> t < 2 ^ 2"
  by (induction rule: block.induct) simp_all

lemma one_step:
  assumes "block out t bits rest out'" "stream r = b # lsb 2 t @ bits @ rest" "bitcnt r < 8"
  shows "\<exists>r1 r2 r3. rd_bit r = Inr (of_bool b, r1) \<and> rd_bits 2 r1 = Inr (t, r2) \<and>
    one_block t out r2 = Inr (out', r3) \<and> stream r3 = rest \<and> bitcnt r3 < 8"
proof -
  obtain r1 where r1: "rd_bit r = Inr (of_bool b, r1)" "stream r1 = lsb 2 t @ bits @ rest"
    using rd_bit_Cons [OF assms(2)] by blast
  obtain r2 where r2: "rd_bits 2 r1 = Inr (t, r2)" "stream r2 = bits @ rest"
    using rd_bits_stream [OF r1(2) block_type [OF assms(1)]] .
  have "bitcnt r2 < 8" using rd_bits_cnt8 [OF r2(1)] rd_bit_cnt [OF r1(1)] assms(3) by simp
  then show ?thesis using one_block_format [OF assms(1) r2(2)] r1(1) r2(1) one_block_cnt by blast
qed

lemma inflate_loop_format:
  "deflate out bits res \<Longrightarrow> stream r = bits \<Longrightarrow> bitcnt r < 8 \<Longrightarrow> inflate_loop r out = Inr res"
proof (induction arbitrary: r rule: deflate.induct)
  case (final out t bits rest out')
  then show ?case using one_step [OF final(1), of r True] by (auto simp: inflate_loop.simps [of r])
next
  case (more out t bits rest out' res)
  then show ?case using one_step [OF more(1), of r False] by (auto simp: inflate_loop.simps [of r])
qed

lemma inflate_format: "deflate [] (concat (map byte_bits d)) res \<Longrightarrow> inflate d = Inr res"
  unfolding inflate_def by (rule inflate_loop_format) (simp_all add: br_new_def stream_def)

text \<open>C21 The decompressor implements the DEFLATE format: on the bytes of any stream that is a sequence of stored, fixed and dynamic
  blocks in the sense of RFC 1951, whatever follows the last block, it returns the bytes those blocks stand for.
\<close>

theorem inflate_deflate: "deflate [] (concat (map byte_bits d)) res \<Longrightarrow> inflate d = Inr res"
  by (rule inflate_format)

text \<open>
  A stream a compressor makes of ten letters a: one fixed block with two literals and a match of length 8 and distance 1.
\<close>

lemma fixed_lengths_runs: "fixed_lengths = replicate 144 8 @ replicate 112 9 @ replicate 24 7 @ replicate 8 8"
  by (rule nth_equalityI) (auto simp: fixed_lengths_def nth_append)

lemma count_list_run: "count_list (replicate n x) y = (if x = y then n else 0)"
  by (induction n) auto

lemma first_code_step: "0 < l \<Longrightarrow> first_code ls l = (first_code ls (l - 1) + cnt ls (l - 1)) * 2"
  by (cases l) simp_all

lemma fixed_code_values:
  "code_of fixed_lengths 97 = 145" "code_of fixed_lengths 262 = 6" "code_of fixed_lengths 256 = 0" "code_of (replicate 32 5) 0 = 0"
  by (simp_all add: fixed_lengths_runs code_of_def rank_def cnt_def count_list_run nth_append first_code_step)

lemma ten_letters:
  "deflate [] (concat (map byte_bits [75, 76, 132, 1, 0])) (replicate 10 97)"
proof -
  let ?ts = "[Literal 97, Literal 97, Match 5 0 0 0]" and ?f = fixed_lengths and ?d = "replicate 32 5"
  have nth: "?f ! 97 = 8" "?f ! 262 = 7" "?f ! 256 = 7" "length ?f = 288" by (simp_all add: fixed_lengths_def)
  have match: "match_len 5 0 = 8" "match_dist 0 0 = 1" "LEN_EXTRA ! 5 = 0" "DIST_EXTRA ! 0 = 0"
    by (simp_all add: match_len_def match_dist_def LEN_BASE_def DIST_BASE_def LEN_EXTRA_def DIST_EXTRA_def)
  have legal: "legals ?f ?d [] ?ts" by (simp add: coded_def nth match fixed_code_values)
  have bits: "block_bits ?f ?d ?ts = msb 8 145 @ msb 8 145 @ msb 7 6 @ msb 5 0 @ msb 7 0"
    by (simp add: block_bits_def codeword_def nth match fixed_code_values)
  have res: "expand [] ?ts = replicate 10 97"
    by (simp add: expand_def copied_def match) (simp add: numeral_eq_Suc)
  have "concat (map byte_bits [75, 76, 132, 1, 0]) = True # lsb 2 1 @ block_bits ?f ?d ?ts @ replicate 2 False"
    unfolding bits by code_simp
  then show ?thesis using deflate.final [OF block.fixed [OF legal]] by (simp add: res)
qed

theorem inflate_deflate_witness: "inflate [75, 76, 132, 1, 0] = Inr (replicate 10 97)"
  by (rule inflate_deflate [OF ten_letters])

end
