(* ===== verification/Png.thy ===== *)
theory Png
  imports Inflate_Correct
begin

text \<open>
  The PNG container of \<^verbatim>\<open>pngdec/src/lib.rs\<close>: the loop over chunks, the checks of the header, reversing the scanline filters in
  place, and the expansion of the five colour types to RGBA. The kernel is built with overflow checks, so a product that leaves
  \<^verbatim>\<open>usize\<close> stops it: the result \<^term>\<open>None\<close>. Reversing the filters inverts every choice of filters, and
  decoding a file gives back the image it was made of.
\<close>

section \<open>The decoder\<close>

record image =
  im_width :: nat
  im_height :: nat
  rgba :: "byte list"

definition be32 :: "byte list \<Rightarrow> nat" where
  "be32 b = unat (b ! 0) * 2 ^ 24 + unat (b ! 1) * 2 ^ 16 + unat (b ! 2) * 2 ^ 8 + unat (b ! 3)"

definition paeth :: "int \<Rightarrow> int \<Rightarrow> int \<Rightarrow> int" where
  "paeth a b c =
    (let p = a + b - c; pa = abs (p - a); pb = abs (p - b); pc = abs (p - c) in
     if pa \<le> pb \<and> pa \<le> pc then a else if pb \<le> pc then b else c)"

definition SIG :: "byte list" where
  "SIG = [137, 80, 78, 71, 13, 10, 26, 10]"

text \<open>The variables of the loop over chunks.\<close>

record png_header =
  width :: nat
  height :: nat
  bit_depth :: byte
  color_type :: byte
  interlace :: byte
  palette :: "(byte \<times> byte \<times> byte) list"
  trns :: "byte list"
  idat :: "byte list"

definition header_init :: png_header where
  "header_init = \<lparr>width = 0, height = 0, bit_depth = 0, color_type = 0, interlace = 0, palette = [], trns = [], idat = []\<rparr>"

text \<open>\<^verbatim>\<open>chunks_exact(3)\<close>: an incomplete last chunk is dropped.\<close>

fun triples :: "byte list \<Rightarrow> (byte \<times> byte \<times> byte) list" where
  "triples (a # b # c # xs) = (a, b, c) # triples xs"
| "triples xs = []"

text \<open>The chunk types as bytes.\<close>

definition IHDR :: "byte list" where
  "IHDR = [73, 72, 68, 82]"

definition PLTE :: "byte list" where
  "PLTE = [80, 76, 84, 69]"

definition tRNS :: "byte list" where
  "tRNS = [116, 82, 78, 83]"

definition IDAT :: "byte list" where
  "IDAT = [73, 68, 65, 84]"

definition IEND :: "byte list" where
  "IEND = [73, 69, 78, 68]"

definition take_chunk :: "byte list \<Rightarrow> byte list \<Rightarrow> png_header \<Rightarrow> png_error + png_header" where
  "take_chunk ctype d st =
    (if ctype = IHDR then
       (if length d < 13 then Inl BadChunk
        else Inr (st\<lparr>width := be32 (slice d 0 4), height := be32 (slice d 4 8), bit_depth := d ! 8, color_type := d ! 9,
          interlace := d ! 12\<rparr>))
     else if ctype = PLTE then Inr (st\<lparr>palette := triples d\<rparr>)
     else if ctype = tRNS then Inr (st\<lparr>trns := d\<rparr>)
     else if ctype = IDAT then Inr (st\<lparr>idat := idat st @ d\<rparr>)
     else Inr st)"

function chunk_loop :: "byte list \<Rightarrow> nat \<Rightarrow> png_header \<Rightarrow> png_error + png_header" where
  "chunk_loop bytes pos st =
    (if length bytes < pos + 8 then Inl Truncated
     else
       let len = be32 (slice bytes pos (pos + 4)); ctype = slice bytes (pos + 4) (pos + 8); dstart = pos + 8 in
       if length bytes < dstart + len + 4 then Inl Truncated
       else if ctype = IEND then Inr st
       else case take_chunk ctype (slice bytes dstart (dstart + len)) st of Inl e \<Rightarrow> Inl e
       | Inr st \<Rightarrow> chunk_loop bytes (dstart + len + 4) st)"
  by pat_completeness auto
termination
  by (relation "measure (\<lambda>(bytes, pos, st). length bytes - pos)") auto

declare chunk_loop.simps [simp del]

definition channels_of :: "byte \<Rightarrow> nat option" where
  "channels_of t =
    (if t = 0 then Some 1 else if t = 2 then Some 3 else if t = 3 then Some 1 else if t = 4 then Some 2
     else if t = 6 then Some 4 else None)"

text \<open>The byte \<open>rb\<close> of a row with filter \<open>f\<close>, its neighbours being \<open>a\<close> (left), \<open>b\<close> (above) and \<open>c\<close> (above left).\<close>

definition unfilter_byte :: "byte \<Rightarrow> int \<Rightarrow> int \<Rightarrow> int \<Rightarrow> int \<Rightarrow> int option" where
  "unfilter_byte f rb a b c =
    (if f = 0 then Some rb else if f = 1 then Some (rb + a) else if f = 2 then Some (rb + b)
     else if f = 3 then Some (rb + (a + b) div 2) else if f = 4 then Some (rb + paeth a b c) else None)"

definition left_of :: "nat \<Rightarrow> nat \<Rightarrow> nat \<Rightarrow> nat \<Rightarrow> byte list \<Rightarrow> int" where
  "left_of stride bpp y x img = (if bpp \<le> x then uint (img ! (y * stride + x - bpp)) else 0)"

definition above :: "nat \<Rightarrow> nat \<Rightarrow> nat \<Rightarrow> byte list \<Rightarrow> int" where
  "above stride y x img = (if 0 < y then uint (img ! ((y - 1) * stride + x)) else 0)"

definition above_left :: "nat \<Rightarrow> nat \<Rightarrow> nat \<Rightarrow> nat \<Rightarrow> byte list \<Rightarrow> int" where
  "above_left stride bpp y x img = (if 0 < y \<and> bpp \<le> x then uint (img ! ((y - 1) * stride + x - bpp)) else 0)"

fun unfilter_row :: "nat \<Rightarrow> nat \<Rightarrow> nat \<Rightarrow> byte \<Rightarrow> byte list \<Rightarrow> nat list \<Rightarrow> byte list \<Rightarrow> png_error + byte list" where
  "unfilter_row stride bpp y f row_in [] img = Inr img"
| "unfilter_row stride bpp y f row_in (x # xs) img =
    (case unfilter_byte f (uint (row_in ! x)) (left_of stride bpp y x img) (above stride y x img) (above_left stride bpp y x img) of
       None \<Rightarrow> Inl Unsupported
     | Some v \<Rightarrow> unfilter_row stride bpp y f row_in xs (img[y * stride + x := word_of_int (v mod 256)]))"

fun unfilter_rows :: "nat \<Rightarrow> nat \<Rightarrow> byte list \<Rightarrow> nat list \<Rightarrow> byte list \<Rightarrow> png_error + byte list" where
  "unfilter_rows stride bpp raw [] img = Inr img"
| "unfilter_rows stride bpp raw (y # ys) img =
    (let f = raw ! (y * (stride + 1));
         row_in = slice raw (y * (stride + 1) + 1) (y * (stride + 1) + 1 + stride) in
     case unfilter_row stride bpp y f row_in [0..<stride] img of Inl e \<Rightarrow> Inl e
     | Inr img \<Rightarrow> unfilter_rows stride bpp raw ys img)"

definition unfilter :: "nat \<Rightarrow> nat \<Rightarrow> nat \<Rightarrow> byte list \<Rightarrow> png_error + byte list" where
  "unfilter stride h bpp raw = unfilter_rows stride bpp raw [0..<h] (replicate (stride * h) 0)"

definition pixel :: "png_header \<Rightarrow> byte list \<Rightarrow> nat \<Rightarrow> byte \<times> byte \<times> byte \<times> byte" where
  "pixel st img i =
    (if color_type st = 0 then (img ! i, img ! i, img ! i, 255)
     else if color_type st = 2 then (img ! (i * 3), img ! (i * 3 + 1), img ! (i * 3 + 2), 255)
     else if color_type st = 3 then
       (let idx = unat (img ! i);
            (r, g, b) = (if idx < length (palette st) then palette st ! idx else (0, 0, 0));
            al = (if idx < length (trns st) then trns st ! idx else 255)
        in (r, g, b, al))
     else if color_type st = 4 then (img ! (i * 2), img ! (i * 2), img ! (i * 2), img ! (i * 2 + 1))
     else (img ! (i * 4), img ! (i * 4 + 1), img ! (i * 4 + 2), img ! (i * 4 + 3)))"

fun expand_rgba :: "png_header \<Rightarrow> byte list \<Rightarrow> nat list \<Rightarrow> byte list \<Rightarrow> byte list" where
  "expand_rgba st img [] out = out"
| "expand_rgba st img (i # is) out =
    (case pixel st img i of (r, g, b, al) \<Rightarrow>
       expand_rgba st img is (out[i * 4 := r, i * 4 + 1 := g, i * 4 + 2 := b, i * 4 + 3 := al]))"

definition render :: "png_header \<Rightarrow> nat \<Rightarrow> (png_error + image) option" where
  "render st channels =
    (let pixels = width st * height st; stride = width st * channels in
     if 2 ^ 64 \<le> pixels \<or> 2 ^ 64 \<le> stride then Some (Inl Dimensions)
     else case inflate (drop 2 (idat st)) of Inl e \<Rightarrow> Some (Inl e)
     | Inr raw \<Rightarrow>
         if 2 ^ 64 \<le> (stride + 1) * height st then None
         else if length raw < (stride + 1) * height st then Some (Inl Inflate)
         else case unfilter stride (height st) channels raw of Inl e \<Rightarrow> Some (Inl e)
         | Inr img \<Rightarrow>
             if 2 ^ 64 \<le> pixels * 4 then None
             else Some (Inr \<lparr>im_width = width st, im_height = height st,
               rgba = expand_rgba st img [0..<pixels] (replicate (pixels * 4) 0)\<rparr>))"

definition decode_png :: "byte list \<Rightarrow> (png_error + image) option" where
  "decode_png bytes =
    (if length bytes < 8 \<or> take 8 bytes \<noteq> SIG then Some (Inl Signature)
     else case chunk_loop bytes 8 header_init of Inl e \<Rightarrow> Some (Inl e)
     | Inr st \<Rightarrow>
         if width st = 0 \<or> height st = 0 then Some (Inl Dimensions)
         else if bit_depth st \<noteq> 8 \<or> interlace st \<noteq> 0 then Some (Inl Unsupported)
         else case channels_of (color_type st) of None \<Rightarrow> Some (Inl Unsupported)
         | Some channels \<Rightarrow> if length (idat st) < 2 then Some (Inl Truncated) else render st channels)"

section \<open>Filters\<close>

text \<open>
  The reference is the PNG specification, on its own: samples outside the image are zero, and the Paeth filter predicts the one of left,
  above and above left, the first in this order, that is nearest to left plus above minus above left.
\<close>

definition sample :: "nat \<Rightarrow> byte list \<Rightarrow> int \<Rightarrow> int \<Rightarrow> int" where
  "sample stride img y x = (if y < 0 \<or> x < 0 then 0 else uint (img ! nat (y * int stride + x)))"

definition nearest :: "int \<Rightarrow> int list \<Rightarrow> int" where
  "nearest p xs = hd (filter (\<lambda>x. \<forall>y \<in> set xs. abs (p - x) \<le> abs (p - y)) xs)"

definition predictor :: "byte \<Rightarrow> int \<Rightarrow> int \<Rightarrow> int \<Rightarrow> int" where
  "predictor f a b c = [0, a, b, (a + b) div 2, nearest (a + b - c) [a, b, c]] ! unat f"

definition filtered_byte :: "nat \<Rightarrow> nat \<Rightarrow> nat \<Rightarrow> byte \<Rightarrow> byte list \<Rightarrow> nat \<Rightarrow> byte" where
  "filtered_byte stride bpp y f img x = img ! (y * stride + x) -
    word_of_int (predictor f (sample stride img (int y) (int x - int bpp)) (sample stride img (int y - 1) (int x))
      (sample stride img (int y - 1) (int x - int bpp)))"

definition filtered_row :: "nat \<Rightarrow> nat \<Rightarrow> byte list \<Rightarrow> byte list \<Rightarrow> nat \<Rightarrow> byte list" where
  "filtered_row stride bpp fs img y = fs ! y # map (filtered_byte stride bpp y (fs ! y) img) [0..<stride]"

definition filtered :: "nat \<Rightarrow> nat \<Rightarrow> byte list \<Rightarrow> byte list \<Rightarrow> byte list" where
  "filtered stride bpp fs img = concat (map (filtered_row stride bpp fs img) [0..<length fs])"

lemma word_of_int_mod_256: "word_of_int (v mod 256) = (word_of_int v :: byte)"
  by (simp add: word_of_int_eq_iff take_bit_eq_mod)

lemma paeth_nearest: "paeth a b c = nearest (a + b - c) [a, b, c]"
  by (simp add: paeth_def nearest_def Let_def)

lemma sample_neighbours:
  assumes "x < stride"
  shows "sample stride img (int y) (int x - int bpp) = left_of stride bpp y x img"
    "sample stride img (int y - 1) (int x) = above stride y x img"
    "sample stride img (int y - 1) (int x - int bpp) = above_left stride bpp y x img"
proof -
  have at: "sample stride img (int z) (int x - int bpp) = left_of stride bpp z x img" for z
  proof (cases "bpp \<le> x")
    case True
    then have "int z * int stride + (int x - int bpp) = int (z * stride + x - bpp)" by simp
    then have "nat (int z * int stride + (int x - int bpp)) = z * stride + x - bpp" by (simp only: nat_int)
    with True show ?thesis by (simp add: sample_def left_of_def)
  qed (simp add: sample_def left_of_def)
  have up: "sample stride img (int z) (int x) = uint (img ! (z * stride + x))" for z
    by (simp add: sample_def flip: of_nat_mult of_nat_add)
  show "sample stride img (int y) (int x - int bpp) = left_of stride bpp y x img" by (rule at)
  show "sample stride img (int y - 1) (int x) = above stride y x img"
    using up by (cases y) (simp_all add: sample_def above_def)
  show "sample stride img (int y - 1) (int x - int bpp) = above_left stride bpp y x img"
  proof (cases y)
    case (Suc z)
    then show ?thesis using at[of z] by (simp add: left_of_def above_left_def)
  qed (simp add: sample_def above_left_def)
qed

lemma unfilter_byte_predictor: "f \<le> 4 \<Longrightarrow> unfilter_byte f rb a b c = Some (rb + predictor f a b c)"
proof -
  assume "f \<le> 4"
  then have "unat f \<le> 4" by (simp add: word_le_nat_alt)
  then have "unat f \<in> {0, 1, 2, 3, 4}" by auto
  moreover have "f = word_of_nat (unat f)" by simp
  ultimately have "f \<in> word_of_nat ` {0, 1, 2, 3, 4}" by blast
  then show ?thesis by (auto simp: unfilter_byte_def predictor_def paeth_nearest)
qed

text \<open>The image while rows are reversed: a prefix is final, the rest still zero.\<close>

definition partial_image :: "byte list \<Rightarrow> nat \<Rightarrow> byte list" where
  "partial_image img p = take p img @ replicate (length img - p) 0"

lemma partial_image_nth: "i < p \<Longrightarrow> p \<le> length img \<Longrightarrow> partial_image img p ! i = img ! i"
  by (simp add: partial_image_def nth_append)

lemma partial_image_update:
  assumes "p < length img"
  shows "(partial_image img p)[p := img ! p] = partial_image img (Suc p)"
proof -
  have "replicate (length img - p) 0 = (0 :: byte) # replicate (length img - Suc p) 0"
    using assms by (simp add: Suc_diff_Suc flip: replicate_Suc)
  then show ?thesis using assms by (simp add: partial_image_def list_update_append take_Suc_conv_app_nth)
qed

lemma neighbours_final:
  assumes "0 < bpp" "x < stride" "y * stride + x < length img"
  shows "left_of stride bpp y x (partial_image img (y * stride + x)) = left_of stride bpp y x img"
    "above stride y x (partial_image img (y * stride + x)) = above stride y x img"
    "above_left stride bpp y x (partial_image img (y * stride + x)) = above_left stride bpp y x img"
proof -
  have "(y - 1) * stride + x < y * stride + x" if "0 < y" using that assms(2) by (cases y) simp_all
  then have "(y - 1) * stride + x < y * stride + x" "(y - 1) * stride + x - bpp < y * stride + x" if "0 < y"
    using that less_imp_diff_less by blast+
  then show "above stride y x (partial_image img (y * stride + x)) = above stride y x img"
    "above_left stride bpp y x (partial_image img (y * stride + x)) = above_left stride bpp y x img"
    using assms by (auto simp: above_def above_left_def partial_image_nth)
  show "left_of stride bpp y x (partial_image img (y * stride + x)) = left_of stride bpp y x img"
    using assms by (auto simp: left_of_def partial_image_nth)
qed

lemma unfilter_row_filtered:
  assumes "0 < bpp" "f \<le> 4" "y * stride + stride \<le> length img" "k \<le> stride"
  shows "unfilter_row stride bpp y f (map (filtered_byte stride bpp y f img) [0..<stride]) [k..<stride] (partial_image img (y * stride + k)) =
    Inr (partial_image img (y * stride + stride))"
  using assms(4)
proof (induction k rule: inc_induct)
  case (step k)
  let ?P = "predictor f (left_of stride bpp y k img) (above stride y k img) (above_left stride bpp y k img)"
  have p: "y * stride + k < length img" using step.hyps assms(3) by simp
  have "word_of_int ((uint (filtered_byte stride bpp y f img k) + ?P) mod 256) = img ! (y * stride + k)"
    unfolding word_of_int_mod_256 by (simp add: filtered_byte_def sample_neighbours[OF step.hyps(2)] flip: wi_hom_add)
  then show ?case
    using step neighbours_final [OF assms(1) step.hyps(2) p] partial_image_update [OF p]
    by (simp add: upt_conv_Cons [of k] unfilter_byte_predictor [OF assms(2)])
qed simp

lemma length_rows: "\<forall>r \<in> set rs. length r = n \<Longrightarrow> length (concat rs) = length rs * n"
  by (induction rs) simp_all

lemma rows_slice:
  assumes "\<forall>r \<in> set rs. length r = n" "y < length rs"
  shows "slice (concat rs @ zs) (y * n) (y * n + n) = rs ! y"
proof -
  have parts: "concat rs = concat (take y rs) @ rs ! y @ concat (drop (Suc y) rs)"
    by (subst id_take_nth_drop [OF assms(2)]) simp
  have "length (concat (take y rs)) = y * n" "length (rs ! y) = n"
    using length_rows [of "take y rs" n] assms by (auto dest: in_set_takeD)
  then show ?thesis
    using slice_append_mid [of "concat (take y rs)" "rs ! y" "concat (drop (Suc y) rs) @ zs"] by (simp only: parts append_assoc)
qed

lemma unfilter_rows_filtered:
  assumes "0 < bpp" "list_all (\<lambda>f. f \<le> 4) fs" "length img = stride * length fs" "k \<le> length fs"
  shows "unfilter_rows stride bpp (filtered stride bpp fs img @ zs) [k..<length fs] (partial_image img (k * stride)) = Inr img"
  using assms(4)
proof (induction k rule: inc_induct)
  case base
  then show ?case using assms(3) by (simp add: partial_image_def mult.commute)
next
  case (step k)
  let ?raw = "filtered stride bpp fs img @ zs" and ?n = "stride + 1"
  have "slice ?raw (k * ?n) (k * ?n + ?n) = map (filtered_row stride bpp fs img) [0..<length fs] ! k"
    unfolding filtered_def using step.hyps by (intro rows_slice) (auto simp: filtered_row_def)
  then have row: "slice ?raw (k * ?n) (k * ?n + ?n) = fs ! k # map (filtered_byte stride bpp k (fs ! k) img) [0..<stride]"
    using step.hyps by (simp add: filtered_row_def)
  have len: "k * ?n + ?n \<le> length ?raw"
    using arg_cong [OF row, of length] by (simp del: length_append)
  have "?raw ! (k * ?n) = fs ! k"
    using arg_cong [OF row, of "\<lambda>l. l ! 0"] len by (simp del: length_append)
  moreover have "slice ?raw (k * ?n + 1) (k * ?n + 1 + stride) = map (filtered_byte stride bpp k (fs ! k) img) [0..<stride]"
    using arg_cong [OF row, of "\<lambda>l. slice l 1 ?n"] slice_slice [OF len, of "k * ?n" ?n 1] by (simp add: slice_def)
  moreover have "k * stride + stride \<le> length img"
    using step.hyps assms(3) mult_le_mono2 [of "Suc k" "length fs" stride] by (simp add: algebra_simps)
  moreover have "fs ! k \<le> 4" using assms(2) step.hyps by (simp add: list_all_length)
  ultimately show ?case
    using unfilter_row_filtered [OF assms(1), of "fs ! k" k stride img 0] step
    by (simp add: upt_conv_Cons [of k] add.commute)
qed

section \<open>Expansion\<close>

definition rgba_of :: "png_header \<Rightarrow> byte list \<Rightarrow> nat \<Rightarrow> byte list" where
  "rgba_of st img i = (case pixel st img i of (r, g, b, al) \<Rightarrow> [r, g, b, al])"

lemma length_rgba_of [simp]: "length (rgba_of st img i) = 4"
  by (simp add: rgba_of_def split: prod.splits)

lemma length_rgbas [simp]: "length (concat (map (rgba_of st img) is)) = 4 * length is"
  by (induction "is") simp_all

lemma expand_rgba_eq:
  "k \<le> n \<Longrightarrow> expand_rgba st img [k..<n] (concat (map (rgba_of st img) [0..<k]) @ replicate ((n - k) * 4) 0) =
    concat (map (rgba_of st img) [0..<n])"
proof (induction k rule: inc_induct)
  case (step k)
  obtain r g b al where px: "pixel st img k = (r, g, b, al)" by (cases "pixel st img k")
  let ?pre = "concat (map (rgba_of st img) [0..<k])"
  have "(n - k) * 4 = 4 + (n - Suc k) * 4" using step.hyps by simp
  then have zeros: "replicate ((n - k) * 4) 0 = [0, 0, 0, 0 :: byte] @ replicate ((n - Suc k) * 4) 0"
    by (simp only: replicate_add) (simp add: numeral_eq_Suc)
  have "(?pre @ [0, 0, 0, 0] @ zs)[k * 4 := r, k * 4 + 1 := g, k * 4 + 2 := b, k * 4 + 3 := al] =
      concat (map (rgba_of st img) [0..<Suc k]) @ zs" for zs
    by (simp add: list_update_append px rgba_of_def numeral_eq_Suc mult.commute)
  then show ?case using step px by (simp add: upt_conv_Cons [of k] zeros del: upt_Suc)
qed simp

lemma expand_rgba_all: "expand_rgba st img [0..<n] (replicate (n * 4) 0) = concat (map (rgba_of st img) [0..<n])"
  using expand_rgba_eq [of 0 n st img] by simp

text \<open>The reference: what the samples of an image of each colour type stand for.\<close>

fun pairs :: "byte list \<Rightarrow> (byte \<times> byte) list" where
  "pairs (a # b # xs) = (a, b) # pairs xs"
| "pairs xs = []"

definition entry :: "'a list \<Rightarrow> 'a \<Rightarrow> byte \<Rightarrow> 'a" where
  "entry xs d v = (if unat v < length xs then xs ! unat v else d)"

definition samples_rgba :: "byte \<Rightarrow> (byte \<times> byte \<times> byte) list \<Rightarrow> byte list \<Rightarrow> byte list \<Rightarrow> byte list" where
  "samples_rgba ct pal tr img =
    (if ct = 0 then concat (map (\<lambda>v. [v, v, v, 255]) img)
     else if ct = 2 then concat (map (\<lambda>i. [img ! (3 * i), img ! (3 * i + 1), img ! (3 * i + 2), 255]) [0..<length img div 3])
     else if ct = 3 then concat (map (\<lambda>v. case entry pal (0, 0, 0) v of (r, g, b) \<Rightarrow> [r, g, b, entry tr 255 v]) img)
     else if ct = 4 then concat (map (\<lambda>(v, al). [v, v, v, al]) (pairs img))
     else img)"

lemma pairs_nth: "length img = n * 2 \<Longrightarrow> pairs img = map (\<lambda>i. (img ! (i * 2), img ! (i * 2 + 1))) [0..<n]"
proof (induction n arbitrary: img)
  case (Suc n)
  then obtain a b xs where "img = a # b # xs" "length xs = n * 2"
    by (auto simp: length_Suc_conv)
  then show ?case using Suc.IH by (simp add: map_upt_Suc del: upt_Suc)
qed simp

lemma quads_nth:
  "length img = n * 4 \<Longrightarrow> concat (map (\<lambda>i. [img ! (i * 4), img ! (i * 4 + 1), img ! (i * 4 + 2), img ! (i * 4 + 3)]) [0..<n]) = img"
proof (induction n arbitrary: img)
  case (Suc n)
  then obtain a b c d xs where "img = a # b # c # d # xs" "length xs = n * 4"
    by (auto simp: eval_nat_numeral length_Suc_conv)
  then show ?case using Suc.IH [of xs] by (simp add: map_upt_Suc add.commute del: upt_Suc)
qed simp

lemma expand_samples:
  assumes "channels_of (color_type st) = Some c" "length img = n * c"
  shows "concat (map (rgba_of st img) [0..<n]) = samples_rgba (color_type st) (palette st) (trns st) img"
proof -
  have img: "map (\<lambda>i. f (img ! i)) [0..<length img] = map f img" for f :: "byte \<Rightarrow> byte list"
    by (rule nth_equalityI) simp_all
  consider "color_type st = 0" "c = 1" | "color_type st = 2" "c = 3" | "color_type st = 3" "c = 1" | "color_type st = 4" "c = 2"
    | "color_type st = 6" "c = 4"
    using assms(1) by (auto simp: channels_of_def split: if_splits)
  then show ?thesis
  proof cases
    case 1
    then show ?thesis using assms(2) img [of "\<lambda>v. [v, v, v, 255]"] by (simp add: samples_rgba_def rgba_of_def [abs_def] pixel_def)
  next
    case 2
    then show ?thesis using assms(2) by (simp add: samples_rgba_def rgba_of_def [abs_def] pixel_def mult.commute)
  next
    case 3
    have "rgba_of st img = (\<lambda>i. case entry (palette st) (0, 0, 0) (img ! i) of (r, g, b) \<Rightarrow> [r, g, b, entry (trns st) 255 (img ! i)])"
      by (rule ext) (simp add: rgba_of_def pixel_def 3 entry_def Let_def split: prod.split)
    then show ?thesis
      using 3 assms(2) img [of "\<lambda>v. case entry (palette st) (0, 0, 0) v of (r, g, b) \<Rightarrow> [r, g, b, entry (trns st) 255 v]"]
      by (simp add: samples_rgba_def)
  next
    case 4
    then show ?thesis using assms(2) pairs_nth [of img n] by (simp add: samples_rgba_def rgba_of_def [abs_def] pixel_def o_def)
  next
    case 5
    then show ?thesis using assms(2) quads_nth [of img n] by (simp add: samples_rgba_def rgba_of_def [abs_def] pixel_def)
  qed
qed

section \<open>Files\<close>

text \<open>
  The files of an encoder, again by the specification alone: the signature, the header chunk, a palette and transparency where there are any, the compressed rows in
  any number of parts, and the end chunk. The check value of a chunk, which the decoder does not look at, is an arbitrary function.
\<close>

definition ascii :: "string \<Rightarrow> byte list" where
  "ascii t = map of_char t"

definition be_bytes32 :: "nat \<Rightarrow> byte list" where
  "be_bytes32 n = rev (le_bytes 4 n)"

definition chunk_bytes :: "(byte list \<Rightarrow> 32 word) \<Rightarrow> byte list \<times> byte list \<Rightarrow> byte list" where
  "chunk_bytes crc c = be_bytes32 (length (snd c)) @ fst c @ snd c @ be_bytes32 (unat (crc (fst c @ snd c)))"

fun chunk_ok :: "byte list \<times> byte list \<Rightarrow> bool" where
  "chunk_ok (ty, d) \<longleftrightarrow> length ty = 4 \<and> ty \<noteq> ascii ''IEND'' \<and> length d < 2 ^ 32"

fun take_chunks :: "(byte list \<times> byte list) list \<Rightarrow> png_header \<Rightarrow> png_error + png_header" where
  "take_chunks [] st = Inr st"
| "take_chunks ((ty, d) # cs) st = (case take_chunk ty d st of Inl e \<Rightarrow> Inl e | Inr st \<Rightarrow> take_chunks cs st)"

definition header_chunk :: "nat \<Rightarrow> nat \<Rightarrow> byte \<Rightarrow> byte list \<times> byte list" where
  "header_chunk w h ct = (ascii ''IHDR'', be_bytes32 w @ be_bytes32 h @ [8, ct, 0, 0, 0])"

definition file_chunks :: "nat \<Rightarrow> nat \<Rightarrow> byte \<Rightarrow> (byte \<times> byte \<times> byte) list \<Rightarrow> byte list \<Rightarrow> byte list list \<Rightarrow> (byte list \<times> byte list) list" where
  "file_chunks w h ct pal tr parts = header_chunk w h ct # (if pal = [] then [] else [(ascii ''PLTE'', concat (map (\<lambda>(r, g, b). [r, g, b]) pal))]) @
    (if tr = [] then [] else [(ascii ''tRNS'', tr)]) @ map (Pair (ascii ''IDAT'')) parts"

definition png_file :: "(byte list \<Rightarrow> 32 word) \<Rightarrow> (byte list \<times> byte list) list \<Rightarrow> byte list" where
  "png_file crc cs = 137 # ascii ''PNG'' @ [13, 10, 26, 10] @ concat (map (chunk_bytes crc) cs) @ chunk_bytes crc (ascii ''IEND'', [])"

lemma ascii_names [simp]:
  "ascii ''IHDR'' = IHDR" "ascii ''PLTE'' = PLTE" "ascii ''tRNS'' = tRNS" "ascii ''IDAT'' = IDAT" "ascii ''IEND'' = IEND"
  "ascii ''PNG'' = [80, 78, 71]"
  by (simp_all add: ascii_def IHDR_def PLTE_def tRNS_def IDAT_def IEND_def)

lemma png_file_parts: "png_file crc cs = SIG @ concat (map (chunk_bytes crc) cs) @ chunk_bytes crc (IEND, [])"
  by (simp add: png_file_def SIG_def)

lemma length_be_bytes32 [simp]: "length (be_bytes32 n) = 4"
  by (simp add: be_bytes32_def)

lemma be32_be_bytes32: "n < 2 ^ 32 \<Longrightarrow> be32 (be_bytes32 n) = n"
proof -
  assume "n < 2 ^ 32"
  then have "of_le (le_bytes 4 n) = n" by (intro of_le_le_bytes) simp
  moreover have "be32 (rev b) = of_le b" if "length b = 4" for b
  proof -
    from that obtain b0 b1 b2 b3 where "b = [b0, b1, b2, b3]" by (auto simp: eval_nat_numeral length_Suc_conv)
    then show ?thesis by (simp add: be32_def)
  qed
  ultimately show ?thesis by (simp add: be_bytes32_def)
qed

lemma chunk_loop_one:
  assumes "bytes = pre @ chunk_bytes crc (ty, d) @ rest" "length ty = 4" "length d < 2 ^ 32"
  shows "chunk_loop bytes (length pre) st =
    (if ty = IEND then Inr st else case take_chunk ty d st of Inl e \<Rightarrow> Inl e
     | Inr st \<Rightarrow> chunk_loop bytes (length (pre @ chunk_bytes crc (ty, d))) st)"
proof -
  let ?p = "length pre" and ?c = "be_bytes32 (unat (crc (ty @ d)))"
  have bytes: "bytes = pre @ be_bytes32 (length d) @ ty @ d @ ?c @ rest" using assms(1) by (simp add: chunk_bytes_def)
  have "slice bytes ?p (?p + 4) = be_bytes32 (length d)"
    using slice_append_mid [of pre "be_bytes32 (length d)" "ty @ d @ ?c @ rest"] by (simp add: bytes)
  then have len: "be32 (slice bytes ?p (?p + 4)) = length d" using assms(3) by (simp add: be32_be_bytes32)
  have ty: "slice bytes (?p + 4) (?p + 8) = ty"
    using slice_append_mid [of "pre @ be_bytes32 (length d)" ty "d @ ?c @ rest"] assms(2) by (simp add: bytes ac_simps)
  have d: "slice bytes (?p + 8) (?p + 8 + length d) = d"
    using slice_append_mid [of "pre @ be_bytes32 (length d) @ ty" d "?c @ rest"] assms(2) by (simp add: bytes add.assoc)
  have after: "length (pre @ chunk_bytes crc (ty, d)) = ?p + 8 + length d + 4" using assms(2) by (simp add: chunk_bytes_def)
  have "length bytes = ?p + 12 + length d + length rest" using assms(2) by (simp add: bytes)
  then show ?thesis unfolding after using len ty d by (simp add: chunk_loop.simps [of bytes ?p] Let_def)
qed

lemma chunk_loop_all:
  "list_all chunk_ok cs \<Longrightarrow> bytes = pre @ concat (map (chunk_bytes crc) cs) @ chunk_bytes crc (IEND, []) \<Longrightarrow>
    chunk_loop bytes (length pre) st = take_chunks cs st"
proof (induction cs arbitrary: pre st)
  case Nil
  then show ?case using chunk_loop_one [of bytes pre crc IEND "[]" "[]"] by (simp add: IEND_def)
next
  case (Cons c cs)
  obtain ty d where c: "c = (ty, d)" by (cases c)
  show ?case
    using Cons.prems Cons.IH [of "pre @ chunk_bytes crc c"]
      chunk_loop_one [of bytes pre crc ty d "concat (map (chunk_bytes crc) cs) @ chunk_bytes crc (IEND, [])" st]
    by (simp add: c split: sum.splits)
qed

lemma triples_concat [simp]: "triples (concat (map (\<lambda>(r, g, b). [r, g, b]) pal)) = pal"
  by (induction pal) auto

lemmas chunk_names = IHDR_def PLTE_def tRNS_def IDAT_def IEND_def

lemma take_idats: "take_chunks (map (Pair IDAT) parts) st = Inr (st\<lparr>idat := idat st @ concat parts\<rparr>)"
  by (induction parts arbitrary: st) (simp_all add: take_chunk_def chunk_names)

lemma take_chunks_append:
  "take_chunks (cs @ ds) st = (case take_chunks cs st of Inl e \<Rightarrow> Inl e | Inr st \<Rightarrow> take_chunks ds st)"
  by (induction cs st rule: take_chunks.induct) (auto split: sum.splits)

lemma take_file_chunks:
  assumes "w < 2 ^ 32" "h < 2 ^ 32"
  shows "take_chunks (file_chunks w h ct pal tr parts) header_init =
    Inr \<lparr>width = w, height = h, bit_depth = 8, color_type = ct, interlace = 0, palette = pal, trns = tr, idat = concat parts\<rparr>"
proof -
  let ?d = "be_bytes32 w @ be_bytes32 h @ [8, ct, 0, 0, 0]"
  have "slice ?d 0 4 = be_bytes32 w" "slice ?d 4 8 = be_bytes32 h"
    using slice_append_mid [of "[]" "be_bytes32 w"] slice_append_mid [of "be_bytes32 w" "be_bytes32 h"] by simp_all
  then have "take_chunk IHDR ?d header_init = Inr (header_init\<lparr>width := w, height := h, bit_depth := 8, color_type := ct, interlace := 0\<rparr>)"
    using assms by (simp add: take_chunk_def be32_be_bytes32 nth_append)
  moreover have "take_chunk PLTE d st = Inr (st\<lparr>palette := triples d\<rparr>)" "take_chunk tRNS d st = Inr (st\<lparr>trns := d\<rparr>)" for d st
    by (simp_all add: take_chunk_def chunk_names)
  ultimately show ?thesis
    by (simp add: file_chunks_def header_chunk_def take_chunks_append take_idats header_init_def)
qed


lemma file_chunks_ok:
  "3 * length pal < 2 ^ 32 \<Longrightarrow> length tr < 2 ^ 32 \<Longrightarrow> list_all (\<lambda>p. length p < 2 ^ 32) parts \<Longrightarrow>
    list_all chunk_ok (file_chunks w h ct pal tr parts)"
proof -
  have "length (concat (map (\<lambda>(r, g, b). [r, g, b]) pal)) = 3 * length pal" by (induction pal) auto
  then show "3 * length pal < 2 ^ 32 \<Longrightarrow> length tr < 2 ^ 32 \<Longrightarrow> list_all (\<lambda>p. length p < 2 ^ 32) parts \<Longrightarrow>
    list_all chunk_ok (file_chunks w h ct pal tr parts)"
    by (auto simp: file_chunks_def header_chunk_def chunk_names list_all_iff)
qed

lemma decode_file:
  assumes "w < 2 ^ 32" "h < 2 ^ 32" "0 < w" "0 < h" "channels_of ct = Some n" "2 \<le> length (concat parts)"
    "list_all chunk_ok (file_chunks w h ct pal tr parts)"
  shows "decode_png (png_file crc (file_chunks w h ct pal tr parts)) =
    render \<lparr>width = w, height = h, bit_depth = 8, color_type = ct, interlace = 0, palette = pal, trns = tr, idat = concat parts\<rparr> n"
proof -
  let ?f = "png_file crc (file_chunks w h ct pal tr parts)"
  have sig: "8 \<le> length ?f" "take 8 ?f = SIG" by (simp_all add: png_file_parts SIG_def)
  have "chunk_loop ?f (length SIG) header_init = take_chunks (file_chunks w h ct pal tr parts) header_init"
    by (rule chunk_loop_all [OF assms(7)]) (simp add: png_file_parts)
  moreover have "length SIG = 8" by (simp add: SIG_def)
  ultimately show ?thesis using sig assms take_file_chunks [OF assms(1,2)] by (simp add: decode_png_def)
qed


text \<open>A palette image of one column and two rows, in one stored block split into two chunks.\<close>

lemma stored_rows: "deflate [] (concat (map byte_bits [1, 4, 0, 251, 255, 0, 1, 2, 255])) [0, 1, 2, 255]"
proof -
  have b: "block [] 0 (replicate 5 False @ concat (map byte_bits (le_bytes 2 (length [0 :: byte, 1, 2, 255]) @ [251, 255] @ [0, 1, 2, 255])))
      (concat (map byte_bits [])) ([] @ [0, 1, 2, 255])"
    by (rule block.stored) simp_all
  have "concat (map byte_bits [1, 4, 0, 251, 255, 0, 1, 2, 255]) = True # lsb 2 0 @
      (replicate 5 False @ concat (map byte_bits (le_bytes 2 (length [0 :: byte, 1, 2, 255]) @ [251, 255] @ [0, 1, 2, 255]))) @
      concat (map byte_bits [])" by code_simp
  then show ?thesis using deflate.final [OF b] by (simp only: append_Nil)
qed

lemma palette_rows:
  "filtered (1 * 1) 1 [0, 2] [1, 0] = [0, 1, 2, 255]"
  "samples_rgba 3 [(1, 2, 3), (4, 5, 6)] [7] [1, 0] = [4, 5, 6, 255, 1, 2, 3, 7]"
  by code_simp+


lemma palette_file:
  "decode_png (png_file (\<lambda>_. 0) (file_chunks 1 2 3 [(1, 2, 3), (4, 5, 6)] [7] [[120, 1, 1, 4], [0, 251, 255, 0, 1, 2, 255]])) =
    Some (Inr \<lparr>im_width = 1, im_height = 2, rgba = [4, 5, 6, 255, 1, 2, 3, 7]\<rparr>)"
proof -
  let ?parts = "[[120, 1, 1, 4], [0, 251, 255, 0, 1, 2, 255]] :: byte list list" and ?pal = "[(1, 2, 3), (4, 5, 6)] :: (byte \<times> byte \<times> byte) list"
  have "inflate [1, 4, 0, 251, 255, 0, 1, 2, 255] = Inr [0, 1, 2, 255]" using stored_rows by (rule inflate_format)
  moreover have "unfilter 1 2 1 [0, 1, 2, 255] = Inr [1, 0]" by code_simp
  moreover have "expand_rgba \<lparr>width = 1, height = 2, bit_depth = 8, color_type = 3, interlace = 0, palette = ?pal, trns = [7],
      idat = concat ?parts\<rparr> [1, 0] [0..<2] (replicate 8 0) = [4, 5, 6, 255, 1, 2, 3, 7]" by code_simp
  moreover have "list_all chunk_ok (file_chunks 1 2 3 ?pal [7] ?parts)" by (rule file_chunks_ok) simp_all
  ultimately show ?thesis
    by (subst decode_file [where n = 1]) (simp_all add: channels_of_def render_def Let_def del: upt_Suc)
qed


text \<open>The documented shape of a result: whenever decoding succeeds, on any bytes at all, the image has at least one row and one column
  and exactly four bytes for every pixel.
\<close>

theorem decoded_image_shape:
  "decode_png bytes = Some (Inr im) \<Longrightarrow>
    0 < im_width im \<and> 0 < im_height im \<and> length (rgba im) = im_width im * im_height im * 4"
  by (auto simp: decode_png_def render_def Let_def expand_rgba_all split: if_splits sum.splits option.splits)

theorem decoded_image_shape_witness:
  "length (rgba \<lparr>im_width = 1, im_height = 2, rgba = [4, 5, 6, 255, 1, 2, 3, 7]\<rparr>) = 1 * 2 * 4"
proof -
  let ?im = "\<lparr>im_width = 1, im_height = 2, rgba = [4, 5, 6, 255, 1, 2, 3, 7]\<rparr>"
  have "decode_png (png_file (\<lambda>_. 0) (file_chunks 1 2 3 [(1, 2, 3), (4, 5, 6)] [7] [[120, 1, 1, 4], [0, 251, 255, 0, 1, 2, 255]])) =
    Some (Inr ?im)" by (rule palette_file)
  from decoded_image_shape [OF this] show ?thesis by simp
qed

text \<open>
  The guard of the source against absurd dimensions covers the number of pixels and the row length, not the size of the filtered
  rows: a header with the largest dimensions and any small stream of pixels stops the decoder instead of being refused.
\<close>

lemma largest_dimensions_stop:
  "decode_png (png_file (\<lambda>_. 0) (file_chunks (2 ^ 32 - 1) (2 ^ 32 - 1) 6 [] [] [[120, 1, 1, 4, 0, 251, 255, 0, 1, 2, 255]])) = None"
proof -
  have "inflate [1, 4, 0, 251, 255, 0, 1, 2, 255] = Inr [0, 1, 2, 255]" using stored_rows by (rule inflate_format)
  then have "render \<lparr>width = 2 ^ 32 - 1, height = 2 ^ 32 - 1, bit_depth = 8, color_type = 6, interlace = 0, palette = [], trns = [],
      idat = concat [[120, 1, 1, 4, 0, 251, 255, 0, 1, 2, 255]]\<rparr> 4 = None"
    by (simp add: render_def Let_def)
  moreover have "list_all chunk_ok (file_chunks (2 ^ 32 - 1) (2 ^ 32 - 1) 6 [] [] [[120, 1, 1, 4, 0, 251, 255, 0, 1, 2, 255]])"
    by (rule file_chunks_ok) simp_all
  ultimately show ?thesis by (subst decode_file [where n = 4]) (simp_all add: channels_of_def)
qed

end
