(* ===== verification/Spec2Isabelle.thy ===== *)
theory Spec2Isabelle
  imports Ui_Keys Input Clock Ata Acpi Pci Boot_Image Png
begin

text \<open>
  \<^bold>\<open>TablesOS.\<close> TablesOS is an operating system whose only storage is a relational database: it boots from a disk image, mounts the
  volume behind it and lets the user edit tables on the screen. This library models the program's own logic and proves what makes it
  correct. The crates are \<^verbatim>\<open>tablestore\<close> (the database engine), \<^verbatim>\<open>kernel\<close> (drivers and user interface), \<^verbatim>\<open>pngdec\<close> (an image decoder)
  and the image builder at the workspace root.

  \<^bold>\<open>How the parts interact.\<close> A block device serves sectors of 512 bytes. The journal groups eight sectors to a page and makes a set of
  page writes atomic with a redo log. The pager adds a superblock, a page cache, a buffer of uncommitted pages and a free list of
  pages. The store keeps rows, schemas and the catalog as blobs in chains of pages, the rows of a table as slots of an index chain,
  and runs every operation inside a transaction of the pager. Values, rows and schemas have their own byte encodings. In the kernel
  the block device is the IDE driver shifted to the data area of the boot disk; keyboard and mouse interrupts feed one event ring the
  user interface polls; the clock fills in dates; power-off walks the firmware's tables.

  \<^bold>\<open>The database engine.\<close>
  \<^item> Prelude: bytes, slices, the error type of \<^verbatim>\<open>lib.rs\<close>, the state-and-error monad \<^verbatim>\<open>act\<close>, in which an action returns \<^term>\<open>None\<close> when
    the program panics, and otherwise an error or a value with the new state; ordered maps as sorted association lists.
  \<^item> Bignum, Types, Value (\<^verbatim>\<open>bignum.rs\<close>, \<^verbatim>\<open>types.rs\<close>, \<^verbatim>\<open>value.rs\<close>): unlimited integers, decimals, dates, times and time zones,
    their parsers, printers and comparisons. Printing then parsing is the identity; parsing gives canonical values; the order of
    each type satisfies the contract of the locale \<^verbatim>\<open>ord_contract\<close>, interpreted for every type; decimals compare as numbers.
  \<^item> Codec, Schema (\<^verbatim>\<open>codec.rs\<close>, \<^verbatim>\<open>schema.rs\<close>): variable-length integers, strings, cells, rows, tables. The locale \<^verbatim>\<open>codec\<close> states
    that a decoder inverts an encoder and stops where it ended; it is interpreted for every one of these formats.
  \<^item> Block, Journal, Journal_Crash, Pager (\<^verbatim>\<open>block.rs\<close>, \<^verbatim>\<open>journal.rs\<close>, \<^verbatim>\<open>pager.rs\<close>): the locale \<^verbatim>\<open>block_device\<close> is what the engine may
    assume of a device, interpreted for the memory device of the source, which can lose power after any sector write, and for the
    offset adapter. A commit cut anywhere leaves the old or the new content, recovery is idempotent also when it is cut itself, and
    mounting after a crash shows exactly one of the two. Pages read back what was written, allocated pages are fresh, freed pages are
    reused, rollback restores the committed state.
  \<^item> Store with Store_Tx, Store_Chains, Store_Schema (\<^verbatim>\<open>store.rs\<close>): every operation of the relational layer. An operation that fails
    changes nothing; chains give back what was written and all their pages when freed; the catalog's encoding, the fresh names of
    foreign keys, the permutation of a moved column and the duplicate test are proved against reference definitions.

  \<^bold>\<open>The store implements a database.\<close>
  \<^item> Store_Abs: the abstract database, a list of tables with their rows, and each operation on it as a check and a result;
    \<^verbatim>\<open>represents\<close> says which database a volume stands for (catalog, schemas, index chains, row blobs in disjoint pages).
  \<^item> Store_Reads, Store_Writes, Store_Power, Store_Rows, Store_Ops, Store_Live: the store's steps against that representation: reading,
    writing inside a transaction, losing power in it, changing rows, the operations on rows, and how much room an insertion needs.
  \<^item> Store_Alter, Schema_Ops: the operations that change a schema, with the rewriting of all rows they may need.
  \<^item> Integrity, Integrity_Schema: consistency of a database (types, not-null, unique, foreign keys, names) and that each checked
    operation keeps it.
  \<^item> Store_Refine: the fourteen operations as steps of the database and the verdict of its rules on each, their refinement also across
    power cuts and mounts, the exact answers, and the consistency of everything that histories reach.
  \<^item> Store_Volume: the store for a client. \<^verbatim>\<open>holds\<close> says that a store shows a consistent database, \<^verbatim>\<open>answers\<close> what a reading program
    returns on it, and every operation either takes a step of the database or leaves it as it was and says why. Op_Ready says when
    the arguments of an operation fit its 64-bit formats; Value_Sizes bounds the parsed and displayed texts.

  \<^bold>\<open>The kernel's drivers.\<close>
  \<^item> Ports: the I/O ports. The hardware is a parameter, a \<^verbatim>\<open>bus\<close> whose answers are arbitrary; the trace of writes is what theorems
    speak about.
  \<^item> Input (\<^verbatim>\<open>ps2.rs\<close>): scancode and mouse-packet decoders and the event ring, which refines a bounded queue (locale
    \<^verbatim>\<open>event_queue\<close>) under every interleaving of interrupts and polls.
  \<^item> Clock (\<^verbatim>\<open>rtc.rs\<close>), Ata (\<^verbatim>\<open>ata.rs\<close>), Acpi (\<^verbatim>\<open>acpi.rs\<close>): the civil time is read whatever the clock's encoding; the disk driver
    touches exactly the sector it is asked for and enumeration only reads; table discovery never leaves mapped memory and power-off
    writes nothing but its two requests.
  \<^item> Pci (\<^verbatim>\<open>pci.rs\<close>): the scan of the buses lists every function that can be found, as the bytes of a configuration space by the
    specification describe it, and only writes addresses.
  \<^item> Boot_Image (\<^verbatim>\<open>src/main.rs\<close>): the layout of the boot image, which the kernel's own header parser reads back.

  \<^bold>\<open>The user interface\<close> (\<^verbatim>\<open>ui.rs\<close>).
  \<^item> Text_Edit: text fields. A caret counts characters while the text is UTF-8 bytes; the locale \<^verbatim>\<open>line_editor\<close> states what the keys do
    to the characters around the caret, and the functions of the source are its interpretation.
  \<^item> Text_Layout: the window of a field, cells and wrapped text, and the bars of key hints: packed into the fewest lines, which
    stay bars and keep all options, with highlights and cursor following their lines and clicks resolved as before.
  \<^item> Field_Builder: the value builder: it splits a value into parts and composes it again; every key keeps it well-formed.
  \<^item> Table_View: the rows of a table as they are shown (filtered, sorted, with the next free key) and the row editor's way from a stored
    row to text fields and back.
  \<^item> Screens, App: the stack of screens, the cache of decoded rows and the handlers of all screens: keys, modal screens, clicks and one
    turn of the event loop. What they learn from hardware other than the disk is the record \<^verbatim>\<open>hardware\<close>.

  \<^item> View_Answers, Row_Links: what these read from a volume as functions of the database. Sorting is an interpretation of the locale
    \<^verbatim>\<open>preorder_contract\<close> and stable; the links of a row lead to exactly the rows it refers to and that refer to it.
  \<^item> Ui_Rules, Ui_Safe, Ui_Edit, Ui_Keys: rules for running handlers, the well-formedness \<^verbatim>\<open>ui_ok\<close> of screens, cache and volume, and
    that every key of every screen keeps it, does not panic and changes the database by at most one operation. The limits are a next
    generation number below \<open>2 ^ 64\<close>, texts that fit the memory, a clock that shows a civil time, and a row view whose row is still
    there. Clicks are not covered: they are resolved against the last drawn frame and can select a row that a picker does not have.

  \<^bold>\<open>The image decoder.\<close>
  \<^item> Inflate, Inflate_Correct, Png (\<^verbatim>\<open>pngdec/src/lib.rs\<close>): bit reader, canonical Huffman tables, blocks, chunks, scanline filters and
    colour expansion. The DEFLATE format is stated as a relation between bits and bytes; the decompressor returns what every stream
    of the format stands for, and decoding inverts encoding for all colour types and filters. The encoder is stated by the two
    specifications, without the decoder's definitions.

  \<^bold>\<open>Integers, loops and fuel.\<close> Bytes and checksums are words; \<^verbatim>\<open>u64\<close> and \<^verbatim>\<open>usize\<close> quantities are naturals with the overflow
  that would panic written out. Loops are structural, carry a termination proof (unread bits, remaining bytes), or, where the
  source walks a chain that damage could make cyclic, are \<^verbatim>\<open>partial_function\<close>s whose results are proved to exist on sound
  volumes. Bounded polling loops take the bound of the source.

  \<^bold>\<open>Not modelled.\<close> The drawing of the screens into the framebuffer is output: the click targets of the frame on display are a part of the
  state that drawing leaves. The xHCI driver and the installer built on it live on memory-mapped rings and DMA; the handlers take their
  answers from the record \<^verbatim>\<open>hardware\<close>. Boot glue, descriptor tables, the heap, serial output and sample data carry no logic of their own.
\<close>

end
